(* ===== verification/Prelude.thy ===== *)
theory Prelude
  imports Main "HOL-Library.Word"
begin

text \<open>
  Shared material of the development: the names of the machine types the sources use,
  the collections of rewrite rules the component theories fill, C++'s truncating integer
  division, and generic facts on lists and runs that several components need.
\<close>

section \<open>Machine types and C++ arithmetic\<close>

type_synonym uint8 = "8 word"
type_synonym uint32 = "32 word"
type_synonym uint64 = "64 word"

lemma unat_ucast_le: "unat (ucast w) \<le> unat w"
  by (simp add: unsigned_ucast_eq take_bit_nat_less_eq_self)

text \<open>
  A C++ \<open>int\<close> is an HOL \<^typ>\<open>int\<close>; signed overflow is undefined behaviour in C++, so
  the theorems that depend on the range of a value state it with \<open>in_int32\<close>.
\<close>

definition in_int32 :: "int \<Rightarrow> bool" where
  "in_int32 x \<longleftrightarrow> - (2 ^ 31) \<le> x \<and> x < 2 ^ 31"

text \<open>C++ integer division truncates towards zero, HOL's \<open>div\<close> towards minus infinity.\<close>

definition cdiv :: "int \<Rightarrow> int \<Rightarrow> int" where
  "cdiv a b = (if 0 \<le> a then a div b else - ((- a) div b))"

lemma cdiv_nonneg [simp]: "0 \<le> a \<Longrightarrow> cdiv a b = a div b"
  by (simp add: cdiv_def)

text \<open>The remainder that goes with it; it has the sign of the left operand.\<close>

definition cmod :: "int \<Rightarrow> int \<Rightarrow> int" where
  "cmod a b = a - b * cdiv a b"

lemma cdiv_nonpos:
  assumes "a \<le> 0" and "0 < b"
  shows "cdiv a b \<le> 0"
  using assms by (auto simp: cdiv_def pos_imp_zdiv_nonneg_iff)

section \<open>Errors and buffers of the network stack\<close>

text \<open>The \<open>net::Error\<close> codes that occur; \<open>SocketError\<close> stands for every other code of the socket.\<close>

datatype net_error =
    ERR_IO_PENDING | ERR_INVALID_ARGUMENT | ERR_WS_PROTOCOL_ERROR | ERR_CONNECTION_CLOSED
  | ERR_SSL_PROTOCOL_ERROR | ERR_MSG_TOO_BIG | ERR_UNEXPECTED | ERR_INVALID_CHUNKED_ENCODING
  | SocketError int

text \<open>Storing bytes into a buffer from an index on.\<close>

definition store_bytes :: "nat \<Rightarrow> uint8 list \<Rightarrow> uint8 list \<Rightarrow> uint8 list" where
  "store_bytes i bs buf = take i buf @ bs @ drop (i + length bs) buf"

section \<open>Rule collections\<close>

named_theorems ssm_ops \<open>definitions of the operations of the scheduler state machine\<close>
named_theorems ssm_preds \<open>definitions of its decision predicates\<close>
named_theorems ssm_dchecks \<open>definitions of its debug assertions\<close>
named_theorems frame_rules \<open>fields an operation leaves alone\<close>

section \<open>Runs\<close>

text \<open>A property kept by every step of a run is kept by the run.\<close>

lemma fold_invariant:
  assumes "\<And>x s. x \<in> set xs \<Longrightarrow> P s \<Longrightarrow> P (f x s)" and "P s"
  shows "P (fold f xs s)"
  using assms by (induction xs arbitrary: s) auto

lemma fold_measure_le:
  fixes m :: "'s \<Rightarrow> nat"
  assumes "\<And>x s. x \<in> set xs \<Longrightarrow> m (f x s) \<le> m s"
  shows "m (fold f xs s) \<le> m s"
  using assms
proof (induction xs arbitrary: s)
  case Nil
  then show ?case by simp
next
  case (Cons x xs)
  have "m (fold f xs (f x s)) \<le> m (f x s)"
    by (rule Cons.IH) (simp add: Cons.prems)
  also have "\<dots> \<le> m s"
    by (rule Cons.prems) simp
  finally show ?case by simp
qed

text \<open>A run is legal when each of its operations is allowed in the state it starts from.\<close>

fun legal_run :: "('s \<Rightarrow> 'o \<Rightarrow> bool) \<Rightarrow> ('o \<Rightarrow> 's \<Rightarrow> 's) \<Rightarrow> 's \<Rightarrow> 'o list \<Rightarrow> bool" where
  "legal_run can exec s [] = True"
| "legal_run can exec s (x # xs) = (can s x \<and> legal_run can exec (exec x s) xs)"

section \<open>Funnels\<close>

text \<open>
  A funnel is a flag that makes an operation happen at most once between two resets: firing
  fills it, only a reset empties it, and while it is full the operation is not allowed.
\<close>

locale funnel =
  fixes can :: "'s \<Rightarrow> 'o \<Rightarrow> bool"
    and exec :: "'o \<Rightarrow> 's \<Rightarrow> 's"
    and full :: "'s \<Rightarrow> bool"
    and fires :: "'o \<Rightarrow> bool"
    and resets :: "'o \<Rightarrow> bool"
  assumes fires_fill: "fires x \<Longrightarrow> full (exec x s)"
    and full_kept: "full s \<Longrightarrow> \<not> resets x \<Longrightarrow> full (exec x s)"
    and full_blocks: "full s \<Longrightarrow> fires x \<Longrightarrow> \<not> can s x"
begin

lemma fires_le_resets:
  "legal_run can exec s xs \<Longrightarrow>
   length (filter fires xs) \<le> length (filter resets xs) + (if full s then 0 else 1)"
proof (induction xs arbitrary: s)
  case Nil
  then show ?case by simp
next
  case (Cons x xs)
  then have IH: "length (filter fires xs) \<le>
      length (filter resets xs) + (if full (exec x s) then 0 else 1)" and "can s x"
    by simp_all
  then show ?case
    using fires_fill [of x s] full_kept [of s x] full_blocks [of s x] by (auto split: if_splits)
qed

lemma at_most_once:
  assumes "legal_run can exec s xs" and "\<forall>x \<in> set xs. \<not> resets x"
  shows "length (filter fires xs) \<le> 1"
  using fires_le_resets [OF assms(1)] assms(2) by (auto split: if_splits)

end

end
