(* ===== verification/Scheduler_State_Machine.thy ===== *)
theory Scheduler_State_Machine
  imports Prelude
begin

text \<open>
  The compositor's scheduling state machine, class \<open>SchedulerStateMachine\<close> of
  \<^verbatim>\<open>cc/scheduler/scheduler_state_machine.{h,cc}\<close>, with the settings it reads
  (\<^verbatim>\<open>cc/scheduler/scheduler_settings.{h,cc}\<close>). Every data member is a field of the record
  \<open>ssm\<close> under its own name without the trailing underscore; every member function is one
  definition under its own name. A \<open>DCHECK\<close> is compiled out of release builds: the
  operation itself is the release behaviour, and the conditions a debug build asserts are
  the predicate \<open>\<langle>op\<rangle>_dcheck\<close>. The counters are C++ \<open>int\<close>s, modelled as \<^typ>\<open>int\<close>.
\<close>

section \<open>Settings and enumerations\<close>

record scheduler_settings =
  use_external_begin_frame_source :: bool
  main_frame_while_swap_throttled_enabled :: bool
  main_frame_before_activation_enabled :: bool
  commit_to_active_tree :: bool
  timeout_and_draw_when_animation_checkerboards :: bool
  using_synchronous_renderer_compositor :: bool
  throttle_frame_production :: bool
  maximum_number_of_failed_draws_before_draw_is_forced :: int
  background_frame_interval :: int

text \<open>Times are microseconds (\<open>base::TimeDelta::FromSeconds(1)\<close> is \<open>1000000\<close>).\<close>

definition SchedulerSettings :: scheduler_settings where
  "SchedulerSettings =
     \<lparr>use_external_begin_frame_source = False,
      main_frame_while_swap_throttled_enabled = False,
      main_frame_before_activation_enabled = False,
      commit_to_active_tree = False,
      timeout_and_draw_when_animation_checkerboards = True,
      using_synchronous_renderer_compositor = False,
      throttle_frame_production = True,
      maximum_number_of_failed_draws_before_draw_is_forced = 3,
      background_frame_interval = 1000000\<rparr>"

datatype output_surface_state_t =
    OUTPUT_SURFACE_NONE
  | OUTPUT_SURFACE_ACTIVE
  | OUTPUT_SURFACE_CREATING
  | OUTPUT_SURFACE_WAITING_FOR_FIRST_COMMIT
  | OUTPUT_SURFACE_WAITING_FOR_FIRST_ACTIVATION

datatype begin_impl_frame_state_t =
    BEGIN_IMPL_FRAME_STATE_IDLE
  | BEGIN_IMPL_FRAME_STATE_BEGIN_FRAME_STARTING
  | BEGIN_IMPL_FRAME_STATE_INSIDE_BEGIN_FRAME
  | BEGIN_IMPL_FRAME_STATE_INSIDE_DEADLINE

datatype deadline_mode_t =
    BEGIN_IMPL_FRAME_DEADLINE_MODE_NONE
  | BEGIN_IMPL_FRAME_DEADLINE_MODE_IMMEDIATE
  | BEGIN_IMPL_FRAME_DEADLINE_MODE_REGULAR
  | BEGIN_IMPL_FRAME_DEADLINE_MODE_LATE
  | BEGIN_IMPL_FRAME_DEADLINE_MODE_BLOCKED_ON_READY_TO_DRAW

datatype begin_main_frame_state_t =
    BEGIN_MAIN_FRAME_STATE_IDLE
  | BEGIN_MAIN_FRAME_STATE_SENT
  | BEGIN_MAIN_FRAME_STATE_STARTED
  | BEGIN_MAIN_FRAME_STATE_READY_TO_COMMIT
  | BEGIN_MAIN_FRAME_STATE_WAITING_FOR_ACTIVATION
  | BEGIN_MAIN_FRAME_STATE_WAITING_FOR_DRAW

datatype forced_redraw_state_t =
    FORCED_REDRAW_STATE_IDLE
  | FORCED_REDRAW_STATE_WAITING_FOR_COMMIT
  | FORCED_REDRAW_STATE_WAITING_FOR_ACTIVATION
  | FORCED_REDRAW_STATE_WAITING_FOR_DRAW

datatype action_t =
    ACTION_NONE
  | ACTION_ANIMATE
  | ACTION_SEND_BEGIN_MAIN_FRAME
  | ACTION_COMMIT
  | ACTION_ACTIVATE_SYNC_TREE
  | ACTION_DRAW_AND_SWAP_IF_POSSIBLE
  | ACTION_DRAW_AND_SWAP_FORCED
  | ACTION_DRAW_AND_SWAP_ABORT
  | ACTION_BEGIN_OUTPUT_SURFACE_CREATION
  | ACTION_PREPARE_TILES
  | ACTION_INVALIDATE_OUTPUT_SURFACE

text \<open>\<^verbatim>\<open>cc/scheduler/draw_result.h\<close> and \<^verbatim>\<open>cc/scheduler/commit_earlyout_reason.h\<close>.\<close>

datatype draw_result_t =
    INVALID_RESULT
  | DRAW_SUCCESS
  | DRAW_ABORTED_CHECKERBOARD_ANIMATIONS
  | DRAW_ABORTED_MISSING_HIGH_RES_CONTENT
  | DRAW_ABORTED_CONTEXT_LOST
  | DRAW_ABORTED_CANT_DRAW

datatype commit_early_out_reason_t =
    ABORTED_OUTPUT_SURFACE_LOST
  | ABORTED_NOT_VISIBLE
  | ABORTED_DEFERRED_COMMIT
  | FINISHED_NO_UPDATES

fun OutputSurfaceStateToString :: "output_surface_state_t \<Rightarrow> string" where
  "OutputSurfaceStateToString OUTPUT_SURFACE_NONE = ''OUTPUT_SURFACE_NONE''"
| "OutputSurfaceStateToString OUTPUT_SURFACE_ACTIVE = ''OUTPUT_SURFACE_ACTIVE''"
| "OutputSurfaceStateToString OUTPUT_SURFACE_CREATING = ''OUTPUT_SURFACE_CREATING''"
| "OutputSurfaceStateToString OUTPUT_SURFACE_WAITING_FOR_FIRST_COMMIT =
     ''OUTPUT_SURFACE_WAITING_FOR_FIRST_COMMIT''"
| "OutputSurfaceStateToString OUTPUT_SURFACE_WAITING_FOR_FIRST_ACTIVATION =
     ''OUTPUT_SURFACE_WAITING_FOR_FIRST_ACTIVATION''"

fun BeginImplFrameStateToString :: "begin_impl_frame_state_t \<Rightarrow> string" where
  "BeginImplFrameStateToString BEGIN_IMPL_FRAME_STATE_IDLE = ''BEGIN_IMPL_FRAME_STATE_IDLE''"
| "BeginImplFrameStateToString BEGIN_IMPL_FRAME_STATE_BEGIN_FRAME_STARTING =
     ''BEGIN_IMPL_FRAME_STATE_BEGIN_FRAME_STARTING''"
| "BeginImplFrameStateToString BEGIN_IMPL_FRAME_STATE_INSIDE_BEGIN_FRAME =
     ''BEGIN_IMPL_FRAME_STATE_INSIDE_BEGIN_FRAME''"
| "BeginImplFrameStateToString BEGIN_IMPL_FRAME_STATE_INSIDE_DEADLINE =
     ''BEGIN_IMPL_FRAME_STATE_INSIDE_DEADLINE''"

fun BeginImplFrameDeadlineModeToString :: "deadline_mode_t \<Rightarrow> string" where
  "BeginImplFrameDeadlineModeToString BEGIN_IMPL_FRAME_DEADLINE_MODE_NONE =
     ''BEGIN_IMPL_FRAME_DEADLINE_MODE_NONE''"
| "BeginImplFrameDeadlineModeToString BEGIN_IMPL_FRAME_DEADLINE_MODE_IMMEDIATE =
     ''BEGIN_IMPL_FRAME_DEADLINE_MODE_IMMEDIATE''"
| "BeginImplFrameDeadlineModeToString BEGIN_IMPL_FRAME_DEADLINE_MODE_REGULAR =
     ''BEGIN_IMPL_FRAME_DEADLINE_MODE_REGULAR''"
| "BeginImplFrameDeadlineModeToString BEGIN_IMPL_FRAME_DEADLINE_MODE_LATE =
     ''BEGIN_IMPL_FRAME_DEADLINE_MODE_LATE''"
| "BeginImplFrameDeadlineModeToString BEGIN_IMPL_FRAME_DEADLINE_MODE_BLOCKED_ON_READY_TO_DRAW =
     ''BEGIN_IMPL_FRAME_DEADLINE_MODE_BLOCKED_ON_READY_TO_DRAW''"

fun BeginMainFrameStateToString :: "begin_main_frame_state_t \<Rightarrow> string" where
  "BeginMainFrameStateToString BEGIN_MAIN_FRAME_STATE_IDLE = ''BEGIN_MAIN_FRAME_STATE_IDLE''"
| "BeginMainFrameStateToString BEGIN_MAIN_FRAME_STATE_SENT = ''BEGIN_MAIN_FRAME_STATE_SENT''"
| "BeginMainFrameStateToString BEGIN_MAIN_FRAME_STATE_STARTED =
     ''BEGIN_MAIN_FRAME_STATE_STARTED''"
| "BeginMainFrameStateToString BEGIN_MAIN_FRAME_STATE_READY_TO_COMMIT =
     ''BEGIN_MAIN_FRAME_STATE_READY_TO_COMMIT''"
| "BeginMainFrameStateToString BEGIN_MAIN_FRAME_STATE_WAITING_FOR_ACTIVATION =
     ''BEGIN_MAIN_FRAME_STATE_WAITING_FOR_ACTIVATION''"
| "BeginMainFrameStateToString BEGIN_MAIN_FRAME_STATE_WAITING_FOR_DRAW =
     ''BEGIN_MAIN_FRAME_STATE_WAITING_FOR_DRAW''"

fun ForcedRedrawOnTimeoutStateToString :: "forced_redraw_state_t \<Rightarrow> string" where
  "ForcedRedrawOnTimeoutStateToString FORCED_REDRAW_STATE_IDLE = ''FORCED_REDRAW_STATE_IDLE''"
| "ForcedRedrawOnTimeoutStateToString FORCED_REDRAW_STATE_WAITING_FOR_COMMIT =
     ''FORCED_REDRAW_STATE_WAITING_FOR_COMMIT''"
| "ForcedRedrawOnTimeoutStateToString FORCED_REDRAW_STATE_WAITING_FOR_ACTIVATION =
     ''FORCED_REDRAW_STATE_WAITING_FOR_ACTIVATION''"
| "ForcedRedrawOnTimeoutStateToString FORCED_REDRAW_STATE_WAITING_FOR_DRAW =
     ''FORCED_REDRAW_STATE_WAITING_FOR_DRAW''"

fun ActionToString :: "action_t \<Rightarrow> string" where
  "ActionToString ACTION_NONE = ''ACTION_NONE''"
| "ActionToString ACTION_ANIMATE = ''ACTION_ANIMATE''"
| "ActionToString ACTION_SEND_BEGIN_MAIN_FRAME = ''ACTION_SEND_BEGIN_MAIN_FRAME''"
| "ActionToString ACTION_COMMIT = ''ACTION_COMMIT''"
| "ActionToString ACTION_ACTIVATE_SYNC_TREE = ''ACTION_ACTIVATE_SYNC_TREE''"
| "ActionToString ACTION_DRAW_AND_SWAP_IF_POSSIBLE = ''ACTION_DRAW_AND_SWAP_IF_POSSIBLE''"
| "ActionToString ACTION_DRAW_AND_SWAP_FORCED = ''ACTION_DRAW_AND_SWAP_FORCED''"
| "ActionToString ACTION_DRAW_AND_SWAP_ABORT = ''ACTION_DRAW_AND_SWAP_ABORT''"
| "ActionToString ACTION_BEGIN_OUTPUT_SURFACE_CREATION =
     ''ACTION_BEGIN_OUTPUT_SURFACE_CREATION''"
| "ActionToString ACTION_PREPARE_TILES = ''ACTION_PREPARE_TILES''"
| "ActionToString ACTION_INVALIDATE_OUTPUT_SURFACE = ''ACTION_INVALIDATE_OUTPUT_SURFACE''"

section \<open>State\<close>

record ssm =
  settings :: scheduler_settings
  output_surface_state :: output_surface_state_t
  begin_impl_frame_state :: begin_impl_frame_state_t
  begin_main_frame_state :: begin_main_frame_state_t
  forced_redraw_state :: forced_redraw_state_t
  commit_count :: int
  current_frame_number :: int
  last_frame_number_animate_performed :: int
  last_frame_number_swap_performed :: int
  last_frame_number_swap_requested :: int
  last_frame_number_begin_main_frame_sent :: int
  last_frame_number_invalidate_output_surface_performed :: int
  animate_funnel :: bool
  request_swap_funnel :: bool
  send_begin_main_frame_funnel :: bool
  invalidate_output_surface_funnel :: bool
  prepare_tiles_funnel :: int
  consecutive_checkerboard_animations :: int
  max_pending_swaps :: int
  pending_swaps :: int
  swaps_with_current_output_surface :: int
  needs_redraw :: bool
  needs_animate :: bool
  needs_prepare_tiles :: bool
  needs_begin_main_frame :: bool
  needs_one_begin_impl_frame :: bool
  visible :: bool
  resourceless_draw :: bool
  can_draw :: bool
  has_pending_tree :: bool
  pending_tree_is_ready_for_activation :: bool
  active_tree_needs_first_draw :: bool
  did_create_and_initialize_first_output_surface :: bool
  impl_latency_takes_priority :: bool
  main_thread_missed_last_deadline :: bool
  skip_next_begin_main_frame_to_reduce_latency :: bool
  children_need_begin_frames :: bool
  defer_commits :: bool
  video_needs_begin_frames :: bool
  last_commit_had_no_updates :: bool
  wait_for_ready_to_draw :: bool
  did_request_swap_in_last_frame :: bool
  did_perform_swap_in_last_draw :: bool

definition SchedulerStateMachine :: "scheduler_settings \<Rightarrow> ssm" where
  "SchedulerStateMachine se =
     \<lparr>settings = se,
      output_surface_state = OUTPUT_SURFACE_NONE,
      begin_impl_frame_state = BEGIN_IMPL_FRAME_STATE_IDLE,
      begin_main_frame_state = BEGIN_MAIN_FRAME_STATE_IDLE,
      forced_redraw_state = FORCED_REDRAW_STATE_IDLE,
      commit_count = 0,
      current_frame_number = 0,
      last_frame_number_animate_performed = -1,
      last_frame_number_swap_performed = -1,
      last_frame_number_swap_requested = -1,
      last_frame_number_begin_main_frame_sent = -1,
      last_frame_number_invalidate_output_surface_performed = -1,
      animate_funnel = False,
      request_swap_funnel = False,
      send_begin_main_frame_funnel = True,
      invalidate_output_surface_funnel = False,
      prepare_tiles_funnel = 0,
      consecutive_checkerboard_animations = 0,
      max_pending_swaps = 1,
      pending_swaps = 0,
      swaps_with_current_output_surface = 0,
      needs_redraw = False,
      needs_animate = False,
      needs_prepare_tiles = False,
      needs_begin_main_frame = False,
      needs_one_begin_impl_frame = False,
      visible = False,
      resourceless_draw = False,
      can_draw = False,
      has_pending_tree = False,
      pending_tree_is_ready_for_activation = False,
      active_tree_needs_first_draw = False,
      did_create_and_initialize_first_output_surface = False,
      impl_latency_takes_priority = False,
      main_thread_missed_last_deadline = False,
      skip_next_begin_main_frame_to_reduce_latency = False,
      children_need_begin_frames = False,
      defer_commits = False,
      video_needs_begin_frames = False,
      last_commit_had_no_updates = False,
      wait_for_ready_to_draw = False,
      did_request_swap_in_last_frame = False,
      did_perform_swap_in_last_draw = False\<rparr>"

section \<open>Decisions\<close>

definition CommitPending :: "ssm \<Rightarrow> bool" where
  [ssm_preds]: "CommitPending s \<longleftrightarrow>
     begin_main_frame_state s = BEGIN_MAIN_FRAME_STATE_SENT \<or>
     begin_main_frame_state s = BEGIN_MAIN_FRAME_STATE_STARTED \<or>
     begin_main_frame_state s = BEGIN_MAIN_FRAME_STATE_READY_TO_COMMIT"

definition SwapThrottled :: "ssm \<Rightarrow> bool" where
  [ssm_preds]: "SwapThrottled s \<longleftrightarrow> max_pending_swaps s \<le> pending_swaps s"

fun initialized_surface :: "output_surface_state_t \<Rightarrow> bool" where
  "initialized_surface OUTPUT_SURFACE_NONE = False"
| "initialized_surface OUTPUT_SURFACE_CREATING = False"
| "initialized_surface OUTPUT_SURFACE_ACTIVE = True"
| "initialized_surface OUTPUT_SURFACE_WAITING_FOR_FIRST_COMMIT = True"
| "initialized_surface OUTPUT_SURFACE_WAITING_FOR_FIRST_ACTIVATION = True"

definition HasInitializedOutputSurface :: "ssm \<Rightarrow> bool" where
  [ssm_preds]: "HasInitializedOutputSurface s \<longleftrightarrow> initialized_surface (output_surface_state s)"

definition PendingDrawsShouldBeAborted :: "ssm \<Rightarrow> bool" where
  [ssm_preds]: "PendingDrawsShouldBeAborted s =
     (let is_output_surface_lost = (output_surface_state s = OUTPUT_SURFACE_NONE)
      in if resourceless_draw s then is_output_surface_lost \<or> \<not> can_draw s
         else is_output_surface_lost \<or> \<not> can_draw s \<or> \<not> visible s)"

definition PendingActivationsShouldBeForced :: "ssm \<Rightarrow> bool" where
  [ssm_preds]: "PendingActivationsShouldBeForced s =
     (if output_surface_state s = OUTPUT_SURFACE_NONE then True
      else if \<not> visible s then True
      else False)"

definition ShouldBeginOutputSurfaceCreation :: "ssm \<Rightarrow> bool" where
  [ssm_preds]: "ShouldBeginOutputSurfaceCreation s =
     (if \<not> visible s then False
      else if begin_main_frame_state s \<noteq> BEGIN_MAIN_FRAME_STATE_IDLE then False
      else if begin_impl_frame_state s \<noteq> BEGIN_IMPL_FRAME_STATE_IDLE then False
      else if active_tree_needs_first_draw s \<or> has_pending_tree s then False
      else output_surface_state s = OUTPUT_SURFACE_NONE)"

definition ShouldDraw :: "ssm \<Rightarrow> bool" where
  [ssm_preds]: "ShouldDraw s =
     (if PendingDrawsShouldBeAborted s then active_tree_needs_first_draw s
      else if request_swap_funnel s then False
      else if output_surface_state s \<noteq> OUTPUT_SURFACE_ACTIVE then False
      else if SwapThrottled s then False
      else if begin_impl_frame_state s \<noteq> BEGIN_IMPL_FRAME_STATE_INSIDE_DEADLINE then False
      else if forced_redraw_state s = FORCED_REDRAW_STATE_WAITING_FOR_DRAW then True
      else needs_redraw s)"

definition ShouldActivatePendingTree :: "ssm \<Rightarrow> bool" where
  [ssm_preds]: "ShouldActivatePendingTree s =
     (if \<not> has_pending_tree s then False
      else if active_tree_needs_first_draw s then False
      else if PendingActivationsShouldBeForced s then True
      else pending_tree_is_ready_for_activation s)"

definition ShouldAnimate :: "ssm \<Rightarrow> bool" where
  [ssm_preds]: "ShouldAnimate s =
     (if animate_funnel s then False
      else if output_surface_state s \<noteq> OUTPUT_SURFACE_ACTIVE then False
      else if begin_impl_frame_state s \<noteq> BEGIN_IMPL_FRAME_STATE_BEGIN_FRAME_STARTING \<and>
              begin_impl_frame_state s \<noteq> BEGIN_IMPL_FRAME_STATE_INSIDE_DEADLINE then False
      else needs_redraw s \<or> needs_animate s)"

definition CouldSendBeginMainFrame :: "ssm \<Rightarrow> bool" where
  [ssm_preds]: "CouldSendBeginMainFrame s =
     (if \<not> needs_begin_main_frame s then False
      else if \<not> visible s then False
      else if defer_commits s then False
      else True)"

definition SendingBeginMainFrameMightCauseDeadlock :: "ssm \<Rightarrow> bool" where
  [ssm_preds]: "SendingBeginMainFrameMightCauseDeadlock s \<longleftrightarrow>
     has_pending_tree s \<and> active_tree_needs_first_draw s \<and> SwapThrottled s"

definition ShouldSendBeginMainFrame :: "ssm \<Rightarrow> bool" where
  [ssm_preds]: "ShouldSendBeginMainFrame s =
     (if \<not> CouldSendBeginMainFrame s then False
      else if send_begin_main_frame_funnel s then False
      else if begin_main_frame_state s \<noteq> BEGIN_MAIN_FRAME_STATE_IDLE then False
      else if impl_latency_takes_priority s \<and>
              (has_pending_tree s \<or> active_tree_needs_first_draw s) then False
      else if \<not> using_synchronous_renderer_compositor (settings s) \<and>
              begin_impl_frame_state s = BEGIN_IMPL_FRAME_STATE_IDLE then False
      else if forced_redraw_state s = FORCED_REDRAW_STATE_WAITING_FOR_COMMIT then True
      else if \<not> HasInitializedOutputSurface s then False
      else if SendingBeginMainFrameMightCauseDeadlock s then False
      else
        (let just_swapped_in_deadline =
               begin_impl_frame_state s = BEGIN_IMPL_FRAME_STATE_INSIDE_DEADLINE \<and>
               did_perform_swap_in_last_draw s
         in if \<not> main_frame_while_swap_throttled_enabled (settings s) \<and>
               SwapThrottled s \<and> \<not> just_swapped_in_deadline then False
            else if skip_next_begin_main_frame_to_reduce_latency s then False
            else True))"

definition ShouldCommit :: "ssm \<Rightarrow> bool" where
  [ssm_preds]: "ShouldCommit s =
     (if begin_main_frame_state s \<noteq> BEGIN_MAIN_FRAME_STATE_READY_TO_COMMIT then False
      else if has_pending_tree s then False
      else True)"

text \<open>The two assertions inside \<open>ShouldCommit\<close>, one per branch they stand on.\<close>

definition ShouldCommit_dcheck :: "ssm \<Rightarrow> bool" where
  [ssm_dchecks]: "ShouldCommit_dcheck s =
     (if begin_main_frame_state s \<noteq> BEGIN_MAIN_FRAME_STATE_READY_TO_COMMIT then True
      else if has_pending_tree s then main_frame_before_activation_enabled (settings s)
      else \<not> commit_to_active_tree (settings s) \<or> \<not> active_tree_needs_first_draw s)"

definition ShouldPrepareTiles :: "ssm \<Rightarrow> bool" where
  [ssm_preds]: "ShouldPrepareTiles s =
     (if prepare_tiles_funnel s > 0 then False
      else if begin_impl_frame_state s \<noteq> BEGIN_IMPL_FRAME_STATE_INSIDE_DEADLINE then False
      else needs_prepare_tiles s)"

definition ShouldInvalidateOutputSurface :: "ssm \<Rightarrow> bool" where
  [ssm_preds]: "ShouldInvalidateOutputSurface s =
     (if invalidate_output_surface_funnel s then False
      else if \<not> using_synchronous_renderer_compositor (settings s) then False
      else if begin_impl_frame_state s \<noteq> BEGIN_IMPL_FRAME_STATE_BEGIN_FRAME_STARTING then False
      else needs_redraw s \<or> needs_prepare_tiles s)"

definition NextAction :: "ssm \<Rightarrow> action_t" where
  "NextAction s =
     (if ShouldActivatePendingTree s then ACTION_ACTIVATE_SYNC_TREE
      else if ShouldCommit s then ACTION_COMMIT
      else if ShouldAnimate s then ACTION_ANIMATE
      else if ShouldDraw s then
        (if PendingDrawsShouldBeAborted s then ACTION_DRAW_AND_SWAP_ABORT
         else if forced_redraw_state s = FORCED_REDRAW_STATE_WAITING_FOR_DRAW
         then ACTION_DRAW_AND_SWAP_FORCED
         else ACTION_DRAW_AND_SWAP_IF_POSSIBLE)
      else if ShouldPrepareTiles s then ACTION_PREPARE_TILES
      else if ShouldSendBeginMainFrame s then ACTION_SEND_BEGIN_MAIN_FRAME
      else if ShouldInvalidateOutputSurface s then ACTION_INVALIDATE_OUTPUT_SURFACE
      else if ShouldBeginOutputSurfaceCreation s then ACTION_BEGIN_OUTPUT_SURFACE_CREATION
      else ACTION_NONE)"

section \<open>Notifications that an action is about to run\<close>

definition WillAnimate :: "ssm \<Rightarrow> ssm" where
  [ssm_ops]: "WillAnimate s =
     s\<lparr>last_frame_number_animate_performed := current_frame_number s,
       animate_funnel := True,
       needs_animate := False\<rparr>"

definition WillAnimate_dcheck :: "ssm \<Rightarrow> bool" where
  [ssm_dchecks]: "WillAnimate_dcheck s \<longleftrightarrow> \<not> animate_funnel s"

definition WillSendBeginMainFrame :: "ssm \<Rightarrow> ssm" where
  [ssm_ops]: "WillSendBeginMainFrame s =
     s\<lparr>begin_main_frame_state := BEGIN_MAIN_FRAME_STATE_SENT,
       needs_begin_main_frame := False,
       send_begin_main_frame_funnel := True,
       last_frame_number_begin_main_frame_sent := current_frame_number s\<rparr>"

definition WillSendBeginMainFrame_dcheck :: "ssm \<Rightarrow> bool" where
  [ssm_dchecks]: "WillSendBeginMainFrame_dcheck s \<longleftrightarrow>
     (\<not> has_pending_tree s \<or> main_frame_before_activation_enabled (settings s)) \<and>
     visible s \<and>
     \<not> send_begin_main_frame_funnel s"

text \<open>
  \<open>WillCommit\<close> in the order of its statements: the counter, the animate funnel, the main
  frame state, the pending tree, the ready-to-draw flag, the forced redraw, the output
  surface, the forced draw of a commit without updates, the common tail.
\<close>

definition WillCommit :: "bool \<Rightarrow> ssm \<Rightarrow> ssm" where
  [ssm_ops]: "WillCommit commit_has_no_updates s =
     (let s = s\<lparr>commit_count := commit_count s + 1\<rparr>;
          s = (if \<not> commit_has_no_updates then s\<lparr>animate_funnel := False\<rparr> else s);
          s = (if commit_has_no_updates \<or> main_frame_before_activation_enabled (settings s)
               then s\<lparr>begin_main_frame_state := BEGIN_MAIN_FRAME_STATE_IDLE\<rparr>
               else s\<lparr>begin_main_frame_state := BEGIN_MAIN_FRAME_STATE_WAITING_FOR_ACTIVATION\<rparr>);
          s = s\<lparr>has_pending_tree := \<not> commit_has_no_updates\<rparr>;
          s = s\<lparr>wait_for_ready_to_draw :=
                  \<not> commit_has_no_updates \<and> commit_to_active_tree (settings s)\<rparr>;
          s = (if forced_redraw_state s = FORCED_REDRAW_STATE_WAITING_FOR_COMMIT
               then s\<lparr>forced_redraw_state :=
                        (if has_pending_tree s then FORCED_REDRAW_STATE_WAITING_FOR_ACTIVATION
                         else FORCED_REDRAW_STATE_WAITING_FOR_DRAW)\<rparr>
               else s);
          s = (if output_surface_state s = OUTPUT_SURFACE_WAITING_FOR_FIRST_COMMIT
               then (if has_pending_tree s
                     then s\<lparr>output_surface_state :=
                               OUTPUT_SURFACE_WAITING_FOR_FIRST_ACTIVATION\<rparr>
                     else s\<lparr>output_surface_state := OUTPUT_SURFACE_ACTIVE\<rparr>)
               else s);
          s = (if commit_has_no_updates \<and>
                  forced_redraw_state s = FORCED_REDRAW_STATE_WAITING_FOR_DRAW
               then s\<lparr>needs_redraw := True, active_tree_needs_first_draw := True\<rparr>
               else s)
      in s\<lparr>pending_tree_is_ready_for_activation := False,
           last_commit_had_no_updates := commit_has_no_updates\<rparr>)"

text \<open>
  \<open>output_surface_state\<close> is not written before the first assertion, and
  \<open>has_pending_tree\<close> is \<open>\<not> commit_has_no_updates\<close> at the second, which therefore holds.
\<close>

definition WillCommit_dcheck :: "ssm \<Rightarrow> bool" where
  [ssm_dchecks]: "WillCommit_dcheck s \<longleftrightarrow>
     output_surface_state s \<noteq> OUTPUT_SURFACE_WAITING_FOR_FIRST_ACTIVATION"

definition WillActivate :: "ssm \<Rightarrow> ssm" where
  [ssm_ops]: "WillActivate s =
     (let s = (if begin_main_frame_state s = BEGIN_MAIN_FRAME_STATE_WAITING_FOR_ACTIVATION
               then s\<lparr>begin_main_frame_state :=
                        (if commit_to_active_tree (settings s)
                         then BEGIN_MAIN_FRAME_STATE_WAITING_FOR_DRAW
                         else BEGIN_MAIN_FRAME_STATE_IDLE)\<rparr>
               else s);
          s = (if output_surface_state s = OUTPUT_SURFACE_WAITING_FOR_FIRST_ACTIVATION
               then s\<lparr>output_surface_state := OUTPUT_SURFACE_ACTIVE\<rparr> else s);
          s = (if forced_redraw_state s = FORCED_REDRAW_STATE_WAITING_FOR_ACTIVATION
               then s\<lparr>forced_redraw_state := FORCED_REDRAW_STATE_WAITING_FOR_DRAW\<rparr> else s)
      in s\<lparr>has_pending_tree := False,
           pending_tree_is_ready_for_activation := False,
           active_tree_needs_first_draw := True,
           needs_redraw := True\<rparr>)"

definition WillDraw :: "bool \<Rightarrow> ssm \<Rightarrow> ssm" where
  [ssm_ops]: "WillDraw did_request_swap s =
     (let s = (if forced_redraw_state s = FORCED_REDRAW_STATE_WAITING_FOR_DRAW
               then s\<lparr>forced_redraw_state := FORCED_REDRAW_STATE_IDLE\<rparr> else s);
          s = (if begin_main_frame_state s = BEGIN_MAIN_FRAME_STATE_WAITING_FOR_DRAW
               then s\<lparr>begin_main_frame_state := BEGIN_MAIN_FRAME_STATE_IDLE\<rparr> else s);
          s = s\<lparr>needs_redraw := False, active_tree_needs_first_draw := False\<rparr>
      in if did_request_swap
         then s\<lparr>request_swap_funnel := True,
                did_request_swap_in_last_frame := True,
                last_frame_number_swap_requested := current_frame_number s\<rparr>
         else s)"

definition WillDraw_dcheck :: "bool \<Rightarrow> ssm \<Rightarrow> bool" where
  [ssm_dchecks]: "WillDraw_dcheck did_request_swap s \<longleftrightarrow>
     (did_request_swap \<longrightarrow> \<not> request_swap_funnel s)"

definition WillPrepareTiles :: "ssm \<Rightarrow> ssm" where
  [ssm_ops]: "WillPrepareTiles s = s\<lparr>needs_prepare_tiles := False\<rparr>"

definition WillBeginOutputSurfaceCreation :: "ssm \<Rightarrow> ssm" where
  [ssm_ops]: "WillBeginOutputSurfaceCreation s =
     s\<lparr>output_surface_state := OUTPUT_SURFACE_CREATING\<rparr>"

definition WillBeginOutputSurfaceCreation_dcheck :: "ssm \<Rightarrow> bool" where
  [ssm_dchecks]: "WillBeginOutputSurfaceCreation_dcheck s \<longleftrightarrow>
     output_surface_state s = OUTPUT_SURFACE_NONE \<and>
     begin_main_frame_state s = BEGIN_MAIN_FRAME_STATE_IDLE \<and>
     \<not> has_pending_tree s \<and>
     \<not> active_tree_needs_first_draw s"

definition WillInvalidateOutputSurface :: "ssm \<Rightarrow> ssm" where
  [ssm_ops]: "WillInvalidateOutputSurface s =
     s\<lparr>invalidate_output_surface_funnel := True,
       last_frame_number_invalidate_output_surface_performed := current_frame_number s,
       active_tree_needs_first_draw := False\<rparr>"

definition WillInvalidateOutputSurface_dcheck :: "ssm \<Rightarrow> bool" where
  [ssm_dchecks]: "WillInvalidateOutputSurface_dcheck s \<longleftrightarrow> \<not> invalidate_output_surface_funnel s"

definition SetSkipNextBeginMainFrameToReduceLatency :: "ssm \<Rightarrow> ssm" where
  [ssm_ops]: "SetSkipNextBeginMainFrameToReduceLatency s =
     s\<lparr>skip_next_begin_main_frame_to_reduce_latency := True\<rparr>"

section \<open>When a BeginFrame is needed\<close>

definition BeginFrameRequiredForChildren :: "ssm \<Rightarrow> bool" where
  [ssm_preds]: "BeginFrameRequiredForChildren s = children_need_begin_frames s"

definition BeginFrameNeededForVideo :: "ssm \<Rightarrow> bool" where
  [ssm_preds]: "BeginFrameNeededForVideo s = video_needs_begin_frames s"

definition BeginFrameRequiredForAction :: "ssm \<Rightarrow> bool" where
  [ssm_preds]: "BeginFrameRequiredForAction s =
     (if forced_redraw_state s = FORCED_REDRAW_STATE_WAITING_FOR_DRAW then True
      else needs_animate s \<or> needs_redraw s \<or> needs_one_begin_impl_frame s \<or>
           (needs_begin_main_frame s \<and> \<not> defer_commits s))"

definition ProactiveBeginFrameWanted :: "ssm \<Rightarrow> bool" where
  [ssm_preds]: "ProactiveBeginFrameWanted s =
     (if \<not> visible s then False
      else if begin_main_frame_state s \<noteq> BEGIN_MAIN_FRAME_STATE_IDLE \<and> \<not> defer_commits s
      then True
      else if has_pending_tree s then True
      else if needs_prepare_tiles s then True
      else if did_request_swap_in_last_frame s then True
      else if last_commit_had_no_updates s then True
      else False)"

definition BeginFrameNeeded :: "ssm \<Rightarrow> bool" where
  [ssm_preds]: "BeginFrameNeeded s =
     (if \<not> HasInitializedOutputSurface s then False
      else if \<not> visible s then False
      else BeginFrameRequiredForAction s \<or> BeginFrameRequiredForChildren s \<or>
           BeginFrameNeededForVideo s \<or> ProactiveBeginFrameWanted s)"

definition SetChildrenNeedBeginFrames :: "bool \<Rightarrow> ssm \<Rightarrow> ssm" where
  [ssm_ops]: "SetChildrenNeedBeginFrames b s = s\<lparr>children_need_begin_frames := b\<rparr>"

definition SetVideoNeedsBeginFrames :: "bool \<Rightarrow> ssm \<Rightarrow> ssm" where
  [ssm_ops]: "SetVideoNeedsBeginFrames b s = s\<lparr>video_needs_begin_frames := b\<rparr>"

definition SetDeferCommits :: "bool \<Rightarrow> ssm \<Rightarrow> ssm" where
  [ssm_ops]: "SetDeferCommits b s = s\<lparr>defer_commits := b\<rparr>"

section \<open>The phases of an impl frame\<close>

definition OnBeginImplFrame :: "ssm \<Rightarrow> ssm" where
  [ssm_ops]: "OnBeginImplFrame s =
     (let s = s\<lparr>begin_impl_frame_state := BEGIN_IMPL_FRAME_STATE_BEGIN_FRAME_STARTING,
                current_frame_number := current_frame_number s + 1,
                last_commit_had_no_updates := False,
                did_request_swap_in_last_frame := False,
                needs_one_begin_impl_frame := False,
                animate_funnel := False,
                send_begin_main_frame_funnel := False,
                invalidate_output_surface_funnel := False\<rparr>
      in if prepare_tiles_funnel s > 0
         then s\<lparr>prepare_tiles_funnel := prepare_tiles_funnel s - 1\<rparr> else s)"

definition OnBeginImplFrameDeadlinePending :: "ssm \<Rightarrow> ssm" where
  [ssm_ops]: "OnBeginImplFrameDeadlinePending s =
     s\<lparr>begin_impl_frame_state := BEGIN_IMPL_FRAME_STATE_INSIDE_BEGIN_FRAME\<rparr>"

definition OnBeginImplFrameDeadline :: "ssm \<Rightarrow> ssm" where
  [ssm_ops]: "OnBeginImplFrameDeadline s =
     (let s = s\<lparr>begin_impl_frame_state := BEGIN_IMPL_FRAME_STATE_INSIDE_DEADLINE,
                did_perform_swap_in_last_draw := False,
                request_swap_funnel := False\<rparr>
      in if using_synchronous_renderer_compositor (settings s)
         then (if prepare_tiles_funnel s > 0
               then s\<lparr>prepare_tiles_funnel := prepare_tiles_funnel s - 1\<rparr> else s)
         else s)"

definition OnBeginImplFrameIdle :: "ssm \<Rightarrow> ssm" where
  [ssm_ops]: "OnBeginImplFrameIdle s =
     (let s = s\<lparr>begin_impl_frame_state := BEGIN_IMPL_FRAME_STATE_IDLE,
                skip_next_begin_main_frame_to_reduce_latency := False\<rparr>;
          s = s\<lparr>main_thread_missed_last_deadline :=
                  CommitPending s \<or> has_pending_tree s \<or> active_tree_needs_first_draw s\<rparr>
      in if \<not> BeginFrameNeeded s then s\<lparr>send_begin_main_frame_funnel := True\<rparr> else s)"

definition ShouldTriggerBeginImplFrameDeadlineImmediately :: "ssm \<Rightarrow> bool" where
  [ssm_preds]: "ShouldTriggerBeginImplFrameDeadlineImmediately s =
     (if PendingActivationsShouldBeForced s \<and> \<not> has_pending_tree s then True
      else if wait_for_ready_to_draw s then False
      else if SwapThrottled s then False
      else if active_tree_needs_first_draw s then True
      else if \<not> needs_redraw s then False
      else if begin_main_frame_state s = BEGIN_MAIN_FRAME_STATE_IDLE \<and> \<not> has_pending_tree s
      then True
      else if impl_latency_takes_priority s then True
      else False)"

definition CurrentBeginImplFrameDeadlineMode :: "ssm \<Rightarrow> deadline_mode_t" where
  [ssm_preds]: "CurrentBeginImplFrameDeadlineMode s =
     (if using_synchronous_renderer_compositor (settings s)
      then BEGIN_IMPL_FRAME_DEADLINE_MODE_NONE
      else if ShouldTriggerBeginImplFrameDeadlineImmediately s
      then BEGIN_IMPL_FRAME_DEADLINE_MODE_IMMEDIATE
      else if wait_for_ready_to_draw s
      then BEGIN_IMPL_FRAME_DEADLINE_MODE_BLOCKED_ON_READY_TO_DRAW
      else if needs_redraw s then BEGIN_IMPL_FRAME_DEADLINE_MODE_REGULAR
      else BEGIN_IMPL_FRAME_DEADLINE_MODE_LATE)"

section \<open>Requests and notifications from outside\<close>

definition SetVisible :: "bool \<Rightarrow> ssm \<Rightarrow> ssm" where
  [ssm_ops]: "SetVisible v s =
     (if visible s = v then s
      else (let s = s\<lparr>visible := v\<rparr>;
                s = (if v then s\<lparr>main_thread_missed_last_deadline := False\<rparr> else s)
            in s\<lparr>prepare_tiles_funnel := 0, wait_for_ready_to_draw := False\<rparr>))"

definition SetResourcelessSoftareDraw :: "bool \<Rightarrow> ssm \<Rightarrow> ssm" where
  [ssm_ops]: "SetResourcelessSoftareDraw b s = s\<lparr>resourceless_draw := b\<rparr>"

definition SetCanDraw :: "bool \<Rightarrow> ssm \<Rightarrow> ssm" where
  [ssm_ops]: "SetCanDraw b s = s\<lparr>can_draw := b\<rparr>"

definition SetNeedsRedraw :: "ssm \<Rightarrow> ssm" where
  [ssm_ops]: "SetNeedsRedraw s = s\<lparr>needs_redraw := True\<rparr>"

definition SetNeedsAnimate :: "ssm \<Rightarrow> ssm" where
  [ssm_ops]: "SetNeedsAnimate s = s\<lparr>needs_animate := True\<rparr>"

definition OnlyImplSideUpdatesExpected :: "ssm \<Rightarrow> bool" where
  [ssm_preds]: "OnlyImplSideUpdatesExpected s =
     (let has_impl_updates = needs_redraw s \<or> needs_animate s \<or> needs_one_begin_impl_frame s;
          main_updates_expected =
            needs_begin_main_frame s \<or>
            begin_main_frame_state s \<noteq> BEGIN_MAIN_FRAME_STATE_IDLE \<or>
            has_pending_tree s
      in has_impl_updates \<and> \<not> main_updates_expected)"

definition SetNeedsPrepareTiles :: "ssm \<Rightarrow> ssm" where
  [ssm_ops]: "SetNeedsPrepareTiles s =
     (if \<not> needs_prepare_tiles s then s\<lparr>needs_prepare_tiles := True\<rparr> else s)"

definition SetMaxSwapsPending :: "int \<Rightarrow> ssm \<Rightarrow> ssm" where
  [ssm_ops]: "SetMaxSwapsPending mx s = s\<lparr>max_pending_swaps := mx\<rparr>"

definition DidSwapBuffers :: "ssm \<Rightarrow> ssm" where
  [ssm_ops]: "DidSwapBuffers s =
     s\<lparr>pending_swaps := pending_swaps s + 1,
       swaps_with_current_output_surface := swaps_with_current_output_surface s + 1,
       did_perform_swap_in_last_draw := True,
       last_frame_number_swap_performed := current_frame_number s\<rparr>"

definition DidSwapBuffers_dcheck :: "ssm \<Rightarrow> bool" where
  [ssm_dchecks]: "DidSwapBuffers_dcheck s \<longleftrightarrow> pending_swaps s + 1 \<le> max_pending_swaps s"

definition DidSwapBuffersComplete :: "ssm \<Rightarrow> ssm" where
  [ssm_ops]: "DidSwapBuffersComplete s = s\<lparr>pending_swaps := pending_swaps s - 1\<rparr>"

definition SetImplLatencyTakesPriority :: "bool \<Rightarrow> ssm \<Rightarrow> ssm" where
  [ssm_ops]: "SetImplLatencyTakesPriority b s = s\<lparr>impl_latency_takes_priority := b\<rparr>"

fun DidDrawIfPossibleCompleted :: "draw_result_t \<Rightarrow> ssm \<Rightarrow> ssm" where
  "DidDrawIfPossibleCompleted INVALID_RESULT s = s"
| "DidDrawIfPossibleCompleted DRAW_ABORTED_CANT_DRAW s = s"
| "DidDrawIfPossibleCompleted DRAW_ABORTED_CONTEXT_LOST s = s"
| "DidDrawIfPossibleCompleted DRAW_SUCCESS s =
     s\<lparr>consecutive_checkerboard_animations := 0,
       forced_redraw_state := FORCED_REDRAW_STATE_IDLE\<rparr>"
| "DidDrawIfPossibleCompleted DRAW_ABORTED_CHECKERBOARD_ANIMATIONS s =
     (let s = s\<lparr>needs_redraw := True\<rparr>
      in if forced_redraw_state s \<noteq> FORCED_REDRAW_STATE_IDLE then s
         else
           (let s = s\<lparr>needs_begin_main_frame := True,
                      consecutive_checkerboard_animations :=
                        consecutive_checkerboard_animations s + 1\<rparr>
            in if timeout_and_draw_when_animation_checkerboards (settings s) \<and>
                  consecutive_checkerboard_animations s \<ge>
                    maximum_number_of_failed_draws_before_draw_is_forced (settings s)
               then s\<lparr>consecutive_checkerboard_animations := 0,
                      forced_redraw_state := FORCED_REDRAW_STATE_WAITING_FOR_COMMIT\<rparr>
               else s))"
| "DidDrawIfPossibleCompleted DRAW_ABORTED_MISSING_HIGH_RES_CONTENT s =
     s\<lparr>needs_begin_main_frame := True\<rparr>"

text \<open>The \<open>NOTREACHED()\<close> branches.\<close>

definition DidDrawIfPossibleCompleted_dcheck :: "draw_result_t \<Rightarrow> bool" where
  [ssm_dchecks]: "DidDrawIfPossibleCompleted_dcheck r \<longleftrightarrow>
     r \<noteq> INVALID_RESULT \<and> r \<noteq> DRAW_ABORTED_CANT_DRAW \<and> r \<noteq> DRAW_ABORTED_CONTEXT_LOST"

definition SetNeedsBeginMainFrame :: "ssm \<Rightarrow> ssm" where
  [ssm_ops]: "SetNeedsBeginMainFrame s = s\<lparr>needs_begin_main_frame := True\<rparr>"

definition SetNeedsOneBeginImplFrame :: "ssm \<Rightarrow> ssm" where
  [ssm_ops]: "SetNeedsOneBeginImplFrame s = s\<lparr>needs_one_begin_impl_frame := True\<rparr>"

definition NotifyReadyToCommit :: "ssm \<Rightarrow> ssm" where
  [ssm_ops]: "NotifyReadyToCommit s =
     s\<lparr>begin_main_frame_state := BEGIN_MAIN_FRAME_STATE_READY_TO_COMMIT\<rparr>"

definition NotifyReadyToCommit_dcheck :: "ssm \<Rightarrow> bool" where
  [ssm_dchecks]: "NotifyReadyToCommit_dcheck s \<longleftrightarrow>
     begin_main_frame_state s = BEGIN_MAIN_FRAME_STATE_STARTED \<and>
     (commit_to_active_tree (settings s) \<longrightarrow>
        ShouldCommit (NotifyReadyToCommit s) \<and> ShouldCommit_dcheck (NotifyReadyToCommit s))"

fun BeginMainFrameAborted :: "commit_early_out_reason_t \<Rightarrow> ssm \<Rightarrow> ssm" where
  "BeginMainFrameAborted ABORTED_OUTPUT_SURFACE_LOST s =
     SetNeedsBeginMainFrame (s\<lparr>begin_main_frame_state := BEGIN_MAIN_FRAME_STATE_IDLE\<rparr>)"
| "BeginMainFrameAborted ABORTED_NOT_VISIBLE s =
     SetNeedsBeginMainFrame (s\<lparr>begin_main_frame_state := BEGIN_MAIN_FRAME_STATE_IDLE\<rparr>)"
| "BeginMainFrameAborted ABORTED_DEFERRED_COMMIT s =
     SetNeedsBeginMainFrame (s\<lparr>begin_main_frame_state := BEGIN_MAIN_FRAME_STATE_IDLE\<rparr>)"
| "BeginMainFrameAborted FINISHED_NO_UPDATES s = WillCommit True s"

definition BeginMainFrameAborted_dcheck :: "commit_early_out_reason_t \<Rightarrow> ssm \<Rightarrow> bool" where
  [ssm_dchecks]: "BeginMainFrameAborted_dcheck r s \<longleftrightarrow>
     begin_main_frame_state s = BEGIN_MAIN_FRAME_STATE_STARTED \<and>
     (r = FINISHED_NO_UPDATES \<longrightarrow> WillCommit_dcheck s)"

definition DidPrepareTiles :: "ssm \<Rightarrow> ssm" where
  [ssm_ops]: "DidPrepareTiles s =
     s\<lparr>needs_prepare_tiles := False, prepare_tiles_funnel := prepare_tiles_funnel s + 1\<rparr>"

definition DidLoseOutputSurface :: "ssm \<Rightarrow> ssm" where
  [ssm_ops]: "DidLoseOutputSurface s =
     (if output_surface_state s = OUTPUT_SURFACE_NONE \<or>
         output_surface_state s = OUTPUT_SURFACE_CREATING then s
      else s\<lparr>output_surface_state := OUTPUT_SURFACE_NONE,
             needs_redraw := False,
             wait_for_ready_to_draw := False\<rparr>)"

definition NotifyReadyToActivate :: "ssm \<Rightarrow> ssm" where
  [ssm_ops]: "NotifyReadyToActivate s =
     (if has_pending_tree s then s\<lparr>pending_tree_is_ready_for_activation := True\<rparr> else s)"

definition NotifyReadyToDraw :: "ssm \<Rightarrow> ssm" where
  [ssm_ops]: "NotifyReadyToDraw s = s\<lparr>wait_for_ready_to_draw := False\<rparr>"

definition DidCreateAndInitializeOutputSurface :: "ssm \<Rightarrow> ssm" where
  [ssm_ops]: "DidCreateAndInitializeOutputSurface s =
     (let s = s\<lparr>output_surface_state := OUTPUT_SURFACE_WAITING_FOR_FIRST_COMMIT\<rparr>;
          s = (if did_create_and_initialize_first_output_surface s
               then s\<lparr>needs_begin_main_frame := True\<rparr> else s)
      in s\<lparr>did_create_and_initialize_first_output_surface := True,
           pending_swaps := 0,
           swaps_with_current_output_surface := 0,
           main_thread_missed_last_deadline := False\<rparr>)"

definition DidCreateAndInitializeOutputSurface_dcheck :: "ssm \<Rightarrow> bool" where
  [ssm_dchecks]: "DidCreateAndInitializeOutputSurface_dcheck s \<longleftrightarrow>
     output_surface_state s = OUTPUT_SURFACE_CREATING"

definition NotifyBeginMainFrameStarted :: "ssm \<Rightarrow> ssm" where
  [ssm_ops]: "NotifyBeginMainFrameStarted s =
     s\<lparr>begin_main_frame_state := BEGIN_MAIN_FRAME_STATE_STARTED\<rparr>"

definition NotifyBeginMainFrameStarted_dcheck :: "ssm \<Rightarrow> bool" where
  [ssm_dchecks]: "NotifyBeginMainFrameStarted_dcheck s \<longleftrightarrow>
     begin_main_frame_state s = BEGIN_MAIN_FRAME_STATE_SENT"

section \<open>Reading the fields an operation writes\<close>

text \<open>
  A field of a conditional state is a conditional value. With these rules the simplifier
  pushes every projection through the branches of an operation without splitting the state.
\<close>

lemmas ssm_if =
  if_distrib [of settings]
  if_distrib [of output_surface_state]
  if_distrib [of begin_impl_frame_state]
  if_distrib [of begin_main_frame_state]
  if_distrib [of forced_redraw_state]
  if_distrib [of commit_count]
  if_distrib [of current_frame_number]
  if_distrib [of last_frame_number_animate_performed]
  if_distrib [of last_frame_number_swap_performed]
  if_distrib [of last_frame_number_swap_requested]
  if_distrib [of last_frame_number_begin_main_frame_sent]
  if_distrib [of last_frame_number_invalidate_output_surface_performed]
  if_distrib [of animate_funnel]
  if_distrib [of request_swap_funnel]
  if_distrib [of send_begin_main_frame_funnel]
  if_distrib [of invalidate_output_surface_funnel]
  if_distrib [of prepare_tiles_funnel]
  if_distrib [of consecutive_checkerboard_animations]
  if_distrib [of max_pending_swaps]
  if_distrib [of pending_swaps]
  if_distrib [of swaps_with_current_output_surface]
  if_distrib [of needs_redraw]
  if_distrib [of needs_animate]
  if_distrib [of needs_prepare_tiles]
  if_distrib [of needs_begin_main_frame]
  if_distrib [of needs_one_begin_impl_frame]
  if_distrib [of visible]
  if_distrib [of resourceless_draw]
  if_distrib [of can_draw]
  if_distrib [of has_pending_tree]
  if_distrib [of pending_tree_is_ready_for_activation]
  if_distrib [of active_tree_needs_first_draw]
  if_distrib [of did_create_and_initialize_first_output_surface]
  if_distrib [of impl_latency_takes_priority]
  if_distrib [of main_thread_missed_last_deadline]
  if_distrib [of skip_next_begin_main_frame_to_reduce_latency]
  if_distrib [of children_need_begin_frames]
  if_distrib [of defer_commits]
  if_distrib [of video_needs_begin_frames]
  if_distrib [of last_commit_had_no_updates]
  if_distrib [of wait_for_ready_to_draw]
  if_distrib [of did_request_swap_in_last_frame]
  if_distrib [of did_perform_swap_in_last_draw]

lemma WillCommit_fields:
  "settings (WillCommit b s) = settings s"
  "has_pending_tree (WillCommit b s) = (\<not> b)"
  "begin_main_frame_state (WillCommit b s) =
     (if b \<or> main_frame_before_activation_enabled (settings s)
      then BEGIN_MAIN_FRAME_STATE_IDLE else BEGIN_MAIN_FRAME_STATE_WAITING_FOR_ACTIVATION)"
  "begin_impl_frame_state (WillCommit b s) = begin_impl_frame_state s"
  "pending_tree_is_ready_for_activation (WillCommit b s) = False"
  "output_surface_state (WillCommit b s) =
     (if output_surface_state s = OUTPUT_SURFACE_WAITING_FOR_FIRST_COMMIT
      then (if b then OUTPUT_SURFACE_ACTIVE else OUTPUT_SURFACE_WAITING_FOR_FIRST_ACTIVATION)
      else output_surface_state s)"
  "forced_redraw_state (WillCommit b s) =
     (if forced_redraw_state s = FORCED_REDRAW_STATE_WAITING_FOR_COMMIT
      then (if b then FORCED_REDRAW_STATE_WAITING_FOR_DRAW
            else FORCED_REDRAW_STATE_WAITING_FOR_ACTIVATION)
      else forced_redraw_state s)"
  "active_tree_needs_first_draw (WillCommit b s) =
     (active_tree_needs_first_draw s \<or>
      b \<and> forced_redraw_state s \<in> {FORCED_REDRAW_STATE_WAITING_FOR_COMMIT,
                                    FORCED_REDRAW_STATE_WAITING_FOR_DRAW})"
  "needs_redraw (WillCommit b s) =
     (needs_redraw s \<or>
      b \<and> forced_redraw_state s \<in> {FORCED_REDRAW_STATE_WAITING_FOR_COMMIT,
                                    FORCED_REDRAW_STATE_WAITING_FOR_DRAW})"
  "animate_funnel (WillCommit b s) = (b \<and> animate_funnel s)"
  "request_swap_funnel (WillCommit b s) = request_swap_funnel s"
  "send_begin_main_frame_funnel (WillCommit b s) = send_begin_main_frame_funnel s"
  "invalidate_output_surface_funnel (WillCommit b s) = invalidate_output_surface_funnel s"
  "prepare_tiles_funnel (WillCommit b s) = prepare_tiles_funnel s"
  "needs_prepare_tiles (WillCommit b s) = needs_prepare_tiles s"
  "pending_swaps (WillCommit b s) = pending_swaps s"
  "max_pending_swaps (WillCommit b s) = max_pending_swaps s"
  "visible (WillCommit b s) = visible s"
  "can_draw (WillCommit b s) = can_draw s"
  "resourceless_draw (WillCommit b s) = resourceless_draw s"
  by (auto simp add: WillCommit_def Let_def ssm_if cong: if_cong)

lemma WillActivate_fields:
  "settings (WillActivate s) = settings s"
  "has_pending_tree (WillActivate s) = False"
  "begin_main_frame_state (WillActivate s) =
     (if begin_main_frame_state s = BEGIN_MAIN_FRAME_STATE_WAITING_FOR_ACTIVATION
      then (if commit_to_active_tree (settings s)
            then BEGIN_MAIN_FRAME_STATE_WAITING_FOR_DRAW else BEGIN_MAIN_FRAME_STATE_IDLE)
      else begin_main_frame_state s)"
  "begin_impl_frame_state (WillActivate s) = begin_impl_frame_state s"
  "pending_tree_is_ready_for_activation (WillActivate s) = False"
  "output_surface_state (WillActivate s) =
     (if output_surface_state s = OUTPUT_SURFACE_WAITING_FOR_FIRST_ACTIVATION
      then OUTPUT_SURFACE_ACTIVE else output_surface_state s)"
  "forced_redraw_state (WillActivate s) =
     (if forced_redraw_state s = FORCED_REDRAW_STATE_WAITING_FOR_ACTIVATION
      then FORCED_REDRAW_STATE_WAITING_FOR_DRAW else forced_redraw_state s)"
  "active_tree_needs_first_draw (WillActivate s) = True"
  "needs_redraw (WillActivate s) = True"
  "animate_funnel (WillActivate s) = animate_funnel s"
  "request_swap_funnel (WillActivate s) = request_swap_funnel s"
  "send_begin_main_frame_funnel (WillActivate s) = send_begin_main_frame_funnel s"
  "invalidate_output_surface_funnel (WillActivate s) = invalidate_output_surface_funnel s"
  "prepare_tiles_funnel (WillActivate s) = prepare_tiles_funnel s"
  "needs_prepare_tiles (WillActivate s) = needs_prepare_tiles s"
  "pending_swaps (WillActivate s) = pending_swaps s"
  "max_pending_swaps (WillActivate s) = max_pending_swaps s"
  "visible (WillActivate s) = visible s"
  "can_draw (WillActivate s) = can_draw s"
  "resourceless_draw (WillActivate s) = resourceless_draw s"
  by (simp_all add: WillActivate_def Let_def ssm_if cong: if_cong)

lemma WillDraw_fields:
  "settings (WillDraw b s) = settings s"
  "has_pending_tree (WillDraw b s) = has_pending_tree s"
  "begin_main_frame_state (WillDraw b s) =
     (if begin_main_frame_state s = BEGIN_MAIN_FRAME_STATE_WAITING_FOR_DRAW
      then BEGIN_MAIN_FRAME_STATE_IDLE else begin_main_frame_state s)"
  "begin_impl_frame_state (WillDraw b s) = begin_impl_frame_state s"
  "pending_tree_is_ready_for_activation (WillDraw b s) = pending_tree_is_ready_for_activation s"
  "output_surface_state (WillDraw b s) = output_surface_state s"
  "forced_redraw_state (WillDraw b s) =
     (if forced_redraw_state s = FORCED_REDRAW_STATE_WAITING_FOR_DRAW
      then FORCED_REDRAW_STATE_IDLE else forced_redraw_state s)"
  "active_tree_needs_first_draw (WillDraw b s) = False"
  "needs_redraw (WillDraw b s) = False"
  "animate_funnel (WillDraw b s) = animate_funnel s"
  "request_swap_funnel (WillDraw b s) = (b \<or> request_swap_funnel s)"
  "send_begin_main_frame_funnel (WillDraw b s) = send_begin_main_frame_funnel s"
  "invalidate_output_surface_funnel (WillDraw b s) = invalidate_output_surface_funnel s"
  "prepare_tiles_funnel (WillDraw b s) = prepare_tiles_funnel s"
  "needs_prepare_tiles (WillDraw b s) = needs_prepare_tiles s"
  "pending_swaps (WillDraw b s) = pending_swaps s"
  "max_pending_swaps (WillDraw b s) = max_pending_swaps s"
  "visible (WillDraw b s) = visible s"
  "can_draw (WillDraw b s) = can_draw s"
  "resourceless_draw (WillDraw b s) = resourceless_draw s"
  by (simp_all add: WillDraw_def Let_def ssm_if cong: if_cong)

lemmas will_fields [simp] = WillCommit_fields WillActivate_fields WillDraw_fields

text \<open>The operations with no branch worth a table of their own, to be unfolded where needed.\<close>

lemmas simple_ops =
  WillAnimate_def WillSendBeginMainFrame_def WillPrepareTiles_def
  WillBeginOutputSurfaceCreation_def WillInvalidateOutputSurface_def
  SetSkipNextBeginMainFrameToReduceLatency_def SetChildrenNeedBeginFrames_def
  SetVideoNeedsBeginFrames_def SetDeferCommits_def OnBeginImplFrame_def
  OnBeginImplFrameDeadlinePending_def OnBeginImplFrameDeadline_def OnBeginImplFrameIdle_def
  SetVisible_def SetResourcelessSoftareDraw_def SetCanDraw_def SetNeedsRedraw_def
  SetNeedsAnimate_def SetNeedsPrepareTiles_def SetMaxSwapsPending_def DidSwapBuffers_def
  DidSwapBuffersComplete_def SetImplLatencyTakesPriority_def SetNeedsBeginMainFrame_def
  SetNeedsOneBeginImplFrame_def NotifyReadyToCommit_def DidPrepareTiles_def
  DidLoseOutputSurface_def NotifyReadyToActivate_def NotifyReadyToDraw_def
  DidCreateAndInitializeOutputSurface_def NotifyBeginMainFrameStarted_def

end
