(* ===== verification/Scheduler_Protocol.thy ===== *)
theory Scheduler_Protocol
  imports Scheduler_State_Machine
begin

text \<open>
  The state machine as a transition system. \<open>ssm_op\<close> has one constructor per mutating member
  function of \<open>SchedulerStateMachine\<close>; \<open>exec_op\<close> runs it and \<open>op_dcheck\<close> is what a debug
  build asserts while it runs. \<open>permitted\<close> is the calling protocol of \<open>Scheduler\<close>: a
  \<open>Will\<dots>\<close> function runs only when \<open>NextAction\<close> has just returned its action, and the
  replies of the main thread and of the output surface arrive only when they are awaited.
  The step relation, the reachable states, their invariant and the "at most once per
  phase" law of the funnels are proved here.
\<close>

section \<open>Operations as data\<close>

datatype ssm_op =
    OpWillAnimate
  | OpWillSendBeginMainFrame
  | OpWillCommit bool
  | OpWillActivate
  | OpWillDraw bool
  | OpWillPrepareTiles
  | OpWillBeginOutputSurfaceCreation
  | OpWillInvalidateOutputSurface
  | OpSetSkipNextBeginMainFrameToReduceLatency
  | OpSetChildrenNeedBeginFrames bool
  | OpSetVideoNeedsBeginFrames bool
  | OpSetDeferCommits bool
  | OpOnBeginImplFrame
  | OpOnBeginImplFrameDeadlinePending
  | OpOnBeginImplFrameDeadline
  | OpOnBeginImplFrameIdle
  | OpSetVisible bool
  | OpSetResourcelessSoftareDraw bool
  | OpSetCanDraw bool
  | OpSetNeedsRedraw
  | OpSetNeedsAnimate
  | OpSetNeedsPrepareTiles
  | OpSetMaxSwapsPending int
  | OpDidSwapBuffers
  | OpDidSwapBuffersComplete
  | OpSetImplLatencyTakesPriority bool
  | OpDidDrawIfPossibleCompleted draw_result_t
  | OpSetNeedsBeginMainFrame
  | OpSetNeedsOneBeginImplFrame
  | OpNotifyReadyToCommit
  | OpBeginMainFrameAborted commit_early_out_reason_t
  | OpDidPrepareTiles
  | OpDidLoseOutputSurface
  | OpNotifyReadyToActivate
  | OpNotifyReadyToDraw
  | OpDidCreateAndInitializeOutputSurface
  | OpNotifyBeginMainFrameStarted

fun exec_op :: "ssm_op \<Rightarrow> ssm \<Rightarrow> ssm" where
  "exec_op OpWillAnimate = WillAnimate"
| "exec_op OpWillSendBeginMainFrame = WillSendBeginMainFrame"
| "exec_op (OpWillCommit b) = WillCommit b"
| "exec_op OpWillActivate = WillActivate"
| "exec_op (OpWillDraw b) = WillDraw b"
| "exec_op OpWillPrepareTiles = WillPrepareTiles"
| "exec_op OpWillBeginOutputSurfaceCreation = WillBeginOutputSurfaceCreation"
| "exec_op OpWillInvalidateOutputSurface = WillInvalidateOutputSurface"
| "exec_op OpSetSkipNextBeginMainFrameToReduceLatency = SetSkipNextBeginMainFrameToReduceLatency"
| "exec_op (OpSetChildrenNeedBeginFrames b) = SetChildrenNeedBeginFrames b"
| "exec_op (OpSetVideoNeedsBeginFrames b) = SetVideoNeedsBeginFrames b"
| "exec_op (OpSetDeferCommits b) = SetDeferCommits b"
| "exec_op OpOnBeginImplFrame = OnBeginImplFrame"
| "exec_op OpOnBeginImplFrameDeadlinePending = OnBeginImplFrameDeadlinePending"
| "exec_op OpOnBeginImplFrameDeadline = OnBeginImplFrameDeadline"
| "exec_op OpOnBeginImplFrameIdle = OnBeginImplFrameIdle"
| "exec_op (OpSetVisible b) = SetVisible b"
| "exec_op (OpSetResourcelessSoftareDraw b) = SetResourcelessSoftareDraw b"
| "exec_op (OpSetCanDraw b) = SetCanDraw b"
| "exec_op OpSetNeedsRedraw = SetNeedsRedraw"
| "exec_op OpSetNeedsAnimate = SetNeedsAnimate"
| "exec_op OpSetNeedsPrepareTiles = SetNeedsPrepareTiles"
| "exec_op (OpSetMaxSwapsPending n) = SetMaxSwapsPending n"
| "exec_op OpDidSwapBuffers = DidSwapBuffers"
| "exec_op OpDidSwapBuffersComplete = DidSwapBuffersComplete"
| "exec_op (OpSetImplLatencyTakesPriority b) = SetImplLatencyTakesPriority b"
| "exec_op (OpDidDrawIfPossibleCompleted r) = DidDrawIfPossibleCompleted r"
| "exec_op OpSetNeedsBeginMainFrame = SetNeedsBeginMainFrame"
| "exec_op OpSetNeedsOneBeginImplFrame = SetNeedsOneBeginImplFrame"
| "exec_op OpNotifyReadyToCommit = NotifyReadyToCommit"
| "exec_op (OpBeginMainFrameAborted r) = BeginMainFrameAborted r"
| "exec_op OpDidPrepareTiles = DidPrepareTiles"
| "exec_op OpDidLoseOutputSurface = DidLoseOutputSurface"
| "exec_op OpNotifyReadyToActivate = NotifyReadyToActivate"
| "exec_op OpNotifyReadyToDraw = NotifyReadyToDraw"
| "exec_op OpDidCreateAndInitializeOutputSurface = DidCreateAndInitializeOutputSurface"
| "exec_op OpNotifyBeginMainFrameStarted = NotifyBeginMainFrameStarted"

definition op_dcheck :: "ssm_op \<Rightarrow> ssm \<Rightarrow> bool" where
  "op_dcheck x s =
     (case x of
        OpWillAnimate \<Rightarrow> WillAnimate_dcheck s
      | OpWillSendBeginMainFrame \<Rightarrow> WillSendBeginMainFrame_dcheck s
      | OpWillCommit b \<Rightarrow> WillCommit_dcheck s
      | OpWillDraw b \<Rightarrow> WillDraw_dcheck b s
      | OpWillBeginOutputSurfaceCreation \<Rightarrow> WillBeginOutputSurfaceCreation_dcheck s
      | OpWillInvalidateOutputSurface \<Rightarrow> WillInvalidateOutputSurface_dcheck s
      | OpDidSwapBuffers \<Rightarrow> DidSwapBuffers_dcheck s
      | OpDidDrawIfPossibleCompleted r \<Rightarrow> DidDrawIfPossibleCompleted_dcheck r
      | OpNotifyReadyToCommit \<Rightarrow> NotifyReadyToCommit_dcheck s
      | OpBeginMainFrameAborted r \<Rightarrow> BeginMainFrameAborted_dcheck r s
      | OpDidCreateAndInitializeOutputSurface \<Rightarrow> DidCreateAndInitializeOutputSurface_dcheck s
      | OpNotifyBeginMainFrameStarted \<Rightarrow> NotifyBeginMainFrameStarted_dcheck s
      | _ \<Rightarrow> True)"

text \<open>
  The state machine operation \<open>Scheduler::ProcessScheduledActions\<close> runs for an action,
  before it calls the client.
\<close>

fun action_op :: "action_t \<Rightarrow> ssm_op option" where
  "action_op ACTION_NONE = None"
| "action_op ACTION_ANIMATE = Some OpWillAnimate"
| "action_op ACTION_SEND_BEGIN_MAIN_FRAME = Some OpWillSendBeginMainFrame"
| "action_op ACTION_COMMIT = Some (OpWillCommit False)"
| "action_op ACTION_ACTIVATE_SYNC_TREE = Some OpWillActivate"
| "action_op ACTION_DRAW_AND_SWAP_IF_POSSIBLE = Some (OpWillDraw True)"
| "action_op ACTION_DRAW_AND_SWAP_FORCED = Some (OpWillDraw True)"
| "action_op ACTION_DRAW_AND_SWAP_ABORT = Some (OpWillDraw False)"
| "action_op ACTION_BEGIN_OUTPUT_SURFACE_CREATION = Some OpWillBeginOutputSurfaceCreation"
| "action_op ACTION_PREPARE_TILES = Some OpWillPrepareTiles"
| "action_op ACTION_INVALIDATE_OUTPUT_SURFACE = Some OpWillInvalidateOutputSurface"

fun is_will_op :: "ssm_op \<Rightarrow> bool" where
  "is_will_op OpWillAnimate = True"
| "is_will_op OpWillSendBeginMainFrame = True"
| "is_will_op (OpWillCommit b) = True"
| "is_will_op OpWillActivate = True"
| "is_will_op (OpWillDraw b) = True"
| "is_will_op OpWillPrepareTiles = True"
| "is_will_op OpWillBeginOutputSurfaceCreation = True"
| "is_will_op OpWillInvalidateOutputSurface = True"
| "is_will_op _ = False"

text \<open>
  The calling protocol: the comments of \<^verbatim>\<open>scheduler_state_machine.h\<close> ("call this only in
  response to receiving an \<open>ACTION_SEND_BEGIN_MAIN_FRAME\<close>", the order
  SENT, STARTED, READY of the main thread's replies), the assertions of \<open>Scheduler\<close> itself
  (\<open>DidSwapBuffersComplete\<close> is called with a pending swap) and the documented results of a
  draw.
\<close>

definition permitted :: "ssm \<Rightarrow> ssm_op \<Rightarrow> bool" where
  "permitted s x =
     (if is_will_op x then action_op (NextAction s) = Some x
      else
        (case x of
           OpNotifyBeginMainFrameStarted \<Rightarrow>
             begin_main_frame_state s = BEGIN_MAIN_FRAME_STATE_SENT
         | OpNotifyReadyToCommit \<Rightarrow>
             begin_main_frame_state s = BEGIN_MAIN_FRAME_STATE_STARTED
         | OpBeginMainFrameAborted r \<Rightarrow>
             begin_main_frame_state s = BEGIN_MAIN_FRAME_STATE_STARTED
         | OpDidCreateAndInitializeOutputSurface \<Rightarrow>
             output_surface_state s = OUTPUT_SURFACE_CREATING
         | OpDidDrawIfPossibleCompleted r \<Rightarrow>
             r \<in> {DRAW_SUCCESS, DRAW_ABORTED_CHECKERBOARD_ANIMATIONS,
                  DRAW_ABORTED_MISSING_HIGH_RES_CONTENT}
         | OpDidSwapBuffers \<Rightarrow> \<not> SwapThrottled s
         | OpDidSwapBuffersComplete \<Rightarrow> 0 < pending_swaps s
         | _ \<Rightarrow> True))"

inductive ssm_step :: "ssm \<Rightarrow> ssm \<Rightarrow> bool" where
  step: "permitted s x \<Longrightarrow> ssm_step s (exec_op x s)"

inductive reachable_ssm :: "scheduler_settings \<Rightarrow> ssm \<Rightarrow> bool" for se where
  start: "reachable_ssm se (SchedulerStateMachine se)"
| cont: "reachable_ssm se s \<Longrightarrow> ssm_step s t \<Longrightarrow> reachable_ssm se t"

inductive_cases ssm_stepE: "ssm_step s t"

section \<open>What an action tells about the state\<close>

lemma NextAction_activate:
  "NextAction s = ACTION_ACTIVATE_SYNC_TREE \<longleftrightarrow> ShouldActivatePendingTree s"
  by (simp add: NextAction_def)

lemma NextAction_commit: "NextAction s = ACTION_COMMIT \<Longrightarrow> ShouldCommit s"
  by (simp add: NextAction_def split: if_splits)

lemma NextAction_animate: "NextAction s = ACTION_ANIMATE \<Longrightarrow> ShouldAnimate s"
  by (simp add: NextAction_def split: if_splits)

lemma NextAction_draw:
  "NextAction s = ACTION_DRAW_AND_SWAP_IF_POSSIBLE \<or> NextAction s = ACTION_DRAW_AND_SWAP_FORCED
   \<Longrightarrow> ShouldDraw s \<and> \<not> PendingDrawsShouldBeAborted s"
  by (auto simp: NextAction_def split: if_splits)

lemma NextAction_draw_abort:
  "NextAction s = ACTION_DRAW_AND_SWAP_ABORT \<Longrightarrow>
   PendingDrawsShouldBeAborted s \<and> active_tree_needs_first_draw s"
  by (auto simp: NextAction_def ShouldDraw_def split: if_splits)

lemma NextAction_prepare: "NextAction s = ACTION_PREPARE_TILES \<Longrightarrow> ShouldPrepareTiles s"
  by (simp add: NextAction_def split: if_splits)

lemma NextAction_send: "NextAction s = ACTION_SEND_BEGIN_MAIN_FRAME \<Longrightarrow> ShouldSendBeginMainFrame s"
  by (simp add: NextAction_def split: if_splits)

lemma NextAction_invalidate:
  "NextAction s = ACTION_INVALIDATE_OUTPUT_SURFACE \<Longrightarrow> ShouldInvalidateOutputSurface s"
  by (simp add: NextAction_def split: if_splits)

lemma NextAction_create:
  "NextAction s = ACTION_BEGIN_OUTPUT_SURFACE_CREATION \<Longrightarrow> ShouldBeginOutputSurfaceCreation s"
  by (simp add: NextAction_def split: if_splits)

lemma NextAction_none:
  "NextAction s = ACTION_NONE \<longleftrightarrow>
     \<not> ShouldActivatePendingTree s \<and> \<not> ShouldCommit s \<and> \<not> ShouldAnimate s \<and> \<not> ShouldDraw s \<and>
     \<not> ShouldPrepareTiles s \<and> \<not> ShouldSendBeginMainFrame s \<and>
     \<not> ShouldInvalidateOutputSurface s \<and> \<not> ShouldBeginOutputSurfaceCreation s"
  by (simp add: NextAction_def)

lemmas NextAction_facts =
  NextAction_activate [THEN iffD1] NextAction_commit NextAction_animate NextAction_draw
  NextAction_draw_abort NextAction_prepare NextAction_send NextAction_invalidate NextAction_create

text \<open>A permitted \<open>Will\<dots>\<close> operation names the action it answers.\<close>

lemma action_op_Some:
  "action_op a = Some OpWillAnimate \<longleftrightarrow> a = ACTION_ANIMATE"
  "action_op a = Some OpWillSendBeginMainFrame \<longleftrightarrow> a = ACTION_SEND_BEGIN_MAIN_FRAME"
  "action_op a = Some (OpWillCommit b) \<longleftrightarrow> a = ACTION_COMMIT \<and> \<not> b"
  "action_op a = Some OpWillActivate \<longleftrightarrow> a = ACTION_ACTIVATE_SYNC_TREE"
  "action_op a = Some (OpWillDraw b) \<longleftrightarrow>
     b \<and> (a = ACTION_DRAW_AND_SWAP_IF_POSSIBLE \<or> a = ACTION_DRAW_AND_SWAP_FORCED) \<or>
     \<not> b \<and> a = ACTION_DRAW_AND_SWAP_ABORT"
  "action_op a = Some OpWillPrepareTiles \<longleftrightarrow> a = ACTION_PREPARE_TILES"
  "action_op a = Some OpWillBeginOutputSurfaceCreation \<longleftrightarrow>
     a = ACTION_BEGIN_OUTPUT_SURFACE_CREATION"
  "action_op a = Some OpWillInvalidateOutputSurface \<longleftrightarrow> a = ACTION_INVALIDATE_OUTPUT_SURFACE"
  by (cases a; auto)+

lemma exec_op_settings [frame_rules]: "settings (exec_op x s) = settings s"
proof (cases x)
  case (OpDidDrawIfPossibleCompleted r)
  then show ?thesis by (cases r) (simp_all add: Let_def)
next
  case (OpBeginMainFrameAborted r)
  then show ?thesis by (cases r) (simp_all add: ssm_ops Let_def)
qed (simp_all add: ssm_ops Let_def)

section \<open>The invariant of the sequential pipeline\<close>

text \<open>
  Without \<open>main_frame_before_activation_enabled\<close> the pipeline is sequential: a pending tree
  exists exactly while the main thread waits for its activation.
\<close>

definition pending_tree_inv :: "ssm \<Rightarrow> bool" where
  "pending_tree_inv s \<longleftrightarrow>
     (has_pending_tree s \<longleftrightarrow>
        begin_main_frame_state s = BEGIN_MAIN_FRAME_STATE_WAITING_FOR_ACTIVATION) \<and>
     (pending_tree_is_ready_for_activation s \<longrightarrow> has_pending_tree s) \<and>
     (output_surface_state s = OUTPUT_SURFACE_WAITING_FOR_FIRST_ACTIVATION \<longrightarrow>
        has_pending_tree s) \<and>
     (forced_redraw_state s = FORCED_REDRAW_STATE_WAITING_FOR_ACTIVATION \<longrightarrow>
        has_pending_tree s)"

text \<open>
  In \<open>commit_to_active_tree\<close> mode with the checkerboard timeout off, an active tree that
  still needs its first draw keeps the main thread waiting for that draw.
\<close>

definition direct_commit_inv :: "ssm \<Rightarrow> bool" where
  "direct_commit_inv s \<longleftrightarrow>
     forced_redraw_state s = FORCED_REDRAW_STATE_IDLE \<and>
     (active_tree_needs_first_draw s \<longrightarrow>
        begin_main_frame_state s = BEGIN_MAIN_FRAME_STATE_WAITING_FOR_DRAW)"

lemma ShouldCommitD:
  "ShouldCommit s \<Longrightarrow>
   begin_main_frame_state s = BEGIN_MAIN_FRAME_STATE_READY_TO_COMMIT \<and> \<not> has_pending_tree s"
  by (simp add: ShouldCommit_def split: if_splits)

lemma ShouldActivatePendingTreeD:
  "ShouldActivatePendingTree s \<Longrightarrow> has_pending_tree s \<and> \<not> active_tree_needs_first_draw s"
  by (simp add: ShouldActivatePendingTree_def split: if_splits)

lemma ShouldSendBeginMainFrameD:
  "ShouldSendBeginMainFrame s \<Longrightarrow>
   begin_main_frame_state s = BEGIN_MAIN_FRAME_STATE_IDLE \<and> visible s \<and>
   \<not> send_begin_main_frame_funnel s"
  by (simp add: ShouldSendBeginMainFrame_def CouldSendBeginMainFrame_def split: if_splits)

lemmas permitted_simps = permitted_def action_op_Some

lemma pending_tree_inv_exec:
  assumes "pending_tree_inv s" and "\<not> main_frame_before_activation_enabled (settings s)"
    and "permitted s x"
  shows "pending_tree_inv (exec_op x s)"
proof (cases x)
  case (OpWillCommit b)
  with assms have "ShouldCommit s" "\<not> b"
    by (simp_all add: permitted_simps NextAction_commit)
  with assms OpWillCommit show ?thesis
    by (simp add: pending_tree_inv_def)
next
  case OpWillActivate
  with assms show ?thesis
    by (simp add: pending_tree_inv_def)
next
  case OpWillSendBeginMainFrame
  with assms have "ShouldSendBeginMainFrame s"
    by (simp add: permitted_simps NextAction_send)
  with assms OpWillSendBeginMainFrame show ?thesis
    by (auto simp add: pending_tree_inv_def simple_ops dest: ShouldSendBeginMainFrameD)
next
  case (OpBeginMainFrameAborted r)
  with assms show ?thesis
    by (cases r) (auto simp: pending_tree_inv_def permitted_simps simple_ops)
next
  case (OpDidDrawIfPossibleCompleted r)
  with assms show ?thesis
    by (cases r) (auto simp: pending_tree_inv_def Let_def ssm_if)
qed (use assms in \<open>auto simp: pending_tree_inv_def permitted_simps simple_ops Let_def ssm_if\<close>)

lemma direct_commit_inv_exec:
  assumes "direct_commit_inv s" and "pending_tree_inv s"
    and "commit_to_active_tree (settings s)"
    and "\<not> timeout_and_draw_when_animation_checkerboards (settings s)"
    and "permitted s x"
  shows "direct_commit_inv (exec_op x s)"
proof (cases x)
  case (OpWillCommit b)
  with assms have "ShouldCommit s" "\<not> b"
    by (simp_all add: permitted_simps NextAction_commit)
  with assms OpWillCommit show ?thesis
    by (auto simp add: direct_commit_inv_def dest: ShouldCommitD)
next
  case OpWillActivate
  with assms have "ShouldActivatePendingTree s"
    by (simp add: permitted_simps NextAction_activate)
  with assms OpWillActivate show ?thesis
    by (auto simp add: pending_tree_inv_def direct_commit_inv_def dest!: ShouldActivatePendingTreeD)
next
  case OpWillSendBeginMainFrame
  with assms have "ShouldSendBeginMainFrame s"
    by (simp add: permitted_simps NextAction_send)
  with assms OpWillSendBeginMainFrame show ?thesis
    by (auto simp add: direct_commit_inv_def simple_ops dest: ShouldSendBeginMainFrameD)
next
  case (OpBeginMainFrameAborted r)
  with assms show ?thesis
    by (cases r) (auto simp add: direct_commit_inv_def permitted_simps simple_ops)
next
  case (OpDidDrawIfPossibleCompleted r)
  with assms show ?thesis
    by (cases r) (simp_all add: direct_commit_inv_def Let_def ssm_if)
qed (use assms in \<open>auto simp add: direct_commit_inv_def permitted_simps simple_ops Let_def ssm_if\<close>)


text \<open>
  The settings for which the assertions are proved: no main frame before activation, and a
  compositor that commits to its active tree does not use the checkerboard timeout.
\<close>

definition sequential_settings :: "scheduler_settings \<Rightarrow> bool" where
  "sequential_settings se \<longleftrightarrow>
     \<not> main_frame_before_activation_enabled se \<and>
     (commit_to_active_tree se \<longrightarrow> \<not> timeout_and_draw_when_animation_checkerboards se)"

definition ssm_inv :: "ssm \<Rightarrow> bool" where
  "ssm_inv s \<longleftrightarrow>
     pending_tree_inv s \<and>
     (commit_to_active_tree (settings s) \<longrightarrow> direct_commit_inv s) \<and>
     0 \<le> pending_swaps s"

lemma ssm_inv_init: "ssm_inv (SchedulerStateMachine se)"
  by (simp add: ssm_inv_def pending_tree_inv_def direct_commit_inv_def SchedulerStateMachine_def)

lemma pending_swaps_exec:
  assumes "0 \<le> pending_swaps s" and "permitted s x"
  shows "0 \<le> pending_swaps (exec_op x s)"
proof (cases x)
  case (OpBeginMainFrameAborted r)
  with assms show ?thesis by (cases r) (simp_all add: simple_ops)
next
  case (OpDidDrawIfPossibleCompleted r)
  with assms show ?thesis by (cases r) (simp_all add: Let_def ssm_if)
qed (use assms in \<open>simp_all add: permitted_simps simple_ops Let_def ssm_if\<close>)

lemma ssm_inv_exec:
  assumes "ssm_inv s" and "sequential_settings (settings s)" and "permitted s x"
  shows "ssm_inv (exec_op x s)"
  using assms pending_tree_inv_exec [of s x] direct_commit_inv_exec [of s x]
    pending_swaps_exec [of s x]
  by (simp add: ssm_inv_def sequential_settings_def exec_op_settings)

lemma reachable_settings: "reachable_ssm se s \<Longrightarrow> settings s = se"
  by (induction rule: reachable_ssm.induct)
     (auto elim!: ssm_stepE simp: exec_op_settings SchedulerStateMachine_def)

lemma reachable_ssm_inv: "reachable_ssm se s \<Longrightarrow> sequential_settings se \<Longrightarrow> ssm_inv s"
proof (induction rule: reachable_ssm.induct)
  case start
  show ?case by (rule ssm_inv_init)
next
  case (cont s t)
  then show ?case
    by (auto elim!: ssm_stepE intro!: ssm_inv_exec dest: reachable_settings)
qed

lemma ssm_inv_op_dcheck:
  assumes inv: "ssm_inv s" and seq: "sequential_settings (settings s)" and perm: "permitted s x"
  shows "op_dcheck x s"
proof (cases x)
  case OpWillAnimate
  with perm show ?thesis
    by (auto simp: op_dcheck_def permitted_simps ssm_dchecks ShouldAnimate_def
        dest!: NextAction_animate split: if_splits)
next
  case OpWillSendBeginMainFrame
  with perm have "ShouldSendBeginMainFrame s"
    by (simp add: permitted_simps NextAction_send)
  with inv OpWillSendBeginMainFrame show ?thesis
    by (auto simp: op_dcheck_def ssm_dchecks ssm_inv_def pending_tree_inv_def
        dest: ShouldSendBeginMainFrameD)
next
  case (OpWillCommit b)
  with perm have "ShouldCommit s"
    by (simp add: permitted_simps NextAction_commit)
  with inv OpWillCommit show ?thesis
    by (auto simp: op_dcheck_def ssm_dchecks ssm_inv_def pending_tree_inv_def
        dest: ShouldCommitD)
next
  case (OpWillDraw b)
  with perm show ?thesis
    by (auto simp: op_dcheck_def permitted_simps ssm_dchecks ShouldDraw_def
        dest!: NextAction_draw split: if_splits)
next
  case OpWillBeginOutputSurfaceCreation
  with perm show ?thesis
    by (auto simp: op_dcheck_def permitted_simps ssm_dchecks ShouldBeginOutputSurfaceCreation_def
        dest!: NextAction_create split: if_splits)
next
  case OpWillInvalidateOutputSurface
  with perm show ?thesis
    by (auto simp: op_dcheck_def permitted_simps ssm_dchecks ShouldInvalidateOutputSurface_def
        dest!: NextAction_invalidate split: if_splits)
next
  case OpNotifyReadyToCommit
  with perm inv show ?thesis
    by (auto simp: op_dcheck_def permitted_simps ssm_dchecks ssm_inv_def pending_tree_inv_def
        direct_commit_inv_def ShouldCommit_def simple_ops)
next
  case (OpBeginMainFrameAborted r)
  with perm inv show ?thesis
    by (auto simp: op_dcheck_def permitted_simps ssm_dchecks ssm_inv_def pending_tree_inv_def)
qed (use perm in \<open>auto simp: op_dcheck_def permitted_simps ssm_dchecks SwapThrottled_def\<close>)

lemma ssm_inv_ShouldCommit_dcheck:
  "ssm_inv s \<Longrightarrow> ShouldCommit_dcheck s"
  by (auto simp: ssm_dchecks ssm_inv_def pending_tree_inv_def direct_commit_inv_def)

lemma run_reachable:
  assumes "reachable_ssm se s" and "legal_run permitted exec_op s xs"
  shows "reachable_ssm se (fold exec_op xs s)"
  using assms
  by (induction xs arbitrary: s) (auto intro: reachable_ssm.cont ssm_step.step)

section \<open>Funnels: at most once per phase\<close>

lemma exec_op_send_funnel:
  assumes "send_begin_main_frame_funnel s" and "x \<noteq> OpOnBeginImplFrame"
  shows "send_begin_main_frame_funnel (exec_op x s)"
proof (cases x)
  case (OpDidDrawIfPossibleCompleted r)
  then show ?thesis using assms by (cases r) (simp_all add: Let_def ssm_if)
next
  case (OpBeginMainFrameAborted r)
  then show ?thesis using assms by (cases r) (simp_all add: simple_ops)
qed (use assms in \<open>simp_all add: simple_ops Let_def ssm_if\<close>)

interpretation send_funnel: funnel permitted exec_op send_begin_main_frame_funnel
  "\<lambda>x. x = OpWillSendBeginMainFrame" "\<lambda>x. x = OpOnBeginImplFrame"
  by unfold_locales
     (auto simp: permitted_simps exec_op_send_funnel simple_ops
       dest!: NextAction_send ShouldSendBeginMainFrameD)

lemma exec_op_swap_funnel:
  assumes "request_swap_funnel s" and "x \<noteq> OpOnBeginImplFrameDeadline"
  shows "request_swap_funnel (exec_op x s)"
proof (cases x)
  case (OpDidDrawIfPossibleCompleted r)
  then show ?thesis using assms by (cases r) (simp_all add: Let_def ssm_if)
next
  case (OpBeginMainFrameAborted r)
  then show ?thesis using assms by (cases r) (simp_all add: simple_ops)
qed (use assms in \<open>simp_all add: simple_ops Let_def ssm_if\<close>)

lemma exec_op_animate_funnel:
  assumes "animate_funnel s" and "x \<notin> {OpOnBeginImplFrame, OpWillCommit False}"
  shows "animate_funnel (exec_op x s)"
proof (cases x)
  case (OpDidDrawIfPossibleCompleted r)
  then show ?thesis using assms by (cases r) (simp_all add: Let_def ssm_if)
next
  case (OpBeginMainFrameAborted r)
  then show ?thesis using assms by (cases r) (simp_all add: simple_ops)
qed (use assms in \<open>auto simp: simple_ops Let_def ssm_if\<close>)

lemma exec_op_invalidate_funnel:
  assumes "invalidate_output_surface_funnel s" and "x \<noteq> OpOnBeginImplFrame"
  shows "invalidate_output_surface_funnel (exec_op x s)"
proof (cases x)
  case (OpDidDrawIfPossibleCompleted r)
  then show ?thesis using assms by (cases r) (simp_all add: Let_def ssm_if)
next
  case (OpBeginMainFrameAborted r)
  then show ?thesis using assms by (cases r) (simp_all add: simple_ops)
qed (use assms in \<open>simp_all add: simple_ops Let_def ssm_if\<close>)

lemma ShouldDrawD:
  "ShouldDraw s \<Longrightarrow> \<not> PendingDrawsShouldBeAborted s \<Longrightarrow>
   \<not> request_swap_funnel s \<and> output_surface_state s = OUTPUT_SURFACE_ACTIVE \<and>
   \<not> SwapThrottled s \<and> begin_impl_frame_state s = BEGIN_IMPL_FRAME_STATE_INSIDE_DEADLINE"
  by (simp add: ShouldDraw_def split: if_splits)

interpretation swap_funnel: funnel permitted exec_op request_swap_funnel
  "\<lambda>x. x = OpWillDraw True" "\<lambda>x. x = OpOnBeginImplFrameDeadline"
  by unfold_locales
     (auto simp: permitted_simps exec_op_swap_funnel dest: NextAction_draw ShouldDrawD
       NextAction_draw [OF disjI1] NextAction_draw [OF disjI2])

interpretation animate_funnel: funnel permitted exec_op animate_funnel
  "\<lambda>x. x = OpWillAnimate" "\<lambda>x. x \<in> {OpOnBeginImplFrame, OpWillCommit False}"
proof unfold_locales
  fix x s
  show "x = OpWillAnimate \<Longrightarrow> animate_funnel (exec_op x s)"
    by (simp add: simple_ops)
  show "animate_funnel s \<Longrightarrow> x \<notin> {OpOnBeginImplFrame, OpWillCommit False} \<Longrightarrow>
        animate_funnel (exec_op x s)"
    by (rule exec_op_animate_funnel)
  show "animate_funnel s \<Longrightarrow> x = OpWillAnimate \<Longrightarrow> \<not> permitted s x"
    by (auto simp: permitted_simps ShouldAnimate_def dest!: NextAction_animate)
qed

interpretation invalidate_funnel: funnel permitted exec_op invalidate_output_surface_funnel
  "\<lambda>x. x = OpWillInvalidateOutputSurface" "\<lambda>x. x = OpOnBeginImplFrame"
  by unfold_locales
     (auto simp: permitted_simps exec_op_invalidate_funnel simple_ops ShouldInvalidateOutputSurface_def
       dest!: NextAction_invalidate)

section \<open>A flushed pipeline\<close>

text \<open>
  Outside the synchronous compositor a main thread that waits for a draw waits for an
  active tree that has not had its first draw.
\<close>

definition draw_wait_inv :: "ssm \<Rightarrow> bool" where
  "draw_wait_inv s \<longleftrightarrow>
     (begin_main_frame_state s = BEGIN_MAIN_FRAME_STATE_WAITING_FOR_DRAW \<longrightarrow>
        active_tree_needs_first_draw s)"

lemma draw_wait_inv_exec:
  assumes "draw_wait_inv s" and "\<not> using_synchronous_renderer_compositor (settings s)"
    and "permitted s x"
  shows "draw_wait_inv (exec_op x s)"
proof (cases x)
  case (OpDidDrawIfPossibleCompleted r)
  then show ?thesis using assms by (cases r) (simp_all add: draw_wait_inv_def Let_def ssm_if)
next
  case (OpBeginMainFrameAborted r)
  then show ?thesis using assms by (cases r) (auto simp: draw_wait_inv_def simple_ops)
next
  case OpWillInvalidateOutputSurface
  with assms show ?thesis
    by (auto simp: permitted_simps ShouldInvalidateOutputSurface_def
        dest!: NextAction_invalidate split: if_splits)
qed (use assms in \<open>auto simp: draw_wait_inv_def simple_ops Let_def ssm_if\<close>)

lemma reachable_draw_wait_inv:
  "reachable_ssm se s \<Longrightarrow> \<not> using_synchronous_renderer_compositor se \<Longrightarrow> draw_wait_inv s"
proof (induction rule: reachable_ssm.induct)
  case start
  show ?case by (simp add: draw_wait_inv_def SchedulerStateMachine_def)
next
  case (cont s t)
  then show ?case
    by (auto elim!: ssm_stepE intro!: draw_wait_inv_exec dest: reachable_settings)
qed

section \<open>Without an output surface\<close>

text \<open>The state machine on its own: it takes the action it asks for, if any.\<close>

definition act_alone :: "ssm \<Rightarrow> ssm" where
  "act_alone s = (case action_op (NextAction s) of Some x \<Rightarrow> exec_op x s | None \<Rightarrow> s)"

text \<open>What is left in the pipeline of a state with a lost output surface.\<close>

definition unflushed :: "ssm \<Rightarrow> nat" where
  "unflushed s =
     (if begin_main_frame_state s = BEGIN_MAIN_FRAME_STATE_READY_TO_COMMIT then 4 else 0) +
     (if has_pending_tree s then 2 else 0) + (if active_tree_needs_first_draw s then 1 else 0)"

definition flush_actions :: "action_t set" where
  "flush_actions = {ACTION_ACTIVATE_SYNC_TREE, ACTION_COMMIT, ACTION_DRAW_AND_SWAP_ABORT}"

definition surface_lost :: "ssm \<Rightarrow> bool" where
  "surface_lost s \<longleftrightarrow> output_surface_state s = OUTPUT_SURFACE_NONE \<and> visible s \<and>
     begin_impl_frame_state s = BEGIN_IMPL_FRAME_STATE_IDLE"

definition reply_awaited :: "ssm \<Rightarrow> bool" where
  "reply_awaited s \<longleftrightarrow> begin_main_frame_state s \<in> {BEGIN_MAIN_FRAME_STATE_SENT, BEGIN_MAIN_FRAME_STATE_STARTED}"

lemma surface_lost_action:
  assumes "surface_lost s" and "\<not> using_synchronous_renderer_compositor (settings s)"
  shows "NextAction s =
    (if has_pending_tree s \<and> \<not> active_tree_needs_first_draw s then ACTION_ACTIVATE_SYNC_TREE
     else if begin_main_frame_state s = BEGIN_MAIN_FRAME_STATE_READY_TO_COMMIT \<and> \<not> has_pending_tree s then ACTION_COMMIT
     else if active_tree_needs_first_draw s then ACTION_DRAW_AND_SWAP_ABORT
     else if begin_main_frame_state s = BEGIN_MAIN_FRAME_STATE_IDLE then ACTION_BEGIN_OUTPUT_SURFACE_CREATION
     else ACTION_NONE)"
proof -
  have "ShouldActivatePendingTree s \<longleftrightarrow> has_pending_tree s \<and> \<not> active_tree_needs_first_draw s"
    "ShouldCommit s \<longleftrightarrow> begin_main_frame_state s = BEGIN_MAIN_FRAME_STATE_READY_TO_COMMIT \<and> \<not> has_pending_tree s"
    "\<not> ShouldAnimate s" "ShouldDraw s \<longleftrightarrow> active_tree_needs_first_draw s" "PendingDrawsShouldBeAborted s"
    "\<not> ShouldPrepareTiles s" "\<not> ShouldSendBeginMainFrame s" "\<not> ShouldInvalidateOutputSurface s"
    "ShouldBeginOutputSurfaceCreation s \<longleftrightarrow> begin_main_frame_state s = BEGIN_MAIN_FRAME_STATE_IDLE \<and>
      \<not> active_tree_needs_first_draw s \<and> \<not> has_pending_tree s"
    using assms unfolding surface_lost_def by (auto simp: ssm_preds)
  then show ?thesis by (simp add: NextAction_def)
qed

lemma act_alone_reachable: "reachable_ssm se s \<Longrightarrow> reachable_ssm se (act_alone s)"
proof -
  assume r: "reachable_ssm se s"
  have "is_will_op x" if "action_op a = Some x" for a x using that by (cases a) auto
  then have "permitted s x" if "action_op (NextAction s) = Some x" for x
    using that by (simp add: permitted_def)
  then show ?thesis
    using r by (auto simp: act_alone_def split: option.split intro: reachable_ssm.cont ssm_step.step)
qed

lemma act_alone_flushes:
  assumes "surface_lost s" and "\<not> using_synchronous_renderer_compositor (settings s)"
    and "\<not> main_frame_before_activation_enabled (settings s)" and "pending_tree_inv s" and "NextAction s \<in> flush_actions"
  shows "surface_lost (act_alone s)" and "reply_awaited (act_alone s) = reply_awaited s"
    and "unflushed (act_alone s) < unflushed s"
proof -
  note action = surface_lost_action [OF assms(1,2)]
  have lost: "output_surface_state s = OUTPUT_SURFACE_NONE" "visible s" "begin_impl_frame_state s = BEGIN_IMPL_FRAME_STATE_IDLE"
    using assms(1) by (simp_all add: surface_lost_def)
  consider "NextAction s = ACTION_ACTIVATE_SYNC_TREE" "has_pending_tree s" "\<not> active_tree_needs_first_draw s"
    | "NextAction s = ACTION_COMMIT" "begin_main_frame_state s = BEGIN_MAIN_FRAME_STATE_READY_TO_COMMIT" "\<not> has_pending_tree s"
    | "NextAction s = ACTION_DRAW_AND_SWAP_ABORT" "active_tree_needs_first_draw s"
        "begin_main_frame_state s \<noteq> BEGIN_MAIN_FRAME_STATE_READY_TO_COMMIT \<or> has_pending_tree s"
    using action assms(5) by (auto simp: flush_actions_def split: if_splits)
  then have "surface_lost (act_alone s) \<and> reply_awaited (act_alone s) = reply_awaited s \<and> unflushed (act_alone s) < unflushed s"
  proof cases
    case 1
    then have "begin_main_frame_state s = BEGIN_MAIN_FRAME_STATE_WAITING_FOR_ACTIVATION"
      using assms(4) by (simp add: pending_tree_inv_def)
    then show ?thesis using 1 lost
      by (simp add: act_alone_def surface_lost_def reply_awaited_def unflushed_def WillActivate_def Let_def)
  next
    case 2
    then show ?thesis using lost assms(3)
      by (simp add: act_alone_def surface_lost_def reply_awaited_def unflushed_def WillCommit_def Let_def)
  next
    case 3
    then show ?thesis using lost
      by (auto simp: act_alone_def surface_lost_def reply_awaited_def unflushed_def WillDraw_def Let_def)
  qed
  then show "surface_lost (act_alone s)" and "reply_awaited (act_alone s) = reply_awaited s"
    and "unflushed (act_alone s) < unflushed s" by simp_all
qed

lemma flushed_action:
  assumes "surface_lost s" and "\<not> using_synchronous_renderer_compositor (settings s)"
    and "pending_tree_inv s" and "draw_wait_inv s" and "NextAction s \<notin> flush_actions"
  shows "NextAction s = (if reply_awaited s then ACTION_NONE else ACTION_BEGIN_OUTPUT_SURFACE_CREATION)"
  using assms(3-5) unfolding surface_lost_action [OF assms(1,2)]
  by (cases "begin_main_frame_state s")
    (auto simp: flush_actions_def reply_awaited_def pending_tree_inv_def draw_wait_inv_def split: if_splits)

lemma surface_lost_flushes:
  assumes "sequential_settings se" and "\<not> using_synchronous_renderer_compositor se"
  shows "reachable_ssm se s \<Longrightarrow> surface_lost s \<Longrightarrow>
    \<exists>n \<le> unflushed s. (\<forall>k < n. NextAction ((act_alone ^^ k) s) \<in> flush_actions) \<and>
      NextAction ((act_alone ^^ n) s) = (if reply_awaited s then ACTION_NONE else ACTION_BEGIN_OUTPUT_SURFACE_CREATION)"
proof (induction "unflushed s" arbitrary: s rule: less_induct)
  case less
  have settings: "settings s = se" using less.prems(1) by (rule reachable_settings)
  have inv: "pending_tree_inv s" "draw_wait_inv s"
    using reachable_ssm_inv [OF less.prems(1) assms(1)] reachable_draw_wait_inv [OF less.prems(1) assms(2)]
    by (simp_all add: ssm_inv_def)
  show ?case
  proof (cases "NextAction s \<in> flush_actions")
    case False
    then show ?thesis
      using flushed_action [OF less.prems(2) _ inv False] assms(2) settings by (intro exI [of _ 0]) simp
  next
    case True
    note step = act_alone_flushes [OF less.prems(2) _ _ inv(1) True]
    have sequential: "\<not> main_frame_before_activation_enabled se" using assms(1) by (simp add: sequential_settings_def)
    obtain n where n: "n \<le> unflushed (act_alone s)" "\<forall>k < n. NextAction ((act_alone ^^ k) (act_alone s)) \<in> flush_actions"
      "NextAction ((act_alone ^^ n) (act_alone s)) = (if reply_awaited s then ACTION_NONE else ACTION_BEGIN_OUTPUT_SURFACE_CREATION)"
      using less.hyps [OF step(3) act_alone_reachable [OF less.prems(1)] step(1)] step(2) settings assms(2) sequential by auto
    have "\<forall>k < Suc n. NextAction ((act_alone ^^ k) s) \<in> flush_actions"
      using n(2) True by (auto simp: less_Suc_eq_0_disj funpow_Suc_right simp del: funpow.simps(2))
    moreover have "Suc n \<le> unflushed s" using n(1) step(3) settings assms(2) sequential by simp
    ultimately show ?thesis
      using n(3) by (intro exI [of _ "Suc n"]) (simp add: funpow_Suc_right del: funpow.simps(2))
  qed
qed

section \<open>Properties\<close>

text \<open>A state in which the main thread has just announced that it is ready to commit.\<close>

definition commit_ready_run :: "ssm_op list" where
  "commit_ready_run =
     [OpSetVisible True, OpSetCanDraw True, OpWillBeginOutputSurfaceCreation,
      OpDidCreateAndInitializeOutputSurface, OpSetNeedsBeginMainFrame,
      OpOnBeginImplFrame, OpWillSendBeginMainFrame, OpNotifyBeginMainFrameStarted,
      OpNotifyReadyToCommit]"

definition commit_ready_state :: ssm where
  "commit_ready_state = fold exec_op commit_ready_run (SchedulerStateMachine SchedulerSettings)"

lemma commit_ready_reachable: "reachable_ssm SchedulerSettings commit_ready_state"
  unfolding commit_ready_state_def
  by (rule run_reachable [OF reachable_ssm.start]) code_simp

text \<open>[C1] No debug assertion of the state machine can fail: in every state reachable under
  the calling protocol, with sequential settings, the assertions \<open>NextAction\<close> evaluates in
  \<open>ShouldCommit\<close> hold, and so do the assertions of every operation that may be called.\<close>

theorem reachable_dchecks_hold:
  assumes "reachable_ssm se s" and "sequential_settings se" and "permitted s x"
  shows "ShouldCommit_dcheck s \<and> op_dcheck x s"
  using assms reachable_ssm_inv [of se s] reachable_settings [of se s]
  by (auto intro: ssm_inv_ShouldCommit_dcheck ssm_inv_op_dcheck)

theorem reachable_dchecks_hold_witness:
  "ShouldCommit_dcheck commit_ready_state \<and> op_dcheck (OpWillCommit False) commit_ready_state"
proof (rule reachable_dchecks_hold [OF commit_ready_reachable])
  show "sequential_settings SchedulerSettings" by code_simp
  show "permitted commit_ready_state (OpWillCommit False)" by code_simp
qed

text \<open>[C17] At most one BeginMainFrame message per BeginImplFrame: in a run under the calling
  protocol from any state the messages sent are at most the BeginImplFrames, plus one when
  the funnel is open at the start.\<close>

theorem send_begin_main_frame_once_per_frame:
  assumes "legal_run permitted exec_op s xs"
  shows "length (filter (\<lambda>x. x = OpWillSendBeginMainFrame) xs) \<le>
         length (filter (\<lambda>x. x = OpOnBeginImplFrame) xs) +
         (if send_begin_main_frame_funnel s then 0 else 1)"
  using assms by (rule send_funnel.fires_le_resets)

theorem send_begin_main_frame_once_per_frame_witness:
  "length (filter (\<lambda>x. x = OpWillSendBeginMainFrame) commit_ready_run) \<le>
   length (filter (\<lambda>x. x = OpOnBeginImplFrame) commit_ready_run) +
   (if send_begin_main_frame_funnel (SchedulerStateMachine SchedulerSettings) then 0 else 1)"
  by (rule send_begin_main_frame_once_per_frame) code_simp

text \<open>[C18] At most one swap per draw phase: in a run under the calling protocol the draws that
  request a swap are at most the deadlines entered, plus one when the funnel is open at the
  start.\<close>

theorem swap_once_per_deadline:
  assumes "legal_run permitted exec_op s xs"
  shows "length (filter (\<lambda>x. x = OpWillDraw True) xs) \<le>
         length (filter (\<lambda>x. x = OpOnBeginImplFrameDeadline) xs) +
         (if request_swap_funnel s then 0 else 1)"
  using assms by (rule swap_funnel.fires_le_resets)

definition draw_run :: "ssm_op list" where
  "draw_run = commit_ready_run @
     [OpWillCommit False, OpNotifyReadyToActivate, OpWillActivate, OpWillAnimate,
      OpOnBeginImplFrameDeadlinePending, OpOnBeginImplFrameDeadline, OpWillDraw True,
      OpDidSwapBuffers, OpDidDrawIfPossibleCompleted DRAW_SUCCESS, OpOnBeginImplFrameIdle]"

theorem swap_once_per_deadline_witness:
  "length (filter (\<lambda>x. x = OpWillDraw True) draw_run) \<le>
   length (filter (\<lambda>x. x = OpOnBeginImplFrameDeadline) draw_run) +
   (if request_swap_funnel (SchedulerStateMachine SchedulerSettings) then 0 else 1)"
  by (rule swap_once_per_deadline) code_simp

text \<open>[C37] A lost output surface is replaced. In every reachable state of the sequential pipeline, without the synchronous
  compositor, that is visible, between frames and without an output surface, the state machine on its own
  takes at most five actions, each of which commits, activates or gives up a draw; then it asks for a new output
  surface, unless the main thread still owes the reply to a BeginMainFrame: then it asks for nothing, and
  this is the only reason.\<close>

theorem lost_surface_recreated:
  assumes "reachable_ssm se s" and "sequential_settings se"
    and "\<not> using_synchronous_renderer_compositor se" and "surface_lost s"
  shows "\<exists>n \<le> 5. (\<forall>k < n. NextAction ((act_alone ^^ k) s) \<in> flush_actions) \<and>
    NextAction ((act_alone ^^ n) s) = (if reply_awaited s then ACTION_NONE else ACTION_BEGIN_OUTPUT_SURFACE_CREATION)"
proof -
  have "pending_tree_inv s" using reachable_ssm_inv [OF assms(1,2)] by (simp add: ssm_inv_def)
  then have "unflushed s \<le> 5" by (auto simp: unflushed_def pending_tree_inv_def)
  then show ?thesis using surface_lost_flushes [OF assms(2,3,1,4)] by (meson order.trans)
qed

definition lost_surface_run :: "ssm_op list" where
  "lost_surface_run =
     [OpSetVisible True, OpSetCanDraw True, OpWillBeginOutputSurfaceCreation,
      OpDidCreateAndInitializeOutputSurface, OpSetNeedsBeginMainFrame,
      OpOnBeginImplFrame, OpWillSendBeginMainFrame, OpDidLoseOutputSurface,
      OpOnBeginImplFrameDeadlinePending, OpOnBeginImplFrameDeadline, OpOnBeginImplFrameIdle,
      OpNotifyBeginMainFrameStarted, OpNotifyReadyToCommit]"

text \<open>The surface is lost while the main thread prepares a commit: the state machine commits, activates, gives up the
  draw and asks for a surface.\<close>

theorem lost_surface_recreated_witness:
  "\<exists>n \<le> 5. NextAction ((act_alone ^^ n) (fold exec_op lost_surface_run (SchedulerStateMachine SchedulerSettings))) =
     ACTION_BEGIN_OUTPUT_SURFACE_CREATION"
proof -
  let ?s = "fold exec_op lost_surface_run (SchedulerStateMachine SchedulerSettings)"
  have "reachable_ssm SchedulerSettings ?s" by (rule run_reachable [OF reachable_ssm.start]) code_simp
  moreover have "sequential_settings SchedulerSettings" "\<not> using_synchronous_renderer_compositor SchedulerSettings"
    "surface_lost ?s" "\<not> reply_awaited ?s" by code_simp+
  ultimately show ?thesis using lost_surface_recreated [of SchedulerSettings ?s] by auto
qed

definition early_abort_run :: "ssm_op list" where
  "early_abort_run =
     [OpSetVisible True, OpSetCanDraw True, OpWillBeginOutputSurfaceCreation,
      OpDidCreateAndInitializeOutputSurface, OpSetNeedsBeginMainFrame,
      OpOnBeginImplFrame, OpWillSendBeginMainFrame, OpNotifyBeginMainFrameStarted,
      OpNotifyReadyToCommit, OpWillCommit False,
      OpOnBeginImplFrameDeadlinePending, OpOnBeginImplFrameDeadline, OpOnBeginImplFrameIdle,
      OpSetNeedsBeginMainFrame, OpOnBeginImplFrame, OpWillSendBeginMainFrame,
      OpNotifyBeginMainFrameStarted]"

text \<open>[C39] With \<open>main_frame_before_activation_enabled\<close> the protocol reaches a state where an
  aborted main frame without updates fails the assertion on the output surface state in
  \<open>WillCommit\<close>, and in a release build forgets the pending tree that waits for
  activation.\<close>

theorem early_abort_drops_pending_tree:
  "\<exists>s. reachable_ssm (SchedulerSettings\<lparr>main_frame_before_activation_enabled := True\<rparr>) s \<and>
       permitted s (OpBeginMainFrameAborted FINISHED_NO_UPDATES) \<and>
       \<not> op_dcheck (OpBeginMainFrameAborted FINISHED_NO_UPDATES) s \<and>
       has_pending_tree s \<and>
       \<not> has_pending_tree (BeginMainFrameAborted FINISHED_NO_UPDATES s)"
proof (intro exI conjI)
  let ?se = "SchedulerSettings\<lparr>main_frame_before_activation_enabled := True\<rparr>"
  let ?s = "fold exec_op early_abort_run (SchedulerStateMachine ?se)"
  show "reachable_ssm ?se ?s"
    by (rule run_reachable [OF reachable_ssm.start]) code_simp
  show "permitted ?s (OpBeginMainFrameAborted FINISHED_NO_UPDATES)" by code_simp
  show "\<not> op_dcheck (OpBeginMainFrameAborted FINISHED_NO_UPDATES) ?s" by code_simp
  show "has_pending_tree ?s" by code_simp
  show "\<not> has_pending_tree (BeginMainFrameAborted FINISHED_NO_UPDATES ?s)" by code_simp
qed

end
