(* ===== verification/Begin_Frame.thy ===== *)
theory Begin_Frame
  imports Prelude
begin

text \<open>
  Where BeginFrame messages come from: \<open>BeginFrameArgs\<close>
  (\<^verbatim>\<open>cc/output/begin_frame_args.{h,cc}\<close>), \<open>BeginFrameTracker\<close>
  (\<^verbatim>\<open>cc/scheduler/begin_frame_tracker.{h,cc}\<close>), \<open>DelayBasedTimeSource\<close>
  (\<^verbatim>\<open>cc/scheduler/delay_based_time_source.cc\<close>) and the frame sources of
  \<^verbatim>\<open>cc/scheduler/begin_frame_source.{h,cc}\<close>. A \<open>base::TimeTicks\<close> or
  \<open>base::TimeDelta\<close> is its number of microseconds, the null time is \<open>0\<close>; the saturation of
  \<open>base::Time\<close> arithmetic at the ends of the 64-bit range is not modelled. A reading of
  the clock is an argument \<open>now\<close>. What an object posts to its task runner or delivers to its
  observer is part of the result.
\<close>

section \<open>BeginFrameArgs\<close>

datatype begin_frame_args_type = INVALID | NORMAL | MISSED | BEGIN_FRAME_ARGS_TYPE_MAX

record begin_frame_args =
  frame_time :: int
  deadline :: int
  interval :: int
  args_type :: begin_frame_args_type
  on_critical_path :: bool

fun TypeToString :: "begin_frame_args_type \<Rightarrow> string" where
  "TypeToString INVALID = ''INVALID''"
| "TypeToString NORMAL = ''NORMAL''"
| "TypeToString MISSED = ''MISSED''"
| "TypeToString BEGIN_FRAME_ARGS_TYPE_MAX = ''BEGIN_FRAME_ARGS_TYPE_MAX''"

definition BeginFrameArgs :: begin_frame_args where
  "BeginFrameArgs =
     \<lparr>frame_time = 0, deadline = 0, interval = -1, args_type = INVALID,
      on_critical_path = True\<rparr>"

definition BeginFrameArgs_Create ::
    "int \<Rightarrow> int \<Rightarrow> int \<Rightarrow> begin_frame_args_type \<Rightarrow> begin_frame_args" where
  "BeginFrameArgs_Create ft dl iv ty =
     \<lparr>frame_time = ft, deadline = dl, interval = iv, args_type = ty, on_critical_path = True\<rparr>"

definition DefaultEstimatedParentDrawTime :: int where
  "DefaultEstimatedParentDrawTime = cdiv 16666 3"

definition DefaultInterval :: int where
  "DefaultInterval = 16666"

definition IsValid :: "begin_frame_args \<Rightarrow> bool" where
  "IsValid a \<longleftrightarrow> interval a \<ge> 0"

section \<open>BeginFrameTracker\<close>

record begin_frame_tracker =
  current_updated_at :: int
  current_args :: begin_frame_args
  current_finished_at :: int

definition BeginFrameTracker :: begin_frame_tracker where
  "BeginFrameTracker =
     \<lparr>current_updated_at = 0, current_args = BeginFrameArgs, current_finished_at = -1\<rparr>"

definition HasFinished :: "begin_frame_tracker \<Rightarrow> bool" where
  "HasFinished t \<longleftrightarrow> current_finished_at t \<noteq> 0"

definition Tracker_Start :: "int \<Rightarrow> begin_frame_args \<Rightarrow> begin_frame_tracker \<Rightarrow> begin_frame_tracker" where
  "Tracker_Start now new_args t =
     t\<lparr>current_updated_at := now, current_args := new_args, current_finished_at := 0\<rparr>"

definition Tracker_Start_dcheck :: "begin_frame_args \<Rightarrow> begin_frame_tracker \<Rightarrow> bool" where
  "Tracker_Start_dcheck new_args t \<longleftrightarrow>
     IsValid new_args \<and> frame_time (current_args t) \<le> frame_time new_args \<and> HasFinished t"

definition Tracker_Finish :: "int \<Rightarrow> begin_frame_tracker \<Rightarrow> begin_frame_tracker" where
  "Tracker_Finish now t = t\<lparr>current_finished_at := now\<rparr>"

text \<open>\<open>Current\<close> and \<open>Last\<close> return the same member; they differ in what they assert.\<close>

definition Tracker_Current :: "begin_frame_tracker \<Rightarrow> begin_frame_args" where
  "Tracker_Current t = current_args t"

definition Tracker_Current_dcheck :: "begin_frame_tracker \<Rightarrow> bool" where
  "Tracker_Current_dcheck t \<longleftrightarrow> \<not> HasFinished t \<and> IsValid (current_args t)"

definition Tracker_Last :: "begin_frame_tracker \<Rightarrow> begin_frame_args" where
  "Tracker_Last t = current_args t"

definition Tracker_Last_dcheck :: "begin_frame_tracker \<Rightarrow> bool" where
  "Tracker_Last_dcheck t \<longleftrightarrow> IsValid (current_args t) \<and> HasFinished t"

definition Tracker_Interval :: "begin_frame_tracker \<Rightarrow> int" where
  "Tracker_Interval t =
     (let iv = interval (current_args t) in if iv < 1000 then DefaultInterval else iv)"

definition DangerousMethodCurrentOrLast :: "begin_frame_tracker \<Rightarrow> begin_frame_args" where
  "DangerousMethodCurrentOrLast t =
     (if \<not> HasFinished t then Tracker_Current t else Tracker_Last t)"

section \<open>DelayBasedTimeSource\<close>

text \<open>\<open>base::TimeTicks::SnappedToNextTick\<close>; \<open>%\<close> has the sign of its left operand.\<close>

definition SnappedToNextTick :: "int \<Rightarrow> int \<Rightarrow> int \<Rightarrow> int" where
  "SnappedToNextTick this tick_phase tick_interval =
     (let interval_offset = cmod (tick_phase - this) tick_interval;
          interval_offset =
            (if interval_offset \<noteq> 0 \<and> tick_phase < this
             then interval_offset + tick_interval else interval_offset)
      in this + interval_offset)"

definition kDoubleTickDivisor :: int where
  "kDoubleTickDivisor = 2"

text \<open>
  \<open>tick_task\<close> is the tick closure with the time its posted task is due (\<open>None\<close> when
  cancelled): resetting the closure cancels the earlier task.
\<close>

record time_source =
  ts_active :: bool
  ts_timebase :: int
  ts_interval :: int
  last_tick_time :: int
  next_tick_time :: int
  tick_task :: "int option"

definition DelayBasedTimeSource :: "int \<Rightarrow> time_source" where
  "DelayBasedTimeSource iv =
     \<lparr>ts_active = False, ts_timebase = 0, ts_interval = iv, last_tick_time = 0 - iv,
      next_tick_time = 0, tick_task = None\<rparr>"

definition NextTickTarget :: "int \<Rightarrow> time_source \<Rightarrow> int" where
  "NextTickTarget now t =
     (let next_tick_target = SnappedToNextTick now (ts_timebase t) (ts_interval t)
      in if next_tick_target - last_tick_time t \<le> cdiv (ts_interval t) kDoubleTickDivisor
         then next_tick_target + ts_interval t
         else next_tick_target)"

text \<open>\<open>PostDelayedTask\<close> with \<open>next_tick_time_ - now\<close> makes the task due at \<open>next_tick_time_\<close>.\<close>

definition PostNextTickTask :: "int \<Rightarrow> time_source \<Rightarrow> time_source" where
  "PostNextTickTask now t =
     (let t = t\<lparr>next_tick_time := NextTickTarget now t\<rparr>;
          delay = next_tick_time t - now
      in t\<lparr>tick_task := Some (now + delay)\<rparr>)"

definition ResetTickTask :: "int \<Rightarrow> time_source \<Rightarrow> time_source" where
  "ResetTickTask now t = PostNextTickTask now (t\<lparr>tick_task := None\<rparr>)"

text \<open>The second component is the returned time of a missed tick, \<open>0\<close> for none.\<close>

definition SetActive :: "int \<Rightarrow> bool \<Rightarrow> time_source \<Rightarrow> time_source \<times> int" where
  "SetActive now active t =
     (if active = ts_active t then (t, 0)
      else
        (let t = t\<lparr>ts_active := active\<rparr>
         in if \<not> ts_active t then (t\<lparr>next_tick_time := 0, tick_task := None\<rparr>, 0)
            else
              (let t = ResetTickTask now t;
                   last_tick_time_if_always_active = next_tick_time t - ts_interval t;
                   last_tick_time_threshold =
                     last_tick_time t + cdiv (ts_interval t) kDoubleTickDivisor
               in if last_tick_time_if_always_active > last_tick_time_threshold
                  then (t\<lparr>last_tick_time := last_tick_time_if_always_active\<rparr>,
                        last_tick_time_if_always_active)
                  else (t, 0))))"

text \<open>The client's \<open>OnTimerTick\<close> runs after the new task is posted.\<close>

definition OnTimerTick :: "int \<Rightarrow> time_source \<Rightarrow> time_source" where
  "OnTimerTick now t = PostNextTickTask now (t\<lparr>last_tick_time := next_tick_time t\<rparr>)"

text \<open>
  The thresholds of \<open>SetTimebaseAndInterval\<close> compare ratios of \<open>double\<close>s with \<open>0.25\<close> and
  \<open>0.75\<close>; here they are compared exactly, over the integers:
  \<open>\<bar>d\<bar> / interval > 1 / 4\<close> is \<open>4 * \<bar>d\<bar> > interval\<close>.
\<close>

definition SetTimebaseAndInterval :: "int \<Rightarrow> int \<Rightarrow> int \<Rightarrow> time_source \<Rightarrow> time_source" where
  "SetTimebaseAndInterval now timebase iv t =
     (let interval_delta = \<bar>iv - ts_interval t\<bar>;
          timebase_delta = \<bar>timebase - next_tick_time t\<bar>;
          t = t\<lparr>ts_interval := iv, ts_timebase := timebase\<rparr>
      in if \<not> ts_active t then t
         else if 4 * interval_delta > iv then ResetTickTask now t
         else
           (let phase = timebase_delta mod iv
            in if 4 * phase > iv \<and> 4 * phase < 3 * iv then ResetTickTask now t else t))"

subsection \<open>Ticks are in phase and never double\<close>

lemma cmod_bounds:
  assumes "0 < b"
  shows "0 \<le> a \<Longrightarrow> cmod a b = a mod b" and "a \<le> 0 \<Longrightarrow> cmod a b = - ((- a) mod b)"
proof -
  show "cmod a b = a mod b" if "0 \<le> a"
    using that by (simp add: cmod_def minus_mult_div_eq_mod)
  have "a + b * (- a div b) = - (- a - b * (- a div b))" by simp
  also have "\<dots> = - (- a mod b)" by (simp only: minus_mult_div_eq_mod)
  finally show "cmod a b = - (- a mod b)" if "a \<le> 0"
    using that by (auto simp: cmod_def cdiv_def)
qed

lemma SnappedToNextTick_cases:
  assumes "0 < iv"
  shows "SnappedToNextTick now ph iv =
     (if now \<le> ph then now + (ph - now) mod iv
      else if (now - ph) mod iv = 0 then now else now + iv - (now - ph) mod iv)"
  using assms by (auto simp: SnappedToNextTick_def cmod_bounds Let_def)

lemma SnappedToNextTick_spec:
  assumes "0 < iv"
  shows "now \<le> SnappedToNextTick now ph iv" and "SnappedToNextTick now ph iv < now + iv"
    and "iv dvd SnappedToNextTick now ph iv - ph"
proof -
  have m: "0 \<le> (now - ph) mod iv" "(now - ph) mod iv < iv"
    "0 \<le> (ph - now) mod iv" "(ph - now) mod iv < iv"
    using assms by simp_all
  then show "now \<le> SnappedToNextTick now ph iv" "SnappedToNextTick now ph iv < now + iv"
    unfolding SnappedToNextTick_cases [OF assms] by (simp_all only: split: if_split) linarith+
  have "iv dvd - ((ph - now) - (ph - now) mod iv)"
    by (simp only: dvd_minus_iff dvd_minus_mod)
  then have ahead: "iv dvd now + (ph - now) mod iv - ph" by (simp add: algebra_simps)
  have "iv dvd iv + ((now - ph) - (now - ph) mod iv)"
    by (intro dvd_add dvd_refl dvd_minus_mod)
  then have behind: "iv dvd now + iv - (now - ph) mod iv - ph" by (simp add: algebra_simps)
  have on: "iv dvd now - ph" if "(now - ph) mod iv = 0"
    using that by (rule mod_0_imp_dvd)
  show "iv dvd SnappedToNextTick now ph iv - ph"
    unfolding SnappedToNextTick_cases [OF assms] using ahead behind on by (simp only: split: if_split)
      blast
qed

lemma NextTickTarget_spec:
  assumes iv: "0 < ts_interval t"
  shows "now \<le> NextTickTarget now t" and "NextTickTarget now t < now + 2 * ts_interval t"
    and "ts_interval t dvd NextTickTarget now t - ts_timebase t"
    and "2 * (last_tick_time t - now) < ts_interval t \<Longrightarrow> ts_interval t div 2 < NextTickTarget now t - last_tick_time t"
proof -
  let ?s = "SnappedToNextTick now (ts_timebase t) (ts_interval t)"
  note s = SnappedToNextTick_spec [OF iv, of now "ts_timebase t"]
  have t: "NextTickTarget now t =
      (if ?s - last_tick_time t \<le> ts_interval t div 2 then ?s + ts_interval t else ?s)"
    using iv by (simp add: NextTickTarget_def kDoubleTickDivisor_def Let_def)
  show "now \<le> NextTickTarget now t" "NextTickTarget now t < now + 2 * ts_interval t"
    using s iv by (simp_all add: t)
  have "ts_interval t dvd ?s - ts_timebase t + ts_interval t"
    using s(3) by simp
  then show "ts_interval t dvd NextTickTarget now t - ts_timebase t"
    using s(3) by (simp add: t algebra_simps)
  show "ts_interval t div 2 < NextTickTarget now t - last_tick_time t"
    if "2 * (last_tick_time t - now) < ts_interval t"
    using s iv that by (simp add: t) linarith
qed

text \<open>
  A run of a time source over a clock that never goes back: activation and deactivation, the
  posted task, and a new timebase and interval. The intervals are at least \<open>m\<close>. The task runner rounds the delay of
  a task down to milliseconds, so a task may run early: by at most \<open>slack\<close>, which is less than half of \<open>m\<close>; it may
  run as late as it likes. The list holds the ticks reported to the client so far, newest first; a
  missed tick is reported by the return value of \<open>SetActive\<close>.
\<close>

inductive ts_reach :: "int \<Rightarrow> int \<Rightarrow> int \<Rightarrow> time_source \<Rightarrow> int list \<Rightarrow> bool" for m slack :: int where
  ts_start: "0 \<le> slack \<Longrightarrow> 2 * slack < m \<Longrightarrow> m \<le> iv \<Longrightarrow> ts_reach m slack 0 (DelayBasedTimeSource iv) []"
| ts_active: "ts_reach m slack n t ks \<Longrightarrow> n \<le> now \<Longrightarrow> SetActive now a t = (t', k) \<Longrightarrow>
    ts_reach m slack now t' (if k \<noteq> 0 then k # ks else ks)"
| ts_tick: "ts_reach m slack n t ks \<Longrightarrow> n \<le> now \<Longrightarrow> tick_task t = Some d \<Longrightarrow> d \<le> now + slack \<Longrightarrow>
    ts_reach m slack now (OnTimerTick now t) (next_tick_time t # ks)"
| ts_timebase: "ts_reach m slack n t ks \<Longrightarrow> n \<le> now \<Longrightarrow> m \<le> iv \<Longrightarrow>
    ts_reach m slack now (SetTimebaseAndInterval now tb iv t) ks"

text \<open>What every operation keeps: a posted task exactly while active, due at the next tick.\<close>

definition time_source_inv :: "int \<Rightarrow> int \<Rightarrow> int \<Rightarrow> time_source \<Rightarrow> bool" where
  "time_source_inv m slack now t \<longleftrightarrow>
     0 \<le> slack \<and> 2 * slack < m \<and> m \<le> ts_interval t \<and> last_tick_time t \<le> now + slack \<and>
     tick_task t = (if ts_active t then Some (next_tick_time t) else None) \<and>
     (ts_active t \<longrightarrow> m div 2 < next_tick_time t - last_tick_time t)"

lemma time_source_inv_later:
  "time_source_inv m slack n t \<Longrightarrow> n \<le> now \<Longrightarrow> time_source_inv m slack now t"
  by (auto simp: time_source_inv_def)

lemma time_source_inv_interval:
  "time_source_inv m slack now t \<Longrightarrow> 0 < m \<and> 0 < ts_interval t \<and> m div 2 \<le> ts_interval t div 2"
  by (simp add: time_source_inv_def zdiv_mono1)

lemma time_source_inv_start:
  "0 \<le> slack \<Longrightarrow> 2 * slack < m \<Longrightarrow> m \<le> iv \<Longrightarrow> time_source_inv m slack 0 (DelayBasedTimeSource iv)"
  by (simp add: time_source_inv_def DelayBasedTimeSource_def)

lemma PostNextTickTask_fields [simp]:
  "ts_active (PostNextTickTask now t) = ts_active t"
  "ts_interval (PostNextTickTask now t) = ts_interval t"
  "ts_timebase (PostNextTickTask now t) = ts_timebase t"
  "last_tick_time (PostNextTickTask now t) = last_tick_time t"
  "next_tick_time (PostNextTickTask now t) = NextTickTarget now t"
  "tick_task (PostNextTickTask now t) = Some (NextTickTarget now t)"
  by (simp_all add: PostNextTickTask_def Let_def)

lemma NextTickTarget_tick_task [simp]:
  "NextTickTarget now (t\<lparr>tick_task := x\<rparr>) = NextTickTarget now t"
  by (simp add: NextTickTarget_def Let_def)

lemma PostNextTickTask_inv:
  assumes "0 \<le> slack" and "2 * slack < m" and "m \<le> ts_interval t" and "last_tick_time t \<le> now + slack" and "ts_active t"
  shows "time_source_inv m slack now (PostNextTickTask now t)"
proof -
  have "0 < ts_interval t" "2 * (last_tick_time t - now) < ts_interval t" using assms(1-4) by simp_all
  from NextTickTarget_spec(4) [OF this]
  have "m div 2 < NextTickTarget now t - last_tick_time t" using zdiv_mono1 [OF assms(3), of 2] by simp
  then show ?thesis using assms by (simp add: time_source_inv_def)
qed

lemma ResetTickTask_inv:
  assumes "0 \<le> slack" and "2 * slack < m" and "m \<le> ts_interval t" and "last_tick_time t \<le> now + slack" and "ts_active t"
  shows "time_source_inv m slack now (ResetTickTask now t)"
  unfolding ResetTickTask_def by (rule PostNextTickTask_inv) (use assms in simp_all)

lemma OnTimerTick_inv:
  assumes inv: "time_source_inv m slack n t" and task: "tick_task t = Some d" and due: "d \<le> now + slack"
  shows "time_source_inv m slack now (OnTimerTick now t)"
  unfolding OnTimerTick_def
  by (rule PostNextTickTask_inv) (use assms in \<open>auto simp: time_source_inv_def split: if_splits\<close>)

text \<open>
  The missed tick: it lies on the tick grid, in the past but less than an interval ago, and
  more than half an interval after the last tick.
\<close>

lemma SetActive_missed:
  assumes iv: "0 < ts_interval t" and call: "SetActive now a t = (t', k)" and missed: "k \<noteq> 0"
  shows "a" and "\<not> ts_active t" and "now - ts_interval t \<le> k" and "k < now"
    and "last_tick_time t + ts_interval t div 2 < k"
    and "k = next_tick_time t' - ts_interval t" and "last_tick_time t' = k"
proof -
  let ?s = "SnappedToNextTick now (ts_timebase t) (ts_interval t)"
  note s = SnappedToNextTick_spec [OF iv, of now "ts_timebase t"]
  from call missed show "a" and "\<not> ts_active t"
    by (auto simp: SetActive_def Let_def split: if_splits)
  then have *: "k = NextTickTarget now t - ts_interval t"
    "last_tick_time t + ts_interval t div 2 < k" "next_tick_time t' = NextTickTarget now t"
    "last_tick_time t' = k"
    using call missed iv
    by (auto simp: SetActive_def Let_def ResetTickTask_def kDoubleTickDivisor_def
        NextTickTarget_def split: if_splits)
  then show "last_tick_time t + ts_interval t div 2 < k"
    "k = next_tick_time t' - ts_interval t" "last_tick_time t' = k" by simp_all
  have "NextTickTarget now t = ?s"
    using *(1,2) iv by (auto simp: NextTickTarget_def kDoubleTickDivisor_def Let_def)
  then show "now - ts_interval t \<le> k" "k < now" using * s(1,2) by simp_all
qed

lemma SetActive_interval [simp]: "ts_interval (fst (SetActive now a t)) = ts_interval t"
  by (auto simp: SetActive_def ResetTickTask_def Let_def)

lemma SetActive_not_missed:
  "SetActive now a t = (t', 0) \<Longrightarrow> last_tick_time t' = last_tick_time t \<or> last_tick_time t' = 0"
  by (auto simp: SetActive_def Let_def ResetTickTask_def split: if_splits)

lemma SetActive_inv:
  assumes inv: "time_source_inv m slack now t"
  shows "time_source_inv m slack now (fst (SetActive now a t))" (is ?inv)
    and "last_tick_time t \<le> last_tick_time (fst (SetActive now a t))" (is ?mono)
proof -
  have iv: "0 < ts_interval t" and half: "0 \<le> ts_interval t div 2" "m div 2 < ts_interval t"
    using time_source_inv_interval [OF inv] by auto
  have slack: "0 \<le> slack" using inv by (simp add: time_source_inv_def)
  define t1 where "t1 = t\<lparr>ts_active := True\<rparr>"
  have inv1: "time_source_inv m slack now (ResetTickTask now t1)"
    by (rule ResetTickTask_inv) (use inv in \<open>auto simp: t1_def time_source_inv_def\<close>)
  note spec = SnappedToNextTick_spec [OF iv, of now "ts_timebase t"]
  have missed_past: "next_tick_time (ResetTickTask now t1) - ts_interval t < now"
    if "last_tick_time t + ts_interval t div 2 < next_tick_time (ResetTickTask now t1) - ts_interval t"
    using that spec iv
    by (auto simp: t1_def ResetTickTask_def NextTickTarget_def kDoubleTickDivisor_def Let_def
        split: if_splits)
  show ?inv
  proof (cases "a = ts_active t \<or> \<not> a")
    case True
    then show ?thesis using inv by (auto simp: SetActive_def time_source_inv_def Let_def)
  next
    case False
    then show ?thesis
      using inv1 missed_past iv half slack unfolding t1_def
      by (auto simp: SetActive_def Let_def time_source_inv_def ResetTickTask_def kDoubleTickDivisor_def)
  qed
  show ?mono
    using iv half by (auto simp: SetActive_def Let_def ResetTickTask_def kDoubleTickDivisor_def)
qed

lemma SetTimebaseAndInterval_inv:
  assumes inv: "time_source_inv m slack now t" and iv: "m \<le> iv"
  shows "time_source_inv m slack now (SetTimebaseAndInterval now tb iv t)"
    and "last_tick_time (SetTimebaseAndInterval now tb iv t) = last_tick_time t"
proof -
  have reset: "time_source_inv m slack now (ResetTickTask now (t\<lparr>ts_interval := iv, ts_timebase := tb\<rparr>))"
    if "ts_active t"
    by (rule ResetTickTask_inv) (use inv iv that in \<open>simp_all add: time_source_inv_def\<close>)
  have keep: "time_source_inv m slack now (t\<lparr>ts_interval := iv, ts_timebase := tb\<rparr>)"
    using inv iv by (auto simp: time_source_inv_def)
  show "time_source_inv m slack now (SetTimebaseAndInterval now tb iv t)"
    using reset keep by (auto simp: SetTimebaseAndInterval_def Let_def)
qed (auto simp: SetTimebaseAndInterval_def Let_def ResetTickTask_def)

lemma ts_reach_inv:
  assumes "ts_reach m slack now t ks"
  shows "time_source_inv m slack now t \<and>
         (\<forall>k\<in>set ks. k \<le> last_tick_time t) \<and>
         sorted_wrt (\<lambda>later earlier. m div 2 < later - earlier) ks"
  using assms
proof induction
  case (ts_start iv)
  then show ?case by (simp add: time_source_inv_start)
next
  case (ts_active n t ks now a t' k)
  have inv: "time_source_inv m slack now t" using ts_active time_source_inv_later by blast
  note iv = time_source_inv_interval [OF inv]
  have t': "t' = fst (SetActive now a t)" using ts_active.hyps by simp
  note SetActive_inv [OF inv, of a, folded t']
  moreover have "last_tick_time t + m div 2 < k" "last_tick_time t' = k" if "k \<noteq> 0"
    using SetActive_missed(5,7) [OF _ ts_active.hyps(3) that] iv by simp_all
  ultimately show ?case using ts_active.IH by (cases "k = 0") (simp, blast intro: order.trans, fastforce)
next
  case (ts_tick n t ks now d)
  have inv: "time_source_inv m slack now t" using ts_tick time_source_inv_later by blast
  have act: "ts_active t" using inv ts_tick.hyps by (auto simp: time_source_inv_def split: if_splits)
  then have gap: "m div 2 < next_tick_time t - last_tick_time t"
    using inv by (simp add: time_source_inv_def)
  have pos: "0 \<le> m div 2" using time_source_inv_interval [OF inv] by simp
  have "time_source_inv m slack now (OnTimerTick now t)"
    using OnTimerTick_inv [OF inv] ts_tick.hyps by blast
  then show ?case using ts_tick.IH gap pos by (fastforce simp: OnTimerTick_def)
next
  case (ts_timebase n t ks now iv tb)
  have inv: "time_source_inv m slack now t" using ts_timebase time_source_inv_later by blast
  then show ?case using SetTimebaseAndInterval_inv [OF inv ts_timebase.hyps(3)] ts_timebase.IH by simp
qed

text \<open>[C36]
  Over every run of the time source (activated and deactivated at any moment, its timebase moved at will, its interval
  changed within bounds, its task run late, or early by less than half of the least interval), any
  two ticks it reports are more than half of the least interval apart, in order: a tick is never doubled when the source
  is toggled, its phase or interval changes, or its task runs early. A tick carries a time at most \<open>slack\<close> ahead
  of the clock; while the source is active its one task is posted for the next tick, which is also more than half of the
  least interval after the last.
\<close>

theorem ticks_never_double:
  assumes "ts_reach m slack now t ks"
  shows "sorted_wrt (\<lambda>later earlier. m div 2 < later - earlier) ks \<and> (\<forall>k\<in>set ks. k \<le> now + slack) \<and>
    (if ts_active t then tick_task t = Some (next_tick_time t) \<and> (\<forall>k\<in>set ks. m div 2 < next_tick_time t - k)
     else tick_task t = None)"
proof -
  have inv: "time_source_inv m slack now t" "\<forall>k\<in>set ks. k \<le> last_tick_time t"
    "sorted_wrt (\<lambda>later earlier. m div 2 < later - earlier) ks"
    using ts_reach_inv [OF assms] by auto
  then show ?thesis by (fastforce simp: time_source_inv_def)
qed

text \<open>[C36] witness: activate, tick early, deactivate, and activate again, which reports a missed tick.\<close>

lemma ticks_never_double_witness:
  "\<exists>t. ts_reach 16 2 75 t [64, 32, 16] \<and>
       sorted_wrt (\<lambda>later earlier. (16::int) div 2 < later - earlier) [64, 32, 16] \<and>
       (\<forall>k\<in>set [64, 32, 16::int]. k \<le> 75 + 2)"
proof -
  define t0 where "t0 = DelayBasedTimeSource 16"
  define t1 where "t1 = fst (SetActive 20 True t0)"
  define t2 where "t2 = OnTimerTick 30 t1"
  define t3 where "t3 = fst (SetActive 40 False t2)"
  define t4 where "t4 = fst (SetActive 75 True t3)"
  note ds = t0_def t1_def t2_def t3_def t4_def
  have e1: "SetActive 20 True t0 = (t1, 16)" unfolding ds by code_simp
  have r1: "ts_reach 16 2 20 t1 [16]"
    using ts_active [OF ts_start _ e1 [unfolded t0_def]] by simp
  have k1: "tick_task t1 = Some 32" "next_tick_time t1 = 32" unfolding ds by code_simp+
  have r2: "ts_reach 16 2 30 t2 [32, 16]"
    using ts_tick [OF r1 _ k1(1), of 30] k1(2) unfolding t2_def by simp
  have e3: "SetActive 40 False t2 = (t3, 0)" unfolding ds by code_simp
  have r3: "ts_reach 16 2 40 t3 [32, 16]" using ts_active [OF r2 _ e3] by simp
  have e4: "SetActive 75 True t3 = (t4, 64)" unfolding ds by code_simp
  have r4: "ts_reach 16 2 75 t4 [64, 32, 16]" using ts_active [OF r3 _ e4] by simp
  show ?thesis using r4 ticks_never_double [OF r4] by blast
qed

end
