(* ===== verification/Begin_Frame_Sources.thy ===== *)
theory Begin_Frame_Sources
  imports Begin_Frame
begin

text \<open>
  The frame sources of \<^verbatim>\<open>cc/scheduler/begin_frame_source.{h,cc}\<close>: the observer and source
  base classes, \<open>BackToBackBeginFrameSource\<close>, \<open>SyntheticBeginFrameSource\<close> and the
  \<open>BeginFrameSourceMultiplexer\<close> that switches between them. A class that extends
  \<open>BeginFrameSourceBase\<close> is a record that extends \<open>source_base\<close>; a pointer to a source is an
  index into the table of source objects. An operation of a source returns, beside the
  source, the arguments it passes to \<open>CallOnBeginFrame\<close> as its last step. Whether the observer uses
  a frame (\<open>OnBeginFrameDerivedImpl\<close>) is a parameter \<open>used\<close>; calls the observer makes back into its
  source while it handles a frame are left to the model of the scheduler.
\<close>

section \<open>BeginFrameObserverBase and BeginFrameSourceBase\<close>

record observer_base =
  last_begin_frame_args :: begin_frame_args
  dropped_begin_frame_args :: int

definition BeginFrameObserverBase :: observer_base where
  "BeginFrameObserverBase =
     \<lparr>last_begin_frame_args = BeginFrameArgs, dropped_begin_frame_args = 0\<rparr>"

definition Observer_OnBeginFrame ::
    "(observer_base \<Rightarrow> begin_frame_args \<Rightarrow> bool) \<Rightarrow> begin_frame_args \<Rightarrow> observer_base \<Rightarrow> observer_base"
  where
  "Observer_OnBeginFrame used args obs =
     (if used obs args then obs\<lparr>last_begin_frame_args := args\<rparr>
      else obs\<lparr>dropped_begin_frame_args := dropped_begin_frame_args obs + 1\<rparr>)"

datatype observer_ptr = ObsMultiplexer | ObsClient

record source_base =
  src_observer :: "observer_ptr option"
  src_needs :: bool

definition AddObserver :: "observer_ptr \<Rightarrow> 'a source_base_scheme \<Rightarrow> 'a source_base_scheme" where
  "AddObserver obs s = s\<lparr>src_observer := Some obs\<rparr>"

definition RemoveObserver :: "observer_ptr \<Rightarrow> 'a source_base_scheme \<Rightarrow> 'a source_base_scheme" where
  "RemoveObserver obs s = s\<lparr>src_observer := None\<rparr>"

definition RemoveObserver_dcheck :: "observer_ptr \<Rightarrow> 'a source_base_scheme \<Rightarrow> bool" where
  "RemoveObserver_dcheck obs s \<longleftrightarrow> src_observer s = Some obs"

section \<open>BackToBackBeginFrameSource\<close>

text \<open>\<open>posted_tasks\<close> counts the \<open>BeginFrame\<close> tasks on the task runner.\<close>

record back_to_back = source_base +
  send_begin_frame_posted :: bool
  posted_tasks :: nat

definition BackToBackBeginFrameSource :: back_to_back where
  "BackToBackBeginFrameSource =
     \<lparr>src_observer = None, src_needs = False, send_begin_frame_posted = False, posted_tasks = 0\<rparr>"

definition BackToBack_OnNeedsBeginFramesChange :: "bool \<Rightarrow> back_to_back \<Rightarrow> back_to_back" where
  "BackToBack_OnNeedsBeginFramesChange needs_begin_frames s =
     (if \<not> needs_begin_frames then s
      else if send_begin_frame_posted s then s
      else s\<lparr>send_begin_frame_posted := True, posted_tasks := posted_tasks s + 1\<rparr>)"

definition BackToBack_BeginFrame :: "int \<Rightarrow> back_to_back \<Rightarrow> back_to_back \<times> begin_frame_args option" where
  "BackToBack_BeginFrame now s =
     (let s = s\<lparr>send_begin_frame_posted := False, posted_tasks := posted_tasks s - 1\<rparr>
      in if \<not> src_needs s then (s, None)
         else (s, Some (BeginFrameArgs_Create now (now + DefaultInterval) DefaultInterval NORMAL)))"

definition BackToBack_DidFinishFrame :: "nat \<Rightarrow> back_to_back \<Rightarrow> back_to_back" where
  "BackToBack_DidFinishFrame remaining_frames s =
     (if remaining_frames = 0 then BackToBack_OnNeedsBeginFramesChange (src_needs s) s else s)"

section \<open>SyntheticBeginFrameSource\<close>

record synthetic = source_base +
  src_time_source :: time_source

definition SyntheticBeginFrameSource :: "int \<Rightarrow> synthetic" where
  "SyntheticBeginFrameSource initial_vsync_interval =
     \<lparr>src_observer = None, src_needs = False,
      src_time_source = fst (SetActive 0 False (DelayBasedTimeSource initial_vsync_interval))\<rparr>"

definition OnUpdateVSyncParameters :: "int \<Rightarrow> int \<Rightarrow> int \<Rightarrow> synthetic \<Rightarrow> synthetic" where
  "OnUpdateVSyncParameters now new_vsync_timebase new_vsync_interval s =
     s\<lparr>src_time_source :=
         SetTimebaseAndInterval now new_vsync_timebase new_vsync_interval (src_time_source s)\<rparr>"

definition CreateBeginFrameArgs ::
    "int \<Rightarrow> begin_frame_args_type \<Rightarrow> synthetic \<Rightarrow> begin_frame_args" where
  "CreateBeginFrameArgs ft ty s =
     BeginFrameArgs_Create ft (next_tick_time (src_time_source s)) (ts_interval (src_time_source s)) ty"

text \<open>The time source's own \<open>OnTimerTick\<close> calls the source's as its client.\<close>

definition Synthetic_OnTimerTick :: "int \<Rightarrow> synthetic \<Rightarrow> synthetic \<times> begin_frame_args option" where
  "Synthetic_OnTimerTick now s =
     (let s = s\<lparr>src_time_source := OnTimerTick now (src_time_source s)\<rparr>
      in (s, Some (CreateBeginFrameArgs (last_tick_time (src_time_source s)) NORMAL s)))"

definition Synthetic_OnNeedsBeginFramesChange ::
    "int \<Rightarrow> bool \<Rightarrow> synthetic \<Rightarrow> synthetic \<times> begin_frame_args option" where
  "Synthetic_OnNeedsBeginFramesChange now needs_begin_frames s =
     (let (ts, missed_tick_time) = SetActive now needs_begin_frames (src_time_source s);
          s = s\<lparr>src_time_source := ts\<rparr>
      in if missed_tick_time \<noteq> 0 then (s, Some (CreateBeginFrameArgs missed_tick_time MISSED s))
         else (s, None))"

section \<open>The virtual operations of a source\<close>

datatype frame_source = BackToBack back_to_back | Synthetic synthetic

fun NeedsBeginFrames :: "frame_source \<Rightarrow> bool" where
  "NeedsBeginFrames (BackToBack s) = src_needs s"
| "NeedsBeginFrames (Synthetic s) = src_needs s"

fun observer_of :: "frame_source \<Rightarrow> observer_ptr option" where
  "observer_of (BackToBack s) = src_observer s"
| "observer_of (Synthetic s) = src_observer s"

fun Source_AddObserver :: "observer_ptr \<Rightarrow> frame_source \<Rightarrow> frame_source" where
  "Source_AddObserver obs (BackToBack s) = BackToBack (AddObserver obs s)"
| "Source_AddObserver obs (Synthetic s) = Synthetic (AddObserver obs s)"

fun Source_RemoveObserver :: "observer_ptr \<Rightarrow> frame_source \<Rightarrow> frame_source" where
  "Source_RemoveObserver obs (BackToBack s) = BackToBack (RemoveObserver obs s)"
| "Source_RemoveObserver obs (Synthetic s) = Synthetic (RemoveObserver obs s)"

text \<open>\<open>BeginFrameSourceBase::SetNeedsBeginFrames\<close>, dispatching \<open>OnNeedsBeginFramesChange\<close>.\<close>

fun SetNeedsBeginFrames ::
    "int \<Rightarrow> bool \<Rightarrow> frame_source \<Rightarrow> frame_source \<times> begin_frame_args option" where
  "SetNeedsBeginFrames now needs_begin_frames (BackToBack s) =
     (if src_needs s \<noteq> needs_begin_frames
      then (BackToBack (BackToBack_OnNeedsBeginFramesChange needs_begin_frames
              (s\<lparr>src_needs := needs_begin_frames\<rparr>)), None)
      else (BackToBack s, None))"
| "SetNeedsBeginFrames now needs_begin_frames (Synthetic s) =
     (if src_needs s \<noteq> needs_begin_frames
      then (let (s', call) = Synthetic_OnNeedsBeginFramesChange now needs_begin_frames
                               (s\<lparr>src_needs := needs_begin_frames\<rparr>)
            in (Synthetic s', call))
      else (Synthetic s, None))"

fun Source_DidFinishFrame :: "nat \<Rightarrow> frame_source \<Rightarrow> frame_source" where
  "Source_DidFinishFrame remaining_frames (BackToBack s) =
     BackToBack (BackToBack_DidFinishFrame remaining_frames s)"
| "Source_DidFinishFrame remaining_frames (Synthetic s) = Synthetic s"

section \<open>BeginFrameSourceMultiplexer\<close>

record multiplexer = source_base +
  minimum_interval :: int
  active_source :: "nat option"
  source_list :: "nat list"

text \<open>
  The objects around a multiplexer: the sources, the multiplexer, and the observer behind it.
  \<open>used_frames\<close> logs the frames the observer has used, newest first.
\<close>

record frame_system =
  sources :: "nat \<Rightarrow> frame_source"
  mux :: multiplexer
  client :: observer_base
  used_frames :: "begin_frame_args list"

definition BeginFrameSourceMultiplexer :: "int \<Rightarrow> multiplexer" where
  "BeginFrameSourceMultiplexer min_interval =
     \<lparr>src_observer = None, src_needs = False, minimum_interval = min_interval,
      active_source = None, source_list = []\<rparr>"

definition HasSource :: "nat \<Rightarrow> multiplexer \<Rightarrow> bool" where
  "HasSource i m \<longleftrightarrow> i \<in> set (source_list m)"

definition LastUsedBeginFrameArgs :: "frame_system \<Rightarrow> begin_frame_args" where
  "LastUsedBeginFrameArgs s =
     (if src_observer (mux s) \<noteq> None then last_begin_frame_args (client s) else BeginFrameArgs)"

definition IsIncreasing :: "begin_frame_args \<Rightarrow> frame_system \<Rightarrow> bool" where
  "IsIncreasing args s \<longleftrightarrow>
     (if src_observer (mux s) = None then False
      else if \<not> IsValid (last_begin_frame_args (client s)) then True
      else frame_time args \<ge>
             frame_time (last_begin_frame_args (client s)) + minimum_interval (mux s))"

text \<open>\<open>CallOnBeginFrame\<close> of the multiplexer calls the observer, when there is one.\<close>

definition Mux_CallOnBeginFrame ::
    "(observer_base \<Rightarrow> begin_frame_args \<Rightarrow> bool) \<Rightarrow> begin_frame_args \<Rightarrow> frame_system \<Rightarrow> frame_system"
  where
  "Mux_CallOnBeginFrame used args s =
     (if src_observer (mux s) \<noteq> None
      then s\<lparr>client := Observer_OnBeginFrame used args (client s),
             used_frames := (if used (client s) args then args # used_frames s else used_frames s)\<rparr>
      else s)"

definition Mux_OnBeginFrame ::
    "(observer_base \<Rightarrow> begin_frame_args \<Rightarrow> bool) \<Rightarrow> begin_frame_args \<Rightarrow> frame_system \<Rightarrow> frame_system"
  where
  "Mux_OnBeginFrame used args s =
     (if \<not> IsIncreasing args s then s else Mux_CallOnBeginFrame used args s)"

text \<open>\<open>CallOnBeginFrame\<close> of source \<open>i\<close>, which may be observed by the multiplexer.\<close>

definition CallOnBeginFrame ::
    "(observer_base \<Rightarrow> begin_frame_args \<Rightarrow> bool) \<Rightarrow> nat \<Rightarrow> begin_frame_args option \<Rightarrow> frame_system
      \<Rightarrow> frame_system" where
  "CallOnBeginFrame used i call s =
     (case call of
        None \<Rightarrow> s
      | Some args \<Rightarrow>
          (case observer_of (sources s i) of
             None \<Rightarrow> s
           | Some ObsMultiplexer \<Rightarrow> Mux_OnBeginFrame used args s
           | Some ObsClient \<Rightarrow> s\<lparr>client := Observer_OnBeginFrame used args (client s)\<rparr>))"

definition update_source :: "nat \<Rightarrow> frame_source \<Rightarrow> frame_system \<Rightarrow> frame_system" where
  "update_source i src s = s\<lparr>sources := (sources s)(i := src)\<rparr>"

definition Mux_OnNeedsBeginFramesChange ::
    "(observer_base \<Rightarrow> begin_frame_args \<Rightarrow> bool) \<Rightarrow> int \<Rightarrow> bool \<Rightarrow> frame_system \<Rightarrow> frame_system" where
  "Mux_OnNeedsBeginFramesChange used now needs_begin_frames s =
     (case active_source (mux s) of
        Some i \<Rightarrow>
          (let (src, call) = SetNeedsBeginFrames now needs_begin_frames (sources s i)
           in CallOnBeginFrame used i call (update_source i src s))
      | None \<Rightarrow> s)"

definition Mux_SetNeedsBeginFrames ::
    "(observer_base \<Rightarrow> begin_frame_args \<Rightarrow> bool) \<Rightarrow> int \<Rightarrow> bool \<Rightarrow> frame_system \<Rightarrow> frame_system" where
  "Mux_SetNeedsBeginFrames used now needs_begin_frames s =
     (if src_needs (mux s) \<noteq> needs_begin_frames
      then Mux_OnNeedsBeginFramesChange used now needs_begin_frames
             (s\<lparr>mux := (mux s)\<lparr>src_needs := needs_begin_frames\<rparr>\<rparr>)
      else s)"

definition Mux_OnNeedsBeginFramesChange_dcheck :: "bool \<Rightarrow> frame_system \<Rightarrow> bool" where
  "Mux_OnNeedsBeginFramesChange_dcheck needs_begin_frames s \<longleftrightarrow>
     active_source (mux s) = None \<longrightarrow> \<not> needs_begin_frames"

text \<open>The two halves of \<open>SetActiveSource\<close>: leaving the old source and entering the new one.\<close>

definition leave_active_source ::
    "(observer_base \<Rightarrow> begin_frame_args \<Rightarrow> bool) \<Rightarrow> int \<Rightarrow> frame_system \<Rightarrow> frame_system" where
  "leave_active_source used now s =
     (case active_source (mux s) of
        None \<Rightarrow> s
      | Some i \<Rightarrow>
          (let s = (if src_needs (mux s) then Mux_SetNeedsBeginFrames used now False s else s);
               s = update_source i (Source_RemoveObserver ObsMultiplexer (sources s i)) s
           in s\<lparr>mux := (mux s)\<lparr>active_source := None\<rparr>\<rparr>))"

definition SetActiveSource ::
    "(observer_base \<Rightarrow> begin_frame_args \<Rightarrow> bool) \<Rightarrow> int \<Rightarrow> nat option \<Rightarrow> frame_system \<Rightarrow> frame_system"
  where
  "SetActiveSource used now new_source s =
     (let needs_begin_frames = src_needs (mux s);
          s = leave_active_source used now s;
          s = s\<lparr>mux := (mux s)\<lparr>active_source := new_source\<rparr>\<rparr>
      in case new_source of
           None \<Rightarrow> s
         | Some i \<Rightarrow>
             (let s = update_source i (Source_AddObserver ObsMultiplexer (sources s i)) s
              in if needs_begin_frames then Mux_SetNeedsBeginFrames used now True s else s))"

definition SetActiveSource_dcheck :: "nat option \<Rightarrow> frame_system \<Rightarrow> bool" where
  "SetActiveSource_dcheck new_source s \<longleftrightarrow>
     (case new_source of None \<Rightarrow> True | Some i \<Rightarrow> HasSource i (mux s))"

definition AddSource ::
    "(observer_base \<Rightarrow> begin_frame_args \<Rightarrow> bool) \<Rightarrow> int \<Rightarrow> nat \<Rightarrow> frame_system \<Rightarrow> frame_system" where
  "AddSource used now new_source s =
     (let s = s\<lparr>mux := (mux s)\<lparr>source_list := List.insert new_source (source_list (mux s))\<rparr>\<rparr>
      in if active_source (mux s) = None then SetActiveSource used now (Some new_source) s else s)"

definition RemoveSource :: "nat \<Rightarrow> frame_system \<Rightarrow> frame_system" where
  "RemoveSource existing_source s =
     s\<lparr>mux := (mux s)\<lparr>source_list := removeAll existing_source (source_list (mux s))\<rparr>\<rparr>"

definition RemoveSource_dcheck :: "nat \<Rightarrow> frame_system \<Rightarrow> bool" where
  "RemoveSource_dcheck existing_source s \<longleftrightarrow>
     HasSource existing_source (mux s) \<and> active_source (mux s) \<noteq> Some existing_source"

definition SetMinimumInterval :: "int \<Rightarrow> frame_system \<Rightarrow> frame_system" where
  "SetMinimumInterval new_minimum_interval s =
     s\<lparr>mux := (mux s)\<lparr>minimum_interval := new_minimum_interval\<rparr>\<rparr>"

definition Mux_DidFinishFrame :: "nat \<Rightarrow> frame_system \<Rightarrow> frame_system" where
  "Mux_DidFinishFrame remaining_frames s =
     (case active_source (mux s) of
        None \<Rightarrow> s
      | Some i \<Rightarrow> update_source i (Source_DidFinishFrame remaining_frames (sources s i)) s)"

text \<open>The tasks of a source: the posted \<open>BeginFrame\<close> of a back-to-back source, or the tick of a
  synthetic one.\<close>

definition run_source_task ::
    "(observer_base \<Rightarrow> begin_frame_args \<Rightarrow> bool) \<Rightarrow> int \<Rightarrow> nat \<Rightarrow> frame_system \<Rightarrow> frame_system" where
  "run_source_task used now i s =
     (case sources s i of
        BackToBack b \<Rightarrow>
          (let (b', call) = BackToBack_BeginFrame now b
           in CallOnBeginFrame used i call (update_source i (BackToBack b') s))
      | Synthetic y \<Rightarrow>
          (let (y', call) = Synthetic_OnTimerTick now y
           in CallOnBeginFrame used i call (update_source i (Synthetic y') s)))"

text \<open>
  A task runs only when it is posted. The task runner rounds delays down to milliseconds and may be late, so nothing
  is said of the time: a tick may run before or after its target.
\<close>

fun source_task_posted :: "frame_source \<Rightarrow> bool" where
  "source_task_posted (BackToBack b) \<longleftrightarrow> 0 < posted_tasks b"
| "source_task_posted (Synthetic y) \<longleftrightarrow> tick_task (src_time_source y) \<noteq> None"

fun update_vsync :: "int \<Rightarrow> int \<Rightarrow> int \<Rightarrow> frame_source \<Rightarrow> frame_source" where
  "update_vsync now tb iv (Synthetic y) = Synthetic (OnUpdateVSyncParameters now tb iv y)"
| "update_vsync now tb iv (BackToBack b) = BackToBack b"

section \<open>The contract of a source\<close>

text \<open>
  What the multiplexer relies on: the switch is set, switching to the current value does nothing,
  switching never touches the observer, and the only frame delivered while switching is a valid
  missed frame on switching on.
\<close>

locale begin_frame_source =
  fixes set_needs :: "int \<Rightarrow> bool \<Rightarrow> 's \<Rightarrow> 's \<times> begin_frame_args option"
    and finish :: "nat \<Rightarrow> 's \<Rightarrow> 's"
    and needs :: "'s \<Rightarrow> bool"
    and observed :: "'s \<Rightarrow> observer_ptr option"
    and ok :: "'s \<Rightarrow> bool"
  assumes set_needs_needs: "needs (fst (set_needs now b s)) = b"
    and set_needs_observed: "observed (fst (set_needs now b s)) = observed s"
    and set_needs_same: "needs s = b \<Longrightarrow> set_needs now b s = (s, None)"
    and set_needs_ok: "ok s \<Longrightarrow> ok (fst (set_needs now b s))"
    and set_needs_call: "ok s \<Longrightarrow> snd (set_needs now b s) = Some a \<Longrightarrow>
      b \<and> IsValid a \<and> args_type a = MISSED \<and> frame_time a < now \<and> now \<le> deadline a"
    and finish_needs: "needs (finish n s) = needs s"
    and finish_observed: "observed (finish n s) = observed s"
    and finish_ok: "ok s \<Longrightarrow> ok (finish n s)"
begin

lemma switch_off_silent: "ok s \<Longrightarrow> snd (set_needs now False s) = None"
  using set_needs_call [of s now False] by (cases "snd (set_needs now False s)") auto

lemma switch_idempotent:
  "set_needs later b (fst (set_needs now b s)) = (fst (set_needs now b s), None)"
  by (rule set_needs_same) (rule set_needs_needs)

lemma call_valid: "ok s \<Longrightarrow> snd (set_needs now b s) = Some a \<Longrightarrow> IsValid a"
  using set_needs_call by blast

end

text \<open>
  The invariant of a source: a back-to-back source has its flag set exactly while its one task is
  posted; the time source of a synthetic source ticks exactly while frames are needed.
\<close>

fun source_ok :: "frame_source \<Rightarrow> bool" where
  "source_ok (BackToBack b) \<longleftrightarrow> posted_tasks b = (if send_begin_frame_posted b then 1 else 0)"
| "source_ok (Synthetic y) \<longleftrightarrow>
     (let t = src_time_source y
      in 0 < ts_interval t \<and> ts_active t = src_needs y \<and>
         tick_task t = (if ts_active t then Some (next_tick_time t) else None))"

lemma BackToBack_needs_change_fields [simp]:
  "src_needs (BackToBack_OnNeedsBeginFramesChange b s) = src_needs s"
  "src_observer (BackToBack_OnNeedsBeginFramesChange b s) = src_observer s"
  by (simp_all add: BackToBack_OnNeedsBeginFramesChange_def)

lemma BackToBack_needs_change_ok:
  "source_ok (BackToBack s) \<Longrightarrow> source_ok (BackToBack (BackToBack_OnNeedsBeginFramesChange b s))"
  by (simp add: BackToBack_OnNeedsBeginFramesChange_def)

lemma Synthetic_needs_change_fields [simp]:
  "src_needs (fst (Synthetic_OnNeedsBeginFramesChange now b s)) = src_needs s"
  "src_observer (fst (Synthetic_OnNeedsBeginFramesChange now b s)) = src_observer s"
  "src_time_source (fst (Synthetic_OnNeedsBeginFramesChange now b s)) =
     fst (SetActive now b (src_time_source s))"
  by (auto simp: Synthetic_OnNeedsBeginFramesChange_def Let_def split: prod.splits)

lemma SetActive_active: "ts_active (fst (SetActive now b t)) = b"
  by (auto simp: SetActive_def ResetTickTask_def Let_def)

lemma SetActive_task:
  assumes "tick_task t = (if ts_active t then Some (next_tick_time t) else None)"
  shows "tick_task (fst (SetActive now b t)) =
           (if b then Some (next_tick_time (fst (SetActive now b t))) else None)"
  using assms by (auto simp: SetActive_def ResetTickTask_def Let_def)

lemma Synthetic_needs_change_ok:
  assumes "source_ok (Synthetic y)"
  shows "source_ok (Synthetic (fst (Synthetic_OnNeedsBeginFramesChange now b (y\<lparr>src_needs := b\<rparr>))))"
  using assms SetActive_task [of "src_time_source y" now b]
  by (simp add: Let_def SetActive_active)

lemma Synthetic_missed_call:
  assumes ok: "source_ok (Synthetic y)"
    and call: "snd (Synthetic_OnNeedsBeginFramesChange now b (y\<lparr>src_needs := b\<rparr>)) = Some a"
  shows "b \<and> IsValid a \<and> args_type a = MISSED \<and> frame_time a < now \<and> now \<le> deadline a"
proof -
  obtain t' k where sa: "SetActive now b (src_time_source y) = (t', k)"
    by (cases "SetActive now b (src_time_source y)")
  have pos: "0 < ts_interval (src_time_source y)" using ok by (simp add: Let_def)
  have k: "k \<noteq> 0" and a: "a = BeginFrameArgs_Create k (next_tick_time t') (ts_interval t') MISSED"
    using call sa
    by (auto simp: Synthetic_OnNeedsBeginFramesChange_def Let_def CreateBeginFrameArgs_def
        split: if_splits)
  note m = SetActive_missed [OF pos sa k]
  have iv: "ts_interval t' = ts_interval (src_time_source y)"
    using SetActive_interval [of now b "src_time_source y"] sa by simp
  show ?thesis
    using m pos iv by (simp add: a BeginFrameArgs_Create_def IsValid_def)
qed

interpretation src: begin_frame_source SetNeedsBeginFrames Source_DidFinishFrame NeedsBeginFrames
    observer_of source_ok
proof (unfold_locales, goal_cases)
  case (1 now b s)
  then show ?case by (cases s) (auto simp: case_prod_beta)
next
  case (2 now b s)
  then show ?case by (cases s) (auto simp: case_prod_beta)
next
  case (3 s b now)
  then show ?case by (cases s) auto
next
  case (4 s now b)
  then show ?case
    using BackToBack_needs_change_ok [of _ b] Synthetic_needs_change_ok [where now = now and b = b]
    by (cases s) (auto simp del: source_ok.simps(2) simp: case_prod_beta)
next
  case (5 s now b a)
  show ?case
  proof (cases s)
    case (Synthetic y)
    then have "snd (Synthetic_OnNeedsBeginFramesChange now b (y\<lparr>src_needs := b\<rparr>)) = Some a"
      using 5(2) by (simp add: case_prod_beta split: if_splits)
    then show ?thesis using Synthetic_missed_call [of y now b a] 5(1) Synthetic by blast
  qed (use 5 in \<open>simp split: if_splits\<close>)
next
  case (6 n s)
  then show ?case by (cases s) (auto simp: BackToBack_DidFinishFrame_def)
next
  case (7 n s)
  then show ?case by (cases s) (auto simp: BackToBack_DidFinishFrame_def)
next
  case (8 s n)
  then show ?case
    using BackToBack_needs_change_ok by (cases s) (auto simp: BackToBack_DidFinishFrame_def)
qed

section \<open>Runs of the multiplexer\<close>

datatype mux_event =
    EvSetNeeds bool
  | EvAddSource nat
  | EvRemoveSource nat
  | EvSetActiveSource "nat option"
  | EvSetMinimumInterval int
  | EvDidFinishFrame nat
  | EvTask nat
  | EvVSync nat int int
  | EvObserve
  | EvUnobserve

fun exec_mux ::
    "(observer_base \<Rightarrow> begin_frame_args \<Rightarrow> bool) \<Rightarrow> int \<Rightarrow> mux_event \<Rightarrow> frame_system \<Rightarrow> frame_system"
  where
  "exec_mux used now (EvSetNeeds b) s = Mux_SetNeedsBeginFrames used now b s"
| "exec_mux used now (EvAddSource i) s = AddSource used now i s"
| "exec_mux used now (EvRemoveSource i) s = RemoveSource i s"
| "exec_mux used now (EvSetActiveSource j) s = SetActiveSource used now j s"
| "exec_mux used now (EvSetMinimumInterval m) s = SetMinimumInterval m s"
| "exec_mux used now (EvDidFinishFrame n) s = Mux_DidFinishFrame n s"
| "exec_mux used now (EvTask i) s = run_source_task used now i s"
| "exec_mux used now (EvVSync i tb iv) s = update_source i (update_vsync now tb iv (sources s i)) s"
| "exec_mux used now EvObserve s = s\<lparr>mux := AddObserver ObsClient (mux s)\<rparr>"
| "exec_mux used now EvUnobserve s = s\<lparr>mux := RemoveObserver ObsClient (mux s)\<rparr>"

text \<open>
  The DCHECKs of the operations, with a lower bound \<open>m0\<close> on the minimum interval; a task runs only
  when it is posted.
\<close>

fun mux_allowed :: "int \<Rightarrow> int \<Rightarrow> mux_event \<Rightarrow> frame_system \<Rightarrow> bool" where
  "mux_allowed m0 now (EvSetNeeds b) s \<longleftrightarrow> Mux_OnNeedsBeginFramesChange_dcheck b s"
| "mux_allowed m0 now (EvAddSource i) s \<longleftrightarrow> \<not> HasSource i (mux s)"
| "mux_allowed m0 now (EvRemoveSource i) s \<longleftrightarrow> RemoveSource_dcheck i s"
| "mux_allowed m0 now (EvSetActiveSource j) s \<longleftrightarrow> SetActiveSource_dcheck j s"
| "mux_allowed m0 now (EvSetMinimumInterval m) s \<longleftrightarrow> m0 \<le> m"
| "mux_allowed m0 now (EvDidFinishFrame n) s \<longleftrightarrow> True"
| "mux_allowed m0 now (EvTask i) s \<longleftrightarrow> source_task_posted (sources s i)"
| "mux_allowed m0 now (EvVSync i tb iv) s \<longleftrightarrow> 0 < iv"
| "mux_allowed m0 now EvObserve s \<longleftrightarrow> src_observer (mux s) = None"
| "mux_allowed m0 now EvUnobserve s \<longleftrightarrow> src_observer (mux s) = Some ObsClient"

fun fresh_source :: "frame_source \<Rightarrow> bool" where
  "fresh_source (BackToBack b) \<longleftrightarrow> b = BackToBackBeginFrameSource"
| "fresh_source (Synthetic y) \<longleftrightarrow>
     (let iv = ts_interval (src_time_source y) in 0 < iv \<and> y = SyntheticBeginFrameSource iv)"

definition initial_system :: "int \<Rightarrow> (nat \<Rightarrow> frame_source) \<Rightarrow> frame_system" where
  "initial_system m0 srcs =
     \<lparr>sources = srcs, mux = BeginFrameSourceMultiplexer m0, client = BeginFrameObserverBase,
      used_frames = []\<rparr>"

inductive frame_reach ::
    "(observer_base \<Rightarrow> begin_frame_args \<Rightarrow> bool) \<Rightarrow> int \<Rightarrow> int \<Rightarrow> frame_system \<Rightarrow> bool"
  for used m0 where
  fr_start: "0 \<le> m0 \<Longrightarrow> \<forall>i. fresh_source (srcs i) \<Longrightarrow> frame_reach used m0 0 (initial_system m0 srcs)"
| fr_step: "frame_reach used m0 n s \<Longrightarrow> n \<le> now \<Longrightarrow> mux_allowed m0 now e s \<Longrightarrow>
    frame_reach used m0 now (exec_mux used now e s)"

subsection \<open>The invariant\<close>

text \<open>Only the active source is observed, and it alone is switched on when frames are needed.\<close>

definition routing_inv :: "frame_system \<Rightarrow> bool" where
  "routing_inv s \<longleftrightarrow>
     (\<forall>i. source_ok (sources s i) \<and>
          observer_of (sources s i) =
            (if active_source (mux s) = Some i then Some ObsMultiplexer else None) \<and>
          (NeedsBeginFrames (sources s i) \<longleftrightarrow> active_source (mux s) = Some i \<and> src_needs (mux s)))"

definition active_inv :: "frame_system \<Rightarrow> bool" where
  "active_inv s \<longleftrightarrow>
     (active_source (mux s) = None \<longrightarrow> \<not> src_needs (mux s)) \<and>
     (\<forall>i. active_source (mux s) = Some i \<longrightarrow> HasSource i (mux s))"

text \<open>The frames used so far are valid and at least \<open>m0\<close> apart, the last one being remembered.\<close>

definition frames_inv :: "int \<Rightarrow> frame_system \<Rightarrow> bool" where
  "frames_inv m0 s \<longleftrightarrow>
     0 \<le> m0 \<and> m0 \<le> minimum_interval (mux s) \<and>
     (if used_frames s = [] then \<not> IsValid (last_begin_frame_args (client s))
      else last_begin_frame_args (client s) = hd (used_frames s)) \<and>
     (\<forall>a\<in>set (used_frames s). IsValid a) \<and>
     sorted_wrt (\<lambda>later earlier. frame_time earlier + m0 \<le> frame_time later) (used_frames s)"

definition mux_inv :: "int \<Rightarrow> frame_system \<Rightarrow> bool" where
  "mux_inv m0 s \<longleftrightarrow> routing_inv s \<and> active_inv s \<and> frames_inv m0 s"

lemma frames_inv_cong:
  "used_frames s' = used_frames s \<Longrightarrow> client s' = client s \<Longrightarrow>
   minimum_interval (mux s') = minimum_interval (mux s) \<Longrightarrow> frames_inv m0 s' = frames_inv m0 s"
  by (simp add: frames_inv_def)

lemma update_source_fields [simp]:
  "sources (update_source i src s) = (sources s)(i := src)"
  "mux (update_source i src s) = mux s"
  "client (update_source i src s) = client s"
  "used_frames (update_source i src s) = used_frames s"
  by (simp_all add: update_source_def)

lemma frames_inv_update_source [simp]: "frames_inv m0 (update_source i src s) = frames_inv m0 s"
  by (rule frames_inv_cong) simp_all

lemma CallOnBeginFrame_fields [simp]:
  "sources (CallOnBeginFrame used i call s) = sources s"
  "mux (CallOnBeginFrame used i call s) = mux s"
  by (simp_all add: CallOnBeginFrame_def Mux_OnBeginFrame_def Mux_CallOnBeginFrame_def
      split: option.split observer_ptr.split)

lemma Mux_OnBeginFrame_frames:
  assumes inv: "frames_inv m0 s" and valid: "IsValid a"
  shows "frames_inv m0 (Mux_OnBeginFrame used a s)"
proof (cases "IsIncreasing a s \<and> used (client s) a")
  case True
  then have s': "Mux_OnBeginFrame used a s =
      s\<lparr>client := (client s)\<lparr>last_begin_frame_args := a\<rparr>, used_frames := a # used_frames s\<rparr>"
    by (auto simp: Mux_OnBeginFrame_def Mux_CallOnBeginFrame_def Observer_OnBeginFrame_def
        IsIncreasing_def)
  have "frame_time e + m0 \<le> frame_time a" if "e \<in> set (used_frames s)" for e
    using inv that True
    by (cases "used_frames s") (fastforce simp: frames_inv_def IsIncreasing_def split: if_splits)+
  then show ?thesis using inv valid by (simp add: s' frames_inv_def)
next
  case False
  then show ?thesis
    using inv
    by (auto simp: Mux_OnBeginFrame_def Mux_CallOnBeginFrame_def Observer_OnBeginFrame_def
        frames_inv_def split: list.splits)
qed

lemma CallOnBeginFrame_frames:
  assumes "frames_inv m0 s" and "\<And>a. call = Some a \<Longrightarrow> IsValid a"
    and "observer_of (sources s i) \<noteq> Some ObsClient"
  shows "frames_inv m0 (CallOnBeginFrame used i call s)"
  using assms Mux_OnBeginFrame_frames
  by (auto simp: CallOnBeginFrame_def split: option.split observer_ptr.split)

text \<open>A source may be replaced by one that is equally observed and switched.\<close>

lemma routing_inv_update:
  assumes "routing_inv s" and "source_ok src"
    and "observer_of src = observer_of (sources s i)"
    and "NeedsBeginFrames src = NeedsBeginFrames (sources s i)"
  shows "routing_inv (CallOnBeginFrame used i call (update_source i src s))"
  using assms by (auto simp: routing_inv_def)

lemma active_inv_CallOnBeginFrame [simp]:
  "active_inv (CallOnBeginFrame used i call (update_source i src s)) = active_inv s"
  by (simp add: active_inv_def)

lemma CallOnBeginFrame_None [simp]: "CallOnBeginFrame used i None s = s"
  by (simp add: CallOnBeginFrame_def)

lemma routing_observer: "routing_inv s \<Longrightarrow> observer_of (sources s i) \<noteq> Some ObsClient"
  by (auto simp: routing_inv_def)

lemma mux_inv_source_call:
  assumes inv: "mux_inv m0 s" and ok: "source_ok src"
    and obs: "observer_of src = observer_of (sources s i)"
    and nb: "NeedsBeginFrames src = NeedsBeginFrames (sources s i)"
    and call: "\<And>a. call = Some a \<Longrightarrow> IsValid a"
  shows "mux_inv m0 (CallOnBeginFrame used i call (update_source i src s))"
proof -
  have "frames_inv m0 (CallOnBeginFrame used i call (update_source i src s))"
    by (rule CallOnBeginFrame_frames)
      (use inv call obs routing_observer in \<open>auto simp: mux_inv_def\<close>)
  then show ?thesis
    using inv routing_inv_update [OF _ ok obs nb] by (auto simp: mux_inv_def)
qed

lemma Mux_SetNeedsBeginFrames_inv:
  assumes inv: "mux_inv m0 s" and act: "b \<longrightarrow> active_source (mux s) \<noteq> None"
  shows "mux_inv m0 (Mux_SetNeedsBeginFrames used now b s)"
    and "mux (Mux_SetNeedsBeginFrames used now b s) = (mux s)\<lparr>src_needs := b\<rparr>"
proof -
  have step: "Mux_SetNeedsBeginFrames used now b s =
      (if src_needs (mux s) = b then s else
       (case active_source (mux s) of None \<Rightarrow> s\<lparr>mux := (mux s)\<lparr>src_needs := b\<rparr>\<rparr>
        | Some i \<Rightarrow> CallOnBeginFrame used i (snd (SetNeedsBeginFrames now b (sources s i)))
             (update_source i (fst (SetNeedsBeginFrames now b (sources s i)))
               (s\<lparr>mux := (mux s)\<lparr>src_needs := b\<rparr>\<rparr>))))"
    by (auto simp: Mux_SetNeedsBeginFrames_def Mux_OnNeedsBeginFramesChange_def case_prod_beta
        split: option.split)
  show "mux (Mux_SetNeedsBeginFrames used now b s) = (mux s)\<lparr>src_needs := b\<rparr>"
    by (auto simp: step split: option.split)
  show "mux_inv m0 (Mux_SetNeedsBeginFrames used now b s)"
  proof (cases "active_source (mux s)")
    case None
    then have "src_needs (mux s) = b" using inv act by (auto simp: mux_inv_def active_inv_def)
    then show ?thesis using inv by (simp add: step)
  next
    case (Some i)
    have ok: "source_ok (sources s i)" using inv by (simp add: mux_inv_def routing_inv_def)
    let ?s1 = "update_source i (fst (SetNeedsBeginFrames now b (sources s i)))
               (s\<lparr>mux := (mux s)\<lparr>src_needs := b\<rparr>\<rparr>)"
    have "routing_inv ?s1"
      using inv Some src.set_needs_ok [OF ok, of now b] src.set_needs_needs src.set_needs_observed
      by (auto simp: mux_inv_def routing_inv_def)
    moreover have "active_inv ?s1"
      using inv Some by (auto simp: mux_inv_def active_inv_def HasSource_def)
    moreover have "frames_inv m0 (s\<lparr>mux := (mux s)\<lparr>src_needs := b\<rparr>\<rparr>)"
      using inv by (simp add: mux_inv_def frames_inv_def)
    ultimately have "mux_inv m0 ?s1" by (simp add: mux_inv_def)
    then have "mux_inv m0 (CallOnBeginFrame used i (snd (SetNeedsBeginFrames now b (sources s i)))
        (update_source i (fst (SetNeedsBeginFrames now b (sources s i))) ?s1))"
      by (rule mux_inv_source_call) (simp_all add: src.set_needs_ok [OF ok] src.call_valid [OF ok])
    then show ?thesis using inv Some by (simp add: step update_source_def)
  qed
qed

lemma Source_Observer_fields [simp]:
  "observer_of (Source_AddObserver obs src) = Some obs"
  "observer_of (Source_RemoveObserver obs src) = None"
  "NeedsBeginFrames (Source_AddObserver obs src) = NeedsBeginFrames src"
  "NeedsBeginFrames (Source_RemoveObserver obs src) = NeedsBeginFrames src"
  "source_ok (Source_AddObserver obs src) = source_ok src"
  "source_ok (Source_RemoveObserver obs src) = source_ok src"
  by (cases src; simp add: AddObserver_def RemoveObserver_def)+

text \<open>After the old source is left nothing is active, observed or switched on.\<close>

lemma leave_active_source_inv:
  assumes inv: "mux_inv m0 s"
  shows "mux_inv m0 (leave_active_source used now s)"
    and "mux (leave_active_source used now s) = (mux s)\<lparr>src_needs := False, active_source := None\<rparr>"
proof -
  define s1 where "s1 = (if src_needs (mux s) then Mux_SetNeedsBeginFrames used now False s else s)"
  have s1: "mux_inv m0 s1" "mux s1 = (mux s)\<lparr>src_needs := False\<rparr>"
    using inv Mux_SetNeedsBeginFrames_inv [OF inv, of False] by (auto simp: s1_def)
  have none: "\<not> src_needs (mux s)" if "active_source (mux s) = None"
    using inv that by (simp add: mux_inv_def active_inv_def)
  have leave: "leave_active_source used now s =
      (case active_source (mux s) of None \<Rightarrow> s
       | Some i \<Rightarrow> (update_source i (Source_RemoveObserver ObsMultiplexer (sources s1 i)) s1)
           \<lparr>mux := (mux s1)\<lparr>active_source := None\<rparr>\<rparr>)"
    by (simp add: leave_active_source_def s1_def Let_def split: option.split)
  show "mux (leave_active_source used now s) = (mux s)\<lparr>src_needs := False, active_source := None\<rparr>"
    using s1(2) none by (auto simp: leave split: option.split)
  show "mux_inv m0 (leave_active_source used now s)"
  proof (cases "active_source (mux s)")
    case None
    then show ?thesis using inv by (simp add: leave)
  next
    case (Some i)
    then show ?thesis
      using s1
      by (auto simp: leave mux_inv_def routing_inv_def active_inv_def HasSource_def
          frames_inv_def)
  qed
qed

lemma enter_source_inv:
  assumes inv: "mux_inv m0 s" and idle: "active_source (mux s) = None" and has: "HasSource i (mux s)"
  shows "mux_inv m0 (update_source i (Source_AddObserver ObsMultiplexer (sources s i))
           (s\<lparr>mux := (mux s)\<lparr>active_source := Some i\<rparr>\<rparr>))"
proof -
  have "\<not> src_needs (mux s)" using inv idle by (simp add: mux_inv_def active_inv_def)
  moreover have "frames_inv m0 (s\<lparr>mux := (mux s)\<lparr>active_source := Some i\<rparr>\<rparr>) = frames_inv m0 s"
    by (rule frames_inv_cong) simp_all
  ultimately show ?thesis
    using inv idle has by (auto simp: mux_inv_def routing_inv_def active_inv_def HasSource_def)
qed

lemma SetActiveSource_inv:
  assumes inv: "mux_inv m0 s" and has: "SetActiveSource_dcheck new_source s"
  shows "mux_inv m0 (SetActiveSource used now new_source s)"
    and "mux (SetActiveSource used now new_source s) =
           (mux s)\<lparr>src_needs := new_source \<noteq> None \<and> src_needs (mux s), active_source := new_source\<rparr>"
proof -
  define s1 where "s1 = leave_active_source used now s"
  have s1: "mux_inv m0 s1" "mux s1 = (mux s)\<lparr>src_needs := False, active_source := None\<rparr>"
    using leave_active_source_inv [OF inv] by (simp_all add: s1_def)
  have "mux_inv m0 (SetActiveSource used now new_source s) \<and>
        mux (SetActiveSource used now new_source s) =
          (mux s)\<lparr>src_needs := new_source \<noteq> None \<and> src_needs (mux s), active_source := new_source\<rparr>"
  proof (cases new_source)
    case None
    have "(mux s1)\<lparr>active_source := None\<rparr> = mux s1" using s1(2) by simp
    then have "SetActiveSource used now new_source s = s1"
      using None by (simp add: SetActiveSource_def Let_def s1_def)
    then show ?thesis using None s1 by simp
  next
    case (Some i)
    define s2 where "s2 = update_source i (Source_AddObserver ObsMultiplexer (sources s1 i))
        (s1\<lparr>mux := (mux s1)\<lparr>active_source := Some i\<rparr>\<rparr>)"
    have s2: "mux_inv m0 s2"
      unfolding s2_def
      by (rule enter_source_inv [OF s1(1)])
        (use has Some in \<open>simp_all add: s1(2) SetActiveSource_dcheck_def HasSource_def\<close>)
    have m2: "mux s2 = (mux s)\<lparr>src_needs := False, active_source := Some i\<rparr>"
      using s1(2) by (simp add: s2_def)
    have "SetActiveSource used now new_source s =
        (if src_needs (mux s) then Mux_SetNeedsBeginFrames used now True s2 else s2)"
      using Some by (simp add: SetActiveSource_def Let_def s1_def s2_def)
    then show ?thesis
      using Some s2 m2 Mux_SetNeedsBeginFrames_inv [OF s2, of True] by auto
  qed
  then show "mux_inv m0 (SetActiveSource used now new_source s)"
    and "mux (SetActiveSource used now new_source s) =
           (mux s)\<lparr>src_needs := new_source \<noteq> None \<and> src_needs (mux s), active_source := new_source\<rparr>"
    by simp_all
qed

lemma mux_inv_mux_change:
  assumes "mux_inv m0 s" and "src_needs m = src_needs (mux s)"
    and "active_source m = active_source (mux s)"
    and "\<forall>i. active_source m = Some i \<longrightarrow> HasSource i m" and "m0 \<le> minimum_interval m"
  shows "mux_inv m0 (s\<lparr>mux := m\<rparr>)"
  using assms by (simp add: mux_inv_def routing_inv_def active_inv_def frames_inv_def)

lemma BackToBack_BeginFrame_facts:
  assumes "source_ok (BackToBack b)"
  shows "source_ok (BackToBack (fst (BackToBack_BeginFrame now b)))"
    and "observer_of (BackToBack (fst (BackToBack_BeginFrame now b))) = observer_of (BackToBack b)"
    and "NeedsBeginFrames (BackToBack (fst (BackToBack_BeginFrame now b))) =
         NeedsBeginFrames (BackToBack b)"
    and "snd (BackToBack_BeginFrame now b) = Some a \<Longrightarrow> IsValid a"
  using assms
  by (auto simp: BackToBack_BeginFrame_def Let_def IsValid_def BeginFrameArgs_Create_def
      DefaultInterval_def split: if_splits)

lemma Synthetic_OnTimerTick_facts:
  assumes "source_ok (Synthetic y)" and "source_task_posted (Synthetic y)"
  shows "source_ok (Synthetic (fst (Synthetic_OnTimerTick now y)))"
    and "observer_of (Synthetic (fst (Synthetic_OnTimerTick now y))) = observer_of (Synthetic y)"
    and "NeedsBeginFrames (Synthetic (fst (Synthetic_OnTimerTick now y))) =
         NeedsBeginFrames (Synthetic y)"
    and "snd (Synthetic_OnTimerTick now y) = Some a \<Longrightarrow> IsValid a"
  using assms
  by (auto simp: Synthetic_OnTimerTick_def CreateBeginFrameArgs_def Let_def IsValid_def
      BeginFrameArgs_Create_def OnTimerTick_def split: if_splits option.splits)

lemma run_source_task_inv:
  assumes inv: "mux_inv m0 s" and posted: "source_task_posted (sources s i)"
  shows "mux_inv m0 (run_source_task used now i s)"
proof -
  have ok: "source_ok (sources s i)" using inv by (simp add: mux_inv_def routing_inv_def)
  show ?thesis
  proof (cases "sources s i")
    case (BackToBack b)
    note f = BackToBack_BeginFrame_facts [OF ok [unfolded BackToBack]]
    show ?thesis
      using mux_inv_source_call [OF inv f(1), where i = i and call = "snd (BackToBack_BeginFrame now b)"] f(2-4) BackToBack
      by (simp add: run_source_task_def case_prod_beta del: source_ok.simps)
  next
    case (Synthetic y)
    note f = Synthetic_OnTimerTick_facts [OF ok [unfolded Synthetic] posted [unfolded Synthetic]]
    show ?thesis
      using mux_inv_source_call [OF inv f(1), where i = i and call = "snd (Synthetic_OnTimerTick now y)"] f(2-4) Synthetic
      by (simp add: run_source_task_def case_prod_beta del: source_ok.simps)
  qed
qed

lemma update_vsync_facts [simp]:
  "0 < iv \<Longrightarrow> source_ok src \<Longrightarrow> source_ok (update_vsync now tb iv src)"
  "observer_of (update_vsync now tb iv src) = observer_of src"
  "NeedsBeginFrames (update_vsync now tb iv src) = NeedsBeginFrames src"
  by (cases src; auto simp: OnUpdateVSyncParameters_def SetTimebaseAndInterval_def Let_def
      ResetTickTask_def)+

lemma mux_inv_update_source:
  assumes "mux_inv m0 s" and "source_ok src"
    and "observer_of src = observer_of (sources s i)"
    and "NeedsBeginFrames src = NeedsBeginFrames (sources s i)"
  shows "mux_inv m0 (update_source i src s)"
  using mux_inv_source_call [OF assms, of None] by simp

lemma AddSource_inv:
  assumes "mux_inv m0 s"
  shows "mux_inv m0 (AddSource used now i s)"
proof -
  let ?s = "s\<lparr>mux := (mux s)\<lparr>source_list := List.insert i (source_list (mux s))\<rparr>\<rparr>"
  have "mux_inv m0 ?s"
    by (rule mux_inv_mux_change [OF assms])
      (use assms in \<open>auto simp: mux_inv_def active_inv_def frames_inv_def HasSource_def\<close>)
  then show ?thesis
    using SetActiveSource_inv(1) [of m0 ?s "Some i"]
    by (simp add: AddSource_def Let_def SetActiveSource_dcheck_def HasSource_def)
qed

lemma mux_step_inv:
  assumes inv: "mux_inv m0 s" and ok: "mux_allowed m0 now e s"
  shows "mux_inv m0 (exec_mux used now e s)"
proof -
  have src: "source_ok (sources s i)" for i using inv by (simp add: mux_inv_def routing_inv_def)
  have base: "\<forall>i. active_source (mux s) = Some i \<longrightarrow> HasSource i (mux s)" "m0 \<le> minimum_interval (mux s)"
    using inv by (simp_all add: mux_inv_def active_inv_def frames_inv_def)
  note chg = mux_inv_mux_change [OF inv]
  show ?thesis
  proof (cases e)
    case (EvSetNeeds b)
    then show ?thesis
      using Mux_SetNeedsBeginFrames_inv(1) [OF inv] ok
      by (auto simp: Mux_OnNeedsBeginFramesChange_dcheck_def)
  next
    case (EvRemoveSource i)
    have "mux_inv m0 (RemoveSource i s)"
      unfolding RemoveSource_def
      by (rule chg) (use EvRemoveSource base ok in \<open>auto simp: RemoveSource_dcheck_def HasSource_def\<close>)
    then show ?thesis using EvRemoveSource by simp
  next
    case (EvDidFinishFrame n)
    then show ?thesis
      using mux_inv_update_source [OF inv] src.finish_ok [OF src] src.finish_needs
        src.finish_observed inv
      by (auto simp: Mux_DidFinishFrame_def split: option.split)
  next
    case (EvVSync i tb iv)
    then show ?thesis using mux_inv_update_source [OF inv] src ok by simp
  qed (use AddSource_inv [OF inv] SetActiveSource_inv(1) [OF inv] run_source_task_inv [OF inv] chg base ok
      in \<open>auto simp: SetMinimumInterval_def AddObserver_def RemoveObserver_def HasSource_def\<close>)
qed

lemma SyntheticBeginFrameSource_facts:
  "0 < iv \<Longrightarrow> source_ok (Synthetic (SyntheticBeginFrameSource iv))"
  "src_observer (SyntheticBeginFrameSource iv) = None"
  "\<not> src_needs (SyntheticBeginFrameSource iv)"
  by (auto simp: SyntheticBeginFrameSource_def SetActive_def DelayBasedTimeSource_def
      Let_def)

lemma fresh_source_facts:
  assumes "fresh_source src"
  shows "source_ok src \<and> observer_of src = None \<and> \<not> NeedsBeginFrames src"
proof (cases src)
  case (BackToBack b)
  then show ?thesis using assms by (simp add: BackToBackBeginFrameSource_def)
next
  case (Synthetic y)
  then show ?thesis
    using assms SyntheticBeginFrameSource_facts [of "ts_interval (src_time_source y)"]
    by (metis fresh_source.simps(2) NeedsBeginFrames.simps(2) observer_of.simps(2))
qed

lemma initial_system_inv:
  assumes "0 \<le> m0" and "\<forall>i. fresh_source (srcs i)"
  shows "mux_inv m0 (initial_system m0 srcs)"
  using assms fresh_source_facts
  by (auto simp: mux_inv_def routing_inv_def active_inv_def frames_inv_def initial_system_def
      BeginFrameSourceMultiplexer_def BeginFrameObserverBase_def IsValid_def BeginFrameArgs_def)

lemma frame_reach_inv: "frame_reach used m0 now s \<Longrightarrow> mux_inv m0 s"
  by (induction rule: frame_reach.induct) (auto intro: initial_system_inv mux_step_inv)

text \<open>A list of timed events, run only if each is allowed and the clock does not go back.\<close>

fun mux_run ::
    "(observer_base \<Rightarrow> begin_frame_args \<Rightarrow> bool) \<Rightarrow> int \<Rightarrow> (int \<times> mux_event) list \<Rightarrow> int \<times> frame_system
      \<Rightarrow> (int \<times> frame_system) option" where
  "mux_run used m0 [] (n, s) = Some (n, s)"
| "mux_run used m0 ((now, e) # es) (n, s) =
     (if n \<le> now \<and> mux_allowed m0 now e s then mux_run used m0 es (now, exec_mux used now e s)
      else None)"

lemma mux_run_reach:
  "mux_run used m0 es (n, s) = Some (n', s') \<Longrightarrow> frame_reach used m0 n s \<Longrightarrow> frame_reach used m0 n' s'"
proof (induction es arbitrary: n s)
  case (Cons te es)
  obtain now e where te: "te = (now, e)" by (cases te)
  have ok: "n \<le> now" "mux_allowed m0 now e s"
    and run: "mux_run used m0 es (now, exec_mux used now e s) = Some (n', s')"
    using Cons.prems(1) by (simp_all add: te split: if_splits)
  show ?case using Cons.IH [OF run] fr_step [OF Cons.prems(2) ok] by blast
qed simp

definition example_sources :: "nat \<Rightarrow> frame_source" where
  "example_sources i = (if i = 0 then BackToBack BackToBackBeginFrameSource
                        else Synthetic (SyntheticBeginFrameSource 16))"

definition example_events :: "(int \<times> mux_event) list" where
  "example_events =
     [(1, EvObserve), (2, EvAddSource 0), (3, EvAddSource 1), (4, EvSetNeeds True), (100, EvTask 0),
      (100, EvDidFinishFrame 0), (105, EvSetActiveSource (Some 1)), (113, EvTask 1)]"

definition example_run :: "int \<times> frame_system" where
  "example_run =
     the (mux_run (\<lambda>_ _. True) 0 example_events (0, initial_system 0 example_sources))"

lemma example_run_runs:
  "mux_run (\<lambda>_ _. True) 0 example_events (0, initial_system 0 example_sources) = Some example_run"
proof -
  have "mux_run (\<lambda>_ _. True) 0 example_events (0, initial_system 0 example_sources) \<noteq> None"
    by code_simp
  then show ?thesis by (simp add: example_run_def option.exhaust_sel)
qed

lemma example_run_reach: "frame_reach (\<lambda>_ _. True) 0 (fst example_run) (snd example_run)"
proof -
  have "fresh_source (example_sources i)" for i
    by (simp add: example_sources_def Let_def SyntheticBeginFrameSource_def SetActive_def
        DelayBasedTimeSource_def)
  then have "frame_reach (\<lambda>_ _. True) 0 0 (initial_system 0 example_sources)"
    by (intro fr_start) simp_all
  with example_run_runs show ?thesis by (metis mux_run_reach prod.collapse)
qed

text \<open>[C32]
  However sources are added, removed and switched, and whatever they deliver, the multiplexer is
  the observer of the active source and of no other, frames are requested from the active source
  exactly while the multiplexer's own client needs them and never from another source, and a
  back-to-back source has at most one \<open>BeginFrame\<close> task posted.
\<close>

theorem multiplexer_routes_one_source:
  assumes "frame_reach used m0 now s"
  shows "(observer_of (sources s i) = Some ObsMultiplexer \<longleftrightarrow> active_source (mux s) = Some i) \<and>
         (NeedsBeginFrames (sources s i) \<longleftrightarrow> active_source (mux s) = Some i \<and> src_needs (mux s)) \<and>
         (\<forall>b. sources s i = BackToBack b \<longrightarrow> posted_tasks b \<le> 1)"
proof -
  have "routing_inv s" using frame_reach_inv [OF assms] by (simp add: mux_inv_def)
  then have r: "source_ok (sources s i)"
    "observer_of (sources s i) = (if active_source (mux s) = Some i then Some ObsMultiplexer else None)"
    "NeedsBeginFrames (sources s i) \<longleftrightarrow> active_source (mux s) = Some i \<and> src_needs (mux s)"
    by (simp_all add: routing_inv_def)
  have "posted_tasks b \<le> 1" if "sources s i = BackToBack b" for b
    using r(1) that by (simp split: if_splits)
  then show ?thesis using r(2,3) by auto
qed

text \<open>[C32] witness: a back-to-back source replaced by a synthetic one while frames are needed.\<close>

lemma multiplexer_routes_one_source_witness:
  "active_source (mux (snd example_run)) = Some 1 \<and> src_needs (mux (snd example_run)) \<and>
   observer_of (sources (snd example_run) 0) \<noteq> Some ObsMultiplexer \<and>
   \<not> NeedsBeginFrames (sources (snd example_run) 0) \<and>
   NeedsBeginFrames (sources (snd example_run) 1)"
proof -
  have "active_source (mux (snd example_run)) = Some 1" "src_needs (mux (snd example_run))"
    by code_simp+
  then show ?thesis
    using multiplexer_routes_one_source [OF example_run_reach, of 0]
      multiplexer_routes_one_source [OF example_run_reach, of 1] by simp
qed

text \<open>[C33]
  The frames the observer uses are valid and at least the minimum interval apart, oldest to
  newest, across every switch of the source and whatever frames the observer drops: the
  multiplexer keeps the frame times of its observer from going back.
\<close>

theorem multiplexer_frame_times_increase:
  assumes "frame_reach used m0 now s"
  shows "sorted_wrt (\<lambda>later earlier. frame_time earlier + m0 \<le> frame_time later) (used_frames s) \<and>
         (\<forall>a\<in>set (used_frames s). IsValid a)"
  using frame_reach_inv [OF assms] by (simp add: mux_inv_def frames_inv_def)

text \<open>[C33] witness: the missed frame of the new source, older than the last frame, is discarded.\<close>

lemma multiplexer_frame_times_increase_witness:
  "map frame_time (used_frames (snd example_run)) = [112, 100] \<and>
   sorted_wrt (\<lambda>later earlier. frame_time earlier + 0 \<le> frame_time later)
     (used_frames (snd example_run))"
proof -
  have "map frame_time (used_frames (snd example_run)) = [112, 100]" by code_simp
  then show ?thesis using multiplexer_frame_times_increase [OF example_run_reach] by blast
qed

text \<open>
  The interface promises frame times strictly greater than before, and so does the comment of
  \<open>IsIncreasing\<close>; but the test is \<open>\<ge>\<close> against the last frame time plus the minimum interval, which is
  zero unless it is set, so a frame with the time of the last used one is forwarded and used.
\<close>

theorem equal_frame_time_forwarded:
  assumes "src_observer (mux s) = Some ObsClient" and "minimum_interval (mux s) = 0"
    and "IsValid (last_begin_frame_args (client s))"
    and "frame_time args = frame_time (last_begin_frame_args (client s))"
    and "used (client s) args"
  shows "used_frames (Mux_OnBeginFrame used args s) = args # used_frames s"
  using assms by (simp add: Mux_OnBeginFrame_def IsIncreasing_def Mux_CallOnBeginFrame_def)

text \<open>witness: the last frame of the example run delivered again.\<close>

lemma equal_frame_time_forwarded_witness:
  "map frame_time (used_frames (Mux_OnBeginFrame (\<lambda>_ _. True)
     (last_begin_frame_args (client (snd example_run))) (snd example_run))) = [112, 112, 100]"
proof -
  have "src_observer (mux (snd example_run)) = Some ObsClient"
    "minimum_interval (mux (snd example_run)) = 0"
    "IsValid (last_begin_frame_args (client (snd example_run)))"
    "map frame_time (used_frames (snd example_run)) = [112, 100]"
    "frame_time (last_begin_frame_args (client (snd example_run))) = 112"
    by code_simp+
  then show ?thesis
    using equal_frame_time_forwarded [of "snd example_run"
        "last_begin_frame_args (client (snd example_run))" "\<lambda>_ _. True"] by simp
qed

text \<open>
  Switching to another known source keeps the request of the multiplexer's client: the new source
  is observed and, exactly when frames were needed before, switched on; every other source is
  switched off and unobserved.
\<close>

theorem SetActiveSource_hands_over:
  assumes "frame_reach used m0 now s" and "HasSource j (mux s)"
  shows "src_needs (mux (SetActiveSource used now (Some j) s)) = src_needs (mux s) \<and>
         NeedsBeginFrames (sources (SetActiveSource used now (Some j) s) i) =
           (i = j \<and> src_needs (mux s)) \<and>
         (observer_of (sources (SetActiveSource used now (Some j) s) i) = Some ObsMultiplexer
            \<longleftrightarrow> i = j)"
proof -
  have d: "SetActiveSource_dcheck (Some j) s" using assms(2) by (simp add: SetActiveSource_dcheck_def)
  note a = SetActiveSource_inv [OF frame_reach_inv [OF assms(1)] d, of used]
  have "routing_inv (SetActiveSource used now (Some j) s)" using a(1) by (simp add: mux_inv_def)
  then show ?thesis using a(2) by (auto simp: routing_inv_def)
qed

text \<open>witness: back to the back-to-back source at the end of the example run.\<close>

lemma SetActiveSource_hands_over_witness:
  "NeedsBeginFrames (sources (SetActiveSource (\<lambda>_ _. True) 113 (Some 0) (snd example_run)) 0) \<and>
   \<not> NeedsBeginFrames (sources (SetActiveSource (\<lambda>_ _. True) 113 (Some 0) (snd example_run)) 1)"
proof -
  have "HasSource 0 (mux (snd example_run))" "src_needs (mux (snd example_run))"
    "fst example_run = 113" by code_simp+
  then show ?thesis
    using SetActiveSource_hands_over [OF example_run_reach, of 0 0]
      SetActiveSource_hands_over [OF example_run_reach, of 0 1] by simp
qed

end
