(* ===== verification/Scheduler.thy ===== *)
theory Scheduler
  imports Scheduler_Protocol Begin_Frame_Sources "HOL-Library.Monad_Syntax"
begin

text \<open>
  The class \<open>Scheduler\<close> (\<^verbatim>\<open>cc/scheduler/scheduler.{h,cc}\<close>): it owns the state machine, asks the
  frame source for frames, queues the frames it cannot start yet, posts deadlines and runs the
  actions the state machine asks for by calling its client. The client may call back into the
  scheduler from any callback, and \<open>ProcessScheduledActions\<close> refuses to nest. The model is
  layered accordingly: every handler takes the function \<open>psa\<close> that stands for a call of
  \<open>ProcessScheduledActions\<close>, which returns at once (\<open>Some\<close>) where the handler runs inside it and is
  \<open>ProcessScheduledActions\<close> itself otherwise. The result is \<open>None\<close> when the loop of
  \<open>ProcessScheduledActions\<close> does not end.

  The environment is a record of functions of the scheduler's state, whose log of effects makes
  them depend on the whole history: what the client calls back, the result of a draw, the clock,
  the missed tick (frame time, deadline and interval) for which a frame source that is switched
  on delivers a \<open>MISSED\<close> frame, and the estimates of \<open>CompositorTimingHistory\<close>. Of the public operations, \<open>SetThrottleFrameProduction\<close> and
  \<open>OnDrawForOutputSurface\<close> are not called from within a callback; every other one may be.
\<close>

section \<open>State\<close>

text \<open>The callbacks of \<open>SchedulerClient\<close>.\<close>

datatype callback =
    WillBeginImplFrame begin_frame_args
  | ScheduledActionSendBeginMainFrame begin_frame_args
  | ScheduledActionDrawAndSwapIfPossible
  | ScheduledActionDrawAndSwapForced
  | ScheduledActionAnimate
  | ScheduledActionCommit
  | ScheduledActionActivateSyncTree
  | ScheduledActionBeginOutputSurfaceCreation
  | ScheduledActionPrepareTiles
  | ScheduledActionInvalidateOutputSurface
  | DidFinishImplFrame
  | SendBeginFramesToChildren begin_frame_args
  | SendBeginMainFrameNotExpectedSoon

text \<open>What the scheduler does to the objects around it.\<close>

datatype effect =
    ClientCallback callback
  | SetNeedsFrames bool
  | SourceDidFinishFrame nat
  | SwitchSource bool
  | UpdateVSync int int
  | PostRetroFrame
  | PostDeadline deadline_mode_t int

text \<open>
  \<open>frame_source_needs\<close> is \<open>frame_source_->NeedsBeginFrames()\<close>. A cancelable task is a flag, set
  from its \<open>Reset\<close> to its \<open>Cancel\<close>; \<open>deadline_posted\<close> is the time at which the posted deadline
  task is due, as \<open>Reset\<close> alone posts nothing.
\<close>

record scheduler = observer_base +
  state_machine :: ssm
  sched_settings :: scheduler_settings
  throttled :: bool
  frame_source_needs :: bool
  authoritative_vsync_interval :: int
  last_vsync_timebase :: int
  estimated_parent_draw_time :: int
  begin_retro_frame_args :: "begin_frame_args list"
  begin_retro_frame_task :: bool
  begin_impl_frame_deadline_mode :: deadline_mode_t
  begin_impl_frame_deadline_task :: bool
  deadline_posted :: "int option"
  begin_impl_frame_tracker :: begin_frame_tracker
  begin_main_frame_args :: begin_frame_args
  inside_process_scheduled_actions :: bool
  inside_action :: action_t
  effects :: "effect list"

datatype sched_call =
    CommitVSyncParameters int int
  | SetEstimatedParentDrawTime int
  | CallSetVisible bool
  | CallSetResourcelessSoftareDraw bool
  | CallSetCanDraw bool
  | CallNotifyReadyToActivate
  | CallNotifyReadyToDraw
  | CallSetNeedsBeginMainFrame
  | CallSetNeedsOneBeginImplFrame
  | CallSetNeedsRedraw
  | CallSetNeedsAnimate
  | CallSetNeedsPrepareTiles
  | CallSetMaxSwapsPending int
  | CallDidSwapBuffers
  | CallDidSwapBuffersComplete
  | CallSetImplLatencyTakesPriority bool
  | CallNotifyReadyToCommit
  | CallBeginMainFrameAborted commit_early_out_reason_t
  | CallDidPrepareTiles
  | CallDidLoseOutputSurface
  | CallDidCreateAndInitializeOutputSurface
  | CallNotifyBeginMainFrameStarted
  | CallSetChildrenNeedBeginFrames bool
  | SetAuthoritativeVSyncInterval int
  | CallSetVideoNeedsBeginFrames bool
  | CallSetDeferCommits bool

record sched_env =
  client_calls :: "callback \<Rightarrow> scheduler \<Rightarrow> sched_call list"
  draw_result :: "scheduler \<Rightarrow> draw_result_t"
  env_now :: "scheduler \<Rightarrow> int"
  missed_tick :: "scheduler \<Rightarrow> (int \<times> int \<times> int) option"
  DrawDurationEstimate :: "scheduler \<Rightarrow> int"
  BeginMainFrameToCommitDurationEstimate :: "scheduler \<Rightarrow> int"
  CommitToReadyToActivateDurationEstimate :: "scheduler \<Rightarrow> int"
  ActivateDurationEstimate :: "scheduler \<Rightarrow> int"

definition log_effect :: "effect \<Rightarrow> scheduler \<Rightarrow> scheduler" where
  "log_effect e s = s\<lparr>effects := e # effects s\<rparr>"

definition on_machine :: "(ssm \<Rightarrow> ssm) \<Rightarrow> scheduler \<Rightarrow> scheduler" where
  "on_machine f s = s\<lparr>state_machine := f (state_machine s)\<rparr>"

definition kDeadlineFudgeFactor :: int where
  "kDeadlineFudgeFactor = 1000"

section \<open>Calls from the client\<close>

definition Sched_CommitVSyncParameters :: "int \<Rightarrow> int \<Rightarrow> scheduler \<Rightarrow> scheduler" where
  "Sched_CommitVSyncParameters timebase iv s =
     (let iv = (if authoritative_vsync_interval s \<noteq> 0 then authoritative_vsync_interval s
                else if iv = 0 then DefaultInterval else iv);
          s = s\<lparr>last_vsync_timebase := timebase\<rparr>
      in if \<not> use_external_begin_frame_source (sched_settings s)
         then log_effect (UpdateVSync timebase iv) s else s)"

definition Sched_SetAuthoritativeVSyncInterval :: "int \<Rightarrow> scheduler \<Rightarrow> scheduler" where
  "Sched_SetAuthoritativeVSyncInterval iv s =
     (let s = s\<lparr>authoritative_vsync_interval := iv\<rparr>
      in if \<not> use_external_begin_frame_source (sched_settings s)
         then log_effect (UpdateVSync (last_vsync_timebase s) iv) s else s)"

definition Sched_SetEstimatedParentDrawTime :: "int \<Rightarrow> scheduler \<Rightarrow> scheduler" where
  "Sched_SetEstimatedParentDrawTime draw_time s = s\<lparr>estimated_parent_draw_time := draw_time\<rparr>"

definition Sched_DidLoseOutputSurface ::
    "(scheduler \<Rightarrow> scheduler option) \<Rightarrow> scheduler \<Rightarrow> scheduler option" where
  "Sched_DidLoseOutputSurface psa s =
     psa (on_machine DidLoseOutputSurface
            (s\<lparr>begin_retro_frame_args := [], begin_retro_frame_task := False\<rparr>))"

definition Sched_DidCreateAndInitializeOutputSurface_dcheck :: "scheduler \<Rightarrow> bool" where
  "Sched_DidCreateAndInitializeOutputSurface_dcheck s \<longleftrightarrow>
     \<not> frame_source_needs s \<and> \<not> begin_impl_frame_deadline_task s"

fun run_call ::
    "(scheduler \<Rightarrow> scheduler option) \<Rightarrow> sched_call \<Rightarrow> scheduler \<Rightarrow> scheduler option" where
  "run_call psa (CommitVSyncParameters tb iv) s = Some (Sched_CommitVSyncParameters tb iv s)"
| "run_call psa (SetEstimatedParentDrawTime d) s = Some (Sched_SetEstimatedParentDrawTime d s)"
| "run_call psa (CallSetVisible b) s = psa (on_machine (SetVisible b) s)"
| "run_call psa (CallSetResourcelessSoftareDraw b) s =
     psa (on_machine (SetResourcelessSoftareDraw b) s)"
| "run_call psa (CallSetCanDraw b) s = psa (on_machine (SetCanDraw b) s)"
| "run_call psa CallNotifyReadyToActivate s = psa (on_machine NotifyReadyToActivate s)"
| "run_call psa CallNotifyReadyToDraw s = psa (on_machine NotifyReadyToDraw s)"
| "run_call psa CallSetNeedsBeginMainFrame s = psa (on_machine SetNeedsBeginMainFrame s)"
| "run_call psa CallSetNeedsOneBeginImplFrame s = psa (on_machine SetNeedsOneBeginImplFrame s)"
| "run_call psa CallSetNeedsRedraw s = psa (on_machine SetNeedsRedraw s)"
| "run_call psa CallSetNeedsAnimate s = psa (on_machine SetNeedsAnimate s)"
| "run_call psa CallSetNeedsPrepareTiles s = psa (on_machine SetNeedsPrepareTiles s)"
| "run_call psa (CallSetMaxSwapsPending n) s = Some (on_machine (SetMaxSwapsPending n) s)"
| "run_call psa CallDidSwapBuffers s = Some (on_machine DidSwapBuffers s)"
| "run_call psa CallDidSwapBuffersComplete s = psa (on_machine DidSwapBuffersComplete s)"
| "run_call psa (CallSetImplLatencyTakesPriority b) s =
     psa (on_machine (SetImplLatencyTakesPriority b) s)"
| "run_call psa CallNotifyReadyToCommit s = psa (on_machine NotifyReadyToCommit s)"
| "run_call psa (CallBeginMainFrameAborted r) s = psa (on_machine (BeginMainFrameAborted r) s)"
| "run_call psa CallDidPrepareTiles s = Some (on_machine DidPrepareTiles s)"
| "run_call psa CallDidLoseOutputSurface s = Sched_DidLoseOutputSurface psa s"
| "run_call psa CallDidCreateAndInitializeOutputSurface s =
     psa (on_machine DidCreateAndInitializeOutputSurface s)"
| "run_call psa CallNotifyBeginMainFrameStarted s =
     Some (on_machine NotifyBeginMainFrameStarted s)"
| "run_call psa (CallSetChildrenNeedBeginFrames b) s =
     psa (on_machine (SetChildrenNeedBeginFrames b) s)"
| "run_call psa (SetAuthoritativeVSyncInterval iv) s =
     Some (Sched_SetAuthoritativeVSyncInterval iv s)"
| "run_call psa (CallSetVideoNeedsBeginFrames b) s =
     psa (on_machine (SetVideoNeedsBeginFrames b) s)"
| "run_call psa (CallSetDeferCommits b) s = psa (on_machine (SetDeferCommits b) s)"

fun run_calls ::
    "(scheduler \<Rightarrow> scheduler option) \<Rightarrow> sched_call list \<Rightarrow> scheduler \<Rightarrow> scheduler option" where
  "run_calls psa [] s = Some s"
| "run_calls psa (c # cs) s = Option.bind (run_call psa c s) (run_calls psa cs)"

definition client_call ::
    "(scheduler \<Rightarrow> scheduler option) \<Rightarrow> sched_env \<Rightarrow> callback \<Rightarrow> scheduler \<Rightarrow> scheduler option" where
  "client_call psa env cb s =
     (let s = log_effect (ClientCallback cb) s in run_calls psa (client_calls env cb s) s)"

section \<open>Frames\<close>

definition PostBeginRetroFrameIfNeeded :: "scheduler \<Rightarrow> scheduler" where
  "PostBeginRetroFrameIfNeeded s =
     (if \<not> frame_source_needs s then s
      else if begin_retro_frame_args s = [] \<or> begin_retro_frame_task s then s
      else if begin_impl_frame_state (state_machine s) \<noteq> BEGIN_IMPL_FRAME_STATE_IDLE then s
      else log_effect PostRetroFrame (s\<lparr>begin_retro_frame_task := True\<rparr>))"

definition CanCommitAndActivateBeforeDeadline ::
    "sched_env \<Rightarrow> begin_frame_args \<Rightarrow> scheduler \<Rightarrow> bool" where
  "CanCommitAndActivateBeforeDeadline env args s =
     (let estimated_draw_time =
        frame_time args + BeginMainFrameToCommitDurationEstimate env s +
        CommitToReadyToActivateDurationEstimate env s + ActivateDurationEstimate env s
      in estimated_draw_time < deadline args)"

definition ShouldRecoverMainLatency :: "sched_env \<Rightarrow> begin_frame_args \<Rightarrow> scheduler \<Rightarrow> bool" where
  "ShouldRecoverMainLatency env args s =
     (if \<not> main_thread_missed_last_deadline (state_machine s) then False
      else if impl_latency_takes_priority (state_machine s) then False
      else CanCommitAndActivateBeforeDeadline env args s)"

definition ShouldRecoverImplLatency :: "sched_env \<Rightarrow> begin_frame_args \<Rightarrow> scheduler \<Rightarrow> bool" where
  "ShouldRecoverImplLatency env args s =
     (if \<not> throttled s then False
      else if \<not> SwapThrottled (state_machine s) then False
      else
        (let can_draw_before_deadline = frame_time args < deadline args
         in if impl_latency_takes_priority (state_machine s) then can_draw_before_deadline
            else if OnlyImplSideUpdatesExpected (state_machine s) then can_draw_before_deadline
            else CanCommitAndActivateBeforeDeadline env args s))"

definition BeginImplFrame ::
    "(scheduler \<Rightarrow> scheduler option) \<Rightarrow> sched_env \<Rightarrow> begin_frame_args \<Rightarrow> scheduler \<Rightarrow> scheduler option"
  where
  "BeginImplFrame psa env args s =
     (let s = s\<lparr>begin_impl_frame_tracker :=
                 Tracker_Start (env_now env s) args (begin_impl_frame_tracker s),
               begin_main_frame_args := args\<rparr>;
          s = on_machine OnBeginImplFrame s
      in do {
           s \<leftarrow> client_call psa env
                 (WillBeginImplFrame (Tracker_Current (begin_impl_frame_tracker s))) s;
           psa s
         })"

definition BeginImplFrame_dcheck :: "scheduler \<Rightarrow> bool" where
  "BeginImplFrame_dcheck s \<longleftrightarrow>
     begin_impl_frame_state (state_machine s) = BEGIN_IMPL_FRAME_STATE_IDLE \<and>
     \<not> begin_impl_frame_deadline_task s \<and> HasInitializedOutputSurface (state_machine s)"

definition FinishImplFrame ::
    "(scheduler \<Rightarrow> scheduler option) \<Rightarrow> sched_env \<Rightarrow> scheduler \<Rightarrow> scheduler option" where
  "FinishImplFrame psa env s =
     do {
       s \<leftarrow> psa (on_machine OnBeginImplFrameIdle s);
       s \<leftarrow> client_call psa env DidFinishImplFrame s;
       let s = log_effect (SourceDidFinishFrame (length (begin_retro_frame_args s))) s;
       Some (s\<lparr>begin_impl_frame_tracker := Tracker_Finish (env_now env s) (begin_impl_frame_tracker s)\<rparr>)
     }"

definition BeginImplFrameSynchronous ::
    "(scheduler \<Rightarrow> scheduler option) \<Rightarrow> sched_env \<Rightarrow> begin_frame_args \<Rightarrow> scheduler \<Rightarrow> scheduler option"
  where
  "BeginImplFrameSynchronous psa env args s =
     do { s \<leftarrow> BeginImplFrame psa env args s; FinishImplFrame psa env s }"

definition BeginImplFrameWithDeadline ::
    "(scheduler \<Rightarrow> scheduler option) \<Rightarrow> sched_env \<Rightarrow> begin_frame_args \<Rightarrow> scheduler \<Rightarrow> scheduler option"
  where
  "BeginImplFrameWithDeadline psa env args s =
     (let adjusted_args = args\<lparr>deadline := deadline args - DrawDurationEstimate env s\<rparr>;
          adjusted_args = adjusted_args\<lparr>deadline := deadline adjusted_args - kDeadlineFudgeFactor\<rparr>;
          start = (\<lambda>s. do {
            s \<leftarrow> BeginImplFrame psa env adjusted_args s;
            psa (on_machine OnBeginImplFrameDeadlinePending s)
          })
      in if ShouldRecoverMainLatency env adjusted_args s
         then start (on_machine SetSkipNextBeginMainFrameToReduceLatency s)
         else if ShouldRecoverImplLatency env adjusted_args s
         then Some (log_effect (SourceDidFinishFrame (length (begin_retro_frame_args s))) s)
         else start s)"

definition OnBeginFrameDerivedImpl ::
    "(scheduler \<Rightarrow> scheduler option) \<Rightarrow> sched_env \<Rightarrow> begin_frame_args \<Rightarrow> scheduler \<Rightarrow> scheduler option"
  where
  "OnBeginFrameDerivedImpl psa env args s =
     (let adjusted_args =
        args\<lparr>deadline := deadline args - estimated_parent_draw_time s,
             on_critical_path := \<not> impl_latency_takes_priority (state_machine s)\<rparr>
      in do {
        s \<leftarrow> (if children_need_begin_frames (state_machine s)
             then client_call psa env (SendBeginFramesToChildren adjusted_args) s
             else Some s);
        if using_synchronous_renderer_compositor (sched_settings s)
        then BeginImplFrameSynchronous psa env adjusted_args s
        else if args_type adjusted_args = MISSED
        then Some (PostBeginRetroFrameIfNeeded
                     (s\<lparr>begin_retro_frame_args := begin_retro_frame_args s @ [adjusted_args]\<rparr>))
        else
          (let should_defer_begin_frame =
             begin_retro_frame_args s \<noteq> [] \<or> begin_retro_frame_task s \<or> \<not> frame_source_needs s \<or>
             begin_impl_frame_state (state_machine s) \<noteq> BEGIN_IMPL_FRAME_STATE_IDLE
           in if should_defer_begin_frame
              then Some (s\<lparr>begin_retro_frame_args := begin_retro_frame_args s @ [adjusted_args]\<rparr>)
              else BeginImplFrameWithDeadline psa env adjusted_args s)
      })"

text \<open>\<open>BeginFrameObserverBase::OnBeginFrame\<close>: the scheduler uses every frame.\<close>

definition Sched_OnBeginFrame ::
    "(scheduler \<Rightarrow> scheduler option) \<Rightarrow> sched_env \<Rightarrow> begin_frame_args \<Rightarrow> scheduler \<Rightarrow> scheduler option"
  where
  "Sched_OnBeginFrame psa env args s =
     do {
       s \<leftarrow> OnBeginFrameDerivedImpl psa env args s;
       Some (s\<lparr>last_begin_frame_args := args\<rparr>)
     }"

text \<open>
  \<open>frame_source_->SetNeedsBeginFrames\<close>: the flag is set first; a source that is switched on
  may deliver the frame of the tick that was missed before it returns, always as \<open>MISSED\<close>
  (\<open>src.set_needs_call\<close>).
\<close>

definition FrameSource_SetNeedsBeginFrames ::
    "(scheduler \<Rightarrow> scheduler option) \<Rightarrow> sched_env \<Rightarrow> bool \<Rightarrow> scheduler \<Rightarrow> scheduler option" where
  "FrameSource_SetNeedsBeginFrames psa env b s =
     (let s = log_effect (SetNeedsFrames b) (s\<lparr>frame_source_needs := b\<rparr>)
      in if \<not> b then Some s
         else (case missed_tick env s of
                 None \<Rightarrow> Some s
               | Some (ft, dl, iv) \<Rightarrow>
                   Sched_OnBeginFrame psa env (BeginFrameArgs_Create ft dl iv MISSED) s))"

section \<open>Deadlines\<close>

definition ScheduleBeginImplFrameDeadline :: "sched_env \<Rightarrow> scheduler \<Rightarrow> scheduler" where
  "ScheduleBeginImplFrameDeadline env s =
     (let mode = CurrentBeginImplFrameDeadlineMode (state_machine s);
          s = s\<lparr>begin_impl_frame_deadline_task := True, deadline_posted := None,
                begin_impl_frame_deadline_mode := mode\<rparr>;
          args = Tracker_Current (begin_impl_frame_tracker s);
          post = (\<lambda>deadline.
            (let delta = max (deadline - env_now env s) 0
             in log_effect (PostDeadline mode delta)
                  (s\<lparr>deadline_posted := Some (env_now env s + delta)\<rparr>)))
      in case mode of
           BEGIN_IMPL_FRAME_DEADLINE_MODE_NONE \<Rightarrow> s
         | BEGIN_IMPL_FRAME_DEADLINE_MODE_IMMEDIATE \<Rightarrow> post 0
         | BEGIN_IMPL_FRAME_DEADLINE_MODE_REGULAR \<Rightarrow> post (deadline args)
         | BEGIN_IMPL_FRAME_DEADLINE_MODE_LATE \<Rightarrow> post (frame_time args + interval args)
         | BEGIN_IMPL_FRAME_DEADLINE_MODE_BLOCKED_ON_READY_TO_DRAW \<Rightarrow> s)"

definition ScheduleBeginImplFrameDeadlineIfNeeded :: "sched_env \<Rightarrow> scheduler \<Rightarrow> scheduler" where
  "ScheduleBeginImplFrameDeadlineIfNeeded env s =
     (if using_synchronous_renderer_compositor (sched_settings s) then s
      else if begin_impl_frame_state (state_machine s) \<noteq> BEGIN_IMPL_FRAME_STATE_INSIDE_BEGIN_FRAME
      then s
      else if begin_impl_frame_deadline_mode s = CurrentBeginImplFrameDeadlineMode (state_machine s) \<and>
              begin_impl_frame_deadline_task s
      then s
      else ScheduleBeginImplFrameDeadline env s)"

section \<open>ProcessScheduledActions\<close>

definition SetupNextBeginFrameIfNeeded :: "sched_env \<Rightarrow> scheduler \<Rightarrow> scheduler option" where
  "SetupNextBeginFrameIfNeeded env s =
     do {
       s \<leftarrow> (if frame_source_needs s \<noteq> BeginFrameNeeded (state_machine s)
            then (if BeginFrameNeeded (state_machine s)
                  then FrameSource_SetNeedsBeginFrames Some env True s
                  else if begin_impl_frame_state (state_machine s) = BEGIN_IMPL_FRAME_STATE_IDLE
                  then do {
                         s \<leftarrow> FrameSource_SetNeedsBeginFrames Some env False s;
                         client_call Some env SendBeginMainFrameNotExpectedSoon s
                       }
                  else Some s)
            else Some s);
       Some (PostBeginRetroFrameIfNeeded s)
     }"

definition DrawAndSwapIfPossible :: "sched_env \<Rightarrow> scheduler \<Rightarrow> scheduler option" where
  "DrawAndSwapIfPossible env s =
     do {
       s \<leftarrow> client_call Some env ScheduledActionDrawAndSwapIfPossible s;
       Some (on_machine (DidDrawIfPossibleCompleted (draw_result env s)) s)
     }"

definition DrawAndSwapForced :: "sched_env \<Rightarrow> scheduler \<Rightarrow> scheduler option" where
  "DrawAndSwapForced env s = client_call Some env ScheduledActionDrawAndSwapForced s"

fun perform_action :: "sched_env \<Rightarrow> action_t \<Rightarrow> scheduler \<Rightarrow> scheduler option" where
  "perform_action env ACTION_NONE s = Some s"
| "perform_action env ACTION_ANIMATE s =
     client_call Some env ScheduledActionAnimate (on_machine WillAnimate s)"
| "perform_action env ACTION_SEND_BEGIN_MAIN_FRAME s =
     client_call Some env (ScheduledActionSendBeginMainFrame (begin_main_frame_args s))
       (on_machine WillSendBeginMainFrame s)"
| "perform_action env ACTION_COMMIT s =
     client_call Some env ScheduledActionCommit (on_machine (WillCommit False) s)"
| "perform_action env ACTION_ACTIVATE_SYNC_TREE s =
     client_call Some env ScheduledActionActivateSyncTree (on_machine WillActivate s)"
| "perform_action env ACTION_DRAW_AND_SWAP_IF_POSSIBLE s =
     DrawAndSwapIfPossible env (on_machine (WillDraw True) s)"
| "perform_action env ACTION_DRAW_AND_SWAP_FORCED s =
     DrawAndSwapForced env (on_machine (WillDraw True) s)"
| "perform_action env ACTION_DRAW_AND_SWAP_ABORT s = Some (on_machine (WillDraw False) s)"
| "perform_action env ACTION_BEGIN_OUTPUT_SURFACE_CREATION s =
     client_call Some env ScheduledActionBeginOutputSurfaceCreation
       (on_machine WillBeginOutputSurfaceCreation s)"
| "perform_action env ACTION_PREPARE_TILES s =
     client_call Some env ScheduledActionPrepareTiles (on_machine WillPrepareTiles s)"
| "perform_action env ACTION_INVALIDATE_OUTPUT_SURFACE s =
     client_call Some env ScheduledActionInvalidateOutputSurface
       (on_machine WillInvalidateOutputSurface s)"

text \<open>One turn of the loop; \<open>mark_inside_action\<close> restores \<open>inside_action_\<close> at its end.\<close>

definition process_action :: "sched_env \<Rightarrow> action_t \<Rightarrow> scheduler \<Rightarrow> scheduler option" where
  "process_action env action s =
     do {
       s' \<leftarrow> perform_action env action (s\<lparr>inside_action := action\<rparr>);
       Some (s'\<lparr>inside_action := inside_action s\<rparr>)
     }"

partial_function (option) process_loop :: "sched_env \<Rightarrow> scheduler \<Rightarrow> scheduler option" where
  [code]: "process_loop env s =
     (let action = NextAction (state_machine s)
      in if action = ACTION_NONE then Some s
         else Option.bind (process_action env action s) (process_loop env))"

definition ProcessScheduledActions :: "sched_env \<Rightarrow> scheduler \<Rightarrow> scheduler option" where
  "ProcessScheduledActions env s =
     (if inside_process_scheduled_actions s then Some s
      else do {
        s \<leftarrow> process_loop env (s\<lparr>inside_process_scheduled_actions := True\<rparr>);
        let s = ScheduleBeginImplFrameDeadlineIfNeeded env s;
        s \<leftarrow> SetupNextBeginFrameIfNeeded env s;
        Some (s\<lparr>inside_process_scheduled_actions := False\<rparr>)
      })"

section \<open>Entry points\<close>

definition api_call :: "sched_env \<Rightarrow> sched_call \<Rightarrow> scheduler \<Rightarrow> scheduler option" where
  "api_call env = run_call (ProcessScheduledActions env)"

definition SetThrottleFrameProduction :: "sched_env \<Rightarrow> bool \<Rightarrow> scheduler \<Rightarrow> scheduler option" where
  "SetThrottleFrameProduction env throttle s =
     (let s = log_effect (SwitchSource throttle) (s\<lparr>throttled := throttle\<rparr>)
      in do {
        s \<leftarrow> (if frame_source_needs s
             then FrameSource_SetNeedsBeginFrames (ProcessScheduledActions env) env True s
             else Some s);
        ProcessScheduledActions env s
      })"

definition OnDrawForOutputSurface :: "sched_env \<Rightarrow> scheduler \<Rightarrow> scheduler option" where
  "OnDrawForOutputSurface env s =
     do {
       s \<leftarrow> ProcessScheduledActions env (on_machine OnBeginImplFrameDeadline s);
       ProcessScheduledActions env (on_machine OnBeginImplFrameIdle s)
     }"

text \<open>Discarding the expired frames at the front of the queue.\<close>

fun discard_expired :: "int \<Rightarrow> begin_frame_args list \<Rightarrow> begin_frame_args list \<times> effect list" where
  "discard_expired now [] = ([], [])"
| "discard_expired now (args # rest) =
     (if now \<le> deadline args then (args # rest, [])
      else let (kept, es) = discard_expired now rest
           in (kept, es @ [SourceDidFinishFrame (length rest)]))"

definition BeginRetroFrame :: "sched_env \<Rightarrow> scheduler \<Rightarrow> scheduler option" where
  "BeginRetroFrame env s =
     (let s = s\<lparr>begin_retro_frame_task := False\<rparr>;
          (kept, es) = discard_expired (env_now env s) (begin_retro_frame_args s);
          s = s\<lparr>begin_retro_frame_args := kept, effects := es @ effects s\<rparr>
      in case kept of
           [] \<Rightarrow> Some s
         | front # rest \<Rightarrow>
             BeginImplFrameWithDeadline (ProcessScheduledActions env) env front
               (s\<lparr>begin_retro_frame_args := rest\<rparr>))"

definition BeginRetroFrame_dcheck :: "scheduler \<Rightarrow> bool" where
  "BeginRetroFrame_dcheck s \<longleftrightarrow>
     \<not> using_synchronous_renderer_compositor (sched_settings s) \<and>
     begin_retro_frame_args s \<noteq> [] \<and> begin_retro_frame_task s \<and>
     begin_impl_frame_state (state_machine s) = BEGIN_IMPL_FRAME_STATE_IDLE"

definition Sched_OnBeginImplFrameDeadline :: "sched_env \<Rightarrow> scheduler \<Rightarrow> scheduler option" where
  "Sched_OnBeginImplFrameDeadline env s =
     do {
       s \<leftarrow> ProcessScheduledActions env
             (on_machine OnBeginImplFrameDeadline
                (s\<lparr>begin_impl_frame_deadline_task := False, deadline_posted := None\<rparr>));
       FinishImplFrame (ProcessScheduledActions env) env s
     }"

definition Scheduler_members :: "scheduler_settings \<Rightarrow> scheduler" where
  "Scheduler_members se =
     \<lparr>last_begin_frame_args = BeginFrameArgs, dropped_begin_frame_args = 0,
      state_machine = SchedulerStateMachine se, sched_settings = se, throttled = False,
      frame_source_needs = False, authoritative_vsync_interval = 0, last_vsync_timebase = 0,
      estimated_parent_draw_time = 0, begin_retro_frame_args = [], begin_retro_frame_task = False,
      begin_impl_frame_deadline_mode = BEGIN_IMPL_FRAME_DEADLINE_MODE_NONE,
      begin_impl_frame_deadline_task = False, deadline_posted = None,
      begin_impl_frame_tracker = BeginFrameTracker, begin_main_frame_args = BeginFrameArgs,
      inside_process_scheduled_actions = False, inside_action = ACTION_NONE, effects = []\<rparr>"

text \<open>The constructor ends by selecting the frame source.\<close>

definition Scheduler :: "sched_env \<Rightarrow> scheduler_settings \<Rightarrow> scheduler option" where
  "Scheduler env se =
     SetThrottleFrameProduction env (throttle_frame_production se) (Scheduler_members se)"

end
