(* ===== verification/Scheduler_Correct.thy ===== *)
theory Scheduler_Correct
  imports Scheduler
begin

text \<open>
  Correctness of \<open>Scheduler\<close>: the loop of \<open>ProcessScheduledActions\<close> ends for every well-behaved
  client and leaves nothing to do, the frame source is asked for frames exactly when they are
  needed, deadlines and deferred frames are scheduled when they should be, and the
  assertions of the frame handlers hold in every reachable state. The calls of
  \<open>ProcessScheduledActions\<close> inside a handler are used through the locale \<open>action_processor\<close>, with the
  nested call and the outer call as its two interpretations.
\<close>

section \<open>Calls made inside ProcessScheduledActions\<close>

text \<open>The operation of the state machine behind a public operation of the scheduler.\<close>

fun call_op :: "sched_call \<Rightarrow> ssm_op option" where
  "call_op (CommitVSyncParameters tb iv) = None"
| "call_op (SetEstimatedParentDrawTime d) = None"
| "call_op (CallSetVisible b) = Some (OpSetVisible b)"
| "call_op (CallSetResourcelessSoftareDraw b) = Some (OpSetResourcelessSoftareDraw b)"
| "call_op (CallSetCanDraw b) = Some (OpSetCanDraw b)"
| "call_op CallNotifyReadyToActivate = Some OpNotifyReadyToActivate"
| "call_op CallNotifyReadyToDraw = Some OpNotifyReadyToDraw"
| "call_op CallSetNeedsBeginMainFrame = Some OpSetNeedsBeginMainFrame"
| "call_op CallSetNeedsOneBeginImplFrame = Some OpSetNeedsOneBeginImplFrame"
| "call_op CallSetNeedsRedraw = Some OpSetNeedsRedraw"
| "call_op CallSetNeedsAnimate = Some OpSetNeedsAnimate"
| "call_op CallSetNeedsPrepareTiles = Some OpSetNeedsPrepareTiles"
| "call_op (CallSetMaxSwapsPending n) = Some (OpSetMaxSwapsPending n)"
| "call_op CallDidSwapBuffers = Some OpDidSwapBuffers"
| "call_op CallDidSwapBuffersComplete = Some OpDidSwapBuffersComplete"
| "call_op (CallSetImplLatencyTakesPriority b) = Some (OpSetImplLatencyTakesPriority b)"
| "call_op CallNotifyReadyToCommit = Some OpNotifyReadyToCommit"
| "call_op (CallBeginMainFrameAborted r) = Some (OpBeginMainFrameAborted r)"
| "call_op CallDidPrepareTiles = Some OpDidPrepareTiles"
| "call_op CallDidLoseOutputSurface = Some OpDidLoseOutputSurface"
| "call_op CallDidCreateAndInitializeOutputSurface = Some OpDidCreateAndInitializeOutputSurface"
| "call_op CallNotifyBeginMainFrameStarted = Some OpNotifyBeginMainFrameStarted"
| "call_op (CallSetChildrenNeedBeginFrames b) = Some (OpSetChildrenNeedBeginFrames b)"
| "call_op (SetAuthoritativeVSyncInterval iv) = None"
| "call_op (CallSetVideoNeedsBeginFrames b) = Some (OpSetVideoNeedsBeginFrames b)"
| "call_op (CallSetDeferCommits b) = Some (OpSetDeferCommits b)"

definition call_machine :: "sched_call \<Rightarrow> ssm \<Rightarrow> ssm" where
  "call_machine c m = (case call_op c of None \<Rightarrow> m | Some x \<Rightarrow> exec_op x m)"

text \<open>
  What no call and no action touches: the frame phase, the frame source, the deadline and the
  tracker; the queue of deferred frames is kept or emptied together with its task.
\<close>

definition calm :: "scheduler \<Rightarrow> scheduler \<Rightarrow> bool" where
  "calm s t \<longleftrightarrow>
     begin_impl_frame_state (state_machine t) = begin_impl_frame_state (state_machine s) \<and>
     frame_source_needs t = frame_source_needs s \<and> sched_settings t = sched_settings s \<and>
     begin_impl_frame_deadline_mode t = begin_impl_frame_deadline_mode s \<and>
     begin_impl_frame_deadline_task t = begin_impl_frame_deadline_task s \<and>
     deadline_posted t = deadline_posted s \<and>
     begin_impl_frame_tracker t = begin_impl_frame_tracker s \<and>
     inside_process_scheduled_actions t = inside_process_scheduled_actions s \<and>
     (begin_retro_frame_args t = begin_retro_frame_args s \<and>
        begin_retro_frame_task t = begin_retro_frame_task s \<or>
      begin_retro_frame_args t = [] \<and> \<not> begin_retro_frame_task t)"

lemma calm_refl [simp]: "calm s s"
  by (simp add: calm_def)

lemma calm_trans [trans]: "calm s t \<Longrightarrow> calm t u \<Longrightarrow> calm s u"
  unfolding calm_def by metis

definition phase_op :: "ssm_op \<Rightarrow> bool" where
  "phase_op x \<longleftrightarrow> x \<in> {OpOnBeginImplFrame, OpOnBeginImplFrameDeadlinePending,
     OpOnBeginImplFrameDeadline, OpOnBeginImplFrameIdle}"

lemma exec_op_phase:
  assumes "\<not> phase_op x"
  shows "begin_impl_frame_state (exec_op x m) = begin_impl_frame_state m"
proof (cases x)
  case (OpDidDrawIfPossibleCompleted r)
  then show ?thesis by (cases r) (simp_all add: Let_def ssm_if)
next
  case (OpBeginMainFrameAborted r)
  then show ?thesis by (cases r) (simp_all add: simple_ops)
qed (use assms in \<open>simp_all add: phase_op_def simple_ops Let_def ssm_if\<close>)

lemma call_op_phase: "call_op c = Some x \<Longrightarrow> \<not> phase_op x"
  by (cases c) (auto simp: phase_op_def)

lemma call_machine_phase [simp]:
  "begin_impl_frame_state (call_machine c m) = begin_impl_frame_state m"
  using call_op_phase [of c] by (auto simp: call_machine_def exec_op_phase split: option.split)

lemma log_effect_fields [simp]:
  "state_machine (log_effect e s) = state_machine s"
  "calm s (log_effect e s)" "calm (log_effect e s) s"
  by (simp_all add: log_effect_def calm_def)

lemma run_call_inside:
  "\<exists>t. run_call Some c s = Some t \<and> calm s t \<and>
       state_machine t = call_machine c (state_machine s)"
  by (cases c)
    (auto simp: call_machine_def on_machine_def calm_def exec_op_phase phase_op_def
      Sched_CommitVSyncParameters_def Sched_SetAuthoritativeVSyncInterval_def
      Sched_SetEstimatedParentDrawTime_def Sched_DidLoseOutputSurface_def log_effect_def Let_def
      simp del: exec_op.simps simp: exec_op.simps [symmetric])

lemma run_calls_inside:
  "\<exists>t. run_calls Some cs s = Some t \<and> calm s t \<and>
       state_machine t = fold call_machine cs (state_machine s)"
proof (induction cs arbitrary: s)
  case (Cons c cs)
  obtain t where t: "run_call Some c s = Some t" "calm s t"
    "state_machine t = call_machine c (state_machine s)"
    using run_call_inside by blast
  obtain u where "run_calls Some cs t = Some u" "calm t u"
    "state_machine u = fold call_machine cs (state_machine t)"
    using Cons.IH by blast
  then show ?case using t calm_trans by (auto intro!: exI [of _ u])
qed simp

lemma client_call_inside:
  "\<exists>t. client_call Some env cb s = Some t \<and> calm s t \<and>
       state_machine t =
         fold call_machine (client_calls env cb (log_effect (ClientCallback cb) s)) (state_machine s)"
proof -
  let ?s = "log_effect (ClientCallback cb) s"
  obtain t where "run_calls Some (client_calls env cb ?s) ?s = Some t" "calm ?s t"
    "state_machine t = fold call_machine (client_calls env cb ?s) (state_machine ?s)"
    using run_calls_inside by blast
  then show ?thesis
    using calm_trans [of s ?s t] by (auto simp: client_call_def Let_def)
qed

section \<open>The loop ends\<close>

text \<open>
  The work left in the pipeline: every action but \<open>ACTION_PREPARE_TILES\<close> makes it smaller. A
  commit (4) leaves a pending tree (2) and lets an animation happen again (1), an
  activation leaves a first draw (1), the funnels are filled and never emptied, and a lost
  surface (1) starts to be created (0).
\<close>

definition surface_rank :: "output_surface_state_t \<Rightarrow> nat" where
  "surface_rank st =
     (if st = OUTPUT_SURFACE_CREATING then 0 else if st = OUTPUT_SURFACE_NONE then 1 else 2)"

definition pipeline_rank :: "ssm \<Rightarrow> nat" where
  "pipeline_rank m =
     (if begin_main_frame_state m = BEGIN_MAIN_FRAME_STATE_READY_TO_COMMIT then 4 else 0) +
     (if has_pending_tree m then 2 else 0) +
     (if active_tree_needs_first_draw m then 1 else 0) +
     (if animate_funnel m then 0 else 1) +
     (if request_swap_funnel m then 0 else 1) +
     (if send_begin_main_frame_funnel m then 0 else 1) +
     (if invalidate_output_surface_funnel m then 0 else 1) +
     surface_rank (output_surface_state m)"

definition loop_measure :: "ssm \<Rightarrow> nat" where
  "loop_measure m = 2 * pipeline_rank m + (if needs_prepare_tiles m then 1 else 0)"

text \<open>
  The calls a client may make from a callback of an action: no reply of the main thread's
  and no new output surface, which arrive as tasks of their own.
\<close>

definition action_safe :: "sched_call \<Rightarrow> bool" where
  "action_safe c \<longleftrightarrow>
     c \<notin> {CallNotifyReadyToCommit, CallDidCreateAndInitializeOutputSurface} \<and>
     (\<forall>r. c \<noteq> CallBeginMainFrameAborted r)"

text \<open>
  \<open>SetNeedsPrepareTiles\<close> asserts that it is not called from within \<open>ACTION_PREPARE_TILES\<close>.
\<close>

definition well_behaved :: "sched_env \<Rightarrow> bool" where
  "well_behaved env \<longleftrightarrow>
     (\<forall>cb s. \<forall>c \<in> set (client_calls env cb s).
        action_safe c \<and> (cb = ScheduledActionPrepareTiles \<longrightarrow> c \<noteq> CallSetNeedsPrepareTiles))"

lemma call_machine_rank:
  assumes "action_safe c"
  shows "pipeline_rank (call_machine c m) \<le> pipeline_rank m"
  using assms
  by (cases c)
    (auto simp: call_machine_def action_safe_def pipeline_rank_def surface_rank_def simple_ops
      Let_def ssm_if)

lemma call_machine_prepare:
  assumes "action_safe c" and "c \<noteq> CallSetNeedsPrepareTiles"
    and "needs_prepare_tiles (call_machine c m)"
  shows "needs_prepare_tiles m"
  using assms
  by (cases c) (auto simp: call_machine_def action_safe_def simple_ops Let_def ssm_if split: if_splits)

lemma fold_call_machine_rank:
  "\<forall>c\<in>set cs. action_safe c \<Longrightarrow> pipeline_rank (fold call_machine cs m) \<le> pipeline_rank m"
  by (rule fold_measure_le) (simp add: call_machine_rank)

lemma fold_call_machine_prepare:
  assumes "\<forall>c\<in>set cs. action_safe c \<and> c \<noteq> CallSetNeedsPrepareTiles" and "\<not> needs_prepare_tiles m"
  shows "\<not> needs_prepare_tiles (fold call_machine cs m)"
  by (rule fold_invariant) (use assms call_machine_prepare in blast)+

lemma DidDrawIfPossibleCompleted_rank [simp]:
  "pipeline_rank (DidDrawIfPossibleCompleted r m) = pipeline_rank m"
  by (cases r) (simp_all add: pipeline_rank_def Let_def ssm_if)

lemma surface_rank_will [simp]:
  "surface_rank (output_surface_state (WillCommit b m)) = surface_rank (output_surface_state m)"
  "surface_rank (output_surface_state (WillActivate m)) = surface_rank (output_surface_state m)"
  by (simp_all add: surface_rank_def)

lemma commit_rank:
  assumes "begin_main_frame_state m = BEGIN_MAIN_FRAME_STATE_READY_TO_COMMIT" and "\<not> has_pending_tree m"
  shows "pipeline_rank (WillCommit False m) < pipeline_rank m"
proof -
  have "begin_main_frame_state (WillCommit False m) \<noteq> BEGIN_MAIN_FRAME_STATE_READY_TO_COMMIT" by simp
  then show ?thesis
    unfolding pipeline_rank_def surface_rank_will
    using assms by (simp del: WillCommit_fields(3,6))
qed

lemma activate_rank:
  assumes "has_pending_tree m" and "\<not> active_tree_needs_first_draw m"
  shows "pipeline_rank (WillActivate m) < pipeline_rank m"
proof -
  have "begin_main_frame_state (WillActivate m) = BEGIN_MAIN_FRAME_STATE_READY_TO_COMMIT \<longleftrightarrow>
      begin_main_frame_state m = BEGIN_MAIN_FRAME_STATE_READY_TO_COMMIT" by simp
  then show ?thesis
    unfolding pipeline_rank_def surface_rank_will
    using assms by (simp del: WillActivate_fields(3,6))
qed

lemma draw_rank:
  assumes "b \<and> \<not> request_swap_funnel m \<or> active_tree_needs_first_draw m"
  shows "pipeline_rank (WillDraw b m) < pipeline_rank m"
proof -
  have "begin_main_frame_state (WillDraw b m) = BEGIN_MAIN_FRAME_STATE_READY_TO_COMMIT \<longleftrightarrow>
      begin_main_frame_state m = BEGIN_MAIN_FRAME_STATE_READY_TO_COMMIT" by simp
  then show ?thesis
    unfolding pipeline_rank_def using assms by (auto simp del: WillDraw_fields(3))
qed

lemma will_op_rank:
  assumes "action_op (NextAction m) = Some x" and "x \<noteq> OpWillPrepareTiles"
  shows "pipeline_rank (exec_op x m) < pipeline_rank m"
proof (cases "NextAction m")
  case ACTION_COMMIT
  then have "begin_main_frame_state m = BEGIN_MAIN_FRAME_STATE_READY_TO_COMMIT" "\<not> has_pending_tree m"
    using NextAction_commit ShouldCommitD by blast+
  then show ?thesis using assms ACTION_COMMIT commit_rank by auto
next
  case ACTION_ACTIVATE_SYNC_TREE
  then have "has_pending_tree m" "\<not> active_tree_needs_first_draw m"
    using NextAction_activate ShouldActivatePendingTreeD by blast+
  then show ?thesis using assms ACTION_ACTIVATE_SYNC_TREE activate_rank by auto
next
  case ACTION_ANIMATE
  then have "\<not> animate_funnel m" using NextAction_animate [of m] by (auto simp: ShouldAnimate_def)
  moreover have "x = OpWillAnimate" using assms ACTION_ANIMATE by simp
  ultimately show ?thesis by (simp add: pipeline_rank_def simple_ops)
next
  case ACTION_DRAW_AND_SWAP_IF_POSSIBLE
  then have "\<not> request_swap_funnel m" using NextAction_draw ShouldDrawD by blast
  then show ?thesis using assms ACTION_DRAW_AND_SWAP_IF_POSSIBLE draw_rank by auto
next
  case ACTION_DRAW_AND_SWAP_FORCED
  then have "\<not> request_swap_funnel m" using NextAction_draw ShouldDrawD by blast
  then show ?thesis using assms ACTION_DRAW_AND_SWAP_FORCED draw_rank by auto
next
  case ACTION_DRAW_AND_SWAP_ABORT
  then have "active_tree_needs_first_draw m" using NextAction_draw_abort by blast
  then show ?thesis using assms ACTION_DRAW_AND_SWAP_ABORT draw_rank by auto
next
  case ACTION_SEND_BEGIN_MAIN_FRAME
  then have "\<not> send_begin_main_frame_funnel m"
    using NextAction_send ShouldSendBeginMainFrameD by blast
  moreover have "x = OpWillSendBeginMainFrame" using assms ACTION_SEND_BEGIN_MAIN_FRAME by simp
  ultimately show ?thesis by (simp add: pipeline_rank_def simple_ops)
next
  case ACTION_INVALIDATE_OUTPUT_SURFACE
  then have "\<not> invalidate_output_surface_funnel m"
    using NextAction_invalidate [of m] by (auto simp: ShouldInvalidateOutputSurface_def)
  moreover have "x = OpWillInvalidateOutputSurface" using assms ACTION_INVALIDATE_OUTPUT_SURFACE by simp
  ultimately show ?thesis
    by (cases "active_tree_needs_first_draw m") (simp_all add: pipeline_rank_def simple_ops)
next
  case ACTION_BEGIN_OUTPUT_SURFACE_CREATION
  then have "output_surface_state m = OUTPUT_SURFACE_NONE"
    using NextAction_create [of m]
    by (simp add: ShouldBeginOutputSurfaceCreation_def split: if_splits)
  moreover have "x = OpWillBeginOutputSurfaceCreation" using assms ACTION_BEGIN_OUTPUT_SURFACE_CREATION by simp
  ultimately show ?thesis by (simp add: pipeline_rank_def surface_rank_def simple_ops)
qed (use assms in auto)

text \<open>What an action does to the state machine: its own operation, then the client's calls.\<close>

fun action_callback :: "action_t \<Rightarrow> scheduler \<Rightarrow> callback option" where
  "action_callback ACTION_NONE s = None"
| "action_callback ACTION_ANIMATE s = Some ScheduledActionAnimate"
| "action_callback ACTION_SEND_BEGIN_MAIN_FRAME s =
     Some (ScheduledActionSendBeginMainFrame (begin_main_frame_args s))"
| "action_callback ACTION_COMMIT s = Some ScheduledActionCommit"
| "action_callback ACTION_ACTIVATE_SYNC_TREE s = Some ScheduledActionActivateSyncTree"
| "action_callback ACTION_DRAW_AND_SWAP_IF_POSSIBLE s = Some ScheduledActionDrawAndSwapIfPossible"
| "action_callback ACTION_DRAW_AND_SWAP_FORCED s = Some ScheduledActionDrawAndSwapForced"
| "action_callback ACTION_DRAW_AND_SWAP_ABORT s = None"
| "action_callback ACTION_BEGIN_OUTPUT_SURFACE_CREATION s =
     Some ScheduledActionBeginOutputSurfaceCreation"
| "action_callback ACTION_PREPARE_TILES s = Some ScheduledActionPrepareTiles"
| "action_callback ACTION_INVALIDATE_OUTPUT_SURFACE s = Some ScheduledActionInvalidateOutputSurface"

definition action_body :: "sched_env \<Rightarrow> action_t \<Rightarrow> ssm_op \<Rightarrow> scheduler \<Rightarrow> scheduler option" where
  "action_body env a x s =
     (let s1 = on_machine (exec_op x) s
      in do {
        t \<leftarrow> (case action_callback a s of None \<Rightarrow> Some s1 | Some cb \<Rightarrow> client_call Some env cb s1);
        Some (if a = ACTION_DRAW_AND_SWAP_IF_POSSIBLE
              then on_machine (DidDrawIfPossibleCompleted (draw_result env t)) t else t)
      })"

lemma perform_action_body:
  "action_op a = Some x \<Longrightarrow> perform_action env a s = action_body env a x s"
  by (cases a)
    (auto simp: action_body_def Let_def DrawAndSwapIfPossible_def DrawAndSwapForced_def
      split: option.split bind_splits)

lemma on_machine_calm:
  assumes "begin_impl_frame_state (f (state_machine s)) = begin_impl_frame_state (state_machine s)"
  shows "calm s (on_machine f s)"
  using assms by (simp add: calm_def on_machine_def)

lemma DidDraw_phase [simp]:
  "begin_impl_frame_state (DidDrawIfPossibleCompleted r m) = begin_impl_frame_state m"
  using exec_op_phase [of "OpDidDrawIfPossibleCompleted r" m] by (simp add: phase_op_def)

lemma inside_action_calm:
  "calm (s\<lparr>inside_action := a\<rparr>) t \<Longrightarrow> calm s (t\<lparr>inside_action := b\<rparr>)"
  by (simp add: calm_def)

text \<open>The calls that a callback of action \<open>a\<close> makes.\<close>

lemma action_body_machine:
  assumes "action_op a = Some x" and "\<not> phase_op x"
  obtains t cs where "action_body env a x s = Some t" and "calm s t"
    and "(cs = [] \<or> (\<exists>cb s'. action_callback a s = Some cb \<and> cs = client_calls env cb s'))"
    and "state_machine t = fold call_machine cs (exec_op x (state_machine s)) \<or>
         a = ACTION_DRAW_AND_SWAP_IF_POSSIBLE \<and>
         (\<exists>r. state_machine t =
                DidDrawIfPossibleCompleted r (fold call_machine cs (exec_op x (state_machine s))))"
proof -
  let ?s1 = "on_machine (exec_op x) s"
  have c1: "calm s ?s1" by (rule on_machine_calm) (rule exec_op_phase [OF assms(2)])
  have m1: "state_machine ?s1 = exec_op x (state_machine s)" by (simp add: on_machine_def)
  obtain t cs where t: "(case action_callback a s of None \<Rightarrow> Some ?s1 | Some cb \<Rightarrow> client_call Some env cb ?s1) = Some t"
    "calm s t" "state_machine t = fold call_machine cs (exec_op x (state_machine s))"
    "cs = [] \<or> (\<exists>cb s'. action_callback a s = Some cb \<and> cs = client_calls env cb s')"
  proof (cases "action_callback a s")
    case None
    then show thesis using that [of ?s1 "[]"] c1 m1 by simp
  next
    case (Some cb)
    then show thesis
      using client_call_inside [of env cb ?s1] calm_trans [OF c1] that m1 by fastforce
  qed
  show thesis
  proof (cases "a = ACTION_DRAW_AND_SWAP_IF_POSSIBLE")
    case True
    let ?u = "on_machine (DidDrawIfPossibleCompleted (draw_result env t)) t"
    have "calm t ?u" by (rule on_machine_calm) simp
    then have "calm s ?u" using t(2) calm_trans by blast
    have "action_body env a x s = Some ?u"
      using t(1) True by (simp add: action_body_def Let_def)
    moreover have "state_machine ?u = DidDrawIfPossibleCompleted (draw_result env t)
        (fold call_machine cs (exec_op x (state_machine s)))"
      using t(3) by (simp add: on_machine_def)
    ultimately show thesis using \<open>calm s ?u\<close> t(4) True by (intro that [of ?u cs]) blast+
  next
    case False
    then show thesis using that [of t cs] t by (simp add: action_body_def Let_def)
  qed
qed

lemma action_op_not_phase: "action_op a = Some x \<Longrightarrow> \<not> phase_op x"
  by (cases a) (auto simp: phase_op_def)

lemma action_op_total: "a \<noteq> ACTION_NONE \<Longrightarrow> \<exists>x. action_op a = Some x"
  by (cases a) auto

lemma process_action_calm:
  assumes "a \<noteq> ACTION_NONE"
  shows "\<exists>t. process_action env a s = Some t \<and> calm s t"
proof -
  obtain x where x: "action_op a = Some x" using action_op_total [OF assms] by blast
  obtain t where "action_body env a x (s\<lparr>inside_action := a\<rparr>) = Some t"
    "calm (s\<lparr>inside_action := a\<rparr>) t"
    using action_body_machine [OF x action_op_not_phase [OF x]] by metis
  then show ?thesis
    using inside_action_calm by (auto simp: process_action_def perform_action_body [OF x])
qed

lemma process_action_decreases:
  assumes wb: "well_behaved env" and a: "NextAction (state_machine s) = a" "a \<noteq> ACTION_NONE"
    and run: "process_action env a s = Some t"
  shows "loop_measure (state_machine t) < loop_measure (state_machine s)"
proof -
  obtain x where x: "action_op a = Some x" using action_op_total [OF a(2)] by blast
  let ?s = "s\<lparr>inside_action := a\<rparr>"
  obtain u cs where u: "action_body env a x ?s = Some u"
    and cs: "cs = [] \<or> (\<exists>cb s'. action_callback a ?s = Some cb \<and> cs = client_calls env cb s')"
    and m: "state_machine u = fold call_machine cs (exec_op x (state_machine s)) \<or>
         a = ACTION_DRAW_AND_SWAP_IF_POSSIBLE \<and>
         (\<exists>r. state_machine u =
                DidDrawIfPossibleCompleted r (fold call_machine cs (exec_op x (state_machine s))))"
    by (rule action_body_machine [OF x action_op_not_phase [OF x], of env ?s]) auto
  have t: "state_machine t = state_machine u"
    using run u by (auto simp: process_action_def perform_action_body [OF x])
  have safe: "\<forall>c\<in>set cs. action_safe c" using cs wb by (auto simp: well_behaved_def)
  have rank: "pipeline_rank (state_machine t) \<le> pipeline_rank (exec_op x (state_machine s))"
    using m fold_call_machine_rank [OF safe, of "exec_op x (state_machine s)"] t by auto
  show ?thesis
  proof (cases "x = OpWillPrepareTiles")
    case False
    have "pipeline_rank (exec_op x (state_machine s)) < pipeline_rank (state_machine s)"
      by (rule will_op_rank) (use a x False in simp_all)
    then show ?thesis using rank by (simp add: loop_measure_def)
  next
    case True
    then have prep: "a = ACTION_PREPARE_TILES" using x by (simp add: action_op_Some)
    then have "\<forall>c\<in>set cs. action_safe c \<and> c \<noteq> CallSetNeedsPrepareTiles"
      using cs wb by (auto simp: well_behaved_def)
    then have "\<not> needs_prepare_tiles (fold call_machine cs (exec_op x (state_machine s)))"
      by (rule fold_call_machine_prepare) (simp add: True simple_ops)
    moreover have "needs_prepare_tiles (state_machine s)"
      using a prep NextAction_prepare [of "state_machine s"]
      by (simp add: ShouldPrepareTiles_def split: if_splits)
    moreover have "pipeline_rank (exec_op x (state_machine s)) = pipeline_rank (state_machine s)"
      by (simp add: True pipeline_rank_def simple_ops)
    ultimately show ?thesis using rank m prep t by (auto simp: loop_measure_def)
  qed
qed

lemma process_loop_ends:
  assumes "well_behaved env"
  shows "\<exists>t. process_loop env s = Some t"
proof (induction "loop_measure (state_machine s)" arbitrary: s rule: less_induct)
  case less
  let ?a = "NextAction (state_machine s)"
  show ?case
  proof (cases "?a = ACTION_NONE")
    case True
    then show ?thesis by (simp add: process_loop.simps [of env s] Let_def)
  next
    case False
    obtain t where t: "process_action env ?a s = Some t"
      using process_action_calm [OF False] by blast
    then show ?thesis
      using less process_action_decreases [OF assms refl False t] False
      by (simp add: process_loop.simps [of env s] Let_def)
  qed
qed

text \<open>Whatever the client does: when the loop ends, nothing is left to do.\<close>

lemma process_loop_result:
  assumes "process_loop env s = Some t"
  shows "NextAction (state_machine t) = ACTION_NONE \<and> calm s t"
proof (rule process_loop.raw_induct
    [where P = "\<lambda>env s t. NextAction (state_machine t) = ACTION_NONE \<and> calm s t", OF _ assms])
  fix loop env s t
  assume IH: "\<And>env s t. loop env s = Some t \<Longrightarrow> NextAction (state_machine t) = ACTION_NONE \<and> calm s t"
    and run: "(let action = NextAction (state_machine s)
      in if action = ACTION_NONE then Some s
         else Option.bind (process_action env action s) (loop env)) = Some t"
  let ?a = "NextAction (state_machine s)"
  show "NextAction (state_machine t) = ACTION_NONE \<and> calm s t"
  proof (cases "?a = ACTION_NONE")
    case True
    then show ?thesis using run by (simp add: Let_def)
  next
    case False
    obtain u where u: "process_action env ?a s = Some u" "calm s u"
      using process_action_calm [OF False] by blast
    then have "loop env u = Some t" using run False by (simp add: Let_def)
    then show ?thesis using IH u(2) calm_trans by blast
  qed
qed

section \<open>After ProcessScheduledActions\<close>

lemma PostBeginRetroFrameIfNeeded_fields [simp]:
  "state_machine (PostBeginRetroFrameIfNeeded s) = state_machine s"
  "frame_source_needs (PostBeginRetroFrameIfNeeded s) = frame_source_needs s"
  "sched_settings (PostBeginRetroFrameIfNeeded s) = sched_settings s"
  "begin_retro_frame_args (PostBeginRetroFrameIfNeeded s) = begin_retro_frame_args s"
  "begin_impl_frame_deadline_task (PostBeginRetroFrameIfNeeded s) = begin_impl_frame_deadline_task s"
  "begin_impl_frame_deadline_mode (PostBeginRetroFrameIfNeeded s) = begin_impl_frame_deadline_mode s"
  "deadline_posted (PostBeginRetroFrameIfNeeded s) = deadline_posted s"
  "inside_process_scheduled_actions (PostBeginRetroFrameIfNeeded s) =
     inside_process_scheduled_actions s"
  by (simp_all add: PostBeginRetroFrameIfNeeded_def log_effect_def)

lemma ScheduleBeginImplFrameDeadline_fields [simp]:
  "state_machine (ScheduleBeginImplFrameDeadline env s) = state_machine s"
  "frame_source_needs (ScheduleBeginImplFrameDeadline env s) = frame_source_needs s"
  "sched_settings (ScheduleBeginImplFrameDeadline env s) = sched_settings s"
  "begin_retro_frame_args (ScheduleBeginImplFrameDeadline env s) = begin_retro_frame_args s"
  "begin_retro_frame_task (ScheduleBeginImplFrameDeadline env s) = begin_retro_frame_task s"
  "begin_impl_frame_deadline_task (ScheduleBeginImplFrameDeadline env s)"
  "begin_impl_frame_deadline_mode (ScheduleBeginImplFrameDeadline env s) =
     CurrentBeginImplFrameDeadlineMode (state_machine s)"
  "inside_process_scheduled_actions (ScheduleBeginImplFrameDeadline env s) =
     inside_process_scheduled_actions s"
  by (simp_all add: ScheduleBeginImplFrameDeadline_def Let_def log_effect_def split: deadline_mode_t.split)

lemma ScheduleIfNeeded_fields [simp]:
  "state_machine (ScheduleBeginImplFrameDeadlineIfNeeded env s) = state_machine s"
  "frame_source_needs (ScheduleBeginImplFrameDeadlineIfNeeded env s) = frame_source_needs s"
  "sched_settings (ScheduleBeginImplFrameDeadlineIfNeeded env s) = sched_settings s"
  "begin_retro_frame_args (ScheduleBeginImplFrameDeadlineIfNeeded env s) = begin_retro_frame_args s"
  "begin_retro_frame_task (ScheduleBeginImplFrameDeadlineIfNeeded env s) = begin_retro_frame_task s"
  "inside_process_scheduled_actions (ScheduleBeginImplFrameDeadlineIfNeeded env s) =
     inside_process_scheduled_actions s"
  by (simp_all add: ScheduleBeginImplFrameDeadlineIfNeeded_def)


text \<open>
  The queue of deferred frames: its task is posted only between frames and with a frame to
  start; between frames a waiting frame has its task posted while frames are wanted.
\<close>

definition retro_task_inv :: "scheduler \<Rightarrow> bool" where
  "retro_task_inv s \<longleftrightarrow>
     (begin_retro_frame_task s \<longrightarrow>
        begin_retro_frame_args s \<noteq> [] \<and>
        begin_impl_frame_state (state_machine s) = BEGIN_IMPL_FRAME_STATE_IDLE)"

definition retro_progress :: "scheduler \<Rightarrow> bool" where
  "retro_progress s \<longleftrightarrow>
     (begin_retro_frame_args s \<noteq> [] \<and> frame_source_needs s \<and>
      begin_impl_frame_state (state_machine s) = BEGIN_IMPL_FRAME_STATE_IDLE \<longrightarrow>
        begin_retro_frame_task s)"

text \<open>A deadline task exists only while a frame waits for its deadline.\<close>

definition deadline_task_inv :: "scheduler \<Rightarrow> bool" where
  "deadline_task_inv s \<longleftrightarrow>
     (deadline_posted s \<noteq> None \<longrightarrow> begin_impl_frame_deadline_task s) \<and>
     (begin_impl_frame_deadline_task s \<longrightarrow>
        begin_impl_frame_state (state_machine s) = BEGIN_IMPL_FRAME_STATE_INSIDE_BEGIN_FRAME)"

definition sched_inv :: "scheduler \<Rightarrow> bool" where
  "sched_inv s \<longleftrightarrow>
     \<not> using_synchronous_renderer_compositor (sched_settings s) \<and>
     retro_task_inv s \<and> deadline_task_inv s"

lemma calm_inv: "sched_inv s \<Longrightarrow> calm s t \<Longrightarrow> sched_inv t"
  by (auto simp: sched_inv_def calm_def retro_task_inv_def deadline_task_inv_def)

lemma PostBeginRetroFrameIfNeeded_inv:
  "sched_inv s \<Longrightarrow> sched_inv (PostBeginRetroFrameIfNeeded s)"
  "retro_progress (PostBeginRetroFrameIfNeeded s)"
  by (auto simp: sched_inv_def retro_task_inv_def deadline_task_inv_def retro_progress_def
      PostBeginRetroFrameIfNeeded_def log_effect_def)

lemma ScheduleIfNeeded_inv:
  "sched_inv s \<Longrightarrow> sched_inv (ScheduleBeginImplFrameDeadlineIfNeeded env s)"
  by (auto simp: sched_inv_def retro_task_inv_def deadline_task_inv_def
      ScheduleBeginImplFrameDeadlineIfNeeded_def)

text \<open>A missed frame that arrives while the source is switched on only joins the queue.\<close>

lemma missed_frame_queued:
  assumes inv: "sched_inv s" and missed: "args_type args = MISSED"
  shows "\<exists>t. Sched_OnBeginFrame Some env args s = Some t \<and> sched_inv t \<and>
           begin_impl_frame_state (state_machine t) = begin_impl_frame_state (state_machine s) \<and>
           frame_source_needs t = frame_source_needs s \<and>
           inside_process_scheduled_actions t = inside_process_scheduled_actions s"
proof -
  let ?args = "args\<lparr>deadline := deadline args - estimated_parent_draw_time s,
      on_critical_path := \<not> impl_latency_takes_priority (state_machine s)\<rparr>"
  obtain u where u: "(if children_need_begin_frames (state_machine s)
      then client_call Some env (SendBeginFramesToChildren ?args) s else Some s) = Some u" "calm s u"
    using client_call_inside [of env "SendBeginFramesToChildren ?args" s] by (cases
      "children_need_begin_frames (state_machine s)") auto
  have "\<not> using_synchronous_renderer_compositor (sched_settings u)"
    using inv u(2) by (simp add: sched_inv_def calm_def)
  then have run: "Sched_OnBeginFrame Some env args s =
      Some ((PostBeginRetroFrameIfNeeded
        (u\<lparr>begin_retro_frame_args := begin_retro_frame_args u @ [?args]\<rparr>))\<lparr>last_begin_frame_args := args\<rparr>)"
    using u(1) missed by (simp add: Sched_OnBeginFrame_def OnBeginFrameDerivedImpl_def Let_def)
  have "sched_inv (u\<lparr>begin_retro_frame_args := begin_retro_frame_args u @ [?args]\<rparr>)"
    using calm_inv [OF inv u(2)] by (simp add: sched_inv_def retro_task_inv_def deadline_task_inv_def)
  from PostBeginRetroFrameIfNeeded_inv(1) [OF this] show ?thesis
    unfolding run using u(2)
    by (simp add: sched_inv_def retro_task_inv_def deadline_task_inv_def calm_def)
qed

lemma SetupNextBeginFrameIfNeeded_result:
  assumes inv: "sched_inv s"
  shows "\<exists>t. SetupNextBeginFrameIfNeeded env s = Some t \<and> sched_inv t \<and> retro_progress t \<and>
           begin_impl_frame_state (state_machine t) = begin_impl_frame_state (state_machine s) \<and>
           inside_process_scheduled_actions t = inside_process_scheduled_actions s \<and>
           (BeginFrameNeeded (state_machine s) \<longrightarrow> frame_source_needs t) \<and>
           (begin_impl_frame_state (state_machine s) = BEGIN_IMPL_FRAME_STATE_IDLE \<longrightarrow>
              frame_source_needs t = BeginFrameNeeded (state_machine s))"
proof -
  let ?same = "\<lambda>t. begin_impl_frame_state (state_machine t) = begin_impl_frame_state (state_machine s) \<and>
     inside_process_scheduled_actions t = inside_process_scheduled_actions s"
  have flag: "sched_inv (log_effect (SetNeedsFrames b) (s\<lparr>frame_source_needs := b\<rparr>))" for b
    using inv by (simp add: sched_inv_def retro_task_inv_def deadline_task_inv_def log_effect_def)
  obtain t where t: "(if frame_source_needs s \<noteq> BeginFrameNeeded (state_machine s)
            then (if BeginFrameNeeded (state_machine s)
                  then FrameSource_SetNeedsBeginFrames Some env True s
                  else if begin_impl_frame_state (state_machine s) = BEGIN_IMPL_FRAME_STATE_IDLE
                  then Option.bind (FrameSource_SetNeedsBeginFrames Some env False s)
                         (client_call Some env SendBeginMainFrameNotExpectedSoon)
                  else Some s)
            else Some s) = Some t" "sched_inv t" "?same t"
    "BeginFrameNeeded (state_machine s) \<longrightarrow> frame_source_needs t"
    "begin_impl_frame_state (state_machine s) = BEGIN_IMPL_FRAME_STATE_IDLE \<longrightarrow>
       frame_source_needs t = BeginFrameNeeded (state_machine s)"
  proof (cases "frame_source_needs s = BeginFrameNeeded (state_machine s)")
    case True
    then show thesis using that [of s] inv by simp
  next
    case ne: False
    let ?s = "\<lambda>b. log_effect (SetNeedsFrames b) (s\<lparr>frame_source_needs := b\<rparr>)"
    show thesis
    proof (cases "BeginFrameNeeded (state_machine s)")
      case True
      have "\<exists>t. FrameSource_SetNeedsBeginFrames Some env True s = Some t \<and> sched_inv t \<and> ?same t \<and>
          frame_source_needs t"
        using missed_frame_queued [OF flag [of True], of "BeginFrameArgs_Create _ _ _ MISSED" env]
          flag [of True]
        by (fastforce simp: FrameSource_SetNeedsBeginFrames_def Let_def log_effect_def
            BeginFrameArgs_Create_def split: option.split)
      then show thesis using that True ne by auto
    next
      case False
      obtain u where u: "client_call Some env SendBeginMainFrameNotExpectedSoon (?s False) = Some u"
        "calm (?s False) u" using client_call_inside by blast
      have "sched_inv u" by (rule calm_inv [OF flag [of False] u(2)])
      moreover have "?same u" "\<not> frame_source_needs u"
        using u(2) by (simp_all add: calm_def log_effect_def)
      moreover have "FrameSource_SetNeedsBeginFrames Some env False s = Some (?s False)"
        by (simp add: FrameSource_SetNeedsBeginFrames_def Let_def)
      ultimately show thesis
        using that [of u] that [of s] False ne inv u(1)
        by (cases "begin_impl_frame_state (state_machine s) = BEGIN_IMPL_FRAME_STATE_IDLE") auto
    qed
  qed
  have run: "SetupNextBeginFrameIfNeeded env s = Some (PostBeginRetroFrameIfNeeded t)"
    unfolding SetupNextBeginFrameIfNeeded_def t(1) by simp
  show ?thesis
    unfolding run using t(2-) PostBeginRetroFrameIfNeeded_inv by auto
qed

section \<open>Entry points\<close>

text \<open>
  What a handler relies on when it calls \<open>ProcessScheduledActions\<close>, nested or not: the
  invariant, the phase of the frame and the nesting flag are kept.
\<close>

definition same_phase :: "scheduler \<Rightarrow> scheduler \<Rightarrow> bool" where
  "same_phase s t \<longleftrightarrow>
     begin_impl_frame_state (state_machine t) = begin_impl_frame_state (state_machine s) \<and>
     inside_process_scheduled_actions t = inside_process_scheduled_actions s"

lemma same_phase_refl [simp]: "same_phase s s"
  by (simp add: same_phase_def)

lemma same_phase_trans: "same_phase s t \<Longrightarrow> same_phase t u \<Longrightarrow> same_phase s u"
  by (simp add: same_phase_def)

lemma calm_same_phase: "calm s t \<Longrightarrow> same_phase s t"
  by (simp add: calm_def same_phase_def)

lemma run_call_cases:
  assumes "run_call psa c s = Some t"
  obtains u where "run_call Some c s = Some u" and "t = u \<or> psa u = Some t"
  using assms by (cases c) (auto simp: Sched_DidLoseOutputSurface_def)

text \<open>A frame starts between frames, with no deferred-frame task left.\<close>

definition frame_can_start :: "scheduler \<Rightarrow> bool" where
  "frame_can_start s \<longleftrightarrow>
     sched_inv s \<and> begin_impl_frame_state (state_machine s) = BEGIN_IMPL_FRAME_STATE_IDLE \<and>
     \<not> begin_retro_frame_task s"

lemma frame_can_start_sm:
  "frame_can_start s \<Longrightarrow> begin_impl_frame_state (f (state_machine s)) = BEGIN_IMPL_FRAME_STATE_IDLE \<Longrightarrow>
   frame_can_start (on_machine f s)"
  by (auto simp: frame_can_start_def sched_inv_def retro_task_inv_def deadline_task_inv_def
      on_machine_def)

lemma sched_inv_phase_change:
  assumes "sched_inv s" and "\<not> begin_retro_frame_task s" and "\<not> begin_impl_frame_deadline_task s"
  shows "sched_inv (on_machine f s)"
  using assms by (auto simp: sched_inv_def retro_task_inv_def deadline_task_inv_def on_machine_def)

lemma sched_inv_no_tasks:
  assumes "sched_inv s"
    and "begin_impl_frame_state (state_machine s) \<noteq> BEGIN_IMPL_FRAME_STATE_IDLE"
    and "begin_impl_frame_state (state_machine s) \<noteq> BEGIN_IMPL_FRAME_STATE_INSIDE_BEGIN_FRAME"
  shows "\<not> begin_retro_frame_task s" and "\<not> begin_impl_frame_deadline_task s"
  using assms by (auto simp: sched_inv_def retro_task_inv_def deadline_task_inv_def)

lemma sched_inv_tracker [simp]:
  "sched_inv (s\<lparr>begin_impl_frame_tracker := x\<rparr>) = sched_inv s"
  "sched_inv (s\<lparr>begin_main_frame_args := y\<rparr>) = sched_inv s"
  "sched_inv (s\<lparr>last_begin_frame_args := y\<rparr>) = sched_inv s"
  "sched_inv (s\<lparr>throttled := b\<rparr>) = sched_inv s"
  "sched_inv (s\<lparr>frame_source_needs := b\<rparr>) = sched_inv s"
  "sched_inv (log_effect e s) = sched_inv s"
  by (auto simp: sched_inv_def retro_task_inv_def deadline_task_inv_def log_effect_def)

locale action_processor =
  fixes psa :: "scheduler \<Rightarrow> scheduler option"
  assumes psa_inv: "sched_inv s \<Longrightarrow> psa s = Some t \<Longrightarrow> sched_inv t"
    and psa_phase: "sched_inv s \<Longrightarrow> psa s = Some t \<Longrightarrow> same_phase s t"
begin

lemma run_call_keeps:
  assumes "sched_inv s" and "run_call psa c s = Some t"
  shows "sched_inv t \<and> same_phase s t"
proof -
  obtain u where u: "run_call Some c s = Some u" "t = u \<or> psa u = Some t"
    using run_call_cases [OF assms(2)] by blast
  then have "calm s u" using run_call_inside [of c s] by auto
  then have "sched_inv u" "same_phase s u"
    using calm_inv [OF assms(1)] calm_same_phase by auto
  then show ?thesis using u(2) psa_inv psa_phase same_phase_trans by blast
qed

lemma run_calls_keeps:
  "sched_inv s \<Longrightarrow> run_calls psa cs s = Some t \<Longrightarrow> sched_inv t \<and> same_phase s t"
proof (induction cs arbitrary: s)
  case (Cons c cs)
  then obtain u where u: "run_call psa c s = Some u" "run_calls psa cs u = Some t"
    by (auto simp: bind_eq_Some_conv)
  then show ?case using run_call_keeps [OF Cons.prems(1) u(1)] Cons.IH same_phase_trans by blast
qed simp

lemma client_call_keeps:
  assumes "sched_inv s" and "client_call psa env cb s = Some t"
  shows "sched_inv t" and "same_phase s t"
proof -
  have inv: "sched_inv (log_effect (ClientCallback cb) s)" using assms(1) by simp
  have "sched_inv t \<and> same_phase (log_effect (ClientCallback cb) s) t"
    by (rule run_calls_keeps [OF inv]) (use assms(2) in \<open>simp add: client_call_def Let_def\<close>)
  then show "sched_inv t" "same_phase s t" by (simp_all add: same_phase_def log_effect_def)
qed

lemma BeginImplFrame_keeps:
  assumes start: "frame_can_start s" and run: "BeginImplFrame psa env args s = Some t"
  shows "sched_inv t"
    and "begin_impl_frame_state (state_machine t) = BEGIN_IMPL_FRAME_STATE_BEGIN_FRAME_STARTING"
    and "inside_process_scheduled_actions t = inside_process_scheduled_actions s"
proof -
  let ?s = "on_machine OnBeginImplFrame (s\<lparr>begin_impl_frame_tracker :=
      Tracker_Start (env_now env s) args (begin_impl_frame_tracker s), begin_main_frame_args := args\<rparr>)"
  have none: "\<not> begin_retro_frame_task s" "\<not> begin_impl_frame_deadline_task s"
    using start by (auto simp: frame_can_start_def sched_inv_def deadline_task_inv_def)
  have inv: "sched_inv ?s"
    by (rule sched_inv_phase_change) (use start none in \<open>simp_all add: frame_can_start_def\<close>)
  have ph: "begin_impl_frame_state (state_machine ?s) = BEGIN_IMPL_FRAME_STATE_BEGIN_FRAME_STARTING"
    by (simp add: on_machine_def OnBeginImplFrame_def Let_def)
  obtain u cb where u: "client_call psa env cb ?s = Some u" "psa u = Some t"
    using run by (auto simp: BeginImplFrame_def Let_def bind_eq_Some_conv)
  have s0: "inside_process_scheduled_actions ?s = inside_process_scheduled_actions s"
    by (simp add: on_machine_def)
  note k = client_call_keeps [OF inv u(1)]
  then show "sched_inv t" using psa_inv u(2) by blast
  have "same_phase ?s t" using k psa_phase u(2) same_phase_trans by blast
  then show "begin_impl_frame_state (state_machine t) = BEGIN_IMPL_FRAME_STATE_BEGIN_FRAME_STARTING"
    "inside_process_scheduled_actions t = inside_process_scheduled_actions s"
    using ph s0 by (simp_all add: same_phase_def)
qed

lemma FinishImplFrame_keeps:
  assumes inv: "sched_inv s"
    and ph: "begin_impl_frame_state (state_machine s) = BEGIN_IMPL_FRAME_STATE_INSIDE_DEADLINE"
    and run: "FinishImplFrame psa env s = Some t"
  shows "sched_inv t" and "inside_process_scheduled_actions t = inside_process_scheduled_actions s"
    and "begin_impl_frame_state (state_machine t) = BEGIN_IMPL_FRAME_STATE_IDLE"
proof -
  let ?s = "on_machine OnBeginImplFrameIdle s"
  have inv1: "sched_inv ?s"
    by (rule sched_inv_phase_change) (use inv ph sched_inv_no_tasks [OF inv] in simp_all)
  obtain u v where u: "psa ?s = Some u" "client_call psa env DidFinishImplFrame u = Some v"
    and t: "t = (log_effect (SourceDidFinishFrame (length (begin_retro_frame_args v))) v)
        \<lparr>begin_impl_frame_tracker := begin_impl_frame_tracker t\<rparr>"
    using run unfolding FinishImplFrame_def Let_def bind_eq_Some_conv by auto
  have "sched_inv v" "same_phase ?s v"
    using client_call_keeps [OF psa_inv [OF inv1 u(1)] u(2)] psa_phase [OF inv1 u(1)]
      same_phase_trans by blast+
  moreover have "begin_impl_frame_state (state_machine ?s) = BEGIN_IMPL_FRAME_STATE_IDLE"
    "inside_process_scheduled_actions ?s = inside_process_scheduled_actions s"
    by (simp_all add: on_machine_def OnBeginImplFrameIdle_def Let_def ssm_if)
  moreover have "sched_inv t = sched_inv v" "same_phase v t"
    by (subst t, simp, subst t, simp add: same_phase_def log_effect_def)
  ultimately show "sched_inv t"
    "inside_process_scheduled_actions t = inside_process_scheduled_actions s"
    "begin_impl_frame_state (state_machine t) = BEGIN_IMPL_FRAME_STATE_IDLE"
    by (simp_all add: same_phase_def)
qed

lemma BeginImplFrameWithDeadline_keeps:
  assumes start: "frame_can_start s" and run: "BeginImplFrameWithDeadline psa env args s = Some t"
  shows "sched_inv t" and "inside_process_scheduled_actions t = inside_process_scheduled_actions s"
proof -
  let ?sk = "on_machine SetSkipNextBeginMainFrameToReduceLatency s"
  have sk: "frame_can_start ?sk"
    by (rule frame_can_start_sm [OF start])
      (use start in \<open>simp add: frame_can_start_def simple_ops\<close>)
  have started: "sched_inv t \<and> inside_process_scheduled_actions t = inside_process_scheduled_actions s"
    if "frame_can_start s'" "BeginImplFrame psa env a s' = Some u"
      "psa (on_machine OnBeginImplFrameDeadlinePending u) = Some t"
      "inside_process_scheduled_actions s' = inside_process_scheduled_actions s" for s' a u
  proof -
    note k = BeginImplFrame_keeps [OF that(1,2)]
    let ?u = "on_machine OnBeginImplFrameDeadlinePending u"
    have "sched_inv ?u"
      by (rule sched_inv_phase_change) (use k sched_inv_no_tasks [OF k(1)] in simp_all)
    note r = psa_inv [OF this that(3)] psa_phase [OF this that(3)]
    then show ?thesis using that(4) k(3) by (simp add: same_phase_def on_machine_def)
  qed
  define adj where "adj = args\<lparr>deadline := deadline args - DrawDurationEstimate env s - kDeadlineFudgeFactor\<rparr>"
  consider (main) u where "BeginImplFrame psa env adj ?sk = Some u"
      "psa (on_machine OnBeginImplFrameDeadlinePending u) = Some t"
    | (skip) "t = log_effect (SourceDidFinishFrame (length (begin_retro_frame_args s))) s"
    | (plain) u where "BeginImplFrame psa env adj s = Some u"
      "psa (on_machine OnBeginImplFrameDeadlinePending u) = Some t"
    using run unfolding BeginImplFrameWithDeadline_def Let_def
    by (auto simp: bind_eq_Some_conv adj_def split: if_splits)
  then have "sched_inv t \<and> inside_process_scheduled_actions t = inside_process_scheduled_actions s"
  proof cases
    case main
    then show ?thesis by (rule started [OF sk]) (simp add: on_machine_def)
  next
    case skip
    then show ?thesis using start by (simp add: frame_can_start_def) (simp add: log_effect_def)
  next
    case plain
    then show ?thesis by (rule started [OF start]) simp
  qed
  then show "sched_inv t" "inside_process_scheduled_actions t = inside_process_scheduled_actions s"
    by simp_all
qed

lemma OnBeginFrame_keeps:
  assumes inv: "sched_inv s" and run: "Sched_OnBeginFrame psa env args s = Some t"
  shows "sched_inv t" and "inside_process_scheduled_actions t = inside_process_scheduled_actions s"
proof -
  let ?args = "args\<lparr>deadline := deadline args - estimated_parent_draw_time s,
      on_critical_path := \<not> impl_latency_takes_priority (state_machine s)\<rparr>"
  let ?queue = "\<lambda>u. u\<lparr>begin_retro_frame_args := begin_retro_frame_args u @ [?args]\<rparr>"
  obtain u v where u: "(if children_need_begin_frames (state_machine s)
      then client_call psa env (SendBeginFramesToChildren ?args) s else Some s) = Some u"
    and v: "(if using_synchronous_renderer_compositor (sched_settings u)
        then BeginImplFrameSynchronous psa env ?args u
        else if args_type ?args = MISSED then Some (PostBeginRetroFrameIfNeeded (?queue u))
        else if begin_retro_frame_args u \<noteq> [] \<or> begin_retro_frame_task u \<or> \<not> frame_source_needs u \<or>
             begin_impl_frame_state (state_machine u) \<noteq> BEGIN_IMPL_FRAME_STATE_IDLE
        then Some (?queue u) else BeginImplFrameWithDeadline psa env ?args u) = Some v"
    and t: "t = v\<lparr>last_begin_frame_args := args\<rparr>"
    using run unfolding Sched_OnBeginFrame_def OnBeginFrameDerivedImpl_def Let_def bind_eq_Some_conv
      option.inject by blast
  have ui: "sched_inv u" "inside_process_scheduled_actions u = inside_process_scheduled_actions s"
    using u client_call_keeps [OF inv] inv by (auto simp: same_phase_def split: if_splits)
  have q: "sched_inv (?queue u)"
    using ui by (simp add: sched_inv_def retro_task_inv_def deadline_task_inv_def)
  have async: "\<not> using_synchronous_renderer_compositor (sched_settings u)"
    using ui by (simp add: sched_inv_def)
  have "sched_inv v \<and> inside_process_scheduled_actions v = inside_process_scheduled_actions s"
    using v async q ui PostBeginRetroFrameIfNeeded_inv(1) [OF q] BeginImplFrameWithDeadline_keeps [of u]
    by (auto simp: frame_can_start_def split: if_splits)
  then show "sched_inv t" "inside_process_scheduled_actions t = inside_process_scheduled_actions s"
    by (simp_all add: t)
qed

lemma FrameSource_SetNeedsBeginFrames_keeps:
  assumes inv: "sched_inv s" and run: "FrameSource_SetNeedsBeginFrames psa env b s = Some t"
  shows "sched_inv t" and "inside_process_scheduled_actions t = inside_process_scheduled_actions s"
proof -
  let ?s = "log_effect (SetNeedsFrames b) (s\<lparr>frame_source_needs := b\<rparr>)"
  have i: "sched_inv ?s" "inside_process_scheduled_actions ?s = inside_process_scheduled_actions s"
    using inv by simp_all (simp add: log_effect_def)
  then show "sched_inv t" "inside_process_scheduled_actions t = inside_process_scheduled_actions s"
    using run OnBeginFrame_keeps [OF i(1)]
    by (auto simp: FrameSource_SetNeedsBeginFrames_def Let_def split: if_splits option.splits)
qed

end

interpretation nested: action_processor Some
  by unfold_locales simp_all

lemma ProcessScheduledActions_result:
  assumes inv: "sched_inv s" and run: "ProcessScheduledActions env s = Some t"
  shows "sched_inv t" and "same_phase s t"
    and "\<not> inside_process_scheduled_actions s \<Longrightarrow> retro_progress t"
proof -
  have "sched_inv t \<and> same_phase s t \<and> (\<not> inside_process_scheduled_actions s \<longrightarrow> retro_progress t)"
  proof (cases "inside_process_scheduled_actions s")
    case True
    then show ?thesis using run inv by (simp add: ProcessScheduledActions_def)
  next
    case False
    let ?s = "s\<lparr>inside_process_scheduled_actions := True\<rparr>"
    obtain u v where u: "process_loop env ?s = Some u"
      and v: "SetupNextBeginFrameIfNeeded env (ScheduleBeginImplFrameDeadlineIfNeeded env u) = Some v"
      and t: "t = v\<lparr>inside_process_scheduled_actions := False\<rparr>"
      using run False by (auto simp: ProcessScheduledActions_def Let_def bind_eq_Some_conv)
    have c: "calm ?s u" using process_loop_result [OF u] by simp
    have inv1: "sched_inv ?s"
      using inv by (simp add: sched_inv_def retro_task_inv_def deadline_task_inv_def)
    have inv2: "sched_inv (ScheduleBeginImplFrameDeadlineIfNeeded env u)"
      by (rule ScheduleIfNeeded_inv [OF calm_inv [OF inv1 c]])
    show ?thesis
      using SetupNextBeginFrameIfNeeded_result [OF inv2, of env] v c False
      by (auto simp: t calm_def same_phase_def sched_inv_def retro_task_inv_def deadline_task_inv_def
          retro_progress_def)
  qed
  then show "sched_inv t" "same_phase s t"
    "\<not> inside_process_scheduled_actions s \<Longrightarrow> retro_progress t" by simp_all
qed

interpretation outer: action_processor "ProcessScheduledActions env" for env
  by unfold_locales (fact ProcessScheduledActions_result(1), fact ProcessScheduledActions_result(2))

section \<open>Every entry point returns\<close>

text \<open>A function that always returns, as \<open>ProcessScheduledActions\<close> does for a well-behaved client.\<close>

definition returns :: "(scheduler \<Rightarrow> scheduler option) \<Rightarrow> bool" where
  "returns f \<longleftrightarrow> (\<forall>s. f s \<noteq> None)"

lemma returnsD: "returns f \<Longrightarrow> \<exists>t. f s = Some t"
  by (simp add: returns_def)

lemma returns_Some: "returns Some"
  by (simp add: returns_def)

lemma run_call_returns: "returns psa \<Longrightarrow> returns (run_call psa c)"
  unfolding returns_def by (cases c) (auto simp: Sched_DidLoseOutputSurface_def)

lemma run_calls_returns:
  assumes "returns psa"
  shows "returns (run_calls psa cs)"
proof -
  have "run_calls psa cs s \<noteq> None" for s
  proof (induction cs arbitrary: s)
    case (Cons c cs)
    then show ?case
      using run_call_returns [OF assms, of c] by (simp add: returns_def bind_eq_None_conv)
  qed simp
  then show ?thesis by (simp add: returns_def)
qed

lemma client_call_returns: "returns psa \<Longrightarrow> returns (client_call psa env cb)"
  using run_calls_returns [of psa] by (simp add: returns_def client_call_def Let_def)

lemma BeginImplFrame_returns: "returns psa \<Longrightarrow> returns (BeginImplFrame psa env args)"
  using client_call_returns [of psa]
  by (simp add: returns_def BeginImplFrame_def Let_def bind_eq_None_conv del: not_None_eq)

lemma FinishImplFrame_returns: "returns psa \<Longrightarrow> returns (FinishImplFrame psa env)"
  using client_call_returns [of psa]
  by (simp add: returns_def FinishImplFrame_def Let_def bind_eq_None_conv del: not_None_eq)

lemma BeginImplFrameWithDeadline_returns:
  "returns psa \<Longrightarrow> returns (BeginImplFrameWithDeadline psa env args)"
  using BeginImplFrame_returns [of psa]
  by (simp add: returns_def BeginImplFrameWithDeadline_def Let_def bind_eq_None_conv del: not_None_eq)

lemma OnBeginFrame_returns: "returns psa \<Longrightarrow> returns (Sched_OnBeginFrame psa env args)"
  using client_call_returns [of psa] BeginImplFrame_returns [of psa] FinishImplFrame_returns [of psa]
    BeginImplFrameWithDeadline_returns [of psa]
  by (simp add: returns_def Sched_OnBeginFrame_def OnBeginFrameDerivedImpl_def
      BeginImplFrameSynchronous_def Let_def bind_eq_None_conv del: not_None_eq)

lemma FrameSource_SetNeedsBeginFrames_returns:
  "returns psa \<Longrightarrow> returns (FrameSource_SetNeedsBeginFrames psa env b)"
  using OnBeginFrame_returns [of psa]
  by (simp add: returns_def FrameSource_SetNeedsBeginFrames_def Let_def del: not_None_eq
      split: option.split)

lemma SetupNextBeginFrameIfNeeded_returns: "returns (SetupNextBeginFrameIfNeeded env)"
  using FrameSource_SetNeedsBeginFrames_returns [OF returns_Some, of env]
    client_call_returns [OF returns_Some, of env]
  by (simp add: returns_def SetupNextBeginFrameIfNeeded_def bind_eq_None_conv del: not_None_eq)

lemma ProcessScheduledActions_returns:
  assumes "well_behaved env"
  shows "returns (ProcessScheduledActions env)"
proof -
  have "process_loop env s \<noteq> None" for s using process_loop_ends [OF assms, of s] by simp
  then show ?thesis
    using SetupNextBeginFrameIfNeeded_returns [of env]
    by (simp add: returns_def ProcessScheduledActions_def Let_def bind_eq_None_conv del: not_None_eq)
qed

lemma discard_expired_drops:
  "discard_expired now q =
     (dropWhile (\<lambda>a. deadline a < now) q,
      map SourceDidFinishFrame
        [length (dropWhile (\<lambda>a. deadline a < now) q) ..< length q])"
proof (induction q)
  case (Cons a q)
  have "length (dropWhile (\<lambda>a. deadline a < now) q) \<le> length q" by (rule length_dropWhile_le)
  then show ?case using Cons by (auto simp: not_le)
qed simp

lemma BeginRetroFrame_returns:
  "returns (ProcessScheduledActions env) \<Longrightarrow> returns (BeginRetroFrame env)"
  using BeginImplFrameWithDeadline_returns [of "ProcessScheduledActions env"]
  by (simp add: returns_def BeginRetroFrame_def Let_def del: not_None_eq split: prod.split list.split)

lemma OnBeginImplFrameDeadline_returns:
  "returns (ProcessScheduledActions env) \<Longrightarrow> returns (Sched_OnBeginImplFrameDeadline env)"
  using FinishImplFrame_returns [of "ProcessScheduledActions env"]
  by (simp add: returns_def Sched_OnBeginImplFrameDeadline_def bind_eq_None_conv del: not_None_eq)

lemma SetThrottleFrameProduction_returns:
  "returns (ProcessScheduledActions env) \<Longrightarrow> returns (SetThrottleFrameProduction env b)"
  using FrameSource_SetNeedsBeginFrames_returns [of "ProcessScheduledActions env"]
  by (simp add: returns_def SetThrottleFrameProduction_def Let_def bind_eq_None_conv del: not_None_eq)

lemmas entry_points_return =
  ProcessScheduledActions_returns run_call_returns OnBeginFrame_returns BeginRetroFrame_returns
  OnBeginImplFrameDeadline_returns SetThrottleFrameProduction_returns

section \<open>Reachable states\<close>

text \<open>
  The events of a scheduler: a call of its client, a frame from its source, a new choice of the
  source, and its own two tasks, which run only while they are posted.
\<close>

inductive sched_reach :: "sched_env \<Rightarrow> scheduler \<Rightarrow> bool" for env where
  sr_start: "\<not> using_synchronous_renderer_compositor se \<Longrightarrow> Scheduler env se = Some s \<Longrightarrow>
    sched_reach env s"
| sr_call: "sched_reach env s \<Longrightarrow> api_call env c s = Some t \<Longrightarrow> sched_reach env t"
| sr_frame: "sched_reach env s \<Longrightarrow> Sched_OnBeginFrame (ProcessScheduledActions env) env a s = Some t \<Longrightarrow>
    sched_reach env t"
| sr_throttle: "sched_reach env s \<Longrightarrow> SetThrottleFrameProduction env b s = Some t \<Longrightarrow> sched_reach env t"
| sr_retro: "sched_reach env s \<Longrightarrow> begin_retro_frame_task s \<Longrightarrow> BeginRetroFrame env s = Some t \<Longrightarrow>
    sched_reach env t"
| sr_deadline: "sched_reach env s \<Longrightarrow> deadline_posted s = Some d \<Longrightarrow>
    Sched_OnBeginImplFrameDeadline env s = Some t \<Longrightarrow> sched_reach env t"

definition idle_inv :: "scheduler \<Rightarrow> bool" where
  "idle_inv s \<longleftrightarrow> sched_inv s \<and> \<not> inside_process_scheduled_actions s"

lemma SetThrottleFrameProduction_inv:
  assumes inv: "idle_inv s" and run: "SetThrottleFrameProduction env b s = Some t"
  shows "idle_inv t"
proof -
  let ?s = "log_effect (SwitchSource b) (s\<lparr>throttled := b\<rparr>)"
  have i: "idle_inv ?s" using inv by (simp add: idle_inv_def) (simp add: log_effect_def)
  then have si: "sched_inv ?s" "\<not> inside_process_scheduled_actions ?s" by (simp_all add: idle_inv_def)
  obtain u where u: "(if frame_source_needs ?s
      then FrameSource_SetNeedsBeginFrames (ProcessScheduledActions env) env True ?s
      else Some ?s) = Some u" "ProcessScheduledActions env u = Some t"
    using run unfolding SetThrottleFrameProduction_def Let_def bind_eq_Some_conv by blast
  have "idle_inv u"
    using u(1) i outer.FrameSource_SetNeedsBeginFrames_keeps [OF si(1), of env env True u] si
    by (auto simp: idle_inv_def split: if_splits)
  then show ?thesis
    using ProcessScheduledActions_result [OF _ u(2)] by (simp add: idle_inv_def same_phase_def)
qed

lemma Scheduler_members_inv:
  "\<not> using_synchronous_renderer_compositor se \<Longrightarrow> idle_inv (Scheduler_members se)"
  by (simp add: idle_inv_def sched_inv_def retro_task_inv_def deadline_task_inv_def Scheduler_members_def)

lemma BeginRetroFrame_inv:
  assumes inv: "idle_inv s" and task: "begin_retro_frame_task s" and run: "BeginRetroFrame env s = Some t"
  shows "idle_inv t"
proof -
  have ph: "begin_impl_frame_state (state_machine s) = BEGIN_IMPL_FRAME_STATE_IDLE"
    using inv task by (simp add: idle_inv_def sched_inv_def retro_task_inv_def)
  have start: "frame_can_start (s\<lparr>begin_retro_frame_task := False, begin_retro_frame_args := q, effects := es\<rparr>)"
    for q es
    using inv ph
    by (auto simp: idle_inv_def frame_can_start_def sched_inv_def retro_task_inv_def
        deadline_task_inv_def)
  have start': "frame_can_start (s\<lparr>begin_retro_frame_task := False, effects := es, begin_retro_frame_args := q\<rparr>)"
    for q es
    using inv ph
    by (auto simp: idle_inv_def frame_can_start_def sched_inv_def retro_task_inv_def
        deadline_task_inv_def)
  show ?thesis
    using run inv start outer.BeginImplFrameWithDeadline_keeps [OF start']
    by (auto simp: BeginRetroFrame_def Let_def idle_inv_def frame_can_start_def
        split: prod.splits list.splits)
qed

lemma OnBeginImplFrameDeadline_inv:
  assumes inv: "idle_inv s" and posted: "deadline_posted s \<noteq> None"
    and run: "Sched_OnBeginImplFrameDeadline env s = Some t"
  shows "idle_inv t" and "begin_impl_frame_state (state_machine t) = BEGIN_IMPL_FRAME_STATE_IDLE"
proof -
  let ?c = "s\<lparr>begin_impl_frame_deadline_task := False, deadline_posted := None\<rparr>"
  let ?s = "on_machine OnBeginImplFrameDeadline ?c"
  obtain u where u: "ProcessScheduledActions env ?s = Some u"
    "FinishImplFrame (ProcessScheduledActions env) env u = Some t"
    using run by (auto simp: Sched_OnBeginImplFrameDeadline_def bind_eq_Some_conv)
  have none: "\<not> begin_retro_frame_task s"
    using inv posted
    by (auto simp: idle_inv_def sched_inv_def retro_task_inv_def deadline_task_inv_def)
  have "sched_inv ?s"
    by (rule sched_inv_phase_change)
      (use inv none in \<open>simp_all add: idle_inv_def sched_inv_def retro_task_inv_def deadline_task_inv_def\<close>)
  note r = ProcessScheduledActions_result [OF this u(1)]
  have ph: "begin_impl_frame_state (state_machine u) = BEGIN_IMPL_FRAME_STATE_INSIDE_DEADLINE"
    "\<not> inside_process_scheduled_actions u"
    using r(2) inv by (simp_all add: same_phase_def on_machine_def OnBeginImplFrameDeadline_def
        Let_def idle_inv_def ssm_if)
  note f = outer.FinishImplFrame_keeps [OF r(1) ph(1) u(2)]
  show "idle_inv t" "begin_impl_frame_state (state_machine t) = BEGIN_IMPL_FRAME_STATE_IDLE"
    using f ph(2) by (simp_all add: idle_inv_def)
qed

lemma sched_reach_inv: "sched_reach env s \<Longrightarrow> idle_inv s"
proof (induction rule: sched_reach.induct)
  case (sr_start se s)
  then show ?case
    using SetThrottleFrameProduction_inv [OF Scheduler_members_inv] by (simp add: Scheduler_def)
next
  case (sr_call s c t)
  then show ?case
    using outer.run_call_keeps [of s env c t] by (simp add: api_call_def idle_inv_def same_phase_def)
next
  case (sr_frame s a t)
  then show ?case
    using outer.OnBeginFrame_keeps [of s env env a t] by (simp add: idle_inv_def)
next
  case (sr_throttle s b t)
  then show ?case using SetThrottleFrameProduction_inv by blast
next
  case (sr_retro s t)
  then show ?case using BeginRetroFrame_inv by blast
next
  case (sr_deadline s d t)
  then show ?case using OnBeginImplFrameDeadline_inv(1) by blast
qed

section \<open>Properties\<close>

text \<open>
  The two callbacks made after the loop, while nesting is still refused: a call from there would
  be acted upon only by the next \<open>ProcessScheduledActions\<close>.
\<close>

definition quiet_setup :: "sched_env \<Rightarrow> bool" where
  "quiet_setup env \<longleftrightarrow>
     (\<forall>s a. client_calls env SendBeginMainFrameNotExpectedSoon s = [] \<and>
            client_calls env (SendBeginFramesToChildren a) s = [])"





text \<open>An environment to evaluate: a client that asks for more from its callbacks.\<close>

definition example_env :: sched_env where
  "example_env =
     \<lparr>client_calls = (\<lambda>cb s. case cb of
          ScheduledActionAnimate \<Rightarrow> [CallSetNeedsRedraw]
        | ScheduledActionCommit \<Rightarrow> [CallSetNeedsAnimate, CallNotifyReadyToActivate]
        | ScheduledActionDrawAndSwapIfPossible \<Rightarrow> [CallDidSwapBuffers, CallSetNeedsPrepareTiles]
        | _ \<Rightarrow> []),
      draw_result = (\<lambda>s. DRAW_SUCCESS), env_now = (\<lambda>s. 100), missed_tick = (\<lambda>s. Some (90, 106, 16)),
      DrawDurationEstimate = (\<lambda>s. 0), BeginMainFrameToCommitDurationEstimate = (\<lambda>s. 0),
      CommitToReadyToActivateDurationEstimate = (\<lambda>s. 0), ActivateDurationEstimate = (\<lambda>s. 0)\<rparr>"

lemma example_env_well_behaved: "well_behaved example_env" "quiet_setup example_env"
  by (auto simp: well_behaved_def quiet_setup_def example_env_def action_safe_def split: callback.splits)

text \<open>A scheduler with an initialised surface whose main thread is ready to commit.\<close>

definition example_scheduler :: scheduler where
  "example_scheduler = (Scheduler_members SchedulerSettings)\<lparr>state_machine := commit_ready_state\<rparr>"

text \<open>[C2]
  \<open>ProcessScheduledActions\<close> always returns, whatever state it starts from and whatever the client
  calls back, as long as the client does not answer for the main thread or the output
  surface from within a callback and does not ask for tiles while tiles are prepared: no chain of
  actions and re-entrant requests keeps the loop going. The public operations and the tasks of the
  scheduler then return as well, and so does a draw that a synchronous output surface asks for.
\<close>

theorem scheduler_always_returns:
  assumes "well_behaved env"
  shows "(\<exists>t. ProcessScheduledActions env s = Some t) \<and> (\<exists>t. api_call env c s = Some t) \<and>
         (\<exists>t. Sched_OnBeginFrame (ProcessScheduledActions env) env a s = Some t) \<and>
         (\<exists>t. BeginRetroFrame env s = Some t) \<and>
         (\<exists>t. Sched_OnBeginImplFrameDeadline env s = Some t) \<and>
         (\<exists>t. SetThrottleFrameProduction env b s = Some t) \<and>
         (\<exists>t. OnDrawForOutputSurface env s = Some t)"
proof -
  note psa = ProcessScheduledActions_returns [OF assms]
  obtain t where t: "ProcessScheduledActions env (on_machine OnBeginImplFrameDeadline s) = Some t"
    using returnsD [OF psa] by blast
  then have draw: "\<exists>u. OnDrawForOutputSurface env s = Some u"
    using returnsD [OF psa, of "on_machine OnBeginImplFrameIdle t"]
    by (simp add: OnDrawForOutputSurface_def)
  show ?thesis
    unfolding api_call_def
    by (intro conjI returnsD psa run_call_returns [OF psa] OnBeginFrame_returns [OF psa]
        BeginRetroFrame_returns [OF psa] OnBeginImplFrameDeadline_returns [OF psa]
        SetThrottleFrameProduction_returns [OF psa] draw)
qed

text \<open>[C2] witness: a commit whose callback animates and activates, with a redraw from the animation.\<close>

lemma scheduler_always_returns_witness:
  "NextAction (state_machine example_scheduler) = ACTION_COMMIT \<and>
   (\<exists>t. ProcessScheduledActions example_env example_scheduler = Some t)"
proof -
  have "NextAction (state_machine example_scheduler) = ACTION_COMMIT" by code_simp
  then show ?thesis
    using scheduler_always_returns [OF example_env_well_behaved(1), of example_scheduler] by blast
qed



text \<open>[C19]
  In every reachable state of a scheduler without the synchronous compositor, whatever its client
  and its frame source do: the assertions of \<open>BeginRetroFrame\<close> hold whenever its task is posted, a
  posted deadline belongs to a frame that waits for its deadline, no deadline is set between frames
  (what \<open>BeginImplFrame\<close> asserts), and no call is left marked as being inside
  \<open>ProcessScheduledActions\<close>.
\<close>

theorem scheduler_task_assertions_hold:
  assumes "sched_reach env s"
  shows "(begin_retro_frame_task s \<longrightarrow> BeginRetroFrame_dcheck s) \<and>
         (deadline_posted s \<noteq> None \<longrightarrow>
            begin_impl_frame_deadline_task s \<and>
            begin_impl_frame_state (state_machine s) = BEGIN_IMPL_FRAME_STATE_INSIDE_BEGIN_FRAME) \<and>
         (begin_impl_frame_state (state_machine s) = BEGIN_IMPL_FRAME_STATE_IDLE \<longrightarrow>
            \<not> begin_impl_frame_deadline_task s) \<and>
         \<not> inside_process_scheduled_actions s"
  using sched_reach_inv [OF assms]
  by (auto simp: idle_inv_def sched_inv_def retro_task_inv_def deadline_task_inv_def
      BeginRetroFrame_dcheck_def)

text \<open>The events of a short run, and the state it ends in.\<close>

definition example_run_state :: "scheduler option" where
  "example_run_state =
     do {
       s \<leftarrow> Scheduler example_env SchedulerSettings;
       s \<leftarrow> api_call example_env (CallSetVisible True) s;
       s \<leftarrow> api_call example_env (CallSetCanDraw True) s;
       s \<leftarrow> api_call example_env CallDidCreateAndInitializeOutputSurface s;
       api_call example_env CallSetNeedsBeginMainFrame s
     }"

lemma example_sched_reach:
  assumes "example_run_state = Some s"
  shows "sched_reach example_env s"
proof -
  have "\<not> using_synchronous_renderer_compositor SchedulerSettings" by (simp add: SchedulerSettings_def)
  then show ?thesis
    using assms sr_start [of SchedulerSettings example_env] sr_call [of example_env]
    unfolding example_run_state_def bind_eq_Some_conv by blast
qed

text \<open>[C19] witness: the missed frame delivered when frames are first needed has its task posted.\<close>

lemma scheduler_task_assertions_hold_witness:
  "\<exists>s. example_run_state = Some s \<and> begin_retro_frame_task s \<and> BeginRetroFrame_dcheck s"
proof -
  have "map_option begin_retro_frame_task example_run_state = Some True" by code_simp
  then obtain s where s: "example_run_state = Some s" "begin_retro_frame_task s" by auto
  then show ?thesis
    using scheduler_task_assertions_hold [OF example_sched_reach [OF s(1)]] by blast
qed

text \<open>[C38]
  A frame that waits for its deadline ends: when the posted deadline task runs, the handler
  returns between frames, with no deadline left and the invariants kept.
\<close>

theorem deadline_ends_frame:
  assumes "sched_reach env s" and "deadline_posted s \<noteq> None" and "well_behaved env"
  shows "\<exists>t. Sched_OnBeginImplFrameDeadline env s = Some t \<and>
             begin_impl_frame_state (state_machine t) = BEGIN_IMPL_FRAME_STATE_IDLE \<and>
             \<not> begin_impl_frame_deadline_task t \<and> deadline_posted t = None"
proof -
  obtain t where t: "Sched_OnBeginImplFrameDeadline env s = Some t"
    using returnsD [OF OnBeginImplFrameDeadline_returns [OF ProcessScheduledActions_returns [OF assms(3)]]]
    by blast
  note i = OnBeginImplFrameDeadline_inv [OF sched_reach_inv [OF assms(1)] assms(2) t]
  then show ?thesis
    using t by (auto simp: idle_inv_def sched_inv_def deadline_task_inv_def)
qed

text \<open>[C38] witness: the deferred frame of the example run, started by its task.\<close>

lemma deadline_ends_frame_witness:
  "\<exists>s r t. example_run_state = Some s \<and> BeginRetroFrame example_env s = Some r \<and>
     deadline_posted r = Some 106 \<and> Sched_OnBeginImplFrameDeadline example_env r = Some t \<and>
     begin_impl_frame_state (state_machine t) = BEGIN_IMPL_FRAME_STATE_IDLE"
proof -
  have "map_option begin_retro_frame_task example_run_state = Some True" by code_simp
  then obtain s where s: "example_run_state = Some s" "begin_retro_frame_task s" by auto
  have "map_option deadline_posted (Option.bind example_run_state (BeginRetroFrame example_env)) =
      Some (Some 106)" by code_simp
  then have "map_option deadline_posted (BeginRetroFrame example_env s) = Some (Some 106)"
    by (simp add: s(1))
  then obtain r where r: "BeginRetroFrame example_env s = Some r" "deadline_posted r = Some 106"
    by auto
  have "sched_reach example_env r" using sr_retro [OF example_sched_reach [OF s(1)] s(2) r(1)] .
  then show ?thesis
    using deadline_ends_frame [OF _ _ example_env_well_behaved(1), of r] s(1) r by blast
qed

text \<open>
  Deferred frames are handled first in, first out: the task drops exactly the expired
  frames at the front of the queue, telling the frame source each time how many are left, and
  starts the first frame that has not expired with the rest still queued in order.
\<close>

theorem BeginRetroFrame_drops_expired:
  "BeginRetroFrame env s =
     (let s = s\<lparr>begin_retro_frame_task := False\<rparr>;
          kept = dropWhile (\<lambda>a. deadline a < env_now env s) (begin_retro_frame_args s);
          done = map SourceDidFinishFrame [length kept ..< length (begin_retro_frame_args s)]
      in case kept of
           [] \<Rightarrow> Some (s\<lparr>begin_retro_frame_args := [], effects := done @ effects s\<rparr>)
         | front # rest \<Rightarrow>
             BeginImplFrameWithDeadline (ProcessScheduledActions env) env front
               (s\<lparr>effects := done @ effects s, begin_retro_frame_args := rest\<rparr>))"
  by (cases "dropWhile (\<lambda>a. deadline a < env_now env (s\<lparr>begin_retro_frame_task := False\<rparr>))
        (begin_retro_frame_args s)")
    (simp_all add: BeginRetroFrame_def discard_expired_drops Let_def del: dropWhile_eq_Nil_conv)

end
