(* ===== verification/Tiling_Data.thy ===== *)
theory Tiling_Data
  imports Prelude
begin

text \<open>
  \<open>TilingData\<close> (\<^verbatim>\<open>cc/base/tiling_data.{h,cc}\<close>): how the compositor cuts a layer into tiles that
  share border texels, which tile a position belongs to, and the iterators over the tiles that
  meet a rectangle; with the operations of \<open>gfx::Rect\<close> (\<^verbatim>\<open>ui/gfx/geometry/rect.{h,cc}\<close>) they use.
  A C++ \<open>int\<close> is an integer here: the results are for sizes whose sums stay in range. The
  horizontal and the vertical functions of the class are the same function of one axis, written
  once below and applied to both. The two spiral iterators are in \<open>Tiling_Spiral\<close>.
\<close>

section \<open>Rectangles\<close>

record rect =
  rect_x :: int
  rect_y :: int
  rect_w :: int
  rect_h :: int

text \<open>A \<open>gfx::Size\<close> is never negative: its constructor and setters clamp at zero.\<close>

definition Rect :: "int \<Rightarrow> int \<Rightarrow> int \<Rightarrow> int \<Rightarrow> rect" where
  "Rect x y w h = \<lparr>rect_x = x, rect_y = y, rect_w = max w 0, rect_h = max h 0\<rparr>"

definition rect_right :: "rect \<Rightarrow> int" where
  "rect_right r = rect_x r + rect_w r"

definition rect_bottom :: "rect \<Rightarrow> int" where
  "rect_bottom r = rect_y r + rect_h r"

definition Rect_IsEmpty :: "rect \<Rightarrow> bool" where
  "Rect_IsEmpty r \<longleftrightarrow> rect_w r = 0 \<or> rect_h r = 0"

definition Rect_Contains :: "int \<Rightarrow> int \<Rightarrow> rect \<Rightarrow> bool" where
  "Rect_Contains px py r \<longleftrightarrow>
     px \<ge> rect_x r \<and> px < rect_right r \<and> py \<ge> rect_y r \<and> py < rect_bottom r"

definition Rect_Intersects :: "rect \<Rightarrow> rect \<Rightarrow> bool" where
  "Rect_Intersects a r \<longleftrightarrow>
     \<not> (Rect_IsEmpty a \<or> Rect_IsEmpty r \<or> rect_x r \<ge> rect_right a \<or> rect_right r \<le> rect_x a \<or>
        rect_y r \<ge> rect_bottom a \<or> rect_bottom r \<le> rect_y a)"

definition Rect_Intersect :: "rect \<Rightarrow> rect \<Rightarrow> rect" where
  "Rect_Intersect a r =
     (if Rect_IsEmpty a \<or> Rect_IsEmpty r then Rect 0 0 0 0
      else
        (let rx = max (rect_x a) (rect_x r);
             ry = max (rect_y a) (rect_y r);
             rr = min (rect_right a) (rect_right r);
             rb = min (rect_bottom a) (rect_bottom r)
         in if rx \<ge> rr \<or> ry \<ge> rb then Rect 0 0 0 0 else Rect rx ry (rr - rx) (rb - ry)))"

definition Rect_Union :: "rect \<Rightarrow> rect \<Rightarrow> rect" where
  "Rect_Union a r =
     (if Rect_IsEmpty a then r
      else if Rect_IsEmpty r then a
      else
        (let rx = min (rect_x a) (rect_x r);
             ry = min (rect_y a) (rect_y r);
             rr = max (rect_right a) (rect_right r);
             rb = max (rect_bottom a) (rect_bottom r)
         in Rect rx ry (rr - rx) (rb - ry)))"

section \<open>The tiling\<close>

record tiling_data =
  max_texture_size :: "int \<times> int"
  tiling_size :: "int \<times> int"
  border_texels :: int
  num_tiles_x :: int
  num_tiles_y :: int

definition ComputeNumTiles :: "int \<Rightarrow> int \<Rightarrow> int \<Rightarrow> int" where
  "ComputeNumTiles max_size total_size border =
     (if max_size - 2 * border \<le> 0
      then (if total_size > 0 \<and> max_size \<ge> total_size then 1 else 0)
      else
        (let num_tiles =
           max 1 (1 + cdiv (total_size - 1 - 2 * border) (max_size - 2 * border))
         in if total_size > 0 then num_tiles else 0))"

definition RecomputeNumTiles :: "tiling_data \<Rightarrow> tiling_data" where
  "RecomputeNumTiles td =
     td\<lparr>num_tiles_x :=
          ComputeNumTiles (fst (max_texture_size td)) (fst (tiling_size td)) (border_texels td),
        num_tiles_y :=
          ComputeNumTiles (snd (max_texture_size td)) (snd (tiling_size td)) (border_texels td)\<rparr>"

definition TilingData :: "int \<times> int \<Rightarrow> int \<times> int \<Rightarrow> int \<Rightarrow> tiling_data" where
  "TilingData max_size sz border =
     RecomputeNumTiles
       \<lparr>max_texture_size = max_size, tiling_size = sz, border_texels = border,
        num_tiles_x = 0, num_tiles_y = 0\<rparr>"

definition SetTilingSize :: "int \<times> int \<Rightarrow> tiling_data \<Rightarrow> tiling_data" where
  "SetTilingSize sz td = RecomputeNumTiles (td\<lparr>tiling_size := sz\<rparr>)"

definition SetMaxTextureSize :: "int \<times> int \<Rightarrow> tiling_data \<Rightarrow> tiling_data" where
  "SetMaxTextureSize sz td = RecomputeNumTiles (td\<lparr>max_texture_size := sz\<rparr>)"

definition SetHasBorderTexels :: "bool \<Rightarrow> tiling_data \<Rightarrow> tiling_data" where
  "SetHasBorderTexels b td = RecomputeNumTiles (td\<lparr>border_texels := (if b then 1 else 0)\<rparr>)"

definition SetBorderTexels :: "int \<Rightarrow> tiling_data \<Rightarrow> tiling_data" where
  "SetBorderTexels b td = RecomputeNumTiles (td\<lparr>border_texels := b\<rparr>)"

definition has_empty_bounds :: "tiling_data \<Rightarrow> bool" where
  "has_empty_bounds td \<longleftrightarrow> num_tiles_x td = 0 \<or> num_tiles_y td = 0"

subsection \<open>One axis\<close>

text \<open>
  \<open>m\<close> is the texture size, \<open>t\<close> the tiling size, \<open>b\<close> the border and \<open>n\<close> the number of tiles along
  the axis.
\<close>

definition clamp_index :: "int \<Rightarrow> int \<Rightarrow> int" where
  "clamp_index n i = min (max i 0) (n - 1)"

definition tile_index :: "int \<Rightarrow> int \<Rightarrow> int \<Rightarrow> int \<Rightarrow> int" where
  "tile_index m b n pos = (if n \<le> 1 then 0 else clamp_index n (cdiv (pos - b) (m - 2 * b)))"

definition first_border_tile_index :: "int \<Rightarrow> int \<Rightarrow> int \<Rightarrow> int \<Rightarrow> int" where
  "first_border_tile_index m b n pos =
     (if n \<le> 1 then 0 else clamp_index n (cdiv (pos - 2 * b) (m - 2 * b)))"

definition last_border_tile_index :: "int \<Rightarrow> int \<Rightarrow> int \<Rightarrow> int \<Rightarrow> int" where
  "last_border_tile_index m b n pos =
     (if n \<le> 1 then 0 else clamp_index n (cdiv pos (m - 2 * b)))"

definition tile_lo :: "int \<Rightarrow> int \<Rightarrow> int \<Rightarrow> int" where
  "tile_lo m b i = (let lo = (m - 2 * b) * i in if i \<noteq> 0 then lo + b else lo)"

definition tile_hi :: "int \<Rightarrow> int \<Rightarrow> int \<Rightarrow> int \<Rightarrow> int \<Rightarrow> int" where
  "tile_hi m t b n i =
     (let hi = (m - 2 * b) * (i + 1) + b;
          hi = (if i + 1 = n then hi + b else hi)
      in min hi t)"

definition border_lo :: "int \<Rightarrow> int \<Rightarrow> int \<Rightarrow> int" where
  "border_lo m b i = (m - 2 * b) * i"

definition border_hi :: "int \<Rightarrow> int \<Rightarrow> int \<Rightarrow> int \<Rightarrow> int" where
  "border_hi m t b i = min (border_lo m b i + (m - 2 * b) + 2 * b) t"

definition tile_size :: "int \<Rightarrow> int \<Rightarrow> int \<Rightarrow> int \<Rightarrow> int \<Rightarrow> int" where
  "tile_size m t b n i =
     (if i = 0 \<and> n = 1 then t
      else if i = 0 \<and> n > 1 then m - b
      else if i < n - 1 then m - 2 * b
      else if i = n - 1 then t - tile_lo m b i
      else 0)"

subsection \<open>The members of TilingData\<close>

definition TileXIndexFromSrcCoord :: "tiling_data \<Rightarrow> int \<Rightarrow> int" where
  "TileXIndexFromSrcCoord td =
     tile_index (fst (max_texture_size td)) (border_texels td) (num_tiles_x td)"

definition TileYIndexFromSrcCoord :: "tiling_data \<Rightarrow> int \<Rightarrow> int" where
  "TileYIndexFromSrcCoord td =
     tile_index (snd (max_texture_size td)) (border_texels td) (num_tiles_y td)"

definition FirstBorderTileXIndexFromSrcCoord :: "tiling_data \<Rightarrow> int \<Rightarrow> int" where
  "FirstBorderTileXIndexFromSrcCoord td =
     first_border_tile_index (fst (max_texture_size td)) (border_texels td) (num_tiles_x td)"

definition FirstBorderTileYIndexFromSrcCoord :: "tiling_data \<Rightarrow> int \<Rightarrow> int" where
  "FirstBorderTileYIndexFromSrcCoord td =
     first_border_tile_index (snd (max_texture_size td)) (border_texels td) (num_tiles_y td)"

definition LastBorderTileXIndexFromSrcCoord :: "tiling_data \<Rightarrow> int \<Rightarrow> int" where
  "LastBorderTileXIndexFromSrcCoord td =
     last_border_tile_index (fst (max_texture_size td)) (border_texels td) (num_tiles_x td)"

definition LastBorderTileYIndexFromSrcCoord :: "tiling_data \<Rightarrow> int \<Rightarrow> int" where
  "LastBorderTileYIndexFromSrcCoord td =
     last_border_tile_index (snd (max_texture_size td)) (border_texels td) (num_tiles_y td)"

definition TileBounds :: "tiling_data \<Rightarrow> int \<Rightarrow> int \<Rightarrow> rect" where
  "TileBounds td i j =
     (let b = border_texels td;
          lo_x = tile_lo (fst (max_texture_size td)) b i;
          lo_y = tile_lo (snd (max_texture_size td)) b j;
          hi_x = tile_hi (fst (max_texture_size td)) (fst (tiling_size td)) b (num_tiles_x td) i;
          hi_y = tile_hi (snd (max_texture_size td)) (snd (tiling_size td)) b (num_tiles_y td) j
      in Rect lo_x lo_y (hi_x - lo_x) (hi_y - lo_y))"

definition TileBoundsWithBorder :: "tiling_data \<Rightarrow> int \<Rightarrow> int \<Rightarrow> rect" where
  "TileBoundsWithBorder td i j =
     (let b = border_texels td;
          lo_x = border_lo (fst (max_texture_size td)) b i;
          lo_y = border_lo (snd (max_texture_size td)) b j;
          hi_x = border_hi (fst (max_texture_size td)) (fst (tiling_size td)) b i;
          hi_y = border_hi (snd (max_texture_size td)) (snd (tiling_size td)) b j
      in Rect lo_x lo_y (hi_x - lo_x) (hi_y - lo_y))"

definition TilePositionX :: "tiling_data \<Rightarrow> int \<Rightarrow> int" where
  "TilePositionX td i = tile_lo (fst (max_texture_size td)) (border_texels td) i"

definition TilePositionY :: "tiling_data \<Rightarrow> int \<Rightarrow> int" where
  "TilePositionY td j = tile_lo (snd (max_texture_size td)) (border_texels td) j"

definition TileSizeX :: "tiling_data \<Rightarrow> int \<Rightarrow> int" where
  "TileSizeX td i =
     tile_size (fst (max_texture_size td)) (fst (tiling_size td)) (border_texels td) (num_tiles_x td) i"

definition TileSizeY :: "tiling_data \<Rightarrow> int \<Rightarrow> int" where
  "TileSizeY td j =
     tile_size (snd (max_texture_size td)) (snd (tiling_size td)) (border_texels td) (num_tiles_y td) j"

definition TextureOffset :: "tiling_data \<Rightarrow> int \<Rightarrow> int \<Rightarrow> int \<times> int" where
  "TextureOffset td i j =
     ((if i = 0 \<or> num_tiles_x td = 1 then 0 else border_texels td),
      (if j = 0 \<or> num_tiles_y td = 1 then 0 else border_texels td))"

definition ExpandRectIgnoringBordersToTileBounds :: "tiling_data \<Rightarrow> rect \<Rightarrow> rect" where
  "ExpandRectIgnoringBordersToTileBounds td r =
     (if Rect_IsEmpty r \<or> has_empty_bounds td then Rect 0 0 0 0
      else if rect_x r > fst (tiling_size td) \<or> rect_y r > snd (tiling_size td) then Rect 0 0 0 0
      else
        (let index_x = TileXIndexFromSrcCoord td (rect_x r);
             index_y = TileYIndexFromSrcCoord td (rect_y r);
             index_right = TileXIndexFromSrcCoord td (rect_right r - 1);
             index_bottom = TileYIndexFromSrcCoord td (rect_bottom r - 1)
         in Rect_Union (TileBounds td index_x index_y) (TileBounds td index_right index_bottom)))"

definition ExpandRectToTileBounds :: "tiling_data \<Rightarrow> rect \<Rightarrow> rect" where
  "ExpandRectToTileBounds td r =
     (if Rect_IsEmpty r \<or> has_empty_bounds td then Rect 0 0 0 0
      else if rect_x r > fst (tiling_size td) \<or> rect_y r > snd (tiling_size td) then Rect 0 0 0 0
      else
        (let index_x = FirstBorderTileXIndexFromSrcCoord td (rect_x r);
             index_y = FirstBorderTileYIndexFromSrcCoord td (rect_y r);
             index_right = LastBorderTileXIndexFromSrcCoord td (rect_right r - 1);
             index_bottom = LastBorderTileYIndexFromSrcCoord td (rect_bottom r - 1)
         in Rect_Union (TileBounds td index_x index_y) (TileBounds td index_right index_bottom)))"

section \<open>Iterators\<close>

record base_iterator =
  index_x :: int
  index_y :: int

text \<open>\<open>operator bool\<close> and \<open>done\<close>.\<close>

definition iterator_ok :: "'a base_iterator_scheme \<Rightarrow> bool" where
  "iterator_ok it \<longleftrightarrow> index_x it \<noteq> -1 \<and> index_y it \<noteq> -1"

definition iterator_done :: "'a base_iterator_scheme \<Rightarrow> 'a base_iterator_scheme" where
  "iterator_done it = it\<lparr>index_x := -1, index_y := -1\<rparr>"

definition iterator_index :: "'a base_iterator_scheme \<Rightarrow> int \<times> int" where
  "iterator_index it = (index_x it, index_y it)"

record tile_iterator = base_iterator +
  it_left :: int
  it_right :: int
  it_bottom :: int

definition Iterator :: "tiling_data \<Rightarrow> rect \<Rightarrow> bool \<Rightarrow> tile_iterator" where
  "Iterator td consider_rect include_borders =
     (let it = \<lparr>index_x = -1, index_y = -1, it_left = -1, it_right = -1, it_bottom = -1\<rparr>
      in if num_tiles_x td \<le> 0 \<or> num_tiles_y td \<le> 0 then iterator_done it
         else
           (let tiling_bounds_rect = Rect 0 0 (fst (tiling_size td)) (snd (tiling_size td));
                r = Rect_Intersect consider_rect tiling_bounds_rect;
                it = (if include_borders
                      then it\<lparr>index_x := FirstBorderTileXIndexFromSrcCoord td (rect_x r),
                              index_y := FirstBorderTileYIndexFromSrcCoord td (rect_y r),
                              it_right := LastBorderTileXIndexFromSrcCoord td (rect_right r - 1),
                              it_bottom := LastBorderTileYIndexFromSrcCoord td (rect_bottom r - 1)\<rparr>
                      else it\<lparr>index_x := TileXIndexFromSrcCoord td (rect_x r),
                              index_y := TileYIndexFromSrcCoord td (rect_y r),
                              it_right := TileXIndexFromSrcCoord td (rect_right r - 1),
                              it_bottom := TileYIndexFromSrcCoord td (rect_bottom r - 1)\<rparr>);
                top_left_tile = (if include_borders
                                 then TileBoundsWithBorder td (index_x it) (index_y it)
                                 else TileBounds td (index_x it) (index_y it));
                it = it\<lparr>it_left := index_x it\<rparr>
            in if \<not> Rect_Intersects top_left_tile r then iterator_done it else it))"

definition Iterator_next :: "tile_iterator \<Rightarrow> tile_iterator" where
  "Iterator_next it =
     (if \<not> iterator_ok it then it
      else
        (let it = it\<lparr>index_x := index_x it + 1\<rparr>
         in if index_x it > it_right it
            then
              (let it = it\<lparr>index_x := it_left it, index_y := index_y it + 1\<rparr>
               in if index_y it > it_bottom it then iterator_done it else it)
            else it))"

record difference_iterator = base_iterator +
  consider_left :: int
  consider_top :: int
  consider_right :: int
  consider_bottom :: int
  ignore_left :: int
  ignore_top :: int
  ignore_right :: int
  ignore_bottom :: int

definition in_consider_rect :: "'a difference_iterator_scheme \<Rightarrow> bool" where
  "in_consider_rect it \<longleftrightarrow>
     index_x it \<ge> consider_left it \<and> index_x it \<le> consider_right it \<and>
     index_y it \<ge> consider_top it \<and> index_y it \<le> consider_bottom it"

definition in_ignore_rect :: "'a difference_iterator_scheme \<Rightarrow> bool" where
  "in_ignore_rect it \<longleftrightarrow>
     index_x it \<ge> ignore_left it \<and> index_x it \<le> ignore_right it \<and>
     index_y it \<ge> ignore_top it \<and> index_y it \<le> ignore_bottom it"

definition BaseDifferenceIterator :: "tiling_data \<Rightarrow> rect \<Rightarrow> rect \<Rightarrow> difference_iterator" where
  "BaseDifferenceIterator td consider_rect ignore_rect =
     (let it = \<lparr>index_x = -1, index_y = -1, consider_left = -1, consider_top = -1,
                consider_right = -1, consider_bottom = -1, ignore_left = -1, ignore_top = -1,
                ignore_right = -1, ignore_bottom = -1\<rparr>
      in if num_tiles_x td \<le> 0 \<or> num_tiles_y td \<le> 0 then iterator_done it
         else
           (let tiling_bounds_rect = Rect 0 0 (fst (tiling_size td)) (snd (tiling_size td));
                consider = Rect_Intersect consider_rect tiling_bounds_rect
            in if Rect_IsEmpty consider then iterator_done it
               else
                 (let it = it\<lparr>consider_left := TileXIndexFromSrcCoord td (rect_x consider),
                              consider_top := TileYIndexFromSrcCoord td (rect_y consider),
                              consider_right := TileXIndexFromSrcCoord td (rect_right consider - 1),
                              consider_bottom := TileYIndexFromSrcCoord td (rect_bottom consider - 1)\<rparr>;
                      ignore = Rect_Intersect ignore_rect tiling_bounds_rect
                  in if Rect_IsEmpty ignore then it
                     else
                       (let it = it\<lparr>ignore_left := max (TileXIndexFromSrcCoord td (rect_x ignore))
                                                       (consider_left it),
                                    ignore_top := max (TileYIndexFromSrcCoord td (rect_y ignore))
                                                      (consider_top it),
                                    ignore_right := min (TileXIndexFromSrcCoord td (rect_right ignore - 1))
                                                        (consider_right it),
                                    ignore_bottom := min (TileYIndexFromSrcCoord td (rect_bottom ignore - 1))
                                                         (consider_bottom it)\<rparr>
                        in if ignore_left it = consider_left it \<and> ignore_right it = consider_right it \<and>
                              ignore_top it = consider_top it \<and> ignore_bottom it = consider_bottom it
                           then iterator_done
                                  (it\<lparr>consider_left := -1, consider_top := -1,
                                      consider_right := -1, consider_bottom := -1\<rparr>)
                           else it))))"

definition HasConsiderRect :: "'a difference_iterator_scheme \<Rightarrow> bool" where
  "HasConsiderRect it \<longleftrightarrow> consider_left it \<noteq> -1"

definition HasConsiderRect_dcheck :: "'a difference_iterator_scheme \<Rightarrow> bool" where
  "HasConsiderRect_dcheck it \<longleftrightarrow>
     0 \<le> consider_left it \<and> consider_left it \<le> consider_right it \<and>
     0 \<le> consider_top it \<and> consider_top it \<le> consider_bottom it \<or>
     consider_left it = -1 \<and> consider_top it = -1 \<and> consider_right it = -1 \<and>
     consider_bottom it = -1"

definition DifferenceIterator_next :: "difference_iterator \<Rightarrow> difference_iterator" where
  "DifferenceIterator_next it =
     (if \<not> iterator_ok it then it
      else
        (let it = it\<lparr>index_x := index_x it + 1\<rparr>;
             it = (if in_ignore_rect it then it\<lparr>index_x := ignore_right it + 1\<rparr> else it)
         in if index_x it > consider_right it
            then
              (let it = it\<lparr>index_x := consider_left it, index_y := index_y it + 1\<rparr>;
                   it = (if in_ignore_rect it
                         then (let it = it\<lparr>index_x := ignore_right it + 1\<rparr>
                               in if in_ignore_rect it \<or> index_x it > consider_right it
                                  then it\<lparr>index_y := ignore_bottom it + 1, index_x := consider_left it\<rparr>
                                  else it)
                         else it)
               in if index_y it > consider_bottom it then iterator_done it else it)
            else it))"

definition DifferenceIterator :: "tiling_data \<Rightarrow> rect \<Rightarrow> rect \<Rightarrow> difference_iterator" where
  "DifferenceIterator td consider_rect ignore_rect =
     (let it = BaseDifferenceIterator td consider_rect ignore_rect
      in if \<not> HasConsiderRect it then iterator_done it
         else
           (let it = it\<lparr>index_x := consider_left it, index_y := consider_top it\<rparr>
            in if in_ignore_rect it then DifferenceIterator_next it else it))"

text \<open>
  A loop over an iterator, \<open>for (; it; ++it)\<close>, collecting the tiles it visits; \<open>None\<close> when the
  fuel runs out before the iterator is done.
\<close>

fun walk :: "('s \<Rightarrow> bool) \<Rightarrow> ('s \<Rightarrow> 's) \<Rightarrow> ('s \<Rightarrow> 't) \<Rightarrow> nat \<Rightarrow> 's \<Rightarrow> 't list option" where
  "walk ok step tile 0 s = (if ok s then None else Some [])"
| "walk ok step tile (Suc fuel) s =
     (if ok s then map_option (Cons (tile s)) (walk ok step tile fuel (step s)) else Some [])"

section \<open>The tiles of one axis\<close>

definition axis_ok :: "int \<Rightarrow> int \<Rightarrow> int \<Rightarrow> int \<Rightarrow> bool" where
  "axis_ok m t b n \<longleftrightarrow> n = ComputeNumTiles m t b \<and> 0 \<le> b \<and> 0 < n"

text \<open>Either one tile holds everything, or the last tile begins inside and ends past the end.\<close>

lemma axis_cases:
  assumes "axis_ok m t b n"
  shows "0 < t" and "n = 1 \<Longrightarrow> t \<le> m"
    and "1 < n \<Longrightarrow> 0 < m - 2 * b"
    and "1 < n \<Longrightarrow> (m - 2 * b) * (n - 1) \<le> t - 1 - 2 * b"
    and "1 < n \<Longrightarrow> t - 1 - 2 * b < (m - 2 * b) * n"
proof -
  let ?w = "m - 2 * b"
  let ?q = "t - 1 - 2 * b"
  have n: "n = ComputeNumTiles m t b" "0 < n" using assms by (auto simp: axis_ok_def)
  then show "0 < t" by (auto simp: ComputeNumTiles_def Let_def split: if_splits)
  have one: "t \<le> m" if "n = 1" "0 < ?w"
  proof -
    have "cdiv ?q ?w \<le> 0" using n(1) that by (auto simp: ComputeNumTiles_def Let_def split: if_splits)
    moreover have "0 < cdiv ?q ?w" if "?w \<le> ?q"
      using that \<open>0 < ?w\<close> by (simp add: pos_imp_zdiv_pos_iff)
    ultimately have "?q < ?w" by linarith
    then show ?thesis by simp
  qed
  show "t \<le> m" if "n = 1"
    using n(1) that one by (cases "0 < ?w") (auto simp: ComputeNumTiles_def split: if_splits)
  assume big: "1 < n"
  then show w: "0 < ?w" using n(1) by (auto simp: ComputeNumTiles_def split: if_splits)
  have c: "n = 1 + cdiv ?q ?w"
    using n(1) big w by (auto simp: ComputeNumTiles_def Let_def max_def split: if_splits)
  then have "0 \<le> ?q" using big w cdiv_nonpos [of ?q ?w] by (cases "0 \<le> ?q") auto
  then have q: "n - 1 = ?q div ?w" using c by simp
  have e: "?w * (?q div ?w) + ?q mod ?w = ?q" by simp
  have m: "0 \<le> ?q mod ?w" "?q mod ?w < ?w" using w by simp_all
  show "?w * (n - 1) \<le> ?q" using e m(1) unfolding q by linarith
  have "?w * n = ?w * (?q div ?w) + ?w" unfolding q [symmetric] by (simp add: algebra_simps)
  then show "?q < ?w * n" using e m(2) by linarith
qed

lemma inner_mono: "0 < w \<Longrightarrow> i \<le> j \<Longrightarrow> (w::int) * i \<le> w * j"
  by (simp add: mult_left_mono)

text \<open>The tiles lie side by side, from the first texel to the last.\<close>

lemma tile_chain:
  assumes ax: "axis_ok m t b n"
  shows "tile_lo m b 0 = 0" and "tile_hi m t b n (n - 1) = t"
    and "0 \<le> i \<Longrightarrow> i < n - 1 \<Longrightarrow> tile_hi m t b n i = tile_lo m b (i + 1)"
    and "0 \<le> i \<Longrightarrow> i < n \<Longrightarrow> tile_lo m b i < tile_hi m t b n i"
    and "0 \<le> i \<Longrightarrow> i < n \<Longrightarrow> 0 \<le> tile_lo m b i"
    and "0 \<le> i \<Longrightarrow> i < n \<Longrightarrow> tile_hi m t b n i \<le> t"
proof -
  let ?w = "m - 2 * b"
  have b: "0 \<le> b" and n: "0 < n" using ax by (auto simp: axis_ok_def)
  note c = axis_cases [OF ax]
  show "tile_lo m b 0 = 0" by (simp add: tile_lo_def)
  have last: "tile_hi m t b n (n - 1) = t"
  proof (cases "n = 1")
    case True
    then show ?thesis using c(2) by (simp add: tile_hi_def Let_def)
  next
    case False
    then have "t - 1 - 2 * b < ?w * n" using n c(5) by simp
    then show ?thesis by (simp add: tile_hi_def Let_def)
  qed
  then show "tile_hi m t b n (n - 1) = t" .
  have inner: "tile_hi m t b n i = ?w * (i + 1) + b" "tile_lo m b (i + 1) = ?w * (i + 1) + b"
    "0 < ?w" if "0 \<le> i" "i < n - 1" for i
  proof -
    have n1: "1 < n" using that by simp
    show "0 < ?w" using c(3) [OF n1] .
    then have "?w * (i + 1) \<le> ?w * (n - 1)" using that inner_mono by simp
    then have "?w * (i + 1) + b \<le> t" using c(4) [OF n1] b by simp
    then show "tile_hi m t b n i = ?w * (i + 1) + b" using that by (simp add: tile_hi_def Let_def)
    show "tile_lo m b (i + 1) = ?w * (i + 1) + b" using that by (simp add: tile_lo_def Let_def)
  qed
  then show "tile_hi m t b n i = tile_lo m b (i + 1)" if "0 \<le> i" "i < n - 1" using that by simp
  have pos: "0 \<le> ?w * i" if "0 \<le> i" "i < n" for i
    using that c(3) by (cases "i = 0") simp_all
  show lo: "0 \<le> tile_lo m b i" if "0 \<le> i" "i < n" for i
    using pos [OF that] b by (simp add: tile_lo_def Let_def)
  show "tile_lo m b i < tile_hi m t b n i" if i: "0 \<le> i" "i < n"
  proof (cases "i = n - 1")
    case True
    show ?thesis
    proof (cases "n = 1")
      case True
      then show ?thesis using last \<open>i = n - 1\<close> c(1) by (simp add: tile_lo_def)
    next
      case False
      then have "?w * i \<le> t - 1 - 2 * b" using n c(4) True by simp
      then have "tile_lo m b i < t" using b c(1) by (simp add: tile_lo_def Let_def)
      then show ?thesis using last True by simp
    qed
  next
    case False
    then have f: "0 \<le> i" "i < n - 1" using i by simp_all
    have "?w * (i + 1) = ?w * i + ?w" by (simp add: algebra_simps)
    then show ?thesis using inner [OF f] b by (simp add: tile_lo_def Let_def)
  qed
  show "tile_hi m t b n i \<le> t" by (simp add: tile_hi_def Let_def)
qed

lemma cdiv_shift:
  assumes "0 < (w::int)"
  shows "0 \<le> a \<Longrightarrow> w * cdiv a w \<le> a" and "0 \<le> a \<Longrightarrow> a < w * cdiv a w + w"
    and "a < 0 \<Longrightarrow> cdiv a w \<le> 0"
proof -
  have m: "w * (a div w) + a mod w = a" "0 \<le> a mod w" "a mod w < w" using assms by simp_all
  have "w * (a div w) \<le> a" "a < w * (a div w) + w" using m by linarith+
  then show "0 \<le> a \<Longrightarrow> w * cdiv a w \<le> a" "0 \<le> a \<Longrightarrow> a < w * cdiv a w + w" by simp_all
  show "a < 0 \<Longrightarrow> cdiv a w \<le> 0" using assms cdiv_nonpos by simp
qed

text \<open>The tile of a position holds it.\<close>

lemma tile_index_range: "axis_ok m t b n \<Longrightarrow> 0 \<le> tile_index m b n p \<and> tile_index m b n p < n"
  by (auto simp: tile_index_def clamp_index_def axis_ok_def)

lemma tile_index_holds:
  assumes ax: "axis_ok m t b n" and p: "0 \<le> p" "p < t"
  shows "tile_lo m b (tile_index m b n p) \<le> p \<and> p < tile_hi m t b n (tile_index m b n p)"
proof (cases "n = 1")
  case True
  then show ?thesis
    using p tile_chain(1,2) [OF ax] by (simp add: tile_index_def)
next
  case False
  let ?w = "m - 2 * b"
  let ?i = "tile_index m b n p"
  have b: "0 \<le> b" and n: "1 < n" using ax False by (auto simp: axis_ok_def)
  have w: "0 < ?w" by (rule axis_cases(3) [OF ax n])
  have i: "?i = clamp_index n (cdiv (p - b) ?w)" using n by (simp add: tile_index_def)
  consider "p < b" | "b \<le> p" "n - 1 \<le> cdiv (p - b) ?w" | "b \<le> p" "cdiv (p - b) ?w < n - 1" by linarith
  then show ?thesis
  proof cases
    case 1
    then have "?i = 0" using i cdiv_shift(3) [OF w, of "p - b"] n by (simp add: clamp_index_def)
    then show ?thesis
      using p 1 n w tile_chain(1) [OF ax] tile_chain(3) [OF ax, of 0] b by (simp add: tile_lo_def)
  next
    case 2
    then have ii: "?i = n - 1" using i n by (simp add: clamp_index_def)
    have "?w * (n - 1) \<le> ?w * cdiv (p - b) ?w" using 2 w by (simp add: inner_mono)
    also have "\<dots> \<le> p - b" using 2 w by (intro cdiv_shift(1)) simp_all
    finally show ?thesis using ii n p tile_chain(2) [OF ax] by (simp add: tile_lo_def)
  next
    case 3
    let ?c = "cdiv (p - b) ?w"
    have c0: "0 \<le> ?c" using 3 w by (simp add: pos_imp_zdiv_nonneg_iff)
    then have ii: "?i = ?c" using i 3 by (simp add: clamp_index_def)
    have lo: "?w * ?c \<le> p - b" and hi: "p - b < ?w * ?c + ?w"
      using 3 w by (intro cdiv_shift; simp)+
    have "tile_hi m t b n ?c = ?w * (?c + 1) + b"
      using tile_chain(3) [OF ax c0 3(2)] c0 by (simp add: tile_lo_def)
    then have "p < tile_hi m t b n ?c" using hi by (simp only: distrib_left mult_1_right)
    moreover have "tile_lo m b ?c \<le> p" using lo b p by (simp add: tile_lo_def Let_def)
    ultimately show ?thesis by (simp only: ii)
  qed
qed

lemma tile_lo_mono:
  assumes "axis_ok m t b n" and "0 \<le> i" and "i \<le> j" and "j < n"
  shows "tile_lo m b i \<le> tile_lo m b j"
proof (cases "i = j")
  case False
  then have "1 < n" using assms by linarith
  then have "0 < m - 2 * b" by (rule axis_cases(3) [OF assms(1)])
  then show ?thesis
    using assms inner_mono [of "m - 2 * b" i j] by (auto simp: tile_lo_def Let_def axis_ok_def)
qed simp

lemma tile_hi_le_lo:
  assumes "axis_ok m t b n" and "0 \<le> i" and "i < j" and "j < n"
  shows "tile_hi m t b n i \<le> tile_lo m b j"
  using tile_chain(3) [OF assms(1,2)] tile_lo_mono [OF assms(1), of "i + 1" j] assms by simp

text \<open>And no other tile does.\<close>

lemma tile_index_unique:
  assumes ax: "axis_ok m t b n" and i: "0 \<le> i" "i < n" and p: "tile_lo m b i \<le> p" "p < tile_hi m t b n i"
  shows "tile_index m b n p = i"
proof -
  let ?k = "tile_index m b n p"
  have range: "0 \<le> p" "p < t" using p tile_chain(5,6) [OF ax i] by simp_all
  have k: "0 \<le> ?k" "?k < n" using tile_index_range [OF ax] by auto
  have h: "tile_lo m b ?k \<le> p" "p < tile_hi m t b n ?k" using tile_index_holds [OF ax range] by auto
  show ?thesis
  proof (rule ccontr)
    assume "?k \<noteq> i"
    then have "?k < i \<or> i < ?k" by linarith
    then show False
      using tile_hi_le_lo [OF ax k(1) _ i(2)] tile_hi_le_lo [OF ax i(1) _ k(2)] h p by force
  qed
qed

text \<open>The tiles that meet an interval are those between the tiles of its ends.\<close>

lemma tile_index_le_iff:
  assumes ax: "axis_ok m t b n" and i: "0 \<le> i" "i < n" and p: "0 \<le> p" "p < t"
  shows "tile_index m b n p \<le> i \<longleftrightarrow> p < tile_hi m t b n i"
    and "i \<le> tile_index m b n p \<longleftrightarrow> tile_lo m b i \<le> p"
proof -
  let ?k = "tile_index m b n p"
  have h: "tile_lo m b ?k \<le> p" "p < tile_hi m t b n ?k" using tile_index_holds [OF ax p] by auto
  have k: "0 \<le> ?k" "?k < n" using tile_index_range [OF ax] by auto
  show "?k \<le> i \<longleftrightarrow> p < tile_hi m t b n i"
  proof
    assume "?k \<le> i"
    then show "p < tile_hi m t b n i"
      using h tile_hi_le_lo [OF ax k(1) _ i(2)] tile_chain(4) [OF ax i] by (cases "?k = i") force+
  next
    assume "p < tile_hi m t b n i"
    then show "?k \<le> i" using h tile_hi_le_lo [OF ax i(1) _ k(2)] by force
  qed
  show "i \<le> ?k \<longleftrightarrow> tile_lo m b i \<le> p"
  proof
    assume "i \<le> ?k"
    then show "tile_lo m b i \<le> p" using h tile_lo_mono [OF ax i(1) _ k(2)] by force
  next
    assume "tile_lo m b i \<le> p"
    then show "i \<le> ?k" using h tile_hi_le_lo [OF ax k(1) _ i(2)] by force
  qed
qed

lemma tile_meets_iff:
  assumes ax: "axis_ok m t b n" and i: "0 \<le> i" "i < n" and ac: "0 \<le> a" "a < c" "c \<le> t"
  shows "tile_lo m b i < c \<and> a < tile_hi m t b n i \<longleftrightarrow>
         tile_index m b n a \<le> i \<and> i \<le> tile_index m b n (c - 1)"
  using tile_index_le_iff(1) [OF ax i, of a] tile_index_le_iff(2) [OF ax i, of "c - 1"] ac by auto

lemma tile_index_mono:
  assumes ax: "axis_ok m t b n" and "0 \<le> p" "p \<le> q" "q < t"
  shows "tile_index m b n p \<le> tile_index m b n q"
proof (rule ccontr)
  assume "\<not> ?thesis"
  then have "tile_index m b n q < tile_index m b n p" by simp
  then have "tile_hi m t b n (tile_index m b n q) \<le> tile_lo m b (tile_index m b n p)"
    using tile_index_range [OF ax] by (intro tile_hi_le_lo [OF ax]) auto
  then show False using tile_index_holds [OF ax, of p] tile_index_holds [OF ax, of q] assms by simp
qed

text \<open>A tile with its border holds a position exactly when it is between the border indices.\<close>

lemma cdiv_le_iff:
  assumes "0 < (w::int)"
  shows "0 \<le> a \<Longrightarrow> i \<le> cdiv a w \<longleftrightarrow> w * i \<le> a" and "0 \<le> i \<Longrightarrow> cdiv a w \<le> i \<longleftrightarrow> a < w * (i + 1)"
proof -
  have low: "i \<le> cdiv a w \<longleftrightarrow> w * i \<le> a" if a: "0 \<le> a" for i
  proof
    assume "i \<le> cdiv a w"
    then have "w * i \<le> w * cdiv a w" by (rule inner_mono [OF assms])
    also have "\<dots> \<le> a" by (rule cdiv_shift(1) [OF assms a])
    finally show "w * i \<le> a" .
  next
    assume le: "w * i \<le> a"
    show "i \<le> cdiv a w"
    proof (rule ccontr)
      assume "\<not> i \<le> cdiv a w"
      then have "w * (cdiv a w + 1) \<le> w * i" by (intro inner_mono [OF assms]) simp
      then show False using le cdiv_shift(2) [OF assms a] by (simp add: distrib_left)
    qed
  qed
  then show "0 \<le> a \<Longrightarrow> i \<le> cdiv a w \<longleftrightarrow> w * i \<le> a" .
  show "cdiv a w \<le> i \<longleftrightarrow> a < w * (i + 1)" if i: "0 \<le> i"
  proof (cases "0 \<le> a")
    case True
    then show ?thesis using low [of "i + 1"] by linarith
  next
    case False
    moreover have "0 \<le> w * (i + 1)" using assms i by simp
    ultimately show ?thesis using cdiv_shift(3) [OF assms, of a] i by simp
  qed
qed

lemma border_index_range:
  "axis_ok m t b n \<Longrightarrow> 0 \<le> first_border_tile_index m b n p \<and> first_border_tile_index m b n p < n"
  "axis_ok m t b n \<Longrightarrow> 0 \<le> last_border_tile_index m b n p \<and> last_border_tile_index m b n p < n"
  by (auto simp: first_border_tile_index_def last_border_tile_index_def clamp_index_def axis_ok_def)

lemma border_index_iff:
  assumes ax: "axis_ok m t b n" and i: "0 \<le> i" "i < n" and p: "0 \<le> p" "p < t"
  shows "p < border_hi m t b i \<longleftrightarrow> first_border_tile_index m b n p \<le> i"
    and "border_lo m b i \<le> p \<longleftrightarrow> i \<le> last_border_tile_index m b n p"
proof -
  have "(p < border_hi m t b i \<longleftrightarrow> first_border_tile_index m b n p \<le> i) \<and>
        (border_lo m b i \<le> p \<longleftrightarrow> i \<le> last_border_tile_index m b n p)"
  proof (cases "n = 1")
    case True
    then have "i = 0" using i by simp
    then show ?thesis
      using True p axis_cases(2) [OF ax]
      by (simp add: first_border_tile_index_def last_border_tile_index_def border_lo_def border_hi_def)
  next
    case False
    let ?w = "m - 2 * b"
    have n: "1 < n" using ax False by (auto simp: axis_ok_def)
    have w: "0 < ?w" by (rule axis_cases(3) [OF ax n])
    have lo: "border_lo m b i \<le> p \<longleftrightarrow> i \<le> cdiv p ?w"
      using cdiv_le_iff(1) [OF w p(1), of i] by (simp add: border_lo_def)
    have hi: "p < border_hi m t b i \<longleftrightarrow> cdiv (p - 2 * b) ?w \<le> i"
      using cdiv_le_iff(2) [OF w i(1), of "p - 2 * b"] p
      by (simp add: border_hi_def border_lo_def distrib_left)
    have "p - 2 * b < ?w * (n - 1 + 1)" using axis_cases(5) [OF ax n] p by simp
    then have "cdiv (p - 2 * b) ?w \<le> n - 1" using cdiv_le_iff(2) [OF w, of "n - 1"] n by simp
    then have "first_border_tile_index m b n p \<le> i \<longleftrightarrow> cdiv (p - 2 * b) ?w \<le> i"
      using n i by (auto simp: first_border_tile_index_def clamp_index_def)
    moreover have "0 \<le> cdiv p ?w" using cdiv_le_iff(1) [OF w p(1), of 0] p by simp
    then have "i \<le> last_border_tile_index m b n p \<longleftrightarrow> i \<le> cdiv p ?w"
      using n i by (auto simp: last_border_tile_index_def clamp_index_def)
    ultimately show ?thesis using lo hi by blast
  qed
  then show "p < border_hi m t b i \<longleftrightarrow> first_border_tile_index m b n p \<le> i"
    "border_lo m b i \<le> p \<longleftrightarrow> i \<le> last_border_tile_index m b n p" by simp_all
qed

lemma border_lo_hi:
  assumes ax: "axis_ok m t b n" and i: "0 \<le> i" "i < n"
  shows "0 \<le> border_lo m b i" and "border_lo m b i < border_hi m t b i" and "border_hi m t b i \<le> t"
proof -
  have b: "0 \<le> b" using ax by (simp add: axis_ok_def)
  have lo: "0 \<le> border_lo m b i" "border_lo m b i < t" "n = 1 \<or> 0 < m - 2 * b"
  proof -
    consider "n = 1" | "1 < n" using i by linarith
    then have "0 \<le> border_lo m b i \<and> border_lo m b i < t \<and> (n = 1 \<or> 0 < m - 2 * b)"
    proof cases
      case 1
      then have "i = 0" using i by simp
      then show ?thesis using 1 axis_cases(1) [OF ax] by (simp add: border_lo_def)
    next
      case 2
      have w: "0 < m - 2 * b" by (rule axis_cases(3) [OF ax 2])
      have "(m - 2 * b) * i \<le> (m - 2 * b) * (n - 1)" using i by (intro inner_mono [OF w]) simp
      then have "(m - 2 * b) * i < t" using axis_cases(4) [OF ax 2] b by linarith
      then show ?thesis using w i by (simp add: border_lo_def)
    qed
    then show "0 \<le> border_lo m b i" "border_lo m b i < t" "n = 1 \<or> 0 < m - 2 * b" by simp_all
  qed
  then show "0 \<le> border_lo m b i" by simp
  have "0 < m" using lo(3) axis_cases(1,2) [OF ax] b by auto
  then show "border_lo m b i < border_hi m t b i" using lo(2) by (simp add: border_hi_def)
  show "border_hi m t b i \<le> t" by (simp add: border_hi_def)
qed

lemma tile_size_hi_lo:
  assumes ax: "axis_ok m t b n" and i: "0 \<le> i" "i < n"
  shows "tile_size m t b n i = tile_hi m t b n i - tile_lo m b i"
proof (cases "i = n - 1")
  case True
  then show ?thesis
    using tile_chain(1,2) [OF ax] i by (auto simp: tile_size_def)
next
  case False
  then have "tile_hi m t b n i = (m - 2 * b) * (i + 1) + b"
    using tile_chain(3) [OF ax i(1)] i by (simp add: tile_lo_def Let_def)
  then show ?thesis
    using False i by (simp add: tile_size_def tile_lo_def Let_def distrib_left)
qed

section \<open>Walks over iterators\<close>

text \<open>
  The contract of an iterator: on a well-formed iterator there is a list of tiles left, which is
  empty when the iterator is done and otherwise starts with the current tile and continues with
  what is left after a step.
\<close>

locale tile_walk =
  fixes ok :: "'s \<Rightarrow> bool"
    and step :: "'s \<Rightarrow> 's"
    and tile :: "'s \<Rightarrow> 't"
    and wf :: "'s \<Rightarrow> bool"
    and left :: "'s \<Rightarrow> 't list"
  assumes left_done: "wf s \<Longrightarrow> \<not> ok s \<Longrightarrow> left s = []"
    and left_step: "wf s \<Longrightarrow> ok s \<Longrightarrow> left s = tile s # left (step s)"
    and wf_step: "wf s \<Longrightarrow> ok s \<Longrightarrow> wf (step s)"
begin

lemma walk_left: "wf s \<Longrightarrow> length (left s) \<le> fuel \<Longrightarrow> walk ok step tile fuel s = Some (left s)"
proof (induction fuel arbitrary: s)
  case 0
  then show ?case using left_step [of s] by auto
next
  case (Suc fuel)
  then show ?case
    using left_done [of s] left_step [of s] wf_step [of s] by (cases "ok s") auto
qed

end

text \<open>The tiles of a rectangle of indices, row by row.\<close>

definition row :: "int \<Rightarrow> int \<Rightarrow> int \<Rightarrow> (int \<times> int) list" where
  "row a b j = map (\<lambda>i. (i, j)) [a..b]"

definition rows :: "int \<Rightarrow> int \<Rightarrow> int \<Rightarrow> int \<Rightarrow> (int \<times> int) list" where
  "rows a b t0 b0 = concat (map (row a b) [t0..b0])"

lemma row_Nil: "b < a \<Longrightarrow> row a b j = []"
  by (simp add: row_def)

lemma row_Cons: "a \<le> b \<Longrightarrow> row a b j = (a, j) # row (a + 1) b j"
  by (simp add: row_def upto_rec1)

lemma rows_Nil: "b0 < t0 \<Longrightarrow> rows a b t0 b0 = []"
  by (simp add: rows_def)

lemma rows_Cons: "t0 \<le> b0 \<Longrightarrow> rows a b t0 b0 = row a b t0 @ rows a b (t0 + 1) b0"
  by (simp add: rows_def upto_rec1)

lemma upto_split_at:
  assumes "a \<le> mid" and "mid \<le> b + 1"
  shows "[a..b] = [a..mid - 1] @ [mid..b]"
  using assms
proof (induction "nat (mid - a)" arbitrary: a)
  case (Suc n)
  then have "[a + 1..b] = [a + 1..mid - 1] @ [mid..b]" by simp
  then show ?case using Suc by (simp add: upto_rec1 [of a])
qed simp

lemma rows_split:
  assumes "t0 \<le> mid" and "mid \<le> b0 + 1"
  shows "rows a b t0 b0 = rows a b t0 (mid - 1) @ rows a b mid b0"
  by (simp add: rows_def upto_split_at [OF assms])

lemma row_split:
  assumes "a \<le> mid" and "mid \<le> b + 1"
  shows "row a b j = row a (mid - 1) j @ row mid b j"
  by (simp add: row_def upto_split_at [OF assms])

lemma set_row [simp]: "set (row a b j) = {(i, j') | i j'. a \<le> i \<and> i \<le> b \<and> j' = j}"
  by (auto simp: row_def)

lemma set_rows [simp]: "set (rows a b t0 b0) = {(i, j). a \<le> i \<and> i \<le> b \<and> t0 \<le> j \<and> j \<le> b0}"
  by (auto simp: rows_def)

lemma distinct_row: "distinct (row a b j)"
  by (simp add: row_def distinct_map inj_on_def)

lemma distinct_rows: "distinct (rows a b t0 b0)"
proof (induction "nat (b0 - t0 + 1)" arbitrary: t0)
  case 0
  then show ?case by (simp add: rows_def)
next
  case (Suc n)
  then have le: "t0 \<le> b0" by simp
  have "n = nat (b0 - (t0 + 1) + 1)" using Suc.hyps(2) by simp
  then have IH: "distinct (rows a b (t0 + 1) b0)" by (rule Suc.hyps(1))
  show ?case
    unfolding rows_Cons [OF le] distinct_append using IH distinct_row by auto
qed

subsection \<open>Iterator\<close>

definition iterator_wf :: "tile_iterator \<Rightarrow> bool" where
  "iterator_wf it \<longleftrightarrow>
     (iterator_ok it \<longrightarrow>
        0 \<le> it_left it \<and> it_left it \<le> index_x it \<and> index_x it \<le> it_right it \<and>
        0 \<le> index_y it \<and> index_y it \<le> it_bottom it)"

definition iterator_left :: "tile_iterator \<Rightarrow> (int \<times> int) list" where
  "iterator_left it =
     (if \<not> iterator_ok it then []
      else row (index_x it) (it_right it) (index_y it) @
           rows (it_left it) (it_right it) (index_y it + 1) (it_bottom it))"

lemma iterator_done_ok [simp]: "\<not> iterator_ok (iterator_done it)"
  by (simp add: iterator_ok_def iterator_done_def)

interpretation iter: tile_walk iterator_ok Iterator_next iterator_index iterator_wf iterator_left
proof unfold_locales
  fix it
  show "\<not> iterator_ok it \<Longrightarrow> iterator_left it = []" by (simp add: iterator_left_def)
  assume wf: "iterator_wf it" and ok: "iterator_ok it"
  then have b: "0 \<le> it_left it" "it_left it \<le> index_x it" "index_x it \<le> it_right it"
    "0 \<le> index_y it" "index_y it \<le> it_bottom it" by (auto simp: iterator_wf_def)
  show "iterator_wf (Iterator_next it)"
    using b by (auto simp: Iterator_next_def iterator_wf_def Let_def iterator_ok_def iterator_done_def)
  have here: "iterator_left it = (index_x it, index_y it) # row (index_x it + 1) (it_right it) (index_y it) @
      rows (it_left it) (it_right it) (index_y it + 1) (it_bottom it)"
    using ok b by (simp add: iterator_left_def row_Cons)
  show "iterator_left it = iterator_index it # iterator_left (Iterator_next it)"
  proof (cases "index_x it + 1 > it_right it")
    case False
    then show ?thesis
      using b ok unfolding here
      by (simp add: Iterator_next_def iterator_left_def iterator_index_def iterator_ok_def)
  next
    case True
    then show ?thesis
      using b ok unfolding here
      by (auto simp: Iterator_next_def iterator_left_def iterator_index_def iterator_ok_def Let_def
          iterator_done_def row_Nil rows_Nil rows_Cons)
  qed
qed

subsection \<open>DifferenceIterator\<close>

definition ignored :: "'a difference_iterator_scheme \<Rightarrow> int \<times> int \<Rightarrow> bool" where
  "ignored it p \<longleftrightarrow>
     ignore_left it \<le> fst p \<and> fst p \<le> ignore_right it \<and>
     ignore_top it \<le> snd p \<and> snd p \<le> ignore_bottom it"

definition considered :: "'a difference_iterator_scheme \<Rightarrow> int \<times> int \<Rightarrow> bool" where
  "considered it p \<longleftrightarrow>
     consider_left it \<le> fst p \<and> fst p \<le> consider_right it \<and>
     consider_top it \<le> snd p \<and> snd p \<le> consider_bottom it"

lemma in_ignore_rect_ignored: "in_ignore_rect it \<longleftrightarrow> ignored it (index_x it, index_y it)"
  by (auto simp: in_ignore_rect_def ignored_def)

definition difference_bounds :: "'a difference_iterator_scheme \<Rightarrow> bool" where
  "difference_bounds it \<longleftrightarrow>
     0 \<le> consider_left it \<and> consider_left it \<le> consider_right it \<and>
     0 \<le> consider_top it \<and> consider_top it \<le> consider_bottom it \<and>
     ignore_right it \<le> consider_right it \<and> ignore_bottom it \<le> consider_bottom it"

definition difference_wf :: "difference_iterator \<Rightarrow> bool" where
  "difference_wf it \<longleftrightarrow>
     (iterator_ok it \<longrightarrow> difference_bounds it \<and> in_consider_rect it \<and> \<not> in_ignore_rect it)"

text \<open>The tiles from the current position on, whether or not the position itself is ignored.\<close>

definition difference_from :: "difference_iterator \<Rightarrow> int \<Rightarrow> int \<Rightarrow> (int \<times> int) list" where
  "difference_from it i j =
     filter (\<lambda>p. \<not> ignored it p)
       (row i (consider_right it) j @
        rows (consider_left it) (consider_right it) (j + 1) (consider_bottom it))"

definition difference_left :: "difference_iterator \<Rightarrow> (int \<times> int) list" where
  "difference_left it =
     (if \<not> iterator_ok it then [] else difference_from it (index_x it) (index_y it))"

lemma difference_from_skip:
  assumes b: "difference_bounds it" and ig: "ignored it (i, j)"
  shows "difference_from it i j = difference_from it (ignore_right it + 1) j"
proof -
  have "row i (consider_right it) j =
      row i (ignore_right it) j @ row (ignore_right it + 1) (consider_right it) j"
    using b ig row_split [of i "ignore_right it + 1" "consider_right it" j]
    by (simp add: difference_bounds_def ignored_def)
  moreover have "filter (\<lambda>p. \<not> ignored it p) (row i (ignore_right it) j) = []"
    using ig by (auto simp: filter_empty_conv ignored_def)
  ultimately show ?thesis by (simp add: difference_from_def)
qed

lemma difference_from_next_row:
  assumes "consider_right it < i" and "j \<le> consider_bottom it"
  shows "difference_from it i j =
    (if j + 1 \<le> consider_bottom it then difference_from it (consider_left it) (j + 1) else [])"
  using assms by (simp add: difference_from_def row_Nil rows_Nil rows_Cons)

text \<open>Rows that are ignored from end to end are skipped at once.\<close>

lemma difference_from_skip_rows:
  assumes b: "difference_bounds it" and ig: "ignored it (consider_left it, j)"
    and wide: "consider_right it < ignore_right it + 1"
  shows "difference_from it (consider_left it) j =
    (if ignore_bottom it + 1 \<le> consider_bottom it
     then difference_from it (consider_left it) (ignore_bottom it + 1) else [])"
proof -
  let ?l = "consider_left it" and ?r = "consider_right it" and ?ib = "ignore_bottom it"
  have j: "j \<le> ?ib" "?ib \<le> consider_bottom it" using b ig by (auto simp: difference_bounds_def ignored_def)
  have all: "rows ?l ?r j (consider_bottom it) = rows ?l ?r j ?ib @ rows ?l ?r (?ib + 1) (consider_bottom it)"
    using rows_split [of j "?ib + 1" "consider_bottom it" ?l ?r] j by simp
  have none: "filter (\<lambda>p. \<not> ignored it p) (rows ?l ?r j ?ib) = []"
    using ig wide by (auto simp: filter_empty_conv ignored_def)
  have "difference_from it ?l j = filter (\<lambda>p. \<not> ignored it p) (rows ?l ?r j (consider_bottom it))"
    using j by (simp add: difference_from_def rows_Cons)
  also have "\<dots> = filter (\<lambda>p. \<not> ignored it p) (rows ?l ?r (?ib + 1) (consider_bottom it))"
    unfolding all filter_append none by simp
  finally show ?thesis by (simp add: difference_from_def rows_Cons rows_Nil)
qed

lemma static_fields [simp]:
  "ignored (it\<lparr>index_x := i\<rparr>) = ignored it" "ignored (it\<lparr>index_y := j\<rparr>) = ignored it"
  "difference_from (it\<lparr>index_x := i\<rparr>) = difference_from it"
  "difference_from (it\<lparr>index_y := j\<rparr>) = difference_from it"
  "difference_bounds (it\<lparr>index_x := i\<rparr>) = difference_bounds it"
  "difference_bounds (it\<lparr>index_y := j\<rparr>) = difference_bounds it"
  by (auto simp: ignored_def difference_from_def difference_bounds_def fun_eq_iff)

text \<open>Where a step leads: along the row, to the next row, or past the ignored rows.\<close>

definition step_x :: "difference_iterator \<Rightarrow> int" where
  "step_x it =
     (if ignored it (index_x it + 1, index_y it) then ignore_right it + 1 else index_x it + 1)"

definition step_row :: "difference_iterator \<Rightarrow> int \<times> int" where
  "step_row it =
     (if ignored it (consider_left it, index_y it + 1)
      then (if consider_right it < ignore_right it + 1
            then (consider_left it, ignore_bottom it + 1)
            else (ignore_right it + 1, index_y it + 1))
      else (consider_left it, index_y it + 1))"

lemma DifferenceIterator_next_cases:
  assumes "iterator_ok it"
  shows "DifferenceIterator_next it =
    (if step_x it \<le> consider_right it then it\<lparr>index_x := step_x it\<rparr>
     else if snd (step_row it) > consider_bottom it then iterator_done it
     else it\<lparr>index_x := fst (step_row it), index_y := snd (step_row it)\<rparr>)"
proof -
  have past: "\<not> ignored it (ignore_right it + 1, j)" for j by (simp add: ignored_def)
  show ?thesis
    using assms
    by (simp add: DifferenceIterator_next_def step_x_def step_row_def in_ignore_rect_ignored past
        Let_def iterator_done_def)
qed

lemma step_row_from:
  assumes b: "difference_bounds it" and x: "consider_right it < i"
    and y: "index_y it \<le> consider_bottom it"
  shows "difference_from it i (index_y it) =
    (if snd (step_row it) > consider_bottom it then []
     else difference_from it (fst (step_row it)) (snd (step_row it)))"
proof (cases "ignored it (consider_left it, index_y it + 1)")
  case False
  then show ?thesis using difference_from_next_row [OF x y] by (simp add: step_row_def)
next
  case True
  then have "index_y it + 1 \<le> consider_bottom it" by (simp add: ignored_def) (use b in \<open>simp add: difference_bounds_def\<close>)
  then have row: "difference_from it i (index_y it) = difference_from it (consider_left it) (index_y it + 1)"
    using difference_from_next_row [OF x y] by simp
  show ?thesis
  proof (cases "consider_right it < ignore_right it + 1")
    case wide: True
    show ?thesis
      unfolding row difference_from_skip_rows [OF b True wide] using True wide by (simp add: step_row_def)
  next
    case narrow: False
    show ?thesis
      unfolding row difference_from_skip [OF b True]
      using True narrow \<open>index_y it + 1 \<le> consider_bottom it\<close> by (simp add: step_row_def)
  qed
qed

lemma step_row_inside:
  assumes "difference_bounds it" and "0 \<le> index_y it" "consider_top it \<le> index_y it"
    and "\<not> snd (step_row it) > consider_bottom it"
  shows "consider_left it \<le> fst (step_row it)" and "fst (step_row it) \<le> consider_right it"
    and "consider_top it \<le> snd (step_row it)" and "\<not> ignored it (step_row it)"
  using assms by (auto simp: step_row_def difference_bounds_def ignored_def split: if_splits)

lemma DifferenceIterator_next_left:
  assumes ok: "iterator_ok it" and b: "difference_bounds it" and c: "in_consider_rect it"
  shows "difference_left (DifferenceIterator_next it) = difference_from it (index_x it + 1) (index_y it)"
    and "difference_wf (DifferenceIterator_next it)"
proof -
  have range: "0 \<le> index_x it" "consider_left it \<le> index_x it" "0 \<le> index_y it"
    "consider_top it \<le> index_y it" "index_y it \<le> consider_bottom it" "0 \<le> consider_left it"
    "0 \<le> consider_top it"
    using b c by (auto simp: difference_bounds_def in_consider_rect_def)
  have x: "difference_from it (index_x it + 1) (index_y it) = difference_from it (step_x it) (index_y it)"
    "\<not> ignored it (step_x it, index_y it)" "index_x it < step_x it"
    using difference_from_skip [OF b] by (auto simp: step_x_def ignored_def)
  note nx = DifferenceIterator_next_cases [OF ok]
  have both: "difference_left (DifferenceIterator_next it) =
      difference_from it (index_x it + 1) (index_y it) \<and> difference_wf (DifferenceIterator_next it)"
  proof (cases "step_x it \<le> consider_right it")
    case True
    then show ?thesis
      using x range b
      by (auto simp: nx difference_left_def difference_wf_def iterator_ok_def in_consider_rect_def
          in_ignore_rect_ignored)
  next
    case False
    then have f: "difference_from it (index_x it + 1) (index_y it) =
        (if snd (step_row it) > consider_bottom it then []
         else difference_from it (fst (step_row it)) (snd (step_row it)))"
      using step_row_from [OF b, of "step_x it"] x(1) range by simp
    show ?thesis
      using False f step_row_inside [OF b range(3,4)] b range
      by (auto simp: nx difference_left_def difference_wf_def iterator_ok_def in_consider_rect_def
          in_ignore_rect_ignored iterator_done_def)
  qed
  then show "difference_left (DifferenceIterator_next it) = difference_from it (index_x it + 1) (index_y it)"
    "difference_wf (DifferenceIterator_next it)" by simp_all
qed

lemma difference_from_here:
  assumes "in_consider_rect it"
  shows "difference_from it (index_x it) (index_y it) =
    (if in_ignore_rect it then [] else [(index_x it, index_y it)]) @
    difference_from it (index_x it + 1) (index_y it)"
  using assms by (simp add: difference_from_def in_consider_rect_def in_ignore_rect_ignored row_Cons)

interpretation diff: tile_walk iterator_ok DifferenceIterator_next iterator_index difference_wf
    difference_left
proof unfold_locales
  fix it
  show "\<not> iterator_ok it \<Longrightarrow> difference_left it = []" by (simp add: difference_left_def)
  assume wf: "difference_wf it" and ok: "iterator_ok it"
  then have b: "difference_bounds it" "in_consider_rect it" "\<not> in_ignore_rect it"
    by (auto simp: difference_wf_def)
  note n = DifferenceIterator_next_left [OF ok b(1,2)]
  show "difference_wf (DifferenceIterator_next it)" by (rule n(2))
  show "difference_left it = iterator_index it # difference_left (DifferenceIterator_next it)"
    unfolding n(1) using ok difference_from_here [OF b(2)] b(3)
    by (simp add: difference_left_def iterator_index_def)
qed

section \<open>Two axes\<close>

definition tiling_ok :: "tiling_data \<Rightarrow> bool" where
  "tiling_ok td \<longleftrightarrow>
     0 \<le> border_texels td \<and>
     num_tiles_x td = ComputeNumTiles (fst (max_texture_size td)) (fst (tiling_size td)) (border_texels td) \<and>
     num_tiles_y td = ComputeNumTiles (snd (max_texture_size td)) (snd (tiling_size td)) (border_texels td)"

lemma tiling_axes:
  assumes "tiling_ok td" and "0 < num_tiles_x td" and "0 < num_tiles_y td"
  shows "axis_ok (fst (max_texture_size td)) (fst (tiling_size td)) (border_texels td) (num_tiles_x td)"
    and "axis_ok (snd (max_texture_size td)) (snd (tiling_size td)) (border_texels td) (num_tiles_y td)"
  using assms by (simp_all add: tiling_ok_def axis_ok_def)

definition is_tile :: "tiling_data \<Rightarrow> int \<times> int \<Rightarrow> bool" where
  "is_tile td p \<longleftrightarrow> 0 \<le> fst p \<and> fst p < num_tiles_x td \<and> 0 \<le> snd p \<and> snd p < num_tiles_y td"

definition tiling_rect :: "tiling_data \<Rightarrow> rect" where
  "tiling_rect td = Rect 0 0 (fst (tiling_size td)) (snd (tiling_size td))"

lemma is_tile_axes:
  assumes "tiling_ok td" and "is_tile td (i, j)"
  shows "axis_ok (fst (max_texture_size td)) (fst (tiling_size td)) (border_texels td) (num_tiles_x td)"
    and "axis_ok (snd (max_texture_size td)) (snd (tiling_size td)) (border_texels td) (num_tiles_y td)"
  using assms tiling_axes [of td] by (auto simp: is_tile_def)

text \<open>The bounds of a tile in terms of its two intervals.\<close>

lemma TileBounds_edges:
  assumes ok: "tiling_ok td" and t: "is_tile td (i, j)"
  shows "rect_x (TileBounds td i j) = tile_lo (fst (max_texture_size td)) (border_texels td) i"
    and "rect_y (TileBounds td i j) = tile_lo (snd (max_texture_size td)) (border_texels td) j"
    and "rect_right (TileBounds td i j) =
      tile_hi (fst (max_texture_size td)) (fst (tiling_size td)) (border_texels td) (num_tiles_x td) i"
    and "rect_bottom (TileBounds td i j) =
      tile_hi (snd (max_texture_size td)) (snd (tiling_size td)) (border_texels td) (num_tiles_y td) j"
    and "\<not> Rect_IsEmpty (TileBounds td i j)"
proof -
  note ax = is_tile_axes [OF ok t]
  have r: "0 \<le> i" "i < num_tiles_x td" "0 \<le> j" "j < num_tiles_y td" using t by (auto simp: is_tile_def)
  note x = tile_chain(4) [OF ax(1) r(1,2)] and y = tile_chain(4) [OF ax(2) r(3,4)]
  show "rect_x (TileBounds td i j) = tile_lo (fst (max_texture_size td)) (border_texels td) i"
    "rect_y (TileBounds td i j) = tile_lo (snd (max_texture_size td)) (border_texels td) j"
    by (simp_all add: TileBounds_def Rect_def Let_def)
  show "rect_right (TileBounds td i j) =
      tile_hi (fst (max_texture_size td)) (fst (tiling_size td)) (border_texels td) (num_tiles_x td) i"
    "rect_bottom (TileBounds td i j) =
      tile_hi (snd (max_texture_size td)) (snd (tiling_size td)) (border_texels td) (num_tiles_y td) j"
    "\<not> Rect_IsEmpty (TileBounds td i j)"
    using x y by (simp_all add: TileBounds_def Rect_def Let_def rect_right_def rect_bottom_def
        Rect_IsEmpty_def max_def)
qed

lemma TileBoundsWithBorder_edges:
  assumes ok: "tiling_ok td" and t: "is_tile td (i, j)"
  shows "rect_x (TileBoundsWithBorder td i j) = border_lo (fst (max_texture_size td)) (border_texels td) i"
    and "rect_y (TileBoundsWithBorder td i j) = border_lo (snd (max_texture_size td)) (border_texels td) j"
    and "rect_right (TileBoundsWithBorder td i j) =
      border_hi (fst (max_texture_size td)) (fst (tiling_size td)) (border_texels td) i"
    and "rect_bottom (TileBoundsWithBorder td i j) =
      border_hi (snd (max_texture_size td)) (snd (tiling_size td)) (border_texels td) j"
    and "\<not> Rect_IsEmpty (TileBoundsWithBorder td i j)"
proof -
  note ax = is_tile_axes [OF ok t]
  have r: "0 \<le> i" "i < num_tiles_x td" "0 \<le> j" "j < num_tiles_y td" using t by (auto simp: is_tile_def)
  note x = border_lo_hi(2) [OF ax(1) r(1,2)] and y = border_lo_hi(2) [OF ax(2) r(3,4)]
  show "rect_x (TileBoundsWithBorder td i j) = border_lo (fst (max_texture_size td)) (border_texels td) i"
    "rect_y (TileBoundsWithBorder td i j) = border_lo (snd (max_texture_size td)) (border_texels td) j"
    by (simp_all add: TileBoundsWithBorder_def Rect_def Let_def)
  show "rect_right (TileBoundsWithBorder td i j) =
      border_hi (fst (max_texture_size td)) (fst (tiling_size td)) (border_texels td) i"
    "rect_bottom (TileBoundsWithBorder td i j) =
      border_hi (snd (max_texture_size td)) (snd (tiling_size td)) (border_texels td) j"
    "\<not> Rect_IsEmpty (TileBoundsWithBorder td i j)"
    using x y by (simp_all add: TileBoundsWithBorder_def Rect_def Let_def rect_right_def
        rect_bottom_def Rect_IsEmpty_def max_def)
qed

subsection \<open>A rectangle clipped to the tiling\<close>

definition rect_ok :: "rect \<Rightarrow> bool" where
  "rect_ok r \<longleftrightarrow> 0 \<le> rect_w r \<and> 0 \<le> rect_h r"

lemma rect_edges: "rect_right r = rect_x r + rect_w r" "rect_bottom r = rect_y r + rect_h r"
  by (simp_all add: rect_right_def rect_bottom_def)

lemma Rect_edges:
  "0 < w \<Longrightarrow> 0 < h \<Longrightarrow> \<not> Rect_IsEmpty (Rect x y w h)" "rect_x (Rect x y w h) = x"
  "rect_y (Rect x y w h) = y" "0 < w \<Longrightarrow> rect_right (Rect x y w h) = x + w"
  "0 < h \<Longrightarrow> rect_bottom (Rect x y w h) = y + h"
  by (simp_all add: Rect_def Rect_IsEmpty_def rect_edges)

lemma interval_outside: "(x::int) < r \<Longrightarrow> 0 < t \<Longrightarrow> min r t \<le> max x 0 \<Longrightarrow> r \<le> 0 \<or> t \<le> x"
  by (auto simp: min_def max_def split: if_splits)

text \<open>The clipped rectangle is empty, or a part of the tiling with the expected edges.\<close>

lemma clip_cases:
  assumes ok: "rect_ok r" and t: "0 < tw" "0 < th"
  defines "c \<equiv> Rect_Intersect r (Rect 0 0 tw th)"
  shows "(Rect_IsEmpty c \<and> rect_w c = 0 \<and> rect_h c = 0 \<and>
          (Rect_IsEmpty r \<or> rect_right r \<le> 0 \<or> tw \<le> rect_x r \<or> rect_bottom r \<le> 0 \<or> th \<le> rect_y r)) \<or>
         (\<not> Rect_IsEmpty c \<and> \<not> Rect_IsEmpty r \<and>
          rect_x c = max (rect_x r) 0 \<and> rect_right c = min (rect_right r) tw \<and>
          rect_y c = max (rect_y r) 0 \<and> rect_bottom c = min (rect_bottom r) th \<and>
          rect_x c < rect_right c \<and> rect_y c < rect_bottom c)"
proof -
  have bounds: "\<not> Rect_IsEmpty (Rect 0 0 tw th)" "rect_x (Rect 0 0 tw th) = 0"
    "rect_y (Rect 0 0 tw th) = 0" "rect_right (Rect 0 0 tw th) = tw" "rect_bottom (Rect 0 0 tw th) = th"
    using t by (simp_all add: Rect_def Rect_IsEmpty_def rect_edges)
  have zero: "Rect_IsEmpty (Rect 0 0 0 0)" "rect_w (Rect 0 0 0 0) = 0" "rect_h (Rect 0 0 0 0) = 0"
    by (simp_all add: Rect_def Rect_IsEmpty_def)
  let ?rx = "max (rect_x r) 0" and ?ry = "max (rect_y r) 0"
  let ?rr = "min (rect_right r) tw" and ?rb = "min (rect_bottom r) th"
  consider "Rect_IsEmpty r" | "\<not> Rect_IsEmpty r" "?rx \<ge> ?rr \<or> ?ry \<ge> ?rb"
    | "\<not> Rect_IsEmpty r" "?rx < ?rr" "?ry < ?rb" using linorder_not_le by blast
  then show ?thesis
  proof cases
    case 1
    then show ?thesis using zero by (simp add: c_def Rect_Intersect_def)
  next
    case 2
    then have c: "c = Rect 0 0 0 0" using bounds by (auto simp: c_def Rect_Intersect_def Let_def)
    have "rect_x r < rect_right r" "rect_y r < rect_bottom r"
      using 2(1) ok by (auto simp: rect_ok_def Rect_IsEmpty_def rect_edges)
    then have "rect_right r \<le> 0 \<or> tw \<le> rect_x r \<or> rect_bottom r \<le> 0 \<or> th \<le> rect_y r"
      using 2(2) t interval_outside by blast
    then show ?thesis using zero c by simp
  next
    case 3
    then have "\<not> (?rr \<le> ?rx \<or> ?rb \<le> ?ry)" by (simp only: not_le de_Morgan_disj simp_thms)
    then have c: "c = Rect ?rx ?ry (?rr - ?rx) (?rb - ?ry)"
      using bounds 3(1) by (simp only: c_def Rect_Intersect_def Let_def if_False simp_thms)
    have pos: "0 < ?rr - ?rx" "0 < ?rb - ?ry" using 3(2,3) by (simp_all only: diff_gt_0_iff_gt)
    have "rect_x c = ?rx" "rect_right c = ?rr" "rect_y c = ?ry" "rect_bottom c = ?rb" "\<not> Rect_IsEmpty c"
      unfolding c Rect_edges(2,3) Rect_edges(4) [OF pos(1)] Rect_edges(5) [OF pos(2)]
      using Rect_edges(1) [OF pos] by simp_all
    then show ?thesis using 3 by (simp only: simp_thms)
  qed
qed

text \<open>Meeting the clipped rectangle is meeting the rectangle, for a part of the tiling.\<close>

lemma Intersects_clip:
  assumes ok: "rect_ok r" and t: "0 < tw" "0 < th"
    and a: "0 \<le> rect_x a" "rect_x a < rect_right a" "rect_right a \<le> tw"
      "0 \<le> rect_y a" "rect_y a < rect_bottom a" "rect_bottom a \<le> th"
  shows "Rect_Intersects a (Rect_Intersect r (Rect 0 0 tw th)) = Rect_Intersects a r"
proof (cases "Rect_IsEmpty (Rect_Intersect r (Rect 0 0 tw th))")
  case True
  then have "Rect_IsEmpty r \<or> rect_right r \<le> 0 \<or> tw \<le> rect_x r \<or> rect_bottom r \<le> 0 \<or> th \<le> rect_y r"
    using clip_cases [OF ok t] by blast
  then show ?thesis using a True by (auto simp: Rect_Intersects_def)
next
  case False
  let ?c = "Rect_Intersect r (Rect 0 0 tw th)"
  have c: "\<not> Rect_IsEmpty r" "rect_x ?c = max (rect_x r) 0" "rect_right ?c = min (rect_right r) tw"
    "rect_y ?c = max (rect_y r) 0" "rect_bottom ?c = min (rect_bottom r) th"
    using clip_cases [OF ok t] False by blast+
  have "rect_x ?c \<ge> rect_right a \<longleftrightarrow> rect_x r \<ge> rect_right a"
    "rect_right ?c \<le> rect_x a \<longleftrightarrow> rect_right r \<le> rect_x a"
    "rect_y ?c \<ge> rect_bottom a \<longleftrightarrow> rect_y r \<ge> rect_bottom a"
    "rect_bottom ?c \<le> rect_y a \<longleftrightarrow> rect_bottom r \<le> rect_y a"
    unfolding c using a by linarith+
  then show ?thesis using False c(1) by (simp add: Rect_Intersects_def)
qed

text \<open>The indices between which the tiles meet a non-empty part of the tiling.\<close>

lemma tile_meets_clip:
  assumes ok: "tiling_ok td" and t: "is_tile td (i, j)"
    and c: "\<not> Rect_IsEmpty c" "0 \<le> rect_x c" "rect_x c < rect_right c" "rect_right c \<le> fst (tiling_size td)"
      "0 \<le> rect_y c" "rect_y c < rect_bottom c" "rect_bottom c \<le> snd (tiling_size td)"
  shows "Rect_Intersects (TileBounds td i j) c \<longleftrightarrow>
     TileXIndexFromSrcCoord td (rect_x c) \<le> i \<and> i \<le> TileXIndexFromSrcCoord td (rect_right c - 1) \<and>
     TileYIndexFromSrcCoord td (rect_y c) \<le> j \<and> j \<le> TileYIndexFromSrcCoord td (rect_bottom c - 1)"
proof -
  note ax = is_tile_axes [OF ok t] and e = TileBounds_edges [OF ok t]
  have r: "0 \<le> i" "i < num_tiles_x td" "0 \<le> j" "j < num_tiles_y td" using t by (auto simp: is_tile_def)
  note x = tile_meets_iff [OF ax(1) r(1,2) c(2-4)] and y = tile_meets_iff [OF ax(2) r(3,4) c(5-7)]
  show ?thesis
    unfolding TileXIndexFromSrcCoord_def TileYIndexFromSrcCoord_def
    using x y e c(1) by (auto simp: Rect_Intersects_def not_le)
qed

lemma border_tile_meets_clip:
  assumes ok: "tiling_ok td" and t: "is_tile td (i, j)"
    and c: "\<not> Rect_IsEmpty c" "0 \<le> rect_x c" "rect_x c < rect_right c" "rect_right c \<le> fst (tiling_size td)"
      "0 \<le> rect_y c" "rect_y c < rect_bottom c" "rect_bottom c \<le> snd (tiling_size td)"
  shows "Rect_Intersects (TileBoundsWithBorder td i j) c \<longleftrightarrow>
     FirstBorderTileXIndexFromSrcCoord td (rect_x c) \<le> i \<and>
     i \<le> LastBorderTileXIndexFromSrcCoord td (rect_right c - 1) \<and>
     FirstBorderTileYIndexFromSrcCoord td (rect_y c) \<le> j \<and>
     j \<le> LastBorderTileYIndexFromSrcCoord td (rect_bottom c - 1)"
proof -
  note ax = is_tile_axes [OF ok t] and e = TileBoundsWithBorder_edges [OF ok t]
  have r: "0 \<le> i" "i < num_tiles_x td" "0 \<le> j" "j < num_tiles_y td" using t by (auto simp: is_tile_def)
  note x = border_index_iff(1) [OF ax(1) r(1,2), of "rect_x c"]
    border_index_iff(2) [OF ax(1) r(1,2), of "rect_right c - 1"]
  note y = border_index_iff(1) [OF ax(2) r(3,4), of "rect_y c"]
    border_index_iff(2) [OF ax(2) r(3,4), of "rect_bottom c - 1"]
  show ?thesis
    unfolding FirstBorderTileXIndexFromSrcCoord_def LastBorderTileXIndexFromSrcCoord_def
      FirstBorderTileYIndexFromSrcCoord_def LastBorderTileYIndexFromSrcCoord_def
    using x y e c by (auto simp: Rect_Intersects_def not_le)
qed

definition all_tiles :: "tiling_data \<Rightarrow> (int \<times> int) list" where
  "all_tiles td = rows 0 (num_tiles_x td - 1) 0 (num_tiles_y td - 1)"

lemma all_tiles_is_tile: "p \<in> set (all_tiles td) \<longleftrightarrow> is_tile td p"
  by (auto simp: all_tiles_def is_tile_def)

text \<open>A rectangle of indices as a selection from all tiles, in the same order.\<close>

lemma filter_upto_between:
  assumes "0 \<le> a" and "b < n" and "a \<le> b + 1"
  shows "filter (\<lambda>i. a \<le> i \<and> i \<le> b) [0..n - 1] = [a..b]"
proof -
  have s: "[0..n - 1] = [0..a - 1] @ [a..b] @ [b + 1..n - 1]"
    using assms upto_split_at [of 0 a "n - 1"] upto_split_at [of a "b + 1" "n - 1"] by simp
  have "filter (\<lambda>i. a \<le> i \<and> i \<le> b) [0..a - 1] = []" "filter (\<lambda>i. a \<le> i \<and> i \<le> b) [b + 1..n - 1] = []"
    by (auto simp: filter_empty_conv)
  then show ?thesis unfolding s filter_append by (auto intro: filter_True)
qed

lemma concat_map_if: "concat (map (\<lambda>x. if Q x then f x else []) xs) = concat (map f (filter Q xs))"
  by (induction xs) simp_all

lemma rows_as_filter:
  assumes x: "0 \<le> a" "b < n" "a \<le> b + 1" and y: "0 \<le> t0" "b0 < k" "t0 \<le> b0 + 1"
  shows "rows a b t0 b0 =
    filter (\<lambda>p. a \<le> fst p \<and> fst p \<le> b \<and> t0 \<le> snd p \<and> snd p \<le> b0) (rows 0 (n - 1) 0 (k - 1))"
proof -
  let ?P = "\<lambda>p. a \<le> fst p \<and> fst p \<le> b \<and> t0 \<le> snd p \<and> snd p \<le> b0"
  have "filter ?P (row 0 (n - 1) j) = (if t0 \<le> j \<and> j \<le> b0 then row a b j else [])" for j
    using filter_upto_between [OF x] by (auto simp: row_def filter_map comp_def)
  then have "filter ?P (rows 0 (n - 1) 0 (k - 1)) =
      concat (map (\<lambda>j. if t0 \<le> j \<and> j \<le> b0 then row a b j else []) [0..k - 1])"
    by (simp add: rows_def filter_concat comp_def)
  also have "\<dots> = concat (map (row a b) (filter (\<lambda>j. t0 \<le> j \<and> j \<le> b0) [0..k - 1]))"
    by (rule concat_map_if)
  finally show ?thesis using filter_upto_between [OF y] by (simp add: rows_def)
qed

subsection \<open>What the iterators visit\<close>

lemma no_tiles: "num_tiles_x td \<le> 0 \<or> num_tiles_y td \<le> 0 \<Longrightarrow> all_tiles td = []"
  by (auto simp: all_tiles_def rows_def row_def)

lemma walk_not_ok: "\<not> ok s \<Longrightarrow> walk ok step tile fuel s = Some []"
  by (cases fuel) simp_all

text \<open>The clip of a rectangle as \<open>Iterator\<close> and \<open>BaseDifferenceIterator\<close> compute it.\<close>

definition clip :: "tiling_data \<Rightarrow> rect \<Rightarrow> rect" where
  "clip td r = Rect_Intersect r (Rect 0 0 (fst (tiling_size td)) (snd (tiling_size td)))"

lemma clip_inside:
  assumes ok: "tiling_ok td" and n: "0 < num_tiles_x td" "0 < num_tiles_y td" and r: "rect_ok r"
    and ne: "\<not> Rect_IsEmpty (clip td r)"
  shows "0 \<le> rect_x (clip td r)" "rect_x (clip td r) < rect_right (clip td r)"
    "rect_right (clip td r) \<le> fst (tiling_size td)"
    "0 \<le> rect_y (clip td r)" "rect_y (clip td r) < rect_bottom (clip td r)"
    "rect_bottom (clip td r) \<le> snd (tiling_size td)"
proof -
  have t: "0 < fst (tiling_size td)" "0 < snd (tiling_size td)"
    using axis_cases(1) [OF tiling_axes(1) [OF ok n]] axis_cases(1) [OF tiling_axes(2) [OF ok n]] .
  have "rect_x (clip td r) = max (rect_x r) 0" "rect_right (clip td r) = min (rect_right r) (fst (tiling_size td))"
    "rect_y (clip td r) = max (rect_y r) 0" "rect_bottom (clip td r) = min (rect_bottom r) (snd (tiling_size td))"
    "rect_x (clip td r) < rect_right (clip td r)" "rect_y (clip td r) < rect_bottom (clip td r)"
    using clip_cases [OF r t] ne unfolding clip_def by blast+
  then show "0 \<le> rect_x (clip td r)" "rect_x (clip td r) < rect_right (clip td r)"
    "rect_right (clip td r) \<le> fst (tiling_size td)"
    "0 \<le> rect_y (clip td r)" "rect_y (clip td r) < rect_bottom (clip td r)"
    "rect_bottom (clip td r) \<le> snd (tiling_size td)" by simp_all
qed

lemma tile_inside:
  assumes ok: "tiling_ok td" and t: "is_tile td (i, j)"
  shows "0 \<le> rect_x (TileBounds td i j)" "rect_x (TileBounds td i j) < rect_right (TileBounds td i j)"
    "rect_right (TileBounds td i j) \<le> fst (tiling_size td)"
    "0 \<le> rect_y (TileBounds td i j)" "rect_y (TileBounds td i j) < rect_bottom (TileBounds td i j)"
    "rect_bottom (TileBounds td i j) \<le> snd (tiling_size td)"
proof -
  have r: "0 \<le> i" "i < num_tiles_x td" "0 \<le> j" "j < num_tiles_y td" using t by (auto simp: is_tile_def)
  note x = tile_chain(4-6) [OF is_tile_axes(1) [OF ok t] r(1,2)]
  note y = tile_chain(4-6) [OF is_tile_axes(2) [OF ok t] r(3,4)]
  show "0 \<le> rect_x (TileBounds td i j)" "rect_x (TileBounds td i j) < rect_right (TileBounds td i j)"
    "rect_right (TileBounds td i j) \<le> fst (tiling_size td)"
    "0 \<le> rect_y (TileBounds td i j)" "rect_y (TileBounds td i j) < rect_bottom (TileBounds td i j)"
    "rect_bottom (TileBounds td i j) \<le> snd (tiling_size td)"
    using x y by (simp_all only: TileBounds_edges [OF ok t])
qed

lemma border_tile_inside:
  assumes ok: "tiling_ok td" and t: "is_tile td (i, j)"
  shows "0 \<le> rect_x (TileBoundsWithBorder td i j)"
    "rect_x (TileBoundsWithBorder td i j) < rect_right (TileBoundsWithBorder td i j)"
    "rect_right (TileBoundsWithBorder td i j) \<le> fst (tiling_size td)"
    "0 \<le> rect_y (TileBoundsWithBorder td i j)"
    "rect_y (TileBoundsWithBorder td i j) < rect_bottom (TileBoundsWithBorder td i j)"
    "rect_bottom (TileBoundsWithBorder td i j) \<le> snd (tiling_size td)"
proof -
  have r: "0 \<le> i" "i < num_tiles_x td" "0 \<le> j" "j < num_tiles_y td" using t by (auto simp: is_tile_def)
  note x = border_lo_hi [OF is_tile_axes(1) [OF ok t] r(1,2)]
  note y = border_lo_hi [OF is_tile_axes(2) [OF ok t] r(3,4)]
  show "0 \<le> rect_x (TileBoundsWithBorder td i j)"
    "rect_x (TileBoundsWithBorder td i j) < rect_right (TileBoundsWithBorder td i j)"
    "rect_right (TileBoundsWithBorder td i j) \<le> fst (tiling_size td)"
    "0 \<le> rect_y (TileBoundsWithBorder td i j)"
    "rect_y (TileBoundsWithBorder td i j) < rect_bottom (TileBoundsWithBorder td i j)"
    "rect_bottom (TileBoundsWithBorder td i j) \<le> snd (tiling_size td)"
    using x y by (simp_all only: TileBoundsWithBorder_edges [OF ok t])
qed

text \<open>The bounds of a tile that an iterator tests: with or without its border.\<close>

definition tile_bounds :: "tiling_data \<Rightarrow> bool \<Rightarrow> int \<times> int \<Rightarrow> rect" where
  "tile_bounds td include_borders p =
     (if include_borders then TileBoundsWithBorder td (fst p) (snd p) else TileBounds td (fst p) (snd p))"

lemma tile_bounds_clip:
  assumes ok: "tiling_ok td" and t: "is_tile td p" and r: "rect_ok r"
  shows "Rect_Intersects (tile_bounds td b p) (clip td r) = Rect_Intersects (tile_bounds td b p) r"
proof -
  obtain i j where p: "p = (i, j)" by (cases p)
  have n: "0 < num_tiles_x td" "0 < num_tiles_y td" using t by (auto simp: is_tile_def)
  have tw: "0 < fst (tiling_size td)" "0 < snd (tiling_size td)"
    using axis_cases(1) [OF tiling_axes(1) [OF ok n]] axis_cases(1) [OF tiling_axes(2) [OF ok n]] .
  show ?thesis
    unfolding clip_def
    using Intersects_clip [OF r tw tile_inside [OF ok t [unfolded p]]]
      Intersects_clip [OF r tw border_tile_inside [OF ok t [unfolded p]]]
    by (cases b) (simp_all add: tile_bounds_def p)
qed

lemma iterator_visits_range:
  assumes it: "it = \<lparr>index_x = l, index_y = t0, it_left = l, it_right = r, it_bottom = b0\<rparr>"
    and x: "0 \<le> l" "l \<le> r" "r < num_tiles_x td" and y: "0 \<le> t0" "t0 \<le> b0" "b0 < num_tiles_y td"
    and Q: "\<And>p. is_tile td p \<Longrightarrow> Q p \<longleftrightarrow> l \<le> fst p \<and> fst p \<le> r \<and> t0 \<le> snd p \<and> snd p \<le> b0"
    and fuel: "length (all_tiles td) \<le> fuel"
  shows "walk iterator_ok Iterator_next iterator_index fuel it = Some (filter Q (all_tiles td))"
proof -
  have wf: "iterator_wf it" "iterator_ok it" using x y by (auto simp: it iterator_wf_def iterator_ok_def)
  have "iterator_left it = rows l r t0 b0"
    using wf(2) y by (simp add: it iterator_left_def rows_Cons)
  also have "\<dots> = filter (\<lambda>p. l \<le> fst p \<and> fst p \<le> r \<and> t0 \<le> snd p \<and> snd p \<le> b0) (all_tiles td)"
    unfolding all_tiles_def by (rule rows_as_filter) (use x y in simp_all)
  also have "\<dots> = filter Q (all_tiles td)" by (rule filter_cong) (simp_all add: Q all_tiles_is_tile)
  finally have left: "iterator_left it = filter Q (all_tiles td)" .
  have "length (iterator_left it) \<le> fuel" unfolding left using fuel length_filter_le order_trans by blast
  then show ?thesis using iter.walk_left [OF wf(1)] left by simp
qed

lemma tile_indices_range:
  assumes ok: "tiling_ok td" and n: "0 < num_tiles_x td" "0 < num_tiles_y td" and r: "rect_ok r"
    and ne: "\<not> Rect_IsEmpty (clip td r)"
  defines "c \<equiv> clip td r"
  shows "0 \<le> TileXIndexFromSrcCoord td (rect_x c)"
    "TileXIndexFromSrcCoord td (rect_x c) \<le> TileXIndexFromSrcCoord td (rect_right c - 1)"
    "TileXIndexFromSrcCoord td (rect_right c - 1) < num_tiles_x td"
    "0 \<le> TileYIndexFromSrcCoord td (rect_y c)"
    "TileYIndexFromSrcCoord td (rect_y c) \<le> TileYIndexFromSrcCoord td (rect_bottom c - 1)"
    "TileYIndexFromSrcCoord td (rect_bottom c - 1) < num_tiles_y td"
proof -
  note ax = tiling_axes [OF ok n] and i = clip_inside [OF ok n r ne, folded c_def]
  show "0 \<le> TileXIndexFromSrcCoord td (rect_x c)" "0 \<le> TileYIndexFromSrcCoord td (rect_y c)"
    "TileXIndexFromSrcCoord td (rect_right c - 1) < num_tiles_x td"
    "TileYIndexFromSrcCoord td (rect_bottom c - 1) < num_tiles_y td"
    using tile_index_range [OF ax(1)] tile_index_range [OF ax(2)]
    by (simp_all add: TileXIndexFromSrcCoord_def TileYIndexFromSrcCoord_def)
  show "TileXIndexFromSrcCoord td (rect_x c) \<le> TileXIndexFromSrcCoord td (rect_right c - 1)"
    unfolding TileXIndexFromSrcCoord_def by (rule tile_index_mono [OF ax(1)]) (use i in simp_all)
  show "TileYIndexFromSrcCoord td (rect_y c) \<le> TileYIndexFromSrcCoord td (rect_bottom c - 1)"
    unfolding TileYIndexFromSrcCoord_def by (rule tile_index_mono [OF ax(2)]) (use i in simp_all)
qed

text \<open>The first border tile is not after the tile of the position, nor the last one before it.\<close>

lemma border_index_order:
  assumes ax: "axis_ok m t b n" and p: "0 \<le> p" "p \<le> q" "q < t"
  shows "first_border_tile_index m b n p \<le> last_border_tile_index m b n q"
proof -
  let ?i = "last_border_tile_index m b n p"
  have r: "0 \<le> ?i" "?i < n" using border_index_range(2) [OF ax] by auto
  have pt: "p < t" using p by simp
  have lo: "border_lo m b ?i \<le> p" using border_index_iff(2) [OF ax r p(1) pt] by simp
  then have "?i \<le> last_border_tile_index m b n q"
    using border_index_iff(2) [OF ax r, of q] p by simp
  moreover have "first_border_tile_index m b n p \<le> ?i"
  proof (cases "n = 1")
    case True
    then show ?thesis by (simp add: first_border_tile_index_def last_border_tile_index_def)
  next
    case False
    have n: "1 < n" using False ax by (auto simp: axis_ok_def)
    have w: "0 < m - 2 * b" by (rule axis_cases(3) [OF ax n])
    have "p < (m - 2 * b) * (cdiv p (m - 2 * b) + 1)"
      using cdiv_shift(2) [OF w p(1)] by (simp add: distrib_left)
    then have "p - 2 * b < (m - 2 * b) * (cdiv p (m - 2 * b) + 1)" using ax by (simp add: axis_ok_def)
    moreover have "0 \<le> cdiv p (m - 2 * b)" using cdiv_le_iff(1) [OF w p(1), of 0] p by simp
    ultimately have "cdiv (p - 2 * b) (m - 2 * b) \<le> cdiv p (m - 2 * b)"
      using cdiv_le_iff(2) [OF w] by simp
    then show ?thesis
      using n by (auto simp: first_border_tile_index_def last_border_tile_index_def clamp_index_def)
  qed
  ultimately show ?thesis by simp
qed

lemma border_indices_range:
  assumes ok: "tiling_ok td" and n: "0 < num_tiles_x td" "0 < num_tiles_y td" and r: "rect_ok r"
    and ne: "\<not> Rect_IsEmpty (clip td r)"
  defines "c \<equiv> clip td r"
  shows "0 \<le> FirstBorderTileXIndexFromSrcCoord td (rect_x c)"
    "FirstBorderTileXIndexFromSrcCoord td (rect_x c) \<le> LastBorderTileXIndexFromSrcCoord td (rect_right c - 1)"
    "LastBorderTileXIndexFromSrcCoord td (rect_right c - 1) < num_tiles_x td"
    "0 \<le> FirstBorderTileYIndexFromSrcCoord td (rect_y c)"
    "FirstBorderTileYIndexFromSrcCoord td (rect_y c) \<le> LastBorderTileYIndexFromSrcCoord td (rect_bottom c - 1)"
    "LastBorderTileYIndexFromSrcCoord td (rect_bottom c - 1) < num_tiles_y td"
proof -
  note ax = tiling_axes [OF ok n] and i = clip_inside [OF ok n r ne, folded c_def]
  note d = FirstBorderTileXIndexFromSrcCoord_def FirstBorderTileYIndexFromSrcCoord_def
    LastBorderTileXIndexFromSrcCoord_def LastBorderTileYIndexFromSrcCoord_def
  show "0 \<le> FirstBorderTileXIndexFromSrcCoord td (rect_x c)"
    "0 \<le> FirstBorderTileYIndexFromSrcCoord td (rect_y c)"
    "LastBorderTileXIndexFromSrcCoord td (rect_right c - 1) < num_tiles_x td"
    "LastBorderTileYIndexFromSrcCoord td (rect_bottom c - 1) < num_tiles_y td"
    using border_index_range [OF ax(1)] border_index_range [OF ax(2)] by (simp_all add: d)
  show "FirstBorderTileXIndexFromSrcCoord td (rect_x c) \<le> LastBorderTileXIndexFromSrcCoord td (rect_right c - 1)"
    unfolding d by (rule border_index_order [OF ax(1)]) (use i in simp_all)
  show "FirstBorderTileYIndexFromSrcCoord td (rect_y c) \<le> LastBorderTileYIndexFromSrcCoord td (rect_bottom c - 1)"
    unfolding d by (rule border_index_order [OF ax(2)]) (use i in simp_all)
qed

lemma tile_bounds_meets:
  assumes ok: "tiling_ok td" and n: "0 < num_tiles_x td" "0 < num_tiles_y td" and r: "rect_ok r"
    and ne: "\<not> Rect_IsEmpty (clip td r)" and t: "is_tile td p"
  defines "c \<equiv> clip td r"
  shows "Rect_Intersects (tile_bounds td False p) r \<longleftrightarrow>
      TileXIndexFromSrcCoord td (rect_x c) \<le> fst p \<and> fst p \<le> TileXIndexFromSrcCoord td (rect_right c - 1) \<and>
      TileYIndexFromSrcCoord td (rect_y c) \<le> snd p \<and> snd p \<le> TileYIndexFromSrcCoord td (rect_bottom c - 1)"
    and "Rect_Intersects (tile_bounds td True p) r \<longleftrightarrow>
      FirstBorderTileXIndexFromSrcCoord td (rect_x c) \<le> fst p \<and>
      fst p \<le> LastBorderTileXIndexFromSrcCoord td (rect_right c - 1) \<and>
      FirstBorderTileYIndexFromSrcCoord td (rect_y c) \<le> snd p \<and>
      snd p \<le> LastBorderTileYIndexFromSrcCoord td (rect_bottom c - 1)"
proof -
  obtain i j where p: "p = (i, j)" by (cases p)
  note ci = clip_inside [OF ok n r ne, folded c_def]
  note cl = tile_bounds_clip [OF ok t r, folded c_def]
  show "Rect_Intersects (tile_bounds td False p) r \<longleftrightarrow>
      TileXIndexFromSrcCoord td (rect_x c) \<le> fst p \<and> fst p \<le> TileXIndexFromSrcCoord td (rect_right c - 1) \<and>
      TileYIndexFromSrcCoord td (rect_y c) \<le> snd p \<and> snd p \<le> TileYIndexFromSrcCoord td (rect_bottom c - 1)"
    unfolding cl [of False, symmetric]
    using tile_meets_clip [OF ok t [unfolded p] ne [folded c_def] ci] by (simp add: tile_bounds_def p)
  show "Rect_Intersects (tile_bounds td True p) r \<longleftrightarrow>
      FirstBorderTileXIndexFromSrcCoord td (rect_x c) \<le> fst p \<and>
      fst p \<le> LastBorderTileXIndexFromSrcCoord td (rect_right c - 1) \<and>
      FirstBorderTileYIndexFromSrcCoord td (rect_y c) \<le> snd p \<and>
      snd p \<le> LastBorderTileYIndexFromSrcCoord td (rect_bottom c - 1)"
    unfolding cl [of True, symmetric]
    using border_tile_meets_clip [OF ok t [unfolded p] ne [folded c_def] ci] by (simp add: tile_bounds_def p)
qed

lemma Intersects_empty: "Rect_IsEmpty c \<Longrightarrow> \<not> Rect_Intersects a c"
  by (simp add: Rect_Intersects_def)

lemma no_tile_meets:
  assumes "tiling_ok td" and "rect_ok r" and "Rect_IsEmpty (clip td r)" and "is_tile td p"
  shows "\<not> Rect_Intersects (tile_bounds td b p) r"
  using tile_bounds_clip [OF assms(1,4,2)] Intersects_empty [OF assms(3)] by blast

section \<open>Properties\<close>

text \<open>
  The tiles partition the tiling: a position belongs to the bounds of exactly one tile, the one
  the index functions return, whatever the tile size, the tiling size and the border.
\<close>

theorem tile_of_position:
  assumes "tiling_ok td" and "is_tile td (i, j)"
    and "0 \<le> px" "px < fst (tiling_size td)" "0 \<le> py" "py < snd (tiling_size td)"
  shows "is_tile td (TileXIndexFromSrcCoord td px, TileYIndexFromSrcCoord td py) \<and>
    (Rect_Contains px py (TileBounds td i j) \<longleftrightarrow>
       i = TileXIndexFromSrcCoord td px \<and> j = TileYIndexFromSrcCoord td py)"
proof -
  note ax = is_tile_axes [OF assms(1,2)] and e = TileBounds_edges [OF assms(1,2)]
  have r: "0 \<le> i" "i < num_tiles_x td" "0 \<le> j" "j < num_tiles_y td"
    using assms(2) by (auto simp: is_tile_def)
  note x = tile_index_holds [OF ax(1) assms(3,4)] tile_index_unique [OF ax(1) r(1,2), of px]
  note y = tile_index_holds [OF ax(2) assms(5,6)] tile_index_unique [OF ax(2) r(3,4), of py]
  have "is_tile td (TileXIndexFromSrcCoord td px, TileYIndexFromSrcCoord td py)"
    using tile_index_range [OF ax(1)] tile_index_range [OF ax(2)]
    by (simp add: is_tile_def TileXIndexFromSrcCoord_def TileYIndexFromSrcCoord_def)
  moreover have "Rect_Contains px py (TileBounds td i j) \<longleftrightarrow>
           i = TileXIndexFromSrcCoord td px \<and> j = TileYIndexFromSrcCoord td py"
    unfolding TileXIndexFromSrcCoord_def TileYIndexFromSrcCoord_def Rect_Contains_def e(1-4)
    using x y by auto
  ultimately show ?thesis by (rule conjI)
qed

text \<open>A tiling of 20 by 10 texels in textures of 8 by 6 with one border texel: 3 by 2 tiles.\<close>

definition example_tiling :: tiling_data where
  "example_tiling = TilingData (8, 6) (20, 10) 1"

lemma example_tiling_ok: "tiling_ok example_tiling" "num_tiles_x example_tiling = 3"
  "num_tiles_y example_tiling = 2"
  by code_simp+

text \<open>A witness: the position (7, 5) is the first texel of tile (1, 1).\<close>

lemma tile_of_position_witness:
  "Rect_Contains 7 5 (TileBounds example_tiling 1 1) \<and>
   \<not> Rect_Contains 7 5 (TileBounds example_tiling 0 1)"
proof -
  have h: "is_tile example_tiling (1, 1)" "is_tile example_tiling (0, 1)"
    "TileXIndexFromSrcCoord example_tiling 7 = 1" "TileYIndexFromSrcCoord example_tiling 5 = 1"
    "7 < fst (tiling_size example_tiling)" "5 < snd (tiling_size example_tiling)" by code_simp+
  show ?thesis
    using tile_of_position [OF example_tiling_ok(1) h(1), of 7 5]
      tile_of_position [OF example_tiling_ok(1) h(2), of 7 5] h by simp
qed

text \<open>
  The border index functions return the first and the last tile whose bounds with border hold a
  position.
\<close>

theorem border_tiles_of_position:
  assumes "tiling_ok td" and "is_tile td (i, j)"
    and "0 \<le> px" "px < fst (tiling_size td)" "0 \<le> py" "py < snd (tiling_size td)"
  shows "Rect_Contains px py (TileBoundsWithBorder td i j) \<longleftrightarrow>
     FirstBorderTileXIndexFromSrcCoord td px \<le> i \<and> i \<le> LastBorderTileXIndexFromSrcCoord td px \<and>
     FirstBorderTileYIndexFromSrcCoord td py \<le> j \<and> j \<le> LastBorderTileYIndexFromSrcCoord td py"
proof -
  note ax = is_tile_axes [OF assms(1,2)] and e = TileBoundsWithBorder_edges [OF assms(1,2)]
  have r: "0 \<le> i" "i < num_tiles_x td" "0 \<le> j" "j < num_tiles_y td"
    using assms(2) by (auto simp: is_tile_def)
  note x = border_index_iff [OF ax(1) r(1,2) assms(3,4)] and y = border_index_iff [OF ax(2) r(3,4) assms(5,6)]
  show ?thesis
    unfolding FirstBorderTileXIndexFromSrcCoord_def LastBorderTileXIndexFromSrcCoord_def
      FirstBorderTileYIndexFromSrcCoord_def LastBorderTileYIndexFromSrcCoord_def Rect_Contains_def e(1-4)
    using x y by auto
qed

text \<open>witness: the position (6, 4) lies in the shared border of all four tiles around it.\<close>

lemma border_tiles_of_position_witness:
  "Rect_Contains 6 4 (TileBoundsWithBorder example_tiling 0 0) \<and>
   Rect_Contains 6 4 (TileBoundsWithBorder example_tiling 1 1)"
proof -
  have h: "is_tile example_tiling (0, 0)" "is_tile example_tiling (1, 1)"
    "FirstBorderTileXIndexFromSrcCoord example_tiling 6 = 0"
    "LastBorderTileXIndexFromSrcCoord example_tiling 6 = 1"
    "FirstBorderTileYIndexFromSrcCoord example_tiling 4 = 0"
    "LastBorderTileYIndexFromSrcCoord example_tiling 4 = 1"
    "6 < fst (tiling_size example_tiling)" "4 < snd (tiling_size example_tiling)" by code_simp+
  show ?thesis
    using border_tiles_of_position [OF example_tiling_ok(1) h(1), of 6 4]
      border_tiles_of_position [OF example_tiling_ok(1) h(2), of 6 4] h by simp
qed

text \<open>
  The two ways the class computes where a tile lies agree: its bounds are the rectangle given by
  its position and its size.
\<close>

theorem TileBounds_position_size:
  assumes "tiling_ok td" and "is_tile td (i, j)"
  shows "TileBounds td i j =
    Rect (TilePositionX td i) (TilePositionY td j) (TileSizeX td i) (TileSizeY td j)"
proof -
  note ax = is_tile_axes [OF assms]
  have r: "0 \<le> i" "i < num_tiles_x td" "0 \<le> j" "j < num_tiles_y td"
    using assms(2) by (auto simp: is_tile_def)
  show ?thesis
    using tile_size_hi_lo [OF ax(1) r(1,2)] tile_size_hi_lo [OF ax(2) r(3,4)]
    by (simp add: TileBounds_def TilePositionX_def TilePositionY_def TileSizeX_def TileSizeY_def Let_def)
qed

text \<open>witness: the last tile of the example.\<close>

lemma TileBounds_position_size_witness:
  "TileBounds example_tiling 2 1 = Rect 13 5 7 5"
proof -
  have "is_tile example_tiling (2, 1)" "TilePositionX example_tiling 2 = 13"
    "TilePositionY example_tiling 1 = 5" "TileSizeX example_tiling 2 = 7"
    "TileSizeY example_tiling 1 = 5" by code_simp+
  then show ?thesis using TileBounds_position_size [OF example_tiling_ok(1), of 2 1] by simp
qed

text \<open>[C28]
  A loop over \<open>Iterator\<close> ends and visits, row by row and each once, exactly the tiles whose bounds
  (with their borders if asked for) meet the rectangle.
\<close>

theorem Iterator_visits:
  assumes ok: "tiling_ok td" and r: "rect_ok r" and fuel: "length (all_tiles td) \<le> fuel"
  shows "walk iterator_ok Iterator_next iterator_index fuel (Iterator td r borders) =
     Some (filter (\<lambda>p. Rect_Intersects (tile_bounds td borders p) r) (all_tiles td))"
proof (cases "num_tiles_x td \<le> 0 \<or> num_tiles_y td \<le> 0")
  case True
  then show ?thesis
    using no_tiles [OF True] by (simp add: Iterator_def Let_def walk_not_ok)
next
  case False
  then have n: "0 < num_tiles_x td" "0 < num_tiles_y td" by auto
  show ?thesis
  proof (cases "Rect_IsEmpty (clip td r)")
    case True
    then have "\<not> iterator_ok (Iterator td r borders)"
      using False Intersects_empty [OF True]
      by (simp add: Iterator_def Let_def clip_def)
    moreover have "filter (\<lambda>p. Rect_Intersects (tile_bounds td borders p) r) (all_tiles td) = []"
      using no_tile_meets [OF ok r True] by (simp add: filter_empty_conv all_tiles_is_tile)
    ultimately show ?thesis by (simp add: walk_not_ok)
  next
    case ne: False
    define c where "c = clip td r"
    note tr = tile_indices_range [OF ok n r ne, folded c_def]
    note br = border_indices_range [OF ok n r ne, folded c_def]
    note meets = tile_bounds_meets [OF ok n r ne, folded c_def]
    show ?thesis
    proof (cases borders)
      case True
      define l where "l = FirstBorderTileXIndexFromSrcCoord td (rect_x c)"
      define t where "t = FirstBorderTileYIndexFromSrcCoord td (rect_y c)"
      have "is_tile td (l, t)" using br by (simp add: is_tile_def l_def t_def)
      then have "Rect_Intersects (TileBoundsWithBorder td l t) c"
        using meets(2) [of "(l, t)"] br tile_bounds_clip [OF ok _ r, of "(l, t)" True, folded c_def]
        by (simp add: l_def t_def tile_bounds_def)
      then have it: "Iterator td r borders = \<lparr>index_x = l, index_y = t, it_left = l,
          it_right = LastBorderTileXIndexFromSrcCoord td (rect_right c - 1),
          it_bottom = LastBorderTileYIndexFromSrcCoord td (rect_bottom c - 1)\<rparr>"
        using False True by (simp add: Iterator_def Let_def l_def t_def c_def clip_def)
      show ?thesis
        by (rule iterator_visits_range [OF it]) (use br meets(2) True fuel in \<open>simp_all add: l_def t_def\<close>)
    next
      case nb: False
      define l where "l = TileXIndexFromSrcCoord td (rect_x c)"
      define t where "t = TileYIndexFromSrcCoord td (rect_y c)"
      have "is_tile td (l, t)" using tr by (simp add: is_tile_def l_def t_def)
      then have "Rect_Intersects (TileBounds td l t) c"
        using meets(1) [of "(l, t)"] tr tile_bounds_clip [OF ok _ r, of "(l, t)" False, folded c_def]
        by (simp add: l_def t_def tile_bounds_def)
      then have it: "Iterator td r borders = \<lparr>index_x = l, index_y = t, it_left = l,
          it_right = TileXIndexFromSrcCoord td (rect_right c - 1),
          it_bottom = TileYIndexFromSrcCoord td (rect_bottom c - 1)\<rparr>"
        using False nb by (simp add: Iterator_def Let_def l_def t_def c_def clip_def)
      show ?thesis
        by (rule iterator_visits_range [OF it]) (use tr meets(1) nb fuel in \<open>simp_all add: l_def t_def\<close>)
    qed
  qed
qed

text \<open>[C28] witness: the two tiles of the example that meet a rectangle without borders.\<close>

lemma Iterator_visits_witness:
  "walk iterator_ok Iterator_next iterator_index 6 (Iterator example_tiling (Rect 3 1 6 4) False) =
     Some [(0, 0), (1, 0)]"
proof -
  have "rect_ok (Rect 3 1 6 4)" "length (all_tiles example_tiling) \<le> 6"
    "filter (\<lambda>p. Rect_Intersects (tile_bounds example_tiling False p) (Rect 3 1 6 4))
       (all_tiles example_tiling) = [(0, 0), (1, 0)]" by code_simp+
  then show ?thesis using Iterator_visits [OF example_tiling_ok(1)] by simp
qed

text \<open>
  The start of a difference walk at the first considered tile: it visits the considered tiles that
  are not ignored.
\<close>

lemma difference_visits_range:
  assumes b: "difference_bounds it" and at: "index_x it = consider_left it" "index_y it = consider_top it"
    and n: "consider_right it < num_tiles_x td" "consider_bottom it < num_tiles_y td"
    and Q: "\<And>p. is_tile td p \<Longrightarrow>
      Q p \<longleftrightarrow> consider_left it \<le> fst p \<and> fst p \<le> consider_right it \<and>
              consider_top it \<le> snd p \<and> snd p \<le> consider_bottom it \<and> \<not> ignored it p"
    and fuel: "length (all_tiles td) \<le> fuel"
  shows "walk iterator_ok DifferenceIterator_next iterator_index fuel
      (if in_ignore_rect it then DifferenceIterator_next it else it) = Some (filter Q (all_tiles td))"
    (is "walk _ _ _ _ ?start = _")
proof -
  have ok: "iterator_ok it" and c: "in_consider_rect it"
    using b at by (auto simp: iterator_ok_def in_consider_rect_def difference_bounds_def)
  have wf: "difference_wf ?start"
    using DifferenceIterator_next_left(2) [OF ok b c] b c by (simp add: difference_wf_def)
  have "difference_left ?start = difference_from it (index_x it) (index_y it)"
    using DifferenceIterator_next_left(1) [OF ok b c] difference_from_here [OF c] ok
    by (cases "in_ignore_rect it") (simp_all, simp add: difference_left_def)
  also have "\<dots> = filter (\<lambda>p. \<not> ignored it p)
      (rows (consider_left it) (consider_right it) (consider_top it) (consider_bottom it))"
    using b by (simp add: difference_from_def at rows_Cons difference_bounds_def)
  also have "\<dots> = filter (\<lambda>p. \<not> ignored it p) (filter (\<lambda>p. consider_left it \<le> fst p \<and> fst p \<le> consider_right it \<and>
      consider_top it \<le> snd p \<and> snd p \<le> consider_bottom it) (all_tiles td))"
    unfolding all_tiles_def by (subst rows_as_filter) (use b n in \<open>simp_all add: difference_bounds_def\<close>)
  also have "\<dots> = filter Q (all_tiles td)"
    unfolding filter_filter by (rule filter_cong) (simp_all add: Q all_tiles_is_tile)
  finally have left: "difference_left ?start = filter Q (all_tiles td)" .
  have "length (difference_left ?start) \<le> fuel"
    unfolding left using fuel length_filter_le order_trans by blast
  then show ?thesis using diff.walk_left [OF wf] left by simp
qed

lemma difference_none:
  assumes "\<not> iterator_ok (DifferenceIterator td consider ignore)"
    and "\<And>p. is_tile td p \<Longrightarrow> \<not> Q p"
  shows "walk iterator_ok DifferenceIterator_next iterator_index fuel (DifferenceIterator td consider ignore) =
     Some (filter Q (all_tiles td))"
proof -
  have "filter Q (all_tiles td) = []" using assms(2) by (simp add: filter_empty_conv all_tiles_is_tile)
  then show ?thesis using assms(1) by (simp add: walk_not_ok)
qed

text \<open>What \<open>BaseDifferenceIterator\<close> computes: the indices of the tiles to consider and to ignore.\<close>

definition base_ok :: "tiling_data \<Rightarrow> rect \<Rightarrow> rect \<Rightarrow> difference_iterator \<Rightarrow> bool" where
  "base_ok td consider ignore it \<longleftrightarrow>
     HasConsiderRect_dcheck it \<and>
     (HasConsiderRect it \<longrightarrow>
        difference_bounds it \<and> consider_right it < num_tiles_x td \<and> consider_bottom it < num_tiles_y td) \<and>
     (\<forall>p. is_tile td p \<longrightarrow>
        (Rect_Intersects (tile_bounds td False p) consider \<and>
         \<not> Rect_Intersects (tile_bounds td False p) ignore \<longleftrightarrow>
         HasConsiderRect it \<and> considered it p \<and> \<not> ignored it p))"

lemma base_ok_none:
  assumes "BaseDifferenceIterator td consider ignore =
      \<lparr>index_x = -1, index_y = -1, consider_left = -1, consider_top = -1, consider_right = -1,
       consider_bottom = -1, ignore_left = a, ignore_top = b, ignore_right = c, ignore_bottom = d\<rparr>"
    and "\<And>p. is_tile td p \<Longrightarrow>
      Rect_Intersects (tile_bounds td False p) consider \<Longrightarrow> Rect_Intersects (tile_bounds td False p) ignore"
  shows "base_ok td consider ignore (BaseDifferenceIterator td consider ignore)"
  using assms(2) unfolding assms(1) by (auto simp: base_ok_def HasConsiderRect_dcheck_def HasConsiderRect_def)

lemma BaseDifferenceIterator_ok:
  assumes ok: "tiling_ok td" and r: "rect_ok consider" "rect_ok ignore"
  shows "base_ok td consider ignore (BaseDifferenceIterator td consider ignore)"
proof (cases "(num_tiles_x td \<le> 0 \<or> num_tiles_y td \<le> 0) \<or> Rect_IsEmpty (clip td consider)")
  case True
  then have "\<not> Rect_Intersects (tile_bounds td False p) consider" if "is_tile td p" for p
    using no_tile_meets [OF ok r(1) _ that] that by (auto simp: is_tile_def)
  then show ?thesis
    using True by (intro base_ok_none)
      (auto simp: BaseDifferenceIterator_def Let_def clip_def iterator_done_def)
next
  case False
  then have n: "0 < num_tiles_x td" "0 < num_tiles_y td" and ne: "\<not> Rect_IsEmpty (clip td consider)" by auto
  define c where "c = clip td consider"
  define g where "g = clip td ignore"
  define cl where "cl = TileXIndexFromSrcCoord td (rect_x c)"
  define ct where "ct = TileYIndexFromSrcCoord td (rect_y c)"
  define cr' where "cr' = TileXIndexFromSrcCoord td (rect_right c - 1)"
  define cb where "cb = TileYIndexFromSrcCoord td (rect_bottom c - 1)"
  note cd = cl_def [symmetric] ct_def [symmetric] cr'_def [symmetric] cb_def [symmetric]
  note cr = tile_indices_range [OF ok n r(1) ne, folded c_def, unfolded cd]
  note cm = tile_bounds_meets(1) [OF ok n r(1) ne, folded c_def, unfolded cd]
  show ?thesis
  proof (cases "Rect_IsEmpty (clip td ignore)")
    case True
    have "BaseDifferenceIterator td consider ignore =
      \<lparr>index_x = -1, index_y = -1, consider_left = cl, consider_top = ct, consider_right = cr',
       consider_bottom = cb, ignore_left = -1, ignore_top = -1, ignore_right = -1, ignore_bottom = -1\<rparr>"
      using n ne True by (simp add: BaseDifferenceIterator_def Let_def cd flip: clip_def c_def)
    then show ?thesis
      using cr cm no_tile_meets [OF ok r(2) True, of _ False]
      by (auto simp: base_ok_def HasConsiderRect_dcheck_def HasConsiderRect_def difference_bounds_def
          considered_def ignored_def is_tile_def)
  next
    case ine: False
    define gl where "gl = TileXIndexFromSrcCoord td (rect_x g)"
    define gt where "gt = TileYIndexFromSrcCoord td (rect_y g)"
    define gr' where "gr' = TileXIndexFromSrcCoord td (rect_right g - 1)"
    define gb where "gb = TileYIndexFromSrcCoord td (rect_bottom g - 1)"
    note gd = gl_def [symmetric] gt_def [symmetric] gr'_def [symmetric] gb_def [symmetric]
    note gm = tile_bounds_meets(1) [OF ok n r(2) ine, folded g_def, unfolded gd]
    have base: "BaseDifferenceIterator td consider ignore =
      (if max gl cl = cl \<and> min gr' cr' = cr' \<and> max gt ct = ct \<and> min gb cb = cb
       then \<lparr>index_x = -1, index_y = -1, consider_left = -1, consider_top = -1, consider_right = -1,
             consider_bottom = -1, ignore_left = max gl cl, ignore_top = max gt ct,
             ignore_right = min gr' cr', ignore_bottom = min gb cb\<rparr>
       else \<lparr>index_x = -1, index_y = -1, consider_left = cl, consider_top = ct, consider_right = cr',
             consider_bottom = cb, ignore_left = max gl cl, ignore_top = max gt ct,
             ignore_right = min gr' cr', ignore_bottom = min gb cb\<rparr>)"
      using n ne ine
      by (simp add: BaseDifferenceIterator_def Let_def cd gd iterator_done_def flip: clip_def c_def g_def)
    show ?thesis
    proof (cases "max gl cl = cl \<and> min gr' cr' = cr' \<and> max gt ct = ct \<and> min gb cb = cb")
      case True
      then show ?thesis
        using base by (intro base_ok_none) (auto simp: cm gm)
    next
      case some: False
      show ?thesis
        unfolding base if_not_P [OF some] base_ok_def using cr cm gm
        by (auto simp: HasConsiderRect_dcheck_def HasConsiderRect_def difference_bounds_def
            considered_def ignored_def)
    qed
  qed
qed

lemma DifferenceIterator_start:
  "DifferenceIterator td consider ignore =
     (let it = BaseDifferenceIterator td consider ignore;
          it' = it\<lparr>index_x := consider_left it, index_y := consider_top it\<rparr>
      in if \<not> HasConsiderRect it then iterator_done it
         else if in_ignore_rect it' then DifferenceIterator_next it' else it')"
  by (simp add: DifferenceIterator_def Let_def)

text \<open>[C31]
  A loop over \<open>DifferenceIterator\<close> ends and visits, row by row and each once, exactly the tiles
  that meet the rectangle to consider and do not meet the rectangle to ignore, although it jumps
  over ignored stretches of a row and over ignored rows.
\<close>

theorem DifferenceIterator_visits:
  assumes ok: "tiling_ok td" and r: "rect_ok consider" "rect_ok ignore"
    and fuel: "length (all_tiles td) \<le> fuel"
  shows "walk iterator_ok DifferenceIterator_next iterator_index fuel (DifferenceIterator td consider ignore) =
     Some (filter (\<lambda>p. Rect_Intersects (tile_bounds td False p) consider \<and>
                       \<not> Rect_Intersects (tile_bounds td False p) ignore) (all_tiles td))"
proof -
  define it where "it = BaseDifferenceIterator td consider ignore"
  define start_it where "start_it = it\<lparr>index_x := consider_left it, index_y := consider_top it\<rparr>"
  note spec = BaseDifferenceIterator_ok [OF ok r, folded it_def, unfolded base_ok_def]
  note start = DifferenceIterator_start [of td "consider" ignore, folded it_def, unfolded Let_def, folded start_it_def]
  show ?thesis
  proof (cases "HasConsiderRect it")
    case False
    then show ?thesis using spec by (intro difference_none) (auto simp: start)
  next
    case True
    have "difference_bounds start_it" "index_x start_it = consider_left start_it" "index_y start_it = consider_top start_it"
      "consider_right start_it < num_tiles_x td" "consider_bottom start_it < num_tiles_y td"
      using spec True by (simp_all add: start_it_def)
    note range = difference_visits_range [OF this _ fuel]
    show ?thesis
      unfolding start using True
      by (simp only: not_True_eq_False if_False)
        (rule range, use spec True in \<open>simp_all add: start_it_def considered_def del: split_paired_All\<close>)
  qed
qed

text \<open>[C31] witness: all tiles of the example but the middle column of its first row.\<close>

lemma DifferenceIterator_visits_witness:
  "walk iterator_ok DifferenceIterator_next iterator_index 6
     (DifferenceIterator example_tiling (Rect 0 0 20 10) (Rect 8 1 2 2)) =
     Some [(0, 0), (2, 0), (0, 1), (1, 1), (2, 1)]"
proof -
  have "rect_ok (Rect 0 0 20 10)" "rect_ok (Rect 8 1 2 2)" "length (all_tiles example_tiling) \<le> 6"
    "filter (\<lambda>p. Rect_Intersects (tile_bounds example_tiling False p) (Rect 0 0 20 10) \<and>
        \<not> Rect_Intersects (tile_bounds example_tiling False p) (Rect 8 1 2 2))
       (all_tiles example_tiling) = [(0, 0), (2, 0), (0, 1), (1, 1), (2, 1)]" by code_simp+
  then show ?thesis using DifferenceIterator_visits [OF example_tiling_ok(1)] by simp
qed

end
