(* ===== verification/Tiling_Spiral.thy ===== *)
theory Tiling_Spiral
  imports Tiling_Data
begin

text \<open>
  The spiral iterators of \<open>TilingData\<close> (\<^verbatim>\<open>cc/base/tiling_data.{h,cc}\<close>):
  \<open>SpiralDifferenceIterator\<close> walks the tiles around a centre outwards and
  counterclockwise, \<open>ReverseSpiralDifferenceIterator\<close> inwards from outside. Both jump over stretches
  that they know hold no tile to visit, and the first one stops when it finds that none of four
  sides in a row can meet the rectangle to consider. \<open>None\<close> is a failed DCHECK or a loop that does
  not return.
\<close>

section \<open>Spirals\<close>

datatype direction = UP | LEFT | DOWN | RIGHT

record spiral_iterator = difference_iterator +
  direction :: direction
  delta_x :: int
  delta_y :: int
  current_step :: int
  horizontal_step_count :: int
  vertical_step_count :: int

text \<open>The fields both iterators have, and those of the rectangle around the centre.\<close>

record reverse_spiral_iterator = spiral_iterator +
  around_left :: int
  around_top :: int
  around_right :: int
  around_bottom :: int

definition valid_column :: "'a spiral_iterator_scheme \<Rightarrow> bool" where
  "valid_column it \<longleftrightarrow> index_x it \<ge> consider_left it \<and> index_x it \<le> consider_right it"

definition valid_row :: "'a spiral_iterator_scheme \<Rightarrow> bool" where
  "valid_row it \<longleftrightarrow> index_y it \<ge> consider_top it \<and> index_y it \<le> consider_bottom it"

definition current_step_count :: "'a spiral_iterator_scheme \<Rightarrow> int" where
  "current_step_count it =
     (if direction it = UP \<or> direction it = DOWN then vertical_step_count it
      else horizontal_step_count it)"

definition needs_direction_switch :: "'a spiral_iterator_scheme \<Rightarrow> bool" where
  "needs_direction_switch it \<longleftrightarrow> current_step it \<ge> current_step_count it"

text \<open>A step in the current direction, and several at once.\<close>

definition take_steps :: "int \<Rightarrow> 'a spiral_iterator_scheme \<Rightarrow> 'a spiral_iterator_scheme" where
  "take_steps n it =
     it\<lparr>index_x := index_x it + n * delta_x it, index_y := index_y it + n * delta_y it,
        current_step := current_step it + n\<rparr>"

text \<open>The steps to the edge of the rectangle to ignore.\<close>

definition steps_to_edge :: "'a spiral_iterator_scheme \<Rightarrow> int" where
  "steps_to_edge it =
     (case direction it of
        UP \<Rightarrow> index_y it - ignore_top it
      | LEFT \<Rightarrow> index_x it - ignore_left it
      | DOWN \<Rightarrow> ignore_bottom it - index_y it
      | RIGHT \<Rightarrow> ignore_right it - index_x it)"

text \<open>The steps to take outside the rectangle to consider: up to it, or to the end of the side.\<close>

definition steps_outside :: "int \<Rightarrow> 'a spiral_iterator_scheme \<Rightarrow> int" where
  "steps_outside max_steps it =
     (case direction it of
        UP \<Rightarrow> if valid_column it \<and> consider_bottom it < index_y it
              then index_y it - consider_bottom it - 1 else max_steps
      | LEFT \<Rightarrow> if valid_row it \<and> consider_right it < index_x it
              then index_x it - consider_right it - 1 else max_steps
      | DOWN \<Rightarrow> if valid_column it \<and> consider_top it > index_y it
              then consider_top it - index_y it - 1 else max_steps
      | RIGHT \<Rightarrow> if valid_row it \<and> consider_left it > index_x it
              then consider_left it - index_x it - 1 else max_steps)"

section \<open>SpiralDifferenceIterator\<close>

text \<open>The enumeration of this class is in the order up, left, down, right.\<close>

fun next_direction :: "direction \<Rightarrow> direction" where
  "next_direction UP = LEFT"
| "next_direction LEFT = DOWN"
| "next_direction DOWN = RIGHT"
| "next_direction RIGHT = UP"

definition switch_direction :: "spiral_iterator \<Rightarrow> spiral_iterator" where
  "switch_direction it =
     (let it = it\<lparr>delta_x := delta_y it, delta_y := - delta_x it, current_step := 0,
                  direction := next_direction (direction it)\<rparr>
      in if direction it = RIGHT \<or> direction it = LEFT
         then it\<lparr>vertical_step_count := vertical_step_count it + 1,
                 horizontal_step_count := horizontal_step_count it + 1\<rparr>
         else it)"

definition can_hit_consider_rect :: "spiral_iterator \<Rightarrow> bool" where
  "can_hit_consider_rect it \<longleftrightarrow>
     (case direction it of
        UP \<Rightarrow> consider_right it \<ge> index_x it
      | LEFT \<Rightarrow> consider_top it \<le> index_y it
      | DOWN \<Rightarrow> consider_left it \<le> index_x it
      | RIGHT \<Rightarrow> consider_bottom it \<ge> index_y it)"

text \<open>The loop of \<open>operator++\<close>; the count is \<open>cannot_hit_consider_count\<close>.\<close>

partial_function (option) spiral_loop :: "nat \<Rightarrow> spiral_iterator \<Rightarrow> spiral_iterator option" where
  "spiral_loop cannot_hit_count it =
     (if cannot_hit_count < 4
      then
        (let it = (if needs_direction_switch it then switch_direction it else it);
             it = take_steps 1 it;
             max_steps = current_step_count it - current_step it
         in if in_consider_rect it
            then
              (if \<not> in_ignore_rect it then Some it
               else
                 (let steps_to_take = min (steps_to_edge it) max_steps
                  in if steps_to_take \<ge> 0 then spiral_loop 0 (take_steps steps_to_take it) else None))
            else
              (let steps_to_take = min (steps_outside max_steps it) max_steps
               in if steps_to_take \<ge> 0
                  then spiral_loop (if can_hit_consider_rect it then 0 else cannot_hit_count + 1)
                         (take_steps steps_to_take it)
                  else None))
      else Some (iterator_done it))"

definition SpiralDifferenceIterator_next :: "spiral_iterator \<Rightarrow> spiral_iterator option" where
  "SpiralDifferenceIterator_next it = spiral_loop 0 it"

text \<open>The tile index of a coordinate of the centre, between \<open>-1\<close> and the number of tiles.\<close>

definition around_index :: "(int \<Rightarrow> int) \<Rightarrow> int \<Rightarrow> int \<Rightarrow> rect \<Rightarrow> int \<Rightarrow> int" where
  "around_index index num_tiles total_size center coord =
     (if coord < 0 \<or> Rect_IsEmpty center then -1
      else if coord \<ge> total_size then num_tiles
      else index coord)"

definition around_x :: "tiling_data \<Rightarrow> rect \<Rightarrow> int \<Rightarrow> int" where
  "around_x td = around_index (TileXIndexFromSrcCoord td) (num_tiles_x td) (fst (tiling_size td))"

definition around_y :: "tiling_data \<Rightarrow> rect \<Rightarrow> int \<Rightarrow> int" where
  "around_y td = around_index (TileYIndexFromSrcCoord td) (num_tiles_y td) (snd (tiling_size td))"

definition SpiralDifferenceIterator ::
    "tiling_data \<Rightarrow> rect \<Rightarrow> rect \<Rightarrow> rect \<Rightarrow> spiral_iterator option" where
  "SpiralDifferenceIterator td consider_rect ignore_rect center_rect =
     (let it = difference_iterator.extend (BaseDifferenceIterator td consider_rect ignore_rect)
                 (spiral_iterator.fields RIGHT 1 0 0 0 0)
      in if \<not> HasConsiderRect it then Some (iterator_done it)
         else
           (let left = around_x td center_rect (rect_x center_rect);
                top = around_y td center_rect (rect_y center_rect);
                right = around_x td center_rect (rect_right center_rect - 1);
                bottom = around_y td center_rect (rect_bottom center_rect - 1);
                horizontal_count = right - left + 1
            in SpiralDifferenceIterator_next
                 (it\<lparr>vertical_step_count := bottom - top + 1,
                     horizontal_step_count := horizontal_count,
                     current_step := horizontal_count - 1,
                     index_x := right, index_y := bottom\<rparr>)))"

section \<open>ReverseSpiralDifferenceIterator\<close>

text \<open>The enumeration of this class is in the order left, up, right, down.\<close>

fun reverse_next_direction :: "direction \<Rightarrow> direction" where
  "reverse_next_direction LEFT = UP"
| "reverse_next_direction UP = RIGHT"
| "reverse_next_direction RIGHT = DOWN"
| "reverse_next_direction DOWN = LEFT"

definition in_around_rect :: "reverse_spiral_iterator \<Rightarrow> bool" where
  "in_around_rect it \<longleftrightarrow>
     index_x it \<ge> around_left it \<and> index_x it \<le> around_right it \<and>
     index_y it \<ge> around_top it \<and> index_y it \<le> around_bottom it"

definition reverse_switch_direction :: "reverse_spiral_iterator \<Rightarrow> reverse_spiral_iterator option" where
  "reverse_switch_direction it =
     (let it = it\<lparr>delta_y := delta_x it, delta_x := - delta_y it, current_step := 0,
                  direction := reverse_next_direction (direction it)\<rparr>
      in if direction it = UP \<or> direction it = DOWN
         then
           (let it = it\<lparr>vertical_step_count := vertical_step_count it - 1,
                        horizontal_step_count := horizontal_step_count it - 1\<rparr>
            in if horizontal_step_count it \<ge> 1 \<and> vertical_step_count it \<ge> 1 then Some it else None)
         else Some it)"

text \<open>The loop of \<open>operator++\<close>, and the call to \<open>done\<close> that follows it.\<close>

partial_function (option) reverse_spiral_loop ::
    "reverse_spiral_iterator \<Rightarrow> reverse_spiral_iterator option" where
  "reverse_spiral_loop it =
     (if \<not> in_around_rect it
      then Option.bind (if needs_direction_switch it then reverse_switch_direction it else Some it) (\<lambda>it.
        (let it = take_steps 1 it;
             max_steps = current_step_count it - current_step it
         in if in_around_rect it then Some (iterator_done it)
            else if in_consider_rect it
            then
              (if \<not> in_ignore_rect it then Some it
               else
                 (let steps_to_take = min (steps_to_edge it) max_steps
                  in if steps_to_take \<ge> 0 then reverse_spiral_loop (take_steps steps_to_take it)
                     else None))
            else
              (let steps_to_take = min (steps_outside max_steps it) max_steps
               in if steps_to_take \<ge> 0 then reverse_spiral_loop (take_steps steps_to_take it)
                  else None)))
      else Some (iterator_done it))"

definition ReverseSpiralDifferenceIterator_next ::
    "reverse_spiral_iterator \<Rightarrow> reverse_spiral_iterator option" where
  "ReverseSpiralDifferenceIterator_next it = reverse_spiral_loop it"

definition ReverseSpiralDifferenceIterator ::
    "tiling_data \<Rightarrow> rect \<Rightarrow> rect \<Rightarrow> rect \<Rightarrow> reverse_spiral_iterator option" where
  "ReverseSpiralDifferenceIterator td consider_rect ignore_rect center_rect =
     (let it = spiral_iterator.extend
                 (difference_iterator.extend (BaseDifferenceIterator td consider_rect ignore_rect)
                   (spiral_iterator.fields LEFT (-1) 0 0 0 0))
                 (reverse_spiral_iterator.fields (-1) (-1) (-1) (-1))
      in if \<not> HasConsiderRect it then Some (iterator_done it)
         else
           (let left = around_x td center_rect (rect_x center_rect);
                top = around_y td center_rect (rect_y center_rect);
                right = around_x td center_rect (rect_right center_rect - 1);
                bottom = around_y td center_rect (rect_bottom center_rect - 1);
                max_distance = max 0 (top - consider_top it);
                max_distance = max max_distance (left - consider_left it);
                max_distance = max max_distance (consider_bottom it - bottom);
                max_distance = max max_distance (consider_right it - right)
            in ReverseSpiralDifferenceIterator_next
                 (it\<lparr>around_left := left, around_top := top, around_right := right,
                     around_bottom := bottom,
                     vertical_step_count := bottom - top + 1 + 2 * max_distance,
                     horizontal_step_count := right - left + 1 + 2 * max_distance,
                     index_x := right + max_distance + 1, index_y := bottom + max_distance\<rparr>)))"

text \<open>A loop over an iterator whose step is partial.\<close>

fun walk_partial :: "('s \<Rightarrow> bool) \<Rightarrow> ('s \<Rightarrow> 's option) \<Rightarrow> ('s \<Rightarrow> 't) \<Rightarrow> nat \<Rightarrow> 's \<Rightarrow> 't list option" where
  "walk_partial ok step tile 0 s = (if ok s then None else Some [])"
| "walk_partial ok step tile (Suc fuel) s =
     (if ok s
      then Option.bind (step s) (\<lambda>s'. map_option (Cons (tile s)) (walk_partial ok step tile fuel s'))
      else Some [])"

end
