(* ===== verification/Tiling_Spiral_Correct.thy ===== *)
theory Tiling_Spiral_Correct
  imports Tiling_Spiral "HOL-Library.Product_Lexorder"
begin

text \<open>
  What the spiral iterators of \<^theory_text>\<open>Tiling_Spiral\<close> visit. The tiles outside the centre are
  ordered by a key, the order in which an unbounded spiral meets them; one step of either iterator is
  a step to the next or the previous tile of that order, and a jump is several of them over tiles
  that are not to be visited. Both walks are interpretations of the contract of an iterator.
\<close>

section \<open>Rings around the centre\<close>

text \<open>
  The centre covers the indices from \<open>l\<close> to \<open>r\<close> and from \<open>t\<close> to \<open>b\<close>; the ring of a tile is its
  distance from there. The key of a tile orders the tiles as the spiral meets them: by ring, then
  right column upwards, top row leftwards, left column downwards and bottom row rightwards.
\<close>

definition ring :: "int \<Rightarrow> int \<Rightarrow> int \<Rightarrow> int \<Rightarrow> int \<times> int \<Rightarrow> int" where
  "ring l t r b p =
     max 0 (max (max (l - fst p) (fst p - r)) (max (t - snd p) (snd p - b)))"

definition spiral_key :: "int \<Rightarrow> int \<Rightarrow> int \<Rightarrow> int \<Rightarrow> int \<times> int \<Rightarrow> int \<times> int \<times> int" where
  "spiral_key l t r b p =
     (let k = ring l t r b p
      in if fst p = r + k \<and> snd p < b + k then (k, 0, - snd p)
         else if snd p = t - k then (k, 1, - fst p)
         else if fst p = l - k then (k, 2, snd p)
         else (k, 3, fst p))"

text \<open>The four sides of a ring.\<close>

lemma ring_sides:
  assumes "l \<le> r" and "t \<le> b" and "0 \<le> k"
  shows "0 < k \<Longrightarrow> t - k \<le> y \<Longrightarrow> y < b + k \<Longrightarrow> ring l t r b (r + k, y) = k"
    and "0 < k \<Longrightarrow> l - k \<le> x \<Longrightarrow> x \<le> r + k \<Longrightarrow> ring l t r b (x, t - k) = k"
    and "0 < k \<Longrightarrow> t - k \<le> y \<Longrightarrow> y \<le> b + k \<Longrightarrow> ring l t r b (l - k, y) = k"
    and "l - k \<le> x \<Longrightarrow> x \<le> r + k \<Longrightarrow> ring l t r b (x, b + k) = k"
  using assms by (auto simp: ring_def max_def)

lemma key_sides:
  assumes lr: "l \<le> r" and tb: "t \<le> b" and k: "0 < k"
  shows "t - k \<le> y \<Longrightarrow> y < b + k \<Longrightarrow> spiral_key l t r b (r + k, y) = (k, 0, - y)"
    and "l - k \<le> x \<Longrightarrow> x < r + k \<Longrightarrow> spiral_key l t r b (x, t - k) = (k, 1, - x)"
    and "t - k < y \<Longrightarrow> y \<le> b + k \<Longrightarrow> spiral_key l t r b (l - k, y) = (k, 2, y)"
    and "l - k < x \<Longrightarrow> x \<le> r + k \<Longrightarrow> spiral_key l t r b (x, b + k) = (k, 3, x)"
  using ring_sides [OF lr tb, of k] assms by (auto simp: spiral_key_def Let_def)

lemma key_inside: "ring l t r b p = 0 \<Longrightarrow> \<exists>c. spiral_key l t r b p = (0, c)"
  by (auto simp: spiral_key_def Let_def)

lemma ring_cases:
  assumes lr: "l \<le> r" and tb: "t \<le> b" and "0 < ring l t r b q"
  obtains (right) k y where "q = (r + k, y)" "ring l t r b q = k" "0 < k" "t - k \<le> y" "y < b + k"
  | (top) k x where "q = (x, t - k)" "ring l t r b q = k" "0 < k" "l - k \<le> x" "x < r + k"
  | (left) k y where "q = (l - k, y)" "ring l t r b q = k" "0 < k" "t - k < y" "y \<le> b + k"
  | (bottom) k x where "q = (x, b + k)" "ring l t r b q = k" "0 < k" "l - k < x" "x \<le> r + k"
proof -
  obtain x y where q: "q = (x, y)" by (cases q)
  define k where "k = ring l t r b q"
  have k: "0 < k" "l - k \<le> x" "x \<le> r + k" "t - k \<le> y" "y \<le> b + k"
    "x = l - k \<or> x = r + k \<or> y = t - k \<or> y = b + k"
    using assms by (auto simp: k_def ring_def q max_def split: if_splits)
  consider "x = r + k" "y < b + k" | "y = t - k" "x < r + k" | "x = l - k" "t - k < y"
    | "y = b + k" "l - k < x" using k lr tb by linarith
  then show thesis
    by cases (use k q that k_def in auto)
qed

text \<open>The next tile of the spiral: no other tile outside the centre lies between.\<close>

definition spiral_succ :: "int \<Rightarrow> int \<Rightarrow> int \<Rightarrow> int \<Rightarrow> int \<times> int \<Rightarrow> int \<times> int \<Rightarrow> bool" where
  "spiral_succ l t r b p p' \<longleftrightarrow>
     0 < ring l t r b p' \<and>
     (\<forall>q. 0 < ring l t r b q \<longrightarrow>
        (spiral_key l t r b p < spiral_key l t r b q \<longleftrightarrow>
         q = p' \<or> spiral_key l t r b p' < spiral_key l t r b q))"

lemma spiral_succD:
  assumes "spiral_succ l t r b p p'"
  shows "0 < ring l t r b p'"
    and "0 < ring l t r b q \<Longrightarrow> spiral_key l t r b p < spiral_key l t r b q \<longleftrightarrow>
      q = p' \<or> spiral_key l t r b p' < spiral_key l t r b q"
  using assms by (simp_all add: spiral_succ_def del: split_paired_All)

lemma spiral_succ_sides:
  assumes lr: "l \<le> r" and tb: "t \<le> b"
  shows "0 < k \<Longrightarrow> t - k < y \<Longrightarrow> y < b + k \<Longrightarrow> spiral_succ l t r b (r + k, y) (r + k, y - 1)"
    and "0 < k \<Longrightarrow> l - k < x \<Longrightarrow> x \<le> r + k \<Longrightarrow> spiral_succ l t r b (x, t - k) (x - 1, t - k)"
    and "0 < k \<Longrightarrow> t - k \<le> y \<Longrightarrow> y < b + k \<Longrightarrow> spiral_succ l t r b (l - k, y) (l - k, y + 1)"
    and "0 < k \<Longrightarrow> l - k \<le> x \<Longrightarrow> x \<le> r + k \<Longrightarrow> spiral_succ l t r b (x, b + k) (x + 1, b + k)"
    and "spiral_succ l t r b (r, b) (r + 1, b)"
proof -
  note key = key_sides [OF lr tb]
  show "spiral_succ l t r b (r + k, y) (r + k, y - 1)" if a: "0 < k" "t - k < y" "y < b + k" for k y
    unfolding spiral_succ_def
  proof (intro conjI allI impI)
    show "0 < ring l t r b (r + k, y - 1)" using ring_sides(1) [OF lr tb, of k "y - 1"] a by simp
    fix q assume "0 < ring l t r b q"
    then show "spiral_key l t r b (r + k, y) < spiral_key l t r b q \<longleftrightarrow>
         q = (r + k, y - 1) \<or> spiral_key l t r b (r + k, y - 1) < spiral_key l t r b q"
      using a key(1)[of k y] key(1) [of k "y - 1"]
      by (cases rule: ring_cases [OF lr tb]) (use lr tb in \<open>auto simp: key\<close>)
  qed
  show "spiral_succ l t r b (x, t - k) (x - 1, t - k)" if a: "0 < k" "l - k < x" "x \<le> r + k" for k x
    unfolding spiral_succ_def
  proof (intro conjI allI impI)
    show "0 < ring l t r b (x - 1, t - k)" using ring_sides(2) [OF lr tb, of k "x - 1"] a by simp
    have p: "spiral_key l t r b (x, t - k) = (if x = r + k then (k, 0, k - t) else (k, 1, - x))"
      using key(1) [of k "t - k"] key(2) [of k x] a tb by auto
    fix q assume "0 < ring l t r b q"
    then show "spiral_key l t r b (x, t - k) < spiral_key l t r b q \<longleftrightarrow>
         q = (x - 1, t - k) \<or> spiral_key l t r b (x - 1, t - k) < spiral_key l t r b q"
      using a p key(2) [of k "x - 1"]
      by (cases rule: ring_cases [OF lr tb]) (use lr tb in \<open>auto simp: key\<close>)
  qed
  show "spiral_succ l t r b (l - k, y) (l - k, y + 1)" if a: "0 < k" "t - k \<le> y" "y < b + k" for k y
    unfolding spiral_succ_def
  proof (intro conjI allI impI)
    show "0 < ring l t r b (l - k, y + 1)" using ring_sides(3) [OF lr tb, of k "y + 1"] a by simp
    have p: "spiral_key l t r b (l - k, y) = (if y = t - k then (k, 1, k - l) else (k, 2, y))"
      using key(2) [of k "l - k"] key(3) [of k y] a lr by auto
    fix q assume "0 < ring l t r b q"
    then show "spiral_key l t r b (l - k, y) < spiral_key l t r b q \<longleftrightarrow>
         q = (l - k, y + 1) \<or> spiral_key l t r b (l - k, y + 1) < spiral_key l t r b q"
      using a p key(3) [of k "y + 1"]
      by (cases rule: ring_cases [OF lr tb]) (use lr tb in \<open>auto simp: key\<close>)
  qed
  show "spiral_succ l t r b (x, b + k) (x + 1, b + k)" if a: "0 < k" "l - k \<le> x" "x \<le> r + k" for k x
    unfolding spiral_succ_def
  proof (intro conjI allI impI)
    have p: "spiral_key l t r b (x, b + k) = (if x = l - k then (k, 2, b + k) else (k, 3, x))"
      using key(3) [of k "b + k"] key(4) [of k x] a tb by auto
    have p': "spiral_key l t r b (x + 1, b + k) = (if x = r + k then (k + 1, 0, - (b + k)) else (k, 3, x + 1))"
      using key(1) [of "k + 1" "b + k"] key(4) [of k "x + 1"] a tb by (auto simp: algebra_simps)
    show "0 < ring l t r b (x + 1, b + k)"
      using ring_sides(4) [OF lr tb, of k "x + 1"] ring_sides(1) [OF lr tb, of "k + 1" "b + k"] a tb
      by (cases "x = r + k") (auto simp: algebra_simps)
    fix q assume "0 < ring l t r b q"
    then show "spiral_key l t r b (x, b + k) < spiral_key l t r b q \<longleftrightarrow>
         q = (x + 1, b + k) \<or> spiral_key l t r b (x + 1, b + k) < spiral_key l t r b q"
      unfolding p p' using a
      by (cases rule: ring_cases [OF lr tb]) (use lr tb in \<open>auto simp: key\<close>)
  qed
  show "spiral_succ l t r b (r, b) (r + 1, b)"
    unfolding spiral_succ_def
  proof (intro conjI allI impI)
    obtain c where p: "spiral_key l t r b (r, b) = (0, c)"
      using key_inside [of l t r b "(r, b)"] ring_sides(4) [OF lr tb, of 0 r] lr by auto
    show "0 < ring l t r b (r + 1, b)" using ring_sides(1) [OF lr tb, of 1 b] tb by simp
    fix q assume "0 < ring l t r b q"
    then show "spiral_key l t r b (r, b) < spiral_key l t r b q \<longleftrightarrow>
         q = (r + 1, b) \<or> spiral_key l t r b (r + 1, b) < spiral_key l t r b q"
      unfolding p using key(1) [of 1 b] tb
      by (cases rule: ring_cases [OF lr tb]) (use lr tb in \<open>auto simp: key\<close>)
  qed
qed

lemma key_inj:
  assumes lr: "l \<le> r" and tb: "t \<le> b" and "0 < ring l t r b p" and "0 < ring l t r b q"
    and "spiral_key l t r b p = spiral_key l t r b q"
  shows "p = q"
  by (cases rule: ring_cases [OF lr tb assms(3)]; cases rule: ring_cases [OF lr tb assms(4)])
    (use assms(5) in \<open>simp_all add: key_sides [OF lr tb]\<close>)

lemma key_less_ring: "spiral_key l t r b p < spiral_key l t r b q \<Longrightarrow> ring l t r b p \<le> ring l t r b q"
  by (auto simp: spiral_key_def Let_def split: if_splits)

section \<open>Positions of the spiral\<close>

text \<open>The iterator is on a side of ring \<open>k\<close>, having taken some of its steps.\<close>

definition spiral_at :: "int \<Rightarrow> int \<Rightarrow> int \<Rightarrow> int \<Rightarrow> int \<Rightarrow> spiral_iterator \<Rightarrow> bool" where
  "spiral_at l t r b k it \<longleftrightarrow>
     0 \<le> current_step it \<and> current_step it \<le> current_step_count it \<and>
     (case direction it of
        UP \<Rightarrow> 0 < k \<and> delta_x it = 0 \<and> delta_y it = -1 \<and>
              index_x it = r + k \<and> index_y it = b + k - 1 - current_step it \<and>
              horizontal_step_count it = r - l + 2 * k - 1 \<and> vertical_step_count it = b - t + 2 * k - 1
      | LEFT \<Rightarrow> 0 < k \<and> delta_x it = -1 \<and> delta_y it = 0 \<and>
              index_x it = r + k - current_step it \<and> index_y it = t - k \<and>
              horizontal_step_count it = r - l + 2 * k \<and> vertical_step_count it = b - t + 2 * k
      | DOWN \<Rightarrow> 0 < k \<and> delta_x it = 0 \<and> delta_y it = 1 \<and>
              index_x it = l - k \<and> index_y it = t - k + current_step it \<and>
              horizontal_step_count it = r - l + 2 * k \<and> vertical_step_count it = b - t + 2 * k
      | RIGHT \<Rightarrow> 0 \<le> k \<and> delta_x it = 1 \<and> delta_y it = 0 \<and>
              index_x it = l - k + current_step it \<and> index_y it = b + k \<and>
              horizontal_step_count it = r - l + 2 * k + 1 \<and> vertical_step_count it = b - t + 2 * k + 1 \<and>
              (k = 0 \<longrightarrow> r - l \<le> current_step it))"

definition spiral_advance :: "spiral_iterator \<Rightarrow> spiral_iterator" where
  "spiral_advance it = take_steps 1 (if needs_direction_switch it then switch_direction it else it)"

definition next_ring :: "int \<Rightarrow> spiral_iterator \<Rightarrow> int" where
  "next_ring k it = (if needs_direction_switch it \<and> direction it = RIGHT then k + 1 else k)"

lemma spiral_advance_at:
  assumes lr: "l \<le> r" and tb: "t \<le> b" and pos: "spiral_at l t r b k it"
  shows "spiral_at l t r b (next_ring k it) (spiral_advance it)"
    and "spiral_succ l t r b (iterator_index it) (iterator_index (spiral_advance it))"
proof -
  note defs = spiral_at_def spiral_advance_def next_ring_def needs_direction_switch_def
    current_step_count_def switch_direction_def take_steps_def Let_def iterator_index_def
  note succ = spiral_succ_sides [OF lr tb]
  show "spiral_at l t r b (next_ring k it) (spiral_advance it)"
    using pos lr tb by (cases "direction it") (auto simp: defs)
  show "spiral_succ l t r b (iterator_index it) (iterator_index (spiral_advance it))"
  proof (cases "direction it")
    case UP
    then show ?thesis
      using pos lr tb succ(1) [of k "index_y it"] succ(2) [of k "r + k"]
      by (cases "current_step it = b - t + 2 * k - 1") (auto simp: defs)
  next
    case LEFT
    then show ?thesis
      using pos lr tb succ(2) [of k "index_x it"] succ(3) [of k "t - k"] by (auto simp: defs)
  next
    case DOWN
    then show ?thesis
      using pos lr tb succ(3) [of k "index_y it"] succ(4) [of k "l - k"] by (auto simp: defs algebra_simps)
  next
    case RIGHT
    show ?thesis
    proof (cases "current_step it = r - l + 2 * k + 1")
      case True
      have "iterator_index it = (r + (k + 1), b + k)"
        "iterator_index (spiral_advance it) = (r + (k + 1), b + k - 1)"
        using RIGHT True pos by (auto simp: defs)
      then show ?thesis using succ(1) [of "k + 1" "b + k"] pos RIGHT tb by (simp add: spiral_at_def)
    next
      case False
      have i: "iterator_index it = (index_x it, b + k)"
        "iterator_index (spiral_advance it) = (index_x it + 1, b + k)"
        using RIGHT False pos by (auto simp: defs)
      have x: "0 \<le> k" "l - k \<le> index_x it" "index_x it \<le> r + k" "k = 0 \<longrightarrow> index_x it = r"
        using RIGHT False pos by (auto simp: defs)
      show ?thesis
        unfolding i using x succ(4) [of k "index_x it"] succ(5) by (cases "k = 0") auto
    qed
  qed
qed


text \<open>What a step leaves alone.\<close>

lemma rects_unchanged [simp]:
  "consider_left (take_steps n it) = consider_left it" "consider_top (take_steps n it) = consider_top it"
  "consider_right (take_steps n it) = consider_right it"
  "consider_bottom (take_steps n it) = consider_bottom it"
  "ignore_left (take_steps n it) = ignore_left it" "ignore_top (take_steps n it) = ignore_top it"
  "ignore_right (take_steps n it) = ignore_right it" "ignore_bottom (take_steps n it) = ignore_bottom it"
  "considered (take_steps n it) = considered it" "ignored (take_steps n it) = ignored it"
  "direction (take_steps n it) = direction it" "delta_x (take_steps n it) = delta_x it"
  "delta_y (take_steps n it) = delta_y it" "current_step_count (take_steps n it) = current_step_count it"
  "current_step (take_steps n it) = current_step it + n"
  by (simp_all add: take_steps_def considered_def ignored_def fun_eq_iff current_step_count_def)

lemma advance_rects [simp]:
  "consider_left (spiral_advance it) = consider_left it" "consider_top (spiral_advance it) = consider_top it"
  "consider_right (spiral_advance it) = consider_right it"
  "consider_bottom (spiral_advance it) = consider_bottom it"
  "ignore_left (spiral_advance it) = ignore_left it" "ignore_top (spiral_advance it) = ignore_top it"
  "ignore_right (spiral_advance it) = ignore_right it" "ignore_bottom (spiral_advance it) = ignore_bottom it"
  "considered (spiral_advance it) = considered it" "ignored (spiral_advance it) = ignored it"
  by (simp_all add: spiral_advance_def switch_direction_def Let_def considered_def ignored_def fun_eq_iff)

lemma in_rects: "in_consider_rect it \<longleftrightarrow> considered it (iterator_index it)"
  "in_ignore_rect it \<longleftrightarrow> ignored it (iterator_index it)"
  by (auto simp: in_consider_rect_def considered_def in_ignore_rect_def ignored_def iterator_index_def)

text \<open>The tiles to visit, and those of them that are still ahead.\<close>

definition wanted :: "'a difference_iterator_scheme \<Rightarrow> int \<times> int \<Rightarrow> bool" where
  "wanted it p \<longleftrightarrow> considered it p \<and> \<not> ignored it p"

lemma wanted_steps [simp]: "wanted (take_steps n it) = wanted it"
  by (simp add: wanted_def fun_eq_iff)

lemma wanted_advance [simp]: "wanted (spiral_advance it) = wanted it"
  by (simp add: wanted_def fun_eq_iff)

definition ahead :: "int \<Rightarrow> int \<Rightarrow> int \<Rightarrow> int \<Rightarrow> spiral_iterator \<Rightarrow> int \<times> int \<Rightarrow> bool" where
  "ahead l t r b it p \<longleftrightarrow>
     wanted it p \<and> 0 < ring l t r b p \<and>
     spiral_key l t r b (iterator_index it) < spiral_key l t r b p"

lemma ahead_advance:
  assumes "l \<le> r" and "t \<le> b" and "spiral_at l t r b k it"
  shows "ahead l t r b it p \<longleftrightarrow>
    (p = iterator_index (spiral_advance it) \<and> wanted it p) \<or> ahead l t r b (spiral_advance it) p"
  using spiral_succD(2) [OF spiral_advance_at(2) [OF assms], of p] spiral_succD(1) [OF spiral_advance_at(2) [OF assms]]
  by (auto simp: ahead_def)

text \<open>Steps along a side, none of which reaches a tile to visit.\<close>

lemma steps_at:
  assumes "spiral_at l t r b k it" and "0 \<le> n" and "n \<le> current_step_count it - current_step it"
  shows "spiral_at l t r b k (take_steps n it)"
  using assms
  by (cases "direction it") (auto simp: spiral_at_def take_steps_def current_step_count_def)

lemma take_steps_Suc: "take_steps 1 (take_steps n it) = take_steps (n + 1) it"
  by (simp add: take_steps_def algebra_simps)

lemma ahead_steps:
  assumes lr: "l \<le> r" and tb: "t \<le> b" and "spiral_at l t r b k it"
    and "int n \<le> current_step_count it - current_step it"
    and "\<And>i. 1 \<le> i \<Longrightarrow> i \<le> int n \<Longrightarrow> \<not> wanted it (iterator_index (take_steps i it))"
  shows "ahead l t r b it p \<longleftrightarrow> ahead l t r b (take_steps (int n) it) p"
  using assms(4,5)
proof (induction n)
  case 0
  then show ?case by (simp add: take_steps_def)
next
  case (Suc n)
  let ?it = "take_steps (int n) it"
  have pos: "spiral_at l t r b k ?it" using steps_at [OF assms(3)] Suc.prems(1) by simp
  have "spiral_advance ?it = take_steps (int (Suc n)) it"
    using Suc.prems(1)
    by (simp add: spiral_advance_def needs_direction_switch_def take_steps_Suc algebra_simps)
  moreover have "ahead l t r b it p \<longleftrightarrow> ahead l t r b ?it p" using Suc by simp
  ultimately show ?case
    using ahead_advance [OF lr tb pos, of p] Suc.prems(2) [of "int (Suc n)"] by auto
qed

section \<open>The loop of SpiralDifferenceIterator\<close>

text \<open>The rectangles of an iterator, which no step changes.\<close>

definition rects :: "'a difference_iterator_scheme \<Rightarrow> (int \<times> int \<times> int \<times> int) \<times> (int \<times> int \<times> int \<times> int)" where
  "rects it =
     ((consider_left it, consider_top it, consider_right it, consider_bottom it),
      (ignore_left it, ignore_top it, ignore_right it, ignore_bottom it))"

lemma same_rects:
  assumes "rects it' = rects it"
  shows "considered it' = considered it" and "ignored it' = ignored it" and "wanted it' = wanted it"
    and "consider_left it' = consider_left it" and "consider_top it' = consider_top it"
    and "consider_right it' = consider_right it" and "consider_bottom it' = consider_bottom it"
  using assms by (auto simp: rects_def considered_def ignored_def wanted_def fun_eq_iff)

lemma rects_steps [simp]: "rects (take_steps n it) = rects it"
  by (simp add: rects_def)

lemma rects_advance [simp]: "rects (spiral_advance it) = rects it"
  by (simp add: rects_def)

text \<open>
  What a call of \<open>operator++\<close> shall return: a finished iterator when nothing is ahead, otherwise one
  at the first tile to visit.
\<close>

definition spiral_result :: "int \<Rightarrow> int \<Rightarrow> int \<Rightarrow> int \<Rightarrow> spiral_iterator \<Rightarrow> spiral_iterator \<Rightarrow> bool" where
  "spiral_result l t r b it it' \<longleftrightarrow>
     rects it' = rects it \<and>
     (if iterator_ok it'
      then (\<exists>k. spiral_at l t r b k it') \<and> ahead l t r b it (iterator_index it') \<and>
           (\<forall>p. ahead l t r b it p \<longleftrightarrow> p = iterator_index it' \<or> ahead l t r b it' p)
      else (\<forall>p. \<not> ahead l t r b it p))"

text \<open>The jump that one round of the loop takes after its first step.\<close>

definition spiral_jump :: "'a spiral_iterator_scheme \<Rightarrow> int" where
  "spiral_jump it =
     (let max_steps = current_step_count it - current_step it
      in min (if in_consider_rect it then steps_to_edge it else steps_outside max_steps it) max_steps)"

definition moving :: "'a spiral_iterator_scheme \<Rightarrow> bool" where
  "moving it \<longleftrightarrow>
     current_step it \<le> current_step_count it \<and>
     (delta_x it, delta_y it) =
       (case direction it of UP \<Rightarrow> (0, -1) | LEFT \<Rightarrow> (-1, 0) | DOWN \<Rightarrow> (0, 1) | RIGHT \<Rightarrow> (1, 0))"

lemma spiral_at_moving: "spiral_at l t r b k it \<Longrightarrow> moving it"
  by (cases "direction it") (simp_all add: spiral_at_def moving_def)

lemma spiral_jump_bounds:
  assumes "moving it" and "in_consider_rect it \<longrightarrow> in_ignore_rect it"
  shows "0 \<le> spiral_jump it" and "spiral_jump it \<le> current_step_count it - current_step it"
  using assms
  by (auto simp: spiral_jump_def Let_def moving_def steps_to_edge_def steps_outside_def
      in_ignore_rect_def split: direction.splits)

lemma spiral_jump_unwanted:
  assumes "moving it" and "in_consider_rect it \<longrightarrow> in_ignore_rect it"
    and "1 \<le> i" and "i \<le> spiral_jump it"
  shows "\<not> wanted it (iterator_index (take_steps i it))"
proof (cases "in_consider_rect it")
  case True
  then have "ignored it (iterator_index (take_steps i it))"
    using assms
    by (auto simp: spiral_jump_def Let_def moving_def steps_to_edge_def in_ignore_rect_def ignored_def
        iterator_index_def take_steps_def split: direction.splits)
  then show ?thesis by (simp add: wanted_def)
next
  case False
  then have "\<not> considered it (iterator_index (take_steps i it))"
    using assms
    by (auto simp: spiral_jump_def Let_def moving_def steps_outside_def in_consider_rect_def considered_def
        valid_column_def valid_row_def iterator_index_def take_steps_def split: direction.splits if_splits)
  then show ?thesis by (simp add: wanted_def)
qed

text \<open>One round of the loop.\<close>

lemma spiral_loop_round:
  assumes pos: "spiral_at l t r b k it" and lr: "l \<le> r" and tb: "t \<le> b" and c: "c < 4"
  defines "it1 \<equiv> spiral_advance it"
  shows "spiral_loop c it =
    (if in_consider_rect it1 \<and> \<not> in_ignore_rect it1 then Some it1
     else spiral_loop (if in_consider_rect it1 \<or> can_hit_consider_rect it1 then 0 else c + 1)
            (take_steps (spiral_jump it1) it1))"
proof -
  note pos1 = spiral_advance_at(1) [OF lr tb pos, folded it1_def]
  show ?thesis
    using c spiral_jump_bounds(1) [OF spiral_at_moving [OF pos1]]
    by (subst spiral_loop.simps)
      (auto simp: Let_def spiral_jump_def simp flip: it1_def [unfolded spiral_advance_def])
qed


text \<open>What the round leaves to visit.\<close>

lemma spiral_round_result:
  assumes lr: "l \<le> r" and tb: "t \<le> b" and pos: "spiral_at l t r b k it"
  defines "it1 \<equiv> spiral_advance it"
  shows "in_consider_rect it1 \<Longrightarrow> \<not> in_ignore_rect it1 \<Longrightarrow> 0 \<le> consider_left it \<Longrightarrow>
      0 \<le> consider_top it \<Longrightarrow> spiral_result l t r b it it1"
    and "in_consider_rect it1 \<longrightarrow> in_ignore_rect it1 \<Longrightarrow>
      spiral_at l t r b (next_ring k it) (take_steps (spiral_jump it1) it1)"
    and "in_consider_rect it1 \<longrightarrow> in_ignore_rect it1 \<Longrightarrow>
      ahead l t r b it p \<longleftrightarrow> ahead l t r b (take_steps (spiral_jump it1) it1) p"
    and "in_consider_rect it1 \<longrightarrow> in_ignore_rect it1 \<Longrightarrow>
      spiral_result l t r b (take_steps (spiral_jump it1) it1) it' \<Longrightarrow> spiral_result l t r b it it'"
proof -
  note pos1 = spiral_advance_at(1) [OF lr tb pos, folded it1_def]
  note here = ahead_advance [OF lr tb pos, folded it1_def]
  have same: "rects it1 = rects it" "considered it1 = considered it" "ignored it1 = ignored it"
    "wanted it1 = wanted it" by (simp_all add: it1_def)
  show "spiral_result l t r b it it1" if w: "in_consider_rect it1" "\<not> in_ignore_rect it1"
    "0 \<le> consider_left it" "0 \<le> consider_top it"
  proof -
    have "wanted it (iterator_index it1)" using w by (simp add: in_rects wanted_def same)
    moreover have "iterator_ok it1" using w by (auto simp: in_consider_rect_def it1_def iterator_ok_def)
    ultimately show ?thesis using here pos1 same unfolding spiral_result_def by auto
  qed
  assume u: "in_consider_rect it1 \<longrightarrow> in_ignore_rect it1"
  note j = spiral_jump_bounds [OF spiral_at_moving [OF pos1] u]
  show "spiral_at l t r b (next_ring k it) (take_steps (spiral_jump it1) it1)"
    by (rule steps_at [OF pos1 j])
  have n: "spiral_jump it1 = int (nat (spiral_jump it1))" using j by simp
  have "\<not> wanted it (iterator_index it1)" using u by (simp add: in_rects wanted_def same)
  then have eq: "ahead l t r b it p \<longleftrightarrow> ahead l t r b (take_steps (spiral_jump it1) it1) p" for p
    using here [of p] ahead_steps [OF lr tb pos1, of "nat (spiral_jump it1)" p] n j
      spiral_jump_unwanted [OF spiral_at_moving [OF pos1] u] by auto
  then show "ahead l t r b it p \<longleftrightarrow> ahead l t r b (take_steps (spiral_jump it1) it1) p" .
  show "spiral_result l t r b it it'" if "spiral_result l t r b (take_steps (spiral_jump it1) it1) it'"
    using that by (simp add: spiral_result_def eq same)
qed

section \<open>When the spiral can stop\<close>

text \<open>The most recent side of each direction is past the rectangle to consider.\<close>

definition passed :: "int \<Rightarrow> int \<Rightarrow> int \<Rightarrow> int \<Rightarrow> int \<Rightarrow> spiral_iterator \<Rightarrow> direction \<Rightarrow> bool" where
  "passed l t r b k it d \<longleftrightarrow>
     (case d of
        UP \<Rightarrow> consider_right it < r + k
      | LEFT \<Rightarrow> consider_top it > (if direction it = UP then t - k + 1 else t - k)
      | DOWN \<Rightarrow> consider_left it > (if direction it = UP \<or> direction it = LEFT then l - k + 1 else l - k)
      | RIGHT \<Rightarrow> consider_bottom it < (if direction it = RIGHT then b + k else b + k - 1))"

fun previous_direction :: "direction \<Rightarrow> direction" where
  "previous_direction UP = RIGHT"
| "previous_direction LEFT = UP"
| "previous_direction DOWN = LEFT"
| "previous_direction RIGHT = DOWN"

text \<open>The count of sides that could not meet it is right.\<close>

definition stuck :: "int \<Rightarrow> int \<Rightarrow> int \<Rightarrow> int \<Rightarrow> int \<Rightarrow> spiral_iterator \<Rightarrow> nat \<Rightarrow> bool" where
  "stuck l t r b k it c \<longleftrightarrow>
     c \<le> 4 \<and> (0 < c \<longrightarrow> needs_direction_switch it) \<and>
     (0 < c \<longrightarrow> passed l t r b k it (direction it)) \<and>
     (1 < c \<longrightarrow> passed l t r b k it (previous_direction (direction it))) \<and>
     (2 < c \<longrightarrow> passed l t r b k it (previous_direction (previous_direction (direction it)))) \<and>
     (3 < c \<longrightarrow> passed l t r b k it (previous_direction (previous_direction (previous_direction (direction it)))))"

lemma stuck_0: "stuck l t r b k it 0"
  by (simp add: stuck_def)

lemma stuck_round:
  assumes pos: "spiral_at l t r b k it" and lr: "l \<le> r" and tb: "t \<le> b" and c: "c < 4"
    and st: "stuck l t r b k it c"
  defines "it1 \<equiv> spiral_advance it"
  assumes out: "\<not> in_consider_rect it1" and no: "\<not> can_hit_consider_rect it1"
  shows "stuck l t r b (next_ring k it) (take_steps (spiral_jump it1) it1) (c + 1)"
proof -
  note pos1 = spiral_advance_at(1) [OF lr tb pos, folded it1_def]
  have "steps_outside n it1 = n" for n
    using no by (auto simp: steps_outside_def can_hit_consider_rect_def valid_column_def valid_row_def
        split: direction.splits)
  then have switch: "needs_direction_switch (take_steps (spiral_jump it1) it1)"
    using out by (simp add: spiral_jump_def Let_def needs_direction_switch_def)
  have here: "passed l t r b (next_ring k it) it1 (direction it1)"
    using no pos1 by (auto simp: can_hit_consider_rect_def passed_def spiral_at_def split: direction.splits)
  have dir: "direction it1 = (if needs_direction_switch it then next_direction (direction it) else direction it)"
    by (simp add: it1_def spiral_advance_def switch_direction_def Let_def)
  have keep: "passed l t r b (next_ring k it) it1 d" if "passed l t r b k it d" "needs_direction_switch it" for d
    using that dir by (cases d; cases "direction it") (auto simp: passed_def next_ring_def it1_def)
  have prev: "previous_direction (next_direction d) = d" for d by (cases d) simp_all
  have pass: "passed l t r b k' (take_steps n it1) d \<longleftrightarrow> passed l t r b k' it1 d" for k' n d
    by (cases d) (simp_all add: passed_def)
  show ?thesis
  proof (cases "c = 0")
    case True
    then show ?thesis using switch here by (simp add: stuck_def pass)
  next
    case False
    then have "needs_direction_switch it" using st by (simp add: stuck_def)
    then show ?thesis
      using st switch here c keep dir unfolding stuck_def pass by (auto simp: prev)
  qed
qed

text \<open>After four such sides nothing is left.\<close>

lemma stuck_done:
  assumes pos: "spiral_at l t r b k it" and lr: "l \<le> r" and tb: "t \<le> b"
    and st: "stuck l t r b k it 4"
  shows "\<not> ahead l t r b it p"
proof
  assume a: "ahead l t r b it p"
  have all: "passed l t r b k it d" for d
    using st by (cases d; cases "direction it") (auto simp: stuck_def)
  have cp: "considered it p" using a by (simp add: ahead_def wanted_def)
  have "ring l t r b p \<le> max 0 (k - 1)"
    using cp all [of UP] all [of LEFT] all [of DOWN] all [of RIGHT]
    by (auto simp: considered_def ring_def passed_def split: if_splits)
  moreover have "k \<le> ring l t r b (iterator_index it)"
    using pos by (cases "direction it") (auto simp: spiral_at_def ring_def iterator_index_def)
  moreover have "ring l t r b (iterator_index it) \<le> ring l t r b p" "0 < ring l t r b p"
    using a key_less_ring by (auto simp: ahead_def)
  ultimately show False by linarith
qed


section \<open>The loop returns\<close>

definition reaches :: "int \<Rightarrow> int \<Rightarrow> int \<Rightarrow> int \<Rightarrow> int \<Rightarrow> spiral_iterator \<Rightarrow> bool" where
  "reaches l t r b n it \<longleftrightarrow>
     0 \<le> n \<and> l - n \<le> consider_left it \<and> t - n \<le> consider_top it \<and>
     consider_right it \<le> r + n \<and> consider_bottom it \<le> b + n"

lemma reaches_unchanged [simp]:
  "reaches l t r b n (take_steps m it) = reaches l t r b n it"
  "reaches l t r b n (spiral_advance it) = reaches l t r b n it"
  by (simp_all add: reaches_def)

lemma reaches_ring: "reaches l t r b n it \<Longrightarrow> considered it p \<Longrightarrow> ring l t r b p \<le> n"
  by (auto simp: reaches_def considered_def ring_def)

lemma ring_index:
  assumes "spiral_at l t r b k it"
  shows "k \<le> ring l t r b (iterator_index it)"
  using assms by (cases "direction it") (auto simp: spiral_at_def ring_def iterator_index_def)

lemma beyond_not_ahead:
  assumes "spiral_at l t r b k it" and "reaches l t r b n it" and "n < k"
  shows "\<not> ahead l t r b it p"
  using ring_index [OF assms(1)] reaches_ring [OF assms(2), of p] assms(3)
    key_less_ring [of l t r b "iterator_index it" p]
  by (auto simp: ahead_def wanted_def)

lemma done_result:
  assumes "\<And>p. \<not> ahead l t r b it p"
  shows "spiral_result l t r b it (iterator_done it)"
  using assms
  by (simp add: spiral_result_def iterator_done_def iterator_ok_def rects_def)

text \<open>Past the rectangle every round counts, and the fourth is the last.\<close>

lemma spiral_loop_beyond:
  assumes lr: "l \<le> r" and tb: "t \<le> b"
  shows "spiral_at l t r b k it \<Longrightarrow> reaches l t r b n it \<Longrightarrow> n < k \<Longrightarrow> c \<le> 4 \<Longrightarrow>
    \<exists>it'. spiral_loop c it = Some it' \<and> spiral_result l t r b it it'"
proof (induction "4 - c" arbitrary: c k it)
  case 0
  then show ?case
    using done_result beyond_not_ahead by (subst spiral_loop.simps) auto
next
  case (Suc d)
  let ?it1 = "spiral_advance it"
  let ?k = "next_ring k it"
  have c: "c < 4" using Suc.hyps(2) by simp
  note pos = Suc.prems(1) and reach = Suc.prems(2)
  have k: "n < ?k" using Suc.prems(3) by (simp add: next_ring_def)
  note pos1 = spiral_advance_at(1) [OF lr tb pos]
  have out: "\<not> in_consider_rect ?it1"
    using reaches_ring [OF reach, of "iterator_index ?it1"] ring_index [OF pos1] k by (auto simp: in_rects)
  have no: "\<not> can_hit_consider_rect ?it1"
    using pos1 k reach
    by (auto simp: can_hit_consider_rect_def spiral_at_def reaches_def split: direction.splits)
  let ?it2 = "take_steps (spiral_jump ?it1) ?it1"
  have u: "in_consider_rect ?it1 \<longrightarrow> in_ignore_rect ?it1" using out by simp
  have "\<exists>it'. spiral_loop (c + 1) ?it2 = Some it' \<and> spiral_result l t r b ?it2 it'"
    using Suc.hyps(1) [OF _ spiral_round_result(2) [OF lr tb pos u] _ k] Suc.hyps(2) reach by simp
  then show ?case
    using spiral_loop_round [OF pos lr tb c] out no spiral_round_result(4) [OF lr tb pos u] by auto
qed

text \<open>Before, every round comes closer to the last ring.\<close>

fun side :: "direction \<Rightarrow> nat" where
  "side UP = 0" | "side LEFT = 1" | "side DOWN = 2" | "side RIGHT = 3"

definition spiral_rounds :: "int \<Rightarrow> int \<Rightarrow> spiral_iterator \<Rightarrow> nat \<times> nat \<times> nat" where
  "spiral_rounds n k it =
     (nat (n + 1 - k), 3 - side (direction it), nat (current_step_count it - current_step it))"

lemma rounds_decrease:
  assumes pos: "spiral_at l t r b k it" and k: "k \<le> n" and lr: "l \<le> r" and tb: "t \<le> b" and m: "0 \<le> m"
  shows "spiral_rounds n (next_ring k it) (take_steps m (spiral_advance it)) < spiral_rounds n k it"
proof (cases "needs_direction_switch it")
  case True
  then show ?thesis
    using k by (cases "direction it")
      (auto simp: spiral_rounds_def next_ring_def spiral_advance_def switch_direction_def Let_def)
next
  case False
  then show ?thesis
    using m by (auto simp: spiral_rounds_def next_ring_def spiral_advance_def needs_direction_switch_def)
qed

lemma spiral_loop_returns:
  assumes lr: "l \<le> r" and tb: "t \<le> b"
  shows "spiral_at l t r b k it \<Longrightarrow> reaches l t r b n it \<Longrightarrow> 0 \<le> consider_left it \<Longrightarrow> 0 \<le> consider_top it \<Longrightarrow>
    stuck l t r b k it c \<Longrightarrow> \<exists>it'. spiral_loop c it = Some it' \<and> spiral_result l t r b it it'"
proof (induction "spiral_rounds n k it" arbitrary: c k it rule: less_induct)
  case less
  note pos = less.prems(1) and reach = less.prems(2) and nonneg = less.prems(3,4) and st = less.prems(5)
  have c4: "c \<le> 4" using st by (simp add: stuck_def)
  consider "c = 4" | "c < 4" "n < k" | "c < 4" "k \<le> n" using c4 by linarith
  then show ?case
  proof cases
    case 1
    then show ?thesis
      using done_result stuck_done [OF pos lr tb] st by (subst spiral_loop.simps) auto
  next
    case 2
    then show ?thesis using spiral_loop_beyond [OF lr tb pos reach] by simp
  next
    case 3
    let ?it1 = "spiral_advance it"
    let ?it2 = "take_steps (spiral_jump ?it1) ?it1"
    note round = spiral_loop_round [OF pos lr tb 3(1)]
    show ?thesis
    proof (cases "in_consider_rect ?it1 \<longrightarrow> in_ignore_rect ?it1")
      case False
      then show ?thesis using round spiral_round_result(1) [OF lr tb pos] nonneg by auto
    next
      case u: True
      note pos1 = spiral_advance_at(1) [OF lr tb pos]
      note j = spiral_jump_bounds(1) [OF spiral_at_moving [OF pos1] u]
      define c' where "c' = (if in_consider_rect ?it1 \<or> can_hit_consider_rect ?it1 then 0 else c + 1)"
      have "stuck l t r b (next_ring k it) ?it2 c'"
        unfolding c'_def using stuck_0 stuck_round [OF pos lr tb 3(1) st] by auto
      then have "\<exists>it'. spiral_loop c' ?it2 = Some it' \<and> spiral_result l t r b ?it2 it'"
        using less.hyps [OF rounds_decrease [OF pos 3(2) lr tb j] spiral_round_result(2) [OF lr tb pos u]]
          reach nonneg by simp
      then show ?thesis
        using round u spiral_round_result(4) [OF lr tb pos u] unfolding c'_def by auto
    qed
  qed
qed

section \<open>Walks with partial steps\<close>

text \<open>The contract of an iterator whose step may fail: on a well-formed one it does not.\<close>

locale partial_tile_walk =
  fixes ok :: "'s \<Rightarrow> bool"
    and step :: "'s \<Rightarrow> 's option"
    and tile :: "'s \<Rightarrow> 't"
    and wf :: "'s \<Rightarrow> bool"
    and left :: "'s \<Rightarrow> 't list"
  assumes left_done: "wf s \<Longrightarrow> \<not> ok s \<Longrightarrow> left s = []"
    and left_step: "wf s \<Longrightarrow> ok s \<Longrightarrow> \<exists>s'. step s = Some s' \<and> wf s' \<and> left s = tile s # left s'"
begin

lemma walk_left: "wf s \<Longrightarrow> length (left s) \<le> fuel \<Longrightarrow> walk_partial ok step tile fuel s = Some (left s)"
proof (induction fuel arbitrary: s)
  case 0
  then show ?case using left_step [of s] left_done [of s] by auto
next
  case (Suc fuel)
  show ?case
  proof (cases "ok s")
    case True
    then obtain s' where "step s = Some s'" "wf s'" "left s = tile s # left s'"
      using left_step Suc.prems(1) by blast
    then show ?thesis using True Suc by simp
  next
    case False
    then show ?thesis using left_done Suc.prems(1) by simp
  qed
qed

end

text \<open>An iterator whose step is total is one of them.\<close>

sublocale tile_walk \<subseteq> total_step: partial_tile_walk ok "\<lambda>s. Some (step s)" tile wf left
  by unfold_locales (use left_done left_step wf_step in auto)

text \<open>Lists in the order of a key.\<close>

lemma sort_key_unique:
  assumes "inj_on f (set xs)" and "set xs = set ys" and "distinct xs" and "distinct ys"
    and "sorted (map f ys)"
  shows "sort_key f xs = ys"
  by (rule map_sorted_distinct_set_unique [of f]) (use assms in \<open>auto simp: distinct_map\<close>)

lemma sort_key_first:
  assumes inj: "inj_on f {q. P q}" and xs: "distinct xs" "p \<in> set xs"
    and P: "\<And>q. P q \<longleftrightarrow> q = p \<or> P' q" and less: "\<And>q. P' q \<Longrightarrow> f p < f q"
  shows "sort_key f (filter P xs) = p # sort_key f (filter P' xs)"
proof (rule sort_key_unique)
  show "inj_on f (set (filter P xs))" using inj by (rule inj_on_subset) auto
  show "set (filter P xs) = set (p # sort_key f (filter P' xs))" using xs P by auto
  show "distinct (p # sort_key f (filter P' xs))" using xs(1) less by auto
  show "sorted (map f (p # sort_key f (filter P' xs)))" using less by (auto simp: less_imp_le)
qed (use xs in simp)

lemma sort_key_last:
  assumes inj: "inj_on f {q. P q}" and xs: "distinct xs" "p \<in> set xs"
    and P: "\<And>q. P q \<longleftrightarrow> q = p \<or> P' q" and less: "\<And>q. P' q \<Longrightarrow> f q < f p"
  shows "sort_key f (filter P xs) = sort_key f (filter P' xs) @ [p]"
proof (rule sort_key_unique)
  show "inj_on f (set (filter P xs))" using inj by (rule inj_on_subset) auto
  show "set (filter P xs) = set (sort_key f (filter P' xs) @ [p])" using xs P by auto
  show "distinct (sort_key f (filter P' xs) @ [p])" using xs(1) less by auto
  show "sorted (map f (sort_key f (filter P' xs) @ [p]))" using less by (auto simp: sorted_append less_imp_le)
qed (use xs in simp)

text \<open>The tiles of a rectangle that satisfy a condition, in the order of the spiral.\<close>

definition considered_tiles :: "'a difference_iterator_scheme \<Rightarrow> (int \<times> int) list" where
  "considered_tiles it =
     rows (consider_left it) (consider_right it) (consider_top it) (consider_bottom it)"

lemma considered_tiles: "p \<in> set (considered_tiles it) \<longleftrightarrow> considered it p" "distinct (considered_tiles it)"
  by (auto simp: considered_tiles_def considered_def distinct_rows)

lemma rects_tiles: "rects it' = rects it \<Longrightarrow> considered_tiles it' = considered_tiles it"
  by (simp add: considered_tiles_def rects_def)

section \<open>What SpiralDifferenceIterator visits\<close>

definition spiral_wf :: "int \<Rightarrow> int \<Rightarrow> int \<Rightarrow> int \<Rightarrow> spiral_iterator \<Rightarrow> bool" where
  "spiral_wf l t r b it \<longleftrightarrow>
     l \<le> r \<and> t \<le> b \<and> 0 \<le> consider_left it \<and> 0 \<le> consider_top it \<and>
     (iterator_ok it \<longrightarrow> (\<exists>k. spiral_at l t r b k it))"

definition spiral_ahead :: "int \<Rightarrow> int \<Rightarrow> int \<Rightarrow> int \<Rightarrow> spiral_iterator \<Rightarrow> (int \<times> int) list" where
  "spiral_ahead l t r b it = sort_key (spiral_key l t r b) (filter (ahead l t r b it) (considered_tiles it))"

definition spiral_left :: "int \<Rightarrow> int \<Rightarrow> int \<Rightarrow> int \<Rightarrow> spiral_iterator \<Rightarrow> (int \<times> int) list" where
  "spiral_left l t r b it = (if iterator_ok it then iterator_index it # spiral_ahead l t r b it else [])"

lemma reaches_some: "\<exists>n. reaches l t r b n it"
proof
  show "reaches l t r b (max 0 (max (max (l - consider_left it) (t - consider_top it))
      (max (consider_right it - r) (consider_bottom it - b)))) it"
    by (auto simp: reaches_def)
qed

lemma spiral_next_left:
  assumes lr: "l \<le> r" and tb: "t \<le> b" and pos: "spiral_at l t r b k it"
    and nonneg: "0 \<le> consider_left it" "0 \<le> consider_top it"
  shows "\<exists>it'. SpiralDifferenceIterator_next it = Some it' \<and> spiral_wf l t r b it' \<and>
    spiral_ahead l t r b it = spiral_left l t r b it'"
proof -
  obtain n where "reaches l t r b n it" using reaches_some by blast
  then obtain it' where step: "spiral_loop 0 it = Some it'" and res: "spiral_result l t r b it it'"
    using spiral_loop_returns [OF lr tb pos _ nonneg stuck_0] by blast
  have rects: "rects it' = rects it" using res by (simp add: spiral_result_def)
  have "spiral_ahead l t r b it = spiral_left l t r b it'"
  proof (cases "iterator_ok it'")
    case True
    then have a: "ahead l t r b it (iterator_index it')"
      "\<And>p. ahead l t r b it p \<longleftrightarrow> p = iterator_index it' \<or> ahead l t r b it' p"
      using res by (simp_all add: spiral_result_def del: split_paired_All)
    have inj: "inj_on (spiral_key l t r b) {p. ahead l t r b it p}"
      using key_inj [OF lr tb] by (intro inj_onI) (simp add: ahead_def)
    have "iterator_index it' \<in> set (considered_tiles it)"
      using a(1) by (simp add: considered_tiles ahead_def wanted_def)
    then have "sort_key (spiral_key l t r b) (filter (ahead l t r b it) (considered_tiles it)) =
        iterator_index it' # sort_key (spiral_key l t r b) (filter (ahead l t r b it') (considered_tiles it))"
      by (intro sort_key_first [OF inj considered_tiles(2) _ a(2)]) (simp_all add: ahead_def)
    then show ?thesis using True rects_tiles [OF rects] by (simp add: spiral_ahead_def spiral_left_def)
  next
    case False
    then have "filter (ahead l t r b it) (considered_tiles it) = []"
      using res by (auto simp: spiral_result_def filter_empty_conv)
    then show ?thesis using False by (simp add: spiral_ahead_def spiral_left_def)
  qed
  moreover have "spiral_wf l t r b it'"
    using res lr tb nonneg same_rects(4,5) [OF rects] by (simp add: spiral_wf_def spiral_result_def)
  ultimately show ?thesis using step by (auto simp: SpiralDifferenceIterator_next_def)
qed

interpretation spiral: partial_tile_walk iterator_ok SpiralDifferenceIterator_next iterator_index
    "spiral_wf l t r b" "spiral_left l t r b" for l t r b
proof unfold_locales
  fix it
  show "\<not> iterator_ok it \<Longrightarrow> spiral_left l t r b it = []" by (simp add: spiral_left_def)
  assume "spiral_wf l t r b it" and ok: "iterator_ok it"
  then obtain k where "l \<le> r" "t \<le> b" "spiral_at l t r b k it" "0 \<le> consider_left it" "0 \<le> consider_top it"
    by (auto simp: spiral_wf_def)
  then show "\<exists>it'. SpiralDifferenceIterator_next it = Some it' \<and> spiral_wf l t r b it' \<and>
      spiral_left l t r b it = iterator_index it # spiral_left l t r b it'"
    using spiral_next_left [of l r t b k it] ok by (auto simp: spiral_left_def)
qed

section \<open>The centre\<close>

lemma around_index_meets:
  assumes ax: "axis_ok m s bd n" and i: "0 \<le> i" "i < n"
  shows "around_index (tile_index m bd n) n s center c \<le> i \<longleftrightarrow> Rect_IsEmpty center \<or> c < tile_hi m s bd n i"
    and "i \<le> around_index (tile_index m bd n) n s center c \<longleftrightarrow> \<not> Rect_IsEmpty center \<and> tile_lo m bd i \<le> c"
proof -
  note h = tile_chain(4-6) [OF ax i]
  consider "c < 0 \<or> Rect_IsEmpty center" | "0 \<le> c" "s \<le> c" "\<not> Rect_IsEmpty center"
    | "0 \<le> c" "c < s" "\<not> Rect_IsEmpty center" by linarith
  then have "(around_index (tile_index m bd n) n s center c \<le> i \<longleftrightarrow> Rect_IsEmpty center \<or> c < tile_hi m s bd n i) \<and>
    (i \<le> around_index (tile_index m bd n) n s center c \<longleftrightarrow> \<not> Rect_IsEmpty center \<and> tile_lo m bd i \<le> c)"
  proof cases
    case 1
    then show ?thesis using h i by (auto simp: around_index_def)
  next
    case 2
    then show ?thesis using h i by (auto simp: around_index_def)
  next
    case 3
    then show ?thesis using tile_index_le_iff [OF ax i 3(1,2)] by (simp add: around_index_def)
  qed
  then show "around_index (tile_index m bd n) n s center c \<le> i \<longleftrightarrow> Rect_IsEmpty center \<or> c < tile_hi m s bd n i"
    "i \<le> around_index (tile_index m bd n) n s center c \<longleftrightarrow> \<not> Rect_IsEmpty center \<and> tile_lo m bd i \<le> c"
    by blast+
qed

lemma around_index_mono:
  assumes ax: "axis_ok m s bd n" and "c \<le> c'"
  shows "around_index (tile_index m bd n) n s center c \<le> around_index (tile_index m bd n) n s center c'"
  using assms(2) tile_index_mono [OF ax, of c c'] tile_index_range [OF ax, of c] tile_index_range [OF ax, of c']
  by (auto simp: around_index_def)

text \<open>The edges of the centre in tile indices, and the order of the tiles around it.\<close>

definition center_ring :: "tiling_data \<Rightarrow> rect \<Rightarrow> int \<times> int \<Rightarrow> int" where
  "center_ring td center =
     ring (around_x td center (rect_x center)) (around_y td center (rect_y center))
       (around_x td center (rect_right center - 1)) (around_y td center (rect_bottom center - 1))"

definition center_key :: "tiling_data \<Rightarrow> rect \<Rightarrow> int \<times> int \<Rightarrow> int \<times> int \<times> int" where
  "center_key td center =
     spiral_key (around_x td center (rect_x center)) (around_y td center (rect_y center))
       (around_x td center (rect_right center - 1)) (around_y td center (rect_bottom center - 1))"

lemma center_edges:
  assumes ok: "tiling_ok td" and n: "0 < num_tiles_x td" "0 < num_tiles_y td" and r: "rect_ok center"
  shows "around_x td center (rect_x center) \<le> around_x td center (rect_right center - 1)"
    and "around_y td center (rect_y center) \<le> around_y td center (rect_bottom center - 1)"
proof -
  note ax = tiling_axes [OF ok n]
  have "(rect_x center \<le> rect_right center - 1 \<and> rect_y center \<le> rect_bottom center - 1) \<or> Rect_IsEmpty center"
    using r by (auto simp: rect_ok_def Rect_IsEmpty_def rect_edges)
  then show "around_x td center (rect_x center) \<le> around_x td center (rect_right center - 1)"
    "around_y td center (rect_y center) \<le> around_y td center (rect_bottom center - 1)"
    using around_index_mono [OF ax(1), of "rect_x center" "rect_right center - 1" center]
      around_index_mono [OF ax(2), of "rect_y center" "rect_bottom center - 1" center]
    by (auto simp: around_x_def around_y_def TileXIndexFromSrcCoord_def TileYIndexFromSrcCoord_def)
      (simp_all add: around_index_def)
qed

lemma center_ring_0:
  assumes ok: "tiling_ok td" and t: "is_tile td p" and r: "rect_ok center"
  shows "center_ring td center p = 0 \<longleftrightarrow> Rect_Intersects (tile_bounds td False p) center"
proof -
  obtain i j where p: "p = (i, j)" by (cases p)
  note ax = is_tile_axes [OF ok t [unfolded p]] and e = TileBounds_edges [OF ok t [unfolded p]]
  have i: "0 \<le> i" "i < num_tiles_x td" and j: "0 \<le> j" "j < num_tiles_y td"
    using t by (auto simp: is_tile_def p)
  have "center_ring td center p = 0 \<longleftrightarrow>
      around_x td center (rect_x center) \<le> i \<and> i \<le> around_x td center (rect_right center - 1) \<and>
      around_y td center (rect_y center) \<le> j \<and> j \<le> around_y td center (rect_bottom center - 1)"
    by (auto simp: center_ring_def ring_def p)
  also have "\<dots> \<longleftrightarrow> Rect_Intersects (TileBounds td i j) center"
    unfolding around_x_def around_y_def TileXIndexFromSrcCoord_def TileYIndexFromSrcCoord_def
      around_index_meets [OF ax(1) i] around_index_meets [OF ax(2) j]
    using e by (auto simp: Rect_Intersects_def)
  finally show ?thesis by (simp add: tile_bounds_def p)
qed


text \<open>The tiles to visit, in the order of the spiral.\<close>

definition spiral_tiles :: "tiling_data \<Rightarrow> rect \<Rightarrow> rect \<Rightarrow> rect \<Rightarrow> (int \<times> int) list" where
  "spiral_tiles td consider ignore center =
     sort_key (center_key td center)
       (filter (\<lambda>p. Rect_Intersects (tile_bounds td False p) consider \<and>
                    \<not> Rect_Intersects (tile_bounds td False p) ignore \<and>
                    \<not> Rect_Intersects (tile_bounds td False p) center) (all_tiles td))"

lemma spiral_tiles_length: "length (spiral_tiles td consider ignore center) \<le> length (all_tiles td)"
  by (simp add: spiral_tiles_def)

lemma base_considered_tile:
  assumes base: "base_ok td consider ignore it" and c: "HasConsiderRect it" "considered it p"
  shows "is_tile td p"
  using assms by (auto simp: base_ok_def considered_def is_tile_def difference_bounds_def)

lemma spiral_tiles_none:
  assumes "base_ok td consider ignore it" and "\<not> HasConsiderRect it"
  shows "spiral_tiles td consider ignore center = []"
proof -
  have "filter (\<lambda>p. Rect_Intersects (tile_bounds td False p) consider \<and>
      \<not> Rect_Intersects (tile_bounds td False p) ignore \<and>
      \<not> Rect_Intersects (tile_bounds td False p) center) (all_tiles td) = []"
    using assms by (auto simp: filter_empty_conv all_tiles_is_tile base_ok_def)
  then show ?thesis by (simp add: spiral_tiles_def)
qed

lemma spiral_tiles_considered:
  assumes ok: "tiling_ok td" and r: "rect_ok center" and base: "base_ok td consider ignore it"
    and c: "HasConsiderRect it"
    and Q: "\<And>p. Q p \<longleftrightarrow> wanted it p \<and> 0 < center_ring td center p"
  shows "sort_key (center_key td center) (filter Q (considered_tiles it)) = spiral_tiles td consider ignore center"
proof -
  have n: "0 < num_tiles_x td" "0 < num_tiles_y td"
    using base c by (auto simp: base_ok_def difference_bounds_def)
  note lr = center_edges [OF ok n r]
  have "center_ring td center p = 0 \<longleftrightarrow> Rect_Intersects (tile_bounds td False p) center" if "is_tile td p" for p
    by (rule center_ring_0 [OF ok that r])
  moreover have "0 \<le> center_ring td center p" for p by (simp add: center_ring_def ring_def)
  ultimately have ring: "0 < center_ring td center p \<longleftrightarrow> \<not> Rect_Intersects (tile_bounds td False p) center"
    if "is_tile td p" for p using that by (metis order_le_less order_less_irrefl)
  have wanted: "wanted it p \<longleftrightarrow> Rect_Intersects (tile_bounds td False p) consider \<and>
      \<not> Rect_Intersects (tile_bounds td False p) ignore" if "is_tile td p" for p
    using base c that by (simp add: base_ok_def wanted_def del: split_paired_All)
  show ?thesis
    unfolding spiral_tiles_def
  proof (rule sort_key_unique)
    show "inj_on (center_key td center) (set (filter Q (considered_tiles it)))"
      using key_inj [OF lr] by (intro inj_onI) (simp add: Q center_key_def center_ring_def)
    show "set (filter Q (considered_tiles it)) = set (sort_key (center_key td center)
        (filter (\<lambda>p. Rect_Intersects (tile_bounds td False p) consider \<and>
          \<not> Rect_Intersects (tile_bounds td False p) ignore \<and>
          \<not> Rect_Intersects (tile_bounds td False p) center) (all_tiles td)))"
    proof (intro set_eqI)
      fix p
      show "p \<in> set (filter Q (considered_tiles it)) \<longleftrightarrow> p \<in> set (sort_key (center_key td center)
        (filter (\<lambda>p. Rect_Intersects (tile_bounds td False p) consider \<and>
          \<not> Rect_Intersects (tile_bounds td False p) ignore \<and>
          \<not> Rect_Intersects (tile_bounds td False p) center) (all_tiles td)))"
      proof (cases "is_tile td p")
        case True
        have "wanted it p \<longrightarrow> considered it p" by (simp add: wanted_def)
        then show ?thesis using wanted [OF True] ring [OF True] True
          by (auto simp: considered_tiles all_tiles_is_tile Q)
      next
        case False
        then show ?thesis
          using base_considered_tile [OF base c, of p] by (auto simp: considered_tiles all_tiles_is_tile)
      qed
    qed
  qed (simp_all add: considered_tiles(2) all_tiles_def distinct_rows)
qed

text \<open>[C29]
  A loop over \<open>SpiralDifferenceIterator\<close> ends, no DCHECK fails, and it visits exactly the tiles that
  meet the rectangle to consider and meet neither the rectangle to ignore nor the centre, each once
  and in the order of a counterclockwise spiral around the centre, wherever the three rectangles
  are. In particular the iterator does not stop before it has seen the last of them.
\<close>

theorem SpiralDifferenceIterator_visits:
  assumes ok: "tiling_ok td" and r: "rect_ok consider" "rect_ok ignore" "rect_ok center"
    and fuel: "length (all_tiles td) \<le> fuel"
  shows "Option.bind (SpiralDifferenceIterator td consider ignore center)
       (walk_partial iterator_ok SpiralDifferenceIterator_next iterator_index fuel) =
     Some (spiral_tiles td consider ignore center)"
proof -
  define base where "base = BaseDifferenceIterator td consider ignore"
  note spec = BaseDifferenceIterator_ok [OF ok r(1,2), folded base_def]
  define l where "l = around_x td center (rect_x center)"
  define t where "t = around_y td center (rect_y center)"
  define r' where "r' = around_x td center (rect_right center - 1)"
  define b where "b = around_y td center (rect_bottom center - 1)"
  note edges = l_def [symmetric] t_def [symmetric] r'_def [symmetric] b_def [symmetric]
  define it where "it = difference_iterator.extend base (spiral_iterator.fields RIGHT 1 0 0 0 0)"
  have rects: "rects it = rects base" by (simp add: rects_def it_def difference_iterator.defs spiral_iterator.defs)
  have has: "HasConsiderRect it = HasConsiderRect base"
    by (simp add: HasConsiderRect_def it_def difference_iterator.defs)
  define it0 where "it0 = it\<lparr>vertical_step_count := b - t + 1, horizontal_step_count := r' - l + 1,
    current_step := r' - l, index_x := r', index_y := b\<rparr>"
  have start: "SpiralDifferenceIterator td consider ignore center =
      (if HasConsiderRect base then SpiralDifferenceIterator_next it0 else Some (iterator_done it))"
    by (simp add: SpiralDifferenceIterator_def Let_def edges flip: base_def it_def has) (simp add: it0_def)
  show ?thesis
  proof (cases "HasConsiderRect base")
    case False
    have "\<not> iterator_ok (iterator_done it)" by simp
    then show ?thesis using False spiral_tiles_none [OF spec] start by (cases fuel) simp_all
  next
    case True
    have n: "0 < num_tiles_x td" "0 < num_tiles_y td" and nonneg: "0 \<le> consider_left base" "0 \<le> consider_top base"
      using spec True by (auto simp: base_ok_def difference_bounds_def)
    note lr = center_edges [OF ok n r(3), unfolded edges]
    have rects0: "rects it0 = rects base" using rects by (simp add: rects_def it0_def)
    have pos: "spiral_at l t r' b 0 it0"
      using lr by (simp add: spiral_at_def it0_def it_def difference_iterator.defs spiral_iterator.defs current_step_count_def)
    obtain it' where step: "SpiralDifferenceIterator_next it0 = Some it'" and wf: "spiral_wf l t r' b it'"
      and left: "spiral_ahead l t r' b it0 = spiral_left l t r' b it'"
      using spiral_next_left [OF lr pos] nonneg same_rects(4,5) [OF rects0] by auto
    have key0: "spiral_key l t r' b (iterator_index it0) < spiral_key l t r' b p" if "0 < ring l t r' b p" for p
    proof -
      have "ring l t r' b (iterator_index it0) = 0"
        using lr by (simp add: ring_def iterator_index_def it0_def)
      then show ?thesis using that by (auto simp: spiral_key_def Let_def)
    qed
    have "spiral_ahead l t r' b it0 = sort_key (center_key td center) (filter (ahead l t r' b it0) (considered_tiles base))"
      unfolding spiral_ahead_def rects_tiles [OF rects0] by (simp add: center_key_def edges)
    also have "\<dots> = spiral_tiles td consider ignore center"
      by (rule spiral_tiles_considered [OF ok r(3) spec True])
        (use key0 in \<open>auto simp: ahead_def same_rects(3) [OF rects0] center_ring_def edges\<close>)
    finally have "spiral_left l t r' b it' = spiral_tiles td consider ignore center" using left by simp
    then show ?thesis
      using spiral.walk_left [OF wf, of fuel] fuel spiral_tiles_length [of td "consider" ignore center]
      by (simp add: start True step)
  qed
qed

section \<open>Positions of the reverse spiral\<close>

abbreviation around_ring :: "reverse_spiral_iterator \<Rightarrow> int \<times> int \<Rightarrow> int" where
  "around_ring it \<equiv> ring (around_left it) (around_top it) (around_right it) (around_bottom it)"

abbreviation around_key :: "reverse_spiral_iterator \<Rightarrow> int \<times> int \<Rightarrow> int \<times> int \<times> int" where
  "around_key it \<equiv> spiral_key (around_left it) (around_top it) (around_right it) (around_bottom it)"

definition around_ok :: "reverse_spiral_iterator \<Rightarrow> bool" where
  "around_ok it \<longleftrightarrow> around_left it \<le> around_right it \<and> around_top it \<le> around_bottom it"

definition reverse_at :: "int \<Rightarrow> reverse_spiral_iterator \<Rightarrow> bool" where
  "reverse_at k it \<longleftrightarrow>
     0 \<le> current_step it \<and> current_step it \<le> current_step_count it \<and>
     (let width = around_right it - around_left it; height = around_bottom it - around_top it
      in case direction it of
        LEFT \<Rightarrow> 0 \<le> k \<and> delta_x it = -1 \<and> delta_y it = 0 \<and>
              index_x it = around_right it + k + 1 - current_step it \<and> index_y it = around_bottom it + k \<and>
              horizontal_step_count it = width + 2 * k + 1 \<and> vertical_step_count it = height + 2 * k + 1
      | UP \<Rightarrow> 0 < k \<and> delta_x it = 0 \<and> delta_y it = -1 \<and>
              index_x it = around_left it - k \<and> index_y it = around_bottom it + k - current_step it \<and>
              horizontal_step_count it = width + 2 * k \<and> vertical_step_count it = height + 2 * k
      | RIGHT \<Rightarrow> 0 < k \<and> delta_x it = 1 \<and> delta_y it = 0 \<and>
              index_x it = around_left it - k + current_step it \<and> index_y it = around_top it - k \<and>
              horizontal_step_count it = width + 2 * k \<and> vertical_step_count it = height + 2 * k
      | DOWN \<Rightarrow> 0 < k \<and> delta_x it = 0 \<and> delta_y it = 1 \<and>
              index_x it = around_right it + k \<and> index_y it = around_top it - k + current_step it \<and>
              horizontal_step_count it = width + 2 * k - 1 \<and> vertical_step_count it = height + 2 * k - 1)"

lemma reverse_at_moving: "reverse_at k it \<Longrightarrow> moving it"
  by (cases "direction it") (simp_all add: reverse_at_def moving_def Let_def)

lemma in_around_ring: "in_around_rect it \<longleftrightarrow> around_ring it (iterator_index it) = 0"
  by (auto simp: in_around_rect_def ring_def iterator_index_def)

lemma ring_nonneg: "0 \<le> ring l t r b p"
  by (simp add: ring_def)

definition reverse_advance :: "reverse_spiral_iterator \<Rightarrow> reverse_spiral_iterator option" where
  "reverse_advance it =
     map_option (take_steps 1) (if needs_direction_switch it then reverse_switch_direction it else Some it)"

definition previous_ring :: "int \<Rightarrow> reverse_spiral_iterator \<Rightarrow> int" where
  "previous_ring k it = (if needs_direction_switch it \<and> direction it = DOWN then k - 1 else k)"

text \<open>The same fields of two iterators.\<close>

definition around_rects :: "reverse_spiral_iterator \<Rightarrow> _" where
  "around_rects it = (rects it, around_left it, around_top it, around_right it, around_bottom it)"

lemma around_rects_steps [simp]: "around_rects (take_steps n it) = around_rects it"
  by (simp add: around_rects_def rects_def take_steps_def)

lemma reverse_advance_rects: "reverse_advance it = Some it1 \<Longrightarrow> around_rects it1 = around_rects it"
  by (auto simp: reverse_advance_def reverse_switch_direction_def Let_def take_steps_def around_rects_def
      rects_def split: if_splits)

lemma reverse_advance_some:
  assumes ok: "around_ok it" and pos: "reverse_at k it" and out: "\<not> in_around_rect it"
  obtains it1 where "reverse_advance it = Some it1" and "reverse_at (previous_ring k it) it1"
    and "spiral_succ (around_left it) (around_top it) (around_right it) (around_bottom it)
      (iterator_index it1) (iterator_index it)"
proof -
  define l t r b where "l = around_left it" and "t = around_top it" and "r = around_right it" and "b = around_bottom it"
  have lr: "l \<le> r" "t \<le> b" using ok by (simp_all add: around_ok_def l_def r_def t_def b_def)
  note succ = spiral_succ_sides [OF lr]
  note defs = reverse_at_def reverse_advance_def previous_ring_def needs_direction_switch_def
    current_step_count_def reverse_switch_direction_def take_steps_def Let_def iterator_index_def
  note edges = l_def [symmetric] t_def [symmetric] r_def [symmetric] b_def [symmetric]
  have steps: "0 \<le> current_step it" "current_step it \<le> current_step_count it"
    using pos by (simp_all add: reverse_at_def)
  show thesis
  proof (cases "needs_direction_switch it")
    case False
    define it1 where "it1 = take_steps 1 it"
    have "reverse_advance it = Some it1" using False by (simp add: reverse_advance_def it1_def)
    moreover have "reverse_at (previous_ring k it) it1"
      using pos False lr by (cases "direction it") (auto simp: defs it1_def)
    moreover have "spiral_succ l t r b (iterator_index it1) (iterator_index it)"
    proof (cases "direction it")
      case LEFT
      have x: "iterator_index it1 = (index_x it - 1, b + k)" "iterator_index it = (index_x it - 1 + 1, b + k)"
        "l - k \<le> index_x it - 1" "index_x it - 1 \<le> r + k" "0 \<le> k"
        using pos False LEFT by (auto simp: defs it1_def edges)
      show ?thesis
      proof (cases "k = 0")
        case True
        then have "index_x it = r + 1" using out x LEFT pos lr by (auto simp: in_around_rect_def defs edges)
        then show ?thesis unfolding x(1,2) using succ(5) True by simp
      next
        case False
        then show ?thesis unfolding x(1,2) using x(3-5) by (intro succ(4)) auto
      qed
    next
      case UP
      have x: "iterator_index it1 = (l - k, index_y it - 1)" "iterator_index it = (l - k, index_y it - 1 + 1)"
        "t - k \<le> index_y it - 1" "index_y it - 1 < b + k" "0 < k"
        using pos False UP by (auto simp: defs it1_def edges)
      show ?thesis unfolding x(1,2) using x(3-5) by (intro succ(3))
    next
      case RIGHT
      have x: "iterator_index it1 = (index_x it + 1, t - k)" "iterator_index it = (index_x it + 1 - 1, t - k)"
        "l - k < index_x it + 1" "index_x it + 1 \<le> r + k" "0 < k"
        using pos False RIGHT by (auto simp: defs it1_def edges)
      show ?thesis unfolding x(1,2) using x(3-5) by (intro succ(2))
    next
      case DOWN
      have x: "iterator_index it1 = (r + k, index_y it + 1)" "iterator_index it = (r + k, index_y it + 1 - 1)"
        "t - k < index_y it + 1" "index_y it + 1 < b + k" "0 < k"
        using pos False DOWN by (auto simp: defs it1_def edges)
      show ?thesis unfolding x(1,2) using x(3-5) by (intro succ(1))
    qed
    ultimately show thesis using that by (simp add: edges)
  next
    case True
    have k: "0 < k"
      using True pos out lr by (cases "direction it") (auto simp: defs edges in_around_rect_def)
    then obtain it1 where adv: "reverse_advance it = Some it1"
      using True pos lr by (cases "direction it") (auto simp: defs edges)
    have pos1: "reverse_at (previous_ring k it) it1"
      using adv True pos lr k by (cases "direction it") (auto simp: defs edges split: if_splits)
    have "spiral_succ l t r b (iterator_index it1) (iterator_index it)"
    proof (cases "direction it")
      case LEFT
      have x: "iterator_index it1 = (l - k, b + k - 1)" "iterator_index it = (l - k, b + k - 1 + 1)"
        using adv pos True LEFT lr k by (auto simp: defs edges split: if_splits)
      show ?thesis unfolding x(1,2) using k lr by (intro succ(3)) auto
    next
      case UP
      have x: "iterator_index it1 = (l - k + 1, t - k)" "iterator_index it = (l - k + 1 - 1, t - k)" "0 < k"
        using adv pos True UP lr by (auto simp: defs edges split: if_splits)
      show ?thesis unfolding x(1,2) using x(3) lr by (intro succ(2)) auto
    next
      case RIGHT
      have x: "iterator_index it1 = (r + k, t - k + 1)" "iterator_index it = (r + k, t - k + 1 - 1)" "0 < k"
        using adv pos True RIGHT lr by (auto simp: defs edges split: if_splits)
      show ?thesis unfolding x(1,2) using x(3) lr by (intro succ(1)) auto
    next
      case DOWN
      have x: "iterator_index it1 = (r + (k - 1), b + (k - 1))" "iterator_index it = (r + (k - 1) + 1, b + (k - 1))" "0 < k"
        using adv pos True DOWN lr by (auto simp: defs edges split: if_splits)
      show ?thesis
      proof (cases "k = 1")
        case True
        then show ?thesis unfolding x(1,2) using succ(5) by simp
      next
        case False
        then show ?thesis unfolding x(1,2) using x(3) lr by (intro succ(4)) auto
      qed
    qed
    with adv pos1 show thesis using that by (simp add: edges)
  qed
qed


section \<open>The loop of ReverseSpiralDifferenceIterator\<close>

text \<open>The tiles to visit that come before the current one in the order of the spiral.\<close>

definition behind :: "reverse_spiral_iterator \<Rightarrow> int \<times> int \<Rightarrow> bool" where
  "behind it p \<longleftrightarrow>
     wanted it p \<and> 0 < around_ring it p \<and> around_key it p < around_key it (iterator_index it)"

lemma same_around:
  assumes "around_rects it' = around_rects it"
  shows "rects it' = rects it" and "around_ring it' = around_ring it" and "around_key it' = around_key it"
    and "around_ok it' = around_ok it"
    and "around_left it' = around_left it" and "around_top it' = around_top it"
    and "around_right it' = around_right it" and "around_bottom it' = around_bottom it"
  using assms by (auto simp: around_rects_def around_ok_def)

lemma behind_advance:
  assumes ok: "around_ok it" and adv: "reverse_advance it = Some it1"
    and succ: "spiral_succ (around_left it) (around_top it) (around_right it) (around_bottom it)
      (iterator_index it1) (iterator_index it)"
  shows "behind it p \<longleftrightarrow>
    (p = iterator_index it1 \<and> wanted it p \<and> \<not> in_around_rect it1) \<or> behind it1 p"
proof -
  note rr = reverse_advance_rects [OF adv]
  note same = same_around(5-8) [OF rr] same_rects(3) [OF same_around(1) [OF rr]]
  have lr: "around_left it \<le> around_right it" "around_top it \<le> around_bottom it" using ok by (simp_all add: around_ok_def)
  have ring1: "in_around_rect it1 \<longleftrightarrow> around_ring it (iterator_index it1) = 0" by (simp add: in_around_ring same)
  let ?key = "around_key it" and ?i = "iterator_index it" and ?i1 = "iterator_index it1"
  show ?thesis
  proof (cases "wanted it p \<and> 0 < around_ring it p")
    case False
    then have "wanted it p \<Longrightarrow> around_ring it p = 0" using ring_nonneg by (auto simp: order_less_le)
    then show ?thesis using False ring1 by (auto simp: behind_def same)
  next
    case True
    have iff: "?key ?i1 < ?key p \<longleftrightarrow> p = ?i \<or> ?key ?i < ?key p"
      using spiral_succD(2) [OF succ] True by blast
    have "?key p = ?key ?i \<longleftrightarrow> p = ?i" using key_inj [OF lr] True spiral_succD(1) [OF succ] by blast
    then have less: "?key p < ?key ?i \<longleftrightarrow> ?key p \<le> ?key ?i1"
      using iff by (metis not_le linorder_less_linear order_less_asym)
    have le: "?key p \<le> ?key ?i1 \<longleftrightarrow> (p = ?i1 \<and> \<not> in_around_rect it1) \<or> ?key p < ?key ?i1"
    proof (cases "in_around_rect it1")
      case in_around: True
      then have "?key ?i1 < ?key p" using True ring1 by (auto simp: spiral_key_def Let_def)
      then show ?thesis using in_around by auto
    next
      case False
      then have "0 < around_ring it ?i1" using ring1 ring_nonneg by (simp add: order_less_le)
      then show ?thesis using key_inj [OF lr, of p ?i1] True False by (auto simp: order_le_less)
    qed
    show ?thesis using True less le by (simp add: behind_def same)
  qed
qed

section \<open>The reverse loop returns\<close>

lemma reverse_advance_step: "reverse_advance it = Some it1 \<Longrightarrow> 0 \<le> current_step it \<Longrightarrow> 1 \<le> current_step it1"
  by (auto simp: reverse_advance_def reverse_switch_direction_def Let_def split: if_splits)

lemma reverse_ring_index: "reverse_at k it \<Longrightarrow> k \<le> around_ring it (iterator_index it)"
  by (cases "direction it") (auto simp: reverse_at_def Let_def ring_def iterator_index_def)

lemma reverse_at_inside: "around_ok it \<Longrightarrow> reverse_at 0 it \<Longrightarrow> 1 \<le> current_step it \<Longrightarrow> in_around_rect it"
  by (cases "direction it")
    (auto simp: reverse_at_def Let_def in_around_rect_def around_ok_def current_step_count_def)

lemma reverse_steps_at:
  assumes "reverse_at k it" and "0 \<le> n" and "n \<le> current_step_count it - current_step it"
  shows "reverse_at k (take_steps n it)"
  using assms
  by (cases "direction it") (auto simp: reverse_at_def Let_def take_steps_def current_step_count_def)

lemma behind_steps:
  assumes ok: "around_ok it" and k: "0 < k" and "reverse_at k it"
    and "int n \<le> current_step_count it - current_step it"
    and "\<And>i. 1 \<le> i \<Longrightarrow> i \<le> int n \<Longrightarrow> \<not> wanted it (iterator_index (take_steps i it))"
  shows "behind it p \<longleftrightarrow> behind (take_steps (int n) it) p"
  using assms(4,5)
proof (induction n)
  case 0
  then show ?case by (simp add: take_steps_def)
next
  case (Suc n)
  let ?it = "take_steps (int n) it"
  have pos: "reverse_at k ?it" using reverse_steps_at [OF assms(3)] Suc.prems(1) by simp
  have ok': "around_ok ?it" using ok by (simp add: around_ok_def take_steps_def)
  have step: "reverse_advance ?it = Some (take_steps (int (Suc n)) it)"
    using Suc.prems(1)
    by (simp add: reverse_advance_def needs_direction_switch_def take_steps_Suc algebra_simps)
  have "\<not> in_around_rect ?it" using reverse_ring_index [OF pos] k by (simp add: in_around_ring)
  with step have "spiral_succ (around_left ?it) (around_top ?it) (around_right ?it) (around_bottom ?it)
      (iterator_index (take_steps (int (Suc n)) it)) (iterator_index ?it)"
    using reverse_advance_some [OF ok' pos] by fastforce
  then have "behind ?it p \<longleftrightarrow> behind (take_steps (int (Suc n)) it) p"
    using behind_advance [OF ok' step, of p] Suc.prems(2) [of "int (Suc n)"] by auto
  moreover have "behind it p \<longleftrightarrow> behind ?it p" using Suc by simp
  ultimately show ?case by simp
qed

definition reverse_result :: "reverse_spiral_iterator \<Rightarrow> reverse_spiral_iterator \<Rightarrow> bool" where
  "reverse_result it it' \<longleftrightarrow>
     around_rects it' = around_rects it \<and>
     (if iterator_ok it'
      then (\<exists>k. reverse_at k it') \<and> behind it (iterator_index it') \<and>
           (\<forall>p. behind it p \<longleftrightarrow> p = iterator_index it' \<or> behind it' p)
      else (\<forall>p. \<not> behind it p))"

lemma reverse_loop_round:
  assumes adv: "reverse_advance it = Some it1" and out: "\<not> in_around_rect it" and pos1: "reverse_at k it1"
  shows "reverse_spiral_loop it =
    (if in_around_rect it1 then Some (iterator_done it1)
     else if in_consider_rect it1 \<and> \<not> in_ignore_rect it1 then Some it1
     else reverse_spiral_loop (take_steps (spiral_jump it1) it1))"
proof -
  obtain it0 where it0: "(if needs_direction_switch it then reverse_switch_direction it else Some it) = Some it0"
    and it1: "it1 = take_steps 1 it0" using adv unfolding reverse_advance_def by blast
  have jump: "spiral_jump it1 = min (if in_consider_rect it1 then steps_to_edge it1
      else steps_outside (current_step_count it1 - current_step it1) it1) (current_step_count it1 - current_step it1)"
    by (simp add: spiral_jump_def Let_def)
  show ?thesis
    using spiral_jump_bounds(1) [OF reverse_at_moving [OF pos1]] out unfolding jump
    by (subst reverse_spiral_loop.simps) (simp only: it0 bind.bind_lunit Let_def if_True not_False_eq_True
        flip: it1, auto)
qed

text \<open>A round leaves what it does not visit.\<close>

lemma reverse_round_result:
  assumes ok: "around_ok it" and out: "\<not> in_around_rect it" and pos: "reverse_at k it"
    and adv: "reverse_advance it = Some it1" and pos1: "reverse_at k1 it1"
    and succ: "spiral_succ (around_left it) (around_top it) (around_right it) (around_bottom it)
      (iterator_index it1) (iterator_index it)"
  shows "in_around_rect it1 \<Longrightarrow> reverse_result it (iterator_done it1)"
    and "\<not> in_around_rect it1 \<Longrightarrow> in_consider_rect it1 \<Longrightarrow> \<not> in_ignore_rect it1 \<Longrightarrow>
      0 \<le> consider_left it \<Longrightarrow> 0 \<le> consider_top it \<Longrightarrow> reverse_result it it1"
    and "\<not> in_around_rect it1 \<Longrightarrow> in_consider_rect it1 \<longrightarrow> in_ignore_rect it1 \<Longrightarrow>
      reverse_at k1 (take_steps (spiral_jump it1) it1) \<and> \<not> in_around_rect (take_steps (spiral_jump it1) it1) \<and>
      (reverse_result (take_steps (spiral_jump it1) it1) it' \<longrightarrow> reverse_result it it')"
proof -
  note rr = reverse_advance_rects [OF adv]
  note same = same_rects [OF same_around(1) [OF rr]]
  note here = behind_advance [OF ok adv succ]
  have ok1: "around_ok it1" using same_around(4) [OF rr] ok by simp
  have key1: "around_key it (iterator_index it1) < around_key it (iterator_index it)"
    using spiral_succD [OF succ] by blast
  show "reverse_result it (iterator_done it1)" if a: "in_around_rect it1"
  proof -
    have "\<not> behind it1 p" for p
      using a key_less_ring [of "around_left it1" "around_top it1" "around_right it1" "around_bottom it1" p "iterator_index it1"]
      by (auto simp: behind_def in_around_ring)
    then have "\<not> behind it p" for p using here a by simp
    moreover have "around_rects (iterator_done it1) = around_rects it1"
      by (simp add: around_rects_def rects_def iterator_done_def)
    ultimately show ?thesis using rr by (simp add: reverse_result_def)
  qed
  show "reverse_result it it1" if w: "\<not> in_around_rect it1" "in_consider_rect it1" "\<not> in_ignore_rect it1"
    "0 \<le> consider_left it" "0 \<le> consider_top it"
  proof -
    have "wanted it (iterator_index it1)" using w by (simp add: in_rects wanted_def same)
    moreover have "iterator_ok it1" using w same by (auto simp: in_consider_rect_def iterator_ok_def)
    ultimately show ?thesis using here pos1 rr w(1) unfolding reverse_result_def by auto
  qed
  assume o: "\<not> in_around_rect it1" and u: "in_consider_rect it1 \<longrightarrow> in_ignore_rect it1"
  let ?it2 = "take_steps (spiral_jump it1) it1"
  note j = spiral_jump_bounds [OF reverse_at_moving [OF pos1] u]
  have "0 \<le> k1" using pos1 by (cases "direction it1") (auto simp: reverse_at_def Let_def)
  moreover have "k1 \<noteq> 0"
    using reverse_at_inside [OF ok1] pos1 reverse_advance_step [OF adv] pos o by (auto simp: reverse_at_def)
  ultimately have k1: "0 < k1" by simp
  have pos2: "reverse_at k1 ?it2" by (rule reverse_steps_at [OF pos1 j])
  have out2: "\<not> in_around_rect ?it2" using reverse_ring_index [OF pos2] k1 by (simp add: in_around_ring)
  have "\<not> wanted it (iterator_index it1)" using u by (simp add: in_rects wanted_def same)
  then have eq: "behind it p \<longleftrightarrow> behind ?it2 p" for p
    using here [of p] behind_steps [OF ok1 k1 pos1, of "nat (spiral_jump it1)" p] j
      spiral_jump_unwanted [OF reverse_at_moving [OF pos1] u] by auto
  have "reverse_result ?it2 it' \<longrightarrow> reverse_result it it'"
    using rr by (simp add: reverse_result_def eq)
  then show "reverse_at k1 ?it2 \<and> \<not> in_around_rect ?it2 \<and> (reverse_result ?it2 it' \<longrightarrow> reverse_result it it')"
    using pos2 out2 by blast
qed

fun reverse_side :: "direction \<Rightarrow> nat" where
  "reverse_side LEFT = 0" | "reverse_side UP = 1" | "reverse_side RIGHT = 2" | "reverse_side DOWN = 3"

definition reverse_rounds :: "int \<Rightarrow> reverse_spiral_iterator \<Rightarrow> nat \<times> nat \<times> nat" where
  "reverse_rounds k it =
     (nat k, 3 - reverse_side (direction it), nat (current_step_count it - current_step it))"

lemma reverse_rounds_decrease:
  assumes "reverse_at k it" and "reverse_advance it = Some it1" and "0 \<le> m"
  shows "reverse_rounds (previous_ring k it) (take_steps m it1) < reverse_rounds k it"
proof (cases "needs_direction_switch it")
  case True
  then show ?thesis
    using assms by (cases "direction it")
      (auto simp: reverse_rounds_def previous_ring_def reverse_advance_def reverse_switch_direction_def
        reverse_at_def Let_def split: if_splits)
next
  case False
  then show ?thesis
    using assms
    by (auto simp: reverse_rounds_def previous_ring_def reverse_advance_def needs_direction_switch_def)
qed

lemma reverse_loop_returns:
  "around_ok it \<Longrightarrow> reverse_at k it \<Longrightarrow> \<not> in_around_rect it \<Longrightarrow> 0 \<le> consider_left it \<Longrightarrow> 0 \<le> consider_top it \<Longrightarrow>
    \<exists>it'. reverse_spiral_loop it = Some it' \<and> reverse_result it it'"
proof (induction "reverse_rounds k it" arbitrary: k it rule: less_induct)
  case less
  note ok = less.prems(1) and pos = less.prems(2) and out = less.prems(3) and nonneg = less.prems(4,5)
  obtain it1 where adv: "reverse_advance it = Some it1" and pos1: "reverse_at (previous_ring k it) it1"
    and succ: "spiral_succ (around_left it) (around_top it) (around_right it) (around_bottom it)
      (iterator_index it1) (iterator_index it)" by (rule reverse_advance_some [OF ok pos out])
  note round = reverse_loop_round [OF adv out pos1] and res = reverse_round_result [OF ok out pos adv pos1 succ]
  let ?it2 = "take_steps (spiral_jump it1) it1"
  consider "in_around_rect it1" | "\<not> in_around_rect it1" "in_consider_rect it1" "\<not> in_ignore_rect it1"
    | "\<not> in_around_rect it1" "in_consider_rect it1 \<longrightarrow> in_ignore_rect it1" by blast
  then show ?case
  proof cases
    case 1
    then show ?thesis using round res(1) by simp
  next
    case 2
    then show ?thesis using round res(2) nonneg by simp
  next
    case 3
    note j = spiral_jump_bounds(1) [OF reverse_at_moving [OF pos1] 3(2)]
    note same = same_rects [OF same_around(1) [OF reverse_advance_rects [OF adv]]]
    have "around_ok ?it2"
      using ok same_around(4) [OF reverse_advance_rects [OF adv]] by (simp add: around_ok_def take_steps_def)
    then obtain it' where "reverse_spiral_loop ?it2 = Some it'" "reverse_result ?it2 it'"
      using less.hyps [OF reverse_rounds_decrease [OF pos adv j]] res(3) [OF 3] nonneg same by auto
    then show ?thesis using round res(3) [OF 3] 3 by auto
  qed
qed

section \<open>What ReverseSpiralDifferenceIterator visits\<close>

definition reverse_wf :: "reverse_spiral_iterator \<Rightarrow> bool" where
  "reverse_wf it \<longleftrightarrow>
     around_ok it \<and> 0 \<le> consider_left it \<and> 0 \<le> consider_top it \<and>
     (iterator_ok it \<longrightarrow> \<not> in_around_rect it \<and> (\<exists>k. reverse_at k it))"

definition reverse_behind :: "reverse_spiral_iterator \<Rightarrow> (int \<times> int) list" where
  "reverse_behind it = rev (sort_key (around_key it) (filter (behind it) (considered_tiles it)))"

definition reverse_left :: "reverse_spiral_iterator \<Rightarrow> (int \<times> int) list" where
  "reverse_left it = (if iterator_ok it then iterator_index it # reverse_behind it else [])"

lemma reverse_next_left:
  assumes ok: "around_ok it" and pos: "reverse_at k it" and out: "\<not> in_around_rect it"
    and nonneg: "0 \<le> consider_left it" "0 \<le> consider_top it"
  shows "\<exists>it'. ReverseSpiralDifferenceIterator_next it = Some it' \<and> reverse_wf it' \<and>
    reverse_behind it = reverse_left it'"
proof -
  obtain it' where step: "reverse_spiral_loop it = Some it'" and res: "reverse_result it it'"
    using reverse_loop_returns [OF ok pos out nonneg] by blast
  have around: "around_rects it' = around_rects it" using res by (simp add: reverse_result_def)
  note same = same_around [OF around]
  have lr: "around_left it \<le> around_right it" "around_top it \<le> around_bottom it"
    using ok by (simp_all add: around_ok_def)
  have "reverse_behind it = reverse_left it'"
  proof (cases "iterator_ok it'")
    case True
    then have a: "behind it (iterator_index it')"
      "\<And>p. behind it p \<longleftrightarrow> p = iterator_index it' \<or> behind it' p"
      using res by (simp_all add: reverse_result_def del: split_paired_All)
    have inj: "inj_on (around_key it) {p. behind it p}"
      using key_inj [OF lr] by (intro inj_onI) (simp add: behind_def)
    have "iterator_index it' \<in> set (considered_tiles it)"
      using a(1) by (simp add: considered_tiles behind_def wanted_def)
    then have "sort_key (around_key it) (filter (behind it) (considered_tiles it)) =
        sort_key (around_key it) (filter (behind it') (considered_tiles it)) @ [iterator_index it']"
      by (intro sort_key_last [OF inj considered_tiles(2) _ a(2)]) (simp_all add: behind_def same(5-8))
    then show ?thesis
      using True rects_tiles [OF same(1)] by (simp add: reverse_behind_def reverse_left_def same(5-8))
  next
    case False
    then have "filter (behind it) (considered_tiles it) = []"
      using res by (auto simp: reverse_result_def filter_empty_conv)
    then show ?thesis using False by (simp add: reverse_behind_def reverse_left_def)
  qed
  moreover have "reverse_wf it'"
    using res ok nonneg same_rects(4,5) [OF same(1)] same(4)
    by (auto simp: reverse_wf_def reverse_result_def behind_def in_around_ring same(5-8))
  ultimately show ?thesis using step by (auto simp: ReverseSpiralDifferenceIterator_next_def)
qed

interpretation reverse_spiral: partial_tile_walk iterator_ok ReverseSpiralDifferenceIterator_next
    iterator_index reverse_wf reverse_left
proof unfold_locales
  fix it
  show "\<not> iterator_ok it \<Longrightarrow> reverse_left it = []" by (simp add: reverse_left_def)
  assume "reverse_wf it" and ok: "iterator_ok it"
  then obtain k where "around_ok it" "reverse_at k it" "\<not> in_around_rect it" "0 \<le> consider_left it" "0 \<le> consider_top it"
    by (auto simp: reverse_wf_def)
  then show "\<exists>it'. ReverseSpiralDifferenceIterator_next it = Some it' \<and> reverse_wf it' \<and>
      reverse_left it = iterator_index it # reverse_left it'"
    using reverse_next_left [of it k] ok by (auto simp: reverse_left_def)
qed

text \<open>[C30]
  A loop over \<open>ReverseSpiralDifferenceIterator\<close> ends, no DCHECK fails, and it visits the same tiles
  as \<open>SpiralDifferenceIterator\<close> for the same arguments, in the opposite order: inwards, ending next
  to the centre.
\<close>

theorem ReverseSpiralDifferenceIterator_visits:
  assumes ok: "tiling_ok td" and r: "rect_ok consider" "rect_ok ignore" "rect_ok center"
    and fuel: "length (all_tiles td) \<le> fuel"
  shows "Option.bind (ReverseSpiralDifferenceIterator td consider ignore center)
       (walk_partial iterator_ok ReverseSpiralDifferenceIterator_next iterator_index fuel) =
     Some (rev (spiral_tiles td consider ignore center))"
proof -
  define base where "base = BaseDifferenceIterator td consider ignore"
  note spec = BaseDifferenceIterator_ok [OF ok r(1,2), folded base_def]
  define l where "l = around_x td center (rect_x center)"
  define t where "t = around_y td center (rect_y center)"
  define r' where "r' = around_x td center (rect_right center - 1)"
  define b where "b = around_y td center (rect_bottom center - 1)"
  note edges = l_def [symmetric] t_def [symmetric] r'_def [symmetric] b_def [symmetric]
  define it where "it = spiral_iterator.extend
    (difference_iterator.extend base (spiral_iterator.fields LEFT (-1) 0 0 0 0))
    (reverse_spiral_iterator.fields (-1) (-1) (-1) (-1))"
  note fields = it_def difference_iterator.defs spiral_iterator.defs reverse_spiral_iterator.defs
  have has: "HasConsiderRect it = HasConsiderRect base" by (simp add: HasConsiderRect_def fields)
  define m where "m = max (max (max (max 0 (t - consider_top it)) (l - consider_left it))
    (consider_bottom it - b)) (consider_right it - r')"
  define it0 where "it0 = it\<lparr>around_left := l, around_top := t, around_right := r', around_bottom := b,
    vertical_step_count := b - t + 1 + 2 * m, horizontal_step_count := r' - l + 1 + 2 * m,
    index_x := r' + m + 1, index_y := b + m\<rparr>"
  have start: "ReverseSpiralDifferenceIterator td consider ignore center =
      (if HasConsiderRect base then ReverseSpiralDifferenceIterator_next it0 else Some (iterator_done it))"
    by (simp add: ReverseSpiralDifferenceIterator_def Let_def edges flip: base_def it_def has m_def)
      (simp add: it0_def)
  show ?thesis
  proof (cases "HasConsiderRect base")
    case False
    have "\<not> iterator_ok (iterator_done it)" by simp
    then show ?thesis using False spiral_tiles_none [OF spec] start by (cases fuel) simp_all
  next
    case True
    have n: "0 < num_tiles_x td" "0 < num_tiles_y td" and nonneg: "0 \<le> consider_left base" "0 \<le> consider_top base"
      using spec True by (auto simp: base_ok_def difference_bounds_def)
    note lr = center_edges [OF ok n r(3), unfolded edges]
    have m: "0 \<le> m" by (simp add: m_def)
    have rects0: "rects it0 = rects base" by (simp add: rects_def it0_def fields)
    have around0: "around_left it0 = l" "around_top it0 = t" "around_right it0 = r'" "around_bottom it0 = b"
      by (simp_all add: it0_def)
    have ok0: "around_ok it0" using lr by (simp add: around_ok_def around0)
    have pos: "reverse_at m it0"
      using lr m by (simp add: reverse_at_def Let_def it0_def fields current_step_count_def)
    have out: "\<not> in_around_rect it0" using m by (simp add: in_around_rect_def it0_def)
    obtain it' where step: "ReverseSpiralDifferenceIterator_next it0 = Some it'" and wf: "reverse_wf it'"
      and left: "reverse_behind it0 = reverse_left it'"
      using reverse_next_left [OF ok0 pos out] nonneg same_rects(4,5) [OF rects0] by auto
    have "t - consider_top base \<le> m" "l - consider_left base \<le> m"
      "consider_bottom base - b \<le> m" "consider_right base - r' \<le> m"
      by (simp_all add: m_def fields)
    then have inside: "ring l t r' b p \<le> m" if "considered base p" for p
      using that m by (simp add: considered_def ring_def)
    have key0: "spiral_key l t r' b p < spiral_key l t r' b (iterator_index it0)" if "considered base p" for p
    proof -
      have i: "iterator_index it0 = (r' + (m + 1), b + m)" by (simp add: iterator_index_def it0_def)
      have "spiral_key l t r' b (iterator_index it0) = (m + 1, 0, - (b + m))"
        unfolding i using key_sides(1) [OF lr, of "m + 1" "b + m"] lr m by simp
      then show ?thesis using inside [OF that] by (auto simp: spiral_key_def Let_def)
    qed
    have "reverse_behind it0 = rev (sort_key (center_key td center) (filter (behind it0) (considered_tiles base)))"
      unfolding reverse_behind_def rects_tiles [OF rects0] by (simp add: center_key_def edges around0)
    also have "\<dots> = rev (spiral_tiles td consider ignore center)"
      by (subst spiral_tiles_considered [OF ok r(3) spec True])
        (use key0 in \<open>auto simp: behind_def same_rects(3) [OF rects0] center_ring_def edges around0 wanted_def\<close>)
    finally have "reverse_left it' = rev (spiral_tiles td consider ignore center)" using left by simp
    then show ?thesis
      using reverse_spiral.walk_left [OF wf, of fuel] fuel spiral_tiles_length [of td "consider" ignore center]
      by (simp add: start True step)
  qed
qed

text \<open>Around the second tile of the example, with one tile to ignore.\<close>

lemma spiral_example:
  "rect_ok (Rect 0 0 20 10)" "rect_ok (Rect 0 5 3 3)" "rect_ok (Rect 8 1 2 2)"
  "length (all_tiles example_tiling) \<le> 6"
  by code_simp+

lemma spiral_example_tiles:
  "spiral_tiles example_tiling (Rect 0 0 20 10) (Rect 0 5 3 3) (Rect 8 1 2 2) = [(2, 0), (0, 0), (1, 1), (2, 1)]"
proof -
  have "filter (\<lambda>p. Rect_Intersects (tile_bounds example_tiling False p) (Rect 0 0 20 10) \<and>
      \<not> Rect_Intersects (tile_bounds example_tiling False p) (Rect 0 5 3 3) \<and>
      \<not> Rect_Intersects (tile_bounds example_tiling False p) (Rect 8 1 2 2)) (all_tiles example_tiling) =
    [(0, 0), (2, 0), (1, 1), (2, 1)]" by code_simp
  moreover have "map (center_key example_tiling (Rect 8 1 2 2)) [(0, 0), (2, 0), (1, 1), (2, 1)] =
    [(1, 2, 0), (1, 0, 0), (1, 3, 1), (1, 3, 2)]" by code_simp
  ultimately show ?thesis by (simp add: spiral_tiles_def)
qed

text \<open>[C29] witness: the four tiles of the example that are left, counterclockwise.\<close>

lemma SpiralDifferenceIterator_visits_witness:
  "Option.bind (SpiralDifferenceIterator example_tiling (Rect 0 0 20 10) (Rect 0 5 3 3) (Rect 8 1 2 2))
     (walk_partial iterator_ok SpiralDifferenceIterator_next iterator_index 6) =
   Some [(2, 0), (0, 0), (1, 1), (2, 1)]"
  using SpiralDifferenceIterator_visits [OF example_tiling_ok(1) spiral_example]
  by (simp only: spiral_example_tiles)

text \<open>[C30] witness: the same four tiles, clockwise.\<close>

lemma ReverseSpiralDifferenceIterator_visits_witness:
  "Option.bind (ReverseSpiralDifferenceIterator example_tiling (Rect 0 0 20 10) (Rect 0 5 3 3) (Rect 8 1 2 2))
     (walk_partial iterator_ok ReverseSpiralDifferenceIterator_next iterator_index 6) =
   Some [(2, 1), (1, 1), (0, 0), (2, 0)]"
  using ReverseSpiralDifferenceIterator_visits [OF example_tiling_ok(1) spiral_example]
  by (simp only: spiral_example_tiles rev.simps append.simps)

end
