(* ===== verification/Big_Endian.thy ===== *)
theory Big_Endian
  imports Prelude
begin

text \<open>
  \<open>base/big_endian.h\<close>: integers in network byte order. \<open>T\<close> is the word type, \<open>sizeof(T)\<close> an
  eighth of its length. Shown: reading back what was written gives the value, although the
  first byte is read as a signed \<open>char\<close> and sign-extended.
\<close>

unbundle bit_operations_syntax

definition sizeof :: "'a::len itself \<Rightarrow> nat" where
  "sizeof T = LENGTH('a) div 8"

text \<open>The first byte is assigned without a cast, so it is sign-extended.\<close>

definition ReadBigEndian :: "uint8 list \<Rightarrow> 'a::len word" where
  "ReadBigEndian buf =
     fold (\<lambda>i out. push_bit 8 out OR ucast (buf ! i)) [1..<sizeof TYPE('a)] (scast (buf ! 0))"

text \<open>The loop writes the lowest byte last.\<close>

primrec WriteBigEndian_loop :: "nat \<Rightarrow> 'a::len word \<Rightarrow> uint8 list" where
  "WriteBigEndian_loop 0 val = []"
| "WriteBigEndian_loop (Suc n) val =
     WriteBigEndian_loop n (drop_bit 8 val) @ [ucast (val AND 0xFF)]"

definition WriteBigEndian :: "'a::len word \<Rightarrow> uint8 list" where
  "WriteBigEndian val = WriteBigEndian_loop (sizeof TYPE('a)) val"

lemma length_WriteBigEndian_loop [simp]: "length (WriteBigEndian_loop n v) = n"
  by (induction n arbitrary: v) simp_all

lemma length_WriteBigEndian [simp]:
  "length (WriteBigEndian (v :: 'a::len word)) = sizeof TYPE('a)"
  by (simp add: WriteBigEndian_def)

lemma sizeof_simps [simp]: "sizeof TYPE(16) = 2" "sizeof TYPE(64) = 8"
  by (simp_all add: sizeof_def)

text \<open>The loop of \<open>ReadBigEndian\<close> from an index on.\<close>

definition read_bytes :: "uint8 list \<Rightarrow> 'a::len word \<Rightarrow> 'a word" where
  "read_bytes bs out = fold (\<lambda>b out. push_bit 8 out OR ucast b) bs out"

lemma read_bytes_snoc: "read_bytes (bs @ [b]) out = push_bit 8 (read_bytes bs out) OR ucast b"
  by (simp add: read_bytes_def)

lemma read_bytes_Cons: "read_bytes (b # bs) 0 = read_bytes bs (ucast b)"
  by (simp add: read_bytes_def)

lemma ReadBigEndian_bytes:
  assumes "sizeof TYPE('a) \<le> length buf" and "0 < sizeof TYPE('a)"
  shows "(ReadBigEndian buf :: 'a::len word) =
    read_bytes (tl (take (sizeof TYPE('a)) buf)) (scast (buf ! 0))"
proof -
  have "map ((!) buf) [1..<sizeof TYPE('a)] = tl (take (sizeof TYPE('a)) buf)"
    using assms by (intro nth_equalityI) (simp_all add: nth_tl)
  then show ?thesis
    by (simp add: ReadBigEndian_def read_bytes_def fold_map comp_def flip: \<open>_ = tl _\<close>)
qed

lemma read_bytes_from:
  "read_bytes bs out = push_bit (8 * length bs) out OR read_bytes bs (0 :: 'a::len word)"
proof (induction bs rule: rev_induct)
  case Nil
  then show ?case by (simp add: read_bytes_def)
next
  case (snoc b bs)
  show ?case
    unfolding read_bytes_snoc snoc.IH
    by (rule bit_word_eqI) (auto simp: bit_simps push_bit_of_0)
qed

lemma low_byte: "v AND 0xFF = take_bit 8 (v :: 'a::len word)"
  by (simp add: take_bit_eq_mask mask_eq_exp_minus_1)

lemma read_bytes_loop:
  "read_bytes (WriteBigEndian_loop n v) 0 = take_bit (8 * n) (v :: 'a::len word)"
proof (induction n arbitrary: v)
  case 0
  then show ?case by (simp add: read_bytes_def)
next
  case (Suc n)
  show ?case
    unfolding WriteBigEndian_loop.simps read_bytes_snoc Suc.IH low_byte
  proof (rule bit_word_eqI)
    fix k
    assume "k < LENGTH('a)"
    then show "bit (push_bit 8 (take_bit (8 * n) (drop_bit 8 v)) OR
        ucast (ucast (take_bit 8 v) :: uint8)) k \<longleftrightarrow> bit (take_bit (8 * Suc n) v) k"
      by (cases "k < 8") (auto simp: bit_simps)
  qed
qed

text \<open>The sign extension of the first byte is shifted out.\<close>

lemma sign_shifted_out:
  assumes "8 * Suc n = LENGTH('a)"
  shows "push_bit (8 * n) (scast (b :: uint8)) = (push_bit (8 * n) (ucast b) :: 'a::len word)"
proof (rule bit_word_eqI)
  fix k
  assume "k < LENGTH('a)"
  then have "k < 8 * n \<or> k - 8 * n < 8" unfolding assms [symmetric] by auto
  then show "bit (push_bit (8 * n) (scast b) :: 'a word) k \<longleftrightarrow> bit (push_bit (8 * n) (ucast b) :: 'a word) k"
    using \<open>k < LENGTH('a)\<close> by (auto simp: bit_simps)
qed

lemma ReadBigEndian_Write:
  assumes "8 dvd LENGTH('a::len)"
  shows "ReadBigEndian (WriteBigEndian (v :: 'a word) @ rest) = v"
proof -
  obtain m where m: "LENGTH('a) = 8 * m" using assms by (rule dvdE)
  moreover have "m \<noteq> 0" using m len_gt_0 [where 'a = 'a] by (metis mult_0_right less_irrefl)
  ultimately obtain n where n: "LENGTH('a) = 8 * Suc n" by (metis not0_implies_Suc)
  then have s: "sizeof TYPE('a) = Suc n" by (simp add: sizeof_def)
  obtain b bs where w: "WriteBigEndian v = b # bs" "length bs = n"
    using length_WriteBigEndian [of v] s by (metis length_Suc_conv)
  have "ReadBigEndian (WriteBigEndian v @ rest) = read_bytes bs (scast b :: 'a word)"
    using ReadBigEndian_bytes [where 'a = 'a, of "WriteBigEndian v @ rest"] s w by simp
  also have "\<dots> = read_bytes (b # bs) 0"
    unfolding read_bytes_Cons read_bytes_from [of bs "scast b"] read_bytes_from [of bs "ucast b"] w(2)
    by (simp add: sign_shifted_out [OF n [symmetric]])
  also have "\<dots> = v"
    unfolding w(1) [symmetric] WriteBigEndian_def read_bytes_loop s
    by (simp add: take_bit_word_eq_self n)
  finally show ?thesis .
qed

end
