(* ===== verification/WebSocket_Frame.thy ===== *)
theory WebSocket_Frame
  imports Big_Endian
begin

text \<open>
  \<open>net/websockets/websocket_frame.{h,cc}\<close>: the frame header, its wire format and the masking of
  payloads. Buffers are lists of bytes; a pointer into one is an index, and the address of a
  payload, which decides how the vectorised loop is aligned, is an argument. Shown: the
  vectorised masking equals byte-by-byte masking at every alignment, on every platform and for
  every frame offset, so it is its own inverse and works piecewise.
\<close>

section \<open>Frames\<close>

record web_socket_frame_header =
  final :: bool
  reserved1 :: bool
  reserved2 :: bool
  reserved3 :: bool
  opcode :: int
  masked :: bool
  payload_length :: uint64

definition WebSocketFrameHeader :: "int \<Rightarrow> web_socket_frame_header" where
  "WebSocketFrameHeader op =
     \<lparr>final = False, reserved1 = False, reserved2 = False, reserved3 = False, opcode = op,
      masked = False, payload_length = 0\<rparr>"

definition CopyFrom :: "web_socket_frame_header \<Rightarrow> web_socket_frame_header \<Rightarrow> web_socket_frame_header" where
  "CopyFrom source h =
     h\<lparr>final := final source, reserved1 := reserved1 source, reserved2 := reserved2 source,
       reserved3 := reserved3 source, opcode := opcode source, masked := masked source,
       payload_length := payload_length source\<rparr>"

definition Clone :: "web_socket_frame_header \<Rightarrow> web_socket_frame_header" where
  "Clone h = CopyFrom h (WebSocketFrameHeader (opcode h))"

definition IsKnownDataOpCode :: "int \<Rightarrow> bool" where
  "IsKnownDataOpCode op \<longleftrightarrow> op = 0x0 \<or> op = 0x1 \<or> op = 0x2"

definition IsKnownControlOpCode :: "int \<Rightarrow> bool" where
  "IsKnownControlOpCode op \<longleftrightarrow> op = 0x8 \<or> op = 0x9 \<or> op = 0xA"

text \<open>A chunk: the header comes with the first chunk of a frame only.\<close>

record web_socket_frame_chunk =
  chunk_header :: "web_socket_frame_header option"
  final_chunk :: bool
  chunk_data :: "uint8 list option"

definition WebSocketFrameChunk :: web_socket_frame_chunk where
  "WebSocketFrameChunk = \<lparr>chunk_header = None, final_chunk = False, chunk_data = None\<rparr>"

text \<open>\<open>WebSocketMaskingKey\<close>: an array of \<open>kMaskingKeyLength\<close> bytes.\<close>

type_synonym masking_key = "uint8 list"

definition kBaseHeaderSize :: nat where "kBaseHeaderSize = 2"
definition kMaximumExtendedLengthSize :: nat where "kMaximumExtendedLengthSize = 8"
definition kMaskingKeyLength :: nat where "kMaskingKeyLength = 4"

definition kFinalBit :: uint8 where "kFinalBit = 0x80"
definition kReserved1Bit :: uint8 where "kReserved1Bit = 0x40"
definition kReserved2Bit :: uint8 where "kReserved2Bit = 0x20"
definition kReserved3Bit :: uint8 where "kReserved3Bit = 0x10"
definition kOpCodeMask :: uint8 where "kOpCodeMask = 0xF"
definition kMaskBit :: uint8 where "kMaskBit = 0x80"
definition kMaxPayloadLengthWithoutExtendedLengthField :: uint64 where
  "kMaxPayloadLengthWithoutExtendedLengthField = 125"
definition kPayloadLengthWithTwoByteExtendedLengthField :: uint64 where
  "kPayloadLengthWithTwoByteExtendedLengthField = 126"
definition kPayloadLengthWithEightByteExtendedLengthField :: uint64 where
  "kPayloadLengthWithEightByteExtendedLengthField = 127"
definition UINT16_MAX :: uint64 where "UINT16_MAX = 0xFFFF"
definition INT32_MAX :: uint64 where "INT32_MAX = 0x7FFFFFFF"
definition INT64_MAX :: uint64 where "INT64_MAX = 0x7FFFFFFFFFFFFFFF"

lemmas ws_consts = kBaseHeaderSize_def kMaximumExtendedLengthSize_def kMaskingKeyLength_def
  kFinalBit_def kReserved1Bit_def kReserved2Bit_def kReserved3Bit_def kOpCodeMask_def kMaskBit_def
  kMaxPayloadLengthWithoutExtendedLengthField_def kPayloadLengthWithTwoByteExtendedLengthField_def
  kPayloadLengthWithEightByteExtendedLengthField_def UINT16_MAX_def INT32_MAX_def INT64_MAX_def

section \<open>Writing a header\<close>

definition GetWebSocketFrameHeaderSize :: "web_socket_frame_header \<Rightarrow> nat" where
  "GetWebSocketFrameHeaderSize h =
     (let extended_length_size =
        (if payload_length h > kMaxPayloadLengthWithoutExtendedLengthField \<and>
            payload_length h \<le> UINT16_MAX then 2
         else if payload_length h > UINT16_MAX then 8
         else 0)
      in kBaseHeaderSize + extended_length_size + (if masked h then kMaskingKeyLength else 0))"

definition header_first_byte :: "web_socket_frame_header \<Rightarrow> uint8" where
  "header_first_byte h =
     (let first_byte = 0;
          first_byte = first_byte OR (if final h then kFinalBit else 0);
          first_byte = first_byte OR (if reserved1 h then kReserved1Bit else 0);
          first_byte = first_byte OR (if reserved2 h then kReserved2Bit else 0);
          first_byte = first_byte OR (if reserved3 h then kReserved3Bit else 0)
      in first_byte OR (word_of_int (opcode h) AND kOpCodeMask))"

text \<open>The second byte and the size of the extended length.\<close>

definition header_second_byte :: "web_socket_frame_header \<Rightarrow> uint8 \<times> nat" where
  "header_second_byte h =
     (let second_byte = (if masked h then kMaskBit else 0)
      in if payload_length h \<le> kMaxPayloadLengthWithoutExtendedLengthField
         then (second_byte OR ucast (payload_length h), 0)
         else if payload_length h \<le> UINT16_MAX
         then (second_byte OR ucast kPayloadLengthWithTwoByteExtendedLengthField, 2)
         else (second_byte OR ucast kPayloadLengthWithEightByteExtendedLengthField, 8))"

definition WriteWebSocketFrameHeader ::
    "web_socket_frame_header \<Rightarrow> masking_key option \<Rightarrow> uint8 list \<Rightarrow> (net_error + nat) \<times> uint8 list" where
  "WriteWebSocketFrameHeader h key buffer =
     (let header_size = GetWebSocketFrameHeaderSize h
      in if header_size > length buffer then (Inl ERR_INVALID_ARGUMENT, buffer)
         else
           (let buffer_index = 0;
                buffer = store_bytes buffer_index [header_first_byte h] buffer;
                buffer_index = buffer_index + 1;
                (second_byte, extended_length_size) = header_second_byte h;
                buffer = store_bytes buffer_index [second_byte] buffer;
                buffer_index = buffer_index + 1;
                (buffer, buffer_index) =
                  (if extended_length_size = 2
                   then (let payload_length_16 = ucast (payload_length h) :: 16 word
                         in (store_bytes buffer_index (WriteBigEndian payload_length_16) buffer,
                             buffer_index + sizeof TYPE(16)))
                   else if extended_length_size = 8
                   then (store_bytes buffer_index (WriteBigEndian (payload_length h)) buffer,
                         buffer_index + sizeof TYPE(64))
                   else (buffer, buffer_index));
                buffer =
                  (if masked h
                   then (case key of Some k \<Rightarrow> store_bytes buffer_index k buffer | None \<Rightarrow> buffer)
                   else buffer)
            in (Inr header_size, buffer)))"

definition WriteWebSocketFrameHeader_dcheck :: "web_socket_frame_header \<Rightarrow> masking_key option \<Rightarrow> bool" where
  "WriteWebSocketFrameHeader_dcheck h key \<longleftrightarrow>
     opcode h AND uint kOpCodeMask = opcode h \<and> payload_length h \<le> INT64_MAX \<and>
     (masked h \<longleftrightarrow> key \<noteq> None)"

section \<open>Masking\<close>

fun MaskWebSocketFramePayloadByBytes :: "masking_key \<Rightarrow> nat \<Rightarrow> uint8 list \<Rightarrow> uint8 list" where
  "MaskWebSocketFramePayloadByBytes key off [] = []"
| "MaskWebSocketFramePayloadByBytes key off (c # cs) =
     (c XOR (key ! off)) #
     (let off = off + 1
      in MaskWebSocketFramePayloadByBytes key (if off = kMaskingKeyLength then 0 else off) cs)"

text \<open>
  \<open>PackedMaskType\<close> is a vector of 16 bytes with GCC on x86 and a \<open>size_t\<close> otherwise; its value is
  kept as the bytes it has in memory.
\<close>

datatype packed_mask_type = Vector16 | SizeT32 | SizeT64

definition kPackedMaskKeySize :: "packed_mask_type \<Rightarrow> nat" where
  "kPackedMaskKeySize pm = (case pm of Vector16 \<Rightarrow> 16 | SizeT32 \<Rightarrow> 4 | SizeT64 \<Rightarrow> 8)"

text \<open>\<open>*merged ^= packed_mask_key\<close>, packed word after packed word.\<close>

function mask_packed :: "uint8 list \<Rightarrow> uint8 list \<Rightarrow> uint8 list" where
  "mask_packed packed_mask_key merged =
     (if merged = [] \<or> packed_mask_key = [] then merged
      else
        map2 (XOR) (take (length packed_mask_key) merged) packed_mask_key @
        mask_packed packed_mask_key (drop (length packed_mask_key) merged))"
  by pat_completeness auto
termination by (relation "measure (length \<circ> snd)") auto

declare mask_packed.simps [simp del]

definition MaskWebSocketFramePayload ::
    "packed_mask_type \<Rightarrow> masking_key \<Rightarrow> uint64 \<Rightarrow> nat \<Rightarrow> uint8 list \<Rightarrow> uint8 list" where
  "MaskWebSocketFramePayload pm key frame_offset data_addr data =
     (let data_size = length data;
          size = kPackedMaskKeySize pm;
          key_offset = (\<lambda>n. unat ((frame_offset + of_nat n) mod of_nat kMaskingKeyLength))
      in if data_size \<le> size * 2
         then MaskWebSocketFramePayloadByBytes key (key_offset 0) data
         else
           (let data_modulus = data_addr mod size;
                aligned_begin = (if data_modulus = 0 then 0 else size - data_modulus);
                masked_head =
                  MaskWebSocketFramePayloadByBytes key (key_offset 0) (take aligned_begin data);
                end_modulus = (data_addr + data_size) mod size;
                aligned_end = data_size - end_modulus;
                realigned_mask =
                  MaskWebSocketFramePayloadByBytes key (key_offset aligned_begin)
                    (replicate kMaskingKeyLength 0);
                packed_mask_key = concat (replicate (size div kMaskingKeyLength) realigned_mask);
                masked_middle =
                  mask_packed packed_mask_key
                    (take (aligned_end - aligned_begin) (drop aligned_begin data));
                masked_tail =
                  MaskWebSocketFramePayloadByBytes key (key_offset aligned_end) (drop aligned_end data)
            in masked_head @ masked_middle @ masked_tail))"

text \<open>
  The assertions of the vectorised branch, and that its main loop, which runs until its pointer
  equals \<open>aligned_end\<close>, meets it.
\<close>

definition MaskWebSocketFramePayload_dcheck :: "packed_mask_type \<Rightarrow> nat \<Rightarrow> nat \<Rightarrow> bool" where
  "MaskWebSocketFramePayload_dcheck pm data_addr data_size \<longleftrightarrow>
     (let size = kPackedMaskKeySize pm;
          data_modulus = data_addr mod size;
          aligned_begin = (if data_modulus = 0 then 0 else size - data_modulus);
          aligned_end = data_size - (data_addr + data_size) mod size
      in data_size \<le> size * 2 \<or>
         aligned_begin < data_size \<and> aligned_begin < aligned_end \<and>
         size dvd (aligned_end - aligned_begin))"

section \<open>Masking byte by byte\<close>

text \<open>The specification: the byte at offset \<open>i\<close> of the payload is combined with byte \<open>i mod 4\<close> of the key.\<close>

definition mask_bytes :: "masking_key \<Rightarrow> nat \<Rightarrow> uint8 list \<Rightarrow> uint8 list" where
  "mask_bytes key off data = map2 (\<lambda>i c. c XOR (key ! (i mod 4))) [off..<off + length data] data"

lemma length_mask_bytes [simp]: "length (mask_bytes key off data) = length data"
  by (simp add: mask_bytes_def)

lemma nth_mask_bytes [simp]:
  "i < length data \<Longrightarrow> mask_bytes key off data ! i = data ! i XOR (key ! ((off + i) mod 4))"
  by (simp add: mask_bytes_def)

lemma mask_bytes_append:
  "mask_bytes key off (xs @ ys) = mask_bytes key off xs @ mask_bytes key (off + length xs) ys"
  by (rule nth_equalityI) (auto simp: nth_append add.assoc)

lemma mask_bytes_mod: "off mod 4 = off' mod 4 \<Longrightarrow> mask_bytes key off xs = mask_bytes key off' xs"
  by (rule nth_equalityI) (auto, metis mod_add_left_eq)

lemma mask_bytes_twice: "mask_bytes key off (mask_bytes key off xs) = xs"
  by (rule nth_equalityI) (auto simp: xor.assoc)

lemma mask_bytes_Nil [simp]: "mask_bytes key off [] = []"
  by (simp add: mask_bytes_def)

lemma mask_bytes_zero: "mask_bytes (replicate 4 0) off xs = xs"
  by (rule nth_equalityI) auto

lemma MaskByBytes_eq:
  "off < 4 \<Longrightarrow> MaskWebSocketFramePayloadByBytes key off data = mask_bytes key off data"
proof (induction data arbitrary: off)
  case Nil
  then show ?case by simp
next
  case (Cons c cs)
  have "mask_bytes key off (c # cs) = (c XOR (key ! off)) # mask_bytes key (off + 1) cs"
    using mask_bytes_append [of key off "[c]" cs] Cons.prems by (simp add: mask_bytes_def)
  then show ?case
    using Cons by (auto simp: kMaskingKeyLength_def Let_def mask_bytes_mod [of 0 4])
qed

text \<open>The packed key holds whole turns of the realigned key.\<close>

lemma nth_concat_replicate:
  "i < n * length ys \<Longrightarrow> concat (replicate n ys) ! i = ys ! (i mod length ys)"
proof (induction n arbitrary: i)
  case (Suc n)
  then show ?case by (auto simp: nth_append mod_if)
qed simp

lemma mask_packed_eq:
  assumes "packed \<noteq> []" and "\<And>i. i < length packed \<Longrightarrow> packed ! i = key ! ((off + i) mod 4)"
    and "4 dvd length packed" and "length packed dvd length data"
  shows "mask_packed packed data = mask_bytes key off data"
  using assms
proof (induction packed data rule: mask_packed.induct)
  case (1 packed data)
  show ?case
  proof (cases "data = []")
    case True
    then show ?thesis by (simp add: mask_packed.simps)
  next
    case False
    let ?n = "length packed"
    have n: "?n \<le> length data" using False "1.prems"(4) by (simp add: dvd_imp_le)
    have word: "map2 (XOR) (take ?n data) packed = mask_bytes key off (take ?n data)"
      using n "1.prems"(2) by (intro nth_equalityI) simp_all
    have "mask_packed packed (drop ?n data) = mask_bytes key off (drop ?n data)"
      using False "1.prems" n by (intro "1.IH") (auto intro: dvd_diff_nat)
    also have "\<dots> = mask_bytes key (off + ?n) (drop ?n data)"
      using "1.prems"(3) by (intro mask_bytes_mod) (auto elim!: dvdE)
    finally have rest: "mask_packed packed (drop ?n data) = mask_bytes key (off + ?n) (drop ?n data)" .
    have "mask_packed packed data = map2 (XOR) (take ?n data) packed @ mask_packed packed (drop ?n data)"
      using False "1.prems"(1) by (subst mask_packed.simps) simp
    also have "\<dots> = mask_bytes key off (take ?n data @ drop ?n data)"
      unfolding word rest mask_bytes_append using n by simp
    finally show ?thesis by simp
  qed
qed

text \<open>The offset into the key, computed in 64-bit arithmetic, wraps around at a multiple of four.\<close>

lemma key_offset_eq:
  "unat ((w + of_nat n) mod of_nat kMaskingKeyLength :: uint64) = (unat w + n) mod 4"
proof -
  have "unat ((w + of_nat n) mod 4 :: uint64) = unat (w + of_nat n) mod 4"
    by (simp add: unat_mod)
  also have "\<dots> = (unat w + n) mod 2 ^ 64 mod 4"
    by (simp add: unat_word_ariths unat_of_nat mod_add_right_eq)
  also have "\<dots> = (unat w + n) mod 4" by (rule mod_mod_cancel) simp
  finally show ?thesis by (simp add: kMaskingKeyLength_def)
qed

lemma MaskByBytes_at:
  "MaskWebSocketFramePayloadByBytes key (unat ((w + of_nat n) mod of_nat kMaskingKeyLength :: uint64)) data =
     mask_bytes key (unat w + n) data"
  unfolding key_offset_eq by (simp add: MaskByBytes_eq mask_bytes_mod [of "_ mod 4"])

lemma packed_size: "0 < kPackedMaskKeySize pm" "4 dvd kPackedMaskKeySize pm"
  by (cases pm; simp add: kPackedMaskKeySize_def)+

text \<open>The aligned middle part lies inside the data and is made of whole packed words.\<close>

lemma aligned_middle:
  fixes size addr len :: nat
  defines "b \<equiv> if addr mod size = 0 then 0 else size - addr mod size"
    and "e \<equiv> len - (addr + len) mod size"
  assumes "0 < size" and "size * 2 < len"
  shows "b < size" "b < e" "e \<le> len" "size dvd e - b"
proof -
  have m: "addr mod size < size" "(addr + len) mod size < size" using assms(3) by simp_all
  show bs: "b < size" using assms(3) by (simp add: b_def)
  show be: "b < e" unfolding e_def using bs m(2) assms(4) by linarith
  show "e \<le> len" by (simp add: e_def)
  have "size dvd addr + b"
  proof (cases "addr mod size = 0")
    case False
    then have "addr + b = (addr - addr mod size) + size"
      using m(1) mod_less_eq_dividend [of addr size] by (simp add: b_def)
    then show ?thesis by (simp add: minus_mod_eq_mult_div)
  qed (simp add: b_def mod_0_imp_dvd)
  moreover have "addr + e = (addr + len) - (addr + len) mod size"
    using m(2) assms(4) by (simp add: e_def)
  then have "size dvd addr + e" by (simp add: minus_mod_eq_mult_div)
  ultimately have "size dvd (addr + e) - (addr + b)" by (rule dvd_diff_nat [rotated])
  then show "size dvd e - b" by simp
qed

lemma mask_bytes_add: "mask_bytes key (unat (w + of_nat n :: uint64)) xs = mask_bytes key (unat w + n) xs"
  using key_offset_eq [of w n] by (intro mask_bytes_mod) (simp add: kMaskingKeyLength_def unat_mod)

lemma MaskWebSocketFramePayload_eq:
  "MaskWebSocketFramePayload pm key frame_offset addr data = mask_bytes key (unat frame_offset) data"
proof (cases "length data \<le> kPackedMaskKeySize pm * 2")
  case True
  then show ?thesis
    unfolding MaskWebSocketFramePayload_def Let_def MaskByBytes_at by simp
next
  case False
  define size where "size = kPackedMaskKeySize pm"
  define b where "b = (if addr mod size = 0 then 0 else size - addr mod size)"
  define e where "e = length data - (addr + length data) mod size"
  define k where "k = unat frame_offset"
  note mid = aligned_middle [of size "length data" addr, folded b_def e_def]
  have m: "b < size" "b < e" "e \<le> length data" "size dvd e - b"
    using mid packed_size(1) [of pm] False by (simp_all add: size_def)
  define turn where "turn = mask_bytes key (k + b) (replicate 4 0)"
  define packed where "packed = concat (replicate (size div 4) turn)"
  have len: "length packed = size"
    using packed_size(2) [of pm] by (simp add: packed_def turn_def length_concat sum_list_replicate size_def)
  have nth: "packed ! i = key ! ((k + b + i) mod 4)" if "i < length packed" for i
    using that nth_concat_replicate [of i "size div 4" turn] len packed_size(2) [of pm]
    by (simp add: packed_def turn_def size_def, metis mod_add_right_eq)
  have mask: "MaskWebSocketFramePayload pm key frame_offset addr data =
      mask_bytes key k (take b data) @ mask_packed packed (take (e - b) (drop b data)) @
      mask_bytes key (k + e) (drop e data)"
    unfolding MaskWebSocketFramePayload_def Let_def MaskByBytes_at size_def [symmetric] b_def [symmetric]
      e_def [symmetric] k_def [symmetric] packed_def turn_def
    using False by (simp add: size_def kMaskingKeyLength_def)
  have middle: "mask_packed packed (take (e - b) (drop b data)) = mask_bytes key (k + b) (take (e - b) (drop b data))"
    using nth len m packed_size [of pm] by (intro mask_packed_eq) (auto simp: size_def)
  have parts: "data = take b data @ take (e - b) (drop b data) @ drop e data"
    using m(2) by (metis add_diff_inverse_nat append_take_drop_id drop_drop not_less_iff_gr_or_eq add.commute less_imp_le_nat le_add_diff_inverse2)
  have "mask_bytes key k (take b data @ take (e - b) (drop b data) @ drop e data) =
      mask_bytes key k (take b data) @ mask_bytes key (k + b) (take (e - b) (drop b data)) @
      mask_bytes key (k + e) (drop e data)"
    unfolding mask_bytes_append using m by simp
  then show ?thesis unfolding mask middle k_def [symmetric] parts [symmetric] by simp
qed

section \<open>The bytes of a header\<close>

text \<open>What \<open>WriteWebSocketFrameHeader\<close> stores, as one list.\<close>

definition length_bytes :: "web_socket_frame_header \<Rightarrow> uint8 list" where
  "length_bytes h =
     (if payload_length h \<le> kMaxPayloadLengthWithoutExtendedLengthField then []
      else if payload_length h \<le> UINT16_MAX then WriteBigEndian (ucast (payload_length h) :: 16 word)
      else WriteBigEndian (payload_length h))"

definition header_bytes :: "web_socket_frame_header \<Rightarrow> masking_key \<Rightarrow> uint8 list" where
  "header_bytes h key =
     [header_first_byte h, fst (header_second_byte h)] @ length_bytes h @ (if masked h then key else [])"

lemma header_sizes:
  "length (length_bytes h) =
     (if payload_length h \<le> kMaxPayloadLengthWithoutExtendedLengthField then 0
      else if payload_length h \<le> UINT16_MAX then 2 else 8)"
  "GetWebSocketFrameHeaderSize h = 2 + length (length_bytes h) + (if masked h then 4 else 0)"
proof -
  have "\<not> payload_length h > UINT16_MAX" if "payload_length h \<le> kMaxPayloadLengthWithoutExtendedLengthField"
    using that by (simp add: ws_consts not_less) (erule order_trans, simp)
  then show "length (length_bytes h) =
     (if payload_length h \<le> kMaxPayloadLengthWithoutExtendedLengthField then 0
      else if payload_length h \<le> UINT16_MAX then 2 else 8)"
    "GetWebSocketFrameHeaderSize h = 2 + length (length_bytes h) + (if masked h then 4 else 0)"
    by (auto simp: length_bytes_def GetWebSocketFrameHeaderSize_def Let_def kBaseHeaderSize_def
        kMaskingKeyLength_def not_le)
qed

lemma length_header_bytes:
  "length key = 4 \<Longrightarrow> length (header_bytes h key) = GetWebSocketFrameHeaderSize h"
  by (simp add: header_bytes_def header_sizes(2))

lemma store_bytes_next:
  "store_bytes (length pre) bs (pre @ rest) = (pre @ bs) @ drop (length bs) rest"
  by (simp add: store_bytes_def)

lemma WriteWebSocketFrameHeader_eq:
  assumes "length key = 4" and "GetWebSocketFrameHeaderSize h \<le> length buffer"
  shows "WriteWebSocketFrameHeader h (if masked h then Some key else None) buffer =
    (Inr (GetWebSocketFrameHeaderSize h),
     header_bytes h key @ drop (GetWebSocketFrameHeaderSize h) buffer)"
proof -
  obtain b1 b2 rest where buffer: "buffer = b1 # b2 # rest"
    using assms(2) header_sizes(2) [of h] by (cases buffer; cases "tl buffer") auto
  have small: "\<not> UINT16_MAX < payload_length h" if "payload_length h \<le> kMaxPayloadLengthWithoutExtendedLengthField"
    using that by (simp add: ws_consts not_less) (erule order_trans, simp)
  show ?thesis
    using assms small
    by (cases "payload_length h \<le> kMaxPayloadLengthWithoutExtendedLengthField";
        cases "payload_length h \<le> UINT16_MAX"; cases "masked h")
      (simp_all add: WriteWebSocketFrameHeader_def Let_def header_second_byte_def store_bytes_def
        header_bytes_def length_bytes_def header_sizes buffer numeral_eq_Suc)
qed

section \<open>Properties\<close>

text \<open>[C23]
  The vectorised masking equals the byte-by-byte loop over the whole payload: for every packed
  word size, payload address, frame offset (up to its 64-bit wrap-around) and length, and its
  main loop meets its end pointer exactly.
\<close>

theorem masking_equals_byte_loop:
  "MaskWebSocketFramePayload pm key frame_offset data_addr data =
     MaskWebSocketFramePayloadByBytes key (unat (frame_offset mod of_nat kMaskingKeyLength)) data \<and>
   MaskWebSocketFramePayload_dcheck pm data_addr (length data)"
proof -
  have "length data \<le> kPackedMaskKeySize pm * 2 \<or> MaskWebSocketFramePayload_dcheck pm data_addr (length data)"
    using aligned_middle [OF packed_size(1), of pm "length data" data_addr]
    unfolding MaskWebSocketFramePayload_dcheck_def Let_def by (meson dual_order.strict_trans2 not_le)
  then have "MaskWebSocketFramePayload_dcheck pm data_addr (length data)"
    by (auto simp: MaskWebSocketFramePayload_dcheck_def Let_def)
  then show ?thesis
    using MaskByBytes_at [of key frame_offset 0 data] by (simp add: MaskWebSocketFramePayload_eq)
qed

text \<open>
  Masking is its own inverse and can be applied piece by piece: unmasking a payload that was
  masked as a whole, in pieces at their own offsets and addresses, gives the payload back.
\<close>

theorem unmasking_in_pieces:
  "MaskWebSocketFramePayload pm1 key frame_offset addr1 xs @
   MaskWebSocketFramePayload pm2 key (frame_offset + of_nat (length xs)) addr2 ys =
   MaskWebSocketFramePayload pm3 key frame_offset addr3 (xs @ ys) \<and>
   MaskWebSocketFramePayload pm1 key frame_offset addr1
     (MaskWebSocketFramePayload pm3 key frame_offset addr3 xs) = xs"
  unfolding MaskWebSocketFramePayload_eq mask_bytes_append mask_bytes_twice mask_bytes_add by simp

end
