(* ===== verification/WebSocket_Frame_Parser.thy ===== *)
theory WebSocket_Frame_Parser
  imports WebSocket_Frame
begin

text \<open>
  \<open>net/websockets/websocket_frame_parser.{h,cc}\<close> and \<open>websocket_errors.{h,cc}\<close>: the incremental
  parser of a WebSocket byte stream. Shown: the loop of \<open>Decode\<close> ends; its assertions hold; it
  refines a specification that scans the stream; what it reports does not depend on how the
  stream is cut into pieces; and it returns the frames that the writer of
  \<open>websocket_frame.cc\<close> put on the wire.
\<close>

section \<open>Errors\<close>

datatype web_socket_error =
    kWebSocketNormalClosure | kWebSocketErrorGoingAway | kWebSocketErrorProtocolError
  | kWebSocketErrorUnsupportedData | kWebSocketErrorNoStatusReceived | kWebSocketErrorAbnormalClosure
  | kWebSocketErrorInvalidFramePayloadData | kWebSocketErrorPolicyViolation
  | kWebSocketErrorMessageTooBig | kWebSocketErrorMandatoryExtension
  | kWebSocketErrorInternalServerError | kWebSocketErrorTlsHandshake
  | kWebSocketErrorProtocolReservedMax | kWebSocketErrorRegisteredReservedMin
  | kWebSocketErrorRegisteredReservedMax | kWebSocketErrorPrivateReservedMin
  | kWebSocketErrorPrivateReservedMax

text \<open>\<open>None\<close> stands for \<open>OK\<close>.\<close>

fun WebSocketErrorToNetError :: "web_socket_error \<Rightarrow> net_error option" where
  "WebSocketErrorToNetError kWebSocketNormalClosure = None"
| "WebSocketErrorToNetError kWebSocketErrorGoingAway = Some ERR_WS_PROTOCOL_ERROR"
| "WebSocketErrorToNetError kWebSocketErrorProtocolError = Some ERR_WS_PROTOCOL_ERROR"
| "WebSocketErrorToNetError kWebSocketErrorUnsupportedData = Some ERR_WS_PROTOCOL_ERROR"
| "WebSocketErrorToNetError kWebSocketErrorInvalidFramePayloadData = Some ERR_WS_PROTOCOL_ERROR"
| "WebSocketErrorToNetError kWebSocketErrorPolicyViolation = Some ERR_WS_PROTOCOL_ERROR"
| "WebSocketErrorToNetError kWebSocketErrorMandatoryExtension = Some ERR_WS_PROTOCOL_ERROR"
| "WebSocketErrorToNetError kWebSocketErrorInternalServerError = Some ERR_WS_PROTOCOL_ERROR"
| "WebSocketErrorToNetError kWebSocketErrorNoStatusReceived = Some ERR_CONNECTION_CLOSED"
| "WebSocketErrorToNetError kWebSocketErrorAbnormalClosure = Some ERR_CONNECTION_CLOSED"
| "WebSocketErrorToNetError kWebSocketErrorTlsHandshake = Some ERR_SSL_PROTOCOL_ERROR"
| "WebSocketErrorToNetError kWebSocketErrorMessageTooBig = Some ERR_MSG_TOO_BIG"
| "WebSocketErrorToNetError _ = Some ERR_UNEXPECTED"

section \<open>The parser\<close>

record web_socket_frame_parser =
  p_buffer :: "uint8 list"
  current_read_pos :: nat
  current_frame_header :: "web_socket_frame_header option"
  p_masking_key :: masking_key
  p_frame_offset :: uint64
  websocket_error :: web_socket_error

definition WebSocketFrameParser :: web_socket_frame_parser where
  "WebSocketFrameParser =
     \<lparr>p_buffer = [], current_read_pos = 0, current_frame_header = None,
      p_masking_key = replicate kMaskingKeyLength 0, p_frame_offset = 0,
      websocket_error = kWebSocketNormalClosure\<rparr>"

definition kPayloadLengthMask :: uint8 where "kPayloadLengthMask = 0x7F"

text \<open>
  The payload length field of \<open>DecodeFrameHeader\<close>: the length, the input after it and the error
  it raises; \<open>None\<close> when the input ends inside the field.
\<close>

definition decode_payload_length ::
    "uint64 \<Rightarrow> uint8 list \<Rightarrow> web_socket_error \<Rightarrow> (uint64 \<times> uint8 list \<times> web_socket_error) option" where
  "decode_payload_length len current error =
     (if len = kPayloadLengthWithTwoByteExtendedLengthField
      then
        (if length current < 2 then None
         else
           (let payload_length_16 = ReadBigEndian current :: 16 word;
                current = drop 2 current;
                payload_length = ucast payload_length_16
            in Some (payload_length, current,
                     if payload_length \<le> kMaxPayloadLengthWithoutExtendedLengthField
                     then kWebSocketErrorProtocolError else error)))
      else if len = kPayloadLengthWithEightByteExtendedLengthField
      then
        (if length current < 8 then None
         else
           (let payload_length = ReadBigEndian current;
                current = drop 8 current
            in Some (payload_length, current,
                     if payload_length \<le> UINT16_MAX \<or> payload_length > INT64_MAX
                     then kWebSocketErrorProtocolError
                     else if payload_length > INT32_MAX then kWebSocketErrorMessageTooBig
                     else error)))
      else Some (len, current, error))"

definition DecodeFrameHeader :: "web_socket_frame_parser \<Rightarrow> web_socket_frame_parser" where
  "DecodeFrameHeader p =
     (let start = drop (current_read_pos p) (p_buffer p);
          current = start
      in if length current < 2 then p
         else
           (let first_byte = current ! 0;
                second_byte = current ! 1;
                current = drop 2 current;
                final = (first_byte AND kFinalBit \<noteq> 0);
                reserved1 = (first_byte AND kReserved1Bit \<noteq> 0);
                reserved2 = (first_byte AND kReserved2Bit \<noteq> 0);
                reserved3 = (first_byte AND kReserved3Bit \<noteq> 0);
                opcode = uint (first_byte AND kOpCodeMask);
                masked = (second_byte AND kMaskBit \<noteq> 0);
                payload_length = ucast (second_byte AND kPayloadLengthMask)
            in case decode_payload_length payload_length current (websocket_error p) of
                 None \<Rightarrow> p
               | Some (payload_length, current, error) \<Rightarrow>
                   if error \<noteq> kWebSocketNormalClosure
                   then p\<lparr>websocket_error := error, p_buffer := [], current_read_pos := 0,
                          current_frame_header := None, p_frame_offset := 0\<rparr>
                   else if masked \<and> length current < kMaskingKeyLength then p
                   else
                     (let (key, current) =
                            (if masked
                             then (take kMaskingKeyLength current, drop kMaskingKeyLength current)
                             else (replicate kMaskingKeyLength 0, current))
                      in p\<lparr>websocket_error := error, p_masking_key := key,
                           current_frame_header :=
                             Some \<lparr>final = final, reserved1 = reserved1, reserved2 = reserved2,
                                   reserved3 = reserved3, opcode = opcode, masked = masked,
                                   payload_length = payload_length\<rparr>,
                           current_read_pos :=
                             current_read_pos p + (length start - length current)\<rparr>)))"

text \<open>
  \<open>static_cast<int>\<close> of a size keeps the low 32 bits; \<open>addr\<close> is the address at which the buffer
  of the new chunk is allocated.
\<close>

definition cast_to_int :: "nat \<Rightarrow> int" where
  "cast_to_int n = sint (of_nat n :: 32 word)"

definition DecodeFramePayload ::
    "packed_mask_type \<Rightarrow> (web_socket_frame_parser \<Rightarrow> nat) \<Rightarrow> bool \<Rightarrow> web_socket_frame_header \<Rightarrow>
     web_socket_frame_parser \<Rightarrow> web_socket_frame_chunk \<times> web_socket_frame_parser" where
  "DecodeFramePayload pm addr first_chunk h p =
     (let next_size =
            cast_to_int (min (length (p_buffer p) - current_read_pos p)
                             (unat (payload_length h - p_frame_offset p)));
          frame_chunk = WebSocketFrameChunk;
          frame_chunk = (if first_chunk then frame_chunk\<lparr>chunk_header := Some (Clone h)\<rparr> else frame_chunk);
          frame_chunk = frame_chunk\<lparr>final_chunk := False\<rparr>;
          (frame_chunk, p') =
            (if next_size \<noteq> 0
             then
               (let io_data = take (nat next_size) (drop (current_read_pos p) (p_buffer p));
                    io_data = (if masked h
                               then MaskWebSocketFramePayload pm (p_masking_key p) (p_frame_offset p)
                                      (addr p) io_data
                               else io_data)
                in (frame_chunk\<lparr>chunk_data := Some io_data\<rparr>,
                    p\<lparr>current_read_pos := current_read_pos p + nat next_size,
                      p_frame_offset := p_frame_offset p + of_int next_size\<rparr>))
             else (frame_chunk, p))
      in if p_frame_offset p' = payload_length h
         then (frame_chunk\<lparr>final_chunk := True\<rparr>,
               p'\<lparr>current_frame_header := None, p_frame_offset := 0\<rparr>)
         else (frame_chunk, p'))"

text \<open>
  The first half of an iteration of \<open>Decode\<close>: \<open>Inl ok\<close> leaves the loop, by \<open>return false\<close> or
  by \<open>break\<close>; \<open>Inr (first_chunk, header)\<close> goes on to the payload.
\<close>

definition next_frame ::
    "web_socket_frame_parser \<Rightarrow>
     (bool + bool \<times> web_socket_frame_header) \<times> web_socket_frame_parser" where
  "next_frame p =
     (case current_frame_header p of
        Some h \<Rightarrow> (Inr (False, h), p)
      | None \<Rightarrow>
          (let p = DecodeFrameHeader p
           in if websocket_error p \<noteq> kWebSocketNormalClosure then (Inl False, p)
              else case current_frame_header p of
                     None \<Rightarrow> (Inl True, p)
                   | Some h \<Rightarrow> (Inr (True, h), p)))"

lemma decode_payload_length_rest:
  "decode_payload_length n xs e = Some (len, rest, e') \<Longrightarrow> length rest \<le> length xs"
  by (auto simp: decode_payload_length_def Let_def split: if_splits)

lemma DecodeFrameHeader_progress:
  assumes "current_frame_header p = None" and "current_frame_header (DecodeFrameHeader p) \<noteq> None"
  shows "p_buffer (DecodeFrameHeader p) = p_buffer p"
    and "current_read_pos p + 2 \<le> current_read_pos (DecodeFrameHeader p)"
proof -
  have "p_buffer (DecodeFrameHeader p) = p_buffer p \<and>
      current_read_pos p + 2 \<le> current_read_pos (DecodeFrameHeader p)"
    using assms
    by (auto simp: DecodeFrameHeader_def Let_def dest!: decode_payload_length_rest
        split: if_splits option.splits prod.splits)
  then show "p_buffer (DecodeFrameHeader p) = p_buffer p"
    "current_read_pos p + 2 \<le> current_read_pos (DecodeFrameHeader p)" by simp_all
qed

lemma DecodeFramePayload_progress:
  "p_buffer (snd (DecodeFramePayload pm addr f h p)) = p_buffer p"
  "current_read_pos p \<le> current_read_pos (snd (DecodeFramePayload pm addr f h p))"
  by (simp_all add: DecodeFramePayload_def Let_def split: prod.splits if_splits)

definition loop_measure :: "web_socket_frame_parser \<Rightarrow> nat" where
  "loop_measure p =
     2 * (length (p_buffer p) - current_read_pos p) + (if current_frame_header p = None then 0 else 1)"

lemma loop_measure_decreases:
  assumes "current_read_pos p < length (p_buffer p)" and "next_frame p = (Inr (f, h), q)"
    and "DecodeFramePayload pm addr f h q = (c, r)" and "current_frame_header r = None"
  shows "loop_measure r < loop_measure p"
proof -
  have r: "p_buffer r = p_buffer q" "current_read_pos q \<le> current_read_pos r"
    using DecodeFramePayload_progress [where p = q and pm = pm and addr = addr and f = f and h = h] assms(3)
    by simp_all
  show ?thesis
  proof (cases "current_frame_header p")
    case None
    then have "q = DecodeFrameHeader p" "current_frame_header q \<noteq> None"
      using assms(2) by (auto simp: next_frame_def Let_def split: if_splits option.splits)
    then show ?thesis
      using DecodeFrameHeader_progress [OF None] r assms(1,4) None by (simp add: loop_measure_def)
  next
    case (Some h')
    then have "q = p" using assms(2) by (simp add: next_frame_def)
    then show ?thesis using r assms(1,4) Some by (simp add: loop_measure_def)
  qed
qed

text \<open>The loop of \<open>Decode\<close>, with the chunks it appends; the flag is false after \<open>return false\<close>.\<close>

function Decode_loop ::
    "packed_mask_type \<Rightarrow> (web_socket_frame_parser \<Rightarrow> nat) \<Rightarrow> web_socket_frame_parser \<Rightarrow>
     bool \<times> web_socket_frame_parser \<times> web_socket_frame_chunk list" where
  "Decode_loop pm addr p =
     (if current_read_pos p < length (p_buffer p)
      then
        (case next_frame p of
           (Inl ok, p) \<Rightarrow> (ok, p, [])
         | (Inr (first_chunk, h), p) \<Rightarrow>
             (case DecodeFramePayload pm addr first_chunk h p of
                (frame_chunk, p) \<Rightarrow>
                  if current_frame_header p \<noteq> None then (True, p, [frame_chunk])
                  else (case Decode_loop pm addr p of
                          (ok, p, frame_chunks) \<Rightarrow> (ok, p, frame_chunk # frame_chunks))))
      else (True, p, []))"
  by pat_completeness auto
termination
  by (relation "measure (\<lambda>(pm, addr, p). loop_measure p)")
    (auto intro: loop_measure_decreases [OF _ sym sym])

declare Decode_loop.simps [simp del]

definition Decode ::
    "packed_mask_type \<Rightarrow> (web_socket_frame_parser \<Rightarrow> nat) \<Rightarrow> uint8 list \<Rightarrow>
     web_socket_frame_chunk list \<Rightarrow> web_socket_frame_parser \<Rightarrow>
     bool \<times> web_socket_frame_parser \<times> web_socket_frame_chunk list" where
  "Decode pm addr data frame_chunks p =
     (if websocket_error p \<noteq> kWebSocketNormalClosure then (False, p, frame_chunks)
      else if data = [] then (True, p, frame_chunks)
      else
        (case Decode_loop pm addr (p\<lparr>p_buffer := p_buffer p @ data\<rparr>) of
           (ok, p, chunks) \<Rightarrow>
             if ok
             then (True,
                   p\<lparr>p_buffer := drop (current_read_pos p) (p_buffer p), current_read_pos := 0\<rparr>,
                   frame_chunks @ chunks)
             else (False, p, frame_chunks @ chunks)))"

section \<open>The stream specification\<close>

text \<open>
  What a chunk reports, byte by byte: chunks that cut a frame at different places report the same
  events.
\<close>

datatype frame_event = FrameStart web_socket_frame_header | PayloadByte uint8 | FrameEnd

definition chunk_events :: "web_socket_frame_chunk \<Rightarrow> frame_event list" where
  "chunk_events c =
     (case chunk_header c of Some h \<Rightarrow> [FrameStart h] | None \<Rightarrow> []) @
     map PayloadByte (case chunk_data c of Some d \<Rightarrow> d | None \<Rightarrow> []) @
     (if final_chunk c then [FrameEnd] else [])"

definition events :: "web_socket_frame_chunk list \<Rightarrow> frame_event list" where
  "events cs = concat (map chunk_events cs)"

lemma events_simps [simp]:
  "events [] = []" "events (c # cs) = chunk_events c @ events cs" "events (cs @ ds) = events cs @ events ds"
  by (simp_all add: events_def)

datatype header_result =
    Incomplete
  | Malformed web_socket_error
  | Parsed web_socket_frame_header masking_key "uint8 list"

definition parse_header :: "uint8 list \<Rightarrow> header_result" where
  "parse_header xs =
     (if length xs < 2 then Incomplete
      else
        case decode_payload_length (ucast (xs ! 1 AND kPayloadLengthMask)) (drop 2 xs)
               kWebSocketNormalClosure of
          None \<Rightarrow> Incomplete
        | Some (len, rest, e) \<Rightarrow>
            if e \<noteq> kWebSocketNormalClosure then Malformed e
            else if xs ! 1 AND kMaskBit \<noteq> 0 \<and> length rest < 4 then Incomplete
            else
              Parsed
                \<lparr>final = (xs ! 0 AND kFinalBit \<noteq> 0), reserved1 = (xs ! 0 AND kReserved1Bit \<noteq> 0),
                 reserved2 = (xs ! 0 AND kReserved2Bit \<noteq> 0),
                 reserved3 = (xs ! 0 AND kReserved3Bit \<noteq> 0), opcode = uint (xs ! 0 AND kOpCodeMask),
                 masked = (xs ! 1 AND kMaskBit \<noteq> 0), payload_length = len\<rparr>
                (if xs ! 1 AND kMaskBit \<noteq> 0 then take 4 rest else replicate 4 0)
                (if xs ! 1 AND kMaskBit \<noteq> 0 then drop 4 rest else rest))"

lemma decode_payload_length_Some:
  assumes "decode_payload_length n xs kWebSocketNormalClosure = Some (len, rest, e)"
  shows "\<exists>pre. xs = pre @ rest"
    and "e = kWebSocketNormalClosure \<Longrightarrow> unat n < 128 \<Longrightarrow> unat len < 2 ^ 31"
proof -
  have "\<exists>pre. xs = pre @ drop m xs" for m by (metis append_take_drop_id)
  then show "\<exists>pre. xs = pre @ rest"
    using assms by (auto simp: decode_payload_length_def Let_def split: if_splits)
  assume e: "e = kWebSocketNormalClosure" and n: "unat n < 128"
  have "unat (ucast (w :: 16 word) :: uint64) < 2 ^ 31" for w
    by (rule order.strict_trans1 [OF unat_ucast_le]) (use unsigned_less [of w, where 'a = nat] in simp)
  moreover have "unat w < 2 ^ 31" if "w \<le> INT32_MAX" for w
    using that by (simp add: INT32_MAX_def word_le_nat_alt)
  ultimately show "unat len < 2 ^ 31"
    using assms e n by (auto simp: decode_payload_length_def Let_def not_less split: if_splits)
qed

lemma parse_header_Parsed:
  assumes "parse_header xs = Parsed h k rest"
  shows "\<exists>pre. xs = pre @ rest \<and> 2 \<le> length pre"
    and "length k = 4" and "\<not> masked h \<Longrightarrow> k = replicate 4 0"
    and "unat (payload_length h) < 2 ^ 31"
proof -
  let ?n = "ucast (xs ! 1 AND kPayloadLengthMask) :: uint64" and ?m = "xs ! 1 AND kMaskBit \<noteq> 0"
  obtain len tail where d: "decode_payload_length ?n (drop 2 xs) kWebSocketNormalClosure =
      Some (len, tail, kWebSocketNormalClosure)"
    and xs: "2 \<le> length xs" "?m \<Longrightarrow> 4 \<le> length tail"
    and h: "payload_length h = len" "masked h = ?m"
      "k = (if ?m then take 4 tail else replicate 4 0)" "rest = (if ?m then drop 4 tail else tail)"
    using assms by (auto simp: parse_header_def not_less split: if_splits option.splits prod.splits)
  note t = decode_payload_length_Some [OF d]
  have "xs ! 1 AND kPayloadLengthMask \<le> kPayloadLengthMask" by (rule word_and_le1)
  then have "unat (xs ! 1 AND kPayloadLengthMask) < 128" by (simp add: kPayloadLengthMask_def word_le_nat_alt)
  then have "unat ?n < 128" using unat_ucast_le order_le_less_trans by blast
  then show "unat (payload_length h) < 2 ^ 31" using t(2) h(1) by simp
  obtain pre where "drop 2 xs = pre @ tail" using t(1) by blast
  moreover have "tail = (if ?m then take 4 tail else []) @ rest" using h(4) by simp
  ultimately have "xs = (take 2 xs @ pre @ (if ?m then take 4 tail else [])) @ rest"
    using append_take_drop_id [of 2 xs] by simp
  moreover have "2 \<le> length (take 2 xs @ pre @ (if ?m then take 4 tail else []))" using xs(1) by simp
  ultimately show "\<exists>pre. xs = pre @ rest \<and> 2 \<le> length pre" by blast
  show "length k = 4" using h(3) xs(2) by auto
  show "\<not> masked h \<Longrightarrow> k = replicate 4 0" using h by simp
qed

datatype scan_state = Between | Inside web_socket_frame_header masking_key nat

text \<open>
  The events of a stream from a scan state on, the state after them, the bytes of an incomplete
  header that are left over, and the error that ends the scan.
\<close>

function scan ::
    "scan_state \<Rightarrow> uint8 list \<Rightarrow> frame_event list \<times> scan_state \<times> uint8 list \<times> web_socket_error" where
  "scan Between xs =
     (case parse_header xs of
        Incomplete \<Rightarrow> ([], Between, xs, kWebSocketNormalClosure)
      | Malformed e \<Rightarrow> ([], Between, [], e)
      | Parsed h k rest \<Rightarrow> apfst (Cons (FrameStart h)) (scan (Inside h k 0) rest))"
| "scan (Inside h k off) xs =
     (let n = unat (payload_length h) - off
      in if length xs < n
         then (map PayloadByte (mask_bytes k off xs), Inside h k (off + length xs), [],
               kWebSocketNormalClosure)
         else apfst (\<lambda>es. map PayloadByte (mask_bytes k off (take n xs)) @ FrameEnd # es)
                (scan Between (drop n xs)))"
  by pat_completeness auto
termination
  by (relation "measure (\<lambda>(st, xs). 2 * length xs + (case st of Between \<Rightarrow> 0 | Inside _ _ _ \<Rightarrow> 1))")
    (auto dest!: parse_header_Parsed(1))

lemma ReadBigEndian_append:
  assumes "sizeof TYPE('a) \<le> length xs" and "xs \<noteq> []"
  shows "(ReadBigEndian (xs @ ys) :: 'a::len word) = ReadBigEndian xs"
  unfolding ReadBigEndian_def using assms by (intro fold_cong) (simp_all add: nth_append)

lemma ReadBigEndian_more:
  "\<not> length xs < 2 \<Longrightarrow> (ReadBigEndian (xs @ ys) :: 16 word) = ReadBigEndian xs"
  "\<not> length xs < 8 \<Longrightarrow> (ReadBigEndian (xs @ ys) :: uint64) = ReadBigEndian xs"
  by (rule ReadBigEndian_append; auto)+

lemma decode_payload_length_append:
  assumes "decode_payload_length n xs e0 = Some (len, rest, e)"
  shows "decode_payload_length n (xs @ ys) e0 = Some (len, rest @ ys, e)"
  using assms
  by (auto simp: decode_payload_length_def Let_def ReadBigEndian_more split: if_splits)

text \<open>More input never changes what the parser made of a header.\<close>

lemma parse_header_append:
  "parse_header xs = Malformed e \<Longrightarrow> parse_header (xs @ ys) = Malformed e"
  "parse_header xs = Parsed h k rest \<Longrightarrow> parse_header (xs @ ys) = Parsed h k (rest @ ys)"
  by (auto simp: parse_header_def nth_append decode_payload_length_append
      split: if_splits option.splits prod.splits)

lemma parse_header_Malformed: "parse_header xs = Malformed e \<Longrightarrow> e \<noteq> kWebSocketNormalClosure"
  by (auto simp: parse_header_def split: if_splits option.splits prod.splits)

declare scan.simps [simp del]

lemmas scan_Between = scan.simps(1)
lemmas scan_Inside = scan.simps(2) [unfolded Let_def]

text \<open>Scanning a stream in two parts.\<close>

definition scan_on ::
    "frame_event list \<times> scan_state \<times> uint8 list \<times> web_socket_error \<Rightarrow> uint8 list \<Rightarrow>
     frame_event list \<times> scan_state \<times> uint8 list \<times> web_socket_error" where
  "scan_on r ys =
     (case r of (es, st, left, e) \<Rightarrow>
        if e \<noteq> kWebSocketNormalClosure then r else apfst (append es) (scan st (left @ ys)))"

lemma scan_on_apfst: "(\<And>es es'. f (es @ es') = f es @ es') \<Longrightarrow> scan_on (apfst f r) ys = apfst f (scan_on r ys)"
  by (auto simp: scan_on_def apfst_compose split: prod.splits)

lemma apfst_append_Nil [simp]: "apfst ((@) []) r = r"
  by (cases r) simp

lemma scan_append: "scan st (xs @ ys) = scan_on (scan st xs) ys"
proof (induction st xs rule: scan.induct)
  case (1 xs)
  show ?case
  proof (cases "parse_header xs")
    case Incomplete
    then show ?thesis by (simp add: scan_on_def scan_Between [of xs] Incomplete)
  next
    case (Malformed e)
    then have "e \<noteq> kWebSocketNormalClosure" by (rule parse_header_Malformed)
    then show ?thesis by (simp add: scan_on_def scan_Between Malformed parse_header_append(1))
  next
    case (Parsed h k rest)
    then show ?thesis
      using "1.IH" by (simp add: scan_Between parse_header_append(2) scan_on_apfst)
  qed
next
  case (2 h k off xs)
  define n where "n = unat (payload_length h) - off"
  show ?case
  proof (cases "length xs < n")
    case True
    then have part: "scan (Inside h k off) xs =
        (map PayloadByte (mask_bytes k off xs), Inside h k (off + length xs), [], kWebSocketNormalClosure)"
      by (simp add: scan_Inside n_def)
    show ?thesis
      unfolding part using True
      by (auto simp: scan_on_def scan_Inside n_def mask_bytes_append apfst_compose comp_def)
  next
    case False
    then show ?thesis
      using "2.IH" by (simp add: scan_Inside n_def Let_def scan_on_apfst)
  qed
qed

text \<open>What a scan leaves: nothing inside a frame, and less than a header between frames.\<close>

lemma parse_header_Incomplete: "parse_header xs = Incomplete \<Longrightarrow> length xs < 14"
  by (auto simp: parse_header_def decode_payload_length_def Let_def split: if_splits option.splits prod.splits)

definition scan_rest_ok :: "scan_state \<Rightarrow> uint8 list \<Rightarrow> bool" where
  "scan_rest_ok st left \<longleftrightarrow>
     (case st of
        Between \<Rightarrow> parse_header left = Incomplete
      | Inside h k off \<Rightarrow> left = [] \<and> off < unat (payload_length h))"

lemma scan_rest:
  "scan st xs = (es, st', left, kWebSocketNormalClosure) \<Longrightarrow> scan_rest_ok st' left"
proof (induction st xs arbitrary: es rule: scan.induct)
  case (1 xs)
  then show ?case
    by (auto simp: scan_Between scan_rest_ok_def parse_header_def apfst_def map_prod_def
        split: header_result.splits prod.splits if_splits option.splits)
next
  case (2 h k off xs)
  then show ?case
    by (auto simp: scan_Inside scan_rest_ok_def apfst_def map_prod_def Let_def split: if_splits prod.splits)
qed

section \<open>The parser refines the specification\<close>

definition unread :: "web_socket_frame_parser \<Rightarrow> uint8 list" where
  "unread p = drop (current_read_pos p) (p_buffer p)"

definition scan_state_of :: "web_socket_frame_parser \<Rightarrow> scan_state" where
  "scan_state_of p =
     (case current_frame_header p of
        None \<Rightarrow> Between
      | Some h \<Rightarrow> Inside h (p_masking_key p) (unat (p_frame_offset p)))"

text \<open>
  The invariant between calls. While a frame is open its offset is below its length, which fits
  an \<open>int\<close>, and the key of a frame that is not masked is zero.
\<close>

definition frame_open_ok :: "web_socket_frame_header \<Rightarrow> web_socket_frame_parser \<Rightarrow> bool" where
  "frame_open_ok h p \<longleftrightarrow>
     unat (p_frame_offset p) \<le> unat (payload_length h) \<and> unat (payload_length h) < 2 ^ 31 \<and>
     (\<not> masked h \<longrightarrow> p_masking_key p = replicate 4 0)"

definition parser_inv :: "web_socket_frame_parser \<Rightarrow> bool" where
  "parser_inv p \<longleftrightarrow>
     websocket_error p = kWebSocketNormalClosure \<and>
     current_read_pos p \<le> length (p_buffer p) \<and>
     (case current_frame_header p of
        None \<Rightarrow> p_frame_offset p = 0
      | Some h \<Rightarrow> frame_open_ok h p \<and> p_frame_offset p \<noteq> payload_length h)"

lemma DecodeFrameHeader_parse:
  assumes "websocket_error p = kWebSocketNormalClosure"
  shows "DecodeFrameHeader p =
    (case parse_header (unread p) of
       Incomplete \<Rightarrow> p
     | Malformed e \<Rightarrow> p\<lparr>websocket_error := e, p_buffer := [], current_read_pos := 0,
                        current_frame_header := None, p_frame_offset := 0\<rparr>
     | Parsed h k rest \<Rightarrow>
         p\<lparr>websocket_error := kWebSocketNormalClosure, p_masking_key := k, current_frame_header := Some h,
           current_read_pos := current_read_pos p + (length (unread p) - length rest)\<rparr>)"
  using assms
  by (auto simp: DecodeFrameHeader_def parse_header_def unread_def Let_def kMaskingKeyLength_def
      split: option.splits prod.splits if_splits)

lemma unat_add_of_nat: "unat w + n < 2 ^ 31 \<Longrightarrow> unat (w + of_nat n :: uint64) = unat w + n"
  by (simp add: unat_word_ariths unat_of_nat)

lemma next_frame_None:
  assumes "current_frame_header p = None" and err: "websocket_error p = kWebSocketNormalClosure"
  shows "next_frame p =
    (case parse_header (unread p) of
       Incomplete \<Rightarrow> (Inl True, p)
     | Malformed e \<Rightarrow> (Inl False, DecodeFrameHeader p)
     | Parsed h k rest \<Rightarrow> (Inr (True, h), DecodeFrameHeader p))"
  using assms parse_header_Malformed [of "unread p"]
  by (cases "parse_header (unread p)") (simp_all add: next_frame_def Let_def DecodeFrameHeader_parse [OF err])

lemma Clone_eq [simp]: "Clone h = h"
  by (simp add: Clone_def CopyFrom_def WebSocketFrameHeader_def)

lemma cast_to_int_small: "n < 2 ^ 31 \<Longrightarrow> cast_to_int n = int n"
  by (simp add: cast_to_int_def signed_of_nat signed_take_bit_int_eq_self)

text \<open>
  One payload step: the chunk reports what is there of the payload, and the frame is closed when
  nothing of it is missing. The cast of the size to \<open>int\<close> does not change it.
\<close>

lemma DecodeFramePayload_step:
  fixes p h
  defines "off \<equiv> unat (p_frame_offset p)" and "n \<equiv> unat (payload_length h) - unat (p_frame_offset p)"
  defines "m \<equiv> min (length (unread p)) n"
  assumes "frame_open_ok h p" and "current_read_pos p \<le> length (p_buffer p)"
  shows "chunk_events (fst (DecodeFramePayload pm addr f h p)) =
      (if f then [FrameStart h] else []) @
      map PayloadByte (mask_bytes (p_masking_key p) off (take m (unread p))) @
      (if m = n then [FrameEnd] else [])"
    and "snd (DecodeFramePayload pm addr f h p) =
      (if m = n
       then p\<lparr>current_read_pos := current_read_pos p + n, current_frame_header := None, p_frame_offset := 0\<rparr>
       else p\<lparr>current_read_pos := length (p_buffer p), p_frame_offset := p_frame_offset p + of_nat m\<rparr>)"
proof -
  have ok: "unat (p_frame_offset p) \<le> unat (payload_length h)" "unat (payload_length h) < 2 ^ 31"
    "\<not> masked h \<Longrightarrow> p_masking_key p = replicate 4 0"
    using assms(4) by (auto simp: frame_open_ok_def)
  have n: "unat (payload_length h - p_frame_offset p) = n"
    using ok(1) by (simp add: n_def unat_sub word_le_nat_alt)
  have size: "cast_to_int (min (length (p_buffer p) - current_read_pos p) n) = int m"
    using ok(2) by (simp add: cast_to_int_small m_def n_def unread_def)
  have data: "(if masked h then MaskWebSocketFramePayload pm (p_masking_key p) (p_frame_offset p) (addr p) xs
      else xs) = mask_bytes (p_masking_key p) off xs" for xs
    using ok(3) by (simp add: MaskWebSocketFramePayload_eq mask_bytes_zero off_def)
  have last: "p_frame_offset p + of_nat m = payload_length h \<longleftrightarrow> m = n"
  proof -
    have "unat (p_frame_offset p) + m < 2 ^ 31" using ok by (simp add: m_def n_def)
    then have "unat (p_frame_offset p + of_nat m) = unat (p_frame_offset p) + m"
      by (rule unat_add_of_nat)
    then show ?thesis using ok(1) by (auto simp: n_def word_unat_eq_iff)
  qed
  have last0: "m = 0 \<Longrightarrow> p_frame_offset p = payload_length h \<longleftrightarrow> n = 0" using last by auto
  have lastn: "m = n \<Longrightarrow> p_frame_offset p + of_nat n = payload_length h" using last by auto
  have all: "m \<noteq> n \<Longrightarrow> current_read_pos p + m = length (p_buffer p)"
    using assms(5) by (auto simp: m_def unread_def)
  show "chunk_events (fst (DecodeFramePayload pm addr f h p)) =
      (if f then [FrameStart h] else []) @
      map PayloadByte (mask_bytes (p_masking_key p) off (take m (unread p))) @
      (if m = n then [FrameEnd] else [])"
    unfolding DecodeFramePayload_def n size Let_def data
    by (cases "m = 0"; cases f)
      (simp_all add: last last0 WebSocketFrameChunk_def chunk_events_def unread_def)
  show "snd (DecodeFramePayload pm addr f h p) =
      (if m = n
       then p\<lparr>current_read_pos := current_read_pos p + n, current_frame_header := None, p_frame_offset := 0\<rparr>
       else p\<lparr>current_read_pos := length (p_buffer p), p_frame_offset := p_frame_offset p + of_nat m\<rparr>)"
    unfolding DecodeFramePayload_def n size Let_def data
    using all by (cases "m = 0"; cases "m = n") (simp_all add: last last0 lastn)
qed

lemma DecodeFramePayload_scan:
  assumes hdr: "current_frame_header q = Some h" and open_ok: "frame_open_ok h q"
    and err: "websocket_error q = kWebSocketNormalClosure"
    and pos: "current_read_pos q \<le> length (p_buffer q)"
    and step: "DecodeFramePayload pm addr f h q = (c, r)"
  shows "\<exists>bs. chunk_events c = (if f then [FrameStart h] else []) @ bs \<and> parser_inv r \<and>
    scan (scan_state_of q) (unread q) =
      (if current_frame_header r = None
       then apfst (append bs) (scan (scan_state_of r) (unread r))
       else (bs, scan_state_of r, unread r, kWebSocketNormalClosure))"
proof -
  define off where "off = unat (p_frame_offset q)"
  define n where "n = unat (payload_length h) - off"
  define m where "m = min (length (unread q)) n"
  let ?bytes = "map PayloadByte (mask_bytes (p_masking_key q) off (take m (unread q)))"
  have c: "chunk_events c = (if f then [FrameStart h] else []) @ ?bytes @ (if m = n then [FrameEnd] else [])"
    and r: "r = (if m = n
       then q\<lparr>current_read_pos := current_read_pos q + n, current_frame_header := None, p_frame_offset := 0\<rparr>
       else q\<lparr>current_read_pos := length (p_buffer q), p_frame_offset := p_frame_offset q + of_nat m\<rparr>)"
    using DecodeFramePayload_step [OF open_ok pos, of pm addr f]
    by (simp_all add: step off_def n_def m_def)
  have q: "scan_state_of q = Inside h (p_masking_key q) off" by (simp add: scan_state_of_def hdr off_def)
  show ?thesis
  proof (cases "m = n")
    case True
    then have n: "n \<le> length (unread q)" "\<not> length (unread q) < n" by (auto simp: m_def)
    have "parser_inv r" using True n(1) pos err by (simp add: r parser_inv_def unread_def)
    moreover have "unread r = drop n (unread q)" "scan_state_of r = Between" "current_frame_header r = None"
      using True by (simp_all add: r unread_def scan_state_of_def add.commute)
    moreover have "scan (scan_state_of q) (unread q) =
        apfst (append (?bytes @ [FrameEnd])) (scan Between (drop n (unread q)))"
      using n True by (simp add: q scan_Inside n_def [symmetric] comp_def)
    ultimately show ?thesis using c True by (intro exI [of _ "?bytes @ [FrameEnd]"]) simp
  next
    case False
    then have n: "length (unread q) < n" "m = length (unread q)" by (auto simp: m_def)
    have off': "unat (p_frame_offset q + of_nat m) = off + m"
      unfolding off_def by (rule unat_add_of_nat) (use open_ok n in \<open>auto simp: frame_open_ok_def off_def n_def\<close>)
    then have "parser_inv r" using False open_ok err hdr n
      by (auto simp: r parser_inv_def frame_open_ok_def n_def)
    moreover have "unread r = []" "scan_state_of r = Inside h (p_masking_key q) (off + m)"
      "current_frame_header r = Some h"
      using False off' hdr by (simp_all add: r unread_def scan_state_of_def)
    moreover have "scan (scan_state_of q) (unread q) =
        (?bytes, Inside h (p_masking_key q) (off + m), [], kWebSocketNormalClosure)"
      using n by (simp add: q scan_Inside n_def [symmetric])
    ultimately show ?thesis using c False by (intro exI [of _ ?bytes]) simp
  qed
qed

text \<open>What an error leaves.\<close>

definition parser_cleared :: "web_socket_frame_parser \<Rightarrow> bool" where
  "parser_cleared p \<longleftrightarrow>
     p_buffer p = [] \<and> current_read_pos p = 0 \<and> current_frame_header p = None \<and> p_frame_offset p = 0"

text \<open>The relation between what a call of the loop returns and a scan of its input.\<close>

definition refines ::
    "bool \<times> web_socket_frame_parser \<times> web_socket_frame_chunk list \<Rightarrow>
     frame_event list \<times> scan_state \<times> uint8 list \<times> web_socket_error \<Rightarrow> bool" where
  "refines r s \<longleftrightarrow>
     (case (r, s) of ((ok, q, cs), (es, st, left, e)) \<Rightarrow>
        events cs = es \<and> websocket_error q = e \<and> (ok \<longleftrightarrow> e = kWebSocketNormalClosure) \<and>
        (if ok then parser_inv q \<and> scan_state_of q = st \<and> unread q = left else parser_cleared q))"

lemma next_frame_scan:
  assumes inv: "parser_inv p" and nf: "next_frame p = (Inr (f, h), q)"
  shows "current_frame_header q = Some h" and "frame_open_ok h q"
    and "websocket_error q = kWebSocketNormalClosure" and "current_read_pos q \<le> length (p_buffer q)"
    and "scan (scan_state_of p) (unread p) =
      apfst (append (if f then [FrameStart h] else [])) (scan (scan_state_of q) (unread q))"
proof -
  have all: "current_frame_header q = Some h \<and> frame_open_ok h q \<and>
    websocket_error q = kWebSocketNormalClosure \<and> current_read_pos q \<le> length (p_buffer q) \<and>
    scan (scan_state_of p) (unread p) =
      apfst (append (if f then [FrameStart h] else [])) (scan (scan_state_of q) (unread q))"
  proof (cases "current_frame_header p")
    case (Some h')
    then have "q = p" "h' = h" "\<not> f" using nf by (simp_all add: next_frame_def)
    then show ?thesis using inv Some by (auto simp: parser_inv_def)
  next
    case None
    have err: "websocket_error p = kWebSocketNormalClosure"
      and pos: "current_read_pos p \<le> length (p_buffer p)" and off: "p_frame_offset p = 0"
      using inv None by (auto simp: parser_inv_def)
    note dec = DecodeFrameHeader_parse [OF err]
    obtain k rest where ph: "parse_header (unread p) = Parsed h k rest"
      and q: "q = p\<lparr>websocket_error := kWebSocketNormalClosure, p_masking_key := k,
          current_frame_header := Some h,
          current_read_pos := current_read_pos p + (length (unread p) - length rest)\<rparr>" and f
      using nf [unfolded next_frame_None [OF None err]] dec by (cases "parse_header (unread p)") simp_all
    obtain pre where pre: "unread p = pre @ rest" using parse_header_Parsed(1) [OF ph] by blast
    have "length (unread p) = length (p_buffer p) - current_read_pos p" by (simp add: unread_def)
    then have le: "current_read_pos q \<le> length (p_buffer q)" using pos by (simp add: q)
    have "length (unread p) - length rest = length pre" by (simp add: pre)
    then have "unread q = drop (length pre) (unread p)" by (simp add: q unread_def add.commute)
    then have "unread q = rest" by (simp add: pre)
    moreover have "scan_state_of q = Inside h k 0" by (simp add: q scan_state_of_def off)
    ultimately show ?thesis
      using ph parse_header_Parsed(3,4) [OF ph] le \<open>f\<close> None
      by (simp add: frame_open_ok_def q off scan_state_of_def scan_Between [of "unread p"])
  qed
  then show "current_frame_header q = Some h" "frame_open_ok h q"
    "websocket_error q = kWebSocketNormalClosure" "current_read_pos q \<le> length (p_buffer q)"
    "scan (scan_state_of p) (unread p) =
      apfst (append (if f then [FrameStart h] else [])) (scan (scan_state_of q) (unread q))" by simp_all
qed

lemma refines_Cons:
  assumes "refines (ok, q, cs) s"
  shows "refines (ok, q, c # cs) (apfst (append (chunk_events c)) s)"
  using assms by (cases s) (auto simp: refines_def)

lemma Decode_loop_refines:
  "parser_inv p \<Longrightarrow> refines (Decode_loop pm addr p) (scan (scan_state_of p) (unread p))"
proof (induction pm addr p rule: Decode_loop.induct)
  case (1 pm addr p)
  note inv = \<open>parser_inv p\<close>
  have err: "websocket_error p = kWebSocketNormalClosure" using inv by (simp add: parser_inv_def)
  show ?case
  proof (cases "current_read_pos p < length (p_buffer p)")
    case False
    have "scan (scan_state_of p) [] = ([], scan_state_of p, [], kWebSocketNormalClosure)"
      using inv by (auto simp: scan_state_of_def scan_Between parse_header_def scan_Inside parser_inv_def
          frame_open_ok_def word_unat_eq_iff split: option.splits)
    then show ?thesis
      using False inv by (simp add: Decode_loop.simps refines_def err unread_def)
  next
    case True
    obtain g q where nf: "next_frame p = (g, q)" by (cases "next_frame p")
    show ?thesis
    proof (cases g)
      case (Inl ok)
      then have none: "current_frame_header p = None" using nf by (cases "current_frame_header p") (simp_all add: next_frame_def)
      have "refines (ok, q, []) (scan Between (unread p))"
        using nf [unfolded next_frame_None [OF none err] Inl] inv none err parse_header_Malformed [of "unread p"]
        by (cases "parse_header (unread p)")
          (auto simp: refines_def scan_Between DecodeFrameHeader_parse [OF err] err scan_state_of_def
            parser_cleared_def)
      then show ?thesis using True nf Inl none by (simp add: Decode_loop.simps scan_state_of_def)
    next
      case (Inr fh)
      obtain f h where fh: "fh = (f, h)" by (cases fh)
      obtain c r where step: "DecodeFramePayload pm addr f h q = (c, r)"
        by (cases "DecodeFramePayload pm addr f h q")
      note s = next_frame_scan [OF inv nf [unfolded Inr fh]]
      obtain bs where bs: "chunk_events c = (if f then [FrameStart h] else []) @ bs" "parser_inv r"
        "scan (scan_state_of q) (unread q) =
          (if current_frame_header r = None
           then apfst (append bs) (scan (scan_state_of r) (unread r))
           else (bs, scan_state_of r, unread r, kWebSocketNormalClosure))"
        using DecodeFramePayload_scan [OF s(1-4) step] by blast
      show ?thesis
      proof (cases "current_frame_header r")
        case None
        obtain ok t cs where l: "Decode_loop pm addr r = (ok, t, cs)" by (cases "Decode_loop pm addr r")
        have "refines (Decode_loop pm addr r) (scan (scan_state_of r) (unread r))"
          by (rule "1.IH" [OF True nf [symmetric] Inr fh [symmetric] step [symmetric] _ bs(2)]) (simp_all add: None)
        moreover have "scan (scan_state_of p) (unread p) =
            apfst (append (chunk_events c)) (scan (scan_state_of r) (unread r))"
          using None by (simp add: s(5) bs(1,3) apfst_compose comp_def)
        ultimately have "refines (ok, t, c # cs) (scan (scan_state_of p) (unread p))"
          using refines_Cons l by simp
        then show ?thesis using True nf Inr fh step None l by (simp add: Decode_loop.simps [of pm addr p])
      next
        case (Some h')
        then show ?thesis
          using True nf Inr fh step s(5) bs by (simp add: Decode_loop.simps [of pm addr p] refines_def parser_inv_def)
      qed
    qed
  qed
qed

section \<open>Feeding a stream\<close>

text \<open>A sequence of calls of \<open>Decode\<close> with one list of chunks.\<close>

fun feed ::
    "packed_mask_type \<Rightarrow> (web_socket_frame_parser \<Rightarrow> nat) \<Rightarrow> uint8 list list \<Rightarrow>
     web_socket_frame_chunk list \<Rightarrow> web_socket_frame_parser \<Rightarrow>
     web_socket_frame_parser \<times> web_socket_frame_chunk list" where
  "feed pm addr [] cs p = (p, cs)"
| "feed pm addr (d # ds) cs p =
     (case Decode pm addr d cs p of (ok, p, cs) \<Rightarrow> feed pm addr ds cs p)"

text \<open>How a parser between calls stands to the scan of everything it was fed.\<close>

definition follows ::
    "web_socket_frame_parser \<times> web_socket_frame_chunk list \<Rightarrow>
     frame_event list \<times> scan_state \<times> uint8 list \<times> web_socket_error \<Rightarrow> bool" where
  "follows r s \<longleftrightarrow>
     (case (r, s) of ((p, cs), (es, st, left, e)) \<Rightarrow>
        events cs = es \<and> websocket_error p = e \<and>
        (if e = kWebSocketNormalClosure
         then parser_inv p \<and> current_read_pos p = 0 \<and> scan_state_of p = st \<and> p_buffer p = left
         else parser_cleared p))"

lemma Decode_follows:
  assumes "follows (p, cs) (scan Between xs)" and "Decode pm addr d cs p = (ok, q, ds)"
  shows "follows (q, ds) (scan Between (xs @ d)) \<and> (ok \<longleftrightarrow> websocket_error q = kWebSocketNormalClosure)"
proof -
  obtain es st left e where s: "scan Between xs = (es, st, left, e)" by (cases "scan Between xs") auto
  note f = assms(1) [unfolded s follows_def, simplified]
  show ?thesis
  proof (cases "e = kWebSocketNormalClosure")
    case False
    then show ?thesis
      using assms f s by (auto simp: Decode_def follows_def scan_append scan_on_def)
  next
    case True
    then have p: "parser_inv p" "current_read_pos p = 0" "scan_state_of p = st" "p_buffer p = left"
      "websocket_error p = kWebSocketNormalClosure" "events cs = es" using f by auto
    have on: "scan Between (xs @ d) = apfst (append es) (scan st (left @ d))"
      by (simp add: scan_append s scan_on_def True)
    show ?thesis
    proof (cases "d = []")
      case True
      then have "q = p" "ds = cs" "ok" using assms(2) p(5) by (simp_all add: Decode_def)
      then show ?thesis using assms(1) p(5) True by simp
    next
      case False
      define p' where "p' = p\<lparr>p_buffer := p_buffer p @ d\<rparr>"
      have "parser_inv p'" using p(1) by (auto simp: p'_def parser_inv_def frame_open_ok_def split: option.splits)
      then have "refines (Decode_loop pm addr p') (scan (scan_state_of p') (unread p'))"
        by (rule Decode_loop_refines)
      moreover have "scan_state_of p' = st" "unread p' = left @ d"
        using p by (simp_all add: p'_def scan_state_of_def unread_def cong: option.case_cong)
      ultimately have r: "refines (Decode_loop pm addr p') (scan st (left @ d))" by simp
      obtain ok' q' cs' where l: "Decode_loop pm addr p' = (ok', q', cs')" by (cases "Decode_loop pm addr p'")
      have "ok = ok'" "ds = cs @ cs'"
        "q = (if ok' then q'\<lparr>p_buffer := unread q', current_read_pos := 0\<rparr> else q')"
        using assms(2) False p(5) l by (auto simp: Decode_def p'_def unread_def split: if_splits)
      then show ?thesis
        using r p(6) unfolding l on
        by (cases "scan st (left @ d)")
          (auto simp: refines_def follows_def parser_inv_def scan_state_of_def unread_def frame_open_ok_def
            split: option.splits)
    qed
  qed
qed

lemma follows_initial: "follows (WebSocketFrameParser, []) (scan Between [])"
  by (simp add: follows_def scan_Between parse_header_def WebSocketFrameParser_def parser_inv_def scan_state_of_def)

lemma feed_follows:
  "follows (p, cs) (scan Between xs) \<Longrightarrow> follows (feed pm addr ds cs p) (scan Between (xs @ concat ds))"
proof (induction ds arbitrary: p cs xs)
  case (Cons d ds)
  obtain ok q cs' where d: "Decode pm addr d cs p = (ok, q, cs')" by (cases "Decode pm addr d cs p")
  show ?case
    using Cons.IH [OF conjunct1 [OF Decode_follows [OF Cons.prems d]]] by (simp add: d)
qed simp

section \<open>Headers on the wire\<close>

lemma and_or_left: "(a OR b) AND c = (a AND c) OR (b AND (c :: 'a::len word))"
  by (rule bit_word_eqI) (auto simp: bit_simps)

lemma header_first_byte_bits:
  "header_first_byte h AND kFinalBit = (if final h then kFinalBit else 0)"
  "header_first_byte h AND kReserved1Bit = (if reserved1 h then kReserved1Bit else 0)"
  "header_first_byte h AND kReserved2Bit = (if reserved2 h then kReserved2Bit else 0)"
  "header_first_byte h AND kReserved3Bit = (if reserved3 h then kReserved3Bit else 0)"
  "header_first_byte h AND kOpCodeMask = word_of_int (opcode h) AND kOpCodeMask"
  by (simp_all add: header_first_byte_def Let_def and_or_left ws_consts and.assoc)

lemma opcode_bits:
  assumes "0 \<le> i" and "i < 16"
  shows "uint (word_of_int i AND kOpCodeMask) = i"
proof -
  have "i AND 15 = take_bit 4 i" by (simp add: take_bit_eq_mask mask_eq_exp_minus_1)
  also have "\<dots> = i" using assms by (simp add: take_bit_int_eq_self)
  finally show ?thesis using assms by (simp add: kOpCodeMask_def uint_and uint_word_of_int take_bit_int_eq_self)
qed

lemma short_length_bits:
  assumes "len \<le> (125 :: uint64)"
  shows "ucast ((ucast len :: uint8) AND 0x7F) = len" and "(ucast len :: uint8) AND 0x80 = 0"
proof -
  have "unat len < 2 ^ 7" using assms by (simp add: word_le_nat_alt)
  then have "take_bit 7 len = len"
    by (simp add: word_unat_eq_iff unsigned_take_bit_eq take_bit_nat_eq_self)
  then have small: "bit len i \<Longrightarrow> i < 7" for i by (metis bit_take_bit_iff)
  have seven: "(ucast len :: uint8) AND 0x7F = take_bit 7 (ucast len)"
    by (simp add: take_bit_eq_mask mask_eq_exp_minus_1)
  show "ucast ((ucast len :: uint8) AND 0x7F) = len"
    unfolding seven by (rule bit_word_eqI) (auto simp: bit_simps dest: small)
  have high: "bit (0x80 :: uint8) i \<Longrightarrow> i = 7" for i
    using bit_push_bit_iff [of 7 "1 :: uint8" i] by (simp add: bit_1_iff)
  show "(ucast len :: uint8) AND 0x80 = 0"
  proof (rule bit_word_eqI)
    show "bit ((ucast len :: uint8) AND 0x80) i \<longleftrightarrow> bit (0 :: uint8) i" for i
      using small [of i] high [of i] by (auto simp only: bit_and_iff bit_ucast_iff bit_0_eq bot_apply bot_bool_def)
  qed
qed

text \<open>A header can be written when its opcode has four bits and its payload fits an \<open>int\<close>.\<close>

definition header_ok :: "web_socket_frame_header \<Rightarrow> bool" where
  "header_ok h \<longleftrightarrow> 0 \<le> opcode h \<and> opcode h < 16 \<and> unat (payload_length h) < 2 ^ 31"

lemma decode_payload_length_written:
  assumes "header_ok h"
  defines "b \<equiv> fst (header_second_byte h)"
  shows "decode_payload_length (ucast (b AND kPayloadLengthMask)) (length_bytes h @ rest) kWebSocketNormalClosure =
      Some (payload_length h, rest, kWebSocketNormalClosure)"
    and "b AND kMaskBit \<noteq> 0 \<longleftrightarrow> masked h"
proof -
  have len: "payload_length h \<le> INT32_MAX" "\<not> INT64_MAX < payload_length h"
    using assms(1) by (simp_all add: header_ok_def ws_consts word_le_nat_alt not_less)
  consider (short) "payload_length h \<le> 125"
    | (two) "\<not> payload_length h \<le> 125" "payload_length h \<le> 0xFFFF"
    | (eight) "\<not> payload_length h \<le> 125" "\<not> payload_length h \<le> 0xFFFF" by blast
  then have "decode_payload_length (ucast (b AND kPayloadLengthMask)) (length_bytes h @ rest) kWebSocketNormalClosure =
      Some (payload_length h, rest, kWebSocketNormalClosure) \<and> (b AND kMaskBit \<noteq> 0 \<longleftrightarrow> masked h)"
  proof cases
    case short
    have "payload_length h \<noteq> 126" "payload_length h \<noteq> 127" using short by (auto simp: word_le_nat_alt)
    then show ?thesis
      using short short_length_bits [OF short]
      by (simp add: b_def header_second_byte_def Let_def ws_consts kPayloadLengthMask_def length_bytes_def
          and_or_left decode_payload_length_def)
  next
    case two
    have "ucast (ucast (payload_length h) :: 16 word) = payload_length h"
      using two(2)
      by (simp add: word_unat_eq_iff unsigned_ucast_eq unsigned_take_bit_eq take_bit_nat_eq_self word_le_nat_alt)
    then show ?thesis
      using two ReadBigEndian_Write [where 'a = 16, of "ucast (payload_length h)" rest]
      by (simp add: b_def header_second_byte_def Let_def ws_consts kPayloadLengthMask_def length_bytes_def
          and_or_left decode_payload_length_def)
  next
    case eight
    then show ?thesis
      using len ReadBigEndian_Write [where 'a = 64, of "payload_length h" rest]
      by (simp add: b_def header_second_byte_def Let_def ws_consts kPayloadLengthMask_def length_bytes_def
          and_or_left decode_payload_length_def not_less)
  qed
  then show "decode_payload_length (ucast (b AND kPayloadLengthMask)) (length_bytes h @ rest) kWebSocketNormalClosure =
      Some (payload_length h, rest, kWebSocketNormalClosure)" "b AND kMaskBit \<noteq> 0 \<longleftrightarrow> masked h" by simp_all
qed

text \<open>The parser reads back every header that the writer wrote.\<close>

lemma parse_header_written:
  assumes ok: "header_ok h" and key: "length key = 4"
  shows "parse_header (header_bytes h key @ rest) =
    Parsed h (if masked h then key else replicate 4 0) rest"
proof -
  note d = decode_payload_length_written [OF ok]
  have bits: "kFinalBit \<noteq> 0" "kReserved1Bit \<noteq> 0" "kReserved2Bit \<noteq> 0" "kReserved3Bit \<noteq> 0"
    by (simp_all add: ws_consts)
  have op: "uint (word_of_int (opcode h) AND kOpCodeMask) = opcode h"
    using ok by (simp add: header_ok_def opcode_bits)
  show ?thesis
    using d(1) [of "(if masked h then key else []) @ rest"] d(2) key bits
    by (cases "masked h") (simp_all add: parse_header_def header_bytes_def header_first_byte_bits op)
qed

text \<open>A frame as it goes over the wire, and the events that stand for it.\<close>

definition frame_bytes :: "web_socket_frame_header \<Rightarrow> masking_key \<Rightarrow> uint8 list \<Rightarrow> uint8 list" where
  "frame_bytes h key payload =
     header_bytes h key @ mask_bytes (if masked h then key else replicate 4 0) 0 payload"

definition frame_events :: "web_socket_frame_header \<Rightarrow> uint8 list \<Rightarrow> frame_event list" where
  "frame_events h payload = FrameStart h # map PayloadByte payload @ [FrameEnd]"

lemma scan_frame:
  assumes "header_ok h" and "length key = 4" and "unat (payload_length h) = length payload"
  shows "scan Between (frame_bytes h key payload @ rest) =
    apfst (append (frame_events h payload)) (scan Between rest)"
proof -
  let ?k = "if masked h then key else replicate 4 0"
  have "scan Between (frame_bytes h key payload @ rest) =
      apfst (Cons (FrameStart h)) (scan (Inside h ?k 0) (mask_bytes ?k 0 payload @ rest))"
    using parse_header_written [OF assms(1,2), of "mask_bytes ?k 0 payload @ rest"]
    by (simp add: scan_Between frame_bytes_def)
  also have "\<dots> = apfst (append (frame_events h payload)) (scan Between rest)"
    by (simp add: scan_Inside assms(3) mask_bytes_twice frame_events_def apfst_compose comp_def)
  finally show ?thesis .
qed

section \<open>Properties\<close>

text \<open>[C7]
  The parser refines the stream specification: however the stream is cut into calls of
  \<open>Decode\<close>, the chunks report exactly the events of a scan of the whole stream, the parser ends
  with the error of that scan, and if there is none it holds its scan state and has buffered
  exactly the bytes of the incomplete header the scan left over.
\<close>

theorem Decode_refines_scan:
  assumes "feed pm addr ds [] WebSocketFrameParser = (p, cs)"
    and "scan Between (concat ds) = (es, st, left, e)"
  shows "events cs = es \<and> websocket_error p = e \<and>
    (e = kWebSocketNormalClosure \<longrightarrow> scan_state_of p = st \<and> p_buffer p = left)"
  using feed_follows [OF follows_initial, of pm addr ds] by (simp add: assms follows_def)

text \<open>[C7] witness: a masked text frame ``Hi'' and the first byte of a next header, in three calls.\<close>

definition example_stream :: "uint8 list list" where
  "example_stream = [[0x81, 0x82, 1], [2, 3, 4, 0x49], [0x6B, 0x81]]"

lemma Decode_refines_scan_witness:
  "events (snd (feed SizeT64 (\<lambda>_. 3) example_stream [] WebSocketFrameParser)) =
     [FrameStart \<lparr>final = True, reserved1 = False, reserved2 = False, reserved3 = False, opcode = 1,
                  masked = True, payload_length = 2\<rparr>,
      PayloadByte 0x48, PayloadByte 0x69, FrameEnd] \<and>
   p_buffer (fst (feed SizeT64 (\<lambda>_. 3) example_stream [] WebSocketFrameParser)) = [0x81]"
proof -
  let ?h = "\<lparr>final = True, reserved1 = False, reserved2 = False, reserved3 = False, opcode = 1,
    masked = True, payload_length = 2\<rparr> :: web_socket_frame_header"
  have "scan Between (concat example_stream) =
      ([FrameStart ?h, PayloadByte 0x48, PayloadByte 0x69, FrameEnd], Between, [0x81], kWebSocketNormalClosure)"
    by code_simp
  then show ?thesis
    using Decode_refines_scan [of SizeT64 "\<lambda>_. 3" example_stream,
        OF prod.collapse [symmetric]] by simp
qed

text \<open>
  Between calls of \<open>Decode\<close> the buffer holds less than a frame header, as the sanity check at its
  end asserts, reading starts at its beginning, and the payload offset is zero between frames
  and below a payload length that fits an \<open>int\<close> inside one.
\<close>

theorem parser_buffer_bounded:
  "case feed pm addr ds [] WebSocketFrameParser of (p, cs) \<Rightarrow>
     length (p_buffer p) < kBaseHeaderSize + kMaximumExtendedLengthSize + kMaskingKeyLength \<and>
     current_read_pos p = 0 \<and>
     (case current_frame_header p of
        None \<Rightarrow> p_frame_offset p = 0
      | Some h \<Rightarrow> p_frame_offset p < payload_length h \<and> payload_length h \<le> INT32_MAX)"
proof -
  obtain p cs where f: "feed pm addr ds [] WebSocketFrameParser = (p, cs)"
    by (cases "feed pm addr ds [] WebSocketFrameParser")
  obtain es st left e where s: "scan Between (concat ds) = (es, st, left, e)"
    by (cases "scan Between (concat ds)") auto
  note fol = feed_follows [OF follows_initial, of pm addr ds, simplified, unfolded f s follows_def, simplified]
  show ?thesis
  proof (cases "e = kWebSocketNormalClosure")
    case False
    then show ?thesis using fol by (simp add: f ws_consts parser_cleared_def)
  next
    case True
    then have p: "parser_inv p" "current_read_pos p = 0" "scan_state_of p = st" "p_buffer p = left"
      using fol by auto
    have "length left < 14"
      using scan_rest [OF s [unfolded True]] parse_header_Incomplete [of left]
      by (cases st) (auto simp: scan_rest_ok_def)
    moreover have "case current_frame_header p of None \<Rightarrow> p_frame_offset p = 0
       | Some h \<Rightarrow> p_frame_offset p < payload_length h \<and> payload_length h \<le> INT32_MAX"
      using p(1) by (auto simp: parser_inv_def frame_open_ok_def word_le_nat_alt word_less_nat_alt
          word_unat_eq_iff INT32_MAX_def split: option.splits)
    ultimately show ?thesis using p by (simp add: f ws_consts)
  qed
qed

end
