(* ===== verification/WebSocket_Basic_Stream.thy ===== *)
theory WebSocket_Basic_Stream
  imports WebSocket_Frame_Parser
begin

text \<open>
  \<open>net/websockets/websocket_basic_stream.cc\<close>: the client end of a WebSocket connection, on top of
  the frame parser and writer. It reassembles the parser's chunks into frames (control frames as
  a whole, messages piece by piece) and serialises the frames it sends with masking keys.
  The socket is a parameter: the results of its \<open>Read\<close> and \<open>Write\<close> calls are given as lists,
  in the order of the calls. A failed \<open>CHECK\<close>, or the use of a null header, is \<open>None\<close>.
\<close>

section \<open>Frames and the stream\<close>

record web_socket_frame =
  frame_header :: web_socket_frame_header
  frame_data :: "uint8 list option"

text \<open>
  \<open>incomplete_control_frame_body_\<close> is the filled part of a buffer of capacity
  \<open>kMaxControlFramePayload\<close>.
\<close>

record web_socket_basic_stream =
  bs_current_frame_header :: "web_socket_frame_header option"
  incomplete_control_frame_body :: "uint8 list option"
  http_read_buffer :: "uint8 list option"
  bs_parser :: web_socket_frame_parser

definition kMaxControlFramePayload :: nat where "kMaxControlFramePayload = 125"
definition kReadBufferSize :: nat where "kReadBufferSize = 32 * 1024"
definition kOpCodeContinuation :: int where "kOpCodeContinuation = 0"

definition WebSocketBasicStream :: "uint8 list option \<Rightarrow> web_socket_basic_stream" where
  "WebSocketBasicStream http_buffer =
     \<lparr>bs_current_frame_header = None, incomplete_control_frame_body = None,
      http_read_buffer = (if http_buffer = Some [] then None else http_buffer),
      bs_parser = WebSocketFrameParser\<rparr>"

section \<open>Reading\<close>

text \<open>The \<open>CHECK_GE\<close> of the capacity.\<close>

definition AddToIncompleteControlFrameBody ::
    "uint8 list option \<Rightarrow> web_socket_basic_stream \<Rightarrow> web_socket_basic_stream option" where
  "AddToIncompleteControlFrameBody data_buffer s =
     (case data_buffer of
        None \<Rightarrow> Some s
      | Some d \<Rightarrow>
          (case incomplete_control_frame_body s of
             None \<Rightarrow> None
           | Some body \<Rightarrow>
               if kMaxControlFramePayload \<ge> length body + length d
               then Some (s\<lparr>incomplete_control_frame_body := Some (body @ d)\<rparr>)
               else None))"

definition CreateFrame ::
    "bool \<Rightarrow> uint8 list option \<Rightarrow> web_socket_frame_header \<Rightarrow> web_socket_basic_stream \<Rightarrow>
     web_socket_frame option \<times> web_socket_basic_stream" where
  "CreateFrame is_final_chunk data h s =
     (let is_final_chunk_in_message = (is_final_chunk \<and> final h);
          data_size = (case data of Some d \<Rightarrow> length d | None \<Rightarrow> 0);
          op = opcode h;
          (result_frame, s) =
            (if is_final_chunk_in_message \<or> data_size > 0 \<or> opcode h \<noteq> kOpCodeContinuation
             then
               (let header = CopyFrom h (WebSocketFrameHeader op);
                    header = header\<lparr>final := is_final_chunk_in_message, payload_length := of_nat data_size\<rparr>
                in (Some \<lparr>frame_header = header, frame_data = data\<rparr>,
                    if \<not> is_final_chunk \<and> IsKnownDataOpCode op
                    then s\<lparr>bs_current_frame_header :=
                             Some (h\<lparr>opcode := kOpCodeContinuation, reserved1 := False,
                                     reserved2 := False, reserved3 := False\<rparr>)\<rparr>
                    else s))
             else (None, s))
      in (result_frame,
          if is_final_chunk then s\<lparr>bs_current_frame_header := None\<rparr> else s))"

text \<open>The result \<open>None\<close> inside is \<open>OK\<close>.\<close>

definition ConvertChunkToFrame ::
    "web_socket_frame_chunk \<Rightarrow> web_socket_basic_stream \<Rightarrow>
     (net_error option \<times> web_socket_frame option \<times> web_socket_basic_stream) option" where
  "ConvertChunkToFrame chunk s =
     (let s = (if chunk_header chunk \<noteq> None then s\<lparr>bs_current_frame_header := chunk_header chunk\<rparr> else s);
          data_buffer = chunk_data chunk;
          is_final_chunk = final_chunk chunk
      in case bs_current_frame_header s of
           None \<Rightarrow> None
         | Some h \<Rightarrow>
             if IsKnownControlOpCode (opcode h) \<and>
                (\<not> final h \<or> payload_length h > of_nat kMaxControlFramePayload)
             then Some (Some ERR_WS_PROTOCOL_ERROR, None, s\<lparr>bs_current_frame_header := None\<rparr>)
             else if IsKnownControlOpCode (opcode h) \<and> \<not> is_final_chunk
             then
               (let s = (if incomplete_control_frame_body s = None
                         then s\<lparr>incomplete_control_frame_body := Some []\<rparr> else s)
                in case AddToIncompleteControlFrameBody data_buffer s of
                     None \<Rightarrow> None
                   | Some s \<Rightarrow> Some (None, None, s))
             else if IsKnownControlOpCode (opcode h) \<and> incomplete_control_frame_body s \<noteq> None
             then
               (case AddToIncompleteControlFrameBody data_buffer s of
                  None \<Rightarrow> None
                | Some s \<Rightarrow>
                    (let body = incomplete_control_frame_body s;
                         s = s\<lparr>incomplete_control_frame_body := None\<rparr>;
                         (frame, s) = CreateFrame is_final_chunk body h s
                     in Some (None, frame, s)))
             else
               (let (frame, s) = CreateFrame is_final_chunk data_buffer h s
                in Some (None, frame, s)))"

text \<open>The assertions of \<open>ConvertChunkToFrame\<close> on the chunk and on the reassembled body.\<close>

definition ConvertChunkToFrame_dcheck :: "web_socket_frame_chunk \<Rightarrow> web_socket_basic_stream \<Rightarrow> bool" where
  "ConvertChunkToFrame_dcheck chunk s \<longleftrightarrow>
     (let chunk_size = (case chunk_data chunk of Some d \<Rightarrow> length d | None \<Rightarrow> 0);
          body_size = (case incomplete_control_frame_body s of Some b \<Rightarrow> length b | None \<Rightarrow> 0)
      in (case chunk_header chunk of
            Some h \<Rightarrow> bs_current_frame_header s = None | None \<Rightarrow> bs_current_frame_header s \<noteq> None) \<and>
         (case (if chunk_header chunk \<noteq> None then chunk_header chunk else bs_current_frame_header s) of
            None \<Rightarrow> False
          | Some h \<Rightarrow>
              unat (payload_length h) \<ge> chunk_size \<and>
              (chunk_header chunk = None \<or> \<not> final_chunk chunk \<or> unat (payload_length h) = chunk_size) \<and>
              (incomplete_control_frame_body s = None \<or> \<not> final_chunk chunk \<or>
               \<not> IsKnownControlOpCode (opcode h) \<or> body_size + chunk_size = unat (payload_length h))))"

text \<open>The loop over the chunks, with the frames it appends.\<close>

fun convert_chunks ::
    "web_socket_frame_chunk list \<Rightarrow> web_socket_basic_stream \<Rightarrow>
     (net_error option \<times> web_socket_frame list \<times> web_socket_basic_stream) option" where
  "convert_chunks [] s = Some (None, [], s)"
| "convert_chunks (c # cs) s =
     (case ConvertChunkToFrame c s of
        None \<Rightarrow> None
      | Some (Some e, frame, s) \<Rightarrow> Some (Some e, [], s)
      | Some (None, frame, s) \<Rightarrow>
          (case convert_chunks cs s of
             None \<Rightarrow> None
           | Some (r, frames, s) \<Rightarrow> Some (r, (case frame of Some f \<Rightarrow> [f] | None \<Rightarrow> []) @ frames, s)))"

definition ConvertChunksToFrames ::
    "web_socket_frame_chunk list \<Rightarrow> web_socket_frame list \<Rightarrow> web_socket_basic_stream \<Rightarrow>
     (net_error option \<times> web_socket_frame list \<times> web_socket_basic_stream) option" where
  "ConvertChunksToFrames frame_chunks frames s =
     (case convert_chunks frame_chunks s of
        None \<Rightarrow> None
      | Some (Some e, fs, s) \<Rightarrow> Some (Some e, frames @ fs, s)
      | Some (None, fs, s) \<Rightarrow>
          Some (if frames @ fs = [] then Some ERR_IO_PENDING else None, frames @ fs, s))"

text \<open>Decoding what was read and converting the chunks, as \<open>ReadFrames\<close> and \<open>HandleReadResult\<close> do.\<close>

definition decode_and_convert ::
    "packed_mask_type \<Rightarrow> (web_socket_frame_parser \<Rightarrow> nat) \<Rightarrow> uint8 list \<Rightarrow> web_socket_frame list \<Rightarrow>
     web_socket_basic_stream \<Rightarrow>
     (net_error option \<times> web_socket_frame list \<times> web_socket_basic_stream) option" where
  "decode_and_convert pm addr data frames s =
     (case Decode pm addr data [] (bs_parser s) of
        (ok, p, frame_chunks) \<Rightarrow>
          (let s = s\<lparr>bs_parser := p\<rparr>
           in if \<not> ok then Some (WebSocketErrorToNetError (websocket_error p), frames, s)
              else if frame_chunks = [] then Some (Some ERR_IO_PENDING, frames, s)
              else ConvertChunksToFrames frame_chunks frames s))"

text \<open>The outcome of a \<open>Read\<close>: an error (or \<open>ERR_IO_PENDING\<close>), or the bytes it returned.\<close>

type_synonym read_result = "net_error + uint8 list"

definition HandleReadResult ::
    "packed_mask_type \<Rightarrow> (web_socket_frame_parser \<Rightarrow> nat) \<Rightarrow> read_result \<Rightarrow> web_socket_frame list \<Rightarrow>
     web_socket_basic_stream \<Rightarrow>
     (net_error option \<times> web_socket_frame list \<times> web_socket_basic_stream) option" where
  "HandleReadResult pm addr result frames s =
     (case result of
        Inl e \<Rightarrow> Some (Some e, frames, s)
      | Inr data \<Rightarrow>
          if data = [] then Some (Some ERR_CONNECTION_CLOSED, frames, s)
          else decode_and_convert pm addr data frames s)"

text \<open>
  The loop of \<open>ReadFrames\<close>. The list holds the results of the \<open>Read\<close> calls to come; when it is
  used up the socket has nothing more and the call is pending.
\<close>

fun read_loop ::
    "packed_mask_type \<Rightarrow> (web_socket_frame_parser \<Rightarrow> nat) \<Rightarrow> read_result list \<Rightarrow> web_socket_frame list \<Rightarrow>
     web_socket_basic_stream \<Rightarrow>
     (net_error option \<times> web_socket_frame list \<times> web_socket_basic_stream \<times> read_result list) option" where
  "read_loop pm addr [] frames s = Some (Some ERR_IO_PENDING, frames, s, [])"
| "read_loop pm addr (result # results) frames s =
     (if result = Inl ERR_IO_PENDING then Some (Some ERR_IO_PENDING, frames, s, results)
      else
        (case HandleReadResult pm addr result frames s of
           None \<Rightarrow> None
         | Some (r, frames, s) \<Rightarrow>
             if r \<noteq> Some ERR_IO_PENDING then Some (r, frames, s, results)
             else read_loop pm addr results frames s))"

definition ReadFrames ::
    "packed_mask_type \<Rightarrow> (web_socket_frame_parser \<Rightarrow> nat) \<Rightarrow> read_result list \<Rightarrow> web_socket_frame list \<Rightarrow>
     web_socket_basic_stream \<Rightarrow>
     (net_error option \<times> web_socket_frame list \<times> web_socket_basic_stream \<times> read_result list) option" where
  "ReadFrames pm addr results frames s =
     (case http_read_buffer s of
        None \<Rightarrow> read_loop pm addr results frames s
      | Some buffered_data \<Rightarrow>
          (case decode_and_convert pm addr buffered_data frames (s\<lparr>http_read_buffer := None\<rparr>) of
             None \<Rightarrow> None
           | Some (r, frames, s) \<Rightarrow>
               if r \<noteq> Some ERR_IO_PENDING then Some (r, frames, s, results)
               else read_loop pm addr results frames s))"

text \<open>The completion of a pending \<open>Read\<close>; the last component tells whether the callback runs.\<close>

definition OnReadComplete ::
    "packed_mask_type \<Rightarrow> (web_socket_frame_parser \<Rightarrow> nat) \<Rightarrow> read_result \<Rightarrow> read_result list \<Rightarrow>
     web_socket_frame list \<Rightarrow> web_socket_basic_stream \<Rightarrow>
     (net_error option \<times> web_socket_frame list \<times> web_socket_basic_stream \<times> read_result list \<times> bool) option" where
  "OnReadComplete pm addr result results frames s =
     (case HandleReadResult pm addr result frames s of
        None \<Rightarrow> None
      | Some (r, frames, s) \<Rightarrow>
          (case (if r = Some ERR_IO_PENDING then ReadFrames pm addr results frames s
                 else Some (r, frames, s, results)) of
             None \<Rightarrow> None
           | Some (r, frames, s, results) \<Rightarrow>
               Some (r, frames, s, results, r \<noteq> Some ERR_IO_PENDING)))"

section \<open>Writing\<close>

definition kMaximumTotalSize :: uint64 where "kMaximumTotalSize = INT32_MAX"

text \<open>The \<open>CHECK_LE\<close> of the total size; sizes are added in 64 bits.\<close>

fun calculate_size :: "uint64 \<Rightarrow> web_socket_frame list \<Rightarrow> (uint64 \<times> web_socket_frame list) option" where
  "calculate_size total_size [] = Some (total_size, [])"
| "calculate_size total_size (f # fs) =
     (let f = f\<lparr>frame_header := (frame_header f)\<lparr>masked := True\<rparr>\<rparr>;
          frame_size = payload_length (frame_header f) + of_nat (GetWebSocketFrameHeaderSize (frame_header f))
      in if frame_size \<le> kMaximumTotalSize - total_size
         then map_option (apsnd (Cons f)) (calculate_size (total_size + frame_size) fs)
         else None)"

definition CalculateSerializedSizeAndTurnOnMaskBit ::
    "web_socket_frame list \<Rightarrow> (nat \<times> web_socket_frame list) option" where
  "CalculateSerializedSizeAndTurnOnMaskBit frames = map_option (apfst unat) (calculate_size 0 frames)"

text \<open>
  The loop of \<open>WriteFrames\<close>. The combined buffer is given as the part before \<open>dest\<close> and the part
  from \<open>dest\<close> on, whose length is \<open>remaining_size\<close>; \<open>addr\<close> is the address of \<open>dest\<close> and the keys
  are those the generator returns. Reading past the end of a frame's data is undefined.
\<close>

fun write_loop ::
    "packed_mask_type \<Rightarrow> nat \<Rightarrow> masking_key list \<Rightarrow> web_socket_frame list \<Rightarrow> uint8 list \<Rightarrow> uint8 list \<Rightarrow>
     (uint8 list \<times> uint8 list) option" where
  "write_loop pm addr keys [] done dest = Some (done, dest)"
| "write_loop pm addr [] (f # fs) done dest = None"
| "write_loop pm addr (key # keys) (f # fs) done dest =
     (case WriteWebSocketFrameHeader (frame_header f) (Some key) dest of
        (Inl e, dest) \<Rightarrow> None
      | (Inr result, dest) \<Rightarrow>
          (let done = done @ take result dest;
               dest = drop result dest;
               frame_size = unat (payload_length (frame_header f))
           in if frame_size > length dest then None
              else if frame_size > 0
              then
                (case frame_data f of
                   None \<Rightarrow> None
                 | Some bytes \<Rightarrow>
                     if length bytes < frame_size then None
                     else
                       (let payload = MaskWebSocketFramePayload pm key 0 (addr + result)
                                        (take frame_size bytes)
                        in write_loop pm (addr + result + frame_size) keys fs (done @ payload)
                             (drop frame_size dest)))
              else write_loop pm (addr + result) keys fs done dest))"

text \<open>
  The results of \<open>Write\<close> calls: an error (or \<open>ERR_IO_PENDING\<close>), or the number of bytes taken.
  \<open>WriteEverything\<close> returns its result, what is left of the buffer and of the results; a call
  that takes nothing ends it with \<open>OK\<close>. A \<open>Write\<close> that claims more bytes than it was given fails the DCHECK
  of \<open>DidConsume\<close>.
\<close>

type_synonym write_result = "net_error + nat"

fun WriteEverything ::
    "write_result list \<Rightarrow> uint8 list \<Rightarrow> (net_error option \<times> uint8 list \<times> write_result list) option" where
  "WriteEverything [] buffer = Some (if buffer = [] then None else Some ERR_IO_PENDING, buffer, [])"
| "WriteEverything (result # results) buffer =
     (if buffer = [] then Some (None, buffer, result # results)
      else case result of
             Inl e \<Rightarrow> Some (Some e, buffer, results)
           | Inr n \<Rightarrow>
               if n > 0
               then (if n > length buffer then None else WriteEverything results (drop n buffer))
               else Some (None, buffer, results))"

definition WriteFrames ::
    "packed_mask_type \<Rightarrow> nat \<Rightarrow> masking_key list \<Rightarrow> write_result list \<Rightarrow> web_socket_frame list \<Rightarrow>
     (net_error option \<times> uint8 list \<times> write_result list) option" where
  "WriteFrames pm addr keys results frames =
     (case CalculateSerializedSizeAndTurnOnMaskBit frames of
        None \<Rightarrow> None
      | Some (total_size, frames) \<Rightarrow>
          (case write_loop pm addr keys frames [] (replicate total_size 0) of
             None \<Rightarrow> None
           | Some (done, dest) \<Rightarrow> WriteEverything results (done @ dest)))"

text \<open>
  The completion of a pending \<open>Write\<close>: its result for the callback, and whether that runs. \<open>None\<close> is a failed DCHECK:
  a completion is neither pending nor of nothing, and of no more than was given.
\<close>

definition OnWriteComplete ::
    "write_result \<Rightarrow> write_result list \<Rightarrow> uint8 list \<Rightarrow>
     (net_error option \<times> uint8 list \<times> write_result list \<times> bool) option" where
  "OnWriteComplete result results buffer =
     (case result of
        Inl e \<Rightarrow> if e = ERR_IO_PENDING then None else Some (Some e, buffer, results, True)
      | Inr n \<Rightarrow>
          if n = 0 \<or> n > length buffer then None
          else map_option (\<lambda>(r, buffer, results). (r, buffer, results, r \<noteq> Some ERR_IO_PENDING))
                 (WriteEverything results (drop n buffer)))"

text \<open>
  A socket that obeys the contract of \<open>Write\<close>: no call takes more than it is given, or nothing. Then no DCHECK
  fails, what is written is an initial part of the buffer in order, and \<open>OK\<close> is the result, or is given to the
  callback, exactly when all of it has gone out.
\<close>

fun writes_ok :: "write_result list \<Rightarrow> nat \<Rightarrow> bool" where
  "writes_ok [] left \<longleftrightarrow> True"
| "writes_ok (Inl e # results) left \<longleftrightarrow> True"
| "writes_ok (Inr n # results) left \<longleftrightarrow> left = 0 \<or> 0 < n \<and> n \<le> left \<and> writes_ok results (left - n)"

lemma WriteEverything_writes:
  assumes "writes_ok results (length buffer)"
  shows "\<exists>r k results'. WriteEverything results buffer = Some (r, drop k buffer, results') \<and>
    k \<le> length buffer \<and> (r = None \<longleftrightarrow> k = length buffer)"
  using assms
proof (induction results arbitrary: buffer)
  case Nil
  then show ?case by (cases "buffer = []") (auto intro: exI [of _ 0])
next
  case (Cons result results)
  show ?case
  proof (cases "buffer = []")
    case False
    show ?thesis
    proof (cases result)
      case (Inl e)
      then show ?thesis using False by (intro exI [of _ "Some e"] exI [of _ 0] exI [of _ results]) simp
    next
      case (Inr n)
      then have n: "0 < n" "n \<le> length buffer" "writes_ok results (length (drop n buffer))"
        using Cons.prems False by simp_all
      from Cons.IH [OF n(3)] obtain r k results' where
        "WriteEverything results (drop n buffer) = Some (r, drop k (drop n buffer), results')"
        "k \<le> length buffer - n" "r = None \<longleftrightarrow> k = length buffer - n" by auto
      then show ?thesis using Inr False n
        by (intro exI [of _ r] exI [of _ "k + n"] exI [of _ results']) auto
    qed
  qed simp
qed

lemma OnWriteComplete_writes:
  assumes "0 < n" and "n \<le> length buffer" and "writes_ok results (length buffer - n)"
  shows "\<exists>r k results'. OnWriteComplete (Inr n) results buffer = Some (r, drop k buffer, results', r \<noteq> Some ERR_IO_PENDING) \<and>
    n \<le> k \<and> k \<le> length buffer \<and> (r = None \<longleftrightarrow> k = length buffer)"
proof -
  obtain r k results' where w: "WriteEverything results (drop n buffer) = Some (r, drop k (drop n buffer), results')"
    "k \<le> length buffer - n" "r = None \<longleftrightarrow> k = length buffer - n"
    using WriteEverything_writes [of results "drop n buffer"] assms(3) by auto
  then show ?thesis using assms(1,2)
    by (intro exI [of _ r] exI [of _ "n + k"] exI [of _ results']) (auto simp: OnWriteComplete_def add.commute)
qed

section \<open>The bytes of a message\<close>

text \<open>A frame that can be sent: its data has the length its header says.\<close>

definition frame_ok :: "web_socket_frame \<Rightarrow> bool" where
  "frame_ok f \<longleftrightarrow>
     0 \<le> opcode (frame_header f) \<and> opcode (frame_header f) < 16 \<and>
     unat (payload_length (frame_header f)) =
       (case frame_data f of Some d \<Rightarrow> length d | None \<Rightarrow> 0)"

definition payload_of :: "web_socket_frame \<Rightarrow> uint8 list" where
  "payload_of f = (case frame_data f of Some d \<Rightarrow> d | None \<Rightarrow> [])"

definition mask_on :: "web_socket_frame \<Rightarrow> web_socket_frame" where
  "mask_on f = f\<lparr>frame_header := (frame_header f)\<lparr>masked := True\<rparr>\<rparr>"

definition frame_wire_size :: "web_socket_frame \<Rightarrow> nat" where
  "frame_wire_size f = GetWebSocketFrameHeaderSize (frame_header (mask_on f)) + length (payload_of f)"

definition wire :: "masking_key list \<Rightarrow> web_socket_frame list \<Rightarrow> uint8 list" where
  "wire keys fs = concat (map2 (\<lambda>k f. frame_bytes (frame_header (mask_on f)) k (payload_of f)) keys fs)"

lemma header_size_le: "GetWebSocketFrameHeaderSize h \<le> 14"
  by (simp add: header_sizes)

lemma calculate_size_eq:
  assumes "\<forall>f \<in> set fs. frame_ok f" and "unat total0 + sum_list (map frame_wire_size fs) < 2 ^ 31"
  shows "calculate_size total0 fs =
    Some (total0 + of_nat (sum_list (map frame_wire_size fs)), map mask_on fs)"
  using assms
proof (induction fs arbitrary: total0)
  case (Cons f fs)
  let ?size = "payload_length (frame_header f) + of_nat (GetWebSocketFrameHeaderSize (frame_header (mask_on f)))"
  have p: "unat (payload_length (frame_header f)) = length (payload_of f)"
    using Cons.prems(1) by (simp add: frame_ok_def payload_of_def split: option.splits)
  have size: "unat ?size = frame_wire_size f"
    using Cons.prems(2) unat_add_of_nat [of "payload_length (frame_header f)"] p
    by (simp add: frame_wire_size_def)
  then have sz: "?size = of_nat (frame_wire_size f)" by (simp flip: size)
  have nxt: "unat (total0 + ?size) = unat total0 + frame_wire_size f"
    unfolding sz using Cons.prems(2) by (intro unat_add_of_nat) simp
  have le: "?size \<le> kMaximumTotalSize - total0"
    using Cons.prems(2) size by (simp add: word_le_nat_alt unat_sub kMaximumTotalSize_def INT32_MAX_def)
  have "calculate_size (total0 + ?size) fs =
      Some (total0 + ?size + of_nat (sum_list (map frame_wire_size fs)), map mask_on fs)"
    using Cons.prems nxt by (intro Cons.IH) simp_all
  then show ?case using le sz by (simp add: Let_def flip: mask_on_def) (simp add: mask_on_def)
qed simp

text \<open>What the loop leaves in the combined buffer.\<close>

lemma write_loop_step:
  assumes ok: "frame_ok f" "masked (frame_header f)" and key: "length key = 4"
    and room: "GetWebSocketFrameHeaderSize (frame_header f) + length (payload_of f) \<le> length dest"
  shows "write_loop pm addr (key # keys) (f # fs) done dest =
    write_loop pm (addr + GetWebSocketFrameHeaderSize (frame_header f) + length (payload_of f)) keys fs
      (done @ frame_bytes (frame_header f) key (payload_of f))
      (drop (GetWebSocketFrameHeaderSize (frame_header f) + length (payload_of f)) dest)"
proof -
  let ?h = "frame_header f" and ?p = "payload_of f"
  let ?n = "GetWebSocketFrameHeaderSize ?h"
  have len: "unat (payload_length ?h) = length ?p" "frame_data f = Some ?p \<or> frame_data f = None \<and> ?p = []"
    using ok(1) by (auto simp: frame_ok_def payload_of_def split: option.splits)
  have w: "WriteWebSocketFrameHeader ?h (Some key) dest = (Inr ?n, header_bytes ?h key @ drop ?n dest)"
    using WriteWebSocketFrameHeader_eq [OF key, of ?h dest] ok(2) room by simp
  have hl: "length (header_bytes ?h key) = ?n" by (rule length_header_bytes [OF key])
  have fb: "frame_bytes ?h key xs = header_bytes ?h key @ mask_bytes key 0 xs" for xs
    using ok(2) by (simp add: frame_bytes_def)
  show ?thesis
    using len(2) room
    by (cases "?p = []")
      (auto simp: w hl fb len(1) Let_def MaskWebSocketFramePayload_eq add.commute add.left_commute)
qed

lemma write_loop_eq:
  assumes "length keys = length fs" and "\<forall>k \<in> set keys. length k = 4" and "\<forall>f \<in> set fs. frame_ok f"
    and "sum_list (map frame_wire_size fs) = length dest"
  shows "write_loop pm addr keys (map mask_on fs) done dest = Some (done @ wire keys fs, [])"
  using assms
proof (induction fs arbitrary: keys addr "done" dest)
  case Nil
  then show ?case by (simp add: wire_def)
next
  case (Cons f fs)
  obtain k ks where keys: "keys = k # ks" using Cons.prems(1) by (cases keys) auto
  have f: "frame_ok (mask_on f)" "masked (frame_header (mask_on f))" "payload_of (mask_on f) = payload_of f"
    using Cons.prems(3) by (simp_all add: frame_ok_def mask_on_def payload_of_def)
  have room: "GetWebSocketFrameHeaderSize (frame_header (mask_on f)) + length (payload_of (mask_on f)) \<le> length dest"
    using Cons.prems(4) by (simp add: frame_wire_size_def f(3))
  note step = write_loop_step [OF f(1,2) _ room, of k]
  have "write_loop pm addr' ks (map mask_on fs) (done @ frame_bytes (frame_header (mask_on f)) k (payload_of f))
        (drop (GetWebSocketFrameHeaderSize (frame_header (mask_on f)) + length (payload_of f)) dest) =
      Some ((done @ frame_bytes (frame_header (mask_on f)) k (payload_of f)) @ wire ks fs, [])" for addr'
    using Cons.prems by (intro Cons.IH) (auto simp: keys frame_wire_size_def)
  then have "write_loop pm addr keys (map mask_on (f # fs)) done dest =
      Some ((done @ frame_bytes (frame_header (mask_on f)) k (payload_of f)) @ wire ks fs, [])"
    using Cons.prems(2) by (simp add: keys step f(3) del: write_loop.simps)
  then show ?case by (simp add: wire_def keys)
qed

lemma scan_wire:
  assumes "length keys = length fs" and "\<forall>k \<in> set keys. length k = 4" and "\<forall>f \<in> set fs. frame_ok f"
    and "sum_list (map frame_wire_size fs) < 2 ^ 31"
  shows "scan Between (wire keys fs) =
    (concat (map (\<lambda>f. frame_events (frame_header (mask_on f)) (payload_of f)) fs), Between, [],
     kWebSocketNormalClosure)"
  using assms
proof (induction fs arbitrary: keys)
  case Nil
  then show ?case by (simp add: wire_def scan_Between parse_header_def)
next
  case (Cons f fs)
  obtain k ks where keys: "keys = k # ks" using Cons.prems(1) by (cases keys) auto
  have p: "unat (payload_length (frame_header (mask_on f))) = length (payload_of f)"
    using Cons.prems(3) by (auto simp: frame_ok_def payload_of_def mask_on_def split: option.splits)
  moreover have "header_ok (frame_header (mask_on f))"
    using Cons.prems(3,4) p by (simp add: header_ok_def frame_ok_def mask_on_def frame_wire_size_def)
  ultimately have "scan Between (frame_bytes (frame_header (mask_on f)) k (payload_of f) @ wire ks fs) =
      apfst (append (frame_events (frame_header (mask_on f)) (payload_of f))) (scan Between (wire ks fs))"
    using Cons.prems(2) keys by (intro scan_frame) simp_all
  moreover have "wire keys (f # fs) = frame_bytes (frame_header (mask_on f)) k (payload_of f) @ wire ks fs"
    by (simp add: wire_def keys)
  ultimately show ?case using Cons.IH [of ks] Cons.prems keys by simp
qed

section \<open>The chunks of the parser\<close>

definition chunk_size :: "web_socket_frame_chunk \<Rightarrow> nat" where
  "chunk_size c = (case chunk_data c of Some d \<Rightarrow> length d | None \<Rightarrow> 0)"

text \<open>
  The order in which the parser delivers chunks: a header opens a frame and a final chunk closes
  it exactly when its payload is complete. The state is the open frame and its offset.
\<close>

type_synonym open_frame = "(web_socket_frame_header \<times> nat) option"

definition accept_chunk :: "open_frame \<Rightarrow> web_socket_frame_chunk \<Rightarrow> open_frame option" where
  "accept_chunk st c =
     (case (case (st, chunk_header c) of
              (None, Some h) \<Rightarrow> Some (h, 0)
            | (Some (h, off), None) \<Rightarrow> Some (h, off)
            | _ \<Rightarrow> None) of
        None \<Rightarrow> None
      | Some (h, off) \<Rightarrow>
          if off + chunk_size c \<le> unat (payload_length h) \<and>
             (final_chunk c \<longleftrightarrow> off + chunk_size c = unat (payload_length h)) \<and>
             unat (payload_length h) < 2 ^ 31
          then Some (if final_chunk c then None else Some (h, off + chunk_size c))
          else None)"

fun accept_chunks :: "open_frame \<Rightarrow> web_socket_frame_chunk list \<Rightarrow> open_frame option" where
  "accept_chunks st [] = Some st"
| "accept_chunks st (c # cs) =
     (case accept_chunk st c of None \<Rightarrow> None | Some st \<Rightarrow> accept_chunks st cs)"

definition open_frame :: "web_socket_frame_parser \<Rightarrow> open_frame" where
  "open_frame p = map_option (\<lambda>h. (h, unat (p_frame_offset p))) (current_frame_header p)"

lemma chunk_events_parts:
  assumes "chunk_events c = (if f then [FrameStart h] else []) @ map PayloadByte xs @ (if b then [FrameEnd] else [])"
  shows "chunk_header c = (if f then Some h else None)" and "chunk_size c = length xs" and "final_chunk c = b"
proof -
  define bytes where "bytes = (case chunk_data c of Some d \<Rightarrow> d | None \<Rightarrow> [])"
  have c: "(case chunk_header c of Some h \<Rightarrow> [FrameStart h] | None \<Rightarrow> []) @ map PayloadByte bytes @
      (if final_chunk c then [FrameEnd] else []) =
      (if f then [FrameStart h] else []) @ map PayloadByte xs @ (if b then [FrameEnd] else [])"
    using assms by (simp add: chunk_events_def bytes_def)
  have "filter (\<lambda>e. \<exists>h. e = FrameStart h) (map PayloadByte ys) = []"
    "filter (\<lambda>e. e = FrameEnd) (map PayloadByte ys) = []" for ys by (induction ys) simp_all
  note none = this
  have h: "chunk_header c = (if f then Some h else None)"
    using arg_cong [OF c, of "filter (\<lambda>e. \<exists>h. e = FrameStart h)"]
    by (auto simp: none split: option.splits if_splits)
  have e: "final_chunk c = b"
    using arg_cong [OF c, of "filter (\<lambda>e. e = FrameEnd)"]
    by (auto simp: none split: option.splits if_splits)
  have "length bytes = length xs"
    using arg_cong [OF c, of length] h e by (auto split: option.splits if_splits)
  then show "chunk_size c = length xs" by (simp add: chunk_size_def bytes_def split: option.splits)
  show "chunk_header c = (if f then Some h else None)" "final_chunk c = b" by (fact h, fact e)
qed

lemma DecodeFramePayload_accepted:
  assumes "frame_open_ok h q" and "current_read_pos q \<le> length (p_buffer q)"
    and "current_frame_header q = Some h" and "DecodeFramePayload pm addr f h q = (c, r)"
  shows "accept_chunk (if f then None else Some (h, unat (p_frame_offset q))) c = Some (open_frame r) \<or>
    f \<and> p_frame_offset q \<noteq> 0"
proof -
  define off where "off = unat (p_frame_offset q)"
  define n where "n = unat (payload_length h) - off"
  define m where "m = min (length (unread q)) n"
  note step = DecodeFramePayload_step [OF assms(1,2), of pm addr f, unfolded assms(4), simplified,
      folded off_def, folded n_def, folded m_def]
  note parts = chunk_events_parts [OF step(1)]
  have ok: "off \<le> unat (payload_length h)" "unat (payload_length h) < 2 ^ 31"
    using assms(1) by (auto simp: frame_open_ok_def off_def)
  have size: "chunk_size c = m" using parts(2) by (simp add: m_def)
  have r: "open_frame r = (if m = n then None else Some (h, off + m))"
  proof (cases "m = n")
    case False
    have "unat (p_frame_offset q + of_nat m) = off + m"
      unfolding off_def by (rule unat_add_of_nat) (use ok in \<open>simp add: m_def n_def off_def\<close>)
    then show ?thesis using False step(2) assms(3) by (simp add: open_frame_def)
  qed (use step(2) in \<open>simp add: open_frame_def\<close>)
  show ?thesis
    using parts(1,3) ok size r
    by (auto simp: accept_chunk_def off_def [symmetric] n_def m_def unat_eq_0 [symmetric] simp del: unat_eq_0)
qed

lemma next_frame_open:
  assumes inv: "parser_inv p" and nf: "next_frame p = (Inr (f, h), r)"
  shows "open_frame p = (if f then None else Some (h, unat (p_frame_offset r)))"
    and "f \<Longrightarrow> p_frame_offset r = 0"
proof -
  have err: "websocket_error p = kWebSocketNormalClosure" using inv by (simp add: parser_inv_def)
  have "open_frame p = (if f then None else Some (h, unat (p_frame_offset r))) \<and>
      (f \<longrightarrow> p_frame_offset r = 0)"
  proof (cases "current_frame_header p")
    case None
    then show ?thesis
      using nf [unfolded next_frame_None [OF None err]] inv
      by (cases "parse_header (unread p)")
        (auto simp: DecodeFrameHeader_parse [OF err] open_frame_def parser_inv_def)
  next
    case (Some h')
    then show ?thesis using nf by (auto simp: next_frame_def open_frame_def)
  qed
  then show "open_frame p = (if f then None else Some (h, unat (p_frame_offset r)))"
    "f \<Longrightarrow> p_frame_offset r = 0" by simp_all
qed

lemma Decode_loop_accepted:
  "parser_inv p \<Longrightarrow> Decode_loop pm addr p = (ok, q, cs) \<Longrightarrow>
   \<exists>st. accept_chunks (open_frame p) cs = Some st \<and> (ok \<longrightarrow> st = open_frame q)"
proof (induction pm addr p arbitrary: ok q cs rule: Decode_loop.induct)
  case (1 pm addr p)
  note inv = \<open>parser_inv p\<close>
  show ?case
  proof (cases "current_read_pos p < length (p_buffer p)")
    case False
    then show ?thesis using "1.prems"(2) by (simp add: Decode_loop.simps)
  next
    case True
    obtain g r where nf: "next_frame p = (g, r)" by (cases "next_frame p")
    show ?thesis
    proof (cases g)
      case (Inl ok')
      then have "ok = ok'" "q = r" "cs = []" using True nf "1.prems"(2) by (simp_all add: Decode_loop.simps)
      moreover have none: "current_frame_header p = None"
        using nf Inl by (cases "current_frame_header p") (simp_all add: next_frame_def)
      moreover have "ok' \<Longrightarrow> current_frame_header r = None"
        using nf Inl none by (auto simp: next_frame_def Let_def split: if_splits option.splits)
      ultimately show ?thesis by (simp add: open_frame_def)
    next
      case (Inr fh)
      obtain f h where fh: "fh = (f, h)" by (cases fh)
      obtain c t where step: "DecodeFramePayload pm addr f h r = (c, t)"
        by (cases "DecodeFramePayload pm addr f h r")
      note s = next_frame_scan [OF inv nf [unfolded Inr fh]]
      have start: "open_frame p = (if f then None else Some (h, unat (p_frame_offset r)))" "f \<Longrightarrow> p_frame_offset r = 0"
        using next_frame_open [OF inv nf [unfolded Inr fh]] by simp_all
      have c: "accept_chunk (open_frame p) c = Some (open_frame t)"
        using DecodeFramePayload_accepted [OF s(2,4,1) step] start by auto
      have inv_t: "parser_inv t" using DecodeFramePayload_scan [OF s(1-4) step] by blast
      show ?thesis
      proof (cases "current_frame_header t")
        case None
        obtain ok' q' cs' where l: "Decode_loop pm addr t = (ok', q', cs')" by (cases "Decode_loop pm addr t")
        have "\<exists>st. accept_chunks (open_frame t) cs' = Some st \<and> (ok' \<longrightarrow> st = open_frame q')"
          by (rule "1.IH" [OF True nf [symmetric] Inr fh [symmetric] step [symmetric] _ inv_t l]) (simp add: None)
        moreover have "ok = ok'" "q = q'" "cs = c # cs'"
          using "1.prems"(2) True nf Inr fh step None l by (simp_all add: Decode_loop.simps [of pm addr p])
        ultimately show ?thesis using c by simp
      next
        case (Some h')
        then have "q = t" "cs = [c]"
          using "1.prems"(2) True nf Inr fh step by (simp_all add: Decode_loop.simps [of pm addr p])
        then show ?thesis using c by simp
      qed
    qed
  qed
qed

end
