(* ===== verification/Streaming_Utf8_Validator.thy ===== *)
theory Streaming_Utf8_Validator
  imports Prelude
begin

text \<open>
  \<open>base/i18n/streaming_utf8_validator.{h,cc}\<close> with its tables \<open>utf8_validator_tables.cc\<close>: a finite
  automaton that checks UTF-8 byte by byte. Shown: it accepts exactly the encodings of sequences of
  Unicode scalar values, it tells prefixes of such encodings from byte strings that no suffix makes
  valid, it works piecewise, and it stays inside the tables.
\<close>

section \<open>The validator\<close>

unbundle bit_operations_syntax

definition kUtf8ValidatorTables :: "uint8 list" where
  "kUtf8ValidatorTables =
    [0x00, 0x81, 0x81, 0x81, 0x81, 0x81, 0x81, 0x81,
     0x81, 0x81, 0x81, 0x81, 0x81, 0x81, 0x81, 0x81,
     0x81, 0x81, 0x81, 0x81, 0x81, 0x81, 0x81, 0x81,
     0x81, 0x81, 0x81, 0x81, 0x81, 0x81, 0x81, 0x81,
     0x81, 0x81, 0x81, 0x81, 0x81, 0x81, 0x81, 0x81,
     0x81, 0x81, 0x81, 0x81, 0x81, 0x81, 0x81, 0x81,
     0x81, 0x81, 0x81, 0x81, 0x81, 0x81, 0x81, 0x81,
     0x81, 0x81, 0x81, 0x81, 0x81, 0x81, 0x81, 0x81,
     0x81, 0x81, 0x81, 0x83, 0x83, 0x83, 0x83, 0x83,
     0x83, 0x83, 0x83, 0x83, 0x83, 0x83, 0x83, 0x83,
     0x83, 0x83, 0x83, 0x83, 0x83, 0x83, 0x83, 0x83,
     0x83, 0x83, 0x83, 0x83, 0x83, 0x83, 0x83, 0x83,
     0x83, 0x86, 0x8b, 0x8b, 0x8b, 0x8b, 0x8b, 0x8b,
     0x8b, 0x8b, 0x8b, 0x8b, 0x8b, 0x8b, 0x8e, 0x8b,
     0x8b, 0x93, 0x9c, 0x9c, 0x9c, 0x9f, 0x81, 0x81,
     0x81, 0x81, 0x81, 0x81, 0x81, 0x81, 0x81, 0x81,
     0x81,
     0x07, 0x81,
     0x06, 0x00, 0x81,
     0x05, 0x81, 0x83, 0x81, 0x81,
     0x06, 0x83, 0x81,
     0x05, 0x83, 0x81, 0x81, 0x81,
     0x04, 0x81, 0x8b, 0x8b, 0x8b, 0x81, 0x81, 0x81,
     0x81,
     0x06, 0x8b, 0x81,
     0x04, 0x8b, 0x81, 0x81, 0x81, 0x81, 0x81, 0x81,
     0x81]"

definition I18N_UTF8_VALIDATOR_INVALID_INDEX :: uint8 where
  "I18N_UTF8_VALIDATOR_INVALID_INDEX = 129"

text \<open>\<open>None\<close> is a failed DCHECK.\<close>

definition StateTableLookup :: "uint8 \<Rightarrow> uint8 option" where
  "StateTableLookup offset =
     (if unat offset < length kUtf8ValidatorTables then Some (kUtf8ValidatorTables ! unat offset)
      else None)"

datatype validator_state = VALID_ENDPOINT | VALID_MIDPOINT | INVALID

text \<open>The validator is its one member \<open>state_\<close>.\<close>

type_synonym streaming_utf8_validator = uint8

definition StreamingUtf8Validator :: streaming_utf8_validator where
  "StreamingUtf8Validator = 0"

definition StreamingUtf8Validator_Reset :: "streaming_utf8_validator \<Rightarrow> streaming_utf8_validator" where
  "StreamingUtf8Validator_Reset v = 0"

fun add_bytes_loop :: "uint8 list \<Rightarrow> uint8 \<Rightarrow> uint8 option" where
  "add_bytes_loop [] state = Some state"
| "add_bytes_loop (c # cs) state =
     (if c AND 0x80 = 0
      then (if state = 0 then add_bytes_loop cs state else Some I18N_UTF8_VALIDATOR_INVALID_INDEX)
      else
        Option.bind (StateTableLookup state) (\<lambda>shift_amount.
        let shifted_char = drop_bit (unat shift_amount) (c AND 0x7F)
        in Option.bind (StateTableLookup (state + shifted_char + 1)) (\<lambda>state.
           add_bytes_loop cs state)))"

definition state_result :: "uint8 \<Rightarrow> validator_state" where
  "state_result state =
     (if state = 0 then VALID_ENDPOINT
      else if state = I18N_UTF8_VALIDATOR_INVALID_INDEX then INVALID
      else VALID_MIDPOINT)"

definition AddBytes ::
    "uint8 list \<Rightarrow> streaming_utf8_validator \<Rightarrow> (validator_state \<times> streaming_utf8_validator) option" where
  "AddBytes bytes v = map_option (\<lambda>state. (state_result state, state)) (add_bytes_loop bytes v)"

definition Validate :: "uint8 list \<Rightarrow> bool option" where
  "Validate bytes = map_option (\<lambda>(result, v). result = VALID_ENDPOINT) (AddBytes bytes StreamingUtf8Validator)"

section \<open>The automaton\<close>

text \<open>
  The states by name: a character boundary, an error, and how many continuation bytes are still
  to come, with the range of the next one where it is restricted.
\<close>

definition utf8_states :: "uint8 list" where
  "utf8_states = [0, 0x81, 0x83, 0x86, 0x8b, 0x8e, 0x93, 0x9c, 0x9f]"

definition lead_state :: "nat \<Rightarrow> uint8" where
  "lead_state c =
     (if c < 0x80 then 0 else if c < 0xC2 then 0x81 else if c < 0xE0 then 0x83 else if c = 0xE0 then 0x86
      else if c = 0xED then 0x8e else if c < 0xF0 then 0x8b else if c = 0xF0 then 0x93
      else if c < 0xF4 then 0x9c else if c = 0xF4 then 0x9f else 0x81)"

definition next_state :: "uint8 \<Rightarrow> nat \<Rightarrow> uint8" where
  "next_state state c =
     (if state = 0 then lead_state c
      else if state = 0x83 \<and> 0x80 \<le> c \<and> c < 0xC0 then 0
      else if state = 0x86 \<and> 0xA0 \<le> c \<and> c < 0xC0 then 0x83
      else if state = 0x8b \<and> 0x80 \<le> c \<and> c < 0xC0 then 0x83
      else if state = 0x8e \<and> 0x80 \<le> c \<and> c < 0xA0 then 0x83
      else if state = 0x93 \<and> 0x90 \<le> c \<and> c < 0xC0 then 0x8b
      else if state = 0x9c \<and> 0x80 \<le> c \<and> c < 0xC0 then 0x8b
      else if state = 0x9f \<and> 0x80 \<le> c \<and> c < 0x90 then 0x8b
      else 0x81)"

lemma top_bit: "c AND 0x80 = 0 \<longleftrightarrow> unat c < 128" for c :: uint8
proof -
  have "c AND 0x80 = 0 \<longleftrightarrow> \<not> bit c 7"
    using and_exp_eq_0_iff_not_bit [of c 7] by simp
  also have "bit c 7 \<longleftrightarrow> bit (uint c) 7" by (simp add: bit_uint_iff)
  also have "\<dots> \<longleftrightarrow> odd (uint c div 128)" by (simp add: bit_iff_odd)
  also have "\<dots> \<longleftrightarrow> odd (unat c div 128)"
  proof -
    have "uint c div 128 = int (unat c div 128)" by (simp add: zdiv_int)
    then show ?thesis by (simp only: even_of_nat_iff)
  qed
  also have "\<dots> \<longleftrightarrow> \<not> unat c < 128"
  proof (cases "unat c < 128")
    case False
    then have "unat c div 128 = 1" using unsigned_less [of c, where 'a = nat] by (intro div_nat_eqI) simp_all
    then show ?thesis using False by simp
  qed simp
  finally show ?thesis by simp
qed

lemma low_bits: "unat (drop_bit k (c AND 0x7F)) = unat c mod 128 div 2 ^ k" for c :: uint8
proof -
  have "unat (take_bit 7 c) = unat c mod 2 ^ 7" by (subst unsigned_take_bit_eq) (simp only: take_bit_eq_mod)
  then have "unat (c AND 0x7F) = unat c mod 128" by (simp add: take_bit_eq_mask mask_eq_exp_minus_1)
  then show ?thesis by (simp only: unat_drop_bit_eq) (simp only: drop_bit_eq_div)
qed

lemma tables_length: "length kUtf8ValidatorTables = 168"
  by (simp add: kUtf8ValidatorTables_def)

lemma lead_states: "map (\<lambda>n. lead_state (n + 128)) [0..<128] = take 128 (tl kUtf8ValidatorTables)"
  by (simp add: upt_rec lead_state_def kUtf8ValidatorTables_def)


text \<open>One byte of the loop is one step of the automaton.\<close>

definition utf8_step :: "uint8 \<Rightarrow> uint8 \<Rightarrow> uint8 option" where
  "utf8_step state c =
     Option.bind (StateTableLookup state) (\<lambda>shift_amount.
       StateTableLookup (state + drop_bit (unat shift_amount) (c AND 0x7F) + 1))"

lemma step_index:
  assumes "StateTableLookup state = Some shift" and "unat state + unat c mod 128 div 2 ^ unat shift < 167"
  shows "utf8_step state c = Some (kUtf8ValidatorTables ! (unat state + unat c mod 128 div 2 ^ unat shift + 1))"
proof -
  let ?d = "drop_bit (unat shift) (c AND 0x7F)"
  have d: "unat ?d = unat c mod 128 div 2 ^ unat shift" by (rule low_bits)
  have "unat (state + ?d) = unat state + unat ?d" using assms(2) d by (intro unat_add_lem [THEN iffD1]) simp
  then have "unat (state + ?d + 1) = unat state + unat ?d + 1"
    using assms(2) d by (subst unat_add_lem [THEN iffD1]) simp_all
  then show ?thesis using assms d by (simp add: utf8_step_def StateTableLookup_def tables_length)
qed

lemma step_0: "\<not> unat c < 128 \<Longrightarrow> utf8_step 0 c = Some (lead_state (unat c))"
proof -
  assume c: "\<not> unat c < 128"
  have "StateTableLookup 0 = Some 0" by (simp add: StateTableLookup_def kUtf8ValidatorTables_def)
  moreover have r: "unat c < 256" using unsigned_less [of c, where 'a = nat] by simp
  then have m: "unat c mod 128 = unat c - 128" "unat c - 128 < 128" using c by (simp_all add: mod_if)
  ultimately have "utf8_step 0 c = Some (kUtf8ValidatorTables ! (unat c - 128 + 1))"
    using step_index [of 0 0 c] by simp
  also have "kUtf8ValidatorTables ! (unat c - 128 + 1) = take 128 (tl kUtf8ValidatorTables) ! (unat c - 128)"
    using m by (simp add: nth_tl tables_length)
  also have "\<dots> = lead_state (unat c)" unfolding lead_states [symmetric] using m c by simp
  finally show ?thesis .
qed


text \<open>The block of a state: a shift, and the states that follow for the shifted bytes.\<close>

lemma step_block:
  assumes block: "take (Suc n) (drop (unat state) kUtf8ValidatorTables) = shift # succs"
    and c: "\<not> unat c < 128" and k: "unat c = k + 128" and n: "k div 2 ^ unat shift < n" and s: "unat state + n < 168"
  shows "utf8_step state c = Some (succs ! (k div 2 ^ unat shift))"
proof -
  have at: "kUtf8ValidatorTables ! (unat state + j) = (shift # succs) ! j" if "j < Suc n" for j
    using that s unfolding block [symmetric] by (simp add: tables_length)
  have "StateTableLookup state = Some shift"
    using at [of 0] s by (simp add: StateTableLookup_def tables_length)
  moreover have "unat c mod 128 = k"
    using k unsigned_less [of c, where 'a = nat] by simp
  ultimately have "utf8_step state c = Some (kUtf8ValidatorTables ! (unat state + k div 2 ^ unat shift + 1))"
    using step_index [of state shift c] n s by simp
  then show ?thesis using at [of "k div 2 ^ unat shift + 1"] n by (simp add: algebra_simps)
qed

lemma blocks:
  "take 2 (drop 0x81 kUtf8ValidatorTables) = [0x07, 0x81]"
  "take 3 (drop 0x83 kUtf8ValidatorTables) = [0x06, 0x00, 0x81]"
  "take 5 (drop 0x86 kUtf8ValidatorTables) = [0x05, 0x81, 0x83, 0x81, 0x81]"
  "take 3 (drop 0x8b kUtf8ValidatorTables) = [0x06, 0x83, 0x81]"
  "take 5 (drop 0x8e kUtf8ValidatorTables) = [0x05, 0x83, 0x81, 0x81, 0x81]"
  "take 9 (drop 0x93 kUtf8ValidatorTables) = [0x04, 0x81, 0x8b, 0x8b, 0x8b, 0x81, 0x81, 0x81, 0x81]"
  "take 3 (drop 0x9c kUtf8ValidatorTables) = [0x06, 0x8b, 0x81]"
  "take 9 (drop 0x9f kUtf8ValidatorTables) = [0x04, 0x8b, 0x81, 0x81, 0x81, 0x81, 0x81, 0x81, 0x81]"
  by (simp_all add: kUtf8ValidatorTables_def)

lemma step_next:
  assumes s: "state \<in> set utf8_states" and c: "\<not> unat c < 128"
  shows "utf8_step state c = Some (next_state state (unat c))"
proof -
  define k where "k = unat c - 128"
  have k: "unat c = k + 128" "k < 128"
    using unsigned_less [of c, where 'a = nat] c by (simp_all add: k_def)
  note block = step_block [OF _ c k(1)]
  have eight: "k div 16 \<in> {0, 1, 2, 3, 4, 5, 6, 7}" using k(2) by auto
  have four: "k div 32 \<in> {0, 1, 2, 3}" and two: "k div 64 \<in> {0, 1}" and one: "k div 128 = 0" using k(2) by auto
  consider "state = 0" | "state = 0x81" | "state = 0x83" | "state = 0x86" | "state = 0x8b" | "state = 0x8e"
    | "state = 0x93" | "state = 0x9c" | "state = 0x9f"
    using s unfolding utf8_states_def by auto
  then show ?thesis
  proof cases
    case 1
    then show ?thesis using step_0 c by (simp add: next_state_def)
  next
    case 2
    then show ?thesis using block [of 1 state 7 "[0x81]"] blocks(1) [unfolded numeral_2_eq_2] one by (simp add: next_state_def)
  next
    case 3
    then show ?thesis
      using block [of 2 state 6 "[0, 0x81]"] blocks(2) two k by (auto simp: next_state_def)
  next
    case 4
    then show ?thesis
      using block [of 4 state 5 "[0x81, 0x83, 0x81, 0x81]"] blocks(3) four k by (auto simp: next_state_def)
  next
    case 5
    then show ?thesis
      using block [of 2 state 6 "[0x83, 0x81]"] blocks(4) two k by (auto simp: next_state_def)
  next
    case 6
    then show ?thesis
      using block [of 4 state 5 "[0x83, 0x81, 0x81, 0x81]"] blocks(5) four k by (auto simp: next_state_def)
  next
    case 7
    then show ?thesis
      using block [of 8 state 4 "[0x81, 0x8b, 0x8b, 0x8b, 0x81, 0x81, 0x81, 0x81]"] blocks(6) eight k
      by (auto simp: next_state_def)
  next
    case 8
    then show ?thesis
      using block [of 2 state 6 "[0x8b, 0x81]"] blocks(7) two k by (auto simp: next_state_def)
  next
    case 9
    then show ?thesis
      using block [of 8 state 4 "[0x8b, 0x81, 0x81, 0x81, 0x81, 0x81, 0x81, 0x81]"] blocks(8) eight k
      by (auto simp: next_state_def)
  qed
qed

lemma next_state_states: "next_state state c \<in> set utf8_states"
  by (simp add: next_state_def lead_state_def utf8_states_def)

text \<open>The loop without its shortcut on ASCII.\<close>

fun utf8_run :: "uint8 \<Rightarrow> uint8 list \<Rightarrow> uint8" where
  "utf8_run state [] = state"
| "utf8_run state (c # cs) = utf8_run (next_state state (unat c)) cs"

lemma run_invalid: "utf8_run 0x81 cs = 0x81"
  by (induction cs) (simp_all add: next_state_def)

lemma add_bytes_run: "state \<in> set utf8_states \<Longrightarrow> add_bytes_loop cs state = Some (utf8_run state cs)"
proof (induction cs arbitrary: state)
  case (Cons c cs)
  show ?case
  proof (cases "unat c < 128")
    case True
    have "next_state state (unat c) = (if state = 0 then 0 else 0x81)"
      using True Cons.prems by (auto simp: utf8_states_def next_state_def lead_state_def)
    moreover have "add_bytes_loop cs 0 = Some (utf8_run 0 cs)" by (rule Cons.IH) (simp add: utf8_states_def)
    ultimately show ?thesis
      using True by (simp add: top_bit run_invalid I18N_UTF8_VALIDATOR_INVALID_INDEX_def)
  next
    case False
    have "utf8_step state c = Some (next_state state (unat c))" by (rule step_next [OF Cons.prems False])
    then show ?thesis
      using False Cons.IH [OF next_state_states]
      by (auto simp: top_bit utf8_step_def Let_def split: Option.bind_splits)
  qed
qed simp

lemma run_append: "utf8_run state (cs @ ds) = utf8_run (utf8_run state cs) ds"
  by (induction cs arbitrary: state) simp_all

lemma run_states: "state \<in> set utf8_states \<Longrightarrow> utf8_run state cs \<in> set utf8_states"
  by (induction cs arbitrary: state) (simp_all add: next_state_states)


section \<open>UTF-8\<close>

text \<open>The encoding of a Unicode scalar value (RFC 3629): surrogates have none.\<close>

definition scalar_value :: "nat \<Rightarrow> bool" where
  "scalar_value n \<longleftrightarrow> n < 0xD800 \<or> (0xE000 \<le> n \<and> n < 0x110000)"

definition continuation_byte :: "nat \<Rightarrow> nat" where
  "continuation_byte n = 0x80 + n mod 64"

definition utf8_encode :: "nat \<Rightarrow> nat list" where
  "utf8_encode n =
     (if n < 0x80 then [n]
      else if n < 0x800 then [0xC0 + n div 64, continuation_byte n]
      else if n < 0x10000 then [0xE0 + n div 4096, continuation_byte (n div 64), continuation_byte n]
      else [0xF0 + n div 262144, continuation_byte (n div 4096), continuation_byte (n div 64), continuation_byte n])"

definition utf8_string :: "nat list \<Rightarrow> uint8 list" where
  "utf8_string ns = map of_nat (concat (map utf8_encode ns))"

definition valid_utf8 :: "uint8 list \<Rightarrow> bool" where
  "valid_utf8 bytes \<longleftrightarrow> (\<exists>ns. (\<forall>n \<in> set ns. scalar_value n) \<and> bytes = utf8_string ns)"

text \<open>The automaton on natural numbers, and the bytes of one scalar value.\<close>

fun utf8_run_nat :: "uint8 \<Rightarrow> nat list \<Rightarrow> uint8" where
  "utf8_run_nat state [] = state"
| "utf8_run_nat state (c # cs) = utf8_run_nat (next_state state c) cs"

lemma run_run_nat: "utf8_run state cs = utf8_run_nat state (map unat cs)"
  by (induction cs arbitrary: state) simp_all

lemma run_nat_append: "utf8_run_nat state (cs @ ds) = utf8_run_nat (utf8_run_nat state cs) ds"
  by (induction cs arbitrary: state) simp_all

lemma run_nat_invalid: "utf8_run_nat 0x81 cs = 0x81"
  by (induction cs) (simp_all add: next_state_def)

lemma utf8_encode_bytes: "scalar_value n \<Longrightarrow> c \<in> set (utf8_encode n) \<Longrightarrow> c < 256"
  by (auto simp: utf8_encode_def continuation_byte_def scalar_value_def split: if_splits)

lemma next_lead: "next_state 0 c = lead_state c"
  by (simp add: next_state_def)

lemma run_encode: 
  assumes "scalar_value n"
  shows "utf8_run_nat 0 (utf8_encode n) = 0"
proof -
  consider "n < 0x80" | "0x80 \<le> n" "n < 0x800" | "0x800 \<le> n" "n < 0x10000" | "0x10000 \<le> n" "n < 0x110000"
    using assms unfolding scalar_value_def by linarith
  then show ?thesis
  proof cases
    case 1
    then show ?thesis by (simp add: utf8_encode_def next_lead lead_state_def)
  next
    case 2
    then have "lead_state (0xC0 + n div 64) = 0x83" by (auto simp: lead_state_def)
    then show ?thesis using 2 by (simp add: utf8_encode_def next_lead continuation_byte_def next_state_def)
  next
    case 3
    let ?a = "n div 4096" and ?b = "n div 64 mod 64"
    have "?a = n div 64 div 64" by (simp add: div_mult2_eq [symmetric])
    then have "n div 64 = 64 * ?a + ?b" by simp
    moreover have "32 \<le> n div 64" "n div 64 < 864 \<or> 896 \<le> n div 64"
      using 3 assms by (auto simp: scalar_value_def)
    ultimately have ab: "?a < 16" "?a = 0 \<Longrightarrow> 32 \<le> ?b" "?a = 13 \<Longrightarrow> ?b < 32"
      using 3 by auto
    have "utf8_run_nat 0 [0xE0 + ?a, 0x80 + ?b] = 0x83"
      using ab by (auto simp: next_lead lead_state_def) (simp_all add: next_state_def)
    then show ?thesis using 3 by (simp add: utf8_encode_def continuation_byte_def) (simp add: next_state_def)
  next
    case 4
    let ?a = "n div 262144" and ?b = "n div 4096 mod 64"
    have "?a = n div 4096 div 64" by (simp add: div_mult2_eq [symmetric])
    then have "n div 4096 = 64 * ?a + ?b" by simp
    moreover have "16 \<le> n div 4096" "n div 4096 < 272" using 4 by auto
    ultimately have ab: "?a < 5" "?a = 0 \<Longrightarrow> 16 \<le> ?b" "?a = 4 \<Longrightarrow> ?b < 16" by auto
    have "utf8_run_nat 0 [0xF0 + ?a, 0x80 + ?b] = 0x8b"
      using ab by (auto simp: next_lead lead_state_def) (simp_all add: next_state_def)
    then show ?thesis using 4 by (simp add: utf8_encode_def continuation_byte_def) (simp add: next_state_def)
  qed
qed


text \<open>Conversely, what the automaton accepts starts with the bytes of a scalar value.\<close>

lemma run_nat_tail:
  assumes "utf8_run_nat state cs = 0" and "state \<noteq> 0"
  obtains d ds where "cs = d # ds" and "utf8_run_nat (next_state state d) ds = 0" and "next_state state d \<noteq> 0x81"
proof (cases cs)
  case Nil
  then show ?thesis using assms by simp
next
  case (Cons d ds)
  then have "utf8_run_nat (next_state state d) ds = 0" using assms by simp
  moreover from this have "next_state state d \<noteq> 0x81" using run_nat_invalid [of ds] by auto
  ultimately show ?thesis using Cons that by blast
qed

lemma next_83: "next_state 0x83 d \<noteq> 0x81 \<Longrightarrow> 0x80 \<le> d \<and> d < 0xC0 \<and> next_state 0x83 d = 0"
  by (simp add: next_state_def split: if_splits)

lemma next_second:
  "state \<in> {0x86, 0x8b, 0x8e} \<Longrightarrow> next_state state d \<noteq> 0x81 \<Longrightarrow>
    0x80 \<le> d \<and> d < 0xC0 \<and> (state = 0x86 \<longrightarrow> 0xA0 \<le> d) \<and> (state = 0x8e \<longrightarrow> d < 0xA0) \<and> next_state state d = 0x83"
  "state \<in> {0x93, 0x9c, 0x9f} \<Longrightarrow> next_state state d \<noteq> 0x81 \<Longrightarrow>
    0x80 \<le> d \<and> d < 0xC0 \<and> (state = 0x93 \<longrightarrow> 0x90 \<le> d) \<and> (state = 0x9f \<longrightarrow> d < 0x90) \<and> next_state state d = 0x8b"
  by (auto simp: next_state_def split: if_splits)

lemma two_bytes:
  assumes "0xC2 \<le> c" "c < 0xE0" "0x80 \<le> d" "d < 0xC0"
  shows "\<exists>n. scalar_value n \<and> utf8_encode n = [c, d]"
proof -
  define a e where "a = c - 0xC0" and "e = d - 0x80"
  have ae: "c = 0xC0 + a" "d = 0x80 + e" "2 \<le> a" "a < 32" "e < 64" using assms by (simp_all add: a_def e_def)
  have "(a * 64 + e) div 64 = a" "(a * 64 + e) mod 64 = e" using ae by simp_all
  then have "scalar_value (a * 64 + e) \<and> utf8_encode (a * 64 + e) = [c, d]"
    using ae by (auto simp: scalar_value_def utf8_encode_def continuation_byte_def)
  then show ?thesis by blast
qed

lemma three_bytes:
  assumes "0xE0 \<le> c" "c < 0xF0" "0x80 \<le> d" "d < 0xC0" "0x80 \<le> e" "e < 0xC0"
    and "c = 0xE0 \<Longrightarrow> 0xA0 \<le> d" and "c = 0xED \<Longrightarrow> d < 0xA0"
  shows "\<exists>n. scalar_value n \<and> utf8_encode n = [c, d, e]"
proof -
  define x y z where "x = c - 0xE0" and "y = d - 0x80" and "z = e - 0x80"
  have b: "c = 0xE0 + x" "d = 0x80 + y" "e = 0x80 + z" "x < 16" "y < 64" "z < 64"
    "x = 0 \<Longrightarrow> 32 \<le> y" using assms by (auto simp: x_def y_def z_def)
  have high: "y < 32" if "x = 13"
  proof -
    have "c = 0xED" using that assms(1) by (simp add: x_def)
    then show ?thesis using assms(3,8) by (simp add: y_def)
  qed
  define n where "n = x * 4096 + y * 64 + z"
  have d: "n div 4096 = x" "n div 64 mod 64 = y" "n mod 64 = z"
  proof -
    define m where "m = x * 64 + y"
    have "n = m * 64 + z" by (simp add: n_def m_def)
    then have "n div 64 = x * 64 + y" and "n mod 64 = z" using b by (simp_all add: m_def [symmetric])
    moreover have "n div 4096 = n div 64 div 64" by (simp add: div_mult2_eq [symmetric])
    ultimately show "n div 4096 = x" "n div 64 mod 64 = y" "n mod 64 = z" using b by simp_all
  qed
  have n: "0x800 \<le> n" "n < 0x10000" "n < 0xD800 \<or> 0xE000 \<le> n"
  proof -
    show "0x800 \<le> n" using b by (cases "x = 0") (auto simp: n_def)
    show "n < 0x10000" using b by (simp add: n_def)
    consider "x < 13" | "x = 13" | "13 < x" by linarith
    then show "n < 0xD800 \<or> 0xE000 \<le> n" using b high by cases (auto simp: n_def)
  qed
  have "scalar_value n \<and> utf8_encode n = [c, d, e]"
    using b(1-3) d n by (simp add: scalar_value_def utf8_encode_def continuation_byte_def)
  then show ?thesis by blast
qed

lemma four_bytes:
  assumes "0xF0 \<le> c" "c < 0xF5" "0x80 \<le> d" "d < 0xC0" "0x80 \<le> e" "e < 0xC0" "0x80 \<le> f" "f < 0xC0"
    and "c = 0xF0 \<Longrightarrow> 0x90 \<le> d" and "c = 0xF4 \<Longrightarrow> d < 0x90"
  shows "\<exists>n. scalar_value n \<and> utf8_encode n = [c, d, e, f]"
proof -
  define w x y z where "w = c - 0xF0" and "x = d - 0x80" and "y = e - 0x80" and "z = f - 0x80"
  have b: "c = 0xF0 + w" "d = 0x80 + x" "e = 0x80 + y" "f = 0x80 + z" "w < 5" "x < 64" "y < 64" "z < 64"
    "w = 0 \<Longrightarrow> 16 \<le> x" using assms by (auto simp: w_def x_def y_def z_def)
  have high: "x < 16" if "w = 4"
  proof -
    have "c = 0xF4" using that assms(1) by (simp add: w_def)
    then show ?thesis using assms(3,10) by (simp add: x_def)
  qed
  define n where "n = ((w * 64 + x) * 64 + y) * 64 + z"
  define j k where "j = w * 64 + x" and "k = j * 64 + y"
  have "n = k * 64 + z" by (simp add: n_def k_def j_def)
  then have m: "n div 64 = k" "n mod 64 = z" using b by simp_all
  have k: "k div 64 = j" "k mod 64 = y" using b by (simp_all add: k_def)
  have "n div 4096 = n div 64 div 64" "n div 262144 = n div 64 div 64 div 64"
    by (simp_all add: div_mult2_eq [symmetric])
  then have d: "n div 4096 = w * 64 + x" "n div 64 mod 64 = y" "n mod 64 = z" "n div 262144 = w"
    using m k b by (simp_all add: j_def)
  have n: "0x10000 \<le> n" "n < 0x110000"
  proof -
    show "0x10000 \<le> n" using b by (cases "w = 0") (auto simp: n_def)
    show "n < 0x110000" using b high by (cases "w = 4") (auto simp: n_def)
  qed
  have "scalar_value n \<and> utf8_encode n = [c, d, e, f]"
    using b(1-4,6) d n by (simp add: scalar_value_def utf8_encode_def continuation_byte_def)
  then show ?thesis by blast
qed


lemma accepted_split:
  assumes "utf8_run_nat 0 (c # cs) = 0"
  shows "\<exists>n rest. scalar_value n \<and> c # cs = utf8_encode n @ rest \<and> utf8_run_nat 0 rest = 0"
proof -
  have lead: "utf8_run_nat (lead_state c) cs = 0" using assms by (simp add: next_lead)
  then have ok: "lead_state c \<noteq> 0x81" using run_nat_invalid [of cs] by auto
  consider "c < 0x80" | "0xC2 \<le> c" "c < 0xE0" "lead_state c = 0x83"
    | "0xE0 \<le> c" "c < 0xF0" "lead_state c \<in> {0x86, 0x8b, 0x8e}" | "0xF0 \<le> c" "c < 0xF5" "lead_state c \<in> {0x93, 0x9c, 0x9f}"
    using ok by (auto simp: lead_state_def split: if_splits)
  then show ?thesis
  proof cases
    case 1
    then have "scalar_value c" "utf8_encode c = [c]" "utf8_run_nat 0 cs = 0"
      using lead by (simp_all add: scalar_value_def utf8_encode_def lead_state_def)
    then show ?thesis by (metis append_Cons append_Nil)
  next
    case 2
    obtain d ds where d: "cs = d # ds" "utf8_run_nat (next_state 0x83 d) ds = 0" "next_state 0x83 d \<noteq> 0x81"
      using run_nat_tail [where state = "0x83" and cs = cs] lead 2(3) by auto
    note nd = next_83 [OF d(3)]
    obtain n where "scalar_value n" "utf8_encode n = [c, d]" using two_bytes 2 nd by blast
    then show ?thesis using d nd by (intro exI [of _ n] exI [of _ ds]) simp
  next
    case 3
    have "lead_state c \<noteq> 0" using 3(3) by auto
    then obtain d ds where d: "cs = d # ds" "utf8_run_nat (next_state (lead_state c) d) ds = 0" "next_state (lead_state c) d \<noteq> 0x81"
      using run_nat_tail [OF lead] by blast
    note nd = next_second(1) [OF 3(3) d(3)]
    then have "utf8_run_nat 0x83 ds = 0" using d(2) by simp
    then obtain e es where e: "ds = e # es" "utf8_run_nat (next_state 0x83 e) es = 0" "next_state 0x83 e \<noteq> 0x81"
      using run_nat_tail [where state = "0x83" and cs = ds] by auto
    note ne = next_83 [OF e(3)]
    have "c = 0xE0 \<Longrightarrow> 0xA0 \<le> d" "c = 0xED \<Longrightarrow> d < 0xA0" using nd by (auto simp: lead_state_def)
    then obtain n where "scalar_value n" "utf8_encode n = [c, d, e]" using three_bytes 3(1,2) nd ne by blast
    then show ?thesis using d e ne by (intro exI [of _ n] exI [of _ es]) simp
  next
    case 4
    have "lead_state c \<noteq> 0" using 4(3) by auto
    then obtain d ds where d: "cs = d # ds" "utf8_run_nat (next_state (lead_state c) d) ds = 0" "next_state (lead_state c) d \<noteq> 0x81"
      using run_nat_tail [OF lead] by blast
    note nd = next_second(2) [OF 4(3) d(3)]
    then have "utf8_run_nat 0x8b ds = 0" using d(2) by simp
    then obtain e es where e: "ds = e # es" "utf8_run_nat (next_state 0x8b e) es = 0" "next_state 0x8b e \<noteq> 0x81"
      using run_nat_tail [where state = "0x8b" and cs = ds] by auto
    note ne = next_second(1) [OF _ e(3)]
    then have "utf8_run_nat 0x83 es = 0" using e(2) by simp
    then obtain f fs where f: "es = f # fs" "utf8_run_nat (next_state 0x83 f) fs = 0" "next_state 0x83 f \<noteq> 0x81"
      using run_nat_tail [where state = "0x83" and cs = es] by auto
    note nf = next_83 [OF f(3)]
    have "c = 0xF0 \<Longrightarrow> 0x90 \<le> d" "c = 0xF4 \<Longrightarrow> d < 0x90" using nd by (auto simp: lead_state_def)
    then obtain n where "scalar_value n" "utf8_encode n = [c, d, e, f]" using four_bytes 4(1,2) nd ne nf by blast
    then show ?thesis using d e f nf by (intro exI [of _ n] exI [of _ fs]) simp
  qed
qed

lemma accepted_strings:
  "utf8_run_nat 0 cs = 0 \<longleftrightarrow> (\<exists>ns. (\<forall>n \<in> set ns. scalar_value n) \<and> cs = concat (map utf8_encode ns))"
proof
  show "utf8_run_nat 0 cs = 0 \<Longrightarrow> \<exists>ns. (\<forall>n \<in> set ns. scalar_value n) \<and> cs = concat (map utf8_encode ns)"
  proof (induction "length cs" arbitrary: cs rule: less_induct)
    case less
    show ?case
    proof (cases cs)
      case Nil
      then show ?thesis by (intro exI [of _ "[]"]) simp
    next
      case (Cons c cs')
      then obtain n rest where n: "scalar_value n" "cs = utf8_encode n @ rest" "utf8_run_nat 0 rest = 0"
        using accepted_split less.prems by blast
      have "length rest < length cs" using n(2) by (simp add: utf8_encode_def)
      then obtain ns where "\<forall>n \<in> set ns. scalar_value n" "rest = concat (map utf8_encode ns)"
        using less.hyps n(3) by blast
      then show ?thesis using n(1,2) by (intro exI [of _ "n # ns"]) simp
    qed
  qed
next
  assume "\<exists>ns. (\<forall>n \<in> set ns. scalar_value n) \<and> cs = concat (map utf8_encode ns)"
  then obtain ns where "\<forall>n \<in> set ns. scalar_value n" "cs = concat (map utf8_encode ns)" by blast
  then show "utf8_run_nat 0 cs = 0"
    by (induction ns arbitrary: cs) (simp_all add: run_nat_append run_encode)
qed

lemma run_valid: "utf8_run 0 bytes = 0 \<longleftrightarrow> valid_utf8 bytes"
proof
  assume "utf8_run 0 bytes = 0"
  then obtain ns where ns: "\<forall>n \<in> set ns. scalar_value n" "map unat bytes = concat (map utf8_encode ns)"
    using accepted_strings by (auto simp: run_run_nat)
  have "bytes = map of_nat (map unat bytes)" by (simp add: comp_def)
  then have "bytes = utf8_string ns" using ns(2) by (simp add: utf8_string_def)
  then show "valid_utf8 bytes" using ns(1) by (auto simp: valid_utf8_def)
next
  assume "valid_utf8 bytes"
  then obtain ns where ns: "\<forall>n \<in> set ns. scalar_value n" "bytes = utf8_string ns" by (auto simp: valid_utf8_def)
  have "unat (of_nat c :: uint8) = c" if "c < 256" for c using that by (simp add: unat_of_nat)
  then have "map unat (utf8_string ns) = concat (map utf8_encode ns)"
    unfolding utf8_string_def map_map comp_def using ns(1) utf8_encode_bytes
    by (intro map_idI) auto
  then show "utf8_run 0 bytes = 0" using ns accepted_strings by (auto simp: run_run_nat)
qed

text \<open>From every state but the invalid one a suffix leads to acceptance.\<close>

lemma run_completable:
  assumes "state \<in> set utf8_states" and "state \<noteq> 0x81"
  shows "\<exists>suffix. utf8_run state suffix = 0"
proof -
  have "utf8_run 0 [] = 0" "utf8_run 0x83 [0x80] = 0" "utf8_run 0x86 [0xA0, 0x80] = 0" "utf8_run 0x8b [0x80, 0x80] = 0"
    "utf8_run 0x8e [0x80, 0x80] = 0" "utf8_run 0x93 [0x90, 0x80, 0x80] = 0" "utf8_run 0x9c [0x80, 0x80, 0x80] = 0"
    "utf8_run 0x9f [0x80, 0x80, 0x80] = 0" by (simp_all add: next_state_def)
  then show ?thesis using assms unfolding utf8_states_def by (simp only: list.set insert_iff empty_iff) blast
qed

text \<open>The verdict on a string, and the calls on its pieces.\<close>

definition utf8_verdict :: "uint8 list \<Rightarrow> validator_state" where
  "utf8_verdict bytes =
     (if valid_utf8 bytes then VALID_ENDPOINT
      else if \<exists>suffix. valid_utf8 (bytes @ suffix) then VALID_MIDPOINT
      else INVALID)"

fun add_pieces :: "uint8 list list \<Rightarrow> streaming_utf8_validator \<Rightarrow> streaming_utf8_validator option" where
  "add_pieces [] v = Some v"
| "add_pieces (p # ps) v = Option.bind (AddBytes p v) (\<lambda>(result, v). add_pieces ps v)"

lemma run_0_states: "utf8_run 0 bytes \<in> set utf8_states"
  by (rule run_states) (simp add: utf8_states_def)

lemma AddBytes_run: "AddBytes bytes (utf8_run 0 old) = Some (state_result (utf8_run 0 (old @ bytes)), utf8_run 0 (old @ bytes))"
  by (simp add: AddBytes_def add_bytes_run [OF run_0_states] run_append)

lemma add_pieces_run: "add_pieces ps (utf8_run 0 old) = Some (utf8_run 0 (old @ concat ps))"
proof (induction ps arbitrary: old)
  case (Cons p ps)
  show ?case using Cons.IH [of "old @ p"] by (simp add: AddBytes_run)
qed simp

lemma state_result_verdict: "state_result (utf8_run 0 bytes) = utf8_verdict bytes"
proof (cases "utf8_run 0 bytes = 0x81")
  case True
  then have "utf8_run 0 (bytes @ suffix) = 0x81" for suffix by (simp add: run_append run_invalid)
  then have "\<not> valid_utf8 (bytes @ suffix)" for suffix by (simp flip: run_valid)
  moreover from this [of "[]"] have "\<not> valid_utf8 bytes" by simp
  ultimately show ?thesis
    using True by (simp add: state_result_def utf8_verdict_def I18N_UTF8_VALIDATOR_INVALID_INDEX_def)
next
  case False
  obtain suffix where "utf8_run (utf8_run 0 bytes) suffix = 0" using run_completable [OF run_0_states False] by blast
  then have "valid_utf8 (bytes @ suffix)" by (simp add: run_append flip: run_valid)
  then show ?thesis
    using False run_valid [of bytes]
    by (auto simp: state_result_def utf8_verdict_def I18N_UTF8_VALIDATOR_INVALID_INDEX_def)
qed

lemma Validate_valid: "Validate bytes = Some (valid_utf8 bytes)"
proof -
  have "AddBytes bytes 0 = Some (utf8_verdict bytes, utf8_run 0 bytes)"
    using AddBytes_run [of bytes "[]"] by (simp add: state_result_verdict)
  then show ?thesis by (auto simp: Validate_def StreamingUtf8Validator_def utf8_verdict_def)
qed

text \<open>[C8]
  What the comments of the class promise. However a string is cut into calls of \<open>AddBytes\<close> on a
  fresh validator, no access to the tables is out of range, and the last call returns
  \<open>VALID_ENDPOINT\<close> exactly when the bytes of all calls are the UTF-8 encoding of a sequence of
  Unicode scalar values, \<open>VALID_MIDPOINT\<close> exactly when they are not but some continuation makes
  them one, and \<open>INVALID\<close> otherwise.
\<close>

theorem AddBytes_verdict:
  "map_option fst (Option.bind (add_pieces ps StreamingUtf8Validator) (AddBytes bytes)) =
     Some (utf8_verdict (concat ps @ bytes))"
  using add_pieces_run [of ps "[]"]
  by (simp add: StreamingUtf8Validator_def AddBytes_run state_result_verdict)

end
