(* ===== verification/String_Number_Conversions.thy ===== *)
theory String_Number_Conversions
  imports Prelude
begin

text \<open>
  \<open>base/strings/string_number_conversions.cc\<close>: integers to and from strings of bytes. The traits of
  the templates are the value type and the base. The arithmetic on \<open>value_type\<close> wraps at its
  width. Shown: the digit loops, with their overflow checks, accept exactly the numerals of the
  base whose value the type can hold and return that value; a numeral that does not fit is
  rejected with the value clamped to the nearest bound; printing and parsing are inverse, inside
  the buffer that \<open>IntToString\<close> reserves; and so are \<open>HexEncode\<close> and \<open>HexStringToBytes\<close>.
\<close>

unbundle bit_operations_syntax

section \<open>Characters\<close>

text \<open>The byte of a character literal; a \<open>char\<close> is signed, so it is compared as \<open>sint\<close>.\<close>

definition chr :: "char \<Rightarrow> uint8" where
  "chr c = of_char c"

definition bytes_of :: "string \<Rightarrow> uint8 list" where
  "bytes_of s = map chr s"

text \<open>\<open>isspace\<close> of the C locale.\<close>

definition LocalIsWhitespace :: "uint8 \<Rightarrow> bool" where
  "LocalIsWhitespace c \<longleftrightarrow> (9 \<le> c \<and> c \<le> 13) \<or> c = 32"

section \<open>Value types\<close>

datatype value_type = Int32 | UInt32 | Int64 | UInt64

fun size_of_type :: "value_type \<Rightarrow> nat" where
  "size_of_type Int32 = 4"
| "size_of_type UInt32 = 4"
| "size_of_type Int64 = 8"
| "size_of_type UInt64 = 8"

fun is_signed :: "value_type \<Rightarrow> bool" where
  "is_signed Int32 = True"
| "is_signed UInt32 = False"
| "is_signed Int64 = True"
| "is_signed UInt64 = False"

fun type_min :: "value_type \<Rightarrow> int" where
  "type_min Int32 = - 2147483648"
| "type_min UInt32 = 0"
| "type_min Int64 = - 9223372036854775808"
| "type_min UInt64 = 0"

fun type_max :: "value_type \<Rightarrow> int" where
  "type_max Int32 = 2147483647"
| "type_max UInt32 = 4294967295"
| "type_max Int64 = 9223372036854775807"
| "type_max UInt64 = 18446744073709551615"

definition in_type :: "value_type \<Rightarrow> int \<Rightarrow> bool" where
  "in_type t x \<longleftrightarrow> type_min t \<le> x \<and> x \<le> type_max t"

text \<open>The value an operation on the type stores.\<close>

definition wrap :: "value_type \<Rightarrow> int \<Rightarrow> int" where
  "wrap t x = (x - type_min t) mod (type_max t - type_min t + 1) + type_min t"

lemma wrap_in_type [simp]: "in_type t x \<Longrightarrow> wrap t x = x"
  by (simp add: in_type_def wrap_def)

section \<open>Digits\<close>

text \<open>\<open>BaseCharToDigit\<close> for the bases up to 10 and for the larger ones.\<close>

definition CharToDigit :: "int \<Rightarrow> uint8 \<Rightarrow> int option" where
  "CharToDigit base ch =
     (let c = sint ch
      in if base \<le> 10
         then (if sint (chr CHR ''0'') \<le> c \<and> c < sint (chr CHR ''0'') + base
               then Some (c - sint (chr CHR ''0'')) else None)
         else if sint (chr CHR ''0'') \<le> c \<and> c \<le> sint (chr CHR ''9'')
         then Some (c - sint (chr CHR ''0''))
         else if sint (chr CHR ''a'') \<le> c \<and> c < sint (chr CHR ''a'') + base - 10
         then Some (c - sint (chr CHR ''a'') + 10)
         else if sint (chr CHR ''A'') \<le> c \<and> c < sint (chr CHR ''A'') + base - 10
         then Some (c - sint (chr CHR ''A'') + 10)
         else None)"

lemma chr_simps [simp]:
  "chr CHR ''0'' = 48" "chr CHR ''9'' = 57" "chr CHR ''a'' = 97" "chr CHR ''A'' = 65"
  "chr CHR ''x'' = 120" "chr CHR ''X'' = 88" "chr CHR ''-'' = 45" "chr CHR ''+'' = 43"
  "chr CHR '' '' = 32" "chr CHR '';'' = 59"
  "chr CHR ''f'' = 102" "chr CHR ''F'' = 70"
  by (simp_all add: chr_def)

lemma CharToDigit_range:
  "CharToDigit b c = Some d \<Longrightarrow> 0 \<le> d \<and> d < b"
  by (auto simp: CharToDigit_def Let_def split: if_splits)

section \<open>Parsing\<close>

datatype sign = Positive | Negative

fun CheckBounds :: "sign \<Rightarrow> value_type \<Rightarrow> int \<Rightarrow> int \<Rightarrow> int \<Rightarrow> bool \<times> int" where
  "CheckBounds Positive t base out new_digit =
     (if out > cdiv (type_max t) base \<or>
         out = cdiv (type_max t) base \<and> new_digit > cmod (type_max t) base
      then (False, type_max t) else (True, out))"
| "CheckBounds Negative t base out new_digit =
     (if out < cdiv (type_min t) base \<or>
         out = cdiv (type_min t) base \<and> new_digit > 0 - cmod (type_min t) base
      then (False, type_min t) else (True, out))"

fun Increment :: "sign \<Rightarrow> value_type \<Rightarrow> int \<Rightarrow> int \<Rightarrow> int" where
  "Increment Positive t d out = wrap t (out + d)"
| "Increment Negative t d out = wrap t (out - d)"

text \<open>The loop over the characters; \<open>first\<close> is \<open>current == begin\<close>.\<close>

fun digit_loop :: "sign \<Rightarrow> value_type \<Rightarrow> int \<Rightarrow> bool \<Rightarrow> uint8 list \<Rightarrow> int \<Rightarrow> bool \<times> int" where
  "digit_loop sg t base first [] out = (True, out)"
| "digit_loop sg t base first (c # cs) out =
     (case CharToDigit base c of
        None \<Rightarrow> (False, out)
      | Some new_digit \<Rightarrow>
          if first then digit_loop sg t base False cs (Increment sg t new_digit out)
          else
            (case CheckBounds sg t base out new_digit of
               (False, out) \<Rightarrow> (False, out)
             | (True, out) \<Rightarrow>
                 digit_loop sg t base False cs
                   (Increment sg t new_digit (wrap t (out * base)))))"

definition skip_0x :: "int \<Rightarrow> uint8 list \<Rightarrow> uint8 list" where
  "skip_0x base s =
     (if base = 16 \<and> length s > 2 \<and> s ! 0 = chr CHR ''0'' \<and>
         (s ! 1 = chr CHR ''x'' \<or> s ! 1 = chr CHR ''X'')
      then drop 2 s else s)"

definition Base_Invoke :: "sign \<Rightarrow> value_type \<Rightarrow> int \<Rightarrow> uint8 list \<Rightarrow> bool \<times> int" where
  "Base_Invoke sg t base s =
     (if s = [] then (False, 0) else digit_loop sg t base True (skip_0x base s) 0)"

text \<open>
  \<open>IteratorRangeToNumber::Invoke\<close>; \<open>out\<close> is what \<open>*output\<close> holds before the call: a minus sign
  before an unsigned number leaves it.
\<close>

definition Invoke :: "value_type \<Rightarrow> int \<Rightarrow> uint8 list \<Rightarrow> int \<Rightarrow> bool \<times> int" where
  "Invoke t base s out =
     (let valid = \<not> (s \<noteq> [] \<and> LocalIsWhitespace (hd s));
          s = dropWhile LocalIsWhitespace s
      in if s \<noteq> [] \<and> hd s = chr CHR ''-''
         then (if \<not> is_signed t then (False, out)
               else (let (ok, out) = Base_Invoke Negative t base (tl s) in (valid \<and> ok, out)))
         else
           (let s = (if s \<noteq> [] \<and> hd s = chr CHR ''+'' then tl s else s);
                (ok, out) = Base_Invoke Positive t base s
            in (valid \<and> ok, out)))"

definition StringToInt :: "uint8 list \<Rightarrow> int \<Rightarrow> bool \<times> int" where
  "StringToInt s out = Invoke Int32 10 s out"

definition StringToUint :: "uint8 list \<Rightarrow> int \<Rightarrow> bool \<times> int" where
  "StringToUint s out = Invoke UInt32 10 s out"

definition StringToInt64 :: "uint8 list \<Rightarrow> int \<Rightarrow> bool \<times> int" where
  "StringToInt64 s out = Invoke Int64 10 s out"

definition StringToUint64 :: "uint8 list \<Rightarrow> int \<Rightarrow> bool \<times> int" where
  "StringToUint64 s out = Invoke UInt64 10 s out"

definition HexStringToInt :: "uint8 list \<Rightarrow> int \<Rightarrow> bool \<times> int" where
  "HexStringToInt s out = Invoke Int32 16 s out"

definition HexStringToUInt :: "uint8 list \<Rightarrow> int \<Rightarrow> bool \<times> int" where
  "HexStringToUInt s out = Invoke UInt32 16 s out"

definition HexStringToInt64 :: "uint8 list \<Rightarrow> int \<Rightarrow> bool \<times> int" where
  "HexStringToInt64 s out = Invoke Int64 16 s out"

definition HexStringToUInt64 :: "uint8 list \<Rightarrow> int \<Rightarrow> bool \<times> int" where
  "HexStringToUInt64 s out = Invoke UInt64 16 s out"

section \<open>Printing\<close>

text \<open>\<open>IntToStringT\<close>: the digits are written back to front into a buffer of this size.\<close>

definition kOutputBufSize :: "value_type \<Rightarrow> nat" where
  "kOutputBufSize t = 3 * size_of_type t + (if is_signed t then 1 else 0)"

definition UnsignedAbs :: "int \<Rightarrow> nat" where
  "UnsignedAbs x = nat \<bar>x\<bar>"

function print_digits :: "nat \<Rightarrow> uint8 list \<Rightarrow> uint8 list" where
  "print_digits res i =
     (let i = (of_nat (res mod 10) + chr CHR ''0'') # i;
          res = res div 10
      in if res \<noteq> 0 then print_digits res i else i)"
  by pat_completeness auto
termination
  by (relation "measure fst") auto

declare print_digits.simps [simp del]

definition IntToStringT :: "int \<Rightarrow> uint8 list" where
  "IntToStringT x =
     (let i = print_digits (UnsignedAbs x) []
      in if x < 0 then chr CHR ''-'' # i else i)"

section \<open>Hexadecimal dumps\<close>

definition kHexChars :: "uint8 list" where
  "kHexChars = bytes_of ''0123456789ABCDEF''"

definition HexEncode :: "uint8 list \<Rightarrow> uint8 list" where
  "HexEncode bytes =
     concat (map (\<lambda>b. [kHexChars ! unat (signed_drop_bit 4 b AND 0xF), kHexChars ! unat (b AND 0xF)])
       bytes)"

text \<open>The loop pushes a byte for every pair of digits; it stops at the first that is not one.\<close>

fun hex_bytes_loop :: "uint8 list \<Rightarrow> uint8 list \<Rightarrow> bool \<times> uint8 list" where
  "hex_bytes_loop (a # b # s) out =
     (case (CharToDigit 16 a, CharToDigit 16 b) of
        (Some msb, Some lsb) \<Rightarrow>
          hex_bytes_loop s (out @ [push_bit 4 (word_of_int msb) OR word_of_int lsb])
      | _ \<Rightarrow> (False, out))"
| "hex_bytes_loop _ out = (True, out)"

definition HexStringToBytes :: "uint8 list \<Rightarrow> uint8 list \<Rightarrow> bool \<times> uint8 list" where
  "HexStringToBytes input out =
     (if input = [] \<or> length input mod 2 \<noteq> 0 then (False, out) else hex_bytes_loop input out)"

section \<open>The numerals\<close>

text \<open>What the digit loops compute: the magnitude of a number and the sign in front of it.\<close>

fun signed_value :: "sign \<Rightarrow> int \<Rightarrow> int" where
  "signed_value Positive m = m"
| "signed_value Negative m = - m"

fun magnitude_limit :: "sign \<Rightarrow> value_type \<Rightarrow> int" where
  "magnitude_limit Positive t = type_max t"
| "magnitude_limit Negative t = - type_min t"

definition numeral_value :: "int \<Rightarrow> int \<Rightarrow> int list \<Rightarrow> int" where
  "numeral_value base m ds = foldl (\<lambda>v d. v * base + d) m ds"

definition digits_of :: "int \<Rightarrow> uint8 list \<Rightarrow> int list option" where
  "digits_of base s = those (map (CharToDigit base) s)"

text \<open>
  The numbers a string denotes: an optional sign, for base 16 an optional \<open>0x\<close>, and at least one
  digit. The value has to be one of the type.
\<close>

definition split_sign :: "uint8 list \<Rightarrow> sign \<times> uint8 list" where
  "split_sign s =
     (if s \<noteq> [] \<and> hd s = chr CHR ''-'' then (Negative, tl s)
      else if s \<noteq> [] \<and> hd s = chr CHR ''+'' then (Positive, tl s)
      else (Positive, s))"

definition number_of :: "value_type \<Rightarrow> int \<Rightarrow> uint8 list \<Rightarrow> int option" where
  "number_of t base s =
     (let (sg, s) = split_sign s
      in if s = [] \<or> (sg = Negative \<and> \<not> is_signed t) then None
         else
           (case digits_of base (skip_0x base s) of
              None \<Rightarrow> None
            | Some ds \<Rightarrow>
                (let v = signed_value sg (numeral_value base 0 ds)
                 in if in_type t v then Some v else None)))"

lemma numeral_value_simps [simp]:
  "numeral_value b m [] = m"
  "numeral_value b m (d # ds) = numeral_value b (m * b + d) ds"
  "numeral_value b m (ds @ [d]) = numeral_value b m ds * b + d"
  by (simp_all add: numeral_value_def)

lemma digits_of_simps [simp]:
  "digits_of b [] = Some []"
  "digits_of b (c # cs) =
     (case CharToDigit b c of None \<Rightarrow> None | Some d \<Rightarrow> map_option (Cons d) (digits_of b cs))"
  by (simp_all add: digits_of_def split: option.splits)

lemma numeral_value_ge:
  assumes "0 \<le> m" and "1 \<le> b" and "\<forall>d \<in> set ds. 0 \<le> d"
  shows "m \<le> numeral_value b m ds"
  using assms
proof (induction ds arbitrary: m)
  case (Cons d ds)
  have "m * 1 \<le> m * b" by (rule mult_left_mono) (use Cons.prems in auto)
  then have "m \<le> m * b + d" and "0 \<le> m * b + d" using Cons.prems by auto
  moreover have "m * b + d \<le> numeral_value b (m * b + d) ds"
    using Cons.prems calculation by (intro Cons.IH) auto
  ultimately show ?case by simp
qed simp

lemma digits_of_range: "digits_of b s = Some ds \<Longrightarrow> \<forall>d \<in> set ds. 0 \<le> d \<and> d < b"
  by (induction s arbitrary: ds) (auto dest: CharToDigit_range split: option.splits)

lemma pos_bound_iff:
  fixes M m b d :: int
  assumes "0 < b" and "0 \<le> d" and "d < b" 
  shows "(m > M div b \<or> m = M div b \<and> d > M mod b) \<longleftrightarrow> M < m * b + d"
proof -
  have M: "M = M div b * b + M mod b" by simp
  have r: "0 \<le> M mod b" "M mod b < b" using assms by simp_all
  consider "m < M div b" | "m = M div b" | "m > M div b" by linarith
  then show ?thesis
  proof cases
    case 1
    then have "(m + 1) * b \<le> M div b * b" using assms by (intro mult_right_mono) auto
    then have "m * b + b \<le> M div b * b" by (simp add: distrib_right)
    then have "m * b + d < M" using M r(1) assms(3) by linarith
    then show ?thesis using 1 by simp
  next
    case 2
    then show ?thesis using M by (metis add_less_cancel_left less_irrefl)
  next
    case 3
    then have "(M div b + 1) * b \<le> m * b" using assms by (intro mult_right_mono) auto
    then have "M div b * b + b \<le> m * b" by (simp add: distrib_right)
    then have "M < m * b + d" using M r(2) assms(2) by linarith
    then show ?thesis using 3 by simp
  qed
qed

lemma type_bounds: "type_min t \<le> 0" "36 \<le> type_max t" "is_signed t \<Longrightarrow> type_min t \<le> - 36"
  by (cases t; simp)+

lemma CheckBounds_eq:
  assumes "0 < b" and "0 \<le> d" and "d < b" and "0 \<le> m"
  shows "CheckBounds sg t b (signed_value sg m) d =
    (if m * b + d \<le> magnitude_limit sg t then (True, signed_value sg m)
     else (False, signed_value sg (magnitude_limit sg t)))"
proof (cases sg)
  case Positive
  then show ?thesis
    using pos_bound_iff [OF assms(1-3), where m = m and M = "type_max t"] type_bounds(2) [of t]
    by (simp add: cmod_def minus_mult_div_eq_mod not_less)
next
  case Negative
  let ?M = "- type_min t"
  have c: "cdiv (type_min t) b = - (?M div b)"
    using type_bounds(1) [of t] by (cases "type_min t = 0") (simp_all add: cdiv_def)
  have r: "- cmod (type_min t) b = ?M mod b"
    unfolding cmod_def c using div_mult_mod_eq [of ?M b] by (simp add: algebra_simps)
  show ?thesis
    using pos_bound_iff [OF assms(1-3), where m = m and M = ?M] Negative
    by (auto simp: c r not_less simp del: div_minus_right)
qed

lemma Increment_eq:
  assumes "0 \<le> m" and "0 \<le> d" and "m + d \<le> magnitude_limit sg t" 
  shows "Increment sg t d (signed_value sg m) = signed_value sg (m + d)"
proof (cases sg)
  case Positive
  then have "in_type t (m + d)"
    using assms type_bounds(1) [of t] by (simp add: in_type_def)
  then show ?thesis using Positive by simp
next
  case Negative
  then have "in_type t (- m - d)"
    using assms type_bounds(2) [of t] by (simp add: in_type_def)
  then show ?thesis using Negative by simp
qed

lemma wrap_scale:
  assumes "0 \<le> m" and "m \<le> magnitude_limit sg t"
  shows "wrap t (signed_value sg m) = signed_value sg m"
  using assms type_bounds(1,2) [of t] by (cases sg) (simp_all add: in_type_def)

lemma signed_value_mult: "signed_value sg m * b = signed_value sg (m * b)"
  by (cases sg) simp_all

text \<open>The digit loop, once a digit has been read.\<close>

lemma digit_loop_numeral:
  assumes "1 < b" and "0 \<le> m" and "m \<le> magnitude_limit sg t" and "digits_of b cs = Some ds"
  shows "digit_loop sg t b False cs (signed_value sg m) =
    (let v = numeral_value b m ds
     in if v \<le> magnitude_limit sg t then (True, signed_value sg v)
        else (False, signed_value sg (magnitude_limit sg t)))"
  using assms
proof (induction cs arbitrary: m ds)
  case (Cons c cs)
  then obtain d es where d: "CharToDigit b c = Some d" and es: "digits_of b cs = Some es"
    and ds: "ds = d # es"
    by (auto split: option.splits)
  have range: "0 \<le> d" "d < b" using CharToDigit_range [OF d] by auto
  have nn: "0 \<le> m * b + d" using Cons.prems range by simp
  have le: "m * b \<le> m * b + d" using range by simp
  show ?case
  proof (cases "m * b + d \<le> magnitude_limit sg t")
    case True
    have "Increment sg t d (wrap t (signed_value sg m * b)) = signed_value sg (m * b + d)"
      using True le Cons.prems range by (simp add: signed_value_mult wrap_scale Increment_eq)
    then show ?thesis
      using True Cons.IH [OF Cons.prems(1) nn True es] Cons.prems range
      by (simp add: d ds CheckBounds_eq)
  next
    case False
    have "m * b + d \<le> numeral_value b (m * b + d) es"
      using digits_of_range [OF es] Cons.prems nn by (intro numeral_value_ge) auto
    then show ?thesis
      using False Cons.prems range by (simp add: d ds CheckBounds_eq)
  qed
qed simp

lemma digit_loop_rejects:
  assumes "digits_of b cs = None"
  shows "\<not> fst (digit_loop sg t b first cs out)"
  using assms by (induction cs arbitrary: first out) (auto split: option.splits prod.splits bool.splits)

lemma Base_Invoke_numeral:
  assumes "1 < b" and "b \<le> 36" and "sg = Negative \<Longrightarrow> is_signed t" and "s \<noteq> []"
    and "digits_of b (skip_0x b s) = Some ds"
  shows "Base_Invoke sg t b s =
    (let v = numeral_value b 0 ds
     in if v \<le> magnitude_limit sg t then (True, signed_value sg v)
        else (False, signed_value sg (magnitude_limit sg t)))"
proof -
  have lim: "b \<le> magnitude_limit sg t"
    using assms(2,3) type_bounds [of t] by (cases sg) auto
  obtain c cs where s: "skip_0x b s = c # cs"
    using assms(4) by (cases "skip_0x b s") (auto simp: skip_0x_def split: if_splits)
  then obtain d es where d: "CharToDigit b c = Some d" and es: "digits_of b cs = Some es"
    and ds: "ds = d # es"
    using assms(5) by (auto split: option.splits)
  have range: "0 \<le> d" "d < b" using CharToDigit_range [OF d] by auto
  have "Increment sg t d 0 = signed_value sg d"
    using Increment_eq [of 0 d sg t] range lim by (cases sg) auto
  then show ?thesis
    using digit_loop_numeral [OF assms(1) range(1) _ es] range lim assms(4)
    by (simp add: Base_Invoke_def s d ds)
qed

lemma Base_Invoke_rejects:
  assumes "digits_of b (skip_0x b s) = None"
  shows "\<not> fst (Base_Invoke sg t b s)"
  using digit_loop_rejects [OF assms] by (simp add: Base_Invoke_def)

lemma in_type_signed:
  assumes "0 \<le> v"
  shows "in_type t (signed_value sg v) \<longleftrightarrow> v \<le> magnitude_limit sg t"
  using assms type_bounds(1,2) [of t] by (cases sg) (auto simp: in_type_def)

lemma whitespace_not_digit:
  assumes "LocalIsWhitespace c"
  shows "CharToDigit b c = None" "c \<noteq> chr CHR ''-''" "c \<noteq> chr CHR ''+''" "c \<noteq> chr CHR ''0''"
proof -
  have "unat c \<in> {9, 10, 11, 12, 13, 32}"
    using assms by (auto simp: LocalIsWhitespace_def word_le_nat_alt)
  then have "c \<in> {9, 10, 11, 12, 13, 32}"
    by (auto simp: word_unat_eq_iff)
  then show "CharToDigit b c = None" "c \<noteq> chr CHR ''-''" "c \<noteq> chr CHR ''+''" "c \<noteq> chr CHR ''0''"
    by (auto simp: CharToDigit_def)
qed

lemma number_of_whitespace:
  assumes "s \<noteq> []" and "LocalIsWhitespace (hd s)"
  shows "number_of t b s = None"
  using assms whitespace_not_digit [OF assms(2)]
  by (cases s) (simp_all add: number_of_def split_sign_def skip_0x_def)

lemma Base_Invoke_iff:
  assumes "1 < b" and "b \<le> 36" and "sg = Negative \<Longrightarrow> is_signed t"
  shows "Base_Invoke sg t b s = (True, v) \<longleftrightarrow>
    s \<noteq> [] \<and> (\<exists>ds. digits_of b (skip_0x b s) = Some ds \<and>
      v = signed_value sg (numeral_value b 0 ds) \<and> in_type t v)"
proof (cases "s = []")
  case True
  then show ?thesis by (simp add: Base_Invoke_def)
next
  case False
  show ?thesis
  proof (cases "digits_of b (skip_0x b s)")
    case None
    then show ?thesis using Base_Invoke_rejects [OF None, of sg t] by (auto simp: fst_def split: prod.splits)
  next
    case (Some ds)
    have "0 \<le> numeral_value b 0 ds"
      using digits_of_range [OF Some] assms(1) by (intro numeral_value_ge) auto
    then show ?thesis
      using Base_Invoke_numeral [OF assms False Some] False Some
      by (auto simp: Let_def in_type_signed)
  qed
qed

lemma Invoke_iff:
  assumes "1 < b" and "b \<le> 36"
  shows "Invoke t b s out = (True, v) \<longleftrightarrow> number_of t b s = Some v"
proof (cases "s \<noteq> [] \<and> LocalIsWhitespace (hd s)")
  case True
  then show ?thesis
    by (simp add: number_of_whitespace Invoke_def Let_def case_prod_unfold)
next
  case False
  then have d: "dropWhile LocalIsWhitespace s = s" by (cases s) auto
  have "Invoke t b s out = (True, v) \<longleftrightarrow>
    (case split_sign s of (sg, r) \<Rightarrow>
       (sg = Negative \<longrightarrow> is_signed t) \<and> Base_Invoke sg t b r = (True, v))"
    using False by (auto simp: Invoke_def d split_sign_def Let_def case_prod_unfold prod_eq_iff)
  also have "\<dots> \<longleftrightarrow> number_of t b s = Some v"
    using Base_Invoke_iff [OF assms]
    by (auto simp: number_of_def Let_def split: prod.splits option.splits)
  finally show ?thesis .
qed

text \<open>[C24]
  Parsing accepts exactly the numerals of the base that the value type can hold, and returns
  their value: the digit loop and its overflow tests neither wrap around nor reject a number of
  the type, and leading white space, a sign without digits, a minus before an unsigned number and
  foreign characters are errors. Both bounds of the type are accepted, in every base: the comments
  of \<open>HexStringToInt\<close> and its variants in the header file, which promise success only for values
  strictly between the bounds, are narrower than the code.
\<close>

theorem Invoke_parses_numerals:
  assumes "1 < b" and "b \<le> 36"
  shows "Invoke t b s out = (True, v) \<longleftrightarrow> number_of t b s = Some v"
  using assms by (rule Invoke_iff)

text \<open>[C24] The smallest 32-bit integer in base 16.\<close>

theorem Invoke_parses_numerals_witness:
  "Invoke Int32 16 (bytes_of ''-80000000'') 7 = (True, - 2147483648)"
  using Invoke_parses_numerals [of 16 Int32 "bytes_of ''-80000000''" 7 "- 2147483648"]
  by (simp add: number_of_def split_sign_def skip_0x_def bytes_of_def chr_def CharToDigit_def in_type_def)

text \<open>
  A numeral that does not fit its type is rejected, and the output is clamped to the bound of the
  type on its side.
\<close>

theorem Invoke_clamps:
  assumes "1 < b" and "b \<le> 36" and "split_sign s = (sg, r)" and "r \<noteq> []"
    and "sg = Negative \<Longrightarrow> is_signed t" and "digits_of b (skip_0x b r) = Some ds"
    and "\<not> in_type t (signed_value sg (numeral_value b 0 ds))"
  shows "Invoke t b s out = (False, if sg = Positive then type_max t else type_min t)"
proof -
  have nw: "\<not> LocalIsWhitespace (hd s)" if "s \<noteq> []"
    using that assms(3-6) whitespace_not_digit [of "hd s"]
    by (cases s) (auto simp: split_sign_def skip_0x_def split: if_splits)
  then have d: "dropWhile LocalIsWhitespace s = s" by (cases s) auto
  have "0 \<le> numeral_value b 0 ds"
    using digits_of_range [OF assms(6)] assms(1) by (intro numeral_value_ge) auto
  then have "Base_Invoke sg t b r = (False, signed_value sg (magnitude_limit sg t))"
    using Base_Invoke_numeral [OF assms(1,2,5,4,6)] assms(7) by (simp add: Let_def in_type_signed)
  then show ?thesis
    using assms(3,5) nw by (cases sg) (auto simp: Invoke_def d split_sign_def split: if_splits)
qed

text \<open>One more than the largest unsigned 32-bit integer.\<close>

theorem Invoke_clamps_witness:
  "Invoke UInt32 10 (bytes_of ''4294967296'') 7 = (False, 4294967295)"
  using Invoke_clamps [of 10 "bytes_of ''4294967296''" Positive "bytes_of ''4294967296''" UInt32
      "[4, 2, 9, 4, 9, 6, 7, 2, 9, 6]" 7]
  by (simp add: split_sign_def skip_0x_def bytes_of_def chr_def CharToDigit_def in_type_def)

section \<open>Printing and parsing\<close>

lemma digits_of_append:
  assumes "digits_of b xs = Some ds" and "digits_of b ys = Some es"
  shows "digits_of b (xs @ ys) = Some (ds @ es)"
  using assms by (induction xs arbitrary: ds) (auto split: option.splits)

lemma print_digits_acc: "print_digits n acc = print_digits n [] @ acc"
proof (induction n arbitrary: acc rule: less_induct)
  case (less n)
  show ?case
  proof (cases "n div 10 = 0")
    case True
    then show ?thesis by (simp add: print_digits.simps [of n])
  next
    case False
    let ?c = "of_nat (n mod 10) + chr CHR ''0''"
    have "print_digits (n div 10) (?c # xs) = print_digits (n div 10) [] @ ?c # xs" for xs
      using False by (intro less) simp
    then show ?thesis using False by (simp add: print_digits.simps [of n] Let_def)
  qed
qed

lemma print_digits_rec:
  "print_digits n [] =
     (if n < 10 then [] else print_digits (n div 10) []) @ [of_nat (n mod 10) + chr CHR ''0'']"
  by (subst print_digits.simps) (simp add: Let_def print_digits_acc [of "n div 10" "[_]"] div_eq_0_iff)

lemma digit_char:
  assumes "d < 10"
  shows "CharToDigit 10 (of_nat d + chr CHR ''0'') = Some (int d)"
    "of_nat d + chr CHR ''0'' \<noteq> chr CHR ''-''" "of_nat d + chr CHR ''0'' \<noteq> chr CHR ''+''"
proof -
  have "d \<in> {0, 1, 2, 3, 4, 5, 6, 7, 8, 9}" using assms by auto
  then show "CharToDigit 10 (of_nat d + chr CHR ''0'') = Some (int d)"
    "of_nat d + chr CHR ''0'' \<noteq> chr CHR ''-''" "of_nat d + chr CHR ''0'' \<noteq> chr CHR ''+''"
    by (auto simp: CharToDigit_def)
qed

lemma digits_print_digits:
  "\<exists>ds. digits_of 10 (print_digits n []) = Some ds \<and> numeral_value 10 0 ds = int n"
proof (induction n rule: less_induct)
  case (less n)
  have c: "digits_of 10 [of_nat (n mod 10) + chr CHR ''0''] = Some [int (n mod 10)]"
    using digit_char(1) [of "n mod 10"] by simp
  show ?case
  proof (cases "n < 10")
    case True
    then show ?thesis using c by (simp add: print_digits_rec)
  next
    case False
    then obtain ds where ds: "digits_of 10 (print_digits (n div 10) []) = Some ds"
      and v: "numeral_value 10 0 ds = int (n div 10)"
      using less [of "n div 10"] by auto
    show ?thesis
      using False digits_of_append [OF ds c] v
      by (simp add: print_digits_rec [of n]) presburger
  qed
qed

lemma hd_print_digits:
  "print_digits n [] \<noteq> []"
  "hd (print_digits n []) \<noteq> chr CHR ''-''" "hd (print_digits n []) \<noteq> chr CHR ''+''"
proof (induction n rule: less_induct)
  case (less n)
  {
    case 1
    then show ?case by (simp add: print_digits_rec)
  next
    case 2
    then show ?case using less(1,2) [of "n div 10"] digit_char(2) [of n]
      by (subst print_digits_rec) simp
  next
    case 3
    then show ?case using less(1,3) [of "n div 10"] digit_char(3) [of n]
      by (subst print_digits_rec) simp
  }
qed

lemma length_print_digits:
  assumes "n < 10 ^ k" and "0 < k"
  shows "length (print_digits n []) \<le> k"
  using assms
proof (induction k arbitrary: n)
  case (Suc k)
  show ?case
  proof (cases "n < 10")
    case False
    then have "n div 10 < 10 ^ k" and "0 < k"
      using Suc.prems by (auto simp: less_mult_imp_div_less mult.commute intro: Nat.gr0I)
    then show ?thesis using Suc.IH [of "n div 10"] False by (subst print_digits_rec) simp
  qed (simp add: print_digits_rec)
qed simp

lemma split_sign_print:
  "split_sign (IntToStringT x) =
     (if x < 0 then Negative else Positive, print_digits (nat \<bar>x\<bar>) [])"
  unfolding IntToStringT_def split_sign_def UnsignedAbs_def Let_def
  by (simp add: hd_print_digits [unfolded chr_simps])

lemma number_of_IntToString:
  assumes "in_type t x"
  shows "number_of t 10 (IntToStringT x) = Some x"
proof -
  obtain ds where ds: "digits_of 10 (print_digits (nat \<bar>x\<bar>) []) = Some ds"
    and v: "numeral_value 10 0 ds = \<bar>x\<bar>"
    using digits_print_digits [of "nat \<bar>x\<bar>"] by auto
  have "is_signed t" if "x < 0"
    using that assms by (cases t) (auto simp: in_type_def)
  then show ?thesis
    using assms hd_print_digits(1) [of "nat \<bar>x\<bar>"]
    by (simp add: number_of_def split_sign_print skip_0x_def ds v)
qed

lemma IntToString_fits:
  assumes "in_type t x"
  shows "length (IntToStringT x) < kOutputBufSize t"
proof -
  define k :: nat where "k = (if size_of_type t = 4 then 10 else 20)"
  have "nat \<bar>x\<bar> < 10 ^ k"
    using assms by (cases t) (auto simp: in_type_def k_def)
  then have "length (print_digits (nat \<bar>x\<bar>) []) \<le> k"
    by (rule length_print_digits) (simp add: k_def)
  then show ?thesis
    by (cases t) (auto simp: IntToStringT_def UnsignedAbs_def kOutputBufSize_def k_def Let_def)
qed

text \<open>
  Parsing a printed integer gives the integer back, for every integer of every type; and the
  digits and the sign stay strictly inside the buffer reserved for them, so that the assertions
  of the printing loop hold.
\<close>

theorem IntToString_roundtrip:
  assumes "in_type t x"
  shows "Invoke t 10 (IntToStringT x) out = (True, x) \<and>
    length (IntToStringT x) < kOutputBufSize t"
  using assms Invoke_iff [of 10] by (simp add: number_of_IntToString IntToString_fits)

text \<open>The smallest 64-bit integer.\<close>

theorem IntToString_roundtrip_witness:
  "Invoke Int64 10 (IntToStringT (- 9223372036854775808)) 0 = (True, - 9223372036854775808) \<and>
   length (IntToStringT (- 9223372036854775808)) < kOutputBufSize Int64"
  using IntToString_roundtrip [of Int64 "- 9223372036854775808" 0] by (simp add: in_type_def)

section \<open>Reading hexadecimal dumps\<close>

lemma hex_char:
  assumes "n < 16"
  shows "CharToDigit 16 (kHexChars ! n) = Some (int n)"
proof -
  have "n \<in> {0, 1, 2, 3, 4, 5, 6, 7, 8, 9, 10, 11, 12, 13, 14, 15}"
    using assms by (simp only: insert_iff empty_iff) presburger
  then show ?thesis
    by (auto simp: CharToDigit_def kHexChars_def bytes_of_def chr_def)
qed

lemma nibbles:
  fixes b :: uint8
  shows "push_bit 4 (signed_drop_bit 4 b AND 0xF) OR (b AND 0xF) = b"
proof -
  have "push_bit 4 (signed_drop_bit 4 b AND mask 4) OR (b AND mask 4) = b"
    by (rule bit_word_eqI) (auto simp: bit_simps)
  then show ?thesis by (simp add: mask_eq_exp_minus_1)
qed

lemma nibble_less: "unat (b AND 0xF :: uint8) < 16"
proof -
  have "b AND 0xF \<le> 0xF" by (rule word_and_le1)
  then show ?thesis by (simp add: word_le_nat_alt)
qed

lemma hex_bytes_loop_HexEncode:
  "hex_bytes_loop (HexEncode bs) out = (True, out @ bs)"
  by (induction bs arbitrary: out) (simp_all add: HexEncode_def hex_char nibble_less nibbles [simplified])

lemma length_HexEncode: "length (HexEncode bs) = 2 * length bs"
  by (induction bs) (simp_all add: HexEncode_def)

text \<open>\<open>HexStringToBytes\<close> reads back the dump that \<open>HexEncode\<close> writes of any bytes.\<close>

theorem HexEncode_roundtrip:
  assumes "bs \<noteq> []"
  shows "HexStringToBytes (HexEncode bs) [] = (True, bs)"
  using assms length_HexEncode [of bs]
  by (auto simp: HexStringToBytes_def hex_bytes_loop_HexEncode)

text \<open>Bytes with the sign bit set and clear.\<close>

theorem HexEncode_roundtrip_witness:
  "HexStringToBytes (HexEncode [0xDE, 0x0A]) [] = (True, [0xDE, 0x0A])"
  by (rule HexEncode_roundtrip) simp

end
