(* ===== verification/WebSocket_Channel.thy ===== *)
theory WebSocket_Channel
  imports WebSocket_Basic_Stream Streaming_Utf8_Validator String_Number_Conversions
    "HOL-Library.Monad_Syntax"
begin

text \<open>
  \<open>net/websockets/websocket_channel.{h,cc}\<close>: the WebSocket protocol between a renderer, reached
  through \<open>WebSocketEventInterface\<close>, and a \<open>WebSocketStream\<close>: opening, flow control in both
  directions, validation of the frames received and sent, and the closing handshake. The record
  \<open>web_socket_channel\<close> has the members of the class. The event interface and the stream are
  parameters: a record of functions of the channel, whose log makes them depend on the whole
  history. A callback does not call back into the channel before it returns. A failed CHECK or
  DCHECK, the use of a null pointer, an access out of the bounds of a buffer, and a call that the
  stream does not allow are the result \<open>None\<close>.
\<close>

section \<open>State\<close>

type_synonym uint16 = "16 word"

definition kOpCodeText :: int where "kOpCodeText = 1"
definition kOpCodeBinary :: int where "kOpCodeBinary = 2"
definition kOpCodeClose :: int where "kOpCodeClose = 8"
definition kOpCodePing :: int where "kOpCodePing = 9"
definition kOpCodePong :: int where "kOpCodePong = 10"

lemmas opcode_defs = kOpCodeContinuation_def kOpCodeText_def kOpCodeBinary_def kOpCodeClose_def
  kOpCodePing_def kOpCodePong_def

text \<open>The values of \<open>enum WebSocketError\<close>.\<close>

fun error_value :: "web_socket_error \<Rightarrow> uint16" where
  "error_value kWebSocketNormalClosure = 1000"
| "error_value kWebSocketErrorGoingAway = 1001"
| "error_value kWebSocketErrorProtocolError = 1002"
| "error_value kWebSocketErrorUnsupportedData = 1003"
| "error_value kWebSocketErrorNoStatusReceived = 1005"
| "error_value kWebSocketErrorAbnormalClosure = 1006"
| "error_value kWebSocketErrorInvalidFramePayloadData = 1007"
| "error_value kWebSocketErrorPolicyViolation = 1008"
| "error_value kWebSocketErrorMessageTooBig = 1009"
| "error_value kWebSocketErrorMandatoryExtension = 1010"
| "error_value kWebSocketErrorInternalServerError = 1011"
| "error_value kWebSocketErrorTlsHandshake = 1015"
| "error_value kWebSocketErrorProtocolReservedMax = 2999"
| "error_value kWebSocketErrorRegisteredReservedMin = 3000"
| "error_value kWebSocketErrorRegisteredReservedMax = 3999"
| "error_value kWebSocketErrorPrivateReservedMin = 4000"
| "error_value kWebSocketErrorPrivateReservedMax = 4999"

definition kDefaultSendQuotaLowWaterMark :: int where "kDefaultSendQuotaLowWaterMark = 2 ^ 16"
definition kDefaultSendQuotaHighWaterMark :: int where "kDefaultSendQuotaHighWaterMark = 2 ^ 17"
definition kWebSocketCloseCodeLength :: nat where "kWebSocketCloseCodeLength = 2"
definition kClosingHandshakeTimeoutSeconds :: int where "kClosingHandshakeTimeoutSeconds = 60"
definition kUnderlyingConnectionCloseTimeoutSeconds :: int where
  "kUnderlyingConnectionCloseTimeoutSeconds = 2"
definition kMaximumCloseReasonLength :: nat where
  "kMaximumCloseReasonLength = 125 - kWebSocketCloseCodeLength"
definition INT_MAX :: nat where "INT_MAX = 2 ^ 31 - 1"

datatype channel_state = CHANNEL_ALIVE | CHANNEL_DELETED

datatype ws_state =
    FRESHLY_CONSTRUCTED | CONNECTING | CONNECTED | SEND_CLOSED | RECV_CLOSED | CLOSE_WAIT | CLOSED

text \<open>Of a URL the channel asks the scheme only. The other objects it hands on unread are numbers.\<close>

record gurl =
  gurl_scheme :: string
  gurl_spec :: string

definition SchemeIsWSOrWSS :: "gurl \<Rightarrow> bool" where
  "SchemeIsWSOrWSS url \<longleftrightarrow> gurl_scheme url = ''ws'' \<or> gurl_scheme url = ''wss''"

type_synonym handed_on = nat

text \<open>The methods of \<open>WebSocketEventInterface\<close>.\<close>

datatype channel_event =
    OnAddChannelResponse string string
  | OnDataFrame bool int "uint8 list"
  | OnFlowControl int
  | OnClosingHandshake
  | OnDropChannel bool uint16 "uint8 list"
  | OnFailChannel string
  | OnStartOpeningHandshake handed_on
  | OnFinishOpeningHandshake handed_on
  | OnSSLCertificateError handed_on gurl handed_on bool

text \<open>The result of a read, \<open>None\<close> for \<open>OK\<close>, and the frames it has put into the vector.\<close>

type_synonym read_outcome = "net_error option \<times> web_socket_frame list"

text \<open>
  The log of what passes between the channel and the objects around it. A call of \<open>ReadFrames\<close> is
  recorded with its outcome, and so is the completion of a read that was pending; the outcome is
  the stream's, whatever the channel makes of it.
\<close>

datatype channel_effect =
    Event channel_event
  | StreamCreate gurl "string list" string
  | StreamWrite "web_socket_frame list"
  | StreamRead read_outcome
  | StreamReadDone read_outcome
  | StreamClose

record send_buffer =
  frames :: "web_socket_frame list"
  total_bytes :: uint64

record pending_received_frame =
  prf_final :: bool
  prf_opcode :: int
  prf_data :: "uint8 list option"
  prf_offset :: nat
  prf_size :: nat

text \<open>Of the stream, an object behind an abstract class, what its contract speaks of.\<close>

record stream_state =
  reading :: bool
  writing :: bool
  closed :: bool

text \<open>
  \<open>close_timer_\<close> is the delay it was started with while it runs. The two members of
  \<open>notification_sender_\<close> are members here, with the number of tasks posted for it.
\<close>

record web_socket_channel =
  socket_url :: gurl
  stream :: "stream_state option"
  data_being_sent :: "send_buffer option"
  data_to_send_next :: "send_buffer option"
  read_frames :: "web_socket_frame list"
  pending_received_frames :: "pending_received_frame list"
  stream_request :: bool
  send_quota_low_water_mark :: int
  send_quota_high_water_mark :: int
  current_send_quota :: int
  current_receive_quota :: nat
  close_timer :: "int option"
  closing_handshake_timeout :: int
  underlying_connection_close_timeout :: int
  has_received_close_frame :: bool
  received_close_code :: uint16
  received_close_reason :: "uint8 list"
  ch_state :: ws_state
  handshake_request_info :: "handed_on option"
  handshake_response_info :: "handed_on option"
  notification_tasks :: nat
  outgoing_utf8_validator :: streaming_utf8_validator
  sending_text_message :: bool
  incoming_utf8_validator :: streaming_utf8_validator
  receiving_text_message :: bool
  expecting_to_handle_continuation :: bool
  initial_frame_forwarded :: bool
  channel_log :: "channel_effect list"

text \<open>
  The environment: whether the channel is deleted in answer to an event, the result of a call of
  the stream's \<open>WriteFrames\<close> (\<open>None\<close> is \<open>OK\<close>), and the results of the calls of its \<open>ReadFrames\<close> that
  are about to be made one after the other; when they are used up a call is pending.
\<close>

record channel_env =
  deletes :: "channel_event \<Rightarrow> web_socket_channel \<Rightarrow> bool"
  write_result :: "web_socket_channel \<Rightarrow> net_error option"
  read_results :: "web_socket_channel \<Rightarrow> read_outcome list"

type_synonym outcome = "(channel_state \<times> web_socket_channel) option"

definition WebSocketChannel :: web_socket_channel where
  "WebSocketChannel =
     \<lparr>socket_url = \<lparr>gurl_scheme = [], gurl_spec = []\<rparr>, stream = None, data_being_sent = None,
      data_to_send_next = None, read_frames = [], pending_received_frames = [],
      stream_request = False,
      send_quota_low_water_mark = kDefaultSendQuotaLowWaterMark,
      send_quota_high_water_mark = kDefaultSendQuotaHighWaterMark,
      current_send_quota = 0, current_receive_quota = 0, close_timer = None,
      closing_handshake_timeout = kClosingHandshakeTimeoutSeconds,
      underlying_connection_close_timeout = kUnderlyingConnectionCloseTimeoutSeconds,
      has_received_close_frame = False, received_close_code = 0, received_close_reason = [],
      ch_state = FRESHLY_CONSTRUCTED, handshake_request_info = None, handshake_response_info = None,
      notification_tasks = 0, outgoing_utf8_validator = StreamingUtf8Validator,
      sending_text_message = False, incoming_utf8_validator = StreamingUtf8Validator,
      receiving_text_message = False, expecting_to_handle_continuation = False,
      initial_frame_forwarded = False, channel_log = []\<rparr>"

section \<open>Building blocks\<close>

definition DCHECK :: "bool \<Rightarrow> 'a option \<Rightarrow> 'a option" where
  "DCHECK b m = (if b then m else None)"

text \<open>\<open>if (m == CHANNEL_DELETED) return CHANNEL_DELETED;\<close>\<close>

definition then_alive :: "outcome \<Rightarrow> (web_socket_channel \<Rightarrow> outcome) \<Rightarrow> outcome" where
  "then_alive m f =
     do {
       (result, c) \<leftarrow> m;
       if result = CHANNEL_DELETED then Some (CHANNEL_DELETED, c) else f c
     }"

definition log_action :: "channel_effect \<Rightarrow> web_socket_channel \<Rightarrow> web_socket_channel" where
  "log_action e c = c\<lparr>channel_log := e # channel_log c\<rparr>"

text \<open>A call of the event interface.\<close>

definition notify :: "channel_env \<Rightarrow> channel_event \<Rightarrow> web_socket_channel \<Rightarrow> outcome" where
  "notify env e c =
     (let c = log_action (Event e) c
      in Some (if deletes env e c then CHANNEL_DELETED else CHANNEL_ALIVE, c))"

text \<open>A call whose result the channel checks to be \<open>CHANNEL_DELETED\<close>.\<close>

definition notify_last :: "channel_env \<Rightarrow> channel_event \<Rightarrow> web_socket_channel \<Rightarrow> outcome" where
  "notify_last env e c =
     do {
       (result, c) \<leftarrow> notify env e c;
       DCHECK (result = CHANNEL_DELETED) (Some (result, c))
     }"

text \<open>\<open>size\<close> bytes of a buffer from an offset on.\<close>

definition buffer_bytes :: "uint8 list option \<Rightarrow> nat \<Rightarrow> nat \<Rightarrow> uint8 list option" where
  "buffer_bytes data offset n =
     (if n = 0 then Some []
      else case data of
             None \<Rightarrow> None
           | Some d \<Rightarrow> if offset + n \<le> length d then Some (take n (drop offset d)) else None)"

text \<open>
  The calls of the stream, with what its contract forbids: two reads or two writes at a time, a
  read into a vector that is not empty, and any call after \<open>Close\<close>.
\<close>

definition stream_WriteFrames ::
    "channel_env \<Rightarrow> send_buffer \<Rightarrow> web_socket_channel \<Rightarrow> (net_error option \<times> web_socket_channel) option" where
  "stream_WriteFrames env buffer c =
     do {
       st \<leftarrow> stream c;
       let c = log_action (StreamWrite (frames buffer)) c;
       let result = write_result env c;
       DCHECK (\<not> writing st \<and> \<not> closed st)
         (Some (result, if result = Some ERR_IO_PENDING then c\<lparr>stream := Some (st\<lparr>writing := True\<rparr>)\<rparr> else c))
     }"

definition stream_ReadFrames :: "read_outcome \<Rightarrow> web_socket_channel \<Rightarrow> web_socket_channel option" where
  "stream_ReadFrames outcome c =
     do {
       st \<leftarrow> stream c;
       let c' = log_action (StreamRead outcome) c;
       DCHECK (\<not> reading st \<and> \<not> closed st \<and> read_frames c = [])
         (Some (if fst outcome = Some ERR_IO_PENDING then c'\<lparr>stream := Some (st\<lparr>reading := True\<rparr>)\<rparr>
                else c'\<lparr>read_frames := snd outcome\<rparr>))
     }"

definition stream_Close :: "web_socket_channel \<Rightarrow> web_socket_channel option" where
  "stream_Close c =
     do {
       st \<leftarrow> stream c;
       DCHECK (\<not> closed st)
         (Some (log_action StreamClose (c\<lparr>stream := Some \<lparr>reading = False, writing = False, closed = True\<rparr>\<rparr>)))
     }"

section \<open>Helpers\<close>

text \<open>\<open>std::upper_bound\<close>: the index of the first element greater than the value.\<close>

fun upper_bound :: "int list \<Rightarrow> int \<Rightarrow> nat" where
  "upper_bound [] value = 0"
| "upper_bound (x # xs) value = (if value < x then 0 else Suc (upper_bound xs value))"

definition kInvalidRanges :: "int list" where
  "kInvalidRanges = [0, 1000, 1006, 1007, 1014, 3000, 5000, 65536]"

definition IsStrictlyValidCloseStatusCode :: "int \<Rightarrow> bool option" where
  "IsStrictlyValidCloseStatusCode code =
     (let upper = upper_bound kInvalidRanges code
      in DCHECK (0 \<le> code \<and> code < 65536)
           (DCHECK (upper \<noteq> length kInvalidRanges \<and> upper > 0 \<and>
                    kInvalidRanges ! upper > code \<and> kInvalidRanges ! (upper - 1) \<le> code)
              (Some (upper mod 2 = 0))))"

definition GetFrameTypeForOpcode :: "int \<Rightarrow> string" where
  "GetFrameTypeForOpcode op =
     (if op = kOpCodeText \<or> op = kOpCodeBinary \<or> op = kOpCodeContinuation then ''Data frame''
      else if op = kOpCodePing then ''Ping''
      else if op = kOpCodePong then ''Pong''
      else if op = kOpCodeClose then ''Close''
      else ''Unknown frame type'')"

definition SendBuffer :: send_buffer where
  "SendBuffer = \<lparr>frames = [], total_bytes = 0\<rparr>"

definition AddFrame :: "web_socket_frame \<Rightarrow> send_buffer \<Rightarrow> send_buffer" where
  "AddFrame f b =
     b\<lparr>total_bytes := total_bytes b + payload_length (frame_header f), frames := frames b @ [f]\<rparr>"

definition ResetOpcode :: "pending_received_frame \<Rightarrow> pending_received_frame option" where
  "ResetOpcode p = DCHECK (IsKnownDataOpCode (prf_opcode p)) (Some (p\<lparr>prf_opcode := kOpCodeContinuation\<rparr>))"

definition DidConsume :: "nat \<Rightarrow> pending_received_frame \<Rightarrow> pending_received_frame option" where
  "DidConsume n p =
     DCHECK (prf_offset p \<le> prf_size p \<and> n \<le> prf_size p - prf_offset p)
       (Some (p\<lparr>prf_offset := prf_offset p + n\<rparr>))"

definition SetState :: "ws_state \<Rightarrow> web_socket_channel \<Rightarrow> web_socket_channel option" where
  "SetState new_state c = DCHECK (ch_state c \<noteq> new_state) (Some (c\<lparr>ch_state := new_state\<rparr>))"

definition InClosingState :: "web_socket_channel \<Rightarrow> bool option" where
  "InClosingState c =
     DCHECK (ch_state c \<noteq> RECV_CLOSED)
       (Some (ch_state c = SEND_CLOSED \<or> ch_state c = CLOSE_WAIT \<or> ch_state c = CLOSED))"

text \<open>\<open>HandshakeNotificationSender::SendImmediately\<close>.\<close>

definition SendImmediately :: "channel_env \<Rightarrow> web_socket_channel \<Rightarrow> outcome" where
  "SendImmediately env c =
     then_alive
       (case handshake_request_info c of
          Some info \<Rightarrow> notify env (OnStartOpeningHandshake info) (c\<lparr>handshake_request_info := None\<rparr>)
        | None \<Rightarrow> Some (CHANNEL_ALIVE, c))
       (\<lambda>c. case handshake_response_info c of
          Some info \<Rightarrow> notify env (OnFinishOpeningHandshake info) (c\<lparr>handshake_response_info := None\<rparr>)
        | None \<Rightarrow> Some (CHANNEL_ALIVE, c))"

definition ScheduleOpeningHandshakeNotification :: "web_socket_channel \<Rightarrow> web_socket_channel" where
  "ScheduleOpeningHandshakeNotification c = c\<lparr>notification_tasks := notification_tasks c + 1\<rparr>"

definition DoDropChannel ::
    "channel_env \<Rightarrow> bool \<Rightarrow> uint16 \<Rightarrow> uint8 list \<Rightarrow> web_socket_channel \<Rightarrow> outcome" where
  "DoDropChannel env was_clean code reason c =
     then_alive (SendImmediately env c) (notify_last env (OnDropChannel was_clean code reason))"

text \<open>The stream has failed or the time is over: close it and drop the channel.\<close>

definition close_and_drop ::
    "channel_env \<Rightarrow> bool \<Rightarrow> uint16 \<Rightarrow> uint8 list \<Rightarrow> web_socket_channel \<Rightarrow> outcome" where
  "close_and_drop env was_clean code reason c =
     do {
       c \<leftarrow> stream_Close c;
       c \<leftarrow> SetState CLOSED c;
       DoDropChannel env was_clean code reason c
     }"

section \<open>Writing\<close>

text \<open>
  \<open>write_frames\<close> is the call of \<open>WriteFrames\<close> that an asynchronous completion makes.
\<close>

definition OnWriteDone ::
    "(web_socket_channel \<Rightarrow> outcome) \<Rightarrow> channel_env \<Rightarrow> bool \<Rightarrow> net_error option \<Rightarrow> web_socket_channel \<Rightarrow> outcome"
  where
  "OnWriteDone write_frames env synchronous result c =
     DCHECK (ch_state c \<noteq> FRESHLY_CONSTRUCTED \<and> ch_state c \<noteq> CONNECTING \<and> result \<noteq> Some ERR_IO_PENDING \<and>
             data_being_sent c \<noteq> None)
       (case result of
          None \<Rightarrow>
            (if data_to_send_next c \<noteq> None
             then (let c = c\<lparr>data_being_sent := data_to_send_next c, data_to_send_next := None\<rparr>
                   in if \<not> synchronous then write_frames c else Some (CHANNEL_ALIVE, c))
             else
               (let c = c\<lparr>data_being_sent := None\<rparr>
                in if current_send_quota c < send_quota_low_water_mark c
                   then DCHECK (send_quota_low_water_mark c \<le> send_quota_high_water_mark c)
                          (let fresh_quota = send_quota_high_water_mark c - current_send_quota c
                           in notify env (OnFlowControl fresh_quota)
                                (c\<lparr>current_send_quota := current_send_quota c + fresh_quota\<rparr>))
                   else Some (CHANNEL_ALIVE, c)))
        | Some e \<Rightarrow> close_and_drop env False (error_value kWebSocketErrorAbnormalClosure) [] c)"

partial_function (option) Channel_WriteFrames :: "channel_env \<Rightarrow> web_socket_channel \<Rightarrow> outcome" where
  "Channel_WriteFrames env c =
     do {
       buffer \<leftarrow> data_being_sent c;
       (result, c) \<leftarrow> stream_WriteFrames env buffer c;
       if result = Some ERR_IO_PENDING then Some (CHANNEL_ALIVE, c)
       else
         do {
           (alive, c) \<leftarrow> OnWriteDone (\<lambda>c. None) env True result c;
           if alive = CHANNEL_DELETED then Some (CHANNEL_DELETED, c)
           else if result = None \<and> data_being_sent c \<noteq> None then Channel_WriteFrames env c
           else Some (CHANNEL_ALIVE, c)
         }
     }"

definition SendFrameFromIOBuffer ::
    "channel_env \<Rightarrow> bool \<Rightarrow> int \<Rightarrow> uint8 list option \<Rightarrow> nat \<Rightarrow> web_socket_channel \<Rightarrow> outcome" where
  "SendFrameFromIOBuffer env fin op buffer n c =
     DCHECK ((ch_state c = CONNECTED \<or> ch_state c = RECV_CLOSED) \<and> stream c \<noteq> None)
       (let header = (WebSocketFrameHeader op)\<lparr>final := fin, masked := True, payload_length := of_nat n\<rparr>;
            frame = \<lparr>frame_header = header, frame_data = buffer\<rparr>
        in if data_being_sent c \<noteq> None
           then (let next = (case data_to_send_next c of Some b \<Rightarrow> b | None \<Rightarrow> SendBuffer)
                 in Some (CHANNEL_ALIVE, c\<lparr>data_to_send_next := Some (AddFrame frame next)\<rparr>))
           else Channel_WriteFrames env (c\<lparr>data_being_sent := Some (AddFrame frame SendBuffer)\<rparr>))"

section \<open>Closing\<close>

text \<open>The body of a Close frame.\<close>

definition close_body :: "uint16 \<Rightarrow> uint8 list \<Rightarrow> uint8 list" where
  "close_body code reason =
     (if code = error_value kWebSocketErrorNoStatusReceived then [] else WriteBigEndian code @ reason)"

definition SendClose :: "channel_env \<Rightarrow> uint16 \<Rightarrow> uint8 list \<Rightarrow> web_socket_channel \<Rightarrow> outcome" where
  "SendClose env code reason c =
     DCHECK ((ch_state c = CONNECTED \<or> ch_state c = RECV_CLOSED) \<and> length reason \<le> kMaximumCloseReasonLength \<and>
             (code = error_value kWebSocketErrorNoStatusReceived \<longrightarrow> reason = []))
       (let body = close_body code reason
        in SendFrameFromIOBuffer env True kOpCodeClose (Some body) (length body) c)"

text \<open>The result, the code, the reason and the message.\<close>

definition ParseClose ::
    "uint8 list option \<Rightarrow> nat \<Rightarrow> (bool \<times> uint16 \<times> uint8 list \<times> string) option" where
  "ParseClose buffer n =
     (let protocol_error = error_value kWebSocketErrorProtocolError
      in if n < kWebSocketCloseCodeLength
         then Some (if n = 0 then (True, error_value kWebSocketErrorNoStatusReceived, [], [])
                    else (False, protocol_error, [],
                          ''Received a broken close frame containing an invalid size body.''))
         else do {
           data \<leftarrow> buffer_bytes buffer 0 n;
           let unchecked_code = (ReadBigEndian data :: uint16);
           if unchecked_code = error_value kWebSocketErrorNoStatusReceived \<or>
              unchecked_code = error_value kWebSocketErrorAbnormalClosure \<or>
              unchecked_code = error_value kWebSocketErrorTlsHandshake
           then Some (False, protocol_error, [],
                      ''Received a broken close frame containing a reserved status code.'')
           else do {
             let text = drop kWebSocketCloseCodeLength data;
             valid \<leftarrow> Validate text;
             Some (if valid then (True, unchecked_code, text, [])
                   else (False, protocol_error, bytes_of ''Invalid UTF-8 in Close frame'',
                         ''Received a broken close frame containing invalid UTF-8.''))
           }
         })"

definition FailChannel ::
    "channel_env \<Rightarrow> string \<Rightarrow> uint16 \<Rightarrow> uint8 list \<Rightarrow> web_socket_channel \<Rightarrow> outcome" where
  "FailChannel env message code reason c =
     DCHECK (ch_state c \<noteq> FRESHLY_CONSTRUCTED \<and> ch_state c \<noteq> CONNECTING \<and> ch_state c \<noteq> CLOSED)
       (then_alive (if ch_state c = CONNECTED then SendClose env code reason c else Some (CHANNEL_ALIVE, c))
          (\<lambda>c. do {
             c \<leftarrow> stream_Close c;
             c \<leftarrow> SetState CLOSED c;
             notify_last env (OnFailChannel message) c
           }))"

definition Channel_CloseTimeout :: "channel_env \<Rightarrow> web_socket_channel \<Rightarrow> outcome" where
  "Channel_CloseTimeout env c = close_and_drop env False (error_value kWebSocketErrorAbnormalClosure) [] c"

definition StartClosingHandshake ::
    "channel_env \<Rightarrow> uint16 \<Rightarrow> uint8 list \<Rightarrow> web_socket_channel \<Rightarrow> outcome" where
  "StartClosingHandshake env code reason c =
     do {
       closing \<leftarrow> InClosingState c;
       if closing then Some (CHANNEL_ALIVE, c)
       else if ch_state c = CONNECTING
       then do {
         c \<leftarrow> SetState CLOSED (c\<lparr>stream_request := False\<rparr>);
         DoDropChannel env False (error_value kWebSocketErrorAbnormalClosure) [] c
       }
       else if ch_state c \<noteq> CONNECTED then None
       else do {
         c \<leftarrow> DCHECK (close_timer c = None) (Some (c\<lparr>close_timer := Some (closing_handshake_timeout c)\<rparr>));
         valid_code \<leftarrow> IsStrictlyValidCloseStatusCode (uint code);
         valid_reason \<leftarrow> Validate reason;
         let then_send_closed =
           (\<lambda>c. do { c \<leftarrow> DCHECK (ch_state c = CONNECTED) (SetState SEND_CLOSED c); Some (CHANNEL_ALIVE, c) });
         if \<not> valid_code \<or> length reason > kMaximumCloseReasonLength
         then then_alive (SendClose env (error_value kWebSocketErrorInternalServerError) [] c) then_send_closed
         else then_alive (SendClose env code (if valid_reason then reason else []) c) then_send_closed
       }
     }"

section \<open>Receiving\<close>

text \<open>
  The end of \<open>HandleDataFrame\<close>, from its test for an empty frame on: the frame goes to the renderer as far
  as the quota allows, and the rest to the queue.
\<close>

definition forward_data ::
    "channel_env \<Rightarrow> int \<Rightarrow> bool \<Rightarrow> uint8 list option \<Rightarrow> nat \<Rightarrow> web_socket_channel \<Rightarrow> outcome" where
  "forward_data env op_to_send fin data_buffer n c =
     (if n = 0 \<and> \<not> fin then Some (CHANNEL_ALIVE, c)
      else
        (let c = c\<lparr>initial_frame_forwarded := \<not> fin\<rparr>;
             quota = current_receive_quota c;
             send = (\<lambda>fin n c. do {
               data \<leftarrow> buffer_bytes data_buffer 0 n;
               notify env (OnDataFrame fin op_to_send data)
                 (c\<lparr>current_receive_quota := current_receive_quota c - n\<rparr>)
             })
         in if n > quota \<or> pending_received_frames c \<noteq> []
            then
              (let no_quota = (quota = 0);
                   op_to_queue = (if no_quota then op_to_send else kOpCodeContinuation);
                   queued = \<lparr>prf_final = fin, prf_opcode = op_to_queue, prf_data = data_buffer,
                             prf_offset = quota, prf_size = n\<rparr>
               in DCHECK (no_quota \<or> pending_received_frames c = [])
                    (let c = c\<lparr>pending_received_frames := pending_received_frames c @ [queued]\<rparr>
                     in if no_quota then Some (CHANNEL_ALIVE, c) else send False quota c))
            else send fin n c))"

definition HandleDataFrame ::
    "channel_env \<Rightarrow> int \<Rightarrow> bool \<Rightarrow> uint8 list option \<Rightarrow> nat \<Rightarrow> web_socket_channel \<Rightarrow> outcome" where
  "HandleDataFrame env op fin data_buffer n c =
     (if ch_state c \<noteq> CONNECTED then Some (CHANNEL_ALIVE, c)
      else
        (let got_continuation = (op = kOpCodeContinuation)
         in DCHECK (op = kOpCodeContinuation \<or> op = kOpCodeText \<or> op = kOpCodeBinary)
              (if got_continuation \<noteq> expecting_to_handle_continuation c
               then (if got_continuation
                     then FailChannel env ''Received unexpected continuation frame.''
                            (error_value kWebSocketErrorProtocolError) (bytes_of ''Unexpected continuation'') c
                     else FailChannel env ''Received start of new message but previous message is unfinished.''
                            (error_value kWebSocketErrorProtocolError)
                            (bytes_of ''Previous data frame unfinished'') c)
               else
                 (let c = c\<lparr>expecting_to_handle_continuation := \<not> fin\<rparr>;
                      op_to_send =
                        (if \<not> initial_frame_forwarded c \<and> op = kOpCodeContinuation
                         then (if receiving_text_message c then kOpCodeText else kOpCodeBinary)
                         else op)
                  in if op = kOpCodeText \<or> (op = kOpCodeContinuation \<and> receiving_text_message c)
                     then do {
                       bytes \<leftarrow> buffer_bytes data_buffer 0 n;
                       (state, v) \<leftarrow> AddBytes bytes (incoming_utf8_validator c);
                       let c = c\<lparr>incoming_utf8_validator := v\<rparr>;
                       if state = INVALID \<or> (state = VALID_MIDPOINT \<and> fin)
                       then FailChannel env ''Could not decode a text frame as UTF-8.''
                              (error_value kWebSocketErrorProtocolError)
                              (bytes_of ''Invalid UTF-8 in text frame'') c
                       else DCHECK (\<not> fin \<or> state = VALID_ENDPOINT)
                              (forward_data env op_to_send fin data_buffer n
                                 (c\<lparr>receiving_text_message := \<not> fin\<rparr>))
                     }
                     else forward_data env op_to_send fin data_buffer n c))))"

text \<open>The end of the closing handshake: what the Close frame of the server said is kept.\<close>

definition keep_close :: "uint16 \<Rightarrow> uint8 list \<Rightarrow> web_socket_channel \<Rightarrow> web_socket_channel" where
  "keep_close code reason c =
     c\<lparr>has_received_close_frame := True, received_close_code := code, received_close_reason := reason\<rparr>"

definition HandleClose :: "channel_env \<Rightarrow> uint8 list option \<Rightarrow> nat \<Rightarrow> web_socket_channel \<Rightarrow> outcome" where
  "HandleClose env data_buffer n c =
     do {
       (ok, code, reason, message) \<leftarrow> ParseClose data_buffer n;
       if \<not> ok then FailChannel env message code reason c
       else
         (case ch_state c of
            CONNECTED \<Rightarrow>
              do {
                c \<leftarrow> SetState RECV_CLOSED c;
                then_alive (SendClose env code reason c)
                  (\<lambda>c. do {
                     c \<leftarrow> DCHECK (ch_state c = RECV_CLOSED) (SetState CLOSE_WAIT c);
                     c \<leftarrow> DCHECK (close_timer c = None)
                           (Some (c\<lparr>close_timer := Some (underlying_connection_close_timeout c)\<rparr>));
                     then_alive (notify env OnClosingHandshake c)
                       (\<lambda>c. Some (CHANNEL_ALIVE, keep_close code reason c))
                   })
              }
          | SEND_CLOSED \<Rightarrow>
              do {
                c \<leftarrow> SetState CLOSE_WAIT c;
                c \<leftarrow> DCHECK (close_timer c \<noteq> None)
                      (Some (c\<lparr>close_timer := Some (underlying_connection_close_timeout c)\<rparr>));
                Some (CHANNEL_ALIVE, keep_close code reason c)
              }
          | _ \<Rightarrow> None)
     }"

text \<open>\<open>%d\<close> of a nonnegative number.\<close>

definition printed :: "int \<Rightarrow> string" where
  "printed i = map (char_of \<circ> (unat :: uint8 \<Rightarrow> nat)) (IntToStringT i)"

definition HandleFrameByState ::
    "channel_env \<Rightarrow> int \<Rightarrow> bool \<Rightarrow> uint8 list option \<Rightarrow> nat \<Rightarrow> web_socket_channel \<Rightarrow> outcome" where
  "HandleFrameByState env op fin data_buffer n c =
     DCHECK (ch_state c \<noteq> RECV_CLOSED \<and> ch_state c \<noteq> CLOSED)
       (if ch_state c = CLOSE_WAIT
        then FailChannel env (GetFrameTypeForOpcode op @ '' received after close'')
               (error_value kWebSocketErrorProtocolError) [] c
        else if op = kOpCodeText \<or> op = kOpCodeBinary \<or> op = kOpCodeContinuation
        then HandleDataFrame env op fin data_buffer n c
        else if op = kOpCodePing
        then (if ch_state c = CONNECTED
              then SendFrameFromIOBuffer env True kOpCodePong data_buffer n c
              else Some (CHANNEL_ALIVE, c))
        else if op = kOpCodePong then Some (CHANNEL_ALIVE, c)
        else if op = kOpCodeClose then HandleClose env data_buffer n c
        else FailChannel env (''Unrecognized frame opcode: '' @ printed op)
               (error_value kWebSocketErrorProtocolError) (bytes_of ''Unknown opcode'') c)"

definition HandleFrame :: "channel_env \<Rightarrow> web_socket_frame \<Rightarrow> web_socket_channel \<Rightarrow> outcome" where
  "HandleFrame env frame c =
     (let h = frame_header frame
      in if masked h
         then FailChannel env ''A server must not mask any frames that it sends to the client.''
                (error_value kWebSocketErrorProtocolError) (bytes_of ''Masked frame from server'') c
         else DCHECK (\<not> IsKnownControlOpCode (opcode h) \<or> final h)
           (if reserved1 h \<or> reserved2 h \<or> reserved3 h
            then FailChannel env
                   (''One or more reserved bits are on: reserved1 = '' @ printed (of_bool (reserved1 h)) @
                    '', reserved2 = '' @ printed (of_bool (reserved2 h)) @
                    '', reserved3 = '' @ printed (of_bool (reserved3 h)))
                   (error_value kWebSocketErrorProtocolError) (bytes_of ''Invalid reserved bit'') c
            else HandleFrameByState env (opcode h) (final h) (frame_data frame) (unat (payload_length h)) c))"

fun handle_frames :: "channel_env \<Rightarrow> web_socket_frame list \<Rightarrow> web_socket_channel \<Rightarrow> outcome" where
  "handle_frames env [] c = Some (CHANNEL_ALIVE, c)"
| "handle_frames env (f # fs) c = then_alive (HandleFrame env f c) (handle_frames env fs)"

text \<open>\<open>read_on\<close> is the call of \<open>ReadFrames\<close> that an asynchronous completion makes.\<close>

definition OnReadDone ::
    "(web_socket_channel \<Rightarrow> outcome) \<Rightarrow> channel_env \<Rightarrow> bool \<Rightarrow> net_error option \<Rightarrow> web_socket_channel \<Rightarrow> outcome"
  where
  "OnReadDone read_on env synchronous result c =
     DCHECK (ch_state c \<noteq> FRESHLY_CONSTRUCTED \<and> ch_state c \<noteq> CONNECTING \<and> result \<noteq> Some ERR_IO_PENDING)
       (case result of
          None \<Rightarrow>
            DCHECK (read_frames c \<noteq> [])
              (then_alive (handle_frames env (read_frames c) c)
                 (\<lambda>c. let c = c\<lparr>read_frames := []\<rparr>
                      in DCHECK (ch_state c \<noteq> CLOSED)
                           (if \<not> synchronous then read_on c else Some (CHANNEL_ALIVE, c))))
        | Some e \<Rightarrow>
            (if e = ERR_WS_PROTOCOL_ERROR
             then FailChannel env ''Invalid frame header'' (error_value kWebSocketErrorProtocolError)
                    (bytes_of ''WebSocket Protocol Error'') c
             else if has_received_close_frame c
             then close_and_drop env (e = ERR_CONNECTION_CLOSED) (received_close_code c)
                    (received_close_reason c) c
             else close_and_drop env False (error_value kWebSocketErrorAbnormalClosure) [] c))"

fun read_frames_loop :: "channel_env \<Rightarrow> read_outcome list \<Rightarrow> web_socket_channel \<Rightarrow> outcome" where
  "read_frames_loop env results c =
     (if current_receive_quota c > 0
      then
        (case results of
           [] \<Rightarrow>
             do {
               c \<leftarrow> stream_ReadFrames (Some ERR_IO_PENDING, []) c;
               DCHECK (ch_state c \<noteq> CLOSED) (Some (CHANNEL_ALIVE, c))
             }
         | (result, fs) # results \<Rightarrow>
             do {
               c \<leftarrow> stream_ReadFrames (result, fs) c;
               then_alive
                 (if result \<noteq> Some ERR_IO_PENDING then OnReadDone (\<lambda>c. None) env True result c
                  else Some (CHANNEL_ALIVE, c))
                 (\<lambda>c. DCHECK (ch_state c \<noteq> CLOSED)
                    (if result = None then read_frames_loop env results c else Some (CHANNEL_ALIVE, c)))
             })
      else Some (CHANNEL_ALIVE, c))"

definition Channel_ReadFrames :: "channel_env \<Rightarrow> web_socket_channel \<Rightarrow> outcome" where
  "Channel_ReadFrames env c = read_frames_loop env (read_results env c) c"

section \<open>Calls from the renderer\<close>

definition SendAddChannelRequest ::
    "channel_env \<Rightarrow> gurl \<Rightarrow> string list \<Rightarrow> string \<Rightarrow> web_socket_channel \<Rightarrow> outcome" where
  "SendAddChannelRequest env url requested_subprotocols origin c =
     DCHECK (ch_state c = FRESHLY_CONSTRUCTED)
       (if \<not> SchemeIsWSOrWSS url then notify env (OnFailChannel ''Invalid scheme'') c
        else do {
          let c = log_action (StreamCreate url requested_subprotocols origin) (c\<lparr>socket_url := url, stream_request := True\<rparr>);
          c \<leftarrow> SetState CONNECTING c;
          Some (CHANNEL_ALIVE, c)
        })"

definition SendFrame ::
    "channel_env \<Rightarrow> bool \<Rightarrow> int \<Rightarrow> uint8 list \<Rightarrow> web_socket_channel \<Rightarrow> outcome" where
  "SendFrame env fin op data c =
     DCHECK (length data \<le> INT_MAX \<and> stream c \<noteq> None)
       (do {
          closing \<leftarrow> InClosingState c;
          let send = (\<lambda>c. SendFrameFromIOBuffer env fin op (Some data) (length data)
                            (c\<lparr>current_send_quota := current_send_quota c - int (length data)\<rparr>));
          if closing then Some (CHANNEL_ALIVE, c)
          else if ch_state c \<noteq> CONNECTED \<or> current_send_quota c < 0 then None
          else if int (length data) > current_send_quota c
          then FailChannel env ''Send quota exceeded'' (error_value kWebSocketErrorGoingAway) [] c
          else if \<not> IsKnownDataOpCode op then None
          else if op = kOpCodeText \<or> (op = kOpCodeContinuation \<and> sending_text_message c)
          then do {
            (state, v) \<leftarrow> AddBytes data (outgoing_utf8_validator c);
            let c = c\<lparr>outgoing_utf8_validator := v\<rparr>;
            if state = INVALID \<or> (state = VALID_MIDPOINT \<and> fin)
            then FailChannel env ''Browser sent a text frame containing invalid UTF-8''
                   (error_value kWebSocketErrorGoingAway) [] c
            else DCHECK (\<not> fin \<or> state = VALID_ENDPOINT) (send (c\<lparr>sending_text_message := \<not> fin\<rparr>))
          }
          else send c
        })"

text \<open>
  The loop of \<open>SendFlowControl\<close> over the queue: \<open>Inl\<close> where the method returns from within it,
  \<open>Inr\<close> with the quota that is left where the loop ends.
\<close>

fun send_pending ::
    "channel_env \<Rightarrow> pending_received_frame list \<Rightarrow> int \<Rightarrow> web_socket_channel \<Rightarrow>
     ((channel_state + int) \<times> web_socket_channel) option" where
  "send_pending env [] quota c = Some (Inr quota, c)"
| "send_pending env (front # rest) quota c =
     (if quota > 0
      then
        (let data_size = prf_size front - prf_offset front;
             bytes_to_send = min (nat quota) data_size;
             fin = (prf_final front \<and> data_size = bytes_to_send)
         in do {
              data \<leftarrow> buffer_bytes (prf_data front) (prf_offset front) bytes_to_send;
              (alive, c) \<leftarrow> notify env (OnDataFrame fin (prf_opcode front) data) c;
              if alive = CHANNEL_DELETED then Some (Inl CHANNEL_DELETED, c)
              else if bytes_to_send < data_size
              then do {
                front \<leftarrow> DidConsume bytes_to_send front;
                front \<leftarrow> ResetOpcode front;
                Some (Inl CHANNEL_ALIVE, c\<lparr>pending_received_frames := front # rest\<rparr>)
              }
              else send_pending env rest (quota - int bytes_to_send) (c\<lparr>pending_received_frames := rest\<rparr>)
            })
      else Some (Inr quota, c))"

definition SendFlowControl :: "channel_env \<Rightarrow> int \<Rightarrow> web_socket_channel \<Rightarrow> outcome" where
  "SendFlowControl env quota c =
     DCHECK ((ch_state c = CONNECTING \<or> ch_state c = CONNECTED \<or> ch_state c = SEND_CLOSED \<or> ch_state c = CLOSE_WAIT) \<and>
             0 \<le> quota \<and> quota \<le> int INT_MAX \<and>
             (pending_received_frames c \<noteq> [] \<longrightarrow> current_receive_quota c = 0))
       (do {
          (r, c) \<leftarrow> send_pending env (pending_received_frames c) quota c;
          case r of
            Inl alive \<Rightarrow> Some (alive, c)
          | Inr quota \<Rightarrow>
              (let start_read = (current_receive_quota c = 0 \<and> quota > 0 \<and>
                     (ch_state c = CONNECTED \<or> ch_state c = SEND_CLOSED \<or> ch_state c = CLOSE_WAIT));
                   c = c\<lparr>current_receive_quota := (current_receive_quota c + nat quota) mod 2 ^ 64\<rparr>
               in if start_read then Channel_ReadFrames env c else Some (CHANNEL_ALIVE, c))
        })"

section \<open>Calls from the stream\<close>

definition OnConnectSuccess :: "channel_env \<Rightarrow> string \<Rightarrow> string \<Rightarrow> web_socket_channel \<Rightarrow> outcome" where
  "OnConnectSuccess env sub_protocol extensions c =
     DCHECK (ch_state c = CONNECTING)
       (do {
          c \<leftarrow> SetState CONNECTED (c\<lparr>stream := Some \<lparr>reading = False, writing = False, closed = False\<rparr>\<rparr>);
          then_alive (notify env (OnAddChannelResponse sub_protocol extensions) c)
            (\<lambda>c. then_alive
               (notify env (OnFlowControl (send_quota_high_water_mark c))
                  (c\<lparr>current_send_quota := send_quota_high_water_mark c\<rparr>))
               (\<lambda>c. Channel_ReadFrames env (c\<lparr>stream_request := False\<rparr>)))
        })"

definition OnConnectFailure :: "channel_env \<Rightarrow> string \<Rightarrow> web_socket_channel \<Rightarrow> outcome" where
  "OnConnectFailure env message c =
     DCHECK (ch_state c = CONNECTING)
       (do {
          c \<leftarrow> SetState CLOSED c;
          then_alive (SendImmediately env (c\<lparr>stream_request := False\<rparr>)) (notify_last env (OnFailChannel message))
        })"

definition Channel_OnSSLCertificateError ::
    "channel_env \<Rightarrow> handed_on \<Rightarrow> handed_on \<Rightarrow> bool \<Rightarrow> web_socket_channel \<Rightarrow> outcome" where
  "Channel_OnSSLCertificateError env callbacks ssl_info fatal c =
     notify env (OnSSLCertificateError callbacks (socket_url c) ssl_info fatal) c"

definition Channel_OnStartOpeningHandshake :: "handed_on \<Rightarrow> web_socket_channel \<Rightarrow> outcome" where
  "Channel_OnStartOpeningHandshake request c =
     DCHECK (handshake_request_info c = None)
       (Some (CHANNEL_ALIVE, ScheduleOpeningHandshakeNotification (c\<lparr>handshake_request_info := Some request\<rparr>)))"

definition Channel_OnFinishOpeningHandshake :: "handed_on \<Rightarrow> web_socket_channel \<Rightarrow> outcome" where
  "Channel_OnFinishOpeningHandshake response c =
     DCHECK (handshake_response_info c = None)
       (Some (CHANNEL_ALIVE, ScheduleOpeningHandshakeNotification (c\<lparr>handshake_response_info := Some response\<rparr>)))"

section \<open>A channel in use\<close>

text \<open>
  Everything that can happen to a channel: the calls of the renderer, the callbacks of the stream
  and of its request, the task posted for a notification, and the timer.
\<close>

datatype channel_op =
    CallSendAddChannelRequest gurl "string list" string
  | CallSendFrame bool int "uint8 list"
  | CallSendFlowControl int
  | CallStartClosingHandshake uint16 "uint8 list"
  | CallSetClosingHandshakeTimeoutForTesting int
  | CallSetUnderlyingConnectionCloseTimeoutForTesting int
  | ConnectSuccess string string
  | ConnectFailure string
  | SSLCertificateError handed_on handed_on bool
  | StartOpeningHandshake handed_on
  | FinishOpeningHandshake handed_on
  | NotificationTask
  | WriteDone "net_error option"
  | ReadDone "net_error option" "web_socket_frame list"
  | CloseTimeout

fun perform :: "channel_env \<Rightarrow> channel_op \<Rightarrow> web_socket_channel \<Rightarrow> outcome" where
  "perform env (CallSendAddChannelRequest url protocols origin) c = SendAddChannelRequest env url protocols origin c"
| "perform env (CallSendFrame fin op data) c = SendFrame env fin op data c"
| "perform env (CallSendFlowControl quota) c = SendFlowControl env quota c"
| "perform env (CallStartClosingHandshake code reason) c = StartClosingHandshake env code reason c"
| "perform env (CallSetClosingHandshakeTimeoutForTesting delay) c =
     Some (CHANNEL_ALIVE, c\<lparr>closing_handshake_timeout := delay\<rparr>)"
| "perform env (CallSetUnderlyingConnectionCloseTimeoutForTesting delay) c =
     Some (CHANNEL_ALIVE, c\<lparr>underlying_connection_close_timeout := delay\<rparr>)"
| "perform env (ConnectSuccess sub_protocol extensions) c = OnConnectSuccess env sub_protocol extensions c"
| "perform env (ConnectFailure message) c = OnConnectFailure env message c"
| "perform env (SSLCertificateError callbacks ssl_info fatal) c =
     Channel_OnSSLCertificateError env callbacks ssl_info fatal c"
| "perform env (StartOpeningHandshake request) c = Channel_OnStartOpeningHandshake request c"
| "perform env (FinishOpeningHandshake response) c = Channel_OnFinishOpeningHandshake response c"
| "perform env NotificationTask c = SendImmediately env (c\<lparr>notification_tasks := notification_tasks c - 1\<rparr>)"
| "perform env (WriteDone result) c =
     OnWriteDone (Channel_WriteFrames env) env False result
       (c\<lparr>stream := map_option (writing_update (\<lambda>w. False)) (stream c)\<rparr>)"
| "perform env (ReadDone result fs) c =
     OnReadDone (Channel_ReadFrames env) env False result
       (log_action (StreamReadDone (result, fs))
          (c\<lparr>stream := map_option (reading_update (\<lambda>r. False)) (stream c), read_frames := fs\<rparr>))"
| "perform env CloseTimeout c = Channel_CloseTimeout env (c\<lparr>close_timer := None\<rparr>)"

end
