(* ===== verification/WebSocket_Basic_Stream_Correct.thy ===== *)
theory WebSocket_Basic_Stream_Correct
  imports WebSocket_Basic_Stream
begin

text \<open>
  Correctness of \<open>WebSocketBasicStream\<close>: no \<open>CHECK\<close> fails and no null header is used, whatever
  the peer sends and however the socket cuts it up; the assertions of the reassembly hold; the
  messages a receiver sees are those on the wire; and what one end writes the other end receives.
\<close>

section \<open>Reassembly\<close>

text \<open>
  The invariant of the stream while the parser has a frame open: a control frame is collected in
  the body; the header kept for a message has become a continuation.
\<close>

definition kept_header_ok :: "web_socket_frame_header \<Rightarrow> web_socket_frame_header \<Rightarrow> bool" where
  "kept_header_ok h h' \<longleftrightarrow>
     payload_length h' = payload_length h \<and> final h' = final h \<and>
     opcode h' = (if IsKnownDataOpCode (opcode h) then kOpCodeContinuation else opcode h)"

definition stream_inv :: "open_frame \<Rightarrow> web_socket_basic_stream \<Rightarrow> bool" where
  "stream_inv st s \<longleftrightarrow>
     (case st of
        None \<Rightarrow> bs_current_frame_header s = None \<and> incomplete_control_frame_body s = None
      | Some (h, off) \<Rightarrow>
          if IsKnownControlOpCode (opcode h)
          then bs_current_frame_header s = Some h \<and> final h \<and> unat (payload_length h) \<le> 125 \<and>
               (\<exists>body. incomplete_control_frame_body s = Some body \<and> length body = off)
          else incomplete_control_frame_body s = None \<and>
               (\<exists>h'. bs_current_frame_header s = Some h' \<and> kept_header_ok h h'))"

text \<open>What a receiver of frames is told: the start of a message, its bytes and its end.\<close>

datatype message_event = MessageStart int bool bool bool | MessageByte uint8 | MessageEnd

definition message_start :: "web_socket_frame_header \<Rightarrow> message_event list" where
  "message_start h =
     (if opcode h = kOpCodeContinuation then []
      else [MessageStart (opcode h) (reserved1 h) (reserved2 h) (reserved3 h)])"

definition frame_messages :: "web_socket_frame \<Rightarrow> message_event list" where
  "frame_messages f =
     message_start (frame_header f) @ map MessageByte (payload_of f) @
     (if final (frame_header f) then [MessageEnd] else [])"

text \<open>The same for the events of the wire; the flag is the FIN bit of the open frame.\<close>

fun messages :: "bool \<Rightarrow> frame_event list \<Rightarrow> message_event list" where
  "messages fin [] = []"
| "messages fin (FrameStart h # es) = message_start h @ messages (final h) es"
| "messages fin (PayloadByte b # es) = MessageByte b # messages fin es"
| "messages fin (FrameEnd # es) = (if fin then [MessageEnd] else []) @ messages fin es"

lemma messages_bytes: "messages fin (map PayloadByte xs @ es) = map MessageByte xs @ messages fin es"
  by (induction xs) simp_all

definition chunk_bytes :: "web_socket_frame_chunk \<Rightarrow> uint8 list" where
  "chunk_bytes c = (case chunk_data c of Some d \<Rightarrow> d | None \<Rightarrow> [])"

lemma chunk_size_bytes: "chunk_size c = length (chunk_bytes c)"
  by (simp add: chunk_size_def chunk_bytes_def split: option.splits)

definition chunk_messages :: "web_socket_frame_header \<Rightarrow> web_socket_frame_chunk \<Rightarrow> message_event list" where
  "chunk_messages h c =
     (if chunk_header c = None then [] else message_start h) @ map MessageByte (chunk_bytes c) @
     (if final_chunk c \<and> final h then [MessageEnd] else [])"

lemma messages_chunk:
  "chunk_header c = Some h \<Longrightarrow> messages fin (chunk_events c @ es) = chunk_messages h c @ messages (final h) es"
  "chunk_header c = None \<Longrightarrow> fin = final h \<Longrightarrow>
     messages fin (chunk_events c @ es) = chunk_messages h c @ messages (final h) es"
  by (simp_all add: chunk_events_def chunk_messages_def chunk_bytes_def messages_bytes split: option.split)

text \<open>A control frame that is still being collected lags behind the wire.\<close>

definition pending :: "web_socket_basic_stream \<Rightarrow> message_event list" where
  "pending s =
     (case incomplete_control_frame_body s of
        None \<Rightarrow> []
      | Some body \<Rightarrow>
          (case bs_current_frame_header s of Some h \<Rightarrow> message_start h | None \<Rightarrow> []) @ map MessageByte body)"

definition known_opcode :: "web_socket_frame_header \<Rightarrow> bool" where
  "known_opcode h \<longleftrightarrow> IsKnownDataOpCode (opcode h) \<or> IsKnownControlOpCode (opcode h)"

lemma opcode_kinds:
  "IsKnownControlOpCode i \<Longrightarrow> i \<noteq> kOpCodeContinuation" "IsKnownControlOpCode i \<Longrightarrow> \<not> IsKnownDataOpCode i"
  "\<not> IsKnownControlOpCode kOpCodeContinuation" "IsKnownDataOpCode kOpCodeContinuation"
  by (auto simp: IsKnownControlOpCode_def IsKnownDataOpCode_def kOpCodeContinuation_def)

text \<open>
  One chunk of a control frame, with the bytes \<open>body\<close> collected before it (none for the first).
\<close>

lemma convert_control:
  assumes ctl: "IsKnownControlOpCode (opcode h)" and fin: "final h" and len: "unat (payload_length h) \<le> 125"
    and hdr: "(if chunk_header c \<noteq> None then chunk_header c else bs_current_frame_header s) = Some h"
    and body: "incomplete_control_frame_body s = (if first then None else Some body)" "first \<Longrightarrow> body = []"
    and fst_iff: "first \<longleftrightarrow> chunk_header c \<noteq> None"
    and size: "length body + chunk_size c \<le> unat (payload_length h)"
  shows "\<exists>fo s1. ConvertChunkToFrame c s = Some (None, fo, s1) \<and>
    bs_parser s1 = bs_parser s \<and> http_read_buffer s1 = http_read_buffer s \<and>
    (if final_chunk c
     then bs_current_frame_header s1 = None \<and> incomplete_control_frame_body s1 = None
     else bs_current_frame_header s1 = Some h \<and> incomplete_control_frame_body s1 = Some (body @ chunk_bytes c)) \<and>
    pending s @ chunk_messages h c =
      (case fo of Some f \<Rightarrow> frame_messages f | None \<Rightarrow> []) @ pending s1"
proof -
  have notbig: "\<not> payload_length h > of_nat kMaxControlFramePayload"
    using len by (simp add: kMaxControlFramePayload_def word_less_nat_alt)
  have cap: "length body + length (chunk_bytes c) \<le> kMaxControlFramePayload"
    using size len by (simp add: chunk_size_bytes kMaxControlFramePayload_def)
  show ?thesis
    using ctl fin hdr body fst_iff cap notbig opcode_kinds(1,2) [OF ctl]
    by (cases first; cases "final_chunk c"; cases "chunk_data c")
      (auto simp: ConvertChunkToFrame_def Let_def AddToIncompleteControlFrameBody_def CreateFrame_def
        CopyFrom_def WebSocketFrameHeader_def pending_def chunk_messages_def chunk_bytes_def frame_messages_def
        message_start_def payload_of_def)
qed

text \<open>One chunk of a message, with the header \<open>h'\<close> kept for it.\<close>

lemma convert_message:
  assumes ctl: "\<not> IsKnownControlOpCode (opcode h')" and body: "incomplete_control_frame_body s = None"
    and hdr: "(if chunk_header c \<noteq> None then chunk_header c else bs_current_frame_header s) = Some h'"
    and keep: "chunk_header c = None \<Longrightarrow> opcode h' = kOpCodeContinuation \<or> \<not> IsKnownDataOpCode (opcode h')"
  shows "\<exists>fo s1. ConvertChunkToFrame c s = Some (None, fo, s1) \<and>
    bs_parser s1 = bs_parser s \<and> http_read_buffer s1 = http_read_buffer s \<and>
    incomplete_control_frame_body s1 = None \<and>
    (if final_chunk c then bs_current_frame_header s1 = None
     else \<exists>h1. bs_current_frame_header s1 = Some h1 \<and> kept_header_ok h' h1) \<and>
    (IsKnownDataOpCode (opcode h') \<longrightarrow>
       chunk_messages h' c = (case fo of Some f \<Rightarrow> frame_messages f | None \<Rightarrow> []))"
proof -
  show ?thesis
    using ctl body hdr keep opcode_kinds(3,4)
    by (cases "final_chunk c"; cases "final h'"; cases "chunk_data c")
      (auto simp: ConvertChunkToFrame_def Let_def CreateFrame_def CopyFrom_def WebSocketFrameHeader_def
        chunk_messages_def chunk_bytes_def frame_messages_def message_start_def payload_of_def kept_header_ok_def
        split: if_splits)
qed

text \<open>The frame a chunk belongs to, and where in it the chunk starts.\<close>

lemma accept_chunk_cases:
  assumes "accept_chunk st c = Some st1"
  obtains h off where "(st = None \<and> chunk_header c = Some h \<and> off = 0) \<or> (st = Some (h, off) \<and> chunk_header c = None)"
    and "off + chunk_size c \<le> unat (payload_length h)"
    and "final_chunk c \<longleftrightarrow> off + chunk_size c = unat (payload_length h)"
    and "st1 = (if final_chunk c then None else Some (h, off + chunk_size c))"
  using assms by (auto simp: accept_chunk_def split: option.splits if_splits)

definition frame_of :: "open_frame \<Rightarrow> web_socket_frame_chunk \<Rightarrow> web_socket_frame_header" where
  "frame_of st c = (case chunk_header c of Some h \<Rightarrow> h | None \<Rightarrow> fst (the st))"

text \<open>A control frame that is fragmented or too long.\<close>

definition bad_control :: "web_socket_frame_header \<Rightarrow> bool" where
  "bad_control h \<longleftrightarrow>
     IsKnownControlOpCode (opcode h) \<and> (\<not> final h \<or> payload_length h > of_nat kMaxControlFramePayload)"

lemma convert_chunk_dcheck:
  assumes inv: "stream_inv st s" and acc: "accept_chunk st c = Some st1"
  shows "ConvertChunkToFrame_dcheck c s"
proof -
  obtain h off where h: "(st = None \<and> chunk_header c = Some h \<and> off = 0) \<or> (st = Some (h, off) \<and> chunk_header c = None)"
    and size: "off + chunk_size c \<le> unat (payload_length h)"
      "final_chunk c \<longleftrightarrow> off + chunk_size c = unat (payload_length h)"
    by (rule accept_chunk_cases [OF acc])
  from h show ?thesis
  proof
    assume "st = None \<and> chunk_header c = Some h \<and> off = 0"
    then show ?thesis
      using inv size by (simp add: ConvertChunkToFrame_dcheck_def stream_inv_def chunk_size_def [symmetric] Let_def)
  next
    assume opn: "st = Some (h, off) \<and> chunk_header c = None"
    show ?thesis
    proof (cases "IsKnownControlOpCode (opcode h)")
      case True
      then show ?thesis
        using opn inv size by (auto simp: ConvertChunkToFrame_dcheck_def stream_inv_def chunk_size_def [symmetric] Let_def)
    next
      case False
      then obtain h' where "bs_current_frame_header s = Some h'" "payload_length h' = payload_length h"
        "incomplete_control_frame_body s = None"
        using opn inv by (auto simp: stream_inv_def kept_header_ok_def)
      then show ?thesis
        using opn size by (simp add: ConvertChunkToFrame_dcheck_def chunk_size_def [symmetric] Let_def)
    qed
  qed
qed

lemma convert_chunk_step:
  assumes inv: "stream_inv st s" and acc: "accept_chunk st c = Some st1"
  shows "(bad_control (frame_of st c) \<and>
     (\<exists>s1. ConvertChunkToFrame c s = Some (Some ERR_WS_PROTOCOL_ERROR, None, s1))) \<or>
    (\<exists>fo s1. ConvertChunkToFrame c s = Some (None, fo, s1) \<and>
       bs_parser s1 = bs_parser s \<and> http_read_buffer s1 = http_read_buffer s \<and> stream_inv st1 s1 \<and>
       (known_opcode (frame_of st c) \<longrightarrow>
          pending s @ chunk_messages (frame_of st c) c =
            (case fo of Some f \<Rightarrow> frame_messages f | None \<Rightarrow> []) @ pending s1))"
proof -
  obtain h off where h: "(st = None \<and> chunk_header c = Some h \<and> off = 0) \<or> (st = Some (h, off) \<and> chunk_header c = None)"
    and size: "off + chunk_size c \<le> unat (payload_length h)"
    and st1: "st1 = (if final_chunk c then None else Some (h, off + chunk_size c))"
    by (rule accept_chunk_cases [OF acc])
  have frame: "frame_of st c = h" using h by (auto simp: frame_of_def)
  consider (bad) "IsKnownControlOpCode (opcode h)" "\<not> final h \<or> payload_length h > of_nat kMaxControlFramePayload"
    | (control) "IsKnownControlOpCode (opcode h)" "final h" "\<not> payload_length h > of_nat kMaxControlFramePayload"
    | (message) "\<not> IsKnownControlOpCode (opcode h)" by blast
  then show ?thesis
  proof cases
    case bad
    then have "chunk_header c = Some h"
      using h inv by (auto simp: stream_inv_def kMaxControlFramePayload_def word_less_nat_alt)
    then show ?thesis using bad by (auto simp: ConvertChunkToFrame_def Let_def frame bad_control_def)
  next
    case control
    have len: "unat (payload_length h) \<le> 125"
      using control(3) by (simp add: kMaxControlFramePayload_def word_less_nat_alt not_less)
    obtain body where body: "length body = off"
      "incomplete_control_frame_body s = (if st = None then None else Some body)" "st = None \<Longrightarrow> body = []"
      "(if chunk_header c \<noteq> None then chunk_header c else bs_current_frame_header s) = Some h"
      using h inv control(1) by (auto simp: stream_inv_def)
    have iff: "st = None \<longleftrightarrow> chunk_header c \<noteq> None" using h by auto
    have "length body + chunk_size c \<le> unat (payload_length h)" using size body(1) by simp
    from convert_control [OF control(1,2) len body(4,2,3) iff this]
    obtain fo s1 where r: "ConvertChunkToFrame c s = Some (None, fo, s1)"
      "bs_parser s1 = bs_parser s" "http_read_buffer s1 = http_read_buffer s"
      "if final_chunk c then bs_current_frame_header s1 = None \<and> incomplete_control_frame_body s1 = None
       else bs_current_frame_header s1 = Some h \<and> incomplete_control_frame_body s1 = Some (body @ chunk_bytes c)"
      "pending s @ chunk_messages h c = (case fo of Some f \<Rightarrow> frame_messages f | None \<Rightarrow> []) @ pending s1"
      by blast
    have "stream_inv st1 s1"
      using r(4) control len body(1) by (auto simp: stream_inv_def st1 chunk_size_bytes split: if_splits)
    then show ?thesis using r by (simp add: frame)
  next
    case message
    obtain h' where h': "(if chunk_header c \<noteq> None then chunk_header c else bs_current_frame_header s) = Some h'"
      "incomplete_control_frame_body s = None" "chunk_header c = None \<Longrightarrow> kept_header_ok h h'"
      "chunk_header c \<noteq> None \<Longrightarrow> h' = h"
      using h inv message by (auto simp: stream_inv_def)
    have k: "\<not> IsKnownControlOpCode (opcode h')" "final h' = final h" "payload_length h' = payload_length h"
      "IsKnownDataOpCode (opcode h) \<Longrightarrow> IsKnownDataOpCode (opcode h')"
      "opcode h' = kOpCodeContinuation \<or> \<not> IsKnownDataOpCode (opcode h')" if "chunk_header c = None"
      using h'(3) [OF that] message opcode_kinds(3,4) by (auto simp: kept_header_ok_def split: if_splits)
    have ctl: "\<not> IsKnownControlOpCode (opcode h')" using k(1) h'(4) message by blast
    from convert_message [OF ctl h'(2,1) k(5)]
    obtain fo s1 where r: "ConvertChunkToFrame c s = Some (None, fo, s1)"
      "bs_parser s1 = bs_parser s" "http_read_buffer s1 = http_read_buffer s"
      "incomplete_control_frame_body s1 = None"
      "if final_chunk c then bs_current_frame_header s1 = None
       else \<exists>h1. bs_current_frame_header s1 = Some h1 \<and> kept_header_ok h' h1"
      "IsKnownDataOpCode (opcode h') \<longrightarrow>
         chunk_messages h' c = (case fo of Some f \<Rightarrow> frame_messages f | None \<Rightarrow> [])" by blast
    have trans: "kept_header_ok h h1" if "kept_header_ok h' h1" for h1
      using that h'(3,4) opcode_kinds(4) by (cases "chunk_header c") (auto simp: kept_header_ok_def split: if_splits)
    have "stream_inv st1 s1"
      using r(4,5) message trans by (auto simp: stream_inv_def st1)
    moreover have "chunk_messages h c = chunk_messages h' c"
      using k(2) h'(4) by (cases "chunk_header c") (simp_all add: chunk_messages_def)
    moreover have "IsKnownDataOpCode (opcode h')" if "known_opcode h"
      using that message k(4) h'(4) by (auto simp: known_opcode_def)
    moreover have "pending s = []" "pending s1 = []" using h'(2) r(4) by (simp_all add: pending_def)
    ultimately show ?thesis using r(1-3,6) by (simp add: frame)
  qed
qed

section \<open>Runs of the reader\<close>

fun convert_dchecks :: "web_socket_frame_chunk list \<Rightarrow> web_socket_basic_stream \<Rightarrow> bool" where
  "convert_dchecks [] s = True"
| "convert_dchecks (c # cs) s =
     (ConvertChunkToFrame_dcheck c s \<and>
      (case ConvertChunkToFrame c s of Some (None, fo, s) \<Rightarrow> convert_dchecks cs s | _ \<Rightarrow> True))"

definition chunk_headers :: "web_socket_frame_chunk list \<Rightarrow> web_socket_frame_header set" where
  "chunk_headers cs = {h. \<exists>c \<in> set cs. chunk_header c = Some h}"

lemma chunk_headers_simps [simp]:
  "chunk_headers [] = {}"
  "chunk_headers (c # cs) = set_option (chunk_header c) \<union> chunk_headers cs"
  "chunk_headers (cs @ ds) = chunk_headers cs \<union> chunk_headers ds"
  by (auto simp: chunk_headers_def)

text \<open>The FIN bit of the frame that is open after some events.\<close>

fun fin_after :: "bool \<Rightarrow> frame_event list \<Rightarrow> bool" where
  "fin_after fin [] = fin"
| "fin_after fin (FrameStart h # es) = fin_after (final h) es"
| "fin_after fin (e # es) = fin_after fin es"

lemma messages_append: "messages fin (es @ es') = messages fin es @ messages (fin_after fin es) es'"
  by (induction fin es rule: messages.induct) simp_all

lemma fin_after_append: "fin_after fin (es @ es') = fin_after (fin_after fin es) es'"
  by (induction fin es rule: messages.induct) simp_all

lemma fin_after_chunk:
  "fin_after fin (chunk_events c) = (case chunk_header c of Some h \<Rightarrow> final h | None \<Rightarrow> fin)"
proof -
  have "fin_after f (map PayloadByte xs @ es) = fin_after f es" "fin_after f (map PayloadByte xs) = f" for f xs es
    by (induction xs) simp_all
  then show ?thesis by (simp add: chunk_events_def split: option.split)
qed

definition fin_ok :: "open_frame \<Rightarrow> bool \<Rightarrow> bool" where
  "fin_ok st fin \<longleftrightarrow> (case st of None \<Rightarrow> True | Some (h, off) \<Rightarrow> fin = final h)"

definition opcodes_ok :: "open_frame \<Rightarrow> web_socket_frame_header set \<Rightarrow> bool" where
  "opcodes_ok st H \<longleftrightarrow> (\<forall>h \<in> H \<union> fst ` set_option st. known_opcode h)"

lemma accept_chunk_fin:
  assumes "accept_chunk st c = Some st1" and "fin_ok st fin"
  shows "fin_ok st1 (fin_after fin (chunk_events c))" and "fin_after fin (chunk_events c) = final (frame_of st c)"
    and "messages fin (chunk_events c) = chunk_messages (frame_of st c) c"
    and "opcodes_ok st (set_option (chunk_header c) \<union> H) \<Longrightarrow> known_opcode (frame_of st c) \<and> opcodes_ok st1 H"
proof -
  obtain h off where h: "(st = None \<and> chunk_header c = Some h \<and> off = 0) \<or> (st = Some (h, off) \<and> chunk_header c = None)"
    and st1: "st1 = (if final_chunk c then None else Some (h, off + chunk_size c))"
    by (rule accept_chunk_cases [OF assms(1)])
  have frame: "frame_of st c = h" using h by (auto simp: frame_of_def)
  show f: "fin_after fin (chunk_events c) = final (frame_of st c)"
    using h assms(2) by (auto simp: fin_after_chunk frame fin_ok_def)
  show "fin_ok st1 (fin_after fin (chunk_events c))" unfolding f by (simp add: st1 fin_ok_def frame)
  show "messages fin (chunk_events c) = chunk_messages (frame_of st c) c"
    using h assms(2) messages_chunk [where c = c and h = h and fin = fin and es = "[]"] by (auto simp: frame fin_ok_def)
  show "opcodes_ok st (set_option (chunk_header c) \<union> H) \<Longrightarrow> known_opcode (frame_of st c) \<and> opcodes_ok st1 H"
    using h by (auto simp: opcodes_ok_def frame st1)
qed

lemma convert_chunks_run:
  "stream_inv st s \<Longrightarrow> accept_chunks st cs = Some st' \<Longrightarrow>
   convert_dchecks cs s \<and>
   ((\<exists>fs s'. convert_chunks cs s = Some (Some ERR_WS_PROTOCOL_ERROR, fs, s') \<and>
       (\<exists>h \<in> chunk_headers cs \<union> fst ` set_option st. bad_control h)) \<or>
    (\<exists>fs s'. convert_chunks cs s = Some (None, fs, s') \<and> bs_parser s' = bs_parser s \<and>
       http_read_buffer s' = http_read_buffer s \<and> stream_inv st' s' \<and>
       (\<forall>fin. fin_ok st fin \<longrightarrow> opcodes_ok st (chunk_headers cs) \<longrightarrow>
          fin_ok st' (fin_after fin (events cs)) \<and>
          pending s @ messages fin (events cs) = concat (map frame_messages fs) @ pending s')))"
proof (induction cs arbitrary: st s)
  case Nil
  then show ?case by simp
next
  case (Cons c cs)
  obtain st1 where c: "accept_chunk st c = Some st1" and rest: "accept_chunks st1 cs = Some st'"
    using Cons.prems(2) by (auto split: option.splits)
  note dchk = convert_chunk_dcheck [OF Cons.prems(1) c]
  from convert_chunk_step [OF Cons.prems(1) c] show ?case
  proof
    assume bad: "bad_control (frame_of st c) \<and>
      (\<exists>s1. ConvertChunkToFrame c s = Some (Some ERR_WS_PROTOCOL_ERROR, None, s1))"
    moreover have "frame_of st c \<in> chunk_headers (c # cs) \<union> fst ` set_option st"
      by (rule accept_chunk_cases [OF c]) (auto simp: frame_of_def)
    ultimately show ?thesis using dchk by (auto intro: bexI)
  next
    assume "\<exists>fo s1. ConvertChunkToFrame c s = Some (None, fo, s1) \<and>
       bs_parser s1 = bs_parser s \<and> http_read_buffer s1 = http_read_buffer s \<and> stream_inv st1 s1 \<and>
       (known_opcode (frame_of st c) \<longrightarrow>
          pending s @ chunk_messages (frame_of st c) c =
            (case fo of Some f \<Rightarrow> frame_messages f | None \<Rightarrow> []) @ pending s1)"
    then obtain fo s1 where s1: "ConvertChunkToFrame c s = Some (None, fo, s1)" "bs_parser s1 = bs_parser s"
        "http_read_buffer s1 = http_read_buffer s" "stream_inv st1 s1"
      and msg: "known_opcode (frame_of st c) \<Longrightarrow>
          pending s @ chunk_messages (frame_of st c) c =
            (case fo of Some f \<Rightarrow> frame_messages f | None \<Rightarrow> []) @ pending s1" by blast
    have sub: "fst ` set_option st1 \<subseteq> chunk_headers (c # cs) \<union> fst ` set_option st"
      by (rule accept_chunk_cases [OF c]) (auto split: if_splits)
    from Cons.IH [OF s1(4) rest] consider
      (err) fs s' h where "convert_chunks cs s1 = Some (Some ERR_WS_PROTOCOL_ERROR, fs, s')" "bad_control h"
        "h \<in> chunk_headers cs \<union> fst ` set_option st1" "convert_dchecks cs s1"
      | (ok) fs s' where "convert_chunks cs s1 = Some (None, fs, s')" "bs_parser s' = bs_parser s1"
        "http_read_buffer s' = http_read_buffer s1" "stream_inv st' s'" "convert_dchecks cs s1"
        "\<forall>fin. fin_ok st1 fin \<longrightarrow> opcodes_ok st1 (chunk_headers cs) \<longrightarrow>
          fin_ok st' (fin_after fin (events cs)) \<and>
          pending s1 @ messages fin (events cs) = concat (map frame_messages fs) @ pending s'"
      by blast
    then show ?thesis
    proof cases
      case err
      then have "h \<in> chunk_headers (c # cs) \<union> fst ` set_option st" using sub by auto
      then show ?thesis using err s1 dchk by (auto intro: bexI)
    next
      case ok
      define frames where "frames = (case fo of Some f \<Rightarrow> [f] | None \<Rightarrow> [])"
      have "fin_ok st' (fin_after fin (events (c # cs))) \<and>
          pending s @ messages fin (events (c # cs)) = concat (map frame_messages (frames @ fs)) @ pending s'"
        if "fin_ok st fin" "opcodes_ok st (chunk_headers (c # cs))" for fin
      proof -
        note a = accept_chunk_fin [OF c that(1)]
        have o: "known_opcode (frame_of st c)" "opcodes_ok st1 (chunk_headers cs)"
          using a(4) [of "chunk_headers cs"] that(2) by simp_all
        have f: "concat (map frame_messages frames) = (case fo of Some f \<Rightarrow> frame_messages f | None \<Rightarrow> [])"
          by (simp add: frames_def split: option.split)
        show ?thesis
          using ok(6) [rule_format, OF a(1) o(2)] msg [OF o(1)] f
          by (simp add: messages_append fin_after_append a(3)) (metis append.assoc)
      qed
      moreover have "convert_chunks (c # cs) s = Some (None, frames @ fs, s')"
        using s1(1) ok(1) by (simp add: frames_def)
      ultimately show ?thesis using ok s1 dchk by auto
    qed
  qed
qed

text \<open>The state of a reader between two reads that reported no error.\<close>

definition reader_inv :: "web_socket_basic_stream \<Rightarrow> bool" where
  "reader_inv s \<longleftrightarrow>
     parser_inv (bs_parser s) \<and> current_read_pos (bs_parser s) = 0 \<and>
     stream_inv (open_frame (bs_parser s)) s"

lemma reader_inv_initial: "reader_inv (WebSocketBasicStream http)"
  by (simp add: reader_inv_def WebSocketBasicStream_def WebSocketFrameParser_def parser_inv_def
      stream_inv_def open_frame_def)

lemma stream_inv_frame [simp]:
  "stream_inv st (s\<lparr>bs_parser := q\<rparr>) = stream_inv st s"
  "stream_inv st (s\<lparr>http_read_buffer := b\<rparr>) = stream_inv st s"
  by (cases st; auto simp: stream_inv_def)+

lemma reader_inv_http [simp]: "reader_inv (s\<lparr>http_read_buffer := b\<rparr>) = reader_inv s"
  by (simp add: reader_inv_def)

lemma Decode_accepted:
  assumes inv: "parser_inv p" and pos: "current_read_pos p = 0" and d: "Decode pm addr d [] p = (ok, q, cs)"
  shows "\<exists>st. accept_chunks (open_frame p) cs = Some st \<and>
    (ok \<longrightarrow> st = open_frame q \<and> parser_inv q \<and> current_read_pos q = 0)"
    and "ok \<longleftrightarrow> websocket_error q = kWebSocketNormalClosure"
proof -
  have err: "websocket_error p = kWebSocketNormalClosure" using inv by (simp add: parser_inv_def)
  define p' where "p' = p\<lparr>p_buffer := p_buffer p @ d\<rparr>"
  have inv': "parser_inv p'" and open': "open_frame p' = open_frame p"
    using inv by (auto simp: p'_def parser_inv_def frame_open_ok_def open_frame_def split: option.splits)
  obtain ok' q' cs' where l: "Decode_loop pm addr p' = (ok', q', cs')" by (cases "Decode_loop pm addr p'")
  obtain st where st: "accept_chunks (open_frame p) cs' = Some st" "ok' \<longrightarrow> st = open_frame q'"
    using Decode_loop_accepted [OF inv' l] by (auto simp: open')
  have r: "ok' \<longleftrightarrow> websocket_error q' = kWebSocketNormalClosure" "ok' \<Longrightarrow> parser_inv q'"
    using Decode_loop_refines [OF inv', of pm addr] unfolding l by (auto simp: refines_def split: prod.splits if_splits)
  have "(\<exists>st. accept_chunks (open_frame p) cs = Some st \<and>
      (ok \<longrightarrow> st = open_frame q \<and> parser_inv q \<and> current_read_pos q = 0)) \<and>
      (ok \<longleftrightarrow> websocket_error q = kWebSocketNormalClosure)"
  proof (cases "d = []")
    case True
    then show ?thesis using d err inv pos by (auto simp: Decode_def)
  next
    case False
    then have dec: "ok = ok'" "cs = cs'"
      "q = (if ok' then q'\<lparr>p_buffer := drop (current_read_pos q') (p_buffer q'), current_read_pos := 0\<rparr> else q')"
      using d err l by (auto simp: Decode_def p'_def split: if_splits)
    then show ?thesis
      using st r by (auto simp: open_frame_def parser_inv_def frame_open_ok_def split: option.splits)
  qed
  then show "\<exists>st. accept_chunks (open_frame p) cs = Some st \<and>
      (ok \<longrightarrow> st = open_frame q \<and> parser_inv q \<and> current_read_pos q = 0)"
    "ok \<longleftrightarrow> websocket_error q = kWebSocketNormalClosure" by blast+
qed

text \<open>What the reader returns when it goes on.\<close>

definition goes_on :: "net_error option \<Rightarrow> bool" where
  "goes_on r \<longleftrightarrow> r = None \<or> r = Some ERR_IO_PENDING"

lemma decode_and_convert_safe:
  assumes inv: "reader_inv s"
  shows "\<exists>r fs s'. decode_and_convert pm addr d frames s = Some (r, fs, s') \<and>
    (goes_on r \<longrightarrow> reader_inv s' \<and> http_read_buffer s' = http_read_buffer s)"
proof -
  obtain ok q cs where d: "Decode pm addr d [] (bs_parser s) = (ok, q, cs)"
    by (cases "Decode pm addr d [] (bs_parser s)")
  have p: "parser_inv (bs_parser s)" "current_read_pos (bs_parser s) = 0"
    "stream_inv (open_frame (bs_parser s)) s" using inv by (auto simp: reader_inv_def)
  obtain st where st: "accept_chunks (open_frame (bs_parser s)) cs = Some st"
    "ok \<longrightarrow> st = open_frame q \<and> parser_inv q \<and> current_read_pos q = 0"
    using Decode_accepted(1) [OF p(1,2) d] by blast
  have okq: "ok \<longleftrightarrow> websocket_error q = kWebSocketNormalClosure" by (rule Decode_accepted(2) [OF p(1,2) d])
  define t where "t = s\<lparr>bs_parser := q\<rparr>"
  have t: "stream_inv (open_frame (bs_parser s)) t" "bs_parser t = q" "http_read_buffer t = http_read_buffer s"
    using p(3) by (simp_all add: t_def)
  show ?thesis
  proof (cases ok)
    case False
    then have "\<not> goes_on (WebSocketErrorToNetError (websocket_error q))"
      using okq by (cases "websocket_error q") (simp_all add: goes_on_def)
    then show ?thesis using False d by (simp add: decode_and_convert_def Let_def)
  next
    case True
    show ?thesis
    proof (cases "cs = []")
      case True
      then show ?thesis
        using \<open>ok\<close> d st t by (auto simp: decode_and_convert_def Let_def goes_on_def reader_inv_def t_def)
    next
      case False
      have "(\<exists>fs s'. convert_chunks cs t = Some (Some ERR_WS_PROTOCOL_ERROR, fs, s')) \<or>
          (\<exists>fs s'. convert_chunks cs t = Some (None, fs, s') \<and> bs_parser s' = bs_parser t \<and>
             http_read_buffer s' = http_read_buffer t \<and> stream_inv st s')"
        using convert_chunks_run [OF t(1) st(1)] by blast
      then show ?thesis
        using \<open>ok\<close> False d st(2) t
        by (auto simp: decode_and_convert_def Let_def ConvertChunksToFrames_def goes_on_def reader_inv_def
            simp flip: t_def)
    qed
  qed
qed

lemma HandleReadResult_safe:
  assumes "reader_inv s"
  shows "\<exists>r fs s'. HandleReadResult pm addr result frames s = Some (r, fs, s') \<and>
    (goes_on r \<longrightarrow> reader_inv s' \<and> http_read_buffer s' = http_read_buffer s)"
  using assms decode_and_convert_safe [OF assms]
  by (cases result) (auto simp: HandleReadResult_def goes_on_def)

lemma read_loop_safe:
  "reader_inv s \<Longrightarrow> \<exists>r fs s' rest. read_loop pm addr results frames s = Some (r, fs, s', rest) \<and>
    (goes_on r \<longrightarrow> reader_inv s' \<and> http_read_buffer s' = http_read_buffer s) \<and>
    (r \<noteq> Some ERR_IO_PENDING \<longrightarrow> length rest < length results)"
proof (induction results arbitrary: frames s)
  case Nil
  then show ?case by (simp add: goes_on_def)
next
  case (Cons result results)
  obtain r fs s' where h: "HandleReadResult pm addr result frames s = Some (r, fs, s')"
    "goes_on r \<longrightarrow> reader_inv s' \<and> http_read_buffer s' = http_read_buffer s"
    using HandleReadResult_safe [OF Cons.prems] by blast
  show ?case
  proof (cases "result = Inl ERR_IO_PENDING \<or> r \<noteq> Some ERR_IO_PENDING")
    case True
    then show ?thesis using h Cons.prems by (auto simp: goes_on_def)
  next
    case False
    then have "reader_inv s'" "http_read_buffer s' = http_read_buffer s" using h(2) by (auto simp: goes_on_def)
    then show ?thesis using Cons.IH [of s' fs] False h(1) by fastforce
  qed
qed

definition read_measure :: "read_result list \<Rightarrow> web_socket_basic_stream \<Rightarrow> nat" where
  "read_measure results s = 2 * length results + (if http_read_buffer s = None then 0 else 1)"

lemma ReadFrames_safe:
  assumes inv: "reader_inv s"
  shows "\<exists>r fs s' rest. ReadFrames pm addr results frames s = Some (r, fs, s', rest) \<and>
    (goes_on r \<longrightarrow> reader_inv s' \<and> http_read_buffer s' = None) \<and>
    (r = None \<longrightarrow> read_measure rest s' < read_measure results s)"
proof (cases "http_read_buffer s")
  case None
  then show ?thesis
    using read_loop_safe [OF inv, of pm addr results frames]
    by (fastforce simp: ReadFrames_def read_measure_def goes_on_def)
next
  case (Some b)
  define t where "t = s\<lparr>http_read_buffer := None\<rparr>"
  have t: "reader_inv t" "http_read_buffer t = None" using inv by (simp_all add: t_def)
  obtain r fs s' where d: "decode_and_convert pm addr b frames t = Some (r, fs, s')"
    "goes_on r \<longrightarrow> reader_inv s' \<and> http_read_buffer s' = None"
    using decode_and_convert_safe [OF t(1), of pm addr b frames] t(2) by auto
  show ?thesis
  proof (cases "r = Some ERR_IO_PENDING")
    case False
    then show ?thesis
      using d Some by (auto simp: ReadFrames_def read_measure_def goes_on_def simp flip: t_def)
  next
    case True
    then have "reader_inv s'" "http_read_buffer s' = None" using d(2) by (simp_all add: goes_on_def)
    then show ?thesis
      using read_loop_safe [of s' pm addr results fs] d(1) True Some
      by (fastforce simp: ReadFrames_def read_measure_def goes_on_def simp flip: t_def)
  qed
qed

section \<open>Delivery\<close>

text \<open>
  A receiver that calls \<open>ReadFrames\<close> with an empty vector until it is pending or fails, and
  collects the frames. Every call that returns frames uses up a read, so the fuel below is enough.
\<close>

fun read_all ::
    "packed_mask_type \<Rightarrow> (web_socket_frame_parser \<Rightarrow> nat) \<Rightarrow> nat \<Rightarrow> read_result list \<Rightarrow>
     web_socket_basic_stream \<Rightarrow> (net_error option \<times> web_socket_frame list \<times> web_socket_basic_stream) option" where
  "read_all pm addr 0 results s = None"
| "read_all pm addr (Suc fuel) results s =
     (case ReadFrames pm addr results [] s of
        None \<Rightarrow> None
      | Some (None, frames, s, results) \<Rightarrow>
          map_option (\<lambda>(r, fs, s). (r, frames @ fs, s)) (read_all pm addr fuel results s)
      | Some (Some e, frames, s, results) \<Rightarrow> Some (Some e, frames, s))"

lemma read_all_safe:
  "reader_inv s \<Longrightarrow> read_measure results s < fuel \<Longrightarrow> read_all pm addr fuel results s \<noteq> None"
proof (induction fuel arbitrary: results s)
  case (Suc fuel)
  obtain r fs s' rest where f: "ReadFrames pm addr results [] s = Some (r, fs, s', rest)"
    "goes_on r \<longrightarrow> reader_inv s' \<and> http_read_buffer s' = None"
    "r = None \<longrightarrow> read_measure rest s' < read_measure results s"
    using ReadFrames_safe [OF Suc.prems(1), of pm addr results "[]"] by blast
  show ?case
  proof (cases r)
    case None
    then have "read_all pm addr fuel rest s' \<noteq> None"
      using f(2,3) Suc.prems(2) by (intro Suc.IH) (simp_all add: goes_on_def)
    then show ?thesis using f(1) None by auto
  qed (use f(1) in simp)
qed simp

definition event_headers :: "frame_event list \<Rightarrow> web_socket_frame_header set" where
  "event_headers es = {h. FrameStart h \<in> set es}"

lemma event_headers_events: "event_headers (events cs) = chunk_headers cs"
  by (induction cs) (auto simp: event_headers_def chunk_events_def split: option.splits if_splits)

lemma accept_chunks_open:
  "accept_chunks st cs = Some st' \<Longrightarrow> fst ` set_option st' \<subseteq> chunk_headers cs \<union> fst ` set_option st"
proof (induction cs arbitrary: st)
  case (Cons c cs)
  obtain st1 where c: "accept_chunk st c = Some st1" and rest: "accept_chunks st1 cs = Some st'"
    using Cons.prems by (auto split: option.splits)
  have "fst ` set_option st1 \<subseteq> chunk_headers (c # cs) \<union> fst ` set_option st"
    by (rule accept_chunk_cases [OF c]) (auto split: if_splits)
  then show ?case using Cons.IH [OF rest] by auto
qed simp

lemma accept_chunks_append:
  "accept_chunks st (cs @ ds) = (case accept_chunks st cs of None \<Rightarrow> None | Some st \<Rightarrow> accept_chunks st ds)"
  by (induction cs arbitrary: st) (simp_all split: option.split)

text \<open>
  The reader after the bytes \<open>xs\<close>: \<open>cs\<close> are the chunks they gave and \<open>fs\<close> the frames returned.
\<close>

definition delivered ::
    "web_socket_basic_stream \<Rightarrow> uint8 list \<Rightarrow> web_socket_frame_chunk list \<Rightarrow> web_socket_frame list \<Rightarrow> bool" where
  "delivered s xs cs fs \<longleftrightarrow>
     follows (bs_parser s, cs) (scan Between xs) \<and> reader_inv s \<and> http_read_buffer s = None \<and>
     accept_chunks None cs = Some (open_frame (bs_parser s)) \<and>
     fin_ok (open_frame (bs_parser s)) (fin_after False (events cs)) \<and>
     messages False (events cs) = concat (map frame_messages fs) @ pending s"

definition good_headers :: "web_socket_frame_header set \<Rightarrow> bool" where
  "good_headers H \<longleftrightarrow> (\<forall>h \<in> H. known_opcode h \<and> \<not> bad_control h)"

text \<open>A stream whose scan ends without an error, with good headers only.\<close>

definition good_stream :: "uint8 list \<Rightarrow> bool" where
  "good_stream xs \<longleftrightarrow>
     (case scan Between xs of (es, st, left, e) \<Rightarrow>
        e = kWebSocketNormalClosure \<and> good_headers (event_headers es))"

lemma good_stream_prefix:
  assumes "good_stream (xs @ ys)"
  shows "good_stream xs"
proof -
  obtain es st left e where s: "scan Between xs = (es, st, left, e)" by (cases "scan Between xs") auto
  obtain es' st' left' e' where s': "scan st (left @ ys) = (es', st', left', e')"
    by (cases "scan st (left @ ys)") auto
  show ?thesis
  proof (cases "e = kWebSocketNormalClosure")
    case True
    then have "scan Between (xs @ ys) = (es @ es', st', left', e')" by (simp add: scan_append [of Between xs ys] scan_on_def s s')
    then show ?thesis using assms True s by (auto simp: good_stream_def good_headers_def event_headers_def)
  next
    case False
    then show ?thesis using assms s by (simp add: good_stream_def scan_append scan_on_def)
  qed
qed

lemma Decode_chunks: "Decode pm addr d cs p =
    (case Decode pm addr d [] p of (ok, q, new) \<Rightarrow> (ok, q, cs @ new))"
  by (auto simp: Decode_def split: prod.splits)

lemma decode_and_convert_delivers:
  assumes del: "delivered s xs cs fs" and good: "good_stream (xs @ d)"
  shows "\<exists>r new s' cs'. decode_and_convert pm addr d [] s = Some (r, new, s') \<and>
    r = (if new = [] then Some ERR_IO_PENDING else None) \<and> delivered s' (xs @ d) cs' (fs @ new)"
proof -
  obtain ok q new where d: "Decode pm addr d [] (bs_parser s) = (ok, q, new)"
    by (cases "Decode pm addr d [] (bs_parser s)")
  have p: "parser_inv (bs_parser s)" "current_read_pos (bs_parser s) = 0"
    "stream_inv (open_frame (bs_parser s)) s" "http_read_buffer s = None"
    using del by (auto simp: delivered_def reader_inv_def)
  have fol: "follows (q, cs @ new) (scan Between (xs @ d))"
    and okq: "ok \<longleftrightarrow> websocket_error q = kWebSocketNormalClosure"
    using Decode_follows [of "bs_parser s" cs xs pm addr d ok q "cs @ new"] del d
    by (auto simp: Decode_chunks [of _ _ _ cs] delivered_def)
  obtain es st0 left where sc: "scan Between (xs @ d) = (es, st0, left, kWebSocketNormalClosure)"
    "good_headers (event_headers es)" using good by (auto simp: good_stream_def split: prod.splits)
  have ok: "ok" and ev: "events (cs @ new) = es" using fol okq sc(1) by (auto simp: follows_def)
  have H: "good_headers (chunk_headers (cs @ new))" using sc(2) ev event_headers_events by metis
  obtain st where st: "accept_chunks (open_frame (bs_parser s)) new = Some st"
    "st = open_frame q" "parser_inv q" "current_read_pos q = 0"
    using Decode_accepted(1) [OF p(1,2) d] ok by blast
  define t where "t = s\<lparr>bs_parser := q\<rparr>"
  have t: "stream_inv (open_frame (bs_parser s)) t" "bs_parser t = q" "http_read_buffer t = None"
    "pending t = pending s" using p(3,4) by (simp_all add: t_def pending_def cong: option.case_cong)
  have opn: "fst ` set_option (open_frame (bs_parser s)) \<subseteq> chunk_headers cs"
    using accept_chunks_open [of None cs] del by (auto simp: delivered_def)
  have nobad: "\<not> (\<exists>h \<in> chunk_headers new \<union> fst ` set_option (open_frame (bs_parser s)). bad_control h)"
    and known: "opcodes_ok (open_frame (bs_parser s)) (chunk_headers new)"
    using H opn by (auto simp: good_headers_def opcodes_ok_def)
  have fin: "fin_ok (open_frame (bs_parser s)) (fin_after False (events cs))" using del by (simp add: delivered_def)
  obtain gs s' where c: "convert_chunks new t = Some (None, gs, s')" "bs_parser s' = bs_parser t"
    "http_read_buffer s' = http_read_buffer t" "stream_inv st s'"
    "fin_ok st (fin_after (fin_after False (events cs)) (events new)) \<and>
     pending t @ messages (fin_after False (events cs)) (events new) = concat (map frame_messages gs) @ pending s'"
    using convert_chunks_run [OF t(1) st(1)] nobad known fin by blast
  have "delivered s' (xs @ d) (cs @ new) (fs @ gs)"
    using fol c(2-5) st del t(2-4)
    by (auto simp: delivered_def reader_inv_def accept_chunks_append fin_after_append messages_append)
  moreover have "decode_and_convert pm addr d [] s = Some (if gs = [] then Some ERR_IO_PENDING else None, gs, s')"
    using d ok c(1) by (cases "new = []")
      (auto simp: decode_and_convert_def Let_def ConvertChunksToFrames_def simp flip: t_def)
  ultimately show ?thesis by blast
qed

lemma read_loop_delivers:
  "delivered s xs cs fs \<Longrightarrow> \<forall>d \<in> set ds. d \<noteq> [] \<Longrightarrow> good_stream (xs @ concat ds) \<Longrightarrow>
   \<exists>r new s' cs' ds1 ds2. read_loop pm addr (map Inr ds) [] s = Some (r, new, s', map Inr ds2) \<and>
     ds = ds1 @ ds2 \<and> delivered s' (xs @ concat ds1) cs' (fs @ new) \<and>
     (r = None \<and> ds1 \<noteq> [] \<or> r = Some ERR_IO_PENDING \<and> new = [] \<and> ds2 = [])"
proof (induction ds arbitrary: s xs cs)
  case Nil
  then show ?case by auto
next
  case (Cons d ds)
  have good: "good_stream (xs @ d)" "good_stream ((xs @ d) @ concat ds)"
    using Cons.prems(3) good_stream_prefix [of "xs @ d" "concat ds"] by simp_all
  obtain r new s' cs' where h: "decode_and_convert pm addr d [] s = Some (r, new, s')"
    "r = (if new = [] then Some ERR_IO_PENDING else None)" "delivered s' (xs @ d) cs' (fs @ new)"
    using decode_and_convert_delivers [OF Cons.prems(1) good(1), of pm addr] by blast
  have handle: "HandleReadResult pm addr (Inr d) [] s = Some (r, new, s')"
    using h(1) Cons.prems(2) by (simp add: HandleReadResult_def)
  show ?case
  proof (cases "new = []")
    case False
    then show ?thesis
      using handle h(2,3) by (intro exI [of _ r] exI [of _ new] exI [of _ s'] exI [of _ cs'] exI [of _ "[d]"] exI [of _ ds]) simp
  next
    case True
    then have del: "delivered s' (xs @ d) cs' fs" using h(3) by simp
    have ne: "\<forall>d \<in> set ds. d \<noteq> []" using Cons.prems(2) by simp
    from Cons.IH [OF del ne good(2)]
    obtain r' new' s'' cs'' ds1 ds2 where l: "read_loop pm addr (map Inr ds) [] s' = Some (r', new', s'', map Inr ds2)"
      "ds = ds1 @ ds2" "delivered s'' ((xs @ d) @ concat ds1) cs'' (fs @ new')"
      "r' = None \<and> ds1 \<noteq> [] \<or> r' = Some ERR_IO_PENDING \<and> new' = [] \<and> ds2 = []" by blast
    then show ?thesis
      using handle h(2) True
      by (intro exI [of _ r'] exI [of _ new'] exI [of _ s''] exI [of _ cs''] exI [of _ "d # ds1"] exI [of _ ds2]) auto
  qed
qed

lemma read_all_delivers:
  "delivered s xs cs fs \<Longrightarrow> \<forall>d \<in> set ds. d \<noteq> [] \<Longrightarrow> good_stream (xs @ concat ds) \<Longrightarrow> length ds < fuel \<Longrightarrow>
   \<exists>new s' cs'. read_all pm addr fuel (map Inr ds) s = Some (Some ERR_IO_PENDING, new, s') \<and>
     delivered s' (xs @ concat ds) cs' (fs @ new)"
proof (induction fuel arbitrary: s xs cs fs ds)
  case (Suc fuel)
  have rf: "ReadFrames pm addr (map Inr ds) [] s = read_loop pm addr (map Inr ds) [] s"
    using Suc.prems(1) by (simp add: ReadFrames_def delivered_def)
  obtain r new s' cs' ds1 ds2 where l: "read_loop pm addr (map Inr ds) [] s = Some (r, new, s', map Inr ds2)"
    "ds = ds1 @ ds2" "delivered s' (xs @ concat ds1) cs' (fs @ new)"
    "r = None \<and> ds1 \<noteq> [] \<or> r = Some ERR_IO_PENDING \<and> new = [] \<and> ds2 = []"
    using read_loop_delivers [OF Suc.prems(1-3), of pm addr] by blast
  show ?case
  proof (cases "r = None")
    case True
    have "\<forall>d \<in> set ds2. d \<noteq> []" "good_stream ((xs @ concat ds1) @ concat ds2)" "length ds2 < fuel"
      using Suc.prems(2-4) l(2,4) True by (auto simp: neq_Nil_conv)
    from Suc.IH [OF l(3) this]
    obtain new' s'' cs'' where "read_all pm addr fuel (map Inr ds2) s' = Some (Some ERR_IO_PENDING, new', s'')"
      "delivered s'' ((xs @ concat ds1) @ concat ds2) cs'' ((fs @ new) @ new')" by blast
    then show ?thesis using rf l(1,2) True by auto
  next
    case False
    then show ?thesis using rf l by auto
  qed
qed simp

lemma delivered_initial: "delivered (WebSocketBasicStream None) [] [] []"
  using follows_initial reader_inv_initial [of None]
  by (simp add: delivered_def WebSocketBasicStream_def open_frame_def WebSocketFrameParser_def fin_ok_def pending_def)

lemma read_all_messages:
  assumes "\<forall>d \<in> set ds. d \<noteq> []" and "good_stream (concat ds)"
  shows "\<exists>fs s. read_all pm addr (length ds + 1) (map Inr ds) (WebSocketBasicStream None) =
      Some (Some ERR_IO_PENDING, fs, s) \<and>
    concat (map frame_messages fs) @ pending s = messages False (fst (scan Between (concat ds)))"
proof -
  obtain fs s cs where r: "read_all pm addr (length ds + 1) (map Inr ds) (WebSocketBasicStream None) =
      Some (Some ERR_IO_PENDING, fs, s)" "delivered s (concat ds) cs fs"
    using read_all_delivers [OF delivered_initial assms(1), of "length ds + 1" pm addr] assms(2) by auto
  then have "events cs = fst (scan Between (concat ds))"
    by (cases "scan Between (concat ds)") (auto simp: delivered_def follows_def)
  then show ?thesis using r by (auto simp: delivered_def)
qed

lemma messages_frames:
  "messages fin (concat (map (\<lambda>f. frame_events (frame_header (mask_on f)) (payload_of f)) fs)) =
     concat (map frame_messages fs)"
proof (induction fs arbitrary: fin)
  case (Cons f fs)
  have "message_start (frame_header (mask_on f)) = message_start (frame_header f)"
    "final (frame_header (mask_on f)) = final (frame_header f)"
    by (simp_all add: mask_on_def message_start_def)
  then show ?case
    using Cons.IH [of "final (frame_header f)"] by (simp add: frame_events_def frame_messages_def messages_bytes)
qed simp

section \<open>Properties\<close>

text \<open>[C34]
  Whatever bytes the peer sends, whatever errors the socket reports and whatever was left over
  from the handshake, reading never fails a \<open>CHECK\<close> nor uses a null frame header, and the receiver
  gets to a pending or failed read after finitely many calls.
\<close>

theorem reader_never_aborts:
  "read_all pm addr (2 * length results + 2) results (WebSocketBasicStream http) \<noteq> None"
  by (rule read_all_safe [OF reader_inv_initial]) (simp add: read_measure_def)

text \<open>
  The assertions of the reassembly hold for all chunks the parser can produce: a header comes
  exactly when no frame is open, chunk sizes fit the payload length, and a control frame put
  together from its parts has its announced length.
\<close>

theorem reassembly_assertions_hold:
  assumes "reader_inv s" and "Decode pm addr d [] (bs_parser s) = (ok, q, cs)"
  shows "convert_dchecks cs (s\<lparr>bs_parser := q\<rparr>)"
proof -
  have p: "parser_inv (bs_parser s)" "current_read_pos (bs_parser s) = 0"
    "stream_inv (open_frame (bs_parser s)) (s\<lparr>bs_parser := q\<rparr>)" using assms(1) by (auto simp: reader_inv_def)
  obtain st where "accept_chunks (open_frame (bs_parser s)) cs = Some st"
    using Decode_accepted(1) [OF p(1,2) assms(2)] by blast
  then show ?thesis using convert_chunks_run [OF p(3)] by blast
qed

text \<open>An example: a ping whose payload arrives in two reads; the second read gives a final chunk.\<close>

definition ping_header :: web_socket_frame_header where
  "ping_header = (WebSocketFrameHeader 0x9)\<lparr>final := True, payload_length := 2\<rparr>"

definition half_ping :: "web_socket_basic_stream" where
  "half_ping = (WebSocketBasicStream None)
     \<lparr>bs_current_frame_header := Some ping_header, incomplete_control_frame_body := Some [7],
      bs_parser := WebSocketFrameParser\<lparr>current_frame_header := Some ping_header, p_frame_offset := 1\<rparr>\<rparr>"

lemma reassembly_assertions_hold_witness:
  "convert_dchecks [\<lparr>chunk_header = None, final_chunk = True, chunk_data = Some [8]\<rparr>]
     (half_ping\<lparr>bs_parser := WebSocketFrameParser\<rparr>)"
proof -
  have d: "Decode SizeT64 (\<lambda>_. 0) [8] [] (bs_parser half_ping) =
      (True, WebSocketFrameParser, [\<lparr>chunk_header = None, final_chunk = True, chunk_data = Some [8]\<rparr>])"
    by code_simp
  have "reader_inv half_ping"
    by (simp add: reader_inv_def half_ping_def ping_header_def WebSocketBasicStream_def WebSocketFrameParser_def
        WebSocketFrameHeader_def parser_inv_def frame_open_ok_def stream_inv_def open_frame_def
        IsKnownControlOpCode_def kMaskingKeyLength_def)
  from reassembly_assertions_hold [OF this d] show ?thesis .
qed

text \<open>[C20]
  Lossless reassembly: for a stream with known opcodes and proper control frames, cut into reads
  in any way, the frames returned to the receiver carry exactly the messages on the wire (their
  opcode and reserved bits once, at their start, their bytes in order, and their end), up to a
  control frame that is still incomplete.
\<close>

theorem reader_delivers_messages:
  assumes "\<forall>d \<in> set ds. d \<noteq> []" and "good_stream (concat ds)"
  shows "\<exists>fs s. read_all pm addr (length ds + 1) (map Inr ds) (WebSocketBasicStream None) =
      Some (Some ERR_IO_PENDING, fs, s) \<and>
    concat (map frame_messages fs) @ pending s = messages False (fst (scan Between (concat ds)))"
  by (rule read_all_messages [OF assms])

text \<open>[C20] witness: a text message cut inside its payload, with a ping in between two of its frames.\<close>

lemma reader_delivers_messages_witness:
  "\<exists>fs s. read_all SizeT64 (\<lambda>_. 0) 4 (map Inr [[0x01, 2, 65], [66, 0x89, 0], [0x80, 1, 67]])
       (WebSocketBasicStream None) = Some (Some ERR_IO_PENDING, fs, s) \<and>
    concat (map frame_messages fs) @ pending s =
      [MessageStart 1 False False False, MessageByte 65, MessageByte 66,
       MessageStart 9 False False False, MessageEnd, MessageByte 67, MessageEnd]"
proof -
  let ?ds = "[[0x01, 2, 65], [66, 0x89, 0], [0x80, 1, 67]] :: uint8 list list"
  have s: "scan Between (concat ?ds) =
      ([FrameStart \<lparr>final = False, reserved1 = False, reserved2 = False, reserved3 = False, opcode = 1,
          masked = False, payload_length = 2\<rparr>, PayloadByte 65, PayloadByte 66, FrameEnd,
        FrameStart \<lparr>final = True, reserved1 = False, reserved2 = False, reserved3 = False, opcode = 9,
          masked = False, payload_length = 0\<rparr>, FrameEnd,
        FrameStart \<lparr>final = True, reserved1 = False, reserved2 = False, reserved3 = False, opcode = 0,
          masked = False, payload_length = 1\<rparr>, PayloadByte 67, FrameEnd],
       Between, [], kWebSocketNormalClosure)" by code_simp
  have g: "good_stream (concat ?ds)"
    unfolding good_stream_def s
    by (simp add: good_headers_def event_headers_def known_opcode_def bad_control_def IsKnownDataOpCode_def
        IsKnownControlOpCode_def kMaxControlFramePayload_def)
  show ?thesis
    using reader_delivers_messages [OF _ g, of SizeT64 "\<lambda>_. 0"] unfolding s
    by (simp add: message_start_def kOpCodeContinuation_def numeral_eq_Suc)
qed

text \<open>[C4]
  What one end writes, the other end receives: the frames given to \<open>WriteFrames\<close> are serialised
  without failing a \<open>CHECK\<close>, and a reader to which the socket gives these bytes in any pieces
  returns frames that carry the same messages, with nothing pending.
\<close>

theorem written_frames_are_received:
  assumes "\<forall>f \<in> set fs. frame_ok f" and "length keys = length fs" and "\<forall>k \<in> set keys. length k = 4"
    and "sum_list (map frame_wire_size fs) < 2 ^ 31"
    and "good_headers ((\<lambda>f. frame_header (mask_on f)) ` set fs)"
  shows "\<exists>buffer. WriteFrames pm addr keys [] fs =
      Some (if buffer = [] then None else Some ERR_IO_PENDING, buffer, []) \<and>
    (\<forall>ds. concat ds = buffer \<and> [] \<notin> set ds \<longrightarrow>
      (\<exists>fs' s. read_all pm' addr' (length ds + 1) (map Inr ds) (WebSocketBasicStream None) =
         Some (Some ERR_IO_PENDING, fs', s) \<and>
       concat (map frame_messages fs') @ pending s = concat (map frame_messages fs)))"
proof (rule exI [of _ "wire keys fs"], intro conjI allI impI)
  let ?n = "sum_list (map frame_wire_size fs)"
  have "CalculateSerializedSizeAndTurnOnMaskBit fs = Some (?n, map mask_on fs)"
    using calculate_size_eq [OF assms(1), of 0] assms(4)
    by (simp add: CalculateSerializedSizeAndTurnOnMaskBit_def unat_of_nat)
  moreover have "write_loop pm addr keys (map mask_on fs) [] (replicate ?n 0) = Some (wire keys fs, [])"
    using write_loop_eq [OF assms(2,3,1), of "replicate ?n 0" pm addr "[]"] by simp
  ultimately show "WriteFrames pm addr keys [] fs =
      Some (if wire keys fs = [] then None else Some ERR_IO_PENDING, wire keys fs, [])"
    by (simp add: WriteFrames_def)
  fix ds
  assume ds: "concat ds = wire keys fs \<and> [] \<notin> set ds"
  note sc = scan_wire [OF assms(2,3,1,4)]
  have good: "good_stream (wire keys fs)"
    using assms(5) by (auto simp: good_stream_def sc good_headers_def event_headers_def frame_events_def)
  show "\<exists>fs' s. read_all pm' addr' (length ds + 1) (map Inr ds) (WebSocketBasicStream None) =
         Some (Some ERR_IO_PENDING, fs', s) \<and>
       concat (map frame_messages fs') @ pending s = concat (map frame_messages fs)"
    using read_all_messages [of ds pm' addr'] good ds by (auto simp: sc messages_frames)
qed

text \<open>[C4] witness: a text frame and a ping.\<close>

definition hello_frames :: "web_socket_frame list" where
  "hello_frames =
     [\<lparr>frame_header = (WebSocketFrameHeader 1)\<lparr>final := True, payload_length := 2\<rparr>, frame_data = Some [72, 105]\<rparr>,
      \<lparr>frame_header = (WebSocketFrameHeader 9)\<lparr>final := True\<rparr>, frame_data = None\<rparr>]"

lemma written_frames_are_received_witness:
  "\<exists>buffer. WriteFrames Vector16 5 [[1, 2, 3, 4], [5, 6, 7, 8]] [] hello_frames =
      Some (if buffer = [] then None else Some ERR_IO_PENDING, buffer, []) \<and>
    (\<forall>ds. concat ds = buffer \<and> [] \<notin> set ds \<longrightarrow>
      (\<exists>fs' s. read_all SizeT32 (\<lambda>_. 1) (length ds + 1) (map Inr ds) (WebSocketBasicStream None) =
         Some (Some ERR_IO_PENDING, fs', s) \<and>
       concat (map frame_messages fs') @ pending s =
         [MessageStart 1 False False False, MessageByte 72, MessageByte 105, MessageEnd,
          MessageStart 9 False False False, MessageEnd]))"
proof -
  have m: "concat (map frame_messages hello_frames) =
      [MessageStart 1 False False False, MessageByte 72, MessageByte 105, MessageEnd,
       MessageStart 9 False False False, MessageEnd]" by code_simp
  have "\<forall>f \<in> set hello_frames. frame_ok f" by code_simp
  moreover have "sum_list (map frame_wire_size hello_frames) = 14" by code_simp
  moreover have "good_headers ((\<lambda>f. frame_header (mask_on f)) ` set hello_frames)" by code_simp
  moreover have "length [[1, 2, 3, 4], [5, 6, 7, 8 :: uint8]] = length hello_frames"
    by (simp add: hello_frames_def)
  ultimately show ?thesis
    using written_frames_are_received [of hello_frames "[[1, 2, 3, 4], [5, 6, 7, 8]]" Vector16 5 SizeT32 "\<lambda>_. 1"]
    unfolding m by simp
qed

end
