(* ===== verification/WebSocket_Channel_Correct.thy ===== *)
theory WebSocket_Channel_Correct
  imports WebSocket_Channel WebSocket_Basic_Stream_Correct
begin

text \<open>
  Correctness of \<open>WebSocketChannel\<close> for every renderer that keeps to the documented protocol and every
  stream that keeps its contract: no assertion fails; the renderer gets the messages of the server,
  text as UTF-8, within the quota it has granted; nothing is sent after a Close frame; and the
  renderer is told of the end once.
\<close>

section \<open>Messages\<close>

text \<open>
  The data frames a channel receives and those it gives to the renderer are cut differently. Both
  are fragments of messages; this is their assembly: the complete messages and the open one.
\<close>

type_synonym fragment = "int \<times> bool \<times> uint8 list"
type_synonym assembly = "(int \<times> uint8 list) list \<times> (int \<times> uint8 list) option"

fun add_fragment :: "fragment \<Rightarrow> assembly \<Rightarrow> assembly option" where
  "add_fragment (op, fin, bs) (done, None) =
     (if op = kOpCodeContinuation then None
      else Some (if fin then (done @ [(op, bs)], None) else (done, Some (op, bs))))"
| "add_fragment (op, fin, bs) (done, Some (op0, bs0)) =
     (if op \<noteq> kOpCodeContinuation then None
      else Some (if fin then (done @ [(op0, bs0 @ bs)], None) else (done, Some (op0, bs0 @ bs))))"

fun add_fragments :: "fragment list \<Rightarrow> assembly \<Rightarrow> assembly option" where
  "add_fragments [] a = Some a"
| "add_fragments (f # fs) a = Option.bind (add_fragment f a) (add_fragments fs)"

definition assemble :: "fragment list \<Rightarrow> assembly option" where
  "assemble fs = add_fragments fs ([], None)"

lemma assemble_nil [simp]: "assemble [] = Some ([], None)"
  by (simp add: assemble_def)

lemma add_fragments_append: "add_fragments (fs @ gs) a = Option.bind (add_fragments fs a) (add_fragments gs)"
  by (induction fs arbitrary: a) (auto split: bind_splits)

lemma assemble_append: "assemble (fs @ gs) = Option.bind (assemble fs) (add_fragments gs)"
  by (simp add: assemble_def add_fragments_append)

text \<open>Cutting a fragment in two changes nothing.\<close>

lemma add_fragments_cut:
  "add_fragments ((op, False, a) # (kOpCodeContinuation, fin, b) # fs) s = add_fragments ((op, fin, a @ b) # fs) s"
  by (cases s; cases "snd s") auto

lemma assemble_cut:
  "assemble (fs @ (op, False, a) # (kOpCodeContinuation, fin, b) # gs) = assemble (fs @ (op, fin, a @ b) # gs)"
  unfolding assemble_append by (rule arg_cong [where f = "Option.bind (assemble fs)"], rule ext, rule add_fragments_cut)

text \<open>
  Complete text messages are UTF-8, and the open one can become so.
\<close>

definition utf8_prefix :: "uint8 list \<Rightarrow> bool" where
  "utf8_prefix bs \<longleftrightarrow> (\<exists>rest. valid_utf8 (bs @ rest))"

definition texts_valid :: "assembly \<Rightarrow> bool" where
  "texts_valid a \<longleftrightarrow>
     (\<forall>bs. (kOpCodeText, bs) \<in> set (fst a) \<longrightarrow> valid_utf8 bs) \<and>
     (\<forall>bs. snd a = Some (kOpCodeText, bs) \<longrightarrow> utf8_prefix bs)"

lemma utf8_prefix_append: "utf8_prefix (bs @ cs) \<Longrightarrow> utf8_prefix bs"
  unfolding utf8_prefix_def append_assoc by blast

lemma valid_utf8_prefix: "valid_utf8 (bs @ cs) \<Longrightarrow> utf8_prefix bs"
  by (auto simp: utf8_prefix_def)

lemma texts_valid_before:
  "add_fragment f a = Some b \<Longrightarrow> texts_valid b \<Longrightarrow> texts_valid a \<and> (\<exists>ms. fst b = fst a @ ms)"
  by (cases a; cases f; cases "snd a")
    (auto simp: texts_valid_def split: if_splits, metis valid_utf8_prefix, metis utf8_prefix_append)

lemma texts_valid_prefix:
  "add_fragments fs a = Some b \<Longrightarrow> texts_valid b \<Longrightarrow> texts_valid a \<and> (\<exists>ms. fst b = fst a @ ms)"
proof (induction fs arbitrary: a)
  case (Cons f fs)
  then obtain a' where a': "add_fragment f a = Some a'" "add_fragments fs a' = Some b"
    by (cases "add_fragment f a") auto
  from Cons.IH [OF this(2) Cons.prems(2)] obtain ms where "texts_valid a'" "fst b = fst a' @ ms" by blast
  then show ?case using texts_valid_before [OF a'(1)] by auto
qed simp

lemma assemble_prefix:
  assumes "assemble (fs @ gs) = Some b" and "texts_valid b"
  obtains a ms where "assemble fs = Some a" and "texts_valid a" and "fst b = fst a @ ms"
proof (cases "assemble fs")
  case None
  then show ?thesis using assms(1) by (simp add: assemble_append)
next
  case (Some a)
  then have "add_fragments gs a = Some b" using assms(1) by (simp add: assemble_append)
  from texts_valid_prefix [OF this assms(2)] show ?thesis using Some that by blast
qed

section \<open>What the log says\<close>

definition forwarded_by :: "channel_effect \<Rightarrow> fragment list" where
  "forwarded_by e = (case e of Event (OnDataFrame fin op bs) \<Rightarrow> [(op, fin, bs)] | _ \<Rightarrow> [])"

definition frames_read_by :: "channel_effect \<Rightarrow> web_socket_frame list" where
  "frames_read_by e =
     (case e of StreamRead (None, fs) \<Rightarrow> fs | StreamReadDone (None, fs) \<Rightarrow> fs | _ \<Rightarrow> [])"

definition sent_by :: "channel_effect \<Rightarrow> web_socket_frame list" where
  "sent_by e = (case e of StreamWrite fs \<Rightarrow> fs | _ \<Rightarrow> [])"

definition granted_by :: "channel_effect \<Rightarrow> int" where
  "granted_by e = (case e of Event (OnFlowControl quota) \<Rightarrow> quota | _ \<Rightarrow> 0)"

text \<open>
  The fragments given to the renderer, the frames of all reads that returned \<open>OK\<close>, the frames sent, and the
  quota granted to the renderer.
\<close>

definition forwarded :: "channel_effect list \<Rightarrow> fragment list" where
  "forwarded l = concat (map forwarded_by (rev l))"

definition frames_read :: "channel_effect list \<Rightarrow> web_socket_frame list" where
  "frames_read l = concat (map frames_read_by (rev l))"

definition sent :: "channel_effect list \<Rightarrow> web_socket_frame list" where
  "sent l = concat (map sent_by (rev l))"

definition granted :: "channel_effect list \<Rightarrow> int" where
  "granted l = sum_list (map granted_by l)"

text \<open>The last words to the renderer.\<close>

definition final_event :: "channel_effect \<Rightarrow> bool" where
  "final_event e =
     (case e of Event (OnDropChannel was_clean code reason) \<Rightarrow> True | Event (OnFailChannel m) \<Rightarrow> True | _ \<Rightarrow> False)"

definition calm :: "channel_effect list \<Rightarrow> bool" where
  "calm l \<longleftrightarrow> (\<forall>e \<in> set l. \<not> final_event e)"

lemma log_simps [simp]:
  "forwarded [] = []" "frames_read [] = []" "sent [] = []" "granted [] = 0" "calm []"
  "forwarded (e # l) = forwarded l @ forwarded_by e"
  "frames_read (e # l) = frames_read l @ frames_read_by e"
  "sent (e # l) = sent l @ sent_by e"
  "granted (e # l) = granted l + granted_by e"
  "calm (e # l) \<longleftrightarrow> calm l \<and> \<not> final_event e"
  by (auto simp: forwarded_def frames_read_def sent_def granted_def calm_def)

lemma event_simps [simp]:
  "forwarded_by (Event e) = (case e of OnDataFrame fin op bs \<Rightarrow> [(op, fin, bs)] | _ \<Rightarrow> [])"
  "forwarded_by (StreamRead r) = []" "forwarded_by (StreamReadDone r) = []" "forwarded_by StreamClose = []"
  "forwarded_by (StreamWrite fs) = []" "forwarded_by (StreamCreate url ps origin) = []"
  "frames_read_by (Event e) = []" "frames_read_by StreamClose = []" "frames_read_by (StreamWrite fs) = []"
  "frames_read_by (StreamRead r) = (if fst r = None then snd r else [])"
  "frames_read_by (StreamReadDone r) = (if fst r = None then snd r else [])"
  "frames_read_by (StreamCreate url ps origin) = []"
  "sent_by (Event e) = []" "sent_by (StreamRead r) = []" "sent_by (StreamReadDone r) = []" "sent_by StreamClose = []"
  "sent_by (StreamWrite fs) = fs" "sent_by (StreamCreate url ps origin) = []"
  "granted_by (Event e) = (case e of OnFlowControl quota \<Rightarrow> quota | _ \<Rightarrow> 0)"
  "granted_by (StreamRead r) = 0" "granted_by (StreamReadDone r) = 0" "granted_by StreamClose = 0"
  "granted_by (StreamWrite fs) = 0" "granted_by (StreamCreate url ps origin) = 0"
  "final_event (Event (OnDropChannel was_clean code reason))" "final_event (Event (OnFailChannel m))"
  "\<not> final_event (StreamRead r)" "\<not> final_event (StreamReadDone r)" "\<not> final_event StreamClose"
  "\<not> final_event (StreamWrite fs)" "\<not> final_event (StreamCreate url ps origin)"
  by (simp_all add: forwarded_by_def frames_read_by_def sent_by_def granted_by_def final_event_def
      split: channel_event.split prod.split option.split)

lemma other_events [simp]:
  "\<not> final_event (Event (OnAddChannelResponse p x))" "\<not> final_event (Event (OnDataFrame fin op bs))"
  "\<not> final_event (Event (OnFlowControl q))" "\<not> final_event (Event OnClosingHandshake)"
  "\<not> final_event (Event (OnStartOpeningHandshake i))" "\<not> final_event (Event (OnFinishOpeningHandshake i))"
  "\<not> final_event (Event (OnSSLCertificateError k url i b))"
  by (simp_all add: final_event_def)

section \<open>Outcomes\<close>

text \<open>
  A call returns; where the channel is still there \<open>P\<close> holds, and where it has been deleted \<open>Q\<close>.
\<close>

definition post :: "(web_socket_channel \<Rightarrow> bool) \<Rightarrow> (web_socket_channel \<Rightarrow> bool) \<Rightarrow> outcome \<Rightarrow> bool" where
  "post P Q m \<longleftrightarrow>
     (case m of None \<Rightarrow> False | Some (CHANNEL_ALIVE, c) \<Rightarrow> P c | Some (CHANNEL_DELETED, c) \<Rightarrow> Q c)"

lemma post_simps [simp]:
  "post P Q (Some (CHANNEL_ALIVE, c)) = P c" "post P Q (Some (CHANNEL_DELETED, c)) = Q c" "\<not> post P Q None"
  "post P Q (Some (if b then CHANNEL_DELETED else CHANNEL_ALIVE, c)) = (if b then Q c else P c)"
  by (simp_all add: post_def)

lemma DCHECK_simps [simp]: "DCHECK True m = m" "DCHECK False m = None"
  by (simp_all add: DCHECK_def)

lemma post_cases:
  assumes "post P Q m"
  obtains c where "m = Some (CHANNEL_ALIVE, c)" and "P c" | c where "m = Some (CHANNEL_DELETED, c)" and "Q c"
  using assms by (auto simp: post_def split: option.splits prod.splits channel_state.splits)

lemma post_then:
  assumes "post P Q m" and "\<And>c. P c \<Longrightarrow> post P' Q (f c)"
  shows "post P' Q (then_alive m f)"
  using assms(1) by (cases rule: post_cases) (simp_all add: then_alive_def assms(2))

lemma then_alive_simps [simp]:
  "then_alive (Some (CHANNEL_ALIVE, c)) f = f c" "then_alive (Some (CHANNEL_DELETED, c)) f = Some (CHANNEL_DELETED, c)"
  by (simp_all add: then_alive_def)

lemma post_mono: "post P Q m \<Longrightarrow> (\<And>c. P c \<Longrightarrow> P' c) \<Longrightarrow> (\<And>c. Q c \<Longrightarrow> Q' c) \<Longrightarrow> post P' Q' m"
  by (erule post_cases) simp_all

lemma post_notify:
  "post P Q (notify env e c) \<longleftrightarrow>
     (let c = log_action (Event e) c in if deletes env e c then Q c else P c)"
  by (simp add: notify_def Let_def)

text \<open>
  The contracts of the environment: \<open>OnDropChannel\<close> and \<open>OnFailChannel\<close> always delete the channel; the
  stream returns frames with \<open>OK\<close>, each with the data its header announces and control frames whole.
\<close>

definition received_frame_ok :: "web_socket_frame \<Rightarrow> bool" where
  "received_frame_ok f \<longleftrightarrow>
     unat (payload_length (frame_header f)) = length (payload_of f) \<and>
     (IsKnownControlOpCode (opcode (frame_header f)) \<longrightarrow>
        final (frame_header f) \<and> length (payload_of f) \<le> kMaxControlFramePayload)"

definition read_ok :: "read_outcome \<Rightarrow> bool" where
  "read_ok outcome \<longleftrightarrow>
     (fst outcome = None \<longrightarrow> snd outcome \<noteq> [] \<and> (\<forall>f \<in> set (snd outcome). received_frame_ok f))"

definition env_ok :: "channel_env \<Rightarrow> bool" where
  "env_ok env \<longleftrightarrow>
     (\<forall>was_clean code reason c. deletes env (OnDropChannel was_clean code reason) c) \<and>
     (\<forall>m c. deletes env (OnFailChannel m) c) \<and>
     (\<forall>c. \<forall>outcome \<in> set (read_results env c). read_ok outcome)"

lemma env_okD:
  "env_ok env \<Longrightarrow> deletes env (OnDropChannel was_clean code reason) c"
  "env_ok env \<Longrightarrow> deletes env (OnFailChannel m) c"
  "env_ok env \<Longrightarrow> outcome \<in> set (read_results env c) \<Longrightarrow> read_ok outcome"
  by (auto simp: env_ok_def)

section \<open>The sending side\<close>

definition is_close :: "web_socket_frame \<Rightarrow> bool" where
  "is_close f \<longleftrightarrow> opcode (frame_header f) = kOpCodeClose"

definition is_data :: "web_socket_frame \<Rightarrow> bool" where
  "is_data f \<longleftrightarrow> IsKnownDataOpCode (opcode (frame_header f))"

text \<open>A frame fit to be sent by a client.\<close>

definition sent_frame_ok :: "web_socket_frame \<Rightarrow> bool" where
  "sent_frame_ok f \<longleftrightarrow> frame_ok f \<and> received_frame_ok f \<and> masked (frame_header f)"

definition data_bytes :: "web_socket_frame list \<Rightarrow> nat" where
  "data_bytes fs = sum_list (map (\<lambda>f. length (payload_of f)) (filter is_data fs))"

lemma data_bytes_simps [simp]:
  "data_bytes [] = 0" "data_bytes (fs @ gs) = data_bytes fs + data_bytes gs"
  "data_bytes [f] = (if is_data f then length (payload_of f) else 0)"
  by (simp_all add: data_bytes_def)

text \<open>Whether a Close frame is among the frames, and then it is the last.\<close>

definition close_last :: "bool \<Rightarrow> web_socket_frame list \<Rightarrow> bool" where
  "close_last ends fs \<longleftrightarrow>
     (if ends then fs \<noteq> [] \<and> is_close (last fs) \<and> (\<forall>f \<in> set (butlast fs). \<not> is_close f)
      else \<forall>f \<in> set fs. \<not> is_close f)"

definition nothing_after_close :: "web_socket_frame list \<Rightarrow> bool" where
  "nothing_after_close fs \<longleftrightarrow> (\<forall>f \<in> set (butlast fs). \<not> is_close f)"

lemma close_last_nothing: "close_last ends fs \<Longrightarrow> nothing_after_close fs"
  by (auto simp: close_last_def nothing_after_close_def split: if_splits dest: in_set_butlastD)

lemma nothing_after_close_prefix: "nothing_after_close (fs @ gs) \<Longrightarrow> nothing_after_close fs"
  by (auto simp: nothing_after_close_def butlast_append split: if_splits dest: in_set_butlastD)

lemma close_last_snoc: "close_last False fs \<Longrightarrow> close_last (is_close f) (fs @ [f])"
  by (auto simp: close_last_def)

text \<open>
  The books of the sending side over all frames sent or queued: what the renderer has been granted
  is what is left of it, \<open>n\<close> bytes about to be sent, and the data sent.
\<close>

definition books :: "nat \<Rightarrow> bool \<Rightarrow> web_socket_frame list \<Rightarrow> web_socket_channel \<Rightarrow> bool" where
  "books n ends fs c \<longleftrightarrow>
     send_quota_low_water_mark c = kDefaultSendQuotaLowWaterMark \<and>
     send_quota_high_water_mark c = kDefaultSendQuotaHighWaterMark \<and>
     0 \<le> current_send_quota c \<and> current_send_quota c \<le> send_quota_high_water_mark c \<and>
     granted (channel_log c) = current_send_quota c + int n + int (data_bytes fs) \<and>
     (\<forall>f \<in> set fs. sent_frame_ok f) \<and> close_last ends fs"

definition frames_of :: "send_buffer option \<Rightarrow> web_socket_frame list" where
  "frames_of b = (case b of Some b \<Rightarrow> frames b | None \<Rightarrow> [])"

lemma frames_of_simps [simp]: "frames_of None = []" "frames_of (Some b) = frames b"
  by (simp_all add: frames_of_def)

text \<open>All frames sent or queued, between two calls.\<close>

definition queued :: "web_socket_channel \<Rightarrow> web_socket_frame list" where
  "queued c = sent (channel_log c) @ frames_of (data_to_send_next c)"

definition is_reading :: "web_socket_channel \<Rightarrow> bool" where
  "is_reading c \<longleftrightarrow> (case stream c of Some st \<Rightarrow> reading st | None \<Rightarrow> False)"

definition is_writing :: "web_socket_channel \<Rightarrow> bool" where
  "is_writing c \<longleftrightarrow> (case stream c of Some st \<Rightarrow> writing st | None \<Rightarrow> False)"

definition is_open :: "web_socket_channel \<Rightarrow> bool" where
  "is_open c \<longleftrightarrow> (case stream c of Some st \<Rightarrow> \<not> closed st | None \<Rightarrow> False)"

definition writer :: "nat \<Rightarrow> bool \<Rightarrow> web_socket_channel \<Rightarrow> bool" where
  "writer n ends c \<longleftrightarrow>
     is_open c \<and> (is_writing c \<longleftrightarrow> data_being_sent c \<noteq> None) \<and>
     (data_being_sent c = None \<longrightarrow> data_to_send_next c = None) \<and> books n ends (queued c) c"

text \<open>What remains of the books when the channel is gone.\<close>

definition books_closed :: "channel_effect list \<Rightarrow> bool" where
  "books_closed l \<longleftrightarrow>
     int (data_bytes (sent l)) \<le> granted l \<and> nothing_after_close (sent l) \<and> (\<forall>f \<in> set (sent l). sent_frame_ok f)"

lemma books_books_closed: "books n ends (sent (channel_log c) @ fs) c \<Longrightarrow> books_closed (channel_log c)"
  by (auto simp: books_def books_closed_def dest: close_last_nothing nothing_after_close_prefix)


section \<open>Ways to end\<close>

definition ended_once :: "channel_effect list \<Rightarrow> bool" where
  "ended_once l \<longleftrightarrow> (\<forall>e \<in> set (tl l). \<not> final_event e)"

lemma calm_ended [simp]: "calm l \<Longrightarrow> ended_once l" "calm l \<Longrightarrow> ended_once (e # l)"
  by (cases l; auto simp: calm_def ended_once_def)+

text \<open>Logs that agree on frames, fragments and quota, before the last words.\<close>

definition same_logs :: "channel_effect list \<Rightarrow> channel_effect list \<Rightarrow> bool" where
  "same_logs l l' \<longleftrightarrow>
     forwarded l' = forwarded l \<and> frames_read l' = frames_read l \<and> sent l' = sent l \<and> granted l' = granted l \<and>
     (calm l \<longrightarrow> ended_once l')"

lemma SendImmediately_post:
  "calm (channel_log c) \<Longrightarrow>
   post (\<lambda>c'. c' = c\<lparr>handshake_request_info := None, handshake_response_info := None, channel_log := channel_log c'\<rparr> \<and>
            same_logs (channel_log c) (channel_log c') \<and> calm (channel_log c'))
     (\<lambda>c'. same_logs (channel_log c) (channel_log c')) (SendImmediately env c)"
  by (auto simp: SendImmediately_def notify_def log_action_def same_logs_def Let_def split: option.split)

lemma notify_last_post:
  "deletes env e = (\<lambda>c. True) \<Longrightarrow> calm (channel_log c) \<Longrightarrow> forwarded_by (Event e) = [] \<Longrightarrow> granted_by (Event e) = 0 \<Longrightarrow>
   post P (\<lambda>c'. same_logs (channel_log c) (channel_log c')) (notify_last env e c)"
  by (simp add: notify_last_def notify_def log_action_def same_logs_def Let_def)

lemma same_logs_trans: "same_logs l l' \<Longrightarrow> calm l' \<Longrightarrow> same_logs l' l'' \<Longrightarrow> same_logs l l''"
  by (simp add: same_logs_def)

lemma DoDropChannel_post:
  assumes "env_ok env" and "calm (channel_log c)"
  shows "post P (\<lambda>c'. same_logs (channel_log c) (channel_log c')) (DoDropChannel env was_clean code reason c)"
  unfolding DoDropChannel_def
proof (rule post_then [OF SendImmediately_post [OF assms(2)]])
  fix c'
  assume "c' = c\<lparr>handshake_request_info := None, handshake_response_info := None, channel_log := channel_log c'\<rparr> \<and>
    same_logs (channel_log c) (channel_log c') \<and> calm (channel_log c')"
  then have c': "same_logs (channel_log c) (channel_log c')" "calm (channel_log c')" by blast+
  have "post P (\<lambda>c''. same_logs (channel_log c') (channel_log c'')) (notify_last env (OnDropChannel was_clean code reason) c')"
    by (rule notify_last_post [OF _ c'(2)]) (simp_all add: env_okD(1) [OF assms(1)] fun_eq_iff)
  then show "post P (\<lambda>c'. same_logs (channel_log c) (channel_log c')) (notify_last env (OnDropChannel was_clean code reason) c')"
    by (rule post_mono) (auto intro: same_logs_trans [OF c'])
qed

lemma close_and_drop_post:
  assumes "env_ok env" and "calm (channel_log c)" and "is_open c" and "ch_state c \<noteq> CLOSED"
  shows "post P (\<lambda>c'. same_logs (channel_log c) (channel_log c')) (close_and_drop env was_clean code reason c)"
proof -
  define s :: stream_state where "s = \<lparr>reading = False, writing = False, closed = True\<rparr>"
  define d where "d = c\<lparr>stream := Some s, channel_log := StreamClose # channel_log c, ch_state := CLOSED\<rparr>"
  have eq: "close_and_drop env was_clean code reason c = DoDropChannel env was_clean code reason d"
    using assms(3,4)
    by (auto simp: close_and_drop_def stream_Close_def SetState_def log_action_def is_open_def d_def s_def split: option.splits)
  have same: "same_logs (channel_log c) (channel_log d)" and calm: "calm (channel_log d)"
    using assms(2) by (simp_all add: d_def same_logs_def)
  show ?thesis
    unfolding eq
    by (rule post_mono [OF DoDropChannel_post [where P = P, OF assms(1) calm]]) (auto intro: same_logs_trans [OF same calm])
qed


section \<open>Writing\<close>

text \<open>What writing leaves alone.\<close>

definition only_wrote :: "web_socket_channel \<Rightarrow> web_socket_channel \<Rightarrow> bool" where
  "only_wrote c c' \<longleftrightarrow>
     c' = c\<lparr>stream := stream c', data_being_sent := data_being_sent c', data_to_send_next := data_to_send_next c',
            current_send_quota := current_send_quota c', channel_log := channel_log c'\<rparr> \<and>
     is_reading c' = is_reading c \<and> is_open c' = is_open c \<and>
     forwarded (channel_log c') = forwarded (channel_log c) \<and> frames_read (channel_log c') = frames_read (channel_log c) \<and>
     (calm (channel_log c) \<longrightarrow> calm (channel_log c'))"

definition write_end :: "web_socket_channel \<Rightarrow> web_socket_channel \<Rightarrow> bool" where
  "write_end c c' \<longleftrightarrow>
     books_closed (channel_log c') \<and> ended_once (channel_log c') \<and>
     forwarded (channel_log c') = forwarded (channel_log c) \<and> frames_read (channel_log c') = frames_read (channel_log c)"

lemma only_wrote_refl [simp]: "only_wrote c c"
  by (simp add: only_wrote_def)

lemma only_wrote_trans: "only_wrote c c' \<Longrightarrow> only_wrote c' c'' \<Longrightarrow> only_wrote c c''"
  by (cases c; cases c'; cases c'') (auto simp: only_wrote_def)

lemma only_wrote_end: "only_wrote c c' \<Longrightarrow> write_end c' c'' \<Longrightarrow> write_end c c''"
  by (simp add: only_wrote_def write_end_def)

lemma close_and_drop_write_end:
  assumes "env_ok env" and "calm (channel_log c)" and "is_open c" and "ch_state c \<noteq> CLOSED"
    and "books_closed (channel_log c)"
  shows "post P (write_end c) (close_and_drop env was_clean code reason c)"
  by (rule post_mono [OF close_and_drop_post [where P = P, OF assms(1-4)]])
    (use assms(2,5) in \<open>auto simp: write_end_def same_logs_def books_closed_def\<close>)

definition transmitting :: "web_socket_channel \<Rightarrow> bool" where
  "transmitting c \<longleftrightarrow>
     ch_state c \<noteq> FRESHLY_CONSTRUCTED \<and> ch_state c \<noteq> CONNECTING \<and> ch_state c \<noteq> CLOSED \<and>
     is_open c \<and> \<not> is_writing c \<and> data_being_sent c \<noteq> None \<and> calm (channel_log c)"

lemma quota_refresh:
  "books n ends fs c \<Longrightarrow> send_quota_low_water_mark c \<le> send_quota_high_water_mark c"
  by (simp add: books_def kDefaultSendQuotaLowWaterMark_def kDefaultSendQuotaHighWaterMark_def)

lemma OnWriteDone_last:
  assumes "env_ok env" and "transmitting c" and "data_to_send_next c = None"
    and "books 0 ends (sent (channel_log c)) c"
  shows "post (\<lambda>c'. writer 0 ends c' \<and> only_wrote c c' \<and> data_being_sent c' = None) (write_end c)
    (OnWriteDone go env synchronous None c)"
proof -
  define d where "d = c\<lparr>data_being_sent := None\<rparr>"
  define fresh where "fresh = send_quota_high_water_mark c - current_send_quota c"
  define e where "e = log_action (Event (OnFlowControl fresh)) (d\<lparr>current_send_quota := current_send_quota c + fresh\<rparr>)"
  have "writer 0 ends d" "only_wrote c d" "data_being_sent d = None"
    using assms by (auto simp: d_def writer_def transmitting_def books_def queued_def only_wrote_def is_open_def
        is_writing_def is_reading_def)
  moreover have "writer 0 ends e \<and> only_wrote c e \<and> data_being_sent e = None" "write_end c e"
    using assms
    by (auto simp: e_def d_def fresh_def writer_def transmitting_def books_def queued_def only_wrote_def is_open_def
        is_writing_def is_reading_def log_action_def write_end_def books_closed_def dest: close_last_nothing)
  moreover have "OnWriteDone go env synchronous None c =
      (if current_send_quota c < send_quota_low_water_mark c
       then Some (if deletes env (OnFlowControl fresh) e then CHANNEL_DELETED else CHANNEL_ALIVE, e)
       else Some (CHANNEL_ALIVE, d))"
    using assms(2,3) quota_refresh [OF assms(4)]
    by (simp add: OnWriteDone_def transmitting_def d_def e_def fresh_def notify_def Let_def)
  ultimately show ?thesis by simp
qed

lemma OnWriteDone_next:
  "transmitting c \<Longrightarrow> data_to_send_next c = Some b \<Longrightarrow>
   OnWriteDone go env synchronous None c =
     (let c = c\<lparr>data_being_sent := Some b, data_to_send_next := None\<rparr>
      in if synchronous then Some (CHANNEL_ALIVE, c) else go c)"
  by (simp add: OnWriteDone_def transmitting_def Let_def)

lemma OnWriteDone_error:
  assumes "env_ok env" and "transmitting c" and "e \<noteq> ERR_IO_PENDING" and "books_closed (channel_log c)"
  shows "post P (write_end c) (OnWriteDone go env synchronous (Some e) c)"
  using assms close_and_drop_write_end [OF assms(1), of c P]
  by (simp add: OnWriteDone_def transmitting_def Let_def)

text \<open>One round of \<open>WriteFrames\<close>.\<close>

lemma WriteFrames_unfold:
  assumes "transmitting c" and "data_being_sent c = Some b"
  shows "Channel_WriteFrames env c =
    (let d = log_action (StreamWrite (frames b)) c; result = write_result env d
     in if result = Some ERR_IO_PENDING
        then Some (CHANNEL_ALIVE, d\<lparr>stream := map_option (writing_update (\<lambda>_. True)) (stream d)\<rparr>)
        else then_alive (OnWriteDone (\<lambda>c. None) env True result d)
               (\<lambda>c. if result = None \<and> data_being_sent c \<noteq> None then Channel_WriteFrames env c else Some (CHANNEL_ALIVE, c)))"
proof -
  obtain st where "stream c = Some st" "\<not> closed st" "\<not> writing st"
    using assms(1) by (auto simp: transmitting_def is_open_def is_writing_def split: option.splits)
  then show ?thesis
    by (subst Channel_WriteFrames.simps)
      (simp add: assms(2) stream_WriteFrames_def Let_def then_alive_def case_prod_beta log_action_def cong: if_cong)
qed

lemma written:
  assumes "transmitting c" and "data_being_sent c = Some b"
    and "books 0 ends (sent (channel_log c) @ frames b @ frames_of (data_to_send_next c)) c"
  defines "d \<equiv> log_action (StreamWrite (frames b)) c"
  shows "transmitting d" "data_to_send_next d = data_to_send_next c" "data_being_sent d = Some b"
    "books 0 ends (sent (channel_log d) @ frames_of (data_to_send_next d)) d" "books_closed (channel_log d)"
    "only_wrote c d"
    "writer 0 ends (d\<lparr>stream := map_option (writing_update (\<lambda>_. True)) (stream d)\<rparr>)"
    "only_wrote c (d\<lparr>stream := map_option (writing_update (\<lambda>_. True)) (stream d)\<rparr>)"
proof -
  show books: "books 0 ends (sent (channel_log d) @ frames_of (data_to_send_next d)) d"
    using assms(3) by (simp add: d_def log_action_def books_def)
  then show "books_closed (channel_log d)" by (rule books_books_closed)
  show "writer 0 ends (d\<lparr>stream := map_option (writing_update (\<lambda>_. True)) (stream d)\<rparr>)"
    using assms(1,2) books
    by (auto simp: writer_def transmitting_def is_open_def is_writing_def queued_def books_def d_def log_action_def split: option.splits)
qed (use assms(1,2) in \<open>auto simp: d_def log_action_def transmitting_def only_wrote_def is_open_def is_writing_def
    is_reading_def split: option.splits\<close>)

lemma WriteFrames_round:
  assumes "env_ok env" and "transmitting c" and "data_being_sent c = Some b"
    and "books 0 ends (sent (channel_log c) @ frames b @ frames_of (data_to_send_next c)) c"
    and again: "\<And>d b'. data_to_send_next c = Some b' \<Longrightarrow> only_wrote c d \<Longrightarrow> transmitting d \<Longrightarrow> data_being_sent d = Some b' \<Longrightarrow>
      data_to_send_next d = None \<Longrightarrow> books 0 ends (sent (channel_log d) @ frames b') d \<Longrightarrow>
      post (\<lambda>c'. writer 0 ends c' \<and> only_wrote d c') (write_end d) (Channel_WriteFrames env d)"
  shows "post (\<lambda>c'. writer 0 ends c' \<and> only_wrote c c') (write_end c) (Channel_WriteFrames env c)"
proof -
  define d where "d = log_action (StreamWrite (frames b)) c"
  note w = written [OF assms(2-4), folded d_def]
  show ?thesis
  proof (cases "write_result env d")
    case (Some e)
    show ?thesis
    proof (cases "e = ERR_IO_PENDING")
      case True
      then show ?thesis using Some w(7,8) by (simp add: WriteFrames_unfold [OF assms(2,3)] d_def [symmetric] Let_def)
    next
      case False
      have "post (\<lambda>c. False) (write_end d) (OnWriteDone (\<lambda>c. None) env True (Some e) d)"
        by (rule OnWriteDone_error [OF assms(1) w(1) False w(5)])
      then have "post (\<lambda>c'. writer 0 ends c' \<and> only_wrote c c') (write_end d) (Channel_WriteFrames env c)"
        using False Some by (simp add: WriteFrames_unfold [OF assms(2,3)] d_def [symmetric] Let_def) (erule post_then, simp)
      then show ?thesis by (rule post_mono) (auto intro: only_wrote_end [OF w(6)])
    qed
  next
    case None
    show ?thesis
    proof (cases "data_to_send_next c")
      case None
      have "post (\<lambda>c'. writer 0 ends c' \<and> only_wrote d c' \<and> data_being_sent c' = None) (write_end d)
          (OnWriteDone (\<lambda>c. None) env True None d)"
        by (rule OnWriteDone_last [OF assms(1) w(1)]) (use None w(2,4) in simp_all)
      then have "post (\<lambda>c'. writer 0 ends c' \<and> only_wrote d c') (write_end d) (Channel_WriteFrames env c)"
        using \<open>write_result env d = None\<close>
        by (simp add: WriteFrames_unfold [OF assms(2,3)] d_def [symmetric] Let_def) (erule post_then, simp)
      then show ?thesis
        by (rule post_mono) (auto intro: only_wrote_end [OF w(6)] only_wrote_trans [OF w(6)])
    next
      case (Some b')
      define e where "e = d\<lparr>data_being_sent := Some b', data_to_send_next := None\<rparr>"
      have "only_wrote d e"
        by (simp add: e_def only_wrote_def is_reading_def is_open_def)
      then have ow: "only_wrote c e" by (rule only_wrote_trans [OF w(6)])
      have "transmitting e" "data_being_sent e = Some b'" "data_to_send_next e = None"
        "books 0 ends (sent (channel_log e) @ frames b') e"
        using w(1,2,4) Some by (simp_all add: e_def transmitting_def is_open_def is_writing_def books_def)
      then have "post (\<lambda>c'. writer 0 ends c' \<and> only_wrote e c') (write_end e) (Channel_WriteFrames env e)"
        by (rule again [OF Some ow])
      moreover have "Channel_WriteFrames env c = Channel_WriteFrames env e"
        using \<open>write_result env d = None\<close> Some w(2)
        by (simp add: WriteFrames_unfold [OF assms(2,3)] d_def [symmetric] e_def [symmetric] Let_def
            OnWriteDone_next [OF w(1), of b'] \<open>data_being_sent e = Some b'\<close>)
      ultimately have "post (\<lambda>c'. writer 0 ends c' \<and> only_wrote e c') (write_end e) (Channel_WriteFrames env c)" by simp
      then show ?thesis
        by (rule post_mono) (auto intro: only_wrote_end [OF ow] only_wrote_trans [OF ow])
    qed
  qed
qed

lemma WriteFrames_post:
  assumes "env_ok env" and "transmitting c" and "data_being_sent c = Some b"
    and "books 0 ends (sent (channel_log c) @ frames b @ frames_of (data_to_send_next c)) c"
  shows "post (\<lambda>c'. writer 0 ends c' \<and> only_wrote c c') (write_end c) (Channel_WriteFrames env c)"
proof (rule WriteFrames_round [OF assms])
  fix d b'
  assume d: "transmitting d" "data_being_sent d = Some b'" "data_to_send_next d = None"
    "books 0 ends (sent (channel_log d) @ frames b') d"
  show "post (\<lambda>c'. writer 0 ends c' \<and> only_wrote d c') (write_end d) (Channel_WriteFrames env d)"
    by (rule WriteFrames_round [OF assms(1) d(1,2)]) (use d in simp_all)
qed

section \<open>Sending a frame and closing\<close>

lemma only_wroteE:
  assumes "only_wrote c c'"
  obtains s d n q l where "c' = c\<lparr>stream := s, data_being_sent := d, data_to_send_next := n, current_send_quota := q,
    channel_log := l\<rparr>"
  using assms unfolding only_wrote_def by blast

lemma only_wrote_fields:
  assumes "only_wrote c c'"
  shows "ch_state c' = ch_state c" "close_timer c' = close_timer c" "read_frames c' = read_frames c"
    "current_receive_quota c' = current_receive_quota c" "pending_received_frames c' = pending_received_frames c"
    "has_received_close_frame c' = has_received_close_frame c"
    "incoming_utf8_validator c' = incoming_utf8_validator c" "outgoing_utf8_validator c' = outgoing_utf8_validator c"
    "receiving_text_message c' = receiving_text_message c"
    "expecting_to_handle_continuation c' = expecting_to_handle_continuation c"
    "initial_frame_forwarded c' = initial_frame_forwarded c"
    "closing_handshake_timeout c' = closing_handshake_timeout c"
    "underlying_connection_close_timeout c' = underlying_connection_close_timeout c"
  by (rule only_wroteE [OF assms]; simp)+

lemma only_wrote_logs:
  assumes "only_wrote c c'"
  shows "is_reading c' = is_reading c" "is_open c' = is_open c" "forwarded (channel_log c') = forwarded (channel_log c)"
    "frames_read (channel_log c') = frames_read (channel_log c)" "calm (channel_log c) \<Longrightarrow> calm (channel_log c')"
  using assms by (simp_all add: only_wrote_def)

definition client_frame :: "bool \<Rightarrow> int \<Rightarrow> uint8 list option \<Rightarrow> nat \<Rightarrow> web_socket_frame" where
  "client_frame fin op buffer n =
     \<lparr>frame_header = (WebSocketFrameHeader op)\<lparr>final := fin, masked := True, payload_length := of_nat n\<rparr>,
      frame_data = buffer\<rparr>"

lemma client_frame_fields [simp]:
  "opcode (frame_header (client_frame fin op buffer n)) = op" "frame_data (client_frame fin op buffer n) = buffer"
  "final (frame_header (client_frame fin op buffer n)) = fin" "masked (frame_header (client_frame fin op buffer n))"
  "payload_length (frame_header (client_frame fin op buffer n)) = of_nat n"
  by (simp_all add: client_frame_def WebSocketFrameHeader_def)

lemma SendFrameFromIOBuffer_post:
  assumes "env_ok env" and st: "ch_state c = CONNECTED \<or> ch_state c = RECV_CLOSED" and w: "writer n False c"
    and "calm (channel_log c)" and ok: "sent_frame_ok (client_frame fin op buffer m)"
    and n: "n = (if IsKnownDataOpCode op then length (payload_of (client_frame fin op buffer m)) else 0)"
  shows "post (\<lambda>c'. writer 0 (op = kOpCodeClose) c' \<and> only_wrote c c') (write_end c)
    (SendFrameFromIOBuffer env fin op buffer m c)"
proof -
  define f where "f = client_frame fin op buffer m"
  have stream: "stream c \<noteq> None" using w by (auto simp: writer_def is_open_def split: option.splits)
  have b: "books 0 (op = kOpCodeClose) (queued c @ [f]) c"
    using w ok n close_last_snoc [of "queued c" f]
    by (auto simp: writer_def books_def f_def is_data_def is_close_def)
  have eq: "SendFrameFromIOBuffer env fin op buffer m c =
      (if data_being_sent c \<noteq> None
       then Some (CHANNEL_ALIVE, c\<lparr>data_to_send_next :=
              Some (AddFrame f (case data_to_send_next c of Some b \<Rightarrow> b | None \<Rightarrow> SendBuffer))\<rparr>)
       else Channel_WriteFrames env (c\<lparr>data_being_sent := Some (AddFrame f SendBuffer)\<rparr>))"
    using st stream by (simp add: SendFrameFromIOBuffer_def f_def client_frame_def Let_def)
  show ?thesis
  proof (cases "data_being_sent c = None")
    case False
    define d where "d = c\<lparr>data_to_send_next :=
      Some (AddFrame f (case data_to_send_next c of Some b \<Rightarrow> b | None \<Rightarrow> SendBuffer))\<rparr>"
    have "queued d = queued c @ [f]"
      by (simp add: d_def queued_def AddFrame_def SendBuffer_def split: option.split)
    then have "writer 0 (op = kOpCodeClose) d" "only_wrote c d"
      using w b False by (simp_all add: d_def writer_def books_def is_open_def is_writing_def only_wrote_def is_reading_def)
    then show ?thesis using False eq by (simp add: d_def)
  next
    case True
    define d where "d = c\<lparr>data_being_sent := Some (AddFrame f SendBuffer)\<rparr>"
    have next_d: "data_to_send_next d = None" using w True by (simp add: d_def writer_def)
    have "transmitting d" "data_being_sent d = Some (AddFrame f SendBuffer)"
      using st w True assms(4)
      by (auto simp: d_def transmitting_def writer_def is_open_def is_writing_def)
    moreover have "books 0 (op = kOpCodeClose)
        (sent (channel_log d) @ frames (AddFrame f SendBuffer) @ frames_of (data_to_send_next d)) d"
      using b w True next_d by (simp add: d_def books_def queued_def writer_def AddFrame_def SendBuffer_def)
    ultimately have "post (\<lambda>c'. writer 0 (op = kOpCodeClose) c' \<and> only_wrote d c') (write_end d) (Channel_WriteFrames env d)"
      by (rule WriteFrames_post [OF assms(1)])
    moreover have ow: "only_wrote c d" by (simp add: d_def only_wrote_def is_reading_def is_open_def)
    ultimately have "post (\<lambda>c'. writer 0 (op = kOpCodeClose) c' \<and> only_wrote c c') (write_end c) (Channel_WriteFrames env d)"
      by (elim post_mono) (auto intro: only_wrote_end [OF ow] only_wrote_trans [OF ow])
    then show ?thesis using True eq by (simp add: d_def)
  qed
qed

lemmas opcode_kind_defs = IsKnownDataOpCode_def IsKnownControlOpCode_def opcode_defs

lemma client_frame_ok:
  assumes "buffer = Some d \<and> length d = m \<or> buffer = None \<and> m = 0" and "m < 2 ^ 64" and "0 \<le> op" and "op < 16"
    and "IsKnownControlOpCode op \<Longrightarrow> fin \<and> m \<le> 125"
  shows "sent_frame_ok (client_frame fin op buffer m)" and "length (payload_of (client_frame fin op buffer m)) = m"
proof -
  show l: "length (payload_of (client_frame fin op buffer m)) = m"
    using assms(1) by (auto simp: payload_of_def)
  have "unat (of_nat m :: uint64) = m" using assms(2) by (simp add: unat_of_nat)
  then show "sent_frame_ok (client_frame fin op buffer m)"
    using assms l
    by (auto simp: sent_frame_ok_def frame_ok_def received_frame_ok_def kMaxControlFramePayload_def)
qed

text \<open>A code and a reason that fit into a Close frame.\<close>

definition close_fits :: "uint16 \<Rightarrow> uint8 list \<Rightarrow> bool" where
  "close_fits code reason \<longleftrightarrow>
     length reason \<le> kMaximumCloseReasonLength \<and>
     (code = error_value kWebSocketErrorNoStatusReceived \<longrightarrow> reason = [])"

lemma length_close_body: "close_fits code reason \<Longrightarrow> length (close_body code reason) \<le> 125"
  by (simp add: close_body_def close_fits_def kMaximumCloseReasonLength_def kWebSocketCloseCodeLength_def
      WriteBigEndian_def sizeof_def)

lemma SendClose_post:
  assumes "env_ok env" and "ch_state c = CONNECTED \<or> ch_state c = RECV_CLOSED" and "writer 0 False c"
    and "calm (channel_log c)" and "close_fits code reason"
  shows "post (\<lambda>c'. writer 0 True c' \<and> only_wrote c c') (write_end c) (SendClose env code reason c)"
proof -
  define body where "body = close_body code reason"
  have len: "length body \<le> 125" unfolding body_def by (rule length_close_body [OF assms(5)])
  have "sent_frame_ok (client_frame True kOpCodeClose (Some body) (length body))"
    by (rule client_frame_ok) (use len in \<open>simp_all add: opcode_kind_defs\<close>)
  from SendFrameFromIOBuffer_post [OF assms(1-4) this]
  have "post (\<lambda>c'. writer 0 True c' \<and> only_wrote c c') (write_end c)
      (SendFrameFromIOBuffer env True kOpCodeClose (Some body) (length body) c)"
    by (simp add: opcode_kind_defs)
  then show ?thesis using assms(2,5) by (simp add: SendClose_def close_fits_def body_def Let_def)
qed

text \<open>Between two handlers in a connection: a Close frame has been sent except in the state \<open>CONNECTED\<close>.\<close>

definition connection :: "web_socket_channel \<Rightarrow> bool" where
  "connection c \<longleftrightarrow>
     (ch_state c = CONNECTED \<or> ch_state c = SEND_CLOSED \<or> ch_state c = CLOSE_WAIT) \<and>
     writer 0 (ch_state c \<noteq> CONNECTED) c \<and> calm (channel_log c)"

lemma FailChannel_post:
  assumes "env_ok env" and "connection c" and "close_fits code reason"
  shows "post P (write_end c) (FailChannel env message code reason c)"
proof -
  let ?m = "if ch_state c = CONNECTED then SendClose env code reason c else Some (CHANNEL_ALIVE, c)"
  have "post (\<lambda>c'. writer 0 True c' \<and> only_wrote c c') (write_end c) ?m"
    using SendClose_post [OF assms(1) _ _ _ assms(3), of c] assms(2) by (auto simp: connection_def)
  moreover have "post P (write_end c)
      (Option.bind (stream_Close c') (\<lambda>c. Option.bind (SetState CLOSED c) (notify_last env (OnFailChannel message))))"
    if "writer 0 True c' \<and> only_wrote c c'" for c'
  proof -
    define s :: stream_state where "s = \<lparr>reading = False, writing = False, closed = True\<rparr>"
    define d where "d = c'\<lparr>stream := Some s, channel_log := StreamClose # channel_log c', ch_state := CLOSED\<rparr>"
    have st: "ch_state c' = ch_state c" using that only_wrote_fields(1) by blast
    have calm: "calm (channel_log c')" using that assms(2) only_wrote_logs(5) by (auto simp: connection_def)
    have eq: "Option.bind (stream_Close c') (\<lambda>c. Option.bind (SetState CLOSED c) (notify_last env (OnFailChannel message))) =
        notify_last env (OnFailChannel message) d"
      using that st assms(2)
      by (auto simp: stream_Close_def SetState_def log_action_def writer_def is_open_def d_def s_def connection_def
          split: option.splits)
    have "post P (\<lambda>c'. same_logs (channel_log d) (channel_log c')) (notify_last env (OnFailChannel message) d)"
      by (rule notify_last_post) (use calm in \<open>simp_all add: d_def env_okD(2) [OF assms(1)] fun_eq_iff\<close>)
    then show ?thesis
      unfolding eq using that calm
      by (elim post_mono) (auto simp: d_def same_logs_def write_end_def only_wrote_def writer_def queued_def books_closed_def
          dest: books_books_closed)
  qed
  ultimately have "post P (write_end c)
    (then_alive ?m (\<lambda>c. Option.bind (stream_Close c) (\<lambda>c. Option.bind (SetState CLOSED c) (notify_last env (OnFailChannel message)))))"
    by (rule post_then)
  then show ?thesis using assms(2) by (auto simp: FailChannel_def connection_def)
qed

section \<open>The receiving side\<close>

definition prf_payload :: "pending_received_frame \<Rightarrow> uint8 list" where
  "prf_payload p = (case prf_data p of Some d \<Rightarrow> d | None \<Rightarrow> [])"

definition prf_ok :: "pending_received_frame \<Rightarrow> bool" where
  "prf_ok p \<longleftrightarrow> prf_offset p \<le> prf_size p \<and> length (prf_payload p) = prf_size p \<and> IsKnownDataOpCode (prf_opcode p)"

definition fragment_of :: "pending_received_frame \<Rightarrow> fragment" where
  "fragment_of p = (prf_opcode p, prf_final p, drop (prf_offset p) (prf_payload p))"

definition fragment_bytes :: "fragment list \<Rightarrow> nat" where
  "fragment_bytes fs = sum_list (map (\<lambda>f. length (snd (snd f))) fs)"

lemma fragment_bytes_simps [simp]:
  "fragment_bytes [] = 0" "fragment_bytes (fs @ gs) = fragment_bytes fs + fragment_bytes gs"
  "fragment_bytes [(op, fin, bs)] = length bs"
  by (simp_all add: fragment_bytes_def)

lemma buffer_bytes_Some:
  assumes "length (case data of Some d \<Rightarrow> d | None \<Rightarrow> []) = n" and "offset + k \<le> n"
  shows "buffer_bytes data offset k = Some (take k (drop offset (case data of Some d \<Rightarrow> d | None \<Rightarrow> [])))"
  using assms by (auto simp: buffer_bytes_def split: option.split)

text \<open>What the flags of the channel say of the open message.\<close>

definition message_state :: "(int \<times> uint8 list) option \<Rightarrow> web_socket_channel \<Rightarrow> bool" where
  "message_state cur c \<longleftrightarrow>
     (case cur of
        None \<Rightarrow>
          \<not> expecting_to_handle_continuation c \<and> \<not> receiving_text_message c \<and> \<not> initial_frame_forwarded c \<and>
          incoming_utf8_validator c = utf8_run 0 []
      | Some (op, bs) \<Rightarrow>
          expecting_to_handle_continuation c \<and> (op = kOpCodeText \<or> op = kOpCodeBinary) \<and>
          (receiving_text_message c \<longleftrightarrow> op = kOpCodeText) \<and> (\<not> initial_frame_forwarded c \<longrightarrow> bs = []) \<and>
          incoming_utf8_validator c = utf8_run 0 (if op = kOpCodeText then bs else []))"

text \<open>The fragments that frames carry.\<close>

definition data_fragment :: "web_socket_frame \<Rightarrow> fragment list" where
  "data_fragment f =
     (if IsKnownDataOpCode (opcode (frame_header f))
      then [(opcode (frame_header f), final (frame_header f), payload_of f)] else [])"

definition data_fragments :: "web_socket_frame list \<Rightarrow> fragment list" where
  "data_fragments fs = concat (map data_fragment fs)"

lemma data_fragments_simps [simp]:
  "data_fragments [] = []" "data_fragments (fs @ gs) = data_fragments fs @ data_fragments gs"
  "data_fragments [f] = data_fragment f"
  by (simp_all add: data_fragments_def)

text \<open>
  The account of a connection: the quota the renderer has granted, the frames of the server that the
  channel has handled while it was connected, and whether the renderer has asked to close. The books of the
  receiving side: what the renderer was given and what is queued for it are the messages of the frames
  taken up, and it was given as much as it has granted less what is left.
\<close>

record account =
  quota_total :: nat
  taken :: "web_socket_frame list"
  asked :: bool

definition grant :: "nat \<Rightarrow> account \<Rightarrow> account" where
  "grant b A = A\<lparr>quota_total := quota_total A + b\<rparr>"

lemma grant_simps [simp]:
  "quota_total (grant b A) = quota_total A + b" "taken (grant b A) = taken A" "asked (grant b A) = asked A"
  by (simp_all add: grant_def)

lemma grant_grant [simp]: "grant 0 A = A" "grant x (grant b A) = grant (b + x) A"
  by (simp_all add: grant_def add.assoc)

definition reader :: "account \<Rightarrow> web_socket_channel \<Rightarrow> bool" where
  "reader A c \<longleftrightarrow>
     (\<exists>later. frames_read (channel_log c) = taken A @ later) \<and>
     (\<exists>done cur. assemble (data_fragments (taken A)) = Some (done, cur) \<and> texts_valid (done, cur) \<and>
        assemble (forwarded (channel_log c) @ map fragment_of (pending_received_frames c)) =
          Some (done, if initial_frame_forwarded c then cur else None) \<and>
        message_state cur c) \<and>
     fragment_bytes (forwarded (channel_log c)) + current_receive_quota c = quota_total A \<and>
     (\<forall>p \<in> set (pending_received_frames c). prf_ok p) \<and>
     (pending_received_frames c \<noteq> [] \<longrightarrow> current_receive_quota c = 0)"

text \<open>What the renderer was given are messages that the server has sent, as far as they go.\<close>

definition renderer_ok :: "nat \<Rightarrow> channel_effect list \<Rightarrow> bool" where
  "renderer_ok G l \<longleftrightarrow>
     (\<exists>a. assemble (forwarded l) = Some a \<and> texts_valid a \<and>
        (\<exists>heard later ms cur. frames_read l = heard @ later \<and> assemble (data_fragments heard) = Some (fst a @ ms, cur))) \<and>
     fragment_bytes (forwarded l) \<le> G"

lemma texts_valid_less [simp]: "texts_valid (done, cur) \<Longrightarrow> texts_valid (done, if b then cur else None)"
  by (auto simp: texts_valid_def)

lemma reader_renderer_ok:
  assumes "reader A c"
  shows "renderer_ok (quota_total A) (channel_log c)"
proof -
  obtain later msgs cur where r: "frames_read (channel_log c) = taken A @ later"
    "assemble (data_fragments (taken A)) = Some (msgs, cur)" "texts_valid (msgs, cur)"
    "assemble (forwarded (channel_log c) @ map fragment_of (pending_received_frames c)) =
      Some (msgs, if initial_frame_forwarded c then cur else None)"
    using assms by (auto simp: reader_def)
  obtain b ms where "assemble (forwarded (channel_log c)) = Some b" "texts_valid b" "msgs = fst b @ ms"
    by (rule assemble_prefix [OF r(4)]) (use r(3) in auto)
  moreover have "fragment_bytes (forwarded (channel_log c)) \<le> quota_total A" using assms by (auto simp: reader_def)
  ultimately show ?thesis using r(1,2) by (auto simp: renderer_ok_def)
qed

lemma reader_only_wrote:
  assumes "only_wrote c c'"
  shows "reader A c' = reader A c"
  unfolding reader_def message_state_def only_wrote_fields [OF assms] only_wrote_logs(1-4) [OF assms] by (rule refl)

text \<open>What must hold of a channel that has been deleted.\<close>

definition gone :: "nat \<Rightarrow> web_socket_channel \<Rightarrow> bool" where
  "gone G c \<longleftrightarrow> books_closed (channel_log c) \<and> ended_once (channel_log c) \<and> renderer_ok G (channel_log c)"

lemma write_end_gone: "reader A c \<Longrightarrow> write_end c c' \<Longrightarrow> gone (quota_total A) c'"
  using reader_renderer_ok [of A c] by (simp add: write_end_def gone_def renderer_ok_def)

section \<open>Data frames\<close>

text \<open>What receiving leaves alone.\<close>

definition only_received :: "web_socket_channel \<Rightarrow> web_socket_channel \<Rightarrow> bool" where
  "only_received c c' \<longleftrightarrow>
     c' = c\<lparr>pending_received_frames := pending_received_frames c', current_receive_quota := current_receive_quota c',
            incoming_utf8_validator := incoming_utf8_validator c', receiving_text_message := receiving_text_message c',
            expecting_to_handle_continuation := expecting_to_handle_continuation c',
            initial_frame_forwarded := initial_frame_forwarded c', channel_log := channel_log c'\<rparr> \<and>
     frames_read (channel_log c') = frames_read (channel_log c) \<and>
     sent (channel_log c') = sent (channel_log c) \<and> granted (channel_log c') = granted (channel_log c) \<and>
     (calm (channel_log c) \<longrightarrow> calm (channel_log c'))"

lemma only_received_refl [simp]: "only_received c c"
  by (simp add: only_received_def)

lemma only_receivedE:
  assumes "only_received c c'"
  obtains p q v t e i l where "c' = c\<lparr>pending_received_frames := p, current_receive_quota := q,
    incoming_utf8_validator := v, receiving_text_message := t, expecting_to_handle_continuation := e,
    initial_frame_forwarded := i, channel_log := l\<rparr>"
  using assms unfolding only_received_def by blast

lemma only_received_fields:
  assumes "only_received c c'"
  shows "ch_state c' = ch_state c" "close_timer c' = close_timer c" "read_frames c' = read_frames c"
    "has_received_close_frame c' = has_received_close_frame c" "outgoing_utf8_validator c' = outgoing_utf8_validator c"
    "is_reading c' = is_reading c" "is_open c' = is_open c" "is_writing c' = is_writing c"
    "data_being_sent c' = data_being_sent c" "data_to_send_next c' = data_to_send_next c"
    "current_send_quota c' = current_send_quota c" "send_quota_low_water_mark c' = send_quota_low_water_mark c"
    "send_quota_high_water_mark c' = send_quota_high_water_mark c"
  by (rule only_receivedE [OF assms]; simp add: is_reading_def is_open_def is_writing_def)+

lemma only_received_logs:
  assumes "only_received c c'"
  shows "sent (channel_log c') = sent (channel_log c)" "granted (channel_log c') = granted (channel_log c)"
    "calm (channel_log c) \<Longrightarrow> calm (channel_log c')" "frames_read (channel_log c') = frames_read (channel_log c)"
  using assms by (simp_all add: only_received_def)

lemma only_received_trans: "only_received c c' \<Longrightarrow> only_received c' c'' \<Longrightarrow> only_received c c''"
  by (cases c; cases c'; cases c'') (auto simp: only_received_def)

lemma writer_only_received:
  assumes "only_received c c'"
  shows "writer n ends c' = writer n ends c"
  by (simp add: writer_def books_def queued_def only_received_fields [OF assms] only_received_logs [OF assms])

lemma connection_only_received: "only_received c c' \<Longrightarrow> connection c \<Longrightarrow> connection c'"
  by (simp add: connection_def writer_only_received only_received_fields only_received_logs)

lemma notify_data_post:
  assumes "connection c" and "reader A (log_action (Event (OnDataFrame fin op bs)) c)"
  shows "post (\<lambda>c'. reader A c' \<and> only_received c c') (gone (quota_total A)) (notify env (OnDataFrame fin op bs) c)"
proof -
  define d where "d = log_action (Event (OnDataFrame fin op bs)) c"
  have "only_received c d" by (simp add: d_def log_action_def only_received_def)
  moreover from this have "gone (quota_total A) d"
    using assms reader_renderer_ok [of A d] connection_only_received [of c d]
    by (auto simp: gone_def connection_def writer_def queued_def d_def [symmetric] dest: books_books_closed)
  ultimately show ?thesis using assms(2) by (simp add: notify_def Let_def d_def)
qed

definition payload_bytes :: "uint8 list option \<Rightarrow> uint8 list" where
  "payload_bytes data = (case data of Some d \<Rightarrow> d | None \<Rightarrow> [])"

lemma buffer_bytes_payload:
  "offset + k \<le> length (payload_bytes data) \<Longrightarrow>
     buffer_bytes data offset k = Some (take k (drop offset (payload_bytes data)))"
  unfolding payload_bytes_def by (rule buffer_bytes_Some [OF refl])

lemma prf_payload_simp [simp]: "prf_payload p = payload_bytes (prf_data p)"
  by (simp add: prf_payload_def payload_bytes_def)

text \<open>
  A frame that continues the messages given and queued is given or queued, in one piece or in two.
\<close>

lemma forward_data_post:
  assumes conn: "connection c" and n: "n = length (payload_bytes data)" and op: "IsKnownDataOpCode op"
    and some: "n > 0 \<or> fin"
    and received: "\<exists>later. frames_read (channel_log c) = taken A @ later"
      "assemble (data_fragments (taken A)) = Some (done, cur)" "texts_valid (done, cur)"
    and "message_state cur (c\<lparr>initial_frame_forwarded := \<not> fin\<rparr>)" and "fin \<Longrightarrow> cur = None"
    and queue: "assemble (forwarded (channel_log c) @ map fragment_of (pending_received_frames c) @
        [(op, fin, payload_bytes data)]) = Some (done, cur)"
    and quota: "fragment_bytes (forwarded (channel_log c)) + current_receive_quota c = quota_total A"
    and frs: "\<forall>p \<in> set (pending_received_frames c). prf_ok p"
      "pending_received_frames c \<noteq> [] \<longrightarrow> current_receive_quota c = 0"
  shows "post (\<lambda>c'. reader A c' \<and> only_received c c') (gone (quota_total A)) (forward_data env op fin data n c)"
proof -
  define d where "d = c\<lparr>initial_frame_forwarded := \<not> fin\<rparr>"
  let ?q = "current_receive_quota c" and ?bs = "payload_bytes data"
  have "only_received c d" by (simp add: d_def only_received_def)
  have cur: "(if \<not> fin then cur else None) = cur" using assms(9) by auto
  have state: "message_state cur (d\<lparr>pending_received_frames := p, current_receive_quota := q, channel_log := l\<rparr>)"
    "message_state cur (d\<lparr>pending_received_frames := p\<rparr>)" for p q l
    using assms(8) by (simp_all add: message_state_def d_def cong: option.case_cong)
  show ?thesis
  proof (cases "n > ?q \<or> pending_received_frames c \<noteq> []")
    case False
    define e where "e = d\<lparr>current_receive_quota := ?q - n\<rparr>"
    have e: "only_received c e" by (simp add: e_def d_def only_received_def)
    have "message_state cur (log_action (Event (OnDataFrame fin op ?bs)) e)"
      using assms(8) by (simp add: message_state_def log_action_def e_def d_def cong: option.case_cong)
    then have "reader A (log_action (Event (OnDataFrame fin op ?bs)) e)"
      using False received queue quota n cur by (simp add: reader_def log_action_def e_def d_def)
    then have "post (\<lambda>c'. reader A c' \<and> only_received e c') (gone (quota_total A)) (notify env (OnDataFrame fin op ?bs) e)"
      by (rule notify_data_post [OF connection_only_received [OF e conn]])
    moreover have "forward_data env op fin data n c = notify env (OnDataFrame fin op ?bs) e"
      using False some n buffer_bytes_payload [of 0 n data]
      by (auto simp: forward_data_def Let_def e_def d_def)
    ultimately show ?thesis by (auto elim: post_mono intro: only_received_trans [OF e])
  next
    case True
    define p where "p = \<lparr>prf_final = fin, prf_opcode = (if ?q = 0 then op else kOpCodeContinuation), prf_data = data,
        prf_offset = ?q, prf_size = n\<rparr>"
    define e where "e = d\<lparr>pending_received_frames := pending_received_frames c @ [p]\<rparr>"
    have le: "?q \<le> n" using True frs(2) by auto
    have p: "prf_ok p" using op n le by (simp add: prf_ok_def p_def opcode_kind_defs)
    have eq: "forward_data env op fin data n c =
        (if ?q = 0 then Some (CHANNEL_ALIVE, e)
         else notify env (OnDataFrame False op (take ?q ?bs)) (e\<lparr>current_receive_quota := 0\<rparr>))"
    proof -
      have nonempty: "\<not> (n = 0 \<and> \<not> fin)" using some by auto
      have ok: "?q = 0 \<or> pending_received_frames c = []" using frs(2) by auto
      have "buffer_bytes data 0 ?q = Some (take ?q ?bs)" using buffer_bytes_payload [of 0 ?q data] le n by simp
      then show ?thesis
        using True unfolding forward_data_def Let_def if_not_P [OF nonempty]
        by (simp add: ok e_def d_def p_def)
    qed
    show ?thesis
    proof (cases "?q = 0")
      case True
      have "reader A e"
        using True received queue quota n cur frs p state(2)
        by (simp add: reader_def e_def d_def p_def fragment_of_def)
      moreover have "only_received c e" by (simp add: e_def d_def only_received_def)
      ultimately show ?thesis using True eq by simp
    next
      case False
      define f where "f = e\<lparr>current_receive_quota := 0\<rparr>"
      have f: "only_received c f" by (simp add: f_def e_def d_def only_received_def)
      have nil: "pending_received_frames c = []" using False frs(2) by auto
      have "message_state cur (log_action (Event (OnDataFrame False op (take ?q ?bs))) f)"
        using assms(8) by (simp add: message_state_def log_action_def f_def e_def d_def cong: option.case_cong)
      moreover have "assemble (forwarded (channel_log c) @ [(op, False, take ?q ?bs), (kOpCodeContinuation, fin, drop ?q ?bs)]) =
          Some (done, cur)"
        using queue nil by (simp add: assemble_cut)
      ultimately have "reader A (log_action (Event (OnDataFrame False op (take ?q ?bs))) f)"
        using received quota n cur p nil False le
        by (simp add: reader_def log_action_def f_def e_def d_def fragment_of_def) (simp add: p_def)
      then have "post (\<lambda>c'. reader A c' \<and> only_received f c') (gone (quota_total A)) (notify env (OnDataFrame False op (take ?q ?bs)) f)"
        by (rule notify_data_post [OF connection_only_received [OF f conn]])
      then show ?thesis using False eq f_def by (auto elim: post_mono intro: only_received_trans [OF f])
    qed
  qed
qed

lemma accepted_post:
  assumes conn: "connection c" and n: "n = length (payload_bytes data)" and op: "IsKnownDataOpCode op"
    and cur: "cur = None \<longrightarrow> \<not> initial_frame_forwarded c"
      "\<And>op0 bs. cur = Some (op0, bs) \<Longrightarrow> (op0 = kOpCodeText \<or> op0 = kOpCodeBinary) \<and> (\<not> initial_frame_forwarded c \<longrightarrow> bs = [])"
    and add: "add_fragment (op, fin, payload_bytes data) (don, cur) = Some (don', cur')"
    and received: "\<exists>later. frames_read (channel_log c) = taken A @ later"
      "assemble (data_fragments (taken A)) = Some (don', cur')" "texts_valid (don', cur')"
    and state: "expecting_to_handle_continuation c \<longleftrightarrow> \<not> fin"
      "receiving_text_message c \<longleftrightarrow> (\<exists>bs. cur' = Some (kOpCodeText, bs))"
      "incoming_utf8_validator c = utf8_run 0 (case cur' of Some (op0, bs) \<Rightarrow> if op0 = kOpCodeText then bs else [] | None \<Rightarrow> [])"
    and queue: "assemble (forwarded (channel_log c) @ map fragment_of (pending_received_frames c)) =
        Some (don, if initial_frame_forwarded c then cur else None)"
    and quota: "fragment_bytes (forwarded (channel_log c)) + current_receive_quota c = quota_total A"
    and frs: "\<forall>p \<in> set (pending_received_frames c). prf_ok p"
      "pending_received_frames c \<noteq> [] \<longrightarrow> current_receive_quota c = 0"
    and to_send: "to_send = (if \<not> initial_frame_forwarded c \<and> op = kOpCodeContinuation then fst (the cur) else op)"
  shows "post (\<lambda>c'. reader A c' \<and> only_received c c') (gone (quota_total A)) (forward_data env to_send fin data n c)"
proof -
  let ?bs = "payload_bytes data"
  have cases: "(cur = None \<and> op \<noteq> kOpCodeContinuation \<and> cur' = (if fin then None else Some (op, ?bs)) \<and>
        don' = (if fin then don @ [(op, ?bs)] else don)) \<or>
      (\<exists>op0 bs. cur = Some (op0, bs) \<and> op = kOpCodeContinuation \<and> cur' = (if fin then None else Some (op0, bs @ ?bs)) \<and>
        don' = (if fin then don @ [(op0, bs @ ?bs)] else don))"
    using add by (cases cur) (auto split: if_splits)
  have op_new: "op = kOpCodeText \<or> op = kOpCodeBinary" if "op \<noteq> kOpCodeContinuation"
    using op that by (simp add: opcode_kind_defs)
  show ?thesis
  proof (cases "n = 0 \<and> \<not> fin")
    case True
    then have "message_state cur' c" "don' = don" "initial_frame_forwarded c \<longrightarrow> cur' = cur"
      using cases cur state op_new n by (auto simp: message_state_def)
    then have "reader A c" using received queue quota frs by (auto simp: reader_def)
    then show ?thesis using True by (simp add: forward_data_def)
  next
    case False
    have "message_state cur' (c\<lparr>initial_frame_forwarded := \<not> fin\<rparr>)" "fin \<Longrightarrow> cur' = None"
      using cases cur(2) state op_new by (auto simp: message_state_def split: if_splits)
    moreover have "add_fragment (to_send, fin, ?bs) (don, if initial_frame_forwarded c then cur else None) = Some (don', cur')"
      using cases cur(1) add to_send cur(2) by (auto simp: opcode_defs split: if_splits)
    then have "assemble (forwarded (channel_log c) @ map fragment_of (pending_received_frames c) @ [(to_send, fin, ?bs)]) =
        Some (don', cur')"
      using queue by (simp add: assemble_append flip: append_assoc)
    moreover have "IsKnownDataOpCode to_send"
      using op to_send cases cur(2) by (auto simp: opcode_kind_defs)
    ultimately show ?thesis
      using forward_data_post [OF conn n _ _ received] False quota frs by (simp add: n)
  qed
qed

lemma ended_gone: "renderer_ok G (channel_log c) \<Longrightarrow> write_end c c' \<Longrightarrow> gone G c'"
  by (simp add: write_end_def gone_def renderer_ok_def)

lemma connection_fields:
  "connection (c\<lparr>incoming_utf8_validator := v\<rparr>) = connection c"
  "connection (c\<lparr>expecting_to_handle_continuation := b\<rparr>) = connection c"
  "connection (c\<lparr>receiving_text_message := b\<rparr>) = connection c"
  by (simp_all add: connection_def writer_def books_def queued_def is_open_def is_writing_def)

text \<open>The verdict on the text so far.\<close>

lemma AddBytes_text:
  "AddBytes bs (utf8_run 0 old) = Some (utf8_verdict (old @ bs), utf8_run 0 (old @ bs))"
  by (simp add: AddBytes_run state_result_verdict)

lemma verdict_valid:
  assumes "\<not> (utf8_verdict bs = INVALID \<or> (utf8_verdict bs = VALID_MIDPOINT \<and> fin))"
  shows "if fin then valid_utf8 bs else utf8_prefix bs" and "\<not> fin \<or> utf8_verdict bs = VALID_ENDPOINT"
proof -
  have "valid_utf8 bs \<Longrightarrow> utf8_prefix bs" using valid_utf8_prefix [of bs "[]"] by simp
  then show "if fin then valid_utf8 bs else utf8_prefix bs" "\<not> fin \<or> utf8_verdict bs = VALID_ENDPOINT"
    using assms by (auto simp: utf8_verdict_def utf8_prefix_def split: if_splits)
qed

lemmas close_fits_defs = close_fits_def kMaximumCloseReasonLength_def kWebSocketCloseCodeLength_def bytes_of_def

lemma HandleDataFrame_post:
  assumes env: "env_ok env" and conn: "connection c" and True: "ch_state c = CONNECTED" and rd: "reader A0 c"
    and n: "n = length (payload_bytes data)" and op: "IsKnownDataOpCode op"
    and A: "quota_total A = quota_total A0" "\<exists>later. frames_read (channel_log c) = taken A @ later"
      "data_fragments (taken A) = data_fragments (taken A0) @ [(op, fin, payload_bytes data)]"
  shows "post (\<lambda>c'. reader A c' \<and> only_received c c') (gone (quota_total A)) (HandleDataFrame env op fin data n c)"
proof -
  define bs where "bs = payload_bytes data"
  obtain don cur where old: "assemble (data_fragments (taken A0)) = Some (don, cur)" "texts_valid (don, cur)"
    "assemble (forwarded (channel_log c) @ map fragment_of (pending_received_frames c)) =
      Some (don, if initial_frame_forwarded c then cur else None)" "message_state cur c"
    using rd by (auto simp: reader_def)
  have c1: "renderer_ok (quota_total A) (channel_log c)" using reader_renderer_ok [OF rd] by (simp add: A(1))
  have cont: "op \<noteq> kOpCodeContinuation \<Longrightarrow> op = kOpCodeText \<or> op = kOpCodeBinary"
    using op by (auto simp: opcode_kind_defs)
  have expecting: "expecting_to_handle_continuation c \<longleftrightarrow> cur \<noteq> None"
    using old(4) by (auto simp: message_state_def split: option.splits)
  have fails: "post P (gone (quota_total A)) (FailChannel env m code reason d)"
    if "connection d" "channel_log d = channel_log c" "close_fits code reason" for P m code reason d
    by (rule post_mono [OF FailChannel_post [where P = P, OF env that(1,3)]]) (use c1 that(2) ended_gone [of "quota_total A" d] in simp_all)
  show ?thesis
  proof (cases "(op = kOpCodeContinuation) = expecting_to_handle_continuation c")
    case False
    then show ?thesis
      using True op fails [OF conn]
      by (auto simp: HandleDataFrame_def Let_def close_fits_defs opcode_kind_defs)
  next
    case match: True
    define c2 where "c2 = c\<lparr>expecting_to_handle_continuation := \<not> fin\<rparr>"
    define to_send where "to_send = (if \<not> initial_frame_forwarded c \<and> op = kOpCodeContinuation
        then (if receiving_text_message c then kOpCodeText else kOpCodeBinary) else op)"
    define kind where "kind = (if cur = None then op else fst (the cur))"
    define sofar where "sofar = (case cur of Some (op0, bs0) \<Rightarrow> bs0 | None \<Rightarrow> [])"
    have "add_fragment (op, fin, bs) (don, cur) \<noteq> None"
      using match expecting by (cases cur) auto
    then obtain don' cur' where add: "add_fragment (op, fin, bs) (don, cur) = Some (don', cur')" by auto
    have new: "if fin then don' = don @ [(kind, sofar @ bs)] \<and> cur' = None
        else don' = don \<and> cur' = Some (kind, sofar @ bs)"
      using add by (cases cur) (auto simp: sofar_def kind_def split: if_splits)
    have kind: "kind = kOpCodeText \<or> kind = kOpCodeBinary"
      "op = kOpCodeText \<or> (op = kOpCodeContinuation \<and> receiving_text_message c) \<longleftrightarrow> kind = kOpCodeText"
      "incoming_utf8_validator c = utf8_run 0 (if kind = kOpCodeText then sofar else [])"
      "receiving_text_message c \<Longrightarrow> kind = kOpCodeText" "fin \<or> kind \<noteq> kOpCodeText \<or> cur = None \<or> receiving_text_message c"
      using match expecting old(4) cont
      by (auto simp: kind_def sofar_def message_state_def opcode_defs split: option.splits if_splits)
    have taken_up: "assemble (data_fragments (taken A)) = Some (don', cur')"
      using old(1) add A(3) by (simp add: assemble_append bs_def)
    have books: "fragment_bytes (forwarded (channel_log c)) + current_receive_quota c = quota_total A"
      "\<forall>p \<in> set (pending_received_frames c). prf_ok p"
      "pending_received_frames c \<noteq> [] \<longrightarrow> current_receive_quota c = 0"
      using rd A(1) by (simp_all add: reader_def)
    have fwd: "post (\<lambda>c'. reader A c' \<and> only_received c c') (gone (quota_total A)) (forward_data env to_send fin data n c3)"
      if c3: "c3 = c2\<lparr>incoming_utf8_validator := v, receiving_text_message := t\<rparr>" and t: "t \<longleftrightarrow> \<not> fin \<and> kind = kOpCodeText"
        and v: "v = utf8_run 0 (if \<not> fin \<and> kind = kOpCodeText then sofar @ bs else [])" and valid: "texts_valid (don', cur')"
      for c3 v t
    proof -
      have cc3: "only_received c c3" by (simp add: c3 c2_def only_received_def log_action_def)
      have flags: "cur = None \<longrightarrow> \<not> initial_frame_forwarded c"
        "\<And>op0 bs. cur = Some (op0, bs) \<Longrightarrow> (op0 = kOpCodeText \<or> op0 = kOpCodeBinary) \<and> (\<not> initial_frame_forwarded c \<longrightarrow> bs = [])"
        using old(4) by (auto simp: message_state_def)
      have "to_send = (if \<not> initial_frame_forwarded c \<and> op = kOpCodeContinuation then fst (the cur) else op)"
        using match expecting old(4) by (auto simp: to_send_def message_state_def split: option.splits)
      then have "post (\<lambda>c'. reader A c' \<and> only_received c3 c') (gone (quota_total A)) (forward_data env to_send fin data n c3)"
        using old(3) add new valid books t v kind(1) flags A(2) taken_up
        by (intro accepted_post [where op = op and cur = cur and don = don and don' = don' and cur' = cur',
              OF connection_only_received [OF cc3 conn] n op])
          (auto simp: c3 c2_def bs_def split: if_splits)
      then show ?thesis by (auto elim: post_mono intro: only_received_trans [OF cc3])
    qed
    have fields: "receiving_text_message c2 = receiving_text_message c" "initial_frame_forwarded c2 = initial_frame_forwarded c"
      "incoming_utf8_validator c2 = incoming_utf8_validator c"
      by (simp_all add: c2_def)
    have known: "(op = kOpCodeContinuation \<or> op = kOpCodeText \<or> op = kOpCodeBinary) = True" using cont by blast
    have body: "HandleDataFrame env op fin data n c =
      (if kind = kOpCodeText
       then Option.bind (buffer_bytes data 0 n) (\<lambda>bytes. Option.bind (AddBytes bytes (incoming_utf8_validator c)) (\<lambda>(state, v).
         if state = INVALID \<or> state = VALID_MIDPOINT \<and> fin
         then FailChannel env ''Could not decode a text frame as UTF-8.''
                (error_value kWebSocketErrorProtocolError) (bytes_of ''Invalid UTF-8 in text frame'')
                (c2\<lparr>incoming_utf8_validator := v\<rparr>)
         else DCHECK (\<not> fin \<or> state = VALID_ENDPOINT)
                (forward_data env to_send fin data n (c2\<lparr>incoming_utf8_validator := v, receiving_text_message := \<not> fin\<rparr>))))
       else forward_data env to_send fin data n c2)"
      unfolding HandleDataFrame_def Let_def c2_def [symmetric] fields kind(2)
        to_send_def [symmetric] known
      using True match by simp
    show ?thesis
    proof (cases "kind = kOpCodeText")
      case False
      have "texts_valid (don', cur')" using old(2) new False by (auto simp: texts_valid_def split: if_splits)
      moreover have "\<not> receiving_text_message c" using False kind(4) by blast
      ultimately have "post (\<lambda>c'. reader A c' \<and> only_received c c') (gone (quota_total A)) (forward_data env to_send fin data n c2)"
        using False kind(3) by (intro fwd [of c2 False "incoming_utf8_validator c"]) (simp_all add: c2_def)
      then show ?thesis using False by (simp add: body)
    next
      case is_text: True
      define v where "v = utf8_run 0 (sofar @ bs)"
      define bad where "bad \<longleftrightarrow> utf8_verdict (sofar @ bs) = INVALID \<or> (utf8_verdict (sofar @ bs) = VALID_MIDPOINT \<and> fin)"
      have added: "AddBytes bs (incoming_utf8_validator c) = Some (utf8_verdict (sofar @ bs), v)"
        using kind(3) is_text by (simp add: AddBytes_text v_def)
      have bytes: "buffer_bytes data 0 n = Some bs" using buffer_bytes_payload [of 0 n data] by (simp add: n bs_def)
      have eq: "HandleDataFrame env op fin data n c =
          (if bad then FailChannel env ''Could not decode a text frame as UTF-8.''
               (error_value kWebSocketErrorProtocolError) (bytes_of ''Invalid UTF-8 in text frame'')
               (c2\<lparr>incoming_utf8_validator := v\<rparr>)
           else DCHECK (\<not> fin \<or> utf8_verdict (sofar @ bs) = VALID_ENDPOINT)
             (forward_data env to_send fin data n (c2\<lparr>incoming_utf8_validator := v, receiving_text_message := \<not> fin\<rparr>)))"
        using added bytes is_text by (simp add: body bad_def)
      show ?thesis
      proof (cases bad)
        case True
        have "connection (c2\<lparr>incoming_utf8_validator := v\<rparr>)" using conn by (simp add: c2_def connection_fields)
        then show ?thesis unfolding eq using True fails by (simp add: c2_def close_fits_defs)
      next
        case False
        note ok = verdict_valid [of "sofar @ bs" fin, folded bad_def, OF False]
        have "texts_valid (don', cur')" using old(2) new ok(1) is_text by (auto simp: texts_valid_def split: if_splits)
        moreover have "v = utf8_run 0 (if \<not> fin \<and> kind = kOpCodeText then sofar @ bs else [])"
          using ok(1) is_text run_valid [of "sofar @ bs"] by (simp add: v_def split: if_splits)
        ultimately have "post (\<lambda>c'. reader A c' \<and> only_received c c') (gone (quota_total A))
            (forward_data env to_send fin data n (c2\<lparr>incoming_utf8_validator := v, receiving_text_message := \<not> fin\<rparr>))"
          using is_text by (intro fwd [OF refl]) simp_all
        then show ?thesis unfolding eq using False ok(2) by simp
      qed
    qed
  qed
qed

section \<open>Frames\<close>

lemma ParseClose_fits:
  assumes "n = length (payload_bytes data)" and "n \<le> 125"
  obtains ok code reason message where "ParseClose data n = Some (ok, code, reason, message)" and "close_fits code reason"
proof (cases "n < kWebSocketCloseCodeLength")
  case True
  then show ?thesis
    by (intro that [of "n = 0" "if n = 0 then 1005 else 1002" "[]"
          "if n = 0 then [] else ''Received a broken close frame containing an invalid size body.''"])
      (simp_all add: ParseClose_def Let_def close_fits_defs)
next
  case False
  define d where "d = payload_bytes data"
  have d: "buffer_bytes data 0 n = Some d" "length d = n"
    using buffer_bytes_payload [of 0 n data] assms(1) by (simp_all add: d_def)
  let ?code = "ReadBigEndian d :: uint16"
  define reserved where "reserved \<longleftrightarrow> ?code = 1005 \<or> ?code = 1006 \<or> ?code = 1015"
  define valid where "valid = valid_utf8 (drop 2 d)"
  have "ParseClose data n = Some
     (if reserved then (False, 1002, [], ''Received a broken close frame containing a reserved status code.'')
      else if valid then (True, ?code, drop 2 d, [])
      else (False, 1002, bytes_of ''Invalid UTF-8 in Close frame'',
            ''Received a broken close frame containing invalid UTF-8.''))"
    using False by (simp add: ParseClose_def Let_def d(1) reserved_def valid_def Validate_valid kWebSocketCloseCodeLength_def)
  then show ?thesis
    using assms(2) d(2)
    by (cases reserved; cases valid; intro that)
      (auto simp: close_fits_defs reserved_def split: if_splits)
qed

definition quiet :: "channel_event \<Rightarrow> bool" where
  "quiet e \<longleftrightarrow> \<not> final_event (Event e) \<and> forwarded_by (Event e) = [] \<and> granted_by (Event e) = 0"

lemma quiet_event:
  assumes "quiet e"
  shows "writer n ends (log_action (Event e) c) = writer n ends c" "reader A (log_action (Event e) c) = reader A c"
    "calm (channel_log (log_action (Event e) c)) = calm (channel_log c)"
  using assms
  by (simp_all add: quiet_def writer_def books_def queued_def is_open_def is_writing_def log_action_def reader_def
      message_state_def del: event_simps(1,18) cong: option.case_cong)

lemma writer_gone: "writer n ends c \<Longrightarrow> reader A c \<Longrightarrow> calm (channel_log c) \<Longrightarrow> gone (quota_total A) c"
  using reader_renderer_ok [of A c] by (auto simp: writer_def queued_def gone_def dest: books_books_closed)

text \<open>Fields that the books do not speak of.\<close>

lemma bookkeeping_fields [simp]:
  "writer n ends (c\<lparr>ch_state := s\<rparr>) = writer n ends c" "reader A (c\<lparr>ch_state := s\<rparr>) = reader A c"
  "is_reading (c\<lparr>ch_state := s\<rparr>) = is_reading c"
  "writer n ends (c\<lparr>close_timer := t\<rparr>) = writer n ends c" "reader A (c\<lparr>close_timer := t\<rparr>) = reader A c"
  "is_reading (c\<lparr>close_timer := t\<rparr>) = is_reading c"
  "writer n ends (c\<lparr>read_frames := fs\<rparr>) = writer n ends c" "reader A (c\<lparr>read_frames := fs\<rparr>) = reader A c"
  "is_reading (c\<lparr>read_frames := fs\<rparr>) = is_reading c"
  "writer n ends (c\<lparr>outgoing_utf8_validator := v\<rparr>) = writer n ends c" "reader A (c\<lparr>outgoing_utf8_validator := v\<rparr>) = reader A c"
  "is_reading (c\<lparr>outgoing_utf8_validator := v\<rparr>) = is_reading c"
  "writer n ends (c\<lparr>sending_text_message := b\<rparr>) = writer n ends c" "reader A (c\<lparr>sending_text_message := b\<rparr>) = reader A c"
  "is_reading (c\<lparr>sending_text_message := b\<rparr>) = is_reading c"
  "writer n ends (c\<lparr>has_received_close_frame := b\<rparr>) = writer n ends c" "reader A (c\<lparr>has_received_close_frame := b\<rparr>) = reader A c"
  "is_reading (c\<lparr>has_received_close_frame := b\<rparr>) = is_reading c"
  "writer n ends (c\<lparr>received_close_code := code\<rparr>) = writer n ends c" "reader A (c\<lparr>received_close_code := code\<rparr>) = reader A c"
  "is_reading (c\<lparr>received_close_code := code\<rparr>) = is_reading c"
  "writer n ends (c\<lparr>received_close_reason := reason\<rparr>) = writer n ends c" "reader A (c\<lparr>received_close_reason := reason\<rparr>) = reader A c"
  "is_reading (c\<lparr>received_close_reason := reason\<rparr>) = is_reading c"
  by (simp_all add: writer_def books_def queued_def is_open_def is_writing_def is_reading_def reader_def message_state_def
      cong: option.case_cong)

text \<open>Everything that holds of a channel in use between two handlers, apart from its reads.\<close>

definition live :: "account \<Rightarrow> web_socket_channel \<Rightarrow> bool" where
  "live A c \<longleftrightarrow>
     connection c \<and> reader A c \<and> (close_timer c = None \<longleftrightarrow> ch_state c = CONNECTED) \<and>
     (has_received_close_frame c \<longleftrightarrow> ch_state c = CLOSE_WAIT) \<and> outgoing_utf8_validator c \<in> set utf8_states"

lemma live_only_wrote:
  "live A c \<Longrightarrow> only_wrote c c' \<Longrightarrow> writer 0 (ch_state c \<noteq> CONNECTED) c' \<Longrightarrow> live A c'"
  by (simp add: live_def connection_def only_wrote_fields only_wrote_logs reader_only_wrote)

lemma live_only_received: "live A c \<Longrightarrow> only_received c c' \<Longrightarrow> reader A c' \<Longrightarrow> live A c'"
  using connection_only_received [of c c'] by (simp add: live_def only_received_fields)

lemma live_gone: "live A c \<Longrightarrow> gone (quota_total A) c"
  by (auto simp: live_def connection_def intro: writer_gone)

lemma live_reader: "live A c \<Longrightarrow> reader A c"
  by (simp add: live_def)

lemma live_account:
  "live A c \<Longrightarrow> quota_total B = quota_total A \<Longrightarrow> data_fragments (taken B) = data_fragments (taken A) \<Longrightarrow>
   \<exists>later. frames_read (channel_log c) = taken B @ later \<Longrightarrow> live B c"
  by (simp add: live_def reader_def)

lemma account_asked [simp]:
  "reader (A\<lparr>asked := b\<rparr>) c = reader A c" "live (A\<lparr>asked := b\<rparr>) c = live A c"
  by (simp_all add: live_def reader_def)

text \<open>
  The result of a handler that runs between reads; \<open>on\<close> tells whether the channel stays connected.
\<close>

definition handled :: "account \<Rightarrow> bool \<Rightarrow> web_socket_channel \<Rightarrow> outcome \<Rightarrow> bool" where
  "handled A on c m \<longleftrightarrow>
     post (\<lambda>c'. live A c' \<and> is_reading c' = is_reading c \<and> (ch_state c' = CONNECTED \<longleftrightarrow> on) \<and>
             frames_read (channel_log c') = frames_read (channel_log c)) (gone (quota_total A)) m"

lemma handled_alive [simp]:
  "handled A on c (Some (CHANNEL_ALIVE, c')) \<longleftrightarrow> live A c' \<and> is_reading c' = is_reading c \<and> (ch_state c' = CONNECTED \<longleftrightarrow> on) \<and>
     frames_read (channel_log c') = frames_read (channel_log c)"
  by (simp add: handled_def)

lemma post_then_handled:
  assumes "post P (gone (quota_total A)) m" and "\<And>e. P e \<Longrightarrow> handled A on c (g e)"
  shows "handled A on c (then_alive m g)"
  using assms unfolding handled_def by (rule post_then)

lemma handled_wrote:
  assumes "live A c" and "post (\<lambda>c'. writer 0 (ch_state c \<noteq> CONNECTED) c' \<and> only_wrote c c') (write_end c) m"
    and "on \<longleftrightarrow> ch_state c = CONNECTED"
  shows "handled A on c m"
  unfolding handled_def
  by (rule post_mono [OF assms(2)])
    (use assms(3) in \<open>auto dest: only_wrote_logs(1,4) only_wrote_fields(1) intro: live_only_wrote [OF assms(1)] write_end_gone [OF live_reader [OF assms(1)]]\<close>)

lemma FailChannel_handled:
  assumes "env_ok env" and "live A c" and "close_fits code reason" and "quota_total B = quota_total A"
  shows "handled B on c (FailChannel env message code reason c)"
  unfolding handled_def
  by (rule post_mono [OF FailChannel_post [where P = "\<lambda>_. False", OF assms(1) _ assms(3)]])
    (use assms(2) in \<open>auto simp: assms(4) live_def dest: write_end_gone\<close>)

lemma HandleClose_handled:
  assumes env: "env_ok env" and live: "live A c" and n: "n = length (payload_bytes data)" "n \<le> 125"
    and st: "ch_state c = CONNECTED \<or> ch_state c = SEND_CLOSED"
  shows "handled A False c (HandleClose env data n c)"
proof -
  obtain ok code reason message where p: "ParseClose data n = Some (ok, code, reason, message)" and fits: "close_fits code reason"
    by (rule ParseClose_fits [OF n])
  show ?thesis
  proof (cases ok)
    case False
    then show ?thesis using FailChannel_handled [OF env live fits refl] by (simp add: HandleClose_def p)
  next
    case True
    show ?thesis
    proof (cases "ch_state c = CONNECTED")
      case False
      then show ?thesis
        using st live True
        by (simp add: HandleClose_def p SetState_def live_def connection_def keep_close_def)
    next
      case conn: True
      define d where "d = c\<lparr>ch_state := RECV_CLOSED\<rparr>"
      have d: "writer 0 False d" "calm (channel_log d)" "reader A d" "ch_state d = RECV_CLOSED"
        using live conn
        by (simp_all add: d_def live_def connection_def)
      have fin: "handled A False c (Option.bind (DCHECK (ch_state e = RECV_CLOSED) (SetState CLOSE_WAIT e))
          (\<lambda>c. Option.bind (DCHECK (close_timer c = None)
                  (Some (c\<lparr>close_timer := Some (underlying_connection_close_timeout c)\<rparr>)))
             (\<lambda>c. then_alive (notify env OnClosingHandshake c) (\<lambda>c. Some (CHANNEL_ALIVE, keep_close code reason c)))))"
        if e: "writer 0 True e" "only_wrote d e" for e
      proof -
        define f where "f = e\<lparr>ch_state := CLOSE_WAIT, close_timer := Some (underlying_connection_close_timeout e)\<rparr>"
        note ef = only_wrote_fields [OF e(2)] and el = only_wrote_logs [OF e(2)]
        have f: "writer 0 True f" "calm (channel_log f)" "reader A f" "is_reading f = is_reading c"
          "frames_read (channel_log f) = frames_read (channel_log c)"
          using e d(2) el(1,4,5) reader_only_wrote [OF e(2), of A] d(3)
          by (simp_all add: f_def d_def)
        have q: "quiet OnClosingHandshake" by (simp add: quiet_def)
        define g where "g = log_action (Event OnClosingHandshake) f"
        have "gone (quota_total A) g" unfolding g_def by (rule writer_gone) (use f quiet_event [OF q] in blast)+
        moreover have "live A (keep_close code reason g) \<and> is_reading (keep_close code reason g) = is_reading c \<and>
            frames_read (channel_log (keep_close code reason g)) = frames_read (channel_log c) \<and>
            ch_state (keep_close code reason g) \<noteq> CONNECTED"
          using f quiet_event(1) [OF q, of 0 True f] quiet_event(2) [OF q, of A f] quiet_event(3) [OF q, of f] ef(8) live
          by (simp add: g_def [symmetric] live_def connection_def keep_close_def)
            (simp add: g_def f_def log_action_def d_def is_reading_def)
        ultimately show ?thesis
          using ef(1,2) live conn
          by (simp add: d(4) SetState_def f_def [symmetric] notify_def Let_def g_def [symmetric] live_def d_def handled_def)
      qed
      have send: "post (\<lambda>c'. writer 0 True c' \<and> only_wrote d c') (gone (quota_total A)) (SendClose env code reason d)"
        by (rule post_mono [OF SendClose_post [OF env _ d(1,2) fits]]) (simp_all add: d(4) write_end_gone [OF d(3)])
      show ?thesis
        using conn True unfolding HandleClose_def p
        by (simp add: SetState_def [of RECV_CLOSED] d_def [symmetric])
          (rule post_then_handled [OF send], rule fin, simp_all)
    qed
  qed
qed

lemma handled_data:
  assumes "live A0 c" and "post (\<lambda>c'. reader A c' \<and> only_received c c') (gone (quota_total A)) m"
    and "on \<longleftrightarrow> ch_state c = CONNECTED"
  shows "handled A on c m"
  unfolding handled_def
proof (rule post_mono [OF assms(2)])
  fix c' assume c': "reader A c' \<and> only_received c c'"
  then have "live A c'"
    using assms(1) connection_only_received [of c c'] only_received_fields [of c c'] by (simp add: live_def)
  then show "live A c' \<and> is_reading c' = is_reading c \<and> (ch_state c' = CONNECTED \<longleftrightarrow> on) \<and>
      frames_read (channel_log c') = frames_read (channel_log c)"
    using c' assms(3) only_received_fields(1,6) [of c c'] only_received_logs(4) [of c c'] by simp
qed

lemma payload_of_bytes: "payload_of f = payload_bytes (frame_data f)"
  by (simp add: payload_of_def payload_bytes_def)

text \<open>The account after a frame that has been read.\<close>

definition account_for :: "web_socket_frame \<Rightarrow> web_socket_channel \<Rightarrow> account \<Rightarrow> account" where
  "account_for f c A = (if ch_state c = CONNECTED then A\<lparr>taken := taken A @ [f]\<rparr> else A)"

lemma account_for_simps [simp]:
  "quota_total (account_for f c A) = quota_total A" "asked (account_for f c A) = asked A"
  by (simp_all add: account_for_def)

lemma HandleFrameByState_handled:
  assumes env: "env_ok env" and live: "live A c"
    and h: "h = frame_header f" and n: "n = length (payload_of f)" "n < 2 ^ 64"
    and ctl: "IsKnownControlOpCode (opcode h) \<Longrightarrow> n \<le> 125"
    and next_frame: "\<exists>later. frames_read (channel_log c) = taken (account_for f c A) @ later"
  shows "handled (account_for f c A) (ch_state c = CONNECTED \<and> \<not> is_close f) c
    (HandleFrameByState env (opcode h) (final h) (frame_data f) n c)"
proof -
  let ?B = "account_for f c A"
  define stays where "stays \<longleftrightarrow> ch_state c = CONNECTED \<and> \<not> is_close f"
  have st: "ch_state c = CONNECTED \<or> ch_state c = SEND_CLOSED \<or> ch_state c = CLOSE_WAIT"
    "writer 0 (ch_state c \<noteq> CONNECTED) c" "calm (channel_log c)" "connection c"
    using live by (auto simp: live_def connection_def)
  have n': "n = length (payload_bytes (frame_data f))" using n(1) by (simp add: payload_of_bytes)
  note fail = FailChannel_handled [OF env live, where B = ?B, OF _ account_for_simps(1)]
  have other: "live ?B c" if "\<not> IsKnownDataOpCode (opcode h) \<or> ch_state c \<noteq> CONNECTED"
    by (rule live_account [OF live _ _ next_frame])
      (use that h in \<open>auto simp: account_for_def data_fragment_def\<close>)
  have data: "handled ?B stays c (HandleDataFrame env (opcode h) (final h) (frame_data f) n c)"
    if k: "IsKnownDataOpCode (opcode h)"
  proof (cases "ch_state c = CONNECTED")
    case False
    then show ?thesis using other by (simp add: HandleDataFrame_def stays_def)
  next
    case True
    show ?thesis
      by (rule handled_data [OF live HandleDataFrame_post [OF env st(4) True live_reader [OF live] n' k _ next_frame]])
        (use True k h in \<open>auto simp: stays_def account_for_def data_fragment_def payload_of_bytes is_close_def opcode_kind_defs\<close>)
  qed
  have pong: "handled ?B stays c (SendFrameFromIOBuffer env True kOpCodePong (frame_data f) n c)"
    if k: "opcode h = kOpCodePing" "ch_state c = CONNECTED"
  proof -
    have "n \<le> 125" using ctl k(1) by (simp add: opcode_kind_defs)
    then have "sent_frame_ok (client_frame True kOpCodePong (frame_data f) n)"
      using n n' by (intro client_frame_ok(1) [where d = "payload_bytes (frame_data f)"])
        (auto simp: opcode_kind_defs payload_bytes_def split: option.splits)
    from SendFrameFromIOBuffer_post [OF env _ _ st(3) this, of 0] k st(2) h show ?thesis
      by (intro handled_wrote [OF other]) (simp_all add: opcode_kind_defs is_close_def stays_def)
  qed
  have close: "handled ?B stays c (HandleClose env (frame_data f) n c)" if k: "opcode h = kOpCodeClose" "ch_state c \<noteq> CLOSE_WAIT"
  proof -
    have "\<not> stays" "live ?B c" using k(1) h other by (auto simp: stays_def is_close_def opcode_kind_defs)
    then show ?thesis
      using st(1) k ctl HandleClose_handled [OF env _ n', of ?B c] by (auto simp: opcode_kind_defs)
  qed
  have alive: "handled ?B stays c (Some (CHANNEL_ALIVE, c))"
    if "opcode h = kOpCodePong \<or> opcode h = kOpCodePing \<and> ch_state c \<noteq> CONNECTED"
    using that other h by (auto simp: stays_def is_close_def opcode_kind_defs)
  have fits: "close_fits (error_value kWebSocketErrorProtocolError) []"
    "close_fits (error_value kWebSocketErrorProtocolError) (bytes_of ''Unknown opcode'')"
    by (simp_all add: close_fits_defs)
  have eq: "HandleFrameByState env (opcode h) (final h) (frame_data f) n c =
    (if ch_state c = CLOSE_WAIT
     then FailChannel env (GetFrameTypeForOpcode (opcode h) @ '' received after close'')
            (error_value kWebSocketErrorProtocolError) [] c
     else if IsKnownDataOpCode (opcode h) then HandleDataFrame env (opcode h) (final h) (frame_data f) n c
     else if opcode h = kOpCodePing \<and> ch_state c = CONNECTED
     then SendFrameFromIOBuffer env True kOpCodePong (frame_data f) n c
     else if opcode h = kOpCodePong \<or> opcode h = kOpCodePing then Some (CHANNEL_ALIVE, c)
     else if opcode h = kOpCodeClose then HandleClose env (frame_data f) n c
     else FailChannel env (''Unrecognized frame opcode: '' @ printed (opcode h))
            (error_value kWebSocketErrorProtocolError) (bytes_of ''Unknown opcode'') c)"
    using st(1) by (auto simp: HandleFrameByState_def IsKnownDataOpCode_def opcode_defs)
  show ?thesis
    unfolding eq stays_def [symmetric] using data pong close alive fail [OF fits(1)] fail [OF fits(2)]
    by (cases "opcode h = kOpCodePing") (simp_all del: handled_alive)
qed

lemma HandleFrame_handled:
  assumes env: "env_ok env" and live: "live A c" and f: "received_frame_ok f"
    and next_frame: "\<exists>later. frames_read (channel_log c) = taken (account_for f c A) @ later"
  shows "handled (account_for f c A) (ch_state c = CONNECTED \<and> \<not> is_close f) c (HandleFrame env f c)"
proof -
  note fail = FailChannel_handled [OF env live, where B = "account_for f c A", OF _ account_for_simps(1)]
  have fits: "close_fits (error_value kWebSocketErrorProtocolError) (bytes_of ''Masked frame from server'')"
    "close_fits (error_value kWebSocketErrorProtocolError) (bytes_of ''Invalid reserved bit'')"
    by (simp_all add: close_fits_defs)
  have "unat (payload_length (frame_header f)) < 2 ^ 64"
    using unsigned_less [of "payload_length (frame_header f)", where 'a = nat] by simp
  then have "handled (account_for f c A) (ch_state c = CONNECTED \<and> \<not> is_close f) c
      (HandleFrameByState env (opcode (frame_header f)) (final (frame_header f)) (frame_data f)
        (unat (payload_length (frame_header f))) c)"
    using f by (intro HandleFrameByState_handled [OF env live refl _ _ _ next_frame])
      (simp_all add: received_frame_ok_def kMaxControlFramePayload_def)
  moreover have "\<not> IsKnownControlOpCode (opcode (frame_header f)) \<or> final (frame_header f)"
    using f by (auto simp: received_frame_ok_def)
  ultimately show ?thesis
    unfolding HandleFrame_def Let_def using fail [OF fits(1)] fail [OF fits(2)] by simp
qed

lemma handled_then:
  assumes "handled A on c m"
    and "\<And>c'. live A c' \<Longrightarrow> is_reading c' = is_reading c \<Longrightarrow> ch_state c' = CONNECTED \<longleftrightarrow> on \<Longrightarrow>
      frames_read (channel_log c') = frames_read (channel_log c) \<Longrightarrow> post P (gone (quota_total A)) (f c')"
  shows "post P (gone (quota_total A)) (then_alive m f)"
  by (rule post_then [OF assms(1) [unfolded handled_def]]) (use assms(2) in blast)

text \<open>
  The account knows the frames read: with \<open>rest\<close> still to be handled the others are those taken up and, once
  the channel is closing, those that came too late. A Close frame ends those taken up, unless the renderer asked first.
\<close>

definition caught_up :: "account \<Rightarrow> web_socket_frame list \<Rightarrow> web_socket_channel \<Rightarrow> bool" where
  "caught_up A rest c \<longleftrightarrow>
     (\<exists>late. frames_read (channel_log c) = taken A @ late @ rest \<and> (ch_state c = CONNECTED \<longrightarrow> late = [])) \<and>
     (ch_state c = CONNECTED \<or> \<not> asked A \<longrightarrow> close_last (ch_state c \<noteq> CONNECTED) (taken A))"

lemma caught_up_next:
  assumes "caught_up A (f # fs) c" and "ch_state c' = CONNECTED \<longleftrightarrow> ch_state c = CONNECTED \<and> \<not> is_close f"
    and "frames_read (channel_log c') = frames_read (channel_log c)"
  shows "\<exists>later. frames_read (channel_log c) = taken (account_for f c A) @ later" and "caught_up (account_for f c A) fs c'"
proof -
  obtain late where late: "frames_read (channel_log c) = taken A @ late @ f # fs" "ch_state c = CONNECTED \<longrightarrow> late = []"
    using assms(1) by (auto simp: caught_up_def)
  then show "\<exists>later. frames_read (channel_log c) = taken (account_for f c A) @ later" by (simp add: account_for_def)
  show "caught_up (account_for f c A) fs c'"
  proof (cases "ch_state c = CONNECTED")
    case True
    then have "close_last False (taken A)" using assms(1) by (simp add: caught_up_def)
    then have "close_last (is_close f) (taken A @ [f])" by (rule close_last_snoc)
    then show ?thesis using True late assms(2,3) by (simp add: caught_up_def account_for_def)
  next
    case False
    then have "frames_read (channel_log c') = taken A @ (late @ [f]) @ fs" using late assms(3) by simp
    then show ?thesis using False assms(1,2) unfolding caught_up_def account_for_def by auto
  qed
qed

text \<open>What holds of a channel between two reads, with the frames that have been taken up.\<close>

definition between_reads :: "account \<Rightarrow> web_socket_channel \<Rightarrow> bool" where
  "between_reads A c \<longleftrightarrow> (\<exists>fs. live (A\<lparr>taken := fs\<rparr>) c \<and> caught_up (A\<lparr>taken := fs\<rparr>) [] c)"

lemma between_readsI: "live A c \<Longrightarrow> caught_up A [] c \<Longrightarrow> between_reads A c"
  unfolding between_reads_def by (rule exI [of _ "taken A"]) simp

lemma between_reads_taken [simp]: "between_reads (A\<lparr>taken := fs\<rparr>) c = between_reads A c"
  by (simp add: between_reads_def)

lemma between_reads_account_for [simp]: "between_reads (account_for f d A) c = between_reads A c"
  by (simp add: account_for_def)

lemma handle_frames_handled:
  assumes env: "env_ok env"
  shows "live A c \<Longrightarrow> caught_up A fs c \<Longrightarrow> \<forall>f \<in> set fs. received_frame_ok f \<Longrightarrow>
    post (\<lambda>c'. between_reads A c' \<and> is_reading c' = is_reading c) (gone (quota_total A)) (handle_frames env fs c)"
proof (induction fs arbitrary: A c)
  case Nil
  then show ?case by (simp add: between_readsI)
next
  case (Cons f fs)
  let ?on = "ch_state c = CONNECTED \<and> \<not> is_close f" and ?B = "account_for f c A"
  have step: "handled ?B ?on c (HandleFrame env f c)"
    using Cons.prems caught_up_next(1) [OF Cons.prems(2), of "c\<lparr>ch_state := if ?on then CONNECTED else CLOSED\<rparr>"]
    by (intro HandleFrame_handled [OF env Cons.prems(1)]) simp_all
  have "post (\<lambda>c'. between_reads A c' \<and> is_reading c' = is_reading c) (gone (quota_total ?B))
      (then_alive (HandleFrame env f c) (handle_frames env fs))"
  proof (rule handled_then [OF step])
    fix c' assume c': "live ?B c'" "is_reading c' = is_reading c" "ch_state c' = CONNECTED \<longleftrightarrow> ?on"
      "frames_read (channel_log c') = frames_read (channel_log c)"
    from Cons.IH [OF c'(1) caught_up_next(2) [OF Cons.prems(2) c'(3,4)]] Cons.prems(3) c'(2)
    show "post (\<lambda>c'. between_reads A c' \<and> is_reading c' = is_reading c) (gone (quota_total ?B)) (handle_frames env fs c')"
      by simp
  qed
  then show ?case by simp
qed

section \<open>Reading\<close>

text \<open>
  A channel in use between two calls: a read is pending whenever there is quota for its data.
\<close>

definition settled :: "account \<Rightarrow> web_socket_channel \<Rightarrow> bool" where
  "settled A c \<longleftrightarrow> between_reads A c \<and> read_frames c = [] \<and> (is_reading c \<longleftrightarrow> current_receive_quota c > 0)"

lemma settledE:
  assumes "settled A c"
  obtains fs where "live (A\<lparr>taken := fs\<rparr>) c" and "caught_up (A\<lparr>taken := fs\<rparr>) [] c" and "read_frames c = []"
    and "is_reading c \<longleftrightarrow> current_receive_quota c > 0"
  using assms by (auto simp: settled_def between_reads_def)

lemma settledI:
  "live A c \<Longrightarrow> caught_up A [] c \<Longrightarrow> read_frames c = [] \<Longrightarrow> is_reading c \<longleftrightarrow> current_receive_quota c > 0 \<Longrightarrow> settled A c"
  by (simp add: settled_def between_readsI)

lemma settled_taken [simp]:
  "settled (A\<lparr>taken := fs\<rparr>) c = settled A c" "settled (A\<lparr>taken := fs, asked := b\<rparr>) c = settled (A\<lparr>asked := b\<rparr>) c"
  by (simp_all add: settled_def between_reads_def)

lemma live_fields [simp]: "live A (c\<lparr>read_frames := fs\<rparr>) = live A c"
  by (simp add: live_def connection_def)

lemma between_reads_fields [simp]: "between_reads A (c\<lparr>read_frames := fs\<rparr>) = between_reads A c"
  by (simp add: between_reads_def caught_up_def)

lemma live_state: "live A c \<Longrightarrow> ch_state c \<notin> {FRESHLY_CONSTRUCTED, CONNECTING, CLOSED, RECV_CLOSED}"
  by (auto simp: live_def connection_def)

lemma between_reads_state: "between_reads A c \<Longrightarrow> ch_state c \<notin> {FRESHLY_CONSTRUCTED, CONNECTING, CLOSED, RECV_CLOSED}"
  using live_state by (auto simp: between_reads_def)

lemma OnReadDone_OK:
  assumes env: "env_ok env" and live: "live A c" and taken: "caught_up A (read_frames c) c"
    and fs: "read_ok (None, read_frames c)"
    and go: "\<And>c'. between_reads A c' \<Longrightarrow> is_reading c' = is_reading c \<Longrightarrow> read_frames c' = [] \<Longrightarrow>
      post P (gone (quota_total A)) (if synchronous then Some (CHANNEL_ALIVE, c') else go c')"
  shows "post P (gone (quota_total A)) (OnReadDone go env synchronous None c)"
proof -
  have "post P (gone (quota_total A)) (then_alive (handle_frames env (read_frames c) c)
      (\<lambda>c. let c = c\<lparr>read_frames := []\<rparr>
           in DCHECK (ch_state c \<noteq> CLOSED) (if \<not> synchronous then go c else Some (CHANNEL_ALIVE, c))))"
  proof (rule post_then [OF handle_frames_handled [OF env live taken]])
    show "\<forall>f \<in> set (read_frames c). received_frame_ok f" using fs by (simp add: read_ok_def)
    fix c' assume c': "between_reads A c' \<and> is_reading c' = is_reading c"
    have "post P (gone (quota_total A)) (if synchronous then Some (CHANNEL_ALIVE, c'\<lparr>read_frames := []\<rparr>) else go (c'\<lparr>read_frames := []\<rparr>))"
      by (rule go) (use c' in simp_all)
    then show "post P (gone (quota_total A)) (let c = c'\<lparr>read_frames := []\<rparr>
           in DCHECK (ch_state c \<noteq> CLOSED) (if \<not> synchronous then go c else Some (CHANNEL_ALIVE, c)))"
      using between_reads_state [of A c'] c' by (simp add: Let_def split: if_splits)
  qed
  then show ?thesis using live_state [OF live] fs by (simp add: OnReadDone_def read_ok_def)
qed

lemma close_and_drop_gone:
  assumes "env_ok env" and "live A c"
  shows "post P (gone (quota_total A)) (close_and_drop env was_clean code reason c)"
proof (rule post_mono [OF close_and_drop_post [where P = P, OF assms(1)]])
  show "calm (channel_log c)" "is_open c" "ch_state c \<noteq> CLOSED"
    using assms(2) by (auto simp: live_def connection_def writer_def)
  fix c' :: web_socket_channel assume "same_logs (channel_log c) (channel_log c')"
  then show "gone (quota_total A) c'"
    using live_gone [OF assms(2)] \<open>calm (channel_log c)\<close> by (simp add: same_logs_def gone_def books_closed_def renderer_ok_def)
qed

lemma OnReadDone_error:
  assumes "env_ok env" and "live A c" and "e \<noteq> ERR_IO_PENDING"
  shows "post P (gone (quota_total A)) (OnReadDone go env synchronous (Some e) c)"
proof -
  have "post P (gone (quota_total A)) (FailChannel env m (error_value kWebSocketErrorProtocolError) (bytes_of ''WebSocket Protocol Error'') c)" for m
    by (rule post_mono [OF FailChannel_post [where P = P, OF assms(1)]])
      (use assms(2) in \<open>auto simp: live_def close_fits_defs intro: write_end_gone\<close>)
  then show ?thesis
    using live_state [OF assms(2)] assms(3) close_and_drop_gone [OF assms(1,2)] by (simp add: OnReadDone_def)
qed

lemma stream_ReadFrames_live:
  assumes "live A c" and "caught_up A [] c" and "\<not> is_reading c" and "read_frames c = []"
  obtains d where "stream_ReadFrames outcome c = Some d" and "live A d" and
    "caught_up A (if fst outcome = None then snd outcome else []) d" and
    "current_receive_quota d = current_receive_quota c"
    "is_reading d \<longleftrightarrow> fst outcome = Some ERR_IO_PENDING"
    "read_frames d = (if fst outcome = Some ERR_IO_PENDING then [] else snd outcome)"
proof -
  obtain st where st: "stream c = Some st" "\<not> closed st" "\<not> reading st"
    using assms(1,3) by (auto simp: live_def connection_def writer_def is_open_def is_reading_def split: option.splits)
  define c1 where "c1 = log_action (StreamRead outcome) c"
  have later: "\<exists>later. frames_read (channel_log c) @ fs = taken A @ later" for fs
    using assms(2) by (auto simp: caught_up_def)
  define d where "d = (if fst outcome = Some ERR_IO_PENDING then c1\<lparr>stream := Some (st\<lparr>reading := True\<rparr>)\<rparr>
    else c1\<lparr>read_frames := snd outcome\<rparr>)"
  have "stream_ReadFrames outcome c = Some d"
    using st assms(4) by (simp add: stream_ReadFrames_def d_def c1_def Let_def)
  moreover have "live A c1" "live A (c1\<lparr>stream := Some (st\<lparr>reading := True\<rparr>)\<rparr>)"
    using assms(1) st later
    by (simp_all add: live_def connection_def c1_def log_action_def writer_def books_def queued_def is_open_def is_writing_def
        reader_def message_state_def frames_read_by_def cong: option.case_cong)
  moreover have "caught_up A (if fst outcome = None then snd outcome else []) d"
    using assms(2) by (cases outcome) (auto simp: caught_up_def d_def c1_def log_action_def frames_read_by_def)
  ultimately show ?thesis
    using st assms(3,4) by (intro that [of d]) (simp_all add: d_def c1_def log_action_def is_reading_def)
qed

lemma read_frames_loop_settles:
  assumes env: "env_ok env"
  shows "between_reads A c \<Longrightarrow> \<not> is_reading c \<Longrightarrow> read_frames c = [] \<Longrightarrow> \<forall>r \<in> set results. read_ok r \<Longrightarrow>
    post (settled A) (gone (quota_total A)) (read_frames_loop env results c)"
proof (induction results arbitrary: c)
  case Nil
  obtain fs where fs: "live (A\<lparr>taken := fs\<rparr>) c" "caught_up (A\<lparr>taken := fs\<rparr>) [] c"
    using Nil(1) by (auto simp: between_reads_def)
  obtain d where "stream_ReadFrames (Some ERR_IO_PENDING, []) c = Some d" "live (A\<lparr>taken := fs\<rparr>) d"
    "caught_up (A\<lparr>taken := fs\<rparr>) [] d" "current_receive_quota d = current_receive_quota c" "is_reading d" "read_frames d = []"
    by (rule stream_ReadFrames_live [OF fs Nil(2,3), of "(Some ERR_IO_PENDING, [])"]) simp
  moreover from this(2,3) have "between_reads (A\<lparr>taken := fs\<rparr>) d" by (rule between_readsI)
  ultimately show ?case using Nil between_reads_state [of A d] by (simp add: settled_def)
next
  case (Cons r results)
  obtain fs where fs: "live (A\<lparr>taken := fs\<rparr>) c" "caught_up (A\<lparr>taken := fs\<rparr>) [] c"
    using Cons.prems(1) by (auto simp: between_reads_def)
  let ?B = "A\<lparr>taken := fs\<rparr>"
  obtain d where d: "stream_ReadFrames r c = Some d" "live ?B d" "current_receive_quota d = current_receive_quota c"
    "is_reading d \<longleftrightarrow> fst r = Some ERR_IO_PENDING" "read_frames d = (if fst r = Some ERR_IO_PENDING then [] else snd r)"
    "caught_up ?B (if fst r = None then snd r else []) d"
    by (rule stream_ReadFrames_live [OF fs Cons.prems(2,3)])
  define rest where "rest = (\<lambda>c. DCHECK (ch_state c \<noteq> CLOSED)
      (if fst r = None then read_frames_loop env results c else Some (CHANNEL_ALIVE, c)))"
  have eq: "read_frames_loop env (r # results) c =
    (if current_receive_quota c > 0
     then then_alive (if fst r \<noteq> Some ERR_IO_PENDING then OnReadDone (\<lambda>c. None) env True (fst r) d
                      else Some (CHANNEL_ALIVE, d)) rest
     else Some (CHANNEL_ALIVE, c))"
    using d(1) by (cases r) (simp add: rest_def)
  have again: "post (settled A) (gone (quota_total A)) (rest c')" if "between_reads A c'" "\<not> is_reading c'" "read_frames c' = []" "fst r = None" for c'
    using Cons.IH [OF that(1-3)] Cons.prems(4) between_reads_state [OF that(1)] that(4) by (simp add: rest_def)
  show ?case
  proof (cases "current_receive_quota c > 0")
    case False
    then show ?thesis unfolding eq using Cons.prems(1-3) by (simp add: settled_def)
  next
    case True
    show ?thesis
    proof (cases "fst r")
      case None
      have "post (\<lambda>c'. between_reads A c' \<and> is_reading c' = is_reading d \<and> read_frames c' = []) (gone (quota_total ?B))
          (OnReadDone (\<lambda>c. None) env True None d)"
        using Cons.prems(4) None d(5,6) by (intro OnReadDone_OK [OF env d(2)]) (cases r; simp)+
      then have "post (settled A) (gone (quota_total ?B)) (then_alive (OnReadDone (\<lambda>c. None) env True None d) rest)"
        by (rule post_then) (use again None d(4) in simp)
      then show ?thesis unfolding eq using True None by simp
    next
      case (Some e)
      show ?thesis
      proof (cases "e = ERR_IO_PENDING")
        case True
        then show ?thesis
          unfolding eq using Some d live_state [OF d(2)] between_readsI [OF d(2)] \<open>current_receive_quota c > 0\<close>
          by (simp add: rest_def settled_def)
      next
        case False
        have "post (\<lambda>_. False) (gone (quota_total A)) (OnReadDone (\<lambda>c. None) env True (Some e) d)"
          using OnReadDone_error [OF env d(2) False, of "\<lambda>_. False"] by simp
        then have "post (settled A) (gone (quota_total A)) (then_alive (OnReadDone (\<lambda>c. None) env True (Some e) d) rest)"
          by (rule post_then) simp
        then show ?thesis unfolding eq using True Some False by simp
      qed
    qed
  qed
qed

lemma Channel_ReadFrames_settles:
  assumes "env_ok env" and "between_reads A c" and "\<not> is_reading c" and "read_frames c = []"
  shows "post (settled A) (gone (quota_total A)) (Channel_ReadFrames env c)"
  unfolding Channel_ReadFrames_def
  by (rule read_frames_loop_settles [OF assms]) (use env_okD(3) [OF assms(1)] in blast)

section \<open>Flow control\<close>

text \<open>One frame of the queue, or the part of it that the quota \<open>b\<close> allows, goes to the renderer.\<close>

lemma reader_hand_over:
  assumes rd: "reader A c" and ps: "pending_received_frames c = front # rest" and b: "b \<le> prf_size front - prf_offset front"
  defines "bs \<equiv> take b (drop (prf_offset front) (payload_bytes (prf_data front)))"
    and "whole \<equiv> b = prf_size front - prf_offset front"
  shows "buffer_bytes (prf_data front) (prf_offset front) b = Some bs"
    and "\<not> whole \<Longrightarrow> reader (grant b A) ((log_action (Event (OnDataFrame False (prf_opcode front) bs)) c)
      \<lparr>pending_received_frames := front\<lparr>prf_offset := prf_offset front + b, prf_opcode := kOpCodeContinuation\<rparr> # rest\<rparr>)"
    and "whole \<Longrightarrow> reader (grant b A) ((log_action (Event (OnDataFrame (prf_final front) (prf_opcode front) bs)) c)
      \<lparr>pending_received_frames := rest\<rparr>)"
proof -
  let ?p = "payload_bytes (prf_data front)"
  have ok: "prf_offset front \<le> prf_size front" "length ?p = prf_size front" "IsKnownDataOpCode (prf_opcode front)"
    using rd ps by (auto simp: reader_def prf_ok_def)
  show bytes: "buffer_bytes (prf_data front) (prf_offset front) b = Some bs"
    using ok b by (simp add: bs_def buffer_bytes_payload)
  have len: "length bs = b" using ok b by (simp add: bs_def)
  obtain don cur where asm: "assemble (data_fragments (taken A)) = Some (don, cur)" "texts_valid (don, cur)" "message_state cur c"
    "assemble (forwarded (channel_log c) @ fragment_of front # map fragment_of rest) =
      Some (don, if initial_frame_forwarded c then cur else None)"
    using rd ps by (auto simp: reader_def)
  have cut: "bs @ drop (prf_offset front + b) ?p = drop (prf_offset front) ?p"
    unfolding bs_def add.commute [of _ b] drop_drop [symmetric] by (rule append_take_drop_id)
  have state: "message_state cur ((log_action e c)\<lparr>pending_received_frames := p\<rparr>)" for e p
    using asm(3) by (simp add: message_state_def log_action_def cong: option.case_cong)
  show "reader (grant b A) ((log_action (Event (OnDataFrame False (prf_opcode front) bs)) c)
      \<lparr>pending_received_frames := front\<lparr>prf_offset := prf_offset front + b, prf_opcode := kOpCodeContinuation\<rparr> # rest\<rparr>)"
    if "\<not> whole"
  proof -
    have "assemble (forwarded (channel_log c) @ (prf_opcode front, False, bs) #
        (kOpCodeContinuation, prf_final front, drop (prf_offset front + b) ?p) # map fragment_of rest) =
        Some (don, if initial_frame_forwarded c then cur else None)"
      using asm(4) unfolding assemble_cut by (simp add: fragment_of_def cut)
    then show ?thesis
      using asm(1,2) state ok rd ps len b
      by (simp add: reader_def log_action_def fragment_of_def prf_ok_def opcode_kind_defs)
  qed
  show "reader (grant b A) ((log_action (Event (OnDataFrame (prf_final front) (prf_opcode front) bs)) c)
      \<lparr>pending_received_frames := rest\<rparr>)" if whole
  proof -
    have "fragment_of front = (prf_opcode front, prf_final front, bs)"
      using that ok by (simp add: fragment_of_def bs_def whole_def)
    then show ?thesis
      using asm(1,2,4) state rd ps len by (simp add: reader_def log_action_def)
  qed
qed

definition flow_result :: "account \<Rightarrow> int \<Rightarrow> web_socket_channel \<Rightarrow> channel_state + int \<Rightarrow> web_socket_channel \<Rightarrow> bool" where
  "flow_result A quota c r c' \<longleftrightarrow>
     only_received c c' \<and> current_receive_quota c' = current_receive_quota c \<and>
     (case r of
        Inl CHANNEL_DELETED \<Rightarrow> renderer_ok (quota_total A + nat quota) (channel_log c')
      | Inl CHANNEL_ALIVE \<Rightarrow> reader (grant (nat quota) A) c' \<and> pending_received_frames c \<noteq> []
      | Inr q \<Rightarrow> 0 \<le> q \<and> q \<le> quota \<and> reader (grant (nat (quota - q)) A) c' \<and> (q > 0 \<longrightarrow> pending_received_frames c' = []))"

lemma send_pending_result:
  "reader A c \<Longrightarrow> pending_received_frames c = ps \<Longrightarrow> 0 \<le> quota \<Longrightarrow>
   \<exists>r c'. send_pending env ps quota c = Some (r, c') \<and> flow_result A quota c r c'"
proof (induction ps arbitrary: A c quota)
  case Nil
  then show ?case by (simp add: flow_result_def)
next
  case (Cons front rest)
  define size where "size = prf_size front - prf_offset front"
  define b where "b = min (nat quota) size"
  define bs where "bs = take b (drop (prf_offset front) (payload_bytes (prf_data front)))"
  define fin where "fin \<longleftrightarrow> prf_final front \<and> size = b"
  define d where "d = log_action (Event (OnDataFrame fin (prf_opcode front) bs)) c"
  have ok: "prf_offset front \<le> prf_size front" "IsKnownDataOpCode (prf_opcode front)"
    using Cons.prems(1,2) by (auto simp: reader_def prf_ok_def)
  have le: "b \<le> prf_size front - prf_offset front" by (simp add: b_def size_def)
  note hand = reader_hand_over [OF Cons.prems(1,2) le, folded bs_def]
  show ?case
  proof (cases "quota > 0")
    case False
    then have "quota = 0" using Cons.prems(3) by simp
    then show ?thesis using Cons.prems(1,2) by (simp add: flow_result_def)
  next
    case pos: True
    define e where "e = (if b < size
      then d\<lparr>pending_received_frames := front\<lparr>prf_offset := prf_offset front + b, prf_opcode := kOpCodeContinuation\<rparr> # rest\<rparr>
      else d\<lparr>pending_received_frames := rest\<rparr>)"
    have re: "reader (grant b A) e"
    proof (cases "b < size")
      case True
      then have "fin = False" by (simp add: fin_def)
      then show ?thesis using hand(2) True by (simp add: e_def d_def size_def)
    next
      case False
      then have "b = size" using b_def by simp
      then show ?thesis using hand(3) by (simp add: e_def d_def size_def fin_def)
    qed
    have logs: "channel_log e = channel_log d" "only_received c e" "only_received c d"
      "current_receive_quota e = current_receive_quota c" "current_receive_quota d = current_receive_quota c"
      by (simp_all add: e_def d_def only_received_def log_action_def)
    have "renderer_ok (quota_total A + nat quota) (channel_log d)"
      using reader_renderer_ok [OF re] pos by (auto simp: renderer_ok_def logs(1) b_def)
    then have gone: "flow_result A quota c (Inl CHANNEL_DELETED) d" using logs by (simp add: flow_result_def)
    have eq: "send_pending env (front # rest) quota c =
        (if deletes env (OnDataFrame fin (prf_opcode front) bs) d then Some (Inl CHANNEL_DELETED, d)
         else if b < size then Some (Inl CHANNEL_ALIVE, e)
         else send_pending env rest (quota - int b) e)"
      using pos hand(1) ok le
      by (simp add: Let_def size_def [symmetric] b_def [symmetric] fin_def [symmetric] notify_def d_def [symmetric]
          DidConsume_def ResetOpcode_def e_def) (auto simp: d_def fin_def)
    show ?thesis
    proof (cases "deletes env (OnDataFrame fin (prf_opcode front) bs) d")
      case True
      then show ?thesis using gone eq by simp
    next
      case alive: False
      show ?thesis
      proof (cases "b < size")
        case True
        then have "flow_result A quota c (Inl CHANNEL_ALIVE) e"
          using re logs Cons.prems(2) by (auto simp: flow_result_def b_def)
        then show ?thesis using eq alive True by simp
      next
        case False
        then have pe: "pending_received_frames e = rest" by (simp add: e_def)
        have q: "0 \<le> quota - int b" using Cons.prems(3) b_def by auto
        obtain r c' where r: "send_pending env rest (quota - int b) e = Some (r, c')" "flow_result (grant b A) (quota - int b) e r c'"
          using Cons.IH [OF re pe q] by blast
        have "b + nat (quota - int b) = nat quota" "\<And>x. x \<le> quota - int b \<Longrightarrow> b + nat (quota - int b - x) = nat (quota - x)"
          using q by linarith+
        then have "flow_result A quota c r c'"
          using r(2) logs Cons.prems(2) q by (auto simp: flow_result_def pe add.assoc intro: only_received_trans [OF logs(2)] split: sum.splits channel_state.splits)
        then show ?thesis using eq alive False r(1) by simp
      qed
    qed
  qed
qed

section \<open>Operations on a connection\<close>

lemma between_reads_only_wrote:
  assumes "between_reads A c" and "only_wrote c c'" and "writer 0 (ch_state c \<noteq> CONNECTED) c'"
  shows "between_reads A c'"
  using assms live_only_wrote [OF _ assms(2,3)]
  by (auto simp: between_reads_def caught_up_def only_wrote_fields only_wrote_logs(4))

lemma between_reads_facts:
  assumes "between_reads A c"
  shows "connection c" and "close_timer c = None \<longleftrightarrow> ch_state c = CONNECTED" and "gone (quota_total A) c"
    and "outgoing_utf8_validator c \<in> set utf8_states" and "write_end c c' \<Longrightarrow> gone (quota_total A) c'"
proof -
  obtain fs where "live (A\<lparr>taken := fs\<rparr>) c" using assms by (auto simp: between_reads_def)
  then show "connection c" "close_timer c = None \<longleftrightarrow> ch_state c = CONNECTED" "gone (quota_total A) c"
    "outgoing_utf8_validator c \<in> set utf8_states" "write_end c c' \<Longrightarrow> gone (quota_total A) c'"
    using live_gone [of "A\<lparr>taken := fs\<rparr>" c] write_end_gone [of "A\<lparr>taken := fs\<rparr>" c c'] by (auto simp: live_def)
qed

lemmas settled_facts = between_reads_facts [OF conjunct1 [OF settled_def [THEN iffD1]]]

lemma IsStrictlyValidCloseStatusCode_spec:
  assumes "0 \<le> code" and "code < 65536"
  shows "IsStrictlyValidCloseStatusCode code =
    Some (1000 \<le> code \<and> code \<le> 1005 \<or> 1007 \<le> code \<and> code \<le> 1013 \<or> 3000 \<le> code \<and> code \<le> 4999)"
  using assms by (auto simp: IsStrictlyValidCloseStatusCode_def kInvalidRanges_def)

lemma settled_wrote:
  assumes "settled A c" and "post (\<lambda>c'. writer 0 (ch_state c \<noteq> CONNECTED) c' \<and> only_wrote c c') (write_end c) m"
  shows "post (settled A) (gone (quota_total A)) m"
proof (rule post_mono [OF assms(2)])
  fix c' assume c': "writer 0 (ch_state c \<noteq> CONNECTED) c' \<and> only_wrote c c'"
  then have "between_reads A c'" using assms(1) between_reads_only_wrote [of A c c'] by (simp add: settled_def)
  then show "settled A c'"
    using assms(1) c' only_wrote_fields [of c c'] only_wrote_logs(1) [of c c'] by (simp add: settled_def)
next
  fix c' assume "write_end c c'"
  then show "gone (quota_total A) c'" using assms(1) settled_facts(5) by blast
qed

lemma settled_fails:
  assumes "env_ok env" and "settled A c" and "close_fits code reason"
  shows "post P (gone (quota_total A)) (FailChannel env message code reason c)"
  by (rule post_mono [OF FailChannel_post [where P = P, OF assms(1)]])
    (use assms(3) settled_facts(1,5) [OF assms(2)] in auto)

lemma SendFrame_settled:
  assumes env: "env_ok env" and s: "settled A c" and op: "IsKnownDataOpCode op" and len: "length data \<le> INT_MAX"
  shows "post (settled A) (gone (quota_total A)) (SendFrame env fin op data c)"
proof -
  note conn = settled_facts(1) [OF s]
  have st: "ch_state c \<noteq> RECV_CLOSED" "stream c \<noteq> None" "0 \<le> current_send_quota c"
    using conn by (auto simp: connection_def writer_def is_open_def books_def split: option.splits)
  have fits: "close_fits (error_value kWebSocketErrorGoingAway) []" by (simp add: close_fits_defs)
  show ?thesis
  proof (cases "ch_state c = CONNECTED \<and> int (length data) \<le> current_send_quota c")
    case False
    then show ?thesis
      using conn st len s settled_fails [OF env s fits, of "settled A"]
      by (auto simp: SendFrame_def InClosingState_def connection_def)
  next
    case True
    let ?send = "\<lambda>c. SendFrameFromIOBuffer env fin op (Some data) (length data)
      (c\<lparr>current_send_quota := current_send_quota c - int (length data)\<rparr>)"
    have send: "post (settled A) (gone (quota_total A)) (?send d)"
      if d: "settled A d" "ch_state d = CONNECTED" "current_send_quota d = current_send_quota c" for d
    proof -
      define e where "e = d\<lparr>current_send_quota := current_send_quota d - int (length data)\<rparr>"
      have "only_wrote d e" by (simp add: e_def only_wrote_def is_reading_def is_open_def)
      have w: "writer (length data) False e"
        using settled_facts(1) [OF d(1)] d True by (auto simp: e_def connection_def writer_def books_def is_open_def is_writing_def queued_def)
      have ok: "sent_frame_ok (client_frame fin op (Some data) (length data))"
        by (rule client_frame_ok) (use op len in \<open>auto simp: opcode_kind_defs INT_MAX_def\<close>)
      have "post (\<lambda>c'. writer 0 (op = kOpCodeClose) c' \<and> only_wrote e c') (write_end e)
          (SendFrameFromIOBuffer env fin op (Some data) (length data) e)"
        by (rule SendFrameFromIOBuffer_post [OF env _ w _ ok])
          (use settled_facts(1) [OF d(1)] d(2) op in \<open>auto simp: e_def connection_def payload_of_def\<close>)
      moreover have "op \<noteq> kOpCodeClose" using op by (auto simp: opcode_kind_defs)
      ultimately have "post (\<lambda>c'. writer 0 (ch_state d \<noteq> CONNECTED) c' \<and> only_wrote d c') (write_end d) (?send d)"
        using d(2) by (auto simp: e_def [symmetric] elim!: post_mono
            intro: only_wrote_trans [OF \<open>only_wrote d e\<close>] only_wrote_end [OF \<open>only_wrote d e\<close>])
      then show ?thesis by (rule settled_wrote [OF d(1)])
    qed
    have bits: "settled A (c\<lparr>outgoing_utf8_validator := v\<rparr>)" if "v \<in> set utf8_states" for v
      using s that by (auto simp: settled_def between_reads_def caught_up_def live_def connection_def)
    have bits2: "settled A (d\<lparr>sending_text_message := b\<rparr>) = settled A d" for d b
      by (simp add: settled_def between_reads_def caught_up_def live_def connection_def)
    have added: "AddBytes data (outgoing_utf8_validator c) = Some (r, v) \<Longrightarrow> v \<in> set utf8_states" for r v
      using add_bytes_run [of "outgoing_utf8_validator c" data] run_states [of "outgoing_utf8_validator c" data] settled_facts(4) [OF s]
      by (auto simp: AddBytes_def)
    obtain r v where add: "AddBytes data (outgoing_utf8_validator c) = Some (r, v)"
      using add_bytes_run [of "outgoing_utf8_validator c" data] settled_facts(4) [OF s] by (auto simp: AddBytes_def)
    define is_text where "is_text \<longleftrightarrow> op = kOpCodeText \<or> (op = kOpCodeContinuation \<and> sending_text_message c)"
    define bad where "bad \<longleftrightarrow> r = INVALID \<or> (r = VALID_MIDPOINT \<and> fin)"
    have eq: "SendFrame env fin op data c =
        (if is_text
         then if bad
              then FailChannel env ''Browser sent a text frame containing invalid UTF-8''
                     (error_value kWebSocketErrorGoingAway) [] (c\<lparr>outgoing_utf8_validator := v\<rparr>)
              else ?send (c\<lparr>outgoing_utf8_validator := v, sending_text_message := \<not> fin\<rparr>)
         else ?send c)"
      using True st len op add
      by (cases r) (auto simp: SendFrame_def InClosingState_def DCHECK_def is_text_def bad_def)
    show ?thesis
      using send [OF s] send [of "c\<lparr>outgoing_utf8_validator := v, sending_text_message := \<not> fin\<rparr>"] True
        bits [OF added [OF add]] bits2 settled_fails [OF env bits [OF added [OF add]] fits]
      by (cases is_text; cases bad) (simp_all add: eq)
  qed
qed

lemma settled_asked:
  assumes "settled A c"
  shows "settled (A\<lparr>asked := True\<rparr>) c"
proof -
  obtain fs where fs: "live (A\<lparr>taken := fs\<rparr>) c" "caught_up (A\<lparr>taken := fs\<rparr>) [] c" "read_frames c = []"
    "is_reading c \<longleftrightarrow> current_receive_quota c > 0"
    using assms by (rule settledE)
  have "caught_up (A\<lparr>taken := fs, asked := True\<rparr>) [] c" using fs(2) by (auto simp: caught_up_def)
  then have "settled (A\<lparr>taken := fs, asked := True\<rparr>) c" using fs by (intro settledI) simp_all
  then show ?thesis by simp
qed

lemma StartClosingHandshake_settled:
  assumes env: "env_ok env" and s: "settled A c" and code: "code = 1005 \<longrightarrow> reason = []"
  shows "post (settled (A\<lparr>asked := True\<rparr>)) (gone (quota_total A)) (StartClosingHandshake env code reason c)"
proof (cases "ch_state c = CONNECTED")
  case False
  then show ?thesis
    using settled_asked [OF s] settled_facts(1) [OF s]
    by (auto simp: StartClosingHandshake_def InClosingState_def connection_def)
next
  case True
  define d where "d = c\<lparr>close_timer := Some (closing_handshake_timeout c)\<rparr>"
  obtain fs where live: "live (A\<lparr>taken := fs\<rparr>) c" "caught_up (A\<lparr>taken := fs\<rparr>) [] c" using s by (rule settledE)
  let ?B = "A\<lparr>taken := fs\<rparr>"
  have d: "writer 0 False d" "calm (channel_log d)" "reader ?B d" "ch_state d = CONNECTED"
    using live(1) True by (simp_all add: d_def live_def connection_def)
  define valid where "valid \<longleftrightarrow> 1000 \<le> uint code \<and> uint code \<le> 1005 \<or> 1007 \<le> uint code \<and> uint code \<le> 1013 \<or>
      3000 \<le> uint code \<and> uint code \<le> 4999"
  have "uint code < 65536" using uint_lt2p [of code] by simp
  then have v: "IsStrictlyValidCloseStatusCode (uint code) = Some valid"
    unfolding valid_def by (intro IsStrictlyValidCloseStatusCode_spec) simp_all
  let ?last = "\<lambda>c. Option.bind (DCHECK (ch_state c = CONNECTED) (SetState SEND_CLOSED c)) (\<lambda>c. Some (CHANNEL_ALIVE, c))"
  have last: "post (settled (A\<lparr>asked := True\<rparr>)) (gone (quota_total A)) (?last e)" if e: "writer 0 True e \<and> only_wrote d e" for e
  proof -
    have ef: "ch_state e = CONNECTED" "close_timer e = Some (closing_handshake_timeout c)" "has_received_close_frame e = has_received_close_frame c"
      "outgoing_utf8_validator e = outgoing_utf8_validator c" "read_frames e = read_frames c"
      "current_receive_quota e = current_receive_quota c" "is_reading e = is_reading c"
      "frames_read (channel_log e) = frames_read (channel_log c)"
      using e only_wrote_fields [of d e] only_wrote_logs(1,4) [of d e] True by (simp_all add: d_def)
    have "reader ?B e" "calm (channel_log e)"
      using e reader_only_wrote [of d e ?B] only_wrote_logs(5) [of d e] d(2,3) by simp_all
    then have "live (?B\<lparr>asked := True\<rparr>) (e\<lparr>ch_state := SEND_CLOSED\<rparr>)"
      using e ef live(1) True by (simp add: live_def connection_def)
    moreover have "caught_up (?B\<lparr>asked := True\<rparr>) [] (e\<lparr>ch_state := SEND_CLOSED\<rparr>)"
      using live(2) ef by (auto simp: caught_up_def)
    ultimately have "settled (?B\<lparr>asked := True\<rparr>) (e\<lparr>ch_state := SEND_CLOSED\<rparr>)"
      using s ef by (intro settledI) (simp_all add: settled_def is_reading_def)
    then show ?thesis using ef(1) by (simp add: SetState_def)
  qed
  have send: "post (settled (A\<lparr>asked := True\<rparr>)) (gone (quota_total A)) (then_alive (SendClose env k r d) ?last)" if "close_fits k r" for k r
  proof (rule post_then)
    show "post (\<lambda>c'. writer 0 True c' \<and> only_wrote d c') (gone (quota_total A)) (SendClose env k r d)"
      by (rule post_mono [OF SendClose_post [OF env _ d(1,2) that]]) (use write_end_gone [OF d(3)] in \<open>simp_all add: d(4)\<close>)
  qed (rule last)
  have fits: "close_fits (error_value kWebSocketErrorInternalServerError) []"
    "length reason \<le> kMaximumCloseReasonLength \<Longrightarrow> close_fits code (if valid_utf8 reason then reason else [])"
    using code by (simp_all add: close_fits_def)
  have timer: "close_timer c = None" using live(1) True by (simp add: live_def)
  show ?thesis
    using send [OF fits(1)] send [OF fits(2)] True timer
    by (simp add: StartClosingHandshake_def InClosingState_def v Validate_valid d_def [symmetric] Let_def)
qed

end
