(* ===== verification/WebSocket_Channel_Runs.thy ===== *)
theory WebSocket_Channel_Runs
  imports WebSocket_Channel_Correct
begin

text \<open>
  A \<open>WebSocketChannel\<close> over its life. The calls and callbacks that \<open>perform\<close> makes, in the order a renderer, a
  stream and a timer may make them (\<open>permitted\<close>), keep the invariant \<open>channel_inv\<close>: before the connection
  \<open>early\<close>, after it \<open>settled\<close> of \<open>WebSocket_Channel_Correct\<close>. By rule induction over the runs follow the
  properties of the whole class.
\<close>

section \<open>Completions and flow control\<close>

lemma WriteDone_settled:
  assumes env: "env_ok env" and s: "settled A c" and w: "is_writing c" and r: "result \<noteq> Some ERR_IO_PENDING"
  shows "post (settled A) (gone (quota_total A)) (OnWriteDone (Channel_WriteFrames env) env False result
    (c\<lparr>stream := map_option (writing_update (\<lambda>w. False)) (stream c)\<rparr>))"
proof (rule settled_wrote [OF s])
  define d where "d = c\<lparr>stream := map_option (writing_update (\<lambda>w. False)) (stream c)\<rparr>"
  note conn = settled_facts(1) [OF s]
  have ow: "only_wrote c d"
    by (simp add: d_def only_wrote_def is_reading_def is_open_def split: option.split)
  have wr: "writer 0 (ch_state c \<noteq> CONNECTED) c" using conn by (simp add: connection_def)
  then have books: "books 0 (ch_state c \<noteq> CONNECTED) (sent (channel_log d) @ frames_of (data_to_send_next d)) d"
    by (simp add: writer_def d_def books_def queued_def)
  have t: "transmitting d"
    using conn wr w
    by (auto simp: transmitting_def d_def writer_def is_open_def is_writing_def connection_def split: option.splits)
  have "post (\<lambda>c'. writer 0 (ch_state c \<noteq> CONNECTED) c' \<and> only_wrote d c') (write_end d)
      (OnWriteDone (Channel_WriteFrames env) env False result d)"
  proof (cases result)
    case (Some e)
    then show ?thesis using OnWriteDone_error [OF env t _ books_books_closed [OF books]] r by simp
  next
    case None
    show ?thesis
    proof (cases "data_to_send_next d")
      case None
      then have "post (\<lambda>c'. writer 0 (ch_state c \<noteq> CONNECTED) c' \<and> only_wrote d c' \<and> data_being_sent c' = None) (write_end d)
          (OnWriteDone (Channel_WriteFrames env) env False None d)"
        using books by (intro OnWriteDone_last [OF env t]) simp_all
      then show ?thesis using \<open>result = None\<close> by (auto elim: post_mono)
    next
      case (Some b)
      define e where "e = d\<lparr>data_being_sent := Some b, data_to_send_next := None\<rparr>"
      have "only_wrote d e" by (simp add: e_def only_wrote_def is_reading_def is_open_def)
      have "post (\<lambda>c'. writer 0 (ch_state c \<noteq> CONNECTED) c' \<and> only_wrote e c') (write_end e) (Channel_WriteFrames env e)"
        by (rule WriteFrames_post [where b = b, OF env])
          (use t books Some in \<open>simp_all add: e_def transmitting_def is_open_def is_writing_def books_def\<close>)
      then show ?thesis
        using \<open>result = None\<close> OnWriteDone_next [OF t Some]
        by (auto simp: e_def [symmetric] Let_def elim!: post_mono
            intro: only_wrote_trans [OF \<open>only_wrote d e\<close>] only_wrote_end [OF \<open>only_wrote d e\<close>])
    qed
  qed
  then show "post (\<lambda>c'. writer 0 (ch_state c \<noteq> CONNECTED) c' \<and> only_wrote c c') (write_end c)
      (OnWriteDone (Channel_WriteFrames env) env False result (c\<lparr>stream := map_option (writing_update (\<lambda>w. False)) (stream c)\<rparr>))"
    unfolding d_def [symmetric] by (rule post_mono) (auto intro: only_wrote_trans [OF ow] only_wrote_end [OF ow])
qed

lemma ReadDone_settled:
  assumes env: "env_ok env" and s: "settled A c" and ok: "read_ok (result, fs)" and r: "result \<noteq> Some ERR_IO_PENDING"
  shows "post (settled A) (gone (quota_total A)) (OnReadDone (Channel_ReadFrames env) env False result
    (log_action (StreamReadDone (result, fs))
      (c\<lparr>stream := map_option (reading_update (\<lambda>r. False)) (stream c), read_frames := fs\<rparr>)))"
proof -
  define d where "d = log_action (StreamReadDone (result, fs))
      (c\<lparr>stream := map_option (reading_update (\<lambda>r. False)) (stream c), read_frames := fs\<rparr>)"
  obtain took where took: "live (A\<lparr>taken := took\<rparr>) c" "caught_up (A\<lparr>taken := took\<rparr>) [] c" using s by (rule settledE)
  let ?A = "A\<lparr>taken := took\<rparr>"
  have later: "\<exists>later. frames_read (channel_log c) @ gs = took @ later" for gs
    using took(2) by (auto simp: caught_up_def)
  have live: "live ?A d" and idle: "\<not> is_reading d"
    using took(1) later by (auto simp: live_def connection_def d_def log_action_def writer_def books_def queued_def is_open_def
        is_writing_def is_reading_def reader_def message_state_def cong: option.case_cong split: option.splits)
  have up: "caught_up ?A (if result = None then fs else []) d"
    using took(2) by (auto simp: caught_up_def d_def log_action_def)
  have "post (settled A) (gone (quota_total ?A)) (OnReadDone (Channel_ReadFrames env) env False result d)"
  proof (cases result)
    case (Some e)
    then show ?thesis using r OnReadDone_error [OF env live] by simp
  next
    case None
    have "post (settled A) (gone (quota_total ?A)) (OnReadDone (Channel_ReadFrames env) env False None d)"
      by (rule OnReadDone_OK [OF env live])
        (use up idle ok None Channel_ReadFrames_settles [OF env, of A] in \<open>simp_all add: d_def log_action_def\<close>)
    then show ?thesis using None by simp
  qed
  then show ?thesis by (simp add: d_def)
qed

lemma between_only_received:
  assumes "live (A\<lparr>taken := fs\<rparr>) c" and "caught_up (A\<lparr>taken := fs\<rparr>) [] c" and "only_received c c'"
    and "reader (B\<lparr>taken := fs\<rparr>) c'" and "asked B = asked A"
  shows "between_reads B c'"
proof -
  have "live (B\<lparr>taken := fs\<rparr>) c'"
    using assms(1,4) connection_only_received [OF assms(3)] by (simp add: live_def only_received_fields [OF assms(3)])
  moreover have "caught_up (B\<lparr>taken := fs\<rparr>) [] c'"
    using assms(2,5) by (simp add: caught_up_def only_received_fields [OF assms(3)] only_received_logs [OF assms(3)])
  ultimately show ?thesis by (auto simp: between_reads_def)
qed

text \<open>What is left of a grant goes to the quota.\<close>

lemma reader_grant:
  assumes "reader (grant (nat (quota - left)) A) c" and "0 \<le> left" and "left \<le> quota"
    and "left > 0 \<Longrightarrow> pending_received_frames c = []" and "quota_total A + nat quota < 2 ^ 64"
  shows "reader (grant (nat quota) A) (c\<lparr>current_receive_quota := (current_receive_quota c + nat left) mod 2 ^ 64\<rparr>)"
    and "current_receive_quota c + nat left < 2 ^ 64"
proof -
  have total: "nat quota = nat (quota - left) + nat left" using assms(2,3) by simp
  show sum: "current_receive_quota c + nat left < 2 ^ 64" using assms(1,5) total by (simp add: reader_def)
  have "left = 0" if "pending_received_frames c \<noteq> []" using assms(2,4) that by (cases "left > 0") auto
  then show "reader (grant (nat quota) A) (c\<lparr>current_receive_quota := (current_receive_quota c + nat left) mod 2 ^ 64\<rparr>)"
    using assms(1) sum by (auto simp: reader_def message_state_def total cong: option.case_cong)
qed

lemma SendFlowControl_settled:
  assumes env: "env_ok env" and s: "settled A c" and q: "0 \<le> quota" "quota \<le> int INT_MAX"
    and small: "quota_total A + nat quota < 2 ^ 64"
  shows "post (settled (grant (nat quota) A)) (gone (quota_total A + nat quota)) (SendFlowControl env quota c)"
proof -
  let ?B = "grant (nat quota) A"
  obtain fs where live: "live (A\<lparr>taken := fs\<rparr>) c" "caught_up (A\<lparr>taken := fs\<rparr>) [] c" using s by (rule settledE)
  have taken: "grant n (A\<lparr>taken := fs\<rparr>) = (grant n A)\<lparr>taken := fs\<rparr>" for n by (simp add: grant_def)
  have rd: "reader (A\<lparr>taken := fs\<rparr>) c" using live(1) by (rule live_reader)
  have st: "ch_state c = CONNECTED \<or> ch_state c = SEND_CLOSED \<or> ch_state c = CLOSE_WAIT"
    using settled_facts(1) [OF s] by (simp add: connection_def)
  obtain r c' where r: "send_pending env (pending_received_frames c) quota c = Some (r, c')"
    "flow_result (A\<lparr>taken := fs\<rparr>) quota c r c'"
    using send_pending_result [OF rd refl q(1)] by blast
  have only: "only_received c c'" "current_receive_quota c' = current_receive_quota c" using r(2) by (simp_all add: flow_result_def)
  have keep: "read_frames c' = []" "is_reading c' = is_reading c" "ch_state c' = ch_state c"
    using s only_received_fields [OF only(1)] by (simp_all add: settled_def)
  have between: "between_reads ?B c''"
    if "only_received c c''" "reader (grant (nat quota) (A\<lparr>taken := fs\<rparr>)) c''" for c''
    using that by (intro between_only_received [OF live that(1)]) (simp_all add: taken)
  have zero: "pending_received_frames c \<noteq> [] \<Longrightarrow> current_receive_quota c = 0" using rd by (simp add: reader_def)
  have start: "SendFlowControl env quota c =
      (case r of Inl alive \<Rightarrow> Some (alive, c')
       | Inr quota \<Rightarrow>
         (let d = c'\<lparr>current_receive_quota := (current_receive_quota c' + nat quota) mod 2 ^ 64\<rparr>
          in if current_receive_quota c' = 0 \<and> quota > 0 then Channel_ReadFrames env d else Some (CHANNEL_ALIVE, d)))"
    using st q zero by (simp add: SendFlowControl_def r(1) keep(3) Let_def split: sum.split)
  show ?thesis
  proof (cases r)
    case (Inl alive)
    show ?thesis
    proof (cases alive)
      case CHANNEL_ALIVE
      then have "settled ?B c'"
        using r(2) Inl zero s keep only between [of c'] by (simp add: flow_result_def settled_def)
      then show ?thesis using start Inl CHANNEL_ALIVE by simp
    next
      case CHANNEL_DELETED
      have "books_closed (channel_log c')" "calm (channel_log c')"
        using connection_only_received [OF only(1) settled_facts(1) [OF s]]
        by (auto simp: connection_def writer_def queued_def dest: books_books_closed)
      then have "gone (quota_total A + nat quota) c'" using r(2) Inl CHANNEL_DELETED by (simp add: flow_result_def gone_def)
      then show ?thesis using start Inl CHANNEL_DELETED by simp
    qed
  next
    case (Inr left)
    then have left: "0 \<le> left" and "left \<le> quota" "reader (grant (nat (quota - left)) (A\<lparr>taken := fs\<rparr>)) c'"
      "left > 0 \<Longrightarrow> pending_received_frames c' = []"
      using r(2) by (simp_all add: flow_result_def)
    note quota = reader_grant [OF this(3,1,2,4)]
    define d where "d = c'\<lparr>current_receive_quota := (current_receive_quota c' + nat left) mod 2 ^ 64\<rparr>"
    have "only_received c d" by (rule only_received_trans [OF only(1)]) (simp add: d_def only_received_def)
    then have d: "between_reads ?B d" "is_reading d = is_reading c" "read_frames d = []"
      using between quota(1) small keep by (simp_all add: d_def is_reading_def)
    have qd: "current_receive_quota d = current_receive_quota c + nat left" using quota(2) small only(2) by (simp add: d_def)
    show ?thesis
    proof (cases "current_receive_quota c = 0 \<and> left > 0")
      case True
      then have "\<not> is_reading d" using s d(2) by (simp add: settled_def)
      from Channel_ReadFrames_settles [OF env d(1) this d(3)] show ?thesis
        using start Inr True only(2) by (simp add: d_def Let_def)
    next
      case False
      then have "settled ?B d" using s d qd left by (auto simp: settled_def)
      then show ?thesis using start Inr False only(2) by (auto simp: d_def Let_def)
    qed
  qed
qed

section \<open>Before the connection, and at its end\<close>

lemma gone_unless:
  assumes "sent l = []" and "granted l = 0" and "calm l" and "same_logs l l'" and "renderer_ok G l" and "channel_log c = l'"
  shows "gone G c"
  using assms by (simp add: gone_def same_logs_def books_closed_def renderer_ok_def nothing_after_close_def)

text \<open>A channel that has not been connected yet.\<close>

definition early :: "account \<Rightarrow> web_socket_channel \<Rightarrow> bool" where
  "early A c \<longleftrightarrow>
     (ch_state c = FRESHLY_CONSTRUCTED \<or> ch_state c = CONNECTING) \<and>
     stream c = None \<and> data_being_sent c = None \<and> data_to_send_next c = None \<and> read_frames c = [] \<and>
     current_send_quota c = 0 \<and> sent (channel_log c) = [] \<and> granted (channel_log c) = 0 \<and> calm (channel_log c) \<and>
     send_quota_low_water_mark c = kDefaultSendQuotaLowWaterMark \<and>
     send_quota_high_water_mark c = kDefaultSendQuotaHighWaterMark \<and>
     frames_read (channel_log c) = [] \<and> reader (A\<lparr>taken := []\<rparr>) c \<and> close_timer c = None \<and> \<not> has_received_close_frame c \<and> outgoing_utf8_validator c \<in> set utf8_states"

definition channel_inv :: "account \<Rightarrow> web_socket_channel \<Rightarrow> bool" where
  "channel_inv A c \<longleftrightarrow> early A c \<or> settled A c"

lemma early_new: "quota_total A = 0 \<Longrightarrow> early A WebSocketChannel"
  by (simp add: early_def WebSocketChannel_def reader_def message_state_def texts_valid_def StreamingUtf8Validator_def
      utf8_states_def)

lemma early_gone: "early A c \<Longrightarrow> same_logs (channel_log c) (channel_log c') \<Longrightarrow> gone (quota_total A) c'"
  using reader_renderer_ok [of "A\<lparr>taken := []\<rparr>" c] by (intro gone_unless) (auto simp: early_def)

lemma settled_gone: "settled A c \<Longrightarrow> same_logs (channel_log c) (channel_log c') \<Longrightarrow> gone (quota_total A) c'"
  using settled_facts(1,3) [of A c] by (simp add: connection_def gone_def same_logs_def books_closed_def renderer_ok_def)

lemma inv_gone: "channel_inv A c \<Longrightarrow> same_logs (channel_log c) (channel_log c') \<Longrightarrow> gone (quota_total A) c'"
  using early_gone settled_gone by (auto simp: channel_inv_def)

text \<open>Members that neither the books nor the states of a channel depend on.\<close>

lemma other_fields [simp]:
  "writer n ends (c\<lparr>closing_handshake_timeout := d\<rparr>) = writer n ends c" "reader A (c\<lparr>closing_handshake_timeout := d\<rparr>) = reader A c"
  "is_reading (c\<lparr>closing_handshake_timeout := d\<rparr>) = is_reading c" "channel_inv A (c\<lparr>closing_handshake_timeout := d\<rparr>) = channel_inv A c"
  "writer n ends (c\<lparr>underlying_connection_close_timeout := d\<rparr>) = writer n ends c" "reader A (c\<lparr>underlying_connection_close_timeout := d\<rparr>) = reader A c"
  "is_reading (c\<lparr>underlying_connection_close_timeout := d\<rparr>) = is_reading c" "channel_inv A (c\<lparr>underlying_connection_close_timeout := d\<rparr>) = channel_inv A c"
  "writer n ends (c\<lparr>handshake_request_info := r\<rparr>) = writer n ends c" "reader A (c\<lparr>handshake_request_info := r\<rparr>) = reader A c"
  "is_reading (c\<lparr>handshake_request_info := r\<rparr>) = is_reading c" "channel_inv A (c\<lparr>handshake_request_info := r\<rparr>) = channel_inv A c"
  "writer n ends (c\<lparr>handshake_response_info := p\<rparr>) = writer n ends c" "reader A (c\<lparr>handshake_response_info := p\<rparr>) = reader A c"
  "is_reading (c\<lparr>handshake_response_info := p\<rparr>) = is_reading c" "channel_inv A (c\<lparr>handshake_response_info := p\<rparr>) = channel_inv A c"
  "writer n ends (c\<lparr>notification_tasks := m\<rparr>) = writer n ends c" "reader A (c\<lparr>notification_tasks := m\<rparr>) = reader A c"
  "is_reading (c\<lparr>notification_tasks := m\<rparr>) = is_reading c" "channel_inv A (c\<lparr>notification_tasks := m\<rparr>) = channel_inv A c"
proof -
  show 1: "writer n ends (c\<lparr>closing_handshake_timeout := d\<rparr>) = writer n ends c" "writer n ends (c\<lparr>underlying_connection_close_timeout := d\<rparr>) = writer n ends c" "writer n ends (c\<lparr>handshake_request_info := r\<rparr>) = writer n ends c" "writer n ends (c\<lparr>handshake_response_info := p\<rparr>) = writer n ends c" "writer n ends (c\<lparr>notification_tasks := m\<rparr>) = writer n ends c"
    for n ends
    by (simp_all add: writer_def books_def queued_def is_open_def is_writing_def)
  show 2: "reader A (c\<lparr>closing_handshake_timeout := d\<rparr>) = reader A c" "reader A (c\<lparr>underlying_connection_close_timeout := d\<rparr>) = reader A c" "reader A (c\<lparr>handshake_request_info := r\<rparr>) = reader A c" "reader A (c\<lparr>handshake_response_info := p\<rparr>) = reader A c" "reader A (c\<lparr>notification_tasks := m\<rparr>) = reader A c" for A
    by (simp_all add: reader_def message_state_def cong: option.case_cong)
  show 3: "is_reading (c\<lparr>closing_handshake_timeout := d\<rparr>) = is_reading c" "is_reading (c\<lparr>underlying_connection_close_timeout := d\<rparr>) = is_reading c" "is_reading (c\<lparr>handshake_request_info := r\<rparr>) = is_reading c" "is_reading (c\<lparr>handshake_response_info := p\<rparr>) = is_reading c" "is_reading (c\<lparr>notification_tasks := m\<rparr>) = is_reading c"
    by (simp_all add: is_reading_def)
  show "channel_inv A (c\<lparr>closing_handshake_timeout := d\<rparr>) = channel_inv A c" "channel_inv A (c\<lparr>underlying_connection_close_timeout := d\<rparr>) = channel_inv A c" "channel_inv A (c\<lparr>handshake_request_info := r\<rparr>) = channel_inv A c" "channel_inv A (c\<lparr>handshake_response_info := p\<rparr>) = channel_inv A c" "channel_inv A (c\<lparr>notification_tasks := m\<rparr>) = channel_inv A c"
    by (simp_all add: channel_inv_def early_def settled_def between_reads_def caught_up_def live_def connection_def 1 2 3)
qed

lemma inv_logged:
  assumes "channel_inv A c" and "same_logs (channel_log c) l" and "calm l"
  shows "channel_inv A (c\<lparr>channel_log := l\<rparr>)"
proof -
  have "writer n ends (c\<lparr>channel_log := l\<rparr>) = writer n ends c" for n ends
    using assms(2) by (simp add: writer_def books_def queued_def is_open_def is_writing_def same_logs_def)
  moreover have "reader A (c\<lparr>channel_log := l\<rparr>) = reader A c" for A
    using assms(2) by (simp add: reader_def message_state_def same_logs_def cong: option.case_cong)
  moreover have "is_reading (c\<lparr>channel_log := l\<rparr>) = is_reading c" by (simp add: is_reading_def)
  ultimately show ?thesis
    using assms unfolding channel_inv_def
    by (elim disj_forward)
      (simp_all add: early_def settled_def between_reads_def caught_up_def live_def connection_def same_logs_def)
qed

lemma same_logs_refl: "calm l \<Longrightarrow> same_logs l l"
  by (simp add: same_logs_def)

lemma inv_calm: "channel_inv A c \<Longrightarrow> calm (channel_log c)"
  using settled_facts(1) by (auto simp: channel_inv_def early_def connection_def)

lemma SendImmediately_inv:
  assumes "channel_inv A c"
  shows "post (channel_inv A) (gone (quota_total A)) (SendImmediately env c)"
proof (rule post_mono [OF SendImmediately_post [OF inv_calm [OF assms]]])
  fix c' assume c': "c' = c\<lparr>handshake_request_info := None, handshake_response_info := None, channel_log := channel_log c'\<rparr> \<and>
    same_logs (channel_log c) (channel_log c') \<and> calm (channel_log c')"
  have "channel_inv A (c\<lparr>handshake_request_info := None, handshake_response_info := None\<rparr>)" using assms by simp
  then have "channel_inv A ((c\<lparr>handshake_request_info := None, handshake_response_info := None\<rparr>)\<lparr>channel_log := channel_log c'\<rparr>)"
    by (rule inv_logged) (use c' in simp_all)
  then show "channel_inv A c'" using c' by metis
qed (rule inv_gone [OF assms])

lemma notify_quiet_inv:
  assumes "channel_inv A c" and "quiet e"
  shows "post (channel_inv A) (gone (quota_total A)) (notify env e c)"
proof -
  have same: "same_logs (channel_log c) (Event e # channel_log c)" and calm: "calm (Event e # channel_log c)"
    using assms(2) inv_calm [OF assms(1)] by (auto simp: quiet_def same_logs_def simp del: event_simps(1,18) simp: frames_read_by_def sent_by_def)
  have "channel_inv A (log_action (Event e) c)"
    unfolding log_action_def by (rule inv_logged [OF assms(1) same calm])
  moreover have "gone (quota_total A) (log_action (Event e) c)"
    by (rule inv_gone [OF assms(1)]) (use same in \<open>simp add: log_action_def\<close>)
  ultimately show ?thesis by (simp add: notify_def Let_def)
qed

lemma CloseTimeout_settled:
  assumes "env_ok env" and "settled A c"
  shows "post (settled A) (gone (quota_total A)) (Channel_CloseTimeout env (c\<lparr>close_timer := None\<rparr>))"
proof -
  have "post (settled A) (\<lambda>c'. same_logs (channel_log c) (channel_log c')) (Channel_CloseTimeout env (c\<lparr>close_timer := None\<rparr>))"
    using close_and_drop_post [where P = "settled A", OF assms(1), of "c\<lparr>close_timer := None\<rparr>"] settled_facts(1) [OF assms(2)]
    by (auto simp: Channel_CloseTimeout_def connection_def writer_def is_open_def)
  then show ?thesis by (rule post_mono) (auto intro: settled_gone [OF assms(2)])
qed

lemma drop_early:
  assumes "env_ok env" and "early A c" and "channel_log d = channel_log c"
  shows "post P (gone (quota_total A)) (DoDropChannel env was_clean code reason d)"
proof (rule post_mono [OF DoDropChannel_post [where P = P, OF assms(1)]])
  show "calm (channel_log d)" using assms(2,3) by (simp add: early_def)
  fix c' :: web_socket_channel assume "same_logs (channel_log d) (channel_log c')"
  then show "gone (quota_total A) c'" using early_gone [OF assms(2)] assms(3) by simp
qed

lemma OnConnectFailure_early:
  assumes env: "env_ok env" and e: "early A c" and st: "ch_state c = CONNECTING"
  shows "post P (gone (quota_total A)) (OnConnectFailure env m c)"
proof -
  define d where "d = c\<lparr>ch_state := CLOSED, stream_request := False\<rparr>"
  have d: "channel_log d = channel_log c" by (simp add: d_def)
  have calm: "calm (channel_log c)" using e by (simp add: early_def)
  have "post P (\<lambda>c'. same_logs (channel_log c) (channel_log c'))
      (then_alive (SendImmediately env d) (notify_last env (OnFailChannel m)))"
  proof (rule post_then [OF post_mono [OF SendImmediately_post]])
    show "calm (channel_log d)" using calm d by simp
    fix c' :: web_socket_channel assume c': "same_logs (channel_log c) (channel_log c') \<and> calm (channel_log c')"
    have "post P (\<lambda>c''. same_logs (channel_log c') (channel_log c'')) (notify_last env (OnFailChannel m) c')"
      by (rule notify_last_post) (use c' in \<open>simp_all add: env_okD(2) [OF env] fun_eq_iff\<close>)
    then show "post P (\<lambda>c'. same_logs (channel_log c) (channel_log c')) (notify_last env (OnFailChannel m) c')"
      by (rule post_mono) (use c' in \<open>auto intro: same_logs_trans\<close>)
  qed (auto simp: d)
  then show ?thesis
    using st by (simp add: OnConnectFailure_def SetState_def d_def [symmetric])
      (erule post_mono, simp, rule early_gone [OF e])
qed

lemma OnConnectSuccess_early:
  assumes env: "env_ok env" and e: "early A c" and st: "ch_state c = CONNECTING"
  shows "post (settled A) (gone (quota_total A)) (OnConnectSuccess env p x c)"
proof -
  define d where "d = log_action (Event (OnAddChannelResponse p x))
    (c\<lparr>stream := Some \<lparr>reading = False, writing = False, closed = False\<rparr>, ch_state := CONNECTED\<rparr>)"
  define f where "f = log_action (Event (OnFlowControl (send_quota_high_water_mark d)))
    (d\<lparr>current_send_quota := send_quota_high_water_mark d\<rparr>)"
  define g where "g = f\<lparr>stream_request := False\<rparr>"
  have eq: "OnConnectSuccess env p x c =
      (if deletes env (OnAddChannelResponse p x) d then Some (CHANNEL_DELETED, d)
       else if deletes env (OnFlowControl (send_quota_high_water_mark d)) f then Some (CHANNEL_DELETED, f)
       else Channel_ReadFrames env g)"
    using st by (simp add: OnConnectSuccess_def SetState_def notify_def Let_def d_def [symmetric] f_def [symmetric] g_def)
  let ?A = "A\<lparr>taken := []\<rparr>"
  have rd: "reader ?A d" "reader ?A f" "reader ?A g"
    using e by (simp_all add: early_def d_def f_def g_def log_action_def reader_def message_state_def cong: option.case_cong)
  have "gone (quota_total A) d"
    using e reader_renderer_ok [OF rd(1)]
    by (simp add: gone_def early_def d_def log_action_def books_closed_def nothing_after_close_def)
  moreover have live: "live ?A g" "\<not> is_reading g" "read_frames g = []" "caught_up ?A [] g"
    using e rd(3)
    by (simp_all add: live_def connection_def writer_def books_def queued_def is_open_def is_writing_def is_reading_def early_def
        caught_up_def g_def f_def d_def log_action_def close_last_def kDefaultSendQuotaHighWaterMark_def)
  moreover have "gone (quota_total A) f"
    using live_gone [OF live(1)] by (simp add: gone_def g_def)
  moreover have "between_reads A g" using between_readsI [OF live(1,4)] by simp
  ultimately show ?thesis using Channel_ReadFrames_settles [OF env _ live(2,3)] by (simp add: eq)
qed

lemma early_only_received:
  assumes "early A c" and "only_received c c'" and "reader (B\<lparr>taken := []\<rparr>) c'"
  shows "early B c'"
proof -
  have "channel_log c' = channel_log c' \<and> sent (channel_log c') = [] \<and> granted (channel_log c') = 0 \<and> calm (channel_log c') \<and>
      frames_read (channel_log c') = []"
    using assms(1) only_received_logs [OF assms(2)] by (simp add: early_def)
  then show ?thesis
    using assms(1,3) by (rule_tac only_receivedE [OF assms(2)]) (auto simp: early_def)
qed

lemma SendFlowControl_early:
  assumes e: "early A c" and st: "ch_state c = CONNECTING" and q: "0 \<le> quota" "quota \<le> int INT_MAX"
    and small: "quota_total A + nat quota < 2 ^ 64"
  shows "post (\<lambda>c'. early (grant (nat quota) A) c' \<and> handshake_request_info c' = handshake_request_info c \<and>
      handshake_response_info c' = handshake_response_info c) (gone (quota_total A + nat quota)) (SendFlowControl env quota c)"
proof -
  let ?A = "A\<lparr>taken := []\<rparr>"
  have taken: "grant n ?A = (grant n A)\<lparr>taken := []\<rparr>" for n by (simp add: grant_def)
  have rd: "reader ?A c" using e by (simp add: early_def)
  obtain r c' where r: "send_pending env (pending_received_frames c) quota c = Some (r, c')" "flow_result ?A quota c r c'"
    using send_pending_result [OF rd refl q(1)] by blast
  have only: "only_received c c'" using r(2) by (simp add: flow_result_def)
  have infos: "handshake_request_info c' = handshake_request_info c" "handshake_response_info c' = handshake_response_info c"
    "ch_state c' = CONNECTING"
    using st by (rule_tac [!] only_receivedE [OF only]) simp_all
  have zero: "pending_received_frames c \<noteq> [] \<Longrightarrow> current_receive_quota c = 0" using rd by (simp add: reader_def)
  have start: "SendFlowControl env quota c =
      (case r of Inl alive \<Rightarrow> Some (alive, c')
       | Inr quota \<Rightarrow> Some (CHANNEL_ALIVE, c'\<lparr>current_receive_quota := (current_receive_quota c' + nat quota) mod 2 ^ 64\<rparr>))"
    using st q zero infos(3) by (simp add: SendFlowControl_def r(1) Let_def split: sum.split)
  show ?thesis
  proof (cases r)
    case (Inl alive)
    show ?thesis
    proof (cases alive)
      case CHANNEL_ALIVE
      then show ?thesis
        using start Inl r(2) infos early_only_received [OF e only, of "grant (nat quota) A"] by (simp add: flow_result_def taken)
    next
      case CHANNEL_DELETED
      have "sent (channel_log c') = []" "granted (channel_log c') = 0" "calm (channel_log c')"
        using only_received_logs [OF only] e by (simp_all add: early_def)
      then show ?thesis
        using start Inl CHANNEL_DELETED r(2)
        by (simp add: flow_result_def gone_def books_closed_def nothing_after_close_def)
    qed
  next
    case (Inr left)
    then have "0 \<le> left" "left \<le> quota" "reader (grant (nat (quota - left)) ?A) c'" "left > 0 \<Longrightarrow> pending_received_frames c' = []"
      using r(2) by (simp_all add: flow_result_def)
    note quota = reader_grant [OF this(3,1,2,4)]
    define d where "d = c'\<lparr>current_receive_quota := (current_receive_quota c' + nat left) mod 2 ^ 64\<rparr>"
    have "only_received c d" by (rule only_received_trans [OF only]) (simp add: d_def only_received_def)
    then have "early (grant (nat quota) A) d"
      using quota(1) small by (intro early_only_received [OF e]) (simp_all add: d_def taken)
    then show ?thesis using start Inr infos by (simp add: d_def)
  qed
qed

section \<open>Permitted use\<close>

text \<open>
  The protocol of the callers, with the calls made so far. The renderer asks for the connection
  once, sends data frames of less than 2 gigabytes after the connection, grants less than \<open>2 ^ 64\<close>
  bytes in all, and closes without a reason where it gives no code. The request of the stream reports
  the start and the end of the opening handshake once each, then the outcome. The stream reports
  an operation that is pending.
\<close>

fun quota_of :: "channel_op \<Rightarrow> nat" where
  "quota_of (CallSendFlowControl quota) = nat quota"
| "quota_of _ = 0"

definition quota_granted :: "channel_op list \<Rightarrow> nat" where
  "quota_granted past = sum_list (map quota_of past)"

definition reported_start :: "channel_op list \<Rightarrow> bool" where
  "reported_start past = list_ex (\<lambda>op. case op of StartOpeningHandshake r \<Rightarrow> True | _ \<Rightarrow> False) past"

definition reported_finish :: "channel_op list \<Rightarrow> bool" where
  "reported_finish past = list_ex (\<lambda>op. case op of FinishOpeningHandshake r \<Rightarrow> True | _ \<Rightarrow> False) past"

definition asked_to_close :: "channel_op list \<Rightarrow> bool" where
  "asked_to_close past = list_ex (\<lambda>op. case op of CallStartClosingHandshake code reason \<Rightarrow> True | _ \<Rightarrow> False) past"

lemma reported_Cons [simp]:
  "reported_start (op # past) \<longleftrightarrow> (case op of StartOpeningHandshake r \<Rightarrow> True | _ \<Rightarrow> reported_start past)"
  "reported_finish (op # past) \<longleftrightarrow> (case op of FinishOpeningHandshake r \<Rightarrow> True | _ \<Rightarrow> reported_finish past)"
  by (simp_all add: reported_start_def reported_finish_def split: channel_op.split)

fun permitted :: "channel_op list \<Rightarrow> channel_op \<Rightarrow> web_socket_channel \<Rightarrow> bool" where
  "permitted past (CallSendAddChannelRequest url protocols origin) c \<longleftrightarrow> ch_state c = FRESHLY_CONSTRUCTED"
| "permitted past (CallSendFrame fin op data) c \<longleftrightarrow>
     ch_state c \<noteq> FRESHLY_CONSTRUCTED \<and> ch_state c \<noteq> CONNECTING \<and> IsKnownDataOpCode op \<and> length data \<le> INT_MAX"
| "permitted past (CallSendFlowControl quota) c \<longleftrightarrow>
     ch_state c \<noteq> FRESHLY_CONSTRUCTED \<and> 0 \<le> quota \<and> quota \<le> int INT_MAX \<and> quota_granted past + nat quota < 2 ^ 64"
| "permitted past (CallStartClosingHandshake code reason) c \<longleftrightarrow>
     ch_state c \<noteq> FRESHLY_CONSTRUCTED \<and> (code = error_value kWebSocketErrorNoStatusReceived \<longrightarrow> reason = [])"
| "permitted past (CallSetClosingHandshakeTimeoutForTesting delay) c \<longleftrightarrow> True"
| "permitted past (CallSetUnderlyingConnectionCloseTimeoutForTesting delay) c \<longleftrightarrow> True"
| "permitted past (ConnectSuccess sub_protocol extensions) c \<longleftrightarrow> ch_state c = CONNECTING"
| "permitted past (ConnectFailure message) c \<longleftrightarrow> ch_state c = CONNECTING"
| "permitted past (SSLCertificateError callbacks ssl_info fatal) c \<longleftrightarrow> ch_state c = CONNECTING"
| "permitted past (StartOpeningHandshake request) c \<longleftrightarrow>
     ch_state c = CONNECTING \<and> \<not> reported_start past"
| "permitted past (FinishOpeningHandshake response) c \<longleftrightarrow>
     ch_state c = CONNECTING \<and> \<not> reported_finish past"
| "permitted past NotificationTask c \<longleftrightarrow> notification_tasks c > 0"
| "permitted past (WriteDone result) c \<longleftrightarrow> is_writing c \<and> result \<noteq> Some ERR_IO_PENDING"
| "permitted past (ReadDone result fs) c \<longleftrightarrow>
     is_reading c \<and> result \<noteq> Some ERR_IO_PENDING \<and> read_ok (result, fs)"
| "permitted past CloseTimeout c \<longleftrightarrow> close_timer c \<noteq> None"

text \<open>The channels that come about: the calls made, the latest first, and what has become of the channel.\<close>

inductive channel_run :: "channel_env \<Rightarrow> channel_op list \<Rightarrow> channel_state \<Rightarrow> web_socket_channel \<Rightarrow> bool"
  for env where
  new_channel: "channel_run env [] CHANNEL_ALIVE WebSocketChannel"
| one_more: "channel_run env past CHANNEL_ALIVE c \<Longrightarrow> permitted past op c \<Longrightarrow>
    perform env op c = Some (result, c') \<Longrightarrow> channel_run env (op # past) result c'"

definition infos_ok :: "channel_op list \<Rightarrow> web_socket_channel \<Rightarrow> bool" where
  "infos_ok past c \<longleftrightarrow>
     (ch_state c = FRESHLY_CONSTRUCTED \<or> ch_state c = CONNECTING \<longrightarrow>
      (handshake_request_info c \<noteq> None \<longrightarrow> reported_start past) \<and>
      (handshake_response_info c \<noteq> None \<longrightarrow> reported_finish past))"

text \<open>What the calls made so far put on the account of the connection; the invariant finds the frames itself.\<close>

definition account_of :: "channel_op list \<Rightarrow> account" where
  "account_of past = \<lparr>quota_total = quota_granted past, taken = [], asked = asked_to_close past\<rparr>"

definition run_inv :: "channel_op list \<Rightarrow> web_socket_channel \<Rightarrow> bool" where
  "run_inv past c \<longleftrightarrow> channel_inv (account_of past) c \<and> infos_ok past c"

lemma quota_granted_simps [simp]: "quota_granted (op # past) = quota_granted past + quota_of op" "quota_granted [] = 0"
  by (simp_all add: quota_granted_def)

lemma account_of_simps [simp]:
  "quota_total (account_of past) = quota_granted past" "asked (account_of past) = asked_to_close past"
  by (simp_all add: account_of_def)

lemma account_of_Cons [simp]:
  "account_of (op # past) =
     (case op of
        CallSendFlowControl quota \<Rightarrow> grant (nat quota) (account_of past)
      | CallStartClosingHandshake code reason \<Rightarrow> (account_of past)\<lparr>asked := True\<rparr>
      | _ \<Rightarrow> account_of past)"
  by (simp add: account_of_def grant_def asked_to_close_def split: channel_op.split)

lemma settled_run_inv: "settled (account_of past) c \<Longrightarrow> run_inv past c"
  using between_reads_state [of "account_of past" c] by (simp add: run_inv_def channel_inv_def infos_ok_def settled_def)

lemma settled_post: "post (settled (account_of past)) Q m \<Longrightarrow> post (run_inv past) Q m"
  by (erule post_mono) (simp_all add: settled_run_inv)

lemma NotificationTask_post:
  assumes "channel_inv (account_of past) c"
  shows "post (run_inv (NotificationTask # past)) (gone (quota_granted past)) (perform env NotificationTask c)"
proof -
  let ?A = "account_of past"
  define d where "d = c\<lparr>notification_tasks := notification_tasks c - 1\<rparr>"
  have d: "channel_inv ?A d" using assms by (simp add: d_def)
  have "post (\<lambda>c'. handshake_request_info c' = None \<and> handshake_response_info c' = None) (\<lambda>_. True) (SendImmediately env d)"
    by (rule post_mono [OF SendImmediately_post [OF inv_calm [OF d]]])
      (auto dest: arg_cong [where f = handshake_request_info] arg_cong [where f = handshake_response_info])
  then have "post (run_inv (NotificationTask # past)) (gone (quota_granted past)) (SendImmediately env d)"
    using SendImmediately_inv [OF d, of env] by (auto elim!: post_cases simp: run_inv_def infos_ok_def)
  then show ?thesis by (simp add: d_def)
qed

lemma SSLCertificateError_post:
  assumes inv: "channel_inv (account_of past) c" and i: "infos_ok past c"
  shows "post (run_inv (SSLCertificateError callbacks ssl_info fatal # past)) (gone (quota_granted past))
    (Channel_OnSSLCertificateError env callbacks ssl_info fatal c)"
proof -
  let ?e = "OnSSLCertificateError callbacks (socket_url c) ssl_info fatal"
  have "post (channel_inv (account_of past)) (gone (quota_granted past)) (notify env ?e c)"
    by (rule notify_quiet_inv [OF inv, simplified account_of_simps]) (simp add: quiet_def)
  moreover have "post (\<lambda>c'. ch_state c' = ch_state c \<and> handshake_request_info c' = handshake_request_info c \<and>
      handshake_response_info c' = handshake_response_info c) (\<lambda>_. True) (notify env ?e c)"
    by (simp add: notify_def Let_def log_action_def)
  ultimately show ?thesis
    using i by (auto elim!: post_cases simp: Channel_OnSSLCertificateError_def run_inv_def infos_ok_def)
qed

lemma AddChannelRequest_early:
  assumes env: "env_ok env" and e: "early (account_of past) c" and i: "infos_ok past c"
    and st: "ch_state c = FRESHLY_CONSTRUCTED"
  shows "post (run_inv (CallSendAddChannelRequest url protocols origin # past)) (gone (quota_granted past))
    (SendAddChannelRequest env url protocols origin c)"
proof -
  let ?A = "account_of past"
  have calm: "calm (channel_log c)" using e by (simp add: early_def)
  define d where "d = c\<lparr>socket_url := url, stream_request := True, channel_log := StreamCreate url protocols origin # channel_log c,
    ch_state := CONNECTING\<rparr>"
  have "early ?A d"
    using e by (simp add: early_def d_def reader_def message_state_def cong: option.case_cong)
  then have "run_inv (CallSendAddChannelRequest url protocols origin # past) d"
    using i st by (auto simp: run_inv_def channel_inv_def infos_ok_def d_def)
  moreover have "gone (quota_granted past) (log_action (Event (OnFailChannel ''Invalid scheme'')) c)"
    by (rule early_gone [OF e, simplified account_of_simps]) (use calm in \<open>simp add: log_action_def same_logs_def\<close>)
  ultimately show ?thesis
    by (simp add: st SendAddChannelRequest_def SetState_def notify_def Let_def log_action_def
        env_okD(2) [OF env] d_def)
qed

lemma perform_settled:
  assumes env: "env_ok env" and s: "settled (account_of past) c" and p: "permitted past op c"
  shows "post (run_inv (op # past)) (gone (quota_granted (op # past))) (perform env op c)"
proof -
  let ?A = "account_of past"
  have st: "ch_state c \<noteq> FRESHLY_CONSTRUCTED" "ch_state c \<noteq> CONNECTING" using settled_facts(1) [OF s] by (auto simp: connection_def)
  have inv: "channel_inv ?A c" using s by (simp add: channel_inv_def)
  show ?thesis
  proof (cases op)
    case (CallSendFrame fin k data)
    then show ?thesis using SendFrame_settled [OF env s] p by (auto intro!: settled_post)
  next
    case (CallSendFlowControl quota)
    then show ?thesis using SendFlowControl_settled [OF env s, of quota] p by (auto intro!: settled_post)
  next
    case (CallStartClosingHandshake code reason)
    then show ?thesis using StartClosingHandshake_settled [OF env s] p by (auto intro!: settled_post)
  next
    case (CallSetClosingHandshakeTimeoutForTesting delay)
    then show ?thesis using inv st by (simp add: run_inv_def infos_ok_def)
  next
    case (CallSetUnderlyingConnectionCloseTimeoutForTesting delay)
    then show ?thesis using inv st by (simp add: run_inv_def infos_ok_def)
  next
    case NotificationTask
    then show ?thesis using NotificationTask_post [OF inv] by simp
  next
    case (WriteDone result)
    then show ?thesis using WriteDone_settled [OF env s] p by (auto intro!: settled_post)
  next
    case (ReadDone result fs)
    then show ?thesis using ReadDone_settled [OF env s] p by (auto intro!: settled_post)
  next
    case CloseTimeout
    then show ?thesis using CloseTimeout_settled [OF env s] by (auto intro!: settled_post)
  qed (use p st in simp_all)
qed

lemma perform_early:
  assumes env: "env_ok env" and e: "early (account_of past) c" and i: "infos_ok past c" and p: "permitted past op c"
  shows "post (run_inv (op # past)) (gone (quota_granted (op # past))) (perform env op c)"
proof -
  let ?A = "account_of past"
  have inv: "channel_inv ?A c" using e by (simp add: channel_inv_def)
  have st: "ch_state c = FRESHLY_CONSTRUCTED \<or> ch_state c = CONNECTING" and none: "\<not> is_writing c" "\<not> is_reading c" "close_timer c = None"
    using e by (auto simp: early_def is_writing_def is_reading_def)
  show ?thesis
  proof (cases op)
    case (CallSendAddChannelRequest url protocols origin)
    then show ?thesis using AddChannelRequest_early [OF env e i] p by simp
  next
    case (CallSendFlowControl quota)
    have "post (\<lambda>c'. early (grant (nat quota) ?A) c' \<and> handshake_request_info c' = handshake_request_info c \<and>
      handshake_response_info c' = handshake_response_info c) (gone (quota_total ?A + nat quota)) (SendFlowControl env quota c)"
      by (rule SendFlowControl_early [OF e]) (use p st in \<open>auto simp: CallSendFlowControl\<close>)
    then show ?thesis
      using i st by (auto elim!: post_mono simp: CallSendFlowControl run_inv_def channel_inv_def infos_ok_def)
  next
    case (CallStartClosingHandshake code reason)
    then show ?thesis
      using p st drop_early [OF env e, of "c\<lparr>stream_request := False, ch_state := CLOSED\<rparr>"]
      by (auto simp: StartClosingHandshake_def InClosingState_def SetState_def)
  next
    case (ConnectSuccess sub_protocol extensions)
    then show ?thesis using OnConnectSuccess_early [OF env e] p by (auto intro!: settled_post)
  next
    case (ConnectFailure message)
    then show ?thesis using OnConnectFailure_early [OF env e, of "run_inv (op # past)" message] p by simp
  next
    case (SSLCertificateError callbacks ssl_info fatal)
    then show ?thesis using SSLCertificateError_post [OF inv i] by simp
  next
    case NotificationTask
    then show ?thesis using NotificationTask_post [OF inv] by simp
  qed (use p st none inv i in \<open>auto simp: run_inv_def infos_ok_def Channel_OnStartOpeningHandshake_def
      Channel_OnFinishOpeningHandshake_def ScheduleOpeningHandshakeNotification_def\<close>)
qed

lemma perform_post:
  assumes "env_ok env" and "run_inv past c" and "permitted past op c"
  shows "post (run_inv (op # past)) (gone (quota_granted (op # past))) (perform env op c)"
  using assms(2) perform_early [OF assms(1) _ _ assms(3)] perform_settled [OF assms(1) _ assms(3)]
  by (auto simp: run_inv_def channel_inv_def)

lemma run_inv_new: "run_inv [] WebSocketChannel"
  using early_new by (simp add: run_inv_def channel_inv_def infos_ok_def WebSocketChannel_def)

lemma channel_run_result:
  assumes "env_ok env" and "channel_run env past result c"
  shows "case result of CHANNEL_ALIVE \<Rightarrow> run_inv past c | CHANNEL_DELETED \<Rightarrow> gone (quota_granted past) c"
  using assms(2)
proof induction
  case new_channel
  show ?case by (simp add: run_inv_new)
next
  case (one_more past c op result c')
  then show ?case
    using perform_post [OF assms(1), of past c op] by (auto split: channel_state.splits)
qed

lemmas run_alive = channel_run_result [where result = CHANNEL_ALIVE, simplified]
lemmas run_deleted = channel_run_result [where result = CHANNEL_DELETED, simplified]

lemma run_inv_cases:
  assumes "run_inv past c"
  obtains "early (account_of past) c" | "settled (account_of past) c"
  using assms by (auto simp: run_inv_def channel_inv_def)

text \<open>The frames a channel in any state has taken up, and what the renderer has of them.\<close>

lemma inv_reader:
  assumes "channel_inv A c"
  obtains fs later where "reader (A\<lparr>taken := fs\<rparr>) c" and "frames_read (channel_log c) = fs @ later"
    and "ch_state c \<notin> {SEND_CLOSED, CLOSE_WAIT} \<Longrightarrow> later = []"
    and "ch_state c = CONNECTED \<or> \<not> asked A \<Longrightarrow> close_last (ch_state c \<in> {SEND_CLOSED, CLOSE_WAIT}) fs"
proof -
  from assms consider "early A c" | "settled A c" by (auto simp: channel_inv_def)
  then show thesis
  proof cases
    case 1
    then show thesis by (intro that [of "[]" "[]"]) (auto simp: early_def close_last_def)
  next
    case 2
    then obtain fs where fs: "live (A\<lparr>taken := fs\<rparr>) c" "caught_up (A\<lparr>taken := fs\<rparr>) [] c" by (rule settledE)
    moreover have "ch_state c \<in> {CONNECTED, SEND_CLOSED, CLOSE_WAIT}"
      using settled_facts(1) [OF 2] by (auto simp: connection_def)
    moreover obtain later where "frames_read (channel_log c) = fs @ later" "ch_state c = CONNECTED \<longrightarrow> later = []"
      using fs(2) by (auto simp: caught_up_def)
    ultimately show thesis by (intro that [of fs later]) (auto simp: caught_up_def live_def)
  qed
qed

lemma inv_books: "channel_inv A c \<Longrightarrow>
    books 0 (ch_state c = SEND_CLOSED \<or> ch_state c = CLOSE_WAIT) (queued c) c"
  using settled_facts(1) [of A c]
  by (auto simp: channel_inv_def early_def connection_def writer_def books_def queued_def
      kDefaultSendQuotaHighWaterMark_def close_last_def)

lemma run_gone:
  assumes "env_ok env" and "channel_run env past result c"
  shows "gone (quota_granted past) c"
proof (cases result)
  case CHANNEL_ALIVE
  then have "channel_inv (account_of past) c" using run_alive assms by (simp add: run_inv_def)
  then show ?thesis by (rule inv_gone [where A = "account_of past", simplified account_of_simps]) (use \<open>channel_inv _ c\<close> in \<open>simp add: inv_calm same_logs_refl\<close>)
next
  case CHANNEL_DELETED
  then show ?thesis using run_deleted assms by simp
qed

section \<open>What a channel does over its life\<close>

text \<open>[C6]
  In an environment that keeps its contracts, every call that the protocol of the callers permits is
  carried out without a failed CHECK, a null pointer, an access out of bounds or a call the stream forbids.
\<close>

theorem channel_assertions_hold:
  assumes "env_ok env" and "channel_run env past CHANNEL_ALIVE c" and "permitted past op c"
  shows "perform env op c \<noteq> None"
  using perform_post [OF assms(1) run_alive [OF assms(1,2)] assms(3)] by (auto elim!: post_cases)


text \<open>[C11]
  The renderer is never given more bytes than it has granted, and sends no more than it has been granted.
  While the channel lives the books are exact: \<open>current_receive_quota_\<close> is what is left of the one, and
  \<open>current_send_quota_\<close> the other less the data sent or queued, between 0 and the high water mark.
\<close>

theorem quotas_respected:
  assumes "env_ok env" and "channel_run env past result c"
  shows "fragment_bytes (forwarded (channel_log c)) \<le> quota_granted past \<and>
    int (data_bytes (sent (channel_log c))) \<le> granted (channel_log c) \<and>
    (result = CHANNEL_ALIVE \<longrightarrow>
      fragment_bytes (forwarded (channel_log c)) + current_receive_quota c = quota_granted past \<and>
      granted (channel_log c) = current_send_quota c + int (data_bytes (queued c)) \<and>
      0 \<le> current_send_quota c \<and> current_send_quota c \<le> kDefaultSendQuotaHighWaterMark)"
proof -
  have "fragment_bytes (forwarded (channel_log c)) + current_receive_quota c = quota_granted past \<and>
      granted (channel_log c) = current_send_quota c + int (data_bytes (queued c)) \<and>
      0 \<le> current_send_quota c \<and> current_send_quota c \<le> kDefaultSendQuotaHighWaterMark" if "result = CHANNEL_ALIVE"
  proof -
    have inv: "channel_inv (account_of past) c" using run_alive assms that by (simp add: run_inv_def)
    then obtain fs where "reader ((account_of past)\<lparr>taken := fs\<rparr>) c" by (rule inv_reader)
    then show ?thesis using inv_books [OF inv] by (simp add: reader_def books_def)
  qed
  then show ?thesis using run_gone [OF assms] by (auto simp: gone_def renderer_ok_def books_closed_def)
qed

text \<open>[C10]
  Nothing is sent after a Close frame. Every frame sent is masked and complete, control frames are final and
  short, and the renderer hears of the end of the connection at most once, as the last thing. While the
  channel lives it has not heard of it, and a Close frame is the last one sent or queued exactly in the
  states \<open>SEND_CLOSED\<close> and \<open>CLOSE_WAIT\<close>.
\<close>

theorem close_frame_is_last:
  assumes "env_ok env" and "channel_run env past result c"
  shows "nothing_after_close (sent (channel_log c)) \<and> (\<forall>f \<in> set (sent (channel_log c)). sent_frame_ok f) \<and>
    ended_once (channel_log c) \<and>
    (result = CHANNEL_ALIVE \<longrightarrow> calm (channel_log c) \<and>
      close_last (ch_state c = SEND_CLOSED \<or> ch_state c = CLOSE_WAIT) (queued c))"
proof -
  have "calm (channel_log c) \<and> close_last (ch_state c = SEND_CLOSED \<or> ch_state c = CLOSE_WAIT) (queued c)"
    if "result = CHANNEL_ALIVE"
  proof -
    have inv: "channel_inv (account_of past) c" using run_alive assms that by (simp add: run_inv_def)
    show ?thesis using inv_calm [OF inv] inv_books [OF inv] by (simp add: books_def)
  qed
  then show ?thesis using run_gone [OF assms] by (auto simp: gone_def books_closed_def)
qed

text \<open>[C12]
  A live channel never gets stuck. It waits for frames of the server exactly while it is connected and the
  renderer has quota left; its timer runs exactly while it is closing, and when the time is over the channel
  is deleted.
\<close>

theorem channel_never_stuck:
  assumes "env_ok env" and "channel_run env past CHANNEL_ALIVE c"
  shows "ch_state c \<notin> {RECV_CLOSED, CLOSED} \<and>
    (is_reading c \<longleftrightarrow> ch_state c \<in> {CONNECTED, SEND_CLOSED, CLOSE_WAIT} \<and> current_receive_quota c > 0) \<and>
    (close_timer c \<noteq> None \<longleftrightarrow> ch_state c \<in> {SEND_CLOSED, CLOSE_WAIT}) \<and>
    (close_timer c \<noteq> None \<longrightarrow> (\<exists>c'. perform env CloseTimeout c = Some (CHANNEL_DELETED, c')))"
proof (rule run_inv_cases [OF run_alive [OF assms]])
  assume e: "early (account_of past) c"
  then show ?thesis by (auto simp: early_def is_reading_def)
next
  assume s: "settled (account_of past) c"
  note conn = settled_facts(1,2) [OF s]
  have "post (\<lambda>c. False) (\<lambda>c'. same_logs (channel_log c) (channel_log c'))
      (Channel_CloseTimeout env (c\<lparr>close_timer := None\<rparr>))"
    using close_and_drop_post [where P = "\<lambda>c. False", OF assms(1), of "c\<lparr>close_timer := None\<rparr>"] conn
    by (auto simp: Channel_CloseTimeout_def connection_def writer_def is_open_def)
  then have "\<exists>c'. perform env CloseTimeout c = Some (CHANNEL_DELETED, c')" by (auto elim!: post_cases)
  then show ?thesis using s conn by (auto simp: settled_def connection_def)
qed

text \<open>A run computed from its calls, the latest first.\<close>

fun run_calls :: "channel_env \<Rightarrow> channel_op list \<Rightarrow> outcome" where
  "run_calls env [] = Some (CHANNEL_ALIVE, WebSocketChannel)"
| "run_calls env (op # past) =
     Option.bind (run_calls env past)
       (\<lambda>(result, c). DCHECK (result = CHANNEL_ALIVE \<and> permitted past op c) (perform env op c))"

lemma run_calls_run: "run_calls env past = Some (result, c) \<Longrightarrow> channel_run env past result c"
  by (induction past arbitrary: result c)
    (auto simp: DCHECK_def split: bind_splits if_splits intro: channel_run.intros)

text \<open>
  A renderer that asks for a connection and grants 3 bytes, and a server that sends a text message of
  5 bytes in 2 frames and then a Close frame with code 1000.
\<close>

definition example_env :: channel_env where
  "example_env = \<lparr>deletes = \<lambda>e c. final_event (Event e), write_result = \<lambda>c. None, read_results = \<lambda>c. []\<rparr>"

definition server_frame :: "bool \<Rightarrow> int \<Rightarrow> uint8 list \<Rightarrow> web_socket_frame" where
  "server_frame fin op data =
     \<lparr>frame_header = (WebSocketFrameHeader op)\<lparr>final := fin, payload_length := of_nat (length data)\<rparr>,
      frame_data = Some data\<rparr>"

definition example_calls :: "channel_op list" where
  "example_calls =
     [ReadDone None [server_frame False kOpCodeText [104, 101], server_frame True kOpCodeContinuation [108, 108, 111],
        server_frame True kOpCodeClose [3, 232]],
      CallSendFlowControl 3, ConnectSuccess [] [],
      CallSendAddChannelRequest \<lparr>gurl_scheme = ''ws'', gurl_spec = ''ws://host''\<rparr> [] []]"

definition example_channel :: web_socket_channel where
  "example_channel = snd (the (run_calls example_env example_calls))"

lemma example_env_ok: "env_ok example_env"
  by (simp add: env_ok_def example_env_def final_event_def)

lemma lazy_cong:
  "m = m' \<Longrightarrow> Option.bind m f = Option.bind m' f"
  "r = r' \<Longrightarrow> then_alive r g = then_alive r' g"
  "b = b' \<Longrightarrow> DCHECK b x = DCHECK b' x"
  by simp_all

lemma lazy_env [simp]:
  "deletes example_env e c = final_event (Event e)" "write_result example_env c = None" "read_results example_env c = []"
  by (simp_all add: example_env_def)

lemma example_text: "AddBytes [104, 101] StreamingUtf8Validator = Some (VALID_ENDPOINT, 0)" "AddBytes [108, 108, 111] 0 = Some (VALID_ENDPOINT, 0)"
  by code_simp+

lemma example_close: "ParseClose (Some [3, 232]) 2 = Some (True, 1000, [], [])"
  by code_simp

lemmas channel_calls = WebSocketChannel_def SendAddChannelRequest_def SchemeIsWSOrWSS_def SetState_def log_action_def
  OnConnectSuccess_def notify_def final_event_def Channel_ReadFrames_def SendFlowControl_def quota_granted_def
  stream_ReadFrames_def INT_MAX_def then_alive_def Let_def

lemmas frame_calls = OnReadDone_def HandleFrame_def HandleFrameByState_def HandleDataFrame_def forward_data_def HandleClose_def
  buffer_bytes_def SendClose_def SendFrameFromIOBuffer_def Channel_WriteFrames.simps OnWriteDone_def stream_WriteFrames_def
  keep_close_def close_body_def server_frame_def WebSocketFrameHeader_def AddFrame_def SendBuffer_def

lemmas example_sizes = read_ok_def received_frame_ok_def IsKnownControlOpCode_def IsKnownDataOpCode_def payload_of_def
  is_reading_def kMaxControlFramePayload_def kMaximumCloseReasonLength_def kWebSocketCloseCodeLength_def
  kDefaultSendQuotaLowWaterMark_def kDefaultSendQuotaHighWaterMark_def WriteBigEndian_def
  kUnderlyingConnectionCloseTimeoutSeconds_def

lemma example_outcome:
  "\<exists>c. run_calls example_env example_calls = Some (CHANNEL_ALIVE, c) \<and> ch_state c = CLOSE_WAIT \<and>
     close_timer c = Some 2 \<and> forwarded (channel_log c) = [(1, False, [104, 101]), (0, False, [108])]"
  unfolding example_calls_def
  by (simp add: channel_calls frame_calls opcode_defs example_text example_close example_sizes cong: lazy_cong)

lemma example_run: "channel_run example_env example_calls CHANNEL_ALIVE example_channel"
  by (rule run_calls_run) (use example_outcome in \<open>auto simp: example_channel_def\<close>)

lemma example_state:
  "ch_state example_channel = CLOSE_WAIT" "close_timer example_channel = Some 2"
  "forwarded (channel_log example_channel) = [(1, False, [104, 101]), (0, False, [108])]"
  using example_outcome by (auto simp: example_channel_def)

lemma example_granted: "quota_granted example_calls = 3"
  by (simp add: example_calls_def)

lemma channel_assertions_hold_witness: "perform example_env (CallSendFlowControl 2) example_channel \<noteq> None"
  by (rule channel_assertions_hold [OF example_env_ok example_run])
    (simp add: example_state example_granted INT_MAX_def)


lemma quotas_respected_witness: "current_receive_quota example_channel = 0"
  using quotas_respected [OF example_env_ok example_run] by (simp add: example_state example_granted fragment_bytes_def)

lemma close_frame_is_last_witness: "close_last True (queued example_channel)"
  using close_frame_is_last [OF example_env_ok example_run] by (simp add: example_state)

lemma channel_never_stuck_witness:
  "\<exists>c. perform example_env CloseTimeout example_channel = Some (CHANNEL_DELETED, c)"
  using channel_never_stuck [OF example_env_ok example_run] by (simp add: example_state)

text \<open>[C22]
  A code and a reason put into the body of a Close frame are read back from it, for every code that
  the code may carry and every reason in UTF-8 that is short enough; the body without a code is empty
  and read back as \<open>kWebSocketErrorNoStatusReceived\<close>.
\<close>

theorem close_body_roundtrip:
  assumes "valid_utf8 reason" and "length reason \<le> kMaximumCloseReasonLength"
    and "code \<noteq> error_value kWebSocketErrorAbnormalClosure" and "code \<noteq> error_value kWebSocketErrorTlsHandshake"
    and "code = error_value kWebSocketErrorNoStatusReceived \<Longrightarrow> reason = []"
  shows "ParseClose (Some (close_body code reason)) (length (close_body code reason)) = Some (True, code, reason, [])"
proof (cases "code = error_value kWebSocketErrorNoStatusReceived")
  case True
  then show ?thesis using assms(5) by (simp add: close_body_def ParseClose_def kWebSocketCloseCodeLength_def)
next
  case False
  have two: "length (WriteBigEndian code) = 2" by (simp add: sizeof_def)
  have "(ReadBigEndian (WriteBigEndian code @ reason) :: uint16) = code" by (simp add: ReadBigEndian_Write)
  then show ?thesis
    using False two assms(1,3,4)
    by (simp add: close_body_def ParseClose_def kWebSocketCloseCodeLength_def Let_def buffer_bytes_def Validate_valid)
qed

lemma close_body_roundtrip_witness:
  "ParseClose (Some (close_body 1001 [98, 121, 101])) 5 = Some (True, 1001, [98, 121, 101], [])"
proof -
  have "Validate [98, 121, 101] = Some True" by code_simp
  then have "valid_utf8 [98, 121, 101]" by (simp add: Validate_valid)
  moreover have "length (close_body 1001 [98, 121, 101]) = 5" by (simp add: close_body_def sizeof_def)
  ultimately show ?thesis
    using close_body_roundtrip [of "[98, 121, 101]" 1001]
    by (simp add: kMaximumCloseReasonLength_def kWebSocketCloseCodeLength_def)
qed

text \<open>
  A connected channel that is asked to close with the code \<open>kWebSocketErrorNoStatusReceived\<close> and any
  reason that is not empty, in UTF-8 and short enough, fails the DCHECK of \<open>SendClose\<close> that there is
  no reason, although the code lies in the range of \<open>StartClosingHandshake\<close>.
\<close>

theorem reason_without_code_aborts:
  assumes "ch_state c = CONNECTED" and "close_timer c = None"
    and "valid_utf8 reason" and "reason \<noteq> []" and "length reason \<le> kMaximumCloseReasonLength"
  shows "StartClosingHandshake env (error_value kWebSocketErrorNoStatusReceived) reason c = None"
proof -
  have "IsStrictlyValidCloseStatusCode 1005 = Some True" by code_simp
  then show ?thesis
    using assms
    by (simp add: StartClosingHandshake_def InClosingState_def Validate_valid Let_def SendClose_def then_alive_def)
qed

lemma reason_without_code_aborts_witness:
  "StartClosingHandshake example_env 1005 [104, 105] (WebSocketChannel\<lparr>ch_state := CONNECTED\<rparr>) = None"
proof -
  have "Validate [104, 105] = Some True" by code_simp
  then have "valid_utf8 [104, 105]" by (simp add: Validate_valid)
  then show ?thesis
    using reason_without_code_aborts [of "WebSocketChannel\<lparr>ch_state := CONNECTED\<rparr>" "[104, 105]" example_env]
    by (simp add: WebSocketChannel_def kMaximumCloseReasonLength_def kWebSocketCloseCodeLength_def)
qed

end
