(* ===== verification/WebSocket_Channel_Stream.thy ===== *)
theory WebSocket_Channel_Stream
  imports WebSocket_Channel_Correct
begin

text \<open>
  What a \<open>WebSocketChannel\<close> relies on when it reads, as a locale over a source of frames, and its
  interpretation on \<open>WebSocketBasicStream\<close>: \<open>ReadFrames\<close> and \<open>OnReadComplete\<close> give outcomes that are
  \<open>read_ok\<close>, so over such a stream only the renderer must keep its contract for \<open>env_ok\<close>.
\<close>

section \<open>The contract of the stream\<close>

text \<open>
  A source of frames, as the channel sees the stream: as long as it is well, a call gives an outcome that
  the channel can take, and after \<open>OK\<close> the source is still well.
\<close>

locale frame_source =
  fixes read_call :: "'s \<Rightarrow> (read_outcome \<times> 's) option"
    and well :: "'s \<Rightarrow> bool"
  assumes call: "well s \<Longrightarrow> \<exists>outcome s'. read_call s = Some (outcome, s') \<and> read_ok outcome \<and>
      (goes_on (fst outcome) \<longrightarrow> well s')"

text \<open>The outcomes of the calls up to the first that is not \<open>OK\<close>, at most \<open>n\<close> of them.\<close>

fun outcomes :: "('s \<Rightarrow> (read_outcome \<times> 's) option) \<Rightarrow> nat \<Rightarrow> 's \<Rightarrow> read_outcome list option" where
  "outcomes read_call 0 s = Some []"
| "outcomes read_call (Suc n) s =
     (case read_call s of
        None \<Rightarrow> None
      | Some (outcome, s) \<Rightarrow>
          if fst outcome = None then map_option ((#) outcome) (outcomes read_call n s) else Some [outcome])"

context frame_source
begin

lemma outcomes_ok: "well s \<Longrightarrow> \<exists>os. outcomes read_call n s = Some os \<and> list_all read_ok os"
proof (induction n arbitrary: s)
  case (Suc n)
  obtain outcome s' where r: "read_call s = Some (outcome, s')" "read_ok outcome" "goes_on (fst outcome) \<longrightarrow> well s'"
    using call [OF Suc.prems] by blast
  then show ?case using Suc.IH [of s'] by (auto simp: goes_on_def)
qed simp

lemma channel_reads:
  assumes "\<And>was_clean code reason c. deletes env (OnDropChannel was_clean code reason) c"
    and "\<And>m c. deletes env (OnFailChannel m) c"
    and "\<And>c. \<exists>n s. well s \<and> outcomes read_call n s = Some (read_results env c)"
  shows "env_ok env"
proof -
  have "list_all read_ok (read_results env c)" for c
    using assms(3) [of c] by (metis outcomes_ok option.inject)
  then show ?thesis using assms(1,2) by (simp add: env_ok_def list_all_iff)
qed

end

text \<open>The frames made from accepted chunks fit the channel.\<close>

lemma CreateFrame_ok:
  assumes "CreateFrame fin data h s = (Some f, s')" and "length (payload_bytes data) < 2 ^ 64"
    and "IsKnownControlOpCode (opcode h) \<Longrightarrow> fin \<and> final h \<and> length (payload_bytes data) \<le> kMaxControlFramePayload"
  shows "received_frame_ok f"
proof -
  have f: "frame_data f = data" "opcode (frame_header f) = opcode h" "final (frame_header f) = (fin \<and> final h)"
    "payload_length (frame_header f) = of_nat (length (payload_bytes data))"
    using assms(1)
    by (auto simp: CreateFrame_def Let_def CopyFrom_def WebSocketFrameHeader_def payload_bytes_def split: if_splits option.splits)
  have "payload_of f = payload_bytes data" by (simp add: payload_of_def payload_bytes_def f(1))
  moreover have "unat (of_nat (length (payload_bytes data)) :: uint64) = length (payload_bytes data)"
    using assms(2) by (simp add: unsigned_of_nat take_bit_nat_eq_self)
  ultimately show ?thesis using assms(3) by (simp add: received_frame_ok_def f)
qed

lemma ConvertChunkToFrame_ok:
  assumes inv: "stream_inv st s" and acc: "accept_chunk st c = Some st1"
    and conv: "ConvertChunkToFrame c s = Some (None, Some f, s1)"
  shows "received_frame_ok f"
proof -
  obtain h off where h: "(st = None \<and> chunk_header c = Some h \<and> off = 0) \<or> (st = Some (h, off) \<and> chunk_header c = None)"
    and size: "off + chunk_size c \<le> unat (payload_length h)"
    by (rule accept_chunk_cases [OF acc])
  define s0 where "s0 = (if chunk_header c \<noteq> None then s\<lparr>bs_current_frame_header := chunk_header c\<rparr> else s)"
  have "\<exists>h0. bs_current_frame_header s0 = Some h0 \<and> payload_length h0 = payload_length h \<and> final h0 = final h \<and>
      IsKnownControlOpCode (opcode h0) = IsKnownControlOpCode (opcode h) \<and>
      (\<forall>body. incomplete_control_frame_body s0 = Some body \<longrightarrow> IsKnownControlOpCode (opcode h) \<and> length body = off)"
    using h
  proof
    assume new: "st = None \<and> chunk_header c = Some h \<and> off = 0"
    then show ?thesis using inv by (simp add: s0_def stream_inv_def)
  next
    assume old: "st = Some (h, off) \<and> chunk_header c = None"
    then have s0: "s0 = s" by (simp add: s0_def)
    show ?thesis
    proof (cases "IsKnownControlOpCode (opcode h)")
      case True
      then show ?thesis using inv old by (auto simp: s0 stream_inv_def)
    next
      case False
      then obtain h' where "incomplete_control_frame_body s = None" "bs_current_frame_header s = Some h'" "kept_header_ok h h'"
        using inv old by (auto simp: stream_inv_def)
      then show ?thesis using False opcode_kinds(3) by (simp add: s0 kept_header_ok_def)
    qed
  qed
  then obtain h0 where h0: "bs_current_frame_header s0 = Some h0" "payload_length h0 = payload_length h"
    "final h0 = final h" "IsKnownControlOpCode (opcode h0) = IsKnownControlOpCode (opcode h)"
    "\<And>body. incomplete_control_frame_body s0 = Some body \<Longrightarrow> IsKnownControlOpCode (opcode h) \<and> length body = off"
    by blast
  have small: "chunk_size c < 2 ^ 64" using size unsigned_less [of "payload_length h", where 'a = nat] by simp
  have len: "payload_length h0 > of_nat kMaxControlFramePayload \<or> unat (payload_length h) \<le> kMaxControlFramePayload"
    by (auto simp: h0(2) kMaxControlFramePayload_def word_less_nat_alt word_le_nat_alt)
  define ctl where "ctl = IsKnownControlOpCode (opcode h0)"
  note conv' = conv [unfolded ConvertChunkToFrame_def Let_def s0_def [symmetric] h0(1) option.case ctl_def [symmetric]]
  have chunk: "length (payload_bytes (chunk_data c)) = chunk_size c"
    by (simp add: payload_bytes_def chunk_size_def split: option.split)
  have good: "ctl \<Longrightarrow> final h0 \<and> unat (payload_length h) \<le> kMaxControlFramePayload"
    and fin: "ctl \<Longrightarrow> final_chunk c"
    using conv' len by (auto split: if_splits option.splits)
  show ?thesis
  proof (cases "ctl \<and> incomplete_control_frame_body s0 \<noteq> None")
    case True
    then obtain body where body: "incomplete_control_frame_body s0 = Some body" by auto
    obtain t s2 where t: "AddToIncompleteControlFrameBody (chunk_data c) s0 = Some t"
        "CreateFrame (final_chunk c) (incomplete_control_frame_body t) h0 s2 = (Some f, s1)"
      using conv' True good fin by (auto simp: body split: if_splits option.splits prod.splits)
    have "incomplete_control_frame_body t = Some (body @ payload_bytes (chunk_data c))"
      using t(1) body by (auto simp: AddToIncompleteControlFrameBody_def payload_bytes_def split: option.splits if_splits)
    moreover have "length body + chunk_size c \<le> kMaxControlFramePayload"
      using h0(5) [OF body] size good True by simp
    ultimately show ?thesis
      using t(2) True good fin chunk by (rule_tac CreateFrame_ok [OF t(2)]) (auto simp: payload_bytes_def kMaxControlFramePayload_def)
  next
    case False
    then have "CreateFrame (final_chunk c) (chunk_data c) h0 s0 = (Some f, s1)"
      using conv' good fin by (auto split: if_splits option.splits prod.splits)
    then show ?thesis by (rule CreateFrame_ok) (use chunk small size good fin in \<open>auto simp: ctl_def\<close>)
  qed
qed

lemma convert_chunks_ok:
  "stream_inv st s \<Longrightarrow> accept_chunks st cs = Some st' \<Longrightarrow> convert_chunks cs s = Some (r, fs, s') \<Longrightarrow>
   list_all received_frame_ok fs"
proof (induction cs arbitrary: st s fs)
  case (Cons c cs)
  obtain st1 where c: "accept_chunk st c = Some st1" and rest: "accept_chunks st1 cs = Some st'"
    using Cons.prems(2) by (auto split: option.splits)
  from convert_chunk_step [OF Cons.prems(1) c] show ?case
  proof
    assume "bad_control (frame_of st c) \<and> (\<exists>s1. ConvertChunkToFrame c s = Some (Some ERR_WS_PROTOCOL_ERROR, None, s1))"
    then show ?thesis using Cons.prems(3) by auto
  next
    assume "\<exists>fo s1. ConvertChunkToFrame c s = Some (None, fo, s1) \<and>
       bs_parser s1 = bs_parser s \<and> http_read_buffer s1 = http_read_buffer s \<and> stream_inv st1 s1 \<and>
       (known_opcode (frame_of st c) \<longrightarrow>
          pending s @ chunk_messages (frame_of st c) c =
            (case fo of Some f \<Rightarrow> frame_messages f | None \<Rightarrow> []) @ pending s1)"
    then obtain fo s1 where s1: "ConvertChunkToFrame c s = Some (None, fo, s1)" "stream_inv st1 s1" by blast
    obtain fs1 where fs1: "convert_chunks cs s1 = Some (r, fs1, s')" "fs = (case fo of Some f \<Rightarrow> [f] | None \<Rightarrow> []) @ fs1"
      using Cons.prems(3) s1(1) by (auto split: option.splits prod.splits)
    show ?thesis
      using Cons.IH [OF s1(2) rest fs1(1)] ConvertChunkToFrame_ok [OF Cons.prems(1) c] s1(1) fs1(2)
      by (auto split: option.split)
  qed
qed simp

lemma decode_and_convert_ok:
  assumes inv: "reader_inv s" and run: "decode_and_convert pm addr d old s = Some (r, fs, s')"
    and old: "list_all received_frame_ok old"
  shows "list_all received_frame_ok fs \<and> (r = None \<longrightarrow> fs \<noteq> []) \<and> (r = Some ERR_IO_PENDING \<longrightarrow> fs = old)"
proof -
  obtain ok q cs where d: "Decode pm addr d [] (bs_parser s) = (ok, q, cs)"
    by (cases "Decode pm addr d [] (bs_parser s)")
  have p: "parser_inv (bs_parser s)" "current_read_pos (bs_parser s) = 0"
    "stream_inv (open_frame (bs_parser s)) (s\<lparr>bs_parser := q\<rparr>)" using inv by (auto simp: reader_inv_def)
  obtain st where st: "accept_chunks (open_frame (bs_parser s)) cs = Some st"
    using Decode_accepted(1) [OF p(1,2) d] by blast
  have okq: "ok \<longleftrightarrow> websocket_error q = kWebSocketNormalClosure" by (rule Decode_accepted(2) [OF p(1,2) d])
  show ?thesis
  proof (cases "ok \<and> cs \<noteq> []")
    case True
    then have conv: "ConvertChunksToFrames cs old (s\<lparr>bs_parser := q\<rparr>) = Some (r, fs, s')"
      using run d by (simp add: decode_and_convert_def)
    then obtain e fs1 s1 where e: "convert_chunks cs (s\<lparr>bs_parser := q\<rparr>) = Some (e, fs1, s1)"
      by (auto simp: ConvertChunksToFrames_def split: option.splits)
    have "list_all received_frame_ok fs1" by (rule convert_chunks_ok [OF p(3) st e])
    moreover have "e \<noteq> Some ERR_IO_PENDING" using convert_chunks_run [OF p(3) st] e by auto
    ultimately show ?thesis
      using conv e old by (auto simp: ConvertChunksToFrames_def split: option.splits if_splits)
  next
    case False
    have "WebSocketErrorToNetError (websocket_error q) \<noteq> None" if "\<not> ok"
      using okq that by (cases "websocket_error q") simp_all
    then show ?thesis using False run d old by (auto simp: decode_and_convert_def Let_def split: if_splits)
  qed
qed

lemma HandleReadResult_ok:
  assumes "reader_inv s" and "HandleReadResult pm addr result old s = Some (r, fs, s')"
    and "list_all received_frame_ok old"
  shows "list_all received_frame_ok fs \<and> (r = None \<longrightarrow> fs \<noteq> []) \<and> (r = Some ERR_IO_PENDING \<longrightarrow> fs = old)"
  using assms decode_and_convert_ok [OF assms(1) _ assms(3)]
  by (auto simp: HandleReadResult_def split: sum.splits if_splits)

lemma read_loop_ok:
  "reader_inv s \<Longrightarrow> list_all received_frame_ok old \<Longrightarrow>
   read_loop pm addr results old s = Some (r, fs, s', rest) \<Longrightarrow>
   list_all received_frame_ok fs \<and> (r = None \<longrightarrow> fs \<noteq> []) \<and> (r = Some ERR_IO_PENDING \<longrightarrow> fs = old)"
proof (induction results arbitrary: old s)
  case (Cons result results)
  obtain r1 fs1 s1 where h: "HandleReadResult pm addr result old s = Some (r1, fs1, s1)"
    "goes_on r1 \<longrightarrow> reader_inv s1"
    using HandleReadResult_safe [OF Cons.prems(1)] by blast
  have ok: "list_all received_frame_ok fs1" "r1 = None \<longrightarrow> fs1 \<noteq> []" "r1 = Some ERR_IO_PENDING \<longrightarrow> fs1 = old"
    using HandleReadResult_ok [OF Cons.prems(1) h(1) Cons.prems(2)] by simp_all
  show ?case
    using Cons.prems h ok Cons.IH [of s1 fs1] by (auto simp: goes_on_def split: if_splits)
qed auto

lemma ReadFrames_ok:
  assumes inv: "reader_inv s" and run: "ReadFrames pm addr results [] s = Some (r, fs, s', rest)"
  shows "read_ok (r, fs) \<and> (r = Some ERR_IO_PENDING \<longrightarrow> fs = [])"
proof -
  have "list_all received_frame_ok fs \<and> (r = None \<longrightarrow> fs \<noteq> []) \<and> (r = Some ERR_IO_PENDING \<longrightarrow> fs = [])"
  proof (cases "http_read_buffer s")
    case None
    then show ?thesis using read_loop_ok [OF inv, of "[]"] run by (simp add: ReadFrames_def)
  next
    case (Some d)
    have inv': "reader_inv (s\<lparr>http_read_buffer := None\<rparr>)" using inv by simp
    obtain r1 fs1 s1 where h: "decode_and_convert pm addr d [] (s\<lparr>http_read_buffer := None\<rparr>) = Some (r1, fs1, s1)"
      "goes_on r1 \<longrightarrow> reader_inv s1"
      using decode_and_convert_safe [OF inv'] by blast
    have ok: "list_all received_frame_ok fs1" "r1 = None \<longrightarrow> fs1 \<noteq> []" "r1 = Some ERR_IO_PENDING \<longrightarrow> fs1 = []"
      using decode_and_convert_ok [OF inv' h(1)] by simp_all
    show ?thesis
      using Some run h ok read_loop_ok [of s1 fs1] by (auto simp: ReadFrames_def goes_on_def split: if_splits)
  qed
  then show ?thesis by (simp add: read_ok_def list_all_iff)
qed

lemma reads_meet_contract:
  assumes "reader_inv s"
  shows "\<exists>r fs s' rest. ReadFrames pm addr results [] s = Some (r, fs, s', rest) \<and> read_ok (r, fs) \<and>
    (r = Some ERR_IO_PENDING \<longrightarrow> fs = []) \<and> (goes_on r \<longrightarrow> reader_inv s')"
  using ReadFrames_safe [OF assms, of pm addr results] ReadFrames_ok [OF assms] by blast

lemma completions_meet_contract:
  assumes "reader_inv s"
  shows "\<exists>r fs s' rest called. OnReadComplete pm addr result results [] s = Some (r, fs, s', rest, called) \<and>
    read_ok (r, fs) \<and> (called \<longleftrightarrow> r \<noteq> Some ERR_IO_PENDING) \<and>
    (r = Some ERR_IO_PENDING \<longrightarrow> fs = []) \<and> (goes_on r \<longrightarrow> reader_inv s')"
proof -
  obtain r1 fs1 s1 where h: "HandleReadResult pm addr result [] s = Some (r1, fs1, s1)" "goes_on r1 \<longrightarrow> reader_inv s1"
    using HandleReadResult_safe [OF assms] by blast
  have ok: "list_all received_frame_ok fs1" "r1 = None \<longrightarrow> fs1 \<noteq> []" "r1 = Some ERR_IO_PENDING \<longrightarrow> fs1 = []"
    using HandleReadResult_ok [OF assms h(1)] by simp_all
  show ?thesis
  proof (cases "r1 = Some ERR_IO_PENDING")
    case True
    then have s1: "reader_inv s1" using h(2) by (simp add: goes_on_def)
    show ?thesis
      using reads_meet_contract [OF s1, of pm addr results] True h(1) ok(3) by (auto simp: OnReadComplete_def)
  next
    case False
    then show ?thesis using h ok by (auto simp: OnReadComplete_def read_ok_def list_all_iff)
  qed
qed

text \<open>\<open>ReadFrames\<close> of \<open>WebSocketBasicStream\<close> with the results of the socket to come.\<close>

definition basic_read ::
    "packed_mask_type \<Rightarrow> (web_socket_frame_parser \<Rightarrow> nat) \<Rightarrow> read_result list \<times> web_socket_basic_stream \<Rightarrow>
     (read_outcome \<times> read_result list \<times> web_socket_basic_stream) option" where
  "basic_read pm addr = (\<lambda>(results, s).
     map_option (\<lambda>(r, fs, s, rest). ((r, fs), rest, s)) (ReadFrames pm addr results [] s))"

interpretation basic: frame_source "basic_read pm addr" "\<lambda>(results, s). reader_inv s" for pm addr
proof
  fix x :: "read_result list \<times> web_socket_basic_stream"
  assume "case x of (results, s) \<Rightarrow> reader_inv s"
  then obtain results s where x: "x = (results, s)" "reader_inv s" by (cases x) simp
  show "\<exists>outcome s'. basic_read pm addr x = Some (outcome, s') \<and> read_ok outcome \<and>
      (goes_on (fst outcome) \<longrightarrow> (case s' of (results, s) \<Rightarrow> reader_inv s))"
    using reads_meet_contract [OF x(2), of pm addr results] by (auto simp: basic_read_def x(1))
qed

text \<open>Over a \<open>WebSocketBasicStream\<close> only the renderer must keep its contract.\<close>

lemma channel_over_basic_stream:
  assumes "\<And>was_clean code reason c. deletes env (OnDropChannel was_clean code reason) c"
    and "\<And>m c. deletes env (OnFailChannel m) c"
    and "\<And>c. \<exists>n results s. reader_inv s \<and> outcomes (basic_read pm addr) n (results, s) = Some (read_results env c)"
  shows "env_ok env"
  by (rule basic.channel_reads [OF assms(1,2)]) (use assms(3) in auto)

text \<open>[C21]
  In every state that \<open>WebSocketBasicStream\<close> can be in between two reads, whatever bytes and errors come from
  the socket and in any pieces: a call of \<open>ReadFrames\<close>, or the completion of a pending one, that gives
  \<open>OK\<close> gives at least one frame, each with a payload of the length its header states, and control
  frames are final and at most 125 bytes long; and the stream is in such a state again unless it has
  failed. This is what \<open>WebSocketChannel\<close> relies on.
\<close>

theorem basic_stream_meets_contract:
  assumes "reader_inv s"
  shows "(\<exists>r fs s' rest. ReadFrames pm addr results [] s = Some (r, fs, s', rest) \<and> read_ok (r, fs) \<and>
      (r = Some ERR_IO_PENDING \<longrightarrow> fs = []) \<and> (goes_on r \<longrightarrow> reader_inv s')) \<and>
    (\<exists>r fs s' rest called. OnReadComplete pm addr result results [] s = Some (r, fs, s', rest, called) \<and>
      read_ok (r, fs) \<and> (called \<longleftrightarrow> r \<noteq> Some ERR_IO_PENDING) \<and>
      (r = Some ERR_IO_PENDING \<longrightarrow> fs = []) \<and> (goes_on r \<longrightarrow> reader_inv s'))"
  by (rule conjI [OF reads_meet_contract [OF assms] completions_meet_contract [OF assms]])

lemma basic_stream_meets_contract_witness:
  "\<exists>r fs s' rest. ReadFrames SizeT64 (\<lambda>p. 0) [Inr [0x81, 2, 104, 105]] [] (WebSocketBasicStream None) = Some (r, fs, s', rest) \<and>
     read_ok (r, fs)"
  using basic_stream_meets_contract [OF reader_inv_initial [of None], of SizeT64 "\<lambda>p. 0" "[Inr [0x81, 2, 104, 105]]"]
  by blast

end
