(* ===== verification/Http_Chunked_Decoder.thy ===== *)
theory Http_Chunked_Decoder
  imports String_Number_Conversions
begin

text \<open>
  \<open>net/http/http_chunked_decoder.{h,cc}\<close>, the decoder of the chunked transfer coding.
  \<open>FilterBuf\<close> works in place: \<open>buf\<close> is the whole
  buffer, and its pointer is the index \<open>p\<close>. An access outside the buffer and a failed DCHECK give \<open>None\<close>.
  Sizes and counters, \<open>int\<close>s that the code keeps nonnegative, are natural numbers. All of them are bounded by
  the buffer or by \<open>ParseChunkSize\<close> except \<open>bytes_after_eof\<close>, which overflows in the code, and not here,
  once \<open>2 ^ 31\<close> bytes have followed the body.
\<close>

section \<open>The decoder\<close>

definition CR :: uint8 where "CR = 13"
definition LF :: uint8 where "LF = 10"

definition kMaxLineBufLen :: nat where "kMaxLineBufLen = 16384"

record http_chunked_decoder =
  chunk_remaining :: nat
  line_buf :: "uint8 list"
  chunk_terminator_remaining :: bool
  reached_last_chunk :: bool
  reached_eof :: bool
  bytes_after_eof :: nat

definition HttpChunkedDecoder :: http_chunked_decoder where
  "HttpChunkedDecoder =
     \<lparr>chunk_remaining = 0, line_buf = [], chunk_terminator_remaining = False,
      reached_last_chunk = False, reached_eof = False, bytes_after_eof = 0\<rparr>"

text \<open>\<open>StringPiece::find\<close> of a character; \<open>None\<close> is \<open>npos\<close>.\<close>

definition find_char :: "uint8 \<Rightarrow> uint8 list \<Rightarrow> nat option" where
  "find_char c s = (let i = length (takeWhile (\<lambda>x. x \<noteq> c) s) in if i < length s then Some i else None)"

definition strip_trailing_spaces :: "uint8 list \<Rightarrow> uint8 list" where
  "strip_trailing_spaces s = rev (dropWhile (\<lambda>c. c = chr CHR '' '') (rev s))"

text \<open>The value \<open>0\<close> stands for the uninitialised \<open>parsed_number\<close>, which the call always sets.\<close>

definition ParseChunkSize :: "uint8 list \<Rightarrow> nat option" where
  "ParseChunkSize s =
     (let chunk_size = strip_trailing_spaces s
      in if \<not> list_all (\<lambda>c. c \<in> set (bytes_of ''0123456789abcdefABCDEF'')) chunk_size then None
         else
           (let (ok, parsed_number) = HexStringToInt chunk_size 0
            in if ok \<and> parsed_number \<ge> 0 then Some (nat parsed_number) else None))"

definition scan_line ::
    "uint8 list \<Rightarrow> http_chunked_decoder \<Rightarrow> net_error option \<times> http_chunked_decoder" where
  "scan_line buf d =
     (if reached_last_chunk d
      then (None, (if buf \<noteq> [] then d else d\<lparr>reached_eof := True\<rparr>)\<lparr>line_buf := []\<rparr>)
      else if chunk_terminator_remaining d
      then (if buf \<noteq> [] then (Some ERR_INVALID_CHUNKED_ENCODING, d)
            else (None, d\<lparr>chunk_terminator_remaining := False, line_buf := []\<rparr>))
      else if buf \<noteq> []
      then
        (let buf = (case find_char (chr CHR '';'') buf of Some i \<Rightarrow> take i buf | None \<Rightarrow> buf)
         in case ParseChunkSize buf of
              None \<Rightarrow> (Some ERR_INVALID_CHUNKED_ENCODING, d)
            | Some n \<Rightarrow>
                (let d = d\<lparr>chunk_remaining := n\<rparr>;
                     d = (if chunk_remaining d = 0 then d\<lparr>reached_last_chunk := True\<rparr> else d)
                 in (None, d\<lparr>line_buf := []\<rparr>)))
      else (Some ERR_INVALID_CHUNKED_ENCODING, d))"

definition ScanForChunkRemaining ::
    "uint8 list \<Rightarrow> nat \<Rightarrow> http_chunked_decoder \<Rightarrow> (net_error + nat) \<times> http_chunked_decoder" where
  "ScanForChunkRemaining buf buf_len d =
     (case find_char LF (take buf_len buf) of
        Some index_of_lf \<Rightarrow>
          (let buf_len = index_of_lf;
               buf_len = (if buf_len \<noteq> 0 \<and> buf ! (buf_len - 1) = CR then buf_len - 1 else buf_len);
               bytes_consumed = index_of_lf + 1;
               (line, d) =
                 (if line_buf d \<noteq> []
                  then (let d = d\<lparr>line_buf := line_buf d @ take buf_len buf\<rparr> in (line_buf d, d))
                  else (take buf_len buf, d))
           in case scan_line line d of
                (Some e, d) \<Rightarrow> (Inl e, d)
              | (None, d) \<Rightarrow> (Inr bytes_consumed, d))
      | None \<Rightarrow>
          (let bytes_consumed = buf_len;
               buf_len = (if buf ! (buf_len - 1) = CR then buf_len - 1 else buf_len)
           in if length (line_buf d) + buf_len > kMaxLineBufLen
              then (Inl ERR_INVALID_CHUNKED_ENCODING, d)
              else (Inr bytes_consumed, d\<lparr>line_buf := line_buf d @ take buf_len buf\<rparr>)))"

lemma find_char_Some: "find_char c s = Some i \<Longrightarrow> i < length s"
  by (auto simp: find_char_def Let_def split: if_splits)

text \<open>Every call of the scanner makes progress, so the loop of \<open>FilterBuf\<close> ends.\<close>

lemma ScanForChunkRemaining_progress:
  assumes "ScanForChunkRemaining buf buf_len d = (Inr n, d')" and "0 < buf_len"
  shows "0 < n \<and> n \<le> buf_len"
  using assms
  by (auto simp: ScanForChunkRemaining_def Let_def Suc_le_eq
      dest: find_char_Some split: option.splits prod.splits if_splits)

text \<open>The \<open>n\<close> bytes at \<open>p\<close> lie in the buffer.\<close>

definition in_buffer :: "nat \<Rightarrow> nat \<Rightarrow> uint8 list \<Rightarrow> bool" where
  "in_buffer p n buf \<longleftrightarrow> p + n \<le> length buf"

text \<open>\<open>memmove(buf + dst, buf + src, n)\<close>, \<open>None\<close> when it would read or write outside the buffer\<close>

definition memmove :: "nat \<Rightarrow> nat \<Rightarrow> nat \<Rightarrow> uint8 list \<Rightarrow> uint8 list option" where
  "memmove dst src n buf =
     (if in_buffer src n buf \<and> in_buffer dst n buf
      then Some (store_bytes dst (take n (drop src buf)) buf)
      else None)"

text \<open>
  What \<open>ScanForChunkRemaining\<close> asserts of its call, and that the bytes it reads are in the buffer.
\<close>

definition ScanForChunkRemaining_dcheck :: "nat \<Rightarrow> uint8 list \<Rightarrow> nat \<Rightarrow> http_chunked_decoder \<Rightarrow> bool" where
  "ScanForChunkRemaining_dcheck p buf buf_len d \<longleftrightarrow> chunk_remaining d = 0 \<and> 0 < buf_len \<and> in_buffer p buf_len buf"

function filter_loop ::
    "http_chunked_decoder \<Rightarrow> uint8 list \<Rightarrow> nat \<Rightarrow> nat \<Rightarrow> nat \<Rightarrow>
     ((net_error + nat) \<times> http_chunked_decoder \<times> uint8 list) option" where
  "filter_loop d buf p buf_len result =
     (if buf_len = 0 then Some (Inr result, d, buf)
      else if chunk_remaining d \<noteq> 0
      then
        (let num = min (chunk_remaining d) buf_len;
             buf_len = buf_len - num;
             d = d\<lparr>chunk_remaining := chunk_remaining d - num\<rparr>;
             result = result + num;
             p = p + num;
             d = (if chunk_remaining d = 0 then d\<lparr>chunk_terminator_remaining := True\<rparr> else d)
         in filter_loop d buf p buf_len result)
      else if reached_eof d
      then Some (Inr result, d\<lparr>bytes_after_eof := bytes_after_eof d + buf_len\<rparr>, buf)
      else if \<not> ScanForChunkRemaining_dcheck p buf buf_len d then None
      else
        (case ScanForChunkRemaining (drop p buf) buf_len d of
           (Inl e, d) \<Rightarrow> Some (Inl e, d, buf)
         | (Inr bytes_consumed, d) \<Rightarrow>
             (let buf_len = buf_len - bytes_consumed
              in Option.bind (if buf_len \<noteq> 0 then memmove p (p + bytes_consumed) buf_len buf else Some buf)
                   (\<lambda>buf. filter_loop d buf p buf_len result))))"
  by pat_completeness auto
termination
  by (relation "measure (\<lambda>(d, buf, p, buf_len, result). buf_len)")
    (auto dest: ScanForChunkRemaining_progress [OF sym])

declare filter_loop.simps [simp del]

definition FilterBuf ::
    "http_chunked_decoder \<Rightarrow> uint8 list \<Rightarrow> ((net_error + nat) \<times> http_chunked_decoder \<times> uint8 list) option" where
  "FilterBuf d buf = filter_loop d buf 0 (length buf) 0"

section \<open>Decoding a stream\<close>

text \<open>The specification: the same steps on a list, without the buffer.\<close>

definition consume :: "nat \<Rightarrow> http_chunked_decoder \<Rightarrow> http_chunked_decoder" where
  "consume num d =
     (let d = d\<lparr>chunk_remaining := chunk_remaining d - num\<rparr>
      in if chunk_remaining d = 0 then d\<lparr>chunk_terminator_remaining := True\<rparr> else d)"

definition scan_bytes :: "uint8 list \<Rightarrow> http_chunked_decoder \<Rightarrow> (net_error + nat) \<times> http_chunked_decoder" where
  "scan_bytes s d = ScanForChunkRemaining s (length s) d"

definition prepend :: "'a list \<Rightarrow> ('e + 'a list) \<times> 's \<Rightarrow> ('e + 'a list) \<times> 's" where
  "prepend xs r = (map_sum id (append xs) (fst r), snd r)"

function decode_body ::
    "http_chunked_decoder \<Rightarrow> uint8 list \<Rightarrow> (net_error + uint8 list) \<times> http_chunked_decoder" where
  "decode_body d s =
     (if s = [] then (Inr [], d)
      else if chunk_remaining d \<noteq> 0
      then prepend (take (chunk_remaining d) s)
             (decode_body (consume (min (chunk_remaining d) (length s)) d) (drop (chunk_remaining d) s))
      else if reached_eof d
      then (Inr [], d\<lparr>bytes_after_eof := bytes_after_eof d + length s\<rparr>)
      else
        (case scan_bytes s d of
           (Inl e, d) \<Rightarrow> (Inl e, d)
         | (Inr n, d) \<Rightarrow> decode_body d (drop n s)))"
  by pat_completeness auto
termination
  by (relation "measure (\<lambda>(d, s). length s)")
    (auto simp: scan_bytes_def dest: ScanForChunkRemaining_progress [OF sym])

declare decode_body.simps [simp del]

lemma prepend_simps [simp]:
  "prepend xs (Inr ys, d) = (Inr (xs @ ys), d)"
  "prepend xs (Inl e, d) = (Inl e, d)"
  "prepend [] r = r"
  by (simp_all add: prepend_def) (cases "fst r"; cases r; simp)

lemma decode_body_Nil [simp]: "decode_body d [] = (Inr [], d)"
  by (simp add: decode_body.simps)

lemma decode_body_data:
  "s \<noteq> [] \<Longrightarrow> chunk_remaining d \<noteq> 0 \<Longrightarrow> decode_body d s =
    prepend (take (chunk_remaining d) s)
      (decode_body (consume (min (chunk_remaining d) (length s)) d) (drop (chunk_remaining d) s))"
  by (subst decode_body.simps) simp

lemma decode_body_eof:
  "s \<noteq> [] \<Longrightarrow> chunk_remaining d = 0 \<Longrightarrow> reached_eof d \<Longrightarrow>
    decode_body d s = (Inr [], d\<lparr>bytes_after_eof := bytes_after_eof d + length s\<rparr>)"
  by (subst decode_body.simps) simp

lemma decode_body_scan:
  "s \<noteq> [] \<Longrightarrow> chunk_remaining d = 0 \<Longrightarrow> \<not> reached_eof d \<Longrightarrow>
    decode_body d s =
      (case scan_bytes s d of (Inl e, d) \<Rightarrow> (Inl e, d) | (Inr n, d) \<Rightarrow> decode_body d (drop n s))"
  by (subst decode_body.simps) simp

lemma filter_loop_data:
  "len \<noteq> 0 \<Longrightarrow> chunk_remaining d \<noteq> 0 \<Longrightarrow> num = min (chunk_remaining d) len \<Longrightarrow>
    filter_loop d buf p len result = filter_loop (consume num d) buf (p + num) (len - num) (result + num)"
  by (subst filter_loop.simps) (simp add: consume_def Let_def)

lemma filter_loop_scan:
  "len \<noteq> 0 \<Longrightarrow> chunk_remaining d = 0 \<Longrightarrow> \<not> reached_eof d \<Longrightarrow> p + len \<le> length buf \<Longrightarrow>
    filter_loop d buf p len result =
      (case ScanForChunkRemaining (drop p buf) len d of
         (Inl e, d) \<Rightarrow> Some (Inl e, d, buf)
       | (Inr n, d) \<Rightarrow>
           Option.bind (if len - n \<noteq> 0 then memmove p (p + n) (len - n) buf else Some buf)
             (\<lambda>buf. filter_loop d buf p (len - n) result))"
  by (subst filter_loop.simps)
    (simp add: Let_def ScanForChunkRemaining_dcheck_def in_buffer_def split: prod.splits sum.splits)

lemma filter_loop_done:
  "filter_loop d buf p 0 result = Some (Inr result, d, buf)"
  "len \<noteq> 0 \<Longrightarrow> chunk_remaining d = 0 \<Longrightarrow> reached_eof d \<Longrightarrow>
    filter_loop d buf p len result = Some (Inr result, d\<lparr>bytes_after_eof := bytes_after_eof d + len\<rparr>, buf)"
  by (subst filter_loop.simps; simp)+

text \<open>The two cases of the scanner: the line ends in the buffer, or it goes on.\<close>

definition strip_cr :: "uint8 list \<Rightarrow> uint8 list" where
  "strip_cr s = (if s \<noteq> [] \<and> last s = CR then butlast s else s)"

definition end_line ::
    "uint8 list \<Rightarrow> http_chunked_decoder \<Rightarrow> net_error option \<times> http_chunked_decoder" where
  "end_line l d =
     scan_line (line_buf d @ strip_cr l)
       (if line_buf d \<noteq> [] then d\<lparr>line_buf := line_buf d @ strip_cr l\<rparr> else d)"

lemma takeWhile_notin: "c \<notin> set s \<Longrightarrow> takeWhile (\<lambda>x. x \<noteq> c) s = s"
  by (induction s) auto

lemma find_char_notin: "c \<notin> set s \<Longrightarrow> find_char c s = None"
  by (simp add: find_char_def takeWhile_notin)

lemma find_char_append: "c \<notin> set l \<Longrightarrow> find_char c (l @ c # r) = Some (length l)"
  by (simp add: find_char_def takeWhile_tail takeWhile_notin)

lemma take_strip_cr:
  "take (if length l \<noteq> 0 \<and> (l @ r) ! (length l - 1) = CR then length l - 1 else length l) (l @ r) = strip_cr l"
  by (cases l rule: rev_cases) (auto simp: strip_cr_def nth_append)

lemma scan_unfinished:
  assumes "LF \<notin> set s" and "s \<noteq> []"
  shows "ScanForChunkRemaining (s @ t) (length s) d =
    (if length (line_buf d) + length (strip_cr s) > kMaxLineBufLen
     then (Inl ERR_INVALID_CHUNKED_ENCODING, d)
     else (Inr (length s), d\<lparr>line_buf := line_buf d @ strip_cr s\<rparr>))"
proof -
  have f: "find_char LF (take (length s) (s @ t)) = None" using assms by (simp add: find_char_notin)
  have n: "(if (s @ t) ! (length s - 1) = CR then length s - 1 else length s) = length (strip_cr s)"
    using assms(2) by (cases s rule: rev_cases) (auto simp: strip_cr_def nth_append)
  have t: "take (length (strip_cr s)) (s @ t) = strip_cr s"
    using take_strip_cr [of s t] assms(2) n by (simp del: take_append)
  show ?thesis
    by (simp only: ScanForChunkRemaining_def f option.case Let_def n t)
qed

lemma scan_finished:
  assumes "LF \<notin> set l"
  shows "ScanForChunkRemaining (l @ LF # r @ t) (Suc (length l + length r)) d =
    (case end_line l d of (Some e, d) \<Rightarrow> (Inl e, d) | (None, d) \<Rightarrow> (Inr (Suc (length l)), d))"
proof -
  have f: "find_char LF (take (Suc (length l + length r)) (l @ LF # r @ t)) = Some (length l)"
    using find_char_append [OF assms, of r] by simp
  show ?thesis
    unfolding ScanForChunkRemaining_def f using take_strip_cr [of l "LF # r @ t"]
    by (simp add: Let_def end_line_def del: take_append)
qed

text \<open>The scanner reads only the bytes it is given.\<close>

lemma ScanForChunkRemaining_take:
  assumes "len \<le> length s" and "0 < len"
  shows "ScanForChunkRemaining s len d = scan_bytes (take len s) d"
proof -
  define u t where "u = take len s" and "t = drop len s"
  then have s: "s = u @ t" and len: "length u = len" using assms by simp_all
  have "ScanForChunkRemaining (u @ t) len d = scan_bytes u d"
  proof (cases "LF \<in> set u")
    case True
    then obtain l r where u: "u = l @ LF # r" and "LF \<notin> set l" by (meson split_list_first)
    then show ?thesis
      using scan_finished [of l r t d] scan_finished [of l r "[]" d] len
      by (simp add: scan_bytes_def)
  next
    case False
    then show ?thesis
      using scan_unfinished [of u t d] scan_unfinished [of u "[]" d] len assms(2)
      by (force simp: scan_bytes_def)
  qed
  then show ?thesis by (simp only: u_def t_def append_take_drop_id)
qed

lemma scan_bytes_progress: "scan_bytes s d = (Inr n, d') \<Longrightarrow> s \<noteq> [] \<Longrightarrow> 0 < n \<and> n \<le> length s"
  by (auto simp: scan_bytes_def dest: ScanForChunkRemaining_progress)

lemma take_store_bytes:
  assumes "p + length bs \<le> length buf"
  shows "take p (store_bytes p bs buf) = take p buf"
    "take (length bs) (drop p (store_bytes p bs buf)) = bs"
    "length (store_bytes p bs buf) = length buf"
  using assms by (simp_all add: store_bytes_def)

definition agrees ::
    "uint8 list \<Rightarrow> nat \<Rightarrow> (net_error + uint8 list) \<times> http_chunked_decoder \<Rightarrow>
     ((net_error + nat) \<times> http_chunked_decoder \<times> uint8 list) option \<Rightarrow> bool" where
  "agrees buf p spec r \<longleftrightarrow>
     (case (spec, r) of
        ((Inl e, d), Some (Inl e', d', buf')) \<Rightarrow> e' = e \<and> d' = d \<and> length buf' = length buf
      | ((Inr out, d), Some (Inr n, d', buf')) \<Rightarrow>
          n = p + length out \<and> d' = d \<and> length buf' = length buf \<and> take n buf' = take p buf @ out
      | _ \<Rightarrow> False)"

lemma agreesE:
  assumes "agrees buf p spec r"
  obtains e d' buf' where "r = Some (Inl e, d', buf')" and "spec = (Inl e, d')" and "length buf' = length buf"
  | n d' buf' out where "r = Some (Inr n, d', buf')" and "spec = (Inr out, d')" and "length buf' = length buf"
      and "n = p + length out" and "take n buf' = take p buf @ out"
proof -
  obtain x d where spec: "spec = (x, d)" by (cases spec)
  show thesis
  proof (cases r)
    case None
    then show thesis using assms spec by (simp add: agrees_def split: sum.splits)
  next
    case (Some y)
    then obtain z d' buf' where r: "r = Some (z, d', buf')" by (metis prod_cases3)
    then show thesis
      using assms spec by (cases z; cases x) (auto simp: agrees_def intro: that)
  qed
qed

lemma agrees_prepend:
  assumes "agrees buf (p + n) spec r" and "p + n \<le> length buf"
  shows "agrees buf p (prepend (take n (drop p buf)) spec) r"
proof -
  have "take (p + n) buf = take p buf @ take n (drop p buf)" by (simp add: take_add)
  then show ?thesis
    using assms(2) by (rule_tac agreesE [OF assms(1)]) (simp_all add: agrees_def)
qed

lemma filter_loop_decode:
  assumes "p + len \<le> length buf"
  shows "agrees buf p (decode_body d (take len (drop p buf))) (filter_loop d buf p len p)"
  using assms
proof (induction len arbitrary: d buf p rule: less_induct)
  case (less len)
  define s where "s = take len (drop p buf)"
  have len: "length s = len" using less.prems by (simp add: s_def)
  show ?case
  proof (cases "len = 0 \<or> (chunk_remaining d = 0 \<and> reached_eof d)")
    case True
    then show ?thesis using less.prems
      by (cases "len = 0") (simp_all add: agrees_def decode_body_eof filter_loop_done)
  next
    case False
    then have pos: "0 < len" "s \<noteq> []" using len by auto
    show ?thesis
    proof (cases "chunk_remaining d = 0")
      case False
      define num where "num = min (chunk_remaining d) len"
      have num: "0 < num" "num \<le> len" using False pos by (simp_all add: num_def)
      have "filter_loop d buf p len p = filter_loop (consume num d) buf (p + num) (len - num) (p + num)"
        using False pos num_def by (intro filter_loop_data) auto
      moreover have "decode_body d s =
          prepend (take num (drop p buf)) (decode_body (consume num d) (take (len - num) (drop (p + num) buf)))"
        using decode_body_data [OF pos(2) False] len
        by (cases "chunk_remaining d \<le> len") (simp_all add: num_def s_def drop_take ac_simps)
      moreover have "agrees buf (p + num) (decode_body (consume num d) (take (len - num) (drop (p + num) buf)))
          (filter_loop (consume num d) buf (p + num) (len - num) (p + num))"
        using num less.prems by (intro less.IH) auto
      ultimately show ?thesis
        using num less.prems by (simp add: s_def agrees_prepend)
    next
      case True
      then have live: "\<not> reached_eof d" using False by simp
      have scan: "ScanForChunkRemaining (drop p buf) len d = scan_bytes s d"
        unfolding s_def using less.prems pos by (intro ScanForChunkRemaining_take) simp_all
      show ?thesis
      proof (cases "scan_bytes s d")
        case (Pair r d')
        show ?thesis
        proof (cases r)
          case (Inl e)
          then show ?thesis using pos True live Pair scan less.prems
            by (simp add: agrees_def decode_body_scan filter_loop_scan flip: s_def)
        next
          case (Inr n)
          have n: "0 < n" "n \<le> len" using scan_bytes_progress [of s d n d'] Pair Inr pos len by auto
          define buf' where "buf' = (if len - n \<noteq> 0 then store_bytes p (take (len - n) (drop (p + n) buf)) buf else buf)"
          have "in_buffer (p + n) (len - n) buf" "in_buffer p (len - n) buf"
            using less.prems n by (simp_all add: in_buffer_def)
          then have moved: "(if len - n \<noteq> 0 then memmove p (p + n) (len - n) buf else Some buf) = Some buf'"
            by (simp add: memmove_def buf'_def)
          have b: "length buf' = length buf" "take p buf' = take p buf"
            "take (len - n) (drop p buf') = drop n s"
            using less.prems n take_store_bytes [of p "take (len - n) (drop (p + n) buf)" buf]
            by (auto simp: buf'_def s_def drop_take ac_simps)
          have "agrees buf' p (decode_body d' (take (len - n) (drop p buf')))
              (filter_loop d' buf' p (len - n) p)"
            using n less.prems b by (intro less.IH) auto
          moreover have "decode_body d s = decode_body d' (drop n s)"
            using decode_body_scan [OF pos(2) True live] Pair Inr by simp
          moreover have "filter_loop d buf p len p = filter_loop d' buf' p (len - n) p"
            using filter_loop_scan [OF _ True live less.prems] pos Pair Inr scan moved by simp
          moreover have "agrees buf' p x y = agrees buf p x y" for x y
            by (simp only: agrees_def b(1,2))
          ultimately show ?thesis using b(3) by (simp flip: s_def)
        qed
      qed
    qed
  qed
qed

section \<open>Pieces\<close>

text \<open>
  What a caller sees of a run: an error, or the data and the decoder. The state after an error is
  left out: the decoder is not used again, and its line buffer holds what was read of the bad line.
\<close>

fun outcome :: "('e + 'a) \<times> 's \<Rightarrow> 'e + 'a \<times> 's" where
  "outcome (Inl e, d) = Inl e"
| "outcome (Inr x, d) = Inr (x, d)"

text \<open>
  A stream is plain for the decoder when, in the lines it parses, a carriage return is always
  followed by the line feed, and no line is longer than the line buffer.
\<close>

definition plain_line :: "http_chunked_decoder \<Rightarrow> uint8 list \<Rightarrow> bool" where
  "plain_line d l \<longleftrightarrow> CR \<notin> set (butlast l) \<and> length (line_buf d) + length l \<le> kMaxLineBufLen"

function plain :: "http_chunked_decoder \<Rightarrow> uint8 list \<Rightarrow> bool" where
  "plain d s \<longleftrightarrow>
     (if s = [] then True
      else if chunk_remaining d \<noteq> 0
      then plain (consume (min (chunk_remaining d) (length s)) d) (drop (chunk_remaining d) s)
      else if reached_eof d then True
      else
        plain_line d (takeWhile (\<lambda>c. c \<noteq> LF) s) \<and>
        (case scan_bytes s d of (Inl e, d) \<Rightarrow> True | (Inr n, d) \<Rightarrow> plain d (drop n s)))"
  by pat_completeness auto
termination
  by (relation "measure (\<lambda>(d, s). length s)")
    (auto simp: scan_bytes_def dest: ScanForChunkRemaining_progress [OF sym])

declare plain.simps [simp del]

lemma plain_Nil [simp]: "plain d []"
  by (simp add: plain.simps)

lemma plain_data:
  "s \<noteq> [] \<Longrightarrow> chunk_remaining d \<noteq> 0 \<Longrightarrow> plain d s \<longleftrightarrow>
    plain (consume (min (chunk_remaining d) (length s)) d) (drop (chunk_remaining d) s)"
  by (subst plain.simps) simp

lemma plain_eof: "s \<noteq> [] \<Longrightarrow> chunk_remaining d = 0 \<Longrightarrow> reached_eof d \<Longrightarrow> plain d s"
  by (subst plain.simps) simp

lemma plain_scan:
  "s \<noteq> [] \<Longrightarrow> chunk_remaining d = 0 \<Longrightarrow> \<not> reached_eof d \<Longrightarrow> plain d s \<longleftrightarrow>
     plain_line d (takeWhile (\<lambda>c. c \<noteq> LF) s) \<and>
     (case scan_bytes s d of (Inl e, d) \<Rightarrow> True | (Inr n, d) \<Rightarrow> plain d (drop n s))"
  by (subst plain.simps) simp

lemma consume_consume:
  "b < chunk_remaining d \<Longrightarrow> consume a (consume b d) = consume (a + b) d"
  by (simp add: consume_def Let_def add.commute)

lemma consume_0: "0 < chunk_remaining d \<Longrightarrow> consume 0 d = d"
  by (simp add: consume_def)

lemma chunk_remaining_consume [simp]: "chunk_remaining (consume n d) = chunk_remaining d - n"
  by (simp add: consume_def Let_def)

text \<open>The four ways the decoder goes on after the first bytes, in one form.\<close>

lemma scan_bytes_finished:
  assumes "LF \<notin> set l"
  shows "scan_bytes (l @ LF # r) d =
    (case end_line l d of (Some e, d) \<Rightarrow> (Inl e, d) | (None, d) \<Rightarrow> (Inr (Suc (length l)), d))"
  using scan_finished [OF assms, of r "[]" d] by (simp add: scan_bytes_def)

lemma scan_bytes_unfinished:
  assumes "LF \<notin> set s" and "s \<noteq> []" and "length (line_buf d) + length s \<le> kMaxLineBufLen"
  shows "scan_bytes s d = (Inr (length s), d\<lparr>line_buf := line_buf d @ strip_cr s\<rparr>)"
  using scan_unfinished [OF assms(1,2), of "[]" d] assms(3)
  by (auto simp: scan_bytes_def strip_cr_def)

lemma scan_line_line_buf:
  "scan_line l (d\<lparr>line_buf := b\<rparr>) =
     (case scan_line l d of (None, d') \<Rightarrow> (None, d') | (Some e, d') \<Rightarrow> (Some e, d\<lparr>line_buf := b\<rparr>))"
  unfolding scan_line_def Let_def
  by (cases "ParseChunkSize (case find_char (chr CHR '';'') l of Some i \<Rightarrow> take i l | None \<Rightarrow> l)") simp_all

text \<open>A line may be cut anywhere.\<close>

lemma strip_cr_append:
  assumes "CR \<notin> set (butlast (x @ l))"
  shows "strip_cr (x @ l) = strip_cr x @ strip_cr l"
proof (cases "l = []")
  case True
  then show ?thesis by (simp add: strip_cr_def)
next
  case False
  then have "CR \<notin> set x" using assms by (auto simp: butlast_append)
  then have "strip_cr x = x" by (metis last_in_set strip_cr_def)
  then show ?thesis using False by (simp add: strip_cr_def butlast_append)
qed

lemma end_line_cut:
  assumes "CR \<notin> set (butlast (x @ l))"
  shows "(case end_line l (d\<lparr>line_buf := line_buf d @ strip_cr x\<rparr>) of
           (None, d') \<Rightarrow> Inr d' | (Some e, d') \<Rightarrow> Inl e) =
    (case end_line (x @ l) d of (None, d') \<Rightarrow> Inr d' | (Some e, d') \<Rightarrow> Inl e)"
proof -
  have *: "(case scan_line l (d\<lparr>line_buf := b\<rparr>) of (None, d') \<Rightarrow> Inr d' | (Some e, d') \<Rightarrow> Inl e) =
      (case scan_line l d of (None, d') \<Rightarrow> Inr d' | (Some e, d') \<Rightarrow> Inl e)" for l b
    by (simp add: scan_line_line_buf split: prod.splits option.splits)
  show ?thesis
    using strip_cr_append [OF assms] by (simp add: end_line_def *)
qed


lemma prepend_prepend [simp]: "prepend xs (prepend ys r) = prepend (xs @ ys) r"
  by (cases "fst r"; cases r) simp_all

lemma decode_body_inside_chunk:
  assumes "length x < chunk_remaining d" and "x \<noteq> []" and "y \<noteq> []"
  shows "decode_body d x = (Inr x, consume (length x) d)"
    "decode_body d (x @ y) = prepend x (decode_body (consume (length x) d) y)"
    "plain d (x @ y) \<longleftrightarrow> plain (consume (length x) d) y"
proof -
  have rem: "chunk_remaining d \<noteq> 0" "chunk_remaining (consume (length x) d) \<noteq> 0" using assms by auto
  show "decode_body d x = (Inr x, consume (length x) d)"
    using assms rem by (simp add: decode_body_data)
  have c: "consume (min (chunk_remaining d - length x) (length y)) (consume (length x) d) =
      consume (min (chunk_remaining d) (length (x @ y))) d"
    using assms(1) by (simp add: consume_consume min_def add.commute)
  show "decode_body d (x @ y) = prepend x (decode_body (consume (length x) d) y)"
    using assms rem c decode_body_data [of y "consume (length x) d"] decode_body_data [of "x @ y" d]
    by simp
  show "plain d (x @ y) \<longleftrightarrow> plain (consume (length x) d) y"
    using assms rem c plain_data [of y "consume (length x) d"] plain_data [of "x @ y" d] by simp
qed

lemma decode_body_scan_error:
  "s \<noteq> [] \<Longrightarrow> chunk_remaining d = 0 \<Longrightarrow> \<not> reached_eof d \<Longrightarrow> scan_bytes s d = (Inl e, d') \<Longrightarrow>
    decode_body d s = (Inl e, d')"
  by (simp add: decode_body_scan)

lemma decode_body_scan_next:
  assumes "s \<noteq> []" "chunk_remaining d = 0" "\<not> reached_eof d" "scan_bytes s d = (Inr n, d')"
  shows "decode_body d s = decode_body d' (drop n s)"
    and "plain d s \<longleftrightarrow> plain_line d (takeWhile (\<lambda>c. c \<noteq> LF) s) \<and> plain d' (drop n s)"
  using assms by (simp_all add: decode_body_scan plain_scan)

text \<open>The line ends in the second piece.\<close>

lemma decode_line_cut:
  assumes d: "chunk_remaining d = 0" "\<not> reached_eof d" and x: "x \<noteq> []" "LF \<notin> set x" and l: "LF \<notin> set l"
    and line: "plain_line d (x @ l)" and pl: "plain d (x @ l @ LF # r)"
  defines "d1 \<equiv> d\<lparr>line_buf := line_buf d @ strip_cr x\<rparr>"
  assumes l1: "plain_line d1 l"
  shows "outcome (decode_body d (x @ l @ LF # r)) = outcome (decode_body d1 (l @ LF # r)) \<and>
    plain d1 (l @ LF # r)"
proof -
  have d1: "chunk_remaining d1 = 0" "\<not> reached_eof d1" using d by (simp_all add: d1_def)
  have xl: "LF \<notin> set (x @ l)" using x l by simp
  have cut: "(case end_line l d1 of (None, d') \<Rightarrow> Inr d' | (Some e, d') \<Rightarrow> Inl e) =
      (case end_line (x @ l) d of (None, d') \<Rightarrow> Inr d' | (Some e, d') \<Rightarrow> Inl e)"
    unfolding d1_def using line by (intro end_line_cut) (simp add: plain_line_def)
  have tw: "takeWhile (\<lambda>c. c \<noteq> LF) (l @ LF # r) = l"
    using l by (simp add: takeWhile_tail takeWhile_notin)
  note s = scan_bytes_finished [OF l, of r d1] scan_bytes_finished [OF xl, of r d]
  show ?thesis
  proof (cases "end_line (x @ l) d")
    case (Pair o2 d2)
    obtain o3 d3 where e: "end_line l d1 = (o3, d3)" by fastforce
    show ?thesis
    proof (cases o2)
      case None
      then have "o3 = None" "d3 = d2" using cut Pair e by (auto split: option.splits)
      then show ?thesis
        using s Pair e None pl tw l1
          decode_body_scan_next [of "(x @ l) @ LF # r" d "Suc (length (x @ l))" d2]
          decode_body_scan_next [of "l @ LF # r" d1 "Suc (length l)" d2] d d1
        by simp
    next
      case (Some err)
      then have "o3 = Some err" using cut Pair e by (auto split: option.splits)
      then show ?thesis
        using s Pair e Some tw l1 d d1 decode_body_scan_error [of "(x @ l) @ LF # r" d err d2]
          decode_body_scan_error [of "l @ LF # r" d1 err d3] plain_scan [of "l @ LF # r" d1]
        by simp
    qed
  qed
qed

text \<open>It does not end there either.\<close>

lemma decode_line_goes_on:
  assumes d: "chunk_remaining d = 0" "\<not> reached_eof d" and x: "x \<noteq> []" "LF \<notin> set x" and y: "y \<noteq> []" "LF \<notin> set y"
    and line: "plain_line d (x @ y)"
  defines "d1 \<equiv> d\<lparr>line_buf := line_buf d @ strip_cr x\<rparr>"
  assumes l1: "plain_line d1 y"
  shows "decode_body d (x @ y) = decode_body d1 y \<and> plain d1 y"
proof -
  have "strip_cr (x @ y) = strip_cr x @ strip_cr y"
    using line by (intro strip_cr_append) (simp add: plain_line_def)
  then show ?thesis
    using d x y line l1 scan_bytes_unfinished [of "x @ y" d] scan_bytes_unfinished [of y d1]
      decode_body_scan_next [of "x @ y" d] decode_body_scan_next [of y d1]
    by (simp add: plain_line_def d1_def takeWhile_notin)
qed


lemma decode_body_inside_line:
  assumes d: "chunk_remaining d = 0" "\<not> reached_eof d" and x: "x \<noteq> []" "LF \<notin> set x" and y: "y \<noteq> []"
    and pl: "plain d (x @ y)"
  defines "d1 \<equiv> d\<lparr>line_buf := line_buf d @ strip_cr x\<rparr>"
  shows "decode_body d x = (Inr [], d1)"
    "outcome (decode_body d (x @ y)) = outcome (decode_body d1 y) \<and> plain d1 y"
proof -
  define l where "l = takeWhile (\<lambda>c. c \<noteq> LF) y"
  have "takeWhile (\<lambda>c. c \<noteq> LF) (x @ y) = x @ l"
    using x(2) unfolding l_def by (subst takeWhile_append2) auto
  then have line: "plain_line d (x @ l)"
    using plain_scan [of "x @ y" d] x(1) d pl by simp
  have "length (strip_cr x) \<le> length x" by (simp add: strip_cr_def)
  then have l1: "plain_line d1 l"
    using line by (cases "l = []") (auto simp: plain_line_def d1_def butlast_append)
  show "decode_body d x = (Inr [], d1)"
    using d x line scan_bytes_unfinished [of x d] decode_body_scan_next(1) [of x d]
    by (simp add: plain_line_def d1_def)
  show "outcome (decode_body d (x @ y)) = outcome (decode_body d1 y) \<and> plain d1 y"
  proof (cases "LF \<in> set y")
    case True
    then obtain a r where a: "y = a @ LF # r" "LF \<notin> set a" by (meson split_list_first)
    then have r: "y = l @ LF # r" and nl: "LF \<notin> set l"
      by (simp_all add: l_def takeWhile_tail takeWhile_notin)
    show ?thesis
      using decode_line_cut [OF d x nl line pl [unfolded r]] l1 by (simp add: d1_def r)
  next
    case False
    then have "l = y" by (simp add: l_def takeWhile_notin)
    then show ?thesis
      using decode_line_goes_on [OF d x y False] line l1 by (simp add: d1_def)
  qed
qed

text \<open>A plain stream may be cut anywhere.\<close>

lemma outcome_prepend:
  "outcome (prepend xs r) = (case outcome r of Inl e \<Rightarrow> Inl e | Inr (ys, d) \<Rightarrow> Inr (xs @ ys, d))"
  by (cases r rule: outcome.cases) simp_all

definition cuts :: "http_chunked_decoder \<Rightarrow> uint8 list \<Rightarrow> uint8 list \<Rightarrow> bool" where
  "cuts d x y \<longleftrightarrow>
     (case outcome (decode_body d x) of
        Inl e \<Rightarrow> outcome (decode_body d (x @ y)) = Inl e
      | Inr (out, d') \<Rightarrow>
          plain d' y \<and> outcome (decode_body d (x @ y)) = outcome (prepend out (decode_body d' y)))"

lemma cuts_step:
  assumes "decode_body d (x @ y) = prepend out (decode_body d' (x' @ y))"
    and "decode_body d x = prepend out (decode_body d' x')" and "cuts d' x' y"
  shows "cuts d x y"
  using assms by (auto simp: cuts_def outcome_prepend split: sum.splits)

lemma cuts_line:
  assumes d: "chunk_remaining d = 0" "\<not> reached_eof d" and x: "x = l @ LF # r" "LF \<notin> set l"
    and pl: "plain d (x @ y)" and IH: "\<And>d'. plain d' (r @ y) \<Longrightarrow> cuts d' r y"
  shows "cuts d x y"
proof (cases "end_line l d")
  case (Pair opt d')
  note sc = scan_bytes_finished [OF x(2), of r d] scan_bytes_finished [OF x(2), of "r @ y" d]
  show ?thesis
  proof (cases opt)
    case None
    then have n: "scan_bytes x d = (Inr (Suc (length l)), d')"
      "scan_bytes (x @ y) d = (Inr (Suc (length l)), d')" using sc Pair x by simp_all
    note nx = decode_body_scan_next [OF _ d n(1)] decode_body_scan_next [OF _ d n(2)]
    have "cuts d' r y" using pl nx x by (intro IH) simp
    then show ?thesis using nx x by (intro cuts_step [of d x y "[]" d' r]) simp_all
  next
    case (Some e)
    then show ?thesis
      using sc Pair x d decode_body_scan_error [of x d e d'] decode_body_scan_error [of "x @ y" d e d']
      by (simp add: cuts_def)
  qed
qed

lemma plain_cuts: "plain d (x @ y) \<Longrightarrow> cuts d x y"
proof (induction "length x" arbitrary: d x rule: less_induct)
  case less
  consider "x = []" | "x \<noteq> []" "y = []" | "x \<noteq> []" "y \<noteq> []" by blast
  then show ?case
  proof cases
    case 1
    then show ?thesis using less.prems by (simp add: cuts_def)
  next
    case 2
    then show ?thesis by (cases "decode_body d x" rule: outcome.cases) (simp_all add: cuts_def)
  next
    case 3
    consider "length x < chunk_remaining d"
      | "chunk_remaining d \<noteq> 0" "chunk_remaining d \<le> length x"
      | "chunk_remaining d = 0" "reached_eof d"
      | "chunk_remaining d = 0" "\<not> reached_eof d" "LF \<notin> set x"
      | "chunk_remaining d = 0" "\<not> reached_eof d" "LF \<in> set x" by linarith
    then show ?thesis
    proof cases
      case a: 1
      show ?thesis using decode_body_inside_chunk [OF a 3] less.prems by (simp add: cuts_def)
    next
      case b: 2
      let ?d = "consume (chunk_remaining d) d" and ?x = "drop (chunk_remaining d) x"
      have "cuts ?d ?x y"
        using less.prems plain_data [of "x @ y" d] 3 b by (intro less.hyps) (simp_all add: min_absorb1)
      then show ?thesis
        using 3 b decode_body_data [of "x @ y" d] decode_body_data [of x d]
        by (intro cuts_step [of d x y "take (chunk_remaining d) x" ?d ?x]) (simp_all add: min_absorb1)
    next
      case c: 3
      then show ?thesis using 3 by (simp add: cuts_def decode_body_eof plain_eof)
    next
      case e: 4
      show ?thesis
        using decode_body_inside_line [OF e(1,2) 3(1) e(3) 3(2) less.prems] by (simp add: cuts_def)
    next
      case f: 5
      then obtain l r where x: "x = l @ LF # r" "LF \<notin> set l" by (meson split_list_first)
      have "cuts d' r y" if "plain d' (r @ y)" for d'
        using that x by (intro less.hyps) simp_all
      then show ?thesis by (rule cuts_line [OF f(1,2) x less.prems])
    qed
  qed
qed


section \<open>Feeding the decoder\<close>

text \<open>
  What the caller does: every buffer that arrives is filtered, and the decoded bytes are the
  first ones of the filtered buffer. It stops at an error.
\<close>

fun filter_pieces ::
    "http_chunked_decoder \<Rightarrow> uint8 list list \<Rightarrow> (net_error + uint8 list \<times> http_chunked_decoder) option" where
  "filter_pieces d [] = Some (Inr ([], d))"
| "filter_pieces d (buf # bufs) =
     Option.bind (FilterBuf d buf) (\<lambda>(r, d, buf).
       case r of
         Inl e \<Rightarrow> Some (Inl e)
       | Inr result \<Rightarrow>
           map_option (map_sum id (\<lambda>(out, d). (take result buf @ out, d))) (filter_pieces d bufs))"

lemma FilterBuf_agrees: "agrees buf 0 (decode_body d buf) (FilterBuf d buf)"
  using filter_loop_decode [of 0 "length buf" buf d] by (simp add: FilterBuf_def)

text \<open>The same with the decoder on lists; the filter never leaves its buffer, so the two agree.\<close>

fun decode_pieces ::
    "http_chunked_decoder \<Rightarrow> uint8 list list \<Rightarrow> net_error + uint8 list \<times> http_chunked_decoder" where
  "decode_pieces d [] = Inr ([], d)"
| "decode_pieces d (s # ss) =
     (case outcome (decode_body d s) of
        Inl e \<Rightarrow> Inl e
      | Inr (out, d') \<Rightarrow>
          (case decode_pieces d' ss of Inl e \<Rightarrow> Inl e | Inr (out', d'') \<Rightarrow> Inr (out @ out', d'')))"

lemma filter_pieces_decode: "filter_pieces d ss = Some (decode_pieces d ss)"
proof (induction ss arbitrary: d)
  case (Cons s ss)
  show ?case
    by (rule agreesE [OF FilterBuf_agrees [of s d]]) (simp_all add: Cons.IH split: sum.split)
qed simp

lemma decode_pieces_plain:
  "plain d (concat ss) \<Longrightarrow> decode_pieces d ss = outcome (decode_body d (concat ss))"
proof (induction ss arbitrary: d)
  case (Cons s ss)
  then have "cuts d s (concat ss)" by (simp add: plain_cuts)
  then show ?case
    using Cons.IH
    by (cases "decode_body d s" rule: outcome.cases)
      (simp_all add: cuts_def outcome_prepend)
qed simp

end
