(* ===== verification/Http_Chunked_Coding.thy ===== *)
theory Http_Chunked_Coding
  imports Http_Chunked_Decoder
begin

text \<open>
  \<open>HttpStreamParser::EncodeChunk\<close> of \<open>net/http/http_stream_parser.cc\<close> and the theorems on the chunked
  coding: encoding and decoding are inverse in any segmentation, the in-place decoder refines the
  one on lists, its invariant, and the streams on which cutting matters.
\<close>

section \<open>The encoder\<close>

definition kChunkHeaderFooterSize :: nat where "kChunkHeaderFooterSize = 12"

text \<open>\<open>snprintf\<close> with \<open>%X\<close>: the digits of an unsigned 32-bit number, cut off to leave room for the NUL.\<close>

fun hex_digits :: "nat \<Rightarrow> uint8 list" where
  "hex_digits n = (if n < 16 then [kHexChars ! n] else hex_digits (n div 16) @ [kHexChars ! (n mod 16)])"

declare hex_digits.simps [simp del]

definition chunk_size_header :: "nat \<Rightarrow> uint8 list" where
  "chunk_size_header n = hex_digits (unat (word_of_nat n :: uint32)) @ [CR, LF]"

definition EncodeChunk :: "uint8 list \<Rightarrow> uint8 list \<Rightarrow> (net_error + nat) \<times> uint8 list" where
  "EncodeChunk payload output =
     (let output_size = length output
      in if output_size < length payload + kChunkHeaderFooterSize
         then (Inl ERR_INVALID_ARGUMENT, output)
         else
           (let text = chunk_size_header (length payload);
                output = store_bytes 0 (take (output_size - 1) text @ [0]) output;
                cursor = length text;
                (output, cursor) =
                  (if length payload > 0
                   then (store_bytes cursor payload output, cursor + length payload)
                   else (output, cursor));
                output = store_bytes cursor [CR, LF] output;
                cursor = cursor + 2
            in (Inr cursor, output)))"

section \<open>What it writes\<close>

definition chunk :: "uint8 list \<Rightarrow> uint8 list" where
  "chunk payload = hex_digits (length payload) @ CR # LF # payload @ [CR, LF]"

lemma length_hex_digits:
  assumes "n < 16 ^ k" and "0 < k"
  shows "length (hex_digits n) \<le> k"
  using assms
proof (induction k arbitrary: n)
  case (Suc k)
  show ?case
  proof (cases "n < 16")
    case False
    then have "n div 16 < 16 ^ k" and "0 < k"
      using Suc.prems by (auto simp: less_mult_imp_div_less mult.commute intro: Nat.gr0I)
    then show ?thesis using Suc.IH [of "n div 16"] False by (subst hex_digits.simps) simp
  qed (simp add: hex_digits.simps)
qed simp

lemma length_hex_digits_8: "n < 2 ^ 32 \<Longrightarrow> length (hex_digits n) \<le> 8"
  by (rule length_hex_digits) simp_all

lemma store_bytes_append: "store_bytes (length a) bs (a @ b) = a @ bs @ drop (length bs) b"
  by (simp add: store_bytes_def)

lemma store_bytes_append3:
  "store_bytes (length a + length b) bs (a @ b @ c) = a @ b @ bs @ drop (length bs) c"
  using store_bytes_append [of "a @ b" bs c] by simp

lemma EncodeChunk_writes:
  assumes "length payload + kChunkHeaderFooterSize \<le> length output" and "length payload < 2 ^ 32"
  shows "\<exists>output'. EncodeChunk payload output = (Inr (length (chunk payload)), output') \<and>
    take (length (chunk payload)) output' = chunk payload \<and> length output' = length output"
proof -
  define h where "h = hex_digits (length payload) @ [CR, LF]"
  have h: "chunk_size_header (length payload) = h"
    using assms(2) by (simp add: chunk_size_header_def h_def unsigned_of_nat take_bit_nat_eq_self)
  have len: "length h \<le> 10" using length_hex_digits_8 [OF assms(2)] by (simp add: h_def)
  have fits: "take (length output - 1) h = h" using assms(1) len by (simp add: kChunkHeaderFooterSize_def)
  define rest where "rest = drop (length h) (store_bytes 0 (h @ [0]) output)"
  have o1: "store_bytes 0 (h @ [0]) output = h @ rest" by (simp add: store_bytes_def rest_def)
  have rest: "length rest = length output - length h"
    using assms(1) len by (simp add: rest_def store_bytes_def kChunkHeaderFooterSize_def)
  have o2: "(if length payload > 0 then (store_bytes (length h) payload (h @ rest), length h + length payload)
      else (h @ rest, length h)) = (h @ payload @ drop (length payload) rest, length h + length payload)"
    by (simp add: store_bytes_append)
  have e: "EncodeChunk payload output =
      (Inr (length h + length payload + 2), h @ payload @ [CR, LF] @ drop 2 (drop (length payload) rest))"
    unfolding EncodeChunk_def Let_def h fits o1 o2 using assms(1) by (simp add: store_bytes_append3)
  have c: "chunk payload = h @ payload @ [CR, LF]" by (simp add: chunk_def h_def)
  show ?thesis
    using assms(1) len rest unfolding e c by (simp add: kChunkHeaderFooterSize_def)
qed

section \<open>The size line\<close>

lemma kHexChars_facts:
  assumes "c \<in> set kHexChars"
  shows "c \<noteq> CR" "c \<noteq> LF" "c \<noteq> chr CHR '' ''" "c \<noteq> chr CHR '';''" "c \<noteq> chr CHR ''x''" "c \<noteq> chr CHR ''X''"
    "c \<noteq> chr CHR ''-''" "c \<noteq> chr CHR ''+''" "c \<in> set (bytes_of ''0123456789abcdefABCDEF'')"
  using assms by (auto simp: kHexChars_def bytes_of_def chr_def CR_def LF_def)

lemma set_hex_digits: "set (hex_digits n) \<subseteq> set kHexChars"
proof (induction n rule: hex_digits.induct)
  case (1 n)
  have "length kHexChars = 16" by (simp add: kHexChars_def bytes_of_def)
  then show ?case using 1 by (subst hex_digits.simps) (auto intro!: nth_mem)
qed

lemma hex_digits_not_Nil [simp]: "hex_digits n \<noteq> []"
  by (simp add: hex_digits.simps)

lemma digits_hex_digits:
  "\<exists>ds. digits_of 16 (hex_digits n) = Some ds \<and> numeral_value 16 0 ds = int n"
proof (induction n rule: hex_digits.induct)
  case (1 n)
  have c: "digits_of 16 [kHexChars ! (n mod 16)] = Some [int (n mod 16)]"
    using hex_char [of "n mod 16"] by simp
  show ?case
  proof (cases "n < 16")
    case True
    then show ?thesis using c by (simp add: hex_digits.simps)
  next
    case False
    then obtain ds where ds: "digits_of 16 (hex_digits (n div 16)) = Some ds"
      and v: "numeral_value 16 0 ds = int (n div 16)"
      using 1 by auto
    show ?thesis
      using False digits_of_append [OF ds c] v by (simp add: hex_digits.simps [of n]) presburger
  qed
qed

lemma ParseChunkSize_hex_digits:
  assumes "n < 2 ^ 31"
  shows "ParseChunkSize (hex_digits n) = Some n"
proof -
  define s where "s = hex_digits n"
  have mem: "c \<in> set s \<Longrightarrow> c \<in> set kHexChars" for c using set_hex_digits [of n] by (auto simp: s_def)
  have ne: "s \<noteq> []" by (simp add: s_def)
  obtain ds where ds: "digits_of 16 s = Some ds" "numeral_value 16 0 ds = int n"
    using digits_hex_digits [of n] by (auto simp: s_def)
  have strip: "strip_trailing_spaces s = s"
    using ne kHexChars_facts(3) [OF mem [of "last s"]]
    by (cases s rule: rev_cases) (simp_all add: strip_trailing_spaces_def)
  have sign: "split_sign s = (Positive, s)"
    using ne kHexChars_facts(7,8) [OF mem [of "hd s"]] by (simp add: split_sign_def)
  have x: "skip_0x 16 s = s"
  proof (cases "length s > 2")
    case True
    then show ?thesis using kHexChars_facts(5,6) [OF mem [of "s ! 1"]] by (simp add: skip_0x_def)
  qed (simp add: skip_0x_def)
  have "number_of Int32 16 s = Some (int n)"
    using ne ds assms by (simp add: number_of_def sign x in_type_def)
  then have "HexStringToInt s 0 = (True, int n)"
    by (simp add: HexStringToInt_def Invoke_iff)
  then show ?thesis
    using kHexChars_facts(9) [OF mem] by (simp add: ParseChunkSize_def strip list_all_iff flip: s_def)
qed


section \<open>Decoding what the encoder writes\<close>

definition fresh :: "http_chunked_decoder \<Rightarrow> bool" where
  "fresh d \<longleftrightarrow> chunk_remaining d = 0 \<and> line_buf d = [] \<and> \<not> chunk_terminator_remaining d \<and>
     \<not> reached_last_chunk d \<and> \<not> reached_eof d"

lemma fresh_initial: "fresh HttpChunkedDecoder"
  by (simp add: fresh_def HttpChunkedDecoder_def)

text \<open>A line that ends in CRLF, when no part of it has been read before.\<close>

lemma decode_line:
  assumes d: "chunk_remaining d = 0" "\<not> reached_eof d" "line_buf d = []"
    and l: "LF \<notin> set l" "CR \<notin> set l" "length l < kMaxLineBufLen"
    and e: "scan_line l d = (None, d')"
  shows "decode_body d (l @ CR # LF # r) = decode_body d' r"
    and "plain d (l @ CR # LF # r) = plain d' r"
proof -
  have cr: "LF \<notin> set (l @ [CR])" using l by (simp add: CR_def LF_def)
  have "end_line (l @ [CR]) d = (None, d')" using d(3) e by (simp add: end_line_def strip_cr_def)
  then have s: "scan_bytes ((l @ [CR]) @ LF # r) d = (Inr (Suc (length (l @ [CR]))), d')"
    using scan_bytes_finished [OF cr, of r d] by simp
  have "takeWhile (\<lambda>c. c \<noteq> LF) ((l @ [CR]) @ LF # r) = l @ [CR]"
    by (simp only: takeWhile_tail takeWhile_notin [OF cr] not_not)
  then show "decode_body d (l @ CR # LF # r) = decode_body d' r"
    and "plain d (l @ CR # LF # r) = plain d' r"
    using decode_body_scan_next [OF _ d(1,2) s] d(3) l by (simp_all add: plain_line_def)
qed

lemma scan_size_line:
  assumes "fresh d" and "n < 2 ^ 31"
  shows "scan_line (hex_digits n) d =
    (None, d\<lparr>chunk_remaining := n, reached_last_chunk := (n = 0)\<rparr>)"
proof -
  have "chr CHR '';'' \<notin> set (hex_digits n)"
    using set_hex_digits [of n] kHexChars_facts(4) by blast
  then show ?thesis
    using assms ParseChunkSize_hex_digits [OF assms(2)]
    by (cases d) (simp add: scan_line_def fresh_def find_char_notin Let_def)
qed

lemma size_line_chars:
  assumes "n < 2 ^ 31"
  shows "LF \<notin> set (hex_digits n)" "CR \<notin> set (hex_digits n)" "length (hex_digits n) < kMaxLineBufLen"
  using set_hex_digits [of n] kHexChars_facts(1,2) length_hex_digits_8 [of n] assms
  by (auto simp: kMaxLineBufLen_def)

lemma decode_chunk:
  assumes "fresh d" and "0 < length p" and "length p < 2 ^ 31"
  shows "decode_body d (chunk p @ r) = prepend p (decode_body d r)"
    and "plain d (chunk p @ r) = plain d r"
proof -
  define d1 where "d1 = d\<lparr>chunk_remaining := length p\<rparr>"
  define d2 where "d2 = d\<lparr>chunk_terminator_remaining := True\<rparr>"
  have s: "scan_line (hex_digits (length p)) d = (None, d1)"
    using scan_size_line [OF assms(1,3)] assms(1,2) by (cases d) (simp add: fresh_def d1_def)
  have c: "consume (length p) d1 = d2"
    using assms(1) by (cases d) (simp add: consume_def d1_def d2_def fresh_def)
  have t: "scan_line [] d2 = (None, d)"
    using assms(1) by (cases d) (simp add: scan_line_def d2_def fresh_def)
  have rem: "chunk_remaining d1 = length p" by (simp add: d1_def)
  have d2: "chunk_remaining d2 = 0" "\<not> reached_eof d2" "line_buf d2 = []"
    using assms(1) by (simp_all add: d2_def fresh_def)
  have d: "chunk_remaining d = 0" "\<not> reached_eof d" "line_buf d = []"
    using assms(1) by (simp_all add: fresh_def)
  note dec = decode_line [OF d size_line_chars [OF assms(3)] s]
    decode_line [OF d2 _ _ _ t, of r, simplified]
    decode_body_data [of "p @ CR # LF # r" d1] plain_data [of "p @ CR # LF # r" d1]
  show "decode_body d (chunk p @ r) = prepend p (decode_body d r)"
    and "plain d (chunk p @ r) = plain d r"
    using assms(2) dec rem c by (simp_all add: chunk_def kMaxLineBufLen_def)
qed

lemma decode_last_chunk:
  assumes "fresh d"
  shows "decode_body d (chunk [] @ r) =
      (Inr [], d\<lparr>reached_last_chunk := True, reached_eof := True,
                bytes_after_eof := bytes_after_eof d + length r\<rparr>)"
    and "plain d (chunk [] @ r)"
proof -
  define d1 where "d1 = d\<lparr>reached_last_chunk := True\<rparr>"
  define d2 where "d2 = d\<lparr>reached_last_chunk := True, reached_eof := True\<rparr>"
  have s: "scan_line (hex_digits 0) d = (None, d1)"
    using scan_size_line [OF assms, of 0] assms by (cases d) (simp add: fresh_def d1_def)
  have t: "scan_line [] d1 = (None, d2)"
    using assms by (cases d) (simp add: scan_line_def d1_def d2_def fresh_def)
  have d: "chunk_remaining d = 0" "\<not> reached_eof d" "line_buf d = []"
    "chunk_remaining d1 = 0" "\<not> reached_eof d1" "line_buf d1 = []"
    "chunk_remaining d2 = 0" "reached_eof d2"
    using assms by (simp_all add: d1_def d2_def fresh_def)
  note dec = decode_line [OF d(1-3) size_line_chars [of 0] s] decode_line [OF d(4-6) _ _ _ t, of r, simplified]
  have "decode_body d2 r = (Inr [], d2\<lparr>bytes_after_eof := bytes_after_eof d2 + length r\<rparr>) \<and> plain d2 r"
    using d(7,8) by (cases "r = []") (simp_all add: decode_body_eof plain_eof)
  then show "decode_body d (chunk [] @ r) =
      (Inr [], d\<lparr>reached_last_chunk := True, reached_eof := True,
                bytes_after_eof := bytes_after_eof d + length r\<rparr>)"
    and "plain d (chunk [] @ r)"
    using dec by (simp_all add: chunk_def kMaxLineBufLen_def d2_def)
qed

lemma decode_chunks:
  assumes "fresh d" and "\<forall>p \<in> set ps. 0 < length p \<and> length p < 2 ^ 31"
  shows "decode_body d (concat (map chunk ps) @ chunk [] @ r) =
      (Inr (concat ps), d\<lparr>reached_last_chunk := True, reached_eof := True,
                          bytes_after_eof := bytes_after_eof d + length r\<rparr>) \<and>
    plain d (concat (map chunk ps) @ chunk [] @ r)"
  using assms(2)
proof (induction ps)
  case Nil
  then show ?case using decode_last_chunk [OF assms(1), of r] by simp
next
  case (Cons p ps)
  then show ?case using decode_chunk [OF assms(1), of p] by simp
qed

text \<open>The bytes that a successful call of the encoder puts into a buffer.\<close>

definition encode_into :: "uint8 list \<Rightarrow> uint8 list \<Rightarrow> uint8 list" where
  "encode_into payload output =
     (case EncodeChunk payload output of (Inr n, output') \<Rightarrow> take n output' | (Inl e, output') \<Rightarrow> [])"

lemma encode_into_chunk:
  assumes "length p + kChunkHeaderFooterSize \<le> length out" and "length p < 2 ^ 31"
  shows "encode_into p out = chunk p"
  using EncodeChunk_writes [OF assms(1)] assms(2) by (auto simp: encode_into_def)

lemma map2_encode_into:
  assumes "list_all2 (\<lambda>p out. length p + kChunkHeaderFooterSize \<le> length out) ps outs"
    and "\<forall>p \<in> set ps. length p < 2 ^ 31"
  shows "map2 encode_into ps outs = map chunk ps"
  using assms by (induction rule: list_all2_induct) (simp_all add: encode_into_chunk)

text \<open>[C9]
  Decoding what \<open>EncodeChunk\<close> wrote gives the body back: chunks of any contents are encoded one by
  one into buffers that are large enough, the empty chunk ends the body, and the stream, with
  whatever bytes follow it, arrives in pieces of any sizes. The decoder returns the concatenated
  payloads, reports the end of the body and counts the bytes after it.
\<close>

theorem chunked_coding_roundtrip:
  assumes "\<forall>p \<in> set ps. 0 < length p \<and> length p < 2 ^ 31"
    and "list_all2 (\<lambda>p out. length p + kChunkHeaderFooterSize \<le> length out) (ps @ [[]]) outs"
    and "concat pieces = concat (map2 encode_into (ps @ [[]]) outs) @ extra"
  shows "\<exists>d. filter_pieces HttpChunkedDecoder pieces = Some (Inr (concat ps, d)) \<and>
    reached_eof d \<and> bytes_after_eof d = length extra"
proof -
  have "map2 encode_into (ps @ [[]]) outs = map chunk (ps @ [[]])"
    using assms(1,2) by (intro map2_encode_into) auto
  then have "concat pieces = concat (map chunk ps) @ chunk [] @ extra" using assms(3) by simp
  then show ?thesis
    using decode_chunks [OF fresh_initial assms(1), of extra] filter_pieces_decode decode_pieces_plain [of HttpChunkedDecoder pieces]
    by (simp add: HttpChunkedDecoder_def)
qed


section \<open>The state of the decoder\<close>

definition decoder_inv :: "http_chunked_decoder \<Rightarrow> bool" where
  "decoder_inv d \<longleftrightarrow>
     chunk_remaining d < 2 ^ 31 \<and> length (line_buf d) \<le> kMaxLineBufLen \<and>
     (chunk_remaining d \<noteq> 0 \<longrightarrow>
        line_buf d = [] \<and> \<not> chunk_terminator_remaining d \<and> \<not> reached_last_chunk d) \<and>
     (reached_last_chunk d \<longrightarrow> \<not> chunk_terminator_remaining d) \<and>
     (reached_eof d \<longrightarrow> reached_last_chunk d \<and> line_buf d = []) \<and>
     (\<not> reached_eof d \<longrightarrow> bytes_after_eof d = 0)"

lemma ParseChunkSize_bound: "ParseChunkSize s = Some n \<Longrightarrow> n < 2 ^ 31"
proof -
  assume "ParseChunkSize s = Some n"
  then obtain v where "HexStringToInt (strip_trailing_spaces s) 0 = (True, v)" and n: "n = nat v"
    by (auto simp: ParseChunkSize_def Let_def split: if_splits prod.splits)
  then have "number_of Int32 16 (strip_trailing_spaces s) = Some v"
    by (simp add: HexStringToInt_def Invoke_iff)
  then have "in_type Int32 v"
    by (auto simp: number_of_def Let_def split: prod.splits if_splits option.splits)
  then show ?thesis using n by (auto simp: in_type_def)
qed

lemma decoder_inv_consume:
  assumes "decoder_inv d" and "0 < n" and "n \<le> chunk_remaining d"
  shows "decoder_inv (consume n d)"
  using assms by (auto simp: decoder_inv_def consume_def Let_def)

lemma bytes_after_eof_consume [simp]: "bytes_after_eof (consume n d) = bytes_after_eof d"
  by (simp add: consume_def Let_def)

lemma scan_line_error: "scan_line l d = (Some e, d') \<Longrightarrow> e = ERR_INVALID_CHUNKED_ENCODING"
  unfolding scan_line_def Let_def
  by (cases "ParseChunkSize (case find_char (chr CHR '';'') l of Some i \<Rightarrow> take i l | None \<Rightarrow> l)")
    (simp_all split: if_splits)

lemma decoder_inv_scan_line:
  assumes "scan_line l (d\<lparr>line_buf := b\<rparr>) = (None, d')" and "decoder_inv d" and "chunk_remaining d = 0"
    and "\<not> reached_eof d"
  shows "decoder_inv d' \<and> bytes_after_eof d' = bytes_after_eof d"
proof (cases "ParseChunkSize (case find_char (chr CHR '';'') l of Some i \<Rightarrow> take i l | None \<Rightarrow> l)")
  case None
  then show ?thesis
    using assms unfolding scan_line_def Let_def None option.case
    by (auto simp: decoder_inv_def split: if_splits)
next
  case (Some n)
  then show ?thesis
    using assms ParseChunkSize_bound [OF Some] unfolding scan_line_def Let_def Some option.case
    by (auto simp: decoder_inv_def split: if_splits)
qed

lemma scan_bytes_inv:
  assumes "decoder_inv d" and "chunk_remaining d = 0" and "\<not> reached_eof d" and "s \<noteq> []"
  shows "case scan_bytes s d of (Inl e, d') \<Rightarrow> e = ERR_INVALID_CHUNKED_ENCODING
    | (Inr n, d') \<Rightarrow> decoder_inv d' \<and> bytes_after_eof d' = bytes_after_eof d"
proof (cases "LF \<in> set s")
  case True
  then obtain l r where s: "s = l @ LF # r" and l: "LF \<notin> set l" by (meson split_list_first)
  obtain b where "(if line_buf d \<noteq> [] then d\<lparr>line_buf := line_buf d @ strip_cr l\<rparr> else d) = d\<lparr>line_buf := b\<rparr>"
    by (cases "line_buf d \<noteq> []") (fastforce, metis http_chunked_decoder.surjective http_chunked_decoder.update_convs(2))
  then have e: "end_line l d = scan_line (line_buf d @ strip_cr l) (d\<lparr>line_buf := b\<rparr>)"
    by (simp add: end_line_def)
  show ?thesis
    using scan_bytes_finished [OF l, of r d] e assms
      scan_line_error [of "line_buf d @ strip_cr l" "d\<lparr>line_buf := b\<rparr>"]
      decoder_inv_scan_line [where l = "line_buf d @ strip_cr l" and d = d and b = b]
    by (auto simp: s split: prod.splits option.splits)
next
  case False
  then show ?thesis
    using scan_unfinished [OF False assms(4), of "[]" d] assms
    by (simp add: scan_bytes_def decoder_inv_def)
qed

definition good_result ::
    "nat \<Rightarrow> (net_error + uint8 list) \<times> http_chunked_decoder \<Rightarrow> bool" where
  "good_result n r \<longleftrightarrow>
     (case r of
        (Inl e, d) \<Rightarrow> e = ERR_INVALID_CHUNKED_ENCODING
      | (Inr out, d) \<Rightarrow> decoder_inv d \<and> length out + bytes_after_eof d \<le> n)"

lemma good_result_prepend: "good_result n r \<Longrightarrow> good_result (length xs + n) (prepend xs r)"
  by (cases r rule: outcome.cases) (simp_all add: good_result_def)

lemma good_result_mono: "good_result n r \<Longrightarrow> n \<le> m \<Longrightarrow> good_result m r"
  by (cases r rule: outcome.cases) (simp_all add: good_result_def)

lemma decode_body_inv:
  "decoder_inv d \<Longrightarrow> good_result (bytes_after_eof d + length s) (decode_body d s)"
proof (induction "length s" arbitrary: d s rule: less_induct)
  case less
  consider "s = []" | "s \<noteq> []" "chunk_remaining d \<noteq> 0" | "s \<noteq> []" "chunk_remaining d = 0" "reached_eof d"
    | "s \<noteq> []" "chunk_remaining d = 0" "\<not> reached_eof d" by blast
  then show ?case
  proof cases
    case 1
    then show ?thesis using less.prems by (simp add: good_result_def)
  next
    case 2
    let ?n = "min (chunk_remaining d) (length s)" and ?s = "drop (chunk_remaining d) s"
    have "good_result (bytes_after_eof (consume ?n d) + length ?s) (decode_body (consume ?n d) ?s)"
      using 2 less.prems by (intro less.hyps decoder_inv_consume) auto
    then have "good_result (bytes_after_eof d + length ?s) (decode_body (consume ?n d) ?s)"
      by simp
    then have "good_result (length (take (chunk_remaining d) s) + (bytes_after_eof d + length ?s)) (decode_body d s)"
      unfolding decode_body_data [OF 2] by (rule good_result_prepend)
    then show ?thesis by (rule good_result_mono) simp
  next
    case 3
    then show ?thesis using less.prems by (simp add: decode_body_eof good_result_def decoder_inv_def)
  next
    case 4
    show ?thesis
    proof (cases "scan_bytes s d" rule: outcome.cases)
      case (1 e d')
      then show ?thesis
        using scan_bytes_inv [OF less.prems 4(2,3,1)] 4 by (simp add: decode_body_scan_error good_result_def)
    next
      case (2 n d')
      have n: "0 < n" "n \<le> length s" using scan_bytes_progress [OF 2] 4(1) by auto
      have inv: "decoder_inv d'" "bytes_after_eof d' = bytes_after_eof d"
        using scan_bytes_inv [OF less.prems 4(2,3,1)] 2 by simp_all
      then have "good_result (bytes_after_eof d' + length (drop n s)) (decode_body d' (drop n s))"
        using 4(1) n by (intro less.hyps) simp_all
      then show ?thesis
        using decode_body_scan_next(1) [OF 4 2] inv(2) by (auto intro: good_result_mono)
    qed
  qed
qed


lemma decode_pieces_inv:
  "decoder_inv d \<Longrightarrow>
   (case decode_pieces d pieces of
      Inl e \<Rightarrow> e = ERR_INVALID_CHUNKED_ENCODING
    | Inr (out, d') \<Rightarrow>
        decoder_inv d' \<and> length out + bytes_after_eof d' \<le> bytes_after_eof d + length (concat pieces))"
proof (induction pieces arbitrary: d)
  case (Cons s ss)
  show ?case
  proof (cases "decode_body d s" rule: outcome.cases)
    case (1 e d')
    then show ?thesis
      using decode_body_inv [OF Cons.prems, of s]
      by (simp add: good_result_def)
  next
    case (2 out d')
    then show ?thesis
      using decode_body_inv [OF Cons.prems, of s] Cons.IH [of d']
      by (auto simp: good_result_def split: sum.splits)
  qed
qed simp

text \<open>
  However the input is cut and whatever it is, the only error is an invalid encoding; the line
  buffer stays within its limit between calls; data, terminator, trailer and end of the body
  exclude each other; sizes fit an \<open>int\<close>; and no more bytes come out, or are counted after the
  end, than went in.
\<close>

theorem decoder_invariant:
  "case filter_pieces HttpChunkedDecoder pieces of
      None \<Rightarrow> False
    | Some (Inl e) \<Rightarrow> e = ERR_INVALID_CHUNKED_ENCODING
    | Some (Inr (out, d)) \<Rightarrow> decoder_inv d \<and> length out + bytes_after_eof d \<le> length (concat pieces)"
proof -
  have i: "decoder_inv HttpChunkedDecoder" and z: "bytes_after_eof HttpChunkedDecoder = 0"
    by (simp_all add: HttpChunkedDecoder_def decoder_inv_def)
  show ?thesis using decode_pieces_inv [OF i, of pieces] by (simp only: filter_pieces_decode option.case z add_0)
qed

text \<open>[C25]
  \<open>FilterBuf\<close>, which moves the rest of the buffer down over every chunk marker, returns from every state on
  every buffer: no \<open>memmove\<close> and no scan reads or writes outside the buffer, and no DCHECK of the scan fails.
  What it computes is what the decoder defined on lists computes: the same error or the same state,
  with the data at the front of the buffer.
\<close>

theorem FilterBuf_in_place:
  "\<exists>r d' buf'. FilterBuf d buf = Some (r, d', buf') \<and> length buf' = length buf \<and>
     (case r of
        Inl e \<Rightarrow> decode_body d buf = (Inl e, d')
      | Inr n \<Rightarrow> n \<le> length buf \<and> decode_body d buf = (Inr (take n buf'), d'))"
proof (rule agreesE [OF FilterBuf_agrees [of buf d]])
  fix n d' buf' out
  assume r: "FilterBuf d buf = Some (Inr n, d', buf')" "decode_body d buf = (Inr out, d')"
    "length buf' = length buf" "n = 0 + length out" "take n buf' = take 0 buf @ out"
  then have "out = take n buf'" "n \<le> length buf'" using length_take [of n buf'] by simp_all
  then show ?thesis using r by simp
qed simp

text \<open>
  As long as no line has a carriage return before another byte than the line feed, and no line is
  longer than the line buffer, the outcome of decoding - error, data and final state - does not
  depend on how the stream is cut into buffers.
\<close>

theorem plain_streams_cut_anywhere:
  assumes "plain HttpChunkedDecoder (concat pieces)"
  shows "filter_pieces HttpChunkedDecoder pieces = filter_pieces HttpChunkedDecoder [concat pieces]"
  using assms filter_pieces_decode decode_pieces_plain [of HttpChunkedDecoder pieces]
    decode_pieces_plain [of HttpChunkedDecoder "[concat pieces]"] by simp

text \<open>
  For other streams it does depend on it: a carriage return at the end of a buffer is dropped
  wherever it stands in the line, so that the size line 5 CR 2 LF is an error in one buffer, and
  announces a chunk of 0x52 bytes when it is cut after the carriage return.
\<close>

theorem cut_after_CR_changes_outcome:
  "filter_pieces HttpChunkedDecoder [bytes_of ''5'' @ [CR] @ bytes_of ''2'' @ [LF]] =
     Some (Inl ERR_INVALID_CHUNKED_ENCODING) \<and>
   filter_pieces HttpChunkedDecoder [bytes_of ''5'' @ [CR], bytes_of ''2'' @ [LF]] =
     Some (Inr ([], HttpChunkedDecoder\<lparr>chunk_remaining := 0x52\<rparr>))"
proof -
  note defs = FilterBuf_def ScanForChunkRemaining_dcheck_def in_buffer_def ScanForChunkRemaining_def find_char_def scan_line_def bytes_of_def chr_def
    CR_def LF_def HttpChunkedDecoder_def Let_def kMaxLineBufLen_def ParseChunkSize_def
    strip_trailing_spaces_def HexStringToInt_def
  have "number_of Int32 16 [53, 50] = Some 0x52"
    by (simp add: number_of_def split_sign_def skip_0x_def CharToDigit_def in_type_def)
  then have "Invoke Int32 16 [53, 50] 0 = (True, 0x52)" by (simp add: Invoke_iff)
  then show ?thesis
    by (simp add: defs filter_loop.simps)
qed

text \<open>[C9]
  A chunk that contains a line feed, cut inside both of its line ends, and two bytes after the body.
\<close>

theorem chunked_coding_roundtrip_witness:
  "\<exists>d. filter_pieces HttpChunkedDecoder
      [[chr CHR ''2'', CR], [LF, 7, LF, CR, LF, chr CHR ''0''], [CR, LF, CR], [LF, 1, 2]] =
      Some (Inr ([7, LF], d)) \<and> reached_eof d \<and> bytes_after_eof d = Suc (Suc 0)"
proof -
  have "encode_into [7, LF] (replicate 14 0) = chunk [7, LF]" "encode_into [] (replicate 12 0) = chunk []"
    by (simp_all add: encode_into_chunk kChunkHeaderFooterSize_def)
  moreover have "chunk [7, LF] = [chr CHR ''2'', CR, LF, 7, LF, CR, LF]" "chunk [] = [chr CHR ''0'', CR, LF, CR, LF]"
    by (simp_all add: chunk_def hex_digits.simps kHexChars_def bytes_of_def)
  ultimately show ?thesis
    using chunked_coding_roundtrip [of "[[7, LF]]" "[replicate 14 0, replicate 12 0]"
        "[[chr CHR ''2'', CR], [LF, 7, LF, CR, LF, chr CHR ''0''], [CR, LF, CR], [LF, 1, 2]]" "[1, 2]"]
    by (simp add: kChunkHeaderFooterSize_def del: filter_pieces.simps)
qed

text \<open>
  An empty body, cut between CR and LF.
\<close>

theorem plain_streams_cut_anywhere_witness:
  "filter_pieces HttpChunkedDecoder [[chr CHR ''0'', CR], [LF, CR, LF]] =
   filter_pieces HttpChunkedDecoder [[chr CHR ''0'', CR, LF, CR, LF]]"
proof -
  have "plain HttpChunkedDecoder (chunk [] @ [])" by (rule decode_last_chunk(2) [OF fresh_initial])
  moreover have "chunk [] = [chr CHR ''0'', CR, LF, CR, LF]"
    by (simp add: chunk_def hex_digits.simps kHexChars_def bytes_of_def)
  ultimately show ?thesis
    using plain_streams_cut_anywhere [of "[[chr CHR ''0'', CR], [LF, CR, LF]]"] by simp
qed

end
