(* ===== verification/Hpack_Stream.thy ===== *)
theory Hpack_Stream
  imports Prelude
begin

text \<open>
  \<open>net/spdy/hpack/hpack_output_stream.{h,cc}\<close> and \<open>hpack_input_stream.{h,cc}\<close>: the bit streams of
  HPACK and its integers. A stream is its bytes and the bit offset in the last, respectively the
  first of them. Shown: an integer that the output stream appends at any bit offset is read back
  by the input stream; and the overflow check of the reader misses the final addition.
\<close>

unbundle bit_operations_syntax

section \<open>Prefixes\<close>

record hpack_prefix =
  bits :: uint8
  bit_size :: nat

definition kStringLiteralIdentityEncoded :: hpack_prefix where
  "kStringLiteralIdentityEncoded = \<lparr>bits = 0x0, bit_size = 1\<rparr>"
definition kStringLiteralHuffmanEncoded :: hpack_prefix where
  "kStringLiteralHuffmanEncoded = \<lparr>bits = 0x1, bit_size = 1\<rparr>"
definition kIndexedOpcode :: hpack_prefix where
  "kIndexedOpcode = \<lparr>bits = 0x1, bit_size = 1\<rparr>"
definition kLiteralIncrementalIndexOpcode :: hpack_prefix where
  "kLiteralIncrementalIndexOpcode = \<lparr>bits = 0x1, bit_size = 2\<rparr>"
definition kLiteralNoIndexOpcode :: hpack_prefix where
  "kLiteralNoIndexOpcode = \<lparr>bits = 0x0, bit_size = 4\<rparr>"
definition kLiteralNeverIndexOpcode :: hpack_prefix where
  "kLiteralNeverIndexOpcode = \<lparr>bits = 0x1, bit_size = 4\<rparr>"
definition kHeaderTableSizeUpdateOpcode :: hpack_prefix where
  "kHeaderTableSizeUpdateOpcode = \<lparr>bits = 0x1, bit_size = 3\<rparr>"

section \<open>The output stream\<close>

record hpack_output_stream =
  out_buffer :: "uint8 list"
  out_bit_offset :: nat

definition HpackOutputStream :: hpack_output_stream where
  "HpackOutputStream = \<lparr>out_buffer = [], out_bit_offset = 0\<rparr>"

definition or_last :: "uint8 \<Rightarrow> uint8 list \<Rightarrow> uint8 list" where
  "or_last b buffer = butlast buffer @ [last buffer OR b]"

definition AppendBits :: "uint8 \<Rightarrow> nat \<Rightarrow> hpack_output_stream \<Rightarrow> hpack_output_stream" where
  "AppendBits b n s =
     (let new_bit_offset = out_bit_offset s + n;
          buffer =
            (if out_bit_offset s = 0 then out_buffer s @ [push_bit (8 - n) b]
             else if new_bit_offset \<le> 8 then or_last (push_bit (8 - new_bit_offset) b) (out_buffer s)
             else or_last (drop_bit (new_bit_offset - 8) b) (out_buffer s) @
                  [push_bit (16 - new_bit_offset) b])
      in s\<lparr>out_buffer := buffer, out_bit_offset := new_bit_offset mod 8\<rparr>)"

definition AppendBits_dcheck :: "uint8 \<Rightarrow> nat \<Rightarrow> bool" where
  "AppendBits_dcheck b n \<longleftrightarrow> 0 < n \<and> n \<le> 8 \<and> drop_bit n b = 0"

definition AppendPrefix :: "hpack_prefix \<Rightarrow> hpack_output_stream \<Rightarrow> hpack_output_stream" where
  "AppendPrefix p s = AppendBits (bits p) (bit_size p) s"

definition AppendBytes :: "uint8 list \<Rightarrow> hpack_output_stream \<Rightarrow> hpack_output_stream" where
  "AppendBytes bs s = s\<lparr>out_buffer := out_buffer s @ bs\<rparr>"

text \<open>The loop of \<open>AppendUint32\<close>: the bytes it appends and the rest of \<open>I\<close>.\<close>

function uint32_loop :: "uint32 \<Rightarrow> uint8 list \<times> uint32" where
  "uint32_loop i =
     (if i AND NOT 0x7F \<noteq> 0
      then (let (bs, j) = uint32_loop (drop_bit 7 i) in (ucast ((i AND 0x7F) OR 0x80) # bs, j))
      else ([], i))"
  by pat_completeness auto

text \<open>The guard of the loop, as a number.\<close>

lemma unat_drop_bit_7: "unat (drop_bit 7 (i :: uint32)) = unat i div 128"
  unfolding unat_drop_bit_eq by (simp add: drop_bit_eq_div)

lemma high_bits_iff: "(i :: uint32) AND NOT 0x7F \<noteq> 0 \<longleftrightarrow> 128 \<le> unat i"
proof -
  have "i AND NOT (mask 7) = push_bit 7 (drop_bit 7 i)"
    by (rule bit_word_eqI) (auto simp: bit_simps)
  then have "i AND NOT 0x7F = push_bit 7 (drop_bit 7 i)" by (simp add: mask_eq_exp_minus_1)
  moreover have "push_bit 7 (drop_bit 7 i) = 0 \<longleftrightarrow> drop_bit 7 i = 0"
  proof
    assume "push_bit 7 (drop_bit 7 i) = 0"
    then have "drop_bit 7 (push_bit 7 (drop_bit 7 i)) = 0" by simp
    moreover have "drop_bit 7 (push_bit 7 (drop_bit 7 i)) = drop_bit 7 i"
      by (rule bit_word_eqI) (auto simp: bit_simps dest: bit_imp_le_length)
    ultimately show "drop_bit 7 i = 0" by simp
  qed simp
  moreover have "drop_bit 7 i = 0 \<longleftrightarrow> unat i div 128 = 0"
    by (simp only: unat_drop_bit_7 [symmetric] unat_eq_zero)
  ultimately show ?thesis by (simp add: div_eq_0_iff not_less)
qed

termination uint32_loop
proof (relation "measure unat")
  fix i :: uint32
  assume "i AND NOT 0x7F \<noteq> 0"
  then have "128 \<le> unat i" using high_bits_iff by blast
  then show "(drop_bit 7 i, i) \<in> measure unat" by (simp add: unat_drop_bit_7)
qed simp

declare uint32_loop.simps [simp del]

definition AppendUint32 :: "uint32 \<Rightarrow> hpack_output_stream \<Rightarrow> hpack_output_stream" where
  "AppendUint32 i s =
     (let n = 8 - out_bit_offset s;
          max_first_byte = mask n :: uint8
      in if i < ucast max_first_byte then AppendBits (ucast i) n s
         else
           (let s = AppendBits max_first_byte n s;
                i = i - ucast max_first_byte;
                (bs, i) = uint32_loop i;
                s = s\<lparr>out_buffer := out_buffer s @ bs\<rparr>
            in AppendBits (ucast i) 8 s))"

definition TakeString :: "hpack_output_stream \<Rightarrow> uint8 list \<times> hpack_output_stream" where
  "TakeString s = (out_buffer s, s\<lparr>out_buffer := [], out_bit_offset := 0\<rparr>)"

definition TakeString_dcheck :: "hpack_output_stream \<Rightarrow> bool" where
  "TakeString_dcheck s \<longleftrightarrow> out_bit_offset s = 0"

section \<open>The input stream\<close>

record hpack_input_stream =
  max_string_literal_size :: uint32
  in_buffer :: "uint8 list"
  in_bit_offset :: nat

definition HpackInputStream :: "uint32 \<Rightarrow> uint8 list \<Rightarrow> hpack_input_stream" where
  "HpackInputStream max_size buffer =
     \<lparr>max_string_literal_size = max_size, in_buffer = buffer, in_bit_offset = 0\<rparr>"

definition HasMoreData :: "hpack_input_stream \<Rightarrow> bool" where
  "HasMoreData s \<longleftrightarrow> in_buffer s \<noteq> []"

text \<open>
  \<open>PeekBits\<close>: whether bits could be read, and the new values of \<open>peeked_count\<close> and \<open>out\<close>. The byte is a
  signed \<open>char\<close>; the shift drops what its conversion adds. \<open>PeekBits_check\<close> is its \<open>CHECK\<close>.
\<close>

definition peeked_bits :: "nat \<Rightarrow> hpack_input_stream \<Rightarrow> uint32" where
  "peeked_bits peeked_count s =
     (let byte_offset = (in_bit_offset s + peeked_count) div 8;
          bit_offset = (in_bit_offset s + peeked_count) mod 8
      in drop_bit peeked_count (push_bit (24 + bit_offset) (scast (in_buffer s ! byte_offset))))"

definition PeekBits :: "nat \<Rightarrow> uint32 \<Rightarrow> hpack_input_stream \<Rightarrow> bool \<times> nat \<times> uint32" where
  "PeekBits peeked_count out s =
     (let byte_offset = (in_bit_offset s + peeked_count) div 8;
          bit_offset = (in_bit_offset s + peeked_count) mod 8
      in if peeked_count \<ge> 32 \<or> byte_offset \<ge> length (in_buffer s) then (False, peeked_count, out)
         else
           (let bits_to_read = min (32 - peeked_count) (8 - bit_offset)
            in (True, peeked_count + bits_to_read, out OR peeked_bits peeked_count s)))"

definition PeekBits_check :: "nat \<Rightarrow> uint32 \<Rightarrow> hpack_input_stream \<Rightarrow> bool" where
  "PeekBits_check peeked_count out s \<longleftrightarrow>
     (peeked_count \<ge> 32 \<or> (in_bit_offset s + peeked_count) div 8 \<ge> length (in_buffer s) \<or>
      out AND peeked_bits peeked_count s = 0)"

definition ConsumeBits :: "nat \<Rightarrow> hpack_input_stream \<Rightarrow> hpack_input_stream" where
  "ConsumeBits bit_count s =
     (let byte_count = (in_bit_offset s + bit_count) div 8
      in s\<lparr>in_bit_offset := (in_bit_offset s + bit_count) mod 8,
           in_buffer := drop byte_count (in_buffer s)\<rparr>)"

definition ConsumeBits_check :: "nat \<Rightarrow> hpack_input_stream \<Rightarrow> bool" where
  "ConsumeBits_check bit_count s \<longleftrightarrow>
     (in_bit_offset s + bit_count) div 8 \<le> length (in_buffer s) \<and>
     ((in_bit_offset s + bit_count) mod 8 \<noteq> 0 \<longrightarrow> in_buffer s \<noteq> [])"

definition ConsumeByteRemainder :: "hpack_input_stream \<Rightarrow> hpack_input_stream" where
  "ConsumeByteRemainder s =
     (if in_bit_offset s \<noteq> 0 then ConsumeBits (8 - in_bit_offset s) s else s)"

definition MatchPrefixAndConsume :: "hpack_prefix \<Rightarrow> hpack_input_stream \<Rightarrow> bool \<times> hpack_input_stream" where
  "MatchPrefixAndConsume prefix s =
     (let (ok, peeked_count, peeked) = PeekBits 0 0 s
      in if \<not> ok then (False, s)
         else if drop_bit (32 - bit_size prefix) peeked = ucast (bits prefix)
         then (True, ConsumeBits (bit_size prefix) s)
         else (False, s))"

definition PeekNextOctet :: "hpack_input_stream \<Rightarrow> uint8 option" where
  "PeekNextOctet s =
     (if in_bit_offset s > 0 \<or> in_buffer s = [] then None else Some (in_buffer s ! 0))"

definition DecodeNextOctet :: "hpack_input_stream \<Rightarrow> uint8 option \<times> hpack_input_stream" where
  "DecodeNextOctet s =
     (case PeekNextOctet s of
        None \<Rightarrow> (None, s)
      | Some next_octet \<Rightarrow> (Some next_octet, s\<lparr>in_buffer := drop 1 (in_buffer s)\<rparr>))"

text \<open>The loop of \<open>DecodeNextUint32\<close>; the octet is shifted as an \<open>int\<close>, which has the width of \<open>uint32\<close>.\<close>

function decode_loop ::
    "bool \<Rightarrow> nat \<Rightarrow> uint32 \<Rightarrow> hpack_input_stream \<Rightarrow> bool \<times> uint32 \<times> hpack_input_stream" where
  "decode_loop has_more shift i s =
     (if has_more \<and> shift < 32
      then
        (case DecodeNextOctet s of
           (None, s) \<Rightarrow> (False, i, s)
         | (Some next_octet, s) \<Rightarrow>
             (let has_more = (next_octet AND 0x80 \<noteq> 0);
                  next_octet = next_octet AND 0x7F;
                  addend = push_bit shift (ucast next_octet) :: uint32
              in if drop_bit shift addend \<noteq> ucast next_octet then (False, i, s)
                 else decode_loop has_more (shift + 7) (i + addend) s))
      else (\<not> has_more, i, s))"
  by pat_completeness auto
termination
  by (relation "measure (\<lambda>(has_more, shift, i, s). 32 - shift)") auto

declare decode_loop.simps [simp del]

definition DecodeNextUint32 :: "hpack_input_stream \<Rightarrow> bool \<times> uint32 \<times> hpack_input_stream" where
  "DecodeNextUint32 s =
     (let n = 8 - in_bit_offset s;
          s = s\<lparr>in_bit_offset := 0\<rparr>;
          next_marker = mask n :: uint8
      in case DecodeNextOctet s of
           (None, s) \<Rightarrow> (False, 0, s)
         | (Some next_octet, s) \<Rightarrow>
             (let i = ucast (next_octet AND next_marker) :: uint32
              in decode_loop (i = ucast next_marker) 0 i s))"

definition DecodeNextIdentityString ::
    "hpack_input_stream \<Rightarrow> uint8 list option \<times> hpack_input_stream" where
  "DecodeNextIdentityString s =
     (case DecodeNextUint32 s of
        (False, _, s) \<Rightarrow> (None, s)
      | (True, len, s) \<Rightarrow>
          if len > max_string_literal_size s then (None, s)
          else if unat len > length (in_buffer s) then (None, s)
          else (Some (take (unat len) (in_buffer s)), s\<lparr>in_buffer := drop (unat len) (in_buffer s)\<rparr>))"

section \<open>Integers\<close>

lemma drop_bit_push_bit_small:
  fixes x :: uint32
  assumes "unat x < 2 ^ (32 - sh)"
  shows "drop_bit sh (push_bit sh x) = x"
proof -
  have "unat (take_bit (32 - sh) x) = unat x"
    using assms by (simp only: unsigned_take_bit_eq take_bit_nat_eq_self_iff)
  then have "take_bit (32 - sh) x = x" by (simp only: word_unat_eq_iff)
  then have "bit x k \<Longrightarrow> sh + k < 32" for k by (metis add.commute bit_take_bit_iff less_diff_conv)
  then show ?thesis
    by (intro bit_word_eqI) (auto simp: bit_simps)
qed

lemma byte_above_mask:
  fixes i :: uint32
  assumes "m < 8"
  shows "bit (ucast ((i AND mask m) OR 2 ^ m) :: uint8) m"
    "ucast ((i AND mask m) OR 2 ^ m) AND (mask m :: uint8) = ucast (i AND mask m)"
  using assms by (simp_all add: bit_simps) (auto intro!: bit_word_eqI simp: bit_simps)

lemma bit_and_exp: "(w :: uint8) AND 2 ^ n \<noteq> 0 \<longleftrightarrow> bit w n"
  by (simp only: and_exp_eq_0_iff_not_bit not_not)

lemma continuation_byte:
  fixes i :: uint32
  shows "ucast ((i AND 0x7F) OR 0x80) AND (0x80 :: uint8) \<noteq> 0"
    "ucast ((i AND 0x7F) OR 0x80) AND (0x7F :: uint8) = ucast (i AND 0x7F)"
  using byte_above_mask [of 7 i] bit_and_exp [of "ucast ((i AND mask 7) OR 2 ^ 7)" 7]
  by (simp_all add: mask_eq_exp_minus_1)

lemma split_seven: "push_bit 7 (drop_bit 7 i) + (i AND 0x7F) = (i :: uint32)"
  using bits_ident [of 7 i] by (simp add: take_bit_eq_mask mask_eq_exp_minus_1)


text \<open>One turn of the loop of the reader, and all of them on what the loop of the writer appends.\<close>

lemma decode_loop_step:
  assumes "in_bit_offset s = 0" and "sh < 32" and "unat (b AND 0x7F) < 2 ^ (32 - sh)"
  shows "decode_loop True sh acc (s\<lparr>in_buffer := b # xs\<rparr>) =
    decode_loop (b AND 0x80 \<noteq> 0) (sh + 7) (acc + push_bit sh (ucast (b AND 0x7F))) (s\<lparr>in_buffer := xs\<rparr>)"
proof -
  have "drop_bit sh (push_bit sh (ucast (b AND 0x7F) :: uint32)) = ucast (b AND 0x7F)"
    by (intro drop_bit_push_bit_small order.strict_trans1 [OF unat_ucast_le assms(3)])
  then show ?thesis
    using assms(1,2)
    by (subst decode_loop.simps) (simp add: DecodeNextOctet_def PeekNextOctet_def Let_def)
qed

lemma decode_loop_stop: "decode_loop False sh acc s = (True, acc, s)"
  by (subst decode_loop.simps) simp

lemma low_bits_mod: "unat (i AND 0x7F) = unat (i :: uint32) mod 128"
proof -
  have "unat (take_bit 7 i) = unat i mod 2 ^ 7" by (subst unsigned_take_bit_eq) (simp only: take_bit_eq_mod)
  then show ?thesis by (simp add: take_bit_eq_mask mask_eq_exp_minus_1)
qed

lemma ucast_ucast_low:
  fixes i :: uint32
  shows "ucast (ucast (i AND 0x7F) :: uint8) = i AND 0x7F"
proof -
  have "ucast (ucast (i AND mask 7) :: uint8) = i AND mask 7"
    by (rule bit_word_eqI) (auto simp: bit_simps)
  then show ?thesis by (simp add: mask_eq_exp_minus_1)
qed

lemma final_byte:
  fixes i :: uint32
  shows "ucast (i AND 0x7F) AND (0x80 :: uint8) = 0"
    "ucast (i AND 0x7F) AND (0x7F :: uint8) = ucast (i AND 0x7F)"
proof -
  have "\<not> bit (ucast (i AND mask 7) :: uint8) 7" by (simp add: bit_simps)
  then have "ucast (i AND mask 7) AND (2 ^ 7 :: uint8) = 0" using bit_and_exp by blast
  then show "ucast (i AND 0x7F) AND (0x80 :: uint8) = 0" by (simp add: mask_eq_exp_minus_1)
  have "ucast (i AND mask 7) AND (mask 7 :: uint8) = ucast (i AND mask 7)"
    by (rule bit_word_eqI) (auto simp: bit_simps)
  then show "ucast (i AND 0x7F) AND (0x7F :: uint8) = ucast (i AND 0x7F)"
    by (simp add: mask_eq_exp_minus_1)
qed

lemma decode_uint32_loop:
  assumes "uint32_loop i = (bs, j)" and "in_bit_offset s = 0" and "sh < 32" and "unat i < 2 ^ (32 - sh)"
  shows "decode_loop True sh acc (s\<lparr>in_buffer := bs @ ucast j # rest\<rparr>) =
    (True, acc + push_bit sh i, s\<lparr>in_buffer := rest\<rparr>)"
  using assms
proof (induction i arbitrary: bs sh acc rule: uint32_loop.induct)
  case (1 i)
  show ?case
  proof (cases "i AND NOT 0x7F \<noteq> 0")
    case True
    then have big: "128 \<le> unat i" using high_bits_iff by blast
    let ?b = "ucast ((i AND 0x7F) OR 0x80) :: uint8"
    obtain cs k where ck: "uint32_loop (drop_bit 7 i) = (cs, k)" by fastforce
    have "uint32_loop i = (?b # cs, k)" using True by (subst uint32_loop.simps) (simp only: ck if_True Let_def prod.case not_False_eq_True)
    then have bs: "bs = ?b # cs" and cs: "uint32_loop (drop_bit 7 i) = (cs, j)" using 1(2) ck by simp_all
    have sh: "sh + 7 < 32"
    proof (rule ccontr)
      assume "\<not> sh + 7 < 32"
      then have "(2::nat) ^ (32 - sh) \<le> 2 ^ 7" by (intro power_increasing) auto
      then show False using big 1(5) by simp
    qed
    have low: "unat (i AND 0x7F) < 2 ^ (32 - sh)"
      using low_bits_mod [of i] 1(5) mod_less_eq_dividend [of "unat i" 128] by linarith
    have "decode_loop True sh acc (s\<lparr>in_buffer := ?b # cs @ ucast j # rest\<rparr>) =
        decode_loop True (sh + 7) (acc + push_bit sh (i AND 0x7F)) (s\<lparr>in_buffer := cs @ ucast j # rest\<rparr>)"
      using decode_loop_step [OF 1(3,4), of ?b acc] order.strict_trans1 [OF unat_ucast_le low]
      by (simp add: continuation_byte ucast_ucast_low)
    also have "\<dots> = (True, acc + push_bit sh (i AND 0x7F) + push_bit (sh + 7) (drop_bit 7 i), s\<lparr>in_buffer := rest\<rparr>)"
    proof -
      have "unat (drop_bit 7 i) < 2 ^ (32 - (sh + 7))"
      proof -
        have e: "(32 - (sh + 7)) + 7 = 32 - sh" using sh by simp
        have "(2 :: nat) ^ ((32 - (sh + 7)) + 7) = 2 ^ (32 - (sh + 7)) * 2 ^ 7" by (rule power_add)
        then have "unat i < 2 ^ (32 - (sh + 7)) * 128" using 1(5) unfolding e by simp
        then show ?thesis unfolding unat_drop_bit_7 by (rule less_mult_imp_div_less)
      qed
      then show ?thesis using 1(3) sh by (intro 1(1) [OF True cs])
    qed
    also have "acc + push_bit sh (i AND 0x7F) + push_bit (sh + 7) (drop_bit 7 i) = acc + push_bit sh i"
    proof -
      have "push_bit sh i = push_bit sh (push_bit 7 (drop_bit 7 i)) + push_bit sh (i AND 0x7F)"
        by (simp only: split_seven flip: push_bit_add)
      then show ?thesis by (simp add: push_bit_push_bit ac_simps)
    qed
    finally show ?thesis by (simp add: bs)
  next
    case False
    then have small: "unat i < 128" and bs: "bs = []" "j = i"
      using high_bits_iff [of i] 1(2) by (auto simp: uint32_loop.simps [of i])
    have "unat (i AND 0x7F) = unat i" using small by (simp add: low_bits_mod)
    then have "i AND 0x7F = i" by (simp only: word_unat_eq_iff)
    then have c: "ucast i AND (0x80 :: uint8) = 0" "ucast i AND (0x7F :: uint8) = ucast i" "ucast (ucast i :: uint8) = i"
      using final_byte [of i] ucast_ucast_low [of i] by simp_all
    have "unat (ucast i AND 0x7F :: uint8) < 2 ^ (32 - sh)"
      using 1(5) order.strict_trans1 [OF unat_ucast_le] c(2) by simp
    then show ?thesis
      using decode_loop_step [OF 1(3,4), of "ucast i" acc] c by (simp add: bs decode_loop_stop)
  qed
qed


text \<open>The streams that the operations build: unused bits of the last byte are zero.\<close>

definition output_ok :: "hpack_output_stream \<Rightarrow> bool" where
  "output_ok s \<longleftrightarrow> out_bit_offset s < 8 \<and>
     (out_bit_offset s \<noteq> 0 \<longrightarrow>
        out_buffer s \<noteq> [] \<and> last (out_buffer s) AND mask (8 - out_bit_offset s) = 0)"

text \<open>The index of the byte that the next bits go into.\<close>

definition next_byte :: "hpack_output_stream \<Rightarrow> nat" where
  "next_byte s = (if out_bit_offset s = 0 then length (out_buffer s) else length (out_buffer s) - 1)"

lemma or_and_mask: "(a OR b) AND mask n = (a AND mask n) OR (b AND (mask n :: uint8))"
  by (rule bit_word_eqI) (auto simp: bit_simps)

lemma AppendBits_fills_byte:
  assumes "output_ok s" and "n = 8 - out_bit_offset s" and "x AND mask n = x"
  shows "\<exists>b. AppendBits x n s = \<lparr>out_buffer = take (next_byte s) (out_buffer s) @ [b], out_bit_offset = 0\<rparr> \<and>
    b AND mask n = x"
proof (cases "out_bit_offset s = 0")
  case True
  then show ?thesis
    using assms(2,3) by (cases s) (simp add: AppendBits_def next_byte_def)
next
  case False
  then have "(last (out_buffer s) OR x) AND mask n = x"
    using assms False or_and_mask [of "last (out_buffer s)" x n] by (simp add: output_ok_def)
  then show ?thesis
    using False assms
    by (cases s) (auto simp: AppendBits_def next_byte_def output_ok_def or_last_def Let_def butlast_conv_take)
qed

lemma mask_byte: "n \<le> 8 \<Longrightarrow> ucast (mask n :: uint8) = (mask n :: uint32)"
  by (rule bit_word_eqI) (auto simp: bit_simps)

lemma ucast_below_mask:
  assumes "i < mask n" and "n \<le> 8"
  shows "(ucast (i :: uint32) :: uint8) AND mask n = ucast i" "ucast (ucast i :: uint8) = i"
proof -
  have "unat i < 2 ^ n"
  proof -
    have "n \<in> {0, 1, 2, 3, 4, 5, 6, 7, 8}" using assms(2) by auto
    then show ?thesis using assms(1) by (auto simp: word_less_nat_alt mask_eq_exp_minus_1)
  qed
  then have t: "take_bit n i = i"
    by (simp only: word_unat_eq_iff unsigned_take_bit_eq take_bit_nat_eq_self_iff)
  then have b: "bit i k \<Longrightarrow> k < n" for k by (metis bit_take_bit_iff)
  show "(ucast i :: uint8) AND mask n = ucast i"
    by (rule bit_word_eqI) (auto simp: bit_simps dest: b)
  show "ucast (ucast i :: uint8) = i"
    using assms(2) by (intro bit_word_eqI) (auto simp: bit_simps dest: b order.strict_trans2)
qed

lemma AppendUint32_DecodeNextUint32:
  assumes "output_ok s"
  shows "\<exists>bs. AppendUint32 i s = \<lparr>out_buffer = take (next_byte s) (out_buffer s) @ bs, out_bit_offset = 0\<rparr> \<and>
    DecodeNextUint32 \<lparr>max_string_literal_size = m, in_buffer = bs @ rest, in_bit_offset = out_bit_offset s\<rparr> =
      (True, i, \<lparr>max_string_literal_size = m, in_buffer = rest, in_bit_offset = 0\<rparr>)"
proof -
  define n where "n = 8 - out_bit_offset s"
  have n: "n \<le> 8" by (simp add: n_def)
  show ?thesis
  proof (cases "i < mask n")
    case True
    obtain b where b: "AppendBits (ucast i) n s =
        \<lparr>out_buffer = take (next_byte s) (out_buffer s) @ [b], out_bit_offset = 0\<rparr>" "b AND mask n = ucast i"
      using AppendBits_fills_byte [OF assms n_def ucast_below_mask(1) [OF True n]] by blast
    then show ?thesis
      using True n ucast_below_mask [OF True n] less_imp_neq [OF True]
      by (intro exI [of _ "[b]"])
        (simp add: AppendUint32_def DecodeNextUint32_def DecodeNextOctet_def PeekNextOctet_def Let_def
          mask_byte decode_loop_stop flip: n_def)
  next
    case False
    obtain b where b: "AppendBits (mask n) n s =
        \<lparr>out_buffer = take (next_byte s) (out_buffer s) @ [b], out_bit_offset = 0\<rparr>" "b AND mask n = mask n"
      using AppendBits_fills_byte [OF assms n_def, of "mask n"] by auto
    obtain bs j where l: "uint32_loop (i - mask n) = (bs, j)" by fastforce
    have d: "decode_loop True 0 (mask n) (\<lparr>max_string_literal_size = m, in_buffer = [], in_bit_offset = 0\<rparr>
          \<lparr>in_buffer := bs @ ucast j # rest\<rparr>) =
        (True, i, \<lparr>max_string_literal_size = m, in_buffer = rest, in_bit_offset = 0\<rparr>)"
      using unsigned_less [of "i - mask n", where 'a = nat]
      by (subst decode_uint32_loop [OF l]) simp_all
    show ?thesis
      using False n b l d
      by (intro exI [of _ "b # bs @ [ucast j]"])
        (simp add: AppendUint32_def DecodeNextUint32_def DecodeNextOctet_def PeekNextOctet_def Let_def
          AppendBits_def [of _ 8] mask_byte flip: n_def)
  qed
qed


text \<open>[C26]
  An integer survives its encoding: appended to an output stream at any bit offset, it fills the
  current byte, leaves the bytes before it alone and ends on a byte boundary; an input stream
  that stands at that offset of that byte reads the integer back, consumes exactly its bytes and
  stops at whatever follows them.
\<close>

theorem hpack_integer_roundtrip:
  assumes "output_ok s"
  shows "\<exists>bs. AppendUint32 i s = \<lparr>out_buffer = take (next_byte s) (out_buffer s) @ bs, out_bit_offset = 0\<rparr> \<and>
    DecodeNextUint32 \<lparr>max_string_literal_size = m, in_buffer = bs @ rest, in_bit_offset = out_bit_offset s\<rparr> =
      (True, i, \<lparr>max_string_literal_size = m, in_buffer = rest, in_bit_offset = 0\<rparr>)"
  using assms by (rule AppendUint32_DecodeNextUint32)

text \<open>[C26] 1337 after a prefix of three bits, the example of the specification of HPACK.\<close>

theorem hpack_integer_roundtrip_witness:
  "\<exists>bs. AppendUint32 1337 \<lparr>out_buffer = [0x20], out_bit_offset = 3\<rparr> =
      \<lparr>out_buffer = take 0 [0x20] @ bs, out_bit_offset = 0\<rparr> \<and>
    DecodeNextUint32 \<lparr>max_string_literal_size = 0, in_buffer = bs @ [7], in_bit_offset = 3\<rparr> =
      (True, 1337, \<lparr>max_string_literal_size = 0, in_buffer = [7], in_bit_offset = 0\<rparr>)"
  using hpack_integer_roundtrip [of "\<lparr>out_buffer = [0x20], out_bit_offset = 3\<rparr>" 1337 0 "[7]"]
  by (simp add: output_ok_def next_byte_def mask_eq_exp_minus_1)

section \<open>Every input\<close>

text \<open>
  The octets after a full prefix: all but the last have the top bit set, and the others are the digits of a
  number to the base 128, the lowest first.
\<close>

fun more_octets :: "uint8 list \<Rightarrow> bool" where
  "more_octets [] \<longleftrightarrow> False"
| "more_octets (b # bs) \<longleftrightarrow> (if b AND 0x80 \<noteq> 0 then more_octets bs else bs = [])"

fun octets_value :: "uint8 list \<Rightarrow> nat" where
  "octets_value [] = 0"
| "octets_value (b # bs) = unat (b AND 0x7F) + 128 * octets_value bs"

lemma seven_bits: "unat (b AND 0x7F :: uint8) < 128"
proof -
  have "unat (take_bit 7 b) < 2 ^ 7" unfolding unsigned_take_bit_eq by (rule take_bit_nat_less_exp)
  then show ?thesis by (simp add: take_bit_eq_mask mask_eq_exp_minus_1)
qed

lemma addend_fits:
  fixes x :: uint32
  assumes "sh < 32"
  shows "drop_bit sh (push_bit sh x) = x \<longleftrightarrow> 2 ^ sh * unat x < 2 ^ 32"
proof -
  have split: "(2::nat) ^ 32 = 2 ^ sh * 2 ^ (32 - sh)" using assms by (simp flip: power_add)
  have "unat x < 2 ^ (32 - sh)" if "drop_bit sh (push_bit sh x) = x"
  proof -
    have "unat (drop_bit sh (push_bit sh x)) = unat (push_bit sh x) div 2 ^ sh"
      unfolding unat_drop_bit_eq by (simp add: drop_bit_eq_div)
    also have "\<dots> < 2 ^ (32 - sh)"
      using unsigned_less [of "push_bit sh x", where 'a = nat] split by (simp add: less_mult_imp_div_less mult.commute)
    finally show ?thesis using that by simp
  qed
  moreover have "2 ^ sh * unat x < 2 ^ 32 \<longleftrightarrow> unat x < 2 ^ (32 - sh)" unfolding split by simp
  ultimately show ?thesis using drop_bit_push_bit_small [of x sh] by blast
qed

lemma more_octets_bound:
  assumes "more_octets (b # bs)" and "k + length (b # bs) \<le> 5"
  shows "2 ^ (7 * k) * octets_value (b # bs) < 2 ^ 32 \<longleftrightarrow>
    2 ^ (7 * k) * unat (b AND 0x7F) < (2 :: nat) ^ 32 \<and> 2 ^ (7 * Suc k) * octets_value bs < (2 :: nat) ^ 32"
proof (cases bs)
  case Nil
  then show ?thesis by simp
next
  case (Cons c cs)
  then have "k = 0 \<or> k = 1 \<or> k = 2 \<or> k = 3" using assms(2) by auto
  then show ?thesis using seven_bits [of b] by (elim disjE) (simp_all, linarith+)
qed

lemma ex_split_Cons:
  assumes "\<And>rest. \<not> Q [] rest"
  shows "(\<exists>bs rest. b # xs = bs @ rest \<and> Q bs rest) \<longleftrightarrow> (\<exists>bs rest. xs = bs @ rest \<and> Q (b # bs) rest)"
proof
  assume "\<exists>bs rest. b # xs = bs @ rest \<and> Q bs rest"
  then obtain bs rest where e: "b # xs = bs @ rest" "Q bs rest" by blast
  then obtain bs' where "bs = b # bs'" using assms by (cases bs) auto
  then show "\<exists>bs rest. xs = bs @ rest \<and> Q (b # bs) rest" using e by auto
next
  assume "\<exists>bs rest. xs = bs @ rest \<and> Q (b # bs) rest"
  then show "\<exists>bs rest. b # xs = bs @ rest \<and> Q bs rest" by (metis append_Cons)
qed

lemma decode_loop_value:
  assumes "in_bit_offset s = 0"
  shows "k \<le> 5 \<Longrightarrow> decode_loop True (7 * k) acc (s\<lparr>in_buffer := xs\<rparr>) = (True, v, s') \<longleftrightarrow>
    (\<exists>bs rest. xs = bs @ rest \<and> s' = s\<lparr>in_buffer := rest\<rparr> \<and> more_octets bs \<and> k + length bs \<le> 5 \<and>
       2 ^ (7 * k) * octets_value bs < (2 :: nat) ^ 32 \<and> v = acc + of_nat (2 ^ (7 * k) * octets_value bs))"
proof (induction xs arbitrary: k acc)
  case Nil
  then show ?case
    using assms by (subst decode_loop.simps) (auto simp: DecodeNextOctet_def PeekNextOctet_def)
next
  case (Cons b xs)
  show ?case
  proof (cases "k = 5")
    case True
    then show ?thesis by (subst decode_loop.simps) auto
  next
    case False
    then have k: "7 * k < 32" "Suc k \<le> 5" using Cons.prems by simp_all
    have u: "unat (ucast (b AND 0x7F) :: uint32) = unat (b AND 0x7F)" by (simp add: unsigned_ucast_eq take_bit_nat_eq_self order.strict_trans [OF unsigned_less])
    let ?o = "push_bit (7 * k) (ucast (b AND 0x7F)) :: uint32"
    have fits: "drop_bit (7 * k) ?o = ucast (b AND 0x7F) \<longleftrightarrow> 2 ^ (7 * k) * unat (b AND 0x7F) < 2 ^ 32"
      using addend_fits [OF k(1), of "ucast (b AND 0x7F)"] u by simp
    have o: "?o = of_nat (2 ^ (7 * k) * unat (b AND 0x7F))"
      unfolding u [symmetric] by (simp add: push_bit_eq_mult)
    have run: "decode_loop True (7 * k) acc (s\<lparr>in_buffer := b # xs\<rparr>) =
        (if 2 ^ (7 * k) * unat (b AND 0x7F) < (2 :: nat) ^ 32
         then decode_loop (b AND 0x80 \<noteq> 0) (7 * Suc k) (acc + ?o) (s\<lparr>in_buffer := xs\<rparr>)
         else (False, acc, s\<lparr>in_buffer := xs\<rparr>))"
      unfolding fits [symmetric] using k(1) assms
      by (subst decode_loop.simps) (simp add: DecodeNextOctet_def PeekNextOctet_def Let_def add.commute)
    show ?thesis
    proof (cases "b AND 0x80 \<noteq> 0")
      case True
      have sum: "2 ^ (7 * k) * octets_value (b # bs) =
          2 ^ (7 * k) * unat (b AND 0x7F) + 2 ^ (7 * Suc k) * octets_value bs" for bs
        by (simp add: power_add algebra_simps)
      have total: "acc + of_nat (2 ^ (7 * k) * octets_value (b # bs)) =
          (acc + ?o) + of_nat (2 ^ (7 * Suc k) * octets_value bs)" for bs
        unfolding sum o of_nat_add by (rule add.assoc [symmetric])
      have first: "more_octets bs \<and> Suc k + length bs \<le> 5 \<and> 2 ^ (7 * k) * octets_value (b # bs) < (2 :: nat) ^ 32 \<and>
            v = acc + of_nat (2 ^ (7 * k) * octets_value (b # bs)) \<longleftrightarrow>
          2 ^ (7 * k) * unat (b AND 0x7F) < (2 :: nat) ^ 32 \<and> more_octets bs \<and> Suc k + length bs \<le> 5 \<and>
            2 ^ (7 * Suc k) * octets_value bs < (2 :: nat) ^ 32 \<and>
            v = (acc + ?o) + of_nat (2 ^ (7 * Suc k) * octets_value bs)" for bs
        unfolding total using more_octets_bound [of b bs k] True by auto
      have "(\<exists>bs rest. b # xs = bs @ rest \<and> s' = s\<lparr>in_buffer := rest\<rparr> \<and> more_octets bs \<and> k + length bs \<le> 5 \<and>
          2 ^ (7 * k) * octets_value bs < (2 :: nat) ^ 32 \<and> v = acc + of_nat (2 ^ (7 * k) * octets_value bs)) \<longleftrightarrow>
        (\<exists>bs rest. xs = bs @ rest \<and> s' = s\<lparr>in_buffer := rest\<rparr> \<and> more_octets bs \<and> Suc k + length bs \<le> 5 \<and>
          2 ^ (7 * k) * octets_value (b # bs) < (2 :: nat) ^ 32 \<and> v = acc + of_nat (2 ^ (7 * k) * octets_value (b # bs)))"
        using True by (subst ex_split_Cons) simp_all
      also have "\<dots> \<longleftrightarrow> 2 ^ (7 * k) * unat (b AND 0x7F) < (2 :: nat) ^ 32 \<and>
        (\<exists>bs rest. xs = bs @ rest \<and> s' = s\<lparr>in_buffer := rest\<rparr> \<and> more_octets bs \<and> Suc k + length bs \<le> 5 \<and>
          2 ^ (7 * Suc k) * octets_value bs < (2 :: nat) ^ 32 \<and> v = (acc + ?o) + of_nat (2 ^ (7 * Suc k) * octets_value bs))"
        unfolding first by blast
      also have "\<dots> \<longleftrightarrow> decode_loop True (7 * k) acc (s\<lparr>in_buffer := b # xs\<rparr>) = (True, v, s')"
        using Cons.IH [OF k(2)] True by (simp add: run)
      finally show ?thesis by blast
    next
      case False
      then have "(\<exists>bs rest. b # xs = bs @ rest \<and> s' = s\<lparr>in_buffer := rest\<rparr> \<and> more_octets bs \<and> k + length bs \<le> 5 \<and>
          2 ^ (7 * k) * octets_value bs < (2 :: nat) ^ 32 \<and> v = acc + of_nat (2 ^ (7 * k) * octets_value bs)) \<longleftrightarrow>
        s' = s\<lparr>in_buffer := xs\<rparr> \<and> 2 ^ (7 * k) * unat (b AND 0x7F) < (2 :: nat) ^ 32 \<and> v = acc + ?o"
        using k(2) unfolding o by (subst ex_split_Cons) auto
      then show ?thesis using False by (auto simp: run decode_loop_stop)
    qed
  qed
qed

text \<open>
  The overflow check of the reader looks at each addend and not at the sum: an encoding of
  255 + (2^32 - 1) is accepted, and its value is 254.
\<close>

lemma hpack_integer_wraps:
  "DecodeNextUint32 (HpackInputStream m [0xFF, 0xFF, 0xFF, 0xFF, 0xFF, 0x0F]) =
     (True, 254, HpackInputStream m [])"
  by (simp add: DecodeNextUint32_def HpackInputStream_def DecodeNextOctet_def PeekNextOctet_def
      decode_loop.simps Let_def mask_eq_exp_minus_1)

text \<open>[C40]
  What the reader accepts and what it returns, for every stream at every bit offset. A prefix that is not full is the
  integer itself. After a full prefix come octets of seven bits, the lowest first, the last without the top bit; the
  reader accepts at most five of them, and only if their number is less than 2 to the 32. The value is that
  number plus the prefix modulo 2 to the 32: the check for overflow does not look at this addition.
  It consumes exactly these octets; anything else, the end of the buffer included, is refused.
\<close>

theorem hpack_integer_value:
  fixes s :: hpack_input_stream
  defines "full \<equiv> mask (8 - in_bit_offset s) :: uint8"
  shows "DecodeNextUint32 s = (True, v, s') \<longleftrightarrow>
    (\<exists>b bs rest. in_buffer s = b # bs @ rest \<and> s' = s\<lparr>in_bit_offset := 0, in_buffer := rest\<rparr> \<and>
       (if b AND full \<noteq> full then bs = [] \<and> v = ucast (b AND full)
        else more_octets bs \<and> length bs \<le> 5 \<and> octets_value bs < 2 ^ 32 \<and>
          unat v = (unat full + octets_value bs) mod 2 ^ 32))"
proof (cases "in_buffer s")
  case Nil
  then show ?thesis by (simp add: DecodeNextUint32_def DecodeNextOctet_def PeekNextOctet_def Let_def)
next
  case (Cons b xs)
  let ?s = "s\<lparr>in_bit_offset := 0, in_buffer := xs\<rparr>"
  have up: "unat (ucast (c :: uint8) :: uint32) = unat c" for c
    by (simp add: unsigned_ucast_eq take_bit_nat_eq_self order.strict_trans [OF unsigned_less])
  then have eq: "ucast (c :: uint8) = (ucast d :: uint32) \<longleftrightarrow> c = d" for c d by (metis unsigned_word_eqI)
  have run: "DecodeNextUint32 s = decode_loop (b AND full = full) 0 (ucast (b AND full)) ?s"
    using Cons by (simp add: DecodeNextUint32_def DecodeNextOctet_def PeekNextOctet_def Let_def full_def eq)
  show ?thesis
  proof (cases "b AND full = full")
    case False
    then show ?thesis using Cons by (auto simp: run decode_loop_stop)
  next
    case True
    have wrap: "v = ucast full + of_nat n \<longleftrightarrow> unat v = (unat full + n) mod 2 ^ 32" for n
    proof -
      have "unat (ucast full + of_nat n :: uint32) = (unat full + n) mod 2 ^ 32"
        by (simp add: unat_word_ariths(1) unat_of_nat up mod_add_right_eq)
      then show ?thesis by (metis unsigned_word_eqI)
    qed
    have "DecodeNextUint32 s = (True, v, s') \<longleftrightarrow>
        (\<exists>bs rest. xs = bs @ rest \<and> s' = s\<lparr>in_bit_offset := 0, in_buffer := rest\<rparr> \<and> more_octets bs \<and> length bs \<le> 5 \<and>
           octets_value bs < 2 ^ 32 \<and> v = ucast full + of_nat (octets_value bs))"
      using decode_loop_value [of "s\<lparr>in_bit_offset := 0\<rparr>" 0 "ucast full" xs v s'] True by (simp add: run)
    then show ?thesis unfolding wrap using Cons True by auto
  qed
qed

end
