(* ===== verification/Hpack_Huffman_Table.thy ===== *)
theory Hpack_Huffman_Table
  imports Hpack_Stream "HOL-Library.Monad_Syntax" "HOL-Library.Product_Lexorder"
begin

text \<open>
  \<open>net/spdy/hpack/hpack_huffman_table.{h,cc}\<close>: the canonical Huffman code of HPACK, the multilevel
  tables that decode it, and the coding of strings. Lengths, ids and indices are naturals; the
  shifts of the source are defined for lengths from 1 to 32. The result \<open>None\<close> of an operation is the
  failure of a \<open>CHECK\<close>, of a \<open>DCHECK\<close> or of an access to a vector, or a loop that does not end.
\<close>

section \<open>Symbols and tables\<close>

text \<open>A code is stored in the most significant bits of its word.\<close>

record huffman_symbol =
  sym_code :: uint32
  sym_length :: nat
  sym_id :: nat

definition kDecodeTableRootBits :: nat where "kDecodeTableRootBits = 9"
definition kDecodeTableBranchBits :: nat where "kDecodeTableBranchBits = 6"

record decode_entry =
  next_table_index :: nat
  entry_length :: nat
  symbol_id :: nat

definition DecodeEntry :: decode_entry where
  "DecodeEntry = \<lparr>next_table_index = 0, entry_length = 0, symbol_id = 0\<rparr>"

record decode_table =
  prefix_length :: nat
  indexed_length :: nat
  entries_offset :: nat

definition DecodeTable_size :: "decode_table \<Rightarrow> nat" where
  "DecodeTable_size table = 2 ^ indexed_length table"

record huffman_table =
  decode_tables :: "decode_table list"
  decode_entries :: "decode_entry list"
  code_by_id :: "uint32 list"
  length_by_id :: "nat list"
  pad_bits :: uint8
  failed_symbol_id :: nat

definition HpackHuffmanTable :: huffman_table where
  "HpackHuffmanTable =
     \<lparr>decode_tables = [], decode_entries = [], code_by_id = [], length_by_id = [], pad_bits = 0,
      failed_symbol_id = 0\<rparr>"

definition IsInitialized :: "huffman_table \<Rightarrow> bool" where
  "IsInitialized t \<longleftrightarrow> code_by_id t \<noteq> []"

section \<open>Building the tables\<close>

definition AddDecodeTable :: "nat \<Rightarrow> nat \<Rightarrow> huffman_table \<Rightarrow> (nat \<times> huffman_table) option" where
  "AddDecodeTable prefix indexed t =
     (if length (decode_tables t) < 255
      then
        (let table = \<lparr>prefix_length = prefix, indexed_length = indexed,
                      entries_offset = length (decode_entries t)\<rparr>;
             t = t\<lparr>decode_tables := decode_tables t @ [table],
                   decode_entries := decode_entries t @ replicate (2 ^ indexed) DecodeEntry\<rparr>
         in Some (length (decode_tables t) - 1, t))
      else None)"

definition Entry :: "decode_table \<Rightarrow> nat \<Rightarrow> huffman_table \<Rightarrow> decode_entry option" where
  "Entry table index t =
     (if index < DecodeTable_size table \<and> entries_offset table + index < length (decode_entries t)
      then Some (decode_entries t ! (entries_offset table + index))
      else None)"

definition SetEntry :: "decode_table \<Rightarrow> nat \<Rightarrow> decode_entry \<Rightarrow> huffman_table \<Rightarrow> huffman_table option" where
  "SetEntry table index entry t =
     (if index < DecodeTable_size table \<and> entries_offset table + index < length (decode_entries t)
      then Some (t\<lparr>decode_entries := (decode_entries t)[entries_offset table + index := entry]\<rparr>)
      else None)"

definition get_table :: "nat \<Rightarrow> huffman_table \<Rightarrow> decode_table option" where
  "get_table i t = (if i < length (decode_tables t) then Some (decode_tables t ! i) else None)"

text \<open>The portion of a code that a table indexes, shifted into the low bits.\<close>

definition table_index_of :: "uint32 \<Rightarrow> decode_table \<Rightarrow> nat" where
  "table_index_of code table =
     unat (drop_bit (32 - indexed_length table) (push_bit (prefix_length table) code))"

text \<open>The inner loop of \<open>BuildDecodeTables\<close>: from the root down to the entry of one symbol.\<close>

partial_function (option) place_symbol ::
    "huffman_symbol \<Rightarrow> nat \<Rightarrow> huffman_table \<Rightarrow> huffman_table option" where
  "place_symbol it table_index t =
     do {
       table \<leftarrow> get_table table_index t;
       let index = table_index_of (sym_code it) table;
       entry \<leftarrow> Entry table index t;
       let total_indexed = prefix_length table + indexed_length table;
       if total_indexed \<ge> sym_length it
       then SetEntry table index
              (entry\<lparr>entry_length := sym_length it, symbol_id := sym_id it, next_table_index := table_index\<rparr>) t
       else if entry_length entry = 0
       then
         if next_table_index entry \<noteq> 0 then None
         else do {
           (new_table, t) \<leftarrow> AddDecodeTable total_indexed
              (min kDecodeTableBranchBits (sym_length it - total_indexed)) t;
           t \<leftarrow> SetEntry table index (entry\<lparr>entry_length := sym_length it, next_table_index := new_table\<rparr>) t;
           if new_table = table_index then None else place_symbol it new_table t
         }
       else if next_table_index entry = table_index then None
       else place_symbol it (next_table_index entry) t
     }"

fun place_symbols :: "huffman_symbol list \<Rightarrow> huffman_table \<Rightarrow> huffman_table option" where
  "place_symbols [] t = Some t"
| "place_symbols (it # its) t = do { t \<leftarrow> place_symbol it 0 t; place_symbols its t }"

text \<open>The two inner loops that copy a short entry into the spots after it.\<close>

fun fill_copies :: "decode_table \<Rightarrow> nat \<Rightarrow> nat list \<Rightarrow> decode_entry \<Rightarrow> huffman_table \<Rightarrow> huffman_table option" where
  "fill_copies table j [] entry t = Some t"
| "fill_copies table j (k # ks) entry t =
     do {
       e \<leftarrow> Entry table (j + k) t;
       if entry_length e \<noteq> 0 then None
       else do { t \<leftarrow> SetEntry table (j + k) entry t; fill_copies table j ks entry t }
     }"

partial_function (option) fill_table :: "decode_table \<Rightarrow> nat \<Rightarrow> huffman_table \<Rightarrow> huffman_table option" where
  "fill_table table j t =
     (if j = DecodeTable_size table then Some t
      else do {
        entry \<leftarrow> Entry table j t;
        let total_indexed = prefix_length table + indexed_length table;
        if entry_length entry \<noteq> 0 \<and> entry_length entry < total_indexed
        then
          (let fill_count = 2 ^ (total_indexed - entry_length entry)
           in if j + fill_count > DecodeTable_size table then None
              else do {
                t \<leftarrow> fill_copies table j [1..<fill_count] entry t;
                fill_table table (j + fill_count) t
              })
        else fill_table table (j + 1) t
      })"

fun fill_tables :: "decode_table list \<Rightarrow> huffman_table \<Rightarrow> huffman_table option" where
  "fill_tables [] t = Some t"
| "fill_tables (table # tables) t = do { t \<leftarrow> fill_table table 0 t; fill_tables tables t }"

definition BuildDecodeTables :: "huffman_symbol list \<Rightarrow> huffman_table \<Rightarrow> huffman_table option" where
  "BuildDecodeTables symbols t =
     do {
       (_, t) \<leftarrow> AddDecodeTable 0 kDecodeTableRootBits t;
       t \<leftarrow> place_symbols (rev symbols) t;
       fill_tables (decode_tables t) t
     }"

fun encode_loop :: "nat \<Rightarrow> huffman_symbol list \<Rightarrow> huffman_table \<Rightarrow> huffman_table option" where
  "encode_loop i [] t = Some t"
| "encode_loop i (symbol # symbols) t =
     (if i = sym_id symbol
      then encode_loop (i + 1) symbols
             (t\<lparr>code_by_id := code_by_id t @ [sym_code symbol], length_by_id := length_by_id t @ [sym_length symbol]\<rparr>)
      else None)"

definition BuildEncodeTable :: "huffman_symbol list \<Rightarrow> huffman_table \<Rightarrow> huffman_table option" where
  "BuildEncodeTable symbols t = encode_loop 0 symbols t"

text \<open>The first position at which the symbol ids are not the sequence 0, 1, \<dots>.\<close>

fun bad_id :: "nat \<Rightarrow> huffman_symbol list \<Rightarrow> nat option" where
  "bad_id i [] = None"
| "bad_id i (s # ss) = (if i \<noteq> sym_id s then Some i else bad_id (i + 1) ss)"

text \<open>The first symbol whose code is not canonical.\<close>

fun bad_code :: "huffman_symbol list \<Rightarrow> nat option" where
  "bad_code (a # b # ss) =
     (let code_shift = 32 - sym_length a;
          code = sym_code a + push_bit code_shift 1
      in if code \<noteq> sym_code b then Some (sym_id b)
         else if code < sym_code a then Some (sym_id b)
         else bad_code (b # ss))"
| "bad_code _ = None"

definition SymbolLengthAndIdKey :: "huffman_symbol \<Rightarrow> nat \<times> nat" where
  "SymbolLengthAndIdKey s = (sym_length s, sym_id s)"

text \<open>
  The result is the returned value and the table; \<open>None\<close> is the failure of a \<open>CHECK\<close>, a \<open>DCHECK\<close> or an
  access outside of a vector.
\<close>

definition HuffmanTable_Initialize ::
    "huffman_symbol list \<Rightarrow> huffman_table \<Rightarrow> (bool \<times> huffman_table) option" where
  "HuffmanTable_Initialize input_symbols t =
     (if IsInitialized t \<or> \<not> length input_symbols < 2 ^ 16 then None
      else
        (case bad_id 0 input_symbols of
           Some i \<Rightarrow> Some (False, t\<lparr>failed_symbol_id := i\<rparr>)
         | None \<Rightarrow>
             (let symbols = sort_key SymbolLengthAndIdKey input_symbols
              in if symbols = [] then None
                 else if sym_code (hd symbols) \<noteq> 0 then Some (False, t\<lparr>failed_symbol_id := 0\<rparr>)
                 else
                   (case bad_code symbols of
                      Some i \<Rightarrow> Some (False, t\<lparr>failed_symbol_id := i\<rparr>)
                    | None \<Rightarrow>
                        if sym_length (last symbols) < 8 then Some (False, t)
                        else
                          do {
                            let t = t\<lparr>pad_bits := ucast (drop_bit 24 (sym_code (last symbols)))\<rparr>;
                            t \<leftarrow> BuildDecodeTables symbols t;
                            t \<leftarrow> BuildEncodeTable (sort_key sym_id symbols) t;
                            Some (True, t)
                          }))))"


section \<open>Encoding\<close>

definition append_code :: "uint32 \<Rightarrow> nat \<Rightarrow> hpack_output_stream \<Rightarrow> hpack_output_stream" where
  "append_code code len out =
     (let (out, len) = (if len > 24 then (AppendBits (ucast (drop_bit 24 code)) (len - 24) out, 24) else (out, len));
          (out, len) = (if len > 16 then (AppendBits (ucast (drop_bit 16 code)) (len - 16) out, 16) else (out, len));
          (out, len) = (if len > 8 then (AppendBits (ucast (drop_bit 8 code)) (len - 8) out, 8) else (out, len))
      in AppendBits (ucast code) len out)"

fun encode_symbols ::
    "huffman_table \<Rightarrow> uint8 list \<Rightarrow> nat \<Rightarrow> hpack_output_stream \<Rightarrow> (nat \<times> hpack_output_stream) option" where
  "encode_symbols t [] bit_remnant out = Some (bit_remnant, out)"
| "encode_symbols t (c # cs) bit_remnant out =
     (let symbol_id = unat c
      in if \<not> length (code_by_id t) > symbol_id then None
         else
           (let len = length_by_id t ! symbol_id;
                code = drop_bit (32 - len) (code_by_id t ! symbol_id)
            in encode_symbols t cs ((bit_remnant + len) mod 8) (append_code code len out)))"

definition EncodeString ::
    "huffman_table \<Rightarrow> uint8 list \<Rightarrow> hpack_output_stream \<Rightarrow> hpack_output_stream option" where
  "EncodeString t s out =
     do {
       (bit_remnant, out) \<leftarrow> encode_symbols t s 0 out;
       Some (if bit_remnant \<noteq> 0 then AppendBits (drop_bit bit_remnant (pad_bits t)) (8 - bit_remnant) out
             else out)
     }"

fun count_bits :: "huffman_table \<Rightarrow> uint8 list \<Rightarrow> nat \<Rightarrow> nat option" where
  "count_bits t [] bit_count = Some bit_count"
| "count_bits t (c # cs) bit_count =
     (let symbol_id = unat c
      in if \<not> length (code_by_id t) > symbol_id then None
         else count_bits t cs (bit_count + length_by_id t ! symbol_id))"

definition EncodedSize :: "huffman_table \<Rightarrow> uint8 list \<Rightarrow> nat option" where
  "EncodedSize t s =
     do {
       bit_count \<leftarrow> count_bits t s 0;
       let bit_count = (if bit_count mod 8 \<noteq> 0 then bit_count + (8 - bit_count mod 8) else bit_count);
       Some (bit_count div 8)
     }"

section \<open>Decoding\<close>

text \<open>\<open>ceil((32.f - kDecodeTableRootBits) / kDecodeTableBranchBits)\<close>\<close>

definition kDecodeIterations :: nat where
  "kDecodeIterations =
     (32 - kDecodeTableRootBits + (kDecodeTableBranchBits - 1)) div kDecodeTableBranchBits"

fun descend ::
    "nat \<Rightarrow> uint32 \<Rightarrow> decode_table \<Rightarrow> nat \<Rightarrow> huffman_table \<Rightarrow> (decode_table \<times> nat) option" where
  "descend 0 code table index t = Some (table, index)"
| "descend (Suc n) code table index t =
     do {
       e \<leftarrow> Entry table index t;
       table \<leftarrow> get_table (next_table_index e) t;
       descend n code table (table_index_of code table) t
     }"

definition lookup_entry :: "uint32 \<Rightarrow> huffman_table \<Rightarrow> decode_entry option" where
  "lookup_entry code t =
     do {
       table \<leftarrow> get_table 0 t;
       (table, index) \<leftarrow>
          descend kDecodeIterations code table (unat (drop_bit (32 - kDecodeTableRootBits) code)) t;
       Entry table index t
     }"

text \<open>\<open>PeekBits\<close> and \<open>ConsumeBits\<close> with their \<open>CHECK\<close>s.\<close>

definition checked_PeekBits ::
    "nat \<Rightarrow> uint32 \<Rightarrow> hpack_input_stream \<Rightarrow> (bool \<times> nat \<times> uint32) option" where
  "checked_PeekBits peeked_count out s =
     (if PeekBits_check peeked_count out s then Some (PeekBits peeked_count out s) else None)"

definition checked_ConsumeBits :: "nat \<Rightarrow> hpack_input_stream \<Rightarrow> hpack_input_stream option" where
  "checked_ConsumeBits n s = (if ConsumeBits_check n s then Some (ConsumeBits n s) else None)"

text \<open>The loop of \<open>DecodeString\<close>: whether the string is well-formed, and the string.\<close>

partial_function (option) decode_symbols ::
    "huffman_table \<Rightarrow> nat \<Rightarrow> bool \<Rightarrow> nat \<Rightarrow> uint32 \<Rightarrow> hpack_input_stream \<Rightarrow> uint8 list \<Rightarrow>
     (bool \<times> uint8 list \<times> hpack_input_stream) option" where
  "decode_symbols t out_capacity peeked_success bits_available code s out =
     do {
       entry \<leftarrow> lookup_entry code t;
       if entry_length entry > bits_available
       then
         if \<not> peeked_success
         then
           (let n = (if in_bit_offset s \<noteq> 0 then 8 - in_bit_offset s else 0)
            in if \<not> ConsumeBits_check n s then None
               else (let s = ConsumeByteRemainder s in Some (\<not> HasMoreData s, out, s)))
         else do {
           (peeked_success, bits_available, code) \<leftarrow> checked_PeekBits bits_available code s;
           decode_symbols t out_capacity peeked_success bits_available code s out
         }
       else if entry_length entry = 0 then Some (False, out, s)
       else if length out = out_capacity then Some (False, out, s)
       else do {
         let out = (if symbol_id entry < 256 then out @ [of_nat (symbol_id entry)] else out);
         s \<leftarrow> checked_ConsumeBits (entry_length entry) s;
         let code = push_bit (entry_length entry) code;
         let bits_available = bits_available - entry_length entry;
         (peeked_success, bits_available, code) \<leftarrow> checked_PeekBits bits_available code s;
         decode_symbols t out_capacity peeked_success bits_available code s out
       }
     }"

definition DecodeString ::
    "huffman_table \<Rightarrow> hpack_input_stream \<Rightarrow> nat \<Rightarrow> (bool \<times> uint8 list \<times> hpack_input_stream) option" where
  "DecodeString t s out_capacity =
     do {
       (peeked_success, bits_available, code) \<leftarrow> checked_PeekBits 0 0 s;
       decode_symbols t out_capacity peeked_success bits_available code s []
     }"

text \<open>\<open>HpackInputStream::DecodeNextHuffmanString\<close>.\<close>

definition DecodeNextHuffmanString ::
    "huffman_table \<Rightarrow> hpack_input_stream \<Rightarrow> (uint8 list option \<times> hpack_input_stream) option" where
  "DecodeNextHuffmanString table s =
     (case DecodeNextUint32 s of
        (False, _, s) \<Rightarrow> Some (None, s)
      | (True, encoded_size, s) \<Rightarrow>
          if unat encoded_size > length (in_buffer s) then Some (None, s)
          else
            (let bounded_reader = HpackInputStream (max_string_literal_size s) (take (unat encoded_size) (in_buffer s));
                 s = s\<lparr>in_buffer := drop (unat encoded_size) (in_buffer s)\<rparr>
             in do {
                  (ok, str, _) \<leftarrow> DecodeString table bounded_reader (unat (max_string_literal_size s));
                  Some (if ok then Some str else None, s)
                }))"

end
