(* ===== verification/Hpack_Huffman_Build.thy ===== *)
theory Hpack_Huffman_Build
  imports Hpack_Huffman_Table "HOL-Library.Multiset"
begin

text \<open>
  Correctness of \<open>HpackHuffmanTable::Initialize\<close>: for a canonical code the construction of the decode
  tables fails no \<open>CHECK\<close> as long as it makes fewer than 255 tables, and the tables then send every
  32-bit window that starts with the code of a symbol to the entry of that symbol.
\<close>

section \<open>Prefixes of codes\<close>

text \<open>The first \<open>n\<close> bits of a 32-bit number.\<close>

definition topb :: "nat \<Rightarrow> nat \<Rightarrow> nat" where
  "topb n x = x div 2 ^ (32 - n)"

lemma top_top: "m \<le> n \<Longrightarrow> n \<le> 32 \<Longrightarrow> topb m x = topb n x div 2 ^ (n - m)"
  by (simp add: topb_def div_mult2_eq [symmetric] power_add [symmetric])

lemma top_less: "x < 2 ^ 32 \<Longrightarrow> n \<le> 32 \<Longrightarrow> topb n x < 2 ^ n"
  unfolding topb_def by (rule less_mult_imp_div_less) (simp add: power_add [symmetric])

lemma top_0 [simp]: "x < 2 ^ 32 \<Longrightarrow> topb 0 x = 0"
  by (simp add: topb_def)

lemma top_eq_mono: "m \<le> n \<Longrightarrow> n \<le> 32 \<Longrightarrow> topb n x = topb n y \<Longrightarrow> topb m x = topb m y"
  by (metis top_top)

lemma table_index_of_top:
  assumes "prefix_length t + indexed_length t \<le> 32" and "0 < indexed_length t"
  shows "table_index_of code t = topb (prefix_length t + indexed_length t) (unat code) mod 2 ^ indexed_length t"
proof -
  let ?p = "prefix_length t" and ?n = "indexed_length t"
  have e: "(2::nat) ^ 32 = 2 ^ ?p * 2 ^ (32 - ?p)" "(2::nat) ^ (32 - ?n) = 2 ^ ?p * 2 ^ (32 - (?p + ?n))"
    "(2::nat) ^ (32 - ?p) = 2 ^ (32 - (?p + ?n)) * 2 ^ ?n"
    using assms(1) by (simp_all add: power_add [symmetric])
  have "table_index_of code t = unat (push_bit ?p code) div 2 ^ (32 - ?n)"
    unfolding table_index_of_def unat_drop_bit_eq by (simp only: drop_bit_eq_div)
  also have "unat (push_bit ?p code) = (2 ^ ?p * unat code) mod 2 ^ 32"
    unfolding unsigned_push_bit_eq by (simp add: push_bit_eq_mult take_bit_eq_mod mult.commute)
  also have "\<dots> = 2 ^ ?p * (unat code mod 2 ^ (32 - ?p))"
    unfolding e(1) by (rule mult_mod_right [symmetric])
  also have "\<dots> div 2 ^ (32 - ?n) = unat code mod 2 ^ (32 - ?p) div 2 ^ (32 - (?p + ?n))"
    unfolding e(2) by simp
  also have "\<dots> = unat code div 2 ^ (32 - (?p + ?n)) mod 2 ^ ?n"
    unfolding e(3) by (simp add: mod_mult2_eq)
  finally show ?thesis by (simp add: topb_def)
qed

lemma root_index: "unat (drop_bit 23 (code :: uint32)) = topb 9 (unat code)"
  unfolding unat_drop_bit_eq by (simp add: topb_def drop_bit_eq_div)

text \<open>A set of symbols whose codes are aligned, and none of which is a prefix of another.\<close>

abbreviation lo :: "huffman_symbol \<Rightarrow> nat" where "lo s \<equiv> unat (sym_code s)"
abbreviation len :: "huffman_symbol \<Rightarrow> nat" where "len s \<equiv> sym_length s"

lemma lo_less [simp]: "lo s < 2 ^ 32"
  using unsigned_less [of "sym_code s", where 'a = nat] by simp

definition prefix_code :: "huffman_symbol set \<Rightarrow> bool" where
  "prefix_code S \<longleftrightarrow>
     (\<forall>s \<in> S. 0 < len s \<and> len s \<le> 32 \<and> 2 ^ (32 - len s) dvd lo s) \<and>
     (\<forall>s \<in> S. \<forall>s' \<in> S. len s \<le> len s' \<longrightarrow> topb (len s) (lo s') = topb (len s) (lo s) \<longrightarrow> s = s')"

lemma prefix_codeD:
  assumes "prefix_code S" and "s \<in> S"
  shows "0 < len s" "len s \<le> 32" "2 ^ (32 - len s) dvd lo s"
  using assms by (simp_all add: prefix_code_def)

text \<open>Two symbols that share a prefix as long as the shorter of them are equal.\<close>

lemma prefix_code_unique:
  assumes "prefix_code S" and "s \<in> S" and "s' \<in> S" and "len s \<le> n" and "n \<le> 32"
    and "topb n (lo s) = topb n (lo s')"
  shows "s = s'"
proof (cases "len s \<le> len s'")
  case True
  then show ?thesis
    using assms(1-3) top_eq_mono [OF assms(4,5,6)] by (simp add: prefix_code_def)
next
  case False
  then have "len s' \<le> n" using assms(4) by simp
  then show ?thesis
    using False assms(1-3) top_eq_mono [OF _ assms(5,6)] unfolding prefix_code_def by (metis nle_le)
qed

lemma top_aligned:
  assumes "len s \<le> n" and "n \<le> 32" and "2 ^ (32 - len s) dvd lo s"
  shows "topb n (lo s) = topb (len s) (lo s) * 2 ^ (n - len s)"
proof -
  have e: "(2::nat) ^ (32 - len s) = 2 ^ (32 - n) * 2 ^ (n - len s)"
    using assms(1,2) by (simp add: power_add [symmetric])
  obtain k where "lo s = 2 ^ (32 - len s) * k" using assms(3) by blast
  then show ?thesis unfolding topb_def e by simp
qed


section \<open>The tables while they are built\<close>

text \<open>The geometry of the tables: their slices of the entry vector do not overlap.\<close>

abbreviation tbl :: "huffman_table \<Rightarrow> nat \<Rightarrow> decode_table" where "tbl t i \<equiv> decode_tables t ! i"
abbreviation ntables :: "huffman_table \<Rightarrow> nat" where "ntables t \<equiv> length (decode_tables t)"
abbreviation pre :: "huffman_table \<Rightarrow> nat \<Rightarrow> nat" where "pre t i \<equiv> prefix_length (tbl t i)"
abbreviation tot :: "huffman_table \<Rightarrow> nat \<Rightarrow> nat" where
  "tot t i \<equiv> prefix_length (tbl t i) + indexed_length (tbl t i)"
abbreviation cells :: "huffman_table \<Rightarrow> nat \<Rightarrow> nat" where "cells t i \<equiv> 2 ^ indexed_length (tbl t i)"

definition ent :: "huffman_table \<Rightarrow> nat \<Rightarrow> nat \<Rightarrow> decode_entry" where
  "ent t i j = decode_entries t ! (entries_offset (tbl t i) + j)"

definition shape :: "huffman_table \<Rightarrow> bool" where
  "shape t \<longleftrightarrow>
     0 < ntables t \<and> tbl t 0 = \<lparr>prefix_length = 0, indexed_length = 9, entries_offset = 0\<rparr> \<and>
     (\<forall>i < ntables t. 0 < indexed_length (tbl t i) \<and> tot t i \<le> 32 \<and>
        entries_offset (tbl t i) + cells t i \<le> length (decode_entries t)) \<and>
     (\<forall>i k. i < k \<longrightarrow> k < ntables t \<longrightarrow> entries_offset (tbl t i) + cells t i \<le> entries_offset (tbl t k))"

lemma shapeD:
  assumes "shape t" and "i < ntables t"
  shows "0 < indexed_length (tbl t i)" "tot t i \<le> 32"
    "entries_offset (tbl t i) + cells t i \<le> length (decode_entries t)"
  using assms by (simp_all add: shape_def)

lemma shape_root:
  assumes "shape t"
  shows "0 < ntables t" "pre t 0 = 0" "indexed_length (tbl t 0) = 9" "entries_offset (tbl t 0) = 0"
  using assms by (simp_all add: shape_def)

lemma get_table_shape: "i < ntables t \<Longrightarrow> get_table i t = Some (tbl t i)"
  by (simp add: get_table_def)

lemma Entry_shape:
  assumes "shape t" and "i < ntables t" and "j < cells t i"
  shows "Entry (tbl t i) j t = Some (ent t i j)"
  using assms shapeD(3) [OF assms(1,2)] by (simp add: Entry_def DecodeTable_size_def ent_def)

text \<open>What \<open>SetEntry\<close> does to the entries of all tables.\<close>

definition with_entry :: "nat \<Rightarrow> nat \<Rightarrow> decode_entry \<Rightarrow> huffman_table \<Rightarrow> huffman_table" where
  "with_entry i j e t = t\<lparr>decode_entries := (decode_entries t)[entries_offset (tbl t i) + j := e]\<rparr>"

lemma SetEntry_shape:
  assumes "shape t" and "i < ntables t" and "j < cells t i"
  shows "SetEntry (tbl t i) j e t = Some (with_entry i j e t)"
  using assms shapeD(3) [OF assms(1,2)] by (simp add: SetEntry_def DecodeTable_size_def with_entry_def)

lemma with_entry_tables [simp]: "decode_tables (with_entry i j e t) = decode_tables t"
  by (simp add: with_entry_def)

lemma shape_with_entry [simp]: "shape (with_entry i j e t) = shape t"
  by (simp add: shape_def with_entry_def)

lemma cells_apart:
  assumes "shape t" and "i < ntables t" and "k < ntables t" and "j < cells t i" and "l < cells t k"
  shows "entries_offset (tbl t i) + j = entries_offset (tbl t k) + l \<longleftrightarrow> i = k \<and> j = l"
proof -
  have "i < k \<Longrightarrow> entries_offset (tbl t i) + cells t i \<le> entries_offset (tbl t k)"
    "k < i \<Longrightarrow> entries_offset (tbl t k) + cells t k \<le> entries_offset (tbl t i)"
    using assms by (simp_all add: shape_def)
  then show ?thesis using assms(4,5) by (cases i k rule: linorder_cases) auto
qed

lemma ent_with_entry:
  assumes "shape t" and "i < ntables t" and "k < ntables t" and "j < cells t i" and "l < cells t k"
  shows "ent (with_entry i j e t) k l = (if i = k \<and> j = l then e else ent t k l)"
  using cells_apart [OF assms] shapeD(3) [OF assms(1,2)] assms(4)
  by (auto simp: ent_def with_entry_def nth_list_update)

text \<open>What \<open>AddDecodeTable\<close> does to them.\<close>

definition with_table :: "nat \<Rightarrow> nat \<Rightarrow> huffman_table \<Rightarrow> huffman_table" where
  "with_table p n t =
     t\<lparr>decode_tables := decode_tables t @
         [\<lparr>prefix_length = p, indexed_length = n, entries_offset = length (decode_entries t)\<rparr>],
       decode_entries := decode_entries t @ replicate (2 ^ n) DecodeEntry\<rparr>"

lemma AddDecodeTable_eq:
  "ntables t < 255 \<Longrightarrow> AddDecodeTable p n t = Some (ntables t, with_table p n t)"
  by (simp add: AddDecodeTable_def with_table_def Let_def)

lemma ntables_with_table [simp]: "ntables (with_table p n t) = Suc (ntables t)"
  by (simp add: with_table_def)

lemma tbl_with_table [simp]:
  "i < ntables t \<Longrightarrow> tbl (with_table p n t) i = tbl t i"
  "tbl (with_table p n t) (ntables t) =
     \<lparr>prefix_length = p, indexed_length = n, entries_offset = length (decode_entries t)\<rparr>"
  by (simp_all add: with_table_def nth_append)

lemma shape_with_table:
  assumes "shape t" and "0 < n" and "p + n \<le> 32"
  shows "shape (with_table p n t)"
proof -
  have l: "length (decode_entries (with_table p n t)) = length (decode_entries t) + 2 ^ n"
    by (simp add: with_table_def)
  show ?thesis
    unfolding shape_def ntables_with_table l
  proof (intro conjI allI impI)
    fix i assume "i < Suc (ntables t)"
    then consider "i < ntables t" | "i = ntables t" by linarith
    then show "0 < indexed_length (tbl (with_table p n t) i)" "tot (with_table p n t) i \<le> 32"
      "entries_offset (tbl (with_table p n t) i) + cells (with_table p n t) i \<le> length (decode_entries t) + 2 ^ n"
      using shapeD [OF assms(1), of i] assms(2,3) by (cases; fastforce)+
  next
    fix i k assume "i < k" "k < Suc (ntables t)"
    then consider "k < ntables t" "i < ntables t" | "k = ntables t" "i < ntables t" by linarith
    then show "entries_offset (tbl (with_table p n t) i) + cells (with_table p n t) i
        \<le> entries_offset (tbl (with_table p n t) k)"
      using assms(1) \<open>i < k\<close> shapeD(3) [OF assms(1), of i] by cases (simp_all add: shape_def)
  qed (use assms(1) in \<open>simp_all add: shape_def\<close>)
qed

lemma ent_with_table:
  assumes "shape t"
  shows "i < ntables t \<Longrightarrow> j < cells t i \<Longrightarrow> ent (with_table p n t) i j = ent t i j"
    "j < 2 ^ n \<Longrightarrow> ent (with_table p n t) (ntables t) j = DecodeEntry"
  using shapeD(3) [OF assms, of i] by (simp_all add: ent_def with_table_def nth_append)

section \<open>The invariant of the construction\<close>

text \<open>
  Table \<open>i\<close> decodes the codes that start with the \<open>pre t i\<close> bits \<open>qs ! i\<close>, and its cell \<open>j\<close> those that
  start with the \<open>tot t i\<close> bits \<open>cell_no t qs i j\<close>. While the symbol \<open>s\<close> is placed, \<open>D\<close> is the set of
  symbols placed before and \<open>p\<close> the number of bits of the code of \<open>s\<close> consumed so far.
\<close>

definition cell_no :: "huffman_table \<Rightarrow> nat list \<Rightarrow> nat \<Rightarrow> nat \<Rightarrow> nat" where
  "cell_no t qs i j = qs ! i * cells t i + j"

definition empty_cell :: "huffman_table \<Rightarrow> nat list \<Rightarrow> huffman_symbol set \<Rightarrow> nat \<Rightarrow> nat \<Rightarrow> bool" where
  "empty_cell t qs E i j \<longleftrightarrow>
     ent t i j = DecodeEntry \<and> (\<forall>s \<in> E. topb (tot t i) (lo s) \<noteq> cell_no t qs i j)"

definition leaf_cell :: "huffman_table \<Rightarrow> nat list \<Rightarrow> huffman_symbol \<Rightarrow> nat \<Rightarrow> nat \<Rightarrow> bool" where
  "leaf_cell t qs s i j \<longleftrightarrow>
     ent t i j = \<lparr>next_table_index = i, entry_length = len s, symbol_id = sym_id s\<rparr> \<and>
     pre t i < len s \<and> len s \<le> tot t i \<and> topb (tot t i) (lo s) = cell_no t qs i j"

definition branch_cell :: "huffman_table \<Rightarrow> nat list \<Rightarrow> nat \<Rightarrow> nat \<Rightarrow> bool" where
  "branch_cell t qs i j \<longleftrightarrow>
     (let k = next_table_index (ent t i j)
      in i < k \<and> k < ntables t \<and> pre t k = tot t i \<and> qs ! k = cell_no t qs i j \<and>
         tot t i < entry_length (ent t i j) \<and> tot t k = min (tot t i + 6) (entry_length (ent t i j)) \<and>
         symbol_id (ent t i j) = 0)"

definition cell_ok :: "huffman_table \<Rightarrow> nat list \<Rightarrow> huffman_symbol set \<Rightarrow> huffman_symbol set \<Rightarrow> nat \<Rightarrow> nat \<Rightarrow> bool" where
  "cell_ok t qs E D i j \<longleftrightarrow>
     empty_cell t qs E i j \<or> (\<exists>s \<in> D. leaf_cell t qs s i j) \<or> branch_cell t qs i j"

text \<open>A table below the root is as small as the longest code in it allows.\<close>

definition table_ok :: "huffman_table \<Rightarrow> nat list \<Rightarrow> huffman_symbol set \<Rightarrow> huffman_symbol set \<Rightarrow> nat \<Rightarrow> bool" where
  "table_ok t qs W D i \<longleftrightarrow>
     pre t i \<in> {9, 15, 21, 27} \<and>
     (\<exists>s \<in> W. pre t i < len s \<and> topb (pre t i) (lo s) = qs ! i \<and> tot t i = min (pre t i + 6) (len s) \<and>
        (\<forall>s' \<in> D. topb (pre t i) (lo s') = qs ! i \<longrightarrow> len s' \<le> len s))"

definition build_inv ::
    "huffman_table \<Rightarrow> nat list \<Rightarrow> huffman_symbol set \<Rightarrow> huffman_symbol set \<Rightarrow> nat \<Rightarrow> bool" where
  "build_inv t qs D D' p \<longleftrightarrow>
     shape t \<and> length qs = ntables t \<and> qs ! 0 = 0 \<and>
     (\<forall>i < ntables t. \<forall>j < cells t i. cell_ok t qs (if pre t i < p then D' else D) D i j) \<and>
     (\<forall>i < ntables t. 0 < i \<longrightarrow> table_ok t qs (if pre t i \<le> p then D' else D) D' i) \<and>
     (\<forall>i k. i < k \<longrightarrow> k < ntables t \<longrightarrow> (pre t i, qs ! i) \<noteq> (pre t k, qs ! k))"

lemma build_invD:
  assumes "build_inv t qs D D' p"
  shows "shape t" "length qs = ntables t" "qs ! 0 = 0"
    "i < ntables t \<Longrightarrow> j < cells t i \<Longrightarrow> cell_ok t qs (if pre t i < p then D' else D) D i j"
    "0 < i \<Longrightarrow> i < ntables t \<Longrightarrow> table_ok t qs (if pre t i \<le> p then D' else D) D' i"
    "i < k \<Longrightarrow> k < ntables t \<Longrightarrow> (pre t i, qs ! i) \<noteq> (pre t k, qs ! k)"
  using assms by (simp_all add: build_inv_def)

lemma build_inv_same_key:
  assumes "build_inv t qs D D' p" and "i < ntables t" and "k < ntables t"
    and "pre t i = pre t k" and "qs ! i = qs ! k"
  shows "i = k"
  using assms build_invD(6) [OF assms(1), of i k] build_invD(6) [OF assms(1), of k i]
  by (cases i k rule: linorder_cases) auto

lemma table_levels:
  assumes "build_inv t qs D D' p" and "i < ntables t"
  shows "i = 0 \<and> pre t i = 0 \<and> tot t i = 9 \<or> 0 < i \<and> pre t i \<in> {9, 15, 21, 27} \<and> tot t i \<le> pre t i + 6"
proof (cases "i = 0")
  case True
  then show ?thesis using shape_root [OF build_invD(1) [OF assms(1)]] by simp
next
  case False
  then have t: "table_ok t qs (if pre t i \<le> p then D' else D) D' i"
    using build_invD(5) [OF assms(1)] assms(2) by simp
  then obtain s where "tot t i = min (pre t i + 6) (len s)" unfolding table_ok_def by blast
  then have "tot t i \<le> pre t i + 6" by simp
  moreover have "pre t i \<in> {9, 15, 21, 27}" using t unfolding table_ok_def by blast
  ultimately show ?thesis using False by blast
qed

lemma level_gap:
  assumes "build_inv t qs D D' p" and "i < ntables t" and "k < ntables t" and "pre t i < pre t k"
  shows "tot t i \<le> pre t k"
  using table_levels [OF assms(1,2)] table_levels [OF assms(1,3)] assms(4) by auto

text \<open>The cell of a code that belongs to a table.\<close>

lemma code_cell:
  assumes "shape t" and "i < ntables t" and "topb (pre t i) (unat x) = qs ! i"
  defines "j \<equiv> table_index_of x (tbl t i)"
  shows "j < cells t i" "topb (tot t i) (unat x) = cell_no t qs i j"
proof -
  note sh = shapeD [OF assms(1,2)]
  have j: "j = topb (tot t i) (unat x) mod cells t i"
    unfolding j_def by (rule table_index_of_top [OF sh(2,1)])
  then show "j < cells t i" by simp
  have "topb (tot t i) (unat x) div cells t i = qs ! i"
    using top_top [of "pre t i" "tot t i" "unat x"] sh(2) assms(3) by simp
  then show "topb (tot t i) (unat x) = cell_no t qs i j"
    unfolding j cell_no_def by (metis div_mult_mod_eq)
qed

text \<open>A code of a cell belongs to its table, and to no other cell of the table.\<close>

lemma cell_table:
  assumes "shape t" and "i < ntables t" and "j < cells t i" and "topb (tot t i) x = cell_no t qs i j"
  shows "topb (pre t i) x = qs ! i"
  using top_top [of "pre t i" "tot t i" x] shapeD(2) [OF assms(1,2)] assms(3,4)
  by (simp add: cell_no_def)

lemma cell_no_inj: "cell_no t qs i j = cell_no t qs i l \<longleftrightarrow> j = l"
  by (simp add: cell_no_def)

text \<open>Exactly one kind of cell holds for a cell that is in order.\<close>

lemma leaf_or_branch:
  assumes "cell_ok t qs E D i j" and "s \<in> E" and "topb (tot t i) (lo s) = cell_no t qs i j"
  shows "(\<exists>s' \<in> D. leaf_cell t qs s' i j) \<or> branch_cell t qs i j"
  using assms by (auto simp: cell_ok_def empty_cell_def)

lemma leaf_unique:
  assumes "prefix_code S" and "s \<in> S" and "s' \<in> S" and "leaf_cell t qs s' i j" and "tot t i \<le> 32"
    and "topb (tot t i) (lo s) = cell_no t qs i j"
  shows "s' = s"
  using prefix_code_unique [OF assms(1,3,2), of "tot t i"] assms(4-6)
  by (auto simp: leaf_cell_def)

lemma branch_longer:
  assumes "build_inv t qs D D' p" and "prefix_code S" and "D' \<subseteq> S" and "D \<subseteq> D'" and "s \<in> S"
    and "i < ntables t" and "branch_cell t qs i j" and "topb (tot t i) (lo s) = cell_no t qs i j"
  shows "tot t i < len s"
proof (rule ccontr)
  assume short: "\<not> tot t i < len s"
  define k where "k = next_table_index (ent t i j)"
  have k: "i < k" "k < ntables t" "pre t k = tot t i" "qs ! k = cell_no t qs i j"
    using assms(7) by (simp_all add: branch_cell_def k_def Let_def)
  obtain s0 where s0: "s0 \<in> D'" "pre t k < len s0" "topb (pre t k) (lo s0) = qs ! k"
    using build_invD(5) [OF assms(1), of k] k(1,2) assms(4) unfolding table_ok_def by (auto split: if_splits)
  have "s = s0"
    using prefix_code_unique [OF assms(2,5), of s0 "tot t i"] short s0 k(3,4) assms(3,8)
      shapeD(2) [OF build_invD(1) [OF assms(1)] assms(6)] by auto
  then show False using short s0(2) k(3) by simp
qed

section \<open>The number of tables\<close>

definition table_keys :: "huffman_symbol set \<Rightarrow> (nat \<times> nat) set" where
  "table_keys D = (\<Union>s \<in> D. (\<lambda>p. (p, topb p (lo s))) ` {p \<in> {9, 15, 21, 27}. p < len s})"

lemma finite_table_keys: "finite D \<Longrightarrow> finite (table_keys D)"
  by (simp add: table_keys_def)

lemma table_keysI: "s \<in> D \<Longrightarrow> p \<in> {9, 15, 21, 27} \<Longrightarrow> p < len s \<Longrightarrow> c = topb p (lo s) \<Longrightarrow> (p, c) \<in> table_keys D"
  by (auto simp: table_keys_def)

lemma table_keys_mono: "D \<subseteq> D' \<Longrightarrow> table_keys D \<subseteq> table_keys D'"
  by (auto simp: table_keys_def)

lemma ntables_bound:
  assumes "build_inv t qs D D' p" and "D \<subseteq> D'" and "finite D'"
    and "x \<in> table_keys D'" and "\<forall>i < ntables t. (pre t i, qs ! i) \<noteq> x"
  shows "ntables t \<le> card (table_keys D')"
proof -
  let ?f = "\<lambda>i. (pre t i, qs ! i)" and ?I = "{1..<ntables t}"
  have "inj_on ?f ?I" using build_inv_same_key [OF assms(1)] by (intro inj_onI) auto
  then have "card ?I = card (?f ` ?I)" by (simp add: card_image)
  also have "?f ` ?I \<subseteq> table_keys D' - {x}"
  proof
    fix y assume "y \<in> ?f ` ?I"
    then obtain i where i: "y = ?f i" "0 < i" "i < ntables t" by auto
    then have "table_ok t qs (if pre t i \<le> p then D' else D) D' i" using build_invD(5) [OF assms(1)] by simp
    then obtain s where "s \<in> D'" "pre t i \<in> {9, 15, 21, 27}" "pre t i < len s" "topb (pre t i) (lo s) = qs ! i"
      using assms(2) unfolding table_ok_def by (auto split: if_splits)
    then have "?f i \<in> table_keys D'" by (intro table_keysI) auto
    then show "y \<in> table_keys D' - {x}" using i assms(5) by auto
  qed
  then have "card (?f ` ?I) \<le> card (table_keys D' - {x})"
    using finite_table_keys [OF assms(3)] by (intro card_mono) auto
  also have "\<dots> < card (table_keys D')"
    using finite_table_keys [OF assms(3)] assms(4) by (intro card_Diff1_less)
  finally have "ntables t - 1 < card (table_keys D')" by simp
  then show ?thesis by simp
qed

section \<open>Placing a symbol\<close>

text \<open>The situation in the inner loop at table \<open>i\<close>, on the way to the place of \<open>s\<close>.\<close>

definition at_table ::
    "huffman_symbol set \<Rightarrow> huffman_symbol set \<Rightarrow> huffman_symbol \<Rightarrow> nat list \<Rightarrow> nat \<Rightarrow> huffman_table \<Rightarrow> bool" where
  "at_table S D s qs i t \<longleftrightarrow>
     prefix_code S \<and> s \<in> S \<and> D \<subseteq> S \<and> s \<notin> D \<and> i < ntables t \<and> pre t i < len s \<and>
     topb (pre t i) (lo s) = qs ! i \<and> build_inv t qs D (insert s D) (pre t i)"

lemma at_tableD:
  assumes "at_table S D s qs i t"
  shows "prefix_code S" "s \<in> S" "D \<subseteq> S" "s \<notin> D" "i < ntables t" "pre t i < len s"
    "topb (pre t i) (lo s) = qs ! i" "build_inv t qs D (insert s D) (pre t i)" "shape t" "tot t i \<le> 32" "len s \<le> 32"
proof -
  show "tot t i \<le> 32" "shape t"
    using assms shapeD(2) build_invD(1) unfolding at_table_def by blast+
qed (use assms prefix_codeD(2) [of S s] in \<open>simp_all add: at_table_def\<close>)

abbreviation slot :: "huffman_table \<Rightarrow> huffman_symbol \<Rightarrow> nat \<Rightarrow> nat" where
  "slot t s i \<equiv> table_index_of (sym_code s) (tbl t i)"

lemma at_table_slot:
  assumes "at_table S D s qs i t"
  shows "slot t s i < cells t i" "topb (tot t i) (lo s) = cell_no t qs i (slot t s i)"
    "cell_ok t qs D D i (slot t s i)"
proof -
  note a = at_tableD [OF assms]
  show "slot t s i < cells t i" "topb (tot t i) (lo s) = cell_no t qs i (slot t s i)"
    using code_cell [OF a(9,5,7)] by blast+
  then show "cell_ok t qs D D i (slot t s i)" using build_invD(4) [OF a(8,5)] by simp
qed

text \<open>Of the tables above the next level, the code of \<open>s\<close> is in this cell only.\<close>

lemma path_cell:
  assumes "at_table S D s qs i t" and "k < ntables t" and "l < cells t k"
    and "topb (tot t k) (lo s) = cell_no t qs k l" and "pre t i \<le> pre t k" and "pre t k < tot t i"
  shows "k = i \<and> l = slot t s i"
proof -
  note a = at_tableD [OF assms(1)]
  have p: "pre t k = pre t i" using level_gap [OF a(8,5) assms(2)] assms(5,6) by linarith
  have "topb (pre t k) (lo s) = qs ! k" by (rule cell_table [OF a(9) assms(2-4)])
  then have "qs ! k = qs ! i" using a(7) p by (simp only:)
  then have "k = i" by (rule build_inv_same_key [OF a(8) assms(2) a(5) p])
  then show ?thesis using at_table_slot(2) [OF assms(1)] assms(4) cell_no_inj by simp
qed

text \<open>What the symbol finds in its cell decides what it does.\<close>

lemma slot_empty_if_short:
  assumes "at_table S D s qs i t" and "len s \<le> tot t i"
  shows "empty_cell t qs D i (slot t s i)"
proof -
  note a = at_tableD [OF assms(1)] and b = at_table_slot [OF assms(1)]
  have "\<not> leaf_cell t qs s' i (slot t s i)" if "s' \<in> D" for s'
    using leaf_unique [OF a(1,2) _ _ a(10) b(2), of s'] that a(3,4) by blast
  moreover have "\<not> branch_cell t qs i (slot t s i)"
    using branch_longer [OF a(8,1) _ _ a(2,5) _ b(2)] a(2,3) assms(2) by auto
  ultimately show ?thesis using b(3) by (auto simp: cell_ok_def)
qed

lemma slot_no_leaf:
  assumes "at_table S D s qs i t" and "s' \<in> D"
  shows "\<not> leaf_cell t qs s' i (slot t s i)"
  using leaf_unique [OF at_tableD(1,2) [OF assms(1)] _ _ at_tableD(10) [OF assms(1)] at_table_slot(2) [OF assms(1)], of s']
    at_tableD(3,4) [OF assms(1)] assms(2) by blast

text \<open>Going down through a branch.\<close>

lemma at_table_branch:
  assumes "at_table S D s qs i t" and "branch_cell t qs i (slot t s i)" and "tot t i < len s"
  shows "at_table S D s qs (next_table_index (ent t i (slot t s i))) t"
proof -
  note a = at_tableD [OF assms(1)] and b = at_table_slot [OF assms(1)]
  define k where "k = next_table_index (ent t i (slot t s i))"
  have k: "i < k" "k < ntables t" "pre t k = tot t i" "qs ! k = cell_no t qs i (slot t s i)"
    using assms(2) by (simp_all add: branch_cell_def k_def Let_def)
  have "cell_ok t qs (if pre t k' < tot t i then insert s D else D) D k' l"
    if "k' < ntables t" "l < cells t k'" for k' l
  proof -
    have c: "cell_ok t qs (if pre t k' < pre t i then insert s D else D) D k' l"
      using build_invD(4) [OF a(8) that] .
    show ?thesis
    proof (cases "pre t k' < pre t i \<or> \<not> pre t k' < tot t i")
      case True
      then show ?thesis using c by auto
    next
      case False
      then have "topb (tot t k') (lo s) \<noteq> cell_no t qs k' l \<or> branch_cell t qs k' l"
        using path_cell [OF assms(1) that] assms(2) by auto
      then show ?thesis using c False by (auto simp: cell_ok_def empty_cell_def)
    qed
  qed
  moreover have "table_ok t qs (if pre t k' \<le> tot t i then insert s D else D) (insert s D) k'"
    if "0 < k'" "k' < ntables t" for k'
    using build_invD(5) [OF a(8) that] by (auto simp: table_ok_def split: if_splits)
  ultimately have "build_inv t qs D (insert s D) (tot t i)"
    using a(8) by (simp add: build_inv_def)
  then show ?thesis using a k b(2) assms(3) by (simp add: at_table_def flip: k_def)
qed

text \<open>Writing the symbol into its cell.\<close>

lemma leaf_build_inv:
  assumes "at_table S D s qs i t" and "len s \<le> tot t i"
  defines "t' \<equiv> with_entry i (slot t s i) \<lparr>next_table_index = i, entry_length = len s, symbol_id = sym_id s\<rparr> t"
  shows "build_inv t' qs (insert s D) (insert s D) p"
proof -
  note a = at_tableD [OF assms(1)] and b = at_table_slot [OF assms(1)]
  have tb: "decode_tables t' = decode_tables t" "shape t'" "cell_no t' qs = cell_no t qs"
    using a(9) by (simp_all add: t'_def cell_no_def fun_eq_iff)
  have "cell_ok t' qs (insert s D) (insert s D) k l" if kl: "k < ntables t" "l < cells t k" for k l
  proof (cases "k = i \<and> l = slot t s i")
    case True
    then have "leaf_cell t' qs s k l"
      using ent_with_entry [OF a(9,5,5) b(1) b(1)] b(2) a(6) assms(2) by (simp add: leaf_cell_def tb) (simp add: t'_def)
    then show ?thesis by (auto simp: cell_ok_def)
  next
    case False
    then have e: "ent t' k l = ent t k l"
      using ent_with_entry [OF a(9,5) kl(1) b(1) kl(2)] by (auto simp: t'_def)
    have c: "cell_ok t qs (if pre t k < pre t i then insert s D else D) D k l"
      using build_invD(4) [OF a(8) kl] .
    have "topb (tot t k) (lo s) \<noteq> cell_no t qs k l \<or> pre t k < pre t i"
    proof (rule ccontr)
      assume "\<not> ?thesis"
      then have in_cell: "topb (tot t k) (lo s) = cell_no t qs k l" and deep: "pre t i \<le> pre t k" by auto
      then have "tot t i \<le> pre t k" using path_cell [OF assms(1) kl] False by (meson not_le)
      moreover have "0 < tot t i" using shapeD(1) [OF a(9,5)] by simp
      ultimately have "0 < k" using shape_root(2) [OF a(9)] by (cases "k = 0") simp_all
      then obtain s0 where s0: "s0 \<in> insert s D" "pre t k < len s0" "topb (pre t k) (lo s0) = qs ! k"
        using build_invD(5) [OF a(8) _ kl(1)] unfolding table_ok_def by (auto split: if_splits)
      moreover have "topb (pre t k) (lo s) = qs ! k" by (rule cell_table [OF a(9) kl in_cell])
      ultimately have "s = s0"
        using prefix_code_unique [OF a(1,2), of s0 "pre t k"] \<open>tot t i \<le> pre t k\<close> assms(2) a(2,3)
          shapeD(2) [OF a(9) kl(1)] by auto
      then show False using s0(2) \<open>tot t i \<le> pre t k\<close> assms(2) by simp
    qed
    then have "cell_ok t qs (insert s D) (insert s D) k l"
      using c by (auto simp: cell_ok_def empty_cell_def split: if_splits)
    then show ?thesis
      by (simp add: cell_ok_def empty_cell_def leaf_cell_def branch_cell_def tb e)
  qed
  moreover have "table_ok t' qs (insert s D) (insert s D) k" if "0 < k" "k < ntables t" for k
    using build_invD(5) [OF a(8) that] by (auto simp: table_ok_def tb split: if_splits)
  ultimately show ?thesis using a(8) by (simp add: build_inv_def tb)
qed

text \<open>Making a table for the rest of the code.\<close>

lemma new_table_level:
  assumes "at_table S D s qs i t" and "tot t i < len s"
  shows "tot t i \<in> {9, 15, 21, 27}"
proof (cases "i = 0")
  case True
  then show ?thesis using shape_root [OF at_tableD(9) [OF assms(1)]] by simp
next
  case False
  note a = at_tableD [OF assms(1)]
  obtain s0 where s0: "tot t i = min (pre t i + 6) (len s0)" "len s \<le> len s0" "pre t i \<in> {9, 15, 21, 27}"
    using build_invD(5) [OF a(8) _ a(5)] False a(7) unfolding table_ok_def by auto
  then have "tot t i = pre t i + 6" using assms(2) by simp
  then show ?thesis using s0(3) assms(2) a(11) by auto
qed

lemma new_table_key:
  assumes "at_table S D s qs i t" and "tot t i < len s" and "empty_cell t qs D i (slot t s i)" and "k < ntables t"
  shows "(pre t k, qs ! k) \<noteq> (tot t i, topb (tot t i) (lo s))"
proof
  assume key: "(pre t k, qs ! k) = (tot t i, topb (tot t i) (lo s))"
  note a = at_tableD [OF assms(1)] and b = at_table_slot [OF assms(1)]
  have "0 < indexed_length (tbl t i)" by (rule shapeD(1) [OF a(9,5)])
  then have "pre t i < pre t k" using key by simp
  moreover from this have "0 < k" using shape_root(2) [OF a(9)] by (cases "k = 0") simp_all
  ultimately have "table_ok t qs D (insert s D) k" using build_invD(5) [OF a(8) _ assms(4)] by simp
  then obtain s0 where "s0 \<in> D" "topb (tot t i) (lo s0) = topb (tot t i) (lo s)"
    using key unfolding table_ok_def by auto
  then show False using assms(3) b(2) by (auto simp: empty_cell_def)
qed

lemma branch_at_table:
  assumes "at_table S D s qs i t" and "tot t i < len s" and "empty_cell t qs D i (slot t s i)"
  defines "t' \<equiv> with_entry i (slot t s i)
      (DecodeEntry\<lparr>entry_length := len s, next_table_index := ntables t\<rparr>)
      (with_table (tot t i) (min 6 (len s - tot t i)) t)"
  shows "at_table S D s (qs @ [topb (tot t i) (lo s)]) (ntables t) t'"
proof -
  note a = at_tableD [OF assms(1)] and b = at_table_slot [OF assms(1)]
  let ?j = "slot t s i" and ?n = "min 6 (len s - tot t i)" and ?c = "topb (tot t i) (lo s)"
  let ?qs = "qs @ [?c]" and ?t1 = "with_table (tot t i) ?n t" and ?m = "ntables t"
  have n: "0 < ?n" "tot t i + ?n \<le> 32" "tot t i + ?n = min (tot t i + 6) (len s)"
    using assms(2) a(11) by auto
  have lq: "length qs = ?m" using build_invD(2) [OF a(8)] .
  have sh1: "shape ?t1" by (rule shape_with_table [OF a(9) n(1,2)])
  have old: "tbl t' k = tbl t k" if "k < ?m" for k using that by (simp add: t'_def)
  have new: "tbl t' ?m = \<lparr>prefix_length = tot t i, indexed_length = ?n, entries_offset = length (decode_entries t)\<rparr>"
    "ntables t' = Suc ?m" "shape t'"
    using sh1 by (simp_all add: t'_def)
  have j1: "?j < cells ?t1 i" using b(1) a(5) by simp
  have old_no: "cell_no t' ?qs k l = cell_no t qs k l" if "k < ?m" for k l
    using that old lq by (simp add: cell_no_def nth_append)
  have old_ent: "ent t' k l = (if i = k \<and> ?j = l then DecodeEntry\<lparr>entry_length := len s, next_table_index := ?m\<rparr> else ent t k l)"
    if "k < ?m" "l < cells t k" for k l
    using ent_with_entry [OF sh1 _ _ j1, of k l] that a(5) ent_with_table(1) [OF a(9) that]
    by (auto simp: t'_def)
  have new_ent: "ent t' ?m l = DecodeEntry" if "l < 2 ^ ?n" for l
    using ent_with_entry [OF sh1 _ _ j1, of ?m l] that a(5) ent_with_table(2) [OF a(9) that]
    by (simp add: t'_def)
  have cells_old: "cell_ok t' ?qs (if pre t' k < tot t i then insert s D else D) D k l"
    if kl: "k < ?m" "l < cells t k" for k l
  proof (cases "i = k \<and> ?j = l")
    case True
    have "branch_cell t' ?qs i ?j"
      using old_ent [OF a(5) b(1)] new old [OF a(5)] a(5) old_no [OF a(5)] lq assms(2) b(2)
      by (simp add: branch_cell_def Let_def DecodeEntry_def nth_append)
    then show ?thesis using True by (auto simp: cell_ok_def)
  next
    case False
    have "cell_ok t qs (if pre t k < pre t i then insert s D else D) D k l"
      using build_invD(4) [OF a(8) kl] .
    moreover have "topb (tot t k) (lo s) \<noteq> cell_no t qs k l" if "\<not> pre t k < pre t i" "pre t k < tot t i"
      using path_cell [OF assms(1) kl] that False by auto
    ultimately have "cell_ok t qs (if pre t k < tot t i then insert s D else D) D k l"
      by (auto simp: cell_ok_def empty_cell_def split: if_splits)
    moreover have "branch_cell t' ?qs k l" if "branch_cell t qs k l"
      using that old_ent [OF kl] False old old_no [OF kl(1)] lq kl(1) new(2)
      by (simp add: branch_cell_def Let_def nth_append)
    ultimately show ?thesis
      using old_ent [OF kl] False old [OF kl(1)] old_no [OF kl(1)]
      by (auto simp: cell_ok_def empty_cell_def leaf_cell_def)
  qed
  have cells_new: "cell_ok t' ?qs D D ?m l" if "l < 2 ^ ?n" for l
  proof -
    have "topb (tot t' ?m) (lo s') \<noteq> cell_no t' ?qs ?m l" if "s' \<in> D" for s'
    proof
      assume "topb (tot t' ?m) (lo s') = cell_no t' ?qs ?m l"
      then have "topb (pre t' ?m) (lo s') = ?qs ! ?m"
        using cell_table [OF new(3), of ?m l] new \<open>l < 2 ^ ?n\<close> by simp
      then have "topb (tot t i) (lo s') = cell_no t qs i ?j" using lq new(1) b(2) by (simp add: nth_append)
      then show False using assms(3) that by (auto simp: empty_cell_def)
    qed
    then show ?thesis using new_ent [OF that] by (simp add: cell_ok_def empty_cell_def)
  qed
  have tables: "table_ok t' ?qs (if pre t' k \<le> tot t i then insert s D else D) (insert s D) k"
    if "0 < k" "k < Suc ?m" for k
  proof (cases "k = ?m")
    case True
    have "\<forall>s' \<in> insert s D. topb (tot t i) (lo s') = ?c \<longrightarrow> len s' \<le> len s"
      using assms(3) b(2) by (auto simp: empty_cell_def)
    then show ?thesis
      using True new lq assms(2) n new_table_level [OF assms(1,2)] by (simp add: table_ok_def nth_append)
  next
    case False
    then have k: "k < ?m" using that by simp
    then have "table_ok t qs (if pre t k \<le> pre t i then insert s D else D) (insert s D) k"
      using build_invD(5) [OF a(8) that(1)] by simp
    then show ?thesis using old [OF k] k lq by (auto simp: table_ok_def nth_append split: if_splits)
  qed
  have keys: "(pre t' k, ?qs ! k) \<noteq> (pre t' l, ?qs ! l)" if "k < l" "l < Suc ?m" for k l
    using that old new lq new_table_key [OF assms(1-3), of k] build_invD(6) [OF a(8), of k l]
    by (cases "l = ?m") (auto simp: nth_append)
  have "build_inv t' ?qs D (insert s D) (tot t i)"
    unfolding build_inv_def
  proof (intro conjI allI impI)
    fix k l assume "k < ntables t'" "l < cells t' k"
    then show "cell_ok t' ?qs (if pre t' k < tot t i then insert s D else D) D k l"
      using cells_old [of k l] cells_new [of l] old new by (cases "k = ?m") auto
  qed (use new lq tables keys build_invD(3) [OF a(8)] shape_root(1) [OF a(9)] in \<open>auto simp: nth_append\<close>)
  then show ?thesis using a new lq assms(2) by (simp add: at_table_def nth_append)
qed

text \<open>Only the decode tables change.\<close>

definition same_code :: "huffman_table \<Rightarrow> huffman_table \<Rightarrow> bool" where
  "same_code t t' \<longleftrightarrow>
     code_by_id t' = code_by_id t \<and> length_by_id t' = length_by_id t \<and> pad_bits t' = pad_bits t"

lemma same_code_simps [simp]:
  "same_code t t" "same_code (with_entry i j e t) t' = same_code t t'"
  "same_code t (with_entry i j e t') = same_code t t'" "same_code (with_table p n t) t' = same_code t t'"
  by (simp_all add: same_code_def with_entry_def with_table_def)

lemma same_code_trans: "same_code t t' \<Longrightarrow> same_code t' t'' \<Longrightarrow> same_code t t''"
  by (simp add: same_code_def)

lemma place_symbol_leaf:
  assumes "at_table S D s qs i t" and "len s \<le> tot t i"
  shows "place_symbol s i t =
    Some (with_entry i (slot t s i) \<lparr>next_table_index = i, entry_length = len s, symbol_id = sym_id s\<rparr> t)"
proof -
  note a = at_tableD [OF assms(1)] and b = at_table_slot [OF assms(1)]
  have "place_symbol s i t = SetEntry (tbl t i) (slot t s i)
      (ent t i (slot t s i)\<lparr>entry_length := len s, symbol_id := sym_id s, next_table_index := i\<rparr>) t"
    using assms(2) get_table_shape [OF a(5)] Entry_shape [OF a(9,5) b(1)]
    by (subst place_symbol.simps) (simp add: Let_def)
  then show ?thesis
    using SetEntry_shape [OF a(9,5) b(1)] slot_empty_if_short [OF assms] by (simp add: empty_cell_def DecodeEntry_def)
qed

lemma place_symbol_new:
  assumes "at_table S D s qs i t" and "tot t i < len s" and "empty_cell t qs D i (slot t s i)"
    and "ntables t < 255"
  shows "place_symbol s i t =
    place_symbol s (ntables t) (with_entry i (slot t s i)
      (DecodeEntry\<lparr>entry_length := len s, next_table_index := ntables t\<rparr>)
      (with_table (tot t i) (min 6 (len s - tot t i)) t))"
proof -
  note a = at_tableD [OF assms(1)] and b = at_table_slot [OF assms(1)]
  let ?t1 = "with_table (tot t i) (min 6 (len s - tot t i)) t"
  have "shape ?t1" using assms(2) a(11) by (intro shape_with_table [OF a(9)]) auto
  then have "SetEntry (tbl t i) (slot t s i) e ?t1 = Some (with_entry i (slot t s i) e ?t1)" for e
    using SetEntry_shape [of ?t1 i "slot t s i" e] a(5) b(1) by simp
  then show ?thesis
    using assms(2-4) a(5) get_table_shape [OF a(5)] Entry_shape [OF a(9,5) b(1)]
    by (subst place_symbol.simps)
      (simp add: Let_def empty_cell_def DecodeEntry_def AddDecodeTable_eq kDecodeTableBranchBits_def)
qed

lemma place_symbol_down:
  assumes "at_table S D s qs i t" and "tot t i < len s" and "branch_cell t qs i (slot t s i)"
  shows "place_symbol s i t = place_symbol s (next_table_index (ent t i (slot t s i))) t"
proof -
  note a = at_tableD [OF assms(1)] and b = at_table_slot [OF assms(1)]
  show ?thesis
    using assms(2,3) get_table_shape [OF a(5)] Entry_shape [OF a(9,5) b(1)]
    by (subst place_symbol.simps) (simp add: Let_def branch_cell_def)
qed

lemma place_symbol_ok:
  assumes "at_table S D s qs i t" and "finite D" and "card (table_keys (insert s D)) < 255"
  shows "\<exists>t' qs'. place_symbol s i t = Some t' \<and> build_inv t' qs' (insert s D) (insert s D) 0 \<and> same_code t t'"
  using assms(1)
proof (induction "32 - pre t i" arbitrary: i t qs rule: less_induct)
  case less
  note a = at_tableD [OF less.prems] and b = at_table_slot [OF less.prems]
  have deeper: "32 - pre t' k < 32 - pre t i" if "pre t' k = tot t i" for t' k
    using that shapeD(1) [OF a(9,5)] a(6,11) by simp
  show ?case
  proof (cases "len s \<le> tot t i")
    case True
    then show ?thesis using place_symbol_leaf [OF less.prems] leaf_build_inv [OF less.prems] by fastforce
  next
    case long: False
    then consider "empty_cell t qs D i (slot t s i)" | "branch_cell t qs i (slot t s i)"
      using b(3) slot_no_leaf [OF less.prems] by (auto simp: cell_ok_def)
    then show ?thesis
    proof cases
      case 1
      let ?t = "with_entry i (slot t s i) (DecodeEntry\<lparr>entry_length := len s, next_table_index := ntables t\<rparr>)
        (with_table (tot t i) (min 6 (len s - tot t i)) t)"
      have "(tot t i, topb (tot t i) (lo s)) \<in> table_keys (insert s D)"
        using new_table_level [OF less.prems] long by (intro table_keysI [of s]) auto
      then have "ntables t \<le> card (table_keys (insert s D))"
        using new_table_key [OF less.prems _ 1] long assms(2) by (intro ntables_bound [OF a(8)]) auto
      then have "ntables t < 255" using assms(3) by simp
      then have "place_symbol s i t = place_symbol s (ntables t) ?t"
        using place_symbol_new [OF less.prems _ 1] long by simp
      moreover have "at_table S D s (qs @ [topb (tot t i) (lo s)]) (ntables t) ?t"
        using branch_at_table [OF less.prems _ 1] long by simp
      ultimately show ?thesis using less.hyps [of ?t "ntables t"] deeper [of ?t "ntables t"] by simp
    next
      case 2
      have "pre t (next_table_index (ent t i (slot t s i))) = tot t i"
        using 2 by (simp add: branch_cell_def Let_def)
      then show ?thesis
        using less.hyps [OF deeper at_table_branch [OF less.prems 2]] place_symbol_down [OF less.prems _ 2] long
        by simp
    qed
  qed
qed

lemma at_root:
  assumes "build_inv t qs D D 0" and "prefix_code S" and "D \<subseteq> S" and "s \<in> S" and "s \<notin> D"
    and "\<forall>s' \<in> D. len s \<le> len s'"
  shows "at_table S D s qs 0 t"
proof -
  note i = build_invD [OF assms(1)] and r = shape_root [OF build_invD(1) [OF assms(1)]]
  have "table_ok t qs (if pre t k \<le> 0 then insert s D else D) (insert s D) k" if "0 < k" "k < ntables t" for k
    using i(5) [OF that] assms(6) by (fastforce simp: table_ok_def)
  then have "build_inv t qs D (insert s D) 0" using assms(1) by (simp add: build_inv_def)
  then show ?thesis using r i(3) assms prefix_codeD(1) [OF assms(2,4)] lo_less [of s] by (simp add: at_table_def)
qed

lemma place_symbols_ok:
  assumes "build_inv t qs D D 0" and "prefix_code S" and "finite S" and "card (table_keys S) < 255"
    and "D \<union> set its \<subseteq> S" and "distinct its" and "D \<inter> set its = {}"
    and "\<forall>s \<in> D. \<forall>s' \<in> set its. len s' \<le> len s" and "sorted_wrt (\<lambda>a b. len b \<le> len a) its"
  shows "\<exists>t' qs'. place_symbols its t = Some t' \<and> build_inv t' qs' (D \<union> set its) (D \<union> set its) 0 \<and> same_code t t'"
  using assms(1,5-9)
proof (induction its arbitrary: t qs D)
  case (Cons s its)
  have "at_table S D s qs 0 t"
    using Cons.prems by (intro at_root [OF _ assms(2)]) auto
  moreover have "finite D" using Cons.prems(2) assms(3) finite_subset by blast
  moreover have "card (table_keys (insert s D)) < 255"
    using card_mono [OF finite_table_keys [OF assms(3)] table_keys_mono] Cons.prems(2) assms(4)
    by (meson Un_iff insert_subset le_less_trans list.set_intros(1) subset_iff)
  ultimately obtain t' qs' where t': "place_symbol s 0 t = Some t'" "build_inv t' qs' (insert s D) (insert s D) 0" "same_code t t'"
    using place_symbol_ok by blast
  obtain t'' qs'' where "place_symbols its t' = Some t''" "build_inv t'' qs'' (insert s D \<union> set its) (insert s D \<union> set its) 0"
    "same_code t' t''"
    using Cons.IH [OF t'(2)] Cons.prems by auto
  then show ?case using t' same_code_trans by auto
qed auto

lemma first_table_inv:
  assumes "decode_tables t = []" and "decode_entries t = []"
  shows "build_inv (with_table 0 9 t) [0] {} {} 0"
proof -
  have t: "tbl (with_table 0 9 t) 0 = \<lparr>prefix_length = 0, indexed_length = 9, entries_offset = 0\<rparr>"
    "ntables (with_table 0 9 t) = 1" "length (decode_entries (with_table 0 9 t)) = 512"
    using assms by (simp_all add: with_table_def)
  have "ent (with_table 0 9 t) 0 j = DecodeEntry" if "j < 512" for j
    using that assms by (simp add: ent_def with_table_def)
  then show ?thesis
    by (simp add: build_inv_def shape_def t cell_ok_def empty_cell_def del: ntables_with_table tbl_with_table)
qed

section \<open>Filling the tables\<close>

lemma branch_symbol:
  assumes "build_inv t qs S S 0" and "branch_cell t qs i j"
  shows "\<exists>s \<in> S. tot t i < len s \<and> topb (tot t i) (lo s) = cell_no t qs i j"
proof -
  define k where "k = next_table_index (ent t i j)"
  have "i < k" "k < ntables t" "pre t k = tot t i" "qs ! k = cell_no t qs i j"
    using assms(2) by (simp_all add: branch_cell_def k_def Let_def)
  then show ?thesis using build_invD(5) [OF assms(1), of k] unfolding table_ok_def by auto
qed

lemma leaf_group:
  assumes "shape t" and "i < ntables t" and "prefix_code S" and "s \<in> S" and "leaf_cell t qs s i j" and "j < cells t i"
  shows "j + 2 ^ (tot t i - len s) \<le> cells t i" "topb (len s) (lo s) * 2 ^ (tot t i - len s) = cell_no t qs i j"
proof -
  let ?f = "2 ^ (tot t i - len s) :: nat"
  have l: "pre t i < len s" "len s \<le> tot t i" "topb (tot t i) (lo s) = cell_no t qs i j"
    using assms(5) by (simp_all add: leaf_cell_def)
  have t32: "tot t i \<le> 32" by (rule shapeD(2) [OF assms(1,2)])
  show c: "topb (len s) (lo s) * ?f = cell_no t qs i j"
    using top_aligned [OF l(2) t32 prefix_codeD(3) [OF assms(3,4)]] l(3) by simp
  have d: "?f dvd cells t i" using l(1) by (intro le_imp_power_dvd) simp
  have "?f dvd cell_no t qs i j" using c by (metis dvd_triv_right)
  then have "?f dvd j" using d unfolding cell_no_def by (metis dvd_add_right_iff dvd_mult)
  then show "j + ?f \<le> cells t i"
    using d assms(6) by (metis add.commute dvd_def less_eq_Suc_le mult_Suc_right mult_le_cancel1 nat_mult_less_cancel_disj)
qed

lemma group_empty:
  assumes "build_inv t qs S S 0" and "i < ntables t" and "prefix_code S" and "s \<in> S"
    and "leaf_cell t qs s i j" and "j < cells t i" and "0 < m" and "m < 2 ^ (tot t i - len s)"
  shows "ent t i (j + m) = DecodeEntry"
proof -
  note sh = build_invD(1) [OF assms(1)]
  note g = leaf_group [OF sh assms(2-6)]
  have len: "len s \<le> tot t i" "tot t i \<le> 32"
    using assms(5) shapeD(2) [OF sh assms(2)] by (simp_all add: leaf_cell_def)
  have same: "s' = s" if "s' \<in> S" "topb (tot t i) (lo s') = cell_no t qs i (j + m)" for s'
  proof -
    have "topb (len s) (lo s') = (topb (len s) (lo s) * 2 ^ (tot t i - len s) + m) div 2 ^ (tot t i - len s)"
      using top_top [OF len, of "lo s'"] that(2) g(2) by (simp add: cell_no_def add.assoc)
    also have "\<dots> = topb (len s) (lo s)" using assms(8) by simp
    finally show ?thesis
      using prefix_code_unique [OF assms(3,4) that(1), of "len s"] len by simp
  qed
  have "\<not> leaf_cell t qs s' i (j + m)" if "s' \<in> S" for s'
    using same [OF that] assms(5,7) cell_no_inj [of t qs i j "j + m"] by (auto simp: leaf_cell_def)
  moreover have "\<not> branch_cell t qs i (j + m)"
    using branch_symbol [OF assms(1), of i "j + m"] same len(1) by fastforce
  moreover have "cell_ok t qs S S i (j + m)"
    using build_invD(4) [OF assms(1,2), of "j + m"] g(1) assms(8) by (simp split: if_splits)
  ultimately show ?thesis by (auto simp: cell_ok_def empty_cell_def)
qed

text \<open>The tables with all cells before cell \<open>j\<close> of table \<open>i\<close> filled.\<close>

definition fill_inv ::
    "huffman_table \<Rightarrow> nat list \<Rightarrow> huffman_symbol set \<Rightarrow> nat \<Rightarrow> nat \<Rightarrow> huffman_table \<Rightarrow> bool" where
  "fill_inv t0 qs S i j t \<longleftrightarrow>
     decode_tables t = decode_tables t0 \<and> shape t \<and> same_code t0 t \<and>
     (\<forall>k < ntables t0. \<forall>l < cells t0 k. i < k \<or> k = i \<and> j \<le> l \<or> branch_cell t0 qs k l \<longrightarrow>
        ent t k l = ent t0 k l) \<and>
     (\<forall>k < ntables t0. \<forall>l < cells t0 k. \<forall>s \<in> S. k < i \<or> k = i \<and> l < j \<longrightarrow> leaf_cell t0 qs s k l \<longrightarrow>
        (\<forall>m < 2 ^ (tot t0 k - len s). ent t k (l + m) = ent t0 k l)) \<and>
     (\<forall>k < ntables t0. \<forall>l < cells t0 k. ent t k l = ent t0 k l \<or>
        (\<exists>s \<in> S. \<exists>j < l. leaf_cell t0 qs s k j \<and> l < j + 2 ^ (tot t0 k - len s)))"

lemma fill_invD:
  assumes "fill_inv t0 qs S i j t"
  shows "decode_tables t = decode_tables t0" "shape t" "same_code t0 t"
    "k < ntables t0 \<Longrightarrow> l < cells t0 k \<Longrightarrow> i < k \<or> k = i \<and> j \<le> l \<or> branch_cell t0 qs k l \<Longrightarrow>
       ent t k l = ent t0 k l"
    "k < ntables t0 \<Longrightarrow> l < cells t0 k \<Longrightarrow> s \<in> S \<Longrightarrow> k < i \<or> k = i \<and> l < j \<Longrightarrow> leaf_cell t0 qs s k l \<Longrightarrow>
       m < 2 ^ (tot t0 k - len s) \<Longrightarrow> ent t k (l + m) = ent t0 k l"
    "k < ntables t0 \<Longrightarrow> l < cells t0 k \<Longrightarrow> ent t k l = ent t0 k l \<or>
       (\<exists>s \<in> S. \<exists>j < l. leaf_cell t0 qs s k j \<and> l < j + 2 ^ (tot t0 k - len s))"
  using assms unfolding fill_inv_def by blast+

definition copied :: "nat \<Rightarrow> nat \<Rightarrow> nat \<Rightarrow> decode_entry \<Rightarrow> huffman_table \<Rightarrow> huffman_table \<Rightarrow> bool" where
  "copied i a b e t t' \<longleftrightarrow>
     decode_tables t' = decode_tables t \<and> shape t' \<and> same_code t t' \<and>
     (\<forall>k < ntables t. \<forall>l < cells t k. ent t' k l = (if k = i \<and> a \<le> l \<and> l < b then e else ent t k l))"

lemma fill_copies_ok:
  assumes "shape t" and "i < ntables t" and "\<forall>m. a \<le> m \<longrightarrow> m < b \<longrightarrow> j + m < cells t i \<and> ent t i (j + m) = DecodeEntry"
  shows "\<exists>t'. fill_copies (tbl t i) j [a..<b] e t = Some t' \<and> copied i (j + a) (j + b) e t t'"
  using assms
proof (induction "b - a" arbitrary: a t)
  case 0
  then show ?case by (auto simp: copied_def)
next
  case (Suc n)
  then have ab: "a < b" and c: "j + a < cells t i" "ent t i (j + a) = DecodeEntry" and n: "n = b - Suc a" by auto
  let ?t = "with_entry i (j + a) e t"
  note w = ent_with_entry [OF Suc.prems(1,2) _ c(1)]
  have step: "fill_copies (tbl t i) j [a..<b] e t = fill_copies (tbl ?t i) j [Suc a..<b] e ?t"
    using ab c Entry_shape [OF Suc.prems(1,2) c(1)] SetEntry_shape [OF Suc.prems(1,2) c(1)]
    by (simp add: upt_rec [of a b] DecodeEntry_def)
  have "\<forall>m. Suc a \<le> m \<longrightarrow> m < b \<longrightarrow> j + m < cells ?t i \<and> ent ?t i (j + m) = DecodeEntry"
    using Suc.prems(3) w [OF Suc.prems(2)] by simp
  then obtain t' where t': "fill_copies (tbl ?t i) j [Suc a..<b] e ?t = Some t'" "copied i (j + Suc a) (j + b) e ?t t'"
    using Suc.hyps(1) [OF n, of ?t] Suc.prems(1,2) by auto
  have "ent t' k l = (if k = i \<and> j + a \<le> l \<and> l < j + b then e else ent t k l)"
    if "k < ntables t" "l < cells t k" for k l
    using t'(2) w [OF that] ab that by (auto simp: copied_def)
  then have "copied i (j + a) (j + b) e t t'" using t'(2) by (simp add: copied_def)
  then show ?case using step t'(1) by auto
qed

lemma fill_inv_group:
  assumes "build_inv t0 qs S S 0" and "prefix_code S" and "i < ntables t0" and "fill_inv t0 qs S i j t" and "j < cells t0 i"
    and "s \<in> S" and "leaf_cell t0 qs s i j"
    and "copied i (j + 1) (j + 2 ^ (tot t0 i - len s)) (ent t0 i j) t t'"
  shows "fill_inv t0 qs S i (j + 2 ^ (tot t0 i - len s)) t'"
proof -
  note f = assms(4) [unfolded fill_inv_def] and sh0 = build_invD(1) [OF assms(1)]
  note g = leaf_group [OF sh0 assms(3,2,6,7,5)] and c = assms(8) [unfolded copied_def]
  let ?f = "2 ^ (tot t0 i - len s) :: nat"
  have tb: "decode_tables t = decode_tables t0" using f by blast
  have new: "ent t' k l = (if k = i \<and> j < l \<and> l < j + ?f then ent t0 i j else ent t k l)"
    if "k < ntables t0" "l < cells t0 k" for k l
    using c that tb by auto
  have gap: "ent t0 i l = DecodeEntry" if "j < l" "l < j + ?f" for l
    using group_empty [OF assms(1,3,2,6,7,5), of "l - j"] that by simp
  have none: "\<not> leaf_cell t0 qs s' i l" "\<not> branch_cell t0 qs i l" if "j < l" "l < j + ?f" "s' \<in> S" for l s'
    using gap [OF that(1,2)] prefix_codeD(1) [OF assms(2) that(3)]
    by (auto simp: leaf_cell_def branch_cell_def DecodeEntry_def)
  have old: "ent t k l = ent t0 k l" if "k < ntables t0" "l < cells t0 k" "i < k \<or> k = i \<and> j \<le> l \<or> branch_cell t0 qs k l" for k l
    using f that by blast
  have rest: "ent t' k l = ent t0 k l"
    if "k < ntables t0" "l < cells t0 k" "i < k \<or> k = i \<and> j + ?f \<le> l \<or> branch_cell t0 qs k l" for k l
    using new [OF that(1,2)] old [OF that(1,2)] that(3) none [OF _ _ assms(6)] by auto
  have "done": "ent t' k (l + m) = ent t0 k l"
    if kl: "k < ntables t0" "l < cells t0 k" and s': "s' \<in> S" "leaf_cell t0 qs s' k l"
      and pos: "k < i \<or> k = i \<and> l < j + ?f" and m: "m < 2 ^ (tot t0 k - len s')" for k l s' m
  proof -
    have lm: "l + m < cells t0 k" using leaf_group(1) [OF sh0 kl(1) assms(2) s' kl(2)] m by simp
    show ?thesis
    proof (cases "k = i \<and> j \<le> l")
      case True
      then have "l = j" using none(1) [OF _ _ s'(1), of l] s'(2) pos by (cases "l = j") auto
      moreover from this have "len s' = len s" using s'(2) assms(7) True by (simp add: leaf_cell_def)
      ultimately show ?thesis using new [OF kl(1) lm] old [OF kl] True m by (cases "m = 0") auto
    next
      case False
      then have e: "ent t k (l + m) = ent t0 k l" using f kl s' pos m by auto
      moreover have "\<not> (k = i \<and> j < l + m \<and> l + m < j + ?f)"
      proof
        assume in_gap: "k = i \<and> j < l + m \<and> l + m < j + ?f"
        then have "ent t0 k l = DecodeEntry" using e old [OF kl(1) lm] gap [of "l + m"] by simp
        then show False using s' prefix_codeD(1) [OF assms(2) s'(1)] by (simp add: leaf_cell_def DecodeEntry_def)
      qed
      ultimately show ?thesis using new [OF kl(1) lm] by (simp only: if_False)
    qed
  qed
  have head: "decode_tables t' = decode_tables t0" "shape t'" "same_code t0 t'"
    using c f tb same_code_trans [of t0 t t'] by simp_all
  have fifth: "ent t' k l = ent t0 k l \<or>
      (\<exists>s \<in> S. \<exists>j < l. leaf_cell t0 qs s k j \<and> l < j + 2 ^ (tot t0 k - len s))"
    if "k < ntables t0" "l < cells t0 k" for k l
  proof (cases "k = i \<and> j < l \<and> l < j + ?f")
    case True
    then show ?thesis using assms(6,7) by blast
  next
    case False
    then have "ent t' k l = ent t k l" using new [OF that] by (simp only: if_False)
    then show ?thesis using fill_invD(6) [OF assms(4) that] by simp
  qed
  show ?thesis
    unfolding fill_inv_def
    by (intro conjI allI impI ballI head) ((rule rest; assumption), (rule "done"; assumption), (rule fifth; assumption))
qed

lemma fill_table_ok:
  assumes "build_inv t0 qs S S 0" and "prefix_code S" and "i < ntables t0"
    and "fill_inv t0 qs S i j t" and "j \<le> cells t0 i"
  shows "\<exists>t'. fill_table (tbl t0 i) j t = Some t' \<and> fill_inv t0 qs S i (cells t0 i) t'"
  using assms(4,5)
proof (induction "cells t0 i - j" arbitrary: j t rule: less_induct)
  case less
  note f = less.prems(1) [unfolded fill_inv_def] and sh0 = build_invD(1) [OF assms(1)]
  show ?case
  proof (cases "j = cells t0 i")
    case True
    then show ?thesis using less.prems by (subst fill_table.simps) (simp add: DecodeTable_size_def)
  next
    case False
    then have j: "j < cells t0 i" using less.prems(2) by simp
    have e: "ent t i j = ent t0 i j" using f assms(3) j by auto
    have en: "Entry (tbl t0 i) j t = Some (ent t0 i j)" using Entry_shape [of t i j] f assms(3) j e by simp
    have "cell_ok t0 qs S S i j" using build_invD(4) [OF assms(1,3) j] by (simp split: if_splits)
    then consider (skip) "entry_length (ent t0 i j) = 0 \<or> tot t0 i \<le> entry_length (ent t0 i j)"
        "\<forall>s \<in> S. leaf_cell t0 qs s i j \<longrightarrow> len s = tot t0 i"
      | (fill) s where "s \<in> S" "leaf_cell t0 qs s i j" "len s < tot t0 i" "0 < len s"
      using prefix_codeD(1) [OF assms(2)]
      by (fastforce simp: cell_ok_def empty_cell_def leaf_cell_def branch_cell_def DecodeEntry_def Let_def)
    then show ?thesis
    proof cases
      case skip
      have "fill_table (tbl t0 i) j t = fill_table (tbl t0 i) (j + 1) t"
        using skip(1) False en by (subst fill_table.simps) (auto simp: DecodeTable_size_def Let_def)
      moreover have "fill_inv t0 qs S i (j + 1) t"
        using f skip(2) e unfolding fill_inv_def by (auto simp: less_Suc_eq)
      ultimately show ?thesis using less.hyps [of "j + 1" t] j by simp
    next
      case fill
      note g = leaf_group [OF sh0 assms(3,2) fill(1,2) j]
      let ?f = "2 ^ (tot t0 i - len s) :: nat"
      have len: "entry_length (ent t0 i j) = len s" using fill(2) by (simp add: leaf_cell_def)
      have "j + m < cells t0 i \<and> ent t i (j + m) = DecodeEntry" if "1 \<le> m" "m < ?f" for m
      proof -
        have "j + m < cells t0 i" using that g(1) by simp
        moreover have "ent t0 i (j + m) = DecodeEntry" using that by (intro group_empty [OF assms(1,3,2) fill(1,2) j]) simp_all
        ultimately show ?thesis using f assms(3) by auto
      qed
      then obtain t' where t': "fill_copies (tbl t0 i) j [1..<?f] (ent t0 i j) t = Some t'"
        "copied i (j + 1) (j + ?f) (ent t0 i j) t t'"
        using fill_copies_ok [of t i 1 ?f j "ent t0 i j"] f assms(3) by metis
      have "fill_table (tbl t0 i) j t = fill_table (tbl t0 i) (j + ?f) t'"
        using False en len fill(3,4) g(1) t'(1) by (subst fill_table.simps) (simp add: DecodeTable_size_def Let_def)
      moreover have "fill_inv t0 qs S i (j + ?f) t'"
        by (rule fill_inv_group [OF assms(1-3) less.prems(1) j fill(1,2) t'(2)])
      moreover have "cells t0 i - (j + ?f) < cells t0 i - j" using j by (intro diff_less_mono2) simp_all
      ultimately show ?thesis using less.hyps [of "j + ?f" t'] g(1) by simp
    qed
  qed
qed


lemma fill_tables_ok:
  assumes "build_inv t0 qs S S 0" and "prefix_code S" and "i \<le> ntables t0" and "fill_inv t0 qs S i 0 t"
  shows "\<exists>t'. fill_tables (drop i (decode_tables t0)) t = Some t' \<and> fill_inv t0 qs S (ntables t0) 0 t'"
  using assms(3,4)
proof (induction "ntables t0 - i" arbitrary: i t)
  case 0
  then show ?case by simp
next
  case (Suc n)
  then have i: "i < ntables t0" and n: "n = ntables t0 - Suc i" by simp_all
  obtain t' where t': "fill_table (tbl t0 i) 0 t = Some t'" "fill_inv t0 qs S i (cells t0 i) t'"
    using fill_table_ok [OF assms(1,2) i Suc.prems(2)] by auto
  have "fill_inv t0 qs S (Suc i) 0 t'"
    using t'(2) unfolding fill_inv_def by (auto simp: less_Suc_eq)
  then show ?case
    using Suc.hyps(1) [OF n] i t'(1) by (simp add: Cons_nth_drop_Suc [symmetric])
qed

section \<open>Lookups\<close>

text \<open>The tables that the construction ends with.\<close>

definition tables_for :: "huffman_symbol set \<Rightarrow> huffman_table \<Rightarrow> bool" where
  "tables_for S t \<longleftrightarrow>
     (\<exists>t0 qs. build_inv t0 qs S S 0 \<and> fill_inv t0 qs S (ntables t0) 0 t)"

text \<open>The window \<open>x\<close> starts with the code of \<open>s\<close>.\<close>

definition starts_with :: "uint32 \<Rightarrow> huffman_symbol \<Rightarrow> bool" where
  "starts_with x s \<longleftrightarrow> topb (len s) (unat x) = topb (len s) (lo s)"

text \<open>A lookup in the table where the code of the symbol ends.\<close>

lemma leaf_found:
  assumes "build_inv t0 qs S S 0" and "prefix_code S" and "fill_inv t0 qs S (ntables t0) 0 t"
    and "s \<in> S" and "starts_with x s" and "i < ntables t0" and "pre t0 i < len s" and "len s \<le> tot t0 i"
    and "topb (pre t0 i) (unat x) = qs ! i"
  shows "Entry (tbl t i) (table_index_of x (tbl t i)) t =
    Some \<lparr>next_table_index = i, entry_length = len s, symbol_id = sym_id s\<rparr>"
proof -
  note sh0 = build_invD(1) [OF assms(1)] and f = assms(3) [unfolded fill_inv_def]
  let ?l = "slot t0 s i" and ?j = "table_index_of x (tbl t0 i)" and ?f = "2 ^ (tot t0 i - len s) :: nat"
  have t32: "tot t0 i \<le> 32" by (rule shapeD(2) [OF sh0 assms(6)])
  have "topb (pre t0 i) (lo s) = qs ! i"
    using top_eq_mono [of "pre t0 i" "len s" "unat x" "lo s"] assms(5,7,8,9) t32 by (simp add: starts_with_def)
  note c0 = code_cell [OF sh0 assms(6) this] and c = code_cell [OF sh0 assms(6,9)]
  have "cell_ok t0 qs S S i ?l" using build_invD(4) [OF assms(1,6) c0(1)] by (simp split: if_splits)
  then have "(\<exists>s' \<in> S. leaf_cell t0 qs s' i ?l) \<or> branch_cell t0 qs i ?l"
    using assms(4) c0(2) by (rule leaf_or_branch)
  moreover have "\<not> branch_cell t0 qs i ?l"
    using branch_longer [OF assms(1,2) _ _ assms(4,6) _ c0(2)] assms(8) by auto
  ultimately have leaf: "leaf_cell t0 qs s i ?l"
    using leaf_unique [OF assms(2,4) _ _ t32 c0(2)] by blast
  have "topb (tot t0 i) (unat x) div ?f = topb (len s) (lo s)"
    using top_top [OF assms(8) t32, of "unat x"] assms(5) by (simp add: starts_with_def)
  then have "topb (tot t0 i) (unat x) = topb (len s) (lo s) * ?f + topb (tot t0 i) (unat x) mod ?f"
    by (metis div_mult_mod_eq)
  then have "cell_no t0 qs i ?j = cell_no t0 qs i ?l + topb (tot t0 i) (unat x) mod ?f"
    using c(2) leaf_group(2) [OF sh0 assms(6,2,4) leaf c0(1)] by simp
  then have j: "?j = ?l + topb (tot t0 i) (unat x) mod ?f" by (simp add: cell_no_def)
  have "ent t i (?l + topb (tot t0 i) (unat x) mod ?f) = ent t0 i ?l"
    by (rule fill_invD(5) [OF assms(3,6) c0(1) assms(4) disjI1 [OF assms(6)] leaf mod_less_divisor]) simp
  then have "ent t i ?j = \<lparr>next_table_index = i, entry_length = len s, symbol_id = sym_id s\<rparr>"
    using j leaf by (simp add: leaf_cell_def)
  then show ?thesis using Entry_shape [of t i ?j] f assms(6) c(1) by simp
qed

text \<open>A lookup in a table above it.\<close>

lemma branch_found:
  assumes "build_inv t0 qs S S 0" and "prefix_code S" and "fill_inv t0 qs S (ntables t0) 0 t"
    and "s \<in> S" and "starts_with x s" and "i < ntables t0" and "tot t0 i < len s"
    and "topb (pre t0 i) (unat x) = qs ! i"
  shows "\<exists>e k. Entry (tbl t i) (table_index_of x (tbl t i)) t = Some e \<and> next_table_index e = k \<and>
    k < ntables t0 \<and> pre t0 k = tot t0 i \<and> topb (pre t0 k) (unat x) = qs ! k \<and>
    (tot t0 k = tot t0 i + 6 \<or> len s \<le> tot t0 k)"
proof -
  note sh0 = build_invD(1) [OF assms(1)] and f = assms(3) [unfolded fill_inv_def]
  let ?j = "table_index_of x (tbl t0 i)"
  note c = code_cell [OF sh0 assms(6,8)]
  have s32: "len s \<le> 32" by (rule prefix_codeD(2) [OF assms(2,4)])
  have eq: "topb n (lo s) = topb n (unat x)" if "n \<le> len s" for n
    by (rule top_eq_mono [OF that s32 assms(5) [unfolded starts_with_def, symmetric]])
  have cell: "topb (tot t0 i) (lo s) = cell_no t0 qs i ?j"
    using eq [OF less_imp_le [OF assms(7)]] c(2) by (rule trans)
  have "cell_ok t0 qs S S i ?j" using build_invD(4) [OF assms(1,6) c(1)] by (simp split: if_splits)
  then have "(\<exists>s' \<in> S. leaf_cell t0 qs s' i ?j) \<or> branch_cell t0 qs i ?j"
    using assms(4) cell by (rule leaf_or_branch)
  moreover have "\<not> leaf_cell t0 qs s' i ?j" if "s' \<in> S" for s'
    using leaf_unique [OF assms(2,4) that _ shapeD(2) [OF sh0 assms(6)] cell] assms(7) by (auto simp: leaf_cell_def)
  ultimately have b: "branch_cell t0 qs i ?j" by blast
  then have e: "ent t i ?j = ent t0 i ?j" by (intro fill_invD(4) [OF assms(3,6) c(1)] disjI2)
  define k where "k = next_table_index (ent t0 i ?j)"
  have k: "i < k" "k < ntables t0" "pre t0 k = tot t0 i" "qs ! k = cell_no t0 qs i ?j"
    using b by (simp_all add: branch_cell_def k_def Let_def)
  have "topb (pre t0 k) (lo s) = qs ! k" using k(3,4) cell by simp
  then obtain s0 where "tot t0 k = min (pre t0 k + 6) (len s0)" "len s \<le> len s0"
    using build_invD(5) [OF assms(1), of k] k(1,2) assms(4) unfolding table_ok_def by auto
  then have "tot t0 k = tot t0 i + 6 \<or> len s \<le> tot t0 k" using k(3) by auto
  moreover have "Entry (tbl t i) (table_index_of x (tbl t i)) t = Some (ent t0 i ?j)"
    using Entry_shape [of t i ?j] f assms(6) c(1) e by simp
  moreover have "topb (pre t0 k) (unat x) = qs ! k" using c(2) k(3,4) by simp
  ultimately show ?thesis using k(2,3) k_def by blast
qed

lemma descend_stays:
  assumes "Entry (tbl t i) (table_index_of x (tbl t i)) t = Some e" and "next_table_index e = i" and "i < ntables t"
  shows "descend n x (tbl t i) (table_index_of x (tbl t i)) t = Some (tbl t i, table_index_of x (tbl t i))"
  using assms by (induction n) (simp_all add: get_table_shape)

lemma descend_ok:
  assumes "build_inv t0 qs S S 0" and "prefix_code S" and "fill_inv t0 qs S (ntables t0) 0 t"
    and "s \<in> S" and "starts_with x s"
    and "i < ntables t0" and "pre t0 i < len s" and "topb (pre t0 i) (unat x) = qs ! i" and "len s \<le> tot t0 i + 6 * n"
  shows "\<exists>k j. descend n x (tbl t i) (table_index_of x (tbl t i)) t = Some (tbl t k, j) \<and>
    Entry (tbl t k) j t = Some \<lparr>next_table_index = k, entry_length = len s, symbol_id = sym_id s\<rparr>"
  using assms(6-9)
proof (induction n arbitrary: i)
  case 0
  then show ?case using leaf_found [OF assms(1-5)] by auto
next
  case (Suc n)
  have tb: "decode_tables t = decode_tables t0" using assms(3) by (simp add: fill_inv_def)
  show ?case
  proof (cases "len s \<le> tot t0 i")
    case True
    then have e: "Entry (tbl t i) (table_index_of x (tbl t i)) t =
        Some \<lparr>next_table_index = i, entry_length = len s, symbol_id = sym_id s\<rparr>"
      using leaf_found [OF assms(1-5)] Suc.prems by simp
    then show ?thesis using descend_stays [OF e, of "Suc n"] Suc.prems(1) tb by auto
  next
    case False
    then obtain e k where k: "Entry (tbl t i) (table_index_of x (tbl t i)) t = Some e" "next_table_index e = k"
      "k < ntables t0" "pre t0 k = tot t0 i" "topb (pre t0 k) (unat x) = qs ! k"
      "tot t0 k = tot t0 i + 6 \<or> len s \<le> tot t0 k"
      using branch_found [OF assms(1-5) Suc.prems(1) _ Suc.prems(3)] by (meson not_le)
    have "len s \<le> tot t0 k + 6 * n" using k(6) Suc.prems(4) by auto
    moreover have "pre t0 k < len s" using k(4) False by simp
    ultimately show ?thesis using Suc.IH [OF k(3) _ k(5)] k(1-3) tb by (simp add: get_table_shape)
  qed
qed

lemma lookup_entry_ok:
  assumes "tables_for S t" and "prefix_code S" and "s \<in> S" and "starts_with x s"
  shows "\<exists>k. lookup_entry x t = Some \<lparr>next_table_index = k, entry_length = len s, symbol_id = sym_id s\<rparr>"
proof -
  obtain t0 qs where t0: "build_inv t0 qs S S 0" "fill_inv t0 qs S (ntables t0) 0 t"
    using assms(1) by (auto simp: tables_for_def)
  note r = shape_root [OF build_invD(1) [OF t0(1)]]
  have tb: "decode_tables t = decode_tables t0" using t0(2) by (simp add: fill_inv_def)
  have "unat x < 2 ^ 32" using unsigned_less [of x, where 'a = nat] by simp
  then have "topb (pre t0 0) (unat x) = qs ! 0" using r(2) build_invD(3) [OF t0(1)] by simp
  moreover have "pre t0 0 < len s" "len s \<le> tot t0 0 + 6 * 4"
    using r prefix_codeD [OF assms(2,3)] by simp_all
  ultimately obtain k j where "descend 4 x (tbl t 0) (table_index_of x (tbl t 0)) t = Some (tbl t k, j)"
    "Entry (tbl t k) j t = Some \<lparr>next_table_index = k, entry_length = len s, symbol_id = sym_id s\<rparr>"
    using descend_ok [OF t0(1) assms(2) t0(2) assms(3,4) r(1), of 4] by blast
  moreover have "unat (drop_bit 23 x) = table_index_of x (tbl t 0)"
    using r(2,3) tb by (simp add: table_index_of_def)
  ultimately show ?thesis
    using r(1) tb by (simp add: lookup_entry_def kDecodeIterations_def kDecodeTableRootBits_def
        kDecodeTableBranchBits_def get_table_def)
qed

section \<open>Canonical codes\<close>

lemma bad_id_None: "bad_id i ss = None \<longleftrightarrow> map sym_id ss = [i..<i + length ss]"
proof (induction ss arbitrary: i)
  case (Cons s ss)
  have "[i..<i + length (s # ss)] = i # [Suc i..<Suc i + length ss]" by (simp add: upt_conv_Cons del: upt_Suc)
  then show ?case using Cons [of "Suc i"] by (auto simp del: upt_Suc)
qed simp

text \<open>Codes that follow each other without a gap, in the order of their lengths.\<close>

definition chained :: "huffman_symbol \<Rightarrow> huffman_symbol \<Rightarrow> bool" where
  "chained a b \<longleftrightarrow> len a \<le> len b \<and> lo a + 2 ^ (32 - len a) \<le> lo b"

definition length_ok :: "huffman_symbol \<Rightarrow> bool" where
  "length_ok s \<longleftrightarrow> 0 < len s \<and> len s \<le> 32"

lemma next_code:
  assumes "length_ok a" and "sym_code b = sym_code a + push_bit (32 - len a) 1"
    and "\<not> sym_code b < sym_code a"
  shows "lo b = lo a + 2 ^ (32 - len a)"
proof -
  have "32 - len a < 32" using assms(1) by (simp add: length_ok_def)
  then have "unat (push_bit (32 - len a) (1 :: uint32)) = 2 ^ (32 - len a)"
    using power_strict_increasing [of "32 - len a" 32 "2 :: nat"] unfolding unsigned_push_bit_eq
    by (simp add: push_bit_eq_mult take_bit_eq_mod)
  moreover have "sym_code a \<le> sym_code a + push_bit (32 - len a) 1" using assms(2,3) by simp
  ultimately show ?thesis unfolding assms(2) by (simp only: unat_plus_simple)
qed

lemma bad_code_None:
  assumes "bad_code ss = None" and "sorted (map len ss)" and "\<forall>s \<in> set ss. length_ok s"
    and "ss \<noteq> [] \<longrightarrow> 2 ^ (32 - len (hd ss)) dvd lo (hd ss)"
  shows "sorted_wrt chained ss \<and> (\<forall>s \<in> set ss. 2 ^ (32 - len s) dvd lo s)"
  using assms
proof (induction ss rule: bad_code.induct)
  case (1 a b ss)
  have ab: "lo b = lo a + 2 ^ (32 - len a)" "bad_code (b # ss) = None"
    using next_code [of a b] 1(2,4) by (auto simp: Let_def split: if_splits)
  have le: "len a \<le> len b" using 1(3) by simp
  have d: "(2::nat) ^ (32 - len b) dvd 2 ^ (32 - len a)" using le by (intro le_imp_power_dvd) simp
  then have "2 ^ (32 - len b) dvd lo b" using ab(1) 1(5) dvd_trans by (auto intro!: dvd_add)
  then have IH: "sorted_wrt chained (b # ss)" "\<forall>s \<in> set (b # ss). 2 ^ (32 - len s) dvd lo s"
    using 1(1) [of "32 - len a"] ab(2) 1(2-4) by (auto simp: Let_def split: if_splits)
  have "chained a x" if "x \<in> set (b # ss)" for x
    using that IH(1) ab(1) le by (auto simp: chained_def)
  then show ?case using IH 1(5) by simp
qed simp_all

lemma chained_prefix_code:
  assumes "sorted_wrt chained ss" and "\<forall>s \<in> set ss. length_ok s \<and> 2 ^ (32 - len s) dvd lo s"
  shows "prefix_code (set ss)"
proof -
  have apart: "topb (len s) (lo s') \<noteq> topb (len s) (lo s)" if "chained s s' \<or> chained s' s \<and> len s' = len s" for s s'
  proof -
    have "y div 2 ^ k \<noteq> x div 2 ^ k" if "x + 2 ^ k \<le> y" for x y k :: nat
      using div_le_mono [OF that, of "2 ^ k"] by (simp add: div_add_self2)
    then show ?thesis using that by (fastforce simp: topb_def chained_def)
  qed
  have "s = s'" if s: "s \<in> set ss" "s' \<in> set ss" "len s \<le> len s'" "topb (len s) (lo s') = topb (len s) (lo s)" for s s'
  proof -
    obtain i j where ij: "i < length ss" "s = ss ! i" "j < length ss" "s' = ss ! j"
      using s(1,2) by (auto simp: in_set_conv_nth)
    have "\<not> i < j" using apart [of s s'] s(4) sorted_wrt_nth_less [OF assms(1), of i j] ij by auto
    moreover have "\<not> j < i"
      using apart [of s s'] s(3,4) sorted_wrt_nth_less [OF assms(1), of j i] ij by (auto simp: chained_def)
    ultimately show ?thesis using ij by (simp add: not_less)
  qed
  then show ?thesis using assms(2) by (auto simp: prefix_code_def length_ok_def)
qed

text \<open>The windows below the end of the last code are those that start with a code.\<close>

lemma starts_with_interval:
  assumes "length_ok s" and "2 ^ (32 - len s) dvd lo s" and "lo s \<le> unat x" and "unat x < lo s + 2 ^ (32 - len s)"
  shows "starts_with x s"
proof -
  obtain k where "lo s = 2 ^ (32 - len s) * k" using assms(2) by blast
  then have "unat x div 2 ^ (32 - len s) = k" using assms(3,4) by (intro div_nat_eqI) (simp_all add: algebra_simps)
  then show ?thesis using \<open>lo s = 2 ^ (32 - len s) * k\<close> by (simp add: starts_with_def topb_def)
qed

lemma chain_covers:
  assumes "bad_code ss = None" and "\<forall>s \<in> set ss. length_ok s \<and> 2 ^ (32 - len s) dvd lo s" and "ss \<noteq> []"
    and "lo (hd ss) \<le> unat x" and "unat x < lo (last ss) + 2 ^ (32 - len (last ss))"
  shows "\<exists>s \<in> set ss. starts_with x s"
  using assms
proof (induction ss rule: bad_code.induct)
  case (1 a b ss)
  have ab: "lo b = lo a + 2 ^ (32 - len a)" "bad_code (b # ss) = None"
    using next_code [of a b] 1(2,3) by (auto simp: Let_def split: if_splits)
  show ?case
  proof (cases "unat x < lo b")
    case True
    then have "starts_with x a" using 1(3,5) ab(1) by (intro starts_with_interval) auto
    then show ?thesis by auto
  next
    case False
    then have "\<exists>s \<in> set (b # ss). starts_with x s"
      using 1(1) [of "32 - len a"] ab(2) 1(2,3,6) by (auto simp: Let_def split: if_splits)
    then show ?thesis by auto
  qed
next
  case "2_2"
  then show ?case by (auto intro: starts_with_interval)
qed simp


text \<open>The code is complete: every window starts with a code.\<close>

definition complete_code :: "huffman_symbol list \<Rightarrow> bool" where
  "complete_code syms \<longleftrightarrow> (\<forall>x. \<exists>s \<in> set syms. starts_with x s)"

section \<open>Initialisation\<close>

text \<open>What \<open>Initialize\<close> demands of the symbols.\<close>

definition by_length :: "huffman_symbol list \<Rightarrow> huffman_symbol list" where
  "by_length syms = sort_key SymbolLengthAndIdKey syms"

definition canonical :: "huffman_symbol list \<Rightarrow> bool" where
  "canonical syms \<longleftrightarrow>
     map sym_id syms = [0..<length syms] \<and> sym_code (hd (by_length syms)) = 0 \<and>
     bad_code (by_length syms) = None \<and> 8 \<le> len (last (by_length syms))"

text \<open>What it provides.\<close>

definition huffman_ok :: "huffman_symbol list \<Rightarrow> huffman_table \<Rightarrow> bool" where
  "huffman_ok syms t \<longleftrightarrow>
     prefix_code (set syms) \<and> tables_for (set syms) t \<and>
     map sym_id syms = [0..<length syms] \<and> code_by_id t = map sym_code syms \<and> length_by_id t = map len syms \<and>
     (\<exists>l \<in> set syms. 8 \<le> len l \<and> pad_bits t = ucast (drop_bit 24 (sym_code l)) \<and>
        (\<forall>x. unat x < lo l + 2 ^ (32 - len l) \<longrightarrow> (\<exists>s \<in> set syms. starts_with x s)))"

lemma by_length_simps [simp]:
  "set (by_length syms) = set syms" "by_length syms = [] \<longleftrightarrow> syms = []" "length (by_length syms) = length syms"
  unfolding by_length_def by (simp_all flip: length_0_conv)

lemma by_length_sorted: "sorted (map len (by_length syms))"
proof -
  have "sorted (map SymbolLengthAndIdKey (by_length syms))" unfolding by_length_def by (rule sorted_sort_key)
  then show ?thesis
    unfolding sorted_map
    by (rule sorted_wrt_mono_rel [rotated]) (auto simp: SymbolLengthAndIdKey_def less_eq_prod_def)
qed

lemma distinct_by_length: "distinct (map sym_id syms) \<Longrightarrow> distinct (by_length syms)"
  unfolding by_length_def by (simp add: distinct_map)

lemma sort_by_id:
  assumes "map sym_id syms = [0..<n]"
  shows "sort_key sym_id (by_length syms) = syms"
proof (rule sort_key_inj_key_eq)
  show "mset (by_length syms) = mset syms" by (simp add: by_length_def)
  have "distinct (map sym_id syms)" using assms by simp
  then show "inj_on sym_id (set (by_length syms))" unfolding distinct_map by simp
  show "sorted (map sym_id syms)" using assms by simp
qed

lemma encode_loop_ok:
  assumes "map sym_id ss = [i..<i + length ss]"
  shows "encode_loop i ss t =
    Some (t\<lparr>code_by_id := code_by_id t @ map sym_code ss, length_by_id := length_by_id t @ map len ss\<rparr>)"
  using assms
proof (induction ss arbitrary: i t)
  case (Cons s ss)
  have "[i..<i + length (s # ss)] = i # [Suc i..<Suc i + length ss]" by (simp add: upt_conv_Cons del: upt_Suc)
  then show ?case using Cons by (simp del: upt_Suc)
qed simp

lemma BuildDecodeTables_ok:
  assumes "prefix_code (set ss)" and "distinct ss" and "sorted (map len ss)" and "card (table_keys (set ss)) < 255"
    and "decode_tables t = []" and "decode_entries t = []"
  shows "\<exists>t'. BuildDecodeTables ss t = Some t' \<and> tables_for (set ss) t' \<and> same_code t t'"
proof -
  have "sorted_wrt (\<lambda>a b. len b \<le> len a) (rev ss)" using assms(3) by (simp add: sorted_map sorted_wrt_rev)
  then obtain t0 qs where t0: "place_symbols (rev ss) (with_table 0 9 t) = Some t0"
    "build_inv t0 qs (set ss) (set ss) 0" "same_code t t0"
    using place_symbols_ok [OF first_table_inv [OF assms(5,6)] assms(1), of "rev ss"] assms(2,4) by auto
  have "fill_inv t0 qs (set ss) 0 0 t0" using build_invD(1) [OF t0(2)] by (simp add: fill_inv_def)
  then obtain t' where "fill_tables (decode_tables t0) t0 = Some t'" "fill_inv t0 qs (set ss) (ntables t0) 0 t'"
    using fill_tables_ok [OF t0(2) assms(1), of 0 t0] by auto
  moreover have "same_code t0 t'" using calculation(2) by (rule fill_invD(3))
  ultimately show ?thesis
    using t0 same_code_trans assms(5)
    by (auto simp: BuildDecodeTables_def tables_for_def AddDecodeTable_eq kDecodeTableRootBits_def)
qed

lemma tables_for_code:
  assumes "tables_for S t"
  shows "tables_for S (t\<lparr>code_by_id := a, length_by_id := b\<rparr>)"
proof -
  obtain t0 qs where t0: "build_inv t0 qs S S 0" "fill_inv t0 qs S (ntables t0) 0 t"
    using assms by (auto simp: tables_for_def)
  let ?c = "\<lambda>t. t\<lparr>code_by_id := a, length_by_id := b\<rparr>"
  have e: "shape (?c t) = shape t" "ent (?c t) = ent t" "cell_no (?c t) = cell_no t" for t
    by (simp_all add: shape_def ent_def cell_no_def fun_eq_iff)
  have c: "cell_ok (?c t) = cell_ok t" "table_ok (?c t) = table_ok t" "leaf_cell (?c t) = leaf_cell t"
    "branch_cell (?c t) = branch_cell t" for t
    by (simp_all add: cell_ok_def empty_cell_def leaf_cell_def branch_cell_def table_ok_def e fun_eq_iff)
  have "build_inv (?c t0) qs S S 0" using t0(1) by (simp add: build_inv_def e c)
  moreover have "fill_inv (?c t0) qs S (ntables (?c t0)) 0 (?c t)"
    using t0(2) by (simp add: fill_inv_def e c same_code_def)
  ultimately show ?thesis unfolding tables_for_def by blast
qed

lemma Initialize_canonical:
  assumes "canonical syms" and "\<forall>s \<in> set syms. length_ok s" and "syms \<noteq> []" and "length syms < 2 ^ 16"
    and "card (table_keys (set syms)) < 255"
  shows "\<exists>t. HuffmanTable_Initialize syms HpackHuffmanTable = Some (True, t) \<and> huffman_ok syms t"
proof -
  let ?ss = "by_length syms" and ?t = "HpackHuffmanTable\<lparr>pad_bits := ucast (drop_bit 24 (sym_code (last (by_length syms))))\<rparr>"
  have c: "map sym_id syms = [0..<length syms]" "sym_code (hd ?ss) = 0" "bad_code ?ss = None" "8 \<le> len (last ?ss)"
    using assms(1) by (simp_all add: canonical_def)
  have chain: "sorted_wrt chained ?ss" "\<forall>s \<in> set syms. 2 ^ (32 - len s) dvd lo s"
    using bad_code_None [OF c(3) by_length_sorted] assms(2) c(2) by simp_all
  have pc: "prefix_code (set syms)" using chained_prefix_code [OF chain(1)] chain(2) assms(2) by simp
  have "distinct (map sym_id syms)" using c(1) by simp
  note d = distinct_by_length [OF this]
  obtain t where t: "BuildDecodeTables ?ss ?t = Some t" "tables_for (set syms) t" "same_code ?t t"
    using BuildDecodeTables_ok [OF _ d by_length_sorted, of ?t] pc assms(5) by (auto simp: HpackHuffmanTable_def)
  define t' where "t' = t\<lparr>code_by_id := map sym_code syms, length_by_id := map len syms\<rparr>"
  have "BuildEncodeTable (sort_key sym_id ?ss) t = Some t'"
    using encode_loop_ok [of syms 0 t] c(1) t(3)
    by (simp add: sort_by_id [OF c(1)] BuildEncodeTable_def t'_def same_code_def HpackHuffmanTable_def)
  then have "HuffmanTable_Initialize syms HpackHuffmanTable = Some (True, t')"
    using assms(3,4) c t(1) bad_id_None [of 0 syms]
    by (simp add: HuffmanTable_Initialize_def IsInitialized_def HpackHuffmanTable_def Let_def flip: by_length_def)
  moreover have "huffman_ok syms t'"
  proof -
    have "tables_for (set syms) t'" unfolding t'_def by (rule tables_for_code [OF t(2)])
    moreover have "last ?ss \<in> set syms" using assms(3) last_in_set [of ?ss] by simp
    moreover have "\<exists>s \<in> set syms. starts_with x s" if "unat x < lo (last ?ss) + 2 ^ (32 - len (last ?ss))" for x
      using chain_covers [OF c(3), of x] that assms(2,3) chain(2) c(2) by simp
    ultimately show ?thesis using pc c(1,4) t(3) unfolding huffman_ok_def by (auto simp: t'_def same_code_def)
  qed
  ultimately show ?thesis by blast
qed

lemma Initialize_rejects:
  assumes "\<not> canonical syms" and "syms \<noteq> []" and "length syms < 2 ^ 16"
  shows "\<exists>t. HuffmanTable_Initialize syms HpackHuffmanTable = Some (False, t) \<and> \<not> IsInitialized t"
  using assms bad_id_None [of 0 syms]
  by (auto simp: HuffmanTable_Initialize_def IsInitialized_def HpackHuffmanTable_def Let_def canonical_def
      split: option.splits simp flip: by_length_def)


lemma card_table_keys:
  "card (table_keys (set syms)) =
     length (remdups (concat (map (\<lambda>s. map (\<lambda>p. (p, topb p (lo s))) (filter (\<lambda>p. p < len s) [9, 15, 21, 27])) syms)))"
  (is "_ = length (remdups ?ks)")
proof -
  have "set (filter (\<lambda>p. p < n) ps) = {p \<in> set ps. p < n}" for n and ps :: "nat list" by auto
  then have "table_keys (set syms) = set ?ks" by (simp only: table_keys_def set_concat set_map list.set image_image)
  then show ?thesis by (simp only: List.card_set)
qed

text \<open>[C27]
  \<open>Initialize\<close> decides whether the symbols form a canonical code, and fails no \<open>CHECK\<close> as long as the
  code needs fewer than 255 tables. For a canonical code every lookup is right: a 32-bit window
  that starts with the code of a symbol leads, in the fixed number of steps of \<open>DecodeString\<close>, to an
  entry with the length and the id of this symbol.
\<close>

theorem huffman_tables_decode:
  assumes "\<forall>s \<in> set syms. length_ok s" and "syms \<noteq> []" and "length syms < 2 ^ 16"
    and "card (table_keys (set syms)) < 255"
  shows "\<exists>t. HuffmanTable_Initialize syms HpackHuffmanTable = Some (canonical syms, t) \<and>
    (canonical syms \<longrightarrow>
       (\<forall>s \<in> set syms. \<forall>x. starts_with x s \<longrightarrow>
          (\<exists>e. lookup_entry x t = Some e \<and> entry_length e = len s \<and> symbol_id e = sym_id s)))"
proof (cases "canonical syms")
  case True
  then obtain t where t: "HuffmanTable_Initialize syms HpackHuffmanTable = Some (True, t)" "huffman_ok syms t"
    using Initialize_canonical assms by blast
  have "\<exists>e. lookup_entry x t = Some e \<and> entry_length e = len s \<and> symbol_id e = sym_id s"
    if "s \<in> set syms" "starts_with x s" for s x
    using lookup_entry_ok [OF _ _ that, of t] t(2) by (auto simp: huffman_ok_def)
  then show ?thesis using t(1) True by auto
next
  case False
  then show ?thesis using Initialize_rejects assms(2,3) by auto
qed

text \<open>[C27] A code with a symbol of one bit and one of ten bits, which needs a second table.\<close>

definition two_symbols :: "huffman_symbol list" where
  "two_symbols =
     [\<lparr>sym_code = 0, sym_length = 1, sym_id = 0\<rparr>, \<lparr>sym_code = 0x80000000, sym_length = 10, sym_id = 1\<rparr>]"

lemma two_symbols_simps:
  "by_length two_symbols = two_symbols" "canonical two_symbols" "\<forall>s \<in> set two_symbols. length_ok s"
  "card (table_keys (set two_symbols)) = 1"
proof -
  show b: "by_length two_symbols = two_symbols"
    by (simp add: by_length_def two_symbols_def SymbolLengthAndIdKey_def)
  then show "canonical two_symbols" by (simp add: canonical_def two_symbols_def)
  show "\<forall>s \<in> set two_symbols. length_ok s" by (simp add: two_symbols_def length_ok_def)
  show "card (table_keys (set two_symbols)) = 1"
    unfolding card_table_keys by (simp add: two_symbols_def)
qed

theorem huffman_tables_decode_witness:
  "\<exists>t. HuffmanTable_Initialize two_symbols HpackHuffmanTable = Some (True, t) \<and>
    (\<exists>e. lookup_entry 0x803FFFFF t = Some e \<and> entry_length e = 10 \<and> symbol_id e = 1)"
proof -
  have "starts_with 0x803FFFFF \<lparr>sym_code = 0x80000000, sym_length = 10, sym_id = 1\<rparr>"
    by (simp add: starts_with_def topb_def)
  moreover have "\<lparr>sym_code = 0x80000000, sym_length = 10, sym_id = 1\<rparr> \<in> set two_symbols"
    by (simp add: two_symbols_def)
  ultimately show ?thesis
    using huffman_tables_decode [of two_symbols] two_symbols_simps by (fastforce simp: two_symbols_def)
qed

end
