(* ===== verification/Hpack_Huffman_Coding.thy ===== *)
theory Hpack_Huffman_Coding
  imports Hpack_Huffman_Build
begin

text \<open>
  \<open>EncodeString\<close> and \<open>DecodeString\<close> of \<open>HpackHuffmanTable\<close>, seen as functions on lists of bits: the
  streams of HPACK are read as the bits that they hold. Shown: decoding is the greedy division of
  the bits into codes, and it inverts encoding.
\<close>

section \<open>Streams as lists of bits\<close>

text \<open>The low \<open>n\<close> bits of a word, the most significant first.\<close>

definition low_bits :: "nat \<Rightarrow> 'a::len word \<Rightarrow> bool list" where
  "low_bits n w = map (\<lambda>i. bit w (n - 1 - i)) [0..<n]"

abbreviation byte_bits :: "uint8 \<Rightarrow> bool list" where "byte_bits \<equiv> low_bits 8"

definition bytes_bits :: "uint8 list \<Rightarrow> bool list" where
  "bytes_bits bs = concat (map byte_bits bs)"

lemma length_low_bits [simp]: "length (low_bits n w) = n"
  by (simp add: low_bits_def)

lemma nth_low_bits [simp]: "i < n \<Longrightarrow> low_bits n w ! i = bit w (n - 1 - i)"
  by (simp add: low_bits_def)

lemma low_bits_0 [simp]: "low_bits 0 w = []"
  by (simp add: low_bits_def)

lemma low_bits_split: "low_bits (m + k) w = low_bits m (drop_bit k w) @ low_bits k w"
  by (rule nth_equalityI) (auto simp: nth_append bit_simps intro!: arg_cong [of _ _ "bit w"])

lemma low_bits_ucast: "n \<le> LENGTH('b) \<Longrightarrow> low_bits n (ucast (w :: 'a::len word) :: 'b::len word) = low_bits n w"
  by (rule nth_equalityI) (auto simp: bit_simps dest: bit_imp_le_length)

lemma bytes_bits_simps [simp]:
  "bytes_bits [] = []" "bytes_bits (b # bs) = byte_bits b @ bytes_bits bs"
  "bytes_bits (xs @ ys) = bytes_bits xs @ bytes_bits ys"
  by (simp_all add: bytes_bits_def)

lemma length_bytes_bits [simp]: "length (bytes_bits bs) = 8 * length bs"
  by (induction bs) auto

lemma nth_bytes_bits: "i < 8 * length bs \<Longrightarrow> bytes_bits bs ! i = bit (bs ! (i div 8)) (7 - i mod 8)"
proof (induction bs arbitrary: i)
  case (Cons b bs)
  show ?case
  proof (cases "i < 8")
    case False
    then have "i div 8 = Suc ((i - 8) div 8)" "i mod 8 = (i - 8) mod 8"
      by (simp_all add: div_if [of i] mod_if [of i])
    then show ?thesis using False Cons by (simp add: nth_append)
  qed (simp add: nth_append)
qed simp

lemma byte_bits_inj: "byte_bits a = byte_bits b \<Longrightarrow> a = b"
proof (rule bit_word_eqI)
  fix n assume eq: "byte_bits a = byte_bits b" and "n < LENGTH(8)"
  then have "byte_bits a ! (7 - n) = byte_bits b ! (7 - n)" "n < 8" by simp_all
  then show "bit a n = bit b n" by simp
qed

lemma bytes_bits_inj: "bytes_bits xs = bytes_bits ys \<Longrightarrow> xs = ys"
proof (induction xs arbitrary: ys)
  case Nil
  then have "length (bytes_bits ys) = 0" by (metis bytes_bits_simps(1) list.size(3))
  then show ?case by simp
next
  case (Cons x xs)
  have "length (bytes_bits (x # xs)) = length (bytes_bits ys)" using Cons.prems by (simp only:)
  then obtain y ys' where "ys = y # ys'" by (cases ys) auto
  then show ?case using Cons byte_bits_inj by auto
qed

section \<open>The output stream\<close>

definition out_bits :: "hpack_output_stream \<Rightarrow> bool list" where
  "out_bits s =
     (if out_bit_offset s = 0 then bytes_bits (out_buffer s)
      else bytes_bits (butlast (out_buffer s)) @ take (out_bit_offset s) (byte_bits (last (out_buffer s))))"

lemma bit_above: "drop_bit n b = 0 \<Longrightarrow> bit b k \<Longrightarrow> k < n" for b :: "'a::len word"
proof (rule ccontr)
  assume d: "drop_bit n b = 0" and k: "bit b k" "\<not> k < n"
  then have "bit (drop_bit n b) (k - n)" by (subst bit_drop_bit_eq) simp
  then show False by (simp add: d)
qed

lemma bit_masked: "l AND mask n = (0 :: uint8) \<Longrightarrow> bit l k \<Longrightarrow> n \<le> k"
proof (rule ccontr)
  assume m: "l AND mask n = 0" and k: "bit l k" "\<not> n \<le> k"
  have "bit (l AND mask n) k" using k bit_imp_le_length [OF k(1)] unfolding bit_and_iff bit_mask_iff by simp
  then show False by (simp add: m)
qed

text \<open>Filling a byte that has its first \<open>m\<close> bits.\<close>

lemma or_bits:
  fixes l b :: uint8
  assumes "l AND mask (8 - m) = 0" and "drop_bit n b = 0" and "m + n \<le> 8"
  shows "take (m + n) (byte_bits (l OR push_bit (8 - (m + n)) b)) = take m (byte_bits l) @ low_bits n b"
proof (rule nth_equalityI)
  fix i assume i: "i < length (take (m + n) (byte_bits (l OR push_bit (8 - (m + n)) b)))"
  have l: "bit l k \<Longrightarrow> 8 - m \<le> k" for k by (rule bit_masked [OF assms(1)])
  have b: "bit b k \<Longrightarrow> k < n" for k by (rule bit_above [OF assms(2)])
  show "take (m + n) (byte_bits (l OR push_bit (8 - (m + n)) b)) ! i = (take m (byte_bits l) @ low_bits n b) ! i"
  proof (cases "i < m")
    case True
    then show ?thesis using i assms(3) by (auto simp: nth_append bit_simps dest: b)
  next
    case False
    then have "7 - i - (8 - (m + n)) = n - Suc (i - m)" "8 - (m + n) \<le> 7 - i" using i assms(3) by auto
    then show ?thesis using i assms(3) False by (auto simp: nth_append bit_simps dest: l)
  qed
qed (use assms(3) in simp)

lemma or_bits_high:
  fixes l b :: uint8
  assumes "l AND mask (8 - m) = 0" and "drop_bit n b = 0" and "8 < m + n" and "m \<le> 8" and "n \<le> 8"
  shows "byte_bits (l OR drop_bit (m + n - 8) b) = take m (byte_bits l) @ low_bits (8 - m) (drop_bit (m + n - 8) b)"
proof -
  let ?b = "drop_bit (m + n - 8) b"
  have "drop_bit (8 - m) ?b = 0" using assms(2-5) by simp
  from or_bits [OF assms(1) this] show ?thesis using assms(4) by simp
qed

lemma push_bit_masked: "push_bit k b AND mask k = (0 :: uint8)"
  by (rule bit_word_eqI) (auto simp: bit_simps)

lemma or_masked: "(l OR push_bit k b) AND mask k = (0 :: uint8)" if "l AND mask m = 0" "k \<le> m"
proof (rule bit_word_eqI)
  fix n
  show "bit ((l OR push_bit k b) AND mask k) n = bit (0 :: uint8) n"
    using bit_masked [OF that(1), of n] that(2) by (auto simp: bit_simps)
qed

lemma AppendBits_bits:
  assumes "output_ok s" and "0 < n" and "n \<le> 8" and "drop_bit n b = 0"
  shows "output_ok (AppendBits b n s) \<and> out_bits (AppendBits b n s) = out_bits s @ low_bits n b"
proof (cases "out_bit_offset s = 0")
  case True
  have "take n (byte_bits (push_bit (8 - n) b)) = low_bits n b"
    using or_bits [of 0 0 n b] assms(3,4) by simp
  then show ?thesis
    using True assms push_bit_masked
    by (cases "n = 8") (simp_all add: AppendBits_def out_bits_def output_ok_def Let_def)
next
  case False
  then obtain bs l where bs: "out_buffer s = bs @ [l]" and l: "l AND mask (8 - out_bit_offset s) = 0"
    and m: "out_bit_offset s < 8"
    using assms(1) by (cases "out_buffer s" rule: rev_cases) (auto simp: output_ok_def)
  let ?m = "out_bit_offset s"
  have old: "out_bits s = bytes_bits bs @ take ?m (byte_bits l)" using False bs by (simp add: out_bits_def)
  show ?thesis
  proof (cases "?m + n \<le> 8")
    case True
    define x where "x = l OR push_bit (8 - (?m + n)) b"
    have s': "AppendBits b n s = s\<lparr>out_buffer := bs @ [x], out_bit_offset := (?m + n) mod 8\<rparr>"
      using False True bs by (simp add: AppendBits_def or_last_def Let_def x_def)
    have "take (?m + n) (byte_bits x) = take ?m (byte_bits l) @ low_bits n b"
      using or_bits [OF l assms(4) True] by (simp add: x_def)
    moreover have "x AND mask (8 - (?m + n)) = 0"
      unfolding x_def by (rule or_masked [OF l]) simp
    ultimately show ?thesis
      using True assms(2) old s' by (cases "?m + n = 8") (simp_all add: out_bits_def output_ok_def)
  next
    case over: False
    define x where "x = l OR drop_bit (?m + n - 8) b"
    define y where "y = push_bit (16 - (?m + n)) b"
    have k: "(?m + n) mod 8 = ?m + n - 8" "0 < ?m + n - 8" "?m + n - 8 < 8"
      using over m assms(3) by (simp_all add: mod_if)
    have s': "AppendBits b n s = s\<lparr>out_buffer := bs @ [x, y], out_bit_offset := ?m + n - 8\<rparr>"
      using False over bs k(1) by (simp add: AppendBits_def or_last_def Let_def x_def y_def)
    have "byte_bits x = take ?m (byte_bits l) @ low_bits (8 - ?m) (drop_bit (?m + n - 8) b)"
      unfolding x_def using over m by (intro or_bits_high [OF l assms(4) _ _ assms(3)]) simp_all
    moreover have "take (?m + n - 8) (byte_bits y) = low_bits (?m + n - 8) b"
    proof (rule nth_equalityI)
      fix i assume "i < length (take (?m + n - 8) (byte_bits y))"
      then show "take (?m + n - 8) (byte_bits y) ! i = low_bits (?m + n - 8) b ! i"
        using m assms(3) over by (auto simp: y_def bit_simps intro!: arg_cong [of _ _ "bit b"])
    qed (use k in simp)
    moreover have "low_bits n b = low_bits (8 - ?m) (drop_bit (?m + n - 8) b) @ low_bits (?m + n - 8) b"
      using low_bits_split [of "8 - ?m" "?m + n - 8" b] over m by simp
    moreover have "y AND mask (8 - (?m + n - 8)) = 0"
      using push_bit_masked [of "16 - (?m + n)" b] over by (simp add: y_def)
    ultimately show ?thesis
      using k old s' by (simp add: out_bits_def output_ok_def butlast_append)
  qed
qed

section \<open>Encoding\<close>

definition sym_bits :: "huffman_symbol \<Rightarrow> bool list" where
  "sym_bits s = map (\<lambda>i. bit (sym_code s) (31 - i)) [0..<len s]"

lemma length_sym_bits [simp]: "length (sym_bits s) = len s"
  by (simp add: sym_bits_def)

lemma sym_bits_low: "len s \<le> 32 \<Longrightarrow> low_bits (len s) (drop_bit (32 - len s) (sym_code s)) = sym_bits s"
  by (rule nth_equalityI) (auto simp: sym_bits_def bit_simps intro!: arg_cong [of _ _ "bit (sym_code s)"])

lemma AppendBits_piece:
  fixes code :: uint32
  assumes "output_ok out" and "0 < n" and "n \<le> 8" and "n = 8 \<or> drop_bit (k + n) code = 0"
  shows "output_ok (AppendBits (ucast (drop_bit k code)) n out) \<and>
    out_bits (AppendBits (ucast (drop_bit k code)) n out) = out_bits out @ low_bits n (drop_bit k code)"
proof -
  have "drop_bit n (ucast (drop_bit k code) :: uint8) = 0"
    using assms(4)
  proof
    assume "drop_bit (k + n) code = 0"
    then have b: "bit code m \<Longrightarrow> m < k + n" for m by (rule bit_above)
    show ?thesis by (intro bit_word_eqI) (auto simp: bit_simps dest: b)
  qed (auto intro!: bit_word_eqI simp: bit_simps)
  then show ?thesis
    using AppendBits_bits [OF assms(1-3)] low_bits_ucast [of n "drop_bit k code", where 'b = 8] assms(3) by simp
qed

lemma append_code_bits:
  assumes "output_ok out" and "0 < n" and "n \<le> 32" and "drop_bit n code = 0"
  shows "output_ok (append_code code n out) \<and> out_bits (append_code code n out) = out_bits out @ low_bits n code"
proof -
  have piece: "output_ok (AppendBits (ucast (drop_bit k code)) m s) \<and>
      out_bits (AppendBits (ucast (drop_bit k code)) m s) = out_bits s @ low_bits m (drop_bit k code)"
    if "output_ok s" "0 < m" "m \<le> 8" "m = 8 \<or> k + m = n" for s m k
    using AppendBits_piece [OF that(1-3), of k code] that(4) assms(4) by auto
  consider "n \<le> 8" | "8 < n" "n \<le> 16" | "16 < n" "n \<le> 24" | "24 < n" by linarith
  then show ?thesis
  proof cases
    case 1
    then show ?thesis using piece [OF assms(1), of n 0] assms(2) by (simp add: append_code_def)
  next
    case 2
    note a = piece [OF assms(1), of "n - 8" 8]
    note b = piece [of "AppendBits (ucast (drop_bit 8 code)) (n - 8) out" 8 0]
    show ?thesis using a b 2 low_bits_split [of "n - 8" 8 code] by (simp add: append_code_def)
  next
    case 3
    note a = piece [OF assms(1), of "n - 16" 16]
    note b = piece [of "AppendBits (ucast (drop_bit 16 code)) (n - 16) out" 8 8]
    note c = piece [of "AppendBits (ucast (drop_bit 8 code)) 8 (AppendBits (ucast (drop_bit 16 code)) (n - 16) out)" 8 0]
    show ?thesis
      using a b c 3 low_bits_split [of "n - 16" 16 code] low_bits_split [of 8 8 code]
      by (simp add: append_code_def)
  next
    case 4
    note a = piece [OF assms(1), of "n - 24" 24]
    note b = piece [of "AppendBits (ucast (drop_bit 24 code)) (n - 24) out" 8 16]
    note c = piece [of "AppendBits (ucast (drop_bit 16 code)) 8 (AppendBits (ucast (drop_bit 24 code)) (n - 24) out)" 8 8]
    note d = piece [of "AppendBits (ucast (drop_bit 8 code)) 8
      (AppendBits (ucast (drop_bit 16 code)) 8 (AppendBits (ucast (drop_bit 24 code)) (n - 24) out))" 8 0]
    show ?thesis
      using a b c d 4 assms(3) low_bits_split [of "n - 24" 24 code] low_bits_split [of 8 16 code] low_bits_split [of 8 8 code]
      by (simp add: append_code_def)
  qed
qed

text \<open>The symbol and the bits of a byte.\<close>

definition byte_symbol :: "huffman_symbol list \<Rightarrow> uint8 \<Rightarrow> huffman_symbol" where
  "byte_symbol syms c = syms ! unat c"

definition string_bits :: "huffman_symbol list \<Rightarrow> uint8 list \<Rightarrow> bool list" where
  "string_bits syms str = concat (map (\<lambda>c. sym_bits (byte_symbol syms c)) str)"

lemma huffman_okD:
  assumes "huffman_ok syms t" and "i < length syms"
  shows "syms ! i \<in> set syms" "0 < len (syms ! i)" "len (syms ! i) \<le> 32" "sym_id (syms ! i) = i"
    "code_by_id t ! i = sym_code (syms ! i)" "length_by_id t ! i = len (syms ! i)"
proof -
  show "syms ! i \<in> set syms" using assms(2) by simp
  then show "0 < len (syms ! i)" "len (syms ! i) \<le> 32"
    using assms(1) prefix_codeD(1,2) unfolding huffman_ok_def by blast+
  have "map sym_id syms ! i = [0..<length syms] ! i" using assms(1) by (simp add: huffman_ok_def)
  then show "sym_id (syms ! i) = i" using assms(2) by simp
qed (use assms in \<open>simp_all add: huffman_ok_def\<close>)

lemma encode_symbols_ok:
  assumes "huffman_ok syms t" and "output_ok out" and "\<forall>c \<in> set str. unat c < length syms" and "r < 8"
  shows "\<exists>out'. encode_symbols t str r out = Some ((r + length (string_bits syms str)) mod 8, out') \<and> output_ok out' \<and>
    out_bits out' = out_bits out @ string_bits syms str"
  using assms(2-4)
proof (induction str arbitrary: r out)
  case Nil
  then show ?case by (simp add: string_bits_def)
next
  case (Cons c str)
  let ?s = "byte_symbol syms c"
  have c: "unat c < length syms" using Cons.prems(2) by simp
  note s = huffman_okD [OF assms(1) c, folded byte_symbol_def]
  have "drop_bit (len ?s) (drop_bit (32 - len ?s) (sym_code ?s)) = 0"
    using s(3) by simp
  then have a: "output_ok (append_code (drop_bit (32 - len ?s) (sym_code ?s)) (len ?s) out)"
    "out_bits (append_code (drop_bit (32 - len ?s) (sym_code ?s)) (len ?s) out) = out_bits out @ sym_bits ?s"
    using append_code_bits [OF Cons.prems(1) s(2,3)] sym_bits_low [OF s(3)] by auto
  have "length (code_by_id t) = length syms" using assms(1) by (simp add: huffman_ok_def)
  then have "encode_symbols t (c # str) r out =
      encode_symbols t str ((r + len ?s) mod 8) (append_code (drop_bit (32 - len ?s) (sym_code ?s)) (len ?s) out)"
    using c s(5,6) by (simp add: Let_def)
  then show ?case
    using Cons.IH [OF a(1), of "(r + len ?s) mod 8"] Cons.prems(2) a(2)
    by (simp add: string_bits_def mod_add_left_eq add.assoc)
qed

lemma count_bits_ok:
  assumes "huffman_ok syms t" and "\<forall>c \<in> set str. unat c < length syms"
  shows "count_bits t str n = Some (n + length (string_bits syms str))"
  using assms(2)
proof (induction str arbitrary: n)
  case (Cons c str)
  then have "unat c < length syms" by simp
  moreover have "length (code_by_id t) = length syms" using assms(1) by (simp add: huffman_ok_def)
  ultimately show ?case
    using Cons huffman_okD(6) [OF assms(1)] by (simp add: Let_def string_bits_def byte_symbol_def add.assoc)
qed (simp add: string_bits_def)

text \<open>The padding of the last byte: the beginning of the code of the longest symbol.\<close>

definition pad_ok :: "huffman_symbol list \<Rightarrow> bool list \<Rightarrow> bool" where
  "pad_ok syms bs \<longleftrightarrow> (\<exists>l \<in> set syms. 8 \<le> len l \<and> (\<exists>k < 8. bs = take k (sym_bits l)))"

lemma pad_low_bits:
  assumes "8 \<le> len l" and "r < 8"
  shows "low_bits (8 - r) (drop_bit r (ucast (drop_bit 24 (sym_code l)) :: uint8)) = take (8 - r) (sym_bits l)"
  using assms by (intro nth_equalityI) (auto simp: sym_bits_def bit_simps intro!: arg_cong [of _ _ "bit (sym_code l)"])

lemma out_bits_length: "output_ok s \<Longrightarrow> length (out_bits s) mod 8 = out_bit_offset s"
  by (auto simp: output_ok_def out_bits_def)

lemma bytes_bits_extend:
  assumes "bytes_bits xs = bytes_bits ys @ zs"
  shows "\<exists>bs. xs = ys @ bs \<and> bytes_bits bs = zs"
proof -
  let ?n = "length ys"
  have "length (bytes_bits ys) \<le> length (bytes_bits xs)" by (simp only: assms length_append le_add1)
  then have n: "length (take ?n xs) = ?n" by simp
  have "bytes_bits (take ?n xs) @ bytes_bits (drop ?n xs) = bytes_bits ys @ zs"
    using assms by (simp only: append_take_drop_id flip: bytes_bits_simps(3))
  moreover have "length (bytes_bits (take ?n xs)) = length (bytes_bits ys)" using n by simp
  ultimately have "bytes_bits (take ?n xs) = bytes_bits ys" "bytes_bits (drop ?n xs) = zs"
    using append_eq_append_conv by blast+
  then show ?thesis using bytes_bits_inj by (metis append_take_drop_id)
qed

lemma EncodeString_ok:
  assumes "huffman_ok syms t" and "out_bit_offset out = 0" and "\<forall>c \<in> set str. unat c < length syms"
  shows "\<exists>bs pad. EncodeString t str out = Some (out\<lparr>out_buffer := out_buffer out @ bs\<rparr>) \<and>
    bytes_bits bs = string_bits syms str @ pad \<and> pad_ok syms pad \<and> EncodedSize t str = Some (length bs)"
proof -
  let ?n = "length (string_bits syms str)"
  have ok: "output_ok out" using assms(2) by (simp add: output_ok_def)
  obtain out' where e: "encode_symbols t str 0 out = Some (?n mod 8, out')" "output_ok out'"
    "out_bits out' = out_bits out @ string_bits syms str"
    using encode_symbols_ok [OF assms(1) ok assms(3), of 0] by auto
  obtain l where l: "l \<in> set syms" "8 \<le> len l" "pad_bits t = ucast (drop_bit 24 (sym_code l))"
    using assms(1) by (auto simp: huffman_ok_def)
  define out'' where "out'' = (if ?n mod 8 \<noteq> 0 then AppendBits (drop_bit (?n mod 8) (pad_bits t)) (8 - ?n mod 8) out' else out')"
  define pad where "pad = take (if ?n mod 8 \<noteq> 0 then 8 - ?n mod 8 else 0) (sym_bits l)"
  have r: "?n mod 8 < 8" by simp
  have lp: "length pad = (if ?n mod 8 \<noteq> 0 then 8 - ?n mod 8 else 0)" using l(2) by (auto simp: pad_def)
  have o: "output_ok out'' \<and> out_bits out'' = out_bits out @ string_bits syms str @ pad"
  proof (cases "?n mod 8 = 0")
    case False
    have "drop_bit (8 - ?n mod 8) (drop_bit (?n mod 8) (pad_bits t)) = 0"
      using r by simp
    then show ?thesis
      using AppendBits_bits [OF e(2), of "8 - ?n mod 8"] pad_low_bits [OF l(2) r] False r e(3)
      by (simp add: out''_def pad_def l(3))
  qed (simp add: out''_def pad_def e)
  have "(n + p) mod 8 = 0" if "p = (if n mod 8 \<noteq> 0 then 8 - n mod 8 else 0)" for n p :: nat
    using that by presburger
  then have m: "(?n + length pad) mod 8 = 0" using lp by simp
  have "length (out_bits out'') = 8 * length (out_buffer out) + (?n + length pad)"
    using o assms(2) by (simp add: out_bits_def)
  then have "length (out_bits out'') mod 8 = 0" using m by presburger
  then have "out_bit_offset out'' = 0" using out_bits_length [of out''] o by simp
  then obtain bs where bs: "out_buffer out'' = out_buffer out @ bs" "bytes_bits bs = string_bits syms str @ pad"
    using o bytes_bits_extend [of "out_buffer out''" "out_buffer out"] assms(2) by (auto simp: out_bits_def)
  have "EncodeString t str out = Some out''" using e(1) by (simp add: EncodeString_def out''_def)
  moreover have "out'' = out\<lparr>out_buffer := out_buffer out @ bs\<rparr>"
    using bs(1) \<open>out_bit_offset out'' = 0\<close> assms(2) by (cases out''; cases out) simp
  moreover have "pad_ok syms pad" 
    unfolding pad_ok_def pad_def using l(1,2)
    by (intro bexI [of _ l] conjI exI [of _ "if ?n mod 8 \<noteq> 0 then 8 - ?n mod 8 else 0"]) auto
  moreover have "EncodedSize t str = Some (length bs)"
  proof -
    have "8 * length bs = ?n + length pad" using arg_cong [OF bs(2), of length] by simp
    then have "(if ?n mod 8 \<noteq> 0 then ?n + (8 - ?n mod 8) else ?n) div 8 = length bs" using lp by auto
    then show ?thesis using count_bits_ok [OF assms(1,3), of 0] by (simp only: EncodedSize_def Let_def add_0) simp
  qed
  ultimately show ?thesis using bs(2) by auto
qed

section \<open>The input stream\<close>

definition in_bits :: "hpack_input_stream \<Rightarrow> bool list" where
  "in_bits s = drop (in_bit_offset s) (bytes_bits (in_buffer s))"

definition input_ok :: "hpack_input_stream \<Rightarrow> bool" where
  "input_ok s \<longleftrightarrow> in_bit_offset s < 8 \<and> (in_bit_offset s \<noteq> 0 \<longrightarrow> in_buffer s \<noteq> [])"

lemma length_in_bits: "length (in_bits s) = 8 * length (in_buffer s) - in_bit_offset s"
  by (simp add: in_bits_def)

lemma nth_in_bits:
  "i < length (in_bits s) \<Longrightarrow>
   in_bits s ! i = bit (in_buffer s ! ((in_bit_offset s + i) div 8)) (7 - (in_bit_offset s + i) mod 8)"
  by (simp add: in_bits_def nth_bytes_bits)

text \<open>The high \<open>n\<close> bits of a window are the next bits of the stream, and the others are zero.\<close>

definition window :: "hpack_input_stream \<Rightarrow> nat \<Rightarrow> uint32 \<Rightarrow> bool" where
  "window s n code \<longleftrightarrow> n \<le> 32 \<and> n \<le> length (in_bits s) \<and>
     (\<forall>i < 32. bit code (31 - i) \<longleftrightarrow> i < n \<and> in_bits s ! i)"

lemma window_0 [simp]: "window s 0 0"
  by (simp add: window_def)

lemma bit_scast_byte: "j < 8 \<Longrightarrow> bit (scast (b :: uint8) :: uint32) j = bit b j"
  by (cases "j = 7") (auto simp: bit_simps min_def)

text \<open>The position of the bit after \<open>n\<close> bits, and of those that follow it in the same byte.\<close>

lemma same_byte:
  fixes n i m :: nat
  assumes "n \<le> i" and "i < n + (8 - (m + n) mod 8)"
  shows "(m + i) div 8 = (m + n) div 8 \<and> (m + i) mod 8 = (m + n) mod 8 + (i - n)"
proof -
  define a k where "a = m + n" and "k = i - n"
  have s: "m + i = a + k" "a mod 8 + k < 8" using assms by (simp_all add: a_def k_def)
  have e: "a + k = 8 * (a div 8) + (a mod 8 + k)" by simp
  have "(8 * q + r) div 8 = q \<and> (8 * q + r) mod 8 = r" if "r < 8" for q r :: nat using that by simp
  from this [OF s(2), of "a div 8"] show ?thesis using s(1) e unfolding a_def k_def by metis
qed

lemma bit_peeked:
  assumes "n < 32" and "n < length (in_bits s)" and "i < 32"
  shows "bit (peeked_bits n s) (31 - i) \<longleftrightarrow>
    n \<le> i \<and> i < n + (8 - (in_bit_offset s + n) mod 8) \<and> in_bits s ! i"
proof -
  let ?q = "(in_bit_offset s + n) div 8" and ?r = "(in_bit_offset s + n) mod 8"
  let ?w = "scast (in_buffer s ! ?q) :: uint32"
  have b: "bit (peeked_bits n s) (31 - i) \<longleftrightarrow> n + (31 - i) < 32 \<and> 24 + ?r \<le> n + (31 - i) \<and> bit ?w (n + (31 - i) - (24 + ?r))"
    by (auto simp: peeked_bits_def Let_def bit_drop_bit_eq bit_push_bit_iff)
  show ?thesis
  proof (cases "n \<le> i \<and> i < n + (8 - ?r)")
    case True
    then have pos: "n + (31 - i) < 32" "24 + ?r \<le> n + (31 - i)" "n + (31 - i) - (24 + ?r) = 7 - (?r + (i - n))"
      using assms(3) by linarith+
    have q: "(in_bit_offset s + i) div 8 = ?q" "(in_bit_offset s + i) mod 8 = ?r + (i - n)"
      using same_byte [of n i "in_bit_offset s"] True by simp_all
    have "?q < length (in_buffer s)"
      using assms(2) unfolding length_in_bits by (intro less_mult_imp_div_less) linarith
    then have "(in_bit_offset s + i) div 8 < length (in_buffer s)" using q by simp
    then have "i < length (in_bits s)" unfolding length_in_bits by linarith
    then have "in_bits s ! i = bit (in_buffer s ! ?q) (7 - (?r + (i - n)))"
      unfolding nth_in_bits [OF \<open>i < length (in_bits s)\<close>] q by simp
    moreover have "bit ?w (7 - (?r + (i - n))) = bit (in_buffer s ! ?q) (7 - (?r + (i - n)))"
      by (rule bit_scast_byte) simp
    ultimately show ?thesis using b True unfolding pos(3) using pos(1,2) by simp
  next
    case False
    then have "\<not> (n + (31 - i) < 32 \<and> 24 + ?r \<le> n + (31 - i))" using assms(3) by linarith
    then show ?thesis using b False by blast
  qed
qed

lemma PeekBits_ok:
  assumes "window s n code"
  shows "\<exists>ok n' code'. checked_PeekBits n code s = Some (ok, n', code') \<and> window s n' code' \<and>
    (if ok then n < n' else n' = n \<and> (n = 32 \<or> n = length (in_bits s)))"
proof (cases "n < 32 \<and> n < length (in_bits s)")
  case False
  then have n: "n = 32 \<or> n = length (in_bits s)" using assms by (auto simp: window_def)
  then have stop: "32 \<le> n \<or> length (in_buffer s) \<le> (in_bit_offset s + n) div 8"
    using length_in_bits [of s] by linarith
  then show ?thesis
    using assms n by (auto simp: checked_PeekBits_def PeekBits_check_def PeekBits_def Let_def)
next
  case True
  let ?r = "(in_bit_offset s + n) mod 8"
  let ?n = "n + min (32 - n) (8 - ?r)" and ?code = "code OR peeked_bits n s"
  have in_range: "\<not> (32 \<le> n \<or> length (in_buffer s) \<le> (in_bit_offset s + n) div 8)"
    using True length_in_bits [of s] by linarith
  have bits: "bit code (31 - i) \<longleftrightarrow> i < n \<and> in_bits s ! i"
    "bit (peeked_bits n s) (31 - i) \<longleftrightarrow> n \<le> i \<and> i < n + (8 - ?r) \<and> in_bits s ! i" if "i < 32" for i
    using assms bit_peeked [of n s i] True that by (simp_all add: window_def)
  have all: "P k" if "\<And>i. i < 32 \<Longrightarrow> P (31 - i)" "k < 32" for P and k :: nat
    using that(1) [of "31 - k"] that(2) by simp
  have "code AND peeked_bits n s = 0"
  proof (rule bit_word_eqI)
    fix k assume "k < LENGTH(32)"
    then have "k < 32" by simp
    then show "bit (code AND peeked_bits n s) k = bit (0 :: uint32) k"
      by (rule all [rotated]) (auto simp: bit_simps bits)
  qed
  then have "checked_PeekBits n code s = Some (True, ?n, ?code)"
    using in_range by (simp add: checked_PeekBits_def PeekBits_check_def PeekBits_def Let_def)
  moreover have "window s ?n ?code"
  proof -
    have "(in_bit_offset s + n) div 8 < length (in_buffer s)" using in_range by simp
    then have "in_bit_offset s + n + (8 - ?r) \<le> 8 * length (in_buffer s)"
      using div_mult_mod_eq [of "in_bit_offset s + n" 8] mod_less_divisor [of 8 "in_bit_offset s + n"] by linarith
    then have "?n \<le> length (in_bits s)" unfolding length_in_bits by linarith
    moreover have "i < ?n \<longleftrightarrow> i < n + (8 - ?r)" if "i < 32" for i using that True by (auto simp: min_def)
    ultimately show ?thesis using True bits by (auto simp: window_def bit_simps)
  qed
  moreover have "n < ?n" using True by simp
  ultimately show ?thesis by (intro exI [of _ True] exI [of _ ?n] exI [of _ ?code]) simp
qed

lemma ConsumeBits_ok:
  assumes "input_ok s" and "n \<le> length (in_bits s)"
  shows "ConsumeBits_check n s" "input_ok (ConsumeBits n s)" "in_bits (ConsumeBits n s) = drop n (in_bits s)"
proof -
  let ?q = "(in_bit_offset s + n) div 8" and ?r = "(in_bit_offset s + n) mod 8"
  have "in_bit_offset s \<le> 8 * length (in_buffer s)"
    using assms(1) by (cases "in_buffer s") (auto simp: input_ok_def)
  then have le: "in_bit_offset s + n \<le> 8 * length (in_buffer s)"
    using assms(2) length_in_bits [of s] by linarith
  have "?q * 8 + ?r = in_bit_offset s + n" by (rule div_mult_mod_eq)
  then have q: "?q * 8 + ?r \<le> 8 * length (in_buffer s)" using le by simp
  then have q1: "?q \<le> length (in_buffer s)" "?r \<noteq> 0 \<Longrightarrow> ?q < length (in_buffer s)" by linarith+
  then show "ConsumeBits_check n s" by (auto simp: ConsumeBits_check_def)
  show "input_ok (ConsumeBits n s)" using q1(2) by (auto simp: input_ok_def ConsumeBits_def Let_def)
  have "bytes_bits (drop k bs) = drop (8 * k) (bytes_bits bs)" for k bs
    by (induction bs arbitrary: k) (auto simp: drop_Cons split: nat.splits)
  then show "in_bits (ConsumeBits n s) = drop n (in_bits s)"
    by (simp add: in_bits_def ConsumeBits_def Let_def add.commute mult.commute)
qed

lemma window_consume:
  assumes "window s n code" and "k \<le> n" and "input_ok s"
  shows "window (ConsumeBits k s) (n - k) (push_bit k code)"
proof -
  have w: "n \<le> 32" "n \<le> length (in_bits s)" using assms(1) by (simp_all add: window_def)
  note c = ConsumeBits_ok(3) [OF assms(3) le_trans [OF assms(2) w(2)]]
  have "bit (push_bit k code) (31 - i) \<longleftrightarrow> i < n - k \<and> drop k (in_bits s) ! i" if "i < 32" for i
  proof (cases "i + k < 32")
    case True
    then have "31 - i - k = 31 - (i + k)" "k \<le> 31 - i" by simp_all
    then show ?thesis
      using assms(1) True w by (auto simp: bit_push_bit_iff window_def add.commute)
  next
    case False
    then show ?thesis using w(1) that by (auto simp: bit_push_bit_iff)
  qed
  then show ?thesis using w by (simp add: window_def c diff_le_mono)
qed

section \<open>Decoding\<close>

lemma starts_with_bits: "len s \<le> 32 \<Longrightarrow> starts_with x s \<longleftrightarrow> (\<forall>i < len s. bit x (31 - i) = bit (sym_code s) (31 - i))"
proof -
  assume l: "len s \<le> 32"
  have "starts_with x s \<longleftrightarrow> unat (drop_bit (32 - len s) x) = unat (drop_bit (32 - len s) (sym_code s))"
    unfolding starts_with_def topb_def unat_drop_bit_eq by (simp only: drop_bit_eq_div)
  also have "\<dots> \<longleftrightarrow> drop_bit (32 - len s) x = drop_bit (32 - len s) (sym_code s)"
    by (simp only: word_unat_eq_iff)
  also have "\<dots> \<longleftrightarrow> (\<forall>i < len s. bit x (31 - i) = bit (sym_code s) (31 - i))"
  proof
    assume e: "drop_bit (32 - len s) x = drop_bit (32 - len s) (sym_code s)"
    have "bit x (31 - i) = bit (sym_code s) (31 - i)" if i: "i < len s" for i
    proof -
      have "32 - len s + (len s - 1 - i) = 31 - i" using i l by simp
      then show ?thesis
        using arg_cong [OF e, of "\<lambda>w. bit w (len s - 1 - i)"] by (simp add: bit_drop_bit_eq)
    qed
    then show "\<forall>i < len s. bit x (31 - i) = bit (sym_code s) (31 - i)" by blast
  next
    assume e: "\<forall>i < len s. bit x (31 - i) = bit (sym_code s) (31 - i)"
    have "bit x (32 - len s + k) = bit (sym_code s) (32 - len s + k)" if "k < len s" for k
      using e [rule_format, of "len s - 1 - k"] that l by simp
    moreover have "\<not> bit x (32 - len s + k)" "\<not> bit (sym_code s) (32 - len s + k)" if "\<not> k < len s" for k
      using that l by (auto dest: bit_imp_le_length)
    ultimately show "drop_bit (32 - len s) x = drop_bit (32 - len s) (sym_code s)"
      by (intro bit_word_eqI) (metis bit_drop_bit_eq comp_apply)
  qed
  finally show ?thesis .
qed

section \<open>The specification of decoding\<close>

text \<open>
  Codes are taken from the front while there is one; fewer than eight bits may remain. A symbol
  above 255 is dropped, and a string longer than the capacity is refused.
\<close>

definition code_prefix :: "huffman_symbol \<Rightarrow> bool list \<Rightarrow> bool" where
  "code_prefix s bs \<longleftrightarrow> 0 < len s \<and> take (len s) bs = sym_bits s"

lemma find_code_shorter:
  assumes "find (\<lambda>s. code_prefix s bs) syms = Some s"
  shows "length (drop (len s) bs) < length bs"
proof -
  have s: "0 < len s" "take (len s) bs = sym_bits s"
    using assms by (auto simp: find_Some_iff code_prefix_def)
  have "length (take (len s) bs) = len s" unfolding s(2) by simp
  then show ?thesis using s(1) by simp
qed

function huff_decode :: "huffman_symbol list \<Rightarrow> nat \<Rightarrow> bool list \<Rightarrow> uint8 list \<Rightarrow> bool \<times> uint8 list" where
  "huff_decode syms capacity bs out =
     (case find (\<lambda>s. code_prefix s bs) syms of
        None \<Rightarrow> (length bs < 8, out)
      | Some s \<Rightarrow>
          if length out = capacity then (False, out)
          else huff_decode syms capacity (drop (len s) bs)
                 (if sym_id s < 256 then out @ [of_nat (sym_id s)] else out))"
  by pat_completeness auto
termination
  by (relation "measure (\<lambda>(syms, capacity, bs, out). length bs)") (simp_all only: in_measure prod.case wf_measure find_code_shorter)

declare huff_decode.simps [simp del]

lemma code_prefix_iff:
  "len s \<le> 32 \<Longrightarrow> code_prefix s bs \<longleftrightarrow>
     0 < len s \<and> len s \<le> length bs \<and> (\<forall>i < len s. bs ! i = bit (sym_code s) (31 - i))"
proof (cases "len s \<le> length bs")
  case True
  then show ?thesis by (simp add: code_prefix_def list_eq_iff_nth_eq) (simp add: sym_bits_def)
next
  case False
  then have "length (take (len s) bs) \<noteq> length (sym_bits s)" by simp
  then show ?thesis using False by (auto simp: code_prefix_def simp del: length_take)
qed

text \<open>A symbol found in the window is the one that the bits of the stream start with.\<close>

lemma window_prefix:
  assumes "window s n code" and "0 < len sy" and "len sy \<le> n"
  shows "code_prefix sy (in_bits s) \<longleftrightarrow> starts_with code sy"
proof -
  have w: "n \<le> 32" "n \<le> length (in_bits s)" using assms(1) by (simp_all add: window_def)
  have e: "bit code (31 - i) = in_bits s ! i" if "i < len sy" for i
  proof -
    have "i < 32" "i < n" using that assms(3) w(1) by simp_all
    then show ?thesis using assms(1) unfolding window_def by blast
  qed
  have l: "len sy \<le> 32" "len sy \<le> length (in_bits s)" using assms(3) w by simp_all
  have "(\<forall>i < len sy. in_bits s ! i = bit (sym_code sy) (31 - i)) \<longleftrightarrow>
      (\<forall>i < len sy. bit code (31 - i) = bit (sym_code sy) (31 - i))"
    by (intro all_cong) (simp only: e)
  then show ?thesis unfolding code_prefix_iff [OF l(1)] starts_with_bits [OF l(1)] using assms(2) l(2) by blast
qed

lemma starts_with_unique:
  assumes "prefix_code S" and "s \<in> S" and "s' \<in> S" and "starts_with x s" and "starts_with x s'"
  shows "s = s'"
proof -
  have main: "s = s'" if "s \<in> S" "s' \<in> S" "starts_with x s" "starts_with x s'" "len s \<le> len s'" for s s'
  proof -
    have "topb (len s) (unat x) = topb (len s) (lo s')"
      by (rule top_eq_mono [OF that(5) prefix_codeD(2) [OF assms(1) that(2)] that(4) [unfolded starts_with_def]])
    with that(3) [unfolded starts_with_def, symmetric] have "topb (len s) (lo s) = topb (len s) (lo s')" by (rule trans)
    then show ?thesis
      using prefix_code_unique [OF assms(1) that(1,2) order_refl] prefix_codeD(2) [OF assms(1) that(1)] by blast
  qed
  show ?thesis using main [of s s'] main [of s' s] assms(2-5) by (cases "len s \<le> len s'") auto
qed

lemma code_prefix_unique:
  assumes "prefix_code S" and "s \<in> S" and "s' \<in> S" and "code_prefix s bs" and "code_prefix s' bs"
  shows "s = s'"
proof -
  have main: "s = s'" if s: "s \<in> S" "s' \<in> S" "code_prefix s bs" "code_prefix s' bs" "len s \<le> len s'" for s s'
  proof -
    note l = prefix_codeD(2) [OF assms(1) s(1)] prefix_codeD(2) [OF assms(1) s(2)]
    have "\<forall>i < len s. bit (sym_code s') (31 - i) = bit (sym_code s) (31 - i)"
      using s(3-5) by (simp add: code_prefix_iff l)
    then have "starts_with (sym_code s') s" by (simp add: starts_with_bits l)
    moreover have "starts_with (sym_code s') s'" by (simp add: starts_with_def)
    ultimately show ?thesis using starts_with_unique [OF assms(1) s(1,2)] by blast
  qed
  show ?thesis using main [of s s'] main [of s' s] assms(2-5) by (cases "len s \<le> len s'") auto
qed

lemma find_code:
  assumes "prefix_code (set syms)" and "s \<in> set syms" and "code_prefix s bs"
  shows "find (\<lambda>s. code_prefix s bs) syms = Some s"
proof (cases "find (\<lambda>s. code_prefix s bs) syms")
  case None
  then show ?thesis using assms(2,3) by (simp add: find_None_iff)
next
  case (Some s')
  then have "s' \<in> set syms" "code_prefix s' bs" by (auto simp: find_Some_iff)
  then show ?thesis using Some code_prefix_unique [OF assms(1) _ assms(2) _ assms(3)] by blast
qed


section \<open>Decoding follows the specification\<close>

lemma huff_decode_stop:
  "\<forall>s \<in> set syms. \<not> code_prefix s bs \<Longrightarrow> huff_decode syms capacity bs out = (length bs < 8, out)"
  by (subst huff_decode.simps) (simp add: find_None_iff [THEN iffD2] split: option.splits)

lemma huff_decode_step:
  assumes "prefix_code (set syms)" and "s \<in> set syms" and "code_prefix s bs"
  shows "huff_decode syms capacity bs out =
    (if length out = capacity then (False, out)
     else huff_decode syms capacity (drop (len s) bs) (if sym_id s < 256 then out @ [of_nat (sym_id s)] else out))"
  by (subst huff_decode.simps) (simp add: find_code [OF assms])

text \<open>The end of the input.\<close>

lemma at_end:
  assumes "input_ok s"
  shows "\<exists>s'. (let n = (if in_bit_offset s \<noteq> 0 then 8 - in_bit_offset s else 0)
      in if \<not> ConsumeBits_check n s then None
         else (let s = ConsumeByteRemainder s in Some (\<not> HasMoreData s, out, s))) =
    Some (length (in_bits s) < 8, out, s')"
proof (cases "in_bit_offset s = 0")
  case True
  then show ?thesis
    by (auto simp: ConsumeBits_check_def ConsumeByteRemainder_def HasMoreData_def length_in_bits Let_def)
next
  case False
  then have "in_bit_offset s + (8 - in_bit_offset s) = 8" "in_buffer s \<noteq> []" "in_bit_offset s < 8"
    using assms by (simp_all add: input_ok_def)
  moreover from this have "length (in_bits s) < 8 \<longleftrightarrow> drop 1 (in_buffer s) = []"
    using False by (cases "in_buffer s"; cases "drop 1 (in_buffer s)") (auto simp: length_in_bits)
  ultimately show ?thesis
    using False
    by (simp add: ConsumeBits_check_def ConsumeByteRemainder_def HasMoreData_def ConsumeBits_def Let_def Suc_le_eq)
qed

lemma decode_symbols_ok:
  assumes "huffman_ok syms t" and "complete_code syms"
    and "window s n code" and "input_ok s" and "\<not> peeked \<longrightarrow> n = 32 \<or> n = length (in_bits s)"
  shows "\<exists>s'. decode_symbols t capacity peeked n code s out =
    Some (fst (huff_decode syms capacity (in_bits s) out), snd (huff_decode syms capacity (in_bits s) out), s')"
  using assms(3-5)
proof (induction "(length (in_bits s), 2 * (33 - n) + of_bool peeked)" arbitrary: s n code peeked out
    rule: wf_induct_rule [OF wf_lex_prod [OF wf_less_than wf_less_than]])
  case 1
  note IH = 1(1) and w = 1(2) and ok = 1(3) and stop = 1(4)
  have pc: "prefix_code (set syms)" and tf: "tables_for (set syms) t" using assms(1) by (simp_all add: huffman_ok_def)
  obtain sy where sy: "sy \<in> set syms" "starts_with code sy"
    using assms(2) by (auto simp: complete_code_def)
  obtain k where e: "lookup_entry code t = Some \<lparr>next_table_index = k, entry_length = len sy, symbol_id = sym_id sy\<rparr>"
    using lookup_entry_ok [OF tf pc sy] by blast
  have l: "0 < len sy" "len sy \<le> 32" using prefix_codeD [OF pc sy(1)] by simp_all
  have n: "n \<le> 32" "n \<le> length (in_bits s)" using w by (simp_all add: window_def)
  show ?case
  proof (cases "n < len sy")
    case short: True
    show ?thesis
    proof (cases peeked)
      case False
      have "\<not> code_prefix s1 (in_bits s)" if "s1 \<in> set syms" for s1
      proof
        assume p: "code_prefix s1 (in_bits s)"
        have "n = length (in_bits s)" using stop False short l(2) by auto
        then have "0 < len s1" "len s1 \<le> n"
          using p prefix_codeD(2) [OF pc that] by (simp_all add: code_prefix_iff)
        then have "starts_with code s1" using p window_prefix [OF w] by blast
        then have "s1 = sy" using starts_with_unique [OF pc that sy(1) _ sy(2)] by blast
        then show False using \<open>len s1 \<le> n\<close> short by simp
      qed
      then show ?thesis
        using at_end [OF ok, of out] False short e
        by (subst decode_symbols.simps) (simp add: huff_decode_stop)
    next
      case True
      obtain ok' n' code' where p: "checked_PeekBits n code s = Some (ok', n', code')" "window s n' code'"
        "if ok' then n < n' else n' = n \<and> (n = 32 \<or> n = length (in_bits s))"
        using PeekBits_ok [OF w] by blast
      have "decode_symbols t capacity peeked n code s out = decode_symbols t capacity ok' n' code' s out"
        using True short e p(1) by (subst decode_symbols.simps) simp
      moreover have "2 * (33 - n') + of_bool ok' < 2 * (33 - n) + of_bool peeked"
        using p(2,3) True n(1) by (auto simp: window_def split: if_splits)
      ultimately show ?thesis
        using IH [of s n' ok' code' out] p(2,3) ok by (auto split: if_splits)
    qed
  next
    case False
    then have pre: "code_prefix sy (in_bits s)" using window_prefix [OF w l(1)] sy(2) by simp
    show ?thesis
    proof (cases "length out = capacity")
      case True
      then show ?thesis
        using False e l(1) huff_decode_step [OF pc sy(1) pre] by (subst decode_symbols.simps) simp
    next
      case room: False
      have le: "len sy \<le> length (in_bits s)" using False n(2) by simp
      note c = ConsumeBits_ok [OF ok le]
      have w': "window (ConsumeBits (len sy) s) (n - len sy) (push_bit (len sy) code)"
        using window_consume [OF w _ ok] False by simp
      obtain ok' n' code' where p:
        "checked_PeekBits (n - len sy) (push_bit (len sy) code) (ConsumeBits (len sy) s) = Some (ok', n', code')"
        "window (ConsumeBits (len sy) s) n' code'"
        "if ok' then n - len sy < n' else n' = n - len sy \<and> (n - len sy = 32 \<or> n - len sy = length (in_bits (ConsumeBits (len sy) s)))"
        using PeekBits_ok [OF w'] by blast
      let ?out = "if sym_id sy < 256 then out @ [of_nat (sym_id sy)] else out"
      have "decode_symbols t capacity peeked n code s out = decode_symbols t capacity ok' n' code' (ConsumeBits (len sy) s) ?out"
        using False room e l(1) p(1) c(1) by (subst decode_symbols.simps) (simp add: checked_ConsumeBits_def Let_def)
      moreover have "length (in_bits (ConsumeBits (len sy) s)) < length (in_bits s)"
        using c(3) l(1) le by simp
      ultimately show ?thesis
        using IH [of "ConsumeBits (len sy) s" n' ok' code' ?out] p(2,3) c(2,3) room
          huff_decode_step [OF pc sy(1) pre] by (auto split: if_splits)
    qed
  qed
qed

lemma DecodeString_ok:
  assumes "huffman_ok syms t" and "complete_code syms" and "input_ok s"
  shows "\<exists>s'. DecodeString t s capacity =
    Some (fst (huff_decode syms capacity (in_bits s) []), snd (huff_decode syms capacity (in_bits s) []), s')"
proof -
  obtain ok' n' code' where p: "checked_PeekBits 0 0 s = Some (ok', n', code')" "window s n' code'"
    "if ok' then 0 < n' else n' = 0 \<and> (0 = (32::nat) \<or> 0 = length (in_bits s))"
    using PeekBits_ok [OF window_0, of s] by metis
  then show ?thesis
    using decode_symbols_ok [OF assms(1,2) p(2) assms(3), of ok'] by (auto simp: DecodeString_def split: if_splits)
qed


section \<open>Round trip\<close>

lemma pad_short: "pad_ok syms pad \<Longrightarrow> length pad < 8"
  by (auto simp: pad_ok_def)

lemma pad_no_code:
  assumes "prefix_code (set syms)" and "pad_ok syms pad" and "s \<in> set syms"
  shows "\<not> code_prefix s pad"
proof -
  obtain l k where l: "l \<in> set syms" "8 \<le> len l" "k < 8" "pad = take k (sym_bits l)"
    using assms(2) by (auto simp: pad_ok_def)
  show "\<not> code_prefix s pad"
  proof
    assume p: "code_prefix s pad"
    then have k: "len s \<le> k" using prefix_codeD(2) [OF assms(1,3)] l(4) by (simp add: code_prefix_iff)
    then have "code_prefix s (sym_bits l)" using p l(4) by (simp add: code_prefix_def min_def)
    moreover have "code_prefix l (sym_bits l)" using l(2) by (simp add: code_prefix_def)
    ultimately have "s = l" using code_prefix_unique [OF assms(1,3) l(1)] by blast
    then show False using k l(2,3) by simp
  qed
qed

lemma huff_decode_encoded:
  assumes "huffman_ok syms t" and "pad_ok syms pad"
    and "\<forall>c \<in> set str. unat c < length syms" and "length out + length str \<le> capacity"
  shows "huff_decode syms capacity (string_bits syms str @ pad) out = (True, out @ str)"
  using assms(3,4)
proof (induction str arbitrary: out)
  case Nil
  have "prefix_code (set syms)" using assms(1) by (simp add: huffman_ok_def)
  then show ?case
    using pad_no_code [OF _ assms(2)] pad_short [OF assms(2)] by (subst huff_decode_stop) (simp_all add: string_bits_def)
next
  case (Cons c str)
  have pc: "prefix_code (set syms)" using assms(1) by (simp add: huffman_ok_def)
  have "unat c < length syms" using Cons.prems(1) by simp
  note s = huffman_okD [OF assms(1) this, folded byte_symbol_def]
  have "unat c < 256" using unsigned_less [of c, where 'a = nat] by simp
  moreover have "string_bits syms (c # str) = sym_bits (byte_symbol syms c) @ string_bits syms str"
    by (simp add: string_bits_def)
  moreover from this have "code_prefix (byte_symbol syms c) (string_bits syms (c # str) @ pad)"
    using s(2) by (simp add: code_prefix_def)
  ultimately show ?case
    using huff_decode_step [OF pc s(1), of "string_bits syms (c # str) @ pad" capacity out] s(4)
      Cons.IH [of "out @ [c]"] Cons.prems by simp
qed

lemma encoded_decodes:
  assumes "huffman_ok syms t" and "complete_code syms" and "\<forall>c \<in> set str. unat c < length syms"
    and "out_bit_offset out = 0" and "length str \<le> capacity"
  shows "\<exists>bs s'. EncodeString t str out = Some (out\<lparr>out_buffer := out_buffer out @ bs\<rparr>) \<and>
    EncodedSize t str = Some (length bs) \<and>
    DecodeString t (HpackInputStream m bs) capacity = Some (True, str, s')"
proof -
  obtain bs pad where bs: "EncodeString t str out = Some (out\<lparr>out_buffer := out_buffer out @ bs\<rparr>)"
    "bytes_bits bs = string_bits syms str @ pad" "pad_ok syms pad" "EncodedSize t str = Some (length bs)"
    using EncodeString_ok [OF assms(1,4,3)] by blast
  have "input_ok (HpackInputStream m bs)" "in_bits (HpackInputStream m bs) = string_bits syms str @ pad"
    using bs(2) by (simp_all add: input_ok_def in_bits_def HpackInputStream_def)
  then show ?thesis
    using DecodeString_ok [OF assms(1,2), of "HpackInputStream m bs" capacity] bs(1,4)
      huff_decode_encoded [OF assms(1) bs(3) assms(3), of "[]" capacity] assms(5) by auto
qed

section \<open>Incomplete codes\<close>

text \<open>
  An entry that no code reaches refers to table 0, as every new entry does. In a table below the root
  the walk of \<open>DecodeString\<close> therefore starts again at the root.
\<close>

lemma two_symbols_tables:
  assumes "build_inv t0 qs (set two_symbols) (set two_symbols) 0" and "fill_inv t0 qs (set two_symbols) (ntables t0) 0 t"
  shows "\<exists>k. 0 < k \<and> k < ntables t \<and> shape t \<and> tbl t k = \<lparr>prefix_length = 9, indexed_length = 1, entries_offset = entries_offset (tbl t k)\<rparr> \<and>
    ent t 0 256 = \<lparr>next_table_index = k, entry_length = 10, symbol_id = 0\<rparr> \<and> ent t k 1 = DecodeEntry"
proof -
  let ?S = "set two_symbols"
  let ?b = "\<lparr>sym_code = 0x80000000, sym_length = 10, sym_id = 1\<rparr>"
  note sh = build_invD(1) [OF assms(1)] and r = shape_root [OF build_invD(1) [OF assms(1)]]
  have S: "?b \<in> ?S" "s \<in> ?S \<Longrightarrow> s = ?b \<or> (len s = 1 \<and> lo s = 0)" for s by (auto simp: two_symbols_def)
  have no0: "cell_no t0 qs 0 256 = 256" using build_invD(3) [OF assms(1)] by (simp add: cell_no_def)
  have "cell_ok t0 qs ?S ?S 0 256" using build_invD(4) [OF assms(1) r(1), of 256] r(3) by (simp split: if_splits)
  then have "(\<exists>s' \<in> ?S. leaf_cell t0 qs s' 0 256) \<or> branch_cell t0 qs 0 256"
    using S(1) by (rule leaf_or_branch) (simp add: no0 r topb_def)
  moreover have "\<not> leaf_cell t0 qs s 0 256" if "s \<in> ?S" for s
    using S(2) [OF that] no0 r by (auto simp: leaf_cell_def topb_def)
  ultimately have b: "branch_cell t0 qs 0 256" by blast
  define k where "k = next_table_index (ent t0 0 256)"
  have k: "0 < k" "k < ntables t0" "pre t0 k = 9" "qs ! k = 256" "9 < entry_length (ent t0 0 256)"
    "tot t0 k = min 15 (entry_length (ent t0 0 256))" "symbol_id (ent t0 0 256) = 0"
    using b r no0 by (simp_all add: branch_cell_def Let_def flip: k_def)
  obtain s where s: "s \<in> ?S" "9 < len s" "tot t0 k = min 15 (len s)"
    using build_invD(5) [OF assms(1) k(1,2)] k(3) unfolding table_ok_def by auto
  then have "s = ?b" using S(2) [OF s(1)] by auto
  then have tot: "tot t0 k = 10" using s(3) by simp
  then have e0: "ent t0 0 256 = \<lparr>next_table_index = k, entry_length = 10, symbol_id = 0\<rparr>"
    using k k_def by (cases "ent t0 0 256") (auto simp: min_def split: if_splits)
  have cells: "cells t0 k = 2" using tot k(3) by simp
  have no1: "cell_no t0 qs k 1 = 513" using k(4) cells by (simp add: cell_no_def)
  have "cell_ok t0 qs ?S ?S k 1" using build_invD(4) [OF assms(1) k(2), of 1] cells by (simp split: if_splits)
  moreover have "\<not> leaf_cell t0 qs s k 1" if "s \<in> ?S" for s
    using S(2) [OF that] no1 tot by (auto simp: leaf_cell_def topb_def)
  moreover have "\<not> branch_cell t0 qs k 1"
    using branch_symbol [OF assms(1), of k 1] S(2) tot by fastforce
  ultimately have e1: "ent t0 k 1 = DecodeEntry" by (auto simp: cell_ok_def empty_cell_def)
  have "ent t 0 256 = ent t0 0 256" using r b by (intro fill_invD(4) [OF assms(2)]) simp_all
  moreover have "ent t k 1 = ent t0 k 1"
  proof -
    have "\<not> (leaf_cell t0 qs s k 0 \<and> (1 :: nat) < 2 ^ (tot t0 k - len s))" if "s \<in> ?S" for s
      using S(2) [OF that] tot k(3) by (auto simp: leaf_cell_def)
    then show ?thesis using fill_invD(6) [OF assms(2) k(2), of 1] cells by (auto simp: less_Suc_eq)
  qed
  ultimately show ?thesis
    using k(1-3) tot e0 e1 fill_invD(1,2) [OF assms(2)] by (intro exI [of _ k]) (cases "tbl t0 k", simp)
qed

lemma two_symbols_garbage:
  assumes "huffman_ok two_symbols t"
  shows "\<exists>k. lookup_entry 0x80600000 t = Some \<lparr>next_table_index = k, entry_length = 10, symbol_id = 0\<rparr>"
proof -
  obtain t0 qs where "build_inv t0 qs (set two_symbols) (set two_symbols) 0" "fill_inv t0 qs (set two_symbols) (ntables t0) 0 t"
    using assms by (auto simp: huffman_ok_def tables_for_def)
  then obtain k where k: "0 < k" "k < ntables t" "shape t"
    "tbl t k = \<lparr>prefix_length = 9, indexed_length = 1, entries_offset = entries_offset (tbl t k)\<rparr>"
    "ent t 0 256 = \<lparr>next_table_index = k, entry_length = 10, symbol_id = 0\<rparr>" "ent t k 1 = DecodeEntry"
    using two_symbols_tables by blast
  note r = shape_root [OF k(3)]
  have sel: "prefix_length (tbl t k) = 9" "indexed_length (tbl t k) = 1" using k(4) by (metis decode_table.select_convs(1,2))+
  have i: "table_index_of 0x80600000 (tbl t 0) = 256" "table_index_of 0x80600000 (tbl t k) = 1"
    using table_index_of_top [of "tbl t 0" "0x80600000"] table_index_of_top [of "tbl t k" "0x80600000"] r sel
    by (simp_all add: topb_def)
  have e: "Entry (tbl t 0) 256 t = Some \<lparr>next_table_index = k, entry_length = 10, symbol_id = 0\<rparr>"
    "Entry (tbl t k) 1 t = Some DecodeEntry"
    using Entry_shape [OF k(3) r(1), of 256] Entry_shape [OF k(3,2), of 1] k(5,6) r sel by simp_all
  have "descend 4 0x80600000 (tbl t 0) 256 t = Some (tbl t 0, 256)"
    using k(2) r(1) e i by (simp add: numeral_eq_Suc get_table_shape DecodeEntry_def)
  moreover have "unat (drop_bit 23 (0x80600000 :: uint32)) = 256"
    unfolding root_index by (simp add: topb_def)
  ultimately show ?thesis
    using r(1) e(1) by (simp add: lookup_entry_def kDecodeIterations_def kDecodeTableRootBits_def
        kDecodeTableBranchBits_def get_table_shape)
qed

text \<open>
  For a code that is not complete, an invalid prefix is not always rejected: with the code of two
  symbols above, the two bytes \<open>80 60\<close> start with ten bits that are not a code. The walk of the
  decoder ends in the middle of the tables, and the decoder takes what it finds there for a symbol:
  it succeeds with the string of one byte 0.
\<close>

theorem incomplete_code_accepts_garbage:
  "\<exists>t s'. HuffmanTable_Initialize two_symbols HpackHuffmanTable = Some (True, t) \<and>
    DecodeString t (HpackInputStream m [0x80, 0x60]) 16 = Some (True, [0], s') \<and>
    fst (huff_decode two_symbols 16 (in_bits (HpackInputStream m [0x80, 0x60])) []) = False"
proof -
  obtain t where t: "HuffmanTable_Initialize two_symbols HpackHuffmanTable = Some (True, t)" "huffman_ok two_symbols t"
    using Initialize_canonical [of two_symbols] two_symbols_simps by (auto simp: two_symbols_def)
  have "\<exists>k. lookup_entry 0x80000000 t = Some \<lparr>next_table_index = k, entry_length = 10, symbol_id = 1\<rparr>"
    using lookup_entry_ok [of "set two_symbols" t "\<lparr>sym_code = 0x80000000, sym_length = 10, sym_id = 1\<rparr>" "0x80000000"] t(2)
    by (simp add: huffman_ok_def starts_with_def two_symbols_def)
  then obtain k1 k2 where l: "lookup_entry 0x80000000 t = Some \<lparr>next_table_index = k1, entry_length = 10, symbol_id = 1\<rparr>"
    "lookup_entry 0x80600000 t = Some \<lparr>next_table_index = k2, entry_length = 10, symbol_id = 0\<rparr>"
    using two_symbols_garbage [OF t(2)] by blast
  let ?s0 = "\<lparr>max_string_literal_size = m, in_buffer = [0x80, 0x60], in_bit_offset = 0\<rparr>"
  let ?s1 = "\<lparr>max_string_literal_size = m, in_buffer = [0x60], in_bit_offset = 2\<rparr>"
  have p: "checked_PeekBits 0 0 ?s0 = Some (True, 8, 0x80000000)"
    "checked_PeekBits 8 0x80000000 ?s0 = Some (True, 16, 0x80600000)"
    "checked_PeekBits 6 0x80000000 ?s1 = Some (False, 6, 0x80000000)"
    by (simp_all add: checked_PeekBits_def PeekBits_check_def PeekBits_def peeked_bits_def Let_def)
  have c: "checked_ConsumeBits 10 ?s0 = Some ?s1" "(2205465706496 :: uint32) = 0x80000000"
    by (simp_all add: checked_ConsumeBits_def ConsumeBits_check_def ConsumeBits_def Let_def)
  have d1: "decode_symbols t 16 True 8 0x80000000 ?s0 [] = decode_symbols t 16 True 16 0x80600000 ?s0 []"
    by (subst decode_symbols.simps) (simp add: l p)
  have d2: "decode_symbols t 16 True 16 0x80600000 ?s0 [] = decode_symbols t 16 False 6 0x80000000 ?s1 [0]"
    by (subst decode_symbols.simps) (simp add: l p c)
  have "\<exists>s'. decode_symbols t 16 False 6 0x80000000 ?s1 [0] = Some (True, [0], s')"
    by (subst decode_symbols.simps)
      (simp add: l ConsumeBits_check_def ConsumeBits_def ConsumeByteRemainder_def HasMoreData_def)
  then have "\<exists>s'. DecodeString t (HpackInputStream m [0x80, 0x60]) 16 = Some (True, [0], s')"
    by (simp add: DecodeString_def HpackInputStream_def p d1 d2)
  moreover have "fst (huff_decode two_symbols 16 (in_bits (HpackInputStream m [0x80, 0x60])) []) = False"
    by (subst huff_decode_stop) (simp_all add: in_bits_def HpackInputStream_def code_prefix_def sym_bits_def two_symbols_def low_bits_def upt_rec)
  ultimately show ?thesis using t(1) by blast
qed

end
