(* ===== verification/Hpack_Huffman_Code.thy ===== *)
theory Hpack_Huffman_Code
  imports Hpack_Huffman_Coding
begin

text \<open>
  The Huffman code of HPACK, \<open>HpackHuffmanCode\<close> of \<open>net/spdy/hpack/hpack_constants.cc\<close>: it is canonical
  and complete, and the shared table \<open>ObtainHpackHuffmanTable\<close> can be built. The list is evaluated in
  pieces of sixteen symbols.
\<close>

section \<open>Sorting by length\<close>

lemma mset_filter_disjoint:
  "(\<And>x. x \<in> set xs \<Longrightarrow> \<not> (P x \<and> Q x)) \<Longrightarrow> mset (filter P xs) + mset (filter Q xs) = mset (filter (\<lambda>x. P x \<or> Q x) xs)"
  by (induction xs) auto

lemma mset_buckets:
  assumes "distinct ls"
  shows "mset (concat (map (\<lambda>l. filter (\<lambda>x. f x = l) xs) ls)) = mset (filter (\<lambda>x. f x \<in> set ls) xs)"
  using assms
proof (induction ls)
  case (Cons l ls)
  then have "mset (concat (map (\<lambda>l. filter (\<lambda>x. f x = l) xs) (l # ls))) =
      mset (filter (\<lambda>x. f x = l) xs) + mset (filter (\<lambda>x. f x \<in> set ls) xs)" by simp
  also have "\<dots> = mset (filter (\<lambda>x. f x = l \<or> f x \<in> set ls) xs)"
    using Cons.prems by (intro mset_filter_disjoint) auto
  finally show ?case by simp
qed simp

lemma sorted_buckets:
  assumes "sorted_wrt (\<lambda>a b. sym_id a \<le> sym_id b) syms" and "sorted_wrt (<) ls"
  shows "sorted (map SymbolLengthAndIdKey (concat (map (\<lambda>l. filter (\<lambda>s. len s = l) syms) ls)))"
  using assms(2)
proof (induction ls)
  case (Cons l ls)
  have "sorted_wrt (\<lambda>a b. SymbolLengthAndIdKey a \<le> SymbolLengthAndIdKey b) (filter (\<lambda>s. len s = l) syms)"
    by (rule sorted_wrt_mono_rel [OF _ sorted_wrt_filter [OF assms(1)]])
      (auto simp: SymbolLengthAndIdKey_def less_eq_prod_def)
  then have "sorted (map SymbolLengthAndIdKey (filter (\<lambda>s. len s = l) syms))" by (simp only: sorted_map)
  moreover have "sorted (map SymbolLengthAndIdKey (concat (map (\<lambda>l. filter (\<lambda>s. len s = l) syms) ls)))"
    using Cons by simp
  moreover have "SymbolLengthAndIdKey a \<le> SymbolLengthAndIdKey b" if "len a = l" "len b \<in> set ls" for a b
    using that Cons.prems by (auto simp: SymbolLengthAndIdKey_def less_eq_prod_def)
  ultimately show ?case by (auto simp: sorted_append)
qed simp

lemma by_length_buckets:
  assumes "map sym_id syms = [0..<length syms]" and "sorted_wrt (<) ls" and "\<forall>s \<in> set syms. len s \<in> set ls"
  shows "by_length syms = concat (map (\<lambda>l. filter (\<lambda>s. len s = l) syms) ls)"
  unfolding by_length_def
proof (rule sort_key_inj_key_eq)
  have "distinct ls" using assms(2) strict_sorted_iff by blast
  then show "mset syms = mset (concat (map (\<lambda>l. filter (\<lambda>s. len s = l) syms) ls))"
    using assms(3) by (simp add: mset_buckets del: mset_concat mset_filter)
  have "distinct (map sym_id syms)" using assms(1) by simp
  then show "inj_on SymbolLengthAndIdKey (set syms)"
    unfolding distinct_map by (auto simp: inj_on_def SymbolLengthAndIdKey_def)
  have "sorted (map sym_id syms)" using assms(1) by simp
  then show "sorted (map SymbolLengthAndIdKey (concat (map (\<lambda>l. filter (\<lambda>s. len s = l) syms) ls)))"
    using assms(2) by (intro sorted_buckets) (simp_all only: sorted_map)
qed

section \<open>The code of HPACK\<close>

definition HpackHuffmanCode :: "huffman_symbol list" where
  "HpackHuffmanCode = map (\<lambda>(code, n, i). \<lparr>sym_code = code, sym_length = n, sym_id = i\<rparr>)
    [(0xffc00000, 13, 0), (0xffffb000, 23, 1), (0xfffffe20, 28, 2), (0xfffffe30, 28, 3),
     (0xfffffe40, 28, 4), (0xfffffe50, 28, 5), (0xfffffe60, 28, 6), (0xfffffe70, 28, 7),
     (0xfffffe80, 28, 8), (0xffffea00, 24, 9), (0xfffffff0, 30, 10), (0xfffffe90, 28, 11),
     (0xfffffea0, 28, 12), (0xfffffff4, 30, 13), (0xfffffeb0, 28, 14), (0xfffffec0, 28, 15),
     (0xfffffed0, 28, 16), (0xfffffee0, 28, 17), (0xfffffef0, 28, 18), (0xffffff00, 28, 19),
     (0xffffff10, 28, 20), (0xffffff20, 28, 21), (0xfffffff8, 30, 22), (0xffffff30, 28, 23),
     (0xffffff40, 28, 24), (0xffffff50, 28, 25), (0xffffff60, 28, 26), (0xffffff70, 28, 27),
     (0xffffff80, 28, 28), (0xffffff90, 28, 29), (0xffffffa0, 28, 30), (0xffffffb0, 28, 31),
     (0x50000000, 6, 32), (0xfe000000, 10, 33), (0xfe400000, 10, 34), (0xffa00000, 12, 35),
     (0xffc80000, 13, 36), (0x54000000, 6, 37), (0xf8000000, 8, 38), (0xff400000, 11, 39),
     (0xfe800000, 10, 40), (0xfec00000, 10, 41), (0xf9000000, 8, 42), (0xff600000, 11, 43),
     (0xfa000000, 8, 44), (0x58000000, 6, 45), (0x5c000000, 6, 46), (0x60000000, 6, 47),
     (0x00000000, 5, 48), (0x08000000, 5, 49), (0x10000000, 5, 50), (0x64000000, 6, 51),
     (0x68000000, 6, 52), (0x6c000000, 6, 53), (0x70000000, 6, 54), (0x74000000, 6, 55),
     (0x78000000, 6, 56), (0x7c000000, 6, 57), (0xb8000000, 7, 58), (0xfb000000, 8, 59),
     (0xfff80000, 15, 60), (0x80000000, 6, 61), (0xffb00000, 12, 62), (0xff000000, 10, 63),
     (0xffd00000, 13, 64), (0x84000000, 6, 65), (0xba000000, 7, 66), (0xbc000000, 7, 67),
     (0xbe000000, 7, 68), (0xc0000000, 7, 69), (0xc2000000, 7, 70), (0xc4000000, 7, 71),
     (0xc6000000, 7, 72), (0xc8000000, 7, 73), (0xca000000, 7, 74), (0xcc000000, 7, 75),
     (0xce000000, 7, 76), (0xd0000000, 7, 77), (0xd2000000, 7, 78), (0xd4000000, 7, 79),
     (0xd6000000, 7, 80), (0xd8000000, 7, 81), (0xda000000, 7, 82), (0xdc000000, 7, 83),
     (0xde000000, 7, 84), (0xe0000000, 7, 85), (0xe2000000, 7, 86), (0xe4000000, 7, 87),
     (0xfc000000, 8, 88), (0xe6000000, 7, 89), (0xfd000000, 8, 90), (0xffd80000, 13, 91),
     (0xfffe0000, 19, 92), (0xffe00000, 13, 93), (0xfff00000, 14, 94), (0x88000000, 6, 95),
     (0xfffa0000, 15, 96), (0x18000000, 5, 97), (0x8c000000, 6, 98), (0x20000000, 5, 99),
     (0x90000000, 6, 100), (0x28000000, 5, 101), (0x94000000, 6, 102), (0x98000000, 6, 103),
     (0x9c000000, 6, 104), (0x30000000, 5, 105), (0xe8000000, 7, 106), (0xea000000, 7, 107),
     (0xa0000000, 6, 108), (0xa4000000, 6, 109), (0xa8000000, 6, 110), (0x38000000, 5, 111),
     (0xac000000, 6, 112), (0xec000000, 7, 113), (0xb0000000, 6, 114), (0x40000000, 5, 115),
     (0x48000000, 5, 116), (0xb4000000, 6, 117), (0xee000000, 7, 118), (0xf0000000, 7, 119),
     (0xf2000000, 7, 120), (0xf4000000, 7, 121), (0xf6000000, 7, 122), (0xfffc0000, 15, 123),
     (0xff800000, 11, 124), (0xfff40000, 14, 125), (0xffe80000, 13, 126), (0xffffffc0, 28, 127),
     (0xfffe6000, 20, 128), (0xffff4800, 22, 129), (0xfffe7000, 20, 130), (0xfffe8000, 20, 131),
     (0xffff4c00, 22, 132), (0xffff5000, 22, 133), (0xffff5400, 22, 134), (0xffffb200, 23, 135),
     (0xffff5800, 22, 136), (0xffffb400, 23, 137), (0xffffb600, 23, 138), (0xffffb800, 23, 139),
     (0xffffba00, 23, 140), (0xffffbc00, 23, 141), (0xffffeb00, 24, 142), (0xffffbe00, 23, 143),
     (0xffffec00, 24, 144), (0xffffed00, 24, 145), (0xffff5c00, 22, 146), (0xffffc000, 23, 147),
     (0xffffee00, 24, 148), (0xffffc200, 23, 149), (0xffffc400, 23, 150), (0xffffc600, 23, 151),
     (0xffffc800, 23, 152), (0xfffee000, 21, 153), (0xffff6000, 22, 154), (0xffffca00, 23, 155),
     (0xffff6400, 22, 156), (0xffffcc00, 23, 157), (0xffffce00, 23, 158), (0xffffef00, 24, 159),
     (0xffff6800, 22, 160), (0xfffee800, 21, 161), (0xfffe9000, 20, 162), (0xffff6c00, 22, 163),
     (0xffff7000, 22, 164), (0xffffd000, 23, 165), (0xffffd200, 23, 166), (0xfffef000, 21, 167),
     (0xffffd400, 23, 168), (0xffff7400, 22, 169), (0xffff7800, 22, 170), (0xfffff000, 24, 171),
     (0xfffef800, 21, 172), (0xffff7c00, 22, 173), (0xffffd600, 23, 174), (0xffffd800, 23, 175),
     (0xffff0000, 21, 176), (0xffff0800, 21, 177), (0xffff8000, 22, 178), (0xffff1000, 21, 179),
     (0xffffda00, 23, 180), (0xffff8400, 22, 181), (0xffffdc00, 23, 182), (0xffffde00, 23, 183),
     (0xfffea000, 20, 184), (0xffff8800, 22, 185), (0xffff8c00, 22, 186), (0xffff9000, 22, 187),
     (0xffffe000, 23, 188), (0xffff9400, 22, 189), (0xffff9800, 22, 190), (0xffffe200, 23, 191),
     (0xfffff800, 26, 192), (0xfffff840, 26, 193), (0xfffeb000, 20, 194), (0xfffe2000, 19, 195),
     (0xffff9c00, 22, 196), (0xffffe400, 23, 197), (0xffffa000, 22, 198), (0xfffff600, 25, 199),
     (0xfffff880, 26, 200), (0xfffff8c0, 26, 201), (0xfffff900, 26, 202), (0xfffffbc0, 27, 203),
     (0xfffffbe0, 27, 204), (0xfffff940, 26, 205), (0xfffff100, 24, 206), (0xfffff680, 25, 207),
     (0xfffe4000, 19, 208), (0xffff1800, 21, 209), (0xfffff980, 26, 210), (0xfffffc00, 27, 211),
     (0xfffffc20, 27, 212), (0xfffff9c0, 26, 213), (0xfffffc40, 27, 214), (0xfffff200, 24, 215),
     (0xffff2000, 21, 216), (0xffff2800, 21, 217), (0xfffffa00, 26, 218), (0xfffffa40, 26, 219),
     (0xffffffd0, 28, 220), (0xfffffc60, 27, 221), (0xfffffc80, 27, 222), (0xfffffca0, 27, 223),
     (0xfffec000, 20, 224), (0xfffff300, 24, 225), (0xfffed000, 20, 226), (0xffff3000, 21, 227),
     (0xffffa400, 22, 228), (0xffff3800, 21, 229), (0xffff4000, 21, 230), (0xffffe600, 23, 231),
     (0xffffa800, 22, 232), (0xffffac00, 22, 233), (0xfffff700, 25, 234), (0xfffff780, 25, 235),
     (0xfffff400, 24, 236), (0xfffff500, 24, 237), (0xfffffa80, 26, 238), (0xffffe800, 23, 239),
     (0xfffffac0, 26, 240), (0xfffffcc0, 27, 241), (0xfffffb00, 26, 242), (0xfffffb40, 26, 243),
     (0xfffffce0, 27, 244), (0xfffffd00, 27, 245), (0xfffffd20, 27, 246), (0xfffffd40, 27, 247),
     (0xfffffd60, 27, 248), (0xffffffe0, 28, 249), (0xfffffd80, 27, 250), (0xfffffda0, 27, 251),
     (0xfffffdc0, 27, 252), (0xfffffde0, 27, 253), (0xfffffe00, 27, 254), (0xfffffb80, 26, 255),
     (0xfffffffc, 30, 256)]"

definition symbol_of :: "uint32 \<times> nat \<times> nat \<Rightarrow> huffman_symbol" where
  "symbol_of = (\<lambda>(code, n, i). \<lparr>sym_code = code, sym_length = n, sym_id = i\<rparr>)"

lemma sym_simps [simp]:
  "sym_code (symbol_of (x, n, i)) = x" "sym_length (symbol_of (x, n, i)) = n" "sym_id (symbol_of (x, n, i)) = i"
  by (simp_all add: symbol_of_def)

lemma filter_sym: "filter (\<lambda>s. len s = l) (map symbol_of xs) = map symbol_of (filter (\<lambda>(c, n, i). n = l) xs)"
  by (induction xs) auto

lemma code_chunks:
  "HpackHuffmanCode = map symbol_of (
   [(0xffc00000, 13, 0), (0xffffb000, 23, 1), (0xfffffe20, 28, 2), (0xfffffe30, 28, 3),
    (0xfffffe40, 28, 4), (0xfffffe50, 28, 5), (0xfffffe60, 28, 6), (0xfffffe70, 28, 7),
    (0xfffffe80, 28, 8), (0xffffea00, 24, 9), (0xfffffff0, 30, 10), (0xfffffe90, 28, 11),
    (0xfffffea0, 28, 12), (0xfffffff4, 30, 13), (0xfffffeb0, 28, 14), (0xfffffec0, 28, 15)] @
   [(0xfffffed0, 28, 16), (0xfffffee0, 28, 17), (0xfffffef0, 28, 18), (0xffffff00, 28, 19),
    (0xffffff10, 28, 20), (0xffffff20, 28, 21), (0xfffffff8, 30, 22), (0xffffff30, 28, 23),
    (0xffffff40, 28, 24), (0xffffff50, 28, 25), (0xffffff60, 28, 26), (0xffffff70, 28, 27),
    (0xffffff80, 28, 28), (0xffffff90, 28, 29), (0xffffffa0, 28, 30), (0xffffffb0, 28, 31)] @
   [(0x50000000, 6, 32), (0xfe000000, 10, 33), (0xfe400000, 10, 34), (0xffa00000, 12, 35),
    (0xffc80000, 13, 36), (0x54000000, 6, 37), (0xf8000000, 8, 38), (0xff400000, 11, 39),
    (0xfe800000, 10, 40), (0xfec00000, 10, 41), (0xf9000000, 8, 42), (0xff600000, 11, 43),
    (0xfa000000, 8, 44), (0x58000000, 6, 45), (0x5c000000, 6, 46), (0x60000000, 6, 47)] @
   [(0x00000000, 5, 48), (0x08000000, 5, 49), (0x10000000, 5, 50), (0x64000000, 6, 51),
    (0x68000000, 6, 52), (0x6c000000, 6, 53), (0x70000000, 6, 54), (0x74000000, 6, 55),
    (0x78000000, 6, 56), (0x7c000000, 6, 57), (0xb8000000, 7, 58), (0xfb000000, 8, 59),
    (0xfff80000, 15, 60), (0x80000000, 6, 61), (0xffb00000, 12, 62), (0xff000000, 10, 63)] @
   [(0xffd00000, 13, 64), (0x84000000, 6, 65), (0xba000000, 7, 66), (0xbc000000, 7, 67),
    (0xbe000000, 7, 68), (0xc0000000, 7, 69), (0xc2000000, 7, 70), (0xc4000000, 7, 71),
    (0xc6000000, 7, 72), (0xc8000000, 7, 73), (0xca000000, 7, 74), (0xcc000000, 7, 75),
    (0xce000000, 7, 76), (0xd0000000, 7, 77), (0xd2000000, 7, 78), (0xd4000000, 7, 79)] @
   [(0xd6000000, 7, 80), (0xd8000000, 7, 81), (0xda000000, 7, 82), (0xdc000000, 7, 83),
    (0xde000000, 7, 84), (0xe0000000, 7, 85), (0xe2000000, 7, 86), (0xe4000000, 7, 87),
    (0xfc000000, 8, 88), (0xe6000000, 7, 89), (0xfd000000, 8, 90), (0xffd80000, 13, 91),
    (0xfffe0000, 19, 92), (0xffe00000, 13, 93), (0xfff00000, 14, 94), (0x88000000, 6, 95)] @
   [(0xfffa0000, 15, 96), (0x18000000, 5, 97), (0x8c000000, 6, 98), (0x20000000, 5, 99),
    (0x90000000, 6, 100), (0x28000000, 5, 101), (0x94000000, 6, 102), (0x98000000, 6, 103),
    (0x9c000000, 6, 104), (0x30000000, 5, 105), (0xe8000000, 7, 106), (0xea000000, 7, 107),
    (0xa0000000, 6, 108), (0xa4000000, 6, 109), (0xa8000000, 6, 110), (0x38000000, 5, 111)] @
   [(0xac000000, 6, 112), (0xec000000, 7, 113), (0xb0000000, 6, 114), (0x40000000, 5, 115),
    (0x48000000, 5, 116), (0xb4000000, 6, 117), (0xee000000, 7, 118), (0xf0000000, 7, 119),
    (0xf2000000, 7, 120), (0xf4000000, 7, 121), (0xf6000000, 7, 122), (0xfffc0000, 15, 123),
    (0xff800000, 11, 124), (0xfff40000, 14, 125), (0xffe80000, 13, 126), (0xffffffc0, 28, 127)] @
   [(0xfffe6000, 20, 128), (0xffff4800, 22, 129), (0xfffe7000, 20, 130), (0xfffe8000, 20, 131),
    (0xffff4c00, 22, 132), (0xffff5000, 22, 133), (0xffff5400, 22, 134), (0xffffb200, 23, 135),
    (0xffff5800, 22, 136), (0xffffb400, 23, 137), (0xffffb600, 23, 138), (0xffffb800, 23, 139),
    (0xffffba00, 23, 140), (0xffffbc00, 23, 141), (0xffffeb00, 24, 142), (0xffffbe00, 23, 143)] @
   [(0xffffec00, 24, 144), (0xffffed00, 24, 145), (0xffff5c00, 22, 146), (0xffffc000, 23, 147),
    (0xffffee00, 24, 148), (0xffffc200, 23, 149), (0xffffc400, 23, 150), (0xffffc600, 23, 151),
    (0xffffc800, 23, 152), (0xfffee000, 21, 153), (0xffff6000, 22, 154), (0xffffca00, 23, 155),
    (0xffff6400, 22, 156), (0xffffcc00, 23, 157), (0xffffce00, 23, 158), (0xffffef00, 24, 159)] @
   [(0xffff6800, 22, 160), (0xfffee800, 21, 161), (0xfffe9000, 20, 162), (0xffff6c00, 22, 163),
    (0xffff7000, 22, 164), (0xffffd000, 23, 165), (0xffffd200, 23, 166), (0xfffef000, 21, 167),
    (0xffffd400, 23, 168), (0xffff7400, 22, 169), (0xffff7800, 22, 170), (0xfffff000, 24, 171),
    (0xfffef800, 21, 172), (0xffff7c00, 22, 173), (0xffffd600, 23, 174), (0xffffd800, 23, 175)] @
   [(0xffff0000, 21, 176), (0xffff0800, 21, 177), (0xffff8000, 22, 178), (0xffff1000, 21, 179),
    (0xffffda00, 23, 180), (0xffff8400, 22, 181), (0xffffdc00, 23, 182), (0xffffde00, 23, 183),
    (0xfffea000, 20, 184), (0xffff8800, 22, 185), (0xffff8c00, 22, 186), (0xffff9000, 22, 187),
    (0xffffe000, 23, 188), (0xffff9400, 22, 189), (0xffff9800, 22, 190), (0xffffe200, 23, 191)] @
   [(0xfffff800, 26, 192), (0xfffff840, 26, 193), (0xfffeb000, 20, 194), (0xfffe2000, 19, 195),
    (0xffff9c00, 22, 196), (0xffffe400, 23, 197), (0xffffa000, 22, 198), (0xfffff600, 25, 199),
    (0xfffff880, 26, 200), (0xfffff8c0, 26, 201), (0xfffff900, 26, 202), (0xfffffbc0, 27, 203),
    (0xfffffbe0, 27, 204), (0xfffff940, 26, 205), (0xfffff100, 24, 206), (0xfffff680, 25, 207)] @
   [(0xfffe4000, 19, 208), (0xffff1800, 21, 209), (0xfffff980, 26, 210), (0xfffffc00, 27, 211),
    (0xfffffc20, 27, 212), (0xfffff9c0, 26, 213), (0xfffffc40, 27, 214), (0xfffff200, 24, 215),
    (0xffff2000, 21, 216), (0xffff2800, 21, 217), (0xfffffa00, 26, 218), (0xfffffa40, 26, 219),
    (0xffffffd0, 28, 220), (0xfffffc60, 27, 221), (0xfffffc80, 27, 222), (0xfffffca0, 27, 223)] @
   [(0xfffec000, 20, 224), (0xfffff300, 24, 225), (0xfffed000, 20, 226), (0xffff3000, 21, 227),
    (0xffffa400, 22, 228), (0xffff3800, 21, 229), (0xffff4000, 21, 230), (0xffffe600, 23, 231),
    (0xffffa800, 22, 232), (0xffffac00, 22, 233), (0xfffff700, 25, 234), (0xfffff780, 25, 235),
    (0xfffff400, 24, 236), (0xfffff500, 24, 237), (0xfffffa80, 26, 238), (0xffffe800, 23, 239)] @
   [(0xfffffac0, 26, 240), (0xfffffcc0, 27, 241), (0xfffffb00, 26, 242), (0xfffffb40, 26, 243),
    (0xfffffce0, 27, 244), (0xfffffd00, 27, 245), (0xfffffd20, 27, 246), (0xfffffd40, 27, 247),
    (0xfffffd60, 27, 248), (0xffffffe0, 28, 249), (0xfffffd80, 27, 250), (0xfffffda0, 27, 251),
    (0xfffffdc0, 27, 252), (0xfffffde0, 27, 253), (0xfffffe00, 27, 254), (0xfffffb80, 26, 255)] @
   [(0xfffffffc, 30, 256)])"
  unfolding HpackHuffmanCode_def symbol_of_def append.simps by (rule refl)

definition code_by_length :: "(uint32 \<times> nat \<times> nat) list" where
  "code_by_length = concat [
   [(0x00000000, 5, 48), (0x08000000, 5, 49), (0x10000000, 5, 50), (0x18000000, 5, 97),
    (0x20000000, 5, 99), (0x28000000, 5, 101), (0x30000000, 5, 105), (0x38000000, 5, 111),
    (0x40000000, 5, 115), (0x48000000, 5, 116)],
   [(0x50000000, 6, 32), (0x54000000, 6, 37), (0x58000000, 6, 45), (0x5c000000, 6, 46),
    (0x60000000, 6, 47), (0x64000000, 6, 51), (0x68000000, 6, 52), (0x6c000000, 6, 53),
    (0x70000000, 6, 54), (0x74000000, 6, 55), (0x78000000, 6, 56), (0x7c000000, 6, 57),
    (0x80000000, 6, 61), (0x84000000, 6, 65), (0x88000000, 6, 95), (0x8c000000, 6, 98),
    (0x90000000, 6, 100), (0x94000000, 6, 102), (0x98000000, 6, 103), (0x9c000000, 6, 104),
    (0xa0000000, 6, 108), (0xa4000000, 6, 109), (0xa8000000, 6, 110), (0xac000000, 6, 112),
    (0xb0000000, 6, 114), (0xb4000000, 6, 117)],
   [(0xb8000000, 7, 58), (0xba000000, 7, 66), (0xbc000000, 7, 67), (0xbe000000, 7, 68),
    (0xc0000000, 7, 69), (0xc2000000, 7, 70), (0xc4000000, 7, 71), (0xc6000000, 7, 72),
    (0xc8000000, 7, 73), (0xca000000, 7, 74), (0xcc000000, 7, 75), (0xce000000, 7, 76),
    (0xd0000000, 7, 77), (0xd2000000, 7, 78), (0xd4000000, 7, 79), (0xd6000000, 7, 80),
    (0xd8000000, 7, 81), (0xda000000, 7, 82), (0xdc000000, 7, 83), (0xde000000, 7, 84),
    (0xe0000000, 7, 85), (0xe2000000, 7, 86), (0xe4000000, 7, 87), (0xe6000000, 7, 89),
    (0xe8000000, 7, 106), (0xea000000, 7, 107), (0xec000000, 7, 113), (0xee000000, 7, 118),
    (0xf0000000, 7, 119), (0xf2000000, 7, 120), (0xf4000000, 7, 121), (0xf6000000, 7, 122)],
   [(0xf8000000, 8, 38), (0xf9000000, 8, 42), (0xfa000000, 8, 44), (0xfb000000, 8, 59),
    (0xfc000000, 8, 88), (0xfd000000, 8, 90)],
   [(0xfe000000, 10, 33), (0xfe400000, 10, 34), (0xfe800000, 10, 40), (0xfec00000, 10, 41),
    (0xff000000, 10, 63)],
   [(0xff400000, 11, 39), (0xff600000, 11, 43), (0xff800000, 11, 124)],
   [(0xffa00000, 12, 35), (0xffb00000, 12, 62)],
   [(0xffc00000, 13, 0), (0xffc80000, 13, 36), (0xffd00000, 13, 64), (0xffd80000, 13, 91),
    (0xffe00000, 13, 93), (0xffe80000, 13, 126)],
   [(0xfff00000, 14, 94), (0xfff40000, 14, 125)],
   [(0xfff80000, 15, 60), (0xfffa0000, 15, 96), (0xfffc0000, 15, 123)],
   [(0xfffe0000, 19, 92), (0xfffe2000, 19, 195), (0xfffe4000, 19, 208)],
   [(0xfffe6000, 20, 128), (0xfffe7000, 20, 130), (0xfffe8000, 20, 131), (0xfffe9000, 20, 162),
    (0xfffea000, 20, 184), (0xfffeb000, 20, 194), (0xfffec000, 20, 224), (0xfffed000, 20, 226)],
   [(0xfffee000, 21, 153), (0xfffee800, 21, 161), (0xfffef000, 21, 167), (0xfffef800, 21, 172),
    (0xffff0000, 21, 176), (0xffff0800, 21, 177), (0xffff1000, 21, 179), (0xffff1800, 21, 209),
    (0xffff2000, 21, 216), (0xffff2800, 21, 217), (0xffff3000, 21, 227), (0xffff3800, 21, 229),
    (0xffff4000, 21, 230)],
   [(0xffff4800, 22, 129), (0xffff4c00, 22, 132), (0xffff5000, 22, 133), (0xffff5400, 22, 134),
    (0xffff5800, 22, 136), (0xffff5c00, 22, 146), (0xffff6000, 22, 154), (0xffff6400, 22, 156),
    (0xffff6800, 22, 160), (0xffff6c00, 22, 163), (0xffff7000, 22, 164), (0xffff7400, 22, 169),
    (0xffff7800, 22, 170), (0xffff7c00, 22, 173), (0xffff8000, 22, 178), (0xffff8400, 22, 181),
    (0xffff8800, 22, 185), (0xffff8c00, 22, 186), (0xffff9000, 22, 187), (0xffff9400, 22, 189),
    (0xffff9800, 22, 190), (0xffff9c00, 22, 196), (0xffffa000, 22, 198), (0xffffa400, 22, 228),
    (0xffffa800, 22, 232), (0xffffac00, 22, 233)],
   [(0xffffb000, 23, 1), (0xffffb200, 23, 135), (0xffffb400, 23, 137), (0xffffb600, 23, 138),
    (0xffffb800, 23, 139), (0xffffba00, 23, 140), (0xffffbc00, 23, 141), (0xffffbe00, 23, 143),
    (0xffffc000, 23, 147), (0xffffc200, 23, 149), (0xffffc400, 23, 150), (0xffffc600, 23, 151),
    (0xffffc800, 23, 152), (0xffffca00, 23, 155), (0xffffcc00, 23, 157), (0xffffce00, 23, 158),
    (0xffffd000, 23, 165), (0xffffd200, 23, 166), (0xffffd400, 23, 168), (0xffffd600, 23, 174),
    (0xffffd800, 23, 175), (0xffffda00, 23, 180), (0xffffdc00, 23, 182), (0xffffde00, 23, 183),
    (0xffffe000, 23, 188), (0xffffe200, 23, 191), (0xffffe400, 23, 197), (0xffffe600, 23, 231),
    (0xffffe800, 23, 239)],
   [(0xffffea00, 24, 9), (0xffffeb00, 24, 142), (0xffffec00, 24, 144), (0xffffed00, 24, 145),
    (0xffffee00, 24, 148), (0xffffef00, 24, 159), (0xfffff000, 24, 171), (0xfffff100, 24, 206),
    (0xfffff200, 24, 215), (0xfffff300, 24, 225), (0xfffff400, 24, 236), (0xfffff500, 24, 237)],
   [(0xfffff600, 25, 199), (0xfffff680, 25, 207), (0xfffff700, 25, 234), (0xfffff780, 25, 235)],
   [(0xfffff800, 26, 192), (0xfffff840, 26, 193), (0xfffff880, 26, 200), (0xfffff8c0, 26, 201),
    (0xfffff900, 26, 202), (0xfffff940, 26, 205), (0xfffff980, 26, 210), (0xfffff9c0, 26, 213),
    (0xfffffa00, 26, 218), (0xfffffa40, 26, 219), (0xfffffa80, 26, 238), (0xfffffac0, 26, 240),
    (0xfffffb00, 26, 242), (0xfffffb40, 26, 243), (0xfffffb80, 26, 255)],
   [(0xfffffbc0, 27, 203), (0xfffffbe0, 27, 204), (0xfffffc00, 27, 211), (0xfffffc20, 27, 212),
    (0xfffffc40, 27, 214), (0xfffffc60, 27, 221), (0xfffffc80, 27, 222), (0xfffffca0, 27, 223),
    (0xfffffcc0, 27, 241), (0xfffffce0, 27, 244), (0xfffffd00, 27, 245), (0xfffffd20, 27, 246),
    (0xfffffd40, 27, 247), (0xfffffd60, 27, 248), (0xfffffd80, 27, 250), (0xfffffda0, 27, 251),
    (0xfffffdc0, 27, 252), (0xfffffde0, 27, 253), (0xfffffe00, 27, 254)],
   [(0xfffffe20, 28, 2), (0xfffffe30, 28, 3), (0xfffffe40, 28, 4), (0xfffffe50, 28, 5),
    (0xfffffe60, 28, 6), (0xfffffe70, 28, 7), (0xfffffe80, 28, 8), (0xfffffe90, 28, 11),
    (0xfffffea0, 28, 12), (0xfffffeb0, 28, 14), (0xfffffec0, 28, 15), (0xfffffed0, 28, 16),
    (0xfffffee0, 28, 17), (0xfffffef0, 28, 18), (0xffffff00, 28, 19), (0xffffff10, 28, 20),
    (0xffffff20, 28, 21), (0xffffff30, 28, 23), (0xffffff40, 28, 24), (0xffffff50, 28, 25),
    (0xffffff60, 28, 26), (0xffffff70, 28, 27), (0xffffff80, 28, 28), (0xffffff90, 28, 29),
    (0xffffffa0, 28, 30), (0xffffffb0, 28, 31), (0xffffffc0, 28, 127), (0xffffffd0, 28, 220),
    (0xffffffe0, 28, 249)],
   [(0xfffffff0, 30, 10), (0xfffffff4, 30, 13), (0xfffffff8, 30, 22), (0xfffffffc, 30, 256)]]"

lemma buckets:
  "concat (map (\<lambda>l. filter (\<lambda>s. len s = l) HpackHuffmanCode) [5, 6, 7, 8, 10, 11, 12, 13, 14, 15, 19, 20, 21, 22, 23, 24, 25, 26, 27, 28, 30]) = map symbol_of code_by_length"
  unfolding code_by_length_def map_concat code_chunks list.map filter_sym filter_append
  by (simp only: filter.simps prod.case append.simps append_Nil2 if_True if_False numeral_eq_iff num.simps list.map simp_thms
      cong: if_weak_cong)

lemma code_ids: "map sym_id HpackHuffmanCode = [0..<257]"
  unfolding code_chunks map_append list.map sym_simps by (simp add: upt_rec)

text \<open>The lengths of the codes, and lower bounds for the long ones.\<close>

definition code_bound :: "uint32 \<times> nat \<times> nat \<Rightarrow> bool" where
  "code_bound = (\<lambda>(c, n, i).
     n \<in> set [5, 6, 7, 8, 10, 11, 12, 13, 14, 15, 19, 20, 21, 22, 23, 24, 25, 26, 27, 28, 30] \<and>
     (if n \<le> 9 then True else if n \<le> 15 then 0xfe000000 \<le> c else if n \<le> 21 then 0xfffe0000 \<le> c
      else if n \<le> 27 then 0xffff4800 \<le> c else 0xfffffe20 \<le> c))"

lemma code_bounds: "list_all (\<lambda>s. code_bound (sym_code s, len s, sym_id s)) HpackHuffmanCode"
  unfolding code_chunks map_append list_all_append by (intro conjI; simp add: code_bound_def)

lemma bad_code_append:
  "bad_code (xs @ ys) = None \<longleftrightarrow>
     bad_code xs = None \<and> bad_code ys = None \<and> (xs \<noteq> [] \<and> ys \<noteq> [] \<longrightarrow> bad_code [last xs, hd ys] = None)"
proof (induction xs rule: bad_code.induct)
  case (1 a b ss)
  then show ?case by (auto simp: Let_def)
next
  case "2_2"
  then show ?case by (cases ys) (auto simp: Let_def)
qed simp

lemma code_chain: "bad_code (map symbol_of code_by_length) = None"
  unfolding code_by_length_def concat.simps map_append bad_code_append append_Nil2
  by (intro conjI; simp add: Let_def)

lemma sorted_bounds:
  assumes "code_bound (sym_code s, len s, i)" and "p \<in> {9, 15, 21, 27}" and "p < len s"
  shows "(p, topb p (lo s)) \<in> {9} \<times> {508..<512} \<union> {15} \<times> {32767..<32768} \<union>
    {21} \<times> {2097129..<2097152} \<union> {27} \<times> {134217713..<134217728}"
proof -
  have mono: "topb p x \<le> topb p (lo s)" if "x \<le> lo s" for x
    using that by (simp add: topb_def div_le_mono)
  have "topb p (lo s) < 2 ^ p" using assms(2) by (intro top_less lo_less) auto
  moreover have "topb p (if p = 9 then 0xfe000000 else if p = 15 then 0xfffe0000 else if p = 21 then 0xffff4800 else 0xfffffe20)
      \<le> topb p (lo s)"
    using assms by (intro mono) (auto simp: code_bound_def word_le_nat_alt split: if_splits)
  ultimately show ?thesis using assms(2) by (auto simp: topb_def)
qed

lemma code_length: "length HpackHuffmanCode = 257"
  using arg_cong [OF code_ids, of length] by simp

lemma code_symbol: "s \<in> set HpackHuffmanCode \<Longrightarrow> code_bound (sym_code s, len s, sym_id s)"
  using code_bounds unfolding list_all_iff by blast

lemma code_lengths: "\<forall>s \<in> set HpackHuffmanCode. length_ok s"
  using code_symbol by (fastforce simp: code_bound_def length_ok_def)

lemma code_table_keys: "card (table_keys (set HpackHuffmanCode)) < 255"
proof -
  let ?B = "{9} \<times> {508..<512} \<union> {15} \<times> {32767..<32768} \<union> {21} \<times> {2097129..<2097152} \<union> {27} \<times> {134217713..<134217728 :: nat} :: (nat \<times> nat) set"
  have "table_keys (set HpackHuffmanCode) \<subseteq> ?B"
    unfolding table_keys_def using sorted_bounds [OF code_symbol] by blast
  moreover have "finite ?B" by simp
  ultimately have "card (table_keys (set HpackHuffmanCode)) \<le> card ?B" by (rule card_mono [rotated])
  also have "\<dots> \<le> card ({9 :: nat} \<times> {508..<512 :: nat}) + card ({15 :: nat} \<times> {32767..<32768 :: nat}) +
      card ({21 :: nat} \<times> {2097129..<2097152 :: nat}) + card ({27 :: nat} \<times> {134217713..<134217728 :: nat})"
    by (meson add_le_mono card_Un_le le_refl le_trans)
  finally show ?thesis by (simp add: card_cartesian_product)
qed

lemma by_length_code: "by_length HpackHuffmanCode = map symbol_of code_by_length"
proof -
  have "map sym_id HpackHuffmanCode = [0..<length HpackHuffmanCode]" using code_ids code_length by simp
  then show ?thesis
    unfolding buckets [symmetric] using code_symbol
    by (intro by_length_buckets) (auto simp: code_bound_def)
qed

lemma code_ends: "hd code_by_length = (0, 5, 48)" "last code_by_length = (0xfffffffc, 30, 256)" "code_by_length \<noteq> []"
  by (simp_all add: code_by_length_def last_append)

lemma code_canonical: "canonical HpackHuffmanCode"
  using code_ids code_length code_chain code_ends
  by (simp add: canonical_def by_length_code hd_map last_map)

definition ObtainHpackHuffmanTable :: "huffman_table option" where
  "ObtainHpackHuffmanTable =
     (case HuffmanTable_Initialize HpackHuffmanCode HpackHuffmanTable of
        Some (True, t) \<Rightarrow> if IsInitialized t then Some t else None
      | _ \<Rightarrow> None)"

lemma code_complete: "complete_code HpackHuffmanCode"
  unfolding complete_code_def
proof
  fix x
  let ?ss = "map symbol_of code_by_length"
  have set_ss: "set ?ss = set HpackHuffmanCode" unfolding by_length_code [symmetric] by simp
  have l: "\<forall>s \<in> set ?ss. length_ok s" unfolding set_ss by (rule code_lengths)
  have "sorted (map len ?ss)" using by_length_sorted [of HpackHuffmanCode] unfolding by_length_code .
  then have "\<forall>s \<in> set ?ss. 2 ^ (32 - len s) dvd lo s"
    using bad_code_None [OF code_chain _ l] code_ends by (simp add: hd_map)
  then have "\<forall>s \<in> set ?ss. length_ok s \<and> 2 ^ (32 - len s) dvd lo s" using l by blast
  then have "\<exists>s \<in> set ?ss. starts_with x s"
    by (rule chain_covers [OF code_chain])
      (use code_ends unsigned_less [of x, where 'a = nat] in \<open>simp_all add: hd_map last_map\<close>)
  then show "\<exists>s \<in> set HpackHuffmanCode. starts_with x s" unfolding set_ss .
qed

lemma ObtainHpackHuffmanTable_ok:
  "\<exists>t. ObtainHpackHuffmanTable = Some t \<and> huffman_ok HpackHuffmanCode t"
proof -
  obtain t where t: "HuffmanTable_Initialize HpackHuffmanCode HpackHuffmanTable = Some (True, t)" "huffman_ok HpackHuffmanCode t"
    using Initialize_canonical [OF code_canonical code_lengths _ _ code_table_keys] code_length by force
  moreover have "IsInitialized t" using t(2) code_length by (auto simp: huffman_ok_def IsInitialized_def)
  ultimately show ?thesis by (simp add: ObtainHpackHuffmanTable_def)
qed

section \<open>Coding with the table of HPACK\<close>

text \<open>[C14]
  The shared Huffman table can be built, and it decodes every sequence of bytes as specified, however
  malformed: the decoder reads codes from the front of the bits as long as there is one, stops with
  an error when the capacity is reached or eight bits or more remain, and no \<open>CHECK\<close> fails and no
  vector is accessed outside of its bounds.
\<close>

theorem huffman_decoder_refines_greedy:
  "\<exists>t. ObtainHpackHuffmanTable = Some t \<and>
    (\<forall>m bytes capacity. \<exists>s'. DecodeString t (HpackInputStream m bytes) capacity =
       Some (fst (huff_decode HpackHuffmanCode capacity (bytes_bits bytes) []),
             snd (huff_decode HpackHuffmanCode capacity (bytes_bits bytes) []), s'))"
proof -
  obtain t where t: "ObtainHpackHuffmanTable = Some t" "huffman_ok HpackHuffmanCode t"
    using ObtainHpackHuffmanTable_ok by blast
  have "input_ok (HpackInputStream m bytes)" "in_bits (HpackInputStream m bytes) = bytes_bits bytes" for m bytes
    by (simp_all add: input_ok_def in_bits_def HpackInputStream_def)
  then show ?thesis using t DecodeString_ok [OF t(2) code_complete] by metis
qed

lemma hpack_string_coding:
  assumes "ObtainHpackHuffmanTable = Some t" and "out_bit_offset out = 0" and "length str \<le> capacity"
  shows "\<exists>bs s'. EncodeString t str out = Some (out\<lparr>out_buffer := out_buffer out @ bs\<rparr>) \<and>
    EncodedSize t str = Some (length bs) \<and>
    DecodeString t (HpackInputStream m bs) capacity = Some (True, str, s')"
proof -
  have "huffman_ok HpackHuffmanCode t" using ObtainHpackHuffmanTable_ok assms(1) by (metis option.inject)
  moreover have "unat c < length HpackHuffmanCode" for c :: uint8
    using unsigned_less [of c, where 'a = nat] code_length by simp
  ultimately show ?thesis using encoded_decodes [OF _ code_complete _ assms(2,3)] by blast
qed

text \<open>
  Every string survives the Huffman coding: encoding appends whole bytes to the stream, as many as
  \<open>EncodedSize\<close> computes, and decoding exactly these bytes, with room for the string, gives it back.
\<close>

theorem huffman_string_roundtrip:
  "\<exists>t bs s'. ObtainHpackHuffmanTable = Some t \<and>
    EncodeString t str \<lparr>out_buffer = before, out_bit_offset = 0\<rparr> =
      Some \<lparr>out_buffer = before @ bs, out_bit_offset = 0\<rparr> \<and>
    EncodedSize t str = Some (length bs) \<and>
    DecodeString t (HpackInputStream m bs) (length str + room) = Some (True, str, s')"
proof -
  obtain t where t: "ObtainHpackHuffmanTable = Some t" using ObtainHpackHuffmanTable_ok by blast
  then show ?thesis
    using hpack_string_coding [OF t, of "\<lparr>out_buffer = before, out_bit_offset = 0\<rparr>" str "length str + room"] by auto
qed

section \<open>Well-formedness\<close>

text \<open>[C35]
  The code in \<open>hpack_constants.cc\<close> is well-formed: its 257 symbols are listed in the order of their ids,
  their codes have 5 to 30 bits, with zeros below, no code is a prefix of another, they are assigned
  canonically, and every 32 bits start with one of them.
\<close>

theorem hpack_code_well_formed:
  "map sym_id HpackHuffmanCode = [0..<257] \<and>
   list_all (\<lambda>s. 5 \<le> sym_length s \<and> sym_length s \<le> 30) HpackHuffmanCode \<and>
   prefix_code (set HpackHuffmanCode) \<and> canonical HpackHuffmanCode \<and> complete_code HpackHuffmanCode"
proof -
  obtain t where "huffman_ok HpackHuffmanCode t" using ObtainHpackHuffmanTable_ok by blast
  then have "prefix_code (set HpackHuffmanCode)" by (simp add: huffman_ok_def)
  moreover have "list_all (\<lambda>s. 5 \<le> sym_length s \<and> sym_length s \<le> 30) HpackHuffmanCode"
    unfolding list_all_iff using code_symbol by (fastforce simp: code_bound_def)
  ultimately show ?thesis using code_canonical code_complete code_ids code_length by simp
qed

end
