(* ===== verification/Hpack_Header_Table.thy ===== *)
theory Hpack_Header_Table
  imports String_Number_Conversions "HOL-Library.List_Lexorder" "HOL-Library.Product_Lexorder"
begin

text \<open>
  \<open>net/spdy/hpack/hpack_entry.{h,cc}\<close>, \<open>hpack_static_table.{h,cc}\<close>, the static table of
  \<open>hpack_constants.cc\<close> and \<open>hpack_header_table.{h,cc}\<close>: the header table of HPACK. A deque is a list;
  the \<open>std::set\<close> of entries is a list in the order of its comparator, and the pointers in it are
  the entries. The result \<open>None\<close> of an operation is the failure of a \<open>CHECK\<close>.
\<close>

section \<open>Entries\<close>

datatype entry_type = LOOKUP | DYNAMIC | STATIC

record hpack_entry =
  entry_name :: "uint8 list"
  entry_value :: "uint8 list"
  insertion_index :: nat
  entry_type :: entry_type

definition kSizeOverhead :: nat where "kSizeOverhead = 32"

definition HpackEntry :: "uint8 list \<Rightarrow> uint8 list \<Rightarrow> bool \<Rightarrow> nat \<Rightarrow> hpack_entry" where
  "HpackEntry name val is_static index =
     \<lparr>entry_name = name, entry_value = val, insertion_index = index,
      entry_type = (if is_static then STATIC else DYNAMIC)\<rparr>"

definition HpackEntry_lookup :: "uint8 list \<Rightarrow> uint8 list \<Rightarrow> hpack_entry" where
  "HpackEntry_lookup name val =
     \<lparr>entry_name = name, entry_value = val, insertion_index = 0, entry_type = LOOKUP\<rparr>"

definition IsStatic :: "hpack_entry \<Rightarrow> bool" where "IsStatic e \<longleftrightarrow> entry_type e = STATIC"
definition IsLookup :: "hpack_entry \<Rightarrow> bool" where "IsLookup e \<longleftrightarrow> entry_type e = LOOKUP"

definition entry_Size :: "uint8 list \<Rightarrow> uint8 list \<Rightarrow> nat" where
  "entry_Size name val = length name + length val + kSizeOverhead"

definition Size :: "hpack_entry \<Rightarrow> nat" where
  "Size e = entry_Size (entry_name e) (entry_value e)"

section \<open>Ordered sets of entries\<close>

text \<open>\<open>StringPiece::compare\<close>, of which the code uses the sign.\<close>

definition string_compare :: "uint8 list \<Rightarrow> uint8 list \<Rightarrow> int" where
  "string_compare a b = (if a < b then - 1 else if a = b then 0 else 1)"

definition EntryComparator :: "hpack_entry \<Rightarrow> hpack_entry \<Rightarrow> bool" where
  "EntryComparator lhs rhs =
     (let result = string_compare (entry_name lhs) (entry_name rhs)
      in if result \<noteq> 0 then result < 0
         else
           (let result = string_compare (entry_value lhs) (entry_value rhs)
            in if result \<noteq> 0 then result < 0
               else
                 (let lhs_index = (if IsLookup lhs then 0 else 1 + insertion_index lhs);
                      rhs_index = (if IsLookup rhs then 0 else 1 + insertion_index rhs)
                  in lhs_index < rhs_index)))"

text \<open>
  What the comparison asserts: entries that are not the same object differ in what is compared. An object is
  its record here.
\<close>

definition EntryComparator_dcheck :: "hpack_entry \<Rightarrow> hpack_entry \<Rightarrow> bool" where
  "EntryComparator_dcheck lhs rhs \<longleftrightarrow>
     string_compare (entry_name lhs) (entry_name rhs) \<noteq> 0 \<or>
     string_compare (entry_value lhs) (entry_value rhs) \<noteq> 0 \<or> lhs = rhs \<or>
     (if IsLookup lhs then 0 else 1 + insertion_index lhs) \<noteq> (if IsLookup rhs then 0 else 1 + insertion_index rhs)"

text \<open>\<open>insert\<close> returns whether it inserted, \<open>erase\<close> the number of elements erased.\<close>

fun set_insert :: "hpack_entry \<Rightarrow> hpack_entry list \<Rightarrow> hpack_entry list \<times> bool" where
  "set_insert e [] = ([e], True)"
| "set_insert e (x # xs) =
     (if EntryComparator x e then (let (ys, b) = set_insert e xs in (x # ys, b))
      else if EntryComparator e x then (e # x # xs, True)
      else (x # xs, False))"

fun set_erase :: "hpack_entry \<Rightarrow> hpack_entry list \<Rightarrow> hpack_entry list \<times> nat" where
  "set_erase e [] = ([], 0)"
| "set_erase e (x # xs) =
     (if EntryComparator x e then (let (ys, n) = set_erase e xs in (x # ys, n))
      else if EntryComparator e x then (x # xs, 0)
      else (xs, 1))"

text \<open>The element at \<open>lower_bound\<close>; \<open>None\<close> is \<open>end()\<close>.\<close>

definition lower_bound :: "hpack_entry \<Rightarrow> hpack_entry list \<Rightarrow> hpack_entry option" where
  "lower_bound q xs =
     (case dropWhile (\<lambda>e. EntryComparator e q) xs of [] \<Rightarrow> None | e # _ \<Rightarrow> Some e)"

section \<open>The static table\<close>

definition HpackStaticTableVector :: "(uint8 list \<times> uint8 list) list" where
  "HpackStaticTableVector = map (\<lambda>(n, v). (bytes_of n, bytes_of v))
    [('':authority'', ''''), ('':method'', ''GET''), ('':method'', ''POST''), ('':path'', ''/''),
     ('':path'', ''/index.html''), ('':scheme'', ''http''), ('':scheme'', ''https''),
     ('':status'', ''200''), ('':status'', ''204''), ('':status'', ''206''),
     ('':status'', ''304''), ('':status'', ''400''), ('':status'', ''404''),
     ('':status'', ''500''), (''accept-charset'', ''''), (''accept-encoding'', ''gzip, deflate''),
     (''accept-language'', ''''), (''accept-ranges'', ''''), (''accept'', ''''),
     (''access-control-allow-origin'', ''''), (''age'', ''''), (''allow'', ''''),
     (''authorization'', ''''), (''cache-control'', ''''), (''content-disposition'', ''''),
     (''content-encoding'', ''''), (''content-language'', ''''), (''content-length'', ''''),
     (''content-location'', ''''), (''content-range'', ''''), (''content-type'', ''''),
     (''cookie'', ''''), (''date'', ''''), (''etag'', ''''), (''expect'', ''''),
     (''expires'', ''''), (''from'', ''''), (''host'', ''''), (''if-match'', ''''),
     (''if-modified-since'', ''''), (''if-none-match'', ''''), (''if-range'', ''''),
     (''if-unmodified-since'', ''''), (''last-modified'', ''''), (''link'', ''''),
     (''location'', ''''), (''max-forwards'', ''''), (''proxy-authenticate'', ''''),
     (''proxy-authorization'', ''''), (''range'', ''''), (''referer'', ''''), (''refresh'', ''''),
     (''retry-after'', ''''), (''server'', ''''), (''set-cookie'', ''''),
     (''strict-transport-security'', ''''), (''transfer-encoding'', ''''), (''user-agent'', ''''),
     (''vary'', ''''), (''via'', ''''), (''www-authenticate'', '''')]"

text \<open>The loop of \<open>HpackStaticTable::Initialize\<close>.\<close>

fun Initialize_loop ::
    "(uint8 list \<times> uint8 list) list \<Rightarrow> nat \<Rightarrow> hpack_entry list \<times> hpack_entry list \<Rightarrow>
     (hpack_entry list \<times> hpack_entry list) option" where
  "Initialize_loop [] total_insertions t = Some t"
| "Initialize_loop ((name, val) # its) total_insertions (entries, index) =
     (let e = HpackEntry name val True total_insertions
      in case set_insert e index of
           (_, False) \<Rightarrow> None
         | (index, True) \<Rightarrow> Initialize_loop its (total_insertions + 1) (entries @ [e], index))"

definition Initialize :: "(uint8 list \<times> uint8 list) list \<Rightarrow> (hpack_entry list \<times> hpack_entry list) option" where
  "Initialize static_entry_table = Initialize_loop static_entry_table 0 ([], [])"

section \<open>The header table\<close>

definition kDefaultHeaderTableSizeSetting :: nat where "kDefaultHeaderTableSizeSetting = 4096"

record hpack_header_table =
  static_entries :: "hpack_entry list"
  dynamic_entries :: "hpack_entry list"
  static_index :: "hpack_entry list"
  dynamic_index :: "hpack_entry list"
  settings_size_bound :: nat
  table_size :: nat
  max_size :: nat
  total_insertions :: nat

definition HpackHeaderTable :: "hpack_header_table option" where
  "HpackHeaderTable =
     (case Initialize HpackStaticTableVector of
        None \<Rightarrow> None
      | Some (entries, index) \<Rightarrow>
          Some \<lparr>static_entries = entries, dynamic_entries = [], static_index = index,
                dynamic_index = [], settings_size_bound = kDefaultHeaderTableSizeSetting,
                table_size = 0, max_size = kDefaultHeaderTableSizeSetting,
                total_insertions = length entries\<rparr>)"

definition GetByIndex :: "nat \<Rightarrow> hpack_header_table \<Rightarrow> hpack_entry option" where
  "GetByIndex index t =
     (if index = 0 then None
      else
        (let index = index - 1
         in if index < length (static_entries t) then Some (static_entries t ! index)
            else
              (let index = index - length (static_entries t)
               in if index < length (dynamic_entries t) then Some (dynamic_entries t ! index)
                  else None)))"

text \<open>The two lookups that \<open>GetByName\<close> and \<open>GetByNameAndValue\<close> make in an index.\<close>

definition find_name :: "uint8 list \<Rightarrow> hpack_entry list \<Rightarrow> hpack_entry option" where
  "find_name name index =
     (case lower_bound (HpackEntry_lookup name []) index of
        Some e \<Rightarrow> if entry_name e = name then Some e else None
      | None \<Rightarrow> None)"

definition find_name_value :: "uint8 list \<Rightarrow> uint8 list \<Rightarrow> hpack_entry list \<Rightarrow> hpack_entry option" where
  "find_name_value name val index =
     (case lower_bound (HpackEntry_lookup name val) index of
        Some e \<Rightarrow> if entry_name e = name \<and> entry_value e = val then Some e else None
      | None \<Rightarrow> None)"

definition GetByName :: "uint8 list \<Rightarrow> hpack_header_table \<Rightarrow> hpack_entry option" where
  "GetByName name t =
     (case find_name name (static_index t) of
        Some e \<Rightarrow> Some e
      | None \<Rightarrow> find_name name (dynamic_index t))"

definition GetByNameAndValue ::
    "uint8 list \<Rightarrow> uint8 list \<Rightarrow> hpack_header_table \<Rightarrow> hpack_entry option" where
  "GetByNameAndValue name val t =
     (case find_name_value name val (static_index t) of
        Some e \<Rightarrow> Some e
      | None \<Rightarrow> find_name_value name val (dynamic_index t))"

definition IndexOf :: "hpack_entry \<Rightarrow> hpack_header_table \<Rightarrow> nat" where
  "IndexOf e t =
     (if IsLookup e then 0
      else if IsStatic e then 1 + insertion_index e
      else total_insertions t - insertion_index e + length (static_entries t))"

text \<open>The loop of \<open>EvictionCountToReclaim\<close>, over the entries from the back.\<close>

fun reclaim_loop :: "hpack_entry list \<Rightarrow> nat \<Rightarrow> nat \<Rightarrow> nat" where
  "reclaim_loop [] reclaim_size n = n"
| "reclaim_loop (e # es) reclaim_size n =
     (if reclaim_size \<noteq> 0 then reclaim_loop es (reclaim_size - min reclaim_size (Size e)) (n + 1)
      else n)"

definition EvictionCountToReclaim :: "nat \<Rightarrow> hpack_header_table \<Rightarrow> nat" where
  "EvictionCountToReclaim reclaim_size t = reclaim_loop (rev (dynamic_entries t)) reclaim_size 0"

definition EvictionCountForEntry :: "uint8 list \<Rightarrow> uint8 list \<Rightarrow> hpack_header_table \<Rightarrow> nat" where
  "EvictionCountForEntry name val t =
     (let available_size = max_size t - table_size t;
          entry_size = entry_Size name val
      in if entry_size \<le> available_size then 0
         else EvictionCountToReclaim (entry_size - available_size) t)"

definition EvictionSet :: "uint8 list \<Rightarrow> uint8 list \<Rightarrow> hpack_header_table \<Rightarrow> hpack_entry list" where
  "EvictionSet name val t =
     drop (length (dynamic_entries t) - EvictionCountForEntry name val t) (dynamic_entries t)"

fun Evict :: "nat \<Rightarrow> hpack_header_table \<Rightarrow> hpack_header_table option" where
  "Evict 0 t = Some t"
| "Evict (Suc n) t =
     (if dynamic_entries t = [] then None
      else
        (let entry = last (dynamic_entries t);
             t = t\<lparr>table_size := table_size t - Size entry\<rparr>
         in case set_erase entry (dynamic_index t) of
              (index, erased) \<Rightarrow>
                if erased \<noteq> 1 then None
                else Evict n (t\<lparr>dynamic_index := index, dynamic_entries := butlast (dynamic_entries t)\<rparr>)))"

definition SetMaxSize :: "nat \<Rightarrow> hpack_header_table \<Rightarrow> hpack_header_table option" where
  "SetMaxSize n t =
     (if n > settings_size_bound t then None
      else
        (let t = t\<lparr>max_size := n\<rparr>
         in if table_size t > max_size t
            then
              (case Evict (EvictionCountToReclaim (table_size t - max_size t) t) t of
                 None \<Rightarrow> None
               | Some t \<Rightarrow> if table_size t > max_size t then None else Some t)
            else Some t))"

definition SetSettingsHeaderTableSize :: "nat \<Rightarrow> hpack_header_table \<Rightarrow> hpack_header_table option" where
  "SetSettingsHeaderTableSize settings_size t =
     (let t = t\<lparr>settings_size_bound := settings_size\<rparr>
      in if settings_size_bound t < max_size t then SetMaxSize (settings_size_bound t) t else Some t)"

text \<open>The returned entry is \<open>None\<close> for \<open>NULL\<close>.\<close>

definition TryAddEntry ::
    "uint8 list \<Rightarrow> uint8 list \<Rightarrow> hpack_header_table \<Rightarrow> (hpack_entry option \<times> hpack_header_table) option" where
  "TryAddEntry name val t =
     (case Evict (EvictionCountForEntry name val t) t of
        None \<Rightarrow> None
      | Some t \<Rightarrow>
          (let entry_size = entry_Size name val
           in if entry_size > max_size t - table_size t
              then (if dynamic_entries t \<noteq> [] \<or> table_size t \<noteq> 0 then None else Some (None, t))
              else
                (let e = HpackEntry name val False (total_insertions t)
                 in case set_insert e (dynamic_index t) of
                      (_, False) \<Rightarrow> None
                    | (index, True) \<Rightarrow>
                        Some (Some e,
                              t\<lparr>dynamic_entries := e # dynamic_entries t, dynamic_index := index,
                                table_size := table_size t + entry_size,
                                total_insertions := total_insertions t + 1\<rparr>))))"

section \<open>The order of the sets\<close>

definition entry_key :: "hpack_entry \<Rightarrow> uint8 list \<times> uint8 list \<times> nat" where
  "entry_key e = (entry_name e, entry_value e, if IsLookup e then 0 else 1 + insertion_index e)"

lemma EntryComparator_key: "EntryComparator x y \<longleftrightarrow> entry_key x < entry_key y"
  by (auto simp: EntryComparator_def entry_key_def string_compare_def Let_def less_prod_def' )

text \<open>The sorted list that represents a set.\<close>

abbreviation key_sorted :: "('e \<Rightarrow> 'k::linorder) \<Rightarrow> 'e list \<Rightarrow> bool" where
  "key_sorted key xs \<equiv> sorted_wrt (\<lambda>x y. key x < key y) xs"

text \<open>
  What the header table relies on of a \<open>std::set\<close>: inserting an element with a new key and erasing
  an element succeed, and \<open>lower_bound\<close> finds the element with the least key not below the query.
\<close>

locale keyed_set =
  fixes key :: "'e \<Rightarrow> 'k::linorder"
    and ins :: "'e \<Rightarrow> 'e list \<Rightarrow> 'e list \<times> bool"
    and era :: "'e \<Rightarrow> 'e list \<Rightarrow> 'e list \<times> nat"
    and low :: "'e \<Rightarrow> 'e list \<Rightarrow> 'e option"
  assumes insert_new: "key_sorted key xs \<Longrightarrow> \<forall>x \<in> set xs. key x \<noteq> key e \<Longrightarrow>
      \<exists>ys. ins e xs = (ys, True) \<and> set ys = insert e (set xs) \<and> key_sorted key ys"
    and erase_element: "key_sorted key xs \<Longrightarrow> e \<in> set xs \<Longrightarrow>
      \<exists>ys. era e xs = (ys, 1) \<and> set ys = set xs - {e} \<and> key_sorted key ys"
    and lower_bound_law: "key_sorted key xs \<Longrightarrow>
      (case low q xs of
         None \<Rightarrow> \<forall>x \<in> set xs. key x < key q
       | Some e \<Rightarrow> e \<in> set xs \<and> key q \<le> key e \<and> (\<forall>x \<in> set xs. key q \<le> key x \<longrightarrow> key e \<le> key x))"
begin

lemma key_inject:
  assumes "key_sorted key xs" and "x \<in> set xs" and "y \<in> set xs" and "key x = key y"
  shows "x = y"
proof -
  obtain i j where ij: "i < length xs" "j < length xs" "x = xs ! i" "y = xs ! j"
    using assms(2,3) by (auto simp: in_set_conv_nth)
  have "\<not> i < j" "\<not> j < i"
    using assms(1,4) ij sorted_wrt_nth_less [OF assms(1), of i j] sorted_wrt_nth_less [OF assms(1), of j i]
    by auto
  then show ?thesis using ij by (simp add: not_less)
qed

lemma lower_bound_is:
  assumes "key_sorted key xs" and "e \<in> set xs" and "key q \<le> key e"
    and "\<forall>x \<in> set xs. key q \<le> key x \<longrightarrow> key e \<le> key x"
  shows "low q xs = Some e"
proof (cases "low q xs")
  case None
  then have "key e < key q" using lower_bound_law [OF assms(1), of q] assms(2) by simp
  then show ?thesis using assms(3) by (simp add: leD)
next
  case (Some e')
  then have "e' \<in> set xs" "key q \<le> key e'" "key e' \<le> key e"
    using lower_bound_law [OF assms(1), of q] assms(2,3) by simp_all
  moreover from this have "key e \<le> key e'" using assms(4) by blast
  ultimately show ?thesis using key_inject [OF assms(1) _ assms(2), of e'] Some by (simp add: antisym)
qed

lemma lower_bound_in: "key_sorted key xs \<Longrightarrow> low q xs = Some e \<Longrightarrow> e \<in> set xs"
  using lower_bound_law [of xs q] by simp

end

definition index_ok :: "hpack_entry list \<Rightarrow> hpack_entry list \<Rightarrow> bool" where
  "index_ok idx es \<longleftrightarrow> key_sorted entry_key idx \<and> set idx = set es"

lemma set_insert_ok:
  assumes "key_sorted entry_key xs" and "\<forall>x \<in> set xs. entry_key x \<noteq> entry_key e"
  shows "\<exists>ys. set_insert e xs = (ys, True) \<and> set ys = insert e (set xs) \<and>
    key_sorted entry_key ys"
  using assms
proof (induction xs)
  case (Cons x xs)
  then obtain ys where ys: "set_insert e xs = (ys, True)" "set ys = insert e (set xs)"
    "key_sorted entry_key ys"
    by auto
  show ?case
  proof (cases "entry_key x < entry_key e")
    case True
    then show ?thesis using Cons.prems ys by (auto simp: EntryComparator_key)
  next
    case False
    then have "entry_key e < entry_key x" using Cons.prems by auto
    then show ?thesis using Cons.prems False by (auto simp: EntryComparator_key intro: less_trans)
  qed
qed simp

lemma set_erase_ok:
  assumes "key_sorted entry_key xs" and "e \<in> set xs"
  shows "\<exists>ys. set_erase e xs = (ys, 1) \<and> set ys = set xs - {e} \<and>
    key_sorted entry_key ys"
  using assms
proof (induction xs)
  case (Cons x xs)
  show ?case
  proof (cases "x = e")
    case True
    then show ?thesis using Cons.prems by (auto simp: EntryComparator_key)
  next
    case False
    then have "e \<in> set xs" "entry_key x < entry_key e" using Cons.prems by auto
    moreover then obtain ys where "set_erase e xs = (ys, 1)" "set ys = set xs - {e}"
      "key_sorted entry_key ys"
      using Cons by auto
    ultimately show ?thesis using Cons.prems False by (auto simp: EntryComparator_key)
  qed
qed simp

lemma lower_bound_least:
  assumes "key_sorted entry_key xs"
  shows "case lower_bound q xs of
      None \<Rightarrow> \<forall>x \<in> set xs. entry_key x < entry_key q
    | Some e \<Rightarrow> e \<in> set xs \<and> entry_key q \<le> entry_key e \<and>
        (\<forall>x \<in> set xs. entry_key q \<le> entry_key x \<longrightarrow> entry_key e \<le> entry_key x)"
  using assms
proof (induction xs)
  case (Cons x xs)
  show ?case
  proof (cases "entry_key x < entry_key q")
    case True
    then have "lower_bound q (x # xs) = lower_bound q xs"
      by (simp add: lower_bound_def EntryComparator_key)
    then show ?thesis using Cons True by (auto split: option.splits)
  next
    case False
    then have "lower_bound q (x # xs) = Some x" by (simp add: lower_bound_def EntryComparator_key)
    then show ?thesis using Cons.prems False by (auto simp: less_imp_le)
  qed
qed (simp add: lower_bound_def)

interpretation entries: keyed_set entry_key set_insert set_erase lower_bound
  using set_insert_ok set_erase_ok lower_bound_least by unfold_locales

section \<open>The invariant\<close>

definition total_size :: "hpack_entry list \<Rightarrow> nat" where
  "total_size es = sum_list (map Size es)"

definition static_ok :: "hpack_entry list \<Rightarrow> bool" where
  "static_ok es \<longleftrightarrow> (\<forall>i < length es. IsStatic (es ! i) \<and> insertion_index (es ! i) = i)"

definition dynamic_ok :: "nat \<Rightarrow> hpack_entry list \<Rightarrow> bool" where
  "dynamic_ok n es \<longleftrightarrow>
     (\<forall>i < length es. entry_type (es ! i) = DYNAMIC \<and> insertion_index (es ! i) + i + 1 = n)"

definition table_core :: "hpack_header_table \<Rightarrow> bool" where
  "table_core t \<longleftrightarrow>
     static_ok (static_entries t) \<and> index_ok (static_index t) (static_entries t) \<and>
     dynamic_ok (total_insertions t) (dynamic_entries t) \<and>
     index_ok (dynamic_index t) (dynamic_entries t) \<and>
     table_size t = total_size (dynamic_entries t)"

definition table_inv :: "hpack_header_table \<Rightarrow> bool" where
  "table_inv t \<longleftrightarrow> table_core t \<and> table_size t \<le> max_size t \<and> max_size t \<le> settings_size_bound t"

lemma dynamic_ok_distinct: "dynamic_ok n es \<Longrightarrow> distinct es"
proof (unfold distinct_conv_nth, intro allI impI)
  fix i j
  assume ok: "dynamic_ok n es" and ij: "i < length es" "j < length es" "i \<noteq> j"
  have "insertion_index (es ! i) + i + 1 = n" "insertion_index (es ! j) + j + 1 = n"
    using ok ij by (simp_all add: dynamic_ok_def)
  then show "es ! i \<noteq> es ! j" using ij(3) by auto
qed

lemma dynamic_ok_take: "dynamic_ok n es \<Longrightarrow> dynamic_ok n (take k es)"
  by (simp add: dynamic_ok_def)

lemma dynamic_ok_Cons:
  "dynamic_ok n es \<Longrightarrow> dynamic_ok (Suc n) (HpackEntry name val False n # es)"
  by (auto simp: dynamic_ok_def HpackEntry_def less_Suc_eq_0_disj)

lemma total_size_simps [simp]:
  "total_size [] = 0" "total_size (e # es) = Size e + total_size es"
  "total_size (xs @ ys) = total_size xs + total_size ys"
  by (simp_all add: total_size_def)

lemma Size_pos [simp]: "0 < Size e" "Size e \<noteq> 0"
  by (simp_all add: Size_def entry_Size_def kSizeOverhead_def)

section \<open>Eviction\<close>

text \<open>The entries that remain when the oldest ones are evicted until the rest fits.\<close>

fun keep :: "nat \<Rightarrow> hpack_entry list \<Rightarrow> hpack_entry list" where
  "keep b [] = []"
| "keep b (e # es) = (if Size e \<le> b then e # keep (b - Size e) es else [])"

lemma keep_all: "total_size es \<le> b \<Longrightarrow> keep b es = es"
  by (induction es arbitrary: b) auto

lemma keep_snoc: "b < total_size es + Size x \<Longrightarrow> keep b (es @ [x]) = keep b es"
  by (induction es arbitrary: b) auto

lemma keep_fits: "total_size (keep b es) \<le> b"
  by (induction es arbitrary: b) (auto, metis le_diff_conv2 add.commute)

lemma reclaim_loop_acc: "reclaim_loop es k n = n + reclaim_loop es k 0"
proof (induction es arbitrary: k n)
  case (Cons e es)
  show ?case using Cons [of "k - min k (Size e)" "n + 1"] Cons [of "k - min k (Size e)" 1] by simp
qed simp

lemma reclaim_loop_le: "reclaim_loop es k 0 \<le> length es"
proof (induction es arbitrary: k)
  case (Cons e es)
  show ?case using Cons [of "k - min k (Size e)"] by (simp add: reclaim_loop_acc [of es _ "Suc 0"])
qed simp

lemma reclaim_keep:
  "take (length es - reclaim_loop (rev es) k 0) es = keep (total_size es - k) es"
proof (induction es arbitrary: k rule: rev_induct)
  case (snoc x es)
  show ?case
  proof (cases "k = 0")
    case True
    then show ?thesis by (simp add: keep_all)
  next
    case False
    let ?k = "k - min k (Size x)"
    have r: "reclaim_loop (rev (es @ [x])) k 0 = Suc (reclaim_loop (rev es) ?k 0)"
      using False reclaim_loop_acc [of "rev es" ?k 1] by simp
    have b: "total_size es + Size x - k < total_size es + Size x" using False by (simp add: diff_less_mono2)
    have "keep (total_size es - ?k) es = keep (total_size es + Size x - k) es"
      by (cases "k \<le> Size x") (simp_all add: keep_all)
    then show ?thesis
      using snoc [of ?k] keep_snoc [OF b] unfolding r by simp
  qed
qed simp


lemma Evict_ok:
  assumes "table_core t" and "n \<le> length (dynamic_entries t)"
  shows "\<exists>idx. Evict n t = Some (t\<lparr>dynamic_entries := take (length (dynamic_entries t) - n) (dynamic_entries t),
      dynamic_index := idx, table_size := total_size (take (length (dynamic_entries t) - n) (dynamic_entries t))\<rparr>) \<and>
    index_ok idx (take (length (dynamic_entries t) - n) (dynamic_entries t))"
  using assms
proof (induction n arbitrary: t)
  case 0
  then show ?case by (cases t) (simp add: table_core_def)
next
  case (Suc n)
  let ?es = "dynamic_entries t"
  obtain es e where es: "?es = es @ [e]" using Suc.prems(2) by (cases ?es rule: rev_cases) auto
  have inv: "key_sorted entry_key (dynamic_index t)" "set (dynamic_index t) = set ?es"
    "dynamic_ok (total_insertions t) ?es" "table_size t = total_size ?es"
    using Suc.prems(1) by (simp_all add: table_core_def index_ok_def)
  have "e \<notin> set es" using dynamic_ok_distinct [OF inv(3)] by (simp add: es)
  then obtain idx where idx: "set_erase e (dynamic_index t) = (idx, 1)" "index_ok idx es"
    using set_erase_ok [OF inv(1), of e] inv(2) es by (auto simp: index_ok_def)
  define t' where "t' = t\<lparr>table_size := total_size es, dynamic_index := idx, dynamic_entries := es\<rparr>"
  have e: "Evict (Suc n) t = Evict n t'"
    using inv(4) idx(1) by (simp add: es t'_def Let_def)
  have "table_core t'"
    using Suc.prems(1) idx(2) inv dynamic_ok_take [OF inv(3), of "length es"]
    by (simp add: t'_def table_core_def es)
  then obtain idx' where "Evict n t' = Some (t'\<lparr>dynamic_entries := take (length es - n) es,
      dynamic_index := idx', table_size := total_size (take (length es - n) es)\<rparr>)"
    "index_ok idx' (take (length es - n) es)"
    using Suc.IH [of t'] Suc.prems(2) by (auto simp: t'_def es)
  then show ?case unfolding e es by (auto simp: t'_def)
qed

lemma Evict_reclaim:
  assumes "table_core t" and "es' = keep (table_size t - k) (dynamic_entries t)"
  shows "\<exists>idx. Evict (EvictionCountToReclaim k t) t =
      Some (t\<lparr>dynamic_entries := es', dynamic_index := idx, table_size := total_size es'\<rparr>) \<and>
    index_ok idx es' \<and> dynamic_ok (total_insertions t) es'"
proof -
  have c: "EvictionCountToReclaim k t \<le> length (dynamic_entries t)"
    using reclaim_loop_le [of "rev (dynamic_entries t)" k] by (simp add: EvictionCountToReclaim_def)
  have "take (length (dynamic_entries t) - EvictionCountToReclaim k t) (dynamic_entries t) = es'"
    using reclaim_keep [of "dynamic_entries t" k] assms by (simp add: EvictionCountToReclaim_def table_core_def)
  moreover from this have "dynamic_ok (total_insertions t) es'"
    using assms dynamic_ok_take by (metis table_core_def)
  ultimately show ?thesis using Evict_ok [OF assms(1) c] by simp
qed


section \<open>The operations\<close>

lemma table_size_total: "table_core t \<Longrightarrow> table_size t = total_size (dynamic_entries t)"
  by (simp add: table_core_def)

lemma table_no_change:
  "table_core t \<Longrightarrow> t\<lparr>dynamic_entries := dynamic_entries t, dynamic_index := dynamic_index t,
     table_size := total_size (dynamic_entries t)\<rparr> = t"
  by (cases t) (simp add: table_core_def)

lemma SetMaxSize_ok:
  assumes "table_core t" and "n \<le> settings_size_bound t"
  shows "\<exists>t'. SetMaxSize n t = Some t' \<and> table_inv t' \<and> max_size t' = n \<and>
    settings_size_bound t' = settings_size_bound t \<and> dynamic_entries t' = keep n (dynamic_entries t)"
proof (cases "table_size t > n")
  case True
  let ?t = "t\<lparr>max_size := n\<rparr>" and ?es = "keep n (dynamic_entries t)"
  have core: "table_core ?t" using assms(1) by (simp add: table_core_def)
  have es: "?es = keep (table_size ?t - (table_size t - n)) (dynamic_entries ?t)" using True by simp
  obtain idx where "Evict (EvictionCountToReclaim (table_size t - n) ?t) ?t =
      Some (?t\<lparr>dynamic_entries := ?es, dynamic_index := idx, table_size := total_size ?es\<rparr>)"
    "index_ok idx ?es" "dynamic_ok (total_insertions t) ?es"
    using Evict_reclaim [OF core es] by auto
  then show ?thesis
    using True assms keep_fits [of n "dynamic_entries t"]
    by (simp add: SetMaxSize_def table_inv_def table_core_def not_less)
next
  case False
  then have "keep n (dynamic_entries t) = dynamic_entries t"
    using assms by (simp add: keep_all table_size_total)
  then show ?thesis
    using False assms by (simp add: SetMaxSize_def table_inv_def table_core_def)
qed

lemma static_ok_index: "static_ok es \<Longrightarrow> x \<in> set es \<Longrightarrow> entry_type x = STATIC \<and> insertion_index x < length es"
  by (auto simp: static_ok_def IsStatic_def in_set_conv_nth)

lemma dynamic_ok_index:
  "dynamic_ok n es \<Longrightarrow> x \<in> set es \<Longrightarrow> entry_type x = DYNAMIC \<and> insertion_index x < n"
  by (auto simp: dynamic_ok_def in_set_conv_nth)

lemma Evict_for_entry:
  assumes "table_core t" and "es = keep (table_size t - (entry_Size name val - (max_size t - table_size t))) (dynamic_entries t)"
  shows "\<exists>idx. Evict (EvictionCountForEntry name val t) t =
      Some (t\<lparr>dynamic_entries := es, dynamic_index := idx, table_size := total_size es\<rparr>) \<and>
    index_ok idx es \<and> dynamic_ok (total_insertions t) es"
proof (cases "entry_Size name val \<le> max_size t - table_size t")
  case True
  then have "entry_Size name val - (max_size t - table_size t) = 0" by simp
  then have "es = dynamic_entries t" using assms by (simp add: keep_all table_size_total)
  then show ?thesis
    using True assms(1) table_no_change [OF assms(1)]
    by (intro exI [of _ "dynamic_index t"]) (simp add: EvictionCountForEntry_def table_core_def)
next
  case False
  then show ?thesis using Evict_reclaim [OF assms] by (simp add: EvictionCountForEntry_def Let_def)
qed

lemma keep_for_entry:
  assumes "table_inv t" and "n \<le> max_size t"
  shows "keep (table_size t - (n - (max_size t - table_size t))) (dynamic_entries t) =
    keep (max_size t - n) (dynamic_entries t)"
proof (cases "n \<le> max_size t - table_size t")
  case True
  then have "n - (max_size t - table_size t) = 0" by simp
  moreover have "total_size (dynamic_entries t) \<le> max_size t - n"
    using True assms table_size_total [of t] unfolding table_inv_def by linarith
  ultimately show ?thesis using assms by (simp add: keep_all table_inv_def table_size_total)
next
  case False
  then have "table_size t - (n - (max_size t - table_size t)) = max_size t - n"
    using assms by (simp add: table_inv_def)
  then show ?thesis by simp
qed

text \<open>
  The assertion of the comparison holds for all entries it is called on: two entries of one index, or such an entry
  and a query or the entry that is about to be inserted.
\<close>

lemma EntryComparator_dcheck_key: "EntryComparator_dcheck x y \<longleftrightarrow> (entry_key x = entry_key y \<longrightarrow> x = y)"
  by (auto simp: EntryComparator_dcheck_def entry_key_def string_compare_def)

lemma comparator_dchecks:
  assumes "table_inv t"
  shows "x \<in> set (static_index t) \<Longrightarrow> y \<in> set (static_index t) \<or> y = HpackEntry_lookup name val \<Longrightarrow>
      EntryComparator_dcheck x y \<and> EntryComparator_dcheck y x"
    and "x \<in> set (dynamic_index t) \<Longrightarrow>
      y \<in> set (dynamic_index t) \<or> y = HpackEntry_lookup name val \<or> y = HpackEntry name val False (total_insertions t) \<Longrightarrow>
      EntryComparator_dcheck x y \<and> EntryComparator_dcheck y x"
proof -
  have core: "index_ok (static_index t) (static_entries t)" "static_ok (static_entries t)"
    "index_ok (dynamic_index t) (dynamic_entries t)" "dynamic_ok (total_insertions t) (dynamic_entries t)"
    using assms by (simp_all add: table_inv_def table_core_def)
  have lookup: "entry_key x \<noteq> entry_key (HpackEntry_lookup name val)" if "\<not> IsLookup x" for x
    using that by (simp add: entry_key_def HpackEntry_lookup_def IsLookup_def)
  have old: "entry_key x \<noteq> entry_key (HpackEntry name val False (total_insertions t))" "\<not> IsLookup x"
    if "x \<in> set (dynamic_index t)" for x
    using that core(3) dynamic_ok_index [OF core(4), of x]
    by (auto simp: index_ok_def entry_key_def IsLookup_def HpackEntry_def)
  have static: "\<not> IsLookup x" if "x \<in> set (static_index t)" for x
    using that core(1) static_ok_index [OF core(2), of x] by (auto simp: index_ok_def IsLookup_def)
  have same: "x = y" if "key_sorted entry_key xs" "x \<in> set xs" "y \<in> set xs" "entry_key x = entry_key y" for x y xs
    using that by (rule entries.key_inject)
  show "x \<in> set (static_index t) \<Longrightarrow> y \<in> set (static_index t) \<or> y = HpackEntry_lookup name val \<Longrightarrow>
      EntryComparator_dcheck x y \<and> EntryComparator_dcheck y x"
    using lookup static same [of "static_index t" x y] core(1) unfolding EntryComparator_dcheck_key
    by (auto simp: index_ok_def dest: sym)
  show "x \<in> set (dynamic_index t) \<Longrightarrow>
      y \<in> set (dynamic_index t) \<or> y = HpackEntry_lookup name val \<or> y = HpackEntry name val False (total_insertions t) \<Longrightarrow>
      EntryComparator_dcheck x y \<and> EntryComparator_dcheck y x"
    using lookup old same [of "dynamic_index t" x y] core(3) unfolding EntryComparator_dcheck_key
    by (auto simp: index_ok_def dest: sym)
qed

lemma TryAddEntry_ok:
  assumes "table_inv t"
  shows "\<exists>r t'. TryAddEntry name val t = Some (r, t') \<and> table_inv t' \<and>
    max_size t' = max_size t \<and> settings_size_bound t' = settings_size_bound t \<and>
    (if entry_Size name val > max_size t then r = None \<and> dynamic_entries t' = []
     else r = Some (HpackEntry name val False (total_insertions t)) \<and>
          dynamic_entries t' = HpackEntry name val False (total_insertions t) #
            keep (max_size t - entry_Size name val) (dynamic_entries t))"
proof -
  let ?n = "entry_Size name val" and ?e = "HpackEntry name val False (total_insertions t)"
  define es where "es = keep (table_size t - (?n - (max_size t - table_size t))) (dynamic_entries t)"
  have inv: "table_size t \<le> max_size t" "table_core t" using assms by (simp_all add: table_inv_def)
  obtain idx where idx: "Evict (EvictionCountForEntry name val t) t =
      Some (t\<lparr>dynamic_entries := es, dynamic_index := idx, table_size := total_size es\<rparr>)"
    "index_ok idx es" "dynamic_ok (total_insertions t) es"
    using Evict_for_entry [OF inv(2) es_def] by blast
  show ?thesis
  proof (cases "?n > max_size t")
    case True
    then have "total_size es = 0"
      using keep_fits [of "table_size t - (?n - (max_size t - table_size t))" "dynamic_entries t"] inv by (simp add: es_def)
    then have "es = []" by (cases es) simp_all
    then show ?thesis
      using True idx assms by (simp add: TryAddEntry_def table_inv_def table_core_def)
  next
    case False
    then have es: "es = keep (max_size t - ?n) (dynamic_entries t)"
      using keep_for_entry [OF assms] by (simp add: es_def)
    then have fit: "total_size es + ?n \<le> max_size t"
      using keep_fits [of "max_size t - ?n" "dynamic_entries t"] False by simp
    have "entry_key x \<noteq> entry_key ?e" if "x \<in> set idx" for x
      using that idx(2) dynamic_ok_index [OF idx(3), of x]
      by (auto simp: index_ok_def entry_key_def IsLookup_def HpackEntry_def)
    then obtain idx' where "set_insert ?e idx = (idx', True)" "index_ok idx' (?e # es)"
      using idx(2) set_insert_ok [of idx ?e] by (auto simp: index_ok_def)
    moreover have "Size ?e = ?n" "\<not> max_size t - total_size es < ?n" using fit by (simp_all add: Size_def HpackEntry_def)
    ultimately show ?thesis
      using False idx assms fit dynamic_ok_Cons [OF idx(3), of name val]
      by (simp add: TryAddEntry_def table_inv_def table_core_def Let_def flip: es)
  qed
qed


section \<open>The static table\<close>

definition name_value :: "hpack_entry \<Rightarrow> uint8 list \<times> uint8 list" where
  "name_value e = (entry_name e, entry_value e)"

lemma static_ok_snoc: "static_ok es \<Longrightarrow> static_ok (es @ [HpackEntry name val True (length es)])"
  by (auto simp: static_ok_def nth_append less_Suc_eq HpackEntry_def IsStatic_def)

lemma Initialize_loop_ok:
  assumes "static_ok es" and "index_ok idx es"
  shows "\<exists>es' idx'. Initialize_loop its (length es) (es, idx) = Some (es', idx') \<and>
    static_ok es' \<and> index_ok idx' es' \<and> map name_value es' = map name_value es @ its"
  using assms
proof (induction its arbitrary: es idx)
  case (Cons it its)
  obtain name val where it: "it = (name, val)" by fastforce
  let ?e = "HpackEntry name val True (length es)"
  have "entry_key x \<noteq> entry_key ?e" if "x \<in> set idx" for x
    using that Cons.prems(2) static_ok_index [OF Cons.prems(1), of x]
    by (auto simp: index_ok_def entry_key_def IsLookup_def HpackEntry_def)
  then obtain idx' where i: "set_insert ?e idx = (idx', True)" "index_ok idx' (es @ [?e])"
    using Cons.prems(2) set_insert_ok [of idx ?e] by (auto simp: index_ok_def)
  then show ?case
    using Cons.IH [OF static_ok_snoc [OF Cons.prems(1)] i(2)]
    by (auto simp: it name_value_def HpackEntry_def)
qed simp

lemma HpackHeaderTable_ok:
  "\<exists>t. HpackHeaderTable = Some t \<and> table_inv t \<and> dynamic_entries t = [] \<and>
    map name_value (static_entries t) = HpackStaticTableVector \<and>
    max_size t = kDefaultHeaderTableSizeSetting \<and> settings_size_bound t = kDefaultHeaderTableSizeSetting"
  using Initialize_loop_ok [of "[]" "[]" HpackStaticTableVector]
  by (auto simp: HpackHeaderTable_def Initialize_def static_ok_def index_ok_def table_inv_def
      table_core_def dynamic_ok_def)

section \<open>Sequences of operations\<close>

text \<open>
  A size update that exceeds the bound is rejected by the decoder before it reaches the table.
\<close>

datatype table_op = Add "uint8 list" "uint8 list" | Resize nat | Settings nat

fun exec_op :: "table_op \<Rightarrow> hpack_header_table \<Rightarrow> hpack_header_table option" where
  "exec_op (Add name val) t = map_option snd (TryAddEntry name val t)"
| "exec_op (Resize n) t = (if n > settings_size_bound t then Some t else SetMaxSize n t)"
| "exec_op (Settings n) t = SetSettingsHeaderTableSize n t"

fun exec_ops :: "table_op list \<Rightarrow> hpack_header_table option \<Rightarrow> hpack_header_table option" where
  "exec_ops [] t = t"
| "exec_ops (x # xs) t = (case t of None \<Rightarrow> None | Some t \<Rightarrow> exec_ops xs (exec_op x t))"

text \<open>The dynamic table of RFC 7541, section 4: a queue of fields with a size limit.\<close>

type_synonym abstract_table = "(uint8 list \<times> uint8 list) list \<times> nat \<times> nat"

fun keep_fields :: "nat \<Rightarrow> (uint8 list \<times> uint8 list) list \<Rightarrow> (uint8 list \<times> uint8 list) list" where
  "keep_fields b [] = []"
| "keep_fields b ((n, v) # fs) =
     (if entry_Size n v \<le> b then (n, v) # keep_fields (b - entry_Size n v) fs else [])"

fun spec_op :: "table_op \<Rightarrow> abstract_table \<Rightarrow> abstract_table" where
  "spec_op (Add n v) (fs, limit, bound) =
     (if entry_Size n v > limit then [] else (n, v) # keep_fields (limit - entry_Size n v) fs, limit, bound)"
| "spec_op (Resize k) (fs, limit, bound) =
     (if k > bound then (fs, limit, bound) else (keep_fields k fs, k, bound))"
| "spec_op (Settings k) (fs, limit, bound) =
     (if k < limit then (keep_fields k fs, k, k) else (fs, limit, k))"

definition abs_table :: "hpack_header_table \<Rightarrow> abstract_table" where
  "abs_table t = (map name_value (dynamic_entries t), max_size t, settings_size_bound t)"

lemma keep_fields: "map name_value (keep b es) = keep_fields b (map name_value es)"
  by (induction es arbitrary: b) (simp_all add: name_value_def Size_def)

lemma name_value_HpackEntry: "name_value (HpackEntry n v b i) = (n, v)"
  by (simp add: name_value_def HpackEntry_def)

lemma exec_op_ok:
  assumes "table_inv t"
  shows "\<exists>t'. exec_op x t = Some t' \<and> table_inv t' \<and> abs_table t' = spec_op x (abs_table t)"
proof (cases x)
  case (Add n v)
  then show ?thesis
    using TryAddEntry_ok [OF assms, of n v]
    by (auto simp: abs_table_def name_value_HpackEntry keep_fields split: if_splits)
next
  case (Resize k)
  then show ?thesis
    using SetMaxSize_ok [of t k] assms by (auto simp: table_inv_def abs_table_def keep_fields)
next
  case (Settings k)
  let ?t = "t\<lparr>settings_size_bound := k\<rparr>"
  have core: "table_core ?t" using assms by (simp add: table_inv_def table_core_def)
  show ?thesis
  proof (cases "k < max_size t")
    case True
    then show ?thesis
      using SetMaxSize_ok [OF core, of k] Settings
      by (auto simp: SetSettingsHeaderTableSize_def abs_table_def keep_fields)
  next
    case False
    then show ?thesis
      using Settings core assms by (simp add: SetSettingsHeaderTableSize_def abs_table_def table_inv_def)
  qed
qed

lemma exec_ops_ok:
  "table_inv t \<Longrightarrow>
   \<exists>t'. exec_ops xs (Some t) = Some t' \<and> table_inv t' \<and> abs_table t' = fold spec_op xs (abs_table t)"
proof (induction xs arbitrary: t)
  case (Cons x xs)
  then show ?case using exec_op_ok [OF Cons.prems, of x] by fastforce
qed simp

lemma reachable_table:
  "\<exists>t. exec_ops xs HpackHeaderTable = Some t \<and> table_inv t \<and>
     abs_table t = fold spec_op xs ([], kDefaultHeaderTableSizeSetting, kDefaultHeaderTableSizeSetting)"
proof -
  obtain t where t: "HpackHeaderTable = Some t" "table_inv t" "dynamic_entries t = []"
    "max_size t = kDefaultHeaderTableSizeSetting" "settings_size_bound t = kDefaultHeaderTableSizeSetting"
    using HpackHeaderTable_ok by blast
  then show ?thesis using exec_ops_ok [OF t(2), of xs] by (simp add: abs_table_def)
qed

text \<open>[C15]
  Whatever sequence of insertions, size updates and settings changes the table goes through, no
  \<open>CHECK\<close> fails, its invariant holds - sizes add up and stay within the limits, the indices are
  sorted and contain exactly the entries - and its contents are those of the size-limited queue
  of RFC 7541: the oldest entries, and no more of them than needed, make room for a new one, and an
  entry larger than the table empties it.
\<close>

theorem header_table_refines_queue:
  "\<exists>t. exec_ops xs HpackHeaderTable = Some t \<and> table_inv t \<and>
     abs_table t = fold spec_op xs ([], kDefaultHeaderTableSizeSetting, kDefaultHeaderTableSizeSetting)"
  by (rule reachable_table)

section \<open>Indices\<close>

lemma GetByIndex_static:
  assumes "table_inv t" and "k < length (static_entries t)"
  shows "IndexOf (static_entries t ! k) t = Suc k" "GetByIndex (Suc k) t = Some (static_entries t ! k)"
  using assms by (auto simp: table_inv_def table_core_def static_ok_def IndexOf_def GetByIndex_def IsStatic_def IsLookup_def)

lemma GetByIndex_dynamic:
  assumes "table_inv t" and "k < length (dynamic_entries t)"
  shows "IndexOf (dynamic_entries t ! k) t = Suc (length (static_entries t) + k)"
    "GetByIndex (Suc (length (static_entries t) + k)) t = Some (dynamic_entries t ! k)"
proof -
  have "entry_type (dynamic_entries t ! k) = DYNAMIC"
    "insertion_index (dynamic_entries t ! k) + k + 1 = total_insertions t"
    using assms by (simp_all add: table_inv_def table_core_def dynamic_ok_def)
  then show "IndexOf (dynamic_entries t ! k) t = Suc (length (static_entries t) + k)"
    by (simp add: IndexOf_def IsStatic_def IsLookup_def)
  show "GetByIndex (Suc (length (static_entries t) + k)) t = Some (dynamic_entries t ! k)"
    using assms(2) by (simp add: GetByIndex_def)
qed

lemma GetByIndex_cases:
  assumes "GetByIndex i t = Some e"
  shows "(\<exists>k < length (static_entries t). i = Suc k \<and> e = static_entries t ! k) \<or>
    (\<exists>k < length (dynamic_entries t). i = Suc (length (static_entries t) + k) \<and> e = dynamic_entries t ! k)"
proof (cases "i - 1 < length (static_entries t)")
  case True
  then show ?thesis using assms
    by (intro disjI1 exI [of _ "i - 1"]) (auto simp: GetByIndex_def split: if_splits)
next
  case False
  then show ?thesis using assms
    by (intro disjI2 exI [of _ "i - 1 - length (static_entries t)"])
      (auto simp: GetByIndex_def Let_def split: if_splits)
qed

lemma GetByIndex_iff:
  assumes "table_inv t"
  shows "GetByIndex i t = Some e \<longleftrightarrow>
    e \<in> set (static_entries t) \<union> set (dynamic_entries t) \<and> IndexOf e t = i"
proof
  assume "GetByIndex i t = Some e"
  from GetByIndex_cases [OF this]
  show "e \<in> set (static_entries t) \<union> set (dynamic_entries t) \<and> IndexOf e t = i"
    by (auto simp: GetByIndex_static(1) [OF assms] GetByIndex_dynamic(1) [OF assms])
next
  assume "e \<in> set (static_entries t) \<union> set (dynamic_entries t) \<and> IndexOf e t = i"
  then show "GetByIndex i t = Some e"
    using GetByIndex_static [OF assms] GetByIndex_dynamic [OF assms] by (auto simp: in_set_conv_nth)
qed

text \<open>
  After any sequence of operations, indices and entries correspond: the entry at an index is in
  the table and \<open>IndexOf\<close> gives that index, and every entry of the table is found at its index.
\<close>

theorem index_roundtrip:
  "\<exists>t. exec_ops xs HpackHeaderTable = Some t \<and>
    (\<forall>i e. GetByIndex i t = Some e \<longleftrightarrow>
       e \<in> set (static_entries t) \<union> set (dynamic_entries t) \<and> IndexOf e t = i)"
  using reachable_table [of xs] GetByIndex_iff by blast

section \<open>Lookups\<close>

definition matches :: "uint8 list \<Rightarrow> uint8 list \<Rightarrow> hpack_entry \<Rightarrow> bool" where
  "matches name val e \<longleftrightarrow> entry_name e = name \<and> entry_value e = val"

lemma key_lookup: "entry_key (HpackEntry_lookup name val) = (name, val, 0)"
  by (simp add: entry_key_def HpackEntry_lookup_def IsLookup_def)

text \<open>The least key with a name and a value is the matching entry with the least insertion index.\<close>

lemma find_name_value_first:
  assumes "index_ok idx es" and "sorted_wrt (\<lambda>x y. insertion_index x < insertion_index y) es"
    and "\<forall>e \<in> set es. \<not> IsLookup e"
  shows "find_name_value name val idx =
    (case filter (matches name val) es of [] \<Rightarrow> None | e # _ \<Rightarrow> Some e)"
proof (cases "filter (matches name val) es")
  case Nil
  then have "\<not> matches name val e" if "e \<in> set idx" for e
    using that assms(1) by (auto simp: index_ok_def filter_empty_conv)
  then show ?thesis
    using entries.lower_bound_in [of idx] assms(1) Nil
    by (auto simp: find_name_value_def matches_def index_ok_def split: option.splits)
next
  case (Cons e r)
  let ?q = "HpackEntry_lookup name val"
  have "e \<in> set (filter (matches name val) es)" using Cons by simp
  then have e: "e \<in> set idx" "matches name val e" "\<not> IsLookup e"
    using assms by (auto simp: index_ok_def)
  have least: "insertion_index e \<le> insertion_index x" if "x \<in> set idx" "matches name val x" for x
  proof -
    have "x \<in> set (filter (matches name val) es)" using that assms(1) by (simp add: index_ok_def)
    moreover have "sorted_wrt (\<lambda>x y. insertion_index x < insertion_index y) (filter (matches name val) es)"
      using assms(2) by (rule sorted_wrt_filter)
    ultimately show ?thesis using Cons by auto
  qed
  have "lower_bound ?q idx = Some e"
  proof (rule entries.lower_bound_is)
    show "key_sorted entry_key idx" "e \<in> set idx" using assms(1) e by (simp_all add: index_ok_def)
    show "entry_key ?q \<le> entry_key e" using e unfolding key_lookup by (simp add: entry_key_def matches_def)
    show "\<forall>x \<in> set idx. entry_key ?q \<le> entry_key x \<longrightarrow> entry_key e \<le> entry_key x"
      using e least assms(1,3) unfolding key_lookup
      by (auto simp: entry_key_def matches_def index_ok_def)
  qed
  then show ?thesis using e Cons by (simp add: find_name_value_def matches_def)
qed

lemma static_sorted: "static_ok es \<Longrightarrow> sorted_wrt (\<lambda>x y. insertion_index x < insertion_index y) es"
  by (simp add: static_ok_def sorted_wrt_iff_nth_less)

lemma dynamic_sorted: "dynamic_ok n es \<Longrightarrow> sorted_wrt (\<lambda>x y. insertion_index x < insertion_index y) (rev es)"
proof -
  assume ok: "dynamic_ok n es"
  have "insertion_index (es ! j) < insertion_index (es ! i)" if "i < j" "j < length es" for i j
  proof -
    have "insertion_index (es ! i) + i + 1 = n" "insertion_index (es ! j) + j + 1 = n"
      using ok that by (simp_all add: dynamic_ok_def)
    then show ?thesis using that by simp
  qed
  then show ?thesis unfolding sorted_wrt_rev by (simp add: sorted_wrt_iff_nth_less)
qed

lemma GetByNameAndValue_eq:
  assumes "table_inv t"
  shows "GetByNameAndValue name val t =
    (case filter (matches name val) (static_entries t) @ filter (matches name val) (rev (dynamic_entries t)) of
       [] \<Rightarrow> None
     | e # _ \<Rightarrow> Some e)"
proof -
  have inv: "static_ok (static_entries t)" "index_ok (static_index t) (static_entries t)"
    "dynamic_ok (total_insertions t) (dynamic_entries t)" "index_ok (dynamic_index t) (rev (dynamic_entries t))"
    using assms by (simp_all add: table_inv_def table_core_def index_ok_def)
  have "\<forall>e \<in> set (static_entries t). \<not> IsLookup e" "\<forall>e \<in> set (rev (dynamic_entries t)). \<not> IsLookup e"
    using static_ok_index [OF inv(1)] dynamic_ok_index [OF inv(3)] by (auto simp: IsLookup_def)
  then have "find_name_value name val (static_index t) =
      (case filter (matches name val) (static_entries t) of [] \<Rightarrow> None | e # _ \<Rightarrow> Some e)"
    "find_name_value name val (dynamic_index t) =
      (case filter (matches name val) (rev (dynamic_entries t)) of [] \<Rightarrow> None | e # _ \<Rightarrow> Some e)"
    using find_name_value_first [OF inv(2) static_sorted [OF inv(1)]]
      find_name_value_first [OF inv(4) dynamic_sorted [OF inv(3)]] by blast+
  then show ?thesis by (simp add: GetByNameAndValue_def split: list.splits)
qed


text \<open>
  \<open>GetByNameAndValue\<close> finds an entry exactly when the table has one: the static one with the lowest
  index, or else the oldest dynamic one, which is the one with the highest index.
\<close>

theorem lookup_prefers_oldest:
  "\<exists>t. exec_ops xs HpackHeaderTable = Some t \<and>
    (\<forall>name val. GetByNameAndValue name val t =
      (case filter (matches name val) (static_entries t) @ filter (matches name val) (rev (dynamic_entries t)) of
         [] \<Rightarrow> None
       | e # _ \<Rightarrow> Some e))"
  using reachable_table [of xs] GetByNameAndValue_eq by blast

end
