(* ===== verification/Hpack_Decoder.thy ===== *)
theory Hpack_Decoder
  imports Hpack_Huffman_Code Hpack_Header_Table "HOL-Library.AList"
begin

text \<open>
  \<open>net/spdy/hpack/hpack_decoder.{h,cc}\<close> with \<open>spdy_header_block.cc\<close>: the decoder of HPACK. The handler is
  the log of the calls it receives; the scratch buffers of the decoder only give its string pieces a
  place to live, and a piece is here the list of its bytes. The result \<open>None\<close> of an operation is the
  failure of a \<open>CHECK\<close> or \<open>DCHECK\<close>, an access out of bounds or a loop without end. Shown: no sequence of
  calls, whatever the bytes, gets there; and a handler is told the headers that the block collects.
\<close>

section \<open>Header blocks\<close>

text \<open>
  \<open>SpdyHeaderBlock\<close>, a map that keeps the order of insertion, is the list of its pairs: assignment
  through \<open>operator[]\<close> and \<open>ReplaceOrAppendHeader\<close> are \<^const>\<open>AList.update\<close>, \<open>find\<close> is \<^const>\<open>map_of\<close>.
\<close>

type_synonym header = "uint8 list \<times> uint8 list"

definition ReplaceOrAppendHeader :: "uint8 list \<Rightarrow> uint8 list \<Rightarrow> header list \<Rightarrow> header list" where
  "ReplaceOrAppendHeader key val block = AList.update key val block"

section \<open>The decoder\<close>

definition kDefaultMaxStringLiteralSize :: uint32 where "kDefaultMaxStringLiteralSize = 16 * 1024"
definition kMaxDecodeBufferSize :: nat where "kMaxDecodeBufferSize = 32 * 1024"
definition kPseudoHeaderPrefix :: uint8 where "kPseudoHeaderPrefix = chr CHR '':''"
definition kCookieKey :: "uint8 list" where "kCookieKey = bytes_of ''cookie''"

text \<open>The calls that the decoder makes to its handler.\<close>

datatype handler_call = OnHeaderBlockStart | OnHeader "uint8 list" "uint8 list" | OnHeaderBlockEnd nat

record hpack_decoder =
  header_table :: hpack_header_table
  headers_block_buffer :: "uint8 list"
  decoded_block :: "header list"
  huffman_table :: huffman_table
  handler :: bool
  handler_calls :: "handler_call list"
  regular_header_seen :: bool
  header_block_started :: bool

definition HpackDecoder :: "huffman_table \<Rightarrow> hpack_decoder option" where
  "HpackDecoder t =
     do {
       table \<leftarrow> HpackHeaderTable;
       Some \<lparr>header_table = table, headers_block_buffer = [], decoded_block = [], huffman_table = t,
             handler = False, handler_calls = [], regular_header_seen = False, header_block_started = False\<rparr>
     }"

definition Decoder_ApplyHeaderTableSizeSetting :: "nat \<Rightarrow> hpack_decoder \<Rightarrow> hpack_decoder option" where
  "Decoder_ApplyHeaderTableSizeSetting size_setting d =
     do {
       table \<leftarrow> SetSettingsHeaderTableSize size_setting (header_table d);
       Some (d\<lparr>header_table := table\<rparr>)
     }"

definition HandleControlFrameHeadersStart :: "bool \<Rightarrow> hpack_decoder \<Rightarrow> hpack_decoder" where
  "HandleControlFrameHeadersStart h d = d\<lparr>handler := h\<rparr>"

definition call_handler :: "handler_call \<Rightarrow> hpack_decoder \<Rightarrow> hpack_decoder" where
  "call_handler c d = d\<lparr>handler_calls := handler_calls d @ [c]\<rparr>"

definition HandleControlFrameHeadersData :: "uint8 list \<Rightarrow> hpack_decoder \<Rightarrow> bool \<times> hpack_decoder" where
  "HandleControlFrameHeadersData headers_data d =
     (let d = d\<lparr>decoded_block := []\<rparr>;
          d = (if \<not> header_block_started d
               then (let d = d\<lparr>header_block_started := True\<rparr>
                     in if handler d then call_handler OnHeaderBlockStart d else d)
               else d);
          new_size = length (headers_block_buffer d) + length headers_data
      in if new_size > kMaxDecodeBufferSize then (False, d)
         else (True, d\<lparr>headers_block_buffer := headers_block_buffer d @ headers_data\<rparr>))"

text \<open>The \<open>DCHECK\<close> that the block is empty when there is a handler is the failure \<open>None\<close>.\<close>

definition HandleHeaderRepresentation ::
    "uint8 list \<Rightarrow> uint8 list \<Rightarrow> hpack_decoder \<Rightarrow> (bool \<times> hpack_decoder) option" where
  "HandleHeaderRepresentation name val d =
     (if name \<noteq> [] \<and> hd name = kPseudoHeaderPrefix \<and> regular_header_seen d then Some (False, d)
      else
        (let d = (if name \<noteq> [] \<and> hd name \<noteq> kPseudoHeaderPrefix then d\<lparr>regular_header_seen := True\<rparr> else d)
         in if \<not> handler d
            then
              (case map_of (decoded_block d) name of
                 None \<Rightarrow> Some (True, d\<lparr>decoded_block := ReplaceOrAppendHeader name val (decoded_block d)\<rparr>)
               | Some old \<Rightarrow>
                   (let new_value = old @ (if name = kCookieKey then bytes_of ''; '' else [0]) @ val
                    in Some (True, d\<lparr>decoded_block := ReplaceOrAppendHeader name new_value (decoded_block d)\<rparr>)))
            else if decoded_block d \<noteq> [] then None
            else Some (True, call_handler (OnHeader name val) d)))"

definition DecodeNextHeaderTableSizeUpdate ::
    "hpack_input_stream \<Rightarrow> hpack_decoder \<Rightarrow> (bool \<times> hpack_decoder \<times> hpack_input_stream) option" where
  "DecodeNextHeaderTableSizeUpdate s d =
     (case DecodeNextUint32 s of
        (False, _, s) \<Rightarrow> Some (False, d, s)
      | (True, n, s) \<Rightarrow>
          if unat n > settings_size_bound (header_table d) then Some (False, d, s)
          else do {
            table \<leftarrow> SetMaxSize (unat n) (header_table d);
            Some (True, d\<lparr>header_table := table\<rparr>, s)
          })"

definition DecodeNextIndexedHeader ::
    "hpack_input_stream \<Rightarrow> hpack_decoder \<Rightarrow> (bool \<times> hpack_decoder \<times> hpack_input_stream) option" where
  "DecodeNextIndexedHeader s d =
     (case DecodeNextUint32 s of
        (False, _, s) \<Rightarrow> Some (False, d, s)
      | (True, index, s) \<Rightarrow>
          (case GetByIndex (unat index) (header_table d) of
             None \<Rightarrow> Some (False, d, s)
           | Some e \<Rightarrow> do {
               (ok, d) \<leftarrow> HandleHeaderRepresentation (entry_name e) (entry_value e) d;
               Some (ok, d, s)
             }))"

text \<open>\<open>MatchPrefixAndConsume\<close> with its \<open>CHECK\<close>s.\<close>

definition checked_Match :: "hpack_prefix \<Rightarrow> hpack_input_stream \<Rightarrow> (bool \<times> hpack_input_stream) option" where
  "checked_Match prefix s =
     (if 0 < bit_size prefix \<and> bit_size prefix \<le> 8 \<and> PeekBits_check 0 0 s \<and>
         (fst (MatchPrefixAndConsume prefix s) \<longrightarrow> ConsumeBits_check (bit_size prefix) s)
      then Some (MatchPrefixAndConsume prefix s) else None)"

text \<open>A string, or \<open>None\<close> for the result \<open>false\<close>.\<close>

definition DecodeNextStringLiteral ::
    "hpack_input_stream \<Rightarrow> hpack_decoder \<Rightarrow> (uint8 list option \<times> hpack_input_stream) option" where
  "DecodeNextStringLiteral s d =
     do {
       (match, s) \<leftarrow> checked_Match kStringLiteralHuffmanEncoded s;
       if match then DecodeNextHuffmanString (huffman_table d) s
       else do {
         (match, s) \<leftarrow> checked_Match kStringLiteralIdentityEncoded s;
         if match then Some (DecodeNextIdentityString s) else Some (None, s)
       }
     }"

definition DecodeNextName ::
    "hpack_input_stream \<Rightarrow> hpack_decoder \<Rightarrow> (uint8 list option \<times> hpack_input_stream) option" where
  "DecodeNextName s d =
     (case DecodeNextUint32 s of
        (False, _, s) \<Rightarrow> Some (None, s)
      | (True, index_or_zero, s) \<Rightarrow>
          if index_or_zero = 0 then DecodeNextStringLiteral s d
          else
            (case GetByIndex (unat index_or_zero) (header_table d) of
               None \<Rightarrow> Some (None, s)
             | Some e \<Rightarrow> Some (Some (entry_name e), s)))"

definition DecodeNextLiteralHeader ::
    "bool \<Rightarrow> hpack_input_stream \<Rightarrow> hpack_decoder \<Rightarrow> (bool \<times> hpack_decoder \<times> hpack_input_stream) option" where
  "DecodeNextLiteralHeader should_index s d =
     do {
       (name, s) \<leftarrow> DecodeNextName s d;
       case name of
         None \<Rightarrow> Some (False, d, s)
       | Some name \<Rightarrow> do {
           (val, s) \<leftarrow> DecodeNextStringLiteral s d;
           case val of
             None \<Rightarrow> Some (False, d, s)
           | Some val \<Rightarrow> do {
               (ok, d) \<leftarrow> HandleHeaderRepresentation name val d;
               if \<not> ok then Some (False, d, s)
               else if \<not> should_index then Some (True, d, s)
               else do {
                 (_, table) \<leftarrow> TryAddEntry name val (header_table d);
                 Some (True, d\<lparr>header_table := table\<rparr>, s)
               }
             }
         }
     }"

definition DecodeNextOpcode ::
    "hpack_input_stream \<Rightarrow> hpack_decoder \<Rightarrow> (bool \<times> hpack_decoder \<times> hpack_input_stream) option" where
  "DecodeNextOpcode s d =
     do {
       (match, s) \<leftarrow> checked_Match kIndexedOpcode s;
       if match then DecodeNextIndexedHeader s d
       else do {
         (match, s) \<leftarrow> checked_Match kLiteralIncrementalIndexOpcode s;
         if match then DecodeNextLiteralHeader True s d
         else do {
           (match, s) \<leftarrow> checked_Match kLiteralNoIndexOpcode s;
           if match then DecodeNextLiteralHeader False s d
           else do {
             (match, s) \<leftarrow> checked_Match kLiteralNeverIndexOpcode s;
             if match then DecodeNextLiteralHeader False s d
             else do {
               (match, s) \<leftarrow> checked_Match kHeaderTableSizeUpdateOpcode s;
               if match then DecodeNextHeaderTableSizeUpdate s d else Some (False, d, s)
             }
           }
         }
       }
     }"

text \<open>The loop of \<open>HandleControlFrameHeadersComplete\<close>.\<close>

partial_function (option) decode_opcodes ::
    "hpack_input_stream \<Rightarrow> hpack_decoder \<Rightarrow> (bool \<times> hpack_decoder) option" where
  "decode_opcodes s d =
     (if HasMoreData s
      then do {
        (ok, d, s) \<leftarrow> DecodeNextOpcode s d;
        if \<not> ok then Some (False, d) else decode_opcodes s d
      }
      else Some (True, d))"

text \<open>The returned value, the compressed length and the decoder.\<close>

definition HandleControlFrameHeadersComplete :: "hpack_decoder \<Rightarrow> (bool \<times> nat \<times> hpack_decoder) option" where
  "HandleControlFrameHeadersComplete d =
     (let input_stream = HpackInputStream kDefaultMaxStringLiteralSize (headers_block_buffer d);
          d = d\<lparr>regular_header_seen := False\<rparr>;
          compressed_len = length (headers_block_buffer d)
      in do {
        (ok, d) \<leftarrow> decode_opcodes input_stream d;
        if \<not> ok then Some (False, compressed_len, d\<lparr>headers_block_buffer := []\<rparr>)
        else
          (let d = (if handler d then call_handler (OnHeaderBlockEnd (length (headers_block_buffer d))) d else d)
           in Some (True, compressed_len,
                    d\<lparr>headers_block_buffer := [], header_block_started := False, handler := False\<rparr>))
      })"

section \<open>Reading whole bytes\<close>

text \<open>A step of the decoder stays on byte boundaries and does not grow the input.\<close>

definition aligned :: "hpack_input_stream \<Rightarrow> bool" where
  "aligned s \<longleftrightarrow> in_bit_offset s = 0"

definition reads :: "hpack_input_stream \<Rightarrow> hpack_input_stream \<Rightarrow> bool" where
  "reads s s' \<longleftrightarrow> aligned s' \<and> length (in_buffer s') \<le> length (in_buffer s)"

lemma reads_trans [trans]: "reads s s' \<Longrightarrow> reads s' s'' \<Longrightarrow> reads s s''"
  by (auto simp: reads_def)

lemma reads_refl: "aligned s \<Longrightarrow> reads s s"
  by (simp add: reads_def)

lemma decode_loop_reads: "decode_loop m sh i s = (ok, n, s') \<Longrightarrow> aligned s \<Longrightarrow> reads s s'"
proof (induction m sh i s rule: decode_loop.induct)
  case (1 m sh i s)
  let ?s = "s\<lparr>in_buffer := drop (Suc 0) (in_buffer s)\<rparr>"
  have a: "reads s ?s" "aligned ?s" using 1(3) by (simp_all add: reads_def aligned_def)
  have IH: "reads ?s s'" if "m \<and> sh < 32" "in_buffer s \<noteq> []" "b = in_buffer s ! 0"
    "\<not> drop_bit sh (push_bit sh (ucast (b AND 0x7F)) :: uint32) \<noteq> ucast (b AND 0x7F)"
    "decode_loop (b AND 0x80 \<noteq> 0) (sh + 7) (i + push_bit sh (ucast (b AND 0x7F))) ?s = (ok, n, s')" for b
    using 1(1) [OF that(1) _ _ refl refl refl that(4), of "Some b" ?s] that(2,3,5) a(2) 1(3)
    by (simp add: DecodeNextOctet_def PeekNextOctet_def aligned_def)
  show ?case
    using 1(2) IH reads_trans [OF a(1)] reads_refl [OF 1(3)] a(1) 1(3)
    by (subst (asm) decode_loop.simps)
      (auto simp: DecodeNextOctet_def PeekNextOctet_def Let_def aligned_def split: if_splits)
qed

lemma DecodeNextUint32_reads:
  assumes "DecodeNextUint32 s = (ok, n, s')"
  shows "reads s s'" "ok \<Longrightarrow> length (in_buffer s') < length (in_buffer s)"
proof -
  let ?s = "s\<lparr>in_bit_offset := 0, in_buffer := drop (Suc 0) (in_buffer s)\<rparr>"
  have a: "aligned ?s" by (simp add: aligned_def)
  have l: "reads ?s s'" if "in_buffer s \<noteq> []"
    using assms that decode_loop_reads [OF _ a]
    by (simp add: DecodeNextUint32_def DecodeNextOctet_def PeekNextOctet_def Let_def)
  have e: "\<not> ok \<and> s' = s\<lparr>in_bit_offset := 0\<rparr>" if "in_buffer s = []"
    using assms that by (auto simp: DecodeNextUint32_def DecodeNextOctet_def PeekNextOctet_def)
  show "reads s s'" using l e by (cases "in_buffer s = []") (auto simp: reads_def aligned_def)
  show "length (in_buffer s') < length (in_buffer s)" if ok
    using l e that by (cases "in_buffer s") (auto simp: reads_def)
qed

lemma DecodeNextIdentityString_reads: "DecodeNextIdentityString s = (r, s') \<Longrightarrow> reads s s'"
  using DecodeNextUint32_reads(1) [of s]
  by (auto simp: DecodeNextIdentityString_def reads_def aligned_def split: prod.splits bool.splits if_splits)

lemma huffman_total:
  assumes "huffman_ok HpackHuffmanCode t"
  shows "\<exists>ok str s'. DecodeString t (HpackInputStream m bs) capacity = Some (ok, str, s')"
  using DecodeString_ok [OF assms code_complete, of "HpackInputStream m bs" capacity]
  by (auto simp: input_ok_def HpackInputStream_def)

lemma DecodeNextHuffmanString_reads:
  assumes "huffman_ok HpackHuffmanCode t"
  shows "\<exists>r s'. DecodeNextHuffmanString t s = Some (r, s') \<and> reads s s'"
proof -
  obtain ok n s1 where n: "DecodeNextUint32 s = (ok, n, s1)" by (rule prod_cases3)
  obtain ok' str s' where "DecodeString t (HpackInputStream (max_string_literal_size s1) (take (unat n) (in_buffer s1)))
      (unat (max_string_literal_size s1)) = Some (ok', str, s')"
    using huffman_total [OF assms] by blast
  then show ?thesis
    using DecodeNextUint32_reads(1) [OF n]
    by (cases ok) (auto simp: DecodeNextHuffmanString_def n Let_def reads_def aligned_def)
qed

text \<open>A prefix is compared with the first bits of the next byte.\<close>

lemma first_bits:
  assumes "0 < n" and "n \<le> 8"
  shows "drop_bit (32 - n) (push_bit 24 (scast (b :: uint8)) :: uint32) = ucast (drop_bit (8 - n) b)"
proof (rule bit_word_eqI)
  fix i
  assume "i < LENGTH(32)"
  then show "bit (drop_bit (32 - n) (push_bit 24 (scast b) :: uint32)) i = bit (ucast (drop_bit (8 - n) b) :: uint32) i"
    using assms bit_scast_byte [of "8 - n + i" b] bit_imp_le_length [of b "8 - n + i"]
    by (cases "i < n") (auto simp: bit_simps)
qed

lemma ucast_ucast_id_byte: "ucast (ucast (b :: uint8) :: uint32) = b"
  by (rule bit_word_eqI) (auto simp: bit_simps)

lemma Match_aligned:
  assumes "aligned s" and "0 < bit_size p" and "bit_size p < 8"
  shows "checked_Match p s =
    (case in_buffer s of
       [] \<Rightarrow> Some (False, s)
     | b # _ \<Rightarrow> Some (if drop_bit (8 - bit_size p) b = bits p then (True, s\<lparr>in_bit_offset := bit_size p\<rparr>) else (False, s)))"
proof (cases "in_buffer s")
  case Nil
  then show ?thesis
    using assms by (simp add: checked_Match_def MatchPrefixAndConsume_def PeekBits_def PeekBits_check_def Let_def aligned_def)
next
  case (Cons b bs)
  have "PeekBits 0 0 s = (True, 8, push_bit 24 (scast b))"
    using assms(1) Cons by (simp add: PeekBits_def peeked_bits_def aligned_def Let_def)
  moreover have "(ucast (drop_bit (8 - bit_size p) b) = (ucast (bits p) :: uint32)) \<longleftrightarrow> drop_bit (8 - bit_size p) b = bits p"
    by (metis ucast_ucast_id_byte)
  moreover have "ConsumeBits_check (bit_size p) s" "ConsumeBits (bit_size p) s = s\<lparr>in_bit_offset := bit_size p\<rparr>"
    using assms Cons by (cases s; simp add: ConsumeBits_check_def ConsumeBits_def aligned_def Let_def)+
  moreover have "PeekBits_check 0 0 s" by (simp add: PeekBits_check_def)
  ultimately show ?thesis
    using assms Cons first_bits [of "bit_size p" b]
    by (simp add: checked_Match_def MatchPrefixAndConsume_def Let_def)
qed

section \<open>The decoder never fails a check\<close>

definition core :: "hpack_decoder \<Rightarrow> bool" where
  "core d \<longleftrightarrow> table_inv (header_table d) \<and> huffman_ok HpackHuffmanCode (huffman_table d) \<and>
     (handler d \<longrightarrow> decoded_block d = [])"

text \<open>What a step of the decoding of a block preserves.\<close>

definition decoding :: "hpack_decoder \<Rightarrow> hpack_decoder \<Rightarrow> bool" where
  "decoding d d' \<longleftrightarrow> core d' \<and> headers_block_buffer d' = headers_block_buffer d \<and>
     handler d' = handler d \<and> header_block_started d' = header_block_started d"

definition decodes ::
    "hpack_input_stream \<Rightarrow> hpack_decoder \<Rightarrow> (bool \<times> hpack_decoder \<times> hpack_input_stream) option \<Rightarrow> bool" where
  "decodes s d r \<longleftrightarrow> (\<exists>ok d' s'. r = Some (ok, d', s') \<and> decoding d d' \<and> reads s s' \<and>
     (ok \<longrightarrow> length (in_buffer s') < length (in_buffer s)))"

lemma decodesI:
  "decoding d d' \<Longrightarrow> reads s s' \<Longrightarrow> (ok \<Longrightarrow> length (in_buffer s') < length (in_buffer s)) \<Longrightarrow>
   decodes s d (Some (ok, d', s'))"
  by (simp add: decodes_def)

lemma decoding_refl: "core d \<Longrightarrow> decoding d d"
  by (simp add: decoding_def)

lemma decoding_table: "core d \<Longrightarrow> table_inv t \<Longrightarrow> decoding d (d\<lparr>header_table := t\<rparr>)"
  by (simp add: decoding_def core_def)

text \<open>A field is reported, or collected with the fields of the same name.\<close>

definition collect :: "header list \<Rightarrow> header \<Rightarrow> header list" where
  "collect block h =
     AList.update (fst h)
       (case map_of block (fst h) of
          None \<Rightarrow> snd h
        | Some old \<Rightarrow> old @ (if fst h = kCookieKey then bytes_of ''; '' else [0]) @ snd h) block"

definition is_pseudo :: "uint8 list \<Rightarrow> bool" where
  "is_pseudo name \<longleftrightarrow> name \<noteq> [] \<and> hd name = kPseudoHeaderPrefix"

definition see_header :: "header \<Rightarrow> hpack_decoder \<Rightarrow> hpack_decoder" where
  "see_header h d =
     (let d = (if fst h \<noteq> [] \<and> \<not> is_pseudo (fst h) then d\<lparr>regular_header_seen := True\<rparr> else d)
      in if handler d then call_handler (OnHeader (fst h) (snd h)) d
         else d\<lparr>decoded_block := collect (decoded_block d) h\<rparr>)"

lemma HandleHeaderRepresentation_eq:
  assumes "handler d \<longrightarrow> decoded_block d = []"
  shows "HandleHeaderRepresentation name val d =
    Some (if is_pseudo name \<and> regular_header_seen d then (False, d) else (True, see_header (name, val) d))"
proof (cases "is_pseudo name \<and> regular_header_seen d")
  case True
  then show ?thesis by (simp add: HandleHeaderRepresentation_def is_pseudo_def)
next
  case False
  define d1 where "d1 = (if name \<noteq> [] \<and> \<not> is_pseudo name then d\<lparr>regular_header_seen := True\<rparr> else d)"
  have f: "\<not> (name \<noteq> [] \<and> hd name = kPseudoHeaderPrefix \<and> regular_header_seen d)"
    and g: "(name \<noteq> [] \<and> hd name \<noteq> kPseudoHeaderPrefix) = (name \<noteq> [] \<and> \<not> is_pseudo name)"
    using False by (auto simp: is_pseudo_def)
  have d1: "handler d1 \<longrightarrow> decoded_block d1 = []" "handler d1 = handler d" "decoded_block d1 = decoded_block d"
    using assms by (simp_all add: d1_def)
  have s: "see_header (name, val) d =
      (if handler d1 then call_handler (OnHeader name val) d1
       else d1\<lparr>decoded_block := collect (decoded_block d1) (name, val)\<rparr>)"
    by (simp add: see_header_def Let_def flip: d1_def)
  show ?thesis
    unfolding HandleHeaderRepresentation_def if_not_P [OF f] if_not_P [OF False] g Let_def d1_def [symmetric] s
    using d1(1) by (cases "map_of (decoded_block d1) name") (auto simp: collect_def ReplaceOrAppendHeader_def)
qed

lemma see_header_frame [simp]:
  "header_table (see_header h d) = header_table d" "huffman_table (see_header h d) = huffman_table d"
  "handler (see_header h d) = handler d" "headers_block_buffer (see_header h d) = headers_block_buffer d"
  "header_block_started (see_header h d) = header_block_started d"
  "handler d \<Longrightarrow> decoded_block (see_header h d) = decoded_block d"
  by (simp_all add: see_header_def Let_def call_handler_def)

lemma HandleHeaderRepresentation_ok:
  assumes "core d"
  shows "\<exists>ok d'. HandleHeaderRepresentation name val d = Some (ok, d') \<and> decoding d d' \<and>
    header_table d' = header_table d"
  using assms HandleHeaderRepresentation_eq [of d name val] by (auto simp: decoding_def core_def)

lemma DecodeNextHeaderTableSizeUpdate_ok:
  assumes "core d"
  shows "decodes s d (DecodeNextHeaderTableSizeUpdate s d)"
proof -
  obtain ok n s' where n: "DecodeNextUint32 s = (ok, n, s')" by (rule prod_cases3)
  note r = DecodeNextUint32_reads [OF n] decoding_refl [OF assms]
  show ?thesis
  proof (cases "ok \<and> unat n \<le> settings_size_bound (header_table d)")
    case True
    then obtain t where "SetMaxSize (unat n) (header_table d) = Some t" "table_inv t"
      using SetMaxSize_ok [of "header_table d" "unat n"] assms by (auto simp: core_def table_inv_def)
    then show ?thesis
      using True r decoding_table [OF assms]
      by (simp add: DecodeNextHeaderTableSizeUpdate_def n decodesI)
  next
    case False
    then show ?thesis
      using r by (cases ok) (auto simp: DecodeNextHeaderTableSizeUpdate_def n intro!: decodesI)
  qed
qed

lemma DecodeNextIndexedHeader_ok:
  assumes "core d"
  shows "decodes s d (DecodeNextIndexedHeader s d)"
proof -
  obtain ok n s' where n: "DecodeNextUint32 s = (ok, n, s')" by (rule prod_cases3)
  note r = DecodeNextUint32_reads [OF n] decoding_refl [OF assms]
  show ?thesis
  proof (cases "if ok then GetByIndex (unat n) (header_table d) else None")
    case None
    then show ?thesis
      using r by (cases ok) (auto simp: DecodeNextIndexedHeader_def n intro!: decodesI)
  next
    case (Some e)
    moreover obtain ok' d' where "HandleHeaderRepresentation (entry_name e) (entry_value e) d = Some (ok', d')" "decoding d d'"
      using HandleHeaderRepresentation_ok [OF assms] by blast
    ultimately show ?thesis
      using r by (cases ok) (auto simp: DecodeNextIndexedHeader_def n intro!: decodesI)
  qed
qed

lemma kStringLiteral_sizes [simp]:
  "bit_size kStringLiteralHuffmanEncoded = 1" "bits kStringLiteralHuffmanEncoded = 1"
  "bit_size kStringLiteralIdentityEncoded = 1" "bits kStringLiteralIdentityEncoded = 0"
  by (simp_all add: kStringLiteralHuffmanEncoded_def kStringLiteralIdentityEncoded_def)

lemma opcode_sizes [simp]:
  "bit_size kIndexedOpcode = 1" "bits kIndexedOpcode = 1"
  "bit_size kLiteralIncrementalIndexOpcode = 2" "bits kLiteralIncrementalIndexOpcode = 1"
  "bit_size kLiteralNoIndexOpcode = 4" "bits kLiteralNoIndexOpcode = 0"
  "bit_size kLiteralNeverIndexOpcode = 4" "bits kLiteralNeverIndexOpcode = 1"
  "bit_size kHeaderTableSizeUpdateOpcode = 3" "bits kHeaderTableSizeUpdateOpcode = 1"
  by (simp_all add: kIndexedOpcode_def kLiteralIncrementalIndexOpcode_def kLiteralNoIndexOpcode_def
      kLiteralNeverIndexOpcode_def kHeaderTableSizeUpdateOpcode_def)

lemma reads_offset [simp]: "reads (s\<lparr>in_bit_offset := n\<rparr>) s' = reads s s'"
  by (simp add: reads_def)

lemma DecodeNextStringLiteral_ok:
  assumes "aligned s" and "core d"
  shows "\<exists>r s'. DecodeNextStringLiteral s d = Some (r, s') \<and> reads s s'"
proof (cases "in_buffer s")
  case Nil
  then show ?thesis
    using assms(1) by (simp add: DecodeNextStringLiteral_def Match_aligned reads_refl)
next
  case (Cons b bs)
  obtain r s' where h: "DecodeNextHuffmanString (huffman_table d) (s\<lparr>in_bit_offset := 1\<rparr>) = Some (r, s')" "reads s s'"
    using DecodeNextHuffmanString_reads [of "huffman_table d" "s\<lparr>in_bit_offset := 1\<rparr>"] assms(2) by (auto simp: core_def)
  obtain r' s'' where i: "DecodeNextIdentityString (s\<lparr>in_bit_offset := 1\<rparr>) = (r', s'')" by fastforce
  show ?thesis
    using h i DecodeNextIdentityString_reads [OF i] assms(1) Cons
    by (simp add: DecodeNextStringLiteral_def Match_aligned reads_refl)
qed

lemma DecodeNextName_ok:
  assumes "core d"
  shows "\<exists>r s'. DecodeNextName s d = Some (r, s') \<and> reads s s' \<and>
    (r \<noteq> None \<longrightarrow> length (in_buffer s') < length (in_buffer s))"
proof -
  obtain ok n s' where n: "DecodeNextUint32 s = (ok, n, s')" by (rule prod_cases3)
  note r = DecodeNextUint32_reads [OF n]
  have "aligned s'" using r by (simp add: reads_def)
  then obtain r' s'' where "DecodeNextStringLiteral s' d = Some (r', s'')" "reads s' s''"
    using DecodeNextStringLiteral_ok assms by blast
  then show ?thesis
    using r reads_trans [of s s' s''] order.strict_trans1 [of "length (in_buffer s'')" "length (in_buffer s')" "length (in_buffer s)"]
    by (cases ok) (auto simp: DecodeNextName_def n reads_def split: option.splits)
qed

lemma DecodeNextLiteralHeader_ok:
  assumes "core d"
  shows "decodes s d (DecodeNextLiteralHeader should_index s d)"
proof -
  note refl = decoding_refl [OF assms]
  obtain name s1 where n: "DecodeNextName s d = Some (name, s1)" "reads s s1"
    "name \<noteq> None \<longrightarrow> length (in_buffer s1) < length (in_buffer s)"
    using DecodeNextName_ok [OF assms] by blast
  show ?thesis
  proof (cases name)
    case None
    then show ?thesis using n refl by (simp add: DecodeNextLiteralHeader_def decodesI)
  next
    case (Some nm)
    obtain val s2 where v: "DecodeNextStringLiteral s1 d = Some (val, s2)" "reads s1 s2"
      using DecodeNextStringLiteral_ok [OF _ assms, of s1] n(2) by (auto simp: reads_def)
    have s2: "reads s s2" "length (in_buffer s2) < length (in_buffer s)"
      using n v Some by (auto simp: reads_def)
    show ?thesis
    proof (cases val)
      case None
      then show ?thesis using n v refl s2 Some by (simp add: DecodeNextLiteralHeader_def decodesI)
    next
      case (Some vl)
      obtain ok d' where h: "HandleHeaderRepresentation nm vl d = Some (ok, d')" "decoding d d'"
        using HandleHeaderRepresentation_ok [OF assms] by blast
      have "core d'" using h(2) by (simp add: decoding_def)
      then obtain e t where t: "TryAddEntry nm vl (header_table d') = Some (e, t)" "table_inv t"
        using TryAddEntry_ok [of "header_table d'" nm vl] by (auto simp: core_def)
      have "decoding d (d'\<lparr>header_table := t\<rparr>)"
        using h(2) t(2) by (simp add: decoding_def core_def)
      then show ?thesis
        using n v h t s2 Some \<open>name = Some nm\<close>
        by (cases ok; cases should_index) (simp_all add: DecodeNextLiteralHeader_def decodesI)
    qed
  qed
qed

lemma DecodeNextOpcode_ok:
  assumes "aligned s" and "core d" and "HasMoreData s"
  shows "decodes s d (DecodeNextOpcode s d)"
proof -
  obtain b bs where b: "in_buffer s = b # bs" using assms(3) by (cases "in_buffer s") (auto simp: HasMoreData_def)
  have o: "decodes (s\<lparr>in_bit_offset := k\<rparr>) d r = decodes s d r" for k r by (simp add: decodes_def)
  note ops = DecodeNextIndexedHeader_ok [OF assms(2), of "s\<lparr>in_bit_offset := 1\<rparr>", unfolded o]
    DecodeNextLiteralHeader_ok [OF assms(2), of "s\<lparr>in_bit_offset := 2\<rparr>", unfolded o]
    DecodeNextLiteralHeader_ok [OF assms(2), of "s\<lparr>in_bit_offset := 4\<rparr>", unfolded o]
    DecodeNextHeaderTableSizeUpdate_ok [OF assms(2), of "s\<lparr>in_bit_offset := 3\<rparr>", unfolded o]
  have "decodes s d (Some (False, d, s))"
    using assms reads_refl decoding_refl by (simp add: decodesI)
  then show ?thesis
    using ops assms(1) b by (simp add: DecodeNextOpcode_def Match_aligned)
qed

lemma decode_opcodes_ok:
  assumes "aligned s" and "core d"
  shows "\<exists>ok d'. decode_opcodes s d = Some (ok, d') \<and> decoding d d'"
  using assms
proof (induction "length (in_buffer s)" arbitrary: s d rule: less_induct)
  case less
  show ?case
  proof (cases "HasMoreData s")
    case True
    then obtain ok d1 s1 where d1: "DecodeNextOpcode s d = Some (ok, d1, s1)" "decoding d d1" "reads s s1"
      "ok \<longrightarrow> length (in_buffer s1) < length (in_buffer s)"
      using DecodeNextOpcode_ok [OF less.prems] by (auto simp: decodes_def)
    show ?thesis
    proof (cases ok)
      case ok: True
      have "aligned s1" "core d1" using d1 by (simp_all add: reads_def decoding_def)
      then obtain ok' d' where "decode_opcodes s1 d1 = Some (ok', d')" "decoding d1 d'"
        using less.hyps [of s1 d1] d1(4) ok by blast
      moreover from this have "decoding d d'" using d1(2) by (simp add: decoding_def)
      ultimately show ?thesis using True d1 ok by (subst decode_opcodes.simps) simp
    next
      case False
      then show ?thesis using True d1 by (subst decode_opcodes.simps) auto
    qed
  next
    case False
    then show ?thesis using less.prems by (subst decode_opcodes.simps) (auto simp: decoding_refl)
  qed
qed

section \<open>Sequences of calls\<close>

datatype decoder_event = Apply_setting nat | Start bool | Data "uint8 list" | Complete

text \<open>The result of a call and the state after it; a call without a result gives \<open>True\<close>.\<close>

fun decoder_call :: "decoder_event \<Rightarrow> hpack_decoder \<Rightarrow> (bool \<times> hpack_decoder) option" where
  "decoder_call (Apply_setting n) d =
     do { d \<leftarrow> Decoder_ApplyHeaderTableSizeSetting n d; Some (True, d) }"
| "decoder_call (Start h) d = Some (True, HandleControlFrameHeadersStart h d)"
| "decoder_call (Data bytes) d = Some (HandleControlFrameHeadersData bytes d)"
| "decoder_call Complete d =
     do { (ok, _, d) \<leftarrow> HandleControlFrameHeadersComplete d; Some (ok, d) }"

fun decoder_calls :: "decoder_event list \<Rightarrow> hpack_decoder \<Rightarrow> hpack_decoder option" where
  "decoder_calls [] d = Some d"
| "decoder_calls (c # cs) d = do { (_, d) \<leftarrow> decoder_call c d; decoder_calls cs d }"

text \<open>Between calls: data is only buffered while the block is empty, and not more than the limit.\<close>

definition decoder_inv :: "hpack_decoder \<Rightarrow> bool" where
  "decoder_inv d \<longleftrightarrow> table_inv (header_table d) \<and> huffman_ok HpackHuffmanCode (huffman_table d) \<and>
     (headers_block_buffer d \<noteq> [] \<longrightarrow> decoded_block d = [] \<and> header_block_started d) \<and>
     length (headers_block_buffer d) \<le> kMaxDecodeBufferSize"

lemma decoder_inv_new:
  assumes "ObtainHpackHuffmanTable = Some t"
  shows "\<exists>d. HpackDecoder t = Some d \<and> decoder_inv d"
proof -
  have "huffman_ok HpackHuffmanCode t" using assms ObtainHpackHuffmanTable_ok by (metis option.inject)
  moreover obtain tb where "HpackHeaderTable = Some tb" "table_inv tb" using HpackHeaderTable_ok by blast
  moreover from this have "HpackDecoder t = Some \<lparr>header_table = tb, headers_block_buffer = [], decoded_block = [],
      huffman_table = t, handler = False, handler_calls = [], regular_header_seen = False, header_block_started = False\<rparr>"
    unfolding HpackDecoder_def by (metis bind.bind_lunit)
  ultimately show ?thesis by (simp add: decoder_inv_def)
qed

lemma SetSettingsHeaderTableSize_ok:
  assumes "table_inv t"
  shows "\<exists>t'. SetSettingsHeaderTableSize n t = Some t' \<and> table_inv t'"
  using exec_op_ok [OF assms, of "Settings n"] by auto

lemma HpackInputStream_simps [simp]:
  "in_buffer (HpackInputStream m bs) = bs" "aligned (HpackInputStream m bs)"
  "max_string_literal_size (HpackInputStream m bs) = m"
  by (simp_all add: HpackInputStream_def aligned_def)

lemma Complete_ok:
  assumes "decoder_inv d"
  shows "\<exists>ok d'. HandleControlFrameHeadersComplete d = Some (ok, length (headers_block_buffer d), d') \<and>
    decoder_inv d' \<and> headers_block_buffer d' = []"
proof -
  let ?s = "HpackInputStream kDefaultMaxStringLiteralSize (headers_block_buffer d)"
  let ?d = "d\<lparr>regular_header_seen := False\<rparr>"
  have "\<exists>ok d'. decode_opcodes ?s ?d = Some (ok, d') \<and> table_inv (header_table d') \<and> huffman_ok HpackHuffmanCode (huffman_table d')"
  proof (cases "headers_block_buffer d = []")
    case True
    then show ?thesis
      using assms by (subst decode_opcodes.simps) (auto simp: HasMoreData_def decoder_inv_def)
  next
    case False
    then have "core ?d" using assms by (simp add: decoder_inv_def core_def)
    then show ?thesis using decode_opcodes_ok [of ?s ?d] by (auto simp: decoding_def core_def)
  qed
  then show ?thesis
    by (auto simp: HandleControlFrameHeadersComplete_def Let_def decoder_inv_def call_handler_def)
qed

lemma decoder_call_ok:
  assumes "decoder_inv d"
  shows "\<exists>ok d'. decoder_call c d = Some (ok, d') \<and> decoder_inv d'"
proof (cases c)
  case (Apply_setting n)
  have "table_inv (header_table d)" using assms by (simp add: decoder_inv_def)
  then show ?thesis
    using SetSettingsHeaderTableSize_ok [of "header_table d" n] Apply_setting assms
    by (auto simp: Decoder_ApplyHeaderTableSizeSetting_def decoder_inv_def)
next
  case (Data bytes)
  then show ?thesis
    using assms
    by (auto simp: HandleControlFrameHeadersData_def Let_def decoder_inv_def call_handler_def)
qed (use assms Complete_ok [OF assms] in \<open>auto simp: HandleControlFrameHeadersStart_def decoder_inv_def\<close>)

lemma decoder_calls_ok: "decoder_inv d \<Longrightarrow> \<exists>d'. decoder_calls cs d = Some d' \<and> decoder_inv d'"
proof (induction cs arbitrary: d)
  case (Cons c cs)
  then show ?case using decoder_call_ok [OF Cons.prems, of c] by fastforce
qed simp

text \<open>[C13]
  A decoder with the table of HPACK survives every sequence of calls, with any data and any handler:
  no \<open>CHECK\<close> or \<open>DCHECK\<close> fails, nothing is accessed out of bounds and the decoding of each block ends;
  its header table stays well-formed, and it buffers at most 32K of data, only for a started block, and
  only while no header of the last block is left over.
\<close>

theorem hpack_decoder_safe:
  "\<exists>t d d'. ObtainHpackHuffmanTable = Some t \<and> HpackDecoder t = Some d \<and>
     decoder_calls calls d = Some d' \<and> decoder_inv d'"
proof -
  obtain t where t: "ObtainHpackHuffmanTable = Some t" using ObtainHpackHuffmanTable_ok by blast
  then obtain d where "HpackDecoder t = Some d" "decoder_inv d" using decoder_inv_new by blast
  then show ?thesis using t decoder_calls_ok by blast
qed

section \<open>Handler and block\<close>

text \<open>A decoder that reports the fields \<open>hs\<close> to its handler, and one that collects them.\<close>

definition reported :: "header list \<Rightarrow> handler_call list" where
  "reported hs = map (\<lambda>(name, val). OnHeader name val) hs"

definition collected :: "handler_call list \<Rightarrow> header list \<Rightarrow> hpack_decoder \<Rightarrow> hpack_decoder \<Rightarrow> bool" where
  "collected calls hs d d' \<longleftrightarrow> handler d \<and> decoded_block d = [] \<and> handler_calls d = calls @ reported hs \<and>
     d' = d\<lparr>handler := False, handler_calls := handler_calls d', decoded_block := foldl collect [] hs\<rparr>"

lemma collectedD:
  assumes "collected calls hs d d'"
  shows "header_table d' = header_table d" "huffman_table d' = huffman_table d"
    "regular_header_seen d' = regular_header_seen d" "handler d \<longrightarrow> decoded_block d = []"
    "handler d' \<longrightarrow> decoded_block d' = []" "handler d" "\<not> handler d'" "decoded_block d' = foldl collect [] hs"
    "headers_block_buffer d' = headers_block_buffer d" "handler_calls d = calls @ reported hs"
  using assms unfolding collected_def by (cases d'; cases d; simp)+

lemma collected_table:
  "collected calls hs d d' \<Longrightarrow> collected calls hs (d\<lparr>header_table := t\<rparr>) (d'\<lparr>header_table := t\<rparr>)"
  unfolding collected_def by (cases d'; cases d; simp)

lemma collected_see:
  "collected calls hs d d' \<Longrightarrow> collected calls (hs @ [h]) (see_header h d) (see_header h d')"
  unfolding collected_def
  by (cases d'; cases d; cases h; simp add: see_header_def Let_def call_handler_def reported_def)

text \<open>A step of one is the same step of the other.\<close>

definition same_step :: "handler_call list \<Rightarrow> (bool \<times> hpack_decoder \<times> 'a) option \<Rightarrow> (bool \<times> hpack_decoder \<times> 'a) option \<Rightarrow> bool" where
  "same_step calls r r' \<longleftrightarrow> (r = None \<and> r' = None) \<or>
     (\<exists>ok d d' s hs. r = Some (ok, d, s) \<and> r' = Some (ok, d', s) \<and> collected calls hs d d')"

lemma same_step_None [simp]: "same_step calls None None"
  by (simp add: same_step_def)

lemma same_stepI: "collected calls hs d d' \<Longrightarrow> same_step calls (Some (ok, d, s)) (Some (ok, d', s))"
  by (auto simp: same_step_def)

lemma HandleHeaderRepresentation_same:
  assumes "collected calls hs d d'"
  shows "\<exists>ok hs' e e'. HandleHeaderRepresentation name val d = Some (ok, e) \<and>
    HandleHeaderRepresentation name val d' = Some (ok, e') \<and> collected calls hs' e e'"
  using assms collected_see [OF assms, of "(name, val)"] HandleHeaderRepresentation_eq collectedD [OF assms] by auto

lemma DecodeNextIndexedHeader_same:
  assumes "collected calls hs d d'"
  shows "same_step calls (DecodeNextIndexedHeader s d) (DecodeNextIndexedHeader s d')"
proof -
  obtain ok n s' where n: "DecodeNextUint32 s = (ok, n, s')" by (rule prod_cases3)
  show ?thesis
  proof (cases "if ok then GetByIndex (unat n) (header_table d) else None")
    case None
    then show ?thesis using assms collectedD(1) [OF assms] n
      by (cases ok) (auto simp: DecodeNextIndexedHeader_def intro: same_stepI)
  next
    case (Some e)
    moreover obtain ok' hs' e1 e2 where "HandleHeaderRepresentation (entry_name e) (entry_value e) d = Some (ok', e1)"
      "HandleHeaderRepresentation (entry_name e) (entry_value e) d' = Some (ok', e2)" "collected calls hs' e1 e2"
      using HandleHeaderRepresentation_same [OF assms] by blast
    ultimately show ?thesis using collectedD(1) [OF assms] n
      by (cases ok) (auto simp: DecodeNextIndexedHeader_def intro: same_stepI)
  qed
qed

lemma DecodeNextHeaderTableSizeUpdate_same:
  assumes "collected calls hs d d'"
  shows "same_step calls (DecodeNextHeaderTableSizeUpdate s d) (DecodeNextHeaderTableSizeUpdate s d')"
proof -
  obtain ok n s' where n: "DecodeNextUint32 s = (ok, n, s')" by (rule prod_cases3)
  note c = collected_table [OF assms]
  show ?thesis
    using collectedD(1) [OF assms] n assms c
    by (cases ok; cases "SetMaxSize (unat n) (header_table d)")
      (auto simp: DecodeNextHeaderTableSizeUpdate_def intro: same_stepI)
qed

lemma DecodeNextStringLiteral_same:
  assumes "collected calls hs d d'"
  shows "DecodeNextStringLiteral s d' = DecodeNextStringLiteral s d"
  unfolding DecodeNextStringLiteral_def collectedD [OF assms] ..

lemma DecodeNextName_same:
  assumes "collected calls hs d d'"
  shows "DecodeNextName s d' = DecodeNextName s d"
  unfolding DecodeNextName_def collectedD [OF assms] DecodeNextStringLiteral_same [OF assms] ..

lemma DecodeNextLiteralHeader_same:
  assumes "collected calls hs d d'"
  shows "same_step calls (DecodeNextLiteralHeader should_index s d) (DecodeNextLiteralHeader should_index s d')"
proof (cases "DecodeNextName s d")
  case None
  then show ?thesis using DecodeNextName_same [OF assms] by (simp add: DecodeNextLiteralHeader_def)
next
  case (Some r)
  then obtain name s1 where n: "DecodeNextName s d = Some (name, s1)" "DecodeNextName s d' = Some (name, s1)"
    using DecodeNextName_same [OF assms] by (cases r) auto
  show ?thesis
  proof (cases name)
    case None
    then show ?thesis using n assms by (auto simp: DecodeNextLiteralHeader_def intro: same_stepI)
  next
    case nm: (Some nm)
    show ?thesis
    proof (cases "DecodeNextStringLiteral s1 d")
      case None
      then show ?thesis using n nm DecodeNextStringLiteral_same [OF assms] by (simp add: DecodeNextLiteralHeader_def)
    next
      case (Some r)
      then obtain val s2 where v: "DecodeNextStringLiteral s1 d = Some (val, s2)" "DecodeNextStringLiteral s1 d' = Some (val, s2)"
        using DecodeNextStringLiteral_same [OF assms] by (cases r) auto
      show ?thesis
      proof (cases val)
        case None
        then show ?thesis using n nm v assms by (auto simp: DecodeNextLiteralHeader_def intro: same_stepI)
      next
        case (Some vl)
        obtain ok hs' e e' where h: "HandleHeaderRepresentation nm vl d = Some (ok, e)"
          "HandleHeaderRepresentation nm vl d' = Some (ok, e')" and c: "collected calls hs' e e'"
          using HandleHeaderRepresentation_same [OF assms] by blast
        show ?thesis
          using n nm v h c Some collectedD(1) [OF c] collected_table [OF c]
          by (cases ok; cases should_index; cases "TryAddEntry nm vl (header_table e)")
            (auto simp: DecodeNextLiteralHeader_def intro: same_stepI)
      qed
    qed
  qed
qed

lemma DecodeNextOpcode_same:
  assumes "collected calls hs d d'" and "aligned s" and "HasMoreData s"
  shows "same_step calls (DecodeNextOpcode s d) (DecodeNextOpcode s d')"
proof -
  obtain b bs where b: "in_buffer s = b # bs" using assms(3) by (cases "in_buffer s") (auto simp: HasMoreData_def)
  show ?thesis
    using b assms(2) DecodeNextIndexedHeader_same [OF assms(1)] DecodeNextLiteralHeader_same [OF assms(1)]
      DecodeNextHeaderTableSizeUpdate_same [OF assms(1)] same_stepI [OF assms(1), of False s]
    by (simp add: DecodeNextOpcode_def Match_aligned)
qed

lemma decode_opcodes_same:
  assumes "collected calls hs d d'" and "aligned s" and "core d"
  shows "\<exists>ok hs' e e'. decode_opcodes s d = Some (ok, e) \<and> decode_opcodes s d' = Some (ok, e') \<and> collected calls hs' e e'"
  using assms
proof (induction "length (in_buffer s)" arbitrary: s d d' hs rule: less_induct)
  case less
  show ?case
  proof (cases "HasMoreData s")
    case True
    then obtain ok d1 s1 where d1: "DecodeNextOpcode s d = Some (ok, d1, s1)" "decoding d d1" "reads s s1"
      "ok \<longrightarrow> length (in_buffer s1) < length (in_buffer s)"
      using DecodeNextOpcode_ok [OF less.prems(2,3)] by (auto simp: decodes_def)
    then obtain d2 hs' where d2: "DecodeNextOpcode s d' = Some (ok, d2, s1)" "collected calls hs' d1 d2"
      using DecodeNextOpcode_same [OF less.prems(1,2) True] by (auto simp: same_step_def)
    show ?thesis
    proof (cases ok)
      case ok: True
      have "aligned s1" "core d1" using d1 by (simp_all add: reads_def decoding_def)
      then obtain ok' hs'' e e' where e: "decode_opcodes s1 d1 = Some (ok', e)" "decode_opcodes s1 d2 = Some (ok', e')"
        "collected calls hs'' e e'"
        using less.hyps [OF _ d2(2)] d1(4) ok by blast
      moreover have "decode_opcodes s d = decode_opcodes s1 d1" "decode_opcodes s d' = decode_opcodes s1 d2"
        using True ok d1(1) d2(1) by (simp_all add: decode_opcodes.simps [of s])
      ultimately show ?thesis by metis
    next
      case False
      then have "decode_opcodes s d = Some (False, d1)" "decode_opcodes s d' = Some (False, d2)"
        using True d1(1) d2(1) by (simp_all add: decode_opcodes.simps [of s])
      then show ?thesis using d2(2) by blast
    qed
  next
    case False
    then have "decode_opcodes s e = Some (True, e)" for e by (simp add: decode_opcodes.simps [of s])
    then show ?thesis using less.prems(1) by blast
  qed
qed

text \<open>A block that arrives in one piece, as the callers decode it.\<close>

definition decode_block :: "bool \<Rightarrow> uint8 list \<Rightarrow> hpack_decoder \<Rightarrow> (bool \<times> hpack_decoder) option" where
  "decode_block h bytes d =
     (case HandleControlFrameHeadersData bytes (HandleControlFrameHeadersStart h d) of
        (False, d) \<Rightarrow> Some (False, d)
      | (True, d) \<Rightarrow> do { (ok, _, d) \<leftarrow> HandleControlFrameHeadersComplete d; Some (ok, d) })"

lemma decode_block_same:
  assumes "decoder_inv d"
  shows "\<exists>ok dh db hs. decode_block True bytes d = Some (ok, dh) \<and> decode_block False bytes d = Some (ok, db) \<and>
    header_table dh = header_table db \<and> decoded_block db = foldl collect [] hs \<and>
    handler_calls dh = handler_calls d @ (if header_block_started d then [] else [OnHeaderBlockStart]) @ reported hs @
      (if ok then [OnHeaderBlockEnd (length (headers_block_buffer d) + length bytes)] else [])"
proof -
  let ?calls = "handler_calls d @ (if header_block_started d then [] else [OnHeaderBlockStart])"
  let ?d = "\<lambda>h buf. d\<lparr>handler := h, decoded_block := [], header_block_started := True, headers_block_buffer := buf,
      handler_calls := (if h then ?calls else handler_calls d)\<rparr>"
  show ?thesis
  proof (cases "length (headers_block_buffer d) + length bytes > kMaxDecodeBufferSize")
    case True
    have D: "HandleControlFrameHeadersData bytes (HandleControlFrameHeadersStart h d) = (False, ?d h (headers_block_buffer d))" for h
      using True by (cases d) (simp add: HandleControlFrameHeadersData_def HandleControlFrameHeadersStart_def Let_def call_handler_def)
    have "decode_block h bytes d = Some (False, ?d h (headers_block_buffer d))" for h
      unfolding decode_block_def D by simp
    then show ?thesis
      by (intro exI [of _ False] exI [of _ "?d True (headers_block_buffer d)"] exI [of _ "?d False (headers_block_buffer d)"] exI [of _ "[]"])
        (simp add: reported_def)
  next
    case False
    let ?buf = "headers_block_buffer d @ bytes"
    have D: "HandleControlFrameHeadersData bytes (HandleControlFrameHeadersStart h d) = (True, ?d h ?buf)" for h
      using False by (cases d) (simp add: HandleControlFrameHeadersData_def HandleControlFrameHeadersStart_def Let_def call_handler_def)
    let ?e = "\<lambda>h. (?d h ?buf)\<lparr>regular_header_seen := False\<rparr>" and ?s = "HpackInputStream kDefaultMaxStringLiteralSize ?buf"
    have c: "collected ?calls [] (?e True) (?e False)" by (simp add: collected_def reported_def)
    have "core (?e True)" using assms by (simp add: core_def decoder_inv_def)
    then obtain ok hs e e' where o: "decode_opcodes ?s (?e True) = Some (ok, e)" "decode_opcodes ?s (?e False) = Some (ok, e')"
      and c': "collected ?calls hs e e'" and f: "decoding (?e True) e"
      using decode_opcodes_same [OF c, of ?s] decode_opcodes_ok [of ?s "?e True"] by auto
    have "headers_block_buffer e = ?buf" using f by (simp add: decoding_def)
    then show ?thesis
      using o collectedD [OF c'] unfolding decode_block_def D
      by (cases ok) (auto simp: HandleControlFrameHeadersComplete_def Let_def call_handler_def)
  qed
qed

text \<open>
  Reporting and collecting agree: after any sequence of calls, a block decoded with a handler and the
  same block decoded without one give the same result and the same header table, and the block that is
  collected consists of the fields that the handler is told - in the order of their first occurrence,
  cookies of several fields joined by \<open>"; "\<close> and other values by a zero byte - also when the decoding
  fails half-way. The handler is told of the start, unless a block has been started, and of the end,
  unless there is an error.
\<close>

theorem handler_and_block_agree:
  "\<exists>t d d' ok dh db hs. ObtainHpackHuffmanTable = Some t \<and> HpackDecoder t = Some d \<and> decoder_calls calls d = Some d' \<and>
     decode_block True bytes d' = Some (ok, dh) \<and> decode_block False bytes d' = Some (ok, db) \<and>
     header_table dh = header_table db \<and> decoded_block db = foldl collect [] hs \<and>
     handler_calls dh = handler_calls d' @ (if header_block_started d' then [] else [OnHeaderBlockStart]) @ reported hs @
       (if ok then [OnHeaderBlockEnd (length (headers_block_buffer d') + length bytes)] else [])"
proof -
  obtain t where t: "ObtainHpackHuffmanTable = Some t" using ObtainHpackHuffmanTable_ok by blast
  then obtain d where d: "HpackDecoder t = Some d" "decoder_inv d" using decoder_inv_new by blast
  then obtain d' where "decoder_calls calls d = Some d'" "decoder_inv d'" using decoder_calls_ok by blast
  then show ?thesis using t d(1) decode_block_same by blast
qed

section \<open>The error path\<close>

text \<open>A block that cannot be decoded leaves the handler and the flag of the block as they were.\<close>

lemma Complete_error_keeps_handler:
  assumes "decoder_inv d" and "HandleControlFrameHeadersComplete d = Some (False, n, d')"
  shows "handler d' = handler d \<and> header_block_started d' = header_block_started d"
proof -
  let ?s = "HpackInputStream kDefaultMaxStringLiteralSize (headers_block_buffer d)"
  let ?d = "d\<lparr>regular_header_seen := False\<rparr>"
  show ?thesis
  proof (cases "headers_block_buffer d = []")
    case True
    then have "decode_opcodes ?s ?d = Some (True, ?d)" by (subst decode_opcodes.simps) (simp add: HasMoreData_def)
    then show ?thesis using assms(2) by (simp add: HandleControlFrameHeadersComplete_def Let_def)
  next
    case False
    then have "core ?d" using assms(1) by (simp add: decoder_inv_def core_def)
    then obtain ok e where "decode_opcodes ?s ?d = Some (ok, e)" "decoding ?d e"
      using decode_opcodes_ok [of ?s ?d] by auto
    then show ?thesis
      using assms(2) by (cases ok) (auto simp: HandleControlFrameHeadersComplete_def Let_def decoding_def)
  qed
qed

end
