(* ===== verification/Hpack_Encoder.thy ===== *)
theory Hpack_Encoder
  imports Hpack_Decoder
begin

text \<open>
  \<open>net/spdy/hpack/hpack_encoder.{h,cc}\<close>: the encoder of HPACK. The result \<open>None\<close> of an operation is the
  failure of a \<open>CHECK\<close> or \<open>DCHECK\<close> or an access out of bounds. A header set is the list of its fields,
  a string piece the list of its bytes, and \<open>npos\<close> is \<open>None\<close>.
\<close>

section \<open>The encoder\<close>

record hpack_encoder =
  encoder_table :: hpack_header_table
  output_stream :: hpack_output_stream
  encoder_huffman_table :: huffman_table
  min_table_size_setting_received :: nat
  allow_huffman_compression :: bool
  should_emit_table_size :: bool

text \<open>\<open>std::numeric_limits<size_t>::max()\<close>\<close>

definition size_max :: nat where "size_max = 2 ^ 64 - 1"

definition HpackEncoder :: "huffman_table \<Rightarrow> hpack_encoder option" where
  "HpackEncoder t =
     do {
       table \<leftarrow> HpackHeaderTable;
       Some \<lparr>encoder_table = table, output_stream = HpackOutputStream, encoder_huffman_table = t,
             min_table_size_setting_received = size_max, allow_huffman_compression = True,
             should_emit_table_size = False\<rparr>
     }"

definition CurrentHeaderTableSizeSetting :: "hpack_encoder \<Rightarrow> nat" where
  "CurrentHeaderTableSizeSetting e = settings_size_bound (encoder_table e)"

definition Encoder_ApplyHeaderTableSizeSetting :: "nat \<Rightarrow> hpack_encoder \<Rightarrow> hpack_encoder option" where
  "Encoder_ApplyHeaderTableSizeSetting size_setting e =
     (if size_setting = settings_size_bound (encoder_table e) then Some e
      else
        (let e = (if size_setting < settings_size_bound (encoder_table e)
                  then e\<lparr>min_table_size_setting_received := min size_setting (min_table_size_setting_received e)\<rparr>
                  else e)
         in do {
              table \<leftarrow> SetSettingsHeaderTableSize size_setting (encoder_table e);
              Some (e\<lparr>encoder_table := table, should_emit_table_size := True\<rparr>)
            }))"

text \<open>A write to the output stream.\<close>

definition emit :: "(hpack_output_stream \<Rightarrow> hpack_output_stream) \<Rightarrow> hpack_encoder \<Rightarrow> hpack_encoder" where
  "emit f e = e\<lparr>output_stream := f (output_stream e)\<rparr>"

definition EmitString :: "uint8 list \<Rightarrow> hpack_encoder \<Rightarrow> hpack_encoder option" where
  "EmitString str e =
     do {
       encoded_size \<leftarrow>
         (if \<not> allow_huffman_compression e then Some (length str)
          else EncodedSize (encoder_huffman_table e) str);
       if encoded_size < length str
       then do {
         let e = emit (AppendPrefix kStringLiteralHuffmanEncoded) e;
         let e = emit (AppendUint32 (of_nat encoded_size)) e;
         out \<leftarrow> EncodeString (encoder_huffman_table e) str (output_stream e);
         Some (e\<lparr>output_stream := out\<rparr>)
       }
       else do {
         let e = emit (AppendPrefix kStringLiteralIdentityEncoded) e;
         let e = emit (AppendUint32 (of_nat (length str))) e;
         if out_bit_offset (output_stream e) \<noteq> 0 then None else Some (emit (AppendBytes str) e)
       }
     }"

definition EmitIndex :: "hpack_entry \<Rightarrow> hpack_encoder \<Rightarrow> hpack_encoder" where
  "EmitIndex entry e =
     (let e = emit (AppendPrefix kIndexedOpcode) e
      in emit (AppendUint32 (of_nat (IndexOf entry (encoder_table e)))) e)"

definition EmitLiteral :: "header \<Rightarrow> hpack_encoder \<Rightarrow> hpack_encoder option" where
  "EmitLiteral representation e =
     do {
       e \<leftarrow>
         (case GetByName (fst representation) (encoder_table e) of
            Some name_entry \<Rightarrow> Some (emit (AppendUint32 (of_nat (IndexOf name_entry (encoder_table e)))) e)
          | None \<Rightarrow> EmitString (fst representation) (emit (AppendUint32 0) e));
       EmitString (snd representation) e
     }"

definition EmitIndexedLiteral :: "header \<Rightarrow> hpack_encoder \<Rightarrow> hpack_encoder option" where
  "EmitIndexedLiteral representation e =
     do {
       let e = emit (AppendPrefix kLiteralIncrementalIndexOpcode) e;
       e \<leftarrow> EmitLiteral representation e;
       (_, table) \<leftarrow> TryAddEntry (fst representation) (snd representation) (encoder_table e);
       Some (e\<lparr>encoder_table := table\<rparr>)
     }"

definition EmitNonIndexedLiteral :: "header \<Rightarrow> hpack_encoder \<Rightarrow> hpack_encoder option" where
  "EmitNonIndexedLiteral representation e =
     do {
       let e = emit (AppendPrefix kLiteralNoIndexOpcode) e;
       let e = emit (AppendUint32 0) e;
       e \<leftarrow> EmitString (fst representation) e;
       EmitString (snd representation) e
     }"

definition MaybeEmitTableSize :: "hpack_encoder \<Rightarrow> hpack_encoder" where
  "MaybeEmitTableSize e =
     (if \<not> should_emit_table_size e then e
      else
        (let current_size = CurrentHeaderTableSizeSetting e;
             e = (if min_table_size_setting_received e < current_size
                  then emit (AppendUint32 (of_nat (min_table_size_setting_received e)))
                         (emit (AppendPrefix kHeaderTableSizeUpdateOpcode) e)
                  else e);
             e = emit (AppendPrefix kHeaderTableSizeUpdateOpcode) e;
             e = emit (AppendUint32 (of_nat current_size)) e
         in e\<lparr>min_table_size_setting_received := size_max, should_emit_table_size := False\<rparr>))"

section \<open>Representations\<close>

text \<open>The searches of \<open>StringPiece\<close>; \<open>None\<close> is \<open>npos\<close>.\<close>

definition find_first_not_of :: "uint8 list \<Rightarrow> uint8 list \<Rightarrow> nat option" where
  "find_first_not_of chars s = find (\<lambda>i. s ! i \<notin> set chars) [0..<length s]"

definition find_last_not_of :: "uint8 list \<Rightarrow> uint8 list \<Rightarrow> nat option" where
  "find_last_not_of chars s = find (\<lambda>i. s ! i \<notin> set chars) (rev [0..<length s])"

definition find_char :: "uint8 \<Rightarrow> nat \<Rightarrow> uint8 list \<Rightarrow> nat option" where
  "find_char c pos s = find (\<lambda>i. s ! i = c) [pos..<length s]"

lemma find_char_bounds: "find_char c pos s = Some i \<Longrightarrow> pos \<le> i \<and> i < length s"
  by (auto simp: find_char_def find_Some_iff)

text \<open>The loop of \<open>CookieToCrumbs\<close>.\<close>

function crumbs_loop :: "uint8 list \<Rightarrow> uint8 list \<Rightarrow> nat \<Rightarrow> header list" where
  "crumbs_loop name cookie_value pos =
     (case find_char (chr CHR '';'') pos cookie_value of
        None \<Rightarrow> [(name, drop pos cookie_value)]
      | Some end' \<Rightarrow>
          (name, take (end' - pos) (drop pos cookie_value)) #
          crumbs_loop name cookie_value
            (let pos = end' + 1
             in if pos \<noteq> length cookie_value \<and> cookie_value ! pos = chr CHR '' '' then pos + 1 else pos))"
  by pat_completeness auto
termination
  by (relation "measure (\<lambda>(name, v, pos). length v - pos)") (auto simp: Let_def dest!: find_char_bounds)

declare crumbs_loop.simps [simp del]

definition CookieToCrumbs :: "header \<Rightarrow> header list \<Rightarrow> header list" where
  "CookieToCrumbs cookie out =
     (let cookie_value = snd cookie;
          cookie_value =
            (case (find_first_not_of [0x20, 0x09] cookie_value, find_last_not_of [0x20, 0x09] cookie_value) of
               (Some first_pos, Some last_pos) \<Rightarrow> take (last_pos - first_pos + 1) (drop first_pos cookie_value)
             | _ \<Rightarrow> [])
      in out @ crumbs_loop (fst cookie) cookie_value 0)"

text \<open>The loop of \<open>DecomposeRepresentation\<close>.\<close>

function decompose_loop :: "header \<Rightarrow> nat \<Rightarrow> header list" where
  "decompose_loop h pos =
     (case find_char 0 pos (snd h) of
        None \<Rightarrow> [(fst h, drop pos (snd h))]
      | Some end' \<Rightarrow> (fst h, take (end' - pos) (drop pos (snd h))) # decompose_loop h (end' + 1))"
  by pat_completeness auto
termination
  by (relation "measure (\<lambda>(h, pos). length (snd h) - pos)") (auto dest!: find_char_bounds)

declare decompose_loop.simps [simp del]

definition DecomposeRepresentation :: "header \<Rightarrow> header list \<Rightarrow> header list" where
  "DecomposeRepresentation header_field out = out @ decompose_loop header_field 0"

section \<open>Header sets\<close>

text \<open>The loop of \<open>EncodeHeaderSet\<close> that separates a header set.\<close>

fun separate :: "header list \<Rightarrow> bool \<Rightarrow> header list \<Rightarrow> header list \<Rightarrow> header list \<times> header list" where
  "separate [] found_cookie pseudo_headers regular_headers = (pseudo_headers, regular_headers)"
| "separate (h # hs) found_cookie pseudo_headers regular_headers =
     (if \<not> found_cookie \<and> fst h = bytes_of ''cookie''
      then separate hs True pseudo_headers (CookieToCrumbs h regular_headers)
      else if fst h \<noteq> [] \<and> hd (fst h) = kPseudoHeaderPrefix
      then separate hs found_cookie (DecomposeRepresentation h pseudo_headers) regular_headers
      else separate hs found_cookie pseudo_headers (DecomposeRepresentation h regular_headers))"

text \<open>The loops over the pseudo-headers and over the regular headers.\<close>

fun encode_pseudo :: "header list \<Rightarrow> bool \<Rightarrow> hpack_encoder \<Rightarrow> hpack_encoder option" where
  "encode_pseudo [] found_authority e = Some e"
| "encode_pseudo (h # hs) found_authority e =
     (case GetByNameAndValue (fst h) (snd h) (encoder_table e) of
        Some entry \<Rightarrow> encode_pseudo hs found_authority (EmitIndex entry e)
      | None \<Rightarrow>
          if \<not> found_authority \<and> fst h = bytes_of '':authority''
          then do { e \<leftarrow> EmitIndexedLiteral h e; encode_pseudo hs True e }
          else do { e \<leftarrow> EmitNonIndexedLiteral h e; encode_pseudo hs found_authority e })"

fun encode_regular :: "header list \<Rightarrow> hpack_encoder \<Rightarrow> hpack_encoder option" where
  "encode_regular [] e = Some e"
| "encode_regular (h # hs) e =
     (case GetByNameAndValue (fst h) (snd h) (encoder_table e) of
        Some entry \<Rightarrow> encode_regular hs (EmitIndex entry e)
      | None \<Rightarrow> do { e \<leftarrow> EmitIndexedLiteral h e; encode_regular hs e })"

text \<open>\<open>TakeString\<close> of the output stream, with its \<open>DCHECK\<close>; the result of the encoder is always \<open>true\<close>.\<close>

definition take_output :: "hpack_encoder \<Rightarrow> (uint8 list \<times> hpack_encoder) option" where
  "take_output e =
     (if TakeString_dcheck (output_stream e)
      then (let (bytes, out) = TakeString (output_stream e) in Some (bytes, e\<lparr>output_stream := out\<rparr>))
      else None)"

definition EncodeHeaderSet :: "header list \<Rightarrow> hpack_encoder \<Rightarrow> (uint8 list \<times> hpack_encoder) option" where
  "EncodeHeaderSet header_set e =
     do {
       let e = MaybeEmitTableSize e;
       let (pseudo_headers, regular_headers) = separate header_set False [] [];
       e \<leftarrow> encode_pseudo pseudo_headers False e;
       e \<leftarrow> encode_regular regular_headers e;
       take_output e
     }"

fun emit_all :: "header list \<Rightarrow> hpack_encoder \<Rightarrow> hpack_encoder option" where
  "emit_all [] e = Some e"
| "emit_all (h # hs) e = do { e \<leftarrow> EmitNonIndexedLiteral h e; emit_all hs e }"

definition EncodeHeaderSetWithoutCompression ::
    "header list \<Rightarrow> hpack_encoder \<Rightarrow> (uint8 list \<times> hpack_encoder) option" where
  "EncodeHeaderSetWithoutCompression header_set e =
     do {
       let e = e\<lparr>allow_huffman_compression := False\<rparr>;
       let e = MaybeEmitTableSize e;
       e \<leftarrow> emit_all header_set e;
       let e = e\<lparr>allow_huffman_compression := True\<rparr>;
       take_output e
     }"

end
