(* ===== verification/Hpack_Crumbs.thy ===== *)
theory Hpack_Crumbs
  imports Hpack_Encoder
begin

text \<open>
  How \<open>HpackEncoder\<close> takes values apart: \<open>CookieToCrumbs\<close> and \<open>DecomposeRepresentation\<close>, whose loops work on
  positions, as functions on lists. Shown: the pieces of a value, joined by zero bytes, are the value, and
  the crumbs of a cookie, joined by \<open>"; "\<close>, are the trimmed cookie with one space after each semicolon.
\<close>

section \<open>Cookies and values\<close>

text \<open>What the code computes with positions, on lists.\<close>

lemma find_image: "find P (map f xs) = map_option f (find (\<lambda>x. P (f x)) xs)"
  by (induction xs) auto

lemma find_nth_Cons:
  "find (\<lambda>i. P ((x # xs) ! i)) [Suc k..<Suc n] = map_option Suc (find (\<lambda>i. P (xs ! i)) [k..<n])"
proof -
  have "[Suc k..<Suc n] = map Suc [k..<n]" by (simp add: map_Suc_upt)
  then show ?thesis by (simp add: find_image)
qed

lemma find_char_Cons: "find_char c (Suc k) (x # xs) = map_option Suc (find_char c k xs)"
  unfolding find_char_def by (simp only: list.size find_nth_Cons [where P = "\<lambda>y. y = c"] add_0_right add_Suc_right)

lemma find_char_0_Cons: "find_char c 0 (x # xs) = (if x = c then Some 0 else map_option Suc (find_char c 0 xs))"
  by (simp add: find_char_def upt_conv_Cons [of 0] find_nth_Cons [where P = "\<lambda>y. y = c"] del: upt_Suc)

lemma find_char_drop: "find_char c pos s = map_option ((+) pos) (find_char c 0 (drop pos s))"
proof (induction pos arbitrary: s)
  case (Suc pos)
  show ?case
  proof (cases s)
    case Nil
    then show ?thesis by (simp add: find_char_def)
  next
    case (Cons x xs)
    then show ?thesis using Suc by (simp add: find_char_Cons option.map_comp comp_def)
  qed
next
  case 0
  show ?case by (cases "find_char c 0 s") simp_all
qed

text \<open>The position of a byte splits the list.\<close>

lemma find_char_split:
  "find_char c 0 s = (if c \<in> set s then Some (length (takeWhile (\<lambda>x. x \<noteq> c) s)) else None)"
  by (induction s) (auto simp: find_char_0_Cons find_char_def [of c 0 "[]"])

text \<open>Joining the pieces of a value with a separator.\<close>

fun join_with :: "'a list \<Rightarrow> 'a list list \<Rightarrow> 'a list" where
  "join_with sep [] = []"
| "join_with sep [x] = x"
| "join_with sep (x # y # ys) = x @ sep @ join_with sep (y # ys)"

fun split_at :: "'a \<Rightarrow> 'a list \<Rightarrow> 'a list list" where
  "split_at c [] = [[]]"
| "split_at c (x # xs) = (if x = c then [] # split_at c xs
     else (case split_at c xs of [] \<Rightarrow> [[x]] | y # ys \<Rightarrow> (x # y) # ys))"

lemma split_at_nonempty [simp]: "split_at c xs \<noteq> []"
  by (cases xs) (auto split: list.splits)

lemma join_split: "join_with [c] (split_at c xs) = xs"
proof (induction xs)
  case (Cons x xs)
  obtain y ys where y: "split_at c xs = y # ys" by (cases "split_at c xs") auto
  then show ?case using Cons by (cases ys) auto
qed simp

lemma split_at_takeWhile:
  "split_at c xs = (if c \<in> set xs
     then takeWhile (\<lambda>x. x \<noteq> c) xs # split_at c (drop (Suc (length (takeWhile (\<lambda>x. x \<noteq> c) xs))) xs) else [xs])"
  by (induction xs) auto

lemma decompose_loop_split:
  "decompose_loop h pos = map (Pair (fst h)) (split_at 0 (drop pos (snd h)))"
proof (induction "length (snd h) - pos" arbitrary: pos rule: less_induct)
  case less
  let ?s = "drop pos (snd h)"
  show ?case
  proof (cases "0 \<in> set ?s")
    case True
    let ?n = "length (takeWhile (\<lambda>x. x \<noteq> 0) ?s)"
    have "find_char 0 pos (snd h) = Some (pos + ?n)"
      using True by (simp add: find_char_drop [of 0 pos] find_char_split)
    moreover have "length (snd h) - (pos + ?n + 1) < length (snd h) - pos" using True
      by (cases "pos < length (snd h)") (auto simp: diff_less_mono2)
    ultimately show ?thesis
      using True less [of "pos + ?n + 1"]
      by (subst decompose_loop.simps, subst split_at_takeWhile) (simp add: takeWhile_eq_take [symmetric] add.commute)
  next
    case False
    then have "find_char 0 pos (snd h) = None" by (simp add: find_char_drop [of 0 pos] find_char_split)
    then show ?thesis using False by (subst decompose_loop.simps, subst split_at_takeWhile) simp
  qed
qed

lemma decompose: "DecomposeRepresentation h out = out @ map (Pair (fst h)) (split_at 0 (snd h))"
  by (simp add: DecomposeRepresentation_def decompose_loop_split)

section \<open>Cookies\<close>

definition is_space :: "uint8 \<Rightarrow> bool" where
  "is_space c \<longleftrightarrow> c = 0x20 \<or> c = 0x09"

definition trim :: "uint8 list \<Rightarrow> uint8 list" where
  "trim s = rev (dropWhile is_space (rev (dropWhile is_space s)))"

lemma find_nth_split:
  "find (\<lambda>i. P (s ! i)) [0..<length s] =
     (if \<exists>x \<in> set s. P x then Some (length (takeWhile (\<lambda>x. \<not> P x) s)) else None)"
proof (induction s)
  case (Cons x xs)
  then show ?case
    by (simp add: upt_conv_Cons [of 0] find_nth_Cons [where P = P] del: upt_Suc)
qed simp

lemma find_first_not_of_split:
  "find_first_not_of [0x20, 0x09] s =
     (if \<exists>x \<in> set s. \<not> is_space x then Some (length (takeWhile is_space s)) else None)"
proof -
  have e: "(y \<notin> set [0x20, 0x09]) = (\<not> is_space y)" for y by (simp add: is_space_def)
  show ?thesis using find_nth_split [of "\<lambda>y. \<not> is_space y" s] unfolding find_first_not_of_def e by simp
qed

lemma rev_upt_map: "rev [0..<n] = map (\<lambda>i. n - 1 - i) [0..<n]"
  by (rule nth_equalityI) (simp_all add: rev_nth)

lemma find_cong_set: "(\<And>x. x \<in> set xs \<Longrightarrow> P x = Q x) \<Longrightarrow> find P xs = find Q xs"
  by (induction xs) auto

lemma find_last_not_of_rev:
  "find_last_not_of chars s = map_option (\<lambda>i. length s - 1 - i) (find_first_not_of chars (rev s))"
proof -
  have "find (\<lambda>i. s ! (length s - 1 - i) \<notin> set chars) [0..<length s] =
      find (\<lambda>i. rev s ! i \<notin> set chars) [0..<length (rev s)]"
    unfolding length_rev by (rule find_cong_set) (simp add: rev_nth)
  then show ?thesis by (simp add: find_last_not_of_def find_first_not_of_def rev_upt_map find_image)
qed

lemma dropWhile_exists:
  assumes "\<exists>x \<in> set s. \<not> P x"
  shows "\<exists>x \<in> set (dropWhile P s). \<not> P x"
proof -
  have "dropWhile P s \<noteq> []" using assms by (simp add: dropWhile_eq_Nil_conv)
  then show ?thesis using hd_dropWhile [of P s] by (intro bexI [of _ "hd (dropWhile P s)"]) simp_all
qed

lemma takeWhile_rev_dropWhile:
  assumes "\<exists>x \<in> set s. \<not> P x"
  shows "takeWhile P (rev (dropWhile P s)) = takeWhile P (rev s)"
proof -
  obtain x where x: "x \<in> set (rev (dropWhile P s))" "\<not> P x" using dropWhile_exists [OF assms] by auto
  have e: "rev s = rev (dropWhile P s) @ rev (takeWhile P s)" unfolding rev_append [symmetric] takeWhile_dropWhile_id ..
  have "takeWhile P (rev s) = takeWhile P (rev (dropWhile P s) @ rev (takeWhile P s))" using arg_cong [OF e] .
  also have "\<dots> = takeWhile P (rev (dropWhile P s))" using x by (rule takeWhile_append1)
  finally show ?thesis ..
qed

lemma trim_positions:
  "(case (find_first_not_of [0x20, 0x09] s, find_last_not_of [0x20, 0x09] s) of
      (Some first_pos, Some last_pos) \<Rightarrow> take (last_pos - first_pos + 1) (drop first_pos s)
    | _ \<Rightarrow> []) = trim s"
proof (cases "\<exists>x \<in> set s. \<not> is_space x")
  case True
  let ?a = "length (takeWhile is_space s)" and ?b = "length (takeWhile is_space (rev s))"
  have d: "drop ?a s = dropWhile is_space s" by (simp add: dropWhile_eq_drop)
  have r: "rev (dropWhile is_space (rev t)) = take (length t - length (takeWhile is_space (rev t))) t" for t
    by (simp add: dropWhile_eq_drop rev_drop)
  have t: "trim s = take (length s - ?a - ?b) (drop ?a s)"
    unfolding trim_def r takeWhile_rev_dropWhile [OF True] by (simp flip: d)
  have "length (dropWhile is_space (rev (dropWhile is_space s))) > 0"
    using dropWhile_exists [OF True] by (simp add: dropWhile_eq_Nil_conv)
  moreover have "length (dropWhile P t) = length t - length (takeWhile P t)" for P and t :: "uint8 list"
    by (simp add: dropWhile_eq_drop)
  ultimately have "length s - ?a - ?b > 0"
    using takeWhile_rev_dropWhile [OF True] by (simp only: length_rev)
  then have "length s - 1 - ?b - ?a + 1 = length s - ?a - ?b" by simp
  then show ?thesis
    using True t by (simp add: find_last_not_of_rev find_first_not_of_split)
next
  case False
  then have d: "dropWhile is_space s = []" by (simp add: dropWhile_eq_Nil_conv)
  have "trim s = []" unfolding trim_def d by simp
  then show ?thesis using False by (simp add: find_first_not_of_split find_last_not_of_rev)
qed

text \<open>The decoded cookie: every semicolon is followed by one space more than the spaces after the first.\<close>

definition skip_space :: "uint8 list \<Rightarrow> uint8 list" where
  "skip_space s = (if s \<noteq> [] \<and> hd s = 0x20 then tl s else s)"

lemma length_skip_space [simp]: "length (skip_space s) \<le> length s"
  by (simp add: skip_space_def)

lemma skip_space_drop:
  "m \<le> length v \<Longrightarrow> drop (if m \<noteq> length v \<and> v ! m = 0x20 then m + 1 else m) v = skip_space (drop m v)"
  by (cases "m < length v") (simp_all add: skip_space_def Cons_nth_drop_Suc [symmetric])

function respace :: "uint8 list \<Rightarrow> uint8 list" where
  "respace [] = []"
| "respace (c # cs) = (if c = 0x3B then 0x3B # 0x20 # respace (skip_space cs) else c # respace cs)"
  by pat_completeness auto
termination
  by (relation "measure length") (auto simp: less_Suc_eq_le)

lemma respace_none: "0x3B \<notin> set s \<Longrightarrow> respace s = s"
  by (induction s) auto

lemma respace_split:
  "0x3B \<in> set s \<Longrightarrow> respace s = takeWhile (\<lambda>x. x \<noteq> 0x3B) s @ [0x3B, 0x20] @
     respace (skip_space (drop (Suc (length (takeWhile (\<lambda>x. x \<noteq> 0x3B) s))) s))"
  by (induction s) auto

lemma semicolon: "chr CHR '';'' = 0x3B" "chr CHR '' '' = 0x20"
  by (simp_all add: chr_def)

lemma crumbs_loop_join:
  "\<exists>ps. crumbs_loop name v pos = map (Pair name) ps \<and> ps \<noteq> [] \<and> join_with [0x3B, 0x20] ps = respace (drop pos v)"
proof (induction "length v - pos" arbitrary: pos rule: less_induct)
  case less
  let ?s = "drop pos v"
  show ?case
  proof (cases "0x3B \<in> set ?s")
    case True
    let ?n = "length (takeWhile (\<lambda>x. x \<noteq> 0x3B) ?s)"
    let ?pos = "pos + ?n + 1"
    let ?next = "if ?pos \<noteq> length v \<and> v ! ?pos = 0x20 then ?pos + 1 else ?pos"
    have f: "find_char 0x3B pos v = Some (pos + ?n)"
      using True by (simp add: find_char_drop [of _ pos] find_char_split)
    have n: "pos + ?n < length v" using find_char_bounds [OF f] by simp
    have s: "drop ?next v = skip_space (drop (Suc ?n) ?s)"
      using skip_space_drop [of ?pos v] n by (simp add: add.commute)
    have "length v - ?next < length v - pos" using n by (intro diff_less_mono2) auto
    then obtain ps where ps: "crumbs_loop name v ?next = map (Pair name) ps" "ps \<noteq> []"
      "join_with [0x3B, 0x20] ps = respace (drop ?next v)"
      using less by blast
    have "crumbs_loop name v pos = map (Pair name) (takeWhile (\<lambda>x. x \<noteq> 0x3B) ?s # ps)"
      using f by (subst crumbs_loop.simps)
        (simp only: semicolon option.case Let_def ps(1) list.map takeWhile_eq_take [symmetric] add_diff_cancel_left')
    moreover have "join_with [0x3B, 0x20] (takeWhile (\<lambda>x. x \<noteq> 0x3B) ?s # ps) = respace ?s"
      unfolding respace_split [OF True] using ps(2,3) s by (cases ps) simp_all
    ultimately show ?thesis by blast
  next
    case False
    then have "find_char 0x3B pos v = None" by (simp add: find_char_drop [of _ pos] find_char_split)
    then show ?thesis
      using False by (subst crumbs_loop.simps) (auto simp: semicolon respace_none intro!: exI [of _ "[?s]"])
  qed
qed

lemma CookieToCrumbs_trim: "CookieToCrumbs h out = out @ crumbs_loop (fst h) (trim (snd h)) 0"
  unfolding CookieToCrumbs_def Let_def trim_positions ..

lemma crumbs: "\<exists>ps. CookieToCrumbs h out = out @ map (Pair (fst h)) ps \<and> ps \<noteq> [] \<and>
    join_with [0x3B, 0x20] ps = respace (trim (snd h))"
  using crumbs_loop_join [of "fst h" "trim (snd h)" 0]
  unfolding CookieToCrumbs_trim by auto

end
