(* ===== verification/Hpack_Emission.thy ===== *)
theory Hpack_Emission
  imports Hpack_Crumbs "HOL-Library.Sublist"
begin

text \<open>
  One representation on its way from \<open>HpackEncoder\<close> to \<open>HpackDecoder\<close>. Shown: what an \<open>Emit\<close> method appends
  is read back by the decoder as the field it stands for, whatever bytes follow, as long as the table of the
  encoder is a prefix of that of the decoder, and this relation is preserved.
\<close>

section \<open>One representation\<close>

text \<open>Bytes that are appended to an output stream that ends on a byte boundary.\<close>

definition add_bytes :: "hpack_output_stream \<Rightarrow> uint8 list \<Rightarrow> hpack_output_stream" where
  "add_bytes out bs = out\<lparr>out_buffer := out_buffer out @ bs\<rparr>"

lemma add_bytes_simps [simp]:
  "out_bit_offset (add_bytes out bs) = out_bit_offset out" "add_bytes (add_bytes out bs) cs = add_bytes out (bs @ cs)"
  "add_bytes out [] = out" "out_buffer (add_bytes out bs) = out_buffer out @ bs"
  by (simp_all add: add_bytes_def)

text \<open>An input stream with \<open>n\<close> bits of its first byte read.\<close>

definition input_at :: "nat \<Rightarrow> uint8 list \<Rightarrow> hpack_input_stream" where
  "input_at n bs = \<lparr>max_string_literal_size = kDefaultMaxStringLiteralSize, in_buffer = bs, in_bit_offset = n\<rparr>"

lemma input_at_simps [simp]:
  "in_buffer (input_at n bs) = bs" "aligned (input_at 0 bs)" "(input_at n bs)\<lparr>in_bit_offset := m\<rparr> = input_at m bs"
  "max_string_literal_size (input_at n bs) = kDefaultMaxStringLiteralSize"
  "HpackInputStream kDefaultMaxStringLiteralSize bs = input_at 0 bs"
  by (simp_all add: input_at_def aligned_def HpackInputStream_def)

lemma uint32_loop_length: "unat i < 2 ^ (7 * Suc k) \<Longrightarrow> length (fst (uint32_loop i)) \<le> k"
proof (induction k arbitrary: i)
  case 0
  then have "\<not> i AND NOT 0x7F \<noteq> 0" using high_bits_iff [of i] by simp
  then show ?case by (subst uint32_loop.simps) simp
next
  case (Suc k)
  show ?case
  proof (cases "i AND NOT 0x7F \<noteq> 0")
    case True
    have "unat (drop_bit 7 i) < 2 ^ (7 * Suc k)"
      unfolding unat_drop_bit_7 using Suc.prems by (intro less_mult_imp_div_less) (simp add: power_add mult.commute)
    then show ?thesis using Suc.IH [of "drop_bit 7 i"] True by (subst uint32_loop.simps) (simp add: split_beta)
  next
    case False
    then show ?thesis by (subst uint32_loop.simps) simp
  qed
qed

lemma uint32_loop_short: "uint32_loop i = (bs, j) \<Longrightarrow> length bs \<le> 4"
  using uint32_loop_length [of i 4] unsigned_less [of i, where 'a = nat] by simp

lemma high_or_low:
  assumes "n < 8" and "x AND mask (8 - n) = x" and "drop_bit n p = 0"
  shows "drop_bit (8 - n) (push_bit (8 - n) p OR x) = (p :: uint8)"
proof (rule bit_word_eqI)
  fix k
  assume "k < LENGTH(8)"
  have x: "\<not> bit x (8 - n + k)" using assms(2) by (metis bit_and_iff bit_mask_iff le_add1 not_less)
  have "bit p k \<Longrightarrow> k < n" using bit_above [OF assms(3)] .
  then show "bit (drop_bit (8 - n) (push_bit (8 - n) p OR x)) k = bit p k"
    using x assms(1) \<open>k < LENGTH(8)\<close> by (auto simp: bit_simps)
qed

lemma AppendUint32_offset:
  assumes "out_bit_offset s = n" and "0 < n" and "n < 8"
  shows "\<exists>x bs. AppendUint32 i s = \<lparr>out_buffer = butlast (out_buffer s) @ (last (out_buffer s) OR x) # bs, out_bit_offset = 0\<rparr> \<and>
    x AND mask (8 - n) = x \<and> length bs \<le> 5"
proof -
  have step: "AppendBits x (8 - n) s = \<lparr>out_buffer = butlast (out_buffer s) @ [last (out_buffer s) OR x], out_bit_offset = 0\<rparr>" for x
    using assms by (cases s) (simp add: AppendBits_def or_last_def Let_def)
  show ?thesis
  proof (cases "i < mask (8 - n)")
    case True
    then show ?thesis
      using assms step ucast_below_mask(1) [OF True] mask_byte [of "8 - n"]
      by (intro exI [of _ "ucast i"] exI [of _ "[]"]) (simp add: AppendUint32_def Let_def)
  next
    case False
    obtain bs j where l: "uint32_loop (i - mask (8 - n)) = (bs, j)" by fastforce
    then show ?thesis
      using False assms step uint32_loop_short [OF l] mask_byte [of "8 - n"]
      by (intro exI [of _ "mask (8 - n)"] exI [of _ "bs @ [ucast j]"])
        (simp add: AppendUint32_def Let_def AppendBits_def [of _ 8])
  qed
qed

text \<open>A prefix and an integer: the bytes, whose first one starts with the prefix, and their reading.\<close>

lemma prefixed_integer:
  assumes "out_bit_offset out = 0" and "0 < bit_size p" and "bit_size p < 8" and "drop_bit (bit_size p) (bits p) = 0"
  shows "\<exists>b bs. AppendUint32 i (AppendPrefix p out) = add_bytes out (b # bs) \<and>
    drop_bit (8 - bit_size p) b = bits p \<and> length bs \<le> 5 \<and>
    (\<forall>rest. DecodeNextUint32 (input_at (bit_size p) (b # bs @ rest)) = (True, i, input_at 0 rest))"
proof -
  let ?n = "bit_size p" and ?s = "AppendPrefix p out"
  have s: "?s = \<lparr>out_buffer = out_buffer out @ [push_bit (8 - ?n) (bits p)], out_bit_offset = ?n\<rparr>"
    using assms by (cases out) (simp add: AppendPrefix_def AppendBits_def Let_def)
  have ok: "output_ok ?s" using assms push_bit_masked [of "8 - ?n" "bits p"] by (simp add: s output_ok_def)
  obtain x bs where x: "AppendUint32 i ?s = \<lparr>out_buffer = out_buffer out @ (push_bit (8 - ?n) (bits p) OR x) # bs, out_bit_offset = 0\<rparr>"
    "x AND mask (8 - ?n) = x" "length bs \<le> 5"
    using AppendUint32_offset [of ?s ?n i] assms by (auto simp: s)
  let ?b = "push_bit (8 - ?n) (bits p) OR x"
  have "DecodeNextUint32 (input_at ?n (?b # bs @ rest)) = (True, i, input_at 0 rest)" for rest
    using AppendUint32_DecodeNextUint32 [OF ok, of i kDefaultMaxStringLiteralSize rest] assms(2) x(1)
    by (auto simp: s next_byte_def input_at_def)
  moreover have "AppendUint32 i ?s = add_bytes out (?b # bs)" using x(1) assms(1) by (cases out) (simp add: add_bytes_def)
  ultimately show ?thesis using x high_or_low [OF assms(3) x(2) assms(4)] by blast
qed

section \<open>Strings and representations\<close>

lemma unat_of_nat_32: "n < 2 ^ 32 \<Longrightarrow> unat (of_nat n :: uint32) = n"
  by (simp add: unsigned_of_nat take_bit_nat_eq_self)

text \<open>The state of the encoder between two writes, and an encoder that has appended bytes.\<close>

definition encoder_ok :: "hpack_encoder \<Rightarrow> bool" where
  "encoder_ok e \<longleftrightarrow> out_bit_offset (output_stream e) = 0 \<and>
     ObtainHpackHuffmanTable = Some (encoder_huffman_table e) \<and> table_inv (encoder_table e)"

definition emitted :: "uint8 list \<Rightarrow> hpack_encoder \<Rightarrow> hpack_encoder" where
  "emitted bs e = e\<lparr>output_stream := add_bytes (output_stream e) bs\<rparr>"

lemma emitted_simps [simp]:
  "emitted cs (emitted bs e) = emitted (bs @ cs) e" "encoder_ok (emitted bs e) = encoder_ok e"
  "encoder_table (emitted bs e) = encoder_table e" "encoder_huffman_table (emitted bs e) = encoder_huffman_table e"
  "allow_huffman_compression (emitted bs e) = allow_huffman_compression e"
  "out_buffer (output_stream (emitted bs e)) = out_buffer (output_stream e) @ bs"
  "out_bit_offset (output_stream (emitted bs e)) = out_bit_offset (output_stream e)"
  by (simp_all add: emitted_def encoder_ok_def)

lemma emit_AppendBytes: "emit (AppendBytes bs) e = emitted bs e"
  by (simp add: emit_def emitted_def AppendBytes_def add_bytes_def)

text \<open>The bytes \<open>bs\<close> are a prefix with an integer.\<close>

definition int_bytes :: "hpack_prefix \<Rightarrow> uint32 \<Rightarrow> uint8 list \<Rightarrow> bool" where
  "int_bytes p i bs \<longleftrightarrow> bs \<noteq> [] \<and> length bs \<le> 6 \<and> drop_bit (8 - bit_size p) (hd bs) = bits p \<and>
     (\<forall>rest. DecodeNextUint32 (input_at (bit_size p) (bs @ rest)) = (True, i, input_at 0 rest))"

lemma emit_integer:
  assumes "encoder_ok e" and "0 < bit_size p" and "bit_size p < 8" and "drop_bit (bit_size p) (bits p) = 0"
  shows "\<exists>bs. emit (AppendUint32 i) (emit (AppendPrefix p) e) = emitted bs e \<and> int_bytes p i bs"
proof -
  obtain b bs where b: "AppendUint32 i (AppendPrefix p (output_stream e)) = add_bytes (output_stream e) (b # bs)"
    "drop_bit (8 - bit_size p) b = bits p" "length bs \<le> 5"
    "\<forall>rest. DecodeNextUint32 (input_at (bit_size p) (b # bs @ rest)) = (True, i, input_at 0 rest)"
    using prefixed_integer [OF _ assms(2,3,4), of "output_stream e" i] assms(1) by (auto simp: encoder_ok_def)
  then show ?thesis
    by (intro exI [of _ "b # bs"]) (simp add: int_bytes_def emit_def emitted_def)
qed

text \<open>Which prefixes the first byte matches.\<close>

lemma Match_int:
  assumes "int_bytes p i bs" and "0 < bit_size q" and "bit_size q < 8"
  shows "checked_Match q (input_at 0 (bs @ rest)) =
    Some (if drop_bit (8 - bit_size q) (hd bs) = bits q then (True, input_at (bit_size q) (bs @ rest))
          else (False, input_at 0 (bs @ rest)))"
  using assms by (cases bs) (simp_all add: int_bytes_def Match_aligned)

lemma Match_same:
  assumes "int_bytes p i bs" and "0 < bit_size p" and "bit_size p < 8"
  shows "checked_Match p (input_at 0 (bs @ rest)) = Some (True, input_at (bit_size p) (bs @ rest))"
  using Match_int [OF assms(1) assms(2,3)] assms(1) by (simp add: int_bytes_def)

text \<open>A shorter prefix is decided by the longer one, and a longer one excluded by the shorter one.\<close>

lemma Match_other:
  assumes "int_bytes p i bs" and "0 < bit_size q" and "bit_size q < 8" and "bit_size p < 8"
    and "if bit_size q \<le> bit_size p then drop_bit (bit_size p - bit_size q) (bits p) \<noteq> bits q
         else drop_bit (bit_size q - bit_size p) (bits q) \<noteq> bits p"
  shows "checked_Match q (input_at 0 (bs @ rest)) = Some (False, input_at 0 (bs @ rest))"
proof -
  have p: "drop_bit (8 - bit_size p) (hd bs) = bits p" using assms(1) by (simp add: int_bytes_def)
  have "drop_bit (8 - bit_size q) (hd bs) \<noteq> bits q"
  proof
    assume q: "drop_bit (8 - bit_size q) (hd bs) = bits q"
    show False
    proof (cases "bit_size q \<le> bit_size p")
      case True
      then have "drop_bit (bit_size p - bit_size q) (bits p) = bits q"
        unfolding p [symmetric] q [symmetric] using assms(4) by (simp add: drop_bit_drop_bit)
      then show False using True assms(5) by simp
    next
      case False
      then have "drop_bit (bit_size q - bit_size p) (bits q) = bits p"
        unfolding p [symmetric] q [symmetric] using assms(3) by (simp add: drop_bit_drop_bit)
      then show False using False assms(5) by simp
    qed
  qed
  then show ?thesis using Match_int [OF assms(1,2,3)] by simp
qed

lemma EmitString_ok:
  assumes "encoder_ok e" and "length str \<le> 16384"
  shows "\<exists>bs. EmitString str e = Some (emitted bs e) \<and> length bs \<le> 6 + length str \<and>
    (\<forall>rest d. huffman_table d = encoder_huffman_table e \<longrightarrow>
       DecodeNextStringLiteral (input_at 0 (bs @ rest)) d = Some (Some str, input_at 0 rest))"
proof -
  have t: "ObtainHpackHuffmanTable = Some (encoder_huffman_table e)" using assms(1) by (simp add: encoder_ok_def)
  have kmax: "unat kDefaultMaxStringLiteralSize = 16384" by (simp add: kDefaultMaxStringLiteralSize_def)
  obtain hs s' where h: "EncodeString (encoder_huffman_table e) str out = Some (add_bytes out (hs out))"
    "EncodedSize (encoder_huffman_table e) str = Some (length (hs out))"
    "DecodeString (encoder_huffman_table e) (input_at 0 (hs out)) 16384 = Some (True, str, s' out)"
    if "out_bit_offset out = 0" for out
    using hpack_string_coding [OF t _ assms(2), where m = kDefaultMaxStringLiteralSize]
    unfolding add_bytes_def input_at_simps by metis
  show ?thesis
  proof (cases "allow_huffman_compression e \<and> length (hs (output_stream e)) < length str")
    case True
    let ?n = "length (hs (output_stream e))"
    obtain bs where bs: "emit (AppendUint32 (of_nat ?n)) (emit (AppendPrefix kStringLiteralHuffmanEncoded) e) = emitted bs e"
      "int_bytes kStringLiteralHuffmanEncoded (of_nat ?n) bs"
      using emit_integer [OF assms(1), of kStringLiteralHuffmanEncoded] by auto
    have o: "out_bit_offset (output_stream (emitted bs e)) = 0" using assms(1) by (simp add: encoder_ok_def)
    have o0: "out_bit_offset (output_stream e) = 0" using assms(1) by (simp add: encoder_ok_def)
    let ?hs = "hs (output_stream (emitted bs e))"
    have n: "length ?hs = ?n" using h(2) [OF o] h(2) [OF o0] by simp
    have un: "unat (of_nat ?n :: uint32) = ?n" using True assms(2) by (intro unat_of_nat_32) simp
    have "EmitString str e = Some (emitted (bs @ ?hs) e)"
      using True h(2) [OF o0] h(1) [OF o] bs(1)
      by (simp add: EmitString_def) (simp add: emitted_def)
    moreover have "DecodeNextStringLiteral (input_at 0 ((bs @ ?hs) @ rest)) d = Some (Some str, input_at 0 rest)"
      if "huffman_table d = encoder_huffman_table e" for d rest
      using that bs(2) un n h(3) [OF o] Match_same [OF bs(2)]
      by (simp add: DecodeNextStringLiteral_def DecodeNextHuffmanString_def int_bytes_def kmax)
        (simp add: input_at_def)
    moreover have "length (bs @ ?hs) \<le> 6 + length str" using True n bs(2) by (simp add: int_bytes_def)
    ultimately show ?thesis by blast
  next
    case False
    obtain bs where bs: "emit (AppendUint32 (of_nat (length str))) (emit (AppendPrefix kStringLiteralIdentityEncoded) e) = emitted bs e"
      "int_bytes kStringLiteralIdentityEncoded (of_nat (length str)) bs"
      using emit_integer [OF assms(1), of kStringLiteralIdentityEncoded] by auto
    have o0: "out_bit_offset (output_stream e) = 0" using assms(1) by (simp add: encoder_ok_def)
    have un: "unat (of_nat (length str) :: uint32) = length str" using assms(2) by (intro unat_of_nat_32) simp
    have le: "\<not> kDefaultMaxStringLiteralSize < (of_nat (length str) :: uint32)"
      using assms(2) un kmax by (simp add: word_less_nat_alt)
    have "EmitString str e = Some (emitted (bs @ str) e)"
      using False h(2) [OF o0] bs(1) o0
      by (cases "allow_huffman_compression e") (simp_all add: EmitString_def Let_def emit_AppendBytes)
    moreover have "DecodeNextStringLiteral (input_at 0 ((bs @ str) @ rest)) d = Some (Some str, input_at 0 rest)" for d rest
      using bs(2) un le Match_same [OF bs(2)] Match_other [OF bs(2), of kStringLiteralHuffmanEncoded]
      by (simp add: DecodeNextStringLiteral_def DecodeNextIdentityString_def int_bytes_def)
        (simp add: input_at_def)
    moreover have "length (bs @ str) \<le> 6 + length str" using bs(2) by (simp add: int_bytes_def)
    ultimately show ?thesis by blast
  qed
qed

section \<open>The two header tables\<close>

definition fields :: "hpack_header_table \<Rightarrow> header list" where
  "fields t = map name_value (dynamic_entries t)"

definition field_size :: "header list \<Rightarrow> nat" where
  "field_size fs = (\<Sum>(n, v) \<leftarrow> fs. entry_Size n v)"

lemma field_size_simps [simp]:
  "field_size [] = 0" "field_size ((n, v) # fs) = entry_Size n v + field_size fs"
  by (simp_all add: field_size_def)

lemma field_size_fields: "table_inv t \<Longrightarrow> field_size (fields t) \<le> max_size t"
proof -
  assume "table_inv t"
  then have "total_size (dynamic_entries t) \<le> max_size t" by (simp add: table_inv_def table_core_def)
  moreover have "field_size (map name_value es) = total_size es" for es
    by (induction es) (simp_all add: name_value_def Size_def)
  ultimately show ?thesis by (simp add: fields_def)
qed

text \<open>Eviction preserves that one table is the newer part of the other.\<close>

lemma keep_fields_mono: "prefix xs ys \<Longrightarrow> b \<le> c \<Longrightarrow> prefix (keep_fields b xs) (keep_fields c ys)"
proof (induction xs arbitrary: ys b c)
  case (Cons x xs)
  obtain n v where x: "x = (n, v)" by fastforce
  obtain zs where ys: "ys = x # zs" "prefix xs zs" using Cons.prems(1) by (auto simp: prefix_Cons prefix_def)
  show ?case
    using Cons.prems(2) Cons.IH [OF ys(2), of "b - entry_Size n v" "c - entry_Size n v"] by (simp add: x ys(1))
qed simp

lemma keep_fields_fits: "prefix xs ys \<Longrightarrow> field_size xs \<le> b \<Longrightarrow> prefix xs (keep_fields b ys)"
proof (induction xs arbitrary: ys b)
  case (Cons x xs)
  obtain n v where x: "x = (n, v)" by fastforce
  obtain zs where ys: "ys = x # zs" "prefix xs zs" using Cons.prems(1) by (auto simp: prefix_Cons prefix_def)
  show ?case
    using Cons.prems(2) Cons.IH [OF ys(2), of "b - entry_Size n v"] by (simp add: x ys(1))
qed simp

text \<open>The static table does not change.\<close>

lemma Evict_static: "Evict n t = Some t' \<Longrightarrow> static_entries t' = static_entries t"
  by (induction n t rule: Evict.induct) (auto simp: Let_def split: if_splits prod.splits)

lemma SetMaxSize_static: "SetMaxSize n t = Some t' \<Longrightarrow> static_entries t' = static_entries t"
  using Evict_static by (fastforce simp: SetMaxSize_def Let_def split: if_splits option.splits)

lemma SetSettings_static: "SetSettingsHeaderTableSize n t = Some t' \<Longrightarrow> static_entries t' = static_entries t"
  using SetMaxSize_static by (fastforce simp: SetSettingsHeaderTableSize_def Let_def split: if_splits)

lemma TryAddEntry_static: "TryAddEntry n v t = Some (r, t') \<Longrightarrow> static_entries t' = static_entries t"
  using Evict_static by (fastforce simp: TryAddEntry_def Let_def split: if_splits option.splits prod.splits bool.splits)

text \<open>
  The table of the encoder is a prefix of that of the decoder. It may be a proper one: the limit of the
  encoder's table never grows again.
\<close>

definition synced :: "hpack_header_table \<Rightarrow> hpack_header_table \<Rightarrow> bool" where
  "synced te td \<longleftrightarrow> table_inv te \<and> table_inv td \<and>
     map name_value (static_entries te) = HpackStaticTableVector \<and>
     map name_value (static_entries td) = HpackStaticTableVector \<and>
     prefix (fields te) (fields td) \<and> max_size te \<le> max_size td \<and>
     settings_size_bound te = settings_size_bound td \<and> settings_size_bound te < 2 ^ 32"

lemma static_count: "length HpackStaticTableVector = 61"
  by (simp add: HpackStaticTableVector_def)

lemma synced_entry:
  assumes "synced te td" and "e \<in> set (static_entries te) \<union> set (dynamic_entries te)"
  shows "\<exists>e'. GetByIndex (IndexOf e te) td = Some e' \<and> name_value e' = name_value e"
    "0 < IndexOf e te" "IndexOf e te < 2 ^ 32"
proof -
  have inv: "table_inv te" "table_inv td" and p: "prefix (fields te) (fields td)"
    and st: "map name_value (static_entries te) = HpackStaticTableVector" "map name_value (static_entries td) = HpackStaticTableVector"
    using assms(1) by (simp_all add: synced_def)
  have len: "length (static_entries te) = 61" "length (static_entries td) = 61"
    using st static_count by (metis length_map)+
  have "32 * length fs \<le> field_size fs" for fs by (induction fs) (auto simp: entry_Size_def kSizeOverhead_def)
  then have "32 * length (dynamic_entries te) \<le> max_size te"
    using field_size_fields [OF inv(1)] by (metis fields_def le_trans length_map)
  then have small: "32 * length (dynamic_entries te) < 2 ^ 32"
    using assms(1) by (simp add: synced_def table_inv_def)
  consider k where "k < 61" "e = static_entries te ! k" | k where "k < length (dynamic_entries te)" "e = dynamic_entries te ! k"
    using assms(2) len by (auto simp: in_set_conv_nth)
  then have "(\<exists>e'. GetByIndex (IndexOf e te) td = Some e' \<and> name_value e' = name_value e) \<and> 0 < IndexOf e te \<and> IndexOf e te < 2 ^ 32"
  proof cases
    case 1
    then have "name_value (static_entries td ! k) = name_value e"
      using st len by (metis nth_map)
    then show ?thesis
      using 1 len GetByIndex_static [OF inv(1), of k] GetByIndex_static [OF inv(2), of k] by simp
  next
    case 2
    have "k < length (dynamic_entries td)" "fields td ! k = fields te ! k"
      using p 2(1) by (auto simp: prefix_def fields_def nth_append dest: arg_cong [of _ _ length])
    then show ?thesis
      using 2 len small GetByIndex_dynamic [OF inv(1), of k] GetByIndex_dynamic [OF inv(2), of k] by (simp add: fields_def)
  qed
  then show "\<exists>e'. GetByIndex (IndexOf e te) td = Some e' \<and> name_value e' = name_value e"
    "0 < IndexOf e te" "IndexOf e te < 2 ^ 32" by auto
qed

lemma find_name_in: "find_name n idx = Some e \<Longrightarrow> key_sorted entry_key idx \<Longrightarrow> e \<in> set idx \<and> entry_name e = n"
  using entries.lower_bound_in by (fastforce simp: find_name_def split: option.splits if_splits)

lemma find_name_value_in:
  "find_name_value n v idx = Some e \<Longrightarrow> key_sorted entry_key idx \<Longrightarrow> e \<in> set idx \<and> name_value e = (n, v)"
  using entries.lower_bound_in by (fastforce simp: find_name_value_def name_value_def split: option.splits if_splits)

lemma lookup_in:
  assumes "table_inv t"
  shows "GetByName n t = Some e \<Longrightarrow> e \<in> set (static_entries t) \<union> set (dynamic_entries t) \<and> entry_name e = n"
    "GetByNameAndValue n v t = Some e \<Longrightarrow> e \<in> set (static_entries t) \<union> set (dynamic_entries t) \<and> name_value e = (n, v)"
  using assms find_name_in [of n _ e] find_name_value_in [of n v _ e]
  by (fastforce simp: GetByName_def GetByNameAndValue_def table_inv_def table_core_def index_ok_def split: option.splits)+

lemma synced_add:
  assumes "synced te td"
  shows "\<exists>r te' r' td'. TryAddEntry n v te = Some (r, te') \<and> TryAddEntry n v td = Some (r', td') \<and> synced te' td'"
proof -
  have inv: "table_inv te" "table_inv td" using assms by (simp_all add: synced_def)
  have f: "fields t' = (if entry_Size n v > max_size t then [] else (n, v) # keep_fields (max_size t - entry_Size n v) (fields t))"
    if "if entry_Size n v > max_size t then r = None \<and> dynamic_entries t' = []
      else r = Some (HpackEntry n v False (total_insertions t)) \<and>
        dynamic_entries t' = HpackEntry n v False (total_insertions t) # keep (max_size t - entry_Size n v) (dynamic_entries t)" for t t' r
    using that by (auto simp: fields_def name_value_HpackEntry keep_fields split: if_splits)
  obtain r te' where e: "TryAddEntry n v te = Some (r, te')" "table_inv te'" "max_size te' = max_size te"
    "settings_size_bound te' = settings_size_bound te"
    "fields te' = (if entry_Size n v > max_size te then [] else (n, v) # keep_fields (max_size te - entry_Size n v) (fields te))"
    using TryAddEntry_ok [OF inv(1), of n v] f by blast
  obtain r' td' where d: "TryAddEntry n v td = Some (r', td')" "table_inv td'" "max_size td' = max_size td"
    "settings_size_bound td' = settings_size_bound td"
    "fields td' = (if entry_Size n v > max_size td then [] else (n, v) # keep_fields (max_size td - entry_Size n v) (fields td))"
    using TryAddEntry_ok [OF inv(2), of n v] f by blast
  have "prefix (fields te') (fields td')"
  proof (cases "entry_Size n v > max_size te")
    case True
    then show ?thesis by (simp add: e(5))
  next
    case False
    then have "\<not> entry_Size n v > max_size td" using assms by (simp add: synced_def)
    then show ?thesis
      using False assms keep_fields_mono [of "fields te" "fields td" "max_size te - entry_Size n v" "max_size td - entry_Size n v"]
      by (simp add: e(5) d(5) synced_def diff_le_mono)
  qed
  then have "synced te' td'"
    using assms e d TryAddEntry_static [OF e(1)] TryAddEntry_static [OF d(1)] by (simp add: synced_def)
  then show ?thesis using e(1) d(1) by blast
qed

section \<open>Sending fields\<close>

definition linked :: "hpack_encoder \<Rightarrow> hpack_decoder \<Rightarrow> bool" where
  "linked e d \<longleftrightarrow> encoder_ok e \<and> core d \<and> synced (encoder_table e) (header_table d) \<and>
     huffman_table d = encoder_huffman_table e"

text \<open>The table of the encoder fits into the smallest size that it still has to announce.\<close>

definition pending :: "hpack_encoder \<Rightarrow> bool" where
  "pending e \<longleftrightarrow> max_size (encoder_table e) \<le> min_table_size_setting_received e"

text \<open>The length limits of a field, and a bound for its encoding.\<close>

definition field_ok :: "header \<Rightarrow> bool" where
  "field_ok h \<longleftrightarrow> length (fst h) \<le> 16384 \<and> length (snd h) \<le> 16384"

definition field_cost :: "header \<Rightarrow> nat" where
  "field_cost h = 18 + length (fst h) + length (snd h)"

text \<open>
  Going from \<open>e\<close> to \<open>e'\<close>, the encoder appends bytes that take the decoder from \<open>d\<close> to a state in which
  it has seen the fields \<open>hs\<close>.
\<close>

definition sends :: "header list \<Rightarrow> nat \<Rightarrow> hpack_encoder \<Rightarrow> hpack_encoder \<Rightarrow> hpack_decoder \<Rightarrow> hpack_decoder \<Rightarrow> bool" where
  "sends hs cost e e' d d' \<longleftrightarrow> linked e' d' \<and>
     allow_huffman_compression e' = allow_huffman_compression e \<and>
     (pending e \<longrightarrow> pending e') \<and>
     d' = (fold see_header hs d)\<lparr>header_table := header_table d'\<rparr> \<and>
     (\<exists>bs. output_stream e' = add_bytes (output_stream e) bs \<and> length bs \<le> cost \<and>
       (\<forall>rest. decode_opcodes (input_at 0 (bs @ rest)) d = decode_opcodes (input_at 0 rest) d'))"

lemma decode_opcodes_Cons:
  assumes "bs \<noteq> []" and "DecodeNextOpcode (input_at 0 (bs @ rest)) d = Some (True, d', input_at 0 rest)"
  shows "decode_opcodes (input_at 0 (bs @ rest)) d = decode_opcodes (input_at 0 rest) d'"
  using assms by (subst decode_opcodes.simps) (simp add: HasMoreData_def)

lemma sends_nil: "linked e d \<Longrightarrow> sends [] 0 e e d d"
  by (auto simp: sends_def intro!: exI [of _ "[]"])

lemma see_header_table: "see_header h (d\<lparr>header_table := t\<rparr>) = (see_header h d)\<lparr>header_table := t\<rparr>"
  by (simp add: see_header_def Let_def call_handler_def)

lemma fold_see_table: "fold see_header hs (d\<lparr>header_table := t\<rparr>) = (fold see_header hs d)\<lparr>header_table := t\<rparr>"
  by (induction hs arbitrary: d) (simp_all add: see_header_table)

lemma sends_trans:
  assumes "sends hs c e e1 d d1" and "sends hs' c' e1 e2 d1 d2"
  shows "sends (hs @ hs') (c + c') e e2 d d2"
proof -
  obtain bs where bs: "output_stream e1 = add_bytes (output_stream e) bs" "length bs \<le> c"
    "\<And>rest. decode_opcodes (input_at 0 (bs @ rest)) d = decode_opcodes (input_at 0 rest) d1"
    using assms(1) by (auto simp: sends_def)
  obtain bs' where bs': "output_stream e2 = add_bytes (output_stream e1) bs'" "length bs' \<le> c'"
    "\<And>rest. decode_opcodes (input_at 0 (bs' @ rest)) d1 = decode_opcodes (input_at 0 rest) d2"
    using assms(2) by (auto simp: sends_def)
  have d1: "d1 = (fold see_header hs d)\<lparr>header_table := header_table d1\<rparr>" using assms(1) by (simp add: sends_def)
  have "d2 = (fold see_header hs' d1)\<lparr>header_table := header_table d2\<rparr>" using assms(2) by (simp add: sends_def)
  then have "d2 = (fold see_header (hs @ hs') d)\<lparr>header_table := header_table d2\<rparr>"
    by (subst (asm) d1) (simp add: fold_see_table)
  then show ?thesis
    using assms bs bs' unfolding sends_def by (intro conjI exI [of _ "bs @ bs'"]) simp_all
qed

text \<open>A field that the decoder does not refuse.\<close>

definition admissible :: "header \<Rightarrow> hpack_decoder \<Rightarrow> bool" where
  "admissible h d \<longleftrightarrow> \<not> (is_pseudo (fst h) \<and> regular_header_seen d)"

lemma HandleHeaderRepresentation_admissible:
  assumes "linked e d" and "admissible h d"
  shows "HandleHeaderRepresentation (fst h) (snd h) d = Some (True, see_header h d)"
  using assms HandleHeaderRepresentation_eq [of d "fst h" "snd h"] by (auto simp: linked_def core_def admissible_def)

lemma core_see: "core d \<Longrightarrow> core (see_header h d)"
  by (simp add: core_def)

lemma fold_see_frame [simp]:
  "huffman_table (fold see_header hs d) = huffman_table d" "header_table (fold see_header hs d) = header_table d"
  "handler (fold see_header hs d) = handler d" "headers_block_buffer (fold see_header hs d) = headers_block_buffer d"
  "header_block_started (fold see_header hs d) = header_block_started d"
  "handler d \<Longrightarrow> decoded_block (fold see_header hs d) = decoded_block d"
  by (induction hs arbitrary: d) simp_all

lemma linked_update:
  assumes "linked e d" and "synced te td"
  shows "linked ((emitted bs e)\<lparr>encoder_table := te\<rparr>) ((fold see_header hs d)\<lparr>header_table := td\<rparr>)"
proof -
  have "huffman_ok HpackHuffmanCode (huffman_table d)" "handler d \<longrightarrow> decoded_block d = []"
    "huffman_table d = encoder_huffman_table e" "encoder_ok e"
    using assms(1) unfolding linked_def core_def by blast+
  moreover have "table_inv te" "table_inv td" using assms(2) by (simp_all add: synced_def)
  ultimately show ?thesis using assms(2) by (auto simp: linked_def core_def encoder_ok_def emitted_def)
qed

lemma sendsI:
  assumes "bs \<noteq> []" and "length bs \<le> c" and "linked e d" and "synced te td"
    and "max_size te = max_size (encoder_table e)"
    and "\<And>rest. DecodeNextOpcode (input_at 0 (bs @ rest)) d = Some (True, (fold see_header hs d)\<lparr>header_table := td\<rparr>, input_at 0 rest)"
  shows "sends hs c e ((emitted bs e)\<lparr>encoder_table := te\<rparr>) d ((fold see_header hs d)\<lparr>header_table := td\<rparr>)"
  unfolding sends_def using assms linked_update [OF assms(3,4)] decode_opcodes_Cons [OF assms(1,6)]
  by (auto simp: emitted_def pending_def intro!: exI [of _ bs])

lemma EmitIndex_sends:
  assumes "linked e d" and "admissible h d" and "GetByNameAndValue (fst h) (snd h) (encoder_table e) = Some entry"
  shows "\<exists>d'. sends [h] (field_cost h) e (EmitIndex entry e) d d'"
proof -
  let ?te = "encoder_table e" and ?td = "header_table d"
  have inv: "table_inv ?te" "synced ?te ?td" and eo: "encoder_ok e"
    using assms(1) by (simp_all add: linked_def encoder_ok_def)
  note ent = lookup_in(2) [OF inv(1) assms(3)]
  obtain entry' where e': "GetByIndex (IndexOf entry ?te) ?td = Some entry'" "name_value entry' = h" and lt: "IndexOf entry ?te < 2 ^ 32"
    using synced_entry [OF inv(2) conjunct1 [OF ent]] ent by auto
  obtain bs where bs: "emit (AppendUint32 (of_nat (IndexOf entry ?te))) (emit (AppendPrefix kIndexedOpcode) e) = emitted bs e"
    "int_bytes kIndexedOpcode (of_nat (IndexOf entry ?te)) bs"
    using emit_integer [OF eo, of kIndexedOpcode] by auto
  have "DecodeNextOpcode (input_at 0 (bs @ rest)) d = Some (True, (fold see_header [h] d)\<lparr>header_table := ?td\<rparr>, input_at 0 rest)" for rest
    using Match_same [OF bs(2)] bs(2) e' unat_of_nat_32 [OF lt] HandleHeaderRepresentation_admissible [OF assms(1,2)]
    by (auto simp: DecodeNextOpcode_def DecodeNextIndexedHeader_def int_bytes_def name_value_def simp flip: see_header_table)
  moreover have "EmitIndex entry e = (emitted bs e)\<lparr>encoder_table := ?te\<rparr>"
    using bs(1) by (simp add: EmitIndex_def emit_def emitted_def)
  ultimately show ?thesis
    using sendsI [OF _ _ assms(1) inv(2), of bs "field_cost h" "[h]"] bs(2) by (auto simp: int_bytes_def field_cost_def)
qed

section \<open>Literals\<close>

lemma linked_emitted [simp]: "linked (emitted bs e) d = linked e d"
  by (simp add: linked_def)

lemma emit_simps [simp]:
  "encoder_table (emit f e) = encoder_table e" "encoder_huffman_table (emit f e) = encoder_huffman_table e"
  "allow_huffman_compression (emit f e) = allow_huffman_compression e"
  by (simp_all add: emit_def)

lemma emitted_table [simp]: "(emitted bs e)\<lparr>encoder_table := encoder_table e\<rparr> = emitted bs e"
  by (simp add: emitted_def)

lemma EmitString_linked:
  assumes "linked e d" and "length str \<le> 16384"
  shows "\<exists>bs. EmitString str e = Some (emitted bs e) \<and> length bs \<le> 6 + length str \<and>
    (\<forall>rest. DecodeNextStringLiteral (input_at 0 (bs @ rest)) d = Some (Some str, input_at 0 rest))"
  using EmitString_ok [of e str] assms by (auto simp: linked_def)

text \<open>The part of a literal after its opcode, which has \<open>p\<close> as its prefix.\<close>

lemma EmitLiteral_ok:
  assumes "linked e d" and "field_ok h" and p: "0 < bit_size p" "bit_size p < 8" "drop_bit (bit_size p) (bits p) = 0"
  shows "\<exists>i bs cs vs. EmitLiteral h (emit (AppendPrefix p) e) = Some (emitted (bs @ cs @ vs) e) \<and> int_bytes p i bs \<and>
    length (bs @ cs @ vs) \<le> field_cost h \<and>
    (\<forall>rest. DecodeNextName (input_at (bit_size p) (bs @ cs @ rest)) d = Some (Some (fst h), input_at 0 rest)) \<and>
    (\<forall>rest. DecodeNextStringLiteral (input_at 0 (vs @ rest)) d = Some (Some (snd h), input_at 0 rest))"
proof -
  let ?te = "encoder_table e" and ?td = "header_table d"
  have inv: "table_inv ?te" "synced ?te ?td" "encoder_ok e" using assms(1) by (simp_all add: linked_def encoder_ok_def)
  have h: "length (fst h) \<le> 16384" "length (snd h) \<le> 16384" using assms(2) by (simp_all add: field_ok_def)
  show ?thesis
  proof (cases "GetByName (fst h) ?te")
    case (Some entry)
    note ent = lookup_in(1) [OF inv(1) Some]
    obtain entry' where e': "GetByIndex (IndexOf entry ?te) ?td = Some entry'" "entry_name entry' = fst h"
      using synced_entry(1) [OF inv(2) conjunct1 [OF ent]] ent by (auto simp: name_value_def)
    have lt: "0 < IndexOf entry ?te" "IndexOf entry ?te < 2 ^ 32" using synced_entry(2,3) [OF inv(2) conjunct1 [OF ent]] by simp_all
    let ?i = "of_nat (IndexOf entry ?te) :: uint32"
    have i: "?i \<noteq> 0" "unat ?i = IndexOf entry ?te" using lt unat_of_nat_32 by (auto simp: word_unat_eq_iff)
    obtain bs where bs: "emit (AppendUint32 ?i) (emit (AppendPrefix p) e) = emitted bs e" "int_bytes p ?i bs"
      using emit_integer [OF inv(3) p] by blast
    obtain vs where vs: "EmitString (snd h) (emitted bs e) = Some (emitted (bs @ vs) e)" "length vs \<le> 6 + length (snd h)"
      "\<forall>rest. DecodeNextStringLiteral (input_at 0 (vs @ rest)) d = Some (Some (snd h), input_at 0 rest)"
      using EmitString_linked [of "emitted bs e" d "snd h"] assms(1) h by auto
    have "EmitLiteral h (emit (AppendPrefix p) e) = Some (emitted (bs @ [] @ vs) e)"
      using Some bs(1) vs(1) by (simp add: EmitLiteral_def)
    moreover have "DecodeNextName (input_at (bit_size p) (bs @ [] @ rest)) d = Some (Some (fst h), input_at 0 rest)" for rest
      using bs(2) i e' by (simp add: DecodeNextName_def int_bytes_def)
    moreover have "length (bs @ [] @ vs) \<le> field_cost h" using bs(2) vs(2) by (simp add: int_bytes_def field_cost_def)
    ultimately show ?thesis using bs(2) vs(3) by blast
  next
    case None
    obtain bs where bs: "emit (AppendUint32 0) (emit (AppendPrefix p) e) = emitted bs e" "int_bytes p 0 bs"
      using emit_integer [OF inv(3) p] by blast
    obtain ns where ns: "EmitString (fst h) (emitted bs e) = Some (emitted (bs @ ns) e)" "length ns \<le> 6 + length (fst h)"
      "\<forall>rest. DecodeNextStringLiteral (input_at 0 (ns @ rest)) d = Some (Some (fst h), input_at 0 rest)"
      using EmitString_linked [of "emitted bs e" d "fst h"] assms(1) h by auto
    obtain vs where vs: "EmitString (snd h) (emitted (bs @ ns) e) = Some (emitted (bs @ ns @ vs) e)" "length vs \<le> 6 + length (snd h)"
      "\<forall>rest. DecodeNextStringLiteral (input_at 0 (vs @ rest)) d = Some (Some (snd h), input_at 0 rest)"
      using EmitString_linked [of "emitted (bs @ ns) e" d "snd h"] assms(1) h by auto
    have "EmitLiteral h (emit (AppendPrefix p) e) = Some (emitted (bs @ ns @ vs) e)"
      using None bs(1) ns(1) vs(1) by (simp add: EmitLiteral_def)
    moreover have "DecodeNextName (input_at (bit_size p) (bs @ ns @ rest)) d = Some (Some (fst h), input_at 0 rest)" for rest
      using bs(2) ns(3) by (simp add: DecodeNextName_def int_bytes_def)
    moreover have "length (bs @ ns @ vs) \<le> field_cost h" using bs(2) ns(2) vs(2) by (simp add: int_bytes_def field_cost_def)
    ultimately show ?thesis using bs(2) vs(3) by blast
  qed
qed

lemma DecodeNextLiteralHeader_read:
  assumes "linked e d" and "admissible h d"
    and "DecodeNextName s d = Some (Some (fst h), s1)" and "DecodeNextStringLiteral s1 d = Some (Some (snd h), s2)"
    and "TryAddEntry (fst h) (snd h) (header_table d) = Some (r, td)"
  shows "DecodeNextLiteralHeader should_index s d =
    Some (True, (see_header h d)\<lparr>header_table := if should_index then td else header_table d\<rparr>, s2)"
  using assms(3-5) HandleHeaderRepresentation_admissible [OF assms(1,2)]
  by (simp add: DecodeNextLiteralHeader_def flip: see_header_table)

lemma EmitIndexedLiteral_sends:
  assumes "linked e d" and "admissible h d" and "field_ok h"
  shows "\<exists>e' d'. EmitIndexedLiteral h e = Some e' \<and> sends [h] (field_cost h) e e' d d'"
proof -
  let ?te = "encoder_table e" and ?td = "header_table d" and ?p = kLiteralIncrementalIndexOpcode
  have sy: "synced ?te ?td" using assms(1) by (simp add: linked_def)
  obtain r te r' td where t: "TryAddEntry (fst h) (snd h) ?te = Some (r, te)" "TryAddEntry (fst h) (snd h) ?td = Some (r', td)"
    "synced te td"
    using synced_add [OF sy] by blast
  have inv: "table_inv ?te" using sy by (simp add: synced_def)
  have te: "max_size te = max_size ?te" using TryAddEntry_ok [OF inv, of "fst h" "snd h"] t(1) by auto
  obtain i bs cs vs where l: "EmitLiteral h (emit (AppendPrefix ?p) e) = Some (emitted (bs @ cs @ vs) e)" "int_bytes ?p i bs"
    "length (bs @ cs @ vs) \<le> field_cost h"
    "\<And>rest. DecodeNextName (input_at (bit_size ?p) (bs @ cs @ rest)) d = Some (Some (fst h), input_at 0 rest)"
    "\<And>rest. DecodeNextStringLiteral (input_at 0 (vs @ rest)) d = Some (Some (snd h), input_at 0 rest)"
    using EmitLiteral_ok [OF assms(1,3), of ?p] by auto
  have m: "checked_Match kIndexedOpcode (input_at 0 (bs @ rest)) = Some (False, input_at 0 (bs @ rest))"
    "checked_Match ?p (input_at 0 (bs @ rest)) = Some (True, input_at (bit_size ?p) (bs @ rest))" for rest
    using Match_other [OF l(2), of kIndexedOpcode] Match_same [OF l(2)] by simp_all
  have "DecodeNextOpcode (input_at 0 ((bs @ cs @ vs) @ rest)) d = Some (True, (fold see_header [h] d)\<lparr>header_table := td\<rparr>, input_at 0 rest)" for rest
    using m DecodeNextLiteralHeader_read [OF assms(1,2) l(4) l(5) t(2), of True]
    by (simp add: DecodeNextOpcode_def)
  moreover have "EmitIndexedLiteral h e = Some ((emitted (bs @ cs @ vs) e)\<lparr>encoder_table := te\<rparr>)"
    using l(1) t(1) by (simp add: EmitIndexedLiteral_def Let_def)
  moreover have "bs @ cs @ vs \<noteq> []" using l(2) by (simp add: int_bytes_def)
  ultimately show ?thesis using sendsI [OF _ l(3) assms(1) t(3) te, of "[h]"] by blast
qed

lemma EmitNonIndexedLiteral_sends:
  assumes "linked e d" and "admissible h d" and "field_ok h"
  shows "\<exists>e' d'. EmitNonIndexedLiteral h e = Some e' \<and> sends [h] (field_cost h) e e' d d'"
proof -
  let ?te = "encoder_table e" and ?td = "header_table d" and ?p = kLiteralNoIndexOpcode
  have sy: "synced ?te ?td" and eo: "encoder_ok e" using assms(1) by (simp_all add: linked_def)
  obtain r td where t: "TryAddEntry (fst h) (snd h) ?td = Some (r, td)" using synced_add [OF sy] by blast
  have h: "length (fst h) \<le> 16384" "length (snd h) \<le> 16384" using assms(3) by (simp_all add: field_ok_def)
  obtain bs where bs: "emit (AppendUint32 0) (emit (AppendPrefix ?p) e) = emitted bs e" "int_bytes ?p 0 bs"
    using emit_integer [OF eo, of ?p 0] by auto
  obtain ns where ns: "EmitString (fst h) (emitted bs e) = Some (emitted (bs @ ns) e)" "length ns \<le> 6 + length (fst h)"
    "\<And>rest. DecodeNextStringLiteral (input_at 0 (ns @ rest)) d = Some (Some (fst h), input_at 0 rest)"
    using EmitString_linked [of "emitted bs e" d "fst h"] assms(1) h by auto
  obtain vs where vs: "EmitString (snd h) (emitted (bs @ ns) e) = Some (emitted (bs @ ns @ vs) e)" "length vs \<le> 6 + length (snd h)"
    "\<And>rest. DecodeNextStringLiteral (input_at 0 (vs @ rest)) d = Some (Some (snd h), input_at 0 rest)"
    using EmitString_linked [of "emitted (bs @ ns) e" d "snd h"] assms(1) h by auto
  have n: "DecodeNextName (input_at (bit_size ?p) (bs @ ns @ rest)) d = Some (Some (fst h), input_at 0 rest)" for rest
    using bs(2) ns(3) by (simp add: DecodeNextName_def int_bytes_def)
  have m: "checked_Match kIndexedOpcode (input_at 0 (bs @ rest)) = Some (False, input_at 0 (bs @ rest))"
    "checked_Match kLiteralIncrementalIndexOpcode (input_at 0 (bs @ rest)) = Some (False, input_at 0 (bs @ rest))"
    "checked_Match ?p (input_at 0 (bs @ rest)) = Some (True, input_at (bit_size ?p) (bs @ rest))" for rest
    using Match_other [OF bs(2), of kIndexedOpcode] Match_other [OF bs(2), of kLiteralIncrementalIndexOpcode] Match_same [OF bs(2)]
    by simp_all
  have "DecodeNextOpcode (input_at 0 ((bs @ ns @ vs) @ rest)) d = Some (True, (fold see_header [h] d)\<lparr>header_table := ?td\<rparr>, input_at 0 rest)" for rest
    using m DecodeNextLiteralHeader_read [OF assms(1,2) n vs(3) t, of False] by (simp add: DecodeNextOpcode_def)
  moreover have "EmitNonIndexedLiteral h e = Some ((emitted (bs @ ns @ vs) e)\<lparr>encoder_table := ?te\<rparr>)"
    using bs(1) ns(1) vs(1) by (simp add: EmitNonIndexedLiteral_def Let_def)
  moreover have "bs @ ns @ vs \<noteq> []" "length (bs @ ns @ vs) \<le> field_cost h"
    using bs(2) ns(2) vs(2) by (simp_all add: int_bytes_def field_cost_def)
  ultimately show ?thesis using sendsI [OF _ _ assms(1) sy, of "bs @ ns @ vs" "field_cost h" "[h]"] by blast
qed

end
