(* ===== verification/Hpack_Round_Trip.thy ===== *)
theory Hpack_Round_Trip
  imports Hpack_Emission
begin

text \<open>
  \<open>HpackEncoder\<close> and \<open>HpackDecoder\<close> at the two ends of a connection. Shown: every header set arrives, its
  pseudo-headers first and its cookies in a normal form, through any sequence of header sets and changes of
  \<open>SETTINGS_HEADER_TABLE_SIZE\<close>; and the two header tables stay in step.
\<close>

section \<open>Header sets on the wire\<close>

abbreviation cost :: "header list \<Rightarrow> nat" where
  "cost hs \<equiv> sum_list (map field_cost hs)"

lemma sends_linked: "sends hs c e e' d d' \<Longrightarrow> linked e' d'"
  by (simp add: sends_def)

lemma sends_mono: "sends hs c e e' d d' \<Longrightarrow> c \<le> c' \<Longrightarrow> sends hs c' e e' d d'"
  by (fastforce simp: sends_def)

lemma sends_seen:
  assumes "sends hs c e e' d d'"
  shows "regular_header_seen d' = regular_header_seen (fold see_header hs d)"
proof -
  have "d' = (fold see_header hs d)\<lparr>header_table := header_table d'\<rparr>" using assms by (simp add: sends_def)
  then show ?thesis by (metis hpack_decoder.select_convs(7) hpack_decoder.surjective hpack_decoder.update_convs(1))
qed

lemma see_pseudo: "is_pseudo (fst h) \<Longrightarrow> regular_header_seen (see_header h d) = regular_header_seen d"
  by (simp add: see_header_def Let_def call_handler_def)

lemma encode_regular_sends:
  assumes "linked e d" and "\<forall>h \<in> set hs. field_ok h \<and> \<not> is_pseudo (fst h)"
  shows "\<exists>e' d'. encode_regular hs e = Some e' \<and> sends hs (cost hs) e e' d d'"
  using assms
proof (induction hs arbitrary: e d)
  case Nil
  then show ?case using sends_nil by auto
next
  case (Cons h hs)
  have h: "admissible h d" "field_ok h" using Cons.prems(2) by (simp_all add: admissible_def)
  obtain e1 d1 where e1: "encode_regular (h # hs) e = encode_regular hs e1" "sends [h] (field_cost h) e e1 d d1"
    using EmitIndex_sends [OF Cons.prems(1) h(1)] EmitIndexedLiteral_sends [OF Cons.prems(1) h]
    by (cases "GetByNameAndValue (fst h) (snd h) (encoder_table e)") force+
  obtain e2 d2 where e2: "encode_regular hs e1 = Some e2" "sends hs (cost hs) e1 e2 d1 d2"
    using Cons.IH [OF sends_linked [OF e1(2)]] Cons.prems(2) by auto
  show ?case using sends_trans [OF e1(2) e2(2)] e1(1) e2(1) by auto
qed

lemma encode_pseudo_sends:
  assumes "linked e d" and "\<forall>h \<in> set hs. field_ok h \<and> is_pseudo (fst h)" and "\<not> regular_header_seen d"
  shows "\<exists>e' d'. encode_pseudo hs found e = Some e' \<and> sends hs (cost hs) e e' d d'"
  using assms
proof (induction hs arbitrary: found e d)
  case Nil
  then show ?case using sends_nil by auto
next
  case (Cons h hs)
  have h: "admissible h d" "field_ok h" using Cons.prems(2,3) by (simp_all add: admissible_def)
  obtain found' e1 d1 where e1: "encode_pseudo (h # hs) found e = encode_pseudo hs found' e1" "sends [h] (field_cost h) e e1 d d1"
    using EmitIndex_sends [OF Cons.prems(1) h(1)] EmitIndexedLiteral_sends [OF Cons.prems(1) h]
      EmitNonIndexedLiteral_sends [OF Cons.prems(1) h]
    by (cases "GetByNameAndValue (fst h) (snd h) (encoder_table e)"; cases "\<not> found \<and> fst h = bytes_of '':authority''") force+
  have "\<not> regular_header_seen d1" using sends_seen [OF e1(2)] see_pseudo [of h d] Cons.prems(2,3) by simp
  then obtain e2 d2 where e2: "encode_pseudo hs found' e1 = Some e2" "sends hs (cost hs) e1 e2 d1 d2"
    using Cons.IH [OF sends_linked [OF e1(2)], of found'] Cons.prems(2) by auto
  show ?case using sends_trans [OF e1(2) e2(2)] e1(1) e2(1) by auto
qed

lemma emit_all_sends:
  assumes "linked e d" and "\<forall>h \<in> set hs. field_ok h"
    and "(\<forall>h \<in> set hs. \<not> is_pseudo (fst h)) \<or> (\<forall>h \<in> set hs. is_pseudo (fst h)) \<and> \<not> regular_header_seen d"
  shows "\<exists>e' d'. emit_all hs e = Some e' \<and> sends hs (cost hs) e e' d d'"
  using assms
proof (induction hs arbitrary: e d)
  case Nil
  then show ?case using sends_nil by auto
next
  case (Cons h hs)
  have h: "admissible h d" "field_ok h" using Cons.prems(2,3) by (auto simp: admissible_def)
  obtain e1 d1 where e1: "EmitNonIndexedLiteral h e = Some e1" "sends [h] (field_cost h) e e1 d d1"
    using EmitNonIndexedLiteral_sends [OF Cons.prems(1) h] by blast
  have "is_pseudo (fst h) \<longrightarrow> regular_header_seen d1 = regular_header_seen d"
    using sends_seen [OF e1(2)] see_pseudo [of h d] by simp
  then obtain e2 d2 where e2: "emit_all hs e1 = Some e2" "sends hs (cost hs) e1 e2 d1 d2"
    using Cons.IH [OF sends_linked [OF e1(2)]] Cons.prems(2,3) by auto
  show ?case using sends_trans [OF e1(2) e2(2)] e1(1) e2(1) by auto
qed

lemma emit_all_append: "emit_all (xs @ ys) e = do { e \<leftarrow> emit_all xs e; emit_all ys e }"
  by (induction xs arbitrary: e) (auto split: bind_splits)

section \<open>Table size updates\<close>

lemma fields_keep: "dynamic_entries t' = keep n (dynamic_entries t) \<Longrightarrow> fields t' = keep_fields n (fields t)"
  by (simp add: fields_def keep_fields)

lemma Size_update_sends:
  assumes "linked e d" and "max_size (encoder_table e) \<le> n" and "n \<le> settings_size_bound (encoder_table e)"
  shows "\<exists>bs d'. emit (AppendUint32 (of_nat n)) (emit (AppendPrefix kHeaderTableSizeUpdateOpcode) e) = emitted bs e \<and>
    sends [] 6 e (emitted bs e) d d'"
proof -
  let ?te = "encoder_table e" and ?td = "header_table d" and ?p = kHeaderTableSizeUpdateOpcode
  have sy: "synced ?te ?td" and eo: "encoder_ok e" using assms(1) by (simp_all add: linked_def)
  have n: "n \<le> settings_size_bound ?td" "n < 2 ^ 32" using sy assms(3) by (simp_all add: synced_def)
  have tc: "table_core ?td" "table_inv ?te" using sy by (simp_all add: synced_def table_inv_def)
  obtain td where td: "SetMaxSize n ?td = Some td" "table_inv td" "max_size td = n"
    "settings_size_bound td = settings_size_bound ?td" "fields td = keep_fields n (fields ?td)"
    using SetMaxSize_ok [OF tc(1) n(1)] fields_keep by blast
  have "prefix (fields ?te) (fields td)"
    using sy field_size_fields [OF tc(2)] assms(2) by (simp add: td(5) synced_def keep_fields_fits)
  then have sy': "synced ?te td"
    using sy td SetMaxSize_static [OF td(1)] assms(2) by (simp add: synced_def)
  obtain bs where bs: "emit (AppendUint32 (of_nat n)) (emit (AppendPrefix ?p) e) = emitted bs e" "int_bytes ?p (of_nat n) bs"
    using emit_integer [OF eo, of ?p] by auto
  have "DecodeNextOpcode (input_at 0 (bs @ rest)) d = Some (True, (fold see_header [] d)\<lparr>header_table := td\<rparr>, input_at 0 rest)" for rest
    using Match_other [OF bs(2), of kIndexedOpcode] Match_other [OF bs(2), of kLiteralIncrementalIndexOpcode]
      Match_other [OF bs(2), of kLiteralNoIndexOpcode] Match_other [OF bs(2), of kLiteralNeverIndexOpcode] Match_same [OF bs(2)]
      bs(2) td(1) n unat_of_nat_32 [OF n(2)]
    by (simp add: DecodeNextOpcode_def DecodeNextHeaderTableSizeUpdate_def int_bytes_def)
  then have "sends [] 6 e ((emitted bs e)\<lparr>encoder_table := ?te\<rparr>) d ((fold see_header [] d)\<lparr>header_table := td\<rparr>)"
    using bs(2) by (intro sendsI [OF _ _ assms(1) sy']) (simp_all add: int_bytes_def)
  then show ?thesis using bs(1) by auto
qed

lemma MaybeEmitTableSize_sends:
  assumes "linked e d" and "pending e"
  shows "\<exists>d'. sends [] 12 e (MaybeEmitTableSize e) d d'"
proof (cases "should_emit_table_size e")
  case False
  then have "sends [] 12 e (MaybeEmitTableSize e) d d"
    using sends_mono [OF sends_nil [OF assms(1)], of 12] by (simp add: MaybeEmitTableSize_def)
  then show ?thesis by blast
next
  case True
  let ?n = "min_table_size_setting_received e" and ?s = "settings_size_bound (encoder_table e)"
  have max: "max_size (encoder_table e) \<le> ?s" "?s < 2 ^ 32" using assms(1) by (simp_all add: linked_def synced_def table_inv_def)
  obtain e1 c d1 where e1: "(if ?n < ?s then emit (AppendUint32 (of_nat ?n)) (emit (AppendPrefix kHeaderTableSizeUpdateOpcode) e) else e) = e1"
    "sends [] c e e1 d d1" "c \<le> 6" "encoder_table e1 = encoder_table e"
    using Size_update_sends [OF assms(1), of ?n] assms(2) sends_nil [OF assms(1)]
    by (cases "?n < ?s") (fastforce simp: pending_def)+
  obtain bs d2 where e2: "emit (AppendUint32 (of_nat ?s)) (emit (AppendPrefix kHeaderTableSizeUpdateOpcode) e1) = emitted bs e1"
    "sends [] 6 e1 (emitted bs e1) d1 d2"
    using Size_update_sends [OF sends_linked [OF e1(2)], of ?s] max e1(4) by auto
  let ?e = "(emitted bs e1)\<lparr>min_table_size_setting_received := size_max, should_emit_table_size := False\<rparr>"
  have m: "MaybeEmitTableSize e = ?e"
    using True e1(1) e2(1) by (simp add: MaybeEmitTableSize_def CurrentHeaderTableSizeSetting_def Let_def)
  have s: "sends [] (c + 6) e (emitted bs e1) d d2" using sends_trans [OF e1(2) e2(2)] by simp
  have "pending ?e" using max e1(4) by (simp add: pending_def size_max_def)
  moreover have "linked ?e d2" using sends_linked [OF s] by (simp add: linked_def encoder_ok_def)
  ultimately have "sends [] 12 e ?e d d2" using s e1(3) by (auto simp: sends_def)
  then show ?thesis unfolding m by blast
qed

section \<open>One header set\<close>

definition representations :: "header list \<Rightarrow> header list \<times> header list" where
  "representations header_set = separate header_set False [] []"

text \<open>What an encoded block does to the decoder.\<close>

definition delivers :: "header list \<Rightarrow> nat \<Rightarrow> uint8 list \<Rightarrow> hpack_encoder \<Rightarrow> hpack_encoder \<Rightarrow> hpack_decoder \<Rightarrow> hpack_decoder \<Rightarrow> bool" where
  "delivers hs c bytes e e' d d' \<longleftrightarrow> length bytes \<le> c \<and> decode_opcodes (input_at 0 bytes) d = Some (True, d') \<and>
     d' = (fold see_header hs d)\<lparr>header_table := header_table d'\<rparr> \<and>
     linked e' d' \<and> pending e' \<and> output_stream e' = HpackOutputStream"

lemma take_output_delivers:
  assumes "sends hs c e e' d d'" and "pending e" and "output_stream e = HpackOutputStream"
  shows "\<exists>bytes. take_output (e'\<lparr>allow_huffman_compression := b\<rparr>) =
      Some (bytes, e'\<lparr>allow_huffman_compression := b, output_stream := HpackOutputStream\<rparr>) \<and>
    delivers hs c bytes e (e'\<lparr>allow_huffman_compression := b, output_stream := HpackOutputStream\<rparr>) d d'"
proof -
  obtain bs where bs: "output_stream e' = add_bytes (output_stream e) bs" "length bs \<le> c"
    "\<And>rest. decode_opcodes (input_at 0 (bs @ rest)) d = decode_opcodes (input_at 0 rest) d'"
    using assms(1) by (auto simp: sends_def)
  have o: "output_stream e' = \<lparr>out_buffer = bs, out_bit_offset = 0\<rparr>"
    using bs(1) assms(3) by (simp add: add_bytes_def HpackOutputStream_def)
  have "decode_opcodes (input_at 0 []) d' = Some (True, d')" by (subst decode_opcodes.simps) (simp add: HasMoreData_def)
  then have "decode_opcodes (input_at 0 bs) d = Some (True, d')" using bs(3) [of "[]"] by simp
  then show ?thesis
    using assms bs(2) o
    by (auto simp: take_output_def TakeString_dcheck_def TakeString_def delivers_def sends_def linked_def encoder_ok_def
        pending_def HpackOutputStream_def)
qed

lemma EncodeHeaderSet_delivers:
  assumes "linked e d" and "pending e" and "output_stream e = HpackOutputStream" and "\<not> regular_header_seen d"
    and "representations hs = (ps, rs)" and "\<forall>h \<in> set ps. field_ok h \<and> is_pseudo (fst h)"
    and "\<forall>h \<in> set rs. field_ok h \<and> \<not> is_pseudo (fst h)"
  shows "\<exists>bytes e' d'. EncodeHeaderSet hs e = Some (bytes, e') \<and> delivers (ps @ rs) (12 + cost ps + cost rs) bytes e e' d d'"
proof -
  obtain d1 where s1: "sends [] 12 e (MaybeEmitTableSize e) d d1" using MaybeEmitTableSize_sends [OF assms(1,2)] by blast
  have "\<not> regular_header_seen d1" using sends_seen [OF s1] assms(4) by simp
  then obtain e2 d2 where s2: "encode_pseudo ps False (MaybeEmitTableSize e) = Some e2"
    "sends ps (cost ps) (MaybeEmitTableSize e) e2 d1 d2"
    using encode_pseudo_sends [OF sends_linked [OF s1] assms(6)] by blast
  obtain e3 d3 where s3: "encode_regular rs e2 = Some e3" "sends rs (cost rs) e2 e3 d2 d3"
    using encode_regular_sends [OF sends_linked [OF s2(2)] assms(7)] by blast
  have s: "sends (ps @ rs) (12 + cost ps + cost rs) e e3 d d3"
    using sends_trans [OF sends_trans [OF s1 s2(2)] s3(2)] by simp
  have e3: "e3\<lparr>allow_huffman_compression := allow_huffman_compression e3\<rparr> = e3" by simp
  show ?thesis
    using take_output_delivers [OF s assms(2,3), of "allow_huffman_compression e3", unfolded e3] s2(1) s3(1) assms(5)
    by (auto simp: EncodeHeaderSet_def representations_def)
qed

lemma EncodeWithoutCompression_delivers:
  assumes "linked e d" and "pending e" and "output_stream e = HpackOutputStream" and "\<not> regular_header_seen d"
    and "hs = ps @ rs" and "\<forall>h \<in> set ps. field_ok h \<and> is_pseudo (fst h)"
    and "\<forall>h \<in> set rs. field_ok h \<and> \<not> is_pseudo (fst h)"
  shows "\<exists>bytes e' d'. EncodeHeaderSetWithoutCompression hs e = Some (bytes, e') \<and> delivers hs (12 + cost hs) bytes e e' d d'"
proof -
  let ?e = "e\<lparr>allow_huffman_compression := False\<rparr>"
  have e: "linked ?e d" "pending ?e" "output_stream ?e = HpackOutputStream"
    using assms(1-3) by (simp_all add: linked_def encoder_ok_def pending_def)
  obtain d1 where s1: "sends [] 12 ?e (MaybeEmitTableSize ?e) d d1" using MaybeEmitTableSize_sends [OF e(1,2)] by blast
  have "\<not> regular_header_seen d1" using sends_seen [OF s1] assms(4) by simp
  then obtain e2 d2 where s2: "emit_all ps (MaybeEmitTableSize ?e) = Some e2" "sends ps (cost ps) (MaybeEmitTableSize ?e) e2 d1 d2"
    using emit_all_sends [OF sends_linked [OF s1], of ps] assms(6) by blast
  obtain e3 d3 where s3: "emit_all rs e2 = Some e3" "sends rs (cost rs) e2 e3 d2 d3"
    using emit_all_sends [OF sends_linked [OF s2(2)], of rs] assms(7) by blast
  have s: "sends hs (12 + cost hs) ?e e3 d d3"
    using sends_trans [OF sends_trans [OF s1 s2(2)] s3(2)] by (simp add: assms(5) add.assoc)
  have "emit_all hs (MaybeEmitTableSize ?e) = Some e3" using s2(1) s3(1) by (simp add: assms(5) emit_all_append)
  moreover obtain bytes where "take_output (e3\<lparr>allow_huffman_compression := True\<rparr>) =
      Some (bytes, e3\<lparr>allow_huffman_compression := True, output_stream := HpackOutputStream\<rparr>)"
    "delivers hs (12 + cost hs) bytes ?e (e3\<lparr>allow_huffman_compression := True, output_stream := HpackOutputStream\<rparr>) d d3"
    using take_output_delivers [OF s e(2,3)] by blast
  ultimately show ?thesis by (auto simp: EncodeHeaderSetWithoutCompression_def Let_def delivers_def)
qed

section \<open>Both ends of a connection\<close>

text \<open>The states between two header blocks.\<close>

definition connected :: "hpack_encoder \<Rightarrow> hpack_decoder \<Rightarrow> bool" where
  "connected e d \<longleftrightarrow> encoder_ok e \<and> pending e \<and> output_stream e = HpackOutputStream \<and> decoder_inv d \<and>
     headers_block_buffer d = [] \<and> synced (encoder_table e) (header_table d) \<and> huffman_table d = encoder_huffman_table e"

lemma fold_see_block:
  "\<not> handler d \<Longrightarrow> decoded_block (fold see_header hs d) = foldl collect (decoded_block d) hs"
  by (induction hs arbitrary: d) (simp_all add: see_header_def Let_def)

lemma decode_block_delivers:
  assumes "connected e d" and "length bytes \<le> kMaxDecodeBufferSize"
    and "\<And>d1. linked e d1 \<Longrightarrow> \<not> regular_header_seen d1 \<Longrightarrow> header_table d1 = header_table d \<Longrightarrow> \<exists>d2. delivers hs c bytes e e' d1 d2"
  shows "\<exists>d'. decode_block False bytes d = Some (True, d') \<and> connected e' d' \<and> decoded_block d' = foldl collect [] hs"
proof -
  define d1 where "d1 = d\<lparr>handler := False, decoded_block := [], header_block_started := True, headers_block_buffer := bytes\<rparr>"
  have D: "HandleControlFrameHeadersData bytes (HandleControlFrameHeadersStart False d) = (True, d1)"
    using assms(1,2) by (cases d) (simp add: d1_def connected_def HandleControlFrameHeadersData_def HandleControlFrameHeadersStart_def Let_def)
  let ?d1 = "d1\<lparr>regular_header_seen := False\<rparr>"
  have l: "linked e ?d1"
    using assms(1) unfolding connected_def linked_def d1_def core_def decoder_inv_def by auto
  obtain d2 where d2: "delivers hs c bytes e e' ?d1 d2" using assms(3) [OF l] by (auto simp: d1_def)
  have o: "decode_opcodes (input_at 0 bytes) ?d1 = Some (True, d2)" "linked e' d2"
    and d2': "d2 = (fold see_header hs ?d1)\<lparr>header_table := header_table d2\<rparr>"
    using d2 by (simp_all add: delivers_def)
  have f: "handler d2 = False" "decoded_block d2 = foldl collect [] hs" "headers_block_buffer d2 = bytes"
    using fold_see_block [of ?d1 hs] by (subst d2'; simp add: d1_def)+
  let ?d = "d2\<lparr>headers_block_buffer := [], header_block_started := False, handler := False\<rparr>"
  have "decode_block False bytes d = Some (True, ?d)"
    unfolding decode_block_def D using o(1) f(1)
    by (simp add: HandleControlFrameHeadersComplete_def Let_def d1_def)
  moreover have "connected e' ?d"
    using o(2) d2 f unfolding connected_def delivers_def linked_def core_def decoder_inv_def by simp
  ultimately show ?thesis using f(2) by auto
qed

section \<open>Settings\<close>

lemma fields_settings:
  assumes "table_inv t"
  shows "\<exists>t'. SetSettingsHeaderTableSize n t = Some t' \<and> table_inv t' \<and> static_entries t' = static_entries t \<and>
    settings_size_bound t' = n \<and> max_size t' = min n (max_size t) \<and>
    fields t' = (if n < max_size t then keep_fields n (fields t) else fields t)"
proof -
  obtain t' where "SetSettingsHeaderTableSize n t = Some t'" "table_inv t'" "abs_table t' = spec_op (Settings n) (abs_table t)"
    using exec_op_ok [OF assms, of "Settings n"] by auto
  then show ?thesis
    using SetSettings_static [of n t t'] by (auto simp: abs_table_def fields_def split: if_splits)
qed

lemma settings_synced:
  assumes "synced te td" and "n < 2 ^ 32"
  shows "\<exists>te' td'. SetSettingsHeaderTableSize n te = Some te' \<and> SetSettingsHeaderTableSize n td = Some td' \<and>
    synced te' td' \<and> max_size te' = min n (max_size te)"
proof -
  have inv: "table_inv te" "table_inv td" "max_size te \<le> max_size td" "prefix (fields te) (fields td)"
    using assms(1) by (simp_all add: synced_def)
  obtain te' where e: "SetSettingsHeaderTableSize n te = Some te'" "table_inv te'" "static_entries te' = static_entries te"
    "settings_size_bound te' = n" "max_size te' = min n (max_size te)"
    "fields te' = (if n < max_size te then keep_fields n (fields te) else fields te)"
    using fields_settings [OF inv(1)] by blast
  obtain td' where d: "SetSettingsHeaderTableSize n td = Some td'" "table_inv td'" "static_entries td' = static_entries td"
    "settings_size_bound td' = n" "max_size td' = min n (max_size td)"
    "fields td' = (if n < max_size td then keep_fields n (fields td) else fields td)"
    using fields_settings [OF inv(2)] by blast
  have "prefix (fields te') (fields td')"
  proof (cases "n < max_size te")
    case True
    then show ?thesis using inv keep_fields_mono [OF inv(4), of n n] by (simp add: e d)
  next
    case False
    then show ?thesis
      using inv keep_fields_fits [OF inv(4), of n] field_size_fields [OF inv(1)] by (simp add: e d)
  qed
  then have "synced te' td'" using assms inv(3) e d by (simp add: synced_def)
  then show ?thesis using e d by blast
qed

lemma settings_connected:
  assumes "connected e d" and "n < 2 ^ 32"
  shows "\<exists>e' d'. Encoder_ApplyHeaderTableSizeSetting n e = Some e' \<and> Decoder_ApplyHeaderTableSizeSetting n d = Some d' \<and>
    connected e' d'"
proof -
  let ?te = "encoder_table e" and ?td = "header_table d"
  have sy: "synced ?te ?td" and eo: "encoder_ok e" using assms(1) by (simp_all add: connected_def)
  obtain te td where t: "SetSettingsHeaderTableSize n ?te = Some te" "SetSettingsHeaderTableSize n ?td = Some td" "synced te td"
    "max_size te = min n (max_size ?te)"
    using settings_synced [OF sy assms(2)] by blast
  let ?d = "d\<lparr>header_table := td\<rparr>"
  have d: "Decoder_ApplyHeaderTableSizeSetting n d = Some ?d"
    using t(2) by (simp add: Decoder_ApplyHeaderTableSizeSetting_def)
  have inv: "table_inv te" "table_inv td" "max_size ?te \<le> settings_size_bound ?te" using t(3) sy by (simp_all add: synced_def table_inv_def)
  have c: "connected e' ?d" if "encoder_table e' = te" "pending e'" "output_stream e' = output_stream e"
    "encoder_huffman_table e' = encoder_huffman_table e" for e'
    using assms(1) that inv t(3) unfolding connected_def encoder_ok_def decoder_inv_def by auto
  show ?thesis
  proof (cases "n = settings_size_bound ?te")
    case True
    then have "te = ?te" using t(1) inv(3) by (simp add: SetSettingsHeaderTableSize_def Let_def)
    then have "connected e ?d" using assms(1) by (intro c) (simp_all add: connected_def)
    then show ?thesis using d True by (simp add: Encoder_ApplyHeaderTableSizeSetting_def)
  next
    case False
    let ?e1 = "if n < settings_size_bound ?te
      then e\<lparr>min_table_size_setting_received := min n (min_table_size_setting_received e)\<rparr> else e"
    have p: "max_size ?te \<le> min_table_size_setting_received e" using assms(1) by (simp add: connected_def pending_def)
    have "Encoder_ApplyHeaderTableSizeSetting n e = Some (?e1\<lparr>encoder_table := te, should_emit_table_size := True\<rparr>)"
      using False t(1) by (simp add: Encoder_ApplyHeaderTableSizeSetting_def Let_def)
    moreover have "connected (?e1\<lparr>encoder_table := te, should_emit_table_size := True\<rparr>) ?d"
      using p t(4) by (intro c) (auto simp: pending_def)
    ultimately show ?thesis using d by blast
  qed
qed

section \<open>What arrives\<close>

text \<open>The fields in the order of sending, pseudo-headers first, with normalized cookies.\<close>

definition received :: "header \<Rightarrow> header" where
  "received h = (fst h, if fst h = kCookieKey then respace (trim (snd h)) else snd h)"

definition expected :: "header list \<Rightarrow> header list" where
  "expected hs = map received (filter (\<lambda>h. is_pseudo (fst h)) hs @ filter (\<lambda>h. \<not> is_pseudo (fst h)) hs)"

definition pieces :: "header \<Rightarrow> header list" where
  "pieces h = (if fst h = kCookieKey then CookieToCrumbs h [] else DecomposeRepresentation h [])"

lemma cookie_not_pseudo: "\<not> is_pseudo kCookieKey"
  by (simp add: is_pseudo_def kCookieKey_def kPseudoHeaderPrefix_def bytes_of_def chr_def)

lemma pieces_parts:
  "\<exists>ps. pieces h = map (Pair (fst h)) ps \<and> ps \<noteq> [] \<and>
     (fst h, join_with (if fst h = kCookieKey then [0x3B, 0x20] else [0]) ps) = received h"
  using crumbs [of h "[]"] decompose [of h "[]"] join_split [of 0 "snd h"]
  by (auto simp: pieces_def received_def)

lemma separate_pieces:
  assumes "distinct (map fst hs)" and "found \<longrightarrow> kCookieKey \<notin> fst ` set hs"
  shows "separate hs found ps rs =
    (ps @ concat (map pieces (filter (\<lambda>h. is_pseudo (fst h)) hs)), rs @ concat (map pieces (filter (\<lambda>h. \<not> is_pseudo (fst h)) hs)))"
  using assms
proof (induction hs arbitrary: found ps rs)
  case (Cons h hs)
  have c: "CookieToCrumbs h out = out @ CookieToCrumbs h []" "DecomposeRepresentation h out = out @ DecomposeRepresentation h []" for out
    by (simp_all add: CookieToCrumbs_def DecomposeRepresentation_def Let_def)
  have p: "(fst h \<noteq> [] \<and> hd (fst h) = kPseudoHeaderPrefix) = is_pseudo (fst h)" by (simp add: is_pseudo_def)
  show ?case
  proof (cases "fst h = kCookieKey")
    case True
    then have "separate (h # hs) found ps rs = separate hs True ps (rs @ pieces h)"
      using Cons.prems(2) c(1) [of rs] by (simp add: pieces_def kCookieKey_def)
    then show ?thesis
      using Cons.IH [of True ps "rs @ pieces h"] Cons.prems True cookie_not_pseudo by auto
  next
    case False
    then have "separate (h # hs) found ps rs =
        (if is_pseudo (fst h) then separate hs found (ps @ pieces h) rs else separate hs found ps (rs @ pieces h))"
      using c(2) [of rs] c(2) [of ps] by (simp add: pieces_def kCookieKey_def p)
    then show ?thesis
      using Cons.IH [of found "ps @ pieces h" rs] Cons.IH [of found ps "rs @ pieces h"] Cons.prems by auto
  qed
qed simp

text \<open>Collecting the pieces of a field gives the field back.\<close>

lemma update_absent: "k \<notin> fst ` set xs \<Longrightarrow> AList.update k v (xs @ ys) = xs @ AList.update k v ys"
  by (induction xs) auto

lemma map_of_absent: "k \<notin> fst ` set xs \<Longrightarrow> map_of (xs @ ys) k = map_of ys k"
  by (induction xs) auto

lemma join_with_Cons: "join_with sep ((x @ sep @ q) # qs) = join_with sep (x # q # qs)"
  by (cases qs) simp_all

lemma cookie_separator: "bytes_of ''; '' = [0x3B, 0x20]"
  by (simp add: bytes_of_def chr_def)

lemma foldl_collect_same:
  assumes "n \<notin> fst ` set block"
  shows "foldl collect (block @ [(n, x)]) (map (Pair n) qs) =
    block @ [(n, join_with (if n = kCookieKey then [0x3B, 0x20] else [0]) (x # qs))]"
proof (induction qs arbitrary: x)
  case (Cons q qs)
  define sep :: "uint8 list" where "sep = (if n = kCookieKey then [0x3B, 0x20] else [0])"
  have "collect (block @ [(n, x)]) (n, q) = block @ [(n, x @ sep @ q)]"
    using assms map_of_absent [OF assms, of "[(n, x)]"]
    by (simp add: sep_def collect_def update_absent cookie_separator del: map_of_append)
  then show ?case using Cons [of "x @ sep @ q"] join_with_Cons [of sep x q qs] unfolding sep_def [symmetric] by simp
qed simp

lemma collect_pieces:
  assumes "fst h \<notin> fst ` set block"
  shows "foldl collect block (pieces h) = block @ [received h]"
proof -
  obtain ps where ps: "pieces h = map (Pair (fst h)) ps" "ps \<noteq> []"
    "(fst h, join_with (if fst h = kCookieKey then [0x3B, 0x20] else [0]) ps) = received h"
    using pieces_parts by blast
  then obtain x qs where x: "ps = x # qs" by (cases ps) auto
  have "collect block (fst h, x) = block @ [(fst h, x)]"
    using assms update_absent [of "fst h" block x "[]"] map_of_absent [of "fst h" block "[]"]
    by (simp add: collect_def del: map_of_append)
  then show ?thesis using foldl_collect_same [OF assms, of x qs] ps x by simp
qed

lemma fst_received [simp]: "fst (received h) = fst h"
  by (simp add: received_def)

lemma collect_all:
  "distinct (map fst hs) \<Longrightarrow> fst ` set hs \<inter> fst ` set block = {} \<Longrightarrow>
   foldl collect block (concat (map pieces hs)) = block @ map received hs"
proof (induction hs arbitrary: block)
  case (Cons h hs)
  have "foldl collect block (pieces h) = block @ [received h]" using Cons.prems by (intro collect_pieces) auto
  moreover have "foldl collect (block @ [received h]) (concat (map pieces hs)) = (block @ [received h]) @ map received hs"
    using Cons.prems by (intro Cons.IH) auto
  ultimately show ?case by simp
qed simp

lemma collect_expected:
  assumes "distinct (map fst hs)"
  shows "foldl collect [] (concat (map pieces (filter (\<lambda>h. is_pseudo (fst h)) hs)) @
    concat (map pieces (filter (\<lambda>h. \<not> is_pseudo (fst h)) hs))) = expected hs"
proof -
  let ?p = "filter (\<lambda>h. is_pseudo (fst h)) hs @ filter (\<lambda>h. \<not> is_pseudo (fst h)) hs"
  have "distinct (map fst ?p)" using assms by (auto simp: distinct_map_filter)
  then show ?thesis using collect_all [of ?p "[]"] by (simp add: expected_def)
qed

section \<open>A connection\<close>

text \<open>Header sets whose encoding respects the limits of the decoder.\<close>

definition header_set_ok :: "header list \<Rightarrow> bool" where
  "header_set_ok hs \<longleftrightarrow> distinct (map fst hs) \<and> list_all (\<lambda>h. list_all field_ok (pieces h)) hs \<and>
     12 + (\<Sum>h \<leftarrow> hs. cost (pieces h)) \<le> kMaxDecodeBufferSize"

text \<open>Without compression the fields are sent as they are, so the pseudo-headers have to come first.\<close>

definition plain_set_ok :: "header list \<Rightarrow> bool" where
  "plain_set_ok hs \<longleftrightarrow> distinct (map fst hs) \<and> list_all field_ok hs \<and> 12 + cost hs \<le> kMaxDecodeBufferSize \<and>
     list_all (\<lambda>h. \<not> is_pseudo (fst h)) (dropWhile (\<lambda>h. is_pseudo (fst h)) hs)"

datatype link_event = Setting nat | Headers "header list" | Plain_headers "header list"

fun event_ok :: "link_event \<Rightarrow> bool" where
  "event_ok (Setting n) = (n < 2 ^ 32)"
| "event_ok (Headers hs) = header_set_ok hs"
| "event_ok (Plain_headers hs) = plain_set_ok hs"

text \<open>
  A change of the setting reaches both ends; a header set is encoded at one end, sent as one block and
  decoded at the other. The result are the decoded blocks and the ends, \<open>None\<close> any failure at either end.
\<close>

fun exchange ::
    "link_event list \<Rightarrow> hpack_encoder \<Rightarrow> hpack_decoder \<Rightarrow> (header list list \<times> hpack_encoder \<times> hpack_decoder) option" where
  "exchange [] e d = Some ([], e, d)"
| "exchange (ev # evs) e d =
     (case ev of
        Setting n \<Rightarrow> do {
          e \<leftarrow> Encoder_ApplyHeaderTableSizeSetting n e;
          d \<leftarrow> Decoder_ApplyHeaderTableSizeSetting n d;
          exchange evs e d
        }
      | _ \<Rightarrow> do {
          (bytes, e) \<leftarrow>
            (case ev of Headers hs \<Rightarrow> EncodeHeaderSet hs e | Plain_headers hs \<Rightarrow> EncodeHeaderSetWithoutCompression hs e);
          (ok, d) \<leftarrow> decode_block False bytes d;
          if \<not> ok then None
          else do { (blocks, e', d') \<leftarrow> exchange evs e d; Some (decoded_block d # blocks, e', d') }
        })"

fun expected_blocks :: "link_event list \<Rightarrow> header list list" where
  "expected_blocks [] = []"
| "expected_blocks (Setting n # evs) = expected_blocks evs"
| "expected_blocks (Headers hs # evs) = expected hs # expected_blocks evs"
| "expected_blocks (Plain_headers hs # evs) = hs # expected_blocks evs"

lemma cost_pieces: "cost (concat (map pieces hs)) = (\<Sum>h \<leftarrow> hs. cost (pieces h))"
  by (induction hs) simp_all

lemma sum_list_partition: "(\<Sum>h \<leftarrow> filter P hs. f h) + (\<Sum>h \<leftarrow> filter (\<lambda>h. \<not> P h) hs. f h) = (\<Sum>h \<leftarrow> hs. f h :: nat)"
  by (induction hs) auto

lemma pieces_names: "p \<in> set (pieces h) \<Longrightarrow> fst p = fst h"
  using pieces_parts [of h] by auto

lemma headers_connected:
  assumes "connected e d" and "header_set_ok hs"
  shows "\<exists>bytes e' d'. EncodeHeaderSet hs e = Some (bytes, e') \<and> decode_block False bytes d = Some (True, d') \<and>
    connected e' d' \<and> decoded_block d' = expected hs"
proof -
  define ps where "ps = concat (map pieces (filter (\<lambda>h. is_pseudo (fst h)) hs))"
  define rs where "rs = concat (map pieces (filter (\<lambda>h. \<not> is_pseudo (fst h)) hs))"
  have ok: "distinct (map fst hs)" "\<forall>h \<in> set hs. \<forall>p \<in> set (pieces h). field_ok p"
    "12 + (\<Sum>h \<leftarrow> hs. cost (pieces h)) \<le> kMaxDecodeBufferSize"
    using assms(2) by (simp_all add: header_set_ok_def list_all_iff)
  have r: "representations hs = (ps, rs)"
    using separate_pieces [OF ok(1), of False "[]" "[]"] by (simp add: representations_def ps_def rs_def)
  have p: "\<forall>h \<in> set ps. field_ok h \<and> is_pseudo (fst h)" "\<forall>h \<in> set rs. field_ok h \<and> \<not> is_pseudo (fst h)"
    using ok(2) by (auto simp: ps_def rs_def dest: pieces_names)
  have c: "12 + cost ps + cost rs \<le> kMaxDecodeBufferSize"
    using ok(3) sum_list_partition [of "\<lambda>h. cost (pieces h)" "\<lambda>h. is_pseudo (fst h)" hs] by (simp add: ps_def rs_def cost_pieces)
  have e: "pending e" "output_stream e = HpackOutputStream" using assms(1) by (simp_all add: connected_def)
  define d0 where "d0 = d\<lparr>decoded_block := [], regular_header_seen := False\<rparr>"
  have d0: "linked e d0" "\<not> regular_header_seen d0"
    using assms(1) by (auto simp: d0_def connected_def linked_def core_def decoder_inv_def)
  obtain bytes e' d1 where b: "EncodeHeaderSet hs e = Some (bytes, e')" "delivers (ps @ rs) (12 + cost ps + cost rs) bytes e e' d0 d1"
    using EncodeHeaderSet_delivers [OF d0(1) e d0(2) r p] by blast
  have "\<exists>d2. delivers (ps @ rs) (12 + cost ps + cost rs) bytes e e' d1 d2" if "linked e d1" "\<not> regular_header_seen d1" for d1
    using EncodeHeaderSet_delivers [OF that(1) e that(2) r p] b(1) by auto
  moreover have "length bytes \<le> kMaxDecodeBufferSize" using b(2) c by (simp add: delivers_def)
  ultimately obtain d' where "decode_block False bytes d = Some (True, d')" "connected e' d'" "decoded_block d' = foldl collect [] (ps @ rs)"
    using decode_block_delivers [OF assms(1)] by blast
  then show ?thesis using b(1) collect_expected [OF ok(1)] by (auto simp: ps_def rs_def)
qed

lemma collect_plain:
  "distinct (map fst hs) \<Longrightarrow> fst ` set hs \<inter> fst ` set block = {} \<Longrightarrow> foldl collect block hs = block @ hs"
proof (induction hs arbitrary: block)
  case (Cons h hs)
  have "fst h \<notin> fst ` set block" using Cons.prems by auto
  then have "collect block h = block @ [h]"
    using update_absent [of "fst h" block "snd h" "[]"] map_of_absent [of "fst h" block "[]"]
    by (simp add: collect_def del: map_of_append)
  then show ?case using Cons by auto
qed simp

lemma plain_connected:
  assumes "connected e d" and "plain_set_ok hs"
  shows "\<exists>bytes e' d'. EncodeHeaderSetWithoutCompression hs e = Some (bytes, e') \<and> decode_block False bytes d = Some (True, d') \<and>
    connected e' d' \<and> decoded_block d' = hs"
proof -
  let ?P = "\<lambda>h :: header. is_pseudo (fst h)"
  have hs: "hs = takeWhile ?P hs @ dropWhile ?P hs" by (rule takeWhile_dropWhile_id [symmetric])
  have f: "\<forall>h \<in> set hs. field_ok h" "\<forall>h \<in> set (dropWhile ?P hs). \<not> ?P h" "distinct (map fst hs)"
    "12 + cost hs \<le> kMaxDecodeBufferSize"
    using assms(2) unfolding plain_set_ok_def list_all_iff by blast+
  have p: "\<forall>h \<in> set (takeWhile ?P hs). field_ok h \<and> ?P h" "\<forall>h \<in> set (dropWhile ?P hs). field_ok h \<and> \<not> ?P h"
  proof -
    show "\<forall>h \<in> set (takeWhile ?P hs). field_ok h \<and> ?P h"
    proof
      fix h assume h: "h \<in> set (takeWhile ?P hs)"
      show "field_ok h \<and> ?P h" using set_takeWhileD [OF h] f(1) by simp
    qed
    show "\<forall>h \<in> set (dropWhile ?P hs). field_ok h \<and> \<not> ?P h"
    proof
      fix h assume h: "h \<in> set (dropWhile ?P hs)"
      show "field_ok h \<and> \<not> ?P h" using set_dropWhileD [OF h] f(1) bspec [OF f(2) h] by simp
    qed
  qed
  have e: "pending e" "output_stream e = HpackOutputStream" using assms(1) by (simp_all add: connected_def)
  define d0 where "d0 = d\<lparr>decoded_block := [], regular_header_seen := False\<rparr>"
  have d0: "linked e d0" "\<not> regular_header_seen d0"
    using assms(1) by (auto simp: d0_def connected_def linked_def core_def decoder_inv_def)
  obtain bytes e' d1 where b: "EncodeHeaderSetWithoutCompression hs e = Some (bytes, e')" "delivers hs (12 + cost hs) bytes e e' d0 d1"
    using EncodeWithoutCompression_delivers [OF d0(1) e d0(2) hs p] by blast
  have "\<exists>d2. delivers hs (12 + cost hs) bytes e e' d1 d2" if "linked e d1" "\<not> regular_header_seen d1" for d1
    using EncodeWithoutCompression_delivers [OF that(1) e that(2) hs p] b(1) by auto
  moreover have "length bytes \<le> kMaxDecodeBufferSize" using b(2) f(4) by (simp add: delivers_def)
  ultimately obtain d' where "decode_block False bytes d = Some (True, d')" "connected e' d'" "decoded_block d' = foldl collect [] hs"
    using decode_block_delivers [OF assms(1)] by blast
  then show ?thesis using b(1) collect_plain [OF f(3), of "[]"] by auto
qed

lemma exchange_ok:
  "connected e d \<Longrightarrow> list_all event_ok evs \<Longrightarrow>
   \<exists>e' d'. exchange evs e d = Some (expected_blocks evs, e', d') \<and> connected e' d'"
proof (induction evs arbitrary: e d)
  case (Cons ev evs)
  show ?case
  proof (cases ev)
    case (Setting n)
    then obtain e1 d1 where "Encoder_ApplyHeaderTableSizeSetting n e = Some e1" "Decoder_ApplyHeaderTableSizeSetting n d = Some d1"
      "connected e1 d1"
      using settings_connected [OF Cons.prems(1), of n] Cons.prems(2) by auto
    then show ?thesis using Cons.IH [of e1 d1] Cons.prems(2) Setting by simp
  next
    case (Headers hs)
    then obtain bytes e1 d1 where "EncodeHeaderSet hs e = Some (bytes, e1)" "decode_block False bytes d = Some (True, d1)"
      "connected e1 d1" "decoded_block d1 = expected hs"
      using headers_connected [OF Cons.prems(1), of hs] Cons.prems(2) by auto
    then show ?thesis using Cons.IH [of e1 d1] Cons.prems(2) Headers by auto
  next
    case (Plain_headers hs)
    then obtain bytes e1 d1 where "EncodeHeaderSetWithoutCompression hs e = Some (bytes, e1)" "decode_block False bytes d = Some (True, d1)"
      "connected e1 d1" "decoded_block d1 = hs"
      using plain_connected [OF Cons.prems(1), of hs] Cons.prems(2) by auto
    then show ?thesis using Cons.IH [of e1 d1] Cons.prems(2) Plain_headers by auto
  qed
qed simp

lemma new_connection:
  "\<exists>t e d. ObtainHpackHuffmanTable = Some t \<and> HpackEncoder t = Some e \<and> HpackDecoder t = Some d \<and> connected e d"
proof -
  obtain t where t: "ObtainHpackHuffmanTable = Some t" using ObtainHpackHuffmanTable_ok by blast
  then have h: "huffman_ok HpackHuffmanCode t" using ObtainHpackHuffmanTable_ok by (metis option.inject)
  obtain tb where tb: "HpackHeaderTable = Some tb" "table_inv tb" "dynamic_entries tb = []"
    "map name_value (static_entries tb) = HpackStaticTableVector" "max_size tb = kDefaultHeaderTableSizeSetting"
    "settings_size_bound tb = kDefaultHeaderTableSizeSetting"
    using HpackHeaderTable_ok by blast
  obtain e where e: "HpackEncoder t = Some e" "e = \<lparr>encoder_table = tb, output_stream = HpackOutputStream, encoder_huffman_table = t,
      min_table_size_setting_received = size_max, allow_huffman_compression = True, should_emit_table_size = False\<rparr>"
    unfolding HpackEncoder_def tb(1) by simp
  obtain d where d: "HpackDecoder t = Some d" "d = \<lparr>header_table = tb, headers_block_buffer = [], decoded_block = [],
      huffman_table = t, handler = False, handler_calls = [], regular_header_seen = False, header_block_started = False\<rparr>"
    unfolding HpackDecoder_def tb(1) by simp
  have "synced tb tb" using tb by (simp add: synced_def kDefaultHeaderTableSizeSetting_def)
  moreover have "kDefaultHeaderTableSizeSetting \<le> size_max" by (simp add: kDefaultHeaderTableSizeSetting_def size_max_def)
  ultimately have "connected e d"
    using e(2) d(2) t tb h by (simp add: connected_def encoder_ok_def pending_def decoder_inv_def HpackOutputStream_def)
  then show ?thesis using t e(1) d(1) by blast
qed

text \<open>[C3]
  Header sets survive a connection. Through any sequence of header sets and changes of the setting, with
  sizes within the limits of the decoder, encoding and decoding succeed, and every block that is decoded
  is the header set that was encoded: the pseudo-headers before the others, each field with its value,
  zero bytes included, and cookies trimmed and with one space after each semicolon, or unchanged when
  the set is sent without compression.
\<close>

theorem hpack_roundtrip:
  assumes "list_all event_ok evs"
  shows "\<exists>t e d e' d'. ObtainHpackHuffmanTable = Some t \<and> HpackEncoder t = Some e \<and> HpackDecoder t = Some d \<and>
    exchange evs e d = Some (expected_blocks evs, e', d')"
  using new_connection exchange_ok [OF _ assms] by blast

text \<open>[C3] A request and, with a smaller table, the same request without compression.\<close>

theorem hpack_roundtrip_witness:
  "\<exists>t e d e' d'. ObtainHpackHuffmanTable = Some t \<and> HpackEncoder t = Some e \<and> HpackDecoder t = Some d \<and>
    exchange
      [Headers [(bytes_of ''cookie'', bytes_of '' a;b''), (bytes_of '':path'', bytes_of ''/'')], Setting 100,
       Plain_headers [(bytes_of '':path'', bytes_of ''/''), (bytes_of ''cookie'', bytes_of '' a;b'')]] e d =
    Some ([[(bytes_of '':path'', bytes_of ''/''), (bytes_of ''cookie'', bytes_of ''a; b'')],
           [(bytes_of '':path'', bytes_of ''/''), (bytes_of ''cookie'', bytes_of '' a;b'')]], e', d')"
proof -
  let ?path = "bytes_of '':path''" and ?cookie = "bytes_of ''cookie''"
  have k: "is_pseudo ?path" "\<not> is_pseudo ?cookie" "kCookieKey = ?cookie" "?path \<noteq> ?cookie"
    by (simp_all add: is_pseudo_def kPseudoHeaderPrefix_def kCookieKey_def bytes_of_def chr_def)
  have f: "find_char 0x3B 0 [0x61, 0x3B, 0x62] = Some 1" "find_char 0x3B 2 [0x61, 0x3B, 0x62] = None"
    by (simp add: find_char_split) (subst find_char_drop, simp add: find_char_split)
  have l: "crumbs_loop name [0x61, 0x3B, 0x62] 0 = [(name, [0x61]), (name, [0x62])]" for name
    by (subst crumbs_loop.simps, subst crumbs_loop.simps) (simp add: f semicolon Let_def flip: numeral_2_eq_2)
  have "trim (bytes_of '' a;b'') = [0x61, 0x3B, 0x62]"
    by (simp add: bytes_of_def chr_def trim_def is_space_def)
  then have c: "pieces (?cookie, bytes_of '' a;b'') = [(?cookie, bytes_of ''a''), (?cookie, bytes_of ''b'')]"
    by (simp add: pieces_def k CookieToCrumbs_trim l) (simp add: bytes_of_def chr_def)
  have p: "pieces (?path, bytes_of ''/'') = [(?path, bytes_of ''/'')]"
    by (simp add: pieces_def k decompose) (simp add: bytes_of_def chr_def)
  have e: "list_all event_ok [Headers [(?cookie, bytes_of '' a;b''), (?path, bytes_of ''/'')], Setting 100,
      Plain_headers [(?path, bytes_of ''/''), (?cookie, bytes_of '' a;b'')]]"
    using k(4) by (simp add: header_set_ok_def plain_set_ok_def c p field_ok_def field_cost_def k kMaxDecodeBufferSize_def)
      (simp add: bytes_of_def)
  have x: "expected [(?cookie, bytes_of '' a;b''), (?path, bytes_of ''/'')] = [(?path, bytes_of ''/''), (?cookie, bytes_of ''a; b'')]"
    using k by (simp add: expected_def received_def)
      (simp add: bytes_of_def chr_def trim_def is_space_def skip_space_def)
  show ?thesis using hpack_roundtrip [OF e] by (simp only: expected_blocks.simps x)
qed

text \<open>
  The two header tables stay in step: after any such sequence both are well-formed, the dynamic table of
  the encoder is a prefix of that of the decoder, within a limit that is not larger, and fits into the
  smallest size that the encoder has not announced yet.
\<close>

theorem encoder_table_prefix:
  assumes "list_all event_ok evs"
  shows "\<exists>t e d blocks e' d'. ObtainHpackHuffmanTable = Some t \<and> HpackEncoder t = Some e \<and> HpackDecoder t = Some d \<and>
    exchange evs e d = Some (blocks, e', d') \<and> synced (encoder_table e') (header_table d') \<and>
    max_size (encoder_table e') \<le> min_table_size_setting_received e'"
  using new_connection exchange_ok [OF _ assms] unfolding connected_def pending_def by blast

theorem encoder_table_prefix_witness:
  "\<exists>t e d blocks e' d'. ObtainHpackHuffmanTable = Some t \<and> HpackEncoder t = Some e \<and> HpackDecoder t = Some d \<and>
    exchange [Setting 100, Headers [], Setting 5000, Headers []] e d = Some (blocks, e', d') \<and>
    synced (encoder_table e') (header_table d') \<and> max_size (encoder_table e') \<le> min_table_size_setting_received e'"
  by (rule encoder_table_prefix) (simp add: header_set_ok_def kMaxDecodeBufferSize_def)

section \<open>Two limits of the encoder\<close>

text \<open>
  The encoder announces the new setting, but its own table only ever shrinks: after the setting has been
  raised again the size that is announced is not the size that is used.
\<close>

lemma encoder_table_never_grows:
  assumes "connected e d" and "n < 2 ^ 32"
  shows "\<exists>e'. Encoder_ApplyHeaderTableSizeSetting n e = Some e' \<and> CurrentHeaderTableSizeSetting e' = n \<and>
    max_size (encoder_table e') = min n (max_size (encoder_table e))"
proof (cases "n = settings_size_bound (encoder_table e)")
  case True
  then show ?thesis
    using assms(1) by (auto simp: Encoder_ApplyHeaderTableSizeSetting_def CurrentHeaderTableSizeSetting_def connected_def synced_def table_inv_def)
next
  case False
  have inv: "table_inv (encoder_table e)" using assms(1) by (simp add: connected_def encoder_ok_def)
  then show ?thesis
    using False fields_settings [OF inv, of n]
    by (auto simp: Encoder_ApplyHeaderTableSizeSetting_def CurrentHeaderTableSizeSetting_def Let_def)
qed

text \<open>
  Without compression the fields are emitted in the order of the set, and the decoder refuses a block with
  a pseudo-header after a regular header: the second field ends the decoding with an error.
\<close>

lemma EmitNonIndexedLiteral_refused:
  assumes "linked e d" and "field_ok h" and "\<not> admissible h d"
  shows "\<exists>bs. EmitNonIndexedLiteral h e = Some (emitted bs e) \<and> length bs \<le> field_cost h \<and>
    (\<forall>rest. decode_opcodes (input_at 0 (bs @ rest)) d = Some (False, d))"
proof -
  let ?p = kLiteralNoIndexOpcode
  have eo: "encoder_ok e" using assms(1) by (simp add: linked_def)
  have h: "length (fst h) \<le> 16384" "length (snd h) \<le> 16384" using assms(2) by (simp_all add: field_ok_def)
  obtain bs where bs: "emit (AppendUint32 0) (emit (AppendPrefix ?p) e) = emitted bs e" "int_bytes ?p 0 bs"
    using emit_integer [OF eo, of ?p 0] by auto
  obtain ns where ns: "EmitString (fst h) (emitted bs e) = Some (emitted (bs @ ns) e)" "length ns \<le> 6 + length (fst h)"
    "\<And>rest. DecodeNextStringLiteral (input_at 0 (ns @ rest)) d = Some (Some (fst h), input_at 0 rest)"
    using EmitString_linked [of "emitted bs e" d "fst h"] assms(1) h by auto
  obtain vs where vs: "EmitString (snd h) (emitted (bs @ ns) e) = Some (emitted (bs @ ns @ vs) e)" "length vs \<le> 6 + length (snd h)"
    "\<And>rest. DecodeNextStringLiteral (input_at 0 (vs @ rest)) d = Some (Some (snd h), input_at 0 rest)"
    using EmitString_linked [of "emitted (bs @ ns) e" d "snd h"] assms(1) h by auto
  have n: "DecodeNextName (input_at (bit_size ?p) (bs @ ns @ rest)) d = Some (Some (fst h), input_at 0 rest)" for rest
    using bs(2) ns(3) by (simp add: DecodeNextName_def int_bytes_def)
  have r: "HandleHeaderRepresentation (fst h) (snd h) d = Some (False, d)"
    using assms HandleHeaderRepresentation_eq [of d "fst h" "snd h"] by (auto simp: linked_def core_def admissible_def)
  have m: "checked_Match kIndexedOpcode (input_at 0 (bs @ rest)) = Some (False, input_at 0 (bs @ rest))"
    "checked_Match kLiteralIncrementalIndexOpcode (input_at 0 (bs @ rest)) = Some (False, input_at 0 (bs @ rest))"
    "checked_Match ?p (input_at 0 (bs @ rest)) = Some (True, input_at (bit_size ?p) (bs @ rest))" for rest
    using Match_other [OF bs(2), of kIndexedOpcode] Match_other [OF bs(2), of kLiteralIncrementalIndexOpcode] Match_same [OF bs(2)]
    by simp_all
  have "DecodeNextOpcode (input_at 0 ((bs @ ns @ vs) @ rest)) d = Some (False, d, input_at 0 rest)" for rest
    using m n vs(3) r by (simp add: DecodeNextOpcode_def DecodeNextLiteralHeader_def)
  moreover have "bs \<noteq> []" using bs(2) by (simp add: int_bytes_def)
  ultimately have "decode_opcodes (input_at 0 ((bs @ ns @ vs) @ rest)) d = Some (False, d)" for rest
    by (subst decode_opcodes.simps) (simp add: HasMoreData_def)
  moreover have "EmitNonIndexedLiteral h e = Some (emitted (bs @ ns @ vs) e)"
    using bs(1) ns(1) vs(1) by (simp add: EmitNonIndexedLiteral_def Let_def)
  moreover have "length (bs @ ns @ vs) \<le> field_cost h" using bs(2) ns(2) vs(2) by (simp add: int_bytes_def field_cost_def)
  ultimately show ?thesis by blast
qed

lemma plain_order_wire:
  assumes "linked e d" and "field_ok h" and "field_ok p" and "fst h \<noteq> []" and "\<not> is_pseudo (fst h)" and "is_pseudo (fst p)"
    and "\<not> regular_header_seen d"
  shows "\<exists>bytes e' d'. emit_all [h, p] e = Some e' \<and> output_stream e' = add_bytes (output_stream e) bytes \<and>
    length bytes \<le> field_cost h + field_cost p \<and> decode_opcodes (input_at 0 bytes) d = Some (False, d')"
proof -
  have "admissible h d" using assms(5) by (simp add: admissible_def)
  then obtain e1 d1 where e1: "EmitNonIndexedLiteral h e = Some e1" "sends [h] (field_cost h) e e1 d d1"
    using EmitNonIndexedLiteral_sends [OF assms(1) _ assms(2)] by blast
  have "regular_header_seen (see_header h d)"
    using assms(4,5) by (simp add: see_header_def Let_def call_handler_def)
  then have "\<not> admissible p d1" using sends_seen [OF e1(2)] assms(6) by (simp add: admissible_def)
  then obtain bs2 where b2: "EmitNonIndexedLiteral p e1 = Some (emitted bs2 e1)" "length bs2 \<le> field_cost p"
    "\<And>rest. decode_opcodes (input_at 0 (bs2 @ rest)) d1 = Some (False, d1)"
    using EmitNonIndexedLiteral_refused [OF sends_linked [OF e1(2)] assms(3)] by blast
  obtain bs1 where b1: "output_stream e1 = add_bytes (output_stream e) bs1" "length bs1 \<le> field_cost h"
    "\<And>rest. decode_opcodes (input_at 0 (bs1 @ rest)) d = decode_opcodes (input_at 0 rest) d1"
    using e1(2) by (auto simp: sends_def)
  have "decode_opcodes (input_at 0 (bs1 @ bs2)) d = Some (False, d1)" using b1(3) [of bs2] b2(3) [of "[]"] by simp
  moreover have "output_stream (emitted bs2 e1) = add_bytes (output_stream e) (bs1 @ bs2)"
    using b1(1) by (simp add: emitted_def)
  ultimately show ?thesis using e1(1) b1(2) b2(1,2) by (intro exI [of _ "bs1 @ bs2"] exI [of _ "emitted bs2 e1"] exI [of _ d1]) simp
qed

lemma plain_order_refused:
  assumes "connected e d" and "\<not> should_emit_table_size e" and "field_ok h" and "field_ok p"
    and "fst h \<noteq> []" and "\<not> is_pseudo (fst h)" and "is_pseudo (fst p)" and "field_cost h + field_cost p \<le> kMaxDecodeBufferSize"
  shows "\<exists>bytes e' d'. EncodeHeaderSetWithoutCompression [h, p] e = Some (bytes, e') \<and> decode_block False bytes d = Some (False, d')"
proof -
  let ?e = "e\<lparr>allow_huffman_compression := False\<rparr>"
  let ?d = "\<lambda>bytes. d\<lparr>handler := False, decoded_block := [], header_block_started := True, headers_block_buffer := bytes,
      regular_header_seen := False\<rparr>"
  have l: "linked ?e (?d bytes)" for bytes
    using assms(1) unfolding connected_def linked_def core_def decoder_inv_def encoder_ok_def by auto
  note w = plain_order_wire [OF l assms(3-7)]
  obtain bytes e' where b: "emit_all [h, p] ?e = Some e'" "output_stream e' = add_bytes (output_stream e) bytes"
    "length bytes \<le> field_cost h + field_cost p"
    using w [of "[]"] by auto
  obtain d' where d': "decode_opcodes (input_at 0 bytes) (?d bytes) = Some (False, d')"
  proof -
    obtain cs d' where "output_stream e' = add_bytes (output_stream e) cs" "decode_opcodes (input_at 0 cs) (?d bytes) = Some (False, d')"
      using w [of bytes] b(1) by auto
    moreover from this have "cs = bytes" using b(2) by (metis add_bytes_simps(4) same_append_eq)
    ultimately show ?thesis using that by simp
  qed
  have o: "output_stream e' = \<lparr>out_buffer = bytes, out_bit_offset = 0\<rparr>"
    using b(2) assms(1) by (simp add: connected_def HpackOutputStream_def add_bytes_def)
  have "MaybeEmitTableSize ?e = ?e" using assms(2) by (simp add: MaybeEmitTableSize_def)
  then have e: "\<exists>e''. EncodeHeaderSetWithoutCompression [h, p] e = Some (bytes, e'')"
    using b(1) o by (simp add: EncodeHeaderSetWithoutCompression_def Let_def take_output_def TakeString_dcheck_def TakeString_def del: emit_all.simps)
  have len: "\<not> length bytes > kMaxDecodeBufferSize" using b(3) assms(8) by simp
  have "HandleControlFrameHeadersData bytes (HandleControlFrameHeadersStart False d) =
      (True, d\<lparr>handler := False, decoded_block := [], header_block_started := True, headers_block_buffer := bytes\<rparr>)"
    using assms(1) len by (cases d) (simp add: connected_def HandleControlFrameHeadersData_def HandleControlFrameHeadersStart_def Let_def)
  then have "\<exists>d''. decode_block False bytes d = Some (False, d'')"
    using d' by (simp add: decode_block_def HandleControlFrameHeadersComplete_def Let_def)
  then show ?thesis using e by blast
qed

text \<open>
  \<open>EncodeHeaderSetWithoutCompression\<close> does not put the pseudo-headers first: for a set with a pseudo-header
  after a regular one it produces a block that \<open>HpackDecoder\<close> refuses, while \<open>EncodeHeaderSet\<close>
  sends the same set so that it arrives.
\<close>

theorem plain_encoding_keeps_order:
  "\<exists>t e d bytes e' d'. ObtainHpackHuffmanTable = Some t \<and> HpackEncoder t = Some e \<and> HpackDecoder t = Some d \<and>
     EncodeHeaderSetWithoutCompression [(bytes_of ''a'', []), (bytes_of '':b'', [])] e = Some (bytes, e') \<and>
     decode_block False bytes d = Some (False, d') \<and>
     (\<exists>e' d'. exchange [Headers [(bytes_of ''a'', []), (bytes_of '':b'', [])]] e d =
       Some ([[(bytes_of '':b'', []), (bytes_of ''a'', [])]], e', d'))"
proof -
  let ?h = "(bytes_of ''a'', []) :: header" and ?p = "(bytes_of '':b'', []) :: header"
  have k: "is_pseudo (fst ?p)" "\<not> is_pseudo (fst ?h)" "fst ?h \<noteq> []" "fst ?h \<noteq> kCookieKey" "fst ?p \<noteq> kCookieKey" "fst ?h \<noteq> fst ?p"
    by (simp_all add: is_pseudo_def kPseudoHeaderPrefix_def kCookieKey_def bytes_of_def chr_def)
  have f: "field_ok ?h" "field_ok ?p" "field_cost ?h + field_cost ?p \<le> kMaxDecodeBufferSize"
    by (simp_all add: field_ok_def field_cost_def kMaxDecodeBufferSize_def bytes_of_def)
  obtain t e d where n: "ObtainHpackHuffmanTable = Some t" "HpackEncoder t = Some e" "HpackDecoder t = Some d" "connected e d"
    using new_connection by blast
  have "\<not> should_emit_table_size e" using n(2) by (auto simp: HpackEncoder_def split: bind_splits)
  then obtain bytes e' d' where "EncodeHeaderSetWithoutCompression [?h, ?p] e = Some (bytes, e')" "decode_block False bytes d = Some (False, d')"
    using plain_order_refused [OF n(4) _ f(1,2) k(3,2,1) f(3)] by blast
  moreover have "\<exists>e' d'. exchange [Headers [?h, ?p]] e d = Some (expected_blocks [Headers [?h, ?p]], e', d')"
  proof -
    have "pieces ?h = [?h]" "pieces ?p = [?p]" using k by (simp_all add: pieces_def decompose)
    then have "list_all event_ok [Headers [?h, ?p]]" using k f by (simp add: header_set_ok_def field_cost_def kMaxDecodeBufferSize_def bytes_of_def)
    then show ?thesis using exchange_ok [OF n(4)] by blast
  qed
  moreover have "expected_blocks [Headers [?h, ?p]] = [[?p, ?h]]"
    using k by (simp add: expected_def received_def)
  ultimately show ?thesis using n by metis
qed

end
