(* ===== verification/Spec2Isabelle.thy ===== *)
theory Spec2Isabelle
  imports Scheduler_Correct Tiling_Spiral_Correct WebSocket_Channel_Runs WebSocket_Channel_Stream
    Http_Chunked_Coding Hpack_Round_Trip
begin

text \<open>
  A verification development for two parts of this Chromium tree (\<^verbatim>\<open>src/src/\<close>): the scheduling and
  tiling logic of the compositor \<^verbatim>\<open>cc/\<close>, and the wire protocols of the network stack \<^verbatim>\<open>net/\<close>:
  WebSocket, the chunked coding of HTTP/1.1 and the header compression HPACK of HTTP/2. Both are
  self-contained logic with state: what they do is decided by their own code and not by a platform,
  a driver or another project. Every definition is a translation of the code under its own name.

  The compositor. A \<open>Scheduler\<close> decides what the compositor does next. A \<open>BeginFrameSource\<close> sends it
  \<open>BeginFrame\<close> messages; it tells its \<open>SchedulerStateMachine\<close> about them and about everything else
  that happens, asks it for the next action, runs the action by a call to its client, and posts a
  deadline at which the frame is drawn. The client may call back at any time. What a frame draws is
  cut into tiles by \<open>TilingData\<close>.

    \<^item> \<open>Scheduler_State_Machine\<close> is \<^verbatim>\<open>cc/scheduler/scheduler_state_machine.{h,cc}\<close>: the record \<open>ssm\<close>
      has the members of the class, and there is one function per member function: the decisions
      \<open>Should...\<close> and \<open>NextAction\<close>, the notifications \<open>Will...\<close>, the events from outside. What a
      DCHECK asserts is a separate predicate \<open>..._dcheck\<close>.
    \<^item> \<open>Scheduler_Protocol\<close> makes it a transition system: \<open>ssm_op\<close> names the operations, \<open>permitted\<close>
      is the protocol that \<open>Scheduler\<close> and the output surface keep to. An invariant of the reachable
      states gives that no DCHECK fails with the settings of a sequential pipeline, and that between
      frames a lost output surface leads, by at most five actions that finish the frame in flight, to
      the request for a new one, unless the reply of the main thread is awaited; the locale \<open>funnel\<close> (of \<open>Prelude\<close>), interpreted for four
      flags of the state machine, gives that each action happens at most once per phase.
    \<^item> \<open>Begin_Frame\<close> is \<^verbatim>\<open>cc/output/begin_frame_args\<close>, \<^verbatim>\<open>cc/scheduler/begin_frame_tracker\<close> and
      \<^verbatim>\<open>delay_based_time_source\<close>: ticks never double, although the interval may change and a task may run
      early by less than half an interval, since delays are rounded down. \<open>Begin_Frame_Sources\<close> is
      \<^verbatim>\<open>cc/scheduler/begin_frame_source\<close>, the two sources and the multiplexer. The locale
      \<open>begin_frame_source\<close> is what the multiplexer needs of a source; its interpretation is the
      virtual dispatch on the model's sources; there a posted task may run at any time. Frame times increase across every change of source.
    \<^item> \<open>Scheduler\<close> is \<^verbatim>\<open>cc/scheduler/scheduler.{h,cc}\<close> over an environment: client, clock, frame source
      and estimates are functions of the whole history. \<open>Scheduler_Correct\<close> shows that the loop of
      \<open>ProcessScheduledActions\<close> ends for every client that obeys a stated contract, what holds when
      it has, that every entry point returns, and what holds in every reachable state. Handlers run
      inside the loop or start it: the locale \<open>action_processor\<close> states what they need of it, and
      both cases are interpretations.
    \<^item> \<open>Tiling_Data\<close> is \<^verbatim>\<open>cc/base/tiling_data.{h,cc}\<close> with the part of \<^verbatim>\<open>ui/gfx/geometry/rect.{h,cc}\<close> it
      uses: the tiles partition the tiling, and the iterators in row order visit what they should.
      \<open>Tiling_Spiral\<close> holds the two spiral iterators and \<open>Tiling_Spiral_Correct\<close> what they visit. The
      locale \<open>tile_walk\<close> is the contract of an iterator, \<open>partial_tile_walk\<close> that of one whose step
      may fail, of which the first is a case; all four iterators are interpretations.

  The network stack. \<open>WebSocketBasicStream\<close> reads from a socket, has \<open>WebSocketFrameParser\<close> turn
  the bytes into chunks and reassembles these into frames; it writes frames with the functions of
  \<open>websocket_frame.cc\<close>. \<open>WebSocketChannel\<close> speaks the protocol over such a stream on behalf of a
  renderer: it hands on messages as far as the renderer has quota, checks their text with
  \<open>StreamingUtf8Validator\<close>, and carries out the closing handshake. \<open>HttpChunkedDecoder\<close> decodes bodies, with the integer parser of
  \<^verbatim>\<open>base\<close>.
  \<open>HpackDecoder\<close> and \<open>HpackEncoder\<close> are the two ends of the header compression: both keep a header
  table and use bit streams and a Huffman code.

    \<^item> \<open>Big_Endian\<close> is \<^verbatim>\<open>base/big_endian.h\<close>, \<open>WebSocket_Frame\<close> is \<^verbatim>\<open>net/websockets/websocket_frame\<close>
      (the vectorised masking equals a loop over bytes), \<open>WebSocket_Frame_Parser\<close> is
      \<^verbatim>\<open>websocket_frame_parser\<close> and \<^verbatim>\<open>websocket_errors\<close> (the parser refines a scan of the whole
      stream), and \<open>WebSocket_Basic_Stream\<close> is \<^verbatim>\<open>websocket_basic_stream.cc\<close>. In
      \<open>WebSocket_Basic_Stream_Correct\<close>: no CHECK fails, the frames returned carry the messages on the
      wire, and what one end writes the other receives.
    \<^item> \<open>Streaming_Utf8_Validator\<close> is \<^verbatim>\<open>base/i18n/streaming_utf8_validator\<close> with its tables: the automaton
      accepts exactly the encodings of Unicode scalar values, however the input is cut.
    \<^item> \<open>WebSocket_Channel\<close> is \<^verbatim>\<open>net/websockets/websocket_channel.{h,cc}\<close>: every method of the class over
      an environment \<open>channel_env\<close>, which says when an event makes the renderer delete the channel and
      what the calls of the stream return; \<open>perform\<close> is one call or callback, and a log holds the calls
      the channel makes and what each read of the stream returned, before the channel looks at it. From
      this log \<open>frames_read\<close> takes the frames the server has sent, against which the messages given to the
      renderer are judged. \<open>WebSocket_Channel_Correct\<close> keeps the books of both directions (an \<open>account\<close> of
      quota and of frames taken up) through every method (\<open>post\<close> is the postcondition of a method that may
      delete the channel),
      \<open>WebSocket_Channel_Runs\<close> shows by rule induction what holds over the life of a channel, and
      \<open>WebSocket_Channel_Stream\<close> that \<open>WebSocketBasicStream\<close> is an interpretation of \<open>frame_source\<close>, the
      contract the channel relies on when it reads.
    \<^item> \<open>String_Number_Conversions\<close> is the integer part of \<^verbatim>\<open>base/strings/string_number_conversions.cc\<close>:
      the digit loops accept exactly the numerals that fit. \<open>Http_Chunked_Decoder\<close> is
      \<^verbatim>\<open>net/http/http_chunked_decoder\<close>, \<open>Http_Chunked_Coding\<close> has the encoder of \<^verbatim>\<open>http_stream_parser.cc\<close>,
      the round trip and the refinement by the filter that works in place, whose \<open>memmove\<close> and scans are
      \<open>None\<close> outside the buffer.
    \<^item> \<^verbatim>\<open>net/spdy/hpack/\<close>: \<open>Hpack_Stream\<close> (bit streams, integers, and what the reader of integers returns for
      every input), \<open>Hpack_Header_Table\<close> (static and
      dynamic table with its index; it refines a queue limited by size; its sets of entries are an
      interpretation of the locale \<open>keyed_set\<close>), \<open>Hpack_Huffman_Table\<close> (construction of the decode
      tables, coding of strings), \<open>Hpack_Huffman_Build\<close> (the tables of any canonical code are right),
      \<open>Hpack_Huffman_Coding\<close> (decoding is the greedy division of the bits into codes),
      \<open>Hpack_Huffman_Code\<close> (the code of RFC 7541, as in \<open>hpack_constants.cc\<close>), \<open>Hpack_Decoder\<close>,
      \<open>Hpack_Encoder\<close>, \<open>Hpack_Crumbs\<close> (pieces of cookies and values), \<open>Hpack_Emission\<close> (one
      representation from end to end) and \<open>Hpack_Round_Trip\<close> (a whole connection).

  Conventions. A class is a record of its members without the trailing underscore, a method takes and
  returns the record; an \<open>enum\<close> is a datatype. Unsigned integers of the protocols are words; an \<open>int\<close>
  is an \<^typ>\<open>int\<close>, or a natural number where the code keeps it nonnegative, and ranges are stated where
  overflow matters. The one counter that the code lets overflow, \<open>bytes_after_eof_\<close> of the chunked decoder
  after 2 to the 31 bytes behind the end of a body, is a natural number here. A pointer into a buffer is an index, a string a list of bytes. An error code is
  a value. Where a failed CHECK or DCHECK, an access out of bounds or a loop that does not end is the
  result \<open>None\<close>, that it does not occur is a theorem.

  Loops and bounds. Recursion that needs an argument for its end is a \<open>partial_function (option)\<close>
  and its end is proved: \<open>process_loop\<close> by a measure of what the state machine still wants;
  \<open>place_symbol\<close>, \<open>fill_table\<close> and \<open>decode_symbols\<close> by the bits that are left; \<open>decode_opcodes\<close> by the
  bytes that are left; \<open>spiral_loop\<close> by rings, sides and steps up to the first ring past the rectangle,
  and \<open>reverse_spiral_loop\<close> by those up to the centre. Fuel occurs only in functions that play the
  caller: a \<open>walk\<close> over tiles, for which the number of tiles is enough, and \<open>read_all\<close>, which calls a
  reader until its read fails or is pending and for which \<open>reader_never_aborts\<close> says how much is
  enough; \<open>outcomes\<close> makes at most \<open>n\<close> calls of a stream and holds for every \<open>n\<close>. \<open>WriteFrames\<close> of the
  channel writes at most two buffers. A renderer grants less than 2 to the 64 bytes in all and sends
  frames of less than 2 to the 31. The construction of Huffman tables is shown for codes that need fewer than 255 tables, the
  range of the index of a table; that of HPACK is one. The round trip of HPACK is stated for names and
  values within the limits of the decoder (literals of 16 kilobytes, fragments of 32), and table sizes
  below 2 to the 32.

  Where the code does not do what its comments or its design say, a theorem shows it: an aborted main
  frame can lose the pending tree in one mode of the scheduler; a carriage return is ignored at the end
  of a read; an HPACK integer may wrap; an incomplete Huffman code accepts bits without a code; the
  encoder without compression may emit a block that the decoder refuses; a channel closed with the
  code for no code and a reason fails an assertion; the spiral iterators leave out the centre. The
  last of these, and what the comments say of equal frame times, look-ups, handlers, table sizes and the
  bounds of hexadecimal integers (both are accepted), are differences between code and comments only.

  Not modelled. In the modelled classes: tracing, \<open>AsValue\<close> and debug output; \<open>CompositorTimingHistory\<close>,
  whose estimates are parameters of the scheduler; overflow of rectangle coordinates, which are
  unbounded integers; the members of
  \<open>gfx::Rect\<close> no modelled code calls; conversions of floating-point numbers; the sockets, the clock and
  the random masking keys, which are parameters; the state machine of \<open>HttpStreamParser\<close>; the
  opening handshake and the extensions of WebSocket; calls back into a \<open>WebSocketChannel\<close> from within
  an event, and the durations it reports; a \<open>BeginFrameSource\<close> that is called back by its observer
  while it delivers a frame. The rest of the tree
  is left out because it is drawing over Skia and OpenGL, asynchronous I/O on files, sockets and pipes,
  the process model and embedding API of the browser, or code of other projects (Blink, V8, Skia, ICU,
  BoringSSL and others) that is vendored here.
\<close>

end
